(* ===== verification/Js_Prelude.thy ===== *)
theory Js_Prelude
  imports Main "HOL-Library.Char_ord" "HOL-Library.List_Lexorder"
begin

text \<open>
  What the components share: the errors JavaScript code throws and the results of code that
  may throw, loops over a list whose body may throw (\<open>rfold\<close>), plain JavaScript objects as
  insertion-ordered association lists with the property order of the language (array-index
  keys ascending, then the other keys in order of creation), and the string operations the
  sources call. The lemmas on these are collected for the simplifier and in the named
  collections \<open>obj_simps\<close> (lookups after an update) and \<open>res_simps\<close> (results).
\<close>

named_theorems obj_simps "lookup, keys and well-formedness of an updated object"
named_theorems res_simps "results of code that may throw"

section \<open>Errors and results\<close>

text \<open>The exceptions the modelled code throws itself (\<open>Error\<close>, \<open>CycleException\<close>) and the ones
  the language throws on a property of \<open>undefined\<close>, an unbound name or an unparsable text;
  \<open>Diverges\<close> is the outcome of a loop that never ends.\<close>

datatype js_error =
    Error string
  | TypeError string
  | ReferenceError string
  | SyntaxError string
  | CycleException
  | Diverges

type_synonym 'a result = "js_error + 'a"

definition rbind :: "'e + 'a \<Rightarrow> ('a \<Rightarrow> 'e + 'b) \<Rightarrow> 'e + 'b" where
  "rbind r f = (case r of Inl e \<Rightarrow> Inl e | Inr a \<Rightarrow> f a)"

lemma rbind_simps [simp, res_simps]:
  "rbind (Inl e) f = Inl e"
  "rbind (Inr a) f = f a"
  by (simp_all add: rbind_def)

lemma rbind_cong [fundef_cong]:
  "r = r' \<Longrightarrow> (\<And>a. r' = Inr a \<Longrightarrow> f a = g a) \<Longrightarrow> rbind r f = rbind r' g"
  by (cases r') simp_all

lemma rbind_Inr_iff: "rbind r f = Inr b \<longleftrightarrow> (\<exists>a. r = Inr a \<and> f a = Inr b)"
  by (cases r) simp_all

lemma rbind_assoc: "rbind (rbind r f) g = rbind r (\<lambda>a. rbind (f a) g)"
  by (cases r) simp_all

text \<open>\<open>xs.forEach(body)\<close> for a body that updates a state and may throw.\<close>

fun rfold :: "('a \<Rightarrow> 's \<Rightarrow> 'e + 's) \<Rightarrow> 'a list \<Rightarrow> 's \<Rightarrow> 'e + 's" where
  "rfold f [] s = Inr s"
| "rfold f (x # xs) s = rbind (f x s) (rfold f xs)"

lemma rfold_cong [fundef_cong]:
  "xs = ys \<Longrightarrow> s = t \<Longrightarrow> (\<And>x s. x \<in> set ys \<Longrightarrow> f x s = g x s) \<Longrightarrow> rfold f xs s = rfold g ys t"
  by (induction xs arbitrary: ys s t) (auto intro!: rbind_cong)

lemma rfold_append: "rfold f (xs @ ys) s = rbind (rfold f xs s) (rfold f ys)"
  by (induction xs arbitrary: s) (auto simp: rbind_assoc intro!: rbind_cong)

text \<open>Loops that skip elements or run an inner loop are a loop over the elements that matter.\<close>

lemma rfold_filter_map:
  assumes "\<And>x s. x \<in> set xs \<Longrightarrow> f x s = (if P x then g (h x) s else Inr s)"
  shows "rfold f xs s = rfold g (map h (filter P xs)) s"
  using assms
proof (induction xs arbitrary: s)
  case (Cons x xs)
  then have "rfold f xs = rfold g (map h (filter P xs))" by (simp add: fun_eq_iff)
  with Cons.prems [of x s] show ?case by simp
qed simp

lemma rfold_concat_map:
  assumes "\<And>x s. x \<in> set xs \<Longrightarrow> f x s = rfold g (h x) s"
  shows "rfold f xs s = rfold g (concat (map h xs)) s"
  using assms
proof (induction xs arbitrary: s)
  case (Cons x xs)
  then have "rfold f xs = rfold g (concat (map h xs))" by (simp add: fun_eq_iff)
  with Cons.prems [of x s] show ?case by (simp add: rfold_append)
qed simp

text \<open>The loop rule: an invariant the body keeps without throwing holds after the loop, and the
  loop does not throw.\<close>

lemma rfold_invariant:
  assumes "P s" and "\<And>x s. x \<in> set xs \<Longrightarrow> P s \<Longrightarrow> \<exists>s'. f x s = Inr s' \<and> P s'"
  shows "\<exists>s'. rfold f xs s = Inr s' \<and> P s'"
  using assms
proof (induction xs arbitrary: s)
  case (Cons x xs)
  from Cons.prems(1) Cons.prems(2) [of x s] obtain s' where "f x s = Inr s'" "P s'" by auto
  with Cons.IH [of s'] Cons.prems(2) show ?case by simp
qed simp

text \<open>The same with the processed prefix in view, for loops that build a result up.\<close>

lemma rfold_prefix_invariant:
  assumes "P [] s"
    and step: "\<And>ys x zs s. xs = ys @ x # zs \<Longrightarrow> P ys s \<Longrightarrow> \<exists>s'. f x s = Inr s' \<and> P (ys @ [x]) s'"
  shows "\<exists>s'. rfold f xs s = Inr s' \<and> P xs s'"
proof -
  have "xs = ys @ zs \<Longrightarrow> P ys s \<Longrightarrow> \<exists>s'. rfold f zs s = Inr s' \<and> P (ys @ zs) s'" for ys zs s
  proof (induction zs arbitrary: ys s)
    case (Cons z zs)
    then obtain s' where s': "f z s = Inr s'" "P (ys @ [z]) s'" using step [of ys z zs s] by auto
    with Cons.IH [of "ys @ [z]" s'] Cons.prems show ?case by simp
  qed simp
  from this [of "[]" xs s] assms(1) show ?thesis by simp
qed

text \<open>The same for a body that may throw: either the loop ends with the invariant, or it throws for a reason.\<close>

lemma rfold_prefix_outcome:
  assumes "P [] s"
    and step: "\<And>ys x zs s. xs = ys @ x # zs \<Longrightarrow> P ys s \<Longrightarrow>
      (\<exists>s'. f x s = Inr s' \<and> P (ys @ [x]) s') \<or> (\<exists>e. f x s = Inl e \<and> Q e)"
  shows "(\<exists>s'. rfold f xs s = Inr s' \<and> P xs s') \<or> (\<exists>e. rfold f xs s = Inl e \<and> Q e)"
proof -
  have "xs = ys @ zs \<Longrightarrow> P ys s \<Longrightarrow>
      (\<exists>s'. rfold f zs s = Inr s' \<and> P (ys @ zs) s') \<or> (\<exists>e. rfold f zs s = Inl e \<and> Q e)" for ys zs s
  proof (induction zs arbitrary: ys s)
    case (Cons z zs)
    from step [of ys z zs s] Cons.prems
    consider s' where "f z s = Inr s'" "P (ys @ [z]) s'" | e where "f z s = Inl e" "Q e" by blast
    then show ?case
    proof cases
      case 1
      with Cons.IH [of "ys @ [z]" s'] Cons.prems show ?thesis by simp
    qed simp
  qed simp
  from this [of "[]" xs s] assms(1) show ?thesis by simp
qed

text \<open>\<open>obj.prop\<close> where \<open>obj\<close> may be \<open>undefined\<close>: reading through \<open>undefined\<close> throws.\<close>

definition deref :: "'a option \<Rightarrow> 'a result" where
  "deref x = (case x of None \<Rightarrow> Inl (TypeError ''undefined'') | Some a \<Rightarrow> Inr a)"

lemma deref_simps [simp, res_simps]:
  "deref None = Inl (TypeError ''undefined'')"
  "deref (Some a) = Inr a"
  by (simp_all add: deref_def)

section \<open>Objects\<close>

text \<open>
  A plain object is the list of its own properties in enumeration order. Integer-index keys
  (canonical decimal strings below \<open>2 ^ 32 - 1\<close>) come first in ascending order, the others in
  the order in which they were created, and an assignment to an existing key keeps its place.
\<close>

type_synonym 'a obj = "(string \<times> 'a) list"

definition is_digit :: "char \<Rightarrow> bool" where
  "is_digit c \<longleftrightarrow> c \<in> set ''0123456789''"

fun index_val :: "string \<Rightarrow> nat \<Rightarrow> nat" where
  "index_val [] n = n"
| "index_val (c # cs) n = index_val cs (10 * n + (of_char c - 48))"

definition is_index :: "string \<Rightarrow> bool" where
  "is_index k \<longleftrightarrow> k \<noteq> [] \<and> list_all is_digit k \<and> (hd k \<noteq> CHR ''0'' \<or> k = ''0'') \<and>
     index_val k 0 < 4294967295"

definition before :: "string \<Rightarrow> string \<Rightarrow> bool" where
  "before k' k \<longleftrightarrow> is_index k' \<and> index_val k' 0 < index_val k 0"

definition keys :: "'a obj \<Rightarrow> string list" where
  "keys ob = map fst ob"

definition vals :: "'a obj \<Rightarrow> 'a list" where
  "vals ob = map snd ob"

definition get :: "'a obj \<Rightarrow> string \<Rightarrow> 'a option" where
  "get ob k = map_of ob k"

definition has :: "'a obj \<Rightarrow> string \<Rightarrow> bool" where
  "has ob k \<longleftrightarrow> get ob k \<noteq> None"

definition put :: "string \<Rightarrow> 'a \<Rightarrow> 'a obj \<Rightarrow> 'a obj" where
  "put k v ob =
     (if has ob k then map (\<lambda>(k', v'). (k', if k' = k then v else v')) ob
      else if is_index k then
        takeWhile (\<lambda>(k', _). before k' k) ob @ (k, v) # dropWhile (\<lambda>(k', _). before k' k) ob
      else ob @ [(k, v)])"

definition del :: "string \<Rightarrow> 'a obj \<Rightarrow> 'a obj" where
  "del k ob = filter (\<lambda>(k', _). k' \<noteq> k) ob"

definition obj_ok :: "'a obj \<Rightarrow> bool" where
  "obj_ok ob \<longleftrightarrow> distinct (keys ob)"

lemma has_iff [obj_simps]: "has ob k \<longleftrightarrow> k \<in> set (keys ob)"
  by (simp add: has_def get_def keys_def map_of_eq_None_iff)

lemma get_None_iff: "get ob k = None \<longleftrightarrow> k \<notin> set (keys ob)"
  by (simp add: get_def keys_def map_of_eq_None_iff)

lemma get_Some_key: "get ob k = Some v \<Longrightarrow> k \<in> set (keys ob)"
  by (metis get_None_iff option.distinct(1))

lemma key_get: "k \<in> set (keys ob) \<Longrightarrow> \<exists>v. get ob k = Some v"
  by (metis get_None_iff not_None_eq)

lemma get_Nil [simp]: "get [] k = None"
  by (simp add: get_def)

lemma get_Cons: "get ((k', v) # ob) k = (if k = k' then Some v else get ob k)"
  by (simp add: get_def)

lemma obj_ok_Cons: "obj_ok ((k, v) # ob) \<longleftrightarrow> k \<notin> set (keys ob) \<and> obj_ok ob"
  by (simp add: obj_ok_def keys_def)

lemma keys_Nil [simp]: "keys [] = []"
  by (simp add: keys_def)

lemma vals_Nil [simp]: "vals [] = []"
  by (simp add: vals_def)

lemma obj_ok_Nil [simp]: "obj_ok []"
  by (simp add: obj_ok_def)

lemma length_keys [simp]: "length (keys ob) = length ob"
  by (simp add: keys_def)

lemma keys_eq_Nil [simp]: "keys ob = [] \<longleftrightarrow> ob = []"
  by (simp add: keys_def)

lemma get_mem_iff: "obj_ok ob \<Longrightarrow> get ob k = Some v \<longleftrightarrow> (k, v) \<in> set ob"
  by (simp add: get_def obj_ok_def keys_def)

lemma vals_set: "obj_ok ob \<Longrightarrow> set (vals ob) = {v. \<exists>k. get ob k = Some v}"
  by (force simp: vals_def get_mem_iff image_iff)

lemma map_of_insert_notin:
  "k \<notin> fst ` set xs \<Longrightarrow> map_of (xs @ (k, v) # ys) = (map_of (xs @ ys))(k \<mapsto> v)"
  by (induction xs) (auto simp: fun_eq_iff map_of_eq_None_iff)

lemma map_of_map_upd:
  "map_of (map (\<lambda>(k', v'). (k', if k' = k then v else v')) xs) k' =
     (if k' = k then map_option (\<lambda>_. v) (map_of xs k) else map_of xs k')"
  by (induction xs) auto

lemma put_decomp:
  obtains (upd) "has ob k" "put k v ob = map (\<lambda>(k', v'). (k', if k' = k then v else v')) ob"
  | (ins) xs ys where "\<not> has ob k" "ob = xs @ ys" "put k v ob = xs @ (k, v) # ys"
proof (cases "has ob k")
  case True
  then show thesis by (intro upd) (simp_all add: put_def)
next
  case False
  then show thesis
    by (cases "is_index k"; intro ins [of "if is_index k then takeWhile (\<lambda>(k', _). before k' k) ob else ob"
          "if is_index k then dropWhile (\<lambda>(k', _). before k' k) ob else []"])
      (simp_all add: put_def)
qed

lemma get_put_fun: "get (put k v ob) = (get ob)(k \<mapsto> v)"
proof (cases rule: put_decomp [of ob k v])
  case upd
  then show ?thesis by (auto simp: get_def fun_eq_iff map_of_map_upd has_def)
next
  case (ins xs ys)
  then have "k \<notin> fst ` set xs" by (simp add: has_iff keys_def)
  with ins map_of_insert_notin [of k xs v ys] show ?thesis by (simp add: get_def [abs_def])
qed

lemma get_put [simp, obj_simps]: "get (put k v ob) k' = (if k' = k then Some v else get ob k')"
  by (simp add: get_put_fun)

lemma set_keys_put [simp, obj_simps]: "set (keys (put k v ob)) = insert k (set (keys ob))"
proof -
  have "x \<in> set (keys (put k v ob)) \<longleftrightarrow> x = k \<or> x \<in> set (keys ob)" for x
    by (metis get_None_iff get_put option.distinct(1))
  then show ?thesis by auto
qed

lemma keys_put_has: "k \<in> set (keys ob) \<Longrightarrow> keys (put k v ob) = keys ob"
  by (simp add: put_def has_iff) (simp add: keys_def split_def comp_def)

lemma obj_ok_put [simp, obj_simps]: "obj_ok ob \<Longrightarrow> obj_ok (put k v ob)"
proof (cases rule: put_decomp [of ob k v])
  case upd
  then show "obj_ok ob \<Longrightarrow> ?thesis"
    using keys_put_has [of k ob v] by (simp add: obj_ok_def has_iff)
next
  case (ins xs ys)
  then show "obj_ok ob \<Longrightarrow> ?thesis" by (auto simp: obj_ok_def keys_def has_iff)
qed

lemma length_put: "length (put k v ob) = (if k \<in> set (keys ob) then length ob else Suc (length ob))"
  by (cases rule: put_decomp [of ob k v]) (auto simp: has_iff)

lemma get_del [simp, obj_simps]: "get (del k ob) k' = (if k' = k then None else get ob k')"
  by (induction ob) (auto simp: get_def del_def)

lemma keys_del: "keys (del k ob) = filter (\<lambda>k'. k' \<noteq> k) (keys ob)"
  by (induction ob) (auto simp: keys_def del_def)

lemma set_keys_del [simp, obj_simps]: "set (keys (del k ob)) = set (keys ob) - {k}"
  by (auto simp: keys_del)

lemma obj_ok_del [simp, obj_simps]: "obj_ok ob \<Longrightarrow> obj_ok (del k ob)"
  by (simp add: obj_ok_def keys_del)

lemma del_notin: "k \<notin> set (keys ob) \<Longrightarrow> del k ob = ob"
  by (induction ob) (auto simp: keys_def del_def)

lemma del_decomp:
  assumes "obj_ok ob" "get ob k = Some v"
  obtains xs ys where "ob = xs @ (k, v) # ys" "del k ob = xs @ ys"
proof -
  from assms have "(k, v) \<in> set ob" by (simp add: get_mem_iff)
  then obtain xs ys where o: "ob = xs @ (k, v) # ys" by (metis split_list)
  with assms(1) have "k \<notin> set (keys xs)" "k \<notin> set (keys ys)" by (auto simp: obj_ok_def keys_def)
  then have "del k xs = xs" "del k ys = ys" by (simp_all add: del_notin)
  with o have "del k ob = xs @ ys" by (simp add: del_def)
  with o show thesis by (rule that)
qed

lemma length_del:
  "obj_ok ob \<Longrightarrow> length (del k ob) = (if k \<in> set (keys ob) then length ob - 1 else length ob)"
proof (cases "k \<in> set (keys ob)")
  case True
  assume ok: "obj_ok ob"
  from True obtain v where "get ob k = Some v" using key_get by blast
  with ok obtain xs ys where "ob = xs @ (k, v) # ys" "del k ob = xs @ ys" by (rule del_decomp)
  with True show ?thesis by simp
qed (simp add: del_notin)

lemma ok_empty_iff: "ob = [] \<longleftrightarrow> (\<forall>k. get ob k = None)"
  by (cases ob) (auto simp: get_None_iff keys_def)

text \<open>Objects are a map: the interface of a key-value store, with the laws every client of a
  table uses (what a lookup returns after a store or a removal, and that both keep the
  table well formed).\<close>

locale key_store =
  fixes lookup :: "'t \<Rightarrow> string \<Rightarrow> 'v option"
    and store :: "string \<Rightarrow> 'v \<Rightarrow> 't \<Rightarrow> 't"
    and remove :: "string \<Rightarrow> 't \<Rightarrow> 't"
    and ok :: "'t \<Rightarrow> bool"
  assumes lookup_store: "ok t \<Longrightarrow> lookup (store k v t) k' = (if k' = k then Some v else lookup t k')"
    and lookup_remove: "ok t \<Longrightarrow> lookup (remove k t) k' = (if k' = k then None else lookup t k')"
    and ok_store: "ok t \<Longrightarrow> ok (store k v t)"
    and ok_remove: "ok t \<Longrightarrow> ok (remove k t)"
begin

lemma store_many:
  "ok t \<Longrightarrow> ok (fold (\<lambda>x. store (kf x) (vf x)) xs t) \<and>
     lookup (fold (\<lambda>x. store (kf x) (vf x)) xs t) k =
       (if k \<in> kf ` set xs then Some (vf (last (filter (\<lambda>x. kf x = k) xs))) else lookup t k)"
  by (induction xs arbitrary: t)
    (auto simp: lookup_store ok_store filter_empty_conv dest: filter_eq_ConsD)

lemma remove_many:
  "ok t \<Longrightarrow> ok (fold remove ks t) \<and>
     lookup (fold remove ks t) k = (if k \<in> set ks then None else lookup t k)"
  by (induction ks arbitrary: t) (auto simp: lookup_remove ok_remove)

lemma store_remove: "ok t \<Longrightarrow> lookup t k = None \<Longrightarrow> lookup (remove k (store k v t)) = lookup t"
  by (simp add: fun_eq_iff lookup_remove lookup_store ok_store)

end

interpretation js_object: key_store get put del obj_ok
  by unfold_locales simp_all

end
