(* ===== verification/Graphlib_Graph.thy ===== *)
theory Graphlib_Graph
  imports Js_Prelude
begin

text \<open>
  The \<open>Graph\<close> class of graphlib as bundled in \<^verbatim>\<open>d3/dagre-d3.js\<close> (module 106), the store both
  graph views of the program build their pictures in. The object's fields are a record, each
  table a JavaScript object; every method is one definition, and a method that throws, or that
  reads through a missing entry of a table, returns the exception. Labels are values or
  \<open>undefined\<close> (\<open>None\<close>); an argument that a caller may leave out is an option whose \<open>None\<close>
  means that it was left out.
\<close>

section \<open>Data\<close>

definition DEFAULT_EDGE_NAME :: string where "DEFAULT_EDGE_NAME = [CHR 0x00]"
definition GRAPH_NODE :: string where "GRAPH_NODE = [CHR 0x00]"
definition EDGE_KEY_DELIM :: string where "EDGE_KEY_DELIM = [CHR 0x01]"

record edgeObj =
  e_v :: string
  e_w :: string
  e_name :: "string option"

record ('g, 'n, 'e) Graph =
  f_isDirected :: bool
  f_isMultigraph :: bool
  f_isCompound :: bool
  f_label :: "'g option"
  f_defaultNodeLabelFn :: "string \<Rightarrow> 'n option"
  f_defaultEdgeLabelFn :: "string \<Rightarrow> string \<Rightarrow> string option \<Rightarrow> 'e option"
  f_nodes :: "'n option obj"
  f_parent :: "string obj"
  f_children :: "bool obj obj"
  f_in :: "edgeObj obj obj"
  f_preds :: "int obj obj"
  f_out :: "edgeObj obj obj"
  f_sucs :: "int obj obj"
  f_edgeObjs :: "edgeObj obj"
  f_edgeLabels :: "'e option obj"
  f_nodeCount :: int
  f_edgeCount :: int

section \<open>Operations\<close>

text \<open>\<open>new Graph(opts)\<close>; each option may be missing. The tables of the compound structure
  exist only in a compound graph, no other method reads them in one that is not.\<close>

definition newGraph :: "bool option \<Rightarrow> bool option \<Rightarrow> bool option \<Rightarrow> ('g, 'n, 'e) Graph" where
  "newGraph directed multigraph compound =
     (let isCompound = (case compound of Some c \<Rightarrow> c | None \<Rightarrow> False) in
      \<lparr>f_isDirected = (case directed of Some d \<Rightarrow> d | None \<Rightarrow> True),
       f_isMultigraph = (case multigraph of Some m \<Rightarrow> m | None \<Rightarrow> False),
       f_isCompound = isCompound,
       f_label = None,
       f_defaultNodeLabelFn = (\<lambda>_. None),
       f_defaultEdgeLabelFn = (\<lambda>_ _ _. None),
       f_nodes = [],
       f_parent = [],
       f_children = (if isCompound then put GRAPH_NODE [] [] else []),
       f_in = [], f_preds = [], f_out = [], f_sucs = [],
       f_edgeObjs = [], f_edgeLabels = [],
       f_nodeCount = 0, f_edgeCount = 0\<rparr>)"

definition isDirected :: "('g, 'n, 'e) Graph \<Rightarrow> bool" where "isDirected g = f_isDirected g"
definition isMultigraph :: "('g, 'n, 'e) Graph \<Rightarrow> bool" where "isMultigraph g = f_isMultigraph g"
definition isCompound :: "('g, 'n, 'e) Graph \<Rightarrow> bool" where "isCompound g = f_isCompound g"

definition setGraph :: "'g option \<Rightarrow> ('g, 'n, 'e) Graph \<Rightarrow> ('g, 'n, 'e) Graph" where
  "setGraph label g = g\<lparr>f_label := label\<rparr>"

definition graph :: "('g, 'n, 'e) Graph \<Rightarrow> 'g option" where "graph g = f_label g"

text \<open>A default is a value (\<open>Inl\<close>, made a constant function) or a function (\<open>Inr\<close>).\<close>

definition setDefaultNodeLabel ::
  "'n option + (string \<Rightarrow> 'n option) \<Rightarrow> ('g, 'n, 'e) Graph \<Rightarrow> ('g, 'n, 'e) Graph" where
  "setDefaultNodeLabel newDefault g =
     g\<lparr>f_defaultNodeLabelFn := (case newDefault of Inl c \<Rightarrow> (\<lambda>_. c) | Inr f \<Rightarrow> f)\<rparr>"

definition setDefaultEdgeLabel ::
  "'e option + (string \<Rightarrow> string \<Rightarrow> string option \<Rightarrow> 'e option) \<Rightarrow>
     ('g, 'n, 'e) Graph \<Rightarrow> ('g, 'n, 'e) Graph" where
  "setDefaultEdgeLabel newDefault g =
     g\<lparr>f_defaultEdgeLabelFn := (case newDefault of Inl c \<Rightarrow> (\<lambda>_ _ _. c) | Inr f \<Rightarrow> f)\<rparr>"

definition nodeCount :: "('g, 'n, 'e) Graph \<Rightarrow> int" where "nodeCount g = f_nodeCount g"
definition edgeCount :: "('g, 'n, 'e) Graph \<Rightarrow> int" where "edgeCount g = f_edgeCount g"

definition nodes :: "('g, 'n, 'e) Graph \<Rightarrow> string list" where "nodes g = keys (f_nodes g)"
definition edges :: "('g, 'n, 'e) Graph \<Rightarrow> edgeObj list" where "edges g = vals (f_edgeObjs g)"

text \<open>\<open>_.isEmpty(table[v])\<close>: true as well when there is no entry.\<close>

definition isEmptyEntry :: "'a obj obj \<Rightarrow> string \<Rightarrow> bool" where
  "isEmptyEntry t v = (case get t v of None \<Rightarrow> True | Some ob \<Rightarrow> ob = [])"

definition sources :: "('g, 'n, 'e) Graph \<Rightarrow> string list" where
  "sources g = filter (isEmptyEntry (f_in g)) (nodes g)"

definition sinks :: "('g, 'n, 'e) Graph \<Rightarrow> string list" where
  "sinks g = filter (isEmptyEntry (f_out g)) (nodes g)"

text \<open>\<open>table[k] = f(table[k])\<close> on a table of objects: throws when there is no entry.\<close>

definition upd_in :: "string \<Rightarrow> ('a \<Rightarrow> 'a) \<Rightarrow> 'a obj \<Rightarrow> 'a obj result" where
  "upd_in k f t = rbind (deref (get t k)) (\<lambda>ob. Inr (put k (f ob) t))"

definition setNode :: "string \<Rightarrow> 'n option option \<Rightarrow> ('g, 'n, 'e) Graph \<Rightarrow> ('g, 'n, 'e) Graph result" where
  "setNode v value g =
     (if has (f_nodes g) v then
        Inr (case value of Some x \<Rightarrow> g\<lparr>f_nodes := put v x (f_nodes g)\<rparr> | None \<Rightarrow> g)
      else
        let g1 = g\<lparr>f_nodes := put v (case value of Some x \<Rightarrow> x | None \<Rightarrow> f_defaultNodeLabelFn g v) (f_nodes g)\<rparr>
        in rbind
             (if f_isCompound g then
                rbind (upd_in GRAPH_NODE (put v True) (put v [] (f_children g1))) (\<lambda>c.
                  Inr (g1\<lparr>f_parent := put v GRAPH_NODE (f_parent g1), f_children := c\<rparr>))
              else Inr g1)
             (\<lambda>g2. Inr (g2\<lparr>f_in := put v [] (f_in g2), f_preds := put v [] (f_preds g2),
                           f_out := put v [] (f_out g2), f_sucs := put v [] (f_sucs g2),
                           f_nodeCount := f_nodeCount g2 + 1\<rparr>)))"

definition setNodes :: "string list \<Rightarrow> 'n option option \<Rightarrow> ('g, 'n, 'e) Graph \<Rightarrow> ('g, 'n, 'e) Graph result" where
  "setNodes vs value g = rfold (\<lambda>v. setNode v value) vs g"

definition node :: "string \<Rightarrow> ('g, 'n, 'e) Graph \<Rightarrow> 'n option" where
  "node v g = (case get (f_nodes g) v of Some x \<Rightarrow> x | None \<Rightarrow> None)"

definition hasNode :: "string \<Rightarrow> ('g, 'n, 'e) Graph \<Rightarrow> bool" where
  "hasNode v g = has (f_nodes g) v"

subsection \<open>The compound structure\<close>

text \<open>\<open>delete this._children[this._parent[v]][v]\<close>; a missing parent indexes the table with the
  string of \<open>undefined\<close>.\<close>

definition removeFromParentsChildList :: "string \<Rightarrow> ('g, 'n, 'e) Graph \<Rightarrow> ('g, 'n, 'e) Graph result" where
  "removeFromParentsChildList v g =
     rbind (upd_in (case get (f_parent g) v of Some p \<Rightarrow> p | None \<Rightarrow> ''undefined'') (del v) (f_children g))
       (\<lambda>c. Inr (g\<lparr>f_children := c\<rparr>))"

definition parent :: "string \<Rightarrow> ('g, 'n, 'e) Graph \<Rightarrow> string option" where
  "parent v g =
     (if f_isCompound g then
        (case get (f_parent g) v of
           Some p \<Rightarrow> if p \<noteq> GRAPH_NODE then Some p else None
         | None \<Rightarrow> None)
      else None)"

definition children :: "string option \<Rightarrow> ('g, 'n, 'e) Graph \<Rightarrow> string list option" where
  "children v g =
     (let v' = (case v of None \<Rightarrow> GRAPH_NODE | Some x \<Rightarrow> x) in
      if f_isCompound g then map_option keys (get (f_children g) v')
      else if v' = GRAPH_NODE then Some (nodes g)
      else if hasNode v' g then Some []
      else None)"

text \<open>
  The loop of \<open>setParent\<close> over the ancestors of the new parent. Every ancestor but the first has
  an entry in the parent table, so a walk of more steps than the table has entries goes round a
  cycle and the loop of the source never ends: the last argument counts the steps, and running
  out of it is that outcome (\<open>None\<close>). \<open>Some True\<close> means that \<open>v\<close> was met.
\<close>

fun ancestorLoop :: "('g, 'n, 'e) Graph \<Rightarrow> string \<Rightarrow> string option \<Rightarrow> nat \<Rightarrow> bool option" where
  "ancestorLoop g v None fuel = Some False"
| "ancestorLoop g v (Some a) 0 = None"
| "ancestorLoop g v (Some a) (Suc fuel) =
     (if a = v then Some True else ancestorLoop g v (parent a g) fuel)"

definition parentCycleError :: "string \<Rightarrow> string \<Rightarrow> js_error" where
  "parentCycleError p v = Error (''Setting '' @ p @ '' as parent of '' @ v @ '' would create a cycle'')"

definition setParent :: "string \<Rightarrow> string option \<Rightarrow> ('g, 'n, 'e) Graph \<Rightarrow> ('g, 'n, 'e) Graph result" where
  "setParent v par g =
     (if \<not> f_isCompound g then Inl (Error ''Cannot set parent in a non-compound graph'')
      else rbind
        (case par of
           None \<Rightarrow> Inr (GRAPH_NODE, g)
         | Some p \<Rightarrow>
             (case ancestorLoop g v (Some p) (length (f_parent g) + 2) of
                None \<Rightarrow> Inl Diverges
              | Some True \<Rightarrow> Inl (parentCycleError p v)
              | Some False \<Rightarrow> rbind (setNode p None g) (\<lambda>g1. Inr (p, g1))))
        (\<lambda>(p, g1).
           rbind (setNode v None g1) (\<lambda>g2.
           rbind (removeFromParentsChildList v g2) (\<lambda>g3.
           rbind (upd_in p (put v True) (f_children g3)) (\<lambda>c.
             Inr (g3\<lparr>f_parent := put v p (f_parent g3), f_children := c\<rparr>))))))"

subsection \<open>Neighbourhoods\<close>

definition predecessors :: "string \<Rightarrow> ('g, 'n, 'e) Graph \<Rightarrow> string list option" where
  "predecessors v g = map_option keys (get (f_preds g) v)"

definition successors :: "string \<Rightarrow> ('g, 'n, 'e) Graph \<Rightarrow> string list option" where
  "successors v g = map_option keys (get (f_sucs g) v)"

text \<open>\<open>_.union\<close> of the two lists: first occurrences, in order.\<close>

definition union_first :: "string list \<Rightarrow> string list \<Rightarrow> string list" where
  "union_first xs ys = rev (remdups (rev (xs @ ys)))"

definition neighbors :: "string \<Rightarrow> ('g, 'n, 'e) Graph \<Rightarrow> string list option" where
  "neighbors v g =
     map_option (\<lambda>preds. union_first preds (case successors v g of Some s \<Rightarrow> s | None \<Rightarrow> []))
       (predecessors v g)"

definition isLeaf :: "string \<Rightarrow> ('g, 'n, 'e) Graph \<Rightarrow> bool result" where
  "isLeaf v g =
     rbind (deref (if isDirected g then successors v g else neighbors v g)) (\<lambda>ns. Inr (ns = []))"

subsection \<open>Edges\<close>

definition edgeArgsToId :: "bool \<Rightarrow> string \<Rightarrow> string \<Rightarrow> string option \<Rightarrow> string" where
  "edgeArgsToId directed v0 w0 name =
     (let (v, w) = (if \<not> directed \<and> v0 > w0 then (w0, v0) else (v0, w0)) in
      v @ EDGE_KEY_DELIM @ w @ EDGE_KEY_DELIM @
        (case name of None \<Rightarrow> DEFAULT_EDGE_NAME | Some n \<Rightarrow> n))"

definition edgeArgsToObj :: "bool \<Rightarrow> string \<Rightarrow> string \<Rightarrow> string option \<Rightarrow> edgeObj" where
  "edgeArgsToObj directed v0 w0 name =
     (let (v, w) = (if \<not> directed \<and> v0 > w0 then (w0, v0) else (v0, w0)) in
      \<lparr>e_v = v, e_w = w, e_name = (if name = Some [] then None else name)\<rparr>)"

definition edgeObjToId :: "bool \<Rightarrow> edgeObj \<Rightarrow> string" where
  "edgeObjToId directed eo = edgeArgsToId directed (e_v eo) (e_w eo) (e_name eo)"

definition incrementOrInitEntry :: "string \<Rightarrow> int obj \<Rightarrow> int obj" where
  "incrementOrInitEntry k m =
     (case get m k of
        Some n \<Rightarrow> if n \<noteq> 0 then put k (n + 1) m else put k 1 m
      | None \<Rightarrow> put k 1 m)"

text \<open>A missing entry decrements to \<open>NaN\<close>, which is falsy like \<open>0\<close>.\<close>

definition decrementOrRemoveEntry :: "string \<Rightarrow> int obj \<Rightarrow> int obj" where
  "decrementOrRemoveEntry k m =
     (case get m k of
        Some n \<Rightarrow> if n - 1 = 0 then del k m else put k (n - 1) m
      | None \<Rightarrow> del k m)"

definition setEdge ::
  "string \<Rightarrow> string \<Rightarrow> 'e option option \<Rightarrow> string option \<Rightarrow> ('g, 'n, 'e) Graph \<Rightarrow> ('g, 'n, 'e) Graph result" where
  "setEdge v w value name g =
     (let e = edgeArgsToId (f_isDirected g) v w name in
      if has (f_edgeLabels g) e then
        Inr (case value of Some x \<Rightarrow> g\<lparr>f_edgeLabels := put e x (f_edgeLabels g)\<rparr> | None \<Rightarrow> g)
      else if name \<noteq> None \<and> \<not> f_isMultigraph g then
        Inl (Error ''Cannot set a named edge when isMultigraph = false'')
      else
        rbind (setNode v None g) (\<lambda>g1.
        rbind (setNode w None g1) (\<lambda>g2.
          let label = (case value of Some x \<Rightarrow> x | None \<Rightarrow> f_defaultEdgeLabelFn g2 v w name);
              eo = edgeArgsToObj (f_isDirected g2) v w name
          in rbind (upd_in (e_w eo) (incrementOrInitEntry (e_v eo)) (f_preds g2)) (\<lambda>preds.
             rbind (upd_in (e_v eo) (incrementOrInitEntry (e_w eo)) (f_sucs g2)) (\<lambda>sucs.
             rbind (upd_in (e_w eo) (put e eo) (f_in g2)) (\<lambda>ins.
             rbind (upd_in (e_v eo) (put e eo) (f_out g2)) (\<lambda>outs.
               Inr (g2\<lparr>f_edgeLabels := put e label (f_edgeLabels g2),
                       f_edgeObjs := put e eo (f_edgeObjs g2),
                       f_preds := preds, f_sucs := sucs, f_in := ins, f_out := outs,
                       f_edgeCount := f_edgeCount g2 + 1\<rparr>))))))))"

text \<open>\<open>setEdge({v, w, name}, value)\<close>.\<close>

definition setEdgeObj ::
  "edgeObj \<Rightarrow> 'e option option \<Rightarrow> ('g, 'n, 'e) Graph \<Rightarrow> ('g, 'n, 'e) Graph result" where
  "setEdgeObj eo value g = setEdge (e_v eo) (e_w eo) value (e_name eo) g"

text \<open>\<open>_.reduce\<close> with no initial value: consecutive pairs.\<close>

fun setPath :: "string list \<Rightarrow> 'e option option \<Rightarrow> ('g, 'n, 'e) Graph \<Rightarrow> ('g, 'n, 'e) Graph result" where
  "setPath (v # w # vs) value g = rbind (setEdge v w value None g) (setPath (w # vs) value)"
| "setPath _ value g = Inr g"

definition edge :: "string \<Rightarrow> string \<Rightarrow> string option \<Rightarrow> ('g, 'n, 'e) Graph \<Rightarrow> 'e option" where
  "edge v w name g =
     (case get (f_edgeLabels g) (edgeArgsToId (f_isDirected g) v w name) of Some x \<Rightarrow> x | None \<Rightarrow> None)"

definition edgeOfObj :: "edgeObj \<Rightarrow> ('g, 'n, 'e) Graph \<Rightarrow> 'e option" where
  "edgeOfObj eo g =
     (case get (f_edgeLabels g) (edgeObjToId (f_isDirected g) eo) of Some x \<Rightarrow> x | None \<Rightarrow> None)"

definition hasEdge :: "string \<Rightarrow> string \<Rightarrow> string option \<Rightarrow> ('g, 'n, 'e) Graph \<Rightarrow> bool" where
  "hasEdge v w name g = has (f_edgeLabels g) (edgeArgsToId (f_isDirected g) v w name)"

definition removeEdgeKey :: "string \<Rightarrow> ('g, 'n, 'e) Graph \<Rightarrow> ('g, 'n, 'e) Graph result" where
  "removeEdgeKey e g =
     (case get (f_edgeObjs g) e of
        None \<Rightarrow> Inr g
      | Some eo \<Rightarrow>
          rbind (upd_in (e_w eo) (decrementOrRemoveEntry (e_v eo)) (f_preds g)) (\<lambda>preds.
          rbind (upd_in (e_v eo) (decrementOrRemoveEntry (e_w eo)) (f_sucs g)) (\<lambda>sucs.
          rbind (upd_in (e_w eo) (del e) (f_in g)) (\<lambda>ins.
          rbind (upd_in (e_v eo) (del e) (f_out g)) (\<lambda>outs.
            Inr (g\<lparr>f_edgeLabels := del e (f_edgeLabels g),
                   f_edgeObjs := del e (f_edgeObjs g),
                   f_preds := preds, f_sucs := sucs, f_in := ins, f_out := outs,
                   f_edgeCount := f_edgeCount g - 1\<rparr>))))))"

definition removeEdge :: "string \<Rightarrow> string \<Rightarrow> string option \<Rightarrow> ('g, 'n, 'e) Graph \<Rightarrow> ('g, 'n, 'e) Graph result" where
  "removeEdge v w name g = removeEdgeKey (edgeArgsToId (f_isDirected g) v w name) g"

definition removeEdgeObj :: "edgeObj \<Rightarrow> ('g, 'n, 'e) Graph \<Rightarrow> ('g, 'n, 'e) Graph result" where
  "removeEdgeObj eo g = removeEdgeKey (edgeObjToId (f_isDirected g) eo) g"

text \<open>The optional end point filters only when it is truthy.\<close>

definition inEdges :: "string \<Rightarrow> string option \<Rightarrow> ('g, 'n, 'e) Graph \<Rightarrow> edgeObj list option" where
  "inEdges v u g =
     map_option (\<lambda>inV. if u = None \<or> u = Some [] then vals inV
                       else filter (\<lambda>eo. Some (e_v eo) = u) (vals inV))
       (get (f_in g) v)"

definition outEdges :: "string \<Rightarrow> string option \<Rightarrow> ('g, 'n, 'e) Graph \<Rightarrow> edgeObj list option" where
  "outEdges v w g =
     map_option (\<lambda>outV. if w = None \<or> w = Some [] then vals outV
                        else filter (\<lambda>eo. Some (e_w eo) = w) (vals outV))
       (get (f_out g) v)"

definition nodeEdges :: "string \<Rightarrow> string option \<Rightarrow> ('g, 'n, 'e) Graph \<Rightarrow> edgeObj list option" where
  "nodeEdges v w g =
     map_option (\<lambda>ins. ins @ (case outEdges v w g of Some outs \<Rightarrow> outs | None \<Rightarrow> [])) (inEdges v w g)"

subsection \<open>Removal of a node\<close>

text \<open>\<open>_.keys(table[v])\<close>, and the local function \<open>removeEdge\<close> of \<open>removeNode\<close>.\<close>

definition entryKeys :: "'a obj obj \<Rightarrow> string \<Rightarrow> string list" where
  "entryKeys t v = (case get t v of Some ob \<Rightarrow> keys ob | None \<Rightarrow> [])"

definition removeEdgeById :: "string \<Rightarrow> ('g, 'n, 'e) Graph \<Rightarrow> ('g, 'n, 'e) Graph result" where
  "removeEdgeById e g = rbind (deref (get (f_edgeObjs g) e)) (\<lambda>eo. removeEdgeObj eo g)"

definition removeNode :: "string \<Rightarrow> ('g, 'n, 'e) Graph \<Rightarrow> ('g, 'n, 'e) Graph result" where
  "removeNode v g =
     (if has (f_nodes g) v then
        let g0 = g\<lparr>f_nodes := del v (f_nodes g)\<rparr>
        in rbind
             (if f_isCompound g0 then
                rbind (removeFromParentsChildList v g0) (\<lambda>g1.
                  let g2 = g1\<lparr>f_parent := del v (f_parent g1)\<rparr> in
                  rbind (rfold (\<lambda>child. setParent child None)
                           (case children (Some v) g2 of Some cs \<Rightarrow> cs | None \<Rightarrow> []) g2) (\<lambda>g3.
                    Inr (g3\<lparr>f_children := del v (f_children g3)\<rparr>)))
              else Inr g0) (\<lambda>g4.
           rbind (rfold removeEdgeById (entryKeys (f_in g4) v) g4) (\<lambda>g5.
             let g6 = g5\<lparr>f_in := del v (f_in g5), f_preds := del v (f_preds g5)\<rparr> in
             rbind (rfold removeEdgeById (entryKeys (f_out g6) v) g6) (\<lambda>g7.
               Inr (g7\<lparr>f_out := del v (f_out g7), f_sucs := del v (f_sucs g7),
                       f_nodeCount := f_nodeCount g7 - 1\<rparr>))))
      else Inr g)"

end
