(* ===== verification/Graphlib_Wf.thy ===== *)
theory Graphlib_Wf
  imports Graphlib_Graph
begin

text \<open>
  The representation invariant of a graphlib graph and that its operations keep it: the four
  incidence tables are exactly the edges seen from their end points, the two counts are the
  sizes of the tables, the edge tables agree on their keys, and in a compound graph the parent
  and child tables are inverse to each other and form a forest. The invariant is stated per
  table, so that the states in the middle of \<open>removeNode\<close> can be described as well.
\<close>

section \<open>Single tables\<close>

text \<open>An incidence table: entry \<open>v\<close> holds the edges of \<open>E\<close> whose end point \<open>f\<close> is \<open>v\<close>.\<close>

definition incident :: "(edgeObj \<Rightarrow> string) \<Rightarrow> string \<Rightarrow> edgeObj obj \<Rightarrow> string \<Rightarrow> edgeObj option" where
  "incident f v E e = (case get E e of Some eo \<Rightarrow> if f eo = v then Some eo else None | None \<Rightarrow> None)"

definition inc_ok :: "(edgeObj \<Rightarrow> string) \<Rightarrow> string set \<Rightarrow> edgeObj obj \<Rightarrow> edgeObj obj obj \<Rightarrow> bool" where
  "inc_ok f V E I \<longleftrightarrow> obj_ok I \<and> set (keys I) = V \<and>
     (\<forall>v ob. get I v = Some ob \<longrightarrow> obj_ok ob \<and> (\<forall>e. get ob e = incident f v E e))"

text \<open>An adjacency table: entry \<open>v\<close> counts, for every other end point, the edges to it.\<close>

definition multiplicity :: "(edgeObj \<Rightarrow> string) \<Rightarrow> (edgeObj \<Rightarrow> string) \<Rightarrow> string \<Rightarrow> string \<Rightarrow> edgeObj obj \<Rightarrow> nat" where
  "multiplicity f h v u E = length (filter (\<lambda>eo. f eo = v \<and> h eo = u) (vals E))"

definition adj_ok :: "(edgeObj \<Rightarrow> string) \<Rightarrow> (edgeObj \<Rightarrow> string) \<Rightarrow> string set \<Rightarrow> edgeObj obj \<Rightarrow> int obj obj \<Rightarrow> bool" where
  "adj_ok f h V E A \<longleftrightarrow> obj_ok A \<and> set (keys A) = V \<and>
     (\<forall>v ob. get A v = Some ob \<longrightarrow> obj_ok ob \<and>
        (\<forall>u. get ob u = (if multiplicity f h v u E = 0 then None else Some (int (multiplicity f h v u E)))))"

lemma upd_in_ok:
  "k \<in> set (keys t) \<Longrightarrow> \<exists>ob. get t k = Some ob \<and> upd_in k f t = Inr (put k (f ob) t)"
  using key_get [of k t] by (auto simp: upd_in_def)

lemma multiplicity_put_new:
  assumes "get E e = None"
  shows "multiplicity f h v u (put e eo E) = multiplicity f h v u E + (if f eo = v \<and> h eo = u then 1 else 0)"
proof (cases rule: put_decomp [of E e eo])
  case upd
  with assms show ?thesis by (simp add: has_def)
next
  case (ins xs ys)
  then show ?thesis by (simp add: multiplicity_def vals_def)
qed

lemma multiplicity_del:
  assumes "obj_ok E" "get E e = Some eo"
  shows "multiplicity f h v u E = multiplicity f h v u (del e E) + (if f eo = v \<and> h eo = u then 1 else 0)"
proof -
  obtain xs ys where "E = xs @ (e, eo) # ys" "del e E = xs @ ys" using assms by (rule del_decomp)
  then show ?thesis by (simp add: multiplicity_def vals_def)
qed

lemma multiplicity_pos_iff:
  "multiplicity f h v u E \<noteq> 0 \<longleftrightarrow> (\<exists>eo \<in> set (vals E). f eo = v \<and> h eo = u)"
  by (auto simp: multiplicity_def filter_empty_conv)

subsection \<open>Adding and removing a node's row\<close>

lemma no_incident_multiplicity:
  "(\<And>eo. eo \<in> set (vals E) \<Longrightarrow> f eo \<noteq> v) \<Longrightarrow> multiplicity f h v u E = 0"
  using multiplicity_pos_iff [of f h v u E] by blast

lemma no_incident:
  "(\<And>eo. eo \<in> set (vals E) \<Longrightarrow> f eo \<noteq> v) \<Longrightarrow> incident f v E e = None"
proof -
  assume "\<And>eo. eo \<in> set (vals E) \<Longrightarrow> f eo \<noteq> v"
  moreover have "get E e = Some eo \<Longrightarrow> eo \<in> set (vals E)" for eo
    by (force simp: get_def vals_def dest: map_of_SomeD)
  ultimately show ?thesis by (auto simp: incident_def split: option.splits)
qed

lemma inc_ok_add_row:
  assumes "inc_ok f V E I" "\<And>eo. eo \<in> set (vals E) \<Longrightarrow> f eo \<noteq> v"
  shows "inc_ok f (insert v V) E (put v [] I)"
  using assms by (auto simp: inc_ok_def no_incident split: if_splits)

lemma adj_ok_add_row:
  assumes "adj_ok f h V E A" "\<And>eo. eo \<in> set (vals E) \<Longrightarrow> f eo \<noteq> v"
  shows "adj_ok f h (insert v V) E (put v [] A)"
  using assms by (auto simp: adj_ok_def no_incident_multiplicity split: if_splits)

lemma inc_ok_del_row: "inc_ok f V E I \<Longrightarrow> inc_ok f (V - {v}) E (del v I)"
  by (auto simp: inc_ok_def split: if_splits)

lemma adj_ok_del_row: "adj_ok f h V E A \<Longrightarrow> adj_ok f h (V - {v}) E (del v A)"
  by (auto simp: adj_ok_def split: if_splits)

subsection \<open>Adding and removing an edge\<close>

lemma inc_ok_add_edge:
  assumes "inc_ok f V E I" "get E e = None" "f eo \<in> V"
  shows "\<exists>I'. upd_in (f eo) (put e eo) I = Inr I' \<and> inc_ok f V (put e eo E) I'"
proof -
  from assms have "f eo \<in> set (keys I)" by (simp add: inc_ok_def)
  from upd_in_ok [OF this] obtain ob where ob: "get I (f eo) = Some ob"
      "upd_in (f eo) (put e eo) I = Inr (put (f eo) (put e eo ob) I)" by blast
  have "inc_ok f V (put e eo E) (put (f eo) (put e eo ob) I)"
    using assms ob by (auto simp: inc_ok_def incident_def split: if_splits option.splits)
  with ob show ?thesis by blast
qed

lemma adj_ok_add_edge:
  assumes "adj_ok f h V E A" "get E e = None" "f eo \<in> V"
  shows "\<exists>A'. upd_in (f eo) (incrementOrInitEntry (h eo)) A = Inr A' \<and> adj_ok f h V (put e eo E) A'"
proof -
  from assms have "f eo \<in> set (keys A)" by (simp add: adj_ok_def)
  from upd_in_ok [OF this] obtain ob where ob: "get A (f eo) = Some ob"
      "upd_in (f eo) (incrementOrInitEntry (h eo)) A =
        Inr (put (f eo) (incrementOrInitEntry (h eo) ob) A)" by blast
  have row: "obj_ok ob" "\<And>u. get ob u = (if multiplicity f h (f eo) u E = 0 then None
      else Some (int (multiplicity f h (f eo) u E)))"
    using assms(1) ob(1) by (auto simp: adj_ok_def)
  have "adj_ok f h V (put e eo E) (put (f eo) (incrementOrInitEntry (h eo) ob) A)"
    unfolding adj_ok_def
  proof (intro conjI allI impI)
    fix v ob'
    assume *: "get (put (f eo) (incrementOrInitEntry (h eo) ob) A) v = Some ob'"
    show "obj_ok ob'" using * assms(1) row(1)
      by (auto simp: adj_ok_def incrementOrInitEntry_def split: if_splits option.splits)
    show "get ob' u = (if multiplicity f h v u (put e eo E) = 0 then None
        else Some (int (multiplicity f h v u (put e eo E))))" for u
      using * assms row
      by (auto simp: adj_ok_def incrementOrInitEntry_def multiplicity_put_new split: if_splits option.splits)
  qed (use assms in \<open>auto simp: adj_ok_def\<close>)
  with ob show ?thesis by blast
qed

lemma inc_ok_del_edge:
  assumes "inc_ok f V E I" "get E e = Some eo" "f eo \<in> V"
  shows "\<exists>I'. upd_in (f eo) (del e) I = Inr I' \<and> inc_ok f V (del e E) I'"
proof -
  from assms have "f eo \<in> set (keys I)" by (simp add: inc_ok_def)
  from upd_in_ok [OF this] obtain ob where ob: "get I (f eo) = Some ob"
      "upd_in (f eo) (del e) I = Inr (put (f eo) (del e ob) I)" by blast
  have "inc_ok f V (del e E) (put (f eo) (del e ob) I)"
    using assms ob by (auto simp: inc_ok_def incident_def split: if_splits option.splits)
  with ob show ?thesis by blast
qed

lemma adj_ok_del_edge:
  assumes "adj_ok f h V E A" "obj_ok E" "get E e = Some eo" "f eo \<in> V"
  shows "\<exists>A'. upd_in (f eo) (decrementOrRemoveEntry (h eo)) A = Inr A' \<and> adj_ok f h V (del e E) A'"
proof -
  from assms have "f eo \<in> set (keys A)" by (simp add: adj_ok_def)
  from upd_in_ok [OF this] obtain ob where ob: "get A (f eo) = Some ob"
      "upd_in (f eo) (decrementOrRemoveEntry (h eo)) A =
        Inr (put (f eo) (decrementOrRemoveEntry (h eo) ob) A)" by blast
  have row: "obj_ok ob" "\<And>u. get ob u = (if multiplicity f h (f eo) u E = 0 then None
      else Some (int (multiplicity f h (f eo) u E)))"
    using assms(1) ob(1) by (auto simp: adj_ok_def)
  note mult = multiplicity_del [OF assms(2,3)]
  have "adj_ok f h V (del e E) (put (f eo) (decrementOrRemoveEntry (h eo) ob) A)"
    unfolding adj_ok_def
  proof (intro conjI allI impI)
    fix v ob'
    assume *: "get (put (f eo) (decrementOrRemoveEntry (h eo) ob) A) v = Some ob'"
    show "obj_ok ob'" using * assms(1) row(1)
      by (auto simp: adj_ok_def decrementOrRemoveEntry_def split: if_splits option.splits)
    show "get ob' u = (if multiplicity f h v u (del e E) = 0 then None
        else Some (int (multiplicity f h v u (del e E))))" for u
      using * assms(1) row mult [of f h v u]
      by (auto simp: adj_ok_def decrementOrRemoveEntry_def split: if_splits option.splits)
  qed (use assms in \<open>auto simp: adj_ok_def\<close>)
  with ob show ?thesis by blast
qed


section \<open>The compound structure\<close>

definition parent_rel :: "string obj \<Rightarrow> (string \<times> string) set" where
  "parent_rel P = {(x, p). get P x = Some p}"

text \<open>\<open>Vp\<close> are the nodes with a parent, \<open>Vc\<close> the nodes with a row of children.\<close>

definition tree_ok :: "string set \<Rightarrow> string set \<Rightarrow> string obj \<Rightarrow> bool obj obj \<Rightarrow> bool" where
  "tree_ok Vp Vc P C \<longleftrightarrow> obj_ok P \<and> obj_ok C \<and> set (keys P) = Vp \<and>
     set (keys C) = insert GRAPH_NODE Vc \<and> GRAPH_NODE \<notin> Vp \<and> GRAPH_NODE \<notin> Vc \<and>
     (\<forall>p ob. get C p = Some ob \<longrightarrow> obj_ok ob \<and> (\<forall>x. x \<in> set (keys ob) \<longleftrightarrow> get P x = Some p)) \<and>
     (\<forall>x p. get P x = Some p \<longrightarrow> p \<in> insert GRAPH_NODE Vc) \<and>
     acyclic (parent_rel P)"

lemma tree_okD:
  assumes "tree_ok Vp Vc P C"
  shows "acyclic (parent_rel P)" "set (keys P) = Vp" "set (keys C) = insert GRAPH_NODE Vc"
    and "obj_ok P" "obj_ok C" "GRAPH_NODE \<notin> Vp" "GRAPH_NODE \<notin> Vc"
    and "\<And>p ob. get C p = Some ob \<Longrightarrow> obj_ok ob" 
    and "\<And>p ob x. get C p = Some ob \<Longrightarrow> x \<in> set (keys ob) \<longleftrightarrow> get P x = Some p"
    and "\<And>x p. get P x = Some p \<Longrightarrow> p \<in> insert GRAPH_NODE Vc"
  using assms unfolding tree_ok_def by blast+

lemma tree_okI:
  assumes "acyclic (parent_rel P)" "set (keys P) = Vp" "set (keys C) = insert GRAPH_NODE Vc"
    and "obj_ok P" "obj_ok C" "GRAPH_NODE \<notin> Vp" "GRAPH_NODE \<notin> Vc"
    and "\<And>p ob. get C p = Some ob \<Longrightarrow> obj_ok ob \<and> (\<forall>x. x \<in> set (keys ob) \<longleftrightarrow> get P x = Some p)"
    and "\<And>x p. get P x = Some p \<Longrightarrow> p \<in> insert GRAPH_NODE Vc"
  shows "tree_ok Vp Vc P C"
  using assms unfolding tree_ok_def by blast

lemma parent_rel_put: "parent_rel (put v p P) = insert (v, p) {(x, q) \<in> parent_rel P. x \<noteq> v}"
  by (auto simp: parent_rel_def split: if_splits)

lemma parent_rel_del: "parent_rel (del v P) \<subseteq> parent_rel P"
  by (auto simp: parent_rel_def split: if_splits)

lemma rtrancl_to_dead_end:
  assumes "d \<notin> Domain R" "v \<noteq> d"
  shows "(p, v) \<in> (insert (x, d) R)\<^sup>* \<longleftrightarrow> (p, v) \<in> R\<^sup>*"
proof
  have "(p, y) \<in> (insert (x, d) R)\<^sup>* \<Longrightarrow> y = d \<or> (p, y) \<in> R\<^sup>*" for y
  proof (induction rule: rtrancl_induct)
    case (step y z)
    then show ?case using assms(1) by (auto intro: rtrancl_into_rtrancl)
  qed simp
  then show "(p, v) \<in> (insert (x, d) R)\<^sup>* \<Longrightarrow> (p, v) \<in> R\<^sup>*" using assms(2) by blast
next
  show "(p, v) \<in> R\<^sup>* \<Longrightarrow> (p, v) \<in> (insert (x, d) R)\<^sup>*"
    by (meson in_mono rtrancl_mono subset_insertI)
qed

lemma tree_ok_dead_end: "tree_ok Vp Vc P C \<Longrightarrow> GRAPH_NODE \<notin> Domain (parent_rel P)"
  by (auto simp: tree_ok_def parent_rel_def get_None_iff)

lemma acyclic_reparent:
  assumes "acyclic R" "(p, v) \<notin> R\<^sup>*"
  shows "acyclic (insert (v, p) {(x, q) \<in> R. x \<noteq> v})"
proof -
  have sub: "{(x, q) \<in> R. x \<noteq> v} \<subseteq> R" by auto
  then have "(p, v) \<notin> {(x, q) \<in> R. x \<noteq> v}\<^sup>*" using assms(2) rtrancl_mono by blast
  moreover have "acyclic {(x, q) \<in> R. x \<noteq> v}" using acyclic_subset [OF assms(1) sub] .
  ultimately show ?thesis by (simp add: acyclic_insert)
qed

lemma tree_ok_add:
  assumes "tree_ok V V P C" "v \<notin> V" "v \<noteq> GRAPH_NODE"
  shows "\<exists>C'. upd_in GRAPH_NODE (put v True) (put v [] C) = Inr C' \<and>
     tree_ok (insert v V) (insert v V) (put v GRAPH_NODE P) C'"
proof -
  let ?C1 = "put v [] C"
  have "GRAPH_NODE \<in> set (keys ?C1)" using assms(1) by (simp add: tree_ok_def)
  from upd_in_ok [OF this] obtain ob where ob: "get ?C1 GRAPH_NODE = Some ob"
    and res: "upd_in GRAPH_NODE (put v True) ?C1 = Inr (put GRAPH_NODE (put v True ob) ?C1)" by blast
  from assms tree_okD(2,10) [OF assms(1)] have new: "get P v = None" "\<And>x. get P x \<noteq> Some v"
    by (auto simp: get_None_iff)
  have "(GRAPH_NODE, v) \<notin> (parent_rel P)\<^sup>*"
    using tree_ok_dead_end [OF assms(1)] assms(3) by (auto elim: converse_rtranclE)
  then have "acyclic (parent_rel (put v GRAPH_NODE P))"
    unfolding parent_rel_put by (rule acyclic_reparent [OF tree_okD(1) [OF assms(1)]])
  moreover have rob: "obj_ok ob" "\<And>x. x \<in> set (keys ob) \<longleftrightarrow> get P x = Some GRAPH_NODE"
    using tree_okD(8,9) [OF assms(1), of GRAPH_NODE ob] assms(3) ob by (auto split: if_splits)
  moreover have "obj_ok ob' \<and> (\<forall>x. x \<in> set (keys ob') \<longleftrightarrow> get (put v GRAPH_NODE P) x = Some p)"
    if "get (put GRAPH_NODE (put v True ob) ?C1) p = Some ob'" for p ob'
    using that rob new assms(3) tree_okD(8,9) [OF assms(1), of p ob'] by (auto split: if_splits)
  ultimately have "tree_ok (insert v V) (insert v V) (put v GRAPH_NODE P) (put GRAPH_NODE (put v True ob) ?C1)"
    using tree_okD(2-7) [OF assms(1)] assms(2,3)
  proof (intro tree_okI)
    show "p \<in> insert GRAPH_NODE (insert v V)" if "get (put v GRAPH_NODE P) x = Some p" for x p
      using that tree_okD(10) [OF assms(1), of x p] by (auto split: if_splits)
  qed (simp_all add: insert_commute)
  with res show ?thesis by blast
qed

text \<open>Taking \<open>v\<close> out of its parent's row.\<close>

definition detached :: "string \<Rightarrow> string obj \<Rightarrow> bool obj obj \<Rightarrow> bool obj obj" where
  "detached v P C = (case get P v of
     Some p \<Rightarrow> (case get C p of Some ob \<Rightarrow> put p (del v ob) C | None \<Rightarrow> C) | None \<Rightarrow> C)"

lemma removeFromParentsChildList_ok:
  assumes "tree_ok Vp Vc (f_parent g) (f_children g)" "v \<in> Vp"
  shows "removeFromParentsChildList v g = Inr (g\<lparr>f_children := detached v (f_parent g) (f_children g)\<rparr>)"
    and "set (keys (detached v (f_parent g) (f_children g))) = insert GRAPH_NODE Vc"
    and "obj_ok (detached v (f_parent g) (f_children g))"
    and "\<And>p ob. get (detached v (f_parent g) (f_children g)) p = Some ob \<Longrightarrow>
           obj_ok ob \<and> (\<forall>x. x \<in> set (keys ob) \<longleftrightarrow> x \<noteq> v \<and> get (f_parent g) x = Some p)"
proof -
  from assms obtain p where p: "get (f_parent g) v = Some p"
    using key_get [of v "f_parent g"] tree_okD(2) [OF assms(1)] by auto
  then have "p \<in> set (keys (f_children g))" using tree_okD(3,10) [OF assms(1)] by blast
  then obtain ob where ob: "get (f_children g) p = Some ob" using key_get by blast
  show "removeFromParentsChildList v g = Inr (g\<lparr>f_children := detached v (f_parent g) (f_children g)\<rparr>)"
    using p ob by (simp add: removeFromParentsChildList_def upd_in_def detached_def)
  show "set (keys (detached v (f_parent g) (f_children g))) = insert GRAPH_NODE Vc"
    and "obj_ok (detached v (f_parent g) (f_children g))"
    using p ob assms get_Some_key [OF ob] by (auto simp: detached_def tree_ok_def)
  show "obj_ok ob' \<and> (\<forall>x. x \<in> set (keys ob') \<longleftrightarrow> x \<noteq> v \<and> get (f_parent g) x = Some p')"
    if "get (detached v (f_parent g) (f_children g)) p' = Some ob'" for p' ob'
    using that p ob assms by (auto simp: detached_def tree_ok_def split: if_splits)
qed

lemma tree_ok_detach:
  fixes g :: "('g, 'n, 'e) Graph"
  assumes "tree_ok Vp Vc (f_parent g) (f_children g)" "v \<in> Vp"
  shows "tree_ok (Vp - {v}) Vc (del v (f_parent g)) (detached v (f_parent g) (f_children g))"
  using removeFromParentsChildList_ok [OF assms] assms(1) acyclic_subset [OF _ parent_rel_del [of v "f_parent g"]]
  by (auto simp: tree_ok_def split: if_splits)

lemma tree_ok_move:
  fixes g :: "('g, 'n, 'e) Graph"
  assumes "tree_ok Vp Vc (f_parent g) (f_children g)" "v \<in> Vp" "p \<in> insert GRAPH_NODE Vc"
    and "(p, v) \<notin> (parent_rel (f_parent g))\<^sup>*"
  shows "\<exists>C'. upd_in p (put v True) (detached v (f_parent g) (f_children g)) = Inr C' \<and>
     tree_ok Vp Vc (put v p (f_parent g)) C'"
proof -
  let ?D = "detached v (f_parent g) (f_children g)"
  note rem = removeFromParentsChildList_ok [OF assms(1,2)]
  from rem(2) assms(3) have "p \<in> set (keys ?D)" by simp
  from upd_in_ok [OF this] obtain ob where ob: "get ?D p = Some ob"
    and res: "upd_in p (put v True) ?D = Inr (put p (put v True ob) ?D)" by blast
  have ac: "acyclic (parent_rel (put v p (f_parent g)))"
    unfolding parent_rel_put by (rule acyclic_reparent [OF tree_okD(1) [OF assms(1)] assms(4)])
  have rows: "obj_ok ob' \<and> (\<forall>x. x \<in> set (keys ob') \<longleftrightarrow> get (put v p (f_parent g)) x = Some p')"
    if "get (put p (put v True ob) ?D) p' = Some ob'" for p' ob'
  proof (cases "p' = p")
    case True
    with that have "ob' = put v True ob" by simp
    with rem(4) [OF ob] True show ?thesis by (simp add: insert_iff)
  next
    case False
    with that have "get ?D p' = Some ob'" by simp
    from rem(4) [OF this] False show ?thesis by simp
  qed
  have "tree_ok Vp Vc (put v p (f_parent g)) (put p (put v True ob) ?D)"
  proof (rule tree_okI [OF ac _ _ _ _ _ _ rows])
    show "p' \<in> insert GRAPH_NODE Vc" if "get (put v p (f_parent g)) x = Some p'" for x p'
      using that tree_okD(10) [OF assms(1), of x p'] assms(3) by (simp split: if_splits)
  qed (use rem(2,3) tree_okD(2,4,6,7) [OF assms(1)] assms(2,3) in auto)
  with res show ?thesis by blast
qed

lemma tree_ok_drop:
  assumes "tree_ok Vp Vc P C" "\<And>x. get P x \<noteq> Some v" "v \<noteq> GRAPH_NODE"
  shows "tree_ok Vp (Vc - {v}) P (del v C)"
  using assms by (auto simp: tree_ok_def split: if_splits)

text \<open>The ancestor loop always ends on a forest, within the steps it is given, and decides
  whether \<open>v\<close> is an ancestor.\<close>

lemma ancestorLoop_decides:
  fixes g :: "('g, 'n, 'e) Graph"
  assumes "f_isCompound g" "tree_ok Vp Vc (f_parent g) (f_children g)" "v \<noteq> GRAPH_NODE"
  shows "a \<noteq> GRAPH_NODE \<Longrightarrow>
    card {y \<in> Vp. (a, y) \<in> (parent_rel (f_parent g))\<^sup>*} < fuel \<Longrightarrow>
    ancestorLoop g v (Some a) fuel = Some ((a, v) \<in> (parent_rel (f_parent g))\<^sup>*)"
proof (induction fuel arbitrary: a)
  case (Suc fuel)
  let ?R = "parent_rel (f_parent g)"
  have ac: "acyclic ?R" and keysP: "set (keys (f_parent g)) = Vp"
    using tree_okD(1,2) [OF assms(2)] by auto
  then have fin: "finite Vp" by auto
  show ?case
  proof (cases "a = v")
    case False
    show ?thesis
    proof (cases "parent a g")
      case None
      have "(a, v) \<notin> ?R\<^sup>*"
      proof
        assume "(a, v) \<in> ?R\<^sup>*"
        then obtain p where p: "(a, p) \<in> ?R" "(p, v) \<in> ?R\<^sup>*" using False by (auto elim: converse_rtranclE)
        with None assms(1) have "p = GRAPH_NODE"
          by (auto simp: parent_def parent_rel_def split: if_splits)
        with p(2) assms(3) tree_ok_dead_end [OF assms(2)] show False by (blast elim: converse_rtranclE)
      qed
      with None False show ?thesis by simp
    next
      case (Some p)
      then have ap: "(a, p) \<in> ?R" "p \<noteq> GRAPH_NODE" and single: "\<And>q. (a, q) \<in> ?R \<Longrightarrow> q = p"
        by (auto simp: parent_def parent_rel_def split: if_splits option.splits)
      have aV: "a \<in> Vp" using ap(1) keysP get_Some_key [of "f_parent g" a p] by (simp add: parent_rel_def)
      have "(p, a) \<notin> ?R\<^sup>*" using ac ap(1) by (meson acyclic_def rtrancl_into_trancl2)
      then have "{y \<in> Vp. (p, y) \<in> ?R\<^sup>*} \<subset> {y \<in> Vp. (a, y) \<in> ?R\<^sup>*}"
        using converse_rtrancl_into_rtrancl [OF ap(1)] aV by blast
      then have "card {y \<in> Vp. (p, y) \<in> ?R\<^sup>*} < card {y \<in> Vp. (a, y) \<in> ?R\<^sup>*}"
        using fin by (intro psubset_card_mono) auto
      with Suc.prems have "ancestorLoop g v (Some p) fuel = Some ((p, v) \<in> ?R\<^sup>*)"
        by (intro Suc.IH ap(2)) simp
      moreover have "(a, v) \<in> ?R\<^sup>* \<longleftrightarrow> (p, v) \<in> ?R\<^sup>*"
        using False single ap(1) by (metis converse_rtranclE converse_rtrancl_into_rtrancl)
      ultimately show ?thesis using Some False by simp
    qed
  qed simp
qed simp

lemma ancestorLoop_fuel_enough:
  fixes g :: "('g, 'n, 'e) Graph"
  assumes "f_isCompound g" "tree_ok Vp Vc (f_parent g) (f_children g)" "v \<noteq> GRAPH_NODE" "p \<noteq> GRAPH_NODE"
  shows "ancestorLoop g v (Some p) (length (f_parent g) + 2) = Some ((p, v) \<in> (parent_rel (f_parent g))\<^sup>*)"
proof (rule ancestorLoop_decides [OF assms])
  have "card {y \<in> Vp. (p, y) \<in> (parent_rel (f_parent g))\<^sup>*} \<le> card Vp"
    using tree_okD(2) [OF assms(2)] by (intro card_mono) auto
  also have "card Vp \<le> length (f_parent g)"
    using tree_okD(2) [OF assms(2)] card_length [of "keys (f_parent g)"] by auto
  finally show "card {y \<in> Vp. (p, y) \<in> (parent_rel (f_parent g))\<^sup>*} < length (f_parent g) + 2" by simp
qed

end
