(* ===== verification/Graphlib_Inv.thy ===== *)
theory Graphlib_Inv
  imports Graphlib_Wf
begin

text \<open>
  The representation invariant \<open>graph_ok\<close> of a whole graph, and for every mutating method of
  \<open>Graph\<close> that it keeps the invariant, does not throw where it should not, and changes exactly the
  nodes, edges and parents it should. Every lemma gives the new tables of edges and labels
  exactly and bounds the rest by \<open>same_flags\<close>.
\<close>

definition edge_ok :: "bool \<Rightarrow> bool \<Rightarrow> string \<Rightarrow> edgeObj \<Rightarrow> bool" where
  "edge_ok directed multi e eo \<longleftrightarrow> e = edgeObjToId directed eo \<and> (directed \<or> e_v eo \<le> e_w eo) \<and>
     e_name eo \<noteq> Some [] \<and> (e_name eo \<noteq> None \<longrightarrow> multi)"

text \<open>\<open>Vi\<close> are the nodes with a row of incoming edges, \<open>Vo\<close> those with a row of outgoing ones.\<close>

definition tables_ok :: "string set \<Rightarrow> string set \<Rightarrow> ('g, 'n, 'e) Graph \<Rightarrow> bool" where
  "tables_ok Vi Vo g \<longleftrightarrow>
     inc_ok e_w Vi (f_edgeObjs g) (f_in g) \<and> adj_ok e_w e_v Vi (f_edgeObjs g) (f_preds g) \<and>
     inc_ok e_v Vo (f_edgeObjs g) (f_out g) \<and> adj_ok e_v e_w Vo (f_edgeObjs g) (f_sucs g) \<and>
     obj_ok (f_edgeObjs g) \<and> obj_ok (f_edgeLabels g) \<and>
     set (keys (f_edgeLabels g)) = set (keys (f_edgeObjs g)) \<and>
     (\<forall>e eo. get (f_edgeObjs g) e = Some eo \<longrightarrow>
        edge_ok (f_isDirected g) (f_isMultigraph g) e eo \<and> e_w eo \<in> Vi \<and> e_v eo \<in> Vo) \<and>
     f_edgeCount g = int (length (f_edgeObjs g))"

definition node_set :: "('g, 'n, 'e) Graph \<Rightarrow> string set" where
  "node_set g = set (keys (f_nodes g))"

definition graph_ok :: "('g, 'n, 'e) Graph \<Rightarrow> bool" where
  "graph_ok g \<longleftrightarrow> obj_ok (f_nodes g) \<and> f_nodeCount g = int (length (f_nodes g)) \<and>
     tables_ok (node_set g) (node_set g) g \<and>
     (f_isCompound g \<longrightarrow> tree_ok (node_set g) (node_set g) (f_parent g) (f_children g))"

definition same_flags :: "('g, 'n, 'e) Graph \<Rightarrow> ('g, 'n, 'e) Graph \<Rightarrow> bool" where
  "same_flags g g' \<longleftrightarrow> f_isDirected g' = f_isDirected g \<and> f_isMultigraph g' = f_isMultigraph g \<and>
     f_isCompound g' = f_isCompound g \<and> f_label g' = f_label g \<and>
     f_defaultNodeLabelFn g' = f_defaultNodeLabelFn g \<and>
     f_defaultEdgeLabelFn g' = f_defaultEdgeLabelFn g"

lemma same_flags_refl [simp]: "same_flags g g"
  by (simp add: same_flags_def)

lemma same_flags_trans: "same_flags g g' \<Longrightarrow> same_flags g' g'' \<Longrightarrow> same_flags g g''"
  by (simp add: same_flags_def)

lemma tables_okD:
  assumes "tables_ok Vi Vo g"
  shows "inc_ok e_w Vi (f_edgeObjs g) (f_in g)" "adj_ok e_w e_v Vi (f_edgeObjs g) (f_preds g)"
    and "inc_ok e_v Vo (f_edgeObjs g) (f_out g)" "adj_ok e_v e_w Vo (f_edgeObjs g) (f_sucs g)"
    and "obj_ok (f_edgeObjs g)" "obj_ok (f_edgeLabels g)"
    and "set (keys (f_edgeLabels g)) = set (keys (f_edgeObjs g))"
    and "f_edgeCount g = int (length (f_edgeObjs g))"
    and "\<And>e eo. get (f_edgeObjs g) e = Some eo \<Longrightarrow> edge_ok (f_isDirected g) (f_isMultigraph g) e eo"
    and "\<And>e eo. get (f_edgeObjs g) e = Some eo \<Longrightarrow> e_w eo \<in> Vi \<and> e_v eo \<in> Vo"
  using assms unfolding tables_ok_def by blast+

lemma tables_ok_edge_ends:
  "tables_ok Vi Vo g \<Longrightarrow> eo \<in> set (vals (f_edgeObjs g)) \<Longrightarrow> e_w eo \<in> Vi \<and> e_v eo \<in> Vo"
  using tables_okD(5,10) [of Vi Vo g] by (auto simp: vals_set)

section \<open>Creation\<close>

lemma graph_ok_new: "graph_ok (newGraph d m c)"
  by (auto simp: newGraph_def graph_ok_def tables_ok_def inc_ok_def adj_ok_def tree_ok_def node_set_def
      parent_rel_def Let_def acyclic_def split: option.splits if_splits)

section \<open>Nodes\<close>

lemma setNode_ok:
  assumes ok: "graph_ok g" and v: "f_isCompound g \<longrightarrow> v \<noteq> GRAPH_NODE"
  shows "\<exists>g'. setNode v val g = Inr g' \<and> graph_ok g' \<and> same_flags g g' \<and>
    f_nodes g' = (if v \<in> node_set g
                  then (case val of Some x \<Rightarrow> put v x (f_nodes g) | None \<Rightarrow> f_nodes g)
                  else put v (case val of Some x \<Rightarrow> x | None \<Rightarrow> f_defaultNodeLabelFn g v) (f_nodes g)) \<and>
    f_edgeObjs g' = f_edgeObjs g \<and> f_edgeLabels g' = f_edgeLabels g \<and>
    f_parent g' = (if v \<in> node_set g \<or> \<not> f_isCompound g then f_parent g else put v GRAPH_NODE (f_parent g))"
proof (cases "v \<in> node_set g")
  case True
  then have keys: "set (keys (put v x (f_nodes g))) = set (keys (f_nodes g))" for x
    by (auto simp: node_set_def)
  show ?thesis
    using True ok keys
    by (auto simp: setNode_def has_iff graph_ok_def node_set_def tables_ok_def same_flags_def length_put
        split: option.splits)
next
  case False
  let ?V = "node_set g"
  let ?N = "put v (case val of Some x \<Rightarrow> x | None \<Rightarrow> f_defaultNodeLabelFn g v) (f_nodes g)"
  have t: "tables_ok ?V ?V g" using ok by (simp add: graph_ok_def)
  have fresh: "e_w eo \<noteq> v \<and> e_v eo \<noteq> v" if "eo \<in> set (vals (f_edgeObjs g))" for eo
    using that tables_ok_edge_ends [OF t] False by blast
  obtain P' C' where pc:
    "(if f_isCompound g then
        rbind (upd_in GRAPH_NODE (put v True) (put v [] (f_children g))) (\<lambda>c.
          Inr (g\<lparr>f_nodes := ?N, f_parent := put v GRAPH_NODE (f_parent g), f_children := c\<rparr>))
      else Inr (g\<lparr>f_nodes := ?N\<rparr>)) = Inr (g\<lparr>f_nodes := ?N, f_parent := P', f_children := C'\<rparr>)"
    "P' = (if f_isCompound g then put v GRAPH_NODE (f_parent g) else f_parent g)"
    "f_isCompound g \<longrightarrow> tree_ok (insert v ?V) (insert v ?V) P' C'"
  proof (cases "f_isCompound g")
    case True
    then obtain C' where "upd_in GRAPH_NODE (put v True) (put v [] (f_children g)) = Inr C'"
        "tree_ok (insert v ?V) (insert v ?V) (put v GRAPH_NODE (f_parent g)) C'"
      using tree_ok_add [of ?V "f_parent g" "f_children g" v] ok v False by (auto simp: graph_ok_def)
    with True show thesis by (intro that [of C' "put v GRAPH_NODE (f_parent g)"]) simp_all
  qed (rule that [of "f_children g" "f_parent g"], simp_all)
  let ?g = "g\<lparr>f_nodes := ?N, f_parent := P', f_children := C', f_in := put v [] (f_in g),
      f_preds := put v [] (f_preds g), f_out := put v [] (f_out g), f_sucs := put v [] (f_sucs g),
      f_nodeCount := f_nodeCount g + 1\<rparr>"
  have "setNode v val g = Inr ?g"
    using False pc(1) by (cases "f_isCompound g")
      (auto simp: setNode_def has_iff node_set_def Let_def rbind_Inr_iff dest: sym)
  moreover have ns: "node_set ?g = insert v ?V" by (simp add: node_set_def)
  moreover have "tables_ok (insert v ?V) (insert v ?V) ?g"
    unfolding tables_ok_def
  proof (intro conjI)
    show "inc_ok e_w (insert v ?V) (f_edgeObjs ?g) (f_in ?g)"
      using inc_ok_add_row [OF tables_okD(1) [OF t]] fresh by simp
    show "adj_ok e_w e_v (insert v ?V) (f_edgeObjs ?g) (f_preds ?g)"
      using adj_ok_add_row [OF tables_okD(2) [OF t]] fresh by simp
    show "inc_ok e_v (insert v ?V) (f_edgeObjs ?g) (f_out ?g)"
      using inc_ok_add_row [OF tables_okD(3) [OF t]] fresh by simp
    show "adj_ok e_v e_w (insert v ?V) (f_edgeObjs ?g) (f_sucs ?g)"
      using adj_ok_add_row [OF tables_okD(4) [OF t]] fresh by simp
  qed (use tables_okD(5-10) [OF t] in auto)
  moreover have "graph_ok ?g"
    unfolding graph_ok_def ns using ok pc(3) calculation(3) False
    by (auto simp: graph_ok_def length_put node_set_def)
  ultimately show ?thesis using False pc(2) by (auto simp: same_flags_def)
qed

corollary setNode_node_set:
  assumes "graph_ok g" "f_isCompound g \<longrightarrow> v \<noteq> GRAPH_NODE" "setNode v val g = Inr g'"
  shows "node_set g' = insert v (node_set g)"
  using setNode_ok [OF assms(1,2), of val] assms(3)
  by (auto simp: node_set_def split: option.splits if_splits)

section \<open>Edges\<close>

lemma removeEdgeKey_ok:
  assumes t: "tables_ok Vi Vo g"
  shows "\<exists>g'. removeEdgeKey e g = Inr g' \<and> tables_ok Vi Vo g' \<and> same_flags g g' \<and>
    f_edgeObjs g' = del e (f_edgeObjs g) \<and> f_edgeLabels g' = del e (f_edgeLabels g) \<and>
    f_nodes g' = f_nodes g \<and> f_nodeCount g' = f_nodeCount g \<and>
    f_parent g' = f_parent g \<and> f_children g' = f_children g"
proof (cases "get (f_edgeObjs g) e")
  case None
  then have "del e (f_edgeObjs g) = f_edgeObjs g" "del e (f_edgeLabels g) = f_edgeLabels g"
    using tables_okD(7) [OF t] by (auto simp: get_None_iff intro!: del_notin)
  with None t show ?thesis by (simp add: removeEdgeKey_def)
next
  case (Some eo)
  note D = tables_okD [OF t]
  from D(10) [OF Some] have ends: "e_w eo \<in> Vi" "e_v eo \<in> Vo" by auto
  obtain I where I: "upd_in (e_w eo) (del e) (f_in g) = Inr I" "inc_ok e_w Vi (del e (f_edgeObjs g)) I"
    using inc_ok_del_edge [OF D(1) Some ends(1)] by blast
  obtain P where P: "upd_in (e_w eo) (decrementOrRemoveEntry (e_v eo)) (f_preds g) = Inr P"
      "adj_ok e_w e_v Vi (del e (f_edgeObjs g)) P"
    using adj_ok_del_edge [OF D(2,5) Some ends(1)] by blast
  obtain O' where O': "upd_in (e_v eo) (del e) (f_out g) = Inr O'" "inc_ok e_v Vo (del e (f_edgeObjs g)) O'"
    using inc_ok_del_edge [OF D(3) Some ends(2)] by blast
  obtain S where S: "upd_in (e_v eo) (decrementOrRemoveEntry (e_w eo)) (f_sucs g) = Inr S"
      "adj_ok e_v e_w Vo (del e (f_edgeObjs g)) S"
    using adj_ok_del_edge [OF D(4,5) Some ends(2)] by blast
  let ?g = "g\<lparr>f_edgeLabels := del e (f_edgeLabels g), f_edgeObjs := del e (f_edgeObjs g),
      f_preds := P, f_sucs := S, f_in := I, f_out := O', f_edgeCount := f_edgeCount g - 1\<rparr>"
  have "removeEdgeKey e g = Inr ?g"
    using Some I(1) P(1) O'(1) S(1) by (simp add: removeEdgeKey_def)
  moreover have "tables_ok Vi Vo ?g"
    unfolding tables_ok_def
  proof (intro conjI allI impI)
    show "f_edgeCount ?g = int (length (f_edgeObjs ?g))"
      using D(5,8) get_Some_key [OF Some] length_pos_if_in_set [OF get_Some_key [OF Some]]
      by (cases "f_edgeObjs g") (simp_all add: length_del)
  qed (use I(2) P(2) O'(2) S(2) D(5-7,9,10) in \<open>auto split: if_splits\<close>)
  ultimately show ?thesis by (simp add: same_flags_def)
qed

lemma edgeObjToId_edgeArgsToObj:
  "name \<noteq> Some [] \<Longrightarrow> edgeObjToId d (edgeArgsToObj d v w name) = edgeArgsToId d v w name"
  by (auto simp: edgeObjToId_def edgeArgsToObj_def edgeArgsToId_def Let_def split: prod.splits if_splits)

lemma edge_ok_new:
  assumes "name \<noteq> Some []" "name \<noteq> None \<longrightarrow> m"
  shows "edge_ok d m (edgeArgsToId d v w name) (edgeArgsToObj d v w name)"
  using assms edgeObjToId_edgeArgsToObj [OF assms(1), of d v w]
  by (auto simp: edge_ok_def edgeArgsToObj_def Let_def split: prod.splits if_splits)

lemma edgeArgsToObj_ends:
  "{e_v (edgeArgsToObj d v w name), e_w (edgeArgsToObj d v w name)} = {v, w}"
  by (auto simp: edgeArgsToObj_def)

text \<open>The part of \<open>setEdge\<close> after both end points exist.\<close>

lemma add_edge_tables_ok:
  fixes g :: "('g, 'n, 'e) Graph"
  assumes t: "tables_ok V V g" and "get (f_edgeObjs g) e = None" "e_w eo \<in> V" "e_v eo \<in> V"
    and "edge_ok (f_isDirected g) (f_isMultigraph g) e eo"
  shows "\<exists>preds sucs ins outs.
    upd_in (e_w eo) (incrementOrInitEntry (e_v eo)) (f_preds g) = Inr preds \<and>
    upd_in (e_v eo) (incrementOrInitEntry (e_w eo)) (f_sucs g) = Inr sucs \<and>
    upd_in (e_w eo) (put e eo) (f_in g) = Inr ins \<and>
    upd_in (e_v eo) (put e eo) (f_out g) = Inr outs \<and>
    tables_ok V V (g\<lparr>f_edgeLabels := put e label (f_edgeLabels g), f_edgeObjs := put e eo (f_edgeObjs g),
       f_preds := preds, f_sucs := sucs, f_in := ins, f_out := outs, f_edgeCount := f_edgeCount g + 1\<rparr>)"
proof -
  note D = tables_okD [OF t]
  obtain I where I: "upd_in (e_w eo) (put e eo) (f_in g) = Inr I" "inc_ok e_w V (put e eo (f_edgeObjs g)) I"
    using inc_ok_add_edge [of e_w V "f_edgeObjs g" "f_in g" e eo, OF D(1) assms(2,3)] by blast
  obtain P where P: "upd_in (e_w eo) (incrementOrInitEntry (e_v eo)) (f_preds g) = Inr P"
      "adj_ok e_w e_v V (put e eo (f_edgeObjs g)) P"
    using adj_ok_add_edge [of e_w e_v V "f_edgeObjs g" "f_preds g" e eo, OF D(2) assms(2,3)] by blast
  obtain O' where O': "upd_in (e_v eo) (put e eo) (f_out g) = Inr O'" "inc_ok e_v V (put e eo (f_edgeObjs g)) O'"
    using inc_ok_add_edge [of e_v V "f_edgeObjs g" "f_out g" e eo, OF D(3) assms(2,4)] by blast
  obtain S where S: "upd_in (e_v eo) (incrementOrInitEntry (e_w eo)) (f_sucs g) = Inr S"
      "adj_ok e_v e_w V (put e eo (f_edgeObjs g)) S"
    using adj_ok_add_edge [of e_v e_w V "f_edgeObjs g" "f_sucs g" e eo, OF D(4) assms(2,4)] by blast
  let ?g = "g\<lparr>f_edgeLabels := put e label (f_edgeLabels g), f_edgeObjs := put e eo (f_edgeObjs g),
      f_preds := P, f_sucs := S, f_in := I, f_out := O', f_edgeCount := f_edgeCount g + 1\<rparr>"
  have "e \<notin> set (keys (f_edgeObjs g))" using assms(2) by (simp add: get_None_iff)
  then have "tables_ok V V ?g"
    unfolding tables_ok_def using I(2) P(2) O'(2) S(2) D(5-10) assms(3-5)
    by (auto simp: length_put split: if_splits)
  with I(1) P(1) O'(1) S(1) show ?thesis by blast
qed

lemma setEdge_ok:
  assumes ok: "graph_ok g" and v: "f_isCompound g \<longrightarrow> v \<noteq> GRAPH_NODE \<and> w \<noteq> GRAPH_NODE"
    and name: "name \<noteq> Some []" "name \<noteq> None \<longrightarrow> f_isMultigraph g"
  defines "e \<equiv> edgeArgsToId (f_isDirected g) v w name"
  shows "\<exists>g'. setEdge v w val name g = Inr g' \<and> graph_ok g' \<and> same_flags g g' \<and>
    f_edgeLabels g' = (if has (f_edgeLabels g) e
                       then (case val of Some x \<Rightarrow> put e x (f_edgeLabels g) | None \<Rightarrow> f_edgeLabels g)
                       else put e (case val of Some x \<Rightarrow> x | None \<Rightarrow> f_defaultEdgeLabelFn g v w name)
                              (f_edgeLabels g)) \<and>
    f_edgeObjs g' = (if has (f_edgeLabels g) e then f_edgeObjs g
                     else put e (edgeArgsToObj (f_isDirected g) v w name) (f_edgeObjs g)) \<and>
    (\<forall>x. x \<in> node_set g \<longrightarrow> get (f_nodes g') x = get (f_nodes g) x) \<and>
    (\<forall>x. x \<in> node_set g \<longrightarrow> get (f_parent g') x = get (f_parent g) x) \<and>
    node_set g' = (if has (f_edgeLabels g) e then node_set g else insert v (insert w (node_set g)))"
proof (cases "has (f_edgeLabels g) e")
  case True
  have "tables_ok (node_set g) (node_set g) (g\<lparr>f_edgeLabels := put e x (f_edgeLabels g)\<rparr>)" for x
    using True ok by (auto simp: graph_ok_def tables_ok_def has_iff)
  with True ok show ?thesis
    by (auto simp: setEdge_def e_def graph_ok_def node_set_def same_flags_def Let_def split: option.splits)
next
  case False
  let ?eo = "edgeArgsToObj (f_isDirected g) v w name"
  obtain g1 where g1: "setNode v None g = Inr g1" "graph_ok g1" "same_flags g g1"
    "f_edgeObjs g1 = f_edgeObjs g" "f_edgeLabels g1 = f_edgeLabels g"
    "\<forall>x\<in>node_set g. get (f_nodes g1) x = get (f_nodes g) x"
    "\<forall>x\<in>node_set g. get (f_parent g1) x = get (f_parent g) x"
    using setNode_ok [OF ok, of v None] v by (auto split: if_splits)
  have n1: "node_set g1 = insert v (node_set g)" using setNode_node_set [OF ok _ g1(1)] v by blast
  obtain g2 where g2: "setNode w None g1 = Inr g2" "graph_ok g2" "same_flags g1 g2"
    "f_edgeObjs g2 = f_edgeObjs g" "f_edgeLabels g2 = f_edgeLabels g"
    "\<forall>x\<in>node_set g1. get (f_nodes g2) x = get (f_nodes g1) x"
    "\<forall>x\<in>node_set g1. get (f_parent g2) x = get (f_parent g1) x"
    using setNode_ok [OF g1(2), of w None] v g1(3-5) by (auto simp: same_flags_def split: if_splits)
  have n2: "node_set g2 = insert w (insert v (node_set g))"
    using setNode_node_set [OF g1(2) _ g2(1)] v g1(3) n1 by (auto simp: same_flags_def)
  have flags: "same_flags g g2" using g1(3) g2(3) by (rule same_flags_trans)
  have t: "tables_ok (node_set g2) (node_set g2) g2" using g2(2) by (simp add: graph_ok_def)
  have "get (f_edgeObjs g2) e = None"
    using False tables_okD(7) [OF t] g2(4,5) by (auto simp: has_iff get_None_iff)
  moreover have "e_w ?eo \<in> node_set g2" "e_v ?eo \<in> node_set g2"
    using edgeArgsToObj_ends [of "f_isDirected g" v w name] n2 by auto
  moreover have "edge_ok (f_isDirected g2) (f_isMultigraph g2) e ?eo"
    using edge_ok_new [OF name, of "f_isDirected g" v w] flags by (simp add: e_def same_flags_def)
  ultimately obtain preds sucs ins outs where tabs:
    "upd_in (e_w ?eo) (incrementOrInitEntry (e_v ?eo)) (f_preds g2) = Inr preds"
    "upd_in (e_v ?eo) (incrementOrInitEntry (e_w ?eo)) (f_sucs g2) = Inr sucs"
    "upd_in (e_w ?eo) (put e ?eo) (f_in g2) = Inr ins"
    "upd_in (e_v ?eo) (put e ?eo) (f_out g2) = Inr outs"
    "tables_ok (node_set g2) (node_set g2)
       (g2\<lparr>f_edgeLabels := put e (case val of Some x \<Rightarrow> x | None \<Rightarrow> f_defaultEdgeLabelFn g v w name) (f_edgeLabels g2),
       f_edgeObjs := put e ?eo (f_edgeObjs g2), f_preds := preds, f_sucs := sucs, f_in := ins, f_out := outs,
       f_edgeCount := f_edgeCount g2 + 1\<rparr>)" (is "tables_ok _ _ ?g3")
    using add_edge_tables_ok [OF t] by blast
  have eqs: "f_defaultEdgeLabelFn g2 = f_defaultEdgeLabelFn g" "f_isDirected g2 = f_isDirected g"
    using flags by (simp_all add: same_flags_def)
  have nm: "\<not> (name \<noteq> None \<and> \<not> f_isMultigraph g)" using name(2) by blast
  have "setEdge v w val name g = Inr ?g3"
    unfolding setEdge_def Let_def e_def [symmetric]
    by (subst if_not_P [OF False], subst if_not_P [OF nm], cases val) (simp_all add: g1(1) g2(1) eqs tabs(1-4))
  moreover have "graph_ok ?g3"
    using g2(2) tabs(5) by (auto simp: graph_ok_def node_set_def)
  ultimately show ?thesis
    using False flags g1(6,7) g2(4-7) n1 n2 by (auto simp: same_flags_def node_set_def)
qed


section \<open>Parents\<close>

definition parent_or_root :: "string option \<Rightarrow> string" where
  "parent_or_root par = (case par of None \<Rightarrow> GRAPH_NODE | Some p \<Rightarrow> p)"

text \<open>The last four statements of \<open>setParent\<close>, on the tables alone.\<close>

lemma reparent_ok:
  fixes g :: "('g, 'n, 'e) Graph"
  assumes "tree_ok Vp Vc (f_parent g) (f_children g)" "v \<in> Vp" "p \<in> insert GRAPH_NODE Vc"
    and "(p, v) \<notin> (parent_rel (f_parent g))\<^sup>*"
  shows "\<exists>C'. rbind (removeFromParentsChildList v g) (\<lambda>g3.
      rbind (upd_in p (put v True) (f_children g3)) (\<lambda>c.
        Inr (g3\<lparr>f_parent := put v p (f_parent g3), f_children := c\<rparr>))) =
      Inr (g\<lparr>f_parent := put v p (f_parent g), f_children := C'\<rparr>) \<and>
    tree_ok Vp Vc (put v p (f_parent g)) C'"
  using tree_ok_move [OF assms] removeFromParentsChildList_ok(1) [OF assms(1,2)] by auto

lemma setParent_root_ok:
  assumes "tree_ok Vp Vc (f_parent g) (f_children g)" "v \<in> Vp" "f_isCompound g" "v \<in> node_set g"
  shows "\<exists>C'. setParent v None g = Inr (g\<lparr>f_parent := put v GRAPH_NODE (f_parent g), f_children := C'\<rparr>) \<and>
    tree_ok Vp Vc (put v GRAPH_NODE (f_parent g)) C'"
proof -
  have "v \<noteq> GRAPH_NODE" using tree_okD(6) [OF assms(1)] assms(2) by blast
  then have "(GRAPH_NODE, v) \<notin> (parent_rel (f_parent g))\<^sup>*"
    using tree_ok_dead_end [OF assms(1)] by (blast elim: converse_rtranclE)
  from reparent_ok [OF assms(1,2) _ this] assms(3,4) show ?thesis
    by (auto simp: setParent_def setNode_def has_iff node_set_def)
qed

lemma setParent_cycle:
  assumes "graph_ok g" "f_isCompound g" "v \<noteq> GRAPH_NODE" "p \<noteq> GRAPH_NODE"
    and "(p, v) \<in> (parent_rel (f_parent g))\<^sup>*"
  shows "setParent v (Some p) g =
    Inl (parentCycleError p v)"
  using ancestorLoop_fuel_enough [of g "node_set g" "node_set g" v p] assms
  by (simp add: setParent_def graph_ok_def)

text \<open>New top-level nodes create no path between others.\<close>

lemma no_path_new_roots:
  assumes "R' \<subseteq> insert (v, d) (insert (p, d) R)" "d \<notin> Domain R" "d \<notin> Domain R'" "v \<noteq> d" "(p, v) \<notin> R\<^sup>*"
  shows "(p, v) \<notin> R'\<^sup>*"
proof
  assume path: "(p, v) \<in> R'\<^sup>*"
  show False
  proof (cases "p = d")
    case True
    with path assms(3,4) show False by (blast elim: converse_rtranclE)
  next
    case False
    then have "d \<notin> Domain (insert (p, d) R)" using assms(2) by auto
    moreover have "(p, v) \<in> (insert (v, d) (insert (p, d) R))\<^sup>*" using path rtrancl_mono [OF assms(1)] by blast
    ultimately show False using assms(2,4,5) by (simp add: rtrancl_to_dead_end)
  qed
qed

text \<open>The first part of \<open>setParent\<close>: the cycle test passes and the parent exists afterwards.\<close>

lemma setParent_prepare:
  assumes ok: "graph_ok g" and c: "f_isCompound g" and v: "v \<noteq> GRAPH_NODE" "par \<noteq> Some GRAPH_NODE"
    and acyc: "\<And>p. par = Some p \<Longrightarrow> (p, v) \<notin> (parent_rel (f_parent g))\<^sup>*"
  shows "\<exists>g1. (case par of None \<Rightarrow> Inr (GRAPH_NODE, g)
         | Some p \<Rightarrow> (case ancestorLoop g v (Some p) (length (f_parent g) + 2) of
                None \<Rightarrow> Inl Diverges
              | Some True \<Rightarrow> Inl (parentCycleError p v)
              | Some False \<Rightarrow> rbind (setNode p None g) (\<lambda>g1. Inr (p, g1)))) = Inr (parent_or_root par, g1) \<and>
      graph_ok g1 \<and> same_flags g g1 \<and> f_edgeObjs g1 = f_edgeObjs g \<and> f_edgeLabels g1 = f_edgeLabels g \<and>
      node_set g1 = set_option par \<union> node_set g \<and>
      (\<forall>x\<in>node_set g. get (f_nodes g1) x = get (f_nodes g) x) \<and>
      f_parent g1 = (case par of Some p \<Rightarrow> if p \<in> node_set g then f_parent g else put p GRAPH_NODE (f_parent g)
                                | None \<Rightarrow> f_parent g)"
proof (cases par)
  case None
  then show ?thesis using ok by (simp add: parent_or_root_def)
next
  case (Some p)
  have "tree_ok (node_set g) (node_set g) (f_parent g) (f_children g)"
    using ok c by (simp add: graph_ok_def)
  with Some v acyc ancestorLoop_fuel_enough [OF c _ v(1), of _ _ p]
  have loop: "ancestorLoop g v (Some p) (length (f_parent g) + 2) = Some False" by simp
  obtain g1 where "setNode p None g = Inr g1" "graph_ok g1" "same_flags g g1" "f_edgeObjs g1 = f_edgeObjs g"
    "f_edgeLabels g1 = f_edgeLabels g" "\<forall>x\<in>node_set g. get (f_nodes g1) x = get (f_nodes g) x"
    "f_parent g1 = (if p \<in> node_set g then f_parent g else put p GRAPH_NODE (f_parent g))"
    using setNode_ok [OF ok, of p None] v(2) c Some by (auto split: if_splits)
  then show ?thesis using Some loop setNode_node_set [OF ok, of p None g1] v(2)
    by (auto simp: parent_or_root_def)
qed

lemma setParent_ok:
  assumes ok: "graph_ok g" and c: "f_isCompound g" and v: "v \<noteq> GRAPH_NODE" "par \<noteq> Some GRAPH_NODE"
    and acyc: "\<And>p. par = Some p \<Longrightarrow> (p, v) \<notin> (parent_rel (f_parent g))\<^sup>*"
  shows "\<exists>g'. setParent v par g = Inr g' \<and> graph_ok g' \<and> same_flags g g' \<and>
    f_edgeObjs g' = f_edgeObjs g \<and> f_edgeLabels g' = f_edgeLabels g \<and>
    node_set g' = insert v (set_option par \<union> node_set g) \<and>
    (\<forall>x\<in>node_set g. get (f_nodes g') x = get (f_nodes g) x) \<and>
    (\<forall>x. get (f_parent g') x =
       (if x = v then Some (parent_or_root par)
        else if par = Some x \<and> x \<notin> node_set g then Some GRAPH_NODE else get (f_parent g) x))"
proof -
  let ?p = "parent_or_root par"
  have dead: "GRAPH_NODE \<notin> Domain (parent_rel (f_parent g))"
    using tree_ok_dead_end [of "node_set g" "node_set g"] ok c by (auto simp: graph_ok_def)
  have nocyc: "(?p, v) \<notin> (parent_rel (f_parent g))\<^sup>*"
    using acyc dead v(1) by (cases par) (auto simp: parent_or_root_def elim: converse_rtranclE)
  from setParent_prepare [OF assms] obtain g1 where g1:
      "(case par of None \<Rightarrow> Inr (GRAPH_NODE, g)
         | Some p \<Rightarrow> (case ancestorLoop g v (Some p) (length (f_parent g) + 2) of
                None \<Rightarrow> Inl Diverges
              | Some True \<Rightarrow> Inl (parentCycleError p v)
              | Some False \<Rightarrow> rbind (setNode p None g) (\<lambda>g1. Inr (p, g1)))) = Inr (?p, g1)"
      "graph_ok g1" "same_flags g g1" "f_edgeObjs g1 = f_edgeObjs g" "f_edgeLabels g1 = f_edgeLabels g"
      "node_set g1 = set_option par \<union> node_set g"
      "\<forall>x\<in>node_set g. get (f_nodes g1) x = get (f_nodes g) x"
      "f_parent g1 = (case par of Some p \<Rightarrow> if p \<in> node_set g then f_parent g else put p GRAPH_NODE (f_parent g)
                                | None \<Rightarrow> f_parent g)" by blast
  have c1: "f_isCompound g1" using g1(3) c by (simp add: same_flags_def)
  obtain g2 where g2: "setNode v None g1 = Inr g2" "graph_ok g2" "same_flags g1 g2"
      "f_edgeObjs g2 = f_edgeObjs g1" "f_edgeLabels g2 = f_edgeLabels g1"
      "\<forall>x\<in>node_set g1. get (f_nodes g2) x = get (f_nodes g1) x"
      "f_parent g2 = (if v \<in> node_set g1 then f_parent g1 else put v GRAPH_NODE (f_parent g1))"
    using setNode_ok [OF g1(2), of v None] v(1) c1 by (auto split: if_splits)
  have n2: "node_set g2 = insert v (set_option par \<union> node_set g)"
    using setNode_node_set [OF g1(2) _ g2(1)] v(1) g1(6) by blast
  have tree2: "tree_ok (node_set g2) (node_set g2) (f_parent g2) (f_children g2)"
    using g2(2,3) c1 by (simp add: graph_ok_def same_flags_def)
  have "parent_rel (f_parent g2) \<subseteq>
      insert (v, GRAPH_NODE) (insert (?p, GRAPH_NODE) (parent_rel (f_parent g)))"
    using g1(8) g2(7) by (auto simp: parent_rel_def parent_or_root_def split: if_splits option.splits)
  then have nocyc2: "(?p, v) \<notin> (parent_rel (f_parent g2))\<^sup>*"
    by (rule no_path_new_roots [OF _ dead tree_ok_dead_end [OF tree2] v(1) nocyc])
  have "?p \<in> insert GRAPH_NODE (node_set g2)" using n2 by (cases par) (auto simp: parent_or_root_def)
  from reparent_ok [OF tree2 _ this nocyc2] n2 obtain C' where C':
    "rbind (removeFromParentsChildList v g2) (\<lambda>g3.
      rbind (upd_in ?p (put v True) (f_children g3)) (\<lambda>c.
        Inr (g3\<lparr>f_parent := put v ?p (f_parent g3), f_children := c\<rparr>))) =
      Inr (g2\<lparr>f_parent := put v ?p (f_parent g2), f_children := C'\<rparr>)"
    "tree_ok (node_set g2) (node_set g2) (put v ?p (f_parent g2)) C'" by blast
  let ?g = "g2\<lparr>f_parent := put v ?p (f_parent g2), f_children := C'\<rparr>"
  have "setParent v par g = Inr ?g" unfolding setParent_def using c g1(1) g2(1) C'(1) by simp
  moreover have "graph_ok ?g"
    using g2(2) C'(2) by (simp add: graph_ok_def node_set_def tables_ok_def)
  moreover have "same_flags g ?g" using g1(3) g2(3) by (simp add: same_flags_def)
  moreover have "node_set ?g = insert v (set_option par \<union> node_set g)" using n2 by (simp add: node_set_def)
  ultimately show ?thesis using g1 g2 by (auto split: option.splits if_splits)
qed

section \<open>Removal of a node\<close>

text \<open>The loop that moves the children of the removed node to the top level.\<close>

lemma orphan_loop_ok:
  assumes "tree_ok Vp Vc (f_parent g) (f_children g)" "f_isCompound g" "set cs \<subseteq> Vp" "set cs \<subseteq> node_set g"
  shows "\<exists>P' C'. rfold (\<lambda>child. setParent child None) cs g = Inr (g\<lparr>f_parent := P', f_children := C'\<rparr>) \<and>
    tree_ok Vp Vc P' C' \<and> (\<forall>x. get P' x = (if x \<in> set cs then Some GRAPH_NODE else get (f_parent g) x))"
proof -
  let ?Q = "\<lambda>ys h. \<exists>P' C'. h = g\<lparr>f_parent := P', f_children := C'\<rparr> \<and> tree_ok Vp Vc P' C' \<and>
      (\<forall>x. get P' x = (if x \<in> set ys then Some GRAPH_NODE else get (f_parent g) x))"
  have "\<exists>h. rfold (\<lambda>child. setParent child None) cs g = Inr h \<and> ?Q cs h"
  proof (rule rfold_prefix_invariant)
    show "?Q [] g" using assms(1) by (intro exI [of _ "f_parent g"] exI [of _ "f_children g"]) simp
  next
    fix ys x zs h
    assume cs: "cs = ys @ x # zs" and "?Q ys h"
    then obtain P' C' where h: "h = g\<lparr>f_parent := P', f_children := C'\<rparr>" "tree_ok Vp Vc P' C'"
      "\<And>x. get P' x = (if x \<in> set ys then Some GRAPH_NODE else get (f_parent g) x)" by blast
    have "x \<in> Vp" "x \<in> node_set h" using cs assms(3,4) h(1) by (auto simp: node_set_def)
    from setParent_root_ok [of Vp Vc h x] this h(1,2) assms(2) obtain C'' where
      "setParent x None h = Inr (h\<lparr>f_parent := put x GRAPH_NODE P', f_children := C''\<rparr>)"
      "tree_ok Vp Vc (put x GRAPH_NODE P') C''" by auto
    with h(1,3) show "\<exists>s'. setParent x None h = Inr s' \<and> ?Q (ys @ [x]) s'"
      by (intro exI [of _ "h\<lparr>f_parent := put x GRAPH_NODE P', f_children := C''\<rparr>"] conjI
          exI [of _ "put x GRAPH_NODE P'"] exI [of _ C'']) simp_all
  qed
  then show ?thesis by blast
qed

text \<open>The two loops that remove the incident edges.\<close>

lemma edge_loop_ok:
  assumes t: "tables_ok Vi Vo g" and es: "distinct es" "\<And>e. e \<in> set es \<Longrightarrow> get (f_edgeObjs g) e \<noteq> None"
  shows "\<exists>g'. rfold removeEdgeById es g = Inr g' \<and>
    tables_ok Vi Vo g' \<and> same_flags g g' \<and>
    (\<forall>e. get (f_edgeObjs g') e = (if e \<in> set es then None else get (f_edgeObjs g) e)) \<and>
    (\<forall>e. get (f_edgeLabels g') e = (if e \<in> set es then None else get (f_edgeLabels g) e)) \<and>
    f_nodes g' = f_nodes g \<and> f_nodeCount g' = f_nodeCount g \<and>
    f_parent g' = f_parent g \<and> f_children g' = f_children g" (is "\<exists>g'. _ = Inr g' \<and> ?Q es g'")
proof (rule rfold_prefix_invariant)
  show "?Q [] g" using t by simp
next
  fix ys e zs h
  assume split: "es = ys @ e # zs" and Q: "?Q ys h"
  with es obtain eo where eo: "get (f_edgeObjs h) e = Some eo" by fastforce
  from Q have th: "tables_ok Vi Vo h" by blast
  have "removeEdgeObj eo h = removeEdgeKey e h"
    using tables_okD(9) [OF th eo] by (simp add: removeEdgeObj_def edge_ok_def)
  with removeEdgeKey_ok [OF th, of e] eo Q
  show "\<exists>s'. removeEdgeById e h = Inr s' \<and> ?Q (ys @ [e]) s'"
    by (auto simp: same_flags_def removeEdgeById_def)
qed


lemma tables_ok_cong:
  assumes "tables_ok Vi Vo g" "f_edgeObjs g' = f_edgeObjs g" "f_edgeLabels g' = f_edgeLabels g"
    and "f_in g' = f_in g" "f_preds g' = f_preds g" "f_out g' = f_out g" "f_sucs g' = f_sucs g"
    and "f_edgeCount g' = f_edgeCount g" "f_isDirected g' = f_isDirected g" "f_isMultigraph g' = f_isMultigraph g"
  shows "tables_ok Vi Vo g'"
  using assms unfolding tables_ok_def by simp

lemma entryKeys_incident:
  assumes "inc_ok f V E I" "v \<in> V"
  shows "distinct (entryKeys I v)" "e \<in> set (entryKeys I v) \<longleftrightarrow> (\<exists>eo. get E e = Some eo \<and> f eo = v)"
proof -
  obtain ob where ob: "get I v = Some ob" "obj_ok ob" "\<And>e. get ob e = incident f v E e"
    using assms key_get [of v I] by (auto simp: inc_ok_def)
  then show "distinct (entryKeys I v)" by (simp add: entryKeys_def obj_ok_def)
  have "e \<in> set (keys ob) \<longleftrightarrow> incident f v E e \<noteq> None" using ob(3) [of e] get_None_iff [of ob e] by auto
  with ob(1) show "e \<in> set (entryKeys I v) \<longleftrightarrow> (\<exists>eo. get E e = Some eo \<and> f eo = v)"
    by (auto simp: entryKeys_def incident_def split: option.splits if_splits)
qed

lemma removeNode_edges_ok:
  assumes t: "tables_ok V V g" and v: "v \<in> V"
  shows "\<exists>g'. rbind (rfold removeEdgeById (entryKeys (f_in g) v) g) (\<lambda>g5.
      let g6 = g5\<lparr>f_in := del v (f_in g5), f_preds := del v (f_preds g5)\<rparr> in
      rbind (rfold removeEdgeById (entryKeys (f_out g6) v) g6) (\<lambda>g7.
        Inr (g7\<lparr>f_out := del v (f_out g7), f_sucs := del v (f_sucs g7),
                f_nodeCount := f_nodeCount g7 - 1\<rparr>))) = Inr g' \<and>
    tables_ok (V - {v}) (V - {v}) g' \<and> same_flags g g' \<and>
    (\<forall>e. get (f_edgeObjs g') e = (case get (f_edgeObjs g) e of
        Some eo \<Rightarrow> if e_v eo = v \<or> e_w eo = v then None else Some eo | None \<Rightarrow> None)) \<and>
    (\<forall>e. get (f_edgeLabels g') e = (case get (f_edgeObjs g) e of
        Some eo \<Rightarrow> if e_v eo = v \<or> e_w eo = v then None else get (f_edgeLabels g) e | None \<Rightarrow> None)) \<and>
    f_nodes g' = f_nodes g \<and> f_nodeCount g' = f_nodeCount g - 1 \<and>
    f_parent g' = f_parent g \<and> f_children g' = f_children g"
proof -
  note ein = entryKeys_incident [OF tables_okD(1) [OF t] v]
  obtain g5 where g5: "rfold removeEdgeById (entryKeys (f_in g) v) g = Inr g5"
    "tables_ok V V g5" "same_flags g g5"
    "\<And>e. get (f_edgeObjs g5) e = (if e \<in> set (entryKeys (f_in g) v) then None else get (f_edgeObjs g) e)"
    "\<And>e. get (f_edgeLabels g5) e = (if e \<in> set (entryKeys (f_in g) v) then None else get (f_edgeLabels g) e)"
    "f_nodes g5 = f_nodes g" "f_nodeCount g5 = f_nodeCount g" "f_parent g5 = f_parent g" "f_children g5 = f_children g"
    using edge_loop_ok [OF t ein(1)] ein(2) by blast
  let ?g6 = "g5\<lparr>f_in := del v (f_in g5), f_preds := del v (f_preds g5)\<rparr>"
  have "e_w eo \<noteq> v" if "get (f_edgeObjs g5) e = Some eo" for e eo
    using that g5(4) [of e] ein(2) [of e] by (auto split: if_splits)
  then have t6: "tables_ok (V - {v}) V ?g6"
    using tables_okD [OF g5(2)] inc_ok_del_row adj_ok_del_row by (auto simp: tables_ok_def)
  note eout = entryKeys_incident [OF tables_okD(3) [OF t6] v]
  obtain g7 where g7: "rfold removeEdgeById (entryKeys (f_out ?g6) v) ?g6 = Inr g7"
    "tables_ok (V - {v}) V g7" "same_flags ?g6 g7"
    "\<And>e. get (f_edgeObjs g7) e = (if e \<in> set (entryKeys (f_out ?g6) v) then None else get (f_edgeObjs ?g6) e)"
    "\<And>e. get (f_edgeLabels g7) e = (if e \<in> set (entryKeys (f_out ?g6) v) then None else get (f_edgeLabels ?g6) e)"
    "f_nodes g7 = f_nodes ?g6" "f_nodeCount g7 = f_nodeCount ?g6" "f_parent g7 = f_parent ?g6"
    "f_children g7 = f_children ?g6"
    using edge_loop_ok [OF t6 eout(1)] eout(2) by blast
  let ?g8 = "g7\<lparr>f_out := del v (f_out g7), f_sucs := del v (f_sucs g7), f_nodeCount := f_nodeCount g7 - 1\<rparr>"
  have "e_v eo \<noteq> v" if "get (f_edgeObjs g7) e = Some eo" for e eo
    using that g7(4) [of e] eout(2) [of e] by (auto split: if_splits)
  then have "tables_ok (V - {v}) (V - {v}) ?g8"
    using tables_okD [OF g7(2)] inc_ok_del_row adj_ok_del_row by (auto simp: tables_ok_def)
  moreover have objs: "get (f_edgeObjs ?g8) e = (case get (f_edgeObjs g) e of
        Some eo \<Rightarrow> if e_v eo = v \<or> e_w eo = v then None else Some eo | None \<Rightarrow> None)" for e
    using g7(4) [of e] g5(4) [of e] ein(2) [of e] eout(2) [of e] by (auto split: option.splits)
  moreover have "get (f_edgeLabels ?g8) e = (case get (f_edgeObjs g) e of
        Some eo \<Rightarrow> if e_v eo = v \<or> e_w eo = v then None else get (f_edgeLabels g) e | None \<Rightarrow> None)" for e
    using g7(5) [of e] g5(4,5) [of e] ein(2) [of e] eout(2) [of e] tables_okD(7) [OF t]
    by (auto simp: get_None_iff split: option.splits)
  ultimately show ?thesis
    using g5 g7 by (intro exI [of _ ?g8]) (simp add: same_flags_def Let_def)
qed

lemma removeNode_tree_ok:
  assumes ok: "graph_ok g" and v: "v \<in> node_set g"
  defines "g0 \<equiv> g\<lparr>f_nodes := del v (f_nodes g)\<rparr>"
  shows "\<exists>P' C'. (if f_isCompound g0 then
        rbind (removeFromParentsChildList v g0) (\<lambda>g1.
          let g2 = g1\<lparr>f_parent := del v (f_parent g1)\<rparr> in
          rbind (rfold (\<lambda>child. setParent child None)
                   (case children (Some v) g2 of Some cs \<Rightarrow> cs | None \<Rightarrow> []) g2) (\<lambda>g3.
            Inr (g3\<lparr>f_children := del v (f_children g3)\<rparr>)))
      else Inr g0) = Inr (g0\<lparr>f_parent := P', f_children := C'\<rparr>) \<and>
    (f_isCompound g \<longrightarrow> tree_ok (node_set g - {v}) (node_set g - {v}) P' C' \<and>
      (\<forall>x. get P' x = (if x = v then None else if get (f_parent g) x = Some v then Some GRAPH_NODE
                       else get (f_parent g) x)))"
proof (cases "f_isCompound g")
  case False
  then show ?thesis
    by (intro exI [of _ "f_parent g0"] exI [of _ "f_children g0"]) (simp add: g0_def)
next
  case True
  let ?V = "node_set g"
  have tree: "tree_ok ?V ?V (f_parent g0) (f_children g0)" using ok True by (simp add: graph_ok_def g0_def)
  let ?D = "detached v (f_parent g0) (f_children g0)"
  let ?g2 = "g0\<lparr>f_children := ?D, f_parent := del v (f_parent g0)\<rparr>"
  have tree2: "tree_ok (?V - {v}) ?V (f_parent ?g2) (f_children ?g2)"
    using tree_ok_detach [OF tree v] by simp
  have "v \<in> set (keys ?D)" using removeFromParentsChildList_ok(2) [OF tree v] v by blast
  then obtain ob where ob: "get ?D v = Some ob" using key_get by blast
  have kids: "x \<in> set (keys ob) \<longleftrightarrow> x \<noteq> v \<and> get (f_parent g) x = Some v" for x
    using removeFromParentsChildList_ok(4) [OF tree v ob] by (simp add: g0_def)
  then have sub: "set (keys ob) \<subseteq> ?V - {v}"
    using tree_okD(2) [OF tree] get_Some_key [of "f_parent g"] by (auto simp: g0_def)
  have cs: "children (Some v) ?g2 = Some (keys ob)" using True ob by (simp add: children_def g0_def)
  have "f_isCompound ?g2" "set (keys ob) \<subseteq> node_set ?g2"
    using True sub by (auto simp: g0_def node_set_def)
  from orphan_loop_ok [OF tree2 this(1) sub this(2)] obtain P' C' where loop:
    "rfold (\<lambda>child. setParent child None) (keys ob) ?g2 = Inr (?g2\<lparr>f_parent := P', f_children := C'\<rparr>)"
    "tree_ok (?V - {v}) ?V P' C'"
    "\<And>x. get P' x = (if x \<in> set (keys ob) then Some GRAPH_NODE else get (f_parent ?g2) x)" by blast
  have vg: "v \<noteq> GRAPH_NODE" using tree_okD(6) [OF tree] v by blast
  have P': "get P' x = (if x = v then None else if get (f_parent g) x = Some v then Some GRAPH_NODE
      else get (f_parent g) x)" for x using loop(3) [of x] kids [of x] by (auto simp: g0_def)
  then have "tree_ok (?V - {v}) (?V - {v}) P' (del v C')"
    using tree_ok_drop [OF loop(2) _ vg] vg by simp
  with P' True cs loop(1) removeFromParentsChildList_ok(1) [OF tree v] show ?thesis
    by (intro exI [of _ P'] exI [of _ "del v C'"]) (simp add: g0_def)
qed

lemma removeNode_ok:
  assumes ok: "graph_ok g" and v: "v \<in> node_set g"
  shows "\<exists>g'. removeNode v g = Inr g' \<and> graph_ok g' \<and> same_flags g g' \<and> f_nodes g' = del v (f_nodes g) \<and>
    (\<forall>e. get (f_edgeObjs g') e = (case get (f_edgeObjs g) e of
        Some eo \<Rightarrow> if e_v eo = v \<or> e_w eo = v then None else Some eo | None \<Rightarrow> None)) \<and>
    (\<forall>e. get (f_edgeLabels g') e = (case get (f_edgeObjs g) e of
        Some eo \<Rightarrow> if e_v eo = v \<or> e_w eo = v then None else get (f_edgeLabels g) e | None \<Rightarrow> None)) \<and>
    (f_isCompound g \<longrightarrow> (\<forall>x. get (f_parent g') x =
       (if x = v then None else if get (f_parent g) x = Some v then Some GRAPH_NODE else get (f_parent g) x)))"
proof -
  let ?g0 = "g\<lparr>f_nodes := del v (f_nodes g)\<rparr>"
  from removeNode_tree_ok [OF ok v] obtain P' C' where tree:
    "(if f_isCompound ?g0 then
        rbind (removeFromParentsChildList v ?g0) (\<lambda>g1.
          let g2 = g1\<lparr>f_parent := del v (f_parent g1)\<rparr> in
          rbind (rfold (\<lambda>child. setParent child None)
                   (case children (Some v) g2 of Some cs \<Rightarrow> cs | None \<Rightarrow> []) g2) (\<lambda>g3.
            Inr (g3\<lparr>f_children := del v (f_children g3)\<rparr>)))
      else Inr ?g0) = Inr (?g0\<lparr>f_parent := P', f_children := C'\<rparr>)"
    "f_isCompound g \<longrightarrow> tree_ok (node_set g - {v}) (node_set g - {v}) P' C' \<and>
      (\<forall>x. get P' x = (if x = v then None else if get (f_parent g) x = Some v then Some GRAPH_NODE
                       else get (f_parent g) x))" by blast
  let ?g4 = "?g0\<lparr>f_parent := P', f_children := C'\<rparr>"
  have "tables_ok (node_set g) (node_set g) ?g4"
    by (rule tables_ok_cong [of _ _ g]) (use ok in \<open>simp_all add: graph_ok_def\<close>)
  from removeNode_edges_ok [OF this v] obtain g' where g':
    "rbind (rfold removeEdgeById (entryKeys (f_in ?g4) v) ?g4) (\<lambda>g5.
      let g6 = g5\<lparr>f_in := del v (f_in g5), f_preds := del v (f_preds g5)\<rparr> in
      rbind (rfold removeEdgeById (entryKeys (f_out g6) v) g6) (\<lambda>g7.
        Inr (g7\<lparr>f_out := del v (f_out g7), f_sucs := del v (f_sucs g7),
                f_nodeCount := f_nodeCount g7 - 1\<rparr>))) = Inr g'"
    "tables_ok (node_set g - {v}) (node_set g - {v}) g'" "same_flags ?g4 g'"
    "\<forall>e. get (f_edgeObjs g') e = (case get (f_edgeObjs ?g4) e of
        Some eo \<Rightarrow> if e_v eo = v \<or> e_w eo = v then None else Some eo | None \<Rightarrow> None)"
    "\<forall>e. get (f_edgeLabels g') e = (case get (f_edgeObjs ?g4) e of
        Some eo \<Rightarrow> if e_v eo = v \<or> e_w eo = v then None else get (f_edgeLabels ?g4) e | None \<Rightarrow> None)"
    "f_nodes g' = f_nodes ?g4" "f_nodeCount g' = f_nodeCount ?g4 - 1"
    "f_parent g' = f_parent ?g4" "f_children g' = f_children ?g4" by blast
  have "removeNode v g = Inr g'"
    unfolding removeNode_def using v tree(1) g'(1) by (simp add: has_iff node_set_def Let_def)
  moreover have ns: "node_set g' = node_set g - {v}" using g'(6) by (simp add: node_set_def)
  moreover have "f_nodeCount g' = int (length (f_nodes g'))"
    using ok v g'(6,7) by (cases "f_nodes g") (simp_all add: graph_ok_def length_del node_set_def)
  then have "graph_ok g'"
    unfolding graph_ok_def ns using ok g'(2,3,6,8,9) tree(2) by (auto simp: graph_ok_def same_flags_def)
  ultimately show ?thesis using g'(3-6,8) tree(2) by (simp add: same_flags_def split: option.split)
qed

end
