(* ===== verification/Graphlib_Spec.thy ===== *)
theory Graphlib_Spec
  imports Graphlib_Inv
begin

text \<open>
  What a graphlib graph promises its clients: the abstract graph (a finite map from node ids to
  labels and a map from edges to labels), that the mutators act on it as updates, and that the
  queries read it. The edge table is keyed by a string joined from the two ends and the name, so
  the statements about single edges are for ids without the delimiter \<open>\x01\<close> and names other
  than the empty one and the default one; for these the key is injective.
\<close>

section \<open>The edge key\<close>

definition clean :: "string \<Rightarrow> bool" where
  "clean v \<longleftrightarrow> CHR 0x01 \<notin> set v"

definition clean_name :: "string option \<Rightarrow> bool" where
  "clean_name n \<longleftrightarrow> n \<noteq> Some [] \<and> n \<noteq> Some DEFAULT_EDGE_NAME"

definition clean_edge :: "edgeObj \<Rightarrow> bool" where
  "clean_edge eo \<longleftrightarrow> clean (e_v eo) \<and> clean (e_w eo) \<and> clean_name (e_name eo)"

definition clean_graph :: "('g, 'n, 'e) Graph \<Rightarrow> bool" where
  "clean_graph g \<longleftrightarrow> (\<forall>eo \<in> set (edges g). clean_edge eo)"

lemma append_delim_inj:
  "c \<notin> set a \<Longrightarrow> c \<notin> set a' \<Longrightarrow> a @ c # b = a' @ c # b' \<longleftrightarrow> a = a' \<and> b = b'"
proof (induction a arbitrary: a')
  case Nil
  then show ?case by (cases a') auto
next
  case (Cons x a)
  then show ?case by (cases a') auto
qed

lemma edgeArgsToObj_clean:
  "clean v \<Longrightarrow> clean w \<Longrightarrow> clean_name n \<Longrightarrow> clean_edge (edgeArgsToObj d v w n)"
  by (auto simp: clean_edge_def clean_name_def edgeArgsToObj_def)

lemma edgeObjToId_inj:
  assumes "clean_edge a" "clean_edge b" "d \<or> e_v a \<le> e_w a" "d \<or> e_v b \<le> e_w b"
  shows "edgeObjToId d a = edgeObjToId d b \<longleftrightarrow> a = b"
proof -
  have id: "edgeObjToId d eo = e_v eo @ CHR 0x01 # e_w eo @ CHR 0x01 #
      (case e_name eo of None \<Rightarrow> DEFAULT_EDGE_NAME | Some n \<Rightarrow> n)" if "d \<or> e_v eo \<le> e_w eo" for eo
    using that by (auto simp: edgeObjToId_def edgeArgsToId_def EDGE_KEY_DELIM_def)
  have "edgeObjToId d a = edgeObjToId d b \<longleftrightarrow>
      e_v a = e_v b \<and> e_w a = e_w b \<and>
      (case e_name a of None \<Rightarrow> DEFAULT_EDGE_NAME | Some n \<Rightarrow> n) =
      (case e_name b of None \<Rightarrow> DEFAULT_EDGE_NAME | Some n \<Rightarrow> n)"
    using assms id by (simp add: clean_edge_def clean_def append_delim_inj)
  also have "\<dots> \<longleftrightarrow> a = b"
    using assms(1,2) by (cases a; cases b) (auto simp: clean_edge_def clean_name_def split: option.splits)
  finally show ?thesis .
qed

lemma edgeArgsToObj_ordered: "d \<or> e_v (edgeArgsToObj d v w n) \<le> e_w (edgeArgsToObj d v w n)"
  by (auto simp: edgeArgsToObj_def)

section \<open>The abstract graph\<close>

definition abs_nodes :: "('g, 'n, 'e) Graph \<Rightarrow> string \<rightharpoonup> 'n option" where
  "abs_nodes g = get (f_nodes g)"

definition abs_edges :: "('g, 'n, 'e) Graph \<Rightarrow> edgeObj \<rightharpoonup> 'e option" where
  "abs_edges g eo = (if eo \<in> set (edges g) then get (f_edgeLabels g) (edgeObjToId (f_isDirected g) eo) else None)"

lemma graph_okD:
  assumes "graph_ok g"
  shows "obj_ok (f_nodes g)" "f_nodeCount g = int (length (f_nodes g))" "tables_ok (node_set g) (node_set g) g"
    and "f_isCompound g \<Longrightarrow> tree_ok (node_set g) (node_set g) (f_parent g) (f_children g)"
  using assms by (simp_all add: graph_ok_def)

lemma edges_iff:
  assumes "graph_ok g"
  shows "eo \<in> set (edges g) \<longleftrightarrow> get (f_edgeObjs g) (edgeObjToId (f_isDirected g) eo) = Some eo"
  using tables_okD(5,9) [OF graph_okD(3) [OF assms]] by (auto simp: edges_def vals_set edge_ok_def)

lemma edges_ends: "graph_ok g \<Longrightarrow> eo \<in> set (edges g) \<Longrightarrow> e_v eo \<in> node_set g \<and> e_w eo \<in> node_set g"
  using tables_ok_edge_ends [OF graph_okD(3)] by (auto simp: edges_def)

lemma edges_shape:
  "graph_ok g \<Longrightarrow> eo \<in> set (edges g) \<Longrightarrow> edge_ok (f_isDirected g) (f_isMultigraph g) (edgeObjToId (f_isDirected g) eo) eo"
  using tables_okD(9) [OF graph_okD(3)] edges_iff by blast

lemma dom_abs_edges: "graph_ok g \<Longrightarrow> dom (abs_edges g) = set (edges g)"
proof -
  assume ok: "graph_ok g"
  have "eo \<in> set (edges g) \<Longrightarrow> get (f_edgeLabels g) (edgeObjToId (f_isDirected g) eo) \<noteq> None" for eo
    using edges_iff [OF ok, of eo] tables_okD(7) [OF graph_okD(3) [OF ok]] get_Some_key [of "f_edgeObjs g"]
    by (auto simp: get_None_iff)
  then show ?thesis by (auto simp: abs_edges_def dom_def)
qed

text \<open>For clean ids the lookup by key is the lookup in the abstract map.\<close>

lemma key_present_iff:
  assumes ok: "graph_ok g" "clean_graph g" and eo: "clean_edge eo" "f_isDirected g \<or> e_v eo \<le> e_w eo"
  shows "has (f_edgeLabels g) (edgeObjToId (f_isDirected g) eo) \<longleftrightarrow> eo \<in> set (edges g)"
proof
  assume "has (f_edgeLabels g) (edgeObjToId (f_isDirected g) eo)"
  then obtain eo' where "get (f_edgeObjs g) (edgeObjToId (f_isDirected g) eo) = Some eo'"
    using tables_okD(7) [OF graph_okD(3) [OF ok(1)]] key_get [of _ "f_edgeObjs g"] by (auto simp: has_iff)
  moreover from tables_okD(9) [OF graph_okD(3) [OF ok(1)] this]
  have "edgeObjToId (f_isDirected g) eo = edgeObjToId (f_isDirected g) eo'" "f_isDirected g \<or> e_v eo' \<le> e_w eo'"
    by (auto simp: edge_ok_def)
  moreover have "eo' \<in> set (edges g)"
    using calculation edges_iff [OF ok(1)] by metis
  ultimately show "eo \<in> set (edges g)"
    using edgeObjToId_inj [OF eo(1) _ eo(2), of eo'] ok(2) by (auto simp: clean_graph_def)
next
  assume "eo \<in> set (edges g)"
  then show "has (f_edgeLabels g) (edgeObjToId (f_isDirected g) eo)"
    using edges_iff [OF ok(1)] tables_okD(7) [OF graph_okD(3) [OF ok(1)]] by (auto simp: has_iff dest: get_Some_key)
qed

lemma other_key:
  assumes ok: "graph_ok g" "clean_graph g" and cl: "clean_edge eo" "f_isDirected g \<or> e_v eo \<le> e_w eo"
    and x: "x \<in> set (edges g)"
  shows "edgeObjToId (f_isDirected g) x = edgeObjToId (f_isDirected g) eo \<longleftrightarrow> x = eo"
  using x ok cl edges_shape [OF ok(1) x] by (intro edgeObjToId_inj) (auto simp: clean_graph_def edge_ok_def)

section \<open>The queries\<close>

lemma hasEdge_iff:
  assumes "graph_ok g" "clean_graph g" "clean v" "clean w" "clean_name n"
  shows "hasEdge v w n g \<longleftrightarrow> edgeArgsToObj (f_isDirected g) v w n \<in> set (edges g)"
  using key_present_iff [OF assms(1,2) edgeArgsToObj_clean [OF assms(3-5)] edgeArgsToObj_ordered]
    edgeObjToId_edgeArgsToObj [of n "f_isDirected g" v w] assms(5)
  by (simp add: hasEdge_def clean_name_def)

lemma row_keys:
  assumes "adj_ok f h V E A" "v \<in> V"
  shows "\<exists>ws. map_option keys (get A v) = Some ws \<and> distinct ws \<and>
    set ws = {h eo | eo. eo \<in> set (vals E) \<and> f eo = v}"
proof -
  obtain ob where ob: "get A v = Some ob" "obj_ok ob"
    "\<And>u. get ob u = (if multiplicity f h v u E = 0 then None else Some (int (multiplicity f h v u E)))"
    using assms key_get [of v A] by (auto simp: adj_ok_def)
  have "u \<in> set (keys ob) \<longleftrightarrow> multiplicity f h v u E \<noteq> 0" for u
    using ob(3) [of u] get_None_iff [of ob u] by (auto split: if_splits)
  then have "set (keys ob) = {h eo | eo. eo \<in> set (vals E) \<and> f eo = v}"
    unfolding multiplicity_pos_iff by auto
  with ob show ?thesis by (simp add: obj_ok_def)
qed

lemma successors_spec:
  assumes "graph_ok g" "v \<in> node_set g"
  shows "\<exists>ws. successors v g = Some ws \<and> distinct ws \<and> set ws = {e_w eo | eo. eo \<in> set (edges g) \<and> e_v eo = v}"
  using row_keys [OF tables_okD(4) [OF graph_okD(3) [OF assms(1)]] assms(2)]
  by (simp add: successors_def edges_def)

lemma predecessors_spec:
  assumes "graph_ok g" "v \<in> node_set g"
  shows "\<exists>us. predecessors v g = Some us \<and> distinct us \<and> set us = {e_v eo | eo. eo \<in> set (edges g) \<and> e_w eo = v}"
  using row_keys [OF tables_okD(2) [OF graph_okD(3) [OF assms(1)]] assms(2)]
  by (simp add: predecessors_def edges_def)

lemma set_union_first: "set (union_first xs ys) = set xs \<union> set ys" "distinct (union_first xs ys)"
  by (auto simp: union_first_def)

lemma neighbors_spec:
  assumes "graph_ok g" "v \<in> node_set g"
  shows "\<exists>ns. neighbors v g = Some ns \<and> distinct ns \<and>
    set ns = {e_v eo | eo. eo \<in> set (edges g) \<and> e_w eo = v} \<union> {e_w eo | eo. eo \<in> set (edges g) \<and> e_v eo = v}"
  using successors_spec [OF assms] predecessors_spec [OF assms]
  by (auto simp: neighbors_def set_union_first)

lemma row_edges:
  assumes "inc_ok f V E I" "v \<in> V"
  shows "\<exists>ob. get I v = Some ob \<and> set (vals ob) = {eo \<in> {eo. \<exists>e. get E e = Some eo}. f eo = v}"
proof -
  obtain ob where "get I v = Some ob" "obj_ok ob" "\<And>e. get ob e = incident f v E e"
    using assms key_get [of v I] by (auto simp: inc_ok_def)
  then show ?thesis by (auto simp: vals_set incident_def split: option.splits if_splits)
qed

lemma edges_set: "graph_ok g \<Longrightarrow> set (edges g) = {eo. \<exists>e. get (f_edgeObjs g) e = Some eo}"
  by (simp add: edges_def vals_set tables_okD(5) [OF graph_okD(3)])

lemma outEdges_spec:
  assumes "graph_ok g" "v \<in> node_set g"
  shows "\<exists>es. outEdges v None g = Some es \<and> set es = {eo \<in> set (edges g). e_v eo = v}"
  using row_edges [OF tables_okD(3) [OF graph_okD(3) [OF assms(1)]] assms(2)] edges_set [OF assms(1)]
  by (auto simp: outEdges_def)

lemma inEdges_spec:
  assumes "graph_ok g" "v \<in> node_set g"
  shows "\<exists>es. inEdges v None g = Some es \<and> set es = {eo \<in> set (edges g). e_w eo = v}"
  using row_edges [OF tables_okD(1) [OF graph_okD(3) [OF assms(1)]] assms(2)] edges_set [OF assms(1)]
  by (auto simp: inEdges_def)

lemma nodes_set: "set (nodes g) = node_set g"
  by (simp add: nodes_def node_set_def)

lemma distinct_nodes: "graph_ok g \<Longrightarrow> distinct (nodes g)"
  by (simp add: graph_ok_def nodes_def obj_ok_def)

lemma isEmptyEntry_iff:
  assumes "get t v = Some ob"
  shows "isEmptyEntry t v \<longleftrightarrow> set (vals ob) = {}"
  using assms by (simp add: isEmptyEntry_def vals_def)

lemma sinks_spec:
  assumes ok: "graph_ok g"
  shows "set (sinks g) = {v \<in> node_set g. \<forall>eo \<in> set (edges g). e_v eo \<noteq> v}"
proof -
  have "isEmptyEntry (f_out g) v \<longleftrightarrow> (\<forall>eo \<in> set (edges g). e_v eo \<noteq> v)" if v: "v \<in> node_set g" for v
  proof -
    obtain ob where "get (f_out g) v = Some ob" "set (vals ob) = {eo \<in> set (edges g). e_v eo = v}"
      using row_edges [OF tables_okD(3) [OF graph_okD(3) [OF ok]] v] edges_set [OF ok] by auto
    then show ?thesis using isEmptyEntry_iff [of "f_out g" v ob] by (simp only:) blast
  qed
  then show ?thesis by (auto simp: sinks_def nodes_set)
qed

lemma sources_spec:
  assumes ok: "graph_ok g"
  shows "set (sources g) = {v \<in> node_set g. \<forall>eo \<in> set (edges g). e_w eo \<noteq> v}"
proof -
  have "isEmptyEntry (f_in g) v \<longleftrightarrow> (\<forall>eo \<in> set (edges g). e_w eo \<noteq> v)" if v: "v \<in> node_set g" for v
  proof -
    obtain ob where "get (f_in g) v = Some ob" "set (vals ob) = {eo \<in> set (edges g). e_w eo = v}"
      using row_edges [OF tables_okD(1) [OF graph_okD(3) [OF ok]] v] edges_set [OF ok] by auto
    then show ?thesis using isEmptyEntry_iff [of "f_in g" v ob] by (simp only:) blast
  qed
  then show ?thesis by (auto simp: sources_def nodes_set)
qed


section \<open>The mutators refine updates of the abstract graph\<close>

definition given :: "'a option \<Rightarrow> 'a \<Rightarrow> 'a" where
  "given x d = (case x of Some y \<Rightarrow> y | None \<Rightarrow> d)"

lemma given_simps [simp]: "given (Some y) d = y" "given None d = d"
  by (simp_all add: given_def)

lemma abs_edges_same:
  "f_edgeObjs g' = f_edgeObjs g \<Longrightarrow> f_edgeLabels g' = f_edgeLabels g \<Longrightarrow> same_flags g g' \<Longrightarrow> abs_edges g' = abs_edges g"
  by (simp add: abs_edges_def fun_eq_iff edges_def same_flags_def)

lemma setNode_refines:
  assumes "graph_ok g" "f_isCompound g \<longrightarrow> v \<noteq> GRAPH_NODE"
  shows "\<exists>g'. setNode v val g = Inr g' \<and> graph_ok g' \<and> same_flags g g' \<and> abs_edges g' = abs_edges g \<and>
    abs_nodes g' = (abs_nodes g)(v \<mapsto> given val (given (abs_nodes g v) (f_defaultNodeLabelFn g v)))"
proof -
  obtain g' where g': "setNode v val g = Inr g'" "graph_ok g'" "same_flags g g'"
    "f_nodes g' = (if v \<in> node_set g
                  then (case val of Some x \<Rightarrow> put v x (f_nodes g) | None \<Rightarrow> f_nodes g)
                  else put v (case val of Some x \<Rightarrow> x | None \<Rightarrow> f_defaultNodeLabelFn g v) (f_nodes g))"
    "f_edgeObjs g' = f_edgeObjs g" "f_edgeLabels g' = f_edgeLabels g"
    using setNode_ok [OF assms, of val] by blast
  have "abs_nodes g' = (abs_nodes g)(v \<mapsto> given val (given (abs_nodes g v) (f_defaultNodeLabelFn g v)))"
  proof (cases "v \<in> node_set g")
    case True
    then obtain x where "get (f_nodes g) v = Some x" using key_get by (auto simp: node_set_def)
    with True g'(4) show ?thesis by (auto simp: abs_nodes_def fun_eq_iff split: option.splits)
  next
    case False
    then have "get (f_nodes g) v = None" by (simp add: node_set_def get_None_iff)
    with False g'(4) show ?thesis by (auto simp: abs_nodes_def fun_eq_iff split: option.splits)
  qed
  with g' abs_edges_same show ?thesis by blast
qed

lemma setEdge_refines:
  assumes ok: "graph_ok g" "clean_graph g" and ids: "clean v" "clean w" "clean_name n"
    and "f_isCompound g \<longrightarrow> v \<noteq> GRAPH_NODE \<and> w \<noteq> GRAPH_NODE" "n \<noteq> None \<longrightarrow> f_isMultigraph g"
  defines "eo \<equiv> edgeArgsToObj (f_isDirected g) v w n"
  shows "\<exists>g'. setEdge v w val n g = Inr g' \<and> graph_ok g' \<and> clean_graph g' \<and> same_flags g g' \<and>
    abs_edges g' = (abs_edges g)(eo \<mapsto> given val (given (abs_edges g eo) (f_defaultEdgeLabelFn g v w n))) \<and>
    node_set g' = insert v (insert w (node_set g)) \<and> (\<forall>x\<in>node_set g. abs_nodes g' x = abs_nodes g x)"
proof -
  have n: "n \<noteq> Some []" using ids(3) by (simp add: clean_name_def)
  let ?e = "edgeArgsToId (f_isDirected g) v w n"
  have e: "?e = edgeObjToId (f_isDirected g) eo" using edgeObjToId_edgeArgsToObj [OF n] by (simp add: eo_def)
  have cl: "clean_edge eo" "f_isDirected g \<or> e_v eo \<le> e_w eo"
    using edgeArgsToObj_clean [OF ids] edgeArgsToObj_ordered by (auto simp: eo_def)
  note present = key_present_iff [OF ok cl, folded e]
  obtain g' where g': "setEdge v w val n g = Inr g'" "graph_ok g'" "same_flags g g'"
    "f_edgeLabels g' = (if has (f_edgeLabels g) ?e
                       then (case val of Some x \<Rightarrow> put ?e x (f_edgeLabels g) | None \<Rightarrow> f_edgeLabels g)
                       else put ?e (case val of Some x \<Rightarrow> x | None \<Rightarrow> f_defaultEdgeLabelFn g v w n)
                              (f_edgeLabels g))"
    "f_edgeObjs g' = (if has (f_edgeLabels g) ?e then f_edgeObjs g else put ?e eo (f_edgeObjs g))"
    "\<forall>x. x \<in> node_set g \<longrightarrow> get (f_nodes g') x = get (f_nodes g) x"
    "node_set g' = (if has (f_edgeLabels g) ?e then node_set g else insert v (insert w (node_set g)))"
    using setEdge_ok [OF ok(1) assms(6) n assms(7), of val] unfolding eo_def by blast
  have d': "f_isDirected g' = f_isDirected g" using g'(3) by (simp add: same_flags_def)
  have edges': "set (edges g') = insert eo (set (edges g))"
  proof (cases "has (f_edgeLabels g) ?e")
    case True
    with g'(5) present show ?thesis by (auto simp: edges_def)
  next
    case False
    then have "eo \<notin> set (edges g)" "get (f_edgeObjs g) ?e = None"
      using present tables_okD(7) [OF graph_okD(3) [OF ok(1)]] by (auto simp: has_iff get_None_iff)
    with False g'(5) e have "x \<in> set (edges g') \<longleftrightarrow> x = eo \<or> x \<in> set (edges g)" for x
      by (cases "edgeObjToId (f_isDirected g) x = ?e") (auto simp: edges_iff [OF g'(2)] edges_iff [OF ok(1)] d')
    then show ?thesis by auto
  qed
  note other = other_key [OF ok cl, folded e]
  have "abs_edges g' x = ((abs_edges g)(eo \<mapsto> given val (given (abs_edges g eo) (f_defaultEdgeLabelFn g v w n)))) x" for x
  proof (cases "x = eo")
    case True
    have "get (f_edgeLabels g') ?e = Some (given val (given (abs_edges g eo) (f_defaultEdgeLabelFn g v w n)))"
      using g'(4) present e by (cases val) (auto simp: abs_edges_def has_def)
    with True show ?thesis by (simp add: abs_edges_def edges' d' e)
  next
    case False
    with other [of x] show ?thesis
      using g'(4) by (cases val) (auto simp: abs_edges_def edges' d')
  qed
  moreover have "clean_graph g'" using ok(2) cl(1) by (simp add: clean_graph_def edges')
  moreover have "node_set g' = insert v (insert w (node_set g))"
    using g'(7) present edges_ends [OF ok(1), of eo] by (auto simp: eo_def edgeArgsToObj_def split: if_splits)
  ultimately show ?thesis using g' by (auto simp: abs_nodes_def)
qed

lemma setEdge_unnamed:
  assumes "name \<noteq> None" "\<not> f_isMultigraph g" "\<not> hasEdge v w name g"
  shows "setEdge v w val name g = Inl (Error ''Cannot set a named edge when isMultigraph = false'')"
  using assms by (simp add: setEdge_def hasEdge_def Let_def)

lemma removeEdge_refines:
  assumes ok: "graph_ok g" "clean_graph g" and ids: "clean v" "clean w" "clean_name n"
  defines "eo \<equiv> edgeArgsToObj (f_isDirected g) v w n"
  shows "\<exists>g'. removeEdge v w n g = Inr g' \<and> graph_ok g' \<and> clean_graph g' \<and> same_flags g g' \<and>
    abs_edges g' = (abs_edges g)(eo := None) \<and> abs_nodes g' = abs_nodes g"
proof -
  have n: "n \<noteq> Some []" using ids(3) by (simp add: clean_name_def)
  let ?e = "edgeArgsToId (f_isDirected g) v w n"
  have e: "?e = edgeObjToId (f_isDirected g) eo" using edgeObjToId_edgeArgsToObj [OF n] by (simp add: eo_def)
  have cl: "clean_edge eo" "f_isDirected g \<or> e_v eo \<le> e_w eo"
    using edgeArgsToObj_clean [OF ids] edgeArgsToObj_ordered by (auto simp: eo_def)
  obtain g' where g': "removeEdgeKey ?e g = Inr g'" "tables_ok (node_set g) (node_set g) g'" "same_flags g g'"
    "f_edgeObjs g' = del ?e (f_edgeObjs g)" "f_edgeLabels g' = del ?e (f_edgeLabels g)"
    "f_nodes g' = f_nodes g" "f_nodeCount g' = f_nodeCount g" "f_parent g' = f_parent g" "f_children g' = f_children g"
    using removeEdgeKey_ok [OF graph_okD(3) [OF ok(1)], of ?e] by blast
  have ok': "graph_ok g'" using ok(1) g' by (simp add: graph_ok_def node_set_def same_flags_def)
  have d': "f_isDirected g' = f_isDirected g" using g'(3) by (simp add: same_flags_def)
  note other = other_key [OF ok cl, folded e]
  have "x \<in> set (edges g') \<longleftrightarrow> x \<noteq> eo \<and> x \<in> set (edges g)" for x
    using g'(4) other [of x] by (auto simp: edges_iff [OF ok'] edges_iff [OF ok(1)] d' split: if_splits)
  then have edges': "set (edges g') = set (edges g) - {eo}" by auto
  have "abs_edges g' = (abs_edges g)(eo := None)"
    using other g'(5) by (auto simp: abs_edges_def edges' d' fun_eq_iff)
  moreover have "clean_graph g'" using ok(2) by (simp add: clean_graph_def edges')
  ultimately show ?thesis using g' ok' by (auto simp: removeEdge_def abs_nodes_def)
qed

lemma removeNode_refines:
  assumes ok: "graph_ok g" and v: "v \<in> node_set g"
  shows "\<exists>g'. removeNode v g = Inr g' \<and> graph_ok g' \<and> same_flags g g' \<and>
    abs_nodes g' = (abs_nodes g)(v := None) \<and>
    (\<forall>eo. abs_edges g' eo = (if e_v eo = v \<or> e_w eo = v then None else abs_edges g eo)) \<and>
    (f_isCompound g \<longrightarrow> (\<forall>x. x \<noteq> v \<longrightarrow> parent x g' = (if parent x g = Some v then None else parent x g)))"
proof -
  obtain g' where g': "removeNode v g = Inr g'" "graph_ok g'" "same_flags g g'" "f_nodes g' = del v (f_nodes g)"
    "\<And>e. get (f_edgeObjs g') e = (case get (f_edgeObjs g) e of
        Some eo \<Rightarrow> if e_v eo = v \<or> e_w eo = v then None else Some eo | None \<Rightarrow> None)"
    "\<And>e. get (f_edgeLabels g') e = (case get (f_edgeObjs g) e of
        Some eo \<Rightarrow> if e_v eo = v \<or> e_w eo = v then None else get (f_edgeLabels g) e | None \<Rightarrow> None)"
    "f_isCompound g \<longrightarrow> (\<forall>x. get (f_parent g') x =
       (if x = v then None else if get (f_parent g) x = Some v then Some GRAPH_NODE else get (f_parent g) x))"
    using removeNode_ok [OF assms] by blast
  have d': "f_isDirected g' = f_isDirected g" "f_isCompound g' = f_isCompound g"
    using g'(3) by (simp_all add: same_flags_def)
  have edges': "eo \<in> set (edges g') \<longleftrightarrow> eo \<in> set (edges g) \<and> e_v eo \<noteq> v \<and> e_w eo \<noteq> v" for eo
    by (auto simp: edges_iff [OF g'(2)] edges_iff [OF ok] d' g'(5) split: option.splits if_splits)
  have "abs_edges g' eo = (if e_v eo = v \<or> e_w eo = v then None else abs_edges g eo)" for eo
    using edges_iff [OF ok, of eo] g'(6) [of "edgeObjToId (f_isDirected g) eo"]
    by (auto simp: abs_edges_def edges' d')
  moreover have "parent x g' = (if parent x g = Some v then None else parent x g)" if "f_isCompound g" "x \<noteq> v" for x
    using that g'(7) d'(2) tree_okD(6) [OF graph_okD(4) [OF ok that(1)]] v
    by (auto simp: parent_def split: option.splits)
  ultimately show ?thesis using g'(1-4) by (auto simp: abs_nodes_def fun_eq_iff)
qed


section \<open>Sequences of operations\<close>

text \<open>The mutating calls a client can make, and a client's run: it stops at the first exception.\<close>

datatype ('n, 'e) graph_op =
    SetNode string "'n option option"
  | SetEdge string string "'e option option" "string option"
  | SetParent string "string option"
  | RemoveNode string
  | RemoveEdge string string "string option"

fun apply_op :: "('n, 'e) graph_op \<Rightarrow> ('g, 'n, 'e) Graph \<Rightarrow> ('g, 'n, 'e) Graph result" where
  "apply_op (SetNode v val) g = setNode v val g"
| "apply_op (SetEdge v w val name) g = setEdge v w val name g"
| "apply_op (SetParent v p) g = setParent v p g"
| "apply_op (RemoveNode v) g = removeNode v g"
| "apply_op (RemoveEdge v w name) g = removeEdge v w name g"

text \<open>The two uses the code does not defend against: the empty string as an edge name, and the id of
  the implicit root as a node id.\<close>

fun safe_op :: "('n, 'e) graph_op \<Rightarrow> bool" where
  "safe_op (SetNode v val) \<longleftrightarrow> v \<noteq> GRAPH_NODE"
| "safe_op (SetEdge v w val name) \<longleftrightarrow> v \<noteq> GRAPH_NODE \<and> w \<noteq> GRAPH_NODE \<and> name \<noteq> Some []"
| "safe_op (SetParent v p) \<longleftrightarrow> v \<noteq> GRAPH_NODE \<and> p \<noteq> Some GRAPH_NODE"
| "safe_op (RemoveNode v) \<longleftrightarrow> True"
| "safe_op (RemoveEdge v w name) \<longleftrightarrow> True"

definition documented_error :: "js_error \<Rightarrow> bool" where
  "documented_error err \<longleftrightarrow>
     err = Error ''Cannot set a named edge when isMultigraph = false'' \<or>
     err = Error ''Cannot set parent in a non-compound graph'' \<or>
     (\<exists>p v. err = parentCycleError p v)"

lemma removeEdge_ok: "graph_ok g \<Longrightarrow> \<exists>g'. removeEdge v w n g = Inr g' \<and> graph_ok g'"
  using removeEdgeKey_ok [OF graph_okD(3), of g "edgeArgsToId (f_isDirected g) v w n"]
  by (auto simp: removeEdge_def graph_ok_def node_set_def same_flags_def)

lemma setEdge_total:
  assumes "graph_ok g" "v \<noteq> GRAPH_NODE" "w \<noteq> GRAPH_NODE" "name \<noteq> Some []"
  shows "(\<exists>g'. setEdge v w val name g = Inr g' \<and> graph_ok g') \<or>
    setEdge v w val name g = Inl (Error ''Cannot set a named edge when isMultigraph = false'')"
proof (cases "name \<noteq> None \<and> \<not> f_isMultigraph g")
  case True
  then have "setEdge v w val name g = Inl (Error ''Cannot set a named edge when isMultigraph = false'')"
    if "\<not> hasEdge v w name g" using that setEdge_unnamed by blast
  moreover have "\<exists>g'. setEdge v w val name g = Inr g' \<and> graph_ok g'" if "hasEdge v w name g"
    using that assms(1) by (cases val)
      (auto simp: setEdge_def hasEdge_def graph_ok_def tables_ok_def node_set_def has_iff Let_def)
  ultimately show ?thesis by blast
next
  case False
  with setEdge_ok [OF assms(1), of v w name val] assms show ?thesis by blast
qed

lemma setParent_total:
  assumes "graph_ok g" "v \<noteq> GRAPH_NODE" "par \<noteq> Some GRAPH_NODE"
  shows "(\<exists>g'. setParent v par g = Inr g' \<and> graph_ok g') \<or> (\<exists>err. setParent v par g = Inl err \<and> documented_error err)"
proof (cases "f_isCompound g \<and> (\<forall>p. par = Some p \<longrightarrow> (p, v) \<notin> (parent_rel (f_parent g))\<^sup>*)")
  case True
  with setParent_ok [OF assms(1) _ assms(2,3)] show ?thesis by blast
next
  case False
  show ?thesis
  proof (cases "f_isCompound g")
    case True
    with False obtain p where "par = Some p" "(p, v) \<in> (parent_rel (f_parent g))\<^sup>*" by blast
    with setParent_cycle [OF assms(1) True assms(2)] assms(3) have "setParent v par g = Inl (parentCycleError p v)"
      by blast
    then show ?thesis by (auto simp: documented_error_def)
  next
    case False
    then have "setParent v par g = Inl (Error ''Cannot set parent in a non-compound graph'')"
      by (simp add: setParent_def)
    then show ?thesis by (simp add: documented_error_def)
  qed
qed

lemma apply_op_ok:
  assumes "graph_ok g" "safe_op c"
  shows "(\<exists>g'. apply_op c g = Inr g' \<and> graph_ok g') \<or> (\<exists>err. apply_op c g = Inl err \<and> documented_error err)"
proof (cases c)
  case (SetNode v val)
  with assms setNode_ok [of g v val] show ?thesis by auto
next
  case (SetEdge v w val name)
  with assms setEdge_total [of g v w name val] show ?thesis by (auto simp: documented_error_def)
next
  case (SetParent v p)
  with assms setParent_total [of g v p] show ?thesis by auto
next
  case (RemoveNode v)
  with assms removeNode_ok [of g v] show ?thesis
    by (cases "v \<in> node_set g") (auto simp: removeNode_def has_iff node_set_def)
next
  case (RemoveEdge v w name)
  with assms removeEdge_ok show ?thesis by auto
qed

text \<open>C1. Whatever sequence of mutating calls a client makes on a new graph (of any kind), as long as it
  never uses the empty edge name or the reserved root id, the run either ends in a graph whose
  tables, counts and parent forest are all consistent, or stops at one of the three exceptions
  the code raises itself: it never fails inside, and never loops.\<close>

theorem graph_operations_consistent:
  assumes "\<forall>c \<in> set ops. safe_op c"
  shows "case rfold apply_op ops (newGraph d m c) of Inr g \<Rightarrow> graph_ok g | Inl err \<Rightarrow> documented_error err"
proof -
  have "graph_ok g \<Longrightarrow> \<forall>c \<in> set ops. safe_op c \<Longrightarrow>
      case rfold apply_op ops g of Inr g' \<Rightarrow> graph_ok g' | Inl err \<Rightarrow> documented_error err" for g ops
  proof (induction ops arbitrary: g)
    case (Cons c ops)
    from apply_op_ok [of g c] Cons.prems
    consider g' where "apply_op c g = Inr g'" "graph_ok g'" | err where "apply_op c g = Inl err" "documented_error err"
      by auto
    then show ?case using Cons.IH Cons.prems(2) by cases simp_all
  qed simp
  from this [OF graph_ok_new assms] show ?thesis .
qed

definition example_ops :: "(string, string) graph_op list" where
  "example_ops = [SetEdge ''a'' ''b'' (Some (Some ''x'')) None, SetParent ''a'' (Some ''p''), RemoveNode ''b'']"

theorem graph_operations_consistent_witness:
  "list_all safe_op example_ops \<and>
   (case rfold apply_op example_ops (newGraph None None (Some True) :: (string, string, string) Graph) of
      Inr g \<Rightarrow> graph_ok g | Inl err \<Rightarrow> documented_error err)"
proof -
  have safe: "\<forall>c \<in> set example_ops. safe_op c" by (simp add: GRAPH_NODE_def example_ops_def)
  from graph_operations_consistent [OF safe] safe show ?thesis by (auto simp: list_all_iff)
qed

text \<open>C2. Adding an edge is an update of the abstract graph at exactly that edge: the new label if one was
  given, otherwise the old one, otherwise the default; every other edge keeps its label, the end
  points become nodes, every old node keeps its label.\<close>

theorem setEdge_updates_one_edge:
  assumes "graph_ok g" "clean_graph g" "clean v" "clean w" "clean_name n"
    and "f_isCompound g \<longrightarrow> v \<noteq> GRAPH_NODE \<and> w \<noteq> GRAPH_NODE" "n \<noteq> None \<longrightarrow> f_isMultigraph g"
  shows "\<exists>g'. setEdge v w val n g = Inr g' \<and> graph_ok g' \<and> hasEdge v w n g' \<and>
    abs_edges g' = (abs_edges g)(edgeArgsToObj (f_isDirected g) v w n \<mapsto>
       given val (given (abs_edges g (edgeArgsToObj (f_isDirected g) v w n)) (f_defaultEdgeLabelFn g v w n))) \<and>
    node_set g' = insert v (insert w (node_set g)) \<and> (\<forall>x\<in>node_set g. abs_nodes g' x = abs_nodes g x)"
proof -
  from setEdge_refines [OF assms, of val] obtain g' where g': "setEdge v w val n g = Inr g'" "graph_ok g'"
    "clean_graph g'" "same_flags g g'"
    "abs_edges g' = (abs_edges g)(edgeArgsToObj (f_isDirected g) v w n \<mapsto>
       given val (given (abs_edges g (edgeArgsToObj (f_isDirected g) v w n)) (f_defaultEdgeLabelFn g v w n)))"
    "node_set g' = insert v (insert w (node_set g))" "\<forall>x\<in>node_set g. abs_nodes g' x = abs_nodes g x" by blast
  have "hasEdge v w n g'"
    using hasEdge_iff [OF g'(2,3) assms(3-5)] dom_abs_edges [OF g'(2)] g'(4,5) by (auto simp: same_flags_def)
  with g' show ?thesis by blast
qed

theorem setEdge_updates_one_edge_witness:
  "\<exists>g'. setEdge ''a'' ''b'' (Some (Some (3::int))) None (newGraph None None None :: (int, int, int) Graph) = Inr g' \<and>
     graph_ok g' \<and> hasEdge ''a'' ''b'' None g' \<and> node_set g' = {''a'', ''b''}"
proof -
  let ?g = "newGraph None None None :: (int, int, int) Graph"
  have "clean_graph ?g" "node_set ?g = {}" by (simp_all add: clean_graph_def newGraph_def edges_def node_set_def)
  moreover have "clean ''a''" "clean ''b''" "clean_name None" "\<not> f_isCompound ?g"
    by (simp_all add: clean_def clean_name_def newGraph_def)
  ultimately show ?thesis
    using setEdge_updates_one_edge [of ?g "''a''" "''b''" None "Some (Some 3)", OF graph_ok_new] by auto
qed

text \<open>C3. Removing a node removes the node and exactly its incident edges, self loops included; in a compound
  graph its children move to the top level and nobody else changes parent.\<close>

theorem removeNode_removes_incident_edges:
  assumes "graph_ok g" "v \<in> node_set g"
  shows "\<exists>g'. removeNode v g = Inr g' \<and> graph_ok g' \<and> abs_nodes g' = (abs_nodes g)(v := None) \<and>
    (\<forall>eo. abs_edges g' eo = (if e_v eo = v \<or> e_w eo = v then None else abs_edges g eo)) \<and>
    (f_isCompound g \<longrightarrow> (\<forall>x. x \<noteq> v \<longrightarrow> parent x g' = (if parent x g = Some v then None else parent x g)))"
  using removeNode_refines [OF assms] by blast

theorem removeNode_removes_incident_edges_witness:
  "\<exists>g g'. setNode ''a'' (Some (Some (1::int))) (newGraph None None (Some True) :: (int, int, int) Graph) = Inr g \<and>
     removeNode ''a'' g = Inr g' \<and> graph_ok g' \<and> abs_nodes g' = (abs_nodes g)(''a'' := None)"
proof -
  let ?g0 = "newGraph None None (Some True) :: (int, int, int) Graph"
  have na: "f_isCompound ?g0 \<longrightarrow> ''a'' \<noteq> GRAPH_NODE" by (simp add: GRAPH_NODE_def)
  obtain g where g: "setNode ''a'' (Some (Some 1)) ?g0 = Inr g" "graph_ok g"
    using setNode_ok [OF graph_ok_new na, of "Some (Some 1)"] by blast
  then have "''a'' \<in> node_set g" using setNode_node_set [OF graph_ok_new na g(1)] by simp
  from removeNode_removes_incident_edges [OF g(2) this] g(1) show ?thesis by blast
qed

text \<open>C4. The neighbourhood queries read the edges: the successors of a node are the targets of its outgoing
  edges, each once, the predecessors the origins of its incoming ones, and the sinks and sources are the
  nodes without either.\<close>

theorem neighbourhoods_agree_with_edges:
  assumes "graph_ok g" "v \<in> node_set g"
  shows "\<exists>ss ps. successors v g = Some ss \<and> predecessors v g = Some ps \<and> distinct ss \<and> distinct ps \<and>
    set ss = {e_w eo | eo. eo \<in> set (edges g) \<and> e_v eo = v} \<and>
    set ps = {e_v eo | eo. eo \<in> set (edges g) \<and> e_w eo = v} \<and>
    (v \<in> set (sinks g) \<longleftrightarrow> ss = []) \<and> (v \<in> set (sources g) \<longleftrightarrow> ps = [])"
proof -
  obtain ss where ss: "successors v g = Some ss" "distinct ss"
    "set ss = {e_w eo | eo. eo \<in> set (edges g) \<and> e_v eo = v}" using successors_spec [OF assms] by blast
  obtain ps where ps: "predecessors v g = Some ps" "distinct ps"
    "set ps = {e_v eo | eo. eo \<in> set (edges g) \<and> e_w eo = v}" using predecessors_spec [OF assms] by blast
  have "v \<in> set (sinks g) \<longleftrightarrow> set ss = {}" unfolding ss(3) using sinks_spec [OF assms(1)] assms(2) by auto
  then have "v \<in> set (sinks g) \<longleftrightarrow> ss = []" by simp
  moreover have "v \<in> set (sources g) \<longleftrightarrow> set ps = {}"
    unfolding ps(3) using sources_spec [OF assms(1)] assms(2) by auto
  then have "v \<in> set (sources g) \<longleftrightarrow> ps = []" by simp
  ultimately show ?thesis using ss ps by blast
qed

theorem neighbourhoods_agree_with_edges_witness:
  "\<exists>g ss ps. setNode ''a'' None (newGraph None None None :: (int, int, int) Graph) = Inr g \<and>
     successors ''a'' g = Some ss \<and> predecessors ''a'' g = Some ps \<and> (''a'' \<in> set (sinks g) \<longleftrightarrow> ss = [])"
proof -
  let ?g0 = "newGraph None None None :: (int, int, int) Graph"
  have na: "f_isCompound ?g0 \<longrightarrow> ''a'' \<noteq> GRAPH_NODE" by (simp add: GRAPH_NODE_def)
  obtain g where g: "setNode ''a'' None ?g0 = Inr g" "graph_ok g"
    using setNode_ok [OF graph_ok_new na, of None] by blast
  then have "''a'' \<in> node_set g" using setNode_node_set [OF graph_ok_new na g(1)] by simp
  from neighbourhoods_agree_with_edges [OF g(2) this] g(1) show ?thesis by blast
qed

end
