(* ===== verification/Graphlib_Queue.thy ===== *)
theory Graphlib_Queue
  imports Js_Prelude "HOL-Library.Multiset"
begin

text \<open>
  The priority queue of graphlib (\<open>lib/data/priority-queue\<close>): an array of keys with priorities that
  is a heap in which the parent of position \<open>i\<close> is position \<open>i div 2\<close> (so the root has one child),
  and a table from keys to positions. The heap order, the agreement of the table with the array and
  the behaviour of every operation are proved here; clients use them through the interface
  \<open>min_queue\<close>.
\<close>

section \<open>Operations\<close>

text \<open>An entry \<open>{key, priority}\<close> is a pair. Priorities are compared only.\<close>

record 'p PriorityQueue =
  q_arr :: "(string \<times> 'p) list"
  q_keyIndices :: "nat obj"

definition at :: "'a list \<Rightarrow> nat \<Rightarrow> 'a option" where
  "at xs i = (if i < length xs then Some (xs ! i) else None)"

definition PriorityQueue_new :: "'p PriorityQueue" where
  "PriorityQueue_new = \<lparr>q_arr = [], q_keyIndices = []\<rparr>"

definition pq_size :: "'p PriorityQueue \<Rightarrow> nat" where
  "pq_size q = length (q_arr q)"

definition pq_keys :: "'p PriorityQueue \<Rightarrow> string list" where
  "pq_keys q = map fst (q_arr q)"

definition pq_has :: "string \<Rightarrow> 'p PriorityQueue \<Rightarrow> bool" where
  "pq_has key q = has (q_keyIndices q) key"

definition pq_priority :: "string \<Rightarrow> 'p PriorityQueue \<Rightarrow> 'p option result" where
  "pq_priority key q =
     (case get (q_keyIndices q) key of
        Some index \<Rightarrow> rbind (deref (at (q_arr q) index)) (\<lambda>x. Inr (Some (snd x)))
      | None \<Rightarrow> Inr None)"

definition pq_min :: "'p PriorityQueue \<Rightarrow> string result" where
  "pq_min q =
     (if pq_size q = 0 then Inl (Error ''Queue underflow'')
      else rbind (deref (at (q_arr q) 0)) (\<lambda>x. Inr (fst x)))"

definition swap :: "nat \<Rightarrow> nat \<Rightarrow> 'p PriorityQueue \<Rightarrow> 'p PriorityQueue result" where
  "swap i j q =
     rbind (deref (at (q_arr q) i)) (\<lambda>origArrI.
     rbind (deref (at (q_arr q) j)) (\<lambda>origArrJ.
       Inr \<lparr>q_arr = (q_arr q)[i := origArrJ, j := origArrI],
            q_keyIndices = put (fst origArrI) j (put (fst origArrJ) i (q_keyIndices q))\<rparr>))"

text \<open>The loop of \<open>_decrease\<close>, and \<open>_heapify\<close>; both move along one path of the heap.\<close>

fun decreaseLoop :: "'p::linorder \<Rightarrow> nat \<Rightarrow> 'p PriorityQueue \<Rightarrow> 'p PriorityQueue result" where
  "decreaseLoop priority index q =
     (if index = 0 then Inr q
      else
        rbind (deref (at (q_arr q) (index div 2))) (\<lambda>p.
          if snd p < priority then Inr q
          else rbind (swap index (index div 2) q) (\<lambda>q'. decreaseLoop priority (index div 2) q')))"

declare decreaseLoop.simps [simp del]

definition pq_decreaseAt :: "nat \<Rightarrow> 'p::linorder PriorityQueue \<Rightarrow> 'p PriorityQueue result" where
  "pq_decreaseAt index q =
     rbind (deref (at (q_arr q) index)) (\<lambda>x. decreaseLoop (snd x) index q)"

definition smallest :: "(string \<times> 'p::linorder) list \<Rightarrow> nat \<Rightarrow> nat" where
  "smallest arr i =
     (let l = 2 * i; r = l + 1;
          s = (if snd (arr ! l) < snd (arr ! i) then l else i)
      in if r < length arr \<and> snd (arr ! r) < snd (arr ! s) then r else s)"

lemma swap_length: "swap i j q = Inr q' \<Longrightarrow> length (q_arr q') = length (q_arr q)"
  by (auto simp: swap_def at_def rbind_Inr_iff deref_def split: if_splits)

lemma smallest_bounds: "2 * i < length arr \<Longrightarrow> smallest arr i < length arr"
  by (auto simp: smallest_def Let_def)

lemma smallest_above: "smallest arr i \<noteq> i \<Longrightarrow> i < smallest arr i"
  by (auto simp: smallest_def Let_def split: if_splits)

function heapify :: "nat \<Rightarrow> 'p::linorder PriorityQueue \<Rightarrow> 'p PriorityQueue result" where
  "heapify i q =
     (if 2 * i < length (q_arr q) then
        let s = smallest (q_arr q) i in
        if s \<noteq> i then rbind (swap i s q) (\<lambda>q'. heapify s q') else Inr q
      else Inr q)"
  by pat_completeness auto
termination
  by (relation "measure (\<lambda>(i, q). length (q_arr q) - i)")
    (auto dest!: swap_length smallest_above intro!: diff_less_mono2)

declare heapify.simps [simp del]

definition pq_add :: "string \<Rightarrow> 'p::linorder \<Rightarrow> 'p PriorityQueue \<Rightarrow> (bool \<times> 'p PriorityQueue) result" where
  "pq_add key priority q =
     (if \<not> has (q_keyIndices q) key then
        let index = length (q_arr q) in
        rbind (pq_decreaseAt index \<lparr>q_arr = q_arr q @ [(key, priority)],
                                 q_keyIndices = put key index (q_keyIndices q)\<rparr>)
          (\<lambda>q'. Inr (True, q'))
      else Inr (False, q))"

text \<open>On an empty queue the swap of position \<open>0\<close> reads a property of \<open>undefined\<close>.\<close>

definition pq_removeMin :: "'p::linorder PriorityQueue \<Rightarrow> (string \<times> 'p PriorityQueue) result" where
  "pq_removeMin q =
     rbind (swap 0 (length (q_arr q) - 1) q) (\<lambda>q1.
       let key = fst (last (q_arr q1)) in
       rbind (heapify 0 \<lparr>q_arr = butlast (q_arr q1), q_keyIndices = del key (q_keyIndices q1)\<rparr>)
         (\<lambda>q2. Inr (key, q2)))"

text \<open>A key that is not in the queue reads a property of \<open>undefined\<close> too. The first argument is the
  conversion of a priority to a string, for the text of the error.\<close>

definition pq_decrease ::
  "('p::linorder \<Rightarrow> string) \<Rightarrow> string \<Rightarrow> 'p \<Rightarrow> 'p PriorityQueue \<Rightarrow> 'p PriorityQueue result" where
  "pq_decrease numStr key priority q =
     rbind (deref (get (q_keyIndices q) key)) (\<lambda>index.
     rbind (deref (at (q_arr q) index)) (\<lambda>x.
       if priority > snd x then
         Inl (Error (''New priority is greater than current priority. '' @ ''Key: '' @ key @
           '' Old: '' @ numStr (snd x) @ '' New: '' @ numStr priority))
       else pq_decreaseAt index (q\<lparr>q_arr := (q_arr q)[index := (fst x, priority)]\<rparr>)))"

text \<open>The number of entries changes only by \<open>pq_add\<close> and \<open>pq_removeMin\<close>, whatever the state of the queue.\<close>

lemma decreaseLoop_length: "decreaseLoop p i q = Inr q' \<Longrightarrow> length (q_arr q') = length (q_arr q)"
proof (induction p i q rule: decreaseLoop.induct)
  case (1 p i q)
  show ?case
  proof (cases "i = 0 \<or> (\<exists>x. at (q_arr q) (i div 2) = Some x \<and> snd x < p)")
    case True
    with "1.prems" show ?thesis by (subst (asm) decreaseLoop.simps) (auto split: if_splits)
  next
    case False
    with "1.prems" obtain x q1 where "at (q_arr q) (i div 2) = Some x" "swap i (i div 2) q = Inr q1"
      "decreaseLoop p (i div 2) q1 = Inr q'"
      by (subst (asm) decreaseLoop.simps) (cases "at (q_arr q) (i div 2)", auto simp: rbind_Inr_iff split: if_splits)
    with False "1.IH" [of x q1] swap_length [of i "i div 2" q q1] show ?thesis by simp
  qed
qed

lemma heapify_length: "heapify i q = Inr q' \<Longrightarrow> length (q_arr q') = length (q_arr q)"
proof (induction i q rule: heapify.induct)
  case (1 i q)
  from "1.prems" show ?case
    by (subst (asm) heapify.simps)
      (auto simp: rbind_Inr_iff Let_def split: if_splits dest!: "1.IH" dest: swap_length)
qed

lemma pq_decrease_size: "pq_decrease numStr k p q = Inr q' \<Longrightarrow> pq_size q' = pq_size q"
  by (auto simp: pq_decrease_def pq_decreaseAt_def pq_size_def rbind_Inr_iff dest!: decreaseLoop_length
      split: if_splits)

lemma pq_removeMin_size: "pq_removeMin q = Inr (k, q') \<Longrightarrow> pq_size q > 0 \<Longrightarrow> Suc (pq_size q') = pq_size q"
  by (auto simp: pq_removeMin_def pq_size_def rbind_Inr_iff Let_def dest!: swap_length heapify_length)

section \<open>Invariant\<close>

definition heap :: "'p::linorder list \<Rightarrow> bool" where
  "heap ps \<longleftrightarrow> (\<forall>i < length ps. ps ! (i div 2) \<le> ps ! i)"

definition indexed :: "'p PriorityQueue \<Rightarrow> bool" where
  "indexed q \<longleftrightarrow> distinct (map fst (q_arr q)) \<and>
     (\<forall>k i. get (q_keyIndices q) k = Some i \<longleftrightarrow> i < length (q_arr q) \<and> fst (q_arr q ! i) = k)"

definition queue_ok :: "'p::linorder PriorityQueue \<Rightarrow> bool" where
  "queue_ok q \<longleftrightarrow> indexed q \<and> heap (map snd (q_arr q))"

text \<open>What the queue holds.\<close>

definition priorities :: "'p PriorityQueue \<Rightarrow> string \<rightharpoonup> 'p" where
  "priorities q = map_of (q_arr q)"

lemma indexed_get:
  assumes "indexed q"
  shows "get (q_keyIndices q) k = None \<longleftrightarrow> k \<notin> fst ` set (q_arr q)"
proof -
  have "get (q_keyIndices q) k \<noteq> None \<longleftrightarrow> (\<exists>i < length (q_arr q). fst (q_arr q ! i) = k)"
    using assms by (auto simp: indexed_def)
  then show ?thesis by (force simp: in_set_conv_nth)
qed

lemma same_entries:
  "mset xs = mset ys \<Longrightarrow> distinct (map fst xs) \<Longrightarrow> distinct (map fst ys) \<and> map_of xs = map_of ys"
  by (metis map_of_inject_set mset_eq_imp_distinct_iff mset_eq_setD mset_map)

lemma map_of_update_at:
  "distinct (map fst xs) \<Longrightarrow> i < length xs \<Longrightarrow> map_of (xs[i := (fst (xs ! i), v)]) = (map_of xs)(fst (xs ! i) \<mapsto> v)"
proof (induction xs arbitrary: i)
  case (Cons x xs)
  then show ?case
    by (cases i; cases x) (auto simp: fun_upd_twist image_iff dest: nth_mem)
qed simp

text \<open>A swap exchanges two entries, keeps the table in step and changes nothing else.\<close>

lemma swap_ok:
  assumes q: "indexed q" and i: "i < length (q_arr q)" and j: "j < length (q_arr q)"
  obtains q' where "swap i j q = Inr q'" "indexed q'" "mset (q_arr q') = mset (q_arr q)"
    "q_arr q' = (q_arr q)[i := q_arr q ! j, j := q_arr q ! i]"
proof -
  let ?a = "q_arr q" let ?a' = "?a[i := ?a ! j, j := ?a ! i]"
  let ?q' = "\<lparr>q_arr = ?a', q_keyIndices = put (fst (?a ! i)) j (put (fst (?a ! j)) i (q_keyIndices q))\<rparr>"
  have s: "swap i j q = Inr ?q'" using i j by (simp add: swap_def at_def)
  have m: "mset ?a' = mset ?a" using i j mset_swap [of j ?a i] by (simp add: list_update_swap)
  have d: "distinct (map fst ?a)" using q by (simp add: indexed_def)
  then have d': "distinct (map fst ?a')" using same_entries [OF m [symmetric]] by simp
  have inj: "fst (?a ! x) = fst (?a ! y) \<longleftrightarrow> x = y" if "x < length ?a" "y < length ?a" for x y
    using d that by (simp add: distinct_conv_nth) metis
  have old: "get (q_keyIndices q) k = Some x \<longleftrightarrow> x < length ?a \<and> fst (?a ! x) = k" for k x
    using q by (simp add: indexed_def)
  have "get (q_keyIndices ?q') k = Some x \<longleftrightarrow> x < length ?a' \<and> fst (?a' ! x) = k" for k x
    using i j inj old by (cases "x = j"; cases "x = i"; cases "i = j") (auto simp: nth_list_update)
  with d' have "indexed ?q'" by (simp add: indexed_def)
  with s m show thesis using that [of ?q'] by simp
qed


section \<open>Correctness\<close>

text \<open>A heap with one entry that may be smaller than its ancestors (a rising entry), or larger than its
  descendants (a sinking one). Its children are in order with its parent.\<close>

definition rising :: "'p::linorder list \<Rightarrow> nat \<Rightarrow> bool" where
  "rising ps h \<longleftrightarrow>
     (\<forall>i < length ps. i \<noteq> h \<longrightarrow> ps ! (i div 2) \<le> ps ! i) \<and>
     (\<forall>i < length ps. i div 2 = h \<longrightarrow> ps ! (h div 2) \<le> ps ! i \<or> i = 0)"

definition sinking :: "'p::linorder list \<Rightarrow> nat \<Rightarrow> bool" where
  "sinking ps h \<longleftrightarrow>
     (\<forall>i < length ps. i div 2 \<noteq> h \<longrightarrow> ps ! (i div 2) \<le> ps ! i) \<and>
     (\<forall>i < length ps. i div 2 = h \<and> h \<noteq> 0 \<longrightarrow> ps ! (h div 2) \<le> ps ! i)"

lemma rising_stop:
  assumes "rising ps h" "h < length ps" "h = 0 \<or> ps ! (h div 2) \<le> ps ! h"
  shows "heap ps"
  using assms by (metis (lifting) div_0 heap_def order_refl rising_def)

lemma rising_step:
  assumes r: "rising ps h" and h: "h < length ps" "0 < h" and le: "ps ! h \<le> ps ! (h div 2)"
  shows "rising (ps[h := ps ! (h div 2), h div 2 := ps ! h]) (h div 2)"
proof -
  let ?p = "h div 2" let ?ps = "ps[h := ps ! ?p, ?p := ps ! h]"
  have p: "?p < h" "?p < length ps" using h by auto
  have a: "ps ! (i div 2) \<le> ps ! i" if "i < length ps" "i \<noteq> h" for i using r that by (simp add: rising_def)
  have b: "ps ! ?p \<le> ps ! i" if "i < length ps" "i div 2 = h" for i
    using r that h(2) by (auto simp: rising_def)
  have e: "?ps ! i = (if i = ?p then ps ! h else if i = h then ps ! ?p else ps ! i)" if "i < length ps" for i
    using that p by (simp add: nth_list_update)
  have "?ps ! (i div 2) \<le> ?ps ! i" if i: "i < length ps" "i \<noteq> ?p" for i
  proof -
    have "i div 2 < length ps" using i by simp
    with i e have "?thesis \<longleftrightarrow> (if i div 2 = ?p then ps ! h else if i div 2 = h then ps ! ?p else ps ! (i div 2)) \<le>
        (if i = h then ps ! ?p else ps ! i)" by simp
    moreover have "ps ! h \<le> ps ! i" if "i div 2 = ?p" "i \<noteq> h" using le a [of i] i that by (metis order_trans)
    ultimately show ?thesis using le a [of i] b [of i] i by auto
  qed
  moreover have "?ps ! (?p div 2) \<le> ?ps ! i" if i: "i < length ps" "i div 2 = ?p" "i \<noteq> 0" for i
  proof (cases "?p = 0")
    case False
    then have q: "?p div 2 < length ps" "?p div 2 \<noteq> ?p" "?p div 2 \<noteq> h" "i \<noteq> ?p" using p i by auto
    with a [of ?p] p have "ps ! (?p div 2) \<le> ps ! ?p" by simp
    moreover have "ps ! ?p \<le> ps ! i" if "i \<noteq> h" using a [of i] i that by simp
    ultimately show ?thesis unfolding e [OF i(1)] e [OF q(1)] using q by (auto intro: order_trans)
  next
    case True
    then have "i = 1" "h = 1" using i h by auto
    with True p h e le show ?thesis by simp
  qed
  ultimately show ?thesis by (auto simp: rising_def)
qed


lemma smallest_cases:
  assumes "2 * h < length arr"
  obtains (stop) "smallest arr h = h" "\<And>i. i < length arr \<Longrightarrow> i div 2 = h \<Longrightarrow> snd (arr ! h) \<le> snd (arr ! i)"
  | (down) "smallest arr h div 2 = h" "h < smallest arr h" "smallest arr h < length arr"
      "snd (arr ! smallest arr h) \<le> snd (arr ! h)"
      "\<And>i. i < length arr \<Longrightarrow> i div 2 = h \<Longrightarrow> snd (arr ! smallest arr h) \<le> snd (arr ! i)"
proof -
  have child: "i = 2 * h \<or> i = 2 * h + 1" if "i div 2 = h" for i using that by linarith
  have "smallest arr h \<in> {h, 2 * h, 2 * h + 1}" by (simp add: smallest_def Let_def)
  moreover have "i < length arr \<Longrightarrow> i div 2 = h \<Longrightarrow> snd (arr ! smallest arr h) \<le> snd (arr ! i)" for i
    using child [of i] assms by (auto simp: smallest_def Let_def)
  moreover have "snd (arr ! smallest arr h) \<le> snd (arr ! h)" by (auto simp: smallest_def Let_def)
  moreover have "smallest arr h < length arr" using assms by (rule smallest_bounds)
  ultimately show thesis
    using stop down smallest_above [of arr h] by (cases "smallest arr h = h") auto
qed

lemma sinking_step:
  assumes r: "sinking ps h" and s: "s div 2 = h" "h < s" "s < length ps" and le: "ps ! s \<le> ps ! h"
    and small: "\<And>i. i < length ps \<Longrightarrow> i div 2 = h \<Longrightarrow> ps ! s \<le> ps ! i"
  shows "sinking (ps[h := ps ! s, s := ps ! h]) s"
proof -
  let ?ps = "ps[h := ps ! s, s := ps ! h]"
  have e: "?ps ! i = (if i = s then ps ! h else if i = h then ps ! s else ps ! i)" if "i < length ps" for i
    using that s by (simp add: nth_list_update)
  have a: "ps ! (i div 2) \<le> ps ! i" if "i < length ps" "i div 2 \<noteq> h" for i using r that by (simp add: sinking_def)
  have b: "ps ! (h div 2) \<le> ps ! s" if "h \<noteq> 0" using r s that by (simp add: sinking_def)
  have "?ps ! (i div 2) \<le> ?ps ! i" if i: "i < length ps" "i div 2 \<noteq> s" for i
  proof -
    have d: "i div 2 < length ps" using i by simp
    have "h div 2 = h \<longleftrightarrow> h = 0" by linarith
    then show ?thesis unfolding e [OF d] e [OF i(1)] using i s le a [of i] b small [of i] by auto
  qed
  moreover have "?ps ! h \<le> ?ps ! i" if i: "i < length ps" "i div 2 = s" for i
  proof -
    have h: "h < length ps" and "i \<noteq> s" "i \<noteq> h" using s i by auto
    then show ?thesis unfolding e [OF h] e [OF i(1)] using i s a [of i] by auto
  qed
  ultimately show ?thesis using s(1) by (auto simp: sinking_def)
qed

lemma sinking_stop:
  assumes "sinking ps h" "\<And>i. i < length ps \<Longrightarrow> i div 2 = h \<Longrightarrow> ps ! h \<le> ps ! i"
  shows "heap ps"
  using assms by (auto simp: sinking_def heap_def)

lemma decreaseLoop_ok:
  assumes "indexed q" "index < length (q_arr q)" "rising (map snd (q_arr q)) index"
    "snd (q_arr q ! index) = priority"
  shows "\<exists>q'. decreaseLoop priority index q = Inr q' \<and> queue_ok q' \<and> mset (q_arr q') = mset (q_arr q)"
  using assms
proof (induction priority index q rule: decreaseLoop.induct)
  case (1 priority index q)
  let ?a = "q_arr q" let ?p = "index div 2"
  have p: "?p < length ?a" using "1.prems"(2) by simp
  have stop: "queue_ok q" if "index = 0 \<or> snd (?a ! ?p) \<le> priority"
    using rising_stop [OF "1.prems"(3)] "1.prems" p that by (simp add: queue_ok_def)
  show ?case
  proof (cases "index = 0 \<or> snd (?a ! ?p) < priority")
    case True
    with stop p show ?thesis by (subst decreaseLoop.simps) (auto simp: at_def)
  next
    case False
    obtain q' where q': "swap index ?p q = Inr q'" "indexed q'" "mset (q_arr q') = mset ?a"
      "q_arr q' = ?a[index := ?a ! ?p, ?p := ?a ! index]"
      using swap_ok [OF "1.prems"(1,2) p] by blast
    then have "rising (map snd (q_arr q')) ?p"
      using rising_step [OF "1.prems"(3)] "1.prems"(2,4) False p by (simp add: map_update not_less)
    moreover have "snd (q_arr q' ! ?p) = priority" using q'(4) p "1.prems"(4) by simp
    ultimately have "\<exists>q''. decreaseLoop priority ?p q' = Inr q'' \<and> queue_ok q'' \<and> mset (q_arr q'') = mset (q_arr q')"
      using "1.IH" [of "?a ! ?p" q'] False q' p by (simp add: at_def)
    with False q' p show ?thesis by (subst decreaseLoop.simps) (simp add: at_def)
  qed
qed

lemma heapify_ok:
  assumes "indexed q" "sinking (map snd (q_arr q)) i"
  shows "\<exists>q'. heapify i q = Inr q' \<and> queue_ok q' \<and> mset (q_arr q') = mset (q_arr q)"
  using assms
proof (induction i q rule: heapify.induct)
  case (1 i q)
  let ?a = "q_arr q" let ?s = "smallest ?a i"
  have over: "queue_ok q" if "\<And>x. x < length ?a \<Longrightarrow> x div 2 = i \<Longrightarrow> snd (?a ! i) \<le> snd (?a ! x)"
    using sinking_stop [OF "1.prems"(2)] "1.prems"(1) that by (simp add: queue_ok_def)
  show ?case
  proof (cases "2 * i < length ?a")
    case False
    then have "x < length ?a \<Longrightarrow> x div 2 \<noteq> i" for x by linarith
    with over False show ?thesis by (subst heapify.simps) auto
  next
    case True
    from True show ?thesis
    proof (cases rule: smallest_cases)
      case stop
      with over True show ?thesis by (subst heapify.simps) simp
    next
      case down
      then have i: "i < length ?a" by simp
      obtain q' where q': "swap i ?s q = Inr q'" "indexed q'" "mset (q_arr q') = mset ?a"
        "q_arr q' = ?a[i := ?a ! ?s, ?s := ?a ! i]"
        using swap_ok [OF "1.prems"(1) i down(3)] by blast
      have "sinking (map snd (q_arr q')) ?s"
        using sinking_step [OF "1.prems"(2) down(1,2)] down(3-5) i q'(4) by (simp add: map_update)
      with "1.IH" [OF True refl _ q'(1,2)] down(2) q'(2) have
        "\<exists>q''. heapify ?s q' = Inr q'' \<and> queue_ok q'' \<and> mset (q_arr q'') = mset (q_arr q')" by simp
      with True down(2) q' show ?thesis by (subst heapify.simps) simp
    qed
  qed
qed


lemma pq_removeMin_ok:
  assumes q: "queue_ok q" and ne: "q_arr q \<noteq> []"
  shows "\<exists>q'. pq_removeMin q = Inr (fst (q_arr q ! 0), q') \<and> queue_ok q' \<and>
    priorities q' = (priorities q)(fst (q_arr q ! 0) := None) \<and> Suc (length (q_arr q')) = length (q_arr q)"
proof -
  let ?a = "q_arr q" let ?n = "length ?a - 1" let ?k = "fst (?a ! 0)"
  have ix: "indexed q" and h: "heap (map snd ?a)" using q by (simp_all add: queue_ok_def)
  have l: "0 < length ?a" "?n < length ?a" using ne by auto
  obtain q1 where q1: "swap 0 ?n q = Inr q1" "indexed q1" "mset (q_arr q1) = mset ?a"
    "q_arr q1 = ?a[0 := ?a ! ?n, ?n := ?a ! 0]" using swap_ok [OF ix l] by blast
  let ?b = "butlast (q_arr q1)" let ?q2 = "\<lparr>q_arr = ?b, q_keyIndices = del ?k (q_keyIndices q1)\<rparr>"
  have len: "length (q_arr q1) = length ?a" using q1(4) by simp
  then have split: "q_arr q1 = ?b @ [?a ! 0]"
    using ne q1(4) l append_butlast_last_id [of "q_arr q1"] by (force simp: last_conv_nth)
  have d: "distinct (map fst (q_arr q1))" using q1(2) by (simp add: indexed_def)
  then have d2: "distinct (map fst ?b)" "?k \<notin> fst ` set ?b" by (subst (asm) split, simp)+
  have nth: "?b ! x = q_arr q1 ! x" if "x < length ?b" for x using that by (simp add: nth_butlast)
  have pos: "get (q_keyIndices q1) k = Some x \<longleftrightarrow> x < Suc (length ?b) \<and> fst ((?b @ [?a ! 0]) ! x) = k" for k x
    using q1(2) by (subst split [symmetric]) (use l len in \<open>simp add: indexed_def\<close>)
  have fresh: "fst (?b ! x) \<noteq> ?k" if "x < length ?b" for x using d2(2) nth_mem [OF that] by (metis imageI)
  have "get (del ?k (q_keyIndices q1)) k = Some x \<longleftrightarrow> x < length ?b \<and> fst (?b ! x) = k" for k x
    using pos [of k x] fresh [of x] by (cases "x < length ?b") (auto simp: nth_append less_Suc_eq)
  with d2 have ix2: "indexed ?q2" by (simp add: indexed_def)
  have "i < length ?b \<Longrightarrow> i div 2 \<noteq> 0 \<Longrightarrow> snd (?b ! (i div 2)) \<le> snd (?b ! i)" for i
  proof -
    assume i: "i < length ?b" "i div 2 \<noteq> 0"
    then have x: "0 < i" "i < ?n" "0 < i div 2" "i div 2 < ?n" "i div 2 < length ?b" using len by auto
    then have "?b ! i = ?a ! i" "?b ! (i div 2) = ?a ! (i div 2)"
      using i nth [of i] nth [of "i div 2"] q1(4) by simp_all
    with h x show ?thesis by (simp add: heap_def)
  qed
  then have "sinking (map snd (q_arr ?q2)) 0" by (simp add: sinking_def)
  with ix2 obtain q' where q': "heapify 0 ?q2 = Inr q'" "queue_ok q'" "mset (q_arr q') = mset ?b"
    using heapify_ok [of ?q2 0] by auto
  have "map_of (q_arr q') = map_of ?b" using same_entries [OF q'(3) [symmetric]] d2 by simp
  moreover have "map_of ?a = map_of (?b @ [?a ! 0])"
    using same_entries [OF q1(3)] d split by metis
  moreover have "map_of ?b ?k = None" using d2 by (simp add: map_of_eq_None_iff)
  ultimately have "priorities q' = (priorities q)(?k := None)"
    by (cases "?a ! 0") (auto simp: priorities_def map_add_def fun_eq_iff split: option.splits)
  moreover have "Suc (length (q_arr q')) = length ?a"
    using q'(3) len l by (metis One_nat_def Suc_pred length_butlast mset_eq_length)
  moreover have "last (q_arr q1) = ?a ! 0" by (subst split) simp
  ultimately show ?thesis using q1 q' by (simp add: pq_removeMin_def)
qed

lemma heap_root: "heap ps \<Longrightarrow> i < length ps \<Longrightarrow> ps ! 0 \<le> ps ! i"
proof (induction i rule: less_induct)
  case (less i)
  show ?case
  proof (cases "i = 0")
    case False
    then have "i div 2 < i" by simp
    with less have "ps ! 0 \<le> ps ! (i div 2)" by simp
    also have "\<dots> \<le> ps ! i" using less.prems by (simp add: heap_def)
    finally show ?thesis .
  qed simp
qed

lemma queue_ok_new: "queue_ok (PriorityQueue_new :: 'p::linorder PriorityQueue)"
  by (simp add: queue_ok_def indexed_def heap_def PriorityQueue_new_def)

lemma priorities_new: "priorities PriorityQueue_new = Map.empty"
  by (simp add: priorities_def PriorityQueue_new_def)

lemma priorities_priority:
  assumes "queue_ok q"
  shows "pq_priority k q = Inr (priorities q k)"
proof (cases "get (q_keyIndices q) k")
  case None
  with assms have "map_of (q_arr q) k = None" by (simp add: queue_ok_def indexed_get map_of_eq_None_iff)
  with None show ?thesis by (simp add: pq_priority_def priorities_def)
next
  case (Some i)
  with assms have i: "i < length (q_arr q)" "fst (q_arr q ! i) = k" "distinct (map fst (q_arr q))"
    by (simp_all add: queue_ok_def indexed_def)
  then have "(k, snd (q_arr q ! i)) \<in> set (q_arr q)" by (metis nth_mem prod.collapse)
  with i Some show ?thesis by (simp add: pq_priority_def priorities_def at_def)
qed

lemma pq_has_iff: "queue_ok q \<Longrightarrow> pq_has k q \<longleftrightarrow> priorities q k \<noteq> None"
  by (simp add: pq_has_def has_def queue_ok_def indexed_get priorities_def map_of_eq_None_iff)

lemma pq_add_ok:
  assumes q: "queue_ok q"
  shows "\<exists>q'. pq_add k p q = Inr (priorities q k = None, q') \<and> queue_ok q' \<and>
     priorities q' = (if priorities q k = None then (priorities q)(k \<mapsto> p) else priorities q)"
proof (cases "priorities q k = None")
  case False
  with q show ?thesis by (auto simp: pq_add_def pq_has_iff [unfolded pq_has_def])
next
  case True
  let ?a = "q_arr q" let ?n = "length ?a"
  let ?q = "\<lparr>q_arr = ?a @ [(k, p)], q_keyIndices = put k ?n (q_keyIndices q)\<rparr>"
  have new: "k \<notin> fst ` set ?a" using True by (simp add: priorities_def map_of_eq_None_iff)
  have i: "indexed q" and h: "heap (map snd ?a)" using q by (simp_all add: queue_ok_def)
  have "x < ?n \<Longrightarrow> fst (?a ! x) \<noteq> k" for x using new by (metis image_eqI nth_mem)
  then have i': "indexed ?q" using i new by (auto simp: indexed_def nth_append less_Suc_eq)
  have "i < ?n \<Longrightarrow> snd (?a ! (i div 2)) \<le> snd (?a ! i)" for i
    using h by (simp add: heap_def less_imp_diff_less)
  then have "rising (map snd (q_arr ?q)) ?n"
    by (auto simp: rising_def nth_append less_Suc_eq)
  with i' obtain q' where q': "decreaseLoop p ?n ?q = Inr q'" "queue_ok q'" "mset (q_arr q') = mset (q_arr ?q)"
    using decreaseLoop_ok [of ?q ?n p] by (auto simp: nth_append)
  have "map_of (?a @ [(k, p)]) = map_of ((k, p) # ?a)"
    using i new by (subst map_of_inject_set) (auto simp: indexed_def)
  moreover have "map_of (q_arr q') = map_of (?a @ [(k, p)])"
    using same_entries [OF q'(3) [symmetric]] i' by (simp add: indexed_def)
  ultimately have "priorities q' = (priorities q)(k \<mapsto> p)" by (simp add: priorities_def)
  with q' True q show ?thesis
    by (simp add: pq_add_def pq_has_iff [unfolded pq_has_def] pq_decreaseAt_def at_def nth_append)
qed

lemma pq_decrease_ok:
  assumes q: "queue_ok q" and k: "priorities q k = Some old" and p: "p \<le> old"
  shows "\<exists>q'. pq_decrease numStr k p q = Inr q' \<and> queue_ok q' \<and> priorities q' = (priorities q)(k \<mapsto> p)"
proof -
  let ?a = "q_arr q"
  have ix: "indexed q" and h: "heap (map snd ?a)" using q by (simp_all add: queue_ok_def)
  obtain i where i: "get (q_keyIndices q) k = Some i"
    using k indexed_get [OF ix, of k] by (cases "get (q_keyIndices q) k") (force simp: priorities_def dest!: map_of_SomeD)+
  then have il: "i < length ?a" and ik: "fst (?a ! i) = k" and d: "distinct (map fst ?a)"
    using ix by (simp_all add: indexed_def)
  have old: "snd (?a ! i) = old" using priorities_priority [OF q, of k] k i il by (simp add: pq_priority_def at_def)
  let ?a' = "?a[i := (k, p)]" let ?q = "q\<lparr>q_arr := ?a'\<rparr>"
  have f: "map fst ?a' = map fst ?a" using ik by (simp add: map_update list_update_same_conv il)
  have "x < length ?a \<Longrightarrow> fst (?a' ! x) = fst (?a ! x)" for x using f by (metis length_list_update nth_map)
  then have ix': "indexed ?q" using ix f by (auto simp: indexed_def)
  have le: "x < length ?a \<Longrightarrow> snd (?a ! (x div 2)) \<le> snd (?a ! x)" for x
    using h by (simp add: heap_def less_imp_diff_less)
  have le2: "x < length ?a \<Longrightarrow> snd (?a ! (x div 2 div 2)) \<le> snd (?a ! x)" for x
    using le [of x] le [of "x div 2"] by (meson div_le_dividend le_less_trans order_trans)
  have "rising (map snd ?a') i"
    using le le2 old p il by (auto simp: rising_def nth_list_update map_update intro: order_trans)
  with ix' il obtain q' where q': "decreaseLoop p i ?q = Inr q'" "queue_ok q'" "mset (q_arr q') = mset ?a'"
    using decreaseLoop_ok [of ?q i p] by auto
  have "map_of (q_arr q') = map_of ?a'" using same_entries [OF q'(3) [symmetric]] f d by simp
  also have "\<dots> = (map_of ?a)(k \<mapsto> p)" using map_of_update_at [OF d il] ik by simp
  finally show ?thesis using q' i il old p k ik
    by (simp add: pq_decrease_def priorities_def at_def pq_decreaseAt_def)
qed


section \<open>The interface\<close>

text \<open>
  A queue of keys with priorities, seen as a finite map: what its clients (\<open>dijkstra\<close> and \<open>prim\<close>)
  rely on. A key is added once, a priority can only be lowered, and the removal returns a key of
  least priority.
\<close>

locale min_queue =
  fixes emp :: 'q
    and size :: "'q \<Rightarrow> nat"
    and prio :: "'q \<Rightarrow> string \<rightharpoonup> 'p::linorder"
    and insert_key :: "string \<Rightarrow> 'p \<Rightarrow> 'q \<Rightarrow> (bool \<times> 'q) result"
    and lower :: "string \<Rightarrow> 'p \<Rightarrow> 'q \<Rightarrow> 'q result"
    and take_min :: "'q \<Rightarrow> (string \<times> 'q) result"
    and ok :: "'q \<Rightarrow> bool"
  assumes emp: "ok emp" "prio emp = Map.empty"
    and size: "ok q \<Longrightarrow> size q = card (dom (prio q)) \<and> finite (dom (prio q))"
    and insert_key: "ok q \<Longrightarrow> \<exists>q'. insert_key k p q = Inr (prio q k = None, q') \<and> ok q' \<and>
      prio q' = (if prio q k = None then (prio q)(k \<mapsto> p) else prio q)"
    and lower: "ok q \<Longrightarrow> prio q k = Some old \<Longrightarrow> p \<le> old \<Longrightarrow>
      \<exists>q'. lower k p q = Inr q' \<and> ok q' \<and> prio q' = (prio q)(k \<mapsto> p)"
    and take_min: "ok q \<Longrightarrow> size q > 0 \<Longrightarrow> \<exists>k p q'. take_min q = Inr (k, q') \<and> ok q' \<and> prio q k = Some p \<and>
      prio q' = (prio q)(k := None) \<and> (\<forall>k' p'. prio q k' = Some p' \<longrightarrow> p \<le> p')"
begin

lemma size_zero: "ok q \<Longrightarrow> size q = 0 \<longleftrightarrow> prio q = Map.empty"
  using size [of q] by auto

lemma take_min_size:
  assumes "ok q" "size q > 0"
  obtains k p q' where "take_min q = Inr (k, q')" "ok q'" "prio q k = Some p" "prio q' = (prio q)(k := None)"
    "\<And>k' p'. prio q k' = Some p' \<Longrightarrow> p \<le> p'" "size q = Suc (size q')"
proof -
  from take_min [OF assms] obtain k p q' where r: "take_min q = Inr (k, q')" "ok q'" "prio q k = Some p"
    "prio q' = (prio q)(k := None)" "\<forall>k' p'. prio q k' = Some p' \<longrightarrow> p \<le> p'" by blast
  then have "dom (prio q') = dom (prio q) - {k}" "k \<in> dom (prio q)" by auto
  with size [OF assms(1)] size [OF r(2)] have "size q = Suc (size q')" using card_Suc_Diff1 by metis
  with r that show thesis by blast
qed

text \<open>A loop that adds the keys of a list builds the map of their priorities.\<close>

lemma insert_all:
  assumes "ok q" "distinct ks" "\<And>k. k \<in> set ks \<Longrightarrow> prio q k = None"
  shows "\<exists>q'. rfold (\<lambda>k q. rbind (insert_key k (f k) q) (\<lambda>r. Inr (snd r))) ks q = Inr q' \<and> ok q' \<and>
    prio q' = (\<lambda>k. if k \<in> set ks then Some (f k) else prio q k)"
  using assms
proof (induction ks arbitrary: q)
  case (Cons k ks)
  from insert_key [OF Cons.prems(1), of k "f k"] Cons.prems(3) [of k] obtain q1 where
    q1: "insert_key k (f k) q = Inr (True, q1)" "ok q1" "prio q1 = (prio q)(k \<mapsto> f k)" by auto
  from Cons.prems(2,3) q1(3) have "distinct ks" "\<And>k'. k' \<in> set ks \<Longrightarrow> prio q1 k' = None" by auto
  from Cons.IH [OF q1(2) this] obtain q' where
    "rfold (\<lambda>k q. rbind (insert_key k (f k) q) (\<lambda>r. Inr (snd r))) ks q1 = Inr q'" "ok q'"
    "prio q' = (\<lambda>k. if k \<in> set ks then Some (f k) else prio q1 k)" by blast
  with q1 Cons.prems(2) show ?case by auto
qed (auto simp: fun_eq_iff)

end

lemma queue_size:
  assumes "queue_ok q"
  shows "pq_size q = card (dom (priorities q)) \<and> finite (dom (priorities q))"
proof -
  have "card (dom (map_of (q_arr q))) = length (q_arr q)"
    using assms by (simp add: dom_map_of_conv_image_fst queue_ok_def indexed_def flip: distinct_card)
      (metis distinct_card length_map set_map)
  then show ?thesis by (simp add: pq_size_def priorities_def finite_dom_map_of)
qed

lemma pq_removeMin_least:
  assumes q: "queue_ok q" and s: "pq_size q > 0"
  shows "\<exists>k p q'. pq_removeMin q = Inr (k, q') \<and> queue_ok q' \<and> priorities q k = Some p \<and>
    priorities q' = (priorities q)(k := None) \<and> (\<forall>k' p'. priorities q k' = Some p' \<longrightarrow> p \<le> p')"
proof -
  let ?a = "q_arr q"
  have ne: "?a \<noteq> []" and h: "heap (map snd ?a)" and d: "distinct (map fst ?a)"
    using q s by (auto simp: pq_size_def queue_ok_def indexed_def)
  have "(fst (?a ! 0), snd (?a ! 0)) \<in> set ?a" using ne by simp
  with d have "priorities q (fst (?a ! 0)) = Some (snd (?a ! 0))" by (simp add: priorities_def)
  moreover have "snd (?a ! 0) \<le> p'" if "priorities q k' = Some p'" for k' p'
  proof -
    from that obtain i where "i < length ?a" "?a ! i = (k', p')"
      by (auto simp: priorities_def in_set_conv_nth dest!: map_of_SomeD)
    with heap_root [OF h, of i] ne show ?thesis by simp
  qed
  ultimately show ?thesis using pq_removeMin_ok [OF q ne] by blast
qed

interpretation pq: min_queue "PriorityQueue_new" pq_size priorities
  pq_add "pq_decrease numStr" pq_removeMin queue_ok
  for numStr :: "'p::linorder \<Rightarrow> string"
  by unfold_locales
    (simp_all add: queue_ok_new priorities_new queue_size pq_add_ok pq_decrease_ok pq_removeMin_least)

section \<open>Runs of a queue\<close>

datatype 'p queue_op = Add string 'p | Decrease string 'p | RemoveMin

fun apply_queue :: "('p::linorder \<Rightarrow> string) \<Rightarrow> 'p queue_op \<Rightarrow> 'p PriorityQueue \<Rightarrow> 'p PriorityQueue result" where
  "apply_queue numStr (Add k p) q = rbind (pq_add k p q) (\<lambda>r. Inr (snd r))"
| "apply_queue numStr (Decrease k p) q = pq_decrease numStr k p q"
| "apply_queue numStr RemoveMin q = rbind (pq_removeMin q) (\<lambda>r. Inr (snd r))"

text \<open>The errors: lowering the priority of a key that is not there, raising a priority, removing from nothing.\<close>

lemma pq_decrease_missing:
  assumes "queue_ok q" "priorities q k = None"
  shows "pq_decrease numStr k p q = Inl (TypeError ''undefined'')"
proof -
  have "get (q_keyIndices q) k = None"
    using assms by (simp add: queue_ok_def indexed_get priorities_def map_of_eq_None_iff)
  then show ?thesis by (simp add: pq_decrease_def)
qed

lemma pq_decrease_raises:
  assumes q: "queue_ok q" and k: "priorities q k = Some old" and p: "old < p"
  shows "pq_decrease numStr k p q = Inl (Error (''New priority is greater than current priority. '' @ ''Key: '' @ k @
    '' Old: '' @ numStr old @ '' New: '' @ numStr p))"
proof -
  from priorities_priority [OF q, of k] k obtain i x where "get (q_keyIndices q) k = Some i"
    "at (q_arr q) i = Some x" "snd x = old"
    by (auto simp: pq_priority_def rbind_Inr_iff deref_def split: option.splits)
  with p show ?thesis by (simp add: pq_decrease_def)
qed

lemma pq_removeMin_empty:
  assumes "pq_size q = 0"
  shows "pq_removeMin q = Inl (TypeError ''undefined'')"
  using assms by (simp add: pq_removeMin_def swap_def at_def pq_size_def)

lemma apply_queue_ok:
  assumes q: "queue_ok q" and r: "apply_queue numStr c q = Inr q'"
  shows "queue_ok q'"
proof (cases c)
  case (Add k p)
  with r pq.insert_key [OF q, of k p] show ?thesis by auto
next
  case (Decrease k p)
  show ?thesis
  proof (cases "priorities q k")
    case None
    with r Decrease pq_decrease_missing [OF q None] show ?thesis by simp
  next
    case (Some old)
    with r Decrease pq_decrease_raises [OF q Some] have "p \<le> old" by (force simp: not_less [symmetric])
    with r Decrease pq.lower [OF q Some this, of numStr] show ?thesis by auto
  qed
next
  case RemoveMin
  with r pq_removeMin_empty [of q] have "pq_size q > 0" by (cases "pq_size q") auto
  with r RemoveMin pq.take_min [OF q] show ?thesis by auto
qed

lemma queue_run_ok: "rfold (apply_queue numStr) ops q = Inr q' \<Longrightarrow> queue_ok q \<Longrightarrow> queue_ok q'"
  by (induction ops arbitrary: q) (auto simp: rbind_Inr_iff dest: apply_queue_ok)

text \<open>C21. The queue is a priority queue: after any sequence of additions, decreases and removals, taking the
  minimum of a queue that is not empty returns a key whose priority is the least, removes that key and leaves
  the priority of every other key as it was.\<close>

theorem queue_returns_the_minimum:
  assumes "rfold (apply_queue numStr) ops PriorityQueue_new = Inr q" "pq_size q > 0"
  shows "\<exists>k p q'. pq_removeMin q = Inr (k, q') \<and> pq_min q = Inr k \<and> pq_priority k q = Inr (Some p) \<and>
    pq_priority k q' = Inr None \<and> pq_size q = Suc (pq_size q') \<and>
    (\<forall>k' p'. pq_priority k' q = Inr (Some p') \<longrightarrow> p \<le> p') \<and>
    (\<forall>k'. k' \<noteq> k \<longrightarrow> pq_priority k' q' = pq_priority k' q)"
proof -
  have q: "queue_ok q" using queue_run_ok [OF assms(1) queue_ok_new] .
  then have ne: "q_arr q \<noteq> []" and k: "pq_min q = Inr (fst (q_arr q ! 0))"
    using assms(2) by (auto simp: pq_size_def pq_min_def at_def)
  obtain k p q' where r: "pq_removeMin q = Inr (k, q')" "queue_ok q'" "priorities q k = Some p"
    "priorities q' = (priorities q)(k := None)" "\<And>k' p'. priorities q k' = Some p' \<Longrightarrow> p \<le> p'"
    "pq_size q = Suc (pq_size q')" using pq.take_min_size [OF q assms(2)] by metis
  have "k = fst (q_arr q ! 0)" using pq_removeMin_ok [OF q ne] r(1) by auto
  then show ?thesis using k r priorities_priority [OF q] priorities_priority [OF r(2)] by auto
qed

theorem queue_returns_the_minimum_witness:
  "\<exists>q k q'. rfold (apply_queue (\<lambda>_. [])) [Add ''a'' (3::int), Add ''b'' 1] PriorityQueue_new = Inr q \<and>
     pq_removeMin q = Inr (k, q') \<and> pq_min q = Inr k \<and> pq_priority k q' = Inr None"
proof -
  have "rfold (apply_queue (\<lambda>_. [])) [Add ''a'' (3::int), Add ''b'' 1] PriorityQueue_new =
      Inr \<lparr>q_arr = [(''b'', 1), (''a'', 3)], q_keyIndices = [(''a'', 1), (''b'', 0)]\<rparr>" by code_simp
  from queue_returns_the_minimum [OF this] this show ?thesis by (auto simp: pq_size_def)
qed

end
