(* ===== verification/Js_Strings.thy ===== *)
theory Js_Strings
  imports Js_Prelude
begin

text \<open>
  The string methods the pages call: \<open>split\<close> on one character, \<open>replace\<close> of the first occurrence,
  \<open>includes\<close>, \<open>join\<close>, and the conversion of \<open>undefined\<close> to a string in a concatenation. Characters
  are the \<open>char\<close> of HOL (code units below 256).
\<close>

definition js_str :: "string option \<Rightarrow> string" where
  "js_str s = (case s of Some x \<Rightarrow> x | None \<Rightarrow> ''undefined'')"

lemma js_str_simps [simp]: "js_str (Some x) = x" "js_str None = ''undefined''"
  by (simp_all add: js_str_def)

text \<open>A string is truthy unless it is \<open>undefined\<close> (or \<open>null\<close>) or empty.\<close>

definition truthy :: "string option \<Rightarrow> bool" where
  "truthy s \<longleftrightarrow> s \<noteq> None \<and> s \<noteq> Some []"

fun split_on :: "char \<Rightarrow> string \<Rightarrow> string list" where
  "split_on c [] = [[]]"
| "split_on c (x # xs) =
     (if x = c then [] # split_on c xs
      else (case split_on c xs of [] \<Rightarrow> [[x]] | y # ys \<Rightarrow> (x # y) # ys))"

fun join_with :: "string \<Rightarrow> string list \<Rightarrow> string" where
  "join_with sep [] = []"
| "join_with sep [x] = x"
| "join_with sep (x # xs) = x @ sep @ join_with sep xs"

definition is_prefix :: "'a list \<Rightarrow> 'a list \<Rightarrow> bool" where
  "is_prefix xs ys \<longleftrightarrow> take (length xs) ys = xs"

fun replace_first :: "string \<Rightarrow> string \<Rightarrow> string \<Rightarrow> string" where
  "replace_first pat rep s =
     (if is_prefix pat s then rep @ drop (length pat) s
      else (case s of [] \<Rightarrow> [] | x # xs \<Rightarrow> x # replace_first pat rep xs))"

fun str_includes :: "string \<Rightarrow> string \<Rightarrow> bool" where
  "str_includes s pat \<longleftrightarrow> is_prefix pat s \<or> (case s of [] \<Rightarrow> False | x # xs \<Rightarrow> str_includes xs pat)"

declare replace_first.simps [simp del] str_includes.simps [simp del]

lemma split_on_not_Nil [simp]: "split_on c s \<noteq> []"
  by (cases s) (auto split: list.splits)

lemma split_on_absent: "c \<notin> set s \<Longrightarrow> split_on c s = [s]"
  by (induction s) auto

lemma split_on_append: "c \<notin> set a \<Longrightarrow> split_on c (a @ c # b) = a # split_on c b"
  by (induction a) auto

lemma split_on_prefix: "c \<notin> set a \<Longrightarrow> split_on c (a @ b) = (a @ hd (split_on c b)) # tl (split_on c b)"
  by (induction a) (auto split: list.splits)

lemma split_on_parts: "p \<in> set (split_on c s) \<Longrightarrow> c \<notin> set p"
proof (induction s arbitrary: p)
  case (Cons x s)
  obtain y ys where "split_on c s = y # ys" by (cases "split_on c s") auto
  with Cons show ?case by (auto split: if_splits)
qed simp

text \<open>Splitting and joining are inverse.\<close>

lemma join_split: "join_with [c] (split_on c s) = s"
proof (induction s)
  case (Cons x s)
  obtain y ys where s: "split_on c s = y # ys" by (cases "split_on c s") auto
  with Cons.IH show ?case by (cases ys) auto
qed simp

lemma split_join:
  "xs \<noteq> [] \<Longrightarrow> (\<And>x. x \<in> set xs \<Longrightarrow> c \<notin> set x) \<Longrightarrow> split_on c (join_with [c] xs) = xs"
  by (induction "[c]" xs rule: join_with.induct) (auto simp: split_on_absent split_on_append)

section \<open>Numbers in strings\<close>

text \<open>The decimal string of an integer, as in \<open>''...'' + n\<close>.\<close>

definition digit_char :: "nat \<Rightarrow> char" where
  "digit_char d = ''0123456789'' ! (d mod 10)"

fun nat_str :: "nat \<Rightarrow> string" where
  "nat_str n = (if n < 10 then [digit_char n] else nat_str (n div 10) @ [digit_char n])"

declare nat_str.simps [simp del]

definition int_str :: "int \<Rightarrow> string" where
  "int_str i = (if i < 0 then ''-'' @ nat_str (nat (- i)) else nat_str (nat i))"

lemma digit_chars: "list_all (\<lambda>m. of_char (''0123456789'' ! m) = 48 + m \<and> is_digit (''0123456789'' ! m)) [0..<10]"
  by code_simp

lemma of_char_digit: "of_char (digit_char d) = 48 + d mod 10" "is_digit (digit_char d)"
proof -
  have "d mod 10 \<in> set [0..<10]" by simp
  with digit_chars show "of_char (digit_char d) = 48 + d mod 10" "is_digit (digit_char d)"
    unfolding list_all_iff digit_char_def by blast+
qed

lemma index_val_append: "index_val (xs @ [c]) n = 10 * index_val xs n + (of_char c - 48)"
  by (induction xs arbitrary: n) auto

text \<open>The decimal string determines the number, so different numbers give different strings.\<close>

lemma index_val_nat_str: "index_val (nat_str n) 0 = n"
proof (induction n rule: nat_str.induct)
  case (1 n)
  then show ?case by (cases "n < 10") (simp_all add: nat_str.simps [of n] index_val_append of_char_digit)
qed

lemma nat_str_inj [simp]: "nat_str m = nat_str n \<longleftrightarrow> m = n"
  by (metis index_val_nat_str)

lemma nat_str_digits: "c \<in> set (nat_str n) \<Longrightarrow> is_digit c"
proof (induction n rule: nat_str.induct)
  case (1 n)
  then show ?case by (cases "n < 10") (auto simp: nat_str.simps [of n] of_char_digit)
qed

lemma int_str_inj [simp]: "int_str i = int_str j \<longleftrightarrow> i = j"
proof -
  have nd: "hd (nat_str n) \<noteq> CHR ''-''" for n
    using nat_str_digits [of "hd (nat_str n)" n] by (auto simp: nat_str.simps [of n] is_digit_def)
  show ?thesis using nd by (auto simp: int_str_def) (metis list.sel(1))+
qed

end
