(* ===== verification/Js_Number.thy ===== *)
theory Js_Number
  imports Js_Strings
begin

text \<open>
  The numbers the graph algorithms compute with: integers and \<open>Number.POSITIVE_INFINITY\<close>, with the
  order and the addition JavaScript gives them. Rounding is left out: on integers below \<open>2 ^ 53\<close> the
  arithmetic of doubles is exact.
\<close>

datatype number = Fin int | Infinity

instantiation number :: "{linorder, ordered_comm_monoid_add}"
begin

fun less_eq_number :: "number \<Rightarrow> number \<Rightarrow> bool" where
  "less_eq_number (Fin a) (Fin b) \<longleftrightarrow> a \<le> b"
| "less_eq_number x Infinity \<longleftrightarrow> True"
| "less_eq_number Infinity (Fin b) \<longleftrightarrow> False"

definition less_number :: "number \<Rightarrow> number \<Rightarrow> bool" where
  "less_number x y \<longleftrightarrow> \<not> y \<le> (x :: number)"

definition zero_number :: number where
  "zero_number = Fin 0"

fun plus_number :: "number \<Rightarrow> number \<Rightarrow> number" where
  "plus_number (Fin a) (Fin b) = Fin (a + b)"
| "plus_number Infinity y = Infinity"
| "plus_number x Infinity = Infinity"

instance
proof
  fix x y z :: number
  show "x < y \<longleftrightarrow> x \<le> y \<and> \<not> y \<le> x" by (cases x; cases y) (auto simp: less_number_def)
  show "x \<le> x" by (cases x) simp_all
  show "x \<le> y \<Longrightarrow> y \<le> z \<Longrightarrow> x \<le> z" by (cases x; cases y; cases z) simp_all
  show "x \<le> y \<Longrightarrow> y \<le> x \<Longrightarrow> x = y" by (cases x; cases y) simp_all
  show "x \<le> y \<or> y \<le> x" by (cases x; cases y) auto
  show "x + y + z = x + (y + z)" by (cases x; cases y; cases z) simp_all
  show "x + y = y + x" by (cases x; cases y) simp_all
  show "0 + x = x" by (cases x) (simp_all add: zero_number_def)
  show "x \<le> y \<Longrightarrow> z + x \<le> z + y" by (cases x; cases y; cases z) simp_all
qed

end

definition num_str :: "number \<Rightarrow> string" where
  "num_str x = (case x of Fin a \<Rightarrow> int_str a | Infinity \<Rightarrow> ''Infinity'')"

lemma number_simps [simp]:
  "Fin a < Fin b \<longleftrightarrow> a < b" "Fin a < Infinity" "\<not> Infinity < x" "x \<le> Infinity"
  "Infinity \<le> x \<longleftrightarrow> x = Infinity" "x + Infinity = Infinity"
proof -
  show "x + Infinity = Infinity" by (cases x) simp_all
  show "x \<le> Infinity" "Infinity \<le> x \<longleftrightarrow> x = Infinity" by (cases x; simp)+
qed (auto simp: less_number_def)

lemma add_eq_Infinity: "x + y = Infinity \<longleftrightarrow> x = Infinity \<or> (y :: number) = Infinity"
  by (cases x; cases y) simp_all

lemma le_add_nonneg: "0 \<le> c \<Longrightarrow> x \<le> x + (c :: number)"
  by (cases x; cases c) (simp_all add: zero_number_def)

end
