(* ===== verification/Graphlib_Dijkstra.thy ===== *)
theory Graphlib_Dijkstra
  imports Graphlib_Spec Graphlib_Queue Js_Number
begin

text \<open>
  \<open>dijkstra\<close> and \<open>dijkstraAll\<close> of graphlib (\<open>lib/alg\<close>) over the model of the graph and of the priority
  queue. The loops are the ones of the source: a \<open>while\<close> that removes the closest node from the queue
  and a \<open>forEach\<close> over its edges; every read of a missing entry is a branch. The theorems: on a
  consistent graph with weights that are not negative the run returns, and the distances are those of
  shortest walks, with a predecessor on one.
\<close>

section \<open>The algorithm\<close>

record distEntry =
  d_distance :: number
  d_predecessor :: "string option"

definition DEFAULT_WEIGHT_FUNC :: "edgeObj \<Rightarrow> number" where
  "DEFAULT_WEIGHT_FUNC e = Fin 1"

definition otherEnd :: "string \<Rightarrow> edgeObj \<Rightarrow> string" where
  "otherEnd v e = (if e_v e \<noteq> v then e_v e else e_w e)"

type_synonym dijkstraState = "distEntry obj \<times> number PriorityQueue"

definition updateNeighbors ::
  "(edgeObj \<Rightarrow> number) \<Rightarrow> string \<Rightarrow> edgeObj \<Rightarrow> dijkstraState \<Rightarrow> dijkstraState result" where
  "updateNeighbors weightFn v e st =
     (case st of (results, pq) \<Rightarrow>
      let w = otherEnd v e; weight = weightFn e in
      rbind (deref (get results v)) (\<lambda>vEntry.
        let distance = d_distance vEntry + weight in
        if weight < 0 then
          Inl (Error (''dijkstra does not allow negative edge weights. '' @
            ''Bad edge: [object Object] Weight: '' @ num_str weight))
        else
          rbind (deref (get results w)) (\<lambda>wEntry.
            if distance < d_distance wEntry then
              rbind (pq_decrease num_str w distance pq) (\<lambda>pq'.
                Inr (put w \<lparr>d_distance = distance, d_predecessor = Some v\<rparr> results, pq'))
            else Inr (results, pq))))"

definition initEntry :: "string \<Rightarrow> string \<Rightarrow> dijkstraState \<Rightarrow> dijkstraState result" where
  "initEntry source v st =
     (case st of (results, pq) \<Rightarrow>
      let distance = (if v = source then 0 else Infinity) in
      rbind (pq_add v distance pq) (\<lambda>r.
        Inr (put v \<lparr>d_distance = distance, d_predecessor = None\<rparr> results, snd r)))"

lemma updateNeighbors_size:
  "updateNeighbors weightFn v e st = Inr st' \<Longrightarrow> pq_size (snd st') = pq_size (snd st)"
  by (auto simp: updateNeighbors_def Let_def rbind_Inr_iff split: prod.splits if_splits dest: pq_decrease_size)

lemma rfold_updateNeighbors_size:
  "rfold (updateNeighbors weightFn v) es st = Inr st' \<Longrightarrow> pq_size (snd st') = pq_size (snd st)"
proof (induction es arbitrary: st)
  case (Cons e es)
  then obtain st1 where "updateNeighbors weightFn v e st = Inr st1"
    "rfold (updateNeighbors weightFn v) es st1 = Inr st'" by (auto simp: rbind_Inr_iff)
  with Cons.IH updateNeighbors_size show ?case by simp
qed simp

function dijkstraLoop ::
  "(edgeObj \<Rightarrow> number) \<Rightarrow> (string \<Rightarrow> edgeObj list option) \<Rightarrow> distEntry obj \<Rightarrow> number PriorityQueue \<Rightarrow>
   distEntry obj result" where
  "dijkstraLoop weightFn edgeFn results pq =
     (if pq_size pq > 0 then
        rbind (pq_removeMin pq) (\<lambda>(v, pq1).
        rbind (deref (get results v)) (\<lambda>vEntry.
          if d_distance vEntry = Infinity then Inr results
          else
            rbind (deref (edgeFn v)) (\<lambda>es.
            rbind (rfold (updateNeighbors weightFn v) es (results, pq1)) (\<lambda>(results', pq2).
              dijkstraLoop weightFn edgeFn results' pq2))))
      else Inr results)"
  by pat_completeness auto
termination
  by (relation "measure (\<lambda>(_, _, _, pq). pq_size pq)")
    (auto dest!: pq_removeMin_size rfold_updateNeighbors_size)

declare dijkstraLoop.simps [simp del]

definition runDijkstra ::
  "('g, 'n, 'e) Graph \<Rightarrow> string \<Rightarrow> (edgeObj \<Rightarrow> number) \<Rightarrow> (string \<Rightarrow> edgeObj list option) \<Rightarrow>
   distEntry obj result" where
  "runDijkstra g source weightFn edgeFn =
     rbind (rfold (initEntry source) (nodes g) ([], PriorityQueue_new)) (\<lambda>(results, pq).
       dijkstraLoop weightFn edgeFn results pq)"

definition dijkstra ::
  "('g, 'n, 'e) Graph \<Rightarrow> string \<Rightarrow> (edgeObj \<Rightarrow> number) option \<Rightarrow> (string \<Rightarrow> edgeObj list option) option \<Rightarrow>
   distEntry obj result" where
  "dijkstra g source weightFn edgeFn =
     runDijkstra g source
       (case weightFn of Some f \<Rightarrow> f | None \<Rightarrow> DEFAULT_WEIGHT_FUNC)
       (case edgeFn of Some f \<Rightarrow> f | None \<Rightarrow> (\<lambda>v. outEdges v None g))"

definition dijkstraAll ::
  "('g, 'n, 'e) Graph \<Rightarrow> (edgeObj \<Rightarrow> number) option \<Rightarrow> (string \<Rightarrow> edgeObj list option) option \<Rightarrow>
   distEntry obj obj result" where
  "dijkstraAll g weightFunc edgeFunc =
     rfold (\<lambda>v acc. rbind (dijkstra g v weightFunc edgeFunc) (\<lambda>r. Inr (put v r acc))) (nodes g) []"

section \<open>Walks\<close>

text \<open>The walks the edge function offers, with their total weight.\<close>

inductive walk :: "(string \<Rightarrow> edgeObj list option) \<Rightarrow> (edgeObj \<Rightarrow> number) \<Rightarrow> string \<Rightarrow> string \<Rightarrow> number \<Rightarrow> bool"
  for edgeFn weightFn s where
  walk_start: "walk edgeFn weightFn s s 0"
| walk_step: "walk edgeFn weightFn s u d \<Longrightarrow> edgeFn u = Some es \<Longrightarrow> e \<in> set es \<Longrightarrow>
    walk edgeFn weightFn s (otherEnd u e) (d + weightFn e)"

definition dist :: "distEntry obj \<Rightarrow> string \<Rightarrow> number" where
  "dist results v = (case get results v of Some x \<Rightarrow> d_distance x | None \<Rightarrow> Infinity)"

definition pred_of :: "distEntry obj \<Rightarrow> string \<Rightarrow> string option" where
  "pred_of results v = (case get results v of Some x \<Rightarrow> d_predecessor x | None \<Rightarrow> None)"

text \<open>An edge function that stays inside the nodes, and weights the algorithm accepts.\<close>

definition edges_inside :: "string set \<Rightarrow> (string \<Rightarrow> edgeObj list option) \<Rightarrow> bool" where
  "edges_inside N edgeFn \<longleftrightarrow> (\<forall>v \<in> N. \<exists>es. edgeFn v = Some es \<and> (\<forall>e \<in> set es. otherEnd v e \<in> N))"

definition weights_ok :: "string set \<Rightarrow> (string \<Rightarrow> edgeObj list option) \<Rightarrow> (edgeObj \<Rightarrow> number) \<Rightarrow> bool" where
  "weights_ok N edgeFn weightFn \<longleftrightarrow> (\<forall>v \<in> N. \<forall>es. edgeFn v = Some es \<longrightarrow> (\<forall>e \<in> set es. 0 \<le> weightFn e))"

text \<open>A settled node has left the queue. The pairs in \<open>todo\<close> are the edges of a settled node that have
  not been looked at yet.\<close>

definition estimates ::
  "string set \<Rightarrow> (string \<Rightarrow> edgeObj list option) \<Rightarrow> (edgeObj \<Rightarrow> number) \<Rightarrow> string \<Rightarrow> (string \<times> edgeObj) set \<Rightarrow>
   dijkstraState \<Rightarrow> bool" where
  "estimates N edgeFn weightFn s todo st \<longleftrightarrow>
     (let results = fst st; Q = priorities (snd st) in
      queue_ok (snd st) \<and> set (keys results) = N \<and>
      (\<forall>k p. Q k = Some p \<longrightarrow> k \<in> N \<and> p = dist results k) \<and>
      (\<forall>u \<in> N. \<forall>k. Q u = None \<and> Q k \<noteq> None \<longrightarrow> dist results u \<le> dist results k) \<and>
      (\<forall>u \<in> N. \<forall>es e. Q u = None \<and> edgeFn u = Some es \<and> e \<in> set es \<and> (u, e) \<notin> todo \<longrightarrow>
         dist results (otherEnd u e) \<le> dist results u + weightFn e) \<and>
      (\<forall>v \<in> N. dist results v \<noteq> Infinity \<longrightarrow> walk edgeFn weightFn s v (dist results v)) \<and>
      (s \<in> N \<longrightarrow> dist results s \<le> 0) \<and>
      (\<forall>v \<in> N. pred_of results v = None \<longrightarrow> dist results v = Infinity \<or> v = s) \<and>
      (\<forall>v \<in> N. \<forall>u. pred_of results v = Some u \<longrightarrow> u \<in> N \<and> Q u = None \<and>
         (\<exists>es e. edgeFn u = Some es \<and> e \<in> set es \<and> otherEnd u e = v \<and>
            dist results v = dist results u + weightFn e)))"

lemma dist_put [simp]: "dist (put w x results) v = (if v = w then d_distance x else dist results v)"
  by (simp add: dist_def)

lemma pred_of_put [simp]: "pred_of (put w x results) v = (if v = w then d_predecessor x else pred_of results v)"
  by (simp add: pred_of_def)


section \<open>Correctness\<close>

lemma estimatesD:
  assumes "estimates N edgeFn weightFn s todo (results, pq)"
  shows "queue_ok pq" "set (keys results) = N"
    and "\<And>k p. priorities pq k = Some p \<Longrightarrow> k \<in> N \<and> p = dist results k"
    and "\<And>u k. u \<in> N \<Longrightarrow> priorities pq u = None \<Longrightarrow> priorities pq k \<noteq> None \<Longrightarrow> dist results u \<le> dist results k"
    and "\<And>u es e. u \<in> N \<Longrightarrow> priorities pq u = None \<Longrightarrow> edgeFn u = Some es \<Longrightarrow> e \<in> set es \<Longrightarrow> (u, e) \<notin> todo \<Longrightarrow>
         dist results (otherEnd u e) \<le> dist results u + weightFn e"
    and "\<And>v. v \<in> N \<Longrightarrow> dist results v \<noteq> Infinity \<Longrightarrow> walk edgeFn weightFn s v (dist results v)"
    and "s \<in> N \<Longrightarrow> dist results s \<le> 0"
    and "\<And>v. v \<in> N \<Longrightarrow> pred_of results v = None \<Longrightarrow> dist results v = Infinity \<or> v = s"
    and "\<And>v u. v \<in> N \<Longrightarrow> pred_of results v = Some u \<Longrightarrow> u \<in> N \<and> priorities pq u = None \<and>
           (\<exists>es e. edgeFn u = Some es \<and> e \<in> set es \<and> otherEnd u e = v \<and>
              dist results v = dist results u + weightFn e)"
  using assms unfolding estimates_def Let_def fst_conv snd_conv by blast+

lemma estimatesI:
  assumes "queue_ok pq" "set (keys results) = N"
    and "\<And>k p. priorities pq k = Some p \<Longrightarrow> k \<in> N \<and> p = dist results k"
    and "\<And>u k. u \<in> N \<Longrightarrow> priorities pq u = None \<Longrightarrow> priorities pq k \<noteq> None \<Longrightarrow> dist results u \<le> dist results k"
    and "\<And>u es e. u \<in> N \<Longrightarrow> priorities pq u = None \<Longrightarrow> edgeFn u = Some es \<Longrightarrow> e \<in> set es \<Longrightarrow> (u, e) \<notin> todo \<Longrightarrow>
         dist results (otherEnd u e) \<le> dist results u + weightFn e"
    and "\<And>v. v \<in> N \<Longrightarrow> dist results v \<noteq> Infinity \<Longrightarrow> walk edgeFn weightFn s v (dist results v)"
    and "s \<in> N \<Longrightarrow> dist results s \<le> 0"
    and "\<And>v. v \<in> N \<Longrightarrow> pred_of results v = None \<Longrightarrow> dist results v = Infinity \<or> v = s"
    and "\<And>v u. v \<in> N \<Longrightarrow> pred_of results v = Some u \<Longrightarrow> u \<in> N \<and> priorities pq u = None \<and>
           (\<exists>es e. edgeFn u = Some es \<and> e \<in> set es \<and> otherEnd u e = v \<and>
              dist results v = dist results u + weightFn e)"
  shows "estimates N edgeFn weightFn s todo (results, pq)"
  using assms unfolding estimates_def Let_def fst_conv snd_conv by blast

lemma known_entry: "v \<in> set (keys results) \<Longrightarrow> \<exists>x. get results v = Some x \<and> d_distance x = dist results v"
  using key_get [of v results] by (auto simp: dist_def)

text \<open>Looking at one edge of the node \<open>v\<close> that was settled last.\<close>

lemma updateNeighbors_ok:
  assumes est: "estimates N edgeFn weightFn s todo (results, pq)"
    and v: "v \<in> N" "priorities pq v = None" "dist results v \<noteq> Infinity"
    and e: "edgeFn v = Some es" "e \<in> set es" "otherEnd v e \<in> N" "0 \<le> weightFn e"
    and last: "\<And>u. u \<in> N \<Longrightarrow> priorities pq u = None \<Longrightarrow> dist results u \<le> dist results v"
  shows "\<exists>results' pq'. updateNeighbors weightFn v e (results, pq) = Inr (results', pq') \<and>
    estimates N edgeFn weightFn s (todo - {(v, e)}) (results', pq') \<and>
    (\<forall>u. priorities pq' u = None \<longleftrightarrow> priorities pq u = None) \<and>
    (\<forall>u \<in> N. priorities pq u = None \<longrightarrow> dist results' u = dist results u)"
proof -
  note E = estimatesD [OF est]
  let ?w = "otherEnd v e" let ?d = "dist results v + weightFn e"
  obtain x y where x: "get results v = Some x" "d_distance x = dist results v"
    and y: "get results ?w = Some y" "d_distance y = dist results ?w"
    using known_entry [of v results] known_entry [of ?w results] v(1) e(3) E(2) by auto
  have nn: "\<not> weightFn e < 0" using e(4) by simp
  show ?thesis
  proof (cases "?d < dist results ?w")
    case False
    have "estimates N edgeFn weightFn s (todo - {(v, e)}) (results, pq)"
    proof (rule estimatesI)
      show "dist results (otherEnd u f) \<le> dist results u + weightFn f"
        if "u \<in> N" "priorities pq u = None" "edgeFn u = Some fs" "f \<in> set fs" "(u, f) \<notin> todo - {(v, e)}" for u fs f
        using E(5) [OF that(1-4)] that(5) False by (cases "u = v \<and> f = e") auto
    qed (rule E; assumption)+
    with False nn x y show ?thesis by (simp add: updateNeighbors_def)
  next
    case True
    have le: "dist results v \<le> ?d" using e(4) by (rule le_add_nonneg)
    then have wv: "dist results v < dist results ?w" using True by simp
    then obtain old where old: "priorities pq ?w = Some old" using last [of ?w] e(3) by force
    then have "old = dist results ?w" using E(3) by blast
    with pq.lower [OF E(1) old, of ?d num_str] less_imp_le [OF True] obtain pq' where
      pq': "pq_decrease num_str ?w ?d pq = Inr pq'" "queue_ok pq'" "priorities pq' = (priorities pq)(?w \<mapsto> ?d)"
      by auto
    let ?r = "put ?w \<lparr>d_distance = ?d, d_predecessor = Some v\<rparr> results"
    have settled: "u \<noteq> ?w" if "priorities pq u = None" for u using that old by auto
    have "walk edgeFn weightFn s ?w ?d" using E(6) [OF v(1,3)] e(1,2) by (rule walk_step)
    have "estimates N edgeFn weightFn s (todo - {(v, e)}) (?r, pq')"
    proof (rule estimatesI)
      show "set (keys ?r) = N" using E(2) e(3) by auto
      show "dist ?r (otherEnd u f) \<le> dist ?r u + weightFn f"
        if "u \<in> N" "priorities pq' u = None" "edgeFn u = Some fs" "f \<in> set fs" "(u, f) \<notin> todo - {(v, e)}" for u fs f
      proof (cases "u = v \<and> f = e")
        case False
        with that pq'(3) have "dist results (otherEnd u f) \<le> dist results u + weightFn f"
          using E(5) [of u fs f] by (auto split: if_splits)
        moreover have "u \<noteq> ?w" using that pq'(3) by auto
        ultimately show ?thesis using True by auto
      qed (use wv in auto)
      show "u' \<in> N \<and> p = dist ?r u'" if "priorities pq' u' = Some p" for u' p
        using that E(3) [of u' p] e(3) pq'(3) by (auto split: if_splits)
      show "dist ?r u \<le> dist ?r k" if "u \<in> N" "priorities pq' u = None" "priorities pq' k \<noteq> None" for u k
        using that E(4) [of u k] last [of u] le pq'(3) by (auto split: if_splits)
      show "walk edgeFn weightFn s u (dist ?r u)" if "u \<in> N" "dist ?r u \<noteq> Infinity" for u
        using that E(6) [of u] \<open>walk _ _ s ?w ?d\<close> by auto
      show "dist ?r s \<le> 0" if "s \<in> N" using E(7) [OF that] True by auto
      show "dist ?r u = Infinity \<or> u = s" if "u \<in> N" "pred_of ?r u = None" for u
        using that E(8) [of u] by (auto split: if_splits)
      show "u' \<in> N \<and> priorities pq' u' = None \<and>
        (\<exists>es f. edgeFn u' = Some es \<and> f \<in> set es \<and> otherEnd u' f = u \<and> dist ?r u = dist ?r u' + weightFn f)"
        if "u \<in> N" "pred_of ?r u = Some u'" for u u'
      proof (cases "u = ?w")
        case True
        with that settled [OF v(2)] v e(1,2) pq'(3) show ?thesis by auto
      next
        case False
        with that have "pred_of results u = Some u'" by simp
        with E(9) [of u u'] that(1) False settled [of u'] pq'(3) show ?thesis by auto
      qed
    qed (rule pq')
    with pq' nn x y True settled old show ?thesis by (simp add: updateNeighbors_def)
  qed
qed


text \<open>The \<open>forEach\<close> over all edges of the node.\<close>

lemma relax_all_ok:
  assumes "estimates N edgeFn weightFn s ({v} \<times> set es) (results, pq)"
    and v: "v \<in> N" "priorities pq v = None" "dist results v \<noteq> Infinity" and es: "edgeFn v = Some es"
    and inside: "\<And>e. e \<in> set es \<Longrightarrow> otherEnd v e \<in> N \<and> 0 \<le> weightFn e"
    and last: "\<And>u. u \<in> N \<Longrightarrow> priorities pq u = None \<Longrightarrow> dist results u \<le> dist results v"
  shows "\<exists>results' pq'. rfold (updateNeighbors weightFn v) es (results, pq) = Inr (results', pq') \<and>
    estimates N edgeFn weightFn s {} (results', pq')"
proof -
  let ?P = "\<lambda>ys st. estimates N edgeFn weightFn s ({v} \<times> (set es - set ys)) st \<and>
    (\<forall>u. priorities (snd st) u = None \<longleftrightarrow> priorities pq u = None) \<and>
    (\<forall>u \<in> N. priorities pq u = None \<longrightarrow> dist (fst st) u = dist results u)"
  have "\<exists>st'. rfold (updateNeighbors weightFn v) es (results, pq) = Inr st' \<and> ?P es st'"
  proof (rule rfold_prefix_invariant [where P = ?P])
    fix ys e zs st
    assume split: "es = ys @ e # zs" and P: "?P ys st"
    then have e: "e \<in> set es" by simp
    obtain r q where st: "st = (r, q)" by fastforce
    have v': "priorities q v = None" "dist r v = dist results v" using P v by (auto simp: st)
    have estq: "estimates N edgeFn weightFn s ({v} \<times> (set es - set ys)) (r, q)" using P by (simp add: st)
    have last': "dist r u \<le> dist r v" if "u \<in> N" "priorities q u = None" for u
      using P last [of u] that v v' by (simp add: st)
    obtain r' q' where rq: "updateNeighbors weightFn v e (r, q) = Inr (r', q')"
      "estimates N edgeFn weightFn s ({v} \<times> (set es - set ys) - {(v, e)}) (r', q')"
      "\<forall>u. priorities q' u = None \<longleftrightarrow> priorities q u = None"
      "\<forall>u \<in> N. priorities q u = None \<longrightarrow> dist r' u = dist r u"
      using updateNeighbors_ok [OF estq v(1) v'(1) _ es e] inside [OF e] last' v(3) v'(2) by auto
    moreover have "{v} \<times> (set es - set ys) - {(v, e)} = {v} \<times> (set es - set (ys @ [e]))" by auto
    ultimately have "?P (ys @ [e]) (r', q')" using P by (simp add: st)
    with rq(1) st show "\<exists>st'. updateNeighbors weightFn v e st = Inr st' \<and> ?P (ys @ [e]) st'" by blast
  qed (use assms(1) in simp)
  then show ?thesis by auto
qed

text \<open>When the loop ends, every edge is relaxed, so no walk is shorter than the distance.\<close>

definition shortest ::
  "string set \<Rightarrow> (string \<Rightarrow> edgeObj list option) \<Rightarrow> (edgeObj \<Rightarrow> number) \<Rightarrow> string \<Rightarrow> distEntry obj \<Rightarrow> bool" where
  "shortest N edgeFn weightFn s results \<longleftrightarrow> set (keys results) = N \<and>
     (\<forall>v \<in> N. (\<forall>c. walk edgeFn weightFn s v c \<longrightarrow> dist results v \<le> c) \<and>
       (dist results v \<noteq> Infinity \<longrightarrow> walk edgeFn weightFn s v (dist results v)) \<and>
       (\<forall>u. pred_of results v = Some u \<longrightarrow> u \<in> N \<and>
          (\<exists>es e. edgeFn u = Some es \<and> e \<in> set es \<and> otherEnd u e = v \<and> dist results v = dist results u + weightFn e)) \<and>
       (pred_of results v = None \<longrightarrow> dist results v = Infinity \<or> v = s))"

lemma estimates_final:
  assumes est: "estimates N edgeFn weightFn s {} (results, pq)" and ins: "edges_inside N edgeFn" and s: "s \<in> N"
    and Q: "\<And>k p. priorities pq k = Some p \<Longrightarrow> p = Infinity"
  shows "shortest N edgeFn weightFn s results"
proof -
  note E = estimatesD [OF est]
  have relaxed: "dist results (otherEnd u e) \<le> dist results u + weightFn e"
    if u: "u \<in> N" "edgeFn u = Some es" "e \<in> set es" for u es e
  proof (cases "priorities pq u")
    case None
    with E(5) [of u es e] u show ?thesis by simp
  next
    case (Some p)
    with Q [of u p] E(3) [of u p] have "dist results u = Infinity" by simp
    then show ?thesis by simp
  qed
  have low: "v \<in> N \<and> dist results v \<le> c" if "walk edgeFn weightFn s v c" for v c
    using that
  proof induction
    case walk_start
    with E(7) s show ?case by (simp add: zero_number_def)
  next
    case (walk_step u d es e)
    then have "dist results (otherEnd u e) \<le> d + weightFn e"
      using relaxed [of u es e] add_right_mono [of "dist results u" d "weightFn e"] by auto
    moreover have "otherEnd u e \<in> N" using walk_step ins by (auto simp: edges_inside_def)
    ultimately show ?case by simp
  qed
  show ?thesis unfolding shortest_def using E(2,6,8,9) low by blast
qed

text \<open>Removing the closest node from the queue settles it, with all its edges to do.\<close>

lemma settle_ok:
  assumes est: "estimates N edgeFn weightFn s {} (results, pq)" and ok: "queue_ok pq1"
    and v: "\<exists>p. priorities pq v = Some p \<and> (\<forall>k p'. priorities pq k = Some p' \<longrightarrow> p \<le> p')"
    and pq1: "priorities pq1 = (priorities pq)(v := None)" and es: "edgeFn v = Some es"
  shows "estimates N edgeFn weightFn s ({v} \<times> set es) (results, pq1)"
proof -
  note E = estimatesD [OF est]
  have least: "dist results v \<le> dist results k" if "priorities pq k \<noteq> None" for k
    using v E(3) that by fastforce
  show ?thesis
  proof (rule estimatesI)
    show "k \<in> N \<and> q = dist results k" if "priorities pq1 k = Some q" for k q
      using that pq1 E(3) by (auto split: if_splits)
    show "dist results u \<le> dist results k" if "u \<in> N" "priorities pq1 u = None" "priorities pq1 k \<noteq> None" for u k
      using that pq1 E(4) [of u k] least by (auto split: if_splits)
    show "dist results (otherEnd u e) \<le> dist results u + weightFn e"
      if "u \<in> N" "priorities pq1 u = None" "edgeFn u = Some fs" "e \<in> set fs" "(u, e) \<notin> {v} \<times> set es" for u fs e
      using that pq1 E(5) [of u fs e] es by (auto split: if_splits)
    show "u' \<in> N \<and> priorities pq1 u' = None \<and>
      (\<exists>es f. edgeFn u' = Some es \<and> f \<in> set es \<and> otherEnd u' f = u \<and> dist results u = dist results u' + weightFn f)"
      if "u \<in> N" "pred_of results u = Some u'" for u u'
      using E(9) [OF that] pq1 by auto
  qed (rule ok E; assumption)+
qed

lemma dijkstraLoop_ok:
  assumes "edges_inside N edgeFn" "weights_ok N edgeFn weightFn" "s \<in> N"
    and "estimates N edgeFn weightFn s {} (results, pq)"
  shows "\<exists>r. dijkstraLoop weightFn edgeFn results pq = Inr r \<and> shortest N edgeFn weightFn s r"
  using assms(4)
proof (induction "pq_size pq" arbitrary: results pq rule: less_induct)
  case less
  note E = estimatesD [OF less.prems]
  show ?case
  proof (cases "pq_size pq > 0")
    case False
    with pq.size_zero [OF E(1)] have "priorities pq = Map.empty" by simp
    with estimates_final [OF less.prems assms(1,3)] False show ?thesis by (subst dijkstraLoop.simps) simp
  next
    case True
    then obtain v p pq1 where rem: "pq_removeMin pq = Inr (v, pq1)" "queue_ok pq1" "priorities pq v = Some p"
      "priorities pq1 = (priorities pq)(v := None)" "\<And>k' p'. priorities pq k' = Some p' \<Longrightarrow> p \<le> p'"
      "pq_size pq = Suc (pq_size pq1)" using pq.take_min_size [OF E(1)] by metis
    have v: "v \<in> N" "p = dist results v" using E(3) [OF rem(3)] by auto
    obtain x where x: "get results v = Some x" "d_distance x = dist results v" using known_entry v(1) E(2) by blast
    show ?thesis
    proof (cases "dist results v = Infinity")
      case inf: True
      then have "priorities pq k = Some p' \<Longrightarrow> p' = Infinity" for k p' using rem(5) v(2) by force
      with estimates_final [OF less.prems assms(1,3)] True inf rem(1) x show ?thesis
        by (subst dijkstraLoop.simps) simp
    next
      case fin: False
      obtain es where es: "edgeFn v = Some es" "\<And>e. e \<in> set es \<Longrightarrow> otherEnd v e \<in> N \<and> 0 \<le> weightFn e"
        using assms(1,2) v(1) by (auto simp: edges_inside_def weights_ok_def)
      have est1: "estimates N edgeFn weightFn s ({v} \<times> set es) (results, pq1)"
        using settle_ok [OF less.prems rem(2) _ rem(4) es(1)] rem(3,5) by auto
      have "dist results u \<le> dist results v" if "u \<in> N" "priorities pq1 u = None" for u
        using that rem(3,4) E(4) [of u v] by (auto split: if_splits)
      with relax_all_ok [OF est1 v(1) _ fin es] rem(4) obtain r' q' where
        rq: "rfold (updateNeighbors weightFn v) es (results, pq1) = Inr (r', q')"
        "estimates N edgeFn weightFn s {} (r', q')" by auto
      have "pq_size q' < pq_size pq" using rfold_updateNeighbors_size [OF rq(1)] rem(6) by simp
      from less.hyps [OF this rq(2)] True fin rem(1) x es(1) rq(1) show ?thesis
        by (subst dijkstraLoop.simps) simp
    qed
  qed
qed


lemma init_ok:
  assumes "distinct ns"
  shows "\<exists>results pq. rfold (initEntry s) ns ([], PriorityQueue_new) = Inr (results, pq) \<and>
    estimates (set ns) edgeFn weightFn s {} (results, pq)"
proof -
  let ?d = "\<lambda>k. if k = s then 0 else Infinity"
  let ?P = "\<lambda>ys st. queue_ok (snd st) \<and> set (keys (fst st)) = set ys \<and>
    priorities (snd st) = (\<lambda>k. if k \<in> set ys then Some (?d k) else None) \<and>
    (\<forall>k \<in> set ys. dist (fst st) k = ?d k \<and> pred_of (fst st) k = None)"
  have "\<exists>st. rfold (initEntry s) ns ([], PriorityQueue_new) = Inr st \<and> ?P ns st"
  proof (rule rfold_prefix_invariant [where P = ?P])
    fix ys x zs st
    assume split: "ns = ys @ x # zs" and P: "?P ys st"
    obtain r q where st: "st = (r, q)" by fastforce
    from assms split P have "priorities q x = None" by (simp add: st)
    with pq.insert_key [of q x "?d x"] P obtain q' where "pq_add x (?d x) q = Inr (True, q')" "queue_ok q'"
      "priorities q' = (priorities q)(x \<mapsto> ?d x)" by (auto simp: st)
    with P show "\<exists>st'. initEntry s x st = Inr st' \<and> ?P (ys @ [x]) st'"
      by (auto simp: st initEntry_def fun_eq_iff)
  qed (simp add: queue_ok_new priorities_new)
  then obtain results pq where rq: "rfold (initEntry s) ns ([], PriorityQueue_new) = Inr (results, pq)"
    "?P ns (results, pq)" by auto
  then have "estimates (set ns) edgeFn weightFn s {} (results, pq)"
    by (intro estimatesI) (auto simp: zero_number_def walk_start [unfolded zero_number_def] split: if_splits)
  with rq(1) show ?thesis by blast
qed

lemma runDijkstra_ok:
  fixes g :: "('g, 'n, 'e) Graph"
  assumes "graph_ok g" "edges_inside (node_set g) edgeFn" "weights_ok (node_set g) edgeFn weightFn" "s \<in> node_set g"
  shows "\<exists>r. runDijkstra g s weightFn edgeFn = Inr r \<and> shortest (node_set g) edgeFn weightFn s r"
proof -
  obtain results pq where "rfold (initEntry s) (nodes g) ([], PriorityQueue_new) = Inr (results, pq)"
    "estimates (node_set g) edgeFn weightFn s {} (results, pq)"
    using init_ok [OF distinct_nodes [OF assms(1)], of s edgeFn weightFn] nodes_set [of g] by auto
  with dijkstraLoop_ok [OF assms(2-4)] show ?thesis by (simp add: runDijkstra_def)
qed

lemma outEdges_inside:
  fixes g :: "('g, 'n, 'e) Graph"
  assumes "graph_ok g"
  shows "edges_inside (node_set g) (\<lambda>v. outEdges v None g)"
  unfolding edges_inside_def
proof
  fix v assume "v \<in> node_set g"
  with outEdges_spec [OF assms] obtain es where
    "outEdges v None g = Some es" "set es = {eo \<in> set (edges g). e_v eo = v}" by blast
  then show "\<exists>es. outEdges v None g = Some es \<and> (\<forall>e \<in> set es. otherEnd v e \<in> node_set g)"
    using edges_ends [OF assms] by (auto simp: otherEnd_def)
qed

lemma dijkstra_ok:
  fixes g :: "('g, 'n, 'e) Graph"
  assumes "graph_ok g" "source \<in> node_set g" "\<forall>e \<in> set (edges g). 0 \<le> weightFn e"
  shows "\<exists>r. dijkstra g source (Some weightFn) None = Inr r \<and>
    shortest (node_set g) (\<lambda>v. outEdges v None g) weightFn source r"
proof -
  have "weights_ok (node_set g) (\<lambda>v. outEdges v None g) weightFn"
    using outEdges_spec [OF assms(1)] assms(3) unfolding weights_ok_def by fastforce
  from runDijkstra_ok [OF assms(1) outEdges_inside [OF assms(1)] this assms(2)] show ?thesis
    by (simp add: dijkstra_def)
qed

text \<open>\<open>dijkstraAll\<close> runs it from every node.\<close>

lemma dijkstraAll_ok:
  fixes g :: "('g, 'n, 'e) Graph"
  assumes "\<And>v. v \<in> node_set g \<Longrightarrow> \<exists>r. dijkstra g v weightFunc edgeFunc = Inr r \<and> P v r"
  shows "\<exists>rs. dijkstraAll g weightFunc edgeFunc = Inr rs \<and> set (keys rs) = node_set g \<and>
    (\<forall>v \<in> node_set g. \<exists>r. get rs v = Some r \<and> P v r)"
proof -
  let ?f = "\<lambda>v acc. rbind (dijkstra g v weightFunc edgeFunc) (\<lambda>r. Inr (put v r acc))"
  let ?P = "\<lambda>ys acc. set (keys acc) = set ys \<and> (\<forall>v \<in> set ys. \<exists>r. get acc v = Some r \<and> P v r)"
  have "\<exists>rs. rfold ?f (nodes g) [] = Inr rs \<and> ?P (nodes g) rs"
  proof (rule rfold_prefix_invariant [where P = ?P])
    fix ys v zs acc
    assume "nodes g = ys @ v # zs" and P: "?P ys acc"
    then have "v \<in> node_set g" by (simp flip: nodes_set)
    with assms obtain r where "dijkstra g v weightFunc edgeFunc = Inr r" "P v r" by blast
    with P show "\<exists>acc'. ?f v acc = Inr acc' \<and> ?P (ys @ [v]) acc'" by auto
  qed simp
  then show ?thesis by (simp add: dijkstraAll_def nodes_set)
qed


text \<open>C22. On a consistent graph with weights that are not negative, \<open>dijkstraAll\<close> returns (neither it nor
  \<open>dijkstra\<close> throws), with one table per node: the table of \<open>source\<close> is what \<open>dijkstra\<close> returns from there, and
  its entry for every node holds the total weight of a shortest walk along outgoing edges, with the last step
  of such a walk as predecessor, or infinity exactly when there is no walk of finite weight.\<close>

theorem dijkstra_finds_shortest_walks:
  fixes g :: "('g, 'n, 'e) Graph"
  assumes "graph_ok g" "\<forall>e \<in> set (edges g). 0 \<le> weightFn e"
  shows "\<exists>rs. dijkstraAll g (Some weightFn) None = Inr rs \<and> set (keys rs) = node_set g \<and>
    (\<forall>source \<in> node_set g. \<exists>r. get rs source = Some r \<and> dijkstra g source (Some weightFn) None = Inr r \<and>
       shortest (node_set g) (\<lambda>v. outEdges v None g) weightFn source r)"
proof (rule dijkstraAll_ok [where P = "\<lambda>v r. dijkstra g v (Some weightFn) None = Inr r \<and>
    shortest (node_set g) (\<lambda>v. outEdges v None g) weightFn v r"])
  fix v assume "v \<in> node_set g"
  from dijkstra_ok [OF assms(1) this assms(2)] show "\<exists>r. dijkstra g v (Some weightFn) None = Inr r \<and>
    dijkstra g v (Some weightFn) None = Inr r \<and>
    shortest (node_set g) (\<lambda>v. outEdges v None g) weightFn v r" by blast
qed

theorem dijkstra_finds_shortest_walks_witness:
  "\<exists>g rs. setEdge ''a'' ''b'' None None (newGraph None None None :: (int, int, int) Graph) = Inr g \<and>
     dijkstraAll g (Some (\<lambda>e. Fin 2)) None = Inr rs \<and> ''b'' \<in> set (keys rs)"
proof -
  let ?g0 = "newGraph None None None :: (int, int, int) Graph"
  have "clean_graph ?g0" "\<not> f_isCompound ?g0" by (simp_all add: clean_graph_def newGraph_def edges_def)
  with setEdge_refines [of ?g0 "''a''" "''b''" None None, OF graph_ok_new] obtain g where
    g: "setEdge ''a'' ''b'' None None ?g0 = Inr g" "graph_ok g" "''b'' \<in> node_set g"
    by (auto simp: clean_def clean_name_def)
  have "\<forall>e \<in> set (edges g). 0 \<le> Fin 2" by (simp add: zero_number_def)
  from dijkstra_finds_shortest_walks [OF g(2) this] g show ?thesis by auto
qed

text \<open>The entry of an edge with a negative weight is refused with the error of the source.\<close>

lemma updateNeighbors_negative:
  assumes "get results v = Some x" "weightFn e < 0"
  shows "updateNeighbors weightFn v e (results, pq) =
    Inl (Error (''dijkstra does not allow negative edge weights. Bad edge: [object Object] Weight: '' @
      num_str (weightFn e)))"
  using assms by (simp add: updateNeighbors_def)

end
