(* ===== verification/Graphlib_Floyd.thy ===== *)
theory Graphlib_Floyd
  imports Graphlib_Dijkstra
begin

text \<open>
  \<open>floydWarshall\<close> of graphlib (\<open>lib/alg\<close>): the table of all distances, improved in place over every intermediate
  node. On graphs without parallel edges and self loops it agrees with \<open>dijkstraAll\<close>; with self loops and
  parallel edges it does not, which the last section shows.
\<close>

section \<open>The algorithm\<close>

type_synonym distTable = "distEntry obj obj"

definition fwEntry :: "string \<Rightarrow> string \<Rightarrow> distTable \<Rightarrow> distEntry result" where
  "fwEntry i j results = rbind (deref (get results i)) (\<lambda>row. deref (get row j))"

definition fwEdge :: "(edgeObj \<Rightarrow> number) \<Rightarrow> string \<Rightarrow> edgeObj \<Rightarrow> distEntry obj \<Rightarrow> distEntry obj" where
  "fwEdge weightFn v e row =
     put (otherEnd v e) \<lparr>d_distance = weightFn e, d_predecessor = Some v\<rparr> row"

definition fwRow ::
  "(edgeObj \<Rightarrow> number) \<Rightarrow> (string \<Rightarrow> edgeObj list option) \<Rightarrow> string list \<Rightarrow> string \<Rightarrow> distTable \<Rightarrow> distTable result" where
  "fwRow weightFn edgeFn vs v results =
     (let row0 = put v \<lparr>d_distance = 0, d_predecessor = None\<rparr> [];
          row1 = fold (\<lambda>w row. if v \<noteq> w then put w \<lparr>d_distance = Infinity, d_predecessor = None\<rparr> row else row) vs row0
      in rbind (deref (edgeFn v)) (\<lambda>es. Inr (put v (fold (fwEdge weightFn v) es row1) results)))"

definition fwRelax :: "string \<Rightarrow> string \<Rightarrow> string \<Rightarrow> distTable \<Rightarrow> distTable result" where
  "fwRelax k i j results =
     rbind (fwEntry i k results) (\<lambda>ik. rbind (fwEntry k j results) (\<lambda>kj. rbind (fwEntry i j results) (\<lambda>ij.
       let altDistance = d_distance ik + d_distance kj in
       if altDistance < d_distance ij then
         rbind (deref (get results i)) (\<lambda>row.
           Inr (put i (put j \<lparr>d_distance = altDistance, d_predecessor = d_predecessor kj\<rparr> row) results))
       else Inr results)))"

definition runFloydWarshall ::
  "('g, 'n, 'e) Graph \<Rightarrow> (edgeObj \<Rightarrow> number) \<Rightarrow> (string \<Rightarrow> edgeObj list option) \<Rightarrow> distTable result" where
  "runFloydWarshall g weightFn edgeFn =
     rbind (rfold (fwRow weightFn edgeFn (nodes g)) (nodes g) []) (\<lambda>results.
       rfold (\<lambda>k. rfold (\<lambda>i. rfold (fwRelax k i) (nodes g)) (nodes g)) (nodes g) results)"

definition floydWarshall ::
  "('g, 'n, 'e) Graph \<Rightarrow> (edgeObj \<Rightarrow> number) option \<Rightarrow> (string \<Rightarrow> edgeObj list option) option \<Rightarrow> distTable result" where
  "floydWarshall g weightFn edgeFn =
     runFloydWarshall g
       (case weightFn of Some f \<Rightarrow> f | None \<Rightarrow> DEFAULT_WEIGHT_FUNC)
       (case edgeFn of Some f \<Rightarrow> f | None \<Rightarrow> (\<lambda>v. outEdges v None g))"

section \<open>The table as a matrix\<close>

text \<open>A table over the nodes holds a matrix of entries.\<close>

definition tabulates :: "string set \<Rightarrow> (string \<Rightarrow> string \<Rightarrow> distEntry) \<Rightarrow> distTable \<Rightarrow> bool" where
  "tabulates N M results \<longleftrightarrow> set (keys results) = N \<and>
     (\<forall>i \<in> N. \<exists>row. get results i = Some row \<and> set (keys row) = N \<and> (\<forall>j \<in> N. get row j = Some (M i j)))"

definition relaxed :: "string \<Rightarrow> (string \<Rightarrow> string \<Rightarrow> distEntry) \<Rightarrow> string \<Rightarrow> string \<Rightarrow> distEntry" where
  "relaxed k M i j =
     (if d_distance (M i k) + d_distance (M k j) < d_distance (M i j)
      then \<lparr>d_distance = d_distance (M i k) + d_distance (M k j), d_predecessor = d_predecessor (M k j)\<rparr> else M i j)"

definition partly_relaxed ::
  "string \<Rightarrow> (string \<times> string) set \<Rightarrow> (string \<Rightarrow> string \<Rightarrow> distEntry) \<Rightarrow> string \<Rightarrow> string \<Rightarrow> distEntry" where
  "partly_relaxed k S M i j = (if (i, j) \<in> S then relaxed k M i j else M i j)"

lemma tabulatesD:
  assumes "tabulates N M results" "i \<in> N"
  obtains row where "get results i = Some row" "set (keys row) = N" "\<And>j. j \<in> N \<Longrightarrow> get row j = Some (M i j)"
  using assms unfolding tabulates_def by blast

lemma tabulates_entry: "tabulates N M results \<Longrightarrow> i \<in> N \<Longrightarrow> j \<in> N \<Longrightarrow> fwEntry i j results = Inr (M i j)"
  by (auto simp: fwEntry_def elim: tabulatesD)

lemma tabulates_put:
  assumes "tabulates N M results" "i \<in> N" "j \<in> N" "get results i = Some row"
  shows "tabulates N (\<lambda>a b. if a = i \<and> b = j then x else M a b) (put i (put j x row) results)"
  unfolding tabulates_def
proof (intro conjI ballI)
  show "set (keys (put i (put j x row) results)) = N" using assms(1,2) by (auto simp: tabulates_def)
  fix a assume a: "a \<in> N"
  obtain r where r: "get results a = Some r" "set (keys r) = N" "\<And>b. b \<in> N \<Longrightarrow> get r b = Some (M a b)"
    using tabulatesD [OF assms(1) a] by metis
  with assms(3,4) show "\<exists>ra. get (put i (put j x row) results) a = Some ra \<and> set (keys ra) = N \<and>
      (\<forall>b\<in>N. get ra b = Some (if a = i \<and> b = j then x else M a b))"
    by (cases "a = i") auto
qed

text \<open>With a diagonal of zeros, the row and the column of the intermediate node stay as they are during its turn.\<close>

lemma fixed_row_column:
  assumes "d_distance (M k k) = 0"
  shows "relaxed k M k j = M k j" "relaxed k M i k = M i k"
  using assms by (simp_all add: relaxed_def)

lemma partly_fixed:
  assumes "d_distance (M k k) = 0"
  shows "partly_relaxed k S M k j = M k j" "partly_relaxed k S M i k = M i k"
  using fixed_row_column [of M k, OF assms] by (simp_all add: partly_relaxed_def)

lemma fwRelax_ok:
  assumes h: "tabulates N (partly_relaxed k S M) results" and N: "k \<in> N" "i \<in> N" "j \<in> N" and zero: "d_distance (M k k) = 0"
    and new: "(i, j) \<notin> S"
  shows "\<exists>results'. fwRelax k i j results = Inr results' \<and> tabulates N (partly_relaxed k (insert (i, j) S) M) results'"
proof -
  have new': "partly_relaxed k S M i j = M i j" using new by (simp add: partly_relaxed_def)
  have e: "fwEntry i k results = Inr (M i k)" "fwEntry k j results = Inr (M k j)" "fwEntry i j results = Inr (M i j)"
    using tabulates_entry [OF h N(2,1)] tabulates_entry [OF h N(1,3)] tabulates_entry [OF h N(2,3)]
    unfolding partly_fixed [of M k, OF zero] new' by simp_all
  obtain row where row: "get results i = Some row" using h N(2) unfolding tabulates_def by blast
  have step: "partly_relaxed k (insert (i, j) S) M = (\<lambda>a b. if a = i \<and> b = j then relaxed k M i j else partly_relaxed k S M a b)"
    by (intro ext) (simp add: partly_relaxed_def)
  show ?thesis
  proof (cases "d_distance (M i k) + d_distance (M k j) < d_distance (M i j)")
    case True
    then have "relaxed k M i j = \<lparr>d_distance = d_distance (M i k) + d_distance (M k j), d_predecessor = d_predecessor (M k j)\<rparr>"
      by (simp add: relaxed_def)
    moreover from True e row have "fwRelax k i j results =
      Inr (put i (put j \<lparr>d_distance = d_distance (M i k) + d_distance (M k j), d_predecessor = d_predecessor (M k j)\<rparr> row) results)"
      by (simp add: fwRelax_def)
    ultimately show ?thesis using tabulates_put [OF h N(2,3) row, of "relaxed k M i j"] unfolding step by simp
  next
    case False
    then have "relaxed k M i j = M i j" by (simp add: relaxed_def)
    then have "partly_relaxed k (insert (i, j) S) M = partly_relaxed k S M"
      using new by (intro ext) (simp add: partly_relaxed_def)
    with False e h show ?thesis by (simp add: fwRelax_def)
  qed
qed

text \<open>The turn of one intermediate node.\<close>

lemma relax_row_ok:
  assumes h: "tabulates N (partly_relaxed k (I \<times> N) M) results" and N: "k \<in> N" "i \<in> N" "i \<notin> I" and zero: "d_distance (M k k) = 0"
    and vs: "set vs = N" "distinct vs"
  shows "\<exists>results'. rfold (fwRelax k i) vs results = Inr results' \<and> tabulates N (partly_relaxed k (insert i I \<times> N) M) results'"
proof -
  let ?P = "\<lambda>js. tabulates N (partly_relaxed k (I \<times> N \<union> {i} \<times> set js) M)"
  have "\<exists>results'. rfold (fwRelax k i) vs results = Inr results' \<and> ?P vs results'"
  proof (rule rfold_prefix_invariant [where P = ?P])
    fix ys j zs r
    assume split: "vs = ys @ j # zs" and r: "?P ys r"
    have j: "j \<in> N" "(i, j) \<notin> I \<times> N \<union> {i} \<times> set ys" using split vs N(3) by auto
    have eq: "insert (i, j) (I \<times> N \<union> {i} \<times> set ys) = I \<times> N \<union> {i} \<times> set (ys @ [j])" by auto
    show "\<exists>r'. fwRelax k i j r = Inr r' \<and> ?P (ys @ [j]) r'" using fwRelax_ok [OF r N(1,2) j(1) zero j(2)] unfolding eq .
  qed (use h in simp)
  moreover have eq: "I \<times> N \<union> {i} \<times> set vs = insert i I \<times> N" using vs(1) by auto
  ultimately show ?thesis unfolding eq by blast
qed

lemma relax_turn_ok:
  assumes h: "tabulates N M results" and k: "k \<in> N" and zero: "d_distance (M k k) = 0" and vs: "set vs = N" "distinct vs"
  shows "\<exists>results'. rfold (\<lambda>i. rfold (fwRelax k i) vs) vs results = Inr results' \<and> tabulates N (relaxed k M) results'"
proof -
  let ?P = "\<lambda>ys. tabulates N (partly_relaxed k (set ys \<times> N) M)"
  have "\<exists>results'. rfold (\<lambda>i. rfold (fwRelax k i) vs) vs results = Inr results' \<and> ?P vs results'"
  proof (rule rfold_prefix_invariant [where P = ?P])
    show "?P [] results" using h by (simp add: partly_relaxed_def tabulates_def)
  next
    fix ys i zs r
    assume split: "vs = ys @ i # zs" and r: "?P ys r"
    then have i: "i \<in> N" "i \<notin> set ys" using vs by auto
    have eq: "insert i (set ys) = set (ys @ [i])" by simp
    show "\<exists>r'. rfold (fwRelax k i) vs r = Inr r' \<and> ?P (ys @ [i]) r'" using relax_row_ok [OF r k i zero vs] unfolding eq .
  qed
  moreover have "tabulates N (partly_relaxed k (set vs \<times> N) M) r \<longleftrightarrow> tabulates N (relaxed k M) r" for r
    using vs(1) by (auto simp: tabulates_def partly_relaxed_def)
  ultimately show ?thesis by simp
qed

section \<open>Shortest walks\<close>

text \<open>The matrix holds realisable distances that satisfy the triangle inequality through the nodes of \<open>K\<close>;
  a predecessor is the last step of a walk that is not longer than the distance.\<close>

definition distances ::
  "string set \<Rightarrow> (string \<Rightarrow> edgeObj list option) \<Rightarrow> (edgeObj \<Rightarrow> number) \<Rightarrow> string set \<Rightarrow> (string \<Rightarrow> string \<Rightarrow> distEntry) \<Rightarrow> bool" where
  "distances N edgeFn weightFn K M \<longleftrightarrow>
     (\<forall>i \<in> N. d_distance (M i i) = 0) \<and>
     (\<forall>i \<in> N. \<forall>j \<in> N. 0 \<le> d_distance (M i j)) \<and>
     (\<forall>i \<in> N. \<forall>j \<in> N. d_distance (M i j) \<noteq> Infinity \<longrightarrow> walk edgeFn weightFn i j (d_distance (M i j))) \<and>
     (\<forall>i \<in> N. \<forall>es. \<forall>e. edgeFn i = Some es \<longrightarrow> e \<in> set es \<longrightarrow> d_distance (M i (otherEnd i e)) \<le> weightFn e) \<and>
     (\<forall>k \<in> K. \<forall>i \<in> N. \<forall>j \<in> N. d_distance (M i j) \<le> d_distance (M i k) + d_distance (M k j)) \<and>
     (\<forall>i \<in> N. \<forall>j \<in> N. d_predecessor (M i j) = None \<longrightarrow> d_distance (M i j) = Infinity \<or> i = j) \<and>
     (\<forall>i \<in> N. \<forall>j \<in> N. \<forall>u. d_predecessor (M i j) = Some u \<longrightarrow> u \<in> N \<and>
        (\<exists>es e. edgeFn u = Some es \<and> e \<in> set es \<and> otherEnd u e = j \<and> d_distance (M i u) + weightFn e \<le> d_distance (M i j)))"

lemma distancesD:
  assumes "distances N edgeFn weightFn K M"
  shows "\<And>i. i \<in> N \<Longrightarrow> d_distance (M i i) = 0"
    and "\<And>i j. i \<in> N \<Longrightarrow> j \<in> N \<Longrightarrow> 0 \<le> d_distance (M i j)"
    and "\<And>i j. i \<in> N \<Longrightarrow> j \<in> N \<Longrightarrow> d_distance (M i j) \<noteq> Infinity \<Longrightarrow> walk edgeFn weightFn i j (d_distance (M i j))"
    and "\<And>i es e. i \<in> N \<Longrightarrow> edgeFn i = Some es \<Longrightarrow> e \<in> set es \<Longrightarrow> d_distance (M i (otherEnd i e)) \<le> weightFn e"
    and "\<And>k i j. k \<in> K \<Longrightarrow> i \<in> N \<Longrightarrow> j \<in> N \<Longrightarrow> d_distance (M i j) \<le> d_distance (M i k) + d_distance (M k j)"
    and "\<And>i j. i \<in> N \<Longrightarrow> j \<in> N \<Longrightarrow> d_predecessor (M i j) = None \<Longrightarrow> d_distance (M i j) = Infinity \<or> i = j"
    and "\<And>i j u. i \<in> N \<Longrightarrow> j \<in> N \<Longrightarrow> d_predecessor (M i j) = Some u \<Longrightarrow> u \<in> N \<and>
        (\<exists>es e. edgeFn u = Some es \<and> e \<in> set es \<and> otherEnd u e = j \<and> d_distance (M i u) + weightFn e \<le> d_distance (M i j))"
  using assms unfolding distances_def by blast+

lemma walk_trans: "walk edgeFn weightFn v w d \<Longrightarrow> walk edgeFn weightFn u v c \<Longrightarrow> walk edgeFn weightFn u w (c + d)"
  by (induction rule: walk.induct) (auto simp: add.assoc [symmetric] intro: walk_step)

lemma relaxed_distance:
  "d_distance (relaxed k M i j) = min (d_distance (M i j)) (d_distance (M i k) + d_distance (M k j))"
  by (auto simp: relaxed_def min_def)

text \<open>One more intermediate node.\<close>

lemma triangle_relaxed:
  fixes M :: "string \<Rightarrow> string \<Rightarrow> distEntry"
  assumes D: "distances N edgeFn weightFn K M" and k: "k \<in> N" and m: "m \<in> insert k K" and ij: "i \<in> N" "j \<in> N" and K: "K \<subseteq> N"
  shows "d_distance (relaxed k M i j) \<le> d_distance (relaxed k M i m) + d_distance (relaxed k M m j)"
proof -
  note d = distancesD [OF D]
  let ?d = "\<lambda>a b. d_distance (M a b)"
  show ?thesis
  proof (cases "m = k")
    case True
    have "?d k k = 0" using d(1) [OF k] .
    then show ?thesis using fixed_row_column [of M k] True by (simp add: relaxed_distance)
  next
    case False
    then have mK: "m \<in> K" "m \<in> N" using m K by auto
    have t: "?d i j \<le> ?d i m + ?d m j" "?d i k \<le> ?d i m + ?d m k" "?d k j \<le> ?d k m + ?d m j"
      using d(5) [OF mK(1)] ij k by auto
    have nn: "0 \<le> ?d m k" "0 \<le> ?d k m" using d(2) mK(2) k by auto
    have "min (?d i j) (?d i k + ?d k j) \<le> ?d i m + ?d m j" using t(1) by (simp add: min.coboundedI1)
    moreover have "min (?d i j) (?d i k + ?d k j) \<le> ?d i m + (?d m k + ?d k j)"
      using add_right_mono [OF t(2), of "?d k j"] by (simp add: min.coboundedI2 add.assoc)
    moreover have "min (?d i j) (?d i k + ?d k j) \<le> (?d i k + ?d k m) + ?d m j"
      using add_left_mono [OF t(3), of "?d i k"] by (simp add: min.coboundedI2 add.assoc)
    moreover have "min (?d i j) (?d i k + ?d k j) \<le> (?d i k + ?d k m) + (?d m k + ?d k j)"
      using add_mono [OF le_add_nonneg [OF nn(2), of "?d i k"] add_right_mono [OF nn(1), of "?d k j"]]
      by (simp add: min.coboundedI2)
    ultimately show ?thesis by (auto simp: relaxed_distance min_def split: if_splits)
  qed
qed

lemma predecessor_relaxed:
  assumes D: "distances N edgeFn weightFn K M" and k: "k \<in> N" and ij: "i \<in> N" "j \<in> N"
    and u: "d_predecessor (relaxed k M i j) = Some u"
  shows "u \<in> N \<and> (\<exists>es e. edgeFn u = Some es \<and> e \<in> set es \<and> otherEnd u e = j \<and>
    d_distance (relaxed k M i u) + weightFn e \<le> d_distance (relaxed k M i j))"
proof -
  note d = distancesD [OF D]
  let ?d = "\<lambda>a b. d_distance (M a b)"
  show ?thesis
  proof (cases "?d i k + ?d k j < ?d i j")
    case True
    with u have "d_predecessor (M k j) = Some u" by (simp add: relaxed_def)
    then obtain es e where e: "u \<in> N" "edgeFn u = Some es" "e \<in> set es" "otherEnd u e = j" "?d k u + weightFn e \<le> ?d k j"
      using d(7) [OF k ij(2)] by blast
    have "d_distance (relaxed k M i u) \<le> ?d i k + ?d k u" by (simp add: relaxed_distance)
    then have "d_distance (relaxed k M i u) + weightFn e \<le> (?d i k + ?d k u) + weightFn e" by (rule add_right_mono)
    also have "\<dots> \<le> ?d i k + ?d k j" using add_left_mono [OF e(5), of "?d i k"] by (simp add: add.assoc)
    finally have "d_distance (relaxed k M i u) + weightFn e \<le> ?d i k + ?d k j" .
    with True e show ?thesis by (auto simp: relaxed_distance)
  next
    case False
    with u have "d_predecessor (M i j) = Some u" by (simp add: relaxed_def)
    then obtain es e where e: "u \<in> N" "edgeFn u = Some es" "e \<in> set es" "otherEnd u e = j" "?d i u + weightFn e \<le> ?d i j"
      using d(7) [OF ij] by blast
    have "d_distance (relaxed k M i u) + weightFn e \<le> ?d i u + weightFn e"
      by (rule add_right_mono) (simp add: relaxed_distance)
    with e False show ?thesis by (auto simp: relaxed_distance)
  qed
qed

lemma distances_relaxed:
  assumes D: "distances N edgeFn weightFn K M" and k: "k \<in> N" and K: "K \<subseteq> N" and ins: "edges_inside N edgeFn"
  shows "distances N edgeFn weightFn (insert k K) (relaxed k M)"
  unfolding distances_def
proof (intro conjI ballI allI impI)
  note d = distancesD [OF D]
  let ?d = "\<lambda>a b. d_distance (M a b)"
  fix i assume i: "i \<in> N"
  show "d_distance (relaxed k M i i) = 0"
    using d(1) [OF i] d(2) [OF i k] d(2) [OF k i] add_nonneg_nonneg by (simp add: relaxed_distance min_absorb1)
  show "0 \<le> d_distance (relaxed k M i j)" if "j \<in> N" for j
    using d(2) [OF i that] d(2) [OF i k] d(2) [OF k that] by (simp add: relaxed_distance add_nonneg_nonneg)
  show "d_distance (relaxed k M i (otherEnd i e)) \<le> weightFn e" if "edgeFn i = Some es" "e \<in> set es" for es e
    using d(4) [OF i that] by (simp add: relaxed_distance min.coboundedI1)
  fix j assume j: "j \<in> N"
  show "walk edgeFn weightFn i j (d_distance (relaxed k M i j))" if fin: "d_distance (relaxed k M i j) \<noteq> Infinity"
  proof (cases "?d i k + ?d k j < ?d i j")
    case True
    then have eq: "d_distance (relaxed k M i j) = ?d i k + ?d k j" by (simp add: relaxed_distance)
    with fin have "?d i k \<noteq> Infinity" "?d k j \<noteq> Infinity" by (simp_all add: add_eq_Infinity)
    with walk_trans [OF d(3) [OF k j] d(3) [OF i k]] eq show ?thesis by simp
  next
    case False
    then have "d_distance (relaxed k M i j) = ?d i j" by (simp add: relaxed_distance)
    with fin d(3) [OF i j] show ?thesis by simp
  qed
  show "d_distance (relaxed k M i j) = Infinity \<or> i = j" if none: "d_predecessor (relaxed k M i j) = None"
  proof (cases "?d i k + ?d k j < ?d i j")
    case True
    then have "?d k j \<noteq> Infinity" by (cases "?d i k") auto
    moreover have "k \<noteq> j" using True d(1) [OF k] by auto
    ultimately have False using d(6) [OF k j] none True by (simp add: relaxed_def)
    then show ?thesis ..
  next
    case False
    then show ?thesis using d(6) [OF i j] none by (simp add: relaxed_def)
  qed
next
  show "d_distance (relaxed k M i j) \<le> d_distance (relaxed k M i m) + d_distance (relaxed k M m j)"
    if "m \<in> insert k K" "i \<in> N" "j \<in> N" for m i j
    by (rule triangle_relaxed [OF D k that K])
  fix i j u assume ij: "i \<in> N" "j \<in> N" and u: "d_predecessor (relaxed k M i j) = Some u"
  show "u \<in> N" using predecessor_relaxed [OF D k ij u] by blast
  show "\<exists>es e. edgeFn u = Some es \<and> e \<in> set es \<and> otherEnd u e = j \<and>
      d_distance (relaxed k M i u) + weightFn e \<le> d_distance (relaxed k M i j)"
    using predecessor_relaxed [OF D k ij u] by blast
qed

section \<open>The first table\<close>

text \<open>No loops at a node and no two edges with the same ends.\<close>

definition simple_edges :: "string set \<Rightarrow> (string \<Rightarrow> edgeObj list option) \<Rightarrow> bool" where
  "simple_edges N edgeFn \<longleftrightarrow> (\<forall>v \<in> N. \<forall>es. edgeFn v = Some es \<longrightarrow>
     (\<forall>e \<in> set es. otherEnd v e \<noteq> v \<and> (\<forall>e' \<in> set es. otherEnd v e' = otherEnd v e \<longrightarrow> e' = e)))"

definition rowOf :: "(edgeObj \<Rightarrow> number) \<Rightarrow> string list \<Rightarrow> string \<Rightarrow> edgeObj list \<Rightarrow> distEntry obj" where
  "rowOf weightFn vs v es = fold (fwEdge weightFn v) es
     (fold (\<lambda>w row. if v \<noteq> w then put w \<lparr>d_distance = Infinity, d_predecessor = None\<rparr> row else row) vs
       (put v \<lparr>d_distance = 0, d_predecessor = None\<rparr> []))"

lemma fwRow_rowOf: "edgeFn v = Some es \<Longrightarrow> fwRow weightFn edgeFn vs v results = Inr (put v (rowOf weightFn vs v es) results)"
  by (simp add: fwRow_def rowOf_def)

lemma empty_row:
  "get (fold (\<lambda>w row. if v \<noteq> w then put w x row else row) vs row) j = (if j \<in> set vs \<and> j \<noteq> v then Some x else get row j)"
  "set (keys (fold (\<lambda>w row. if v \<noteq> w then put w x row else row) vs row)) = set (keys row) \<union> (set vs - {v})"
  by (induction vs arbitrary: row) auto

lemma edge_row:
  "(\<exists>e \<in> set es. otherEnd v e = j \<and> get (fold (fwEdge weightFn v) es row) j = Some \<lparr>d_distance = weightFn e, d_predecessor = Some v\<rparr>) \<or>
   ((\<forall>e \<in> set es. otherEnd v e \<noteq> j) \<and> get (fold (fwEdge weightFn v) es row) j = get row j)"
proof (induction es arbitrary: row)
  case (Cons a es)
  have "get (fwEdge weightFn v a row) j =
      (if j = otherEnd v a then Some \<lparr>d_distance = weightFn a, d_predecessor = Some v\<rparr> else get row j)"
    by (simp add: fwEdge_def)
  with Cons.IH [of "fwEdge weightFn v a row"] show ?case by (auto split: if_splits)
qed simp

lemma edge_row_keys: "set (keys (fold (fwEdge weightFn v) es row)) = otherEnd v ` set es \<union> set (keys row)"
  by (induction es arbitrary: row) (auto simp: fwEdge_def)

lemma rowOf_entry:
  assumes "j \<in> set vs"
  shows "(\<exists>e \<in> set es. otherEnd v e = j \<and> get (rowOf weightFn vs v es) j = Some \<lparr>d_distance = weightFn e, d_predecessor = Some v\<rparr>) \<or>
   ((\<forall>e \<in> set es. otherEnd v e \<noteq> j) \<and>
    get (rowOf weightFn vs v es) j = Some \<lparr>d_distance = if j = v then 0 else Infinity, d_predecessor = None\<rparr>)"
proof -
  let ?row = "fold (\<lambda>w row. if v \<noteq> w then put w \<lparr>d_distance = Infinity, d_predecessor = None\<rparr> row else row) vs
       (put v \<lparr>d_distance = 0, d_predecessor = None\<rparr> [])"
  have "get ?row j = Some \<lparr>d_distance = if j = v then 0 else Infinity, d_predecessor = None\<rparr>"
    using assms by (simp add: empty_row(1))
  with edge_row [of es v j weightFn ?row] show ?thesis by (simp add: rowOf_def)
qed

lemma rowOf_keys: "v \<in> set vs \<Longrightarrow> otherEnd v ` set es \<subseteq> set vs \<Longrightarrow> set (keys (rowOf weightFn vs v es)) = set vs"
  by (auto simp: rowOf_def edge_row_keys empty_row(2))

definition firstMatrix ::
  "(edgeObj \<Rightarrow> number) \<Rightarrow> (string \<Rightarrow> edgeObj list option) \<Rightarrow> string list \<Rightarrow> string \<Rightarrow> string \<Rightarrow> distEntry" where
  "firstMatrix weightFn edgeFn vs i j = the (get (rowOf weightFn vs i (the (edgeFn i))) j)"

lemma first_table:
  assumes vs: "set vs = N" and ins: "edges_inside N edgeFn"
  shows "\<exists>results. rfold (fwRow weightFn edgeFn vs) vs [] = Inr results \<and> tabulates N (firstMatrix weightFn edgeFn vs) results"
proof -
  let ?row = "\<lambda>v. rowOf weightFn vs v (the (edgeFn v))"
  let ?P = "\<lambda>ys results. set (keys results) = set ys \<and> (\<forall>i \<in> set ys. get results i = Some (?row i))"
  have "\<exists>results. rfold (fwRow weightFn edgeFn vs) vs [] = Inr results \<and> ?P vs results"
  proof (rule rfold_prefix_invariant [where P = ?P])
    fix ys v zs results
    assume split: "vs = ys @ v # zs" and r: "?P ys results"
    have "v \<in> N" using split vs by auto
    then obtain es where "edgeFn v = Some es" using ins unfolding edges_inside_def by blast
    with fwRow_rowOf [of edgeFn v es weightFn vs results] r
    show "\<exists>results'. fwRow weightFn edgeFn vs v results = Inr results' \<and> ?P (ys @ [v]) results'" by auto
  qed simp
  then obtain results where r: "rfold (fwRow weightFn edgeFn vs) vs [] = Inr results" "?P vs results" by blast
  have "set (keys (?row i)) = N" if "i \<in> N" for i
  proof -
    obtain es where "edgeFn i = Some es" "\<forall>e \<in> set es. otherEnd i e \<in> N" using ins \<open>i \<in> N\<close> unfolding edges_inside_def by blast
    then show ?thesis using rowOf_keys [of i vs es weightFn] \<open>i \<in> N\<close> vs by auto
  qed
  then have "tabulates N (firstMatrix weightFn edgeFn vs) results"
    using r(2) vs key_get by (fastforce simp: tabulates_def firstMatrix_def)
  with r(1) show ?thesis by blast
qed

lemma first_distances:
  assumes vs: "set vs = N" and ins: "edges_inside N edgeFn" and simple: "simple_edges N edgeFn" and w: "weights_ok N edgeFn weightFn"
  shows "distances N edgeFn weightFn {} (firstMatrix weightFn edgeFn vs)"
proof -
  let ?M = "firstMatrix weightFn edgeFn vs"
  have entry: "(\<exists>es e. edgeFn i = Some es \<and> e \<in> set es \<and> otherEnd i e = j \<and> i \<noteq> j \<and> 0 \<le> weightFn e \<and>
       ?M i j = \<lparr>d_distance = weightFn e, d_predecessor = Some i\<rparr>) \<or>
     ((\<forall>es. edgeFn i = Some es \<longrightarrow> (\<forall>e \<in> set es. otherEnd i e \<noteq> j)) \<and>
       ?M i j = \<lparr>d_distance = if j = i then 0 else Infinity, d_predecessor = None\<rparr>)"
    if i: "i \<in> N" and j: "j \<in> N" for i j
  proof -
    obtain es where es: "edgeFn i = Some es" using ins i unfolding edges_inside_def by blast
    have "0 \<le> weightFn e" "otherEnd i e \<noteq> i" if "e \<in> set es" for e
      using w simple i es that unfolding weights_ok_def simple_edges_def by blast+
    with rowOf_entry [of j vs es i weightFn] es vs j show ?thesis by (auto simp: firstMatrix_def)
  qed
  show ?thesis
    unfolding distances_def
  proof (intro conjI ballI allI impI)
    fix i assume i: "i \<in> N"
    show "d_distance (?M i i) = 0" using entry [OF i i] by auto
    show "0 \<le> d_distance (?M i j)" if "j \<in> N" for j using entry [OF i that] by auto
    show "d_distance (?M i (otherEnd i e)) \<le> weightFn e" if e: "edgeFn i = Some es" "e \<in> set es" for es e
    proof -
      have "otherEnd i e \<in> N" using ins i e unfolding edges_inside_def by auto
      from entry [OF i this] show ?thesis using simple i e unfolding simple_edges_def by fastforce
    qed
    fix j assume j: "j \<in> N"
    show "walk edgeFn weightFn i j (d_distance (?M i j))" if "d_distance (?M i j) \<noteq> Infinity"
      using entry [OF i j] that walk_step [OF walk_start, of edgeFn i] by (auto split: if_splits intro: walk_start)
    show "d_distance (?M i j) = Infinity \<or> i = j" if "d_predecessor (?M i j) = None" using entry [OF i j] that by auto
  next
    fix i j u assume ij: "i \<in> N" "j \<in> N" and u: "d_predecessor (?M i j) = Some u"
    obtain es e where e: "edgeFn i = Some es" "e \<in> set es" "otherEnd i e = j" "?M i j = \<lparr>d_distance = weightFn e, d_predecessor = Some i\<rparr>"
      using entry [OF ij] u by auto
    then have ui: "u = i" using u by simp
    show "u \<in> N" using ui ij by simp
    have "d_distance (?M i i) = 0" using entry [OF ij(1,1)] by auto
    with e ui show "\<exists>es e. edgeFn u = Some es \<and> e \<in> set es \<and> otherEnd u e = j \<and> d_distance (?M i u) + weightFn e \<le> d_distance (?M i j)"
      by auto
  qed simp_all
qed

section \<open>Correctness\<close>

lemma distances_shortest:
  assumes t: "tabulates N M results" and D: "distances N edgeFn weightFn N M" and ins: "edges_inside N edgeFn" and s: "s \<in> N"
  shows "\<exists>row. get results s = Some row \<and> shortest N edgeFn weightFn s row"
proof -
  note d = distancesD [OF D]
  let ?d = "\<lambda>a b. d_distance (M a b)"
  obtain row where row: "get results s = Some row" "set (keys row) = N" "\<And>j. j \<in> N \<Longrightarrow> get row j = Some (M s j)"
    using tabulatesD [OF t s] by metis
  have r: "dist row v = ?d s v" "pred_of row v = d_predecessor (M s v)" if "v \<in> N" for v
    using row(3) [OF that] by (simp_all add: dist_def pred_of_def)
  have step: "?d s (otherEnd u e) \<le> ?d s u + weightFn e" "otherEnd u e \<in> N" if u: "u \<in> N" "edgeFn u = Some es" "e \<in> set es" for u es e
  proof -
    show v: "otherEnd u e \<in> N" using ins u unfolding edges_inside_def by auto
    show "?d s (otherEnd u e) \<le> ?d s u + weightFn e"
      using d(5) [OF u(1) s v] add_left_mono [OF d(4) [OF u], of "?d s u"] by (rule order_trans)
  qed
  have least: "v \<in> N \<and> ?d s v \<le> c" if "walk edgeFn weightFn s v c" for v c
    using that
  proof (induction rule: walk.induct)
    case walk_start
    then show ?case using d(1) [OF s] s by simp
  next
    case (walk_step u c es e)
    then have "?d s u + weightFn e \<le> c + weightFn e" by (simp add: add_right_mono)
    with step [of u es e] walk_step show ?case by (auto intro: order_trans)
  qed
  have "shortest N edgeFn weightFn s row"
    unfolding shortest_def
  proof (intro conjI ballI allI impI)
    show "set (keys row) = N" by (rule row(2))
    fix v assume v: "v \<in> N"
    show "dist row v \<le> c" if "walk edgeFn weightFn s v c" for c using least [OF that] r(1) [OF v] by simp
    show "walk edgeFn weightFn s v (dist row v)" if "dist row v \<noteq> Infinity" using d(3) [OF s v] that r(1) [OF v] by simp
    show "dist row v = Infinity \<or> v = s" if "pred_of row v = None" using d(6) [OF s v] that r [OF v] by auto
    fix u assume u: "pred_of row v = Some u"
    then obtain es e where e: "u \<in> N" "edgeFn u = Some es" "e \<in> set es" "otherEnd u e = v" "?d s u + weightFn e \<le> ?d s v"
      using d(7) [OF s v] r(2) [OF v] by auto
    show "u \<in> N" by (rule e(1))
    have "?d s v = ?d s u + weightFn e" using step(1) [OF e(1-3)] e(4,5) by simp
    with e r [OF v] r [OF e(1)] show "\<exists>es e. edgeFn u = Some es \<and> e \<in> set es \<and> otherEnd u e = v \<and> dist row v = dist row u + weightFn e"
      by auto
  qed
  with row(1) show ?thesis by blast
qed

lemma runFloydWarshall_ok:
  fixes g :: "('g, 'n, 'e) Graph"
  assumes ok: "graph_ok g" and ins: "edges_inside (node_set g) edgeFn" and simple: "simple_edges (node_set g) edgeFn"
    and w: "weights_ok (node_set g) edgeFn weightFn"
  shows "\<exists>rs. runFloydWarshall g weightFn edgeFn = Inr rs \<and> set (keys rs) = node_set g \<and>
    (\<forall>s \<in> node_set g. \<exists>r. get rs s = Some r \<and> shortest (node_set g) edgeFn weightFn s r)"
proof -
  let ?N = "node_set g"
  have vs: "set (nodes g) = ?N" "distinct (nodes g)" using nodes_set distinct_nodes [OF ok] by auto
  obtain rs0 where rs0: "rfold (fwRow weightFn edgeFn (nodes g)) (nodes g) [] = Inr rs0"
    "tabulates ?N (firstMatrix weightFn edgeFn (nodes g)) rs0"
    using first_table [OF vs(1) ins] by blast
  let ?P = "\<lambda>ys rs. \<exists>M. tabulates ?N M rs \<and> distances ?N edgeFn weightFn (set ys) M"
  have "\<exists>rs. rfold (\<lambda>k. rfold (\<lambda>i. rfold (fwRelax k i) (nodes g)) (nodes g)) (nodes g) rs0 = Inr rs \<and> ?P (nodes g) rs"
  proof (rule rfold_prefix_invariant [where P = ?P])
    show "?P [] rs0" using rs0(2) first_distances [OF vs(1) ins simple w] by auto
  next
    fix ys k zs rs
    assume split: "nodes g = ys @ k # zs" and "?P ys rs"
    then obtain M where M: "tabulates ?N M rs" "distances ?N edgeFn weightFn (set ys) M" by blast
    have k: "k \<in> ?N" "set ys \<subseteq> ?N" using split vs(1) by auto
    obtain rs' where "rfold (\<lambda>i. rfold (fwRelax k i) (nodes g)) (nodes g) rs = Inr rs'" "tabulates ?N (relaxed k M) rs'"
      using relax_turn_ok [OF M(1) k(1) distancesD(1) [OF M(2) k(1)] vs] by blast
    with distances_relaxed [OF M(2) k ins]
    show "\<exists>rs'. rfold (\<lambda>i. rfold (fwRelax k i) (nodes g)) (nodes g) rs = Inr rs' \<and> ?P (ys @ [k]) rs'" by auto
  qed
  then obtain rs M where "runFloydWarshall g weightFn edgeFn = Inr rs" "tabulates ?N M rs" "distances ?N edgeFn weightFn ?N M"
    using rs0(1) vs(1) by (auto simp: runFloydWarshall_def)
  with distances_shortest [OF _ _ ins] show ?thesis by (auto simp: tabulates_def)
qed

lemma simple_outEdges:
  fixes g :: "('g, 'n, 'e) Graph"
  assumes "graph_ok g" "\<not> isMultigraph g" "\<forall>e \<in> set (edges g). e_v e \<noteq> e_w e"
  shows "simple_edges (node_set g) (\<lambda>v. outEdges v None g)"
  unfolding simple_edges_def
proof (intro ballI allI impI)
  fix v es assume v: "v \<in> node_set g" and es: "outEdges v None g = Some es"
  then have in_es: "\<And>x. x \<in> set es \<Longrightarrow> x \<in> set (edges g) \<and> e_v x = v \<and> e_name x = None"
    using outEdges_spec [OF assms(1) v] edges_shape [OF assms(1)] assms(2) by (auto simp: edge_ok_def isMultigraph_def)
  fix e assume e: "e \<in> set es"
  show "otherEnd v e \<noteq> v \<and> (\<forall>e' \<in> set es. otherEnd v e' = otherEnd v e \<longrightarrow> e' = e)"
    using in_es e assms(3) by (auto simp: otherEnd_def intro!: edgeObj.equality)
qed

lemma shortest_dist_unique:
  assumes "shortest N edgeFn weightFn s r" "shortest N edgeFn weightFn s r'" "v \<in> N"
  shows "dist r v = dist r' v"
proof -
  have "dist r v \<le> dist r' v" if r: "shortest N edgeFn weightFn s r" "shortest N edgeFn weightFn s r'" for r r'
  proof (cases "dist r' v = Infinity")
    case False
    with r(2) assms(3) have "walk edgeFn weightFn s v (dist r' v)" unfolding shortest_def by blast
    with r(1) assms(3) show ?thesis unfolding shortest_def by blast
  qed simp
  from this [OF assms(1,2)] this [OF assms(2,1)] show ?thesis by (rule antisym)
qed

text \<open>C34. On a consistent graph without parallel edges and self loops, with weights that are not negative,
  \<open>floydWarshall\<close> returns a table in which every row holds shortest walks with their last steps, and its
  distances are the ones \<open>dijkstraAll\<close> finds.\<close>

theorem floydWarshall_agrees_with_dijkstraAll:
  fixes g :: "('g, 'n, 'e) Graph"
  assumes "graph_ok g" "\<not> isMultigraph g" "\<forall>e \<in> set (edges g). e_v e \<noteq> e_w e" "\<forall>e \<in> set (edges g). 0 \<le> weightFn e"
  shows "\<exists>fs ds. floydWarshall g (Some weightFn) None = Inr fs \<and> dijkstraAll g (Some weightFn) None = Inr ds \<and>
    set (keys fs) = node_set g \<and> set (keys ds) = node_set g \<and>
    (\<forall>v \<in> node_set g. \<exists>r r'. get fs v = Some r \<and> get ds v = Some r' \<and>
       shortest (node_set g) (\<lambda>v. outEdges v None g) weightFn v r \<and> (\<forall>w \<in> node_set g. dist r w = dist r' w))"
proof -
  have w: "weights_ok (node_set g) (\<lambda>v. outEdges v None g) weightFn"
    using outEdges_spec [OF assms(1)] assms(4) unfolding weights_ok_def by fastforce
  let ?short = "shortest (node_set g) (\<lambda>v. outEdges v None g) weightFn"
  obtain fs where fs: "floydWarshall g (Some weightFn) None = Inr fs" "set (keys fs) = node_set g"
    "\<forall>v \<in> node_set g. \<exists>r. get fs v = Some r \<and> ?short v r"
    using runFloydWarshall_ok [OF assms(1) outEdges_inside [OF assms(1)] simple_outEdges [OF assms(1-3)] w]
    by (auto simp: floydWarshall_def)
  obtain ds where ds: "dijkstraAll g (Some weightFn) None = Inr ds" "set (keys ds) = node_set g"
    "\<forall>v \<in> node_set g. \<exists>r. get ds v = Some r \<and> ?short v r"
    using dijkstraAll_ok [of g "Some weightFn" None ?short] dijkstra_ok [OF assms(1) _ assms(4)] by blast
  have "\<exists>r r'. get fs v = Some r \<and> get ds v = Some r' \<and> ?short v r \<and> (\<forall>w \<in> node_set g. dist r w = dist r' w)"
    if v: "v \<in> node_set g" for v
  proof -
    obtain r r' where r: "get fs v = Some r" "?short v r" "get ds v = Some r'" "?short v r'" using fs(3) ds(3) v by blast
    then have "dist r w = dist r' w" if "w \<in> node_set g" for w using shortest_dist_unique that by blast
    with r show ?thesis by blast
  qed
  with fs ds show ?thesis by blast
qed

theorem floydWarshall_agrees_with_dijkstraAll_witness:
  "\<exists>g fs ds. setEdge ''a'' ''b'' None None (newGraph None None None :: (int, int, int) Graph) = Inr g \<and>
     floydWarshall g (Some (\<lambda>e. Fin 2)) None = Inr fs \<and> dijkstraAll g (Some (\<lambda>e. Fin 2)) None = Inr ds \<and>
     ''b'' \<in> set (keys fs)"
proof -
  let ?g0 = "newGraph None None None :: (int, int, int) Graph"
  have "clean_graph ?g0" "\<not> f_isCompound ?g0" by (simp_all add: clean_graph_def newGraph_def edges_def)
  with setEdge_refines [of ?g0 "''a''" "''b''" None None, OF graph_ok_new] obtain g where
    g: "setEdge ''a'' ''b'' None None ?g0 = Inr g" "graph_ok g" "''b'' \<in> node_set g" "same_flags ?g0 g"
    "abs_edges g = (abs_edges ?g0)(edgeArgsToObj True ''a'' ''b'' None \<mapsto> f_defaultEdgeLabelFn ?g0 ''a'' ''b'' None)"
    by (auto simp: clean_def clean_name_def newGraph_def abs_edges_def edges_def)
  have "set (edges g) = {edgeArgsToObj True ''a'' ''b'' None}"
  proof -
    have "dom (abs_edges ?g0) = {}" using dom_abs_edges [OF graph_ok_new, of None None None] by (simp add: newGraph_def edges_def)
    with dom_abs_edges [OF g(2)] g(5) show ?thesis by simp
  qed
  then have "\<forall>e \<in> set (edges g). e_v e \<noteq> e_w e" "\<forall>e \<in> set (edges g). 0 \<le> Fin 2"
    by (simp_all add: edgeArgsToObj_def zero_number_def)
  moreover have "\<not> isMultigraph g" using g(4) by (simp add: isMultigraph_def same_flags_def newGraph_def)
  ultimately show ?thesis using floydWarshall_agrees_with_dijkstraAll [OF g(2), of "\<lambda>e. Fin 2"] g by auto
qed

section \<open>Self loops\<close>

text \<open>The entry of a node for itself is overwritten by a self loop, so its distance is the weight of the loop although
  the empty walk is shorter.\<close>

lemma floydWarshall_self_loop:
  "(case setEdge ''a'' ''a'' None None (newGraph None None None :: (int, int, int) Graph) of
      Inr g \<Rightarrow> (case floydWarshall g None None of
        Inr fs \<Rightarrow> map_option (\<lambda>r. dist r ''a'') (get fs ''a'') = Some (Fin 1) | _ \<Rightarrow> False) | _ \<Rightarrow> False)"
  by code_simp

end
