(* ===== verification/Graphlib_Traverse.thy ===== *)
theory Graphlib_Traverse
  imports Graphlib_Spec
begin

text \<open>
  The traversals of graphlib (\<open>lib/alg\<close>): \<open>dfs\<close> with \<open>preorder\<close> and \<open>postorder\<close>, and \<open>components\<close>. The
  recursive visits of the source are recursive here too; the first argument bounds the depth of the
  recursion, which is never more than the number of nodes, and the theorems show that the bound the
  callers pass is enough. What the visits share (every node is entered once, the marked nodes are closed
  under the navigation) is proved once, in the locale \<open>marking\<close>, and interpreted on both.
\<close>

section \<open>The visits\<close>

text \<open>\<open>_.each\<close> over a list that may be \<open>undefined\<close>.\<close>

definition each :: "'a list option \<Rightarrow> 'a list" where
  "each ws = (case ws of Some l \<Rightarrow> l | None \<Rightarrow> [])"

type_synonym dfsState = "bool obj \<times> string list"

fun doDfs :: "nat \<Rightarrow> (string \<Rightarrow> string list option) \<Rightarrow> bool \<Rightarrow> string \<Rightarrow> dfsState \<Rightarrow> dfsState result" where
  "doDfs 0 navigation postorder v st = Inl Diverges"
| "doDfs (Suc n) navigation postorder v st =
     (case st of (visited, acc) \<Rightarrow>
      if \<not> has visited v then
        rbind (rfold (doDfs n navigation postorder) (each (navigation v))
                 (put v True visited, if \<not> postorder then acc @ [v] else acc)) (\<lambda>(visited', acc').
          Inr (visited', if postorder then acc' @ [v] else acc'))
      else Inr (visited, acc))"

definition dfsRoot :: "('g, 'n, 'e) Graph \<Rightarrow> string \<Rightarrow> string \<Rightarrow> dfsState \<Rightarrow> dfsState result" where
  "dfsRoot g order v st =
     (if \<not> hasNode v g then Inl (Error (''Graph does not have node: '' @ v))
      else doDfs (length (nodes g) + 1) (\<lambda>v. if isDirected g then successors v g else neighbors v g)
             (order = ''post'') v st)"

definition dfs :: "('g, 'n, 'e) Graph \<Rightarrow> string list \<Rightarrow> string \<Rightarrow> string list result" where
  "dfs g vs order = rbind (rfold (dfsRoot g order) vs ([], [])) (\<lambda>(visited, acc). Inr acc)"

definition postorder :: "('g, 'n, 'e) Graph \<Rightarrow> string list \<Rightarrow> string list result" where
  "postorder g vs = dfs g vs ''post''"

definition preorder :: "('g, 'n, 'e) Graph \<Rightarrow> string list \<Rightarrow> string list result" where
  "preorder g vs = dfs g vs ''pre''"

text \<open>The local \<open>dfs\<close> of \<open>components\<close>; its state is \<open>visited\<close> and the component being collected.\<close>

fun componentDfs :: "nat \<Rightarrow> ('g, 'n, 'e) Graph \<Rightarrow> string \<Rightarrow> dfsState \<Rightarrow> dfsState result" where
  "componentDfs 0 g v st = Inl Diverges"
| "componentDfs (Suc n) g v st =
     (case st of (visited, cmpt) \<Rightarrow>
      if has visited v then Inr (visited, cmpt)
      else
        rbind (rfold (componentDfs n g) (each (successors v g)) (put v True visited, cmpt @ [v])) (\<lambda>st1.
          rfold (componentDfs n g) (each (predecessors v g)) st1))"

definition componentRoot ::
  "('g, 'n, 'e) Graph \<Rightarrow> string \<Rightarrow> bool obj \<times> string list list \<Rightarrow> (bool obj \<times> string list list) result" where
  "componentRoot g v st =
     rbind (componentDfs (length (nodes g) + 1) g v (fst st, [])) (\<lambda>(visited, cmpt).
       Inr (visited, if cmpt \<noteq> [] then snd st @ [cmpt] else snd st))"

definition components :: "('g, 'n, 'e) Graph \<Rightarrow> string list list result" where
  "components g = rbind (rfold (componentRoot g) (nodes g) ([], [])) (\<lambda>(visited, cmpts). Inr cmpts)"

section \<open>Marking visits\<close>

text \<open>
  A visit that marks a node on entry, visits what the navigation offers and leaves. \<open>out\<close> is the list the
  visit appends to, on entry or on leaving.
\<close>

locale marking =
  fixes visit :: "nat \<Rightarrow> string \<Rightarrow> 's \<Rightarrow> 's result"
    and nav :: "string \<Rightarrow> string list"
    and marks :: "'s \<Rightarrow> string set"
    and out :: "'s \<Rightarrow> string list"
    and enter leave :: "string \<Rightarrow> 's \<Rightarrow> 's"
    and onEntry :: bool
  assumes visit_Suc: "visit (Suc n) v s =
      (if v \<in> marks s then Inr s else rbind (rfold (visit n) (nav v) (enter v s)) (\<lambda>s'. Inr (leave v s')))"
    and marks: "marks (enter v s) = insert v (marks s)" "marks (leave v s) = marks s"
    and out: "out (enter v s) = out s @ (if onEntry then [v] else [])"
      "out (leave v s) = out s @ (if onEntry then [] else [v])"
begin

definition navigable :: "string set \<Rightarrow> bool" where
  "navigable N \<longleftrightarrow> finite N \<and> (\<forall>v \<in> N. set (nav v) \<subseteq> N)"

definition reach :: "(string \<times> string) set" where
  "reach = {(v, w). w \<in> set (nav v)}\<^sup>*"

text \<open>What a visit of the nodes of a list achieves.\<close>

definition visited_from :: "string set \<Rightarrow> string list \<Rightarrow> 's \<Rightarrow> 's \<Rightarrow> bool" where
  "visited_from N vs s s' \<longleftrightarrow> marks s \<union> set vs \<subseteq> marks s' \<and> marks s' \<subseteq> N \<and>
     marks s' - marks s \<subseteq> reach `` set vs \<and>
     (\<forall>x \<in> marks s' - marks s. set (nav x) \<subseteq> marks s') \<and>
     (\<exists>new. out s' = out s @ new \<and> distinct new \<and> set new = marks s' - marks s)"

lemma reach_step: "w \<in> set (nav v) \<Longrightarrow> reach `` {w} \<subseteq> reach `` {v}"
  by (auto simp: reach_def intro: converse_rtrancl_into_rtrancl)

lemma visited_from_Nil: "marks s \<subseteq> N \<Longrightarrow> visited_from N [] s s"
  by (auto simp: visited_from_def)

lemma visited_fromI:
  assumes "marks s \<union> set vs \<subseteq> marks s'" "marks s' \<subseteq> N" "marks s' - marks s \<subseteq> reach `` set vs"
    and "\<And>x. x \<in> marks s' - marks s \<Longrightarrow> set (nav x) \<subseteq> marks s'"
    and "\<exists>new. out s' = out s @ new \<and> distinct new \<and> set new = marks s' - marks s"
  shows "visited_from N vs s s'"
  using assms unfolding visited_from_def by blast

lemma visited_fromD:
  assumes "visited_from N vs s s'"
  shows "marks s \<subseteq> marks s'" "set vs \<subseteq> marks s'" "marks s' \<subseteq> N" "marks s' - marks s \<subseteq> reach `` set vs"
    and "\<And>x. x \<in> marks s' - marks s \<Longrightarrow> set (nav x) \<subseteq> marks s'"
    and "\<exists>new. out s' = out s @ new \<and> distinct new \<and> set new = marks s' - marks s"
  using assms unfolding visited_from_def by blast+

lemma visited_from_append:
  assumes "visited_from N vs s s1" "visited_from N ws s1 s2"
  shows "visited_from N (vs @ ws) s s2"
proof -
  note A = visited_fromD [OF assms(1)] and B = visited_fromD [OF assms(2)]
  obtain n1 n2 where n: "out s1 = out s @ n1" "distinct n1" "set n1 = marks s1 - marks s"
    "out s2 = out s1 @ n2" "distinct n2" "set n2 = marks s2 - marks s1" using A(6) B(6) by blast
  then have "out s2 = out s @ (n1 @ n2)" "distinct (n1 @ n2)" "set (n1 @ n2) = marks s2 - marks s"
    using A(1) B(1) by auto
  then have "\<exists>new. out s2 = out s @ new \<and> distinct new \<and> set new = marks s2 - marks s" by blast
  moreover have "set (nav x) \<subseteq> marks s2" if "x \<in> marks s2 - marks s" for x
    using A(5) [of x] B(5) [of x] B(1) that by (cases "x \<in> marks s1") auto
  moreover have "marks s2 - marks s \<subseteq> reach `` set (vs @ ws)" using A(4) B(4) by (auto simp: Image_Un)
  ultimately show ?thesis using A(1,2) B(1-3) by (intro visited_fromI) auto
qed

lemma visited_from_enter:
  assumes v: "v \<in> N" "v \<notin> marks s" and w: "visited_from N (nav v) (enter v s) s1"
  shows "visited_from N [v] s (leave v s1)"
proof -
  obtain new where new: "out s1 = out (enter v s) @ new" "distinct new" "set new = marks s1 - insert v (marks s)"
    using w by (auto simp: visited_from_def marks)
  let ?new = "(if onEntry then [v] else []) @ new @ (if onEntry then [] else [v])"
  have "v \<in> marks s1" using w by (auto simp: visited_from_def marks)
  then have "out (leave v s1) = out s @ ?new" "distinct ?new" "set ?new = marks s1 - marks s"
    using new v by (auto simp: out)
  then have o: "\<exists>new. out (leave v s1) = out s @ new \<and> distinct new \<and> set new = marks s1 - marks s" by blast
  have sub: "insert v (marks s) \<subseteq> marks s1" "set (nav v) \<subseteq> marks s1" "marks s1 \<subseteq> N"
    and c: "\<And>x. x \<in> marks s1 - insert v (marks s) \<Longrightarrow> set (nav x) \<subseteq> marks s1"
    and r: "marks s1 - insert v (marks s) \<subseteq> reach `` set (nav v)"
    using w by (simp_all add: visited_from_def marks)
  have "reach `` set (nav v) \<subseteq> reach `` {v}" using reach_step [of _ v] by auto
  with r have "marks s1 - marks s \<subseteq> reach `` {v}" by (auto simp: reach_def)
  moreover have "set (nav x) \<subseteq> marks s1" if "x \<in> marks s1 - marks s" for x
    using c [of x] sub(2) that by (cases "x = v") auto
  ultimately show ?thesis using sub by (intro visited_fromI) (auto simp: marks intro: o)
qed

lemma visit_ok:
  assumes nav: "navigable N" and "v \<in> N" "marks s \<subseteq> N" "card (N - marks s) < n"
  shows "\<exists>s'. visit n v s = Inr s' \<and> visited_from N [v] s s'"
  using assms(2-)
proof (induction n arbitrary: v s)
  case (Suc n)
  show ?case
  proof (cases "v \<in> marks s")
    case True
    with Suc.prems show ?thesis by (auto simp: visit_Suc visited_from_def)
  next
    case False
    have "card (N - insert v (marks s)) < card (N - marks s)"
      using Suc.prems(1) False nav by (intro psubset_card_mono) (auto simp: navigable_def)
    with Suc.prems(3) have less: "card (N - insert v (marks s)) < n" by simp
    let ?P = "\<lambda>ws s1. visited_from N ws (enter v s) s1"
    have "\<exists>s1. rfold (visit n) (nav v) (enter v s) = Inr s1 \<and> ?P (nav v) s1"
    proof (rule rfold_prefix_invariant [where P = ?P])
      show "?P [] (enter v s)" using Suc.prems by (intro visited_from_Nil) (simp add: marks)
    next
      fix ys w zs s1
      assume split: "nav v = ys @ w # zs" and P: "?P ys s1"
      have w: "w \<in> N" using nav Suc.prems(1) split by (auto simp: navigable_def)
      have m: "marks s1 \<subseteq> N" "N - marks s1 \<subseteq> N - insert v (marks s)" using P by (auto simp: visited_from_def marks)
      with less nav have "card (N - marks s1) < n" by (meson card_mono finite_Diff le_less_trans navigable_def)
      with Suc.IH [OF w m(1)] obtain s2 where "visit n w s1 = Inr s2" "visited_from N [w] s1 s2" by blast
      with visited_from_append [OF P] show "\<exists>s'. visit n w s1 = Inr s' \<and> ?P (ys @ [w]) s'" by blast
    qed
    then obtain s1 where s1: "rfold (visit n) (nav v) (enter v s) = Inr s1" "?P (nav v) s1" by blast
    with visited_from_enter [OF Suc.prems(1) False] False show ?thesis by (auto simp: visit_Suc)
  qed
qed simp

lemma visit_all_ok:
  assumes nav: "navigable N" and vs: "set vs \<subseteq> N" and "marks s \<subseteq> N" "card N < n"
  shows "\<exists>s'. rfold (visit n) vs s = Inr s' \<and> visited_from N vs s s'"
proof (rule rfold_prefix_invariant [where P = "\<lambda>ws s1. visited_from N ws s s1"])
  show "visited_from N [] s s" using assms(3) by (rule visited_from_Nil)
next
  fix ys w zs s1
  assume split: "vs = ys @ w # zs" and P: "visited_from N ys s s1"
  then have w: "w \<in> N" and m: "marks s1 \<subseteq> N" using vs by (auto simp: visited_from_def)
  have "card (N - marks s1) < n" using assms(4) nav card_mono [of N "N - marks s1"] by (auto simp: navigable_def)
  with visit_ok [OF nav w m] visited_from_append [OF P]
  show "\<exists>s'. visit n w s1 = Inr s' \<and> visited_from N (ys @ [w]) s s'" by blast
qed

text \<open>Marks that are closed stay closed, and from closed marks a visit marks what can be reached.\<close>

definition closed :: "'s \<Rightarrow> bool" where
  "closed s \<longleftrightarrow> (\<forall>x \<in> marks s. set (nav x) \<subseteq> marks s)"

lemma closed_reach: "closed s \<Longrightarrow> x \<in> marks s \<Longrightarrow> (x, y) \<in> reach \<Longrightarrow> y \<in> marks s"
  unfolding reach_def by (erule rtrancl_induct) (auto simp: closed_def)

lemma visited_from_closed:
  assumes "visited_from N vs s s'" "closed s"
  shows "closed s'" "marks s' = marks s \<union> reach `` set vs"
proof -
  show c: "closed s'" using assms unfolding closed_def visited_from_def by blast
  show "marks s' = marks s \<union> reach `` set vs"
    using assms(1) closed_reach [OF c] by (auto simp: visited_from_def)
qed

end

interpretation dfsv: marking "\<lambda>n. doDfs n navigation post" "\<lambda>v. each (navigation v)"
  "\<lambda>st. set (keys (fst st))" snd
  "\<lambda>v st. (put v True (fst st), if \<not> post then snd st @ [v] else snd st)"
  "\<lambda>v st. (fst st, if post then snd st @ [v] else snd st)" "\<not> post"
  for navigation post
  by unfold_locales (auto simp: has_iff split_def)

definition linked :: "('g, 'n, 'e) Graph \<Rightarrow> string \<Rightarrow> string list" where
  "linked g v = each (successors v g) @ each (predecessors v g)"

interpretation cmp: marking "\<lambda>n. componentDfs n g" "linked g"
  "\<lambda>st. set (keys (fst st))" snd "\<lambda>v st. (put v True (fst st), snd st @ [v])" "\<lambda>v st. st" True
  for g
proof unfold_locales
  fix n v and st :: dfsState
  show "componentDfs (Suc n) g v st =
    (if v \<in> set (keys (fst st)) then Inr st
     else rbind (rfold (componentDfs n g) (linked g v)
            (put v True (fst st), snd st @ [v])) (\<lambda>s'. Inr s'))"
    by (cases st) (auto simp: linked_def has_iff rfold_append rbind_assoc rbind_def split: sum.splits)
qed auto

section \<open>What the traversals return\<close>

text \<open>The arcs of a graph: of an undirected one both ways.\<close>

definition arcs :: "('g, 'n, 'e) Graph \<Rightarrow> (string \<times> string) set" where
  "arcs g = {(e_v e, e_w e) | e. e \<in> set (edges g)}"

definition links :: "('g, 'n, 'e) Graph \<Rightarrow> (string \<times> string) set" where
  "links g = arcs g \<union> (arcs g)\<inverse>"

definition nav_arcs :: "('g, 'n, 'e) Graph \<Rightarrow> (string \<times> string) set" where
  "nav_arcs g = (if isDirected g then arcs g else links g)"

lemma arcs_nodes: "graph_ok g \<Longrightarrow> (v, w) \<in> arcs g \<Longrightarrow> v \<in> node_set g \<and> w \<in> node_set g"
  using edges_ends by (auto simp: arcs_def)

lemma each_successors:
  fixes g :: "('g, 'n, 'e) Graph"
  assumes "graph_ok g"
  shows "w \<in> set (each (successors v g)) \<longleftrightarrow> (v, w) \<in> arcs g"
proof (cases "v \<in> node_set g")
  case True
  with successors_spec [OF assms] show ?thesis by (force simp: each_def arcs_def)
next
  case False
  then have "get (f_sucs g) v = None"
    using tables_okD(4) [OF graph_okD(3) [OF assms]] by (simp add: adj_ok_def get_None_iff)
  with False arcs_nodes [OF assms] show ?thesis by (auto simp: each_def successors_def)
qed

lemma each_predecessors:
  fixes g :: "('g, 'n, 'e) Graph"
  assumes "graph_ok g"
  shows "w \<in> set (each (predecessors v g)) \<longleftrightarrow> (w, v) \<in> arcs g"
proof (cases "v \<in> node_set g")
  case True
  with predecessors_spec [OF assms] show ?thesis by (force simp: each_def arcs_def)
next
  case False
  then have "get (f_preds g) v = None"
    using tables_okD(2) [OF graph_okD(3) [OF assms]] by (simp add: adj_ok_def get_None_iff)
  with False arcs_nodes [OF assms] show ?thesis by (auto simp: each_def predecessors_def)
qed

lemma each_neighbors:
  fixes g :: "('g, 'n, 'e) Graph"
  assumes "graph_ok g"
  shows "w \<in> set (each (neighbors v g)) \<longleftrightarrow> (v, w) \<in> links g"
proof -
  show ?thesis
  proof (cases "predecessors v g")
    case None
    then have "v \<notin> node_set g" using predecessors_spec [OF assms, of v] by auto
    then have "(v, w) \<notin> links g" using arcs_nodes [OF assms] by (auto simp: links_def)
    with None show ?thesis by (simp add: neighbors_def each_def)
  next
    case (Some ps)
    then have "set (each (neighbors v g)) = set (each (predecessors v g)) \<union> set (each (successors v g))"
      by (auto simp: neighbors_def each_def set_union_first split: option.splits)
    then show ?thesis using each_successors [OF assms] each_predecessors [OF assms] by (auto simp: links_def)
  qed
qed

lemma navigation_arcs:
  fixes g :: "('g, 'n, 'e) Graph"
  assumes "graph_ok g"
  shows "w \<in> set (each (if isDirected g then successors v g else neighbors v g)) \<longleftrightarrow> (v, w) \<in> nav_arcs g"
  using each_successors [OF assms] each_neighbors [OF assms] by (simp add: nav_arcs_def)

lemma nav_arcs_nodes: "graph_ok g \<Longrightarrow> (v, w) \<in> nav_arcs g \<Longrightarrow> v \<in> node_set g \<and> w \<in> node_set g"
  using arcs_nodes by (auto simp: nav_arcs_def links_def split: if_splits)

lemma card_nodes:
  fixes g :: "('g, 'n, 'e) Graph"
  shows "graph_ok g \<Longrightarrow> card (node_set g) < length (nodes g) + 1"
  using distinct_card [OF distinct_nodes [of g]] by (simp add: nodes_set)

lemma dfs_ok:
  fixes g :: "('g, 'n, 'e) Graph"
  assumes ok: "graph_ok g" and vs: "set vs \<subseteq> node_set g"
  shows "\<exists>visited acc. rfold (dfsRoot g order) vs ([], []) = Inr (visited, acc) \<and>
    distinct acc \<and> set acc = (nav_arcs g)\<^sup>* `` set vs"
proof -
  let ?nav = "\<lambda>v. if isDirected g then successors v g else neighbors v g" and ?post = "order = ''post''"
  have r: "dfsv.reach ?nav = (nav_arcs g)\<^sup>*" by (simp add: dfsv.reach_def navigation_arcs [OF ok])
  have nav: "dfsv.navigable ?nav (node_set g)"
    using navigation_arcs [OF ok] nav_arcs_nodes [OF ok]
    by (auto simp: dfsv.navigable_def node_set_def simp del: if_split)
  obtain st where st: "rfold (doDfs (length (nodes g) + 1) ?nav ?post) vs ([], []) = Inr st"
    "dfsv.visited_from ?nav (node_set g) vs ([], []) st"
    using dfsv.visit_all_ok [OF nav vs, where s = "([], [])" and n = "length (nodes g) + 1" and post = ?post]
      card_nodes [OF ok] by auto
  have "dfsv.closed ?nav ([], [])" by (simp add: dfsv.closed_def)
  with dfsv.visited_from_closed(2) [OF st(2)] have m: "set (keys (fst st)) = (nav_arcs g)\<^sup>* `` set vs" by (simp add: r)
  from dfsv.visited_fromD(6) [OF st(2)] m have "distinct (snd st)" "set (snd st) = (nav_arcs g)\<^sup>* `` set vs" by auto
  moreover have "rfold (dfsRoot g order) vs ([], []) = rfold (doDfs (length (nodes g) + 1) ?nav ?post) vs ([], [])"
    using vs by (intro rfold_cong) (auto simp: dfsRoot_def hasNode_def has_iff node_set_def)
  ultimately show ?thesis using st(1) by (cases st) auto
qed

lemma dfs_missing:
  fixes g :: "('g, 'n, 'e) Graph"
  assumes ok: "graph_ok g" and ys: "set ys \<subseteq> node_set g" and v: "v \<notin> node_set g"
  shows "dfs g (ys @ v # zs) order = Inl (Error (''Graph does not have node: '' @ v))"
proof -
  obtain st where "rfold (dfsRoot g order) ys ([], []) = Inr st" using dfs_ok [OF ok ys] by blast
  moreover have "dfsRoot g order v st = Inl (Error (''Graph does not have node: '' @ v))"
    using v by (simp add: dfsRoot_def hasNode_def has_iff node_set_def)
  ultimately show ?thesis by (simp add: dfs_def rfold_append)
qed

text \<open>The classes \<open>components\<close> returns. The \<open>marks\<close> are a union of classes, so the visit of a node with no mark
  collects exactly its class.\<close>

definition classes :: "('g, 'n, 'e) Graph \<Rightarrow> string list list \<Rightarrow> bool" where
  "classes g cs \<longleftrightarrow> distinct (concat cs) \<and> (\<forall>c \<in> set cs. c \<noteq> [] \<and> (\<forall>v \<in> set c. set c = (links g)\<^sup>* `` {v}))"

lemma links_sym: "(v, w) \<in> (links g)\<^sup>* \<Longrightarrow> (w, v) \<in> (links g)\<^sup>*"
  by (rule symD [OF sym_rtrancl]) (auto simp: links_def sym_def)

lemma links_class: "w \<in> (links g)\<^sup>* `` {v} \<Longrightarrow> (links g)\<^sup>* `` {w} = (links g)\<^sup>* `` {v}"
  using links_sym [of v w g] by (auto intro: rtrancl_trans)

abbreviation linked_closed :: "('g, 'n, 'e) Graph \<Rightarrow> dfsState \<Rightarrow> bool" where
  "linked_closed g \<equiv> marking.closed (linked g) (\<lambda>st. set (keys (fst st)))"

lemma cmp_nav:
  fixes g :: "('g, 'n, 'e) Graph"
  assumes "graph_ok g"
  shows "marking.reach (linked g) = (links g)\<^sup>*" "marking.navigable (linked g) (node_set g)"
proof -
  have "w \<in> set (linked g v) \<longleftrightarrow> (v, w) \<in> links g" for v w
    using each_successors [OF assms] each_predecessors [OF assms] by (auto simp: links_def linked_def)
  then show "marking.reach (linked g) = (links g)\<^sup>*" "marking.navigable (linked g) (node_set g)"
    using arcs_nodes [OF assms] by (simp add: cmp.reach_def, auto simp: cmp.navigable_def node_set_def links_def)
qed

text \<open>The state between two rounds of the outer loop.\<close>

definition collected :: "('g, 'n, 'e) Graph \<Rightarrow> string list \<Rightarrow> bool obj \<times> string list list \<Rightarrow> bool" where
  "collected g ys st \<longleftrightarrow> set ys \<subseteq> set (keys (fst st)) \<and> set (keys (fst st)) \<subseteq> node_set g \<and> classes g (snd st) \<and>
     set (concat (snd st)) = set (keys (fst st)) \<and> linked_closed g (fst st, [])"

lemma component_step:
  fixes g :: "('g, 'n, 'e) Graph"
  assumes ok: "graph_ok g" and v: "v \<in> node_set g" and col: "collected g ys (visited, cs)"
  shows "\<exists>st'. componentRoot g v (visited, cs) = Inr st' \<and> collected g (ys @ [v]) st'"
proof -
  have m: "set (keys visited) \<subseteq> node_set g" "set ys \<subseteq> set (keys visited)" "classes g cs"
    "set (concat cs) = set (keys visited)" and old: "linked_closed g (visited, [])"
    using col by (simp_all add: collected_def)
  have card: "card (node_set g - set (keys visited)) < length (nodes g) + 1"
    using card_nodes [OF ok] card_mono [of "node_set g" "node_set g - set (keys visited)"]
    by (simp add: node_set_def)
  obtain visited' c where
    st: "componentDfs (length (nodes g) + 1) g v (visited, []) = Inr (visited', c)"
    "marking.visited_from (linked g) (\<lambda>st. set (keys (fst st))) snd (node_set g) [v] (visited, []) (visited', c)"
    using cmp.visit_ok [OF cmp_nav(2) [OF ok] v, where s = "(visited, [])", unfolded fst_conv, OF m(1) card]
    unfolding split_paired_Ex by blast
  have marks: "set (keys visited') = set (keys visited) \<union> (links g)\<^sup>* `` {v}" and cl: "linked_closed g (visited', [])"
    using cmp.visited_from_closed [OF st(2) old] by (simp_all add: cmp_nav [OF ok] cmp.closed_def)
  have c: "distinct c" "set c = set (keys visited') - set (keys visited)"
    using cmp.visited_fromD(6) [OF st(2)] by auto
  have clos: "w \<in> set (keys visited)" if "x \<in> set (keys visited)" "(x, w) \<in> (links g)\<^sup>*" for x w
    using cmp.closed_reach [OF old] that by (simp add: cmp_nav [OF ok])
  have home: "v \<in> set (keys visited)" if "x \<in> set (keys visited)" "x \<in> (links g)\<^sup>* `` {v}" for x
    using clos [OF that(1) links_sym] that(2) by blast
  have "set c = (links g)\<^sup>* `` {v}" if "c \<noteq> []"
  proof -
    from that have "hd c \<in> set c" by simp
    then have "hd c \<in> (links g)\<^sup>* `` {v}" "hd c \<notin> set (keys visited)" unfolding c(2) marks by auto
    then have "v \<notin> set (keys visited)" using clos by blast
    then have "(links g)\<^sup>* `` {v} \<inter> set (keys visited) = {}" using home by blast
    then show ?thesis using c(2) marks by blast
  qed
  with c m(3,4) have "classes g (if c \<noteq> [] then cs @ [c] else cs)"
    by (auto simp: classes_def links_class)
  moreover have "set (concat (if c \<noteq> [] then cs @ [c] else cs)) = set (keys visited')"
    using c(2) m(4) marks by auto
  ultimately have "collected g (ys @ [v]) (visited', if c \<noteq> [] then cs @ [c] else cs)"
    using cl cmp.visited_fromD(2,3) [OF st(2)] m(2) marks by (simp add: collected_def le_supI1)
  then show ?thesis unfolding componentRoot_def fst_conv snd_conv st(1) by simp
qed

lemma components_ok:
  fixes g :: "('g, 'n, 'e) Graph"
  assumes ok: "graph_ok g"
  shows "\<exists>cs. components g = Inr cs \<and> classes g cs \<and> set (concat cs) = node_set g"
proof -
  have "\<exists>st. rfold (componentRoot g) (nodes g) ([], []) = Inr st \<and> collected g (nodes g) st"
  proof (rule rfold_prefix_invariant [where P = "collected g"])
    show "collected g [] ([], [])" by (simp add: collected_def classes_def cmp.closed_def)
  next
    fix ys v zs and st :: "bool obj \<times> string list list"
    assume "nodes g = ys @ v # zs" and col: "collected g ys st"
    then have "v \<in> node_set g" by (simp flip: nodes_set)
    with component_step [OF ok this, of ys "fst st" "snd st"] col
    show "\<exists>st'. componentRoot g v st = Inr st' \<and> collected g (ys @ [v]) st'" by simp
  qed
  then show ?thesis by (fastforce simp: components_def collected_def nodes_set)
qed

section \<open>Properties\<close>

text \<open>C24. \<open>preorder\<close> and \<open>postorder\<close> return, and list every node that can be reached from the given ones along the
  edges (in either direction when the graph is undirected) exactly once and nothing else; when a given node is not
  in the graph, both throw the error that names the first such node.\<close>

theorem traversals_list_the_reachable_nodes:
  fixes g :: "('g, 'n, 'e) Graph"
  assumes "graph_ok g"
  shows "case find (\<lambda>v. \<not> hasNode v g) vs of
      Some v \<Rightarrow> preorder g vs = Inl (Error (''Graph does not have node: '' @ v)) \<and>
        postorder g vs = Inl (Error (''Graph does not have node: '' @ v))
    | None \<Rightarrow> (\<exists>pre post. preorder g vs = Inr pre \<and> postorder g vs = Inr post \<and> distinct pre \<and> distinct post \<and>
        set pre = (nav_arcs g)\<^sup>* `` set vs \<and> set post = (nav_arcs g)\<^sup>* `` set vs)"
proof (cases "find (\<lambda>v. \<not> hasNode v g) vs")
  case None
  then have vs: "set vs \<subseteq> node_set g" by (auto simp: find_None_iff hasNode_def has_iff node_set_def)
  from dfs_ok [OF assms vs, of "''pre''"] dfs_ok [OF assms vs, of "''post''"] None show ?thesis
    by (auto simp: preorder_def postorder_def dfs_def)
next
  case (Some v)
  then obtain i where i: "i < length vs" "vs ! i = v" "\<not> hasNode v g" "\<forall>j < i. hasNode (vs ! j) g"
    by (auto simp: find_Some_iff)
  then have split: "vs = take i vs @ v # drop (Suc i) vs" by (metis id_take_nth_drop)
  have "v \<notin> node_set g" "set (take i vs) \<subseteq> node_set g"
    using i by (auto simp: hasNode_def has_iff node_set_def in_set_conv_nth)
  from dfs_missing [OF assms this(2,1), of "drop (Suc i) vs", folded split] Some show ?thesis
    by (simp add: preorder_def postorder_def)
qed

theorem traversals_list_the_reachable_nodes_witness:
  "\<exists>g pre. setNode ''a'' None (newGraph None None None :: (int, int, int) Graph) = Inr g \<and>
     preorder g [''a''] = Inr pre \<and> distinct pre \<and> ''a'' \<in> set pre"
proof -
  let ?g0 = "newGraph None None None :: (int, int, int) Graph"
  have na: "f_isCompound ?g0 \<longrightarrow> ''a'' \<noteq> GRAPH_NODE" by (simp add: GRAPH_NODE_def)
  obtain g where g: "setNode ''a'' None ?g0 = Inr g" "graph_ok g"
    using setNode_ok [OF graph_ok_new na, of None] by blast
  then have "hasNode ''a'' g"
    using setNode_node_set [OF graph_ok_new na g(1)] by (simp add: hasNode_def has_iff node_set_def)
  with traversals_list_the_reachable_nodes [OF g(2), of "[''a'']"] g(1) show ?thesis by auto
qed

text \<open>C25. \<open>components\<close> returns the connected components: lists without repetition that together hold every node
  once, none of them empty, each holding exactly the nodes that are connected to any of its members.\<close>

theorem components_are_connectivity_classes:
  fixes g :: "('g, 'n, 'e) Graph"
  assumes "graph_ok g"
  shows "\<exists>cs. components g = Inr cs \<and> distinct (concat cs) \<and> set (concat cs) = node_set g \<and>
    (\<forall>c \<in> set cs. c \<noteq> [] \<and> (\<forall>v \<in> set c. set c = (links g)\<^sup>* `` {v}))"
  using components_ok [OF assms] by (auto simp: classes_def)

theorem components_are_connectivity_classes_witness:
  "\<exists>cs. components (newGraph (Some False) None None :: (int, int, int) Graph) = Inr cs \<and> distinct (concat cs) \<and>
     set (concat cs) = {}"
  using components_are_connectivity_classes
    [of "newGraph (Some False) None None :: (int, int, int) Graph", OF graph_ok_new]
  by (simp add: node_set_def newGraph_def) blast

end
