(* ===== verification/Graphlib_Topsort.thy ===== *)
theory Graphlib_Topsort
  imports Graphlib_Traverse
begin

text \<open>
  \<open>topsort\<close> and \<open>isAcyclic\<close> of graphlib (\<open>lib/alg\<close>). The recursive \<open>visit\<close> carries the depth bound of the
  other traversals. The theorems: the sort returns exactly on graphs without a directed cycle, every node
  then comes after its predecessors, and on the others it throws its \<open>CycleException\<close>, which \<open>isAcyclic\<close>
  turns into \<open>false\<close>.
\<close>

record topState =
  t_visited :: "bool obj"
  t_stack :: "bool obj"
  t_results :: "string list"

fun topVisit :: "nat \<Rightarrow> ('g, 'n, 'e) Graph \<Rightarrow> string \<Rightarrow> topState \<Rightarrow> topState result" where
  "topVisit 0 g v st = Inl Diverges"
| "topVisit (Suc n) g v st =
     (if has (t_stack st) v then Inl CycleException
      else if \<not> has (t_visited st) v then
        rbind (rfold (topVisit n g) (each (predecessors v g))
                 (st\<lparr>t_stack := put v True (t_stack st), t_visited := put v True (t_visited st)\<rparr>)) (\<lambda>st'.
          Inr (st'\<lparr>t_stack := del v (t_stack st'), t_results := t_results st' @ [v]\<rparr>))
      else Inr st)"

definition topsort :: "('g, 'n, 'e) Graph \<Rightarrow> string list result" where
  "topsort g =
     rbind (rfold (topVisit (length (nodes g) + 1) g) (sinks g)
              \<lparr>t_visited = [], t_stack = [], t_results = []\<rparr>) (\<lambda>st.
       if int (length (t_visited st)) \<noteq> nodeCount g then Inl CycleException
       else Inr (t_results st))"

definition isAcyclic :: "('g, 'n, 'e) Graph \<Rightarrow> bool result" where
  "isAcyclic g =
     (case topsort g of
        Inl CycleException \<Rightarrow> Inr False
      | Inl e \<Rightarrow> Inl e
      | Inr _ \<Rightarrow> Inr True)"

section \<open>Sorted lists and cycles\<close>

definition topo_sorted :: "(string \<times> string) set \<Rightarrow> string list \<Rightarrow> bool" where
  "topo_sorted R xs \<longleftrightarrow> (\<forall>ys v zs. xs = ys @ v # zs \<longrightarrow> (\<forall>u. (u, v) \<in> R \<longrightarrow> u \<in> set ys))"

lemma topo_sorted_Nil: "topo_sorted R []"
  by (simp add: topo_sorted_def)

lemma topo_sorted_snoc:
  "topo_sorted R xs \<Longrightarrow> (\<And>u. (u, v) \<in> R \<Longrightarrow> u \<in> set xs) \<Longrightarrow> topo_sorted R (xs @ [v])"
  unfolding topo_sorted_def by (auto simp: append_eq_append_conv2 append_eq_Cons_conv Cons_eq_append_conv)

lemma topo_sorted_trancl:
  assumes s: "topo_sorted R xs" and "(u, v) \<in> R\<^sup>+" and "xs = ys @ v # zs"
  shows "u \<in> set ys"
  using assms(2,3)
proof (induction arbitrary: ys zs)
  case (base v)
  with s show ?case by (auto simp: topo_sorted_def)
next
  case (step w v)
  with s have "w \<in> set ys" unfolding topo_sorted_def by blast
  then obtain y1 y2 where y: "ys = y1 @ w # y2" by (metis split_list)
  with step.IH [of y1 "y2 @ v # zs"] step.prems show ?case by simp
qed

lemma topo_sorted_acyclic:
  assumes "topo_sorted R xs" "distinct xs" "Range R \<subseteq> set xs"
  shows "acyclic R"
proof (rule acyclicI, intro allI notI)
  fix v assume c: "(v, v) \<in> R\<^sup>+"
  then have "v \<in> set xs" using assms(3) by (metis Range.intros subsetD tranclD2)
  then obtain ys zs where xs: "xs = ys @ v # zs" by (metis split_list)
  from topo_sorted_trancl [OF assms(1) c xs] assms(2) xs show False by simp
qed

section \<open>Correctness\<close>

definition top_inv :: "('g, 'n, 'e) Graph \<Rightarrow> topState \<Rightarrow> bool" where
  "top_inv g st \<longleftrightarrow> obj_ok (t_visited st) \<and>
     set (keys (t_visited st)) = set (keys (t_stack st)) \<union> set (t_results st) \<and>
     set (keys (t_stack st)) \<inter> set (t_results st) = {} \<and> distinct (t_results st) \<and>
     topo_sorted (arcs g) (t_results st) \<and> set (keys (t_visited st)) \<subseteq> node_set g"

text \<open>What a visit without an exception adds to the state.\<close>

definition top_grows :: "topState \<Rightarrow> string list \<Rightarrow> topState \<Rightarrow> bool" where
  "top_grows st vs st' \<longleftrightarrow> set (keys (t_stack st')) = set (keys (t_stack st)) \<and>
     set (t_results st) \<union> set vs \<subseteq> set (t_results st') \<and> set (keys (t_visited st)) \<subseteq> set (keys (t_visited st'))"

lemma top_grows_trans: "top_grows st vs st1 \<Longrightarrow> top_grows st1 ws st2 \<Longrightarrow> top_grows st (vs @ ws) st2"
  by (auto simp: top_grows_def)

lemma topVisit_leave:
  fixes g :: "('g, 'n, 'e) Graph"
  assumes ok: "graph_ok g" and v: "v \<in> node_set g" "v \<notin> set (keys (t_visited st))" and inv: "top_inv g st"
    and st1: "top_inv g st1"
      "top_grows (st\<lparr>t_stack := put v True (t_stack st), t_visited := put v True (t_visited st)\<rparr>) (each (predecessors v g)) st1"
  defines "st2 \<equiv> st1\<lparr>t_stack := del v (t_stack st1), t_results := t_results st1 @ [v]\<rparr>"
  shows "top_inv g st2" "top_grows st [v] st2"
proof -
  have k: "set (keys (t_stack st1)) = insert v (set (keys (t_stack st)))"
    "set (t_results st) \<union> set (each (predecessors v g)) \<subseteq> set (t_results st1)"
    "insert v (set (keys (t_visited st))) \<subseteq> set (keys (t_visited st1))"
    using st1(2) by (simp_all add: top_grows_def)
  have ns: "v \<notin> set (keys (t_stack st))" using v(2) inv by (auto simp: top_inv_def)
  have "topo_sorted (arcs g) (t_results st1 @ [v])"
    using st1(1) k(2) each_predecessors [OF ok] by (intro topo_sorted_snoc) (auto simp: top_inv_def)
  moreover have "v \<notin> set (t_results st1)" using st1(1) k(1) by (auto simp: top_inv_def)
  ultimately show "top_inv g st2" using st1(1) k(1) v(1) by (auto simp: top_inv_def st2_def)
  show "top_grows st [v] st2" using k ns by (auto simp: top_grows_def st2_def)
qed

lemma topVisit_ok:
  fixes g :: "('g, 'n, 'e) Graph"
  assumes ok: "graph_ok g"
  shows "top_inv g st \<Longrightarrow> v \<in> node_set g \<Longrightarrow> card (node_set g - set (keys (t_visited st))) < n \<Longrightarrow>
    (\<forall>x \<in> set (keys (t_stack st)). (v, x) \<in> (arcs g)\<^sup>+) \<Longrightarrow>
    (\<exists>st'. topVisit n g v st = Inr st' \<and> top_inv g st' \<and> top_grows st [v] st') \<or>
    (\<exists>e. topVisit n g v st = Inl e \<and> e = CycleException \<and> \<not> acyclic (arcs g))"
proof (induction n arbitrary: v st)
  case (Suc n)
  consider (cycle) "v \<in> set (keys (t_stack st))" | (seen) "v \<notin> set (keys (t_stack st))" "v \<in> set (keys (t_visited st))"
    | (new) "v \<notin> set (keys (t_stack st))" "v \<notin> set (keys (t_visited st))" by blast
  then show ?case
  proof cases
    case cycle
    with Suc.prems(4) have "(v, v) \<in> (arcs g)\<^sup>+" by blast
    then have "\<not> acyclic (arcs g)" by (auto simp: acyclic_def)
    with cycle show ?thesis by (simp add: has_iff)
  next
    case seen
    then have "v \<in> set (t_results st)" using Suc.prems(1) by (auto simp: top_inv_def)
    with seen Suc.prems(1) show ?thesis by (simp add: has_iff top_grows_def)
  next
    case new
    let ?st = "st\<lparr>t_stack := put v True (t_stack st), t_visited := put v True (t_visited st)\<rparr>"
    let ?P = "\<lambda>ys st1. top_inv g st1 \<and> top_grows ?st ys st1"
    have "card (node_set g - insert v (set (keys (t_visited st)))) < card (node_set g - set (keys (t_visited st)))"
      using Suc.prems(2) new by (intro psubset_card_mono) (auto simp: node_set_def)
    with Suc.prems(3) have less: "card (node_set g - insert v (set (keys (t_visited st)))) < n" by simp
    have "(\<exists>st1. rfold (topVisit n g) (each (predecessors v g)) ?st = Inr st1 \<and> ?P (each (predecessors v g)) st1) \<or>
      (\<exists>e. rfold (topVisit n g) (each (predecessors v g)) ?st = Inl e \<and> e = CycleException \<and> \<not> acyclic (arcs g))"
    proof (rule rfold_prefix_outcome [where P = ?P])
      show "?P [] ?st" using Suc.prems(1,2) new by (auto simp: top_inv_def top_grows_def)
    next
      fix ys w zs st1
      assume split: "each (predecessors v g) = ys @ w # zs" and P: "?P ys st1"
      then have arc: "(w, v) \<in> arcs g" using each_predecessors [OF ok, of w v] by simp
      have stack: "\<forall>x \<in> set (keys (t_stack st1)). (w, x) \<in> (arcs g)\<^sup>+"
        using P Suc.prems(4) arc by (auto simp: top_grows_def intro: trancl_into_trancl2)
      have sub: "node_set g - set (keys (t_visited st1)) \<subseteq> node_set g - insert v (set (keys (t_visited st)))"
        using P by (auto simp: top_grows_def)
      have "card (node_set g - set (keys (t_visited st1))) < n"
        by (rule le_less_trans [OF card_mono [OF _ sub] less]) (simp add: node_set_def)
      from Suc.IH [OF _ _ this stack] P arcs_nodes [OF ok arc] top_grows_trans [of ?st ys st1 "[w]"]
      show "(\<exists>st'. topVisit n g w st1 = Inr st' \<and> ?P (ys @ [w]) st') \<or>
        (\<exists>e. topVisit n g w st1 = Inl e \<and> e = CycleException \<and> \<not> acyclic (arcs g))" by blast
    qed
    then show ?thesis using topVisit_leave [OF ok Suc.prems(2) new(2) Suc.prems(1)] new by (auto simp: has_iff)
  qed
qed simp

text \<open>In a graph without cycles every node has a way to a sink.\<close>

lemma way_to_sink:
  fixes g :: "('g, 'n, 'e) Graph"
  assumes ok: "graph_ok g" and ac: "acyclic (arcs g)" and v: "v \<in> node_set g"
  shows "\<exists>s \<in> set (sinks g). (v, s) \<in> (arcs g)\<^sup>*"
proof -
  have "arcs g \<subseteq> node_set g \<times> node_set g" using arcs_nodes [OF ok] by auto
  then have "finite (arcs g)" by (rule finite_subset) (simp add: node_set_def)
  with ac have "wf ((arcs g)\<inverse>)" by (simp add: finite_acyclic_wf_converse)
  then show ?thesis using v
  proof (induction v rule: wf_induct_rule)
    case (less v)
    show ?case
    proof (cases "\<exists>w. (v, w) \<in> arcs g")
      case True
      then obtain w where "(v, w) \<in> arcs g" by blast
      with less.IH [of w] arcs_nodes [OF ok] show ?thesis by (auto intro: converse_rtrancl_into_rtrancl)
    next
      case False
      with less.prems sinks_spec [OF ok] have "v \<in> set (sinks g)" by (auto simp: arcs_def)
      then show ?thesis by blast
    qed
  qed
qed

lemma topo_sorted_closed:
  assumes "topo_sorted R xs" "(u, v) \<in> R\<^sup>*" "v \<in> set xs"
  shows "u \<in> set xs"
proof (cases "u = v")
  case False
  then have "(u, v) \<in> R\<^sup>+" using assms(2) by (simp add: rtrancl_eq_or_trancl)
  moreover obtain ys zs where "xs = ys @ v # zs" using assms(3) by (metis split_list)
  ultimately show ?thesis using topo_sorted_trancl [OF assms(1), of u v ys zs] by simp
qed (use assms(3) in simp)

lemma topsort_loop:
  fixes g :: "('g, 'n, 'e) Graph"
  assumes ok: "graph_ok g"
  defines "st0 \<equiv> \<lparr>t_visited = [], t_stack = [], t_results = []\<rparr>"
  shows "(\<exists>st. rfold (topVisit (length (nodes g) + 1) g) (sinks g) st0 = Inr st \<and> top_inv g st \<and>
      top_grows st0 (sinks g) st) \<or>
    (\<exists>e. rfold (topVisit (length (nodes g) + 1) g) (sinks g) st0 = Inl e \<and> e = CycleException \<and> \<not> acyclic (arcs g))"
proof (rule rfold_prefix_outcome [where P = "\<lambda>ys st. top_inv g st \<and> top_grows st0 ys st"])
  show "top_inv g st0 \<and> top_grows st0 [] st0"
    by (simp add: st0_def top_inv_def top_grows_def topo_sorted_Nil)
next
  fix ys v zs st
  assume split: "sinks g = ys @ v # zs" and P: "top_inv g st \<and> top_grows st0 ys st"
  have v: "v \<in> node_set g" using sinks_spec [OF ok] split by auto
  have "card (node_set g - set (keys (t_visited st))) < length (nodes g) + 1"
    using card_nodes [OF ok] card_mono [of "node_set g" "node_set g - set (keys (t_visited st))"]
    by (simp add: node_set_def)
  moreover have "\<forall>x \<in> set (keys (t_stack st)). (v, x) \<in> (arcs g)\<^sup>+" using P by (simp add: top_grows_def st0_def)
  ultimately show "(\<exists>st'. topVisit (length (nodes g) + 1) g v st = Inr st' \<and> top_inv g st' \<and> top_grows st0 (ys @ [v]) st') \<or>
    (\<exists>e. topVisit (length (nodes g) + 1) g v st = Inl e \<and> e = CycleException \<and> \<not> acyclic (arcs g))"
    using topVisit_ok [OF ok _ v, of st "length (nodes g) + 1"] P top_grows_trans [of st0 ys st "[v]"] by blast
qed

lemma topsort_ok:
  fixes g :: "('g, 'n, 'e) Graph"
  assumes ok: "graph_ok g"
  shows "if acyclic (arcs g)
    then \<exists>vs. topsort g = Inr vs \<and> distinct vs \<and> set vs = node_set g \<and> topo_sorted (arcs g) vs
    else topsort g = Inl CycleException"
proof -
  let ?st0 = "\<lparr>t_visited = [], t_stack = [], t_results = []\<rparr>"
  from topsort_loop [OF ok] consider
    (ends) st where "rfold (topVisit (length (nodes g) + 1) g) (sinks g) ?st0 = Inr st" "top_inv g st"
      "top_grows ?st0 (sinks g) st"
    | (throws) "rfold (topVisit (length (nodes g) + 1) g) (sinks g) ?st0 = Inl CycleException" "\<not> acyclic (arcs g)"
    by blast
  then show ?thesis
  proof cases
    case throws
    then show ?thesis unfolding topsort_def by simp
  next
    case ends
    have stack: "set (keys (t_stack st)) = {}" and sk: "set (sinks g) \<subseteq> set (t_results st)"
      using ends(3) by (simp_all add: top_grows_def)
    then have v: "set (keys (t_visited st)) = set (t_results st)" "distinct (t_results st)" "distinct (keys (t_visited st))"
      "topo_sorted (arcs g) (t_results st)" "set (t_results st) \<subseteq> node_set g"
      using ends(2) by (auto simp: top_inv_def obj_ok_def)
    have count: "int (length (t_visited st)) = nodeCount g \<longleftrightarrow> set (t_results st) = node_set g"
    proof -
      have "length (t_visited st) = card (set (t_results st))" using distinct_card [OF v(3)] v(1) by simp
      moreover have "nodeCount g = int (card (node_set g))"
        using ok distinct_card [of "keys (f_nodes g)"] by (simp add: graph_ok_def nodeCount_def obj_ok_def node_set_def)
      moreover have "card (set (t_results st)) = card (node_set g) \<longleftrightarrow> set (t_results st) = node_set g"
        using card_subset_eq [OF _ v(5)] by (auto simp: node_set_def)
      ultimately show ?thesis by simp
    qed
    have "set (t_results st) = node_set g" if "acyclic (arcs g)"
      using way_to_sink [OF ok that] topo_sorted_closed [OF v(4)] sk v(5) by blast
    moreover have "acyclic (arcs g)" if "set (t_results st) = node_set g"
      using topo_sorted_acyclic [OF v(4,2)] arcs_nodes [OF ok] that by auto
    ultimately show ?thesis using ends(1) count v unfolding topsort_def by auto
  qed
qed

text \<open>C23. \<open>topsort\<close> decides whether a graph has a directed cycle (self loops included): without one it returns all
  nodes, each once and after all its predecessors; with one it throws its \<open>CycleException\<close> and nothing else, and
  \<open>isAcyclic\<close> returns the answer without throwing.\<close>

theorem topsort_sorts_or_reports_a_cycle:
  fixes g :: "('g, 'n, 'e) Graph"
  assumes "graph_ok g"
  shows "if acyclic (arcs g)
    then (\<exists>vs. topsort g = Inr vs \<and> distinct vs \<and> set vs = node_set g \<and>
        (\<forall>ys v zs u. vs = ys @ v # zs \<and> (u, v) \<in> arcs g \<longrightarrow> u \<in> set ys)) \<and> isAcyclic g = Inr True
    else topsort g = Inl CycleException \<and> isAcyclic g = Inr False"
  using topsort_ok [OF assms] by (auto simp: isAcyclic_def topo_sorted_def split: if_splits)

theorem topsort_sorts_or_reports_a_cycle_witness:
  "\<exists>g. setEdge ''a'' ''a'' None None (newGraph None None None :: (int, int, int) Graph) = Inr g \<and>
     topsort g = Inl CycleException \<and> isAcyclic g = Inr False"
proof -
  let ?g0 = "newGraph None None None :: (int, int, int) Graph"
  have "clean_graph ?g0" "\<not> f_isCompound ?g0" "f_isDirected ?g0"
    by (simp_all add: clean_graph_def newGraph_def edges_def)
  with setEdge_refines [of ?g0 "''a''" "''a''" None None, OF graph_ok_new] obtain g where
    g: "setEdge ''a'' ''a'' None None ?g0 = Inr g" "graph_ok g" and
    e: "edgeArgsToObj True ''a'' ''a'' None \<in> dom (abs_edges g)"
    by (auto simp: clean_def clean_name_def)
  have "(''a'', ''a'') \<in> arcs g" using e dom_abs_edges [OF g(2)] by (force simp: arcs_def edgeArgsToObj_def)
  then have "\<not> acyclic (arcs g)" by (auto simp: acyclic_def)
  with topsort_sorts_or_reports_a_cycle [OF g(2)] g(1) show ?thesis by auto
qed

end
