(* ===== verification/Graphlib_Copy.thy ===== *)
theory Graphlib_Copy
  imports Graphlib_Spec
begin

text \<open>
  Graphs built from the nodes and edges of another one: the copy of an edge, which \<open>json.read\<close>, \<open>filterNodes\<close> and
  the phases of the layout share, and the method \<open>filterNodes\<close> of \<open>Graph\<close> with its proof: the nodes that pass the
  filter with all edges between them, each node inside its nearest ancestor that passes.
\<close>

section \<open>Filtering the nodes\<close>

text \<open>The local function \<open>findParent\<close>, with the table \<open>parents\<close> threaded through. It walks up the forest of
  parents, so its depth is at most the number of nodes.\<close>

fun findParent ::
  "nat \<Rightarrow> ('g, 'n, 'e) Graph \<Rightarrow> ('g, 'n, 'e) Graph \<Rightarrow> string \<Rightarrow> string option obj \<Rightarrow> (string option \<times> string option obj) result" where
  "findParent 0 self copy v parents = Inl Diverges"
| "findParent (Suc n) self copy v parents =
     (case parent v self of
        None \<Rightarrow> Inr (None, put v None parents)
      | Some p \<Rightarrow>
          if hasNode p copy then Inr (Some p, put v (Some p) parents)
          else case get parents p of
                 Some r \<Rightarrow> Inr (r, parents)
               | None \<Rightarrow> findParent n self copy p parents)"

definition filterNode :: "(string \<Rightarrow> bool) \<Rightarrow> ('g, 'n, 'e) Graph \<Rightarrow> string \<Rightarrow> ('g, 'n, 'e) Graph \<Rightarrow> ('g, 'n, 'e) Graph result" where
  "filterNode keep self v copy = (if keep v then setNode v (Some (node v self)) copy else Inr copy)"

definition filterEdge :: "('g, 'n, 'e) Graph \<Rightarrow> edgeObj \<Rightarrow> ('g, 'n, 'e) Graph \<Rightarrow> ('g, 'n, 'e) Graph result" where
  "filterEdge self e copy =
     (if hasNode (e_v e) copy \<and> hasNode (e_w e) copy then setEdgeObj e (Some (edgeOfObj e self)) copy else Inr copy)"

definition filterParent ::
  "('g, 'n, 'e) Graph \<Rightarrow> string \<Rightarrow> ('g, 'n, 'e) Graph \<times> string option obj \<Rightarrow> (('g, 'n, 'e) Graph \<times> string option obj) result" where
  "filterParent self v st =
     rbind (findParent (length (nodes self) + 1) self (fst st) v (snd st)) (\<lambda>(p, parents).
     rbind (setParent v p (fst st)) (\<lambda>copy. Inr (copy, parents)))"

definition filterNodes :: "(string \<Rightarrow> bool) \<Rightarrow> ('g, 'n, 'e) Graph \<Rightarrow> ('g, 'n, 'e) Graph result" where
  "filterNodes keep g =
     rbind (rfold (filterNode keep g) (nodes g)
        (setGraph (graph g) (newGraph (Some (isDirected g)) (Some (isMultigraph g)) (Some (isCompound g))))) (\<lambda>copy.
     rbind (rfold (filterEdge g) (edges g) copy) (\<lambda>copy.
       if isCompound g then rbind (rfold (filterParent g) (nodes copy) (copy, [])) (\<lambda>st. Inr (fst st)) else Inr copy))"

section \<open>Copies\<close>

definition same_kind :: "('g, 'n, 'e) Graph \<Rightarrow> ('g, 'n, 'e) Graph \<Rightarrow> bool" where
  "same_kind g h \<longleftrightarrow> f_isDirected h = f_isDirected g \<and> f_isMultigraph h = f_isMultigraph g \<and>
     f_isCompound h = f_isCompound g \<and> f_label h = f_label g"

lemma same_kind_flags: "same_kind g h \<Longrightarrow> same_flags h h' \<Longrightarrow> same_kind g h'"
  by (simp add: same_kind_def same_flags_def)

lemma node_get: "v \<in> node_set g \<Longrightarrow> get (f_nodes g) v = Some (node v g)"
  using key_get [of v "f_nodes g"] by (auto simp: node_set_def node_def)

lemma compound_nodes: "graph_ok g \<Longrightarrow> f_isCompound g \<Longrightarrow> GRAPH_NODE \<notin> node_set g"
  using graph_okD(4) tree_okD(6) by blast

lemma parent_get:
  assumes "graph_ok g" "f_isCompound g" "v \<in> node_set g"
  shows "get (f_parent g) v = Some (case parent v g of Some p \<Rightarrow> p | None \<Rightarrow> GRAPH_NODE)"
    "parent v g = Some p \<Longrightarrow> p \<in> node_set g \<and> p \<noteq> GRAPH_NODE"
proof -
  note T = graph_okD(4) [OF assms(1,2)]
  obtain q where q: "get (f_parent g) v = Some q" using tree_okD(2) [OF T] assms(3) key_get [of v "f_parent g"] by blast
  then show "get (f_parent g) v = Some (case parent v g of Some p \<Rightarrow> p | None \<Rightarrow> GRAPH_NODE)"
    using assms(2) by (simp add: parent_def)
  show "parent v g = Some p \<Longrightarrow> p \<in> node_set g \<and> p \<noteq> GRAPH_NODE"
    using q assms(2) tree_okD(10) [OF T q] by (auto simp: parent_def split: if_splits)
qed

lemma path_avoids:
  assumes "(a, b) \<in> R\<^sup>*" "b \<noteq> G" "G \<notin> Domain R" "\<And>x y. (x, y) \<in> R \<Longrightarrow> y \<noteq> G \<Longrightarrow> (x, y) \<in> S"
  shows "(a, b) \<in> S\<^sup>*"
  using assms(1,2)
proof (induction rule: rtrancl_induct)
  case (step y z)
  then have "y \<noteq> G" "(y, z) \<in> S" using assms(3,4) by (auto dest: DomainI)
  with step.IH show ?case by (meson rtrancl.rtrancl_into_rtrancl)
qed simp

lemma node_set_abs: "node_set g = dom (abs_nodes g)"
  by (auto simp: node_set_def abs_nodes_def dest: key_get get_Some_key)

lemma abs_edge_label:
  assumes "graph_ok g" "eo \<in> set (edges g)"
  shows "abs_edges g eo = Some (edgeOfObj eo g)"
proof -
  from assms have "eo \<in> dom (abs_edges g)" by (simp add: dom_abs_edges)
  with assms(2) show ?thesis by (auto simp: abs_edges_def edgeOfObj_def)
qed

text \<open>One edge is copied into a graph that has its ends.\<close>

lemma copy_edge_ok:
  fixes g :: "('g, 'n, 'e) Graph" and h :: "('h, 'm, 'e) Graph"
  assumes ok: "graph_ok g" "clean_graph g" and e: "eo \<in> set (edges g)" and H: "graph_ok h" "clean_graph h"
    and fl: "f_isDirected h = f_isDirected g" "f_isMultigraph h = f_isMultigraph g"
    and ends: "e_v eo \<in> node_set h" "e_w eo \<in> node_set h"
  shows "\<exists>h'. setEdgeObj eo (Some (edgeOfObj eo g)) h = Inr h' \<and> graph_ok h' \<and> clean_graph h' \<and> same_flags h h' \<and>
    abs_edges h' = (abs_edges h)(eo := abs_edges g eo) \<and> abs_nodes h' = abs_nodes h \<and>
    (\<forall>x \<in> node_set h. get (f_parent h') x = get (f_parent h) x)"
proof -
  have cl: "clean (e_v eo)" "clean (e_w eo)" "clean_name (e_name eo)"
    using ok(2) e by (auto simp: clean_graph_def clean_edge_def)
  have shape: "f_isDirected g \<or> e_v eo \<le> e_w eo" "e_name eo \<noteq> Some []" "e_name eo \<noteq> None \<longrightarrow> f_isMultigraph h"
    using edges_shape [OF ok(1) e] fl(2) by (auto simp: edge_ok_def)
  have eo: "edgeArgsToObj (f_isDirected h) (e_v eo) (e_w eo) (e_name eo) = eo"
    using shape(1,2) fl(1) by (auto simp: edgeArgsToObj_def)
  have root: "f_isCompound h \<longrightarrow> e_v eo \<noteq> GRAPH_NODE \<and> e_w eo \<noteq> GRAPH_NODE"
    using compound_nodes [OF H(1)] ends by auto
  obtain h' where h': "setEdge (e_v eo) (e_w eo) (Some (edgeOfObj eo g)) (e_name eo) h = Inr h'" "graph_ok h'"
    "clean_graph h'" "same_flags h h'" "abs_edges h' = (abs_edges h)(eo \<mapsto> edgeOfObj eo g)"
    "node_set h' = insert (e_v eo) (insert (e_w eo) (node_set h))" "\<forall>x \<in> node_set h. abs_nodes h' x = abs_nodes h x"
    using setEdge_refines [OF H cl root shape(3), of "Some (edgeOfObj eo g)"] eo by auto
  have "\<forall>x \<in> node_set h. get (f_parent h') x = get (f_parent h) x"
    using setEdge_ok [OF H(1) root shape(2,3), of "Some (edgeOfObj eo g)"] h'(1) by auto
  moreover have "abs_nodes h' x = abs_nodes h x" for x
  proof (cases "x \<in> node_set h")
    case True
    with h'(7) show ?thesis by simp
  next
    case False
    then have "x \<notin> node_set h'" using h'(6) ends by auto
    with False show ?thesis unfolding node_set_abs by (simp add: domIff)
  qed
  then have "abs_nodes h' = abs_nodes h" ..
  ultimately show ?thesis using h'(1-5) abs_edge_label [OF ok(1) e] by (simp add: setEdgeObj_def)
qed

section \<open>What the filter promises\<close>

text \<open>The nearest ancestor among the nodes \<open>K\<close>, if there is one.\<close>

inductive nearest_kept :: "('g, 'n, 'e) Graph \<Rightarrow> string set \<Rightarrow> string \<Rightarrow> string option \<Rightarrow> bool" for g K where
  top_level: "parent v g = None \<Longrightarrow> nearest_kept g K v None"
| kept: "parent v g = Some p \<Longrightarrow> p \<in> K \<Longrightarrow> nearest_kept g K v (Some p)"
| dropped: "parent v g = Some p \<Longrightarrow> p \<notin> K \<Longrightarrow> nearest_kept g K p r \<Longrightarrow> nearest_kept g K v r"

lemma nearest_kept_unique: "nearest_kept g K v r \<Longrightarrow> nearest_kept g K v r' \<Longrightarrow> r' = r"
proof (induction arbitrary: r' rule: nearest_kept.induct)
  case (top_level v)
  from top_level.prems top_level.hyps show ?case by cases simp_all
next
  case (kept v p)
  from kept.prems kept.hyps show ?case by cases simp_all
next
  case (dropped v p r)
  from dropped.prems have "nearest_kept g K p r'" using dropped.hyps(1,2) by cases simp_all
  then show ?case by (rule dropped.IH)
qed

lemma nearest_kept_ancestor:
  "nearest_kept g K v r \<Longrightarrow> r = Some p \<Longrightarrow> p \<in> K \<and> p \<noteq> GRAPH_NODE \<and> (v, p) \<in> (parent_rel (f_parent g))\<^sup>+"
  by (induction rule: nearest_kept.induct)
    (auto simp: parent_def parent_rel_def split: if_splits option.splits intro: trancl_into_trancl2)

definition kept_edges :: "(string \<Rightarrow> bool) \<Rightarrow> edgeObj set" where
  "kept_edges keep = {e. keep (e_v e) \<and> keep (e_w e)}"

definition memo_ok :: "('g, 'n, 'e) Graph \<Rightarrow> string set \<Rightarrow> string option obj \<Rightarrow> bool" where
  "memo_ok g K parents \<longleftrightarrow> (\<forall>x r. get parents x = Some r \<longrightarrow> nearest_kept g K x r)"

lemma memo_ok_put: "memo_ok g K parents \<Longrightarrow> nearest_kept g K v r \<Longrightarrow> memo_ok g K (put v r parents)"
  by (simp add: memo_ok_def)

subsection \<open>Finding the parent\<close>

lemma findParent_ok:
  fixes g h :: "('g, 'n, 'e) Graph"
  assumes ok: "graph_ok g" "f_isCompound g"
  shows "memo_ok g (node_set h) parents \<Longrightarrow> v \<in> node_set g \<Longrightarrow> card ((parent_rel (f_parent g))\<^sup>+ `` {v}) < n \<Longrightarrow>
    \<exists>r parents'. findParent n g h v parents = Inr (r, parents') \<and> nearest_kept g (node_set h) v r \<and>
      memo_ok g (node_set h) parents'"
proof (induction n arbitrary: v)
  case (Suc n)
  let ?R = "parent_rel (f_parent g)"
  note T = graph_okD(4) [OF ok]
  show ?case
  proof (cases "parent v g")
    case None
    then show ?thesis using memo_ok_put [OF Suc.prems(1)] top_level [OF None] by auto
  next
    case (Some p)
    have p: "p \<in> node_set g" "(v, p) \<in> ?R"
      using parent_get [OF ok Suc.prems(2)] Some by (auto simp: parent_rel_def)
    have has: "hasNode p h \<longleftrightarrow> p \<in> node_set h" by (simp add: hasNode_def has_iff node_set_def)
    have sub: "?R\<^sup>+ `` {p} \<subseteq> ?R\<^sup>+ `` {v}" "p \<in> ?R\<^sup>+ `` {v}" "p \<notin> ?R\<^sup>+ `` {p}"
      using p(2) tree_okD(1) [OF T] by (auto simp: acyclic_def intro: trancl_into_trancl2)
    have "y \<in> insert GRAPH_NODE (node_set g)" if "(v, y) \<in> ?R\<^sup>+" for y
      using that by (cases rule: tranclE) (use tree_okD(10) [OF T] in \<open>auto simp: parent_rel_def\<close>)
    then have "?R\<^sup>+ `` {v} \<subseteq> insert GRAPH_NODE (node_set g)" by auto
    then have "finite (?R\<^sup>+ `` {v})" by (rule finite_subset) (simp add: node_set_def)
    then have "card (?R\<^sup>+ `` {p}) < card (?R\<^sup>+ `` {v})" using sub by (intro psubset_card_mono) auto
    with Suc.prems(3) have less: "card (?R\<^sup>+ `` {p}) < n" by simp
    consider "p \<in> node_set h" | r where "p \<notin> node_set h" "get parents p = Some r"
      | "p \<notin> node_set h" "get parents p = None" by (cases "get parents p") auto
    then show ?thesis
    proof cases
      case 1
      then show ?thesis using memo_ok_put [OF Suc.prems(1)] kept [OF Some] Some has by auto
    next
      case 2
      then show ?thesis using dropped [OF Some] Suc.prems(1) Some has by (auto simp: memo_ok_def)
    next
      case 3
      then show ?thesis using Suc.IH [OF Suc.prems(1) p(1) less] dropped [OF Some] Some has by auto
    qed
  qed
qed simp

subsection \<open>The three loops\<close>

definition filtered :: "(string \<Rightarrow> bool) \<Rightarrow> ('g, 'n, 'e) Graph \<Rightarrow> string list \<Rightarrow> edgeObj list \<Rightarrow> ('g, 'n, 'e) Graph \<Rightarrow> bool" where
  "filtered keep g ys es h \<longleftrightarrow> graph_ok h \<and> clean_graph h \<and> same_kind g h \<and>
     abs_nodes h = abs_nodes g |` {v \<in> set ys. keep v} \<and> abs_edges h = abs_edges g |` (set es \<inter> kept_edges keep)"

definition roots_only :: "('g, 'n, 'e) Graph \<Rightarrow> string set \<Rightarrow> bool" where
  "roots_only h V \<longleftrightarrow> (f_isCompound h \<longrightarrow> (\<forall>x \<in> V. get (f_parent h) x = Some GRAPH_NODE))"

lemma filteredD:
  assumes "filtered keep g ys es h"
  shows "graph_ok h" "clean_graph h" "same_kind g h" "abs_nodes h = abs_nodes g |` {v \<in> set ys. keep v}"
    "abs_edges h = abs_edges g |` (set es \<inter> kept_edges keep)"
  using assms by (simp_all add: filtered_def)

lemma filterNode_ok:
  fixes g h :: "('g, 'n, 'e) Graph"
  assumes ok: "graph_ok g" and v: "v \<in> node_set g" and h: "filtered keep g ys [] h" "roots_only h (node_set h)"
  shows "\<exists>h'. filterNode keep g v h = Inr h' \<and> filtered keep g (ys @ [v]) [] h' \<and> roots_only h' (node_set h')"
proof (cases "keep v")
  case True
  note H = filteredD [OF h(1)]
  have c: "f_isCompound h = f_isCompound g" using H(3) by (simp add: same_kind_def)
  have na: "f_isCompound h \<longrightarrow> v \<noteq> GRAPH_NODE" using compound_nodes [OF ok] v c by auto
  obtain h' where h': "setNode v (Some (node v g)) h = Inr h'" "graph_ok h'" "same_flags h h'"
    "abs_edges h' = abs_edges h" "abs_nodes h' = (abs_nodes h)(v \<mapsto> node v g)"
    using setNode_refines [OF H(1) na, of "Some (node v g)"] by auto
  have E: "f_edgeObjs h' = f_edgeObjs h"
    "f_parent h' = (if v \<in> node_set h \<or> \<not> f_isCompound h then f_parent h else put v GRAPH_NODE (f_parent h))"
    using setNode_ok [OF H(1) na, of "Some (node v g)"] h'(1) by auto
  have "abs_nodes g v = Some (node v g)" using node_get [OF v] by (simp add: abs_nodes_def)
  then have "abs_nodes h' = abs_nodes g |` {x \<in> set (ys @ [v]). keep x}"
    using h'(5) H(4) True by (auto simp: restrict_map_def fun_eq_iff)
  moreover have "clean_graph h'" using H(2) E(1) by (simp add: clean_graph_def edges_def)
  moreover have "roots_only h' (node_set h')"
    using h(2) E(2) setNode_node_set [OF H(1) na h'(1)] h'(3) by (auto simp: roots_only_def same_flags_def)
  ultimately show ?thesis
    using h'(1,2,4) H(5) same_kind_flags [OF H(3) h'(3)] True by (simp add: filterNode_def filtered_def)
next
  case False
  then have "{x \<in> set (ys @ [v]). keep x} = {x \<in> set ys. keep x}" by auto
  with False h show ?thesis by (simp add: filterNode_def filtered_def)
qed

lemma filter_nodes_phase:
  fixes g :: "('g, 'n, 'e) Graph"
  assumes ok: "graph_ok g"
  shows "\<exists>h. rfold (filterNode keep g) (nodes g)
      (setGraph (graph g) (newGraph (Some (isDirected g)) (Some (isMultigraph g)) (Some (isCompound g)))) = Inr h \<and>
    filtered keep g (nodes g) [] h \<and> roots_only h (node_set h)"
proof -
  let ?h0 = "setGraph (graph g) (newGraph (Some (isDirected g)) (Some (isMultigraph g)) (Some (isCompound g))) :: ('g, 'n, 'e) Graph"
  have n0: "node_set ?h0 = {}" by (simp add: setGraph_def newGraph_def Let_def node_set_def)
  have "graph_ok ?h0"
    using graph_ok_new [of "Some (isDirected g)" "Some (isMultigraph g)" "Some (isCompound g)", where 'a = 'g and 'b = 'n and 'c = 'e]
    by (simp add: setGraph_def graph_ok_def tables_ok_def node_set_def)
  then have "filtered keep g [] [] ?h0" "roots_only ?h0 (node_set ?h0)"
    using n0 by (auto simp: filtered_def same_kind_def setGraph_def newGraph_def isDirected_def isMultigraph_def isCompound_def
        graph_def Let_def abs_nodes_def abs_edges_def edges_def clean_graph_def roots_only_def)
  then show ?thesis
    by (intro rfold_prefix_invariant [where P = "\<lambda>ys h. filtered keep g ys [] h \<and> roots_only h (node_set h)"] conjI)
      (auto simp flip: nodes_set intro!: filterNode_ok [OF ok, unfolded nodes_set [symmetric]])
qed

lemma filterEdge_ok:
  fixes g h :: "('g, 'n, 'e) Graph"
  assumes ok: "graph_ok g" "clean_graph g" and e: "e \<in> set (edges g)"
    and h: "filtered keep g (nodes g) es h" "roots_only h (node_set h)"
  shows "\<exists>h'. filterEdge g e h = Inr h' \<and> filtered keep g (nodes g) (es @ [e]) h' \<and> roots_only h' (node_set h')"
proof -
  note H = filteredD [OF h(1)]
  have ns: "node_set h = {v \<in> node_set g. keep v}"
    using H(4) by (auto simp: node_set_abs nodes_set)
  have has: "hasNode x h \<longleftrightarrow> x \<in> node_set h" for x by (simp add: hasNode_def has_iff node_set_def)
  have ends: "e_v e \<in> node_set g" "e_w e \<in> node_set g" using edges_ends [OF ok(1) e] by auto
  show ?thesis
  proof (cases "e \<in> kept_edges keep")
    case True
    then have in_h: "e_v e \<in> node_set h" "e_w e \<in> node_set h" using ends ns by (auto simp: kept_edges_def)
    obtain h' where h': "setEdgeObj e (Some (edgeOfObj e g)) h = Inr h'" "graph_ok h'" "clean_graph h'" "same_flags h h'"
      "abs_edges h' = (abs_edges h)(e := abs_edges g e)" "abs_nodes h' = abs_nodes h"
      "\<forall>x \<in> node_set h. get (f_parent h') x = get (f_parent h) x"
      using copy_edge_ok [OF ok e H(1,2) _ _ in_h] H(3) by (auto simp: same_kind_def)
    have "abs_edges h' = abs_edges g |` (set (es @ [e]) \<inter> kept_edges keep)"
      using h'(5) H(5) True by (auto simp: restrict_map_def fun_eq_iff)
    moreover have "roots_only h' (node_set h')"
      using h(2) h'(4,6,7) by (auto simp: roots_only_def same_flags_def node_set_abs)
    ultimately show ?thesis
      using h'(1-3,6) H(4) same_kind_flags [OF H(3) h'(4)] in_h has by (simp add: filterEdge_def filtered_def)
  next
    case False
    then have "set (es @ [e]) \<inter> kept_edges keep = set es \<inter> kept_edges keep" by auto
    moreover have "\<not> (hasNode (e_v e) h \<and> hasNode (e_w e) h)" using False has ns by (auto simp: kept_edges_def)
    ultimately show ?thesis using h by (auto simp: filterEdge_def filtered_def)
  qed
qed

lemma filter_edges_phase:
  fixes g h :: "('g, 'n, 'e) Graph"
  assumes ok: "graph_ok g" "clean_graph g" and h: "filtered keep g (nodes g) [] h" "roots_only h (node_set h)"
  shows "\<exists>h'. rfold (filterEdge g) (edges g) h = Inr h' \<and> filtered keep g (nodes g) (edges g) h' \<and> roots_only h' (node_set h')"
  by (rule rfold_prefix_invariant [where P = "\<lambda>es h. filtered keep g (nodes g) es h \<and> roots_only h (node_set h)"])
    (use h in \<open>auto intro!: filterEdge_ok [OF ok]\<close>)

lemma abs_nodes_same:
  assumes "node_set h' = node_set h" "\<forall>x \<in> node_set h. get (f_nodes h') x = get (f_nodes h) x"
  shows "abs_nodes h' = abs_nodes h"
proof
  show "abs_nodes h' x = abs_nodes h x" for x
  proof (cases "x \<in> node_set h")
    case True
    with assms(2) show ?thesis by (simp add: abs_nodes_def)
  next
    case False
    with assms(1) have "x \<notin> node_set h'" by simp
    with False show ?thesis unfolding node_set_abs by (simp add: domIff)
  qed
qed

definition placed :: "('g, 'n, 'e) Graph \<Rightarrow> string list \<Rightarrow> ('g, 'n, 'e) Graph \<Rightarrow> bool" where
  "placed g ys h \<longleftrightarrow> (\<forall>x \<in> node_set h.
     if x \<in> set ys then \<exists>r. nearest_kept g (node_set h) x r \<and> get (f_parent h) x = Some (parent_or_root r)
     else get (f_parent h) x = Some GRAPH_NODE)"

text \<open>In the copy a node never comes to lie below itself.\<close>

lemma placed_acyclic:
  fixes g h :: "('g, 'n, 'e) Graph"
  assumes ok: "graph_ok g" "f_isCompound g" "graph_ok h" "f_isCompound h" and pl: "placed g ys h"
    and v: "v \<noteq> GRAPH_NODE" "(v, p) \<in> (parent_rel (f_parent g))\<^sup>+"
  shows "(p, v) \<notin> (parent_rel (f_parent h))\<^sup>*"
proof
  let ?R = "parent_rel (f_parent g)"
  note T = graph_okD(4) [OF ok(1,2)] and T1 = graph_okD(4) [OF ok(3,4)]
  assume path: "(p, v) \<in> (parent_rel (f_parent h))\<^sup>*"
  have "(p, v) \<in> (?R\<^sup>+)\<^sup>*"
  proof (rule path_avoids [OF path v(1) tree_ok_dead_end [OF T1]])
    fix x y assume xy: "(x, y) \<in> parent_rel (f_parent h)" "y \<noteq> GRAPH_NODE"
    then have get: "get (f_parent h) x = Some y" by (simp add: parent_rel_def)
    have "x \<in> node_set h" using tree_okD(2) [OF T1] get by (auto dest: get_Some_key)
    with pl get xy(2) obtain r where r: "nearest_kept g (node_set h) x r" "y = parent_or_root r"
      unfolding placed_def by (auto split: if_splits)
    with xy(2) have "r = Some y" by (cases r) (simp_all add: parent_or_root_def)
    with nearest_kept_ancestor [OF r(1)] show "(x, y) \<in> ?R\<^sup>+" by blast
  qed
  then have "(p, v) \<in> ?R\<^sup>*" by simp
  with v(2) have "(v, v) \<in> ?R\<^sup>+" by (meson trancl_rtrancl_trancl)
  with tree_okD(1) [OF T] show False by (simp add: acyclic_def)
qed

lemma filterParent_ok:
  fixes g h :: "('g, 'n, 'e) Graph"
  assumes ok: "graph_ok g" "f_isCompound g" and h: "filtered keep g (nodes g) (edges g) h" "placed g ys h"
    and memo: "memo_ok g (node_set h) parents" and v: "v \<in> node_set h" "v \<notin> set ys"
  shows "\<exists>h' parents'. filterParent g v (h, parents) = Inr (h', parents') \<and> filtered keep g (nodes g) (edges g) h' \<and>
    placed g (ys @ [v]) h' \<and> memo_ok g (node_set h') parents' \<and> node_set h' = node_set h"
proof -
  let ?R = "parent_rel (f_parent g)"
  note H = filteredD [OF h(1)] and T = graph_okD(4) [OF ok]
  have c: "f_isCompound h" using H(3) ok(2) by (simp add: same_kind_def)
  have vg: "v \<in> node_set g" using v(1) H(4) by (auto simp: node_set_abs)
  have vn: "v \<noteq> GRAPH_NODE" using compound_nodes [OF ok] vg by auto
  have "y \<in> insert GRAPH_NODE (node_set g)" if "(v, y) \<in> ?R\<^sup>+" for y
    using that by (cases rule: tranclE) (use tree_okD(10) [OF T] in \<open>auto simp: parent_rel_def\<close>)
  moreover have "(v, v) \<notin> ?R\<^sup>+" using tree_okD(1) [OF T] by (simp add: acyclic_def)
  ultimately have "?R\<^sup>+ `` {v} \<subseteq> insert GRAPH_NODE (node_set g - {v})" by auto
  then have "card (?R\<^sup>+ `` {v}) \<le> card (insert GRAPH_NODE (node_set g - {v}))"
    by (rule card_mono [rotated]) (simp add: node_set_def)
  also have "\<dots> \<le> card (node_set g)"
    using vg card_Suc_Diff1 [of "node_set g" v] card_insert_le_m1 [of "card (node_set g)" "node_set g - {v}"]
    by (simp add: node_set_def card_insert_if)
  also have "\<dots> = length (nodes g)" using distinct_card [OF distinct_nodes [OF ok(1)]] by (simp add: nodes_set)
  finally have fuel: "card (?R\<^sup>+ `` {v}) < length (nodes g) + 1" by simp
  obtain r parents' where r: "findParent (length (nodes g) + 1) g h v parents = Inr (r, parents')"
    "nearest_kept g (node_set h) v r" "memo_ok g (node_set h) parents'"
    using findParent_ok [OF ok memo vg fuel] by blast
  have acyc: "(p, v) \<notin> (parent_rel (f_parent h))\<^sup>*" if "r = Some p" for p
    using placed_acyclic [OF ok H(1) c h(2) vn] nearest_kept_ancestor [OF r(2) that] by blast
  have rn: "r \<noteq> Some GRAPH_NODE" "set_option r \<subseteq> node_set h" using nearest_kept_ancestor [OF r(2)] by (cases r; auto)+
  obtain h' where h': "setParent v r h = Inr h'" "graph_ok h'" "same_flags h h'"
    "f_edgeObjs h' = f_edgeObjs h" "f_edgeLabels h' = f_edgeLabels h"
    "node_set h' = insert v (set_option r \<union> node_set h)" "\<forall>x\<in>node_set h. get (f_nodes h') x = get (f_nodes h) x"
    "\<forall>x. get (f_parent h') x = (if x = v then Some (parent_or_root r)
        else if r = Some x \<and> x \<notin> node_set h then Some GRAPH_NODE else get (f_parent h) x)"
    using setParent_ok [OF H(1) c vn rn(1) acyc] by blast
  have ns: "node_set h' = node_set h" using h'(6) v(1) rn(2) by auto
  have "filtered keep g (nodes g) (edges g) h'"
    using H h'(2,4) abs_nodes_same [OF ns h'(7)] abs_edges_same [OF h'(4,5,3)] same_kind_flags [OF H(3) h'(3)]
    by (simp add: filtered_def clean_graph_def edges_def)
  moreover have "placed g (ys @ [v]) h'"
    unfolding placed_def ns using h(2) h'(8) r(2) by (auto simp: placed_def)
  moreover have "filterParent g v (h, parents) = Inr (h', parents')" using r(1) h'(1) by (simp add: filterParent_def)
  ultimately show ?thesis using r(3) ns by auto
qed

text \<open>\<open>filterNodes\<close> returns a consistent graph of the same kind with exactly the nodes that pass the filter and the
  edges between them, with their labels, and each node lies inside its nearest ancestor that passes.\<close>

theorem filterNodes_keeps_the_filtered_part:
  fixes g :: "('g, 'n, 'e) Graph"
  assumes ok: "graph_ok g" "clean_graph g"
  shows "\<exists>h. filterNodes keep g = Inr h \<and> graph_ok h \<and> same_kind g h \<and> abs_nodes h = abs_nodes g |` {v. keep v} \<and>
    abs_edges h = abs_edges g |` kept_edges keep \<and>
    (\<forall>v \<in> node_set h. nearest_kept g (node_set h) v (parent v h))"
proof -
  let ?start = "setGraph (graph g) (newGraph (Some (isDirected g)) (Some (isMultigraph g)) (Some (isCompound g))) :: ('g, 'n, 'e) Graph"
  obtain h0 h1 where h0: "rfold (filterNode keep g) (nodes g) ?start = Inr h0"
    and h1: "rfold (filterEdge g) (edges g) h0 = Inr h1" "filtered keep g (nodes g) (edges g) h1" "roots_only h1 (node_set h1)"
    using filter_nodes_phase [OF ok(1)] filter_edges_phase [OF ok] by blast
  have full: "abs_nodes h = abs_nodes g |` {v. keep v}" "abs_edges h = abs_edges g |` kept_edges keep"
    if "filtered keep g (nodes g) (edges g) h" for h
    using filteredD(4,5) [OF that] dom_abs_edges [OF ok(1)]
    by (auto simp: restrict_map_def fun_eq_iff nodes_set node_set_abs domIff set_eq_iff)
  show ?thesis
  proof (cases "f_isCompound g")
    case False
    then have "\<forall>v \<in> node_set h1. nearest_kept g (node_set h1) v (parent v h1)"
      using filteredD(3) [OF h1(2)] by (auto simp: same_kind_def parent_def intro: top_level)
    with False h0 h1(1) filteredD [OF h1(2)] full [OF h1(2)] show ?thesis by (simp add: filterNodes_def isCompound_def)
  next
    case True
    have c: "f_isCompound h1" using filteredD(3) [OF h1(2)] True by (simp add: same_kind_def)
    let ?P = "\<lambda>ys (st :: ('g, 'n, 'e) Graph \<times> string option obj). filtered keep g (nodes g) (edges g) (fst st) \<and>
      placed g ys (fst st) \<and> memo_ok g (node_set (fst st)) (snd st) \<and> node_set (fst st) = node_set h1"
    have "\<exists>st. rfold (filterParent g) (nodes h1) (h1, []) = Inr st \<and> ?P (nodes h1) st"
    proof (rule rfold_prefix_invariant [where P = ?P])
      show "?P [] (h1, [])" using h1(2,3) c by (auto simp: placed_def roots_only_def memo_ok_def)
    next
      fix ys v zs st
      assume split: "nodes h1 = ys @ v # zs" and st: "?P ys st"
      have "v \<in> node_set h1" "v \<notin> set ys"
        using split distinct_nodes [OF filteredD(1) [OF h1(2)]] by (auto simp flip: nodes_set)
      with filterParent_ok [OF ok(1) True, where h = "fst st" and parents = "snd st"] st
      show "\<exists>st'. filterParent g v st = Inr st' \<and> ?P (ys @ [v]) st'" by auto
    qed
    then obtain st where st: "rfold (filterParent g) (nodes h1) (h1, []) = Inr st" "?P (nodes h1) st" by blast
    note F = filteredD [OF conjunct1 [OF st(2)]]
    have "nearest_kept g (node_set (fst st)) v (parent v (fst st))" if "v \<in> node_set (fst st)" for v
    proof -
      from st(2) that obtain r where r: "nearest_kept g (node_set (fst st)) v r" "get (f_parent (fst st)) v = Some (parent_or_root r)"
        by (auto simp: placed_def nodes_set split: if_splits)
      have "parent v (fst st) = r"
        using r nearest_kept_ancestor [OF r(1)] F(3) True by (cases r) (auto simp: parent_def parent_or_root_def same_kind_def)
      with r(1) show ?thesis by simp
    qed
    with True h0 h1(1) st(1) F full [OF conjunct1 [OF st(2)]] show ?thesis by (simp add: filterNodes_def isCompound_def)
  qed
qed

theorem filterNodes_keeps_the_filtered_part_witness:
  "\<exists>g h. setNode ''a'' (Some (Some 3)) (newGraph (Some False) (Some True) (Some True) :: (int, int, int) Graph) = Inr g \<and>
     filterNodes (\<lambda>v. v = ''a'') g = Inr h \<and> graph_ok h \<and> same_kind g h \<and> abs_nodes h = abs_nodes g |` {v. v = ''a''}"
proof -
  let ?g0 = "newGraph (Some False) (Some True) (Some True) :: (int, int, int) Graph"
  have na: "f_isCompound ?g0 \<longrightarrow> ''a'' \<noteq> GRAPH_NODE" by (simp add: GRAPH_NODE_def)
  obtain g where g: "setNode ''a'' (Some (Some 3)) ?g0 = Inr g" "graph_ok g" "f_edgeObjs g = f_edgeObjs ?g0"
    using setNode_ok [OF graph_ok_new na, of "Some (Some 3)"] by auto
  then have "clean_graph g" by (simp add: clean_graph_def edges_def newGraph_def)
  from filterNodes_keeps_the_filtered_part [OF g(2) this, of "\<lambda>v. v = ''a''"] g(1) show ?thesis by blast
qed

end
