(* ===== verification/Graphlib_Json.thy ===== *)
theory Graphlib_Json
  imports Graphlib_Copy
begin

text \<open>
  \<open>json.write\<close> and \<open>json.read\<close> of graphlib (\<open>lib/json\<close>): the plain description of a graph and the graph
  built from it. The main result is the round trip: reading what was written gives the same nodes, edges,
  labels, flags and parents.
\<close>

section \<open>Writing and reading\<close>

record 'n jsonNode =
  jn_v :: string
  jn_value :: "'n option"
  jn_parent :: "string option"

record 'e jsonEdge =
  je_v :: string
  je_w :: string
  je_name :: "string option"
  je_value :: "'e option"

record ('g, 'n, 'e) jsonGraph =
  jg_directed :: bool
  jg_multigraph :: bool
  jg_compound :: bool
  jg_nodes :: "'n jsonNode list"
  jg_edges :: "'e jsonEdge list"
  jg_value :: "'g option"

definition writeNodes :: "('g, 'n, 'e) Graph \<Rightarrow> 'n jsonNode list" where
  "writeNodes g = map (\<lambda>v. \<lparr>jn_v = v, jn_value = node v g, jn_parent = parent v g\<rparr>) (nodes g)"

definition writeEdges :: "('g, 'n, 'e) Graph \<Rightarrow> 'e jsonEdge list" where
  "writeEdges g =
     map (\<lambda>e. \<lparr>je_v = e_v e, je_w = e_w e, je_name = e_name e, je_value = edgeOfObj e g\<rparr>) (edges g)"

definition json_write :: "('g, 'n, 'e) Graph \<Rightarrow> ('g, 'n, 'e) jsonGraph" where
  "json_write g =
     \<lparr>jg_directed = isDirected g, jg_multigraph = isMultigraph g, jg_compound = isCompound g,
      jg_nodes = writeNodes g, jg_edges = writeEdges g, jg_value = graph g\<rparr>"

text \<open>The bodies of the two loops of \<open>read\<close>. A parent counts only when it is truthy.\<close>

definition readNode :: "'n jsonNode \<Rightarrow> ('g, 'n, 'e) Graph \<Rightarrow> ('g, 'n, 'e) Graph result" where
  "readNode entry g =
     rbind (setNode (jn_v entry) (Some (jn_value entry)) g) (\<lambda>g1.
       case jn_parent entry of
         Some p \<Rightarrow> if p \<noteq> [] then setParent (jn_v entry) (Some p) g1 else Inr g1
       | None \<Rightarrow> Inr g1)"

definition readEdge :: "'e jsonEdge \<Rightarrow> ('g, 'n, 'e) Graph \<Rightarrow> ('g, 'n, 'e) Graph result" where
  "readEdge entry g =
     setEdgeObj \<lparr>e_v = je_v entry, e_w = je_w entry, e_name = je_name entry\<rparr> (Some (je_value entry)) g"

definition json_read :: "('g, 'n, 'e) jsonGraph \<Rightarrow> ('g, 'n, 'e) Graph result" where
  "json_read json =
     rbind (rfold readNode (jg_nodes json)
        (setGraph (jg_value json)
          (newGraph (Some (jg_directed json)) (Some (jg_multigraph json)) (Some (jg_compound json)))))
       (rfold readEdge (jg_edges json))"

section \<open>Reading the nodes\<close>

text \<open>After the entries of \<open>ys\<close> have been read: their labels and parents are in place; other nodes are
  parents that were created early, still at the top level.\<close>

definition nodes_read :: "('g, 'n, 'e) Graph \<Rightarrow> string list \<Rightarrow> ('g, 'n, 'e) Graph \<Rightarrow> bool" where
  "nodes_read g ys h \<longleftrightarrow> graph_ok h \<and> same_kind g h \<and> f_edgeObjs h = [] \<and> f_edgeLabels h = [] \<and>
     set ys \<subseteq> node_set h \<and> node_set h \<subseteq> node_set g \<and>
     (\<forall>y \<in> set ys. get (f_nodes h) y = get (f_nodes g) y) \<and>
     (f_isCompound g \<longrightarrow> (\<forall>x \<in> node_set h.
        get (f_parent h) x = (if x \<in> set ys then get (f_parent g) x else Some GRAPH_NODE)))"

lemma nodes_readD:
  assumes "nodes_read g ys h"
  shows "graph_ok h" "same_kind g h" "f_edgeObjs h = []" "f_edgeLabels h = []" "set ys \<subseteq> node_set h"
    "node_set h \<subseteq> node_set g"
    and "\<And>y. y \<in> set ys \<Longrightarrow> get (f_nodes h) y = get (f_nodes g) y"
    and "\<And>x. f_isCompound g \<Longrightarrow> x \<in> node_set h \<Longrightarrow>
        get (f_parent h) x = (if x \<in> set ys then get (f_parent g) x else Some GRAPH_NODE)"
  using assms unfolding nodes_read_def by blast+

text \<open>The label of the entry.\<close>

lemma readNode_label:
  fixes g h :: "('g, 'n, 'e) Graph"
  assumes ok: "graph_ok g" and h: "nodes_read g ys h" and v: "v \<in> node_set g" "v \<notin> set ys"
  shows "\<exists>h1. setNode v (Some (node v g)) h = Inr h1 \<and> graph_ok h1 \<and> same_kind g h1 \<and> f_edgeObjs h1 = [] \<and>
    f_edgeLabels h1 = [] \<and> node_set h1 = insert v (node_set h) \<and>
    (\<forall>y \<in> insert v (set ys). get (f_nodes h1) y = get (f_nodes g) y) \<and>
    (f_isCompound g \<longrightarrow> (\<forall>x \<in> node_set h1.
        get (f_parent h1) x = (if x \<in> set ys then get (f_parent g) x else Some GRAPH_NODE)))"
proof -
  note H = nodes_readD [OF h]
  have c: "f_isCompound h = f_isCompound g" using H(2) by (simp add: same_kind_def)
  have na: "f_isCompound h \<longrightarrow> v \<noteq> GRAPH_NODE" using compound_nodes [OF ok] v(1) c by auto
  obtain h1 where h1: "setNode v (Some (node v g)) h = Inr h1" "graph_ok h1" "same_flags h h1"
    "f_nodes h1 = put v (node v g) (f_nodes h)" "f_edgeObjs h1 = f_edgeObjs h" "f_edgeLabels h1 = f_edgeLabels h"
    "f_parent h1 = (if v \<in> node_set h \<or> \<not> f_isCompound h then f_parent h else put v GRAPH_NODE (f_parent h))"
    using setNode_ok [OF H(1) na, of "Some (node v g)"] by auto
  have ns: "node_set h1 = insert v (node_set h)" by (simp add: node_set_def h1(4))
  have "get (f_parent h1) x = (if x \<in> set ys then get (f_parent g) x else Some GRAPH_NODE)"
    if "f_isCompound g" "x \<in> node_set h1" for x
    using that H(5) H(8) [OF that(1), of x] h1(7) ns c v(2) by auto
  moreover have "get (f_nodes h1) y = get (f_nodes g) y" if "y \<in> insert v (set ys)" for y
    using that H(7) [of y] node_get [OF v(1)] h1(4) by auto
  moreover have "f_edgeObjs h1 = []" "f_edgeLabels h1 = []" using h1(5,6) H(3,4) by simp_all
  ultimately show ?thesis using h1(1,2) ns same_kind_flags [OF H(2) h1(3)] by blast
qed

text \<open>The parent of the entry: the paths of the parent table built so far are paths of the written graph.\<close>

lemma readNode_parent:
  fixes g h1 :: "('g, 'n, 'e) Graph"
  assumes ok: "graph_ok g" "f_isCompound g" and h1: "graph_ok h1" "f_isCompound h1"
    and v: "v \<in> node_set g" "v \<in> node_set h1" "v \<notin> set ys" "node_set h1 \<subseteq> node_set g" and p: "parent v g = Some p"
    and P: "\<And>x. x \<in> node_set h1 \<Longrightarrow> get (f_parent h1) x = (if x \<in> set ys then get (f_parent g) x else Some GRAPH_NODE)"
  shows "(p, v) \<notin> (parent_rel (f_parent h1))\<^sup>*"
proof
  assume path: "(p, v) \<in> (parent_rel (f_parent h1))\<^sup>*"
  note T = graph_okD(4) [OF ok] and T1 = graph_okD(4) [OF h1]
  have "(p, v) \<in> (parent_rel (f_parent g))\<^sup>*"
  proof (rule path_avoids [OF path])
    show "v \<noteq> GRAPH_NODE" using v(1) compound_nodes [OF ok] by auto
    show "GRAPH_NODE \<notin> Domain (parent_rel (f_parent h1))" by (rule tree_ok_dead_end [OF T1])
    fix x y assume "(x, y) \<in> parent_rel (f_parent h1)" "y \<noteq> GRAPH_NODE"
    moreover from this(1) have "x \<in> node_set h1"
      using tree_okD(2) [OF T1] by (auto simp: parent_rel_def dest: get_Some_key)
    ultimately show "(x, y) \<in> parent_rel (f_parent g)" using P [of x] by (auto simp: parent_rel_def split: if_splits)
  qed
  moreover have "(v, p) \<in> parent_rel (f_parent g)" using parent_get(1) [OF ok v(1)] p by (simp add: parent_rel_def)
  ultimately have "(v, v) \<in> (parent_rel (f_parent g))\<^sup>+" by (meson rtrancl_into_trancl2)
  with tree_okD(1) [OF T] show False by (simp add: acyclic_def)
qed

lemma readNode_ok:
  fixes g h :: "('g, 'n, 'e) Graph"
  assumes ok: "graph_ok g" and par: "parent v g \<noteq> Some []"
    and h: "nodes_read g ys h" and v: "v \<in> node_set g" "v \<notin> set ys"
  shows "\<exists>h'. readNode \<lparr>jn_v = v, jn_value = node v g, jn_parent = parent v g\<rparr> h = Inr h' \<and> nodes_read g (ys @ [v]) h'"
proof -
  note H = nodes_readD [OF h]
  obtain h1 where h1: "setNode v (Some (node v g)) h = Inr h1" "graph_ok h1" "same_kind g h1" "f_edgeObjs h1 = []"
    "f_edgeLabels h1 = []" "node_set h1 = insert v (node_set h)"
    "\<forall>y \<in> insert v (set ys). get (f_nodes h1) y = get (f_nodes g) y"
    "f_isCompound g \<longrightarrow> (\<forall>x \<in> node_set h1.
        get (f_parent h1) x = (if x \<in> set ys then get (f_parent g) x else Some GRAPH_NODE))"
    using readNode_label [OF ok h v] by blast
  have sub: "set (ys @ [v]) \<subseteq> node_set h1" "node_set h1 \<subseteq> node_set g" using H(5,6) h1(6) v(1) by auto
  have c: "f_isCompound h1 = f_isCompound g" using h1(3) by (simp add: same_kind_def)
  show ?thesis
  proof (cases "parent v g")
    case None
    then have "f_isCompound g \<Longrightarrow> get (f_parent g) v = Some GRAPH_NODE" using parent_get(1) [OF ok _ v(1)] by simp
    then have "nodes_read g (ys @ [v]) h1" using h1 sub v(2) by (auto simp: nodes_read_def)
    with None h1(1) show ?thesis by (simp add: readNode_def)
  next
    case (Some p)
    then have comp: "f_isCompound g" by (simp add: parent_def split: if_splits)
    have p: "p \<in> node_set g" "p \<noteq> GRAPH_NODE" "p \<noteq> []" "get (f_parent g) v = Some p"
      using parent_get [OF ok comp v(1)] Some par by auto
    have nocyc: "(p, v) \<notin> (parent_rel (f_parent h1))\<^sup>*"
      using readNode_parent [OF ok comp h1(2) _ v(1) _ v(2) sub(2) Some] h1(6,8) comp c by blast
    have vn: "v \<noteq> GRAPH_NODE" using v(1) compound_nodes [OF ok comp] by auto
    obtain h' where h': "setParent v (Some p) h1 = Inr h'" "graph_ok h'" "same_flags h1 h'"
      "f_edgeObjs h' = f_edgeObjs h1" "f_edgeLabels h' = f_edgeLabels h1" "node_set h' = insert v (insert p (node_set h1))"
      "\<forall>x \<in> node_set h1. get (f_nodes h') x = get (f_nodes h1) x"
      "\<forall>x. get (f_parent h') x = (if x = v then Some p
         else if p = x \<and> x \<notin> node_set h1 then Some GRAPH_NODE else get (f_parent h1) x)"
      using setParent_ok [OF h1(2) _ vn, of "Some p"] nocyc p(2) c comp by (auto simp: parent_or_root_def)
    have "get (f_nodes h') y = get (f_nodes g) y" if "y \<in> set (ys @ [v])" for y
      using that h'(7) h1(7) sub(1) by auto
    moreover have "get (f_parent h') x = (if x \<in> set (ys @ [v]) then get (f_parent g) x else Some GRAPH_NODE)"
      if "x \<in> node_set h'" for x
      using that h'(6,8) h1(8) comp p(4) sub(1) by auto
    moreover have "f_edgeObjs h' = []" "f_edgeLabels h' = []" using h1(4,5) h'(4,5) by simp_all
    ultimately have "nodes_read g (ys @ [v]) h'"
      unfolding nodes_read_def using h'(2,6) sub p(1) same_kind_flags [OF h1(3) h'(3)] by auto
    with Some p(3) h1(1) h'(1) show ?thesis by (simp add: readNode_def)
  qed
qed

lemma rfold_map: "rfold f (map k xs) s = rfold (\<lambda>x. f (k x)) xs s"
  by (induction xs arbitrary: s) (auto intro!: rbind_cong)

lemma nodes_phase:
  fixes g :: "('g, 'n, 'e) Graph"
  assumes ok: "graph_ok g" and par: "\<And>v. parent v g \<noteq> Some []"
  shows "\<exists>h. rfold readNode (writeNodes g)
      (setGraph (graph g) (newGraph (Some (isDirected g)) (Some (isMultigraph g)) (Some (isCompound g)))) = Inr h \<and>
    nodes_read g (nodes g) h"
proof -
  let ?entry = "\<lambda>v. \<lparr>jn_v = v, jn_value = node v g, jn_parent = parent v g\<rparr>"
  let ?h0 = "setGraph (graph g) (newGraph (Some (isDirected g)) (Some (isMultigraph g)) (Some (isCompound g))) :: ('g, 'n, 'e) Graph"
  have "graph_ok ?h0"
    using graph_ok_new [of "Some (isDirected g)" "Some (isMultigraph g)" "Some (isCompound g)", where 'a = 'g and 'b = 'n and 'c = 'e]
    by (simp add: setGraph_def graph_ok_def tables_ok_def node_set_def)
  then have start: "nodes_read g [] ?h0"
    by (simp add: nodes_read_def same_kind_def setGraph_def newGraph_def isDirected_def isMultigraph_def isCompound_def
        graph_def node_set_def Let_def)
  have "\<exists>h. rfold (\<lambda>v. readNode (?entry v)) (nodes g) ?h0 = Inr h \<and> nodes_read g (nodes g) h"
  proof (rule rfold_prefix_invariant [where P = "nodes_read g"])
    fix ys v zs h
    assume split: "nodes g = ys @ v # zs" and h: "nodes_read g ys h"
    have "v \<in> node_set g" "v \<notin> set ys" using split distinct_nodes [OF ok] by (auto simp flip: nodes_set)
    with readNode_ok [OF ok par h] show "\<exists>h'. readNode (?entry v) h = Inr h' \<and> nodes_read g (ys @ [v]) h'" by blast
  qed (rule start)
  then show ?thesis unfolding writeNodes_def rfold_map .
qed

section \<open>Reading the edges\<close>

definition edges_read :: "('g, 'n, 'e) Graph \<Rightarrow> edgeObj list \<Rightarrow> ('g, 'n, 'e) Graph \<Rightarrow> bool" where
  "edges_read g es h \<longleftrightarrow> graph_ok h \<and> clean_graph h \<and> same_kind g h \<and> node_set h = node_set g \<and>
     abs_nodes h = abs_nodes g \<and> abs_edges h = abs_edges g |` set es \<and>
     (f_isCompound g \<longrightarrow> (\<forall>x \<in> node_set g. get (f_parent h) x = get (f_parent g) x))"

lemma edges_start:
  fixes g h :: "('g, 'n, 'e) Graph"
  assumes "nodes_read g (nodes g) h"
  shows "edges_read g [] h"
proof -
  note H = nodes_readD [OF assms, unfolded nodes_set]
  have ns: "node_set h = node_set g" using H(5,6) by auto
  have "get (f_nodes h) x = get (f_nodes g) x" for x
    using H(7) [of x] ns get_None_iff [of "f_nodes h" x] get_None_iff [of "f_nodes g" x]
    by (cases "x \<in> node_set g") (simp_all add: node_set_def)
  moreover have "abs_edges h = Map.empty" "clean_graph h"
    using H(3) by (auto simp: abs_edges_def edges_def clean_graph_def)
  ultimately show ?thesis using H ns by (auto simp: edges_read_def abs_nodes_def)
qed

lemma readEdge_ok:
  fixes g h :: "('g, 'n, 'e) Graph"
  assumes ok: "graph_ok g" "clean_graph g" and e: "eo \<in> set (edges g)" and h: "edges_read g es h"
  shows "\<exists>h'. readEdge \<lparr>je_v = e_v eo, je_w = e_w eo, je_name = e_name eo, je_value = edgeOfObj eo g\<rparr> h = Inr h' \<and>
    edges_read g (es @ [eo]) h'"
proof -
  have H: "graph_ok h" "clean_graph h" "same_kind g h" "node_set h = node_set g" "abs_nodes h = abs_nodes g"
    "abs_edges h = abs_edges g |` set es"
    and par: "f_isCompound g \<longrightarrow> (\<forall>x \<in> node_set g. get (f_parent h) x = get (f_parent g) x)"
    using h by (simp_all add: edges_read_def)
  have ends: "e_v eo \<in> node_set h" "e_w eo \<in> node_set h" using edges_ends [OF ok(1) e] H(4) by auto
  obtain h' where h': "setEdgeObj eo (Some (edgeOfObj eo g)) h = Inr h'" "graph_ok h'" "clean_graph h'" "same_flags h h'"
    "abs_edges h' = (abs_edges h)(eo := abs_edges g eo)" "abs_nodes h' = abs_nodes h"
    "\<forall>x \<in> node_set h. get (f_parent h') x = get (f_parent h) x"
    using copy_edge_ok [OF ok e H(1,2) _ _ ends] H(3) by (auto simp: same_kind_def)
  have "node_set h' = node_set g" using h'(6) H(4) by (simp add: node_set_abs)
  moreover have "abs_edges h' = abs_edges g |` set (es @ [eo])"
    using h'(5) H(6) by (auto simp: restrict_map_def fun_eq_iff)
  ultimately have "edges_read g (es @ [eo]) h'"
    using h'(2,3,6,7) H(4,5) par same_kind_flags [OF H(3) h'(4)] by (simp add: edges_read_def)
  with h'(1) show ?thesis by (simp add: readEdge_def setEdgeObj_def)
qed

lemma edges_phase:
  fixes g h :: "('g, 'n, 'e) Graph"
  assumes "graph_ok g" "clean_graph g" "edges_read g [] h"
  shows "\<exists>h'. rfold readEdge (writeEdges g) h = Inr h' \<and> edges_read g (edges g) h'"
proof -
  let ?entry = "\<lambda>e. \<lparr>je_v = e_v e, je_w = e_w e, je_name = e_name e, je_value = edgeOfObj e g\<rparr>"
  have "\<exists>h'. rfold (\<lambda>e. readEdge (?entry e)) (edges g) h = Inr h' \<and> edges_read g (edges g) h'"
  proof (rule rfold_prefix_invariant [where P = "edges_read g"])
    fix ys e zs h1
    assume "edges g = ys @ e # zs" and h1: "edges_read g ys h1"
    then have "e \<in> set (edges g)" by simp
    with readEdge_ok [OF assms(1,2) _ h1]
    show "\<exists>h'. readEdge (?entry e) h1 = Inr h' \<and> edges_read g (ys @ [e]) h'" by blast
  qed (rule assms(3))
  then show ?thesis unfolding writeEdges_def rfold_map .
qed

lemma same_parents:
  fixes g h :: "('g, 'n, 'e) Graph"
  assumes ok: "graph_ok g" "graph_ok h" and e: "edges_read g es h"
  shows "parent v h = parent v g"
proof -
  have c: "f_isCompound h = f_isCompound g" and ns: "node_set h = node_set g"
    using e by (simp_all add: edges_read_def same_kind_def)
  have "get (f_parent h) v = get (f_parent g) v" if comp: "f_isCompound g"
  proof (cases "v \<in> node_set g")
    case True
    with e comp show ?thesis by (simp add: edges_read_def)
  next
    case False
    with ns tree_okD(2) [OF graph_okD(4) [OF ok(1) comp]] tree_okD(2) [OF graph_okD(4) [OF ok(2)]] comp c
    show ?thesis by (metis get_None_iff)
  qed
  with c show ?thesis by (simp add: parent_def)
qed

text \<open>C26. Reading back what \<open>json.write\<close> wrote gives the same graph: for a consistent graph whose ids are free of
  the edge delimiter and in which no parent is the empty string, \<open>json.read\<close> returns (it does not throw), and the
  result has the same kind, the same label, the same nodes and edges with the same labels, and the same parents.\<close>

theorem json_round_trip:
  fixes g :: "('g, 'n, 'e) Graph"
  assumes "graph_ok g" "clean_graph g" "\<And>v. parent v g \<noteq> Some []"
  shows "\<exists>h. json_read (json_write g) = Inr h \<and> graph_ok h \<and> isDirected h = isDirected g \<and>
    isMultigraph h = isMultigraph g \<and> isCompound h = isCompound g \<and> graph h = graph g \<and>
    abs_nodes h = abs_nodes g \<and> abs_edges h = abs_edges g \<and> (\<forall>v. parent v h = parent v g)"
proof -
  obtain h0 h where h0: "rfold readNode (writeNodes g)
      (setGraph (graph g) (newGraph (Some (isDirected g)) (Some (isMultigraph g)) (Some (isCompound g)))) = Inr h0"
    and h: "rfold readEdge (writeEdges g) h0 = Inr h" "edges_read g (edges g) h"
    using nodes_phase [OF assms(1,3)] edges_start edges_phase [OF assms(1,2)] by blast
  have ok: "graph_ok h" and k: "same_kind g h" "abs_nodes h = abs_nodes g" "abs_edges h = abs_edges g |` dom (abs_edges g)"
    using h(2) dom_abs_edges [OF assms(1)] by (simp_all add: edges_read_def)
  have "abs_edges g |` dom (abs_edges g) = abs_edges g" by (simp add: restrict_map_def fun_eq_iff domIff)
  with h0 h k ok same_parents [OF assms(1) ok h(2)] show ?thesis
    by (simp add: json_read_def json_write_def same_kind_def isDirected_def isMultigraph_def isCompound_def graph_def)
qed

theorem json_round_trip_witness:
  "\<exists>g h. setNode ''a'' (Some (Some 3)) (newGraph (Some False) (Some True) (Some True) :: (int, int, int) Graph) = Inr g \<and>
     json_read (json_write g) = Inr h \<and> graph_ok h \<and> isCompound h = isCompound g \<and> abs_nodes h = abs_nodes g"
proof -
  let ?g0 = "newGraph (Some False) (Some True) (Some True) :: (int, int, int) Graph"
  have na: "f_isCompound ?g0 \<longrightarrow> ''a'' \<noteq> GRAPH_NODE" by (simp add: GRAPH_NODE_def)
  obtain g where g: "setNode ''a'' (Some (Some 3)) ?g0 = Inr g" "graph_ok g" "same_flags ?g0 g"
    "f_edgeObjs g = f_edgeObjs ?g0" "f_parent g = put ''a'' GRAPH_NODE (f_parent ?g0)"
    using setNode_ok [OF graph_ok_new na, of "Some (Some 3)"] by (auto simp: newGraph_def node_set_def)
  then have "clean_graph g" "parent v g \<noteq> Some []" for v
    by (simp_all add: clean_graph_def edges_def newGraph_def parent_def)
  from json_round_trip [OF g(2) this] g(1) show ?thesis by blast
qed

end
