(* ===== verification/Dm_Graph.thy ===== *)
theory Dm_Graph
  imports Graphlib_Spec Js_Strings
begin

text \<open>
  The drawing of a session's graph (\<^verbatim>\<open>dm.js\<close>: \<open>drawGraphForDrops\<close>, \<open>_addNode\<close>, \<open>_addEdge\<close>). Each poll of
  the server hands the specifications of all drops to \<open>drawGraphForDrops\<close>, which adds what is
  missing to the graphlib graph and redraws only when something was added. The label of a node is
  the object given to \<open>setNode\<close>; the rendering itself is not part of the model, its call is the
  flag that the operations return.
\<close>

section \<open>Data\<close>

definition TYPE_SHAPES :: "string obj" where
  "TYPE_SHAPES = [(''app'', ''rect''), (''container'', ''parallelogram''), (''socket'', ''parallelogram''), (''data'', ''parallelogram'')]"

definition TO_MANY_LTR_RELS :: "string list" where
  "TO_MANY_LTR_RELS = [''consumers'', ''streamingConsumers'', ''outputs'']"

definition TO_MANY_RTL_RELS :: "string list" where
  "TO_MANY_RTL_RELS = [''inputs'', ''streamingInputs'', ''producers'']"

text \<open>A reference to another drop is its id, or an object whose first key is the id.\<close>

datatype dropRef = OidRef string | ObjRef "string list"

text \<open>The fields of a drop specification the pages read; a missing field is \<open>None\<close>, the relations
  are the properties whose value is a list of references.\<close>

record dropSpec =
  d_oid :: "string option"
  d_type :: "string option"
  d_name :: "string option"
  d_app :: "string option"
  d_port :: "string option"
  d_storage :: "string option"
  d_humanReadableKey :: "string option"
  d_category :: "string option"
  d_rels :: "dropRef list obj"

record nodeLabel =
  nl_labelType :: string
  nl_label :: string
  nl_rx :: int
  nl_ry :: int
  nl_padding :: int
  nl_class :: "string option"
  nl_shape :: "string option"

record edgeLabel =
  el_width :: int

section \<open>Operations\<close>

definition dropNotes :: "dropSpec \<Rightarrow> string result" where
  "dropNotes doSpec =
     (let notes = (if truthy (d_name doSpec) then ''<span>'' @ js_str (d_name doSpec) @ ''</span>'' else []) in
      if d_type doSpec = Some ''app'' then
        rbind (deref (d_app doSpec)) (\<lambda>app. Inr (notes @ last (split_on CHR ''.'' app)))
      else if d_type doSpec = Some ''socket'' then Inr (notes @ ''port: '' @ js_str (d_port doSpec))
      else if d_type doSpec = Some ''plain'' then Inr (notes @ ''storage: '' @ js_str (d_storage doSpec))
      else Inr notes)"

text \<open>The single quote of the attribute values.\<close>

definition sq :: string where "sq = [CHR 0x27]"

definition dropHtml :: "string \<Rightarrow> dropSpec \<Rightarrow> string result" where
  "dropHtml url doSpec =
     rbind (dropNotes doSpec) (\<lambda>notes.
     rbind (deref (d_oid doSpec)) (\<lambda>oid.
     rbind (deref (d_humanReadableKey doSpec)) (\<lambda>hrk.
       let base = replace_first ''api/'' [] url;
           log_url = base @ ''/graph/drop/'' @ oid;
           file_url = base @ ''/graph/drop/'' @ ''data/'' @ oid;
           typeShape = (case d_type doSpec of Some t \<Rightarrow> get TYPE_SHAPES t | None \<Rightarrow> None);
           log_link = ''<a href='' @ log_url @ '' target='' @ sq @ ''_blank'' @ sq @ ''>Details</a>'';
           file_link = ''<a href='' @ file_url @ '' target='' @ sq @ ''_blank'' @ sq @ ''>Download</a>'';
           human_readable_id = hd (split_on CHR ''_'' oid) @ ''_'' @ hrk
       in Inr (''<div class=\"drop-label '' @ js_str typeShape @ ''\" id=\"id_'' @ oid @ ''\">'' @
               ''<span class=\"notes\">'' @ notes @ ''</span>'' @
               ''<span style=\"font-size: 13px;\">'' @ human_readable_id @ ''</span>'' @
               ''<span style=\"font-size: 13px;float: left\">'' @ log_link @ ''</span>'' @
               (if d_category doSpec = Some ''File''
                then ''<span style=\"font-size: 13px;float: right\">'' @ file_link @ ''</span>'' else []) @
               ''</div>''))))"

definition dropLabel :: "string \<Rightarrow> dropSpec \<Rightarrow> nodeLabel result" where
  "dropLabel url doSpec =
     rbind (dropHtml url doSpec) (\<lambda>html.
       Inr \<lparr>nl_labelType = ''html'', nl_label = html, nl_rx = 5, nl_ry = 5, nl_padding = 0,
            nl_class = d_type doSpec,
            nl_shape = (case d_type doSpec of Some t \<Rightarrow> get TYPE_SHAPES t | None \<Rightarrow> None)\<rparr>)"

type_synonym 'g dropGraph = "('g, nodeLabel, edgeLabel) Graph"

text \<open>\<open>_addNode\<close>: the flag is the function's return value. An id of \<open>undefined\<close> is looked up
  under its string.\<close>

definition addNode :: "string \<Rightarrow> dropSpec \<Rightarrow> 'g dropGraph \<Rightarrow> (bool \<times> 'g dropGraph) result" where
  "addNode url doSpec g =
     (if hasNode (js_str (d_oid doSpec)) g then Inr (False, g)
      else
        rbind (dropLabel url doSpec) (\<lambda>label.
        rbind (setNode (js_str (d_oid doSpec)) (Some (Some label)) g) (\<lambda>g'. Inr (True, g'))))"

text \<open>\<open>if (x.constructor == Object) x = Object.keys(x)[0]\<close>.\<close>

definition refOid :: "dropRef \<Rightarrow> string" where
  "refOid r = (case r of OidRef oid \<Rightarrow> oid | ObjRef (k # _) \<Rightarrow> k | ObjRef [] \<Rightarrow> ''undefined'')"

text \<open>\<open>_addEdge\<close>: reading the constructor of an \<open>undefined\<close> end throws.\<close>

definition addEdge :: "dropRef option \<times> dropRef option \<Rightarrow> 'g dropGraph \<Rightarrow> (bool \<times> 'g dropGraph) result" where
  "addEdge ends g =
     rbind (deref (fst ends)) (\<lambda>from. rbind (deref (snd ends)) (\<lambda>to.
       let fromOid = refOid from; toOid = refOid to in
       if hasEdge fromOid toOid None g then Inr (False, g)
       else if \<not> hasNode fromOid g then Inr (False, g)
       else if \<not> hasNode toOid g then Inr (False, g)
       else rbind (setEdge fromOid toOid (Some (Some \<lparr>el_width = 40\<rparr>)) None g) (\<lambda>g'. Inr (True, g'))))"

text \<open>The ends of the calls of \<open>_addEdge\<close> for one specification, in order: a relation that is
  missing contributes none.\<close>

definition relRefs :: "dropSpec \<Rightarrow> string \<Rightarrow> dropRef list" where
  "relRefs doSpec rel = (case get (d_rels doSpec) rel of Some rs \<Rightarrow> rs | None \<Rightarrow> [])"

definition relEdges :: "dropSpec \<Rightarrow> (dropRef option \<times> dropRef option) list" where
  "relEdges doSpec =
     (let lhOid = map_option OidRef (d_oid doSpec) in
      concat (map (\<lambda>rel. map (\<lambda>r. (lhOid, Some r)) (relRefs doSpec rel)) TO_MANY_LTR_RELS) @
      concat (map (\<lambda>rel. map (\<lambda>r. (Some r, lhOid)) (relRefs doSpec rel)) TO_MANY_RTL_RELS))"

text \<open>\<open>modified |= step(x)\<close>.\<close>

definition track :: "('x \<Rightarrow> 's \<Rightarrow> (bool \<times> 's) result) \<Rightarrow> 'x \<Rightarrow> bool \<times> 's \<Rightarrow> (bool \<times> 's) result" where
  "track step x ms = rbind (step x (snd ms)) (\<lambda>(m', s'). Inr (fst ms \<or> m', s'))"

lemma track_step: "step x s = Inr (m', s') \<Longrightarrow> track step x (m, s) = Inr (m \<or> m', s')"
  by (simp add: track_def)

text \<open>The result is the flag that the graph was drawn again, and the graph.\<close>

definition drawGraphForDrops ::
  "string list \<Rightarrow> dropSpec obj \<Rightarrow> string \<Rightarrow> 'g dropGraph \<Rightarrow> (bool \<times> 'g dropGraph) result" where
  "drawGraphForDrops oids doSpecs url g =
     rbind (rfold (\<lambda>oid ms.
              if oid \<noteq> ''reprodata'' then
                rbind (deref (get doSpecs oid)) (\<lambda>doSpec. track (addNode url) doSpec ms)
              else Inr ms) oids (False, g)) (\<lambda>ms.
     rfold (\<lambda>oid ms.
        rbind (deref (get doSpecs oid)) (\<lambda>doSpec. rfold (track addEdge) (relEdges doSpec) ms)) oids ms)"

section \<open>Incremental construction\<close>

text \<open>Both phases build up the graph by steps that report whether they changed it. A step that is
  settled (it would change nothing) stays settled under the other steps of its phase, and a step
  that changes the state makes it larger; then a run settles all its steps, so that a second
  run changes nothing, and its flag tells whether the state changed.\<close>

locale incremental =
  fixes step :: "'x \<Rightarrow> 's \<Rightarrow> (bool \<times> 's) result"
    and ok :: "'x \<Rightarrow> bool"
    and inv :: "'s \<Rightarrow> bool"
    and weight :: "'s \<Rightarrow> nat"
  assumes step_ok: "inv s \<Longrightarrow> ok x \<Longrightarrow> \<exists>m s'. step x s = Inr (m, s') \<and> inv s'"
    and settles: "inv s \<Longrightarrow> ok x \<Longrightarrow> step x s = Inr (m, s') \<Longrightarrow> step x s' = Inr (False, s')"
    and stays: "inv s \<Longrightarrow> ok x \<Longrightarrow> ok y \<Longrightarrow> step x s = Inr (False, s) \<Longrightarrow> step y s = Inr (m, s') \<Longrightarrow>
      step x s' = Inr (False, s')"
    and unchanged: "inv s \<Longrightarrow> ok x \<Longrightarrow> step x s = Inr (False, s') \<Longrightarrow> s' = s"
    and grows: "inv s \<Longrightarrow> ok x \<Longrightarrow> step x s = Inr (True, s') \<Longrightarrow> weight s < weight s'"
begin

lemma run_ok:
  "inv s \<Longrightarrow> (\<And>x. x \<in> set xs \<Longrightarrow> ok x) \<Longrightarrow> \<exists>m' s'. rfold (track step) xs (m, s) = Inr (m', s') \<and> inv s'"
proof (induction xs arbitrary: m s)
  case (Cons x xs)
  obtain m1 s1 where "step x s = Inr (m1, s1)" "inv s1" using step_ok [of s x] Cons.prems by auto
  with Cons.IH [of s1 "m \<or> m1"] Cons.prems show ?case by (simp add: track_step)
qed simp

lemma run_stays:
  assumes "inv s" "ok x" "\<And>y. y \<in> set ys \<Longrightarrow> ok y" "step x s = Inr (False, s)"
    "rfold (track step) ys (m, s) = Inr (m', s')"
  shows "step x s' = Inr (False, s')"
  using assms
proof (induction ys arbitrary: m s)
  case (Cons y ys)
  obtain m1 s1 where "step y s = Inr (m1, s1)" "inv s1" using step_ok [of s y] Cons.prems by auto
  moreover from this stays [of s x y] Cons.prems have "step x s1 = Inr (False, s1)" by simp
  ultimately show ?case using Cons.IH [of s1 "m \<or> m1"] Cons.prems by (simp add: track_step)
qed simp

lemma run_settles:
  assumes "inv s" "\<And>y. y \<in> set ys \<Longrightarrow> ok y" "rfold (track step) ys (m, s) = Inr (m', s')" "x \<in> set ys"
  shows "step x s' = Inr (False, s')"
  using assms
proof (induction ys arbitrary: m s)
  case (Cons y ys)
  obtain m1 s1 where 1: "step y s = Inr (m1, s1)" "inv s1" using step_ok [of s y] Cons.prems by auto
  with Cons.prems have r: "rfold (track step) ys (m \<or> m1, s1) = Inr (m', s')" by (simp add: track_step)
  show ?case
  proof (cases "x = y")
    case True
    have "step x s1 = Inr (False, s1)" using settles [of s y] 1(1) Cons.prems True by simp
    with run_stays [OF 1(2) _ _ _ r] Cons.prems show ?thesis by simp
  next
    case False
    with Cons.IH [OF 1(2) _ r] Cons.prems show ?thesis by simp
  qed
qed simp

lemma run_settled: "(\<And>x. x \<in> set xs \<Longrightarrow> step x s = Inr (False, s)) \<Longrightarrow> rfold (track step) xs (m, s) = Inr (m, s)"
proof (induction xs)
  case (Cons x xs)
  from Cons.prems [of x] have "track step x (m, s) = Inr (m, s)" using track_step [of step x s False s m] by simp
  with Cons show ?case by simp
qed simp

lemma run_changed:
  assumes "inv s" "\<And>y. y \<in> set ys \<Longrightarrow> ok y" "rfold (track step) ys (m, s) = Inr (m', s')"
  shows "(m' \<longrightarrow> m \<or> weight s < weight s') \<and> (\<not> m' \<longrightarrow> s' = s) \<and> (m \<longrightarrow> m') \<and> weight s \<le> weight s'"
  using assms
proof (induction ys arbitrary: m s)
  case (Cons y ys)
  obtain m1 s1 where 1: "step y s = Inr (m1, s1)" "inv s1" using step_ok [of s y] Cons.prems by auto
  with Cons.prems have "rfold (track step) ys (m \<or> m1, s1) = Inr (m', s')" by (simp add: track_step)
  with Cons.IH [OF 1(2), of "m \<or> m1"] Cons.prems have
    "(m' \<longrightarrow> (m \<or> m1) \<or> weight s1 < weight s') \<and> (\<not> m' \<longrightarrow> s' = s1) \<and> (m \<or> m1 \<longrightarrow> m') \<and> weight s1 \<le> weight s'"
    by simp
  moreover have "m1 \<Longrightarrow> weight s < weight s1" "\<not> m1 \<Longrightarrow> s1 = s"
    using grows [of s y] unchanged [of s y] 1 Cons.prems by (cases m1; simp)+
  ultimately show ?case by (cases m1) auto
qed simp

end

section \<open>The two phases\<close>

text \<open>A specification the code can draw: it has an id other than the two reserved strings, a readable
  key, and an application class if it is an application.\<close>

definition plain_id :: "string \<Rightarrow> bool" where
  "plain_id v \<longleftrightarrow> clean v \<and> v \<noteq> GRAPH_NODE"

definition drawable :: "dropSpec \<Rightarrow> bool" where
  "drawable doSpec \<longleftrightarrow> (case d_oid doSpec of Some v \<Rightarrow> plain_id v | None \<Rightarrow> False) \<and>
     d_humanReadableKey doSpec \<noteq> None \<and> (d_type doSpec = Some ''app'' \<longrightarrow> d_app doSpec \<noteq> None)"

definition joinable :: "dropRef option \<times> dropRef option \<Rightarrow> bool" where
  "joinable ends \<longleftrightarrow> (case ends of (Some a, Some b) \<Rightarrow> plain_id (refOid a) \<and> plain_id (refOid b) | _ \<Rightarrow> False)"

definition drop_graph_ok :: "'g dropGraph \<Rightarrow> bool" where
  "drop_graph_ok g \<longleftrightarrow> graph_ok g \<and> clean_graph g"

lemma clean_graph_dom: "graph_ok g \<Longrightarrow> clean_graph g \<longleftrightarrow> (\<forall>eo \<in> dom (abs_edges g). clean_edge eo)"
  by (simp add: clean_graph_def dom_abs_edges)

lemma dropNotes_total:
  assumes "d_type doSpec = Some ''app'' \<longrightarrow> d_app doSpec \<noteq> None"
  shows "\<exists>nt. dropNotes doSpec = Inr nt"
proof (cases "d_type doSpec = Some ''app''")
  case True
  with assms obtain app where "d_app doSpec = Some app" by auto
  with True show ?thesis by (simp add: dropNotes_def Let_def)
next
  case False
  then show ?thesis
    by (cases "d_type doSpec = Some ''socket''"; cases "d_type doSpec = Some ''plain''")
      (simp_all add: dropNotes_def Let_def)
qed

lemma dropLabel_total: "drawable doSpec \<Longrightarrow> \<exists>l. dropLabel url doSpec = Inr l"
proof -
  assume d: "drawable doSpec"
  then obtain v hrk where "d_oid doSpec = Some v" "d_humanReadableKey doSpec = Some hrk"
    by (auto simp: drawable_def split: option.splits)
  moreover obtain nt where "dropNotes doSpec = Inr nt"
    using d dropNotes_total by (auto simp: drawable_def)
  ultimately show ?thesis unfolding dropLabel_def dropHtml_def Let_def by (simp only: deref_simps rbind_simps) blast
qed

lemma hasNode_iff: "hasNode v g \<longleftrightarrow> v \<in> node_set g"
  by (simp add: hasNode_def has_iff node_set_def)

lemma node_set_dom: "node_set g = dom (abs_nodes g)"
  using get_None_iff [of "f_nodes g"] by (auto simp: node_set_def abs_nodes_def dom_def)

text \<open>What one call of \<open>_addNode\<close> does.\<close>

lemma addNode_spec:
  assumes "drop_graph_ok g" "drawable doSpec" "d_oid doSpec = Some v"
  shows "\<exists>g'. addNode url doSpec g = Inr (v \<notin> node_set g, g') \<and> drop_graph_ok g' \<and> same_flags g g' \<and>
    abs_edges g' = abs_edges g \<and> (v \<in> node_set g \<longrightarrow> g' = g) \<and> node_set g' = insert v (node_set g) \<and>
    (\<exists>l. dropLabel url doSpec = Inr l \<and>
       abs_nodes g' = (if v \<in> node_set g then abs_nodes g else (abs_nodes g)(v \<mapsto> Some l)))"
proof -
  obtain l where l: "dropLabel url doSpec = Inr l" using dropLabel_total assms(2) by blast
  have ok: "graph_ok g" "clean_graph g" and v: "v \<noteq> GRAPH_NODE"
    using assms by (auto simp: drop_graph_ok_def drawable_def plain_id_def)
  show ?thesis
  proof (cases "v \<in> node_set g")
    case True
    with assms l show ?thesis by (simp add: addNode_def hasNode_iff insert_absorb)
  next
    case False
    obtain g' where g': "setNode v (Some (Some l)) g = Inr g'" "graph_ok g'" "same_flags g g'"
      "abs_edges g' = abs_edges g" "abs_nodes g' = (abs_nodes g)(v \<mapsto> Some l)"
      using setNode_refines [OF ok(1), of v "Some (Some l)"] v by auto
    from g'(2,4) ok have "drop_graph_ok g'" by (simp add: drop_graph_ok_def clean_graph_dom)
    with g' False assms(3) l show ?thesis by (simp add: addNode_def hasNode_iff node_set_dom)
  qed
qed

definition drop_edge :: "string \<Rightarrow> string \<Rightarrow> edgeObj" where
  "drop_edge v w = \<lparr>e_v = v, e_w = w, e_name = None\<rparr>"

lemma addEdge_spec:
  assumes "drop_graph_ok g" "f_isDirected g" "plain_id v" "plain_id w" "refOid a = v" "refOid b = w"
  defines "new \<equiv> drop_edge v w \<notin> set (edges g) \<and> v \<in> node_set g \<and> w \<in> node_set g"
  shows "\<exists>g'. addEdge (Some a, Some b) g = Inr (new, g') \<and> drop_graph_ok g' \<and> same_flags g g' \<and>
    abs_nodes g' = abs_nodes g \<and> (\<not> new \<longrightarrow> g' = g) \<and>
    abs_edges g' = (if new then (abs_edges g)(drop_edge v w \<mapsto> Some \<lparr>el_width = 40\<rparr>) else abs_edges g)"
proof -
  have ok: "graph_ok g" "clean_graph g" and v: "clean v" "v \<noteq> GRAPH_NODE" "clean w" "w \<noteq> GRAPH_NODE"
    using assms(1,3,4) by (auto simp: drop_graph_ok_def plain_id_def)
  have eo: "edgeArgsToObj (f_isDirected g) v w None = drop_edge v w"
    using assms(2) by (simp add: edgeArgsToObj_def drop_edge_def)
  have has: "hasEdge v w None g \<longleftrightarrow> drop_edge v w \<in> set (edges g)"
    using hasEdge_iff [OF ok v(1,3), of None] by (simp add: eo clean_name_def)
  show ?thesis
  proof (cases new)
    case False
    with assms(1,5,6) show ?thesis unfolding new_def by (auto simp: addEdge_def has hasNode_iff)
  next
    case True
    obtain g' where g': "setEdge v w (Some (Some \<lparr>el_width = 40\<rparr>)) None g = Inr g'" "graph_ok g'" "clean_graph g'"
      "same_flags g g'" "abs_edges g' = (abs_edges g)(drop_edge v w \<mapsto> Some \<lparr>el_width = 40\<rparr>)"
      "node_set g' = insert v (insert w (node_set g))" "\<forall>x\<in>node_set g. abs_nodes g' x = abs_nodes g x"
      using setEdge_refines [OF ok v(1,3), of None "Some (Some \<lparr>el_width = 40\<rparr>)"] v
      by (auto simp: eo clean_name_def)
    have ns: "node_set g' = node_set g" using g'(6) True by (auto simp: new_def)
    have "abs_nodes g' = abs_nodes g"
    proof
      fix x show "abs_nodes g' x = abs_nodes g x"
      proof (cases "x \<in> node_set g")
        case False
        with ns show ?thesis by (auto simp: node_set_dom)
      qed (use g'(7) in blast)
    qed
    with g' True assms(5,6) show ?thesis unfolding new_def
      by (auto simp: addEdge_def has hasNode_iff drop_graph_ok_def)
  qed
qed

lemma finite_dom_nodes: "finite (dom (abs_nodes g))"
  by (metis finite_set node_set_def node_set_dom)

lemma drawable_oid: "drawable doSpec \<Longrightarrow> \<exists>v. d_oid doSpec = Some v \<and> plain_id v"
  by (simp add: drawable_def split: option.splits)

interpretation node_phase: incremental "addNode url" drawable drop_graph_ok "\<lambda>g. card (dom (abs_nodes g))" for url
proof
  fix g :: "'g dropGraph" and x y m g'
  assume ok: "drop_graph_ok g" and x: "drawable x"
  obtain v where v: "d_oid x = Some v" "plain_id v" using drawable_oid x by blast
  note spec = addNode_spec [OF ok x v(1), of url]
  show "\<exists>m s'. addNode url x g = Inr (m, s') \<and> drop_graph_ok s'" using spec by blast
  { assume s: "addNode url x g = Inr (m, g')"
    with spec have "v \<in> node_set g'" by auto
    then show "addNode url x g' = Inr (False, g')" using v by (simp add: addNode_def hasNode_iff) }
  { assume y: "drawable y" and settled: "addNode url x g = Inr (False, g)" and s: "addNode url y g = Inr (m, g')"
    obtain w where w: "d_oid y = Some w" using drawable_oid y by blast
    from spec settled have "v \<in> node_set g" by auto
    with addNode_spec [OF ok y w, of url] s have "v \<in> node_set g'" by auto
    then show "addNode url x g' = Inr (False, g')" using v by (simp add: addNode_def hasNode_iff) }
  { assume "addNode url x g = Inr (False, g')"
    with spec show "g' = g" by auto }
  { assume "addNode url x g = Inr (True, g')"
    with spec have "v \<notin> node_set g" "node_set g' = insert v (node_set g)" by auto
    then show "card (dom (abs_nodes g)) < card (dom (abs_nodes g'))"
      using finite_dom_nodes [of g] by (simp add: node_set_dom) }
qed

definition edge_phase_ok :: "'g dropGraph \<Rightarrow> bool" where
  "edge_phase_ok g \<longleftrightarrow> drop_graph_ok g \<and> f_isDirected g"

lemma edge_phase_flags: "edge_phase_ok g \<Longrightarrow> drop_graph_ok g' \<Longrightarrow> same_flags g g' \<Longrightarrow> edge_phase_ok g'"
  by (simp add: edge_phase_ok_def same_flags_def)

lemma joinableD: "joinable x \<Longrightarrow> \<exists>a b. x = (Some a, Some b) \<and> plain_id (refOid a) \<and> plain_id (refOid b)"
  by (auto simp: joinable_def split: prod.splits option.splits)

lemma addEdge_settled_iff:
  assumes "edge_phase_ok g" "plain_id (refOid a)" "plain_id (refOid b)"
  shows "addEdge (Some a, Some b) g = Inr (False, g) \<longleftrightarrow>
    drop_edge (refOid a) (refOid b) \<in> set (edges g) \<or> refOid a \<notin> node_set g \<or> refOid b \<notin> node_set g"
  using addEdge_spec [of g "refOid a" "refOid b" a b] assms by (auto simp: edge_phase_ok_def)

interpretation edge_phase: incremental addEdge joinable edge_phase_ok "\<lambda>g. card (dom (abs_edges g))"
proof
  fix g :: "'g dropGraph" and x y m g'
  assume ok: "edge_phase_ok g" and x: "joinable x"
  obtain a b where ab: "x = (Some a, Some b)" "plain_id (refOid a)" "plain_id (refOid b)" using joinableD x by blast
  have ok': "drop_graph_ok g" "f_isDirected g" using ok by (simp_all add: edge_phase_ok_def)
  note spec = addEdge_spec [OF ok' ab(2,3) refl refl]
  show "\<exists>m s'. addEdge x g = Inr (m, s') \<and> edge_phase_ok s'"
    using spec edge_phase_flags [OF ok] unfolding ab(1) by blast
  { assume s: "addEdge x g = Inr (m, g')"
    with spec edge_phase_flags [OF ok] have g': "edge_phase_ok g'" unfolding ab(1) by auto
    have "drop_edge (refOid a) (refOid b) \<in> set (edges g') \<or> refOid a \<notin> node_set g' \<or> refOid b \<notin> node_set g'"
      using spec s g' unfolding ab(1)
      by (auto simp: node_set_dom edge_phase_ok_def drop_graph_ok_def simp flip: dom_abs_edges split: if_splits)
    then show "addEdge x g' = Inr (False, g')" using addEdge_settled_iff [OF g' ab(2,3)] ab(1) by simp }
  { assume y: "joinable y" and settled: "addEdge x g = Inr (False, g)" and s: "addEdge y g = Inr (m, g')"
    obtain c d where cd: "y = (Some c, Some d)" "plain_id (refOid c)" "plain_id (refOid d)" using joinableD y by blast
    note spec' = addEdge_spec [OF ok' cd(2,3) refl refl]
    with s edge_phase_flags [OF ok] have g': "edge_phase_ok g'" unfolding cd(1) by auto
    have "dom (abs_edges g) \<subseteq> dom (abs_edges g')" "node_set g' = node_set g"
      using spec' s unfolding cd(1) by (auto simp: node_set_dom split: if_splits)
    with settled have "drop_edge (refOid a) (refOid b) \<in> set (edges g') \<or> refOid a \<notin> node_set g' \<or> refOid b \<notin> node_set g'"
      using ok g' unfolding ab(1) addEdge_settled_iff [OF ok ab(2,3)]
      by (auto simp: edge_phase_ok_def drop_graph_ok_def simp flip: dom_abs_edges)
    then show "addEdge x g' = Inr (False, g')" using addEdge_settled_iff [OF g' ab(2,3)] ab(1) by simp }
  { assume "addEdge x g = Inr (False, g')"
    with spec show "g' = g" unfolding ab(1) by auto }
  { assume s: "addEdge x g = Inr (True, g')"
    with spec have g': "drop_graph_ok g'" "drop_edge (refOid a) (refOid b) \<notin> dom (abs_edges g)"
      "dom (abs_edges g') = insert (drop_edge (refOid a) (refOid b)) (dom (abs_edges g))"
      using ok' unfolding ab(1) by (auto simp: drop_graph_ok_def dom_abs_edges)
    moreover have "finite (dom (abs_edges g))" using ok' by (simp add: drop_graph_ok_def dom_abs_edges)
    ultimately show "card (dom (abs_edges g)) < card (dom (abs_edges g'))" by simp }
qed

text \<open>What the phases leave: every specified drop is a node, every relation between two nodes an
  edge, and nothing that was there before is changed.\<close>

lemma node_phase_result:
  assumes "drop_graph_ok g" "\<And>x. x \<in> set specs \<Longrightarrow> drawable x" "rfold (track (addNode url)) specs (m, g) = Inr (m', g')"
  shows "drop_graph_ok g' \<and> same_flags g g' \<and> abs_edges g' = abs_edges g \<and>
    node_set g' = node_set g \<union> {v. \<exists>x \<in> set specs. d_oid x = Some v} \<and>
    (\<forall>v \<in> node_set g. abs_nodes g' v = abs_nodes g v)"
  using assms
proof (induction specs arbitrary: m g)
  case (Cons x specs)
  obtain v where v: "d_oid x = Some v" using drawable_oid Cons.prems(2) [of x] by auto
  obtain g1 l where g1: "addNode url x g = Inr (v \<notin> node_set g, g1)" "drop_graph_ok g1" "same_flags g g1"
    "abs_edges g1 = abs_edges g" "node_set g1 = insert v (node_set g)"
    "abs_nodes g1 = (if v \<in> node_set g then abs_nodes g else (abs_nodes g)(v \<mapsto> Some l))"
    using addNode_spec [OF Cons.prems(1) Cons.prems(2) [of x] v, of url] by auto
  with Cons.prems(3) have "rfold (track (addNode url)) specs (m \<or> v \<notin> node_set g, g1) = Inr (m', g')"
    by (simp add: track_step g1(1))
  from Cons.IH [OF g1(2) Cons.prems(2) this] g1 v show ?case
    by (auto simp: same_flags_trans [OF g1(3)] split: if_splits)
qed simp


lemma edge_phase_result:
  assumes "edge_phase_ok g" "\<And>x. x \<in> set es \<Longrightarrow> joinable x" "rfold (track addEdge) es (m, g) = Inr (m', g')"
  shows "edge_phase_ok g' \<and> same_flags g g' \<and> abs_nodes g' = abs_nodes g \<and>
    set (edges g') = set (edges g) \<union>
      {drop_edge (refOid a) (refOid b) | a b. (Some a, Some b) \<in> set es \<and> refOid a \<in> node_set g \<and> refOid b \<in> node_set g}"
  using assms
proof (induction es arbitrary: m g)
  case (Cons x es)
  obtain a b where ab: "x = (Some a, Some b)" "plain_id (refOid a)" "plain_id (refOid b)"
    using joinableD [of x] Cons.prems(2) [of x] by auto
  let ?e = "drop_edge (refOid a) (refOid b)"
  define new where "new \<longleftrightarrow> ?e \<notin> set (edges g) \<and> refOid a \<in> node_set g \<and> refOid b \<in> node_set g"
  have ok: "drop_graph_ok g" "f_isDirected g" using Cons.prems(1) by (simp_all add: edge_phase_ok_def)
  obtain g1 where g1: "addEdge x g = Inr (new, g1)" "drop_graph_ok g1" "same_flags g g1" "abs_nodes g1 = abs_nodes g"
    "abs_edges g1 = (if new then (abs_edges g)(?e \<mapsto> Some \<lparr>el_width = 40\<rparr>) else abs_edges g)"
    using addEdge_spec [OF ok ab(2,3) refl refl] unfolding ab(1) new_def by blast
  have e1: "set (edges g1) = (if new then insert ?e (set (edges g)) else set (edges g))"
    using g1(2,5) ok by (simp add: drop_graph_ok_def flip: dom_abs_edges)
  have n1: "node_set g1 = node_set g" using g1(4) by (simp add: node_set_dom)
  have ok1: "edge_phase_ok g1" using edge_phase_flags [OF Cons.prems(1) g1(2,3)] .
  have r: "rfold (track addEdge) es (m \<or> new, g1) = Inr (m', g')"
    using Cons.prems(3) by (simp add: track_step g1(1))
  note ih = Cons.IH [OF ok1 Cons.prems(2) r]
  have "set (edges g1) = set (edges g) \<union> {?e | u. refOid a \<in> node_set g \<and> refOid b \<in> node_set g}"
    by (auto simp: e1 new_def)
  moreover have "{drop_edge (refOid a) (refOid b) | a b. (Some a, Some b) \<in> set (x # es) \<and> refOid a \<in> node_set g \<and> refOid b \<in> node_set g} =
    {?e | u. refOid a \<in> node_set g \<and> refOid b \<in> node_set g} \<union>
    {drop_edge (refOid a) (refOid b) | a b. (Some a, Some b) \<in> set es \<and> refOid a \<in> node_set g \<and> refOid b \<in> node_set g}"
    unfolding ab(1) by auto
  ultimately show ?case using ih g1(4) n1 same_flags_trans [OF g1(3)] by (simp add: Un_assoc)
qed simp

section \<open>Drawing\<close>

text \<open>The report of a session: every id has a specification that carries it and that can be drawn,
  and every relation names plain ids. The entry \<open>reprodata\<close> is not a drop.\<close>

definition specs_ok :: "string list \<Rightarrow> dropSpec obj \<Rightarrow> bool" where
  "specs_ok oids doSpecs \<longleftrightarrow> distinct oids \<and>
     list_all (\<lambda>oid. case get doSpecs oid of
         None \<Rightarrow> False
       | Some doSpec \<Rightarrow> list_all joinable (relEdges doSpec) \<and>
           (oid = ''reprodata'' \<or> d_oid doSpec = Some oid \<and> drawable doSpec)) oids"

definition specOf :: "dropSpec obj \<Rightarrow> string \<Rightarrow> dropSpec" where
  "specOf doSpecs oid = the (get doSpecs oid)"

definition nodeSpecs :: "string list \<Rightarrow> dropSpec obj \<Rightarrow> dropSpec list" where
  "nodeSpecs oids doSpecs = map (specOf doSpecs) (filter (\<lambda>oid. oid \<noteq> ''reprodata'') oids)"

definition edgeEnds :: "string list \<Rightarrow> dropSpec obj \<Rightarrow> (dropRef option \<times> dropRef option) list" where
  "edgeEnds oids doSpecs = concat (map (\<lambda>oid. relEdges (specOf doSpecs oid)) oids)"

lemma specs_okD:
  assumes "specs_ok oids doSpecs"
  shows "distinct oids" "\<And>oid. oid \<in> set oids \<Longrightarrow> get doSpecs oid = Some (specOf doSpecs oid)"
    and "\<And>oid. oid \<in> set oids \<Longrightarrow> oid \<noteq> ''reprodata'' \<Longrightarrow> d_oid (specOf doSpecs oid) = Some oid \<and> drawable (specOf doSpecs oid)"
    and "\<And>x. x \<in> set (edgeEnds oids doSpecs) \<Longrightarrow> joinable x"
    and "\<And>x. x \<in> set (nodeSpecs oids doSpecs) \<Longrightarrow> drawable x"
  using assms unfolding specs_ok_def list_all_iff edgeEnds_def nodeSpecs_def specOf_def
  by (fastforce split: option.splits)+

lemma draw_phases:
  assumes "\<And>oid. oid \<in> set oids \<Longrightarrow> get doSpecs oid = Some (specOf doSpecs oid)"
  shows "drawGraphForDrops oids doSpecs url g =
    rbind (rfold (track (addNode url)) (nodeSpecs oids doSpecs) (False, g)) (rfold (track addEdge) (edgeEnds oids doSpecs))"
proof -
  have 1: "rfold (\<lambda>oid ms. if oid \<noteq> ''reprodata'' then
        rbind (deref (get doSpecs oid)) (\<lambda>doSpec. track (addNode url) doSpec ms) else Inr ms) oids ms =
      rfold (track (addNode url)) (nodeSpecs oids doSpecs) ms" for ms
    unfolding nodeSpecs_def using assms by (intro rfold_filter_map) simp
  have 2: "rfold (\<lambda>oid ms. rbind (deref (get doSpecs oid)) (\<lambda>doSpec. rfold (track addEdge) (relEdges doSpec) ms)) oids ms =
      rfold (track addEdge) (edgeEnds oids doSpecs) ms" for ms
    unfolding edgeEnds_def using assms by (intro rfold_concat_map) simp
  show ?thesis unfolding drawGraphForDrops_def 1 2 ..
qed

text \<open>The run of the two phases, from which the properties below are read off.\<close>

lemma draw_run:
  assumes "drop_graph_ok g" "f_isDirected g" "specs_ok oids doSpecs"
  obtains m1 g1 m g' where
    "rfold (track (addNode url)) (nodeSpecs oids doSpecs) (False, g) = Inr (m1, g1)"
    "rfold (track addEdge) (edgeEnds oids doSpecs) (m1, g1) = Inr (m, g')"
    "drawGraphForDrops oids doSpecs url g = Inr (m, g')" "drop_graph_ok g1" "edge_phase_ok g1" "edge_phase_ok g'"
proof -
  note D = specs_okD [OF assms(3)]
  obtain m1 g1 where 1: "rfold (track (addNode url)) (nodeSpecs oids doSpecs) (False, g) = Inr (m1, g1)" "drop_graph_ok g1"
    using node_phase.run_ok [OF assms(1) D(5)] by blast
  have "same_flags g g1" using node_phase_result [OF assms(1) D(5) 1(1)] by blast
  with assms(2) 1(2) have ok1: "edge_phase_ok g1" by (simp add: edge_phase_ok_def same_flags_def)
  obtain m g' where 2: "rfold (track addEdge) (edgeEnds oids doSpecs) (m1, g1) = Inr (m, g')" "edge_phase_ok g'"
    using edge_phase.run_ok [OF ok1 D(4)] by blast
  have "drawGraphForDrops oids doSpecs url g = Inr (m, g')" using 1 2 by (simp add: draw_phases [OF D(2)])
  with 1 2 ok1 that show thesis by blast
qed

lemma addNode_present: "v \<in> node_set g \<Longrightarrow> d_oid x = Some v \<Longrightarrow> addNode url x g = Inr (False, g)"
  by (simp add: addNode_def hasNode_iff)

lemma nodeSpecs_oids:
  assumes "specs_ok oids doSpecs"
  shows "{v. \<exists>x \<in> set (nodeSpecs oids doSpecs). d_oid x = Some v} = set oids - {''reprodata''}"
    and "distinct (map d_oid (nodeSpecs oids doSpecs))"
proof -
  note D = specs_okD [OF assms]
  show "{v. \<exists>x \<in> set (nodeSpecs oids doSpecs). d_oid x = Some v} = set oids - {''reprodata''}"
    using D(3) by (auto simp: nodeSpecs_def)
  have "map d_oid (nodeSpecs oids doSpecs) = map Some (filter (\<lambda>oid. oid \<noteq> ''reprodata'') oids)"
    using D(3) by (simp add: nodeSpecs_def)
  then show "distinct (map d_oid (nodeSpecs oids doSpecs))" using D(1) by (simp add: distinct_map inj_on_def)
qed

text \<open>The order of the nodes, which the colouring of the drawn nodes relies on: new ids that are not
  array indices are appended in the order in which they come.\<close>

lemma keys_put_new: "k \<notin> set (keys ob) \<Longrightarrow> \<not> is_index k \<Longrightarrow> keys (put k v ob) = keys ob @ [k]"
  by (simp add: put_def has_iff) (simp add: keys_def)

lemma addNode_nodes:
  assumes "drop_graph_ok g" "drawable x" "d_oid x = Some v" "v \<notin> node_set g" "\<not> is_index v" "addNode url x g = Inr (m, g')"
  shows "nodes g' = nodes g @ [v]"
proof -
  obtain l where l: "dropLabel url x = Inr l" using dropLabel_total assms(2) by blast
  have "graph_ok g" "v \<noteq> GRAPH_NODE" using assms by (auto simp: drop_graph_ok_def drawable_def plain_id_def)
  from setNode_ok [of g v "Some (Some l)"] this assms(4) obtain g1 where
    "setNode v (Some (Some l)) g = Inr g1" "f_nodes g1 = put v (Some l) (f_nodes g)" by auto
  with assms l show ?thesis by (simp add: addNode_def hasNode_iff nodes_def keys_put_new node_set_def)
qed

lemma node_phase_order:
  assumes "drop_graph_ok g" "\<And>x. x \<in> set specs \<Longrightarrow> drawable x" "map d_oid specs = map Some vs"
    "distinct vs" "set vs \<inter> node_set g = {}" "\<And>v. v \<in> set vs \<Longrightarrow> \<not> is_index v"
    "rfold (track (addNode url)) specs (m, g) = Inr (m', g')"
  shows "nodes g' = nodes g @ vs"
  using assms
proof (induction specs arbitrary: m g vs)
  case (Cons x specs)
  then obtain v ws where vs: "vs = v # ws" "d_oid x = Some v" "map d_oid specs = map Some ws" by (cases vs) auto
  obtain g1 where g1: "addNode url x g = Inr (v \<notin> node_set g, g1)" "drop_graph_ok g1" "node_set g1 = insert v (node_set g)"
    using addNode_spec [OF Cons.prems(1) Cons.prems(2) vs(2), of url] by auto
  have "nodes g1 = nodes g @ [v]" using addNode_nodes [OF Cons.prems(1) Cons.prems(2) vs(2)] Cons.prems(5,6) g1(1) vs(1) by simp
  moreover have "rfold (track (addNode url)) specs (m \<or> v \<notin> node_set g, g1) = Inr (m', g')"
    using Cons.prems(7) by (simp add: track_step g1(1))
  moreover have "nodes g' = nodes g1 @ ws"
    using Cons.IH [OF g1(2) _ vs(3)] Cons.prems(2,4,5,6) vs(1) g1(3) calculation(2) by auto
  ultimately show ?case using vs(1) by simp
qed simp

lemma setEdge_f_nodes:
  assumes "setEdge v w val name g = Inr g'" "hasNode v g" "hasNode w g"
  shows "f_nodes g' = f_nodes g"
proof -
  have "setNode v None g = Inr g" "setNode w None g = Inr g" using assms(2,3) by (simp_all add: setNode_def hasNode_def)
  with assms(1) show ?thesis by (cases val) (auto simp: setEdge_def Let_def rbind_Inr_iff split: if_splits)
qed

lemma addEdge_nodes: "addEdge x g = Inr (m, g') \<Longrightarrow> nodes g' = nodes g"
  by (auto simp: addEdge_def Let_def rbind_Inr_iff nodes_def dest: setEdge_f_nodes split: if_splits)

lemma edge_phase_order: "rfold (track addEdge) es (m, g) = Inr (m', g') \<Longrightarrow> nodes g' = nodes g"
proof (induction es arbitrary: m g)
  case (Cons x es)
  then obtain m1 g1 where "addEdge x g = Inr (m1, g1)" "rfold (track addEdge) es (m \<or> m1, g1) = Inr (m', g')"
    by (auto simp: rbind_Inr_iff track_def [of _ _ "(m, g)"])
  with Cons.IH addEdge_nodes show ?case by fastforce
qed simp

section \<open>Properties\<close>


definition example_specs :: "dropSpec obj" where
  "example_specs =
    [(''2_A'', \<lparr>d_oid = Some ''2_A'', d_type = Some ''plain'', d_name = Some ''in'', d_app = None, d_port = None,
       d_storage = Some ''Memory'', d_humanReadableKey = Some ''A'', d_category = Some ''File'',
       d_rels = [(''consumers'', [ObjRef [''2_B'']]), (''producers'', [OidRef ''2_C''])]\<rparr>),
     (''2_B'', \<lparr>d_oid = Some ''2_B'', d_type = Some ''app'', d_name = None, d_app = Some ''dlg.apps.CopyApp'', d_port = None,
       d_storage = None, d_humanReadableKey = Some ''B'', d_category = None, d_rels = [(''inputs'', [OidRef ''2_A''])]\<rparr>),
     (''reprodata'', \<lparr>d_oid = None, d_type = None, d_name = None, d_app = None, d_port = None,
       d_storage = None, d_humanReadableKey = None, d_category = None, d_rels = []\<rparr>)]"

abbreviation "example_oids \<equiv> [''2_A'', ''2_B'', ''reprodata'']"
abbreviation "session_graph \<equiv> newGraph None None (Some True) :: unit dropGraph"

lemma session_graph_ok: "drop_graph_ok session_graph" "f_isDirected session_graph" "node_set session_graph = {}"
proof -
  show "drop_graph_ok session_graph"
    unfolding drop_graph_ok_def using graph_ok_new [of None None "Some True"]
    by (simp add: clean_graph_def edges_def) (simp add: newGraph_def Let_def)
qed (simp_all add: newGraph_def Let_def node_set_def)

lemma example_specs_ok: "specs_ok example_oids example_specs"
  by code_simp


text \<open>C8. The picture is redrawn exactly when the graph changed, and an update with the same report
  changes nothing and does not redraw: polling an unchanged session leaves the picture alone.\<close>

theorem drawGraphForDrops_idempotent:
  assumes "drop_graph_ok g" "f_isDirected g" "specs_ok oids doSpecs"
  shows "\<exists>m g'. drawGraphForDrops oids doSpecs url g = Inr (m, g') \<and> (m \<longleftrightarrow> g' \<noteq> g) \<and>
    drawGraphForDrops oids doSpecs url g' = Inr (False, g')"
proof -
  note D = specs_okD [OF assms(3)] and N = nodeSpecs_oids [OF assms(3)]
  obtain m1 g1 m g' where r: "rfold (track (addNode url)) (nodeSpecs oids doSpecs) (False, g) = Inr (m1, g1)"
    "rfold (track addEdge) (edgeEnds oids doSpecs) (m1, g1) = Inr (m, g')"
    "drawGraphForDrops oids doSpecs url g = Inr (m, g')"
    "drop_graph_ok g1" "edge_phase_ok g1" "edge_phase_ok g'"
    by (rule draw_run [OF assms(1-3), of url])
  note n = node_phase_result [OF assms(1) D(5) r(1)] and e = edge_phase_result [OF r(5) D(4) r(2)]
  have ns: "node_set g' = node_set g1" using e by (simp add: node_set_dom)
  have "addNode url x g' = Inr (False, g')" if x: "x \<in> set (nodeSpecs oids doSpecs)" for x
  proof -
    obtain v where "d_oid x = Some v" using drawable_oid [OF D(5) [OF x]] by blast
    moreover from this n x ns have "v \<in> node_set g'" by auto
    ultimately show ?thesis by (intro addNode_present)
  qed
  then have "rfold (track (addNode url)) (nodeSpecs oids doSpecs) (False, g') = Inr (False, g')"
    by (rule node_phase.run_settled)
  moreover have "rfold (track addEdge) (edgeEnds oids doSpecs) (False, g') = Inr (False, g')"
    using edge_phase.run_settles [OF r(5) D(4) r(2)] by (rule edge_phase.run_settled)
  ultimately have "drawGraphForDrops oids doSpecs url g' = Inr (False, g')" by (simp add: draw_phases [OF D(2)])
  moreover have "m \<longleftrightarrow> g' \<noteq> g"
  proof -
    have c1: "(m1 \<longrightarrow> card (dom (abs_nodes g)) < card (dom (abs_nodes g1))) \<and> (\<not> m1 \<longrightarrow> g1 = g)"
      using node_phase.run_changed [OF assms(1) D(5) r(1)] by blast
    have c2: "(m \<longrightarrow> m1 \<or> card (dom (abs_edges g1)) < card (dom (abs_edges g'))) \<and> (\<not> m \<longrightarrow> g' = g1) \<and> (m1 \<longrightarrow> m)"
      using edge_phase.run_changed [OF r(5) D(4) r(2)] by blast
    have "abs_nodes g' = abs_nodes g1" "abs_edges g1 = abs_edges g" using n e by auto
    then show ?thesis using c1 c2 by (metis less_irrefl)
  qed
  ultimately show ?thesis using r(3) by blast
qed

theorem drawGraphForDrops_idempotent_witness:
  "\<exists>m g'. drawGraphForDrops example_oids example_specs ''u'' session_graph = Inr (m, g') \<and>
     (m \<longleftrightarrow> g' \<noteq> session_graph) \<and> drawGraphForDrops example_oids example_specs ''u'' g' = Inr (False, g')"
  using drawGraphForDrops_idempotent [OF session_graph_ok(1,2) example_specs_ok] .

text \<open>The nodes of a freshly drawn graph stand in the order of the reported ids, without the
  entry \<open>reprodata\<close>: the colouring, which pairs the drawn nodes with the statuses sorted by id, pairs
  each node with its own status (ids are not array indices).\<close>

theorem drawn_nodes_in_report_order:
  assumes "drop_graph_ok g" "f_isDirected g" "specs_ok oids doSpecs" "nodes g = []"
    and "list_all (\<lambda>oid. \<not> is_index oid) oids"
  shows "\<exists>m g'. drawGraphForDrops oids doSpecs url g = Inr (m, g') \<and>
    nodes g' = filter (\<lambda>oid. oid \<noteq> ''reprodata'') oids"
proof -
  note D = specs_okD [OF assms(3)]
  obtain m1 g1 m g' where r: "rfold (track (addNode url)) (nodeSpecs oids doSpecs) (False, g) = Inr (m1, g1)"
    "rfold (track addEdge) (edgeEnds oids doSpecs) (m1, g1) = Inr (m, g')"
    "drawGraphForDrops oids doSpecs url g = Inr (m, g')"
    "drop_graph_ok g1" "edge_phase_ok g1" "edge_phase_ok g'"
    by (rule draw_run [OF assms(1-3), of url])
  let ?vs = "filter (\<lambda>oid. oid \<noteq> ''reprodata'') oids"
  have "map d_oid (nodeSpecs oids doSpecs) = map Some ?vs" using D(3) by (simp add: nodeSpecs_def)
  moreover have "node_set g = {}" using assms(4) by (simp add: nodes_def node_set_def)
  ultimately have "nodes g1 = nodes g @ ?vs"
    using node_phase_order [OF assms(1) D(5) _ _ _ _ r(1), of ?vs] D(1) assms(5) by (auto simp: list_all_iff)
  with edge_phase_order [OF r(2)] r(3) assms(4) show ?thesis by auto
qed

theorem drawn_nodes_in_report_order_witness:
  "\<exists>m g'. drawGraphForDrops example_oids example_specs ''u'' session_graph = Inr (m, g') \<and> nodes g' = [''2_A'', ''2_B'']"
proof -
  have "nodes session_graph = []" by (simp add: nodes_def newGraph_def Let_def)
  moreover have "list_all (\<lambda>oid. \<not> is_index oid) example_oids" by (simp add: is_index_def is_digit_def)
  ultimately show ?thesis
    using drawn_nodes_in_report_order [OF session_graph_ok(1,2) example_specs_ok, of "''u''"] by simp
qed

end
