(* ===== verification/Dm_Status.thy ===== *)
theory Dm_Status
  imports Js_Prelude "HOL-Library.Multiset"
begin

text \<open>
  The status vocabulary of the data manager's pages (\<^verbatim>\<open>dm.js\<close>): the names of session and drop
  states, the reduction of the nested status object that a composite manager returns to one
  session status (\<open>uniqueSessionStatus\<close>), its display, and the test whether a session in that
  status may be cancelled.

  A status received from the server is a number, an object whose values are statuses again, or
  \<open>null\<close>. \<open>uniqueSessionStatus\<close> merges the objects of a level into one of them in place; the
  model returns the reduced value and leaves its argument alone.
\<close>

section \<open>Names of the states\<close>

definition SESSION_STATUS :: "string list" where
  "SESSION_STATUS = [''Pristine'', ''Building'', ''Deploying'', ''Running'', ''Finished'', ''Cancelled'', ''Failed'']"

definition STATUS_CLASSES :: "string list" where
  "STATUS_CLASSES = [''initialized'', ''writing'', ''completed'', ''error'', ''expired'', ''deleted'', ''cancelled'', ''skipped'']"

definition EXECSTATUS_CLASSES :: "string list" where
  "EXECSTATUS_CLASSES = [''not_run'', ''running'', ''finished'', ''error'', ''cancelled'', ''skipped'']"

text \<open>\<open>array[i]\<close>: an index outside the array gives \<open>undefined\<close>.\<close>

definition array_at :: "'a list \<Rightarrow> int \<Rightarrow> 'a option" where
  "array_at xs i = (if 0 \<le> i \<and> nat i < length xs then Some (xs ! nat i) else None)"

text \<open>The status of one drop, as the server reports it.\<close>

record drop_status =
  ds_execStatus :: "int option"
  ds_status :: "int option"

definition get_status_name :: "drop_status \<Rightarrow> string option" where
  "get_status_name s =
     (case ds_execStatus s of
        Some i \<Rightarrow> array_at EXECSTATUS_CLASSES i
      | None \<Rightarrow> (case ds_status s of Some i \<Rightarrow> array_at STATUS_CLASSES i | None \<Rightarrow> None))"

section \<open>Reduction of a session status\<close>

datatype jstatus = SNull | SNum int | SObj "(string \<times> jstatus) list"

definition is_object :: "jstatus \<Rightarrow> bool" where
  "is_object s = (case s of SNum _ \<Rightarrow> False | _ \<Rightarrow> True)"

text \<open>One step of the merging \<open>reduce\<close> (which starts with the second element, so its test for
  index \<open>0\<close> never holds): every property of \<open>prev\<close> is assigned to \<open>v\<close>. Numbers and
  \<open>null\<close> have no properties to enumerate, an assignment to a property of a number is ignored,
  one to a property of \<open>null\<close> throws.\<close>

definition mergeInto :: "jstatus \<Rightarrow> jstatus \<Rightarrow> jstatus result" where
  "mergeInto prev v =
     (case prev of
        SObj ps \<Rightarrow>
          (case v of
             SObj vs \<Rightarrow> Inr (SObj (fold (\<lambda>(k, x). put k x) ps vs))
           | SNum n \<Rightarrow> Inr (SNum n)
           | SNull \<Rightarrow> if ps = [] then Inr SNull else Inl (TypeError ''null''))
      | _ \<Rightarrow> Inr v)"

text \<open>\<open>Object.keys(status).map(k => status[k])\<close>.\<close>

definition objectValues :: "jstatus \<Rightarrow> jstatus list result" where
  "objectValues s =
     (case s of SObj ps \<Rightarrow> Inr (vals ps) | SNum _ \<Rightarrow> Inr [] | SNull \<Rightarrow> Inl (TypeError ''null''))"

definition mergeAll :: "jstatus list \<Rightarrow> jstatus result" where
  "mergeAll ss = (case ss of [] \<Rightarrow> Inl (TypeError ''reduce'') | s # rest \<Rightarrow> rfold (\<lambda>v prev. mergeInto prev v) rest s)"

fun depth :: "jstatus \<Rightarrow> nat" where
  "depth (SObj ps) = Suc (fold max (map (depth \<circ> snd) ps) 0)"
| "depth SNull = 1"
| "depth (SNum _) = 0"

lemma fold_max_le: "fold max xs (a :: nat) \<le> b \<longleftrightarrow> a \<le> b \<and> (\<forall>x \<in> set xs. x \<le> b)"
  by (induction xs arbitrary: a) auto

lemma depth_SObj_le: "depth (SObj ps) \<le> Suc n \<longleftrightarrow> (\<forall>s \<in> set (vals ps). depth s \<le> n)"
  by (auto simp: fold_max_le vals_def)

lemma set_vals_put: "set (vals (put k v ob)) \<subseteq> insert v (set (vals ob))"
  by (cases rule: put_decomp [of ob k v]) (force simp: vals_def split: if_splits)+

lemma set_vals_puts: "set (vals (fold (\<lambda>(k, x). put k x) ps vs)) \<subseteq> set (vals ps) \<union> set (vals vs)"
proof (induction ps arbitrary: vs)
  case (Cons p ps)
  obtain k x where p: "p = (k, x)" by (cases p)
  from Cons.IH [of "put k x vs"] set_vals_put [of k x vs] show ?case by (auto simp: p vals_def)
qed simp

lemma mergeInto_depth:
  assumes m: "mergeInto prev v = Inr s" and d: "depth prev \<le> n" "depth v \<le> n"
  shows "depth s \<le> n"
proof (cases "\<exists>ps vs. prev = SObj ps \<and> v = SObj vs")
  case True
  then obtain ps vs where pv: "prev = SObj ps" "v = SObj vs" by blast
  with d obtain n' where n: "n = Suc n'" by (cases n) auto
  from pv m have s: "s = SObj (fold (\<lambda>(k, x). put k x) ps vs)" by (simp add: mergeInto_def)
  from d have "\<forall>x \<in> set (vals ps) \<union> set (vals vs). depth x \<le> n'"
    unfolding pv n depth_SObj_le by blast
  with set_vals_puts [of ps vs] show ?thesis unfolding s n depth_SObj_le by blast
next
  case False
  with m d show ?thesis by (cases prev; cases v) (auto simp: mergeInto_def split: if_splits)
qed

lemma mergeAll_depth:
  assumes "mergeAll ss = Inr s" "\<And>x. x \<in> set ss \<Longrightarrow> depth x \<le> n"
  shows "depth s \<le> n"
proof -
  have "rfold (\<lambda>v prev. mergeInto prev v) rest a = Inr s \<Longrightarrow> depth a \<le> n \<Longrightarrow>
      (\<And>x. x \<in> set rest \<Longrightarrow> depth x \<le> n) \<Longrightarrow> depth s \<le> n" for rest a
  proof (induction rest arbitrary: a)
    case (Cons v rest)
    then show ?case using mergeInto_depth [of a v _ n] by (auto simp: rbind_Inr_iff)
  qed simp
  with assms show ?thesis by (auto simp: mergeAll_def split: list.splits)
qed

lemma reduceLevels_descends:
  assumes "mergeAll (s # rest) = Inr m" "objectValues m = Inr ss'" "is_object s"
  shows "fold max (map depth ss') 0 < fold max (map depth (s # rest)) 0"
proof -
  let ?n = "fold max (map depth (s # rest)) 0"
  have le: "x \<in> set (s # rest) \<Longrightarrow> depth x \<le> ?n" for x
    using fold_max_le [of "map depth (s # rest)" 0 ?n] by auto
  with assms(1) have m: "depth m \<le> ?n" by (rule mergeAll_depth)
  from assms(3) have "1 \<le> depth s" by (cases s) (simp_all add: is_object_def)
  with le [of s] obtain n' where n: "?n = Suc n'" by (cases ?n) auto
  have "fold max (map depth ss') 0 \<le> n'"
  proof (cases m)
    case (SObj ps)
    with assms(2) m show ?thesis unfolding n SObj depth_SObj_le by (auto simp: objectValues_def fold_max_le)
  qed (use assms(2) in \<open>auto simp: objectValues_def\<close>)
  then show ?thesis unfolding n by simp
qed

text \<open>The loop: stop at the first level whose first value is not an object, otherwise go on with
  the values of the merged object. Each level lowers the depth, so the loop ends.\<close>

function reduceLevels :: "jstatus list \<Rightarrow> jstatus list result" where
  "reduceLevels ss =
     (case ss of
        [] \<Rightarrow> Inr []
      | s # rest \<Rightarrow>
          if is_object s then
            rbind (mergeAll (s # rest)) (\<lambda>m. rbind (objectValues m) (\<lambda>ss'. reduceLevels ss'))
          else Inr (s # rest))"
  by pat_completeness auto

termination
  by (relation "measure (\<lambda>ss. fold max (map depth ss) 0)")
    (simp, simp only: in_measure reduceLevels_descends)

declare reduceLevels.simps [simp del]

text \<open>The reduction of two statuses on the lowest level; a value that is not a number equals no
  number.\<close>

definition reduceStatus :: "int \<Rightarrow> jstatus \<Rightarrow> int" where
  "reduceStatus prev v =
     (if prev = -1 then -1
      else if prev = 3 \<and> v = SNum 4 \<or> prev = 4 \<and> v = SNum 3 \<or> prev = 3 \<and> v = SNum 6 then 3
      else if prev = 6 \<and> v = SNum 4 \<or> prev = 4 \<and> v = SNum 6 then 6
      else if v = SNum prev then prev else -1)"

definition uniqueSessionStatus :: "jstatus \<Rightarrow> jstatus result" where
  "uniqueSessionStatus status =
     (case status of
        SObj ps \<Rightarrow>
          rbind (reduceLevels (vals ps)) (\<lambda>ss.
            (case ss of
               SNum n # rest \<Rightarrow> Inr (SNum (foldl reduceStatus n rest))
             | _ \<Rightarrow> Inl (TypeError ''reduce'')))
      | s \<Rightarrow> Inr s)"

definition sessionStatusToString :: "jstatus \<Rightarrow> string option" where
  "sessionStatusToString status =
     (case status of
        SNum n \<Rightarrow> if n = -1 then Some ''Indeterminate'' else array_at SESSION_STATUS n
      | _ \<Rightarrow> None)"

definition does_status_allow_cancel :: "jstatus \<Rightarrow> bool result" where
  "does_status_allow_cancel status = rbind (uniqueSessionStatus status) (\<lambda>s. Inr (s = SNum 3))"

section \<open>What the reduction computes\<close>

text \<open>The summary of a list of numeric statuses, stated without the order of the reduction but
  for one case: the states Running (3), Finished (4) and Failed (6) may mix, then Running wins
  unless a Failed comes before the first Running; any other mixture is Indeterminate.\<close>

definition summary :: "int list \<Rightarrow> int" where
  "summary xs =
     (if set xs \<subseteq> {3, 4, 6} then
        (if 3 \<in> set xs then (if 6 \<in> set (takeWhile (\<lambda>x. x \<noteq> 3) xs) then -1 else 3)
         else if 6 \<in> set xs then 6 else 4)
      else if set xs = {hd xs} then hd xs else -1)"

lemma reduceStatus_steps:
  "reduceStatus 3 (SNum 3) = 3" "reduceStatus 3 (SNum 4) = 3" "reduceStatus 3 (SNum 6) = 3"
  "reduceStatus 4 (SNum 3) = 3" "reduceStatus 4 (SNum 4) = 4" "reduceStatus 4 (SNum 6) = 6"
  "reduceStatus 6 (SNum 3) = -1" "reduceStatus 6 (SNum 4) = 6" "reduceStatus 6 (SNum 6) = 6"
  by (simp_all add: reduceStatus_def)

lemma reduceStatus_indeterminate: "foldl reduceStatus (-1) xs = -1"
  by (induction xs) (simp_all add: reduceStatus_def)

lemma foldl_running: "set xs \<subseteq> {3, 4, 6} \<Longrightarrow> foldl reduceStatus 3 (map SNum xs) = 3"
  by (induction xs) (auto simp: reduceStatus_def)

lemma foldl_failed:
  "set xs \<subseteq> {3, 4, 6} \<Longrightarrow> foldl reduceStatus 6 (map SNum xs) = (if 3 \<in> set xs then -1 else 6)"
  by (induction xs) (auto simp: reduceStatus_def reduceStatus_indeterminate)

lemma foldl_finished:
  "set xs \<subseteq> {3, 4, 6} \<Longrightarrow> foldl reduceStatus 4 (map SNum xs) = summary (4 # xs)"
proof (induction xs)
  case (Cons x xs)
  then consider "x = 3" | "x = 4" | "x = 6" by auto
  then show ?case
  proof cases
    case 1
    with Cons.prems show ?thesis by (simp add: reduceStatus_steps foldl_running summary_def)
  next
    case 2
    with Cons show ?thesis by (simp add: reduceStatus_steps summary_def)
  next
    case 3
    with Cons.prems show ?thesis by (simp add: reduceStatus_steps foldl_failed summary_def)
  qed
qed (simp add: summary_def)

lemma foldl_mixed:
  "s \<in> {3, 4, 6} \<Longrightarrow> \<not> set xs \<subseteq> {3, 4, 6} \<Longrightarrow> foldl reduceStatus s (map SNum xs) = -1"
  by (induction xs arbitrary: s) (auto simp: reduceStatus_def reduceStatus_indeterminate)

lemma foldl_other:
  "s \<notin> {3, 4, 6} \<Longrightarrow> foldl reduceStatus s (map SNum xs) = (if set xs \<subseteq> {s} then s else -1)"
  by (induction xs) (auto simp: reduceStatus_def reduceStatus_indeterminate)

lemma foldl_reduceStatus: "foldl reduceStatus x (map SNum xs) = summary (x # xs)"
proof (cases "x \<in> {3, 4, 6}")
  case True
  show ?thesis
  proof (cases "set xs \<subseteq> {3, 4, 6}")
    case sub: True
    from True consider "x = 3" | "x = 4" | "x = 6" by auto
    then show ?thesis
      by cases (use sub in \<open>auto simp: foldl_running foldl_finished foldl_failed summary_def\<close>)
  next
    case False
    with True foldl_mixed [OF True False] show ?thesis by (auto simp: summary_def)
  qed
next
  case False
  then show ?thesis by (auto simp: foldl_other summary_def)
qed

lemma reduceLevels_numbers: "reduceLevels (map SNum xs) = Inr (map SNum xs)"
  by (cases xs) (simp_all add: reduceLevels.simps is_object_def)

lemma summary_of_numbers:
  "xs \<noteq> [] \<Longrightarrow> vals ps = map SNum xs \<Longrightarrow> uniqueSessionStatus (SObj ps) = Inr (SNum (summary xs))"
  using reduceLevels_numbers [of xs] by (cases xs) (simp_all add: uniqueSessionStatus_def foldl_reduceStatus)

text \<open>The order matters only when both Running and Failed occur.\<close>

lemma summary_set:
  assumes eq: "set xs = set ys" and n: "\<not> (3 \<in> set xs \<and> 6 \<in> set xs)"
  shows "summary xs = summary ys"
proof (cases "3 \<in> set ys")
  case True
  with n eq have "6 \<notin> set (takeWhile (\<lambda>x. x \<noteq> 3) xs)" "6 \<notin> set (takeWhile (\<lambda>x. x \<noteq> 3) ys)"
    by (metis set_takeWhileD)+
  moreover from True eq have "set xs = {hd xs} \<longleftrightarrow> set ys = {3}" "set ys = {hd ys} \<longleftrightarrow> set ys = {3}"
    by (metis empty_iff insert_iff list.set_sel(1) set_empty)+
  ultimately show ?thesis using True eq unfolding summary_def by auto
next
  case False
  show ?thesis
  proof (cases "ys = []")
    case nonempty: False
    with eq have hd: "hd xs \<in> set ys" "hd ys \<in> set ys" by (metis hd_in_set set_empty)+
    then have "set xs = {hd xs} \<longleftrightarrow> set ys = {hd ys}" "set ys = {hd ys} \<Longrightarrow> hd xs = hd ys"
      using eq by auto
    with False eq show ?thesis unfolding summary_def by simp
  qed (use eq in simp)
qed

subsection \<open>Two levels of managers\<close>

text \<open>Properties with new keys that are no array indices are appended in order.\<close>

lemma puts_append:
  assumes "set (keys ps) \<inter> set (keys vs) = {}" "distinct (keys ps)" "\<forall>k \<in> set (keys ps). \<not> is_index k"
  shows "fold (\<lambda>(k, x). put k x) ps vs = vs @ ps"
  using assms
proof (induction ps arbitrary: vs)
  case (Cons p ps)
  obtain k x where p: "p = (k, x)" by (cases p)
  with Cons.prems have "put k x vs = vs @ [(k, x)]" by (auto simp: put_def has_iff keys_def)
  with Cons p show ?case by (auto simp: keys_def)
qed simp

text \<open>So merging the objects of a level whose keys are all different puts the later objects first.\<close>

lemma mergeAll_disjoint:
  assumes "distinct (concat (map keys (ob # obs)))" "\<forall>v \<in> set (ob # obs). \<forall>k \<in> set (keys v). \<not> is_index k"
  shows "rfold (\<lambda>v prev. mergeInto prev v) (map SObj obs) (SObj ob) = Inr (SObj (concat (rev obs) @ ob))"
  using assms
proof (induction obs arbitrary: ob)
  case (Cons v obs)
  from Cons.prems have m: "fold (\<lambda>(k, x). put k x) ob v = v @ ob" by (intro puts_append) auto
  have ks: "keys (v @ ob) = keys v @ keys ob" by (simp add: keys_def)
  from Cons.prems have "distinct (concat (map keys ((v @ ob) # obs)))" "\<forall>u \<in> set ((v @ ob) # obs). \<forall>k \<in> set (keys u). \<not> is_index k"
    by (auto simp: ks)
  from Cons.IH [OF this] m show ?case by (simp add: mergeInto_def)
qed simp

text \<open>What a master manager reports: for every island the statuses of its nodes.\<close>

definition islandStatus :: "(string \<times> (string \<times> int) list) list \<Rightarrow> jstatus" where
  "islandStatus islands = SObj (map (\<lambda>(i, ns). (i, SObj (map (\<lambda>(k, n). (k, SNum n)) ns))) islands)"

lemma reduceLevels_objects:
  assumes "distinct (concat (map keys obs))" "\<forall>v \<in> set obs. \<forall>k \<in> set (keys v). \<not> is_index k" "obs \<noteq> []"
    and "vals (concat (rev obs)) = map SNum xs"
  shows "reduceLevels (map SObj obs) = Inr (map SNum xs)"
proof -
  obtain ob rest where obs: "obs = ob # rest" using assms(3) by (cases obs) auto
  have "mergeAll (map SObj obs) = Inr (SObj (concat (rev obs)))"
    using mergeAll_disjoint [of ob rest] assms(1,2) by (simp add: obs mergeAll_def)
  then have "reduceLevels (map SObj obs) = reduceLevels (map SNum xs)"
    using assms(4) by (subst reduceLevels.simps) (simp add: obs is_object_def objectValues_def)
  with reduceLevels_numbers [of xs] show ?thesis by simp
qed

text \<open>The values of the summary, one by one.\<close>

lemma summary_values:
  assumes "xs \<noteq> []"
  shows "summary xs = 3 \<longleftrightarrow> set xs \<subseteq> {3, 4, 6} \<and> 3 \<in> set xs \<and> 6 \<notin> set (takeWhile (\<lambda>x. x \<noteq> 3) xs)"
    and "summary xs = 6 \<longleftrightarrow> set xs \<subseteq> {4, 6} \<and> 6 \<in> set xs"
    and "k \<notin> {3, 6, -1} \<Longrightarrow> summary xs = k \<longleftrightarrow> set xs = {k}"
proof -
  have hd: "hd xs \<in> set xs" using assms by simp
  show "summary xs = 3 \<longleftrightarrow> set xs \<subseteq> {3, 4, 6} \<and> 3 \<in> set xs \<and> 6 \<notin> set (takeWhile (\<lambda>x. x \<noteq> 3) xs)"
    using hd by (auto simp: summary_def)
  show "summary xs = 6 \<longleftrightarrow> set xs \<subseteq> {4, 6} \<and> 6 \<in> set xs"
    using hd by (auto simp: summary_def)
  assume k: "k \<notin> {3, 6, -1}"
  show "summary xs = k \<longleftrightarrow> set xs = {k}"
  proof (cases "set xs \<subseteq> {3, 4, 6}")
    case True
    show ?thesis
    proof (cases "3 \<in> set xs \<or> 6 \<in> set xs")
      case mixed: True
      then have "summary xs \<in> {3, 6, -1}" using True by (auto simp: summary_def)
      then have "summary xs \<noteq> k" using k by blast
      moreover have "set xs \<noteq> {k}" using k mixed by (metis insertCI singletonD)
      ultimately show ?thesis by blast
    next
      case False
      then have "set xs = {4}" "summary xs = 4" using True hd by (auto simp: summary_def)
      then show ?thesis by auto
    qed
  next
    case False
    then have "summary xs = (if set xs = {hd xs} then hd xs else -1)" by (simp add: summary_def)
    moreover have "hd xs = k" if "set xs = {k}" using hd that by blast
    ultimately show ?thesis using k by (metis insertI1 insertI2)
  qed
qed

section \<open>Properties\<close>

text \<open>C6. The reduction returns on every non-empty report of a manager with one number per node, and this is
  what it returns: Running exactly when all nodes are Running, Finished or Failed, one is Running and no Failed node comes
  before the first Running one; Failed exactly when all nodes are Finished or Failed and one is Failed; another status exactly when all nodes
  have that status; and Indeterminate in all other cases. So a Failed node after a Running one is not shown, and one before it makes the session
  Indeterminate.\<close>

theorem session_status_summary:
  assumes "xs \<noteq> []" "vals ps = map SNum xs"
  shows "\<exists>s. uniqueSessionStatus (SObj ps) = Inr (SNum s) \<and>
    (s = 3 \<longleftrightarrow> set xs \<subseteq> {3, 4, 6} \<and> 3 \<in> set xs \<and> 6 \<notin> set (takeWhile (\<lambda>x. x \<noteq> 3) xs)) \<and>
    (s = 6 \<longleftrightarrow> set xs \<subseteq> {4, 6} \<and> 6 \<in> set xs) \<and>
    (\<forall>k. k \<notin> {3, 6, -1} \<longrightarrow> (s = k \<longleftrightarrow> set xs = {k}))"
  using summary_of_numbers [OF assms] summary_values [OF assms(1)] by blast

theorem session_status_summary_witness:
  "vals [(''n1'', SNum 4), (''n2'', SNum 3), (''n3'', SNum 6)] = map SNum [4, 3, 6] \<and>
   uniqueSessionStatus (SObj [(''n1'', SNum 4), (''n2'', SNum 3), (''n3'', SNum 6)]) = Inr (SNum 3)"
proof -
  have v: "vals [(''n1'', SNum 4), (''n2'', SNum 3), (''n3'', SNum 6)] = map SNum [4, 3, 6]"
    by (simp add: vals_def)
  from session_status_summary [OF _ this] v show ?thesis by auto
qed

text \<open>C5. The nested report of a master manager, islands of nodes whose names are all different and no array
  indices, reduces to the summary of the statuses of all nodes in one list, in which the islands come last to first and the nodes
  of an island in their order. When Running and Failed do not both occur, this is the summary of the nodes' statuses in
  any order and whatever the island a node belongs to; when they do, the order of the islands decides
  between Running and Indeterminate.\<close>

theorem composite_status_is_node_summary:
  assumes distinct: "distinct (concat (map (\<lambda>(i, ns). map fst ns) islands))"
    and names: "\<forall>(i, ns) \<in> set islands. \<forall>(k, n) \<in> set ns. \<not> is_index k"
    and nodes: "nodes = concat (map (\<lambda>(i, ns). map snd ns) (rev islands))" "nodes \<noteq> []"
  shows "uniqueSessionStatus (islandStatus islands) = Inr (SNum (summary nodes)) \<and>
    (\<not> (3 \<in> set nodes \<and> 6 \<in> set nodes) \<longrightarrow> (\<forall>ys. set ys = set nodes \<longrightarrow> summary nodes = summary ys)) \<and>
    (3 \<in> set nodes \<and> 6 \<in> set nodes \<longrightarrow> summary nodes \<in> {3, -1})"
proof -
  define obs where "obs = map (\<lambda>(i, ns). map (\<lambda>(k, n). (k, SNum n)) ns) islands"
  have k: "map keys obs = map (\<lambda>(i, ns). map fst ns) islands" by (auto simp: obs_def keys_def)
  have idx: "\<forall>v \<in> set obs. \<forall>k \<in> set (keys v). \<not> is_index k" using names by (fastforce simp: obs_def keys_def)
  have v: "vals (concat (rev obs)) = map SNum nodes"
    by (auto simp: obs_def vals_def nodes(1) rev_map map_concat comp_def split_def)
  from nodes have ne: "obs \<noteq> []" by (auto simp: obs_def)
  have red: "reduceLevels (map SObj obs) = Inr (map SNum nodes)"
    using reduceLevels_objects [OF _ idx ne v] distinct unfolding k by blast
  obtain y ys where "nodes = y # ys" using nodes(2) by (cases nodes) auto
  moreover have "vals (map (\<lambda>(i, ns). (i, SObj (map (\<lambda>(k, n). (k, SNum n)) ns))) islands) = map SObj obs"
    by (auto simp: vals_def obs_def)
  ultimately have "uniqueSessionStatus (islandStatus islands) = Inr (SNum (summary nodes))"
    using red by (simp add: uniqueSessionStatus_def islandStatus_def foldl_reduceStatus)
  moreover have "summary nodes \<in> {3, -1}" if "3 \<in> set nodes \<and> 6 \<in> set nodes"
  proof -
    have "set nodes \<noteq> {hd nodes}" using that by auto
    with that show ?thesis by (auto simp: summary_def)
  qed
  ultimately show ?thesis using summary_set [of nodes] by metis
qed

theorem composite_status_is_node_summary_witness:
  "uniqueSessionStatus (islandStatus [(''i1'', [(''a'', 4), (''b'', 3)]), (''i2'', [(''c'', 6)])]) = Inr (SNum (-1)) \<and>
   uniqueSessionStatus (islandStatus [(''i2'', [(''c'', 6)]), (''i1'', [(''a'', 4), (''b'', 3)])]) = Inr (SNum 3)"
  using composite_status_is_node_summary [of "[(''i1'', [(''a'', 4), (''b'', 3)]), (''i2'', [(''c'', 6)])]" "[6, 4, 3]"]
    composite_status_is_node_summary [of "[(''i2'', [(''c'', 6)]), (''i1'', [(''a'', 4), (''b'', 3)])]" "[4, 3, 6]"]
  by (simp add: summary_def is_index_def is_digit_def)

text \<open>The reduction is not symmetric: a Running node followed by a Failed one is displayed as
  Running, the same statuses in the other order as Indeterminate, and the session can be
  cancelled in the first case only.\<close>

theorem status_depends_on_node_order:
  "uniqueSessionStatus (SObj [(''n1'', SNum 3), (''n2'', SNum 6)]) = Inr (SNum 3) \<and>
   uniqueSessionStatus (SObj [(''n1'', SNum 6), (''n2'', SNum 3)]) = Inr (SNum (-1)) \<and>
   does_status_allow_cancel (SObj [(''n1'', SNum 3), (''n2'', SNum 6)]) = Inr True \<and>
   does_status_allow_cancel (SObj [(''n1'', SNum 6), (''n2'', SNum 3)]) = Inr False"
  by (simp add: does_status_allow_cancel_def summary_of_numbers [of "[3, 6]"]
      summary_of_numbers [of "[6, 3]"] vals_def summary_def)

end
