(* ===== verification/Dm_Sessions.thy ===== *)
theory Dm_Sessions
  imports Dm_Status Js_Strings "HOL-Library.Word"
begin

text \<open>
  The session table of the data manager's pages (\<^verbatim>\<open>dm.js\<close>: \<open>loadSessions\<close>, \<open>loadPastSessions\<close>,
  \<open>fillDmTable\<close>, \<open>setStatusColor\<close>, \<open>sessionId_from_buttonId\<close>, \<open>cancel_session\<close>, \<open>delete_session\<close>,
  \<open>promptNewSession\<close>). The table is the list of its rows, a row the record of what its cells show;
  the d3 data join is by position, as the source calls it without a key function. The handlers of
  the server's responses are functions of the response; what they ask of the page or of the server
  is a list of \<open>effect\<close>s in order.
\<close>

unbundle bit_operations_syntax

section \<open>Data\<close>

record sessionInfo =
  s_sessionId :: string
  s_status :: jstatus
  s_size :: int

text \<open>\<open>None\<close> in a cell means that the row has no such cell yet.\<close>

record row =
  r_id :: "string option"
  r_status :: "string option"
  r_color :: "string option"
  r_size :: "string option"
  r_href :: "string option"
  r_cancelId :: "string option"
  r_deleteId :: "string option"
  r_cancelDisabled :: bool
  r_deleteDisabled :: bool
  r_progressRunning :: bool

definition emptyRow :: row where
  "emptyRow = \<lparr>r_id = None, r_status = None, r_color = None, r_size = None, r_href = None, r_cancelId = None,
     r_deleteId = None, r_cancelDisabled = False, r_deleteDisabled = False, r_progressRunning = False\<rparr>"

datatype effect =
    Get string
  | Post string string
  | Delete string
  | Alert string
  | Confirm string
  | SetStatusText string
  | SetStatusColor string
  | HideCancelBtn
  | EnableBtn
  | StartStatusQuery string
  | LoadSessions
  | ConsoleError string

section \<open>Addresses and identifiers\<close>

definition nodePrefix :: "string \<Rightarrow> string option \<Rightarrow> string" where
  "nodePrefix serverUrl selectedNode =
     serverUrl @ ''/api'' @ (if truthy selectedNode then ''/node/'' @ js_str selectedNode else [])"

definition sessionsUrl :: "string \<Rightarrow> string option \<Rightarrow> string" where
  "sessionsUrl serverUrl selectedNode = nodePrefix serverUrl selectedNode @ ''/sessions''"

definition pastSessionsUrl :: "string \<Rightarrow> string option \<Rightarrow> string" where
  "pastSessionsUrl serverUrl selectedNode = nodePrefix serverUrl selectedNode @ ''/past_sessions''"

definition sessionLink :: "string option \<Rightarrow> string \<Rightarrow> string" where
  "sessionLink selectedNode s =
     ''session?sessionId='' @ s @ (if truthy selectedNode then ''&node='' @ js_str selectedNode else [])"

text \<open>\<open>dimUrl\<close> is the parameter \<open>dim_url\<close> of the page's own address.\<close>

definition DimSessionLink :: "string option \<Rightarrow> string option \<Rightarrow> string \<Rightarrow> string" where
  "DimSessionLink selectedNode dimUrl s =
     ''session?sessionId='' @ s @
     (if truthy selectedNode then ''&node='' @ js_str selectedNode else []) @
     (if truthy dimUrl then ''&dim_url='' @ js_str dimUrl else [])"

text \<open>The hash is computed in 32-bit integers (\<open>a & a\<close> truncates).\<close>

definition hashStep :: "32 word \<Rightarrow> char \<Rightarrow> 32 word" where
  "hashStep a b = (push_bit 5 a - a) + of_nat (of_char b)"

definition hashCode :: "string \<Rightarrow> int" where
  "hashCode s = sint (foldl hashStep 0 s)"

definition cancelBtnSessionId :: "string \<Rightarrow> string" where
  "cancelBtnSessionId s = ''cancelBtn'' @ int_str (hashCode s)"

definition deleteBtnSessionId :: "string \<Rightarrow> string" where
  "deleteBtnSessionId s = ''deleteBtn'' @ int_str (hashCode s)"

section \<open>The table\<close>

text \<open>\<open>sessions.sort\<close> with a comparator that puts the larger id first; the sort is stable.\<close>

fun insertSession :: "sessionInfo \<Rightarrow> sessionInfo list \<Rightarrow> sessionInfo list" where
  "insertSession x [] = [x]"
| "insertSession x (y # ys) =
     (if s_sessionId x \<ge> s_sessionId y then x # y # ys else y # insertSession x ys)"

definition sortSessions :: "sessionInfo list \<Rightarrow> sessionInfo list" where
  "sortSessions ss = foldr insertSession ss []"

text \<open>\<open>rows.exit().remove()\<close>, then two calls of \<open>rows.enter().append('tr')\<close>, each of which appends a row
  for every session without one.\<close>

definition joinRows :: "nat \<Rightarrow> row list \<Rightarrow> row list" where
  "joinRows n rows = take n rows @ replicate (2 * (n - length rows)) emptyRow"

text \<open>The cells of one row; the options are the columns to show and the makers of the link and of
  the ids of the two buttons. An existing cell is updated, but the buttons of an existing
  actions cell are left as they are.\<close>

record tableOptions =
  o_link :: "string \<Rightarrow> string"
  o_cancelId :: "(string \<Rightarrow> string) option"
  o_deleteId :: "(string \<Rightarrow> string) option"
  o_displayStatus :: bool
  o_displaySize :: bool

definition fillRow :: "tableOptions \<Rightarrow> sessionInfo \<Rightarrow> row \<Rightarrow> row result" where
  "fillRow opts s r =
     rbind (if o_displayStatus opts
            then rbind (uniqueSessionStatus (s_status s)) (\<lambda>st.
                   Inr (Some (case sessionStatusToString st of Some t \<Rightarrow> t | None \<Rightarrow> [])))
            else Inr (r_status r)) (\<lambda>statusText.
       let r1 = r\<lparr>r_id := Some (s_sessionId s), r_status := statusText,
                  r_size := (if o_displaySize opts then Some (int_str (s_size s)) else r_size r),
                  r_href := Some (o_link opts (s_sessionId s))\<rparr>
       in Inr (case (o_cancelId opts, o_deleteId opts, r_cancelId r) of
                 (Some cancelId, Some deleteId, None) \<Rightarrow>
                   r1\<lparr>r_cancelId := Some (cancelId (s_sessionId s)), r_deleteId := Some (deleteId (s_sessionId s))\<rparr>
               | _ \<Rightarrow> r1))"

text \<open>The rows beyond the data keep their content.\<close>

fun fillDmTable :: "tableOptions \<Rightarrow> sessionInfo list \<Rightarrow> row list \<Rightarrow> row list result" where
  "fillDmTable opts (s # ss) (r # rows) =
     rbind (fillRow opts s r) (\<lambda>r'. rbind (fillDmTable opts ss rows) (\<lambda>rows'. Inr (r' # rows')))"
| "fillDmTable opts _ rows = Inr rows"

section \<open>Colours and buttons\<close>

text \<open>The branches of the loop over the status cells: colour (if it is set), whether the cancel and the
  delete button are disabled. There is no log button in the table.\<close>

definition statusControls :: "string \<Rightarrow> string option \<times> bool \<times> bool" where
  "statusControls currentStatus =
     (if currentStatus = ''Cancelled'' then (Some ''grey'', True, False)
      else if currentStatus = ''Deploying'' then (Some ''blue'', False, True)
      else if currentStatus = ''Running'' then (None, False, True)
      else if currentStatus = ''Finished'' then (Some ''#00af28'', True, False)
      else if currentStatus = ''Pristine'' then (Some ''#b93a46'', True, False)
      else if currentStatus = ''Failed'' then (Some ''#FF0000'', True, False)
      else (Some ''purple'', True, False))"

definition rowControls :: "row \<Rightarrow> row \<times> effect list" where
  "rowControls r =
     (case r_status r of
        None \<Rightarrow> (r, [])
      | Some currentStatus \<Rightarrow>
          let (color, cancelDisabled, deleteDisabled) = statusControls currentStatus;
              r1 = r\<lparr>r_color := (if color = None then r_color r else color),
                     r_cancelDisabled := cancelDisabled, r_deleteDisabled := deleteDisabled\<rparr>
          in if currentStatus = ''Running'' then
               (r1\<lparr>r_status := Some ''<svg></svg>'', r_progressRunning := True\<rparr>,
                if r_progressRunning r then [] else [StartStatusQuery (js_str (r_id r))])
             else (r1\<lparr>r_progressRunning := False\<rparr>, []))"

text \<open>The response handler of \<open>loadSessions\<close>: the new table and the status queries it starts.\<close>

definition sessionsOptions :: "string option \<Rightarrow> string option \<Rightarrow> tableOptions" where
  "sessionsOptions selectedNode dimUrl =
     \<lparr>o_link = DimSessionLink selectedNode dimUrl, o_cancelId = Some cancelBtnSessionId,
      o_deleteId = Some deleteBtnSessionId, o_displayStatus = True, o_displaySize = True\<rparr>"

definition loadSessionsResponse ::
  "string option \<Rightarrow> string option \<Rightarrow> sessionInfo list \<Rightarrow> row list \<Rightarrow> (row list \<times> effect list) result" where
  "loadSessionsResponse selectedNode dimUrl response rows =
     (let sessions = sortSessions response in
      rbind (fillDmTable (sessionsOptions selectedNode dimUrl) sessions (joinRows (length sessions) rows)) (\<lambda>rows'.
        Inr (map (fst \<circ> rowControls) rows', concat (map (snd \<circ> rowControls) rows'))))"

text \<open>The past sessions have no status, no size and no buttons, and link to the page itself.\<close>

definition loadPastSessionsResponse :: "string \<Rightarrow> sessionInfo list \<Rightarrow> row list \<Rightarrow> row list result" where
  "loadPastSessionsResponse pageUrl response rows =
     (let sessions = sortSessions response in
      fillDmTable \<lparr>o_link = (\<lambda>_. pageUrl), o_cancelId = None, o_deleteId = None,
                   o_displayStatus = False, o_displaySize = False\<rparr>
        sessions (joinRows (length sessions) rows))"

definition setStatusColor :: "string \<Rightarrow> effect list" where
  "setStatusColor status =
     (if status = ''Cancelled'' then [SetStatusColor ''grey'', HideCancelBtn]
      else if status = ''Running'' then [SetStatusColor ''#ecde7b'']
      else if status = ''Failed'' then [SetStatusColor ''#ff0000'']
      else [SetStatusColor ''lime'', HideCancelBtn])"

section \<open>The buttons\<close>

text \<open>\<open>href.split('=')[1].split('&')[0]\<close>.\<close>

definition sessionIdFromHref :: "string \<Rightarrow> string result" where
  "sessionIdFromHref href =
     (case split_on CHR ''='' href of
        _ # part # _ \<Rightarrow> Inr (hd (split_on CHR ''&'' part))
      | _ \<Rightarrow> Inl (TypeError ''undefined''))"

text \<open>The element with an id is the first one in the document.\<close>

definition sessionId_from_buttonId :: "string \<Rightarrow> row list \<Rightarrow> string result" where
  "sessionId_from_buttonId buttonId rows =
     (case find (\<lambda>r. r_cancelId r = Some buttonId \<or> r_deleteId r = Some buttonId) rows of
        Some r \<Rightarrow> rbind (deref (r_href r)) sessionIdFromHref
      | None \<Rightarrow> Inl (TypeError ''undefined''))"

text \<open>The session id is the string \<open>false\<close> when the button stands in the table.\<close>

definition targetSession :: "string \<Rightarrow> string \<Rightarrow> row list \<Rightarrow> string result" where
  "targetSession sessionId buttonId rows =
     (if sessionId = ''false'' then sessionId_from_buttonId buttonId rows else Inr sessionId)"

definition sessionUrl :: "string \<Rightarrow> string \<Rightarrow> string" where
  "sessionUrl serverUrl sessionId = serverUrl @ ''/api'' @ ''/sessions/'' @ sessionId"

text \<open>The handler of the response to the query of the session, which both buttons send first.\<close>

definition cancelResponse :: "string \<Rightarrow> string \<Rightarrow> jstatus \<Rightarrow> effect list result" where
  "cancelResponse url sessionId status =
     rbind (does_status_allow_cancel status) (\<lambda>allowed.
       Inr (if allowed then
              [Alert (''Cancel of '' @ sessionId @ '' in progress.''), EnableBtn, Post (url @ ''/cancel'') [],
               SetStatusText ''Cancelled''] @ setStatusColor ''Cancelled''
            else [Alert (''Can'' @ [CHR 0x27] @ ''t cancel '' @ sessionId @ '' unless it is RUNNING.'')]))"

text \<open>\<open>server\<close> is what the server answers to the query, \<open>None\<close> when the request fails: the promise is
  then rejected and nothing follows.\<close>

definition cancel_session ::
  "string \<Rightarrow> string \<Rightarrow> string \<Rightarrow> row list \<Rightarrow> (string \<Rightarrow> jstatus option) \<Rightarrow> effect list result" where
  "cancel_session serverUrl sessionId buttonId rows server =
     rbind (targetSession sessionId buttonId rows) (\<lambda>sid.
       let url = sessionUrl serverUrl sid in
       case server url of
         None \<Rightarrow> Inr [Get url]
       | Some status \<Rightarrow> rbind (cancelResponse url sid status) (\<lambda>es. Inr (Get url # es)))"

text \<open>\<open>confirmed\<close> is the user's answer to the dialog.\<close>

definition deleteResponse :: "string \<Rightarrow> string \<Rightarrow> bool \<Rightarrow> jstatus \<Rightarrow> effect list result" where
  "deleteResponse url sessionId confirmed status =
     rbind (does_status_allow_cancel status) (\<lambda>allowed.
       Inr (if \<not> allowed then
              Confirm ''Do you really want to delete this session?'' # (if confirmed then [EnableBtn, Delete url] else [])
            else [Alert (''Can'' @ [CHR 0x27] @ ''t delete '' @ sessionId @ ''! It is still RUNNING.'')]))"

definition delete_session ::
  "string \<Rightarrow> string \<Rightarrow> string \<Rightarrow> row list \<Rightarrow> bool \<Rightarrow> (string \<Rightarrow> jstatus option) \<Rightarrow> effect list result" where
  "delete_session serverUrl sessionId buttonId rows confirmed server =
     rbind (targetSession sessionId buttonId rows) (\<lambda>sid.
       let url = sessionUrl serverUrl sid in
       case server url of
         None \<Rightarrow> Inr [Get url]
       | Some status \<Rightarrow> rbind (deleteResponse url sid confirmed status) (\<lambda>es. Inr (Get url # es)))"

text \<open>\<open>promptNewSession\<close>: the dialog is dismissed (\<open>None\<close>) or answered; the request fails, or is answered
  with a success or an error status. An \<open>Error\<close> has no property \<open>responseText\<close>.\<close>

datatype fetchOutcome = NetworkError string | Answer bool string

definition handleFetchErrors :: "fetchOutcome \<Rightarrow> string result" where
  "handleFetchErrors response =
     (case response of
        NetworkError m \<Rightarrow> Inl (TypeError m)
      | Answer isOk statusText \<Rightarrow> if \<not> isOk then Inl (Error statusText) else Inr statusText)"

definition promptNewSession :: "string \<Rightarrow> string option \<Rightarrow> fetchOutcome \<Rightarrow> effect list" where
  "promptNewSession serverUrl answer response =
     (case answer of
        None \<Rightarrow> []
      | Some sessionId \<Rightarrow>
          Post (serverUrl @ ''/api/sessions'') sessionId #
          (case handleFetchErrors response of
             Inr _ \<Rightarrow> [LoadSessions]
           | Inl _ \<Rightarrow> [ConsoleError sessionId,
                Alert (''An error occurred while creating session '' @ sessionId @ '': '' @ js_str None)]))"

section \<open>The progress bar\<close>

text \<open>The rectangles of a running session's bar: the drops are counted per state in the order of
  \<open>states\<close>, a rectangle starts at the scaled sum of the counts before it and is as wide as the
  scaled count. \<open>Math.round\<close> rounds a half up.\<close>

definition states :: "string list" where
  "states = [''completed'', ''finished'', ''running'', ''writing'', ''error'', ''expired'', ''deleted'',
     ''cancelled'', ''skipped'', ''not_run'', ''initialized'']"

text \<open>The point scale, which gives the position of a state in the list and \<open>undefined\<close> for anything else; counting there
  changes no element of the array.\<close>

fun states_idx :: "string list \<Rightarrow> string \<Rightarrow> nat option" where
  "states_idx [] t = None"
| "states_idx (x # xs) t = (if x = t then Some 0 else map_option Suc (states_idx xs t))"

definition countStatus :: "drop_status \<Rightarrow> nat list \<Rightarrow> nat list" where
  "countStatus s counts =
     (case get_status_name s of
        None \<Rightarrow> counts
      | Some t \<Rightarrow> (case states_idx states t of None \<Rightarrow> counts | Some i \<Rightarrow> counts[i := counts ! i + 1]))"

definition status_counts :: "drop_status list \<Rightarrow> nat list" where
  "status_counts statuses = fold countStatus statuses [0, 0, 0, 0, 0, 0, 0, 0, 0, 0, 0]"

definition barScale :: "nat \<Rightarrow> nat \<Rightarrow> nat \<Rightarrow> nat" where
  "barScale width n x = (2 * x * width + n) div (2 * n)"

fun cumsum :: "nat \<Rightarrow> nat list \<Rightarrow> nat list" where
  "cumsum acc [] = []"
| "cumsum acc (c # cs) = acc # cumsum (acc + c) cs"

definition status_update_handler :: "nat \<Rightarrow> drop_status list \<Rightarrow> (nat \<times> nat) list" where
  "status_update_handler width statuses =
     (let counts = status_counts statuses; n = length statuses in
      map2 (\<lambda>c x. (barScale width n c + 20, barScale width n x)) (cumsum 0 counts) counts)"

section \<open>Lemmas\<close>

lemma sortSessions_mset: "mset (sortSessions ss) = mset ss"
proof -
  have "mset (insertSession x xs) = add_mset x (mset xs)" for x xs
    by (induction xs) auto
  then show ?thesis by (induction ss) (simp_all add: sortSessions_def)
qed

lemma set_sortSessions [simp]: "set (sortSessions ss) = set ss"
  using sortSessions_mset by (metis set_mset_mset)

lemma length_sortSessions [simp]: "length (sortSessions ss) = length ss"
  using sortSessions_mset by (metis size_mset)

lemma sortSessions_sorted: "sorted_wrt (\<lambda>x y. s_sessionId x \<ge> s_sessionId y) (sortSessions ss)"
proof -
  have set: "set (insertSession x xs) = insert x (set xs)" for x xs by (induction xs) auto
  have "sorted_wrt (\<lambda>x y. s_sessionId x \<ge> s_sessionId y) xs \<Longrightarrow>
      sorted_wrt (\<lambda>x y. s_sessionId x \<ge> s_sessionId y) (insertSession x xs)" for x xs
    by (induction xs) (auto simp: set)
  then show ?thesis by (induction ss) (simp_all add: sortSessions_def)
qed

lemma length_joinRows: "n \<le> length (joinRows n rows)"
  by (simp add: joinRows_def)

lemma fillDmTable_nth:
  assumes "fillDmTable opts ss rows = Inr rows'" "length ss \<le> length rows"
  shows "length rows' = length rows" "\<And>i. i < length ss \<Longrightarrow> fillRow opts (ss ! i) (rows ! i) = Inr (rows' ! i)"
    and "drop (length ss) rows' = drop (length ss) rows"
proof -
  have "length rows' = length rows \<and> (\<forall>i < length ss. fillRow opts (ss ! i) (rows ! i) = Inr (rows' ! i)) \<and>
      drop (length ss) rows' = drop (length ss) rows"
    using assms
  proof (induction ss rows arbitrary: rows' rule: list_induct2')
    case (4 s ss r rows)
    then show ?case by (auto simp: rbind_Inr_iff nth_Cons split: nat.splits)
  qed auto
  then show "length rows' = length rows" "\<And>i. i < length ss \<Longrightarrow> fillRow opts (ss ! i) (rows ! i) = Inr (rows' ! i)"
    "drop (length ss) rows' = drop (length ss) rows" by auto
qed

lemma fillDmTable_total:
  assumes "\<And>s r. s \<in> set ss \<Longrightarrow> \<exists>r'. fillRow opts s r = Inr r'"
  shows "\<exists>rows'. fillDmTable opts ss rows = Inr rows'"
  using assms
proof (induction ss rows rule: list_induct2')
  case (4 s ss r rows)
  from 4(2) [of s r] obtain r' where "fillRow opts s r = Inr r'" by auto
  moreover from 4 obtain rows' where "fillDmTable opts ss rows = Inr rows'" by auto
  ultimately show ?case by simp
qed auto

text \<open>The displayed name determines the status.\<close>

lemma status_names:
  "sessionStatusToString st = Some ''Running'' \<longleftrightarrow> st = SNum 3"
  "sessionStatusToString st = Some ''Deploying'' \<longleftrightarrow> st = SNum 2"
proof -
  have "array_at SESSION_STATUS n = Some ''Running'' \<longleftrightarrow> n = 3" "array_at SESSION_STATUS n = Some ''Deploying'' \<longleftrightarrow> n = 2" for n
  proof -
    consider "n < 0" | "n = 0" | "n = 1" | "n = 2" | "n = 3" | "n = 4" | "n = 5" | "n = 6" | "n \<ge> 7" by arith
    then show "array_at SESSION_STATUS n = Some ''Running'' \<longleftrightarrow> n = 3" "array_at SESSION_STATUS n = Some ''Deploying'' \<longleftrightarrow> n = 2"
      by (cases; simp add: array_at_def SESSION_STATUS_def)+
  qed
  then show "sessionStatusToString st = Some ''Running'' \<longleftrightarrow> st = SNum 3"
    "sessionStatusToString st = Some ''Deploying'' \<longleftrightarrow> st = SNum 2"
    by (cases st; simp add: sessionStatusToString_def)+
qed

lemma fillRow_shows:
  assumes "fillRow (sessionsOptions selectedNode dimUrl) s r = Inr r'" "rowControls r' = (r'', es)"
    "uniqueSessionStatus (s_status s) = Inr st"
  shows "r_id r'' = Some (s_sessionId s)" "r_size r'' = Some (int_str (s_size s))"
    and "r_href r'' = Some (DimSessionLink selectedNode dimUrl (s_sessionId s))"
    and "r_cancelDisabled r'' \<longleftrightarrow> st \<notin> {SNum 2, SNum 3}" "r_deleteDisabled r'' \<longleftrightarrow> st \<in> {SNum 2, SNum 3}"
    and "r_cancelId r'' = (if r_cancelId r = None then Some (cancelBtnSessionId (s_sessionId s)) else r_cancelId r)"
    and "r_deleteId r'' = (if r_cancelId r = None then Some (deleteBtnSessionId (s_sessionId s)) else r_deleteId r)"
    and "r_status r'' = Some (if st = SNum 3 then ''<svg></svg>'' else case sessionStatusToString st of Some t \<Rightarrow> t | None \<Rightarrow> [])"
    and "es = (if st = SNum 3 \<and> \<not> r_progressRunning r then [StartStatusQuery (s_sessionId s)] else [])"
proof -
  let ?t = "case sessionStatusToString st of Some t \<Rightarrow> t | None \<Rightarrow> []"
  have t: "?t = ''Running'' \<longleftrightarrow> st = SNum 3" "?t = ''Deploying'' \<longleftrightarrow> st = SNum 2"
    using status_names [of st] by (auto split: option.splits)
  have r': "r_id r' = Some (s_sessionId s)" "r_size r' = Some (int_str (s_size s))"
    "r_href r' = Some (DimSessionLink selectedNode dimUrl (s_sessionId s))" "r_status r' = Some ?t"
    "r_cancelId r' = (if r_cancelId r = None then Some (cancelBtnSessionId (s_sessionId s)) else r_cancelId r)"
    "r_deleteId r' = (if r_cancelId r = None then Some (deleteBtnSessionId (s_sessionId s)) else r_deleteId r)"
    "r_progressRunning r' = r_progressRunning r"
    using assms(1,3) by (auto simp: fillRow_def sessionsOptions_def Let_def split: option.splits)
  have c: "fst (snd (statusControls ?t)) \<longleftrightarrow> st \<notin> {SNum 2, SNum 3}" "snd (snd (statusControls ?t)) \<longleftrightarrow> st \<in> {SNum 2, SNum 3}"
    unfolding statusControls_def using t by auto
  have "r_id r'' = r_id r'" "r_size r'' = r_size r'" "r_href r'' = r_href r'" "r_cancelId r'' = r_cancelId r'"
    "r_deleteId r'' = r_deleteId r'" "r_cancelDisabled r'' = fst (snd (statusControls ?t))"
    "r_deleteDisabled r'' = snd (snd (statusControls ?t))" "r_status r'' = Some (if ?t = ''Running'' then ''<svg></svg>'' else ?t)"
    "es = (if ?t = ''Running'' \<and> \<not> r_progressRunning r' then [StartStatusQuery (js_str (r_id r'))] else [])"
    using assms(2) by (auto simp: rowControls_def r'(4) Let_def split: prod.splits if_splits)
  with r' c t show "r_id r'' = Some (s_sessionId s)" "r_size r'' = Some (int_str (s_size s))"
    "r_href r'' = Some (DimSessionLink selectedNode dimUrl (s_sessionId s))"
    "r_cancelDisabled r'' \<longleftrightarrow> st \<notin> {SNum 2, SNum 3}" "r_deleteDisabled r'' \<longleftrightarrow> st \<in> {SNum 2, SNum 3}"
    "r_cancelId r'' = (if r_cancelId r = None then Some (cancelBtnSessionId (s_sessionId s)) else r_cancelId r)"
    "r_deleteId r'' = (if r_cancelId r = None then Some (deleteBtnSessionId (s_sessionId s)) else r_deleteId r)"
    "r_status r'' = Some (if st = SNum 3 then ''<svg></svg>'' else ?t)"
    "es = (if st = SNum 3 \<and> \<not> r_progressRunning r then [StartStatusQuery (s_sessionId s)] else [])"
    by (simp_all add: js_str_def)
qed

text \<open>The response handler row by row.\<close>

lemma loadSessionsResponse_rows:
  assumes "loadSessionsResponse selectedNode dimUrl response rows = Inr (rows', es)"
  shows "length rows' = length (joinRows (length response) rows)"
    and "\<And>i. i < length response \<Longrightarrow> \<exists>r' es' . fillRow (sessionsOptions selectedNode dimUrl) (sortSessions response ! i)
           (joinRows (length response) rows ! i) = Inr r' \<and> rowControls r' = (rows' ! i, es')"
    and "drop (length response) rows' = map (fst \<circ> rowControls) (drop (length response) (joinRows (length response) rows))"
proof -
  obtain fs where fs: "fillDmTable (sessionsOptions selectedNode dimUrl) (sortSessions response)
      (joinRows (length response) rows) = Inr fs" "rows' = map (fst \<circ> rowControls) fs"
    using assms by (auto simp: loadSessionsResponse_def Let_def rbind_Inr_iff)
  note n = fillDmTable_nth [OF fs(1)] length_joinRows [of "length response" rows]
  show "length rows' = length (joinRows (length response) rows)" using fs(2) n by simp
  show "drop (length response) rows' = map (fst \<circ> rowControls) (drop (length response) (joinRows (length response) rows))"
    using fs(2) n(3,4) by (simp add: drop_map)
  fix i assume i: "i < length response"
  then have "fillRow (sessionsOptions selectedNode dimUrl) (sortSessions response ! i)
      (joinRows (length response) rows ! i) = Inr (fs ! i)" using n by simp
  moreover have "rowControls (fs ! i) = (rows' ! i, snd (rowControls (fs ! i)))"
    using fs(2) n i by simp
  ultimately show "\<exists>r' es' . fillRow (sessionsOptions selectedNode dimUrl) (sortSessions response ! i)
           (joinRows (length response) rows ! i) = Inr r' \<and> rowControls r' = (rows' ! i, es')" by blast
qed

text \<open>What the row of a position was before the response; a new row is empty.\<close>

definition rowBefore :: "row list \<Rightarrow> nat \<Rightarrow> row" where
  "rowBefore rows i = (if i < length rows then rows ! i else emptyRow)"

lemma joinRows_nth: "i < n \<Longrightarrow> joinRows n rows ! i = rowBefore rows i"
  by (auto simp: joinRows_def rowBefore_def nth_append)

lemma joinRows_rest: "drop n (joinRows n rows) = replicate (n - length rows) emptyRow"
  by (simp add: joinRows_def)

lemma rowControls_empty: "rowControls emptyRow = (emptyRow, [])"
  by (simp add: rowControls_def emptyRow_def)

text \<open>Everything a response does to one row.\<close>

definition shows_session :: "string option \<Rightarrow> string option \<Rightarrow> sessionInfo \<Rightarrow> jstatus \<Rightarrow> row \<Rightarrow> row \<Rightarrow> bool" where
  "shows_session selectedNode dimUrl s st r0 r \<longleftrightarrow>
     r_id r = Some (s_sessionId s) \<and> r_size r = Some (int_str (s_size s)) \<and>
     r_href r = Some (DimSessionLink selectedNode dimUrl (s_sessionId s)) \<and>
     r_status r = Some (if st = SNum 3 then ''<svg></svg>'' else case sessionStatusToString st of Some t \<Rightarrow> t | None \<Rightarrow> []) \<and>
     (r_cancelDisabled r \<longleftrightarrow> st \<notin> {SNum 2, SNum 3}) \<and> (r_deleteDisabled r \<longleftrightarrow> st \<in> {SNum 2, SNum 3}) \<and>
     (if r_cancelId r0 = None
      then r_cancelId r = Some (cancelBtnSessionId (s_sessionId s)) \<and> r_deleteId r = Some (deleteBtnSessionId (s_sessionId s))
      else r_cancelId r = r_cancelId r0 \<and> r_deleteId r = r_deleteId r0)"

lemma response_row:
  assumes load: "loadSessionsResponse selectedNode dimUrl response rows = Inr (rows', es)" and i: "i < length response"
    and st: "uniqueSessionStatus (s_status (sortSessions response ! i)) = Inr st"
  shows "shows_session selectedNode dimUrl (sortSessions response ! i) st (rowBefore rows i) (rows' ! i)"
proof -
  obtain r' es' where "fillRow (sessionsOptions selectedNode dimUrl) (sortSessions response ! i) (rowBefore rows i) = Inr r'"
    "rowControls r' = (rows' ! i, es')" using loadSessionsResponse_rows(2) [OF load i] unfolding joinRows_nth [OF i] by blast
  from fillRow_shows [OF this st] show ?thesis by (auto simp: shows_session_def)
qed

lemma response_rest:
  assumes load: "loadSessionsResponse selectedNode dimUrl response rows = Inr (rows', es)"
    and i: "length response \<le> i" "i < length rows'"
  shows "rows' ! i = emptyRow"
proof -
  have "drop (length response) rows' = replicate (length response - length rows) emptyRow"
    using loadSessionsResponse_rows(3) [OF load] by (simp add: joinRows_rest rowControls_empty)
  moreover have "rows' ! i = drop (length response) rows' ! (i - length response)" using i by simp
  moreover have "i - length response < length (drop (length response) rows')" using i by simp
  ultimately show ?thesis by simp
qed

text \<open>The status queries for the rows that have become Running.\<close>

definition newQueries :: "sessionInfo list \<Rightarrow> row list \<Rightarrow> effect list" where
  "newQueries ss rows = concat (map (\<lambda>i. if uniqueSessionStatus (s_status (ss ! i)) = Inr (SNum 3) \<and> \<not> r_progressRunning (rowBefore rows i)
     then [StartStatusQuery (s_sessionId (ss ! i))] else []) [0..<length ss])"

lemma response_effects:
  assumes load: "loadSessionsResponse selectedNode dimUrl response rows = Inr (rows', es)"
    and st: "\<And>s. s \<in> set response \<Longrightarrow> \<exists>st. uniqueSessionStatus (s_status s) = Inr st"
  shows "es = newQueries (sortSessions response) rows"
proof -
  let ?n = "length response"
  obtain fs where fs: "fillDmTable (sessionsOptions selectedNode dimUrl) (sortSessions response) (joinRows ?n rows) = Inr fs"
    "es = concat (map (snd \<circ> rowControls) fs)"
    using load by (auto simp: loadSessionsResponse_def Let_def rbind_Inr_iff)
  have le: "length (sortSessions response) \<le> length (joinRows ?n rows)" using length_joinRows [of ?n rows] by simp
  note F = fillDmTable_nth [OF fs(1) le]
  have one: "snd (rowControls (fs ! i)) = (if uniqueSessionStatus (s_status (sortSessions response ! i)) = Inr (SNum 3) \<and>
      \<not> r_progressRunning (rowBefore rows i) then [StartStatusQuery (s_sessionId (sortSessions response ! i))] else [])" if i: "i < ?n" for i
  proof -
    have "sortSessions response ! i \<in> set response" using i by (metis length_sortSessions nth_mem set_sortSessions)
    then obtain x where x: "uniqueSessionStatus (s_status (sortSessions response ! i)) = Inr x" using st by blast
    have fill: "fillRow (sessionsOptions selectedNode dimUrl) (sortSessions response ! i) (rowBefore rows i) = Inr (fs ! i)"
      using F(2) [of i] i joinRows_nth [OF i] by simp
    obtain r'' es'' where "rowControls (fs ! i) = (r'', es'')" by (cases "rowControls (fs ! i)")
    with fillRow_shows(9) [OF fill this x] x show ?thesis by simp
  qed
  have len: "?n \<le> length fs" using F(1) le by simp
  have "drop ?n fs = replicate (?n - length rows) emptyRow" using F(3) joinRows_rest [of ?n rows] by simp
  then have "concat (map (snd \<circ> rowControls) (drop ?n fs)) = []" by (simp add: rowControls_empty)
  moreover have "map (snd \<circ> rowControls) (take ?n fs) = map (\<lambda>i. snd (rowControls (fs ! i))) [0..<?n]"
    using len by (intro nth_equalityI) simp_all
  moreover have "\<dots> = map (\<lambda>i. if uniqueSessionStatus (s_status (sortSessions response ! i)) = Inr (SNum 3) \<and> \<not> r_progressRunning (rowBefore rows i)
     then [StartStatusQuery (s_sessionId (sortSessions response ! i))] else []) [0..<?n]" using one by (intro map_cong) auto
  moreover have "es = concat (map (snd \<circ> rowControls) (take ?n fs)) @ concat (map (snd \<circ> rowControls) (drop ?n fs))"
    unfolding fs(2) by (simp flip: concat_append map_append)
  ultimately show ?thesis by (simp only: newQueries_def length_sortSessions append_Nil2)
qed

lemma loadSessionsResponse_total:
  assumes "\<And>s. s \<in> set response \<Longrightarrow> \<exists>st. uniqueSessionStatus (s_status s) = Inr st"
  shows "\<exists>rows' es. loadSessionsResponse selectedNode dimUrl response rows = Inr (rows', es)"
proof -
  have "\<exists>r'. fillRow (sessionsOptions selectedNode dimUrl) s r = Inr r'" if "s \<in> set (sortSessions response)" for s r
    using assms [of s] that by (auto simp: fillRow_def sessionsOptions_def Let_def)
  then obtain rows' where "fillDmTable (sessionsOptions selectedNode dimUrl) (sortSessions response)
      (joinRows (length response) rows) = Inr rows'"
    using fillDmTable_total by meson
  then show ?thesis by (simp add: loadSessionsResponse_def)
qed

subsection \<open>Links and buttons\<close>

definition plain_sid :: "string \<Rightarrow> bool" where
  "plain_sid s \<longleftrightarrow> CHR ''='' \<notin> set s \<and> CHR ''&'' \<notin> set s"

lemma link_roundtrip:
  assumes "plain_sid s"
  shows "sessionIdFromHref (DimSessionLink selectedNode dimUrl s) = Inr s"
proof -
  define rest where "rest = (if truthy selectedNode then ''&node='' @ js_str selectedNode else []) @
     (if truthy dimUrl then ''&dim_url='' @ js_str dimUrl else [])"
  have href: "DimSessionLink selectedNode dimUrl s = ''session?sessionId'' @ CHR ''='' # (s @ rest)"
    by (simp add: DimSessionLink_def rest_def)
  have "rest = [] \<or> (\<exists>t. rest = CHR ''&'' # t)" by (auto simp: rest_def)
  then obtain t where t: "hd (split_on CHR ''='' rest) = [] \<or> hd (split_on CHR ''='' rest) = CHR ''&'' # t"
    by (cases "split_on CHR ''='' (tl rest)") auto
  have "split_on CHR ''='' (DimSessionLink selectedNode dimUrl s) =
      ''session?sessionId'' # (s @ hd (split_on CHR ''='' rest)) # tl (split_on CHR ''='' rest)"
    using assms unfolding href by (subst split_on_append) (simp_all add: split_on_prefix plain_sid_def)
  moreover have "hd (split_on CHR ''&'' (s @ hd (split_on CHR ''='' rest))) = s"
    using t assms by (auto simp: split_on_absent split_on_append plain_sid_def)
  ultimately show ?thesis by (simp add: sessionIdFromHref_def)
qed

definition rowButtons :: "row \<Rightarrow> string list" where
  "rowButtons r = (case r_cancelId r of Some b \<Rightarrow> [b] | None \<Rightarrow> []) @ (case r_deleteId r of Some b \<Rightarrow> [b] | None \<Rightarrow> [])"

lemma rowButtons_iff: "b \<in> set (rowButtons r) \<longleftrightarrow> r_cancelId r = Some b \<or> r_deleteId r = Some b"
  by (auto simp: rowButtons_def split: option.splits)

lemma find_button:
  assumes "distinct (concat (map rowButtons rows))" "i < length rows" "b \<in> set (rowButtons (rows ! i))"
  shows "find (\<lambda>r. r_cancelId r = Some b \<or> r_deleteId r = Some b) rows = Some (rows ! i)"
  using assms
proof (induction rows arbitrary: i)
  case (Cons r rows)
  show ?case
  proof (cases i)
    case 0
    with Cons.prems show ?thesis by (simp add: rowButtons_iff)
  next
    case (Suc j)
    with Cons.prems have "rows ! j \<in> set rows" "b \<in> set (rowButtons (rows ! j))" by simp_all
    with Cons.prems(1) have "b \<notin> set (rowButtons r)" by auto
    with Suc Cons show ?thesis by (simp add: rowButtons_iff)
  qed
qed simp

lemma button_addresses_row:
  assumes "loadSessionsResponse selectedNode dimUrl response rows = Inr (rows', es)" "i < length response"
    and "\<And>s. s \<in> set response \<Longrightarrow> \<exists>st. uniqueSessionStatus (s_status s) = Inr st"
    and "plain_sid (s_sessionId (sortSessions response ! i))" "distinct (concat (map rowButtons rows'))"
    and "b \<in> set (rowButtons (rows' ! i))"
  shows "sessionId_from_buttonId b rows' = Inr (s_sessionId (sortSessions response ! i))"
proof -
  let ?s = "sortSessions response ! i"
  have "?s \<in> set response" using assms(2) by (metis length_sortSessions nth_mem set_sortSessions)
  then obtain st where st: "uniqueSessionStatus (s_status ?s) = Inr st" using assms(3) by blast
  obtain r' es' where "fillRow (sessionsOptions selectedNode dimUrl) ?s (joinRows (length response) rows ! i) = Inr r'"
    "rowControls r' = (rows' ! i, es')" using loadSessionsResponse_rows(2) [OF assms(1,2)] by blast
  from fillRow_shows(3) [OF this st] have h: "r_href (rows' ! i) = Some (DimSessionLink selectedNode dimUrl (s_sessionId ?s))" .
  have "i < length rows'" using loadSessionsResponse_rows(1) [OF assms(1)] assms(2) length_joinRows [of "length response" rows] by simp
  from find_button [OF assms(5) this assms(6)] h show ?thesis
    by (simp add: sessionId_from_buttonId_def link_roundtrip [OF assms(4)])
qed

lemma fresh_buttons:
  assumes "loadSessionsResponse selectedNode dimUrl response [] = Inr (rows', es)"
    and "\<And>s. s \<in> set response \<Longrightarrow> \<exists>st. uniqueSessionStatus (s_status s) = Inr st"
  shows "concat (map rowButtons rows') =
    concat (map (\<lambda>s. [cancelBtnSessionId s, deleteBtnSessionId s]) (map s_sessionId (sortSessions response)))"
proof -
  let ?n = "length response"
  note R = loadSessionsResponse_rows [OF assms(1)]
  have len: "length rows' = 2 * ?n" using R(1) by (simp add: joinRows_def)
  have "rowButtons (rows' ! i) = [cancelBtnSessionId (s_sessionId (sortSessions response ! i)),
      deleteBtnSessionId (s_sessionId (sortSessions response ! i))]" if i: "i < ?n" for i
  proof -
    have "sortSessions response ! i \<in> set response" using i by (metis length_sortSessions nth_mem set_sortSessions)
    then obtain st where st: "uniqueSessionStatus (s_status (sortSessions response ! i)) = Inr st" using assms(2) by blast
    have e: "joinRows ?n [] ! i = emptyRow" using i by (simp add: joinRows_def)
    obtain r' es' where "fillRow (sessionsOptions selectedNode dimUrl) (sortSessions response ! i) emptyRow = Inr r'"
      "rowControls r' = (rows' ! i, es')" using R(2) [OF i] unfolding e by blast
    from fillRow_shows(6,7) [OF this st] show ?thesis by (simp add: rowButtons_def emptyRow_def)
  qed
  then have t: "map rowButtons (take ?n rows') =
      map (\<lambda>s. [cancelBtnSessionId s, deleteBtnSessionId s]) (map s_sessionId (sortSessions response))"
    using len by (intro nth_equalityI) simp_all
  have "drop ?n rows' = replicate ?n emptyRow"
    unfolding R(3) by (simp add: joinRows_def rowControls_def emptyRow_def)
  then have "concat (map rowButtons (drop ?n rows')) = []" by (simp add: rowButtons_def emptyRow_def)
  moreover have "concat (map rowButtons rows') =
      concat (map rowButtons (take ?n rows')) @ concat (map rowButtons (drop ?n rows'))"
    by (simp flip: concat_append map_append)
  ultimately show ?thesis unfolding t by simp
qed

lemma button_ids_distinct:
  assumes "distinct xs" "inj_on hashCode (set xs)"
  shows "distinct (concat (map (\<lambda>s. [cancelBtnSessionId s, deleteBtnSessionId s]) xs))"
  using assms
proof (induction xs)
  case (Cons x xs)
  have "hashCode y \<noteq> hashCode x" if "y \<in> set xs" for y using that Cons.prems by (metis distinct.simps(2) inj_onD list.set_intros)
  then have "\<forall>y \<in> set xs. cancelBtnSessionId x \<notin> {cancelBtnSessionId y, deleteBtnSessionId y} \<and>
      deleteBtnSessionId x \<notin> {cancelBtnSessionId y, deleteBtnSessionId y}"
    by (simp add: cancelBtnSessionId_def deleteBtnSessionId_def) metis
  moreover have "cancelBtnSessionId x \<noteq> deleteBtnSessionId x" by (simp add: cancelBtnSessionId_def deleteBtnSessionId_def)
  moreover have "distinct (concat (map (\<lambda>s. [cancelBtnSessionId s, deleteBtnSessionId s]) xs))"
    using Cons.IH Cons.prems by (simp add: inj_on_subset)
  ultimately show ?case by auto
qed simp

subsection \<open>Rounding\<close>

lemma barScale_add:
  assumes "0 < n"
  shows "barScale w n a + barScale w n b \<le> barScale w n (a + b) + 1" "barScale w n (a + b) \<le> barScale w n a + barScale w n b + 1"
proof -
  define A B where "A = 2 * a * w" and "B = 2 * b * w"
  define p q r where "p = (A + n) div (2 * n)" and "q = (B + n) div (2 * n)" and "r = (A + B + n) div (2 * n)"
  have div: "x div (2 * n) * (2 * n) \<le> x" "x < (x div (2 * n) + 1) * (2 * n)" for x
    using assms dividend_less_div_times [of "2 * n" x] by simp_all
  have "(p + q) * (2 * n) < (r + 2) * (2 * n)"
    using div(1) [of "A + n"] div(1) [of "B + n"] div(2) [of "A + B + n"] assms
    by (simp add: p_def q_def r_def algebra_simps)
  moreover have "r * (2 * n) < (p + q + 2) * (2 * n)"
    using div(2) [of "A + n"] div(2) [of "B + n"] div(1) [of "A + B + n"] assms
    by (simp add: p_def q_def r_def algebra_simps)
  ultimately have "p + q < r + 2" "r < p + q + 2" by (simp_all only: mult_less_cancel2)
  then show "barScale w n a + barScale w n b \<le> barScale w n (a + b) + 1" "barScale w n (a + b) \<le> barScale w n a + barScale w n b + 1"
    by (simp_all add: barScale_def p_def q_def r_def A_def B_def algebra_simps)
qed

text \<open>The scaled number is the nearest pixel to the exact one, \<open>x * w / n\<close>.\<close>

lemma barScale_nearest:
  assumes "0 < n"
  shows "2 * n * barScale w n x \<le> 2 * x * w + n" "2 * x * w \<le> 2 * n * barScale w n x + n"
proof -
  define y q where "y = 2 * x * w + n" and "q = y div (2 * n)"
  have "y mod (2 * n) < 2 * n" "2 * n * q + y mod (2 * n) = y" using assms by (simp_all add: q_def)
  then have "2 * n * q \<le> y" "y < 2 * n * q + 2 * n" by linarith+
  moreover have "barScale w n x = q" by (simp add: barScale_def q_def y_def)
  ultimately show "2 * n * barScale w n x \<le> 2 * x * w + n" "2 * x * w \<le> 2 * n * barScale w n x + n" unfolding y_def by simp_all
qed

lemma barScale_mono: "a \<le> b \<Longrightarrow> barScale w n a \<le> barScale w n b"
  by (simp add: barScale_def div_le_mono)

lemma barScale_total: "0 < n \<Longrightarrow> barScale w n n = w"
proof -
  assume "0 < n"
  have "2 * n * w + n = n + w * (2 * n)" by simp
  with \<open>0 < n\<close> show ?thesis unfolding barScale_def by (simp only: div_mult_self1) simp
qed

lemma cumsum_nth: "i < length cs \<Longrightarrow> cumsum acc cs ! i = acc + sum_list (take i cs)"
  by (induction cs arbitrary: acc i) (auto simp: nth_Cons split: nat.splits)

lemma length_cumsum [simp]: "length (cumsum acc cs) = length cs"
  by (induction cs arbitrary: acc) auto

lemma sum_classes_le:
  assumes "distinct cs"
  shows "sum_list (map (\<lambda>c. length (filter (\<lambda>x. f x = Some c) xs)) cs) \<le> length xs"
proof (induction xs)
  case (Cons x xs)
  have one: "sum_list (map (\<lambda>c. if f x = Some c then 1 else 0 :: nat) cs) \<le> 1"
    using assms by (induction cs) (auto simp: sum_list_eq_0_iff)
  have "sum_list (map (\<lambda>c. length (filter (\<lambda>x. f x = Some c) (x # xs))) cs) =
      sum_list (map (\<lambda>c. (if f x = Some c then 1 else 0) + length (filter (\<lambda>x. f x = Some c) xs)) cs)"
    by (intro arg_cong [where f = sum_list] map_cong) auto
  with one Cons.IH show ?case by (simp add: sum_list_addf)
qed simp

lemma sum_classes_eq:
  assumes "distinct cs" "\<forall>x \<in> set xs. \<exists>c \<in> set cs. f x = Some c"
  shows "sum_list (map (\<lambda>c. length (filter (\<lambda>x. f x = Some c) xs)) cs) = length xs"
  using assms(2)
proof (induction xs)
  case (Cons x xs)
  then obtain c where c: "c \<in> set cs" "f x = Some c" by auto
  have one: "sum_list (map (\<lambda>c. if f x = Some c then 1 else 0 :: nat) cs) = 1"
    using assms(1) c by (induction cs) (auto simp: sum_list_eq_0_iff)
  have "sum_list (map (\<lambda>c. length (filter (\<lambda>x. f x = Some c) (x # xs))) cs) =
      sum_list (map (\<lambda>c. (if f x = Some c then 1 else 0) + length (filter (\<lambda>x. f x = Some c) xs)) cs)"
    by (intro arg_cong [where f = sum_list] map_cong) auto
  with one Cons show ?case by (simp add: sum_list_addf)
qed simp

text \<open>Every state of a drop that has a name has a place in the bar.\<close>

lemma status_name_place: "get_status_name s = Some t \<Longrightarrow> t \<in> set states"
proof -
  assume "get_status_name s = Some t"
  then have "t \<in> set STATUS_CLASSES \<union> set EXECSTATUS_CLASSES"
    by (auto simp: get_status_name_def array_at_def split: option.splits if_splits)
  then show ?thesis by (auto simp: STATUS_CLASSES_def EXECSTATUS_CLASSES_def states_def)
qed

lemma states_idx_Some: "distinct xs \<Longrightarrow> states_idx xs t = Some i \<longleftrightarrow> i < length xs \<and> xs ! i = t"
proof (induction xs arbitrary: i)
  case (Cons x xs)
  then show ?case by (cases i) (auto simp: in_set_conv_nth)
qed simp

lemma countStatus_map:
  "countStatus s (map f states) = map (\<lambda>st. f st + (if get_status_name s = Some st then 1 else 0)) states"
proof (cases "get_status_name s")
  case (Some t)
  have d: "distinct states" by (simp add: states_def)
  show ?thesis
  proof (cases "states_idx states t")
    case None
    then have "t \<notin> set states" using states_idx_Some [OF d, of t] by (metis in_set_conv_nth option.distinct(1))
    with Some None show ?thesis by (auto simp: countStatus_def)
  next
    case (Some i)
    then have i: "i < length states" "states ! i = t" using states_idx_Some [OF d] by blast+
    with d have "states ! j = t \<longleftrightarrow> j = i" if "j < length states" for j using that nth_eq_iff_index_eq by blast
    with i Some \<open>get_status_name s = Some t\<close> show ?thesis
      by (intro nth_equalityI) (auto simp: countStatus_def nth_list_update)
  qed
qed (simp add: countStatus_def)

lemma status_counts_states:
  "status_counts statuses = map (\<lambda>st. length (filter (\<lambda>s. get_status_name s = Some st) statuses)) states"
proof -
  have "fold countStatus ss (map f states) = map (\<lambda>st. f st + length (filter (\<lambda>s. get_status_name s = Some st) ss)) states" for ss f
    by (induction ss arbitrary: f) (simp_all add: countStatus_map)
  from this [of statuses "\<lambda>_. 0"] show ?thesis by (simp add: status_counts_def states_def)
qed

lemma status_counts_total:
  assumes "\<forall>s \<in> set statuses. get_status_name s \<noteq> None"
  shows "sum_list (status_counts statuses) = length statuses"
  unfolding status_counts_states using assms status_name_place by (intro sum_classes_eq) (auto simp: states_def)

lemma status_counts_sum: "sum_list (status_counts statuses) \<le> length statuses" "length (status_counts statuses) = 11"
  using sum_classes_le [of states get_status_name statuses] by (simp_all add: status_counts_states states_def)

lemma bar_nth:
  assumes "i < 11"
  shows "status_update_handler width statuses ! i =
    (barScale width (length statuses) (sum_list (take i (status_counts statuses))) + 20,
     barScale width (length statuses) (status_counts statuses ! i))"
  using assms by (simp add: status_update_handler_def Let_def cumsum_nth status_counts_sum(2))

section \<open>Properties\<close>

text \<open>C9. Whatever the table showed before, after a response it lists the sessions in descending order
  of their id, one per row: id, size, link and status text are the session's, and
  cancel is enabled and delete disabled exactly for the sessions that are Deploying or Running. A row that had no buttons gets the two buttons
  of its session, a row that had buttons keeps them with the ids they have. A status query is started for every Running session whose row was not
  marked as running before, and for no other.\<close>

theorem session_table_shows_sessions:
  assumes "\<And>s. s \<in> set response \<Longrightarrow> \<exists>st. uniqueSessionStatus (s_status s) = Inr st"
  shows "\<exists>rows' es. loadSessionsResponse selectedNode dimUrl response rows = Inr (rows', es) \<and>
    sorted_wrt (\<lambda>x y. s_sessionId x \<ge> s_sessionId y) (sortSessions response) \<and>
    mset (sortSessions response) = mset response \<and> length response \<le> length rows' \<and>
    (\<forall>i < length response. \<exists>st. uniqueSessionStatus (s_status (sortSessions response ! i)) = Inr st \<and>
       shows_session selectedNode dimUrl (sortSessions response ! i) st (rowBefore rows i) (rows' ! i)) \<and>
    es = newQueries (sortSessions response) rows"
proof -
  obtain rows' es where load: "loadSessionsResponse selectedNode dimUrl response rows = Inr (rows', es)"
    using loadSessionsResponse_total [OF assms] by blast
  have row: "\<exists>st. uniqueSessionStatus (s_status (sortSessions response ! i)) = Inr st \<and>
      shows_session selectedNode dimUrl (sortSessions response ! i) st (rowBefore rows i) (rows' ! i)" if i: "i < length response" for i
  proof -
    have "sortSessions response ! i \<in> set response" using i by (metis length_sortSessions nth_mem set_sortSessions)
    then obtain st where st: "uniqueSessionStatus (s_status (sortSessions response ! i)) = Inr st" using assms by blast
    with response_row [OF load i st] show ?thesis by blast
  qed
  have "length response \<le> length rows'" using loadSessionsResponse_rows(1) [OF load] length_joinRows [of "length response" rows] by simp
  with load row response_effects [OF load assms] sortSessions_sorted [of response] sortSessions_mset [of response]
  show ?thesis by blast
qed

definition example_sessions :: "sessionInfo list" where
  "example_sessions =
    [\<lparr>s_sessionId = ''a'', s_status = SNum 4, s_size = 3\<rparr>, \<lparr>s_sessionId = ''b'', s_status = SNum 3, s_size = 5\<rparr>]"

lemma example_statuses:
  "s \<in> set example_sessions \<Longrightarrow> \<exists>st. uniqueSessionStatus (s_status s) = Inr st"
  by (auto simp: example_sessions_def uniqueSessionStatus_def)

theorem session_table_shows_sessions_witness:
  "\<exists>rows' es. loadSessionsResponse None None example_sessions [] = Inr (rows', es) \<and>
     r_id (rows' ! 0) = Some ''b'' \<and> r_id (rows' ! 1) = Some ''a'' \<and>
     r_deleteId (rows' ! 1) = Some (deleteBtnSessionId ''a'') \<and> es = [StartStatusQuery ''b'']"
proof -
  have s: "length example_sessions = 2" by (simp add: example_sessions_def)
  obtain rows' es where l: "loadSessionsResponse None None example_sessions [] = Inr (rows', es)"
    "\<forall>i < length example_sessions. \<exists>st. uniqueSessionStatus (s_status (sortSessions example_sessions ! i)) = Inr st \<and>
       shows_session None None (sortSessions example_sessions ! i) st (rowBefore [] i) (rows' ! i)"
    "es = newQueries (sortSessions example_sessions) []"
    using session_table_shows_sessions [where response = example_sessions and selectedNode = None and dimUrl = None
        and rows = "[]", OF example_statuses] by fast
  have "es = [StartStatusQuery ''b'']" unfolding l(3) newQueries_def length_sortSessions s
    by (simp add: upt_rec sortSessions_def example_sessions_def uniqueSessionStatus_def rowBefore_def emptyRow_def)
  moreover have "r_id (rows' ! i) = Some (s_sessionId (sortSessions example_sessions ! i)) \<and>
      r_deleteId (rows' ! i) = Some (deleteBtnSessionId (s_sessionId (sortSessions example_sessions ! i)))" if "i < 2" for i
    using l(2) that unfolding s by (auto simp: shows_session_def rowBefore_def emptyRow_def)
  from this [of 0] this [of 1] have "r_id (rows' ! 0) = Some ''b''" "r_id (rows' ! 1) = Some ''a''" "r_deleteId (rows' ! 1) = Some (deleteBtnSessionId ''a'')"
    by (simp_all add: sortSessions_def example_sessions_def)
  ultimately show ?thesis using l(1) by blast
qed

text \<open>The cancel and the delete button of every row of a freshly filled table act on the session that
  the row shows, if no two session ids have the same hash and no id contains \<open>=\<close> or \<open>&\<close>.\<close>

theorem fresh_table_buttons_address_their_row:
  assumes "loadSessionsResponse selectedNode dimUrl response [] = Inr (rows', es)"
    and "\<And>s. s \<in> set response \<Longrightarrow> \<exists>st. uniqueSessionStatus (s_status s) = Inr st"
    and "\<And>s. s \<in> set response \<Longrightarrow> plain_sid (s_sessionId s)"
    and "distinct (map s_sessionId response)" "inj_on hashCode (s_sessionId ` set response)"
    and "i < length response" "b \<in> set (rowButtons (rows' ! i))"
  shows "targetSession ''false'' b rows' = Inr (s_sessionId (sortSessions response ! i)) \<and>
    r_id (rows' ! i) = Some (s_sessionId (sortSessions response ! i))"
proof -
  let ?s = "sortSessions response ! i"
  have s: "?s \<in> set response" using assms(6) by (metis length_sortSessions nth_mem set_sortSessions)
  have "distinct (map s_sessionId (sortSessions response))"
    using assms(4) mset_eq_imp_distinct_iff [of "map s_sessionId (sortSessions response)" "map s_sessionId response"]
    by (simp add: sortSessions_mset)
  from button_ids_distinct [OF this] have "distinct (concat (map rowButtons rows'))"
    using assms(5) by (simp add: fresh_buttons [OF assms(1,2)])
  from button_addresses_row [OF assms(1,6,2) _ this assms(7)] assms(3) [OF s]
  have "targetSession ''false'' b rows' = Inr (s_sessionId ?s)" by (simp add: targetSession_def)
  moreover obtain st where st: "uniqueSessionStatus (s_status ?s) = Inr st" using assms(2) s by blast
  moreover obtain r' es' where "fillRow (sessionsOptions selectedNode dimUrl) ?s (joinRows (length response) [] ! i) = Inr r'"
    "rowControls r' = (rows' ! i, es')" using loadSessionsResponse_rows(2) [OF assms(1,6)] by blast
  ultimately show ?thesis using fillRow_shows(1) by blast
qed

theorem fresh_table_buttons_address_their_row_witness:
  "\<exists>rows' es. loadSessionsResponse None None example_sessions [] = Inr (rows', es) \<and>
     targetSession ''false'' (cancelBtnSessionId ''a'') rows' = Inr ''a''"
proof -
  have s: "sortSessions example_sessions ! 1 = example_sessions ! 0" "length example_sessions = 2"
    by (simp_all add: sortSessions_def example_sessions_def)
  obtain rows' es where l: "loadSessionsResponse None None example_sessions [] = Inr (rows', es)"
    using loadSessionsResponse_total [OF example_statuses] by blast
  have r: "rowButtons (rows' ! 1) = [cancelBtnSessionId ''a'', deleteBtnSessionId ''a'']"
    using l by (simp add: loadSessionsResponse_def sortSessions_def example_sessions_def joinRows_def numeral_eq_Suc
        fillRow_def sessionsOptions_def uniqueSessionStatus_def emptyRow_def rowControls_def Let_def rowButtons_def
        sessionStatusToString_def array_at_def SESSION_STATUS_def statusControls_def) auto
  have h: "hashCode ''a'' \<noteq> hashCode ''b''" by (simp add: hashCode_def hashStep_def)
  have "targetSession ''false'' (cancelBtnSessionId ''a'') rows' = Inr (s_sessionId (sortSessions example_sessions ! 1)) \<and>
      r_id (rows' ! 1) = Some (s_sessionId (sortSessions example_sessions ! 1))"
    using h r by (intro fresh_table_buttons_address_their_row [OF l example_statuses])
      (auto simp: example_sessions_def plain_sid_def)
  with l show ?thesis unfolding s by (simp add: example_sessions_def)
qed

text \<open>The ids of the sessions after one with a larger id has appeared.\<close>

lemma sorted_ids:
  assumes "mset ss2 = add_mset new (mset ss)" "\<forall>s \<in> set ss. s_sessionId s < s_sessionId new"
  shows "map s_sessionId (sortSessions ss2) = s_sessionId new # map s_sessionId (sortSessions ss)"
proof -
  have sorted: "sorted (rev (map s_sessionId (sortSessions xs)))" for xs
    using sortSessions_sorted [of xs] by (simp add: sorted_wrt_map sorted_wrt_rev rev_map)
  have "sorted (rev (s_sessionId new # map s_sessionId (sortSessions ss)))"
    using sorted [of ss] assms(2) by (auto simp: sorted_append intro: less_imp_le)
  moreover have "mset (rev (s_sessionId new # map s_sessionId (sortSessions ss))) = mset (rev (map s_sessionId (sortSessions ss2)))"
    using assms(1) by (simp add: sortSessions_mset)
  ultimately have "rev (s_sessionId new # map s_sessionId (sortSessions ss)) = rev (map s_sessionId (sortSessions ss2))"
    using sorted [of ss2] properties_for_sort by metis
  then show ?thesis by (metis rev_rev_ident)
qed

text \<open>The buttons of the rows then: all but the last row keep the buttons they had, and the last row gets those of its session,
  which the row above has already.\<close>

lemma buttons_after_new_session:
  assumes load1: "loadSessionsResponse selectedNode dimUrl ss [] = Inr (rows1, es1)"
    and load2: "loadSessionsResponse selectedNode dimUrl ss2 rows1 = Inr (rows2, es2)"
    and new: "mset ss2 = add_mset new (mset ss)" "\<forall>s \<in> set ss. s_sessionId s < s_sessionId new" and ne: "ss \<noteq> []"
    and st: "\<forall>s \<in> set ss2. \<exists>st. uniqueSessionStatus (s_status s) = Inr st" and i: "i \<le> length ss"
  defines "sid \<equiv> s_sessionId (sortSessions ss ! (if i < length ss then i else length ss - 1))"
  shows "r_cancelId (rows2 ! i) = Some (cancelBtnSessionId sid) \<and> r_deleteId (rows2 ! i) = Some (deleteBtnSessionId sid) \<and>
    r_id (rows2 ! i) = Some (s_sessionId (sortSessions ss2 ! i)) \<and>
    r_href (rows2 ! i) = Some (DimSessionLink selectedNode dimUrl (s_sessionId (sortSessions ss2 ! i)))"
proof -
  let ?n = "length ss"
  have set2: "set ss2 = insert new (set ss)" and len2: "length ss2 = Suc ?n"
    using new(1) by (metis set_mset_add_mset_insert set_mset_mset) (metis new(1) size_add_mset size_mset)
  have len1: "length rows1 = 2 * ?n" using loadSessionsResponse_rows(1) [OF load1] by (simp add: joinRows_def)
  have i2: "i < length ss2" using i len2 by simp
  have "sortSessions ss2 ! i \<in> set ss2" using i2 by (metis length_sortSessions nth_mem set_sortSessions)
  then obtain x where x: "uniqueSessionStatus (s_status (sortSessions ss2 ! i)) = Inr x" using st by blast
  note row2 = response_row [OF load2 i2 x]
  have old: "rowBefore rows1 i = rows1 ! i" using i ne len1 by (cases ss) (auto simp: rowBefore_def)
  show ?thesis
  proof (cases "i < ?n")
    case True
    then have "sortSessions ss ! i \<in> set ss" by (metis length_sortSessions nth_mem set_sortSessions)
    then obtain y where y: "uniqueSessionStatus (s_status (sortSessions ss ! i)) = Inr y" using st set2 by blast
    from response_row [OF load1 True y] row2 True old show ?thesis
      by (simp add: shows_session_def sid_def rowBefore_def emptyRow_def)
  next
    case False
    then have n: "i = ?n" using i by simp
    have "rows1 ! i = emptyRow" using response_rest [OF load1] n len1 ne by simp
    moreover have "map s_sessionId (sortSessions ss2) ! i = map s_sessionId (sortSessions ss) ! (?n - 1)"
      unfolding sorted_ids [OF new] n using ne by (cases ss) (simp_all add: nth_Cons')
    then have "s_sessionId (sortSessions ss2 ! i) = sid" using False n len2 ne by (simp add: sid_def)
    ultimately show ?thesis using row2 old by (simp add: shows_session_def emptyRow_def)
  qed
qed

text \<open>C10. After a session with a larger id than all others has appeared, the delete button of the last row acts on
  the wrong session: the rows keep the buttons they were created with, the last row, which is new, gets the
  identifiers of a row that exists already, and so its delete button deletes the session that the row above it shows. This holds for every
  table that was filled from empty, if the ids are different, have different hashes and contain neither \<open>=\<close> nor \<open>&\<close>.\<close>

theorem new_session_redirects_delete_button:
  assumes load1: "loadSessionsResponse selectedNode dimUrl ss [] = Inr (rows1, es1)"
    and load2: "loadSessionsResponse selectedNode dimUrl ss2 rows1 = Inr (rows2, es2)"
    and new: "mset ss2 = add_mset new (mset ss)" "\<forall>s \<in> set ss. s_sessionId s < s_sessionId new" and ne: "ss \<noteq> []"
    and ok: "\<forall>s \<in> set ss2. (\<exists>st. uniqueSessionStatus (s_status s) = Inr st) \<and> plain_sid (s_sessionId s)"
    and ids: "distinct (map s_sessionId ss)" "inj_on hashCode (s_sessionId ` set ss)"
    and shown: "shown = s_sessionId (sortSessions ss2 ! length ss)" and upper: "upper = s_sessionId (sortSessions ss2 ! (length ss - 1))"
    and server: "server (sessionUrl serverUrl upper) = Some st" "uniqueSessionStatus st = Inr x" "x \<noteq> SNum 3"
  shows "r_id (rows2 ! length ss) = Some shown \<and> upper \<noteq> shown \<and>
    (\<exists>b es. r_deleteId (rows2 ! length ss) = Some b \<and> delete_session serverUrl ''false'' b rows2 True server = Inr es \<and>
       Delete (sessionUrl serverUrl upper) \<in> set es \<and> Delete (sessionUrl serverUrl shown) \<notin> set es)"
proof -
  let ?n = "length ss" and ?S = "sortSessions ss"
  note B = buttons_after_new_session [OF load1 load2 new ne]
  have st: "\<forall>s \<in> set ss2. \<exists>st. uniqueSessionStatus (s_status s) = Inr st" using ok by blast
  have n: "0 < ?n" using ne by simp
  let ?b = "deleteBtnSessionId (s_sessionId (?S ! (?n - 1)))"
  have last: "r_id (rows2 ! ?n) = Some shown" "r_deleteId (rows2 ! ?n) = Some ?b" using B [OF st, of ?n] by (simp_all add: shown)
  have row: "r_deleteId (rows2 ! (?n - 1)) = Some ?b" "r_href (rows2 ! (?n - 1)) = Some (DimSessionLink selectedNode dimUrl upper)"
    using B [OF st, of "?n - 1"] n by (simp_all add: upper)
  have dist: "distinct (map s_sessionId ?S)"
    using ids(1) mset_eq_imp_distinct_iff [of "map s_sessionId ?S" "map s_sessionId ss"] by (simp add: sortSessions_mset)
  have "r_cancelId (rows2 ! j) \<noteq> Some ?b \<and> r_deleteId (rows2 ! j) \<noteq> Some ?b" if j: "j < ?n - 1" for j
  proof -
    have "s_sessionId (?S ! j) \<noteq> s_sessionId (?S ! (?n - 1))"
      using nth_eq_iff_index_eq [OF dist, of j "?n - 1"] j by simp
    moreover have "?S ! j \<in> set ss" "?S ! (?n - 1) \<in> set ss" using j n by (metis diff_less length_sortSessions less_trans nth_mem set_sortSessions zero_less_one)+
    ultimately have "hashCode (s_sessionId (?S ! j)) \<noteq> hashCode (s_sessionId (?S ! (?n - 1)))" using inj_onD [OF ids(2)] by blast
    then show ?thesis using B [OF st, of j] j by (simp add: cancelBtnSessionId_def deleteBtnSessionId_def)
  qed
  moreover have len2: "length ss2 = Suc ?n" using new(1) by (metis size_add_mset size_mset)
  have "?n - 1 < length rows2" using loadSessionsResponse_rows(1) [OF load2] length_joinRows [of "length ss2" rows1] len2 by simp
  ultimately have "find (\<lambda>r. r_cancelId r = Some ?b \<or> r_deleteId r = Some ?b) rows2 = Some (rows2 ! (?n - 1))"
    unfolding find_Some_iff using row(1) by blast
  moreover have "sortSessions ss2 ! (?n - 1) \<in> set ss2" using len2 by (metis diff_le_self le_imp_less_Suc length_sortSessions nth_mem set_sortSessions)
  then have "plain_sid upper" using ok upper by blast
  ultimately have target: "targetSession ''false'' ?b rows2 = Inr upper"
    using row(2) by (simp add: targetSession_def sessionId_from_buttonId_def link_roundtrip)
  have "distinct (map s_sessionId (sortSessions ss2))" unfolding sorted_ids [OF new] using dist new(2) by auto
  moreover have "?n - 1 \<noteq> ?n" using n by arith
  ultimately have "upper \<noteq> shown" using nth_eq_iff_index_eq [of "map s_sessionId (sortSessions ss2)" "?n - 1" ?n] len2 by (simp add: upper shown)
  moreover from this have "sessionUrl serverUrl shown \<noteq> sessionUrl serverUrl upper" by (simp add: sessionUrl_def)
  ultimately show ?thesis using last target server
    by (simp add: delete_session_def deleteResponse_def does_status_allow_cancel_def Let_def)
qed

definition old_and_recent :: "sessionInfo list" where
  "old_and_recent = [\<lparr>s_sessionId = ''old'', s_status = SNum 4, s_size = 1\<rparr>, \<lparr>s_sessionId = ''recent'', s_status = SNum 4, s_size = 1\<rparr>]"

theorem new_session_redirects_delete_button_witness:
  "\<exists>rows1 es1 rows2 es2 b es. loadSessionsResponse None None (take 1 old_and_recent) [] = Inr (rows1, es1) \<and>
     loadSessionsResponse None None old_and_recent rows1 = Inr (rows2, es2) \<and> r_id (rows2 ! 1) = Some ''old'' \<and> r_deleteId (rows2 ! 1) = Some b \<and>
     delete_session ''http://h'' ''false'' b rows2 True (\<lambda>_. Some (SNum 4)) = Inr es \<and> Delete (sessionUrl ''http://h'' ''recent'') \<in> set es"
proof -
  have st: "\<exists>st. uniqueSessionStatus (s_status s) = Inr st" if "s \<in> set old_and_recent" for s
    using that by (auto simp: old_and_recent_def uniqueSessionStatus_def)
  obtain rows1 es1 where l1: "loadSessionsResponse None None (take 1 old_and_recent) [] = Inr (rows1, es1)"
    using loadSessionsResponse_total [of "take 1 old_and_recent"] st by (metis in_set_takeD)
  obtain rows2 es2 where l2: "loadSessionsResponse None None old_and_recent rows1 = Inr (rows2, es2)"
    using loadSessionsResponse_total [OF st] by blast
  have sort: "sortSessions old_and_recent = rev old_and_recent" by (simp add: old_and_recent_def sortSessions_def)
  have "r_id (rows2 ! length (take 1 old_and_recent)) = Some ''old'' \<and> ''recent'' \<noteq> ''old'' \<and>
    (\<exists>b es. r_deleteId (rows2 ! length (take 1 old_and_recent)) = Some b \<and> delete_session ''http://h'' ''false'' b rows2 True (\<lambda>_. Some (SNum 4)) = Inr es \<and>
       Delete (sessionUrl ''http://h'' ''recent'') \<in> set es \<and> Delete (sessionUrl ''http://h'' ''old'') \<notin> set es)"
    by (rule new_session_redirects_delete_button [OF l1 l2, where new = "old_and_recent ! 1" and st = "SNum 4" and x = "SNum 4"])
      (simp_all add: sort, simp_all add: old_and_recent_def uniqueSessionStatus_def plain_sid_def)
  then show ?thesis using l1 l2 by (auto simp: old_and_recent_def)
qed

text \<open>C11. A cancel request is sent only for the session that the button addresses, and only when the
  server reports that session as Running.\<close>

theorem cancel_requests_are_guarded:
  assumes "cancel_session serverUrl sessionId buttonId rows server = Inr es" "Post u body \<in> set es"
  shows "\<exists>sid st. targetSession sessionId buttonId rows = Inr sid \<and> u = sessionUrl serverUrl sid @ ''/cancel'' \<and>
    server (sessionUrl serverUrl sid) = Some st \<and> uniqueSessionStatus st = Inr (SNum 3)"
  using assms
  by (auto simp: cancel_session_def rbind_Inr_iff cancelResponse_def does_status_allow_cancel_def setStatusColor_def Let_def
      split: option.splits if_splits)

theorem cancel_requests_are_guarded_witness:
  "\<exists>es. cancel_session ''h'' ''s'' ''b'' [] (\<lambda>_. Some (SNum 3)) = Inr es \<and>
     Post ''h/api/sessions/s/cancel'' [] \<in> set es \<and> (\<exists>sid st. targetSession ''s'' ''b'' [] = Inr sid \<and>
       uniqueSessionStatus st = Inr (SNum 3))"
proof -
  obtain es where "cancel_session ''h'' ''s'' ''b'' [] (\<lambda>_. Some (SNum 3)) = Inr es"
    "Post ''h/api/sessions/s/cancel'' [] \<in> set es"
    by (simp add: cancel_session_def targetSession_def cancelResponse_def does_status_allow_cancel_def
        uniqueSessionStatus_def sessionUrl_def Let_def)
  with cancel_requests_are_guarded [OF this] show ?thesis by blast
qed

text \<open>A delete request is sent only for the session that the button addresses, only after the user's
  confirmation, and only when the server reports that session as not Running.\<close>

theorem delete_requests_are_guarded:
  assumes "delete_session serverUrl sessionId buttonId rows confirmed server = Inr es" "Delete u \<in> set es"
  shows "confirmed \<and> (\<exists>sid st x. targetSession sessionId buttonId rows = Inr sid \<and> u = sessionUrl serverUrl sid \<and>
    server (sessionUrl serverUrl sid) = Some st \<and> uniqueSessionStatus st = Inr x \<and> x \<noteq> SNum 3)"
  using assms
  by (auto simp: delete_session_def rbind_Inr_iff deleteResponse_def does_status_allow_cancel_def Let_def
      split: option.splits if_splits)

theorem delete_requests_are_guarded_witness:
  "\<exists>es. delete_session ''h'' ''s'' ''b'' [] True (\<lambda>_. Some (SNum 5)) = Inr es \<and>
     Delete ''h/api/sessions/s'' \<in> set es \<and> (\<exists>st x. uniqueSessionStatus st = Inr x \<and> x \<noteq> SNum 3)"
proof -
  obtain es where "delete_session ''h'' ''s'' ''b'' [] True (\<lambda>_. Some (SNum 5)) = Inr es"
    "Delete ''h/api/sessions/s'' \<in> set es"
    by (simp add: delete_session_def targetSession_def deleteResponse_def does_status_allow_cancel_def
        uniqueSessionStatus_def sessionUrl_def Let_def)
  with delete_requests_are_guarded [OF this] show ?thesis by blast
qed

text \<open>The table offers to cancel a session that is Deploying, and cancelling it is refused: its row
  has an enabled cancel button, whose only effect is the alert.\<close>

theorem deploying_session_cannot_be_cancelled:
  "fst (snd (statusControls (the (sessionStatusToString (SNum 2))))) = False \<and>
   (\<exists>msg. cancelResponse url sessionId (SNum 2) = Inr [Alert msg])"
  by (simp add: statusControls_def sessionStatusToString_def array_at_def SESSION_STATUS_def cancelResponse_def
      does_status_allow_cancel_def uniqueSessionStatus_def)

text \<open>C12. The progress bar shows the states of the drops in proportion. It has one rectangle per state; the width of the
  rectangle is the nearest pixel to the share of the drops in that state, and it begins 20 pixels from the left plus the nearest pixel to the share
  of the states before it. So the rectangles tile the bar up to rounding: each begins at most one pixel before or after the end of the
  one before it, and the last ends at most one pixel beyond the width, and at most one pixel before it if every drop's state
  has a name.\<close>

theorem progress_bar_tiles:
  assumes "statuses \<noteq> []"
    and "bar = status_update_handler width statuses" "n = length statuses"
    and "drops = (\<lambda>i. length (filter (\<lambda>s. get_status_name s = Some (states ! i)) statuses))"
  shows "length bar = 11 \<and>
    (\<forall>i < 11. \<bar>2 * int n * int (snd (bar ! i)) - 2 * int width * int (drops i)\<bar> \<le> int n \<and>
       20 \<le> fst (bar ! i) \<and> \<bar>2 * int n * int (fst (bar ! i) - 20) - 2 * int width * int (\<Sum>j < i. drops j)\<bar> \<le> int n) \<and>
    (\<forall>i < 10. fst (bar ! i) + snd (bar ! i) \<le> fst (bar ! Suc i) + 1 \<and> fst (bar ! Suc i) \<le> fst (bar ! i) + snd (bar ! i) + 1) \<and>
    fst (bar ! 10) + snd (bar ! 10) \<le> width + 21 \<and>
    ((\<forall>s \<in> set statuses. get_status_name s \<noteq> None) \<longrightarrow> width + 19 \<le> fst (bar ! 10) + snd (bar ! 10))"
proof -
  let ?c = "status_counts statuses"
  have n: "0 < n" using assms by simp
  have c: "?c ! i = drops i" if "i < 11" for i
    using that status_counts_sum(2) [of statuses] by (simp add: status_counts_states assms(4))
  have sum: "sum_list (take i ?c) = (\<Sum>j < i. drops j)" if "i \<le> 11" for i
    using that c status_counts_sum(2) [of statuses] by (simp add: sum_list_sum_nth atLeast0LessThan min_def)
  have bar: "bar ! i = (barScale width n (\<Sum>j < i. drops j) + 20, barScale width n (drops i))" if "i < 11" for i
    using bar_nth [OF that, of width statuses] sum [of i] c [OF that] that assms(2,3) by simp
  have near: "\<bar>2 * int n * int (barScale width n x) - 2 * int width * int x\<bar> \<le> int n" for x
  proof -
    have "int (2 * n * barScale width n x) \<le> int (2 * x * width + n)" "int (2 * x * width) \<le> int (2 * n * barScale width n x + n)"
      using barScale_nearest [OF n, where w = width and x = x] by (simp_all only: of_nat_le_iff)
    then show ?thesis by (simp add: abs_le_iff algebra_simps)
  qed
  have whole: "(\<Sum>j < 10. drops j) + drops 10 = sum_list ?c"
    using sum [of 11] status_counts_sum(2) [of statuses] by (simp add: numeral_eq_Suc)
  have "fst (bar ! 10) + snd (bar ! 10) \<le> width + 21"
    using barScale_add(1) [OF n, of width "\<Sum>j < 10. drops j" "drops 10"] whole status_counts_sum(1) [of statuses]
      barScale_mono [of "sum_list ?c" n width n] barScale_total [OF n, of width] bar [of 10] assms(3) by simp
  moreover have "width + 19 \<le> fst (bar ! 10) + snd (bar ! 10)" if "\<forall>s \<in> set statuses. get_status_name s \<noteq> None"
    using barScale_add(2) [OF n, of width "\<Sum>j < 10. drops j" "drops 10"] whole status_counts_total [OF that]
      barScale_total [OF n, of width] bar [of 10] assms(3) by simp
  moreover have "fst (bar ! i) + snd (bar ! i) \<le> fst (bar ! Suc i) + 1 \<and> fst (bar ! Suc i) \<le> fst (bar ! i) + snd (bar ! i) + 1" if "i < 10" for i
    using that barScale_add [OF n, of width "\<Sum>j < i. drops j" "drops i"] bar [of i] bar [of "Suc i"] by simp
  moreover have "length bar = 11" by (simp add: assms(2) status_update_handler_def Let_def status_counts_sum(2))
  moreover have "\<bar>2 * int n * int (snd (bar ! i)) - 2 * int width * int (drops i)\<bar> \<le> int n \<and>
      20 \<le> fst (bar ! i) \<and> \<bar>2 * int n * int (fst (bar ! i) - 20) - 2 * int width * int (\<Sum>j < i. drops j)\<bar> \<le> int n" if "i < 11" for i
    using near [of "drops i"] near [of "\<Sum>j < i. drops j"] bar [OF that] by simp
  ultimately show ?thesis by blast
qed

theorem progress_bar_tiles_witness:
  "\<bar>2 * 2 * int (snd (status_update_handler 100 [\<lparr>ds_execStatus = None, ds_status = Some 2\<rparr>, \<lparr>ds_execStatus = Some 1, ds_status = Some 1\<rparr>] ! 0)) - 2 * 100 * 1\<bar> \<le> 2 \<and>
   119 \<le> fst (status_update_handler 100 [\<lparr>ds_execStatus = None, ds_status = Some 2\<rparr>, \<lparr>ds_execStatus = Some 1, ds_status = Some 1\<rparr>] ! 10) +
     snd (status_update_handler 100 [\<lparr>ds_execStatus = None, ds_status = Some 2\<rparr>, \<lparr>ds_execStatus = Some 1, ds_status = Some 1\<rparr>] ! 10)"
proof -
  let ?d = "[\<lparr>ds_execStatus = None, ds_status = Some 2\<rparr>, \<lparr>ds_execStatus = Some 1, ds_status = Some 1\<rparr>] :: drop_status list"
  let ?drops = "\<lambda>i. length (filter (\<lambda>s. get_status_name s = Some (states ! i)) ?d)"
  have names: "\<forall>s \<in> set ?d. get_status_name s \<noteq> None"
    by (simp add: get_status_name_def array_at_def STATUS_CLASSES_def EXECSTATUS_CLASSES_def)
  have "?drops 0 = 1" by (simp add: get_status_name_def array_at_def STATUS_CLASSES_def EXECSTATUS_CLASSES_def states_def)
  moreover have "\<bar>2 * int (length ?d) * int (snd (status_update_handler 100 ?d ! 0)) - 2 * int 100 * int (?drops 0)\<bar> \<le> int (length ?d)"
    "100 + 19 \<le> fst (status_update_handler 100 ?d ! 10) + snd (status_update_handler 100 ?d ! 10)"
    using progress_bar_tiles [of ?d _ 100 _ ?drops, OF _ refl refl refl] names by simp_all
  ultimately show ?thesis by simp
qed

end
