(* ===== verification/D3_Timer.thy ===== *)
theory D3_Timer
  imports Js_Prelude
begin

text \<open>
  The timer queue of d3 (module d3-timer of \<^verbatim>\<open>d3/dagre-d3.js\<close>), on which all polling of the pages
  runs. The linked list of tasks is a list, a timer is known by a number. A stopped timer has no
  callback and an infinite time (\<open>None\<close>) and stays in the list until the next \<open>nap\<close>. A callback may
  start and stop timers and may throw; \<open>timerFlush\<close> runs every due callback in list order, those of
  timers that were appended meanwhile included, and an exception ends the pass. The browser's
  scheduling of \<open>wake\<close> (animation frames, \<open>setTimeout\<close>) is not modelled: \<open>wake\<close> is an event with the
  current time.
\<close>

record 'c task =
  t_id :: nat
  t_call :: "'c option"
  t_time :: "nat option"

record 'c timers =
  q_tasks :: "'c task list"
  q_next :: nat

definition noTimers :: "'c timers" where
  "noTimers = \<lparr>q_tasks = [], q_next = 0\<rparr>"

text \<open>\<open>restart\<close>: a timer that is not in the list is appended, then callback and time are set.\<close>

definition restart :: "nat \<Rightarrow> 'c \<Rightarrow> nat \<Rightarrow> nat \<Rightarrow> 'c timers \<Rightarrow> 'c timers" where
  "restart i callback delay now q =
     (let tasks = (if \<exists>t \<in> set (q_tasks q). t_id t = i then q_tasks q
                   else q_tasks q @ [\<lparr>t_id = i, t_call = None, t_time = None\<rparr>])
      in q\<lparr>q_tasks := map (\<lambda>t. if t_id t = i then t\<lparr>t_call := Some callback, t_time := Some (now + delay)\<rparr> else t) tasks\<rparr>)"

definition timer :: "'c \<Rightarrow> nat \<Rightarrow> nat \<Rightarrow> 'c timers \<Rightarrow> nat \<times> 'c timers" where
  "timer callback delay now q =
     (let i = q_next q in (i, restart i callback delay now (q\<lparr>q_next := Suc i\<rparr>)))"

definition stop :: "nat \<Rightarrow> 'c timers \<Rightarrow> 'c timers" where
  "stop i q = q\<lparr>q_tasks := map (\<lambda>t. if t_id t = i \<and> t_call t \<noteq> None then t\<lparr>t_call := None, t_time := None\<rparr> else t) (q_tasks q)\<rparr>"

definition due :: "nat \<Rightarrow> 'c task \<Rightarrow> 'c option" where
  "due now t = (case t_time t of Some time \<Rightarrow> if time \<le> now then t_call t else None | None \<Rightarrow> None)"

text \<open>A callback is a function of the timer's number and of the state, whose first part is the queue;
  it tells whether it threw. The loop is not bounded: a callback that keeps starting timers that are
  due keeps it going.\<close>

type_synonym ('c, 's) callbacks = "'c \<Rightarrow> nat \<Rightarrow> 'c timers \<times> 's \<Rightarrow> ('c timers \<times> 's) \<times> bool"

partial_function (option) timerFlush ::
  "('c, 's) callbacks \<Rightarrow> nat \<Rightarrow> nat \<Rightarrow> 'c timers \<times> 's \<Rightarrow> (('c timers \<times> 's) \<times> bool) option" where
  "timerFlush run now i st =
     (if i < length (q_tasks (fst st)) then
        let t = q_tasks (fst st) ! i in
        (case due now t of
           None \<Rightarrow> timerFlush run now (Suc i) st
         | Some c \<Rightarrow>
             let (st', threw) = run c (t_id t) st in
             if threw then Some (st', True) else timerFlush run now (Suc i) st')
      else Some (st, False))"

text \<open>\<open>nap\<close> drops the stopped timers (and asks for the next \<open>wake\<close>, which is not part of the state).\<close>

definition nap :: "'c timers \<Rightarrow> 'c timers" where
  "nap q = q\<lparr>q_tasks := filter (\<lambda>t. t_call t \<noteq> None) (q_tasks q)\<rparr>"

definition wake :: "('c, 's) callbacks \<Rightarrow> nat \<Rightarrow> 'c timers \<times> 's \<Rightarrow> (('c timers \<times> 's) \<times> bool) option" where
  "wake run now st = map_option (\<lambda>((q, s), threw). ((nap q, s), threw)) (timerFlush run now 0 st)"

section \<open>The active timers\<close>

definition active :: "'c timers \<Rightarrow> (nat \<times> 'c \<times> nat) list" where
  "active q = List.map_filter (\<lambda>t. case (t_call t, t_time t) of (Some c, Some time) \<Rightarrow> Some (t_id t, c, time) | _ \<Rightarrow> None) (q_tasks q)"

text \<open>Numbers are not reused, and a timer without callback has no time.\<close>

definition timers_ok :: "'c timers \<Rightarrow> bool" where
  "timers_ok q \<longleftrightarrow> distinct (map t_id (q_tasks q)) \<and>
     list_all (\<lambda>t. t_id t < q_next q \<and> (t_call t = None \<longleftrightarrow> t_time t = None)) (q_tasks q)"

lemma map_filter_append: "List.map_filter f (xs @ ys) = List.map_filter f xs @ List.map_filter f ys"
  by (simp add: List.map_filter_def)

lemma map_filter_simps:
  "List.map_filter f [] = []"
  "List.map_filter f (x # xs) = (case f x of None \<Rightarrow> List.map_filter f xs | Some y \<Rightarrow> y # List.map_filter f xs)"
  by (simp_all add: List.map_filter_def split: option.splits)

lemma timers_ok_noTimers [simp]: "timers_ok noTimers" "active noTimers = []"
  by (simp_all add: timers_ok_def noTimers_def active_def map_filter_simps)

text \<open>\<open>d3.timer\<close> adds one active timer at the end.\<close>

lemma timer_active:
  assumes "timers_ok q" "timer c delay now q = (i, q')"
  shows "timers_ok q'" "active q' = active q @ [(i, c, now + delay)]" "i = q_next q"
proof -
  have fresh: "\<not> (\<exists>t \<in> set (q_tasks q). t_id t = q_next q)" using assms(1) by (auto simp: timers_ok_def list_all_iff)
  have m: "map (\<lambda>t. if t_id t = q_next q then t\<lparr>t_call := Some c, t_time := Some (now + delay)\<rparr> else t) (q_tasks q) = q_tasks q"
    using fresh by (intro map_idI) auto
  have q': "q_tasks q' = q_tasks q @ [\<lparr>t_id = q_next q, t_call = Some c, t_time = Some (now + delay)\<rparr>]" "q_next q' = Suc (q_next q)"
    "i = q_next q"
    using assms(2) fresh m by (auto simp: timer_def restart_def Let_def)
  show "timers_ok q'" using assms(1) fresh by (auto simp: timers_ok_def q' list_all_iff)
  show "active q' = active q @ [(i, c, now + delay)]" by (simp add: active_def q' map_filter_append map_filter_simps)
  show "i = q_next q" by (rule q')
qed

lemma stop_active:
  "timers_ok q \<Longrightarrow> timers_ok (stop i q)" "active (stop i q) = filter (\<lambda>(j, _). j \<noteq> i) (active q)"
  "length (q_tasks (stop i q)) = length (q_tasks q)"
proof -
  have "map t_id (q_tasks (stop i q)) = map t_id (q_tasks q)" by (auto simp: stop_def)
  moreover have "timers_ok q \<Longrightarrow> list_all (\<lambda>t. t_id t < q_next (stop i q) \<and> (t_call t = None \<longleftrightarrow> t_time t = None)) (q_tasks (stop i q))"
    by (auto simp: timers_ok_def list_all_iff stop_def)
  ultimately show "timers_ok q \<Longrightarrow> timers_ok (stop i q)" by (simp add: timers_ok_def)
  have "List.map_filter (\<lambda>t. case (t_call t, t_time t) of (Some c, Some time) \<Rightarrow> Some (t_id t, c, time) | _ \<Rightarrow> None)
      (map (\<lambda>t. if t_id t = i \<and> t_call t \<noteq> None then t\<lparr>t_call := None, t_time := None\<rparr> else t) ts) =
    filter (\<lambda>(j, _). j \<noteq> i) (List.map_filter (\<lambda>t. case (t_call t, t_time t) of (Some c, Some time) \<Rightarrow> Some (t_id t, c, time) | _ \<Rightarrow> None) ts)" for ts :: "'a task list"
    by (induction ts) (auto simp: map_filter_simps split: option.splits)
  then show "active (stop i q) = filter (\<lambda>(j, _). j \<noteq> i) (active q)" by (simp add: active_def stop_def)
  show "length (q_tasks (stop i q)) = length (q_tasks q)" by (simp add: stop_def)
qed

lemma nap_active: "timers_ok q \<Longrightarrow> timers_ok (nap q)" "active (nap q) = active q"
proof -
  show "timers_ok q \<Longrightarrow> timers_ok (nap q)"
    by (auto simp: timers_ok_def nap_def list_all_iff distinct_map_filter)
  have "List.map_filter (\<lambda>t. case (t_call t, t_time t) of (Some c, Some time) \<Rightarrow> Some (t_id t, c, time) | _ \<Rightarrow> None)
      (filter (\<lambda>t. t_call t \<noteq> None) ts) =
    List.map_filter (\<lambda>t. case (t_call t, t_time t) of (Some c, Some time) \<Rightarrow> Some (t_id t, c, time) | _ \<Rightarrow> None) ts" for ts :: "'a task list"
    by (induction ts) (auto simp: map_filter_simps split: option.splits)
  then show "active (nap q) = active q" by (simp add: active_def nap_def)
qed

section \<open>One pass over the queue\<close>

lemma active_iff:
  "(j, c, time) \<in> set (active q) \<longleftrightarrow> (\<exists>t \<in> set (q_tasks q). t_id t = j \<and> t_call t = Some c \<and> t_time t = Some time)"
proof -
  have "(j, c, time) \<in> set (List.map_filter (\<lambda>t. case (t_call t, t_time t) of (Some c, Some time) \<Rightarrow> Some (t_id t, c, time) | _ \<Rightarrow> None) ts) \<longleftrightarrow>
      (\<exists>t \<in> set ts. t_id t = j \<and> t_call t = Some c \<and> t_time t = Some time)" for ts :: "'a task list"
    by (induction ts) (auto simp: map_filter_simps split: option.splits)
  then show ?thesis by (simp add: active_def)
qed

lemma due_iff: "due now t = Some c \<longleftrightarrow> (\<exists>time. t_call t = Some c \<and> t_time t = Some time \<and> time \<le> now)"
  by (auto simp: due_def split: option.splits)

lemma due_active: "t \<in> set (q_tasks q) \<Longrightarrow> due now t = Some c \<Longrightarrow> \<exists>time. (t_id t, c, time) \<in> set (active q) \<and> time \<le> now"
  unfolding due_iff active_iff by blast

lemma timerFlush_skip:
  assumes "\<And>j. k \<le> j \<Longrightarrow> j < n \<Longrightarrow> due now (q_tasks (fst st) ! j) = None" "k \<le> n" "n \<le> length (q_tasks (fst st))"
  shows "timerFlush run now k st = timerFlush run now n st"
  using assms
proof (induction "n - k" arbitrary: k)
  case (Suc d)
  from Suc.hyps(2) have k: "k < n" by arith
  with Suc.prems(1) [of k] Suc.prems(3) have "due now (q_tasks (fst st) ! k) = None" "k < length (q_tasks (fst st))" by simp_all
  then have "timerFlush run now k st = timerFlush run now (Suc k) st" by (subst timerFlush.simps) (simp add: Let_def)
  also have "\<dots> = timerFlush run now n st" using Suc.hyps(2) Suc.prems k by (intro Suc.hyps(1)) simp_all
  finally show ?case .
qed simp

lemma timerFlush_end: "timerFlush run now (length (q_tasks (fst st))) st = Some (st, False)"
  by (subst timerFlush.simps) simp

lemma timerFlush_idle:
  assumes "\<And>t. t \<in> set (q_tasks (fst st)) \<Longrightarrow> due now t = None" "k \<le> length (q_tasks (fst st))"
  shows "timerFlush run now k st = Some (st, False)"
  using timerFlush_skip [of k "length (q_tasks (fst st))" now st run] timerFlush_end [of run now st] assms by simp

text \<open>No timer is due: the pass does nothing.\<close>

lemma wake_idle:
  assumes "\<And>j c time. (j, c, time) \<in> set (active q) \<Longrightarrow> now < time"
  shows "wake run now (q, s) = Some ((nap q, s), False)"
proof -
  have "due now t = None" if "t \<in> set (q_tasks q)" for t
    using due_active [OF that, of now] assms by (cases "due now t") (auto simp: not_le [symmetric])
  then show ?thesis using timerFlush_idle [of "(q, s)" now 0 run] by (simp add: wake_def)
qed

text \<open>The first due timer is run first; if its callback throws, the pass ends there.\<close>

lemma first_due:
  assumes "active q = (j, c, time) # rest" "time \<le> now"
  obtains k where "k < length (q_tasks q)" "t_id (q_tasks q ! k) = j" "due now (q_tasks q ! k) = Some c"
    "\<And>i. i < k \<Longrightarrow> due now (q_tasks q ! i) = None"
proof -
  have "\<exists>k. k < length ts \<and> t_id (ts ! k) = j \<and> due now (ts ! k) = Some c \<and> (\<forall>i < k. due now (ts ! i) = None)"
    if "List.map_filter (\<lambda>t. case (t_call t, t_time t) of (Some c, Some time) \<Rightarrow> Some (t_id t, c, time) | _ \<Rightarrow> None) ts = (j, c, time) # rest"
    for ts
    using that
  proof (induction ts)
    case (Cons t ts)
    show ?case
    proof (cases "\<exists>c time. t_call t = Some c \<and> t_time t = Some time")
      case True
      with Cons.prems assms(2) have "t_id t = j \<and> due now t = Some c" by (auto simp: map_filter_simps due_def)
      then show ?thesis by (intro exI [of _ 0]) simp
    next
      case False
      then have n: "due now t = None" by (auto simp: due_def split: option.splits)
      from False Cons.prems Cons.IH obtain k where "k < length ts" "t_id (ts ! k) = j" "due now (ts ! k) = Some c"
        "\<forall>i < k. due now (ts ! i) = None"
        by (auto simp: map_filter_simps split: option.splits)
      with n show ?thesis by (intro exI [of _ "Suc k"]) (auto simp: nth_Cons split: nat.splits)
    qed
  qed (simp add: map_filter_simps)
  with assms(1) that show thesis by (auto simp: active_def)
qed

lemma wake_throws:
  assumes "active q = (j, c, time) # rest" "time \<le> now" "run c j (q, s) = ((q', s'), True)"
  shows "wake run now (q, s) = Some ((nap q', s'), True)"
proof -
  obtain k where k: "k < length (q_tasks q)" "t_id (q_tasks q ! k) = j" "due now (q_tasks q ! k) = Some c"
    "\<And>i. i < k \<Longrightarrow> due now (q_tasks q ! i) = None" using first_due [OF assms(1,2)] by blast
  have "timerFlush run now 0 (q, s) = timerFlush run now k (q, s)" using k by (intro timerFlush_skip) auto
  also have "\<dots> = Some ((q', s'), True)" using k assms(3) by (subst timerFlush.simps) simp
  finally show ?thesis by (simp add: wake_def)
qed

text \<open>A single due timer whose callback leaves no active timer.\<close>

lemma wake_single:
  assumes "active q = [(j, c, time)]" "time \<le> now" "run c j (q, s) = ((q', s'), False)"
    and "active q' = []" "timers_ok q'" "length (q_tasks q') = length (q_tasks q)"
  shows "wake run now (q, s) = Some ((nap q', s'), False)"
proof -
  obtain k where k: "k < length (q_tasks q)" "t_id (q_tasks q ! k) = j" "due now (q_tasks q ! k) = Some c"
    "\<And>i. i < k \<Longrightarrow> due now (q_tasks q ! i) = None" using first_due [OF assms(1,2)] by blast
  have "timerFlush run now 0 (q, s) = timerFlush run now k (q, s)" using k by (intro timerFlush_skip) auto
  also have "\<dots> = timerFlush run now (Suc k) (q', s')" using k assms(3) by (subst timerFlush.simps) simp
  also have "\<dots> = Some ((q', s'), False)"
  proof (rule timerFlush_idle)
    fix t assume t: "t \<in> set (q_tasks (fst (q', s')))"
    show "due now t = None" using due_active [of t q' now] t assms(4) by (cases "due now t") auto
  qed (use k assms(6) in simp)
  finally show ?thesis by (simp add: wake_def)
qed

end
