(* ===== verification/Transitions.thy ===== *)
theory Transitions
  imports Main
begin

text \<open>
  Labelled transition systems for the event-driven parts: runs of a step relation with the list of
  their events, and the interface of a refinement. A client of the interface gives a relation between
  concrete and abstract states that the initial states and the steps respect; every run of the
  concrete system is then one of the abstract system.
\<close>

inductive run :: "('s \<Rightarrow> bool) \<Rightarrow> ('e \<Rightarrow> 's \<Rightarrow> 's \<Rightarrow> bool) \<Rightarrow> 'e list \<Rightarrow> 's \<Rightarrow> bool" for init step where
  run_init: "init s \<Longrightarrow> run init step [] s"
| run_step: "run init step es s \<Longrightarrow> step e s s' \<Longrightarrow> run init step (es @ [e]) s'"

lemma run_invariant:
  assumes "run init step es s" "\<And>s. init s \<Longrightarrow> P s" "\<And>e s s'. P s \<Longrightarrow> step e s s' \<Longrightarrow> P s'"
  shows "P s"
  using assms by (induction rule: run.induct) auto

locale simulation =
  fixes init :: "'s \<Rightarrow> bool"
    and step :: "'e \<Rightarrow> 's \<Rightarrow> 's \<Rightarrow> bool"
    and ainit :: "'a \<Rightarrow> bool"
    and astep :: "'e \<Rightarrow> 'a \<Rightarrow> 'a \<Rightarrow> bool"
    and rel :: "'s \<Rightarrow> 'a \<Rightarrow> bool"
  assumes init_rel: "init s \<Longrightarrow> \<exists>a. ainit a \<and> rel s a"
    and step_rel: "rel s a \<Longrightarrow> step e s s' \<Longrightarrow> \<exists>a'. astep e a a' \<and> rel s' a'"
begin

lemma run_simulated: "run init step es s \<Longrightarrow> \<exists>a. run ainit astep es a \<and> rel s a"
proof (induction rule: run.induct)
  case (run_init s)
  with init_rel show ?case by (meson run.run_init)
next
  case (run_step es s e s')
  with step_rel show ?case by (meson run.run_step)
qed

text \<open>An invariant of the abstract system holds of the concrete one through the relation.\<close>

lemma abstract_invariant:
  assumes "run init step es s" "\<And>a. ainit a \<Longrightarrow> P a" "\<And>e a a'. P a \<Longrightarrow> astep e a a' \<Longrightarrow> P a'"
  shows "\<exists>a. P a \<and> rel s a"
  using run_simulated [OF assms(1)] run_invariant [of ainit astep es _ P] assms(2,3) by blast

end

end
