(* ===== verification/Dm_Polling.thy ===== *)
theory Dm_Polling
  imports D3_Timer Transitions Dm_Sessions
begin

text \<open>
  The polling of a session page (\<^verbatim>\<open>dm.js\<close>: \<open>startStatusQuery\<close> with its closure \<open>updateGraph\<close>,
  \<open>startGraphStatusUpdates\<close> with \<open>updateStates\<close>) on the timer queue of d3, and the periodic reload of
  the session tables (\<open>loadSessions\<close>, \<open>loadPastSessions\<close>). The variables of the closures are a record;
  the requests under way are counted, and the server's answers, failed requests and the wake-ups of
  the timer queue are the events of a transition system. A failed request rejects its promise, for
  which no handler is installed, so it only ends.
\<close>

section \<open>The state of a page\<close>

datatype pageCallback = UpdateGraph | UpdateStates

datatype pageEffect = Page effect | GraphUpdate "string list" | StatusUpdate "drop_status list"

record poll =
  updateGraphTimer :: "nat option"
  updateGraphDelayTimer :: "nat option"
  updateGraphDelayTimerActive :: bool
  stateUpdateTimer :: "nat option"
  updateStatesDelayTimer :: "nat option"
  updateStatesDelayTimerActive :: bool
  graphRequests :: nat
  stateRequests :: nat
  statusRequests :: nat
  effects :: "pageEffect list"

type_synonym page = "pageCallback timers \<times> poll"

definition newPoll :: poll where
  "newPoll = \<lparr>updateGraphTimer = None, updateGraphDelayTimer = None, updateGraphDelayTimerActive = False,
     stateUpdateTimer = None, updateStatesDelayTimer = None, updateStatesDelayTimerActive = False,
     graphRequests = 0, stateRequests = 0, statusRequests = 0, effects = []\<rparr>"

text \<open>\<open>timer.stop()\<close> on a variable of the closure, which is \<open>undefined\<close> before its first assignment.\<close>

definition stopTimer :: "nat option \<Rightarrow> 'c timers \<Rightarrow> 'c timers result" where
  "stopTimer i q = rbind (deref i) (\<lambda>j. Inr (stop j q))"

section \<open>The closures\<close>

text \<open>The callbacks of the timers send their request first; an exception of \<open>stop\<close> leaves the rest undone.\<close>

definition updateGraph :: "page \<Rightarrow> page \<times> bool" where
  "updateGraph st =
     (let (q, p) = st;
          p1 = p\<lparr>graphRequests := graphRequests p + 1\<rparr>
      in case (if updateGraphDelayTimerActive p1
               then rbind (stopTimer (updateGraphDelayTimer p1) q) (\<lambda>q2. Inr (q2, p1\<lparr>updateGraphDelayTimerActive := False\<rparr>))
               else Inr (q, p1)) of
           Inl _ \<Rightarrow> ((q, p1), True)
         | Inr (q2, p2) \<Rightarrow>
             (case stopTimer (updateGraphTimer p2) q2 of
                Inl _ \<Rightarrow> ((q2, p2), True)
              | Inr q3 \<Rightarrow> ((q3, p2), False)))"

definition updateStates :: "page \<Rightarrow> page \<times> bool" where
  "updateStates st =
     (let (q, p) = st;
          p1 = p\<lparr>stateRequests := stateRequests p + 1\<rparr>
      in case (if updateStatesDelayTimerActive p1
               then rbind (stopTimer (updateStatesDelayTimer p1) q) (\<lambda>q2. Inr (q2, p1\<lparr>updateStatesDelayTimerActive := False\<rparr>))
               else Inr (q, p1)) of
           Inl _ \<Rightarrow> ((q, p1), True)
         | Inr (q2, p2) \<Rightarrow>
             (case stopTimer (stateUpdateTimer p2) q2 of
                Inl _ \<Rightarrow> ((q2, p2), True)
              | Inr q3 \<Rightarrow> ((q3, p2), False)))"

definition pageCallbacks :: "(pageCallback, poll) callbacks" where
  "pageCallbacks c i st = (case c of UpdateGraph \<Rightarrow> updateGraph st | UpdateStates \<Rightarrow> updateStates st)"

definition startStatusQuery :: "nat \<Rightarrow> page \<Rightarrow> page" where
  "startStatusQuery now st =
     (let (q, p) = st; (i, q') = timer UpdateGraph 0 now q
      in (q', p\<lparr>updateGraphTimer := Some i, updateGraphDelayTimer := None, updateGraphDelayTimerActive := False\<rparr>))"

definition startGraphStatusUpdates :: "nat \<Rightarrow> page \<Rightarrow> page" where
  "startGraphStatusUpdates now st =
     (let (q, p) = st; (i, q') = timer UpdateStates 0 now q
      in (q', p\<lparr>stateUpdateTimer := Some i, updateStatesDelayTimer := None, updateStatesDelayTimerActive := False\<rparr>))"

definition emit :: "pageEffect list \<Rightarrow> poll \<Rightarrow> poll" where
  "emit es p = p\<lparr>effects := effects p @ es\<rparr>"

definition showStatus :: "jstatus \<Rightarrow> pageEffect list" where
  "showStatus st =
     (let name = (case sessionStatusToString st of Some t \<Rightarrow> t | None \<Rightarrow> []) in
      map Page (SetStatusText name # setStatusColor name))"

text \<open>The answer to a graph query: the session's status and the ids of its drops. \<open>graphThrows\<close> and \<open>statusThrows\<close> say
  whether the caller's \<open>graph_update_handler\<close> and \<open>status_update_handler\<close> throw on it; an exception leaves the rest of the
  handler undone.\<close>

definition graphResponse :: "nat \<Rightarrow> nat \<Rightarrow> jstatus \<Rightarrow> string list \<Rightarrow> bool \<Rightarrow> bool \<Rightarrow> page \<Rightarrow> page" where
  "graphResponse delay now status oids graphThrows statusThrows st =
     (let (q, p) = st; p0 = p\<lparr>graphRequests := graphRequests p - 1\<rparr> in
      case uniqueSessionStatus status of
        Inl _ \<Rightarrow> (q, p0)
      | Inr s \<Rightarrow>
          let p1 = emit (showStatus s) p0;
              p2 = (if oids \<noteq> [] then emit [GraphUpdate (sort oids)] p1 else p1)
          in if oids \<noteq> [] \<and> graphThrows then (q, p2)
             else if s \<in> {SNum 3, SNum 4, SNum 5, SNum 6} then startGraphStatusUpdates now (q, p2)
             else if s \<in> {SNum 0, SNum 1, SNum 2, SNum (-1)} then
               let p3 = (if s = SNum 2
                         then emit [StatusUpdate (map (\<lambda>k. \<lparr>ds_execStatus = None, ds_status = Some 2\<rparr>) (sort oids))] p2
                         else p2);
                   (i, q') = timer UpdateGraph delay now q
               in if s = SNum 2 \<and> statusThrows then (q, p3)
                  else (q', p3\<lparr>updateGraphDelayTimer := Some i, updateGraphDelayTimerActive := True\<rparr>)
             else (q, p2))"

definition finalState :: "drop_status \<Rightarrow> bool" where
  "finalState s \<longleftrightarrow> get_status_name s \<in> Some ` {''completed'', ''finished'', ''error'', ''cancelled'', ''skipped'', ''deleted'', ''expired''}"

definition sortedStatuses :: "drop_status obj \<Rightarrow> drop_status list" where
  "sortedStatuses response = map (\<lambda>k. the (get response k)) (sort (keys response))"

definition statesResponse :: "nat \<Rightarrow> nat \<Rightarrow> drop_status obj \<Rightarrow> bool \<Rightarrow> page \<Rightarrow> page" where
  "statesResponse delay now response statusThrows st =
     (let (q, p) = st; statuses = sortedStatuses response;
          p1 = emit [StatusUpdate statuses] (p\<lparr>stateRequests := stateRequests p - 1\<rparr>)
      in if statusThrows then (q, p1)
         else if \<not> list_all finalState statuses then
           let (i, q') = timer UpdateStates delay now q
           in (q', p1\<lparr>updateStatesDelayTimer := Some i, updateStatesDelayTimerActive := True\<rparr>)
         else (q, p1\<lparr>statusRequests := statusRequests p1 + 1\<rparr>))"

definition statusResponse :: "jstatus \<Rightarrow> page \<Rightarrow> page" where
  "statusResponse status st =
     (let (q, p) = st; p1 = p\<lparr>statusRequests := statusRequests p - 1\<rparr> in
      case uniqueSessionStatus status of Inl _ \<Rightarrow> (q, p1) | Inr s \<Rightarrow> (q, emit (showStatus s) p1))"

section \<open>Events\<close>

datatype event =
    Wake nat
  | GraphAnswer nat jstatus "string list" bool bool
  | GraphFailure
  | StatesAnswer nat "drop_status obj" bool
  | StatesFailure
  | StatusAnswer jstatus
  | StatusFailure

text \<open>\<open>delay\<close> is the argument of \<open>startStatusQuery\<close>.\<close>

inductive page_step :: "nat \<Rightarrow> event \<Rightarrow> page \<Rightarrow> page \<Rightarrow> bool" for delay where
  wake: "wake pageCallbacks now st = Some (st', threw) \<Longrightarrow> page_step delay (Wake now) st st'"
| graph: "0 < graphRequests (snd st) \<Longrightarrow>
    page_step delay (GraphAnswer now status oids gt ht) st (graphResponse delay now status oids gt ht st)"
| graph_fails: "0 < graphRequests p \<Longrightarrow>
    page_step delay GraphFailure (q, p) (q, p\<lparr>graphRequests := graphRequests p - 1\<rparr>)"
| states: "0 < stateRequests (snd st) \<Longrightarrow>
    page_step delay (StatesAnswer now response ht) st (statesResponse delay now response ht st)"
| states_fails: "0 < stateRequests p \<Longrightarrow>
    page_step delay StatesFailure (q, p) (q, p\<lparr>stateRequests := stateRequests p - 1\<rparr>)"
| status: "0 < statusRequests (snd st) \<Longrightarrow>
    page_step delay (StatusAnswer s) st (statusResponse s st)"
| status_fails: "0 < statusRequests p \<Longrightarrow>
    page_step delay StatusFailure (q, p) (q, p\<lparr>statusRequests := statusRequests p - 1\<rparr>)"

inductive_cases page_stepE: "page_step delay e st st'"

text \<open>A page starts its query on an empty timer queue.\<close>

definition page_init :: "page \<Rightarrow> bool" where
  "page_init st \<longleftrightarrow> (\<exists>now. st = startStatusQuery now (noTimers, newPoll))"

section \<open>The specification\<close>

text \<open>What polling should be: at any time one thing is going on, a timer or a request, or nothing
  any more.\<close>

datatype phase = GraphTimer | GraphRequest | StatesTimer | StatesRequest | FinalRequest | Stopped

definition after_graph :: "jstatus \<Rightarrow> string list \<Rightarrow> bool \<Rightarrow> bool \<Rightarrow> phase" where
  "after_graph status oids gt ht =
     (case uniqueSessionStatus status of
        Inl _ \<Rightarrow> Stopped
      | Inr s \<Rightarrow> if oids \<noteq> [] \<and> gt \<or> s = SNum 2 \<and> ht then Stopped
                 else if s \<in> {SNum 3, SNum 4, SNum 5, SNum 6} then StatesTimer
                 else if s \<in> {SNum 0, SNum 1, SNum 2, SNum (-1)} then GraphTimer
                 else Stopped)"

definition after_states :: "drop_status obj \<Rightarrow> bool \<Rightarrow> phase" where
  "after_states response ht =
     (if ht then Stopped else if list_all finalState (sortedStatuses response) then FinalRequest else StatesTimer)"

inductive phase_step :: "event \<Rightarrow> phase \<Rightarrow> phase \<Rightarrow> bool" where
  too_early: "phase_step (Wake now) ph ph"
| graph_due: "phase_step (Wake now) GraphTimer GraphRequest"
| states_due: "phase_step (Wake now) StatesTimer StatesRequest"
| graph_answer: "phase_step (GraphAnswer now status oids gt ht) GraphRequest (after_graph status oids gt ht)"
| graph_failure: "phase_step GraphFailure GraphRequest Stopped"
| states_answer: "phase_step (StatesAnswer now response ht) StatesRequest (after_states response ht)"
| states_failure: "phase_step StatesFailure StatesRequest Stopped"
| status_answer: "phase_step (StatusAnswer s) FinalRequest Stopped"
| status_failure: "phase_step StatusFailure FinalRequest Stopped"

inductive_simps phase_step_simps: "phase_step e ph ph'"

text \<open>The state of the page in each phase.\<close>

definition requests :: "poll \<Rightarrow> nat \<times> nat \<times> nat" where
  "requests p = (graphRequests p, stateRequests p, statusRequests p)"

fun in_phase :: "page \<Rightarrow> phase \<Rightarrow> bool" where
  "in_phase (q, p) ph \<longleftrightarrow> timers_ok q \<and> updateGraphTimer p \<noteq> None \<and>
     (case ph of
        GraphTimer \<Rightarrow> requests p = (0, 0, 0) \<and> (\<exists>i t. active q = [(i, UpdateGraph, t)] \<and>
          (if updateGraphDelayTimerActive p then updateGraphDelayTimer p = Some i else updateGraphTimer p = Some i))
      | GraphRequest \<Rightarrow> requests p = (1, 0, 0) \<and> active q = [] \<and> \<not> updateGraphDelayTimerActive p
      | StatesTimer \<Rightarrow> requests p = (0, 0, 0) \<and> stateUpdateTimer p \<noteq> None \<and> (\<exists>i t. active q = [(i, UpdateStates, t)] \<and>
          (if updateStatesDelayTimerActive p then updateStatesDelayTimer p = Some i else stateUpdateTimer p = Some i))
      | StatesRequest \<Rightarrow> requests p = (0, 1, 0) \<and> stateUpdateTimer p \<noteq> None \<and> active q = [] \<and> \<not> updateStatesDelayTimerActive p
      | FinalRequest \<Rightarrow> requests p = (0, 0, 1) \<and> active q = []
      | Stopped \<Rightarrow> requests p = (0, 0, 0) \<and> active q = [])"

section \<open>Refinement\<close>

lemma requests_emit [simp]: "requests (emit es p) = requests p"
  "updateGraphDelayTimerActive (emit es p) = updateGraphDelayTimerActive p"
  by (simp_all add: requests_def emit_def)

lemma stopTimer_Some [simp]: "stopTimer (Some j) q = Inr (stop j q)"
  by (simp add: stopTimer_def)

text \<open>In its phase a callback does not throw, since the variables of its timers have been assigned.\<close>

lemma updateGraph_facts:
  assumes "in_phase (q, p) GraphTimer"
  shows "\<exists>q' p'. updateGraph (q, p) = ((q', p'), False) \<and> timers_ok q' \<and> active q' = [] \<and> length (q_tasks q') = length (q_tasks q) \<and>
    in_phase (q', p') GraphRequest"
proof -
  obtain j where j: "updateGraphTimer p = Some j" using assms by auto
  with assms show ?thesis
    by (cases "updateGraphDelayTimerActive p") (auto simp: updateGraph_def stop_active requests_def Let_def)
qed

lemma updateStates_facts:
  assumes "in_phase (q, p) StatesTimer"
  shows "\<exists>q' p'. updateStates (q, p) = ((q', p'), False) \<and> timers_ok q' \<and> active q' = [] \<and> length (q_tasks q') = length (q_tasks q) \<and>
    in_phase (q', p') StatesRequest"
proof -
  obtain j where j: "stateUpdateTimer p = Some j" using assms by auto
  with assms show ?thesis
    by (cases "updateStatesDelayTimerActive p") (auto simp: updateStates_def stop_active requests_def Let_def)
qed

text \<open>The pass over the queue: the one timer is run when it is due. It ends in every phase.\<close>

lemma wake_phase:
  assumes "in_phase st ph"
  shows "\<exists>st' ph'. wake pageCallbacks now st = Some (st', False) \<and> phase_step (Wake now) ph ph' \<and> in_phase st' ph'"
proof -
  obtain q p where st: "st = (q, p)" by (cases st)
  have ok: "timers_ok q" using assms st by simp
  show ?thesis
  proof (cases "\<exists>i c t. active q = [(i, c, t)] \<and> t \<le> now")
    case False
    have "now < time" if "(j, c, time) \<in> set (active q)" for j c time
      using that False assms unfolding st by (cases ph) auto
    then have "wake pageCallbacks now st = Some ((nap q, p), False)" unfolding st by (rule wake_idle)
    moreover have "in_phase (nap q, p) ph" using assms nap_active [of q] ok unfolding st by (cases ph) simp_all
    ultimately show ?thesis using too_early by blast
  next
    case True
    then obtain i c t where a: "active q = [(i, c, t)]" "t \<le> now" by blast
    then consider "ph = GraphTimer" "c = UpdateGraph" | "ph = StatesTimer" "c = UpdateStates"
      using assms unfolding st by (cases ph) auto
    then show ?thesis
    proof cases
      case 1
      obtain q' p' where u: "updateGraph (q, p) = ((q', p'), False)" "timers_ok q'" "active q' = []" "length (q_tasks q') = length (q_tasks q)"
        "in_phase (q', p') GraphRequest" using updateGraph_facts [OF assms [unfolded st 1]] by blast
      have "wake pageCallbacks now (q, p) = Some ((nap q', p'), False)"
        using a u 1 by (intro wake_single [of q i c t]) (simp_all add: pageCallbacks_def)
      moreover have "in_phase (nap q', p') GraphRequest" using u(5) nap_active [of q'] u(2) by simp
      ultimately show ?thesis using graph_due 1 st by blast
    next
      case 2
      obtain q' p' where u: "updateStates (q, p) = ((q', p'), False)" "timers_ok q'" "active q' = []" "length (q_tasks q') = length (q_tasks q)"
        "in_phase (q', p') StatesRequest" using updateStates_facts [OF assms [unfolded st 2]] by blast
      have "wake pageCallbacks now (q, p) = Some ((nap q', p'), False)"
        using a u 2 by (intro wake_single [of q i c t]) (simp_all add: pageCallbacks_def)
      moreover have "in_phase (nap q', p') StatesRequest" using u(5) nap_active [of q'] u(2) by simp
      ultimately show ?thesis using states_due 2 st by blast
    qed
  qed
qed

lemma graph_phase:
  assumes "in_phase st GraphRequest"
  shows "in_phase (graphResponse delay now status oids gt ht st) (after_graph status oids gt ht)"
proof -
  obtain q p where st: "st = (q, p)" by (cases st)
  obtain i q' where t: "timer UpdateGraph delay now q = (i, q')" by (cases "timer UpdateGraph delay now q")
  obtain j q'' where t': "timer UpdateStates 0 now q = (j, q'')" by (cases "timer UpdateStates 0 now q")
  have ok: "timers_ok q" "active q = []" using assms st by simp_all
  note T = timer_active [OF ok(1) t] timer_active [OF ok(1) t']
  note defs = graphResponse_def after_graph_def requests_def emit_def Let_def
  show ?thesis
  proof (cases "uniqueSessionStatus status")
    case (Inl e)
    with assms st show ?thesis by (simp add: defs)
  next
    case (Inr s)
    consider "oids \<noteq> [] \<and> gt" | "\<not> (oids \<noteq> [] \<and> gt)" "s \<in> {SNum 3, SNum 4, SNum 5, SNum 6}"
      | "\<not> (oids \<noteq> [] \<and> gt)" "s = SNum 2" "ht" | "\<not> (oids \<noteq> [] \<and> gt)" "\<not> (s = SNum 2 \<and> ht)" "s \<in> {SNum 0, SNum 1, SNum 2, SNum (-1)}"
      | "\<not> (oids \<noteq> [] \<and> gt)" "s \<notin> {SNum 3, SNum 4, SNum 5, SNum 6}" "s \<notin> {SNum 0, SNum 1, SNum 2, SNum (-1)}"
      by blast
    then show ?thesis
    proof cases
      case 1
      with Inr assms st show ?thesis by (simp add: defs)
    next
      case 2
      then have "s \<noteq> SNum 2" by auto
      with 2 Inr assms st T ok t' show ?thesis by (simp add: defs startGraphStatusUpdates_def)
    next
      case 3
      with Inr assms st t show ?thesis by (simp add: defs)
    next
      case 4
      then have "s \<notin> {SNum 3, SNum 4, SNum 5, SNum 6}" by auto
      with 4 Inr assms st T ok t show ?thesis by (auto simp: defs)
    next
      case 5
      with Inr assms st show ?thesis by (simp add: defs)
    qed
  qed
qed

lemma states_phase:
  assumes "in_phase st StatesRequest"
  shows "in_phase (statesResponse delay now response ht st) (after_states response ht)"
proof -
  obtain q p where st: "st = (q, p)" by (cases st)
  obtain i q' where t: "timer UpdateStates delay now q = (i, q')" by (cases "timer UpdateStates delay now q")
  have ok: "timers_ok q" "active q = []" using assms st by simp_all
  from timer_active [OF ok(1) t] ok assms st t show ?thesis
    by (simp add: statesResponse_def after_states_def requests_def emit_def Let_def)
qed

lemma status_phase: "in_phase st FinalRequest \<Longrightarrow> in_phase (statusResponse s st) Stopped"
  by (cases st) (auto simp: statusResponse_def requests_def emit_def Let_def split: sum.splits)

lemma request_phase:
  assumes "in_phase st ph"
  shows "0 < graphRequests (snd st) \<longleftrightarrow> ph = GraphRequest" "0 < stateRequests (snd st) \<longleftrightarrow> ph = StatesRequest"
    "0 < statusRequests (snd st) \<longleftrightarrow> ph = FinalRequest"
  using assms by (cases st; cases ph; auto simp: requests_def)+

lemma step_phase:
  assumes "in_phase st ph" "page_step delay e st st'"
  shows "\<exists>ph'. phase_step e ph ph' \<and> in_phase st' ph'"
  using assms(2)
proof cases
  case (wake now threw)
  with wake_phase [OF assms(1), of now] show ?thesis by auto
next
  case (graph now status oids gt ht)
  with request_phase(1) [OF assms(1)] assms(1) graph_phase show ?thesis using graph_answer by blast
next
  case (graph_fails p q)
  with request_phase(1) [OF assms(1)] have "ph = GraphRequest" by simp
  with graph_fails assms(1) show ?thesis using graph_failure by (auto simp: requests_def)
next
  case (states now response ht)
  with request_phase(2) [OF assms(1)] assms(1) states_phase show ?thesis using states_answer by blast
next
  case (states_fails p q)
  with request_phase(2) [OF assms(1)] have "ph = StatesRequest" by simp
  with states_fails assms(1) show ?thesis using states_failure by (auto simp: requests_def)
next
  case (status s)
  with request_phase(3) [OF assms(1)] assms(1) status_phase show ?thesis using status_answer by blast
next
  case (status_fails p q)
  with request_phase(3) [OF assms(1)] have "ph = FinalRequest" by simp
  with status_fails assms(1) show ?thesis using status_failure by (auto simp: requests_def)
qed

lemma init_phase: "page_init st \<Longrightarrow> in_phase st GraphTimer"
proof -
  assume "page_init st"
  then obtain now where st: "st = startStatusQuery now (noTimers, newPoll)" by (auto simp: page_init_def)
  obtain i q where t: "timer UpdateGraph 0 now noTimers = (i, q)" by (cases "timer UpdateGraph 0 now noTimers")
  from timer_active [OF timers_ok_noTimers(1) t] show ?thesis
    by (simp add: st startStatusQuery_def t newPoll_def requests_def)
qed

interpretation polling: simulation page_init "page_step delay" "\<lambda>ph. ph = GraphTimer" phase_step in_phase for delay
  by unfold_locales (use init_phase step_phase in blast)+

section \<open>Runs of the specification\<close>

lemma phase_run_continues:
  assumes "run (\<lambda>ph. ph = GraphTimer) phase_step es ph" "list_all P es"
    and "\<And>e a a'. P e \<Longrightarrow> phase_step e a a' \<Longrightarrow> a \<noteq> Stopped \<Longrightarrow> a' \<noteq> Stopped"
  shows "ph \<noteq> Stopped"
  using assms(1,2)
proof (induction rule: run.induct)
  case (run_step es s e s')
  with assms(3) [of e s s'] show ?case by simp
qed simp

lemma phase_run_stopped:
  assumes "run (\<lambda>ph. ph = GraphTimer) phase_step es ph" "GraphFailure \<in> set es \<or> StatesFailure \<in> set es"
  shows "ph = Stopped"
  using assms
proof (induction rule: run.induct)
  case (run_step es s e s')
  then show ?case by (auto simp: phase_step_simps)
qed simp

text \<open>The answers of a server that works: a known session status, and answers on which the page's handlers do
  not throw.\<close>

fun good_event :: "event \<Rightarrow> bool" where
  "good_event (GraphAnswer now status oids gt ht) \<longleftrightarrow> \<not> gt \<and> \<not> ht \<and>
     uniqueSessionStatus status \<in> Inr ` SNum ` {-1, 0, 1, 2, 3, 4, 5, 6}"
| "good_event (StatesAnswer now response ht) \<longleftrightarrow> \<not> ht"
| "good_event (Wake now) \<longleftrightarrow> True"
| "good_event _ \<longleftrightarrow> False"

lemma good_phase_step: "good_event e \<Longrightarrow> phase_step e a a' \<Longrightarrow> a \<noteq> Stopped \<Longrightarrow> a' \<noteq> Stopped"
  by (auto simp: phase_step_simps after_graph_def after_states_def split: if_splits)

lemma in_phase_activity:
  "in_phase (q, p) ph \<Longrightarrow> length (active q) + graphRequests p + stateRequests p + statusRequests p = (if ph = Stopped then 0 else 1)"
  by (cases ph) (auto simp: requests_def)

section \<open>The reload of the session tables\<close>

text \<open>Both tables are reloaded by a timer that their response handler starts. The callback of the
  first stops its timer after sending the request; the callback of the second names a variable that
  does not exist (\<open>loadPastSessionTimer\<close> for \<open>loadPassSessionTimer\<close>), so it throws after sending the
  request.\<close>

datatype reloadCallback = ReloadSessions | ReloadPastSessions

record reload =
  sessionsRequests :: nat
  pastSessionsRequests :: nat

definition reloadCallbacks :: "(reloadCallback, reload) callbacks" where
  "reloadCallbacks c i st =
     (let (q, s) = st in
      case c of
        ReloadSessions \<Rightarrow> ((stop i q, s\<lparr>sessionsRequests := sessionsRequests s + 1\<rparr>), False)
      | ReloadPastSessions \<Rightarrow> ((q, s\<lparr>pastSessionsRequests := pastSessionsRequests s + 1\<rparr>), True))"

definition sessionsLoaded :: "nat option \<Rightarrow> nat \<Rightarrow> reloadCallback timers \<times> reload \<Rightarrow> reloadCallback timers \<times> reload" where
  "sessionsLoaded delay now st =
     (let (q, s) = st; s' = s\<lparr>sessionsRequests := sessionsRequests s - 1\<rparr> in
      case delay of None \<Rightarrow> (q, s') | Some d \<Rightarrow> (snd (timer ReloadSessions d now q), s'))"

definition pastSessionsLoaded :: "nat option \<Rightarrow> nat \<Rightarrow> reloadCallback timers \<times> reload \<Rightarrow> reloadCallback timers \<times> reload" where
  "pastSessionsLoaded delay now st =
     (let (q, s) = st; s' = s\<lparr>pastSessionsRequests := pastSessionsRequests s - 1\<rparr> in
      case delay of None \<Rightarrow> (q, s') | Some d \<Rightarrow> (snd (timer ReloadPastSessions d now q), s'))"

text \<open>Successive wake-ups at the given times.\<close>

fun wakes :: "nat list \<Rightarrow> reloadCallback timers \<times> reload \<Rightarrow> (reloadCallback timers \<times> reload) option" where
  "wakes [] st = Some st"
| "wakes (now # nows) st = (case wake reloadCallbacks now st of Some (st', _) \<Rightarrow> wakes nows st' | None \<Rightarrow> None)"

lemma past_timer_wakes:
  assumes "active q = (j, ReloadPastSessions, t) # rest" "list_all (\<lambda>now. t \<le> now) nows"
  shows "\<exists>q'. wakes nows (q, s) = Some (q', s\<lparr>pastSessionsRequests := pastSessionsRequests s + length nows\<rparr>) \<and>
    active q' = active q"
  using assms
proof (induction nows arbitrary: q s)
  case (Cons now nows)
  let ?s = "s\<lparr>pastSessionsRequests := pastSessionsRequests s + 1\<rparr>"
  have "reloadCallbacks ReloadPastSessions j (q, s) = ((q, ?s), True)" by (simp add: reloadCallbacks_def)
  then have "wake reloadCallbacks now (q, s) = Some ((nap q, ?s), True)"
    using Cons.prems by (intro wake_throws [of q j ReloadPastSessions t rest]) simp_all
  moreover obtain q' where "wakes nows (nap q, ?s) = Some (q', ?s\<lparr>pastSessionsRequests := pastSessionsRequests ?s + length nows\<rparr>)"
    "active q' = active (nap q)" using Cons.IH [of "nap q" ?s] Cons.prems by (auto simp: nap_active)
  ultimately show ?case by (simp add: nap_active)
qed simp

section \<open>Properties\<close>

text \<open>C13. The polling of a page refines its specification: every run of timers and answers, handlers that throw
  included, is a run of the six phases. In every reachable state a pass over the timer queue ends, and no callback throws: the
  variables whose timers \<open>updateGraph\<close> and \<open>updateStates\<close> stop have been assigned when they run.\<close>

theorem polling_refines_phases:
  assumes "run page_init (page_step delay) es st"
  shows "\<exists>ph. run (\<lambda>ph. ph = GraphTimer) phase_step es ph \<and> in_phase st ph \<and>
    (\<forall>now. \<exists>st'. wake pageCallbacks now st = Some (st', False))"
  using polling.run_simulated [OF assms] wake_phase by blast

text \<open>Runs for the witnesses: the first request, its failure, and its answer by a running session.\<close>

definition started_page :: page where
  "started_page = startStatusQuery 0 (noTimers, newPoll)"

lemma first_request: "\<exists>q p. run page_init (page_step 0) [Wake 0] (q, p) \<and> in_phase (q, p) GraphRequest"
proof -
  obtain q p where sp: "started_page = (q, p)" by (cases started_page)
  have init: "page_init started_page" by (auto simp: page_init_def started_page_def)
  have i: "in_phase (q, p) GraphTimer" using init_phase [OF init] sp by simp
  obtain i where a: "active q = [(i, UpdateGraph, 0)]"
    using timer_active(2) [OF timers_ok_noTimers(1), of UpdateGraph 0 0] sp
    by (cases "timer UpdateGraph 0 0 noTimers") (auto simp: started_page_def startStatusQuery_def)
  obtain q' p' where u: "updateGraph (q, p) = ((q', p'), False)" "timers_ok q'" "active q' = []" "length (q_tasks q') = length (q_tasks q)"
    "in_phase (q', p') GraphRequest" using updateGraph_facts [OF i] by blast
  have "wake pageCallbacks 0 (q, p) = Some ((nap q', p'), False)" using u by (intro wake_single [OF a]) (simp_all add: pageCallbacks_def)
  then have "page_step 0 (Wake 0) started_page (nap q', p')" unfolding sp by (rule page_step.wake)
  moreover have "run page_init (page_step 0) [] started_page" using init by (rule run.run_init)
  ultimately have "run page_init (page_step 0) ([] @ [Wake 0]) (nap q', p')" by (intro run.run_step)
  moreover have "in_phase (nap q', p') GraphRequest" using u(2,5) nap_active [of q'] by simp
  ultimately show ?thesis by auto
qed

lemma second_step:
  assumes "\<And>q p. in_phase (q, p) GraphRequest \<Longrightarrow> page_step 0 e (q, p) (f q p)"
  shows "\<exists>q p. run page_init (page_step 0) [Wake 0, e] (q, p)"
proof -
  obtain q p where r: "run page_init (page_step 0) [Wake 0] (q, p)" "in_phase (q, p) GraphRequest" using first_request by blast
  from run.run_step [OF r(1) assms [OF r(2)]] have "run page_init (page_step 0) [Wake 0, e] (f q p)" by simp
  then show ?thesis by (cases "f q p") auto
qed

lemma failing_run: "\<exists>q p. run page_init (page_step 0) [Wake 0, GraphFailure] (q, p)"
  by (rule second_step [where f = "\<lambda>q p. (q, p\<lparr>graphRequests := graphRequests p - 1\<rparr>)"])
    (rule page_step.graph_fails, simp add: requests_def)

lemma answered_run: "\<exists>q p. run page_init (page_step 0) [Wake 0, GraphAnswer 5 (SNum 3) [''d''] False False] (q, p)"
  by (rule second_step [where f = "\<lambda>q p. graphResponse 0 5 (SNum 3) [''d''] False False (q, p)"])
    (rule page_step.graph, simp add: requests_def)

theorem polling_refines_phases_witness:
  "\<exists>st ph. run page_init (page_step 0) [Wake 0, GraphAnswer 5 (SNum 3) [''d''] False False] st \<and> in_phase st ph \<and>
     run (\<lambda>ph. ph = GraphTimer) phase_step [Wake 0, GraphAnswer 5 (SNum 3) [''d''] False False] ph \<and>
     (\<exists>st'. wake pageCallbacks 9 st = Some (st', False))"
proof -
  obtain q p where r: "run page_init (page_step 0) [Wake 0, GraphAnswer 5 (SNum 3) [''d''] False False] (q, p)" using answered_run by blast
  from polling_refines_phases [OF r] r show ?thesis by blast
qed

text \<open>C14. Polling is never doubled: in every reachable state at most one timer or request is active.\<close>

theorem polling_single_flight:
  assumes "run page_init (page_step delay) es (q, p)"
  shows "length (active q) + graphRequests p + stateRequests p + statusRequests p \<le> 1"
  using polling.run_simulated [OF assms] in_phase_activity by fastforce

theorem polling_single_flight_witness:
  "\<exists>q p. run page_init (page_step 0) [Wake 0] (q, p) \<and> graphRequests p = 1 \<and>
     length (active q) + graphRequests p + stateRequests p + statusRequests p \<le> 1"
proof -
  obtain q p where r: "run page_init (page_step 0) [Wake 0] (q, p)" "in_phase (q, p) GraphRequest" using first_request by blast
  moreover have "graphRequests p = 1" using r(2) by (simp add: requests_def)
  ultimately show ?thesis using polling_single_flight [OF r(1)] by blast
qed

text \<open>C15. Polling goes on: as long as the server answers with known statuses, the handlers of the page do not throw and the final query of the
  session's status has not been answered, one timer or request is active.\<close>

theorem polling_goes_on:
  assumes "run page_init (page_step delay) es (q, p)" "list_all good_event es"
  shows "length (active q) + graphRequests p + stateRequests p + statusRequests p = 1"
  using polling.run_simulated [OF assms(1)] phase_run_continues [OF _ assms(2) good_phase_step] in_phase_activity
  by fastforce

theorem polling_goes_on_witness:
  "\<exists>q p. run page_init (page_step 0) [Wake 0, GraphAnswer 5 (SNum 3) [''d''] False False] (q, p) \<and>
     length (active q) + graphRequests p + stateRequests p + statusRequests p = 1"
proof -
  obtain q p where r: "run page_init (page_step 0) [Wake 0, GraphAnswer 5 (SNum 3) [''d''] False False] (q, p)" using answered_run by blast
  from polling_goes_on [OF this] r show ?thesis by (auto simp: uniqueSessionStatus_def)
qed

text \<open>One failed request ends the polling of a page for good: no timer is active and no request
  under way, whatever happens afterwards.\<close>

theorem failed_request_ends_polling:
  assumes "run page_init (page_step delay) es (q, p)" "GraphFailure \<in> set es \<or> StatesFailure \<in> set es"
  shows "active q = [] \<and> requests p = (0, 0, 0)"
proof -
  obtain ph where "run (\<lambda>ph. ph = GraphTimer) phase_step es ph" "in_phase (q, p) ph"
    using polling.run_simulated [OF assms(1)] by blast
  moreover from this(1) assms(2) have "ph = Stopped" by (rule phase_run_stopped)
  ultimately show ?thesis by simp
qed

theorem failed_request_ends_polling_witness:
  "\<exists>q p. run page_init (page_step 0) [Wake 0, GraphFailure] (q, p) \<and> active q = [] \<and> requests p = (0, 0, 0)"
proof -
  obtain q p where r: "run page_init (page_step 0) [Wake 0, GraphFailure] (q, p)" using failing_run by blast
  from failed_request_ends_polling [OF this] r show ?thesis by auto
qed

text \<open>While a session is Deploying, the page shows all its drops as completed: the number of the
  session status is handed to the display as the number of a drop status.\<close>

theorem deploying_drops_shown_completed:
  "effects (snd (graphResponse delay now (SNum 2) [k] False False (q, newPoll))) =
     map Page [SetStatusText ''Deploying'', SetStatusColor ''lime'', HideCancelBtn] @
     [GraphUpdate [k], StatusUpdate [\<lparr>ds_execStatus = None, ds_status = Some 2\<rparr>]] \<and>
   get_status_name \<lparr>ds_execStatus = None, ds_status = Some 2\<rparr> = Some ''completed''"
  by (simp add: graphResponse_def uniqueSessionStatus_def showStatus_def emit_def newPoll_def Let_def
      sessionStatusToString_def array_at_def SESSION_STATUS_def setStatusColor_def get_status_name_def STATUS_CLASSES_def
      split: prod.splits)

text \<open>The reload timer of the past sessions is never stopped: each wake-up of the queue sends one
  more request, and no timer behind it in the queue is run any more.\<close>

theorem past_sessions_timer_never_stops:
  assumes "active q = (j, ReloadPastSessions, t) # rest" "list_all (\<lambda>now. t \<le> now) nows"
  shows "\<exists>q'. wakes nows (q, s) = Some (q', s\<lparr>pastSessionsRequests := pastSessionsRequests s + length nows\<rparr>) \<and>
    active q' = active q"
  using past_timer_wakes [OF assms] .

theorem past_sessions_timer_never_stops_witness:
  "\<exists>q'. wakes [5000, 5016, 5033] (fst (pastSessionsLoaded (Some 5000) 0 (noTimers, \<lparr>sessionsRequests = 0, pastSessionsRequests = 1\<rparr>)),
     \<lparr>sessionsRequests = 0, pastSessionsRequests = 0\<rparr>) = Some (q', \<lparr>sessionsRequests = 0, pastSessionsRequests = 3\<rparr>)"
proof -
  let ?q = "fst (pastSessionsLoaded (Some 5000) 0 (noTimers, \<lparr>sessionsRequests = 0, pastSessionsRequests = 1\<rparr>))"
  obtain i q where t: "timer ReloadPastSessions 5000 0 noTimers = (i, q)" by (cases "timer ReloadPastSessions 5000 0 noTimers")
  have "active ?q = [(i, ReloadPastSessions, 5000)]"
    using timer_active(2) [OF timers_ok_noTimers(1) t] by (simp add: pastSessionsLoaded_def t)
  from past_sessions_timer_never_stops [OF this, of "[5000, 5016, 5033]" "\<lparr>sessionsRequests = 0, pastSessionsRequests = 0\<rparr>"]
  show ?thesis by (auto simp: numeral_3_eq_3)
qed

end
