(* ===== verification/Main_Settings.thy ===== *)
theory Main_Settings
  imports Js_Strings Transitions
begin

text \<open>
  The deployment settings of the translator's page (\<^verbatim>\<open>main.js\<close>): the deploy methods kept in the
  browser's local storage, the rows of the settings dialog, saving them, the drop-down of deploy
  options and the choice of the active method. The stored JSON is the list of records it encodes. What
  the page asks of the network is an argument: whether an address is reachable and which submission
  methods it offers. Parsing of addresses (the class \<open>URL\<close> of the browser) is an argument too; the
  code relies on its rejecting what is not an address and on its parts.
\<close>

section \<open>Data\<close>

definition SERVER :: string where "SERVER = ''SERVER''"
definition BROWSER :: string where "BROWSER = ''BROWSER''"
definition HELM :: string where "HELM = ''HELM''"
definition OOD :: string where "OOD = ''OOD''"

definition DEFAULT_OPTIONS :: "string list" where
  "DEFAULT_OPTIONS = [SERVER, BROWSER, HELM, OOD]"

definition DEFAULT_URL :: string where "DEFAULT_URL = ''http://localhost:8001/''"
definition DEFAULT_NAME :: string where "DEFAULT_NAME = ''default deployment''"

text \<open>The flag is the boolean \<open>true\<close> in the initial entry and a string in all others.\<close>

datatype activeFlag = BoolFlag bool | StrFlag string

record deployMethod =
  m_name :: string
  m_url :: string
  m_deployMethod :: "string option"
  m_active :: activeFlag

record urlParts =
  u_href :: string
  u_protocol :: string
  u_host :: string
  u_hostname :: string
  u_port :: string
  u_pathname :: string

record storage =
  ls_deployMethods :: "deployMethod list option"
  ls_manager_url :: "string option"
  ls_manager_protocol :: "string option"
  ls_manager_host :: "string option"
  ls_manager_port :: "string option"
  ls_manager_prefix :: "string option"

definition emptyStorage :: storage where
  "emptyStorage = \<lparr>ls_deployMethods = None, ls_manager_url = None, ls_manager_protocol = None,
     ls_manager_host = None, ls_manager_port = None, ls_manager_prefix = None\<rparr>"

definition isActive :: "deployMethod \<Rightarrow> bool" where
  "isActive e \<longleftrightarrow> m_active e \<noteq> StrFlag ''false''"

section \<open>The rows of the dialog\<close>

datatype urlIcon = Unknown | Reachable | NotReachable

text \<open>A row as the browser builds it from the generated HTML: the values of the input fields, and the
  options of the method with the mark of the selected one.\<close>

record settingsRow =
  sr_name :: string
  sr_url :: string
  sr_icon :: urlIcon
  sr_options :: "(string \<times> string \<times> bool) list"
  sr_active :: string

text \<open>The attributes are written without quotes (\<open>value=${deployName}>\<close>), and the browser's HTML parser reads them: it skips
  white space; a value that begins with a quote ends at the next such quote; any other value ends at the first white space or closing
  angle bracket, so an empty text gives an empty value; character references (\<open>&amp;\<close>) are replaced, by the
  browser's table, which is the argument \<open>charRefs\<close>; an input field drops line breaks. \<open>None\<close> is a text that breaks out of its tag: an open quote
  takes in the markup that follows, and after the value a quote or an opening angle bracket may start anything. A zero character is
  replaced by one that is not a character of the model.\<close>

definition is_space :: "char \<Rightarrow> bool" where
  "is_space c \<longleftrightarrow> c \<in> {CHR '' '', CHR 0x09, CHR 0x0A, CHR 0x0C, CHR 0x0D}"

definition is_quote :: "char \<Rightarrow> bool" where
  "is_quote c \<longleftrightarrow> c \<in> {CHR 0x22, CHR 0x27}"

definition breaks_out :: "string \<Rightarrow> bool" where
  "breaks_out rest \<longleftrightarrow> list_ex (\<lambda>c. is_quote c \<or> c = CHR ''<'') rest"

definition attribute_value :: "(string \<Rightarrow> string) \<Rightarrow> string \<Rightarrow> string option" where
  "attribute_value charRefs s =
     (let field = (\<lambda>raw. filter (\<lambda>c. c \<notin> {CHR 0x0A, CHR 0x0D}) (charRefs raw)) in
      if CHR 0x00 \<in> set s then None
      else
        (case dropWhile is_space s of
           [] \<Rightarrow> Some []
         | c # cs \<Rightarrow>
             if is_quote c then
               (case dropWhile (\<lambda>d. d \<noteq> c) cs of
                  [] \<Rightarrow> None
                | _ # rest \<Rightarrow> if breaks_out rest then None else Some (field (takeWhile (\<lambda>d. d \<noteq> c) cs)))
             else
               let in_value = (\<lambda>d. \<not> is_space d \<and> d \<noteq> CHR ''>'')
               in if breaks_out (dropWhile in_value (c # cs)) then None else Some (field (takeWhile in_value (c # cs)))))"

definition flag_str :: "activeFlag \<Rightarrow> string" where
  "flag_str f = (case f of StrFlag s \<Rightarrow> s | BoolFlag b \<Rightarrow> if b then ''true'' else ''false'')"

definition displayValue :: "string \<Rightarrow> string" where
  "displayValue verb =
     (if verb = SERVER then ''Server''
      else if verb = BROWSER then ''Browser Direct''
      else if verb = OOD then ''OOD''
      else if verb = HELM then ''Helm''
      else ''Server'')"

text \<open>An option's value is written in double quotes.\<close>

definition buildDeployMethodEntry :: "(string \<Rightarrow> string) \<Rightarrow> string \<Rightarrow> bool \<Rightarrow> string \<times> string \<times> bool" where
  "buildDeployMethodEntry charRefs verb selected = (charRefs verb, displayValue verb, selected)"

definition kind_breaks_out :: "string \<Rightarrow> bool" where
  "kind_breaks_out verb \<longleftrightarrow> CHR 0x22 \<in> set verb \<or> CHR 0x00 \<in> set verb"

definition buildDeployMethod ::
  "(string \<Rightarrow> string) \<Rightarrow> string list \<Rightarrow> bool option \<Rightarrow> activeFlag \<Rightarrow> string \<Rightarrow> string \<Rightarrow> string option \<Rightarrow> settingsRow option" where
  "buildDeployMethod charRefs methods reachable deployActive deployName deployUrl selectedMethod =
     (case (attribute_value charRefs deployName, attribute_value charRefs deployUrl, attribute_value charRefs (flag_str deployActive)) of
        (Some name, Some url, Some active) \<Rightarrow>
          if list_ex kind_breaks_out methods then None
          else Some
            \<lparr>sr_name = name,
             sr_url = url,
             sr_icon = (case reachable of None \<Rightarrow> Unknown | Some True \<Rightarrow> Reachable | Some False \<Rightarrow> NotReachable),
             sr_options = map2 (\<lambda>i verb.
                 case selectedMethod of
                   None \<Rightarrow> buildDeployMethodEntry charRefs verb (i = 0)
                 | Some sel \<Rightarrow> buildDeployMethodEntry charRefs verb (sel = verb)) [0..<length methods] methods,
             sr_active = active\<rparr>
      | _ \<Rightarrow> None)"

text \<open>\<open>$('option:selected').val()\<close>: of the marked options the last one counts, and a selection list
  without a marked option has its first one selected.\<close>

definition selectedOption :: "(string \<times> string \<times> bool) list \<Rightarrow> string option" where
  "selectedOption opts =
     (case filter (\<lambda>(_, _, sel). sel) opts of
        [] \<Rightarrow> (case opts of [] \<Rightarrow> None | (v, _) # _ \<Rightarrow> Some v)
      | marked \<Rightarrow> Some (fst (last marked)))"

definition addDeployMethod :: "(string \<Rightarrow> string) \<Rightarrow> settingsRow list \<Rightarrow> settingsRow list option" where
  "addDeployMethod charRefs rows =
     map_option (\<lambda>r. rows @ [r]) (buildDeployMethod charRefs DEFAULT_OPTIONS None (StrFlag ''false'') [] [] None)"

definition removeDeployMethod :: "nat \<Rightarrow> settingsRow list \<Rightarrow> settingsRow list" where
  "removeDeployMethod i rows = take i rows @ drop (Suc i) rows"

text \<open>What the network says of an address: whether its status query succeeds, and the submission methods
  that the manager and the translator report for it (a failed query counts as none).\<close>

record network =
  n_reachable :: "string \<Rightarrow> bool"
  n_direct :: "string \<Rightarrow> string list option"
  n_translator :: "string \<Rightarrow> string list option"

definition checkUrlStatus :: "network \<Rightarrow> string \<Rightarrow> bool" where
  "checkUrlStatus net url = n_reachable net (url @ ''api'')"

definition checkUrlSubmissionMethods :: "string list option \<Rightarrow> string list" where
  "checkUrlSubmissionMethods response = (case response of Some ms \<Rightarrow> ms | None \<Rightarrow> [])"

definition availableMethods :: "network \<Rightarrow> string \<Rightarrow> string \<Rightarrow> string list" where
  "availableMethods net pageUrl url =
     (let ms = checkUrlSubmissionMethods (n_direct net (url @ ''api/submission_method'')) @
               checkUrlSubmissionMethods (n_translator net (pageUrl @ ''api/submission_method?dlg_mgr_url='' @ url))
      in if ms = [] then DEFAULT_OPTIONS else ms)"

definition settingsRowFor :: "(string \<Rightarrow> string) \<Rightarrow> network \<Rightarrow> string \<Rightarrow> deployMethod \<Rightarrow> settingsRow option" where
  "settingsRowFor charRefs net pageUrl e =
     buildDeployMethod charRefs (availableMethods net pageUrl (m_url e)) (Some (checkUrlStatus net (m_url e))) (m_active e)
       (m_name e) (m_url e) (m_deployMethod e)"

definition defaultMethods :: "deployMethod list" where
  "defaultMethods = [\<lparr>m_name = DEFAULT_NAME, m_url = DEFAULT_URL, m_deployMethod = Some SERVER, m_active = BoolFlag True\<rparr>]"

text \<open>\<open>fillOutSettings\<close>: the new storage and the methods of the rows. Each row is appended when the
  queries of its address are answered, so the rows of the dialog come in any order.\<close>

definition fillOutSettings :: "storage \<Rightarrow> storage \<times> string \<times> deployMethod list" where
  "fillOutSettings ls =
     (let managerUrlInput = (if truthy (ls_manager_url ls) then js_str (ls_manager_url ls) else DEFAULT_URL) in
      case ls_deployMethods ls of
        None \<Rightarrow> (ls\<lparr>ls_deployMethods := Some defaultMethods\<rparr>, managerUrlInput, defaultMethods)
      | Some ms \<Rightarrow> (ls, managerUrlInput, ms))"

section \<open>Saving\<close>

record saveState =
  v_methods :: "deployMethod list"
  v_errorFillingOut :: bool
  v_duplicateName :: bool
  v_emptyName :: bool
  v_badUrl :: bool
  v_message :: "string option"

definition is_blank :: "char \<Rightarrow> bool" where
  "is_blank c \<longleftrightarrow> is_space c \<or> c = CHR 0x0B \<or> c = CHR 0xA0"

definition trim :: "string \<Rightarrow> string" where
  "trim s = rev (dropWhile is_blank (rev (dropWhile is_blank s)))"

definition DUPLICATE_MESSAGE :: string where
  "DUPLICATE_MESSAGE = ''Please ensure there are no duplicate deploy method names''"
definition EMPTY_MESSAGE :: string where
  "EMPTY_MESSAGE = ''Please ensure deploy methods are named''"
definition URL_MESSAGE :: string where
  "URL_MESSAGE = ''Please ensure deploy methods URLs are valid''"

definition rowMethod :: "settingsRow \<Rightarrow> deployMethod" where
  "rowMethod r = \<lparr>m_name = sr_name r, m_url = sr_url r, m_deployMethod = selectedOption (sr_options r),
     m_active = StrFlag (sr_active r)\<rparr>"

text \<open>The body of the loop over the rows; the flags are never reset.\<close>

definition saveRow :: "(string \<Rightarrow> urlParts option) \<Rightarrow> settingsRow \<Rightarrow> saveState \<Rightarrow> saveState" where
  "saveRow parseUrl r v =
     (let emptyName = (v_emptyName v \<or> trim (sr_name r) = []);
          badUrl = (v_badUrl v \<or> parseUrl (sr_url r) = None);
          duplicateName = (v_duplicateName v \<or> (\<exists>e \<in> set (v_methods v). sr_name r = m_name e));
          errorFillingOut = (v_errorFillingOut v \<or> duplicateName \<or> emptyName \<or> badUrl);
          message = (if badUrl then Some URL_MESSAGE
                     else if emptyName then Some EMPTY_MESSAGE
                     else if duplicateName then Some DUPLICATE_MESSAGE
                     else v_message v)
      in \<lparr>v_methods = (if errorFillingOut then v_methods v else v_methods v @ [rowMethod r]),
          v_errorFillingOut = errorFillingOut, v_duplicateName = duplicateName, v_emptyName = emptyName,
          v_badUrl = badUrl, v_message = message\<rparr>)"

text \<open>The drop-down: the buttons of the active methods, the items of the menu, or the invitation to add
  a method. Every entry is put in front of the ones before it.\<close>

record dropdown =
  dd_active :: "deployMethod list"
  dd_menu :: "deployMethod list"
  dd_add :: bool

definition updateDeployOptionsDropdown :: "(string \<Rightarrow> urlParts option) \<Rightarrow> storage \<Rightarrow> (dropdown \<times> storage) result" where
  "updateDeployOptionsDropdown parseUrl ls =
     rbind (deref (ls_deployMethods ls)) (\<lambda>ms.
       let actives = filter isActive ms;
           dd = \<lparr>dd_active = rev actives, dd_menu = rev (filter (\<lambda>e. \<not> isActive e) ms), dd_add = (actives = [])\<rparr>
       in if actives = [] then Inr (dd, ls)
          else
            (case parseUrl (m_url (last actives)) of
               None \<Rightarrow> Inl (TypeError ''Invalid URL'')
             | Some u \<Rightarrow> Inr (dd, ls\<lparr>ls_manager_url := Some (u_href u), ls_manager_protocol := Some (u_protocol u),
                 ls_manager_host := Some (u_host u), ls_manager_port := Some (u_port u),
                 ls_manager_prefix := Some (u_pathname u)\<rparr>)))"

text \<open>\<open>saveSettings\<close>: \<open>Inl\<close> is the message of the dialog, which stays open, \<open>Inr\<close> the saved state.\<close>

definition saveSettings ::
  "(string \<Rightarrow> urlParts option) \<Rightarrow> settingsRow list \<Rightarrow> storage \<Rightarrow> (string option + dropdown \<times> storage) result" where
  "saveSettings parseUrl rows ls =
     (let v = fold (saveRow parseUrl) rows
                \<lparr>v_methods = [], v_errorFillingOut = False, v_duplicateName = False, v_emptyName = False,
                 v_badUrl = False, v_message = None\<rparr>
      in if v_errorFillingOut v then Inr (Inl (v_message v))
         else rbind (updateDeployOptionsDropdown parseUrl (ls\<lparr>ls_deployMethods := Some (v_methods v)\<rparr>)) (\<lambda>x. Inr (Inr x)))"

definition selectMethod :: "string \<Rightarrow> deployMethod \<Rightarrow> deployMethod" where
  "selectMethod name e = e\<lparr>m_active := StrFlag (if m_name e = name then ''true'' else ''false'')\<rparr>"

text \<open>\<open>changeSelectedDeployMethod\<close>: the URL only fills an input field.\<close>

definition changeSelectedDeployMethod ::
  "(string \<Rightarrow> urlParts option) \<Rightarrow> string \<Rightarrow> storage \<Rightarrow> (dropdown \<times> storage) result" where
  "changeSelectedDeployMethod parseUrl name ls =
     rbind (deref (ls_deployMethods ls)) (\<lambda>ms.
       updateDeployOptionsDropdown parseUrl (ls\<lparr>ls_deployMethods := Some (map (selectMethod name) ms)\<rparr>))"

section \<open>Lemmas\<close>

lemma trim_empty_iff: "trim s = [] \<longleftrightarrow> list_all is_blank s"
proof -
  have "(\<forall>c \<in> set (dropWhile is_blank s). is_blank c) \<longleftrightarrow> (\<forall>c \<in> set s. is_blank c)" by (induction s) auto
  then show ?thesis by (simp add: trim_def list_all_iff)
qed

text \<open>Rows that can be saved: every name has a visible character, names are different, every address
  parses.\<close>

definition rows_ok :: "(string \<Rightarrow> urlParts option) \<Rightarrow> settingsRow list \<Rightarrow> bool" where
  "rows_ok parseUrl rows \<longleftrightarrow> list_all (\<lambda>r. trim (sr_name r) \<noteq> [] \<and> parseUrl (sr_url r) \<noteq> None) rows \<and>
     distinct (map sr_name rows)"

definition rows_message :: "(string \<Rightarrow> urlParts option) \<Rightarrow> settingsRow list \<Rightarrow> string" where
  "rows_message parseUrl rows =
     (if list_ex (\<lambda>r. parseUrl (sr_url r) = None) rows then URL_MESSAGE
      else if list_ex (\<lambda>r. trim (sr_name r) = []) rows then EMPTY_MESSAGE
      else DUPLICATE_MESSAGE)"

definition emptySave :: saveState where
  "emptySave = \<lparr>v_methods = [], v_errorFillingOut = False, v_duplicateName = False, v_emptyName = False,
     v_badUrl = False, v_message = None\<rparr>"

lemma saveRow_loop:
  fixes parseUrl :: "string \<Rightarrow> urlParts option"
  defines "result rows \<equiv> fold (saveRow parseUrl) rows emptySave"
  shows "v_emptyName (result rows) = list_ex (\<lambda>r. trim (sr_name r) = []) rows"
    "v_badUrl (result rows) = list_ex (\<lambda>r. parseUrl (sr_url r) = None) rows"
    "v_errorFillingOut (result rows) \<longleftrightarrow> \<not> rows_ok parseUrl rows"
    "v_errorFillingOut (result rows) \<longleftrightarrow> v_emptyName (result rows) \<or> v_badUrl (result rows) \<or> v_duplicateName (result rows)"
    "\<not> v_errorFillingOut (result rows) \<Longrightarrow> v_methods (result rows) = map rowMethod rows"
    "v_errorFillingOut (result rows) \<Longrightarrow> v_message (result rows) = Some (rows_message parseUrl rows)"
proof (induction rows rule: rev_induct)
  case Nil
  { case 1 show ?case by (simp add: result_def emptySave_def)
  next case 2 show ?case by (simp add: result_def emptySave_def)
  next case 3 show ?case by (simp add: result_def emptySave_def rows_ok_def)
  next case 4 show ?case by (simp add: result_def emptySave_def)
  next case 5 show ?case by (simp add: result_def emptySave_def)
  next case 6 then show ?case by (simp add: result_def emptySave_def) }
next
  case (snoc r rows)
  have step: "result (rows @ [r]) = saveRow parseUrl r (result rows)" by (simp add: result_def)
  have empty: "v_emptyName (result (rows @ [r])) = list_ex (\<lambda>r. trim (sr_name r) = []) (rows @ [r])"
    unfolding step by (auto simp: saveRow_def Let_def snoc.IH(1))
  have bad: "v_badUrl (result (rows @ [r])) = list_ex (\<lambda>r. parseUrl (sr_url r) = None) (rows @ [r])"
    unfolding step by (auto simp: saveRow_def Let_def snoc.IH(2))
  have err: "v_errorFillingOut (result (rows @ [r])) \<longleftrightarrow> v_emptyName (result (rows @ [r])) \<or>
      v_badUrl (result (rows @ [r])) \<or> v_duplicateName (result (rows @ [r]))"
    unfolding step using snoc.IH(4) by (auto simp: saveRow_def Let_def)
  have dup: "v_duplicateName (result (rows @ [r])) \<longleftrightarrow> v_duplicateName (result rows) \<or>
      (\<exists>e \<in> set (v_methods (result rows)). sr_name r = m_name e)"
    unfolding step by (simp add: saveRow_def Let_def)
  have ok: "v_errorFillingOut (result (rows @ [r])) \<longleftrightarrow> \<not> rows_ok parseUrl (rows @ [r])"
  proof (cases "v_errorFillingOut (result rows)")
    case True
    then have "v_errorFillingOut (result (rows @ [r]))" unfolding step by (simp add: saveRow_def Let_def)
    moreover have "\<not> rows_ok parseUrl (rows @ [r])" using True snoc.IH(3) by (auto simp: rows_ok_def)
    ultimately show ?thesis by simp
  next
    case False
    then have "rows_ok parseUrl rows" "v_methods (result rows) = map rowMethod rows" "\<not> v_duplicateName (result rows)"
      using snoc.IH(3,4,5) by auto
    then show ?thesis unfolding err dup empty bad
      by (auto simp: rows_ok_def list_all_iff list_ex_iff rowMethod_def)
  qed
  { case 1 show ?case by (rule empty)
  next case 2 show ?case by (rule bad)
  next case 3 show ?case by (rule ok)
  next case 4 show ?case by (rule err)
  next case 5
    then have "\<not> v_errorFillingOut (result rows)" unfolding step by (simp add: saveRow_def Let_def)
    with 5 snoc.IH(5) show ?case unfolding step by (simp add: saveRow_def Let_def)
  next case 6
    then show ?case
      using empty bad err unfolding rows_message_def
      unfolding step by (auto simp: saveRow_def Let_def) }
qed

lemma saveSettings_cases:
  "saveSettings parseUrl rows ls =
     (if rows_ok parseUrl rows
      then rbind (updateDeployOptionsDropdown parseUrl (ls\<lparr>ls_deployMethods := Some (map rowMethod rows)\<rparr>)) (\<lambda>x. Inr (Inr x))
      else Inr (Inl (Some (rows_message parseUrl rows))))"
  using saveRow_loop(3,5,6) [of parseUrl rows]
  by (simp add: saveSettings_def Let_def flip: emptySave_def)

text \<open>The stored methods: names visible and different, addresses that parse.\<close>

definition methods_ok :: "(string \<Rightarrow> urlParts option) \<Rightarrow> deployMethod list \<Rightarrow> bool" where
  "methods_ok parseUrl ms \<longleftrightarrow> list_all (\<lambda>e. trim (m_name e) \<noteq> [] \<and> parseUrl (m_url e) \<noteq> None) ms \<and> distinct (map m_name ms)"

lemma rows_ok_methods: "rows_ok parseUrl rows \<longleftrightarrow> methods_ok parseUrl (map rowMethod rows)"
  by (simp add: rows_ok_def methods_ok_def list_all_iff rowMethod_def comp_def)

lemma update_total:
  assumes "ls_deployMethods ls = Some ms" "methods_ok parseUrl ms"
  shows "\<exists>dd ls'. updateDeployOptionsDropdown parseUrl ls = Inr (dd, ls') \<and> ls_deployMethods ls' = Some ms \<and>
    dd_active dd = rev (filter isActive ms) \<and> dd_menu dd = rev (filter (\<lambda>e. \<not> isActive e) ms) \<and>
    (dd_add dd \<longleftrightarrow> filter isActive ms = [])"
proof (cases "filter isActive ms = []")
  case True
  with assms show ?thesis by (simp add: updateDeployOptionsDropdown_def Let_def)
next
  case False
  then have "last (filter isActive ms) \<in> set ms" by (meson filter_is_subset last_in_set subsetD)
  with assms(2) obtain u where "parseUrl (m_url (last (filter isActive ms))) = Some u"
    by (auto simp: methods_ok_def list_all_iff)
  with False assms show ?thesis by (simp add: updateDeployOptionsDropdown_def Let_def)
qed

lemma methods_ok_select: "methods_ok parseUrl (map (selectMethod name) ms) \<longleftrightarrow> methods_ok parseUrl ms"
  by (simp add: methods_ok_def list_all_iff selectMethod_def comp_def)

section \<open>Operations on the settings\<close>

text \<open>What the user can do: open the dialog, save its rows, choose a method.\<close>

datatype settingsOp = FillOut | Save "settingsRow list" | Select string

fun apply_settings :: "(string \<Rightarrow> urlParts option) \<Rightarrow> settingsOp \<Rightarrow> storage \<Rightarrow> storage result" where
  "apply_settings parseUrl FillOut ls = Inr (fst (fillOutSettings ls))"
| "apply_settings parseUrl (Save rows) ls =
     rbind (saveSettings parseUrl rows ls) (\<lambda>r. Inr (case r of Inl _ \<Rightarrow> ls | Inr (_, ls') \<Rightarrow> ls'))"
| "apply_settings parseUrl (Select name) ls = rbind (changeSelectedDeployMethod parseUrl name ls) (\<lambda>(_, ls'). Inr ls')"

definition storage_ok :: "(string \<Rightarrow> urlParts option) \<Rightarrow> storage \<Rightarrow> bool" where
  "storage_ok parseUrl ls \<longleftrightarrow> (case ls_deployMethods ls of None \<Rightarrow> False | Some ms \<Rightarrow> methods_ok parseUrl ms)"

lemma default_methods_ok: "parseUrl DEFAULT_URL \<noteq> None \<Longrightarrow> methods_ok parseUrl defaultMethods"
  by (simp add: methods_ok_def defaultMethods_def trim_empty_iff DEFAULT_NAME_def is_blank_def is_space_def)

lemma apply_settings_ok:
  assumes "storage_ok parseUrl ls"
  shows "\<exists>ls'. apply_settings parseUrl c ls = Inr ls' \<and> storage_ok parseUrl ls'"
proof -
  obtain ms where ms: "ls_deployMethods ls = Some ms" "methods_ok parseUrl ms"
    using assms by (auto simp: storage_ok_def split: option.splits)
  show ?thesis
  proof (cases c)
    case FillOut
    with assms ms show ?thesis by (simp add: fillOutSettings_def Let_def)
  next
    case (Save rows)
    show ?thesis
    proof (cases "rows_ok parseUrl rows")
      case True
      with update_total [of "ls\<lparr>ls_deployMethods := Some (map rowMethod rows)\<rparr>" "map rowMethod rows" parseUrl] Save
      show ?thesis by (auto simp: saveSettings_cases rows_ok_methods storage_ok_def)
    next
      case False
      with Save assms show ?thesis by (simp add: saveSettings_cases)
    qed
  next
    case (Select name)
    with update_total [of "ls\<lparr>ls_deployMethods := Some (map (selectMethod name) ms)\<rparr>" "map (selectMethod name) ms" parseUrl] ms
    show ?thesis by (auto simp: changeSelectedDeployMethod_def methods_ok_select storage_ok_def)
  qed
qed

subsection \<open>From the storage to the dialog and back\<close>

text \<open>What the code relies on of the browser's character references: they begin with an ampersand.\<close>

definition refs_begin_with_ampersand :: "(string \<Rightarrow> string) \<Rightarrow> bool" where
  "refs_begin_with_ampersand charRefs \<longleftrightarrow> (\<forall>s. CHR ''&'' \<notin> set s \<longrightarrow> charRefs s = s)"

text \<open>Text that survives in an unquoted attribute, and kinds of methods that survive in a quoted one.\<close>

definition attribute_safe :: "string \<Rightarrow> bool" where
  "attribute_safe s \<longleftrightarrow> list_all (\<lambda>c. \<not> is_space c \<and> c \<notin> {CHR ''>'', CHR ''&'', CHR 0x00}) s \<and> (s \<noteq> [] \<longrightarrow> \<not> is_quote (hd s))"

definition kind_safe :: "string \<Rightarrow> bool" where
  "kind_safe verb \<longleftrightarrow> \<not> kind_breaks_out verb \<and> CHR ''&'' \<notin> set verb"

definition row_safe :: "network \<Rightarrow> string \<Rightarrow> deployMethod \<Rightarrow> bool" where
  "row_safe net pageUrl e \<longleftrightarrow> attribute_safe (m_name e) \<and> attribute_safe (m_url e) \<and> attribute_safe (flag_str (m_active e)) \<and>
     list_all kind_safe (availableMethods net pageUrl (m_url e))"

lemma attribute_value_safe:
  assumes refs: "refs_begin_with_ampersand charRefs" and s: "attribute_safe s"
  shows "attribute_value charRefs s = Some s"
proof (cases s)
  case (Cons c cs)
  have "CHR ''&'' \<notin> set s" using s by (auto simp: attribute_safe_def list_all_iff)
  then have id: "charRefs s = s" using refs by (simp add: refs_begin_with_ampersand_def)
  have all: "\<forall>d \<in> set s. \<not> is_space d \<and> d \<noteq> CHR ''>''" "CHR 0x00 \<notin> set s" "\<not> is_quote c" "\<not> is_space c"
    using s Cons by (auto simp: attribute_safe_def list_all_iff)
  have "filter (\<lambda>d. d \<notin> {CHR 0x0A, CHR 0x0D}) s = s" using all(1) by (intro filter_True) (auto simp: is_space_def)
  moreover have dw: "dropWhile is_space s = c # cs" using all(4) Cons by simp
  have "attribute_value charRefs s = (if breaks_out (dropWhile (\<lambda>d. \<not> is_space d \<and> d \<noteq> CHR ''>'') s) then None
      else Some (filter (\<lambda>d. d \<notin> {CHR 0x0A, CHR 0x0D}) (charRefs (takeWhile (\<lambda>d. \<not> is_space d \<and> d \<noteq> CHR ''>'') s))))"
    unfolding attribute_value_def Let_def dw using all(2,3) by (simp add: Cons)
  moreover have "takeWhile (\<lambda>d. \<not> is_space d \<and> d \<noteq> CHR ''>'') s = s" "dropWhile (\<lambda>d. \<not> is_space d \<and> d \<noteq> CHR ''>'') s = []"
    using all(1) by simp_all
  ultimately show ?thesis using id by (simp add: breaks_out_def)
qed (simp add: attribute_value_def)

lemma kinds_safe:
  assumes refs: "refs_begin_with_ampersand charRefs" and "list_all kind_safe ms"
  shows "\<not> list_ex kind_breaks_out ms" "m \<in> set ms \<Longrightarrow> buildDeployMethodEntry charRefs m b = (m, displayValue m, b)"
  using assms by (auto simp: list_all_iff list_ex_iff kind_safe_def buildDeployMethodEntry_def refs_begin_with_ampersand_def)

lemma map2_upt_ignore: "map2 (\<lambda>i. f) [0..<length xs] xs = map f xs"
  by (rule nth_equalityI) simp_all

lemma selected_available:
  assumes "sel \<in> set methods"
  shows "selectedOption (map (\<lambda>m. (m, displayValue m, sel = m)) methods) = Some sel"
proof -
  have f: "filter (\<lambda>(_, _, s). s) (map (\<lambda>m. (m, displayValue m, sel = m)) methods) =
      map (\<lambda>m. (m, displayValue m, True)) (filter (\<lambda>m. sel = m) methods)"
    by (induction methods) auto
  let ?ms = "filter (\<lambda>m. sel = m) methods"
  have ne: "?ms \<noteq> []" using assms by (auto simp: filter_empty_conv)
  then have "last ?ms = sel" using last_in_set [of ?ms] by simp
  moreover have "last (map (\<lambda>m. (m, displayValue m, True)) ?ms) = (last ?ms, displayValue (last ?ms), True)"
    using ne by (simp add: last_map)
  moreover obtain x xs where "map (\<lambda>m. (m, displayValue m, True)) ?ms = x # xs" using ne by (cases ?ms) auto
  ultimately show ?thesis unfolding selectedOption_def f by simp
qed

lemma selected_unavailable:
  assumes "sel \<notin> set methods"
  shows "selectedOption (map (\<lambda>m. (m, displayValue m, sel = m)) methods) = (case methods of [] \<Rightarrow> None | m # _ \<Rightarrow> Some m)"
proof -
  have "filter (\<lambda>(_, _, s). s) (map (\<lambda>m. (m, displayValue m, sel = m)) methods) = []"
    using assms by (auto simp: filter_empty_conv)
  then show ?thesis by (simp add: selectedOption_def split: list.splits)
qed

text \<open>The row of a method whose texts survive, and what saving makes of it.\<close>

lemma settingsRow_safe:
  assumes refs: "refs_begin_with_ampersand charRefs" and e: "row_safe net pageUrl e" "m_deployMethod e = Some sel"
  shows "\<exists>r. settingsRowFor charRefs net pageUrl e = Some r \<and> rowMethod r = e\<lparr>m_active := StrFlag (flag_str (m_active e)),
    m_deployMethod := selectedOption (map (\<lambda>m. (m, displayValue m, sel = m)) (availableMethods net pageUrl (m_url e)))\<rparr>"
proof -
  let ?ms = "availableMethods net pageUrl (m_url e)"
  have k: "list_all kind_safe ?ms" using e(1) by (simp add: row_safe_def)
  have opts: "map2 (\<lambda>i m. buildDeployMethodEntry charRefs m (sel = m)) [0..<length ?ms] ?ms = map (\<lambda>m. (m, displayValue m, sel = m)) ?ms"
    unfolding map2_upt_ignore using kinds_safe(2) [OF refs k] by (intro map_cong) simp_all
  have v: "attribute_value charRefs (m_name e) = Some (m_name e)" "attribute_value charRefs (m_url e) = Some (m_url e)"
    "attribute_value charRefs (flag_str (m_active e)) = Some (flag_str (m_active e))"
    using e(1) attribute_value_safe [OF refs] by (simp_all add: row_safe_def)
  show ?thesis using kinds_safe(1) [OF refs k] unfolding settingsRowFor_def buildDeployMethod_def v e(2) by (simp add: opts rowMethod_def)
qed

lemma changeSelected_stores:
  assumes "ls_deployMethods ls = Some ms" "distinct (map m_name ms)" "e \<in> set ms" "parseUrl (m_url e) = Some u"
  shows "\<exists>dd ls'. changeSelectedDeployMethod parseUrl (m_name e) ls = Inr (dd, ls') \<and>
    map m_name (dd_active dd) = [m_name e] \<and> set (map m_name (dd_menu dd)) = m_name ` set ms - {m_name e} \<and>
    \<not> dd_add dd \<and> ls_manager_url ls' = Some (u_href u) \<and> ls_manager_host ls' = Some (u_host u) \<and>
    ls_deployMethods ls' = Some (map (selectMethod (m_name e)) ms)"
proof -
  let ?ms = "map (selectMethod (m_name e)) ms"
  have act: "isActive (selectMethod (m_name e) x) \<longleftrightarrow> m_name x = m_name e" for x
    by (simp add: isActive_def selectMethod_def)
  have nm: "m_name (selectMethod (m_name e) x) = m_name x" "m_url (selectMethod (m_name e) x) = m_url x" for x
    by (simp_all add: selectMethod_def)
  have "filter (\<lambda>x. m_name x = m_name e) ms = [e]" using assms(2,3)
  proof (induction ms)
    case (Cons y ms)
    then show ?case by (cases "y = e") (auto simp: filter_empty_conv image_iff)
  qed simp
  then have a: "filter isActive ?ms = [selectMethod (m_name e) e]" by (simp add: filter_map comp_def act)
  have m: "filter (\<lambda>x. \<not> isActive x) ?ms = map (selectMethod (m_name e)) (filter (\<lambda>x. m_name x \<noteq> m_name e) ms)"
    by (simp add: filter_map comp_def act)
  have "set (map m_name (rev (filter (\<lambda>x. \<not> isActive x) ?ms))) = m_name ` set ms - {m_name e}"
    unfolding m by (auto simp: nm image_image)
  with a assms(1,4) show ?thesis
    by (simp add: changeSelectedDeployMethod_def updateDeployOptionsDropdown_def Let_def nm)
qed

section \<open>Properties\<close>

text \<open>C16. The settings are saved exactly when every method is named, the names are different and the
  addresses are valid; then the stored methods are those of the rows. Otherwise the storage is left
  alone and the dialog shows the message of the gravest mistake.\<close>

theorem saveSettings_saves_exactly_valid_rows:
  "saveSettings parseUrl rows ls =
     (if rows_ok parseUrl rows
      then rbind (updateDeployOptionsDropdown parseUrl (ls\<lparr>ls_deployMethods := Some (map rowMethod rows)\<rparr>)) (\<lambda>x. Inr (Inr x))
      else Inr (Inl (Some (rows_message parseUrl rows))))"
  by (rule saveSettings_cases)

text \<open>C17. Whatever the user does in the dialog and the drop-down, no exception is raised and the stored
  methods always have visible, different names and valid addresses.\<close>

theorem settings_always_consistent:
  assumes "parseUrl DEFAULT_URL \<noteq> None"
  shows "\<exists>ls. rfold (apply_settings parseUrl) ops (fst (fillOutSettings emptyStorage)) = Inr ls \<and> storage_ok parseUrl ls"
proof -
  have "storage_ok parseUrl (fst (fillOutSettings emptyStorage))"
    using default_methods_ok [of parseUrl] assms by (simp add: fillOutSettings_def emptyStorage_def storage_ok_def Let_def)
  from rfold_invariant [where P = "storage_ok parseUrl" and f = "apply_settings parseUrl", OF this apply_settings_ok]
  show ?thesis by blast
qed

definition anyUrl :: "string \<Rightarrow> urlParts option" where
  "anyUrl s = (if str_includes s ''://''
     then Some \<lparr>u_href = s, u_protocol = ''http:'', u_host = s, u_hostname = s, u_port = [], u_pathname = ''/''\<rparr> else None)"

theorem settings_always_consistent_witness:
  "\<exists>ls. rfold (apply_settings anyUrl) [FillOut, Save [], Select ''x''] (fst (fillOutSettings emptyStorage)) = Inr ls \<and>
     storage_ok anyUrl ls"
proof -
  have "anyUrl DEFAULT_URL \<noteq> None" by (simp add: anyUrl_def DEFAULT_URL_def str_includes.simps is_prefix_def)
  then show ?thesis by (rule settings_always_consistent)
qed

text \<open>Choosing a method makes it the only active one: its button is the one active button, all other
  methods are in the menu, and the manager's address in the storage is the method's.\<close>

theorem chosen_method_is_the_active_one:
  assumes "ls_deployMethods ls = Some ms" "distinct (map m_name ms)" "e \<in> set ms" "parseUrl (m_url e) = Some u"
  shows "\<exists>dd ls'. changeSelectedDeployMethod parseUrl (m_name e) ls = Inr (dd, ls') \<and>
    map m_name (dd_active dd) = [m_name e] \<and> set (map m_name (dd_menu dd)) = m_name ` set ms - {m_name e} \<and>
    \<not> dd_add dd \<and> ls_manager_url ls' = Some (u_href u) \<and> ls_manager_host ls' = Some (u_host u) \<and>
    ls_deployMethods ls' = Some (map (selectMethod (m_name e)) ms)"
  by (rule changeSelected_stores [where parseUrl = parseUrl, OF assms])

theorem chosen_method_is_the_active_one_witness:
  "\<exists>dd ls'. changeSelectedDeployMethod anyUrl DEFAULT_NAME (fst (fillOutSettings emptyStorage)) = Inr (dd, ls') \<and>
     map m_name (dd_active dd) = [DEFAULT_NAME] \<and> ls_manager_url ls' = Some DEFAULT_URL"
proof -
  let ?e = "hd defaultMethods"
  have u: "anyUrl (m_url ?e) = Some \<lparr>u_href = DEFAULT_URL, u_protocol = ''http:'', u_host = DEFAULT_URL, u_hostname = DEFAULT_URL, u_port = [], u_pathname = ''/''\<rparr>"
    by (simp add: anyUrl_def defaultMethods_def DEFAULT_URL_def str_includes.simps is_prefix_def)
  have "ls_deployMethods (fst (fillOutSettings emptyStorage)) = Some defaultMethods"
    by (simp add: fillOutSettings_def emptyStorage_def Let_def)
  from chosen_method_is_the_active_one [where parseUrl = anyUrl, OF this _ _ u] show ?thesis
    by (auto simp: defaultMethods_def)
qed

text \<open>C18. Saving the dialog without a change keeps the methods, in whatever order the rows appeared: if
  names, addresses and flags are free of white space, closing angle brackets and ampersands and do not begin with a quote, the kinds on offer are free of
  double quotes and ampersands, and every method's kind is among those on offer, then every row is built and saving them stores
  the same methods again, with the flag as a string.\<close>

theorem unchanged_settings_are_kept:
  assumes refs: "refs_begin_with_ampersand charRefs"
    and ms: "methods_ok parseUrl ms" "list_all (row_safe net pageUrl) ms"
    and offered: "list_all (\<lambda>e. case m_deployMethod e of Some sel \<Rightarrow> sel \<in> set (availableMethods net pageUrl (m_url e)) | None \<Rightarrow> False) ms"
  shows "\<exists>rows dd ls'. map (settingsRowFor charRefs net pageUrl) ms = map Some rows \<and> saveSettings parseUrl rows ls = Inr (Inr (dd, ls')) \<and>
    ls_deployMethods ls' = Some (map (\<lambda>e. e\<lparr>m_active := StrFlag (flag_str (m_active e))\<rparr>) ms)"
proof -
  let ?rows = "map (\<lambda>e. the (settingsRowFor charRefs net pageUrl e)) ms" and ?ms = "map (\<lambda>e. e\<lparr>m_active := StrFlag (flag_str (m_active e))\<rparr>) ms"
  have row: "settingsRowFor charRefs net pageUrl e = Some (the (settingsRowFor charRefs net pageUrl e)) \<and>
      rowMethod (the (settingsRowFor charRefs net pageUrl e)) = e\<lparr>m_active := StrFlag (flag_str (m_active e))\<rparr>" if e: "e \<in> set ms" for e
  proof -
    obtain sel where sel: "m_deployMethod e = Some sel" "sel \<in> set (availableMethods net pageUrl (m_url e))"
      using offered e by (auto simp: list_all_iff split: option.splits)
    have "row_safe net pageUrl e" using ms(2) e by (simp add: list_all_iff)
    from settingsRow_safe [OF refs this sel(1)] sel show ?thesis by (auto simp: selected_available)
  qed
  have rows: "map (settingsRowFor charRefs net pageUrl) ms = map Some ?rows" "map rowMethod ?rows = ?ms" using row by simp_all
  have ok: "methods_ok parseUrl ?ms" using ms(1) by (simp add: methods_ok_def list_all_iff comp_def)
  then have "rows_ok parseUrl ?rows" unfolding rows_ok_methods rows(2) .
  with update_total [of "ls\<lparr>ls_deployMethods := Some ?ms\<rparr>", OF _ ok]
  obtain dd ls' where "saveSettings parseUrl ?rows ls = Inr (Inr (dd, ls'))" "ls_deployMethods ls' = Some ?ms"
    unfolding saveSettings_cases rows(2) by auto
  with rows(1) show ?thesis by blast
qed

text \<open>A browser that knows the reference \<open>&amp;\<close>.\<close>

fun ampRefs :: "string \<Rightarrow> string" where
  "ampRefs [] = []"
| "ampRefs (c # cs) = (if is_prefix ''&amp;'' (c # cs) then CHR ''&'' # ampRefs (drop 4 cs) else c # ampRefs cs)"

lemma ampRefs_begin: "refs_begin_with_ampersand ampRefs"
proof -
  have "CHR ''&'' \<notin> set s \<Longrightarrow> ampRefs s = s" for s by (induction s) (auto simp: is_prefix_def)
  then show ?thesis by (simp add: refs_begin_with_ampersand_def)
qed

definition quietNet :: network where
  "quietNet = \<lparr>n_reachable = (\<lambda>_. True), n_direct = (\<lambda>_. None), n_translator = (\<lambda>_. None)\<rparr>"

definition labMethod :: deployMethod where
  "labMethod = \<lparr>m_name = ''lab'', m_url = ''http://lab/'', m_deployMethod = Some HELM, m_active = StrFlag ''false''\<rparr>"

lemma default_kinds_safe: "list_all kind_safe (availableMethods quietNet pageUrl url)"
  by (simp add: availableMethods_def quietNet_def checkUrlSubmissionMethods_def DEFAULT_OPTIONS_def SERVER_def BROWSER_def HELM_def OOD_def
      kind_safe_def kind_breaks_out_def)

theorem unchanged_settings_are_kept_witness:
  "\<exists>rows dd ls'. map (settingsRowFor ampRefs quietNet []) [labMethod] = map Some rows \<and>
     saveSettings anyUrl rows emptyStorage = Inr (Inr (dd, ls')) \<and> ls_deployMethods ls' = Some [labMethod]"
proof -
  have "methods_ok anyUrl [labMethod]"
    by (simp add: methods_ok_def labMethod_def trim_empty_iff is_blank_def is_space_def anyUrl_def str_includes.simps is_prefix_def)
  moreover have "list_all (row_safe quietNet []) [labMethod]"
    by (simp add: row_safe_def default_kinds_safe labMethod_def attribute_safe_def is_space_def is_quote_def flag_str_def)
  ultimately show ?thesis using unchanged_settings_are_kept [OF ampRefs_begin, of anyUrl "[labMethod]" quietNet "[]" emptyStorage]
    by (simp add: labMethod_def availableMethods_def quietNet_def checkUrlSubmissionMethods_def DEFAULT_OPTIONS_def flag_str_def)
qed

text \<open>The initial deploy method is renamed by opening and saving the settings: its name contains a
  space, at which the unquoted attribute of its row ends. A name in quotes loses them.\<close>

theorem default_method_is_renamed:
  assumes "refs_begin_with_ampersand charRefs"
  shows "attribute_value charRefs (m_name (hd defaultMethods)) = Some ''default'' \<and>
    attribute_value charRefs [CHR 0x22, CHR ''l'', CHR ''a'', CHR ''b'', CHR 0x22] = Some ''lab''"
proof -
  have "charRefs ''default'' = ''default''" "charRefs ''lab'' = ''lab''" using assms by (simp_all add: refs_begin_with_ampersand_def)
  then show ?thesis by (simp add: attribute_value_def defaultMethods_def DEFAULT_NAME_def is_space_def is_quote_def breaks_out_def Let_def)
qed

text \<open>A method kind that is no longer on offer is silently replaced: the selection list has no
  marked option, so the browser selects its first one, and saving stores that kind.\<close>

theorem unavailable_kind_is_replaced:
  assumes refs: "refs_begin_with_ampersand charRefs" and e: "row_safe net pageUrl e" "m_deployMethod e = Some sel"
    and gone: "sel \<notin> set (availableMethods net pageUrl (m_url e))"
  shows "\<exists>r. settingsRowFor charRefs net pageUrl e = Some r \<and> m_deployMethod (rowMethod r) = Some (hd (availableMethods net pageUrl (m_url e)))"
proof -
  have "availableMethods net pageUrl (m_url e) \<noteq> []" by (simp add: availableMethods_def DEFAULT_OPTIONS_def Let_def)
  then have "selectedOption (map (\<lambda>m. (m, displayValue m, sel = m)) (availableMethods net pageUrl (m_url e))) =
      Some (hd (availableMethods net pageUrl (m_url e)))" unfolding selected_unavailable [OF gone] by (simp split: list.splits)
  with settingsRow_safe [OF refs e] show ?thesis by auto
qed

end
