(* ===== verification/Main_Deploy.thy ===== *)
theory Main_Deploy
  imports Main_Settings
begin

text \<open>
  Deployment from the translator's page (\<^verbatim>\<open>main.js\<close>): the keyboard shortcuts, \<open>initiateDeploy\<close>, the two
  deployments by REST calls (\<open>directRestDeploy\<close>, \<open>restDeploy\<close>), the address checks of the settings dialog
  and the export functions. An asynchronous function is the list of what it does, in order, and how it
  ends: with a value or with an exception that nothing catches. The answers of the network are an
  argument, a function of the request with its body; \<open>JSON.parse\<close> and the compression library \<open>fflate\<close> are arguments too.
\<close>

section \<open>JSON values\<close>

datatype json = JNull | JBool bool | JNum int | JStr string | JArr "json list" | JObj "(string \<times> json) list"

text \<open>Conversion to a string (\<open>String(x)\<close>, \<open>toString\<close>): an array is joined by commas, with \<open>null\<close> as an empty element.\<close>

fun json_str :: "json \<Rightarrow> string" where
  "json_str JNull = ''null''"
| "json_str (JBool b) = (if b then ''true'' else ''false'')"
| "json_str (JNum n) = int_str n"
| "json_str (JStr s) = s"
| "json_str (JArr xs) = join_with '','' (map (\<lambda>x. if x = JNull then [] else json_str x) xs)"
| "json_str (JObj ps) = ''[object Object]''"

text \<open>\<open>JSON.stringify\<close>.\<close>

definition hexDigit :: "nat \<Rightarrow> char" where
  "hexDigit n = ''0123456789abcdef'' ! n"

definition json_escape :: "char \<Rightarrow> string" where
  "json_escape c =
     (if c = CHR 0x22 \<or> c = CHR 0x5C then [CHR 0x5C, c]
      else if c = CHR 0x08 then [CHR 0x5C, CHR ''b'']
      else if c = CHR 0x09 then [CHR 0x5C, CHR ''t'']
      else if c = CHR 0x0A then [CHR 0x5C, CHR ''n'']
      else if c = CHR 0x0C then [CHR 0x5C, CHR ''f'']
      else if c = CHR 0x0D then [CHR 0x5C, CHR ''r'']
      else if of_char c < (32 :: nat) then [CHR 0x5C, CHR ''u'', CHR ''0'', CHR ''0'', hexDigit (of_char c div 16), hexDigit (of_char c mod 16)]
      else [c])"

definition json_quote :: "string \<Rightarrow> string" where
  "json_quote s = CHR 0x22 # concat (map json_escape s) @ [CHR 0x22]"

fun json_text :: "json \<Rightarrow> string" where
  "json_text JNull = ''null''"
| "json_text (JBool b) = (if b then ''true'' else ''false'')"
| "json_text (JNum n) = int_str n"
| "json_text (JStr s) = json_quote s"
| "json_text (JArr xs) = ''['' @ join_with '','' (map json_text xs) @ '']''"
| "json_text (JObj ps) = ''{'' @ join_with '','' (map (\<lambda>(k, x). json_quote k @ '':'' @ json_text x) ps) @ ''}''"

text \<open>\<open>x.prop\<close> for a property that no built-in object has.\<close>

definition json_prop :: "json \<Rightarrow> string \<Rightarrow> json option result" where
  "json_prop j k = (case j of JNull \<Rightarrow> Inl (TypeError ''null'') | JObj ps \<Rightarrow> Inr (get ps k) | _ \<Rightarrow> Inr None)"

section \<open>Effects\<close>

text \<open>The body of a request: none, the text of a JSON value, bytes, or the fields of a form.\<close>

datatype body = NoBody | TextBody string | BytesBody string | FormBody "(string \<times> string) list"

datatype deployEffect =
    Request string string body
  | Message string "string option"
  | Warning
  | SubmitForm string string
  | OpenWindow string
  | CallSaveSettings
  | ShowSettings
  | ToggleSettings
  | ToggleShortcuts
  | ClickDeploy
  | LogError string
  | DownloadText string string
  | SetIcon urlIcon
  | SettingsMessage string
  | ButtonOnline bool

type_synonym 'a trace = "deployEffect list \<times> 'a result"

definition tbind :: "'a trace \<Rightarrow> ('a \<Rightarrow> 'b trace) \<Rightarrow> 'b trace" where
  "tbind t f = (case snd t of Inl e \<Rightarrow> (fst t, Inl e) | Inr a \<Rightarrow> (fst t @ fst (f a), snd (f a)))"

definition tell :: "deployEffect list \<Rightarrow> unit trace" where
  "tell es = (es, Inr ())"

definition tlift :: "'a result \<Rightarrow> 'a trace" where
  "tlift r = ([], r)"

lemma tbind_simps [simp]:
  "tbind (es, Inl e) f = (es, Inl e)"
  "tbind (es, Inr a) f = (es @ fst (f a), snd (f a))"
  by (simp_all add: tbind_def)

text \<open>An answer: its status, status text and body; a body that is not JSON fails to decode.\<close>

record answer =
  a_ok :: bool
  a_statusText :: string
  a_url :: string
  a_json :: "json option"

type_synonym net = "string \<Rightarrow> string \<Rightarrow> body \<Rightarrow> answer result"

definition handleFetchErrors_main :: "answer \<Rightarrow> answer result" where
  "handleFetchErrors_main response = (if \<not> a_ok response then Inl (Error (a_statusText response)) else Inr response)"

definition errorText :: "js_error \<Rightarrow> string" where
  "errorText e = (case e of
      Error m \<Rightarrow> ''Error: '' @ m | TypeError m \<Rightarrow> ''TypeError: '' @ m | SyntaxError m \<Rightarrow> ''SyntaxError: '' @ m
    | ReferenceError m \<Rightarrow> ''ReferenceError: '' @ m | CycleException \<Rightarrow> ''Error'' | Diverges \<Rightarrow> [])"

definition decodeJson :: "answer \<Rightarrow> json result" where
  "decodeJson response = (case a_json response of Some j \<Rightarrow> Inr j | None \<Rightarrow> Inl (SyntaxError ''JSON''))"

text \<open>\<open>fetch(...).then(handleFetchErrors).then(response => response.json()).catch(show message)\<close>: the value
  is \<open>undefined\<close> after an error.\<close>

definition fetchJson :: "net \<Rightarrow> string \<Rightarrow> string \<Rightarrow> body \<Rightarrow> (js_error \<Rightarrow> deployEffect) \<Rightarrow> json option trace" where
  "fetchJson net verb url body message =
     (case rbind (net verb url body) (\<lambda>a. rbind (handleFetchErrors_main a) decodeJson) of
        Inr j \<Rightarrow> ([Request verb url body], Inr (Some j))
      | Inl e \<Rightarrow> ([Request verb url body, message e], Inr None))"

text \<open>A request without a handler: a network failure ends the caller.\<close>

definition fetchPlain :: "net \<Rightarrow> string \<Rightarrow> string \<Rightarrow> body \<Rightarrow> unit trace" where
  "fetchPlain net verb url body = ([Request verb url body], rbind (net verb url body) (\<lambda>_. Inr ()))"

definition newline :: string where "newline = [CHR 0x0A]"

section \<open>Addresses and names\<close>

fun last_index_of :: "string \<Rightarrow> string \<Rightarrow> nat option" where
  "last_index_of pat [] = (if pat = [] then Some 0 else None)"
| "last_index_of pat (x # xs) =
     (case last_index_of pat xs of
        Some i \<Rightarrow> Some (Suc i)
      | None \<Rightarrow> if is_prefix pat (x # xs) then Some 0 else None)"

text \<open>\<open>pgtName.substring(0, pgtName.lastIndexOf('_pgt.graph'))\<close>.\<close>

definition lgName :: "string \<Rightarrow> string" where
  "lgName pgtName = (case last_index_of ''_pgt.graph'' pgtName of Some i \<Rightarrow> take i pgtName | None \<Rightarrow> [])"

definition stripSlash :: "string \<Rightarrow> string" where
  "stripSlash s = (if s \<noteq> [] \<and> last s = CHR ''/'' then butlast s else s)"

text \<open>The manager's address from the storage. When there is none the settings are opened, and the code
  goes on at once with the missing value, whose string is \<open>null\<close>.\<close>

definition managerUrl :: "(string \<Rightarrow> urlParts option) \<Rightarrow> storage \<Rightarrow> urlParts trace" where
  "managerUrl parseUrl ls =
     tbind (tell (if truthy (ls_manager_url ls) then [] else [CallSaveSettings, ShowSettings])) (\<lambda>_.
       (case parseUrl (case ls_manager_url ls of Some u \<Rightarrow> u | None \<Rightarrow> ''null'') of
          None \<Rightarrow> tlift (Inl (TypeError ''Invalid URL''))
        | Some u \<Rightarrow> tlift (Inr u)))"

text \<open>\<open>nodes.length.toString()\<close>.\<close>

definition nodesLength :: "json option \<Rightarrow> string result" where
  "nodesLength nodes =
     (case nodes of
        Some (JArr ns) \<Rightarrow> Inr (nat_str (length ns))
      | Some (JStr s) \<Rightarrow> Inr (nat_str (length s))
      | Some (JObj ps) \<Rightarrow>
          (case get ps ''length'' of
             None \<Rightarrow> Inl (TypeError ''undefined'')
           | Some j \<Rightarrow> if j = JNull then Inl (TypeError ''null'') else Inr (json_str j))
      | _ \<Rightarrow> Inl (TypeError ''undefined''))"

text \<open>The data of the request for the specification; \<open>pgtId\<close> is the value of the form's field, a property with the value \<open>undefined\<close> is
  left out of the text.\<close>

definition pgSpecRequestData :: "string \<Rightarrow> json option \<Rightarrow> string option \<Rightarrow> json" where
  "pgSpecRequestData managerHost nodes pgtId =
     JObj ([(''manager_host'', JStr managerHost)] @ (case nodes of Some j \<Rightarrow> [(''node_list'', j)] | None \<Rightarrow> []) @
           (case pgtId of Some s \<Rightarrow> [(''pgt_id'', JStr s)] | None \<Rightarrow> []))"

text \<open>The library \<open>fflate\<close>: the bytes of a text (or of \<open>undefined\<close>), and their compression, which is computed and not sent.\<close>

record fflate =
  ff_strToU8 :: "string option \<Rightarrow> string result"
  ff_zlibSync :: "string \<Rightarrow> string result"

text \<open>\<open>JSON.parse(pg_spec_response)\<close> takes the string of its argument; the result is the bytes of the property \<open>pg_spec\<close> and the parsed
  value.\<close>

definition parsePgSpec :: "(string \<Rightarrow> json option) \<Rightarrow> fflate \<Rightarrow> json option \<Rightarrow> (string \<times> json) result" where
  "parsePgSpec parseJson ff response =
     (case parseJson (case response of Some j \<Rightarrow> json_str j | None \<Rightarrow> ''undefined'') of
        None \<Rightarrow> Inl (SyntaxError ''JSON'')
      | Some j \<Rightarrow>
          rbind (json_prop j ''pg_spec'') (\<lambda>spec.
          rbind (ff_strToU8 ff (map_option json_text spec)) (\<lambda>buf.
          rbind (ff_zlibSync ff buf) (\<lambda>_. Inr (buf, j)))))"

text \<open>\<open>new URLSearchParams({completed: ...root_uids})\<close>.\<close>

definition deployForm :: "json \<Rightarrow> body result" where
  "deployForm j =
     rbind (json_prop j ''root_uids'') (\<lambda>roots.
       Inr (FormBody [(''completed'', case roots of Some r \<Rightarrow> json_str r | None \<Rightarrow> ''undefined'')]))"

section \<open>Deployment\<close>

definition sessionIdAt :: "string \<Rightarrow> string \<Rightarrow> string" where
  "sessionIdAt pgtName isoDate = lgName pgtName @ ''-'' @ map (\<lambda>c. if c = CHR '':'' then CHR ''-'' else c) isoDate"

definition directRestDeploy ::
  "(string \<Rightarrow> urlParts option) \<Rightarrow> (string \<Rightarrow> json option) \<Rightarrow> fflate \<Rightarrow> net \<Rightarrow> string \<Rightarrow> string option \<Rightarrow> string \<Rightarrow> storage \<Rightarrow> unit trace" where
  "directRestDeploy parseUrl parseJson ff net pgtName pgtId isoDate ls =
     tbind (managerUrl parseUrl ls) (\<lambda>u.
     let manager_url = stripSlash (u_href u); sessionId = sessionIdAt pgtName isoDate in
     tbind (fetchJson net ''GET'' (manager_url @ ''/api/nodes'') NoBody
              (\<lambda>e. Message (''Error '' @ errorText e @ ''! Getting nodes unsuccessful'') None)) (\<lambda>nodes.
     tbind (tlift (nodesLength nodes)) (\<lambda>n.
     tbind (fetchJson net ''GET'' (''/gen_pg?tpl_nodes_len='' @ n @ ''&pgt_id='' @ pgtName) NoBody
              (\<lambda>e. Message (''Error '' @ errorText e @ newline @ ''Getting PGT unsuccessful: Unable to continue!'') None)) (\<lambda>_.
     tbind (fetchJson net ''POST'' ''/gen_pg_spec'' (TextBody (json_text (pgSpecRequestData (u_hostname u) nodes pgtId)))
              (\<lambda>e. Message ''Error'' (Some (errorText e @ newline @ ''Getting pg_spec unsuccessful: Unable to continue!'')))) (\<lambda>pg_spec_response.
     tbind (fetchJson net ''POST'' (manager_url @ ''/api/sessions'') (TextBody (json_text (JObj [(''sessionId'', JStr sessionId)])))
              (\<lambda>e. Message ''Error'' (Some (errorText e @ newline @ ''Creating session unsuccessful: Unable to continue!'')))) (\<lambda>_.
     tbind (tlift (parsePgSpec parseJson ff pg_spec_response)) (\<lambda>(buf, j).
     tbind (fetchPlain net ''POST'' (manager_url @ ''/api/sessions/'' @ sessionId @ ''/graph/append'') (BytesBody buf)) (\<lambda>_.
     tbind (tlift (deployForm j)) (\<lambda>form.
     tbind (fetchPlain net ''POST'' (manager_url @ ''/api/sessions/'' @ sessionId @ ''/deploy'') form) (\<lambda>_.
       tell [OpenWindow (manager_url @ ''/session?sessionId='' @ sessionId)]))))))))))"

text \<open>\<open>jsonEscape\<close>: each of the three characters becomes two backslashes and a letter.\<close>

definition jsonEscape :: "string \<Rightarrow> string" where
  "jsonEscape str = concat (map (\<lambda>c.
     if c = CHR 0x0A then [CHR 0x5C, CHR 0x5C, CHR ''n'']
     else if c = CHR 0x0D then [CHR 0x5C, CHR 0x5C, CHR ''r'']
     else if c = CHR 0x09 then [CHR 0x5C, CHR 0x5C, CHR ''t'']
     else [c]) str)"

text \<open>\<open>typeof pgt == 'String'\<close> holds of no value, so the answer is never unescaped and parsed again. In an array
  \<open>undefined\<close> is written as \<open>null\<close>.\<close>

definition restDeploy ::
  "(string \<Rightarrow> urlParts option) \<Rightarrow> net \<Rightarrow> string \<Rightarrow> storage \<Rightarrow> unit trace" where
  "restDeploy parseUrl net pgtName ls =
     tbind (managerUrl parseUrl ls) (\<lambda>u.
     tbind (fetchJson net ''GET'' (''/gen_pg?tpl_nodes_len=1&pgt_id='' @ pgtName) NoBody
              (\<lambda>e. Message ''Error'' (Some (errorText e @ newline @ ''Getting PGT unsuccessful: Unable to continue!'')))) (\<lambda>pgt.
       let create_slurm_url = stripSlash (u_href u) @ ''/api/slurm/script'';
           body = TextBody (json_text (JArr [JStr pgtName, case pgt of Some j \<Rightarrow> j | None \<Rightarrow> JNull])) in
       (case rbind (net ''POST'' create_slurm_url body) handleFetchErrors_main of
          Inr response \<Rightarrow> tell [Request ''POST'' create_slurm_url body, OpenWindow (a_url response)]
        | Inl e \<Rightarrow> tell [Request ''POST'' create_slurm_url body,
              Message (''Error '' @ errorText e @ newline @ ''Sending PGT to backend unsuccessful!'') None])))"

text \<open>\<open>initiateDeploy\<close>: the last stored method with the clicked name gives the address; a click on an item
  of the menu chooses that method first.\<close>

definition clickedUrl :: "string \<Rightarrow> deployMethod list \<Rightarrow> string option" where
  "clickedUrl clickedName ms = fold (\<lambda>e u. if m_name e = clickedName then Some (m_url e) else u) ms None"

definition initiateDeploy ::
  "(string \<Rightarrow> urlParts option) \<Rightarrow> (string \<Rightarrow> json option) \<Rightarrow> fflate \<Rightarrow> network \<Rightarrow> net \<Rightarrow> string \<Rightarrow> string option \<Rightarrow> string \<Rightarrow>
   string \<Rightarrow> bool \<Rightarrow> string \<Rightarrow> storage \<Rightarrow> (storage trace)" where
  "initiateDeploy parseUrl parseJson ff network net pgtName pgtId isoDate verb selected clickedName ls =
     tbind (tlift (deref (ls_deployMethods ls))) (\<lambda>ms.
     let url = clickedUrl clickedName ms in
     tbind (tlift (if selected then Inr ls
                   else rbind (changeSelectedDeployMethod parseUrl clickedName ls) (\<lambda>(_, ls'). Inr ls'))) (\<lambda>ls1.
     if \<not> checkUrlStatus network (js_str url) then tbind (tell [Warning]) (\<lambda>_. tlift (Inr ls1))
     else
       tbind (if verb = SERVER then tell [SubmitForm ''pg_form'' ''Generate &amp; Deploy Physical Graph'']
              else if verb = HELM then tell [SubmitForm ''pg_helm_form'' ''Generate &amp; Deploy Physical Graph'']
              else if verb = OOD then restDeploy parseUrl net pgtName ls1
              else if verb = BROWSER then directRestDeploy parseUrl parseJson ff net pgtName pgtId isoDate ls1
              else tell []) (\<lambda>_. tlift (Inr ls1))))"

section \<open>The rest of the page\<close>

record shortcut =
  k_name :: string
  k_shortcut :: string
  k_code :: nat
  k_action :: deployEffect

definition keyboardShortcuts :: "shortcut list" where
  "keyboardShortcuts =
    [\<lparr>k_name = ''Open Settings'', k_shortcut = ''O'', k_code = 79, k_action = ToggleSettings\<rparr>,
     \<lparr>k_name = ''Deploy'', k_shortcut = ''D'', k_code = 75, k_action = ToggleShortcuts\<rparr>,
     \<lparr>k_name = ''Open Keyboardshortcuts Modal'', k_shortcut = ''K'', k_code = 68, k_action = ClickDeploy\<rparr>]"

definition keydown :: "bool \<Rightarrow> nat \<Rightarrow> deployEffect list" where
  "keydown inputFocused which =
     (if inputFocused then [] else map k_action (filter (\<lambda>k. which = k_code k) keyboardShortcuts))"

definition manualCheckUrlStatus :: "(string \<Rightarrow> urlParts option) \<Rightarrow> network \<Rightarrow> string \<Rightarrow> deployEffect list" where
  "manualCheckUrlStatus parseUrl network url =
     (if parseUrl url = None then [SettingsMessage ''Please ensure deploy methods URLs are valid'']
      else [SettingsMessage [], SetIcon (if checkUrlStatus network url then Reachable else NotReachable)])"

definition checkActiveDeployMethod :: "network \<Rightarrow> string \<Rightarrow> deployEffect list" where
  "checkActiveDeployMethod network url = [ButtonOnline (checkUrlStatus network url)]"

definition makeJSON :: "string \<Rightarrow> (nat \<times> string) + string \<Rightarrow> deployEffect list" where
  "makeJSON pgtName response =
     Request ''get'' (''/pgt_jsonbody?pgt_name='' @ pgtName) NoBody #
     (case response of
        Inl (status, statusText) \<Rightarrow>
          [LogError (if status = 404 then ''Server cannot locate physical graph file  '' @ pgtName
                     else ''status: '' @ nat_str status @ '', status text: '' @ statusText)]
      | Inr data \<Rightarrow> [DownloadText pgtName data])"

section \<open>Lemmas\<close>

text \<open>What a request gives the code, and whether it is answered at all.\<close>

definition received :: "net \<Rightarrow> string \<Rightarrow> string \<Rightarrow> body \<Rightarrow> json option" where
  "received net verb url body = (case net verb url body of Inr a \<Rightarrow> if a_ok a then a_json a else None | Inl _ \<Rightarrow> None)"

definition answered :: "net \<Rightarrow> string \<Rightarrow> string \<Rightarrow> body \<Rightarrow> bool" where
  "answered net verb url body \<longleftrightarrow> (case net verb url body of Inr a \<Rightarrow> True | Inl _ \<Rightarrow> False)"

fun isRequest :: "deployEffect \<Rightarrow> bool" where
  "isRequest (Request _ _ _) \<longleftrightarrow> True"
| "isRequest _ \<longleftrightarrow> False"

fun isMessage :: "deployEffect \<Rightarrow> bool" where
  "isMessage (Message _ _) \<longleftrightarrow> True"
| "isMessage _ \<longleftrightarrow> False"

fun gives_nothing :: "net \<Rightarrow> deployEffect \<Rightarrow> bool" where
  "gives_nothing net (Request verb url body) \<longleftrightarrow> received net verb url body = None"
| "gives_nothing net _ \<longleftrightarrow> False"

text \<open>Requests with their messages, each shown when the request gives nothing.\<close>

definition withMessages :: "net \<Rightarrow> (deployEffect \<times> deployEffect) list \<Rightarrow> deployEffect list" where
  "withMessages net ams = concat (map (\<lambda>(a, m). a # (if gives_nothing net a then [m] else [])) ams)"

lemma withMessages_filter:
  assumes "\<forall>(a, m) \<in> set ams. isRequest a \<and> isMessage m"
  shows "filter isRequest (withMessages net ams) = map fst ams" "OpenWindow w \<notin> set (withMessages net ams)"
    "length (filter isMessage (withMessages net ams)) = length (filter (gives_nothing net) (map fst ams))"
proof -
  have kinds: "isRequest a \<Longrightarrow> \<not> isMessage a" "isMessage m \<Longrightarrow> \<not> isRequest m" "\<not> isRequest (OpenWindow w)" "\<not> isMessage (OpenWindow w)" for a m w
    by (cases a; simp) (cases m; simp)+
  show "filter isRequest (withMessages net ams) = map fst ams" "OpenWindow w \<notin> set (withMessages net ams)"
    "length (filter isMessage (withMessages net ams)) = length (filter (gives_nothing net) (map fst ams))"
    using assms by (induction ams) (auto simp: withMessages_def kinds)
qed

lemma fetchJson_one:
  "\<exists>e. fetchJson net verb url body msg = (withMessages net [(Request verb url body, msg e)], Inr (received net verb url body))"
  by (cases "net verb url body")
    (auto simp: fetchJson_def withMessages_def received_def handleFetchErrors_main_def decodeJson_def split: option.splits)

lemma fetchPlain_parts:
  "\<exists>e. fetchPlain net verb url body = ([Request verb url body], if answered net verb url body then Inr () else Inl e)"
  by (auto simp: fetchPlain_def answered_def split: sum.splits)

lemma managerUrl_ok:
  assumes "ls_manager_url ls = Some murl" "murl \<noteq> []" "parseUrl murl = Some u"
  shows "managerUrl parseUrl ls = ([], Inr u)"
  using assms by (simp add: managerUrl_def tell_def tlift_def truthy_def)

text \<open>The requests of a direct deployment to a manager.\<close>

definition nodesRequest :: "string \<Rightarrow> deployEffect" where
  "nodesRequest mgr = Request ''GET'' (mgr @ ''/api/nodes'') NoBody"

definition pgtRequest :: "string \<Rightarrow> string \<Rightarrow> deployEffect" where
  "pgtRequest n pgtName = Request ''GET'' (''/gen_pg?tpl_nodes_len='' @ n @ ''&pgt_id='' @ pgtName) NoBody"

definition specBody :: "string \<Rightarrow> json option \<Rightarrow> string option \<Rightarrow> body" where
  "specBody host nodes pgtId = TextBody (json_text (pgSpecRequestData host nodes pgtId))"

definition createRequest :: "string \<Rightarrow> string \<Rightarrow> deployEffect" where
  "createRequest mgr sid = Request ''POST'' (mgr @ ''/api/sessions'') (TextBody (json_text (JObj [(''sessionId'', JStr sid)])))"

definition appendUrl :: "string \<Rightarrow> string \<Rightarrow> string" where
  "appendUrl mgr sid = mgr @ ''/api/sessions/'' @ sid @ ''/graph/append''"

definition deployUrl :: "string \<Rightarrow> string \<Rightarrow> string" where
  "deployUrl mgr sid = mgr @ ''/api/sessions/'' @ sid @ ''/deploy''"

text \<open>The last two requests, and whether both succeed.\<close>

definition lastRequests :: "net \<Rightarrow> string \<Rightarrow> string \<Rightarrow> string \<times> json \<Rightarrow> deployEffect list" where
  "lastRequests net mgr sid graph =
     Request ''POST'' (appendUrl mgr sid) (BytesBody (fst graph)) #
     (if answered net ''POST'' (appendUrl mgr sid) (BytesBody (fst graph))
      then (case deployForm (snd graph) of Inr form \<Rightarrow> [Request ''POST'' (deployUrl mgr sid) form] | Inl _ \<Rightarrow> []) else [])"

definition lastAnswered :: "net \<Rightarrow> string \<Rightarrow> string \<Rightarrow> string \<times> json \<Rightarrow> bool" where
  "lastAnswered net mgr sid graph \<longleftrightarrow> answered net ''POST'' (appendUrl mgr sid) (BytesBody (fst graph)) \<and>
     (\<exists>form. deployForm (snd graph) = Inr form \<and> answered net ''POST'' (deployUrl mgr sid) form)"

text \<open>The part of the deployment after the specification has been read.\<close>

definition lastSteps :: "net \<Rightarrow> string \<Rightarrow> string \<Rightarrow> string \<times> json \<Rightarrow> unit trace" where
  "lastSteps net mgr sid graph =
     tbind (fetchPlain net ''POST'' (appendUrl mgr sid) (BytesBody (fst graph))) (\<lambda>_.
     tbind (tlift (deployForm (snd graph))) (\<lambda>form.
     tbind (fetchPlain net ''POST'' (deployUrl mgr sid) form) (\<lambda>_.
       tell [OpenWindow (mgr @ ''/session?sessionId='' @ sid)])))"

lemma lastSteps_parts:
  "\<exists>e. lastSteps net mgr sid graph = (lastRequests net mgr sid graph @ (if lastAnswered net mgr sid graph
       then [OpenWindow (mgr @ ''/session?sessionId='' @ sid)] else []), if lastAnswered net mgr sid graph then Inr () else Inl e)"
proof -
  obtain e where a: "fetchPlain net ''POST'' (appendUrl mgr sid) (BytesBody (fst graph)) = ([Request ''POST'' (appendUrl mgr sid) (BytesBody (fst graph))],
      if answered net ''POST'' (appendUrl mgr sid) (BytesBody (fst graph)) then Inr () else Inl e)" using fetchPlain_parts by blast
  show ?thesis
  proof (cases "deployForm (snd graph)")
    case (Inl x)
    then show ?thesis by (auto simp: lastSteps_def a lastRequests_def lastAnswered_def tlift_def)
  next
    case (Inr form)
    obtain e' where "fetchPlain net ''POST'' (deployUrl mgr sid) form = ([Request ''POST'' (deployUrl mgr sid) form],
      if answered net ''POST'' (deployUrl mgr sid) form then Inr () else Inl e')" using fetchPlain_parts by blast
    with Inr show ?thesis by (auto simp: lastSteps_def a lastRequests_def lastAnswered_def tlift_def tell_def)
  qed
qed

lemma isRequest_Request: "isRequest (Request verb url body)"
  by (simp only: isRequest.simps)

lemma lastRequests_isRequest: "list_all isRequest (lastRequests net mgr sid graph)"
  unfolding lastRequests_def
  by (cases "deployForm (snd graph)"; cases "answered net ''POST'' (appendUrl mgr sid) (BytesBody (fst graph))";
      simp only: if_True if_False sum.case list.pred_inject isRequest_Request simp_thms)

lemma lastRequests_filter [simp]:
  "filter isRequest (lastRequests net mgr sid graph) = lastRequests net mgr sid graph"
  "filter isMessage (lastRequests net mgr sid graph) = []" "OpenWindow w \<notin> set (lastRequests net mgr sid graph)"
proof -
  have R: "isRequest x" if "x \<in> set (lastRequests net mgr sid graph)" for x
    using lastRequests_isRequest [of net mgr sid graph] that by (auto simp: list_all_iff)
  show "filter isRequest (lastRequests net mgr sid graph) = lastRequests net mgr sid graph" using R by (intro filter_True) blast
  have "\<not> isMessage x" if "isRequest x" for x using that by (cases x) simp_all
  then show "filter isMessage (lastRequests net mgr sid graph) = []" using R by (intro filter_False) blast
  show "OpenWindow w \<notin> set (lastRequests net mgr sid graph)" using R [of "OpenWindow w"] by auto
qed

text \<open>A direct deployment on every course of the network.\<close>

lemma directRestDeploy_trace:
  assumes murl: "ls_manager_url ls = Some murl" "murl \<noteq> []" "parseUrl murl = Some u"
    and mgr: "mgr = stripSlash (u_href u)" and sid: "sid = sessionIdAt pgtName isoDate"
    and nodes: "nodes = received net ''GET'' (mgr @ ''/api/nodes'') NoBody"
    and spec: "spec = received net ''POST'' ''/gen_pg_spec'' (specBody (u_hostname u) nodes pgtId)"
    and run: "directRestDeploy parseUrl parseJson ff net pgtName pgtId isoDate ls = (es, r)"
  shows "filter isRequest es = nodesRequest mgr #
      (case nodesLength nodes of Inl _ \<Rightarrow> []
       | Inr n \<Rightarrow> [pgtRequest n pgtName, Request ''POST'' ''/gen_pg_spec'' (specBody (u_hostname u) nodes pgtId), createRequest mgr sid] @
           (case parsePgSpec parseJson ff spec of Inl _ \<Rightarrow> [] | Inr graph \<Rightarrow> lastRequests net mgr sid graph))"
    and "r = Inr () \<longleftrightarrow> (\<exists>n graph. nodesLength nodes = Inr n \<and> parsePgSpec parseJson ff spec = Inr graph \<and> lastAnswered net mgr sid graph)"
    and "OpenWindow w \<in> set es \<longleftrightarrow> r = Inr () \<and> w = mgr @ ''/session?sessionId='' @ sid"
    and "length (filter isMessage es) = length (filter (gives_nothing net) (take 4 (filter isRequest es)))"
proof -
  let ?m1 = "\<lambda>e. Message (''Error '' @ errorText e @ ''! Getting nodes unsuccessful'') None"
    and ?m2 = "\<lambda>e. Message (''Error '' @ errorText e @ newline @ ''Getting PGT unsuccessful: Unable to continue!'') None"
    and ?m3 = "\<lambda>e. Message ''Error'' (Some (errorText e @ newline @ ''Getting pg_spec unsuccessful: Unable to continue!''))"
    and ?m4 = "\<lambda>e. Message ''Error'' (Some (errorText e @ newline @ ''Creating session unsuccessful: Unable to continue!''))"
  define sb where "sb = TextBody (json_text (JObj [(''sessionId'', JStr sid)]))"
  let ?spec = "Request ''POST'' ''/gen_pg_spec'' (specBody (u_hostname u) nodes pgtId)"
  obtain e1 where f1: "fetchJson net ''GET'' (mgr @ ''/api/nodes'') NoBody ?m1 = (withMessages net [(nodesRequest mgr, ?m1 e1)], Inr nodes)"
    using fetchJson_one [of net "''GET''" "mgr @ ''/api/nodes''" NoBody ?m1] unfolding nodesRequest_def nodes by blast
  obtain e3 where f3: "fetchJson net ''POST'' ''/gen_pg_spec'' (specBody (u_hostname u) nodes pgtId) ?m3 = (withMessages net [(?spec, ?m3 e3)], Inr spec)"
    using fetchJson_one [of net "''POST''" "''/gen_pg_spec''" "specBody (u_hostname u) nodes pgtId" ?m3] unfolding spec by blast
  obtain e4 where f4: "fetchJson net ''POST'' (mgr @ ''/api/sessions'') sb ?m4 =
      (withMessages net [(createRequest mgr sid, ?m4 e4)], Inr (received net ''POST'' (mgr @ ''/api/sessions'') sb))"
    using fetchJson_one [of net "''POST''" "mgr @ ''/api/sessions''" sb ?m4] unfolding createRequest_def sb_def by blast
  note steps = directRestDeploy_def managerUrl_ok [where parseUrl = parseUrl, OF murl] Let_def tbind_simps mgr [symmetric] sid [symmetric]
    specBody_def [symmetric] sb_def [symmetric] f1 f3 f4 append_Nil fst_conv snd_conv tlift_def prod.collapse
  have isr: "isRequest (nodesRequest mgr)" "isRequest (createRequest mgr sid)" "isRequest (pgtRequest n pgtName)" for n
    unfolding nodesRequest_def createRequest_def pgtRequest_def by (rule isRequest.simps(1) [THEN iffD2], rule TrueI)+
  have goal: "filter isRequest es = nodesRequest mgr #
      (case nodesLength nodes of Inl _ \<Rightarrow> []
       | Inr n \<Rightarrow> [pgtRequest n pgtName, ?spec, createRequest mgr sid] @
           (case parsePgSpec parseJson ff spec of Inl _ \<Rightarrow> [] | Inr graph \<Rightarrow> lastRequests net mgr sid graph)) \<and>
    (r = Inr () \<longleftrightarrow> (\<exists>n graph. nodesLength nodes = Inr n \<and> parsePgSpec parseJson ff spec = Inr graph \<and> lastAnswered net mgr sid graph)) \<and>
    (OpenWindow w \<in> set es \<longleftrightarrow> r = Inr () \<and> w = mgr @ ''/session?sessionId='' @ sid) \<and>
    length (filter isMessage es) = length (filter (gives_nothing net) (take 4 (filter isRequest es)))"
  proof (cases "nodesLength nodes")
    case (Inl x)
    have "directRestDeploy parseUrl parseJson ff net pgtName pgtId isoDate ls = (withMessages net [(nodesRequest mgr, ?m1 e1)], Inl x)"
      by (simp only: steps Inl append_Nil2)
    then have es: "es = withMessages net [(nodesRequest mgr, ?m1 e1)]" "r = Inl x" using run by simp_all
    have "\<forall>(a, m) \<in> set [(nodesRequest mgr, ?m1 e1)]. isRequest a \<and> isMessage m" using isr by simp
    from withMessages_filter [OF this, where net = net] show ?thesis unfolding es using Inl by simp
  next
    case (Inr n)
    obtain e2 v2 where f2: "fetchJson net ''GET'' (''/gen_pg?tpl_nodes_len='' @ n @ ''&pgt_id='' @ pgtName) NoBody ?m2 = (withMessages net [(pgtRequest n pgtName, ?m2 e2)], Inr v2)"
      using fetchJson_one [of net "''GET''" "''/gen_pg?tpl_nodes_len='' @ n @ ''&pgt_id='' @ pgtName" NoBody ?m2] unfolding pgtRequest_def by blast
    define ams where "ams = [(nodesRequest mgr, ?m1 e1), (pgtRequest n pgtName, ?m2 e2), (?spec, ?m3 e3), (createRequest mgr sid, ?m4 e4)]"
    have "\<forall>(a, m) \<in> set ams. isRequest a \<and> isMessage m" unfolding ams_def using isr by simp
    note front = withMessages_filter [OF this, where net = net]
    have fst: "map fst ams = [nodesRequest mgr, pgtRequest n pgtName, ?spec, createRequest mgr sid]" by (simp add: ams_def)
    have all: "directRestDeploy parseUrl parseJson ff net pgtName pgtId isoDate ls =
        (withMessages net ams @ fst (tbind (tlift (parsePgSpec parseJson ff spec)) (lastSteps net mgr sid)), snd (tbind (tlift (parsePgSpec parseJson ff spec)) (lastSteps net mgr sid)))"
      by (simp only: steps Inr f2 append_assoc ams_def withMessages_def list.map concat.simps append_Nil2 lastSteps_def [abs_def] appendUrl_def deployUrl_def case_prod_unfold)
    show ?thesis
    proof (cases "parsePgSpec parseJson ff spec")
      case bad: (Inl x)
      have es: "es = withMessages net ams" "r = Inl x" using run all bad by (simp_all add: tlift_def)
      show ?thesis unfolding es front fst using front(2) Inr bad by simp
    next
      case good: (Inr graph)
      obtain e where l: "lastSteps net mgr sid graph = (lastRequests net mgr sid graph @ (if lastAnswered net mgr sid graph
         then [OpenWindow (mgr @ ''/session?sessionId='' @ sid)] else []), if lastAnswered net mgr sid graph then Inr () else Inl e)" using lastSteps_parts by blast
      have es: "es = withMessages net ams @ lastRequests net mgr sid graph @ (if lastAnswered net mgr sid graph then [OpenWindow (mgr @ ''/session?sessionId='' @ sid)] else [])"
        "r = (if lastAnswered net mgr sid graph then Inr () else Inl e)"
        using run all good l by (simp_all only: tlift_def tbind_simps prod.inject fst_conv snd_conv append_Nil)
      show ?thesis unfolding es filter_append front fst set_append length_append using front(2) Inr good by simp
    qed
  qed
  then show "filter isRequest es = nodesRequest mgr #
      (case nodesLength nodes of Inl _ \<Rightarrow> []
       | Inr n \<Rightarrow> [pgtRequest n pgtName, ?spec, createRequest mgr sid] @
           (case parsePgSpec parseJson ff spec of Inl _ \<Rightarrow> [] | Inr graph \<Rightarrow> lastRequests net mgr sid graph))"
    "r = Inr () \<longleftrightarrow> (\<exists>n graph. nodesLength nodes = Inr n \<and> parsePgSpec parseJson ff spec = Inr graph \<and> lastAnswered net mgr sid graph)"
    "OpenWindow w \<in> set es \<longleftrightarrow> r = Inr () \<and> w = mgr @ ''/session?sessionId='' @ sid"
    "length (filter isMessage es) = length (filter (gives_nothing net) (take 4 (filter isRequest es)))" by blast+
qed

lemma clickedUrl_unique:
  assumes "distinct (map m_name ms)" "e \<in> set ms"
  shows "clickedUrl (m_name e) ms = Some (m_url e)"
proof -
  have skip: "fold (\<lambda>x u. if m_name x = n then Some (m_url x) else u) xs u = u" if "n \<notin> m_name ` set xs" for xs u n
    using that by (induction xs arbitrary: u) auto
  show ?thesis using assms
  proof (induction ms)
    case (Cons x ms)
    show ?case
    proof (cases "x = e")
      case True
      with Cons.prems(1) show ?thesis by (simp add: clickedUrl_def skip)
    next
      case False
      with Cons.prems have "m_name x \<noteq> m_name e" "e \<in> set ms" by (auto simp: image_iff)
      with Cons show ?thesis by (simp add: clickedUrl_def)
    qed
  qed simp
qed

lemma tbind_starts: "fst t = x # es \<Longrightarrow> \<exists>es'. fst (tbind t f) = x # es'"
  by (simp add: tbind_def split: sum.splits)

lemma tbind_fetchJson: "\<exists>es. fst (tbind (fetchJson net verb url body msg) f) = Request verb url body # es"
proof -
  have "\<exists>es. fst (fetchJson net verb url body msg) = Request verb url body # es"
    by (simp add: fetchJson_def split: sum.splits)
  then show ?thesis using tbind_starts by blast
qed

section \<open>Properties\<close>











text \<open>A deployment from the menu goes to the method that was clicked: the method is chosen first, and
  if its address answers, a direct deployment asks that manager for its nodes.\<close>

theorem menu_deployment_uses_clicked_manager:
  assumes "ls_deployMethods ls = Some ms" "distinct (map m_name ms)" "e \<in> set ms"
    and "parseUrl (m_url e) = Some u" "u_href u \<noteq> []" "parseUrl (u_href u) = Some u"
    and "n_reachable network (m_url e @ ''api'')"
  shows "\<exists>es. fst (initiateDeploy parseUrl parseJson ff network net pgtName pgtId isoDate BROWSER False (m_name e) ls) =
    nodesRequest (stripSlash (u_href u)) # es"
proof -
  obtain dd ls' where ls': "changeSelectedDeployMethod parseUrl (m_name e) ls = Inr (dd, ls')" "ls_manager_url ls' = Some (u_href u)"
    using changeSelected_stores [OF assms(1-3), of parseUrl u] assms(4) by blast
  have url: "clickedUrl (m_name e) ms = Some (m_url e)" by (rule clickedUrl_unique [OF assms(2,3)])
  have "managerUrl parseUrl ls' = ([], Inr u)" using managerUrl_ok [where parseUrl = parseUrl, OF ls'(2) assms(5,6)] .
  then have "\<exists>es. fst (directRestDeploy parseUrl parseJson ff net pgtName pgtId isoDate ls') = nodesRequest (stripSlash (u_href u)) # es"
    unfolding directRestDeploy_def Let_def nodesRequest_def
    by (simp only: tbind_simps fst_conv append_Nil tbind_fetchJson)
  moreover have "initiateDeploy parseUrl parseJson ff network net pgtName pgtId isoDate BROWSER False (m_name e) ls =
      tbind (directRestDeploy parseUrl parseJson ff net pgtName pgtId isoDate ls') (\<lambda>_. ([], Inr ls'))"
    unfolding initiateDeploy_def assms(1) tlift_def deref_simps tbind_simps Let_def url ls'(1)
    by (simp add: checkUrlStatus_def assms(7) BROWSER_def SERVER_def HELM_def OOD_def)
  ultimately show ?thesis using tbind_starts by metis
qed

text \<open>Nothing is deployed to an address that does not answer: the only effect is the warning, and the
  storage changes only by the choice of the method.\<close>

theorem unreachable_manager_is_not_deployed_to:
  assumes "ls_deployMethods ls = Some ms" "\<not> n_reachable network (js_str (clickedUrl clickedName ms) @ ''api'')"
  shows "fst (initiateDeploy parseUrl parseJson ff network net pgtName pgtId isoDate verb selected clickedName ls) \<in> {[], [Warning]}"
  using assms
  by (auto simp: initiateDeploy_def tlift_def tell_def checkUrlStatus_def tbind_def Let_def split: sum.splits)

text \<open>A direct deployment does not stop when the session could not be created, although it says that
  it is unable to continue: the graph is appended all the same, and deployed if that is answered.\<close>

theorem deployment_continues_without_session:
  assumes "ls_manager_url ls = Some murl" "murl \<noteq> []" "parseUrl murl = Some u"
    and "mgr = stripSlash (u_href u)" and "sid = sessionIdAt pgtName isoDate"
    and "nodes = received net ''GET'' (mgr @ ''/api/nodes'') NoBody"
    and "spec = received net ''POST'' ''/gen_pg_spec'' (specBody (u_hostname u) nodes pgtId)"
    and run: "directRestDeploy parseUrl parseJson ff net pgtName pgtId isoDate ls = (es, r)"
    and "nodesLength nodes = Inr n" "parsePgSpec parseJson ff spec = Inr graph"
    and "gives_nothing net (createRequest mgr sid)" "lastAnswered net mgr sid graph"
  shows "r = Inr ()" "set (lastRequests net mgr sid graph) \<subseteq> set es" "filter isMessage es \<noteq> []"
proof -
  note all = directRestDeploy_trace [where parseUrl = parseUrl and parseJson = parseJson and ff = ff and net = net and r = r and es = es, OF assms(1-8)]
  show "r = Inr ()" using all(2) assms(9,10,12) by blast
  have rq: "filter isRequest es = nodesRequest mgr # [pgtRequest n pgtName, Request ''POST'' ''/gen_pg_spec'' (specBody (u_hostname u) nodes pgtId),
      createRequest mgr sid] @ lastRequests net mgr sid graph"
    by (simp only: all(1) assms(9,10) sum.case)
  then have "set (lastRequests net mgr sid graph) \<subseteq> set (filter isRequest es)" by (simp only: set_append set_simps) blast
  then show "set (lastRequests net mgr sid graph) \<subseteq> set es" by auto
  have "createRequest mgr sid \<in> set (take 4 (filter isRequest es))" by (simp add: rq)
  then have "filter (gives_nothing net) (take 4 (filter isRequest es)) \<noteq> []" using assms(11) by (auto simp: filter_empty_conv)
  then show "filter isMessage es \<noteq> []" using all(4) by fastforce
qed

end
