(* ===== verification/Graph_Init.thy ===== *)
theory Graph_Init
  imports Dm_Graph Complex_Main
begin

text \<open>
  The graph view of the translator's page (\<^verbatim>\<open>graph_init.js\<close>, and the same preparation of data in
  \<^verbatim>\<open>src/data_prep.js\<close>): the choice of the view (\<open>graphInit\<close>), the drawing as a graphlib graph
  (\<open>drawGraphForDrops\<close>, \<open>_addNode\<close>), the data of the Sankey view (\<open>echartsGraphInit\<close>, \<open>graphSetup\<close>) and the
  scale of \<open>zoomFit\<close>. The functions that share their names with those of \<^verbatim>\<open>dm.js\<close> carry the suffix \<open>_pgt\<close>
  (physical graph template). Numbers that JavaScript computes in floating point are reals here; the
  libraries that draw (dagre-d3, echarts) are not part of the model.
\<close>

section \<open>Data\<close>

record pgtNode =
  n_key :: int
  n_oid :: "string option"
  n_name :: "string option"
  n_category :: "string option"
  n_iid :: "string option"
  n_group :: "string option"
  n_isGroup :: bool

record pgtLink =
  l_from :: int
  l_to :: int

record pgtData =
  nodeDataArray :: "pgtNode list"
  linkDataArray :: "pgtLink list"

section \<open>The choice of the view\<close>

datatype viewEffect =
    EmptyMain
  | ShowSankey
  | ShowDag
  | ActivateButton string
  | HideViewButtons
  | ShowViewButtons
  | ShowMessageModal string string

definition chosenType :: "string \<Rightarrow> nat \<Rightarrow> string" where
  "chosenType graphType count =
     (if graphType = ''default'' then (if count < 100 then ''dag'' else ''sankey'') else graphType)"

text \<open>The answer is an error (status and text) or the data; \<open>error\<close> is a variable of the page.\<close>

definition graphInit :: "string \<Rightarrow> string \<Rightarrow> string \<Rightarrow> (int \<times> string) + pgtData \<Rightarrow> viewEffect list" where
  "graphInit pgtName error graphType response =
     (case response of
        Inl (status, statusText) \<Rightarrow>
          if status = 404 then [ShowMessageModal ''Error'' (''Server cannot locate physical graph file: '' @ pgtName)]
          else [ShowMessageModal ''Error'' (''status:'' @ int_str status @ '', status text: '' @ statusText)]
      | Inr data \<Rightarrow>
          let count = length (nodeDataArray data);
              graphType' = chosenType graphType count
          in [EmptyMain] @
             (if graphType' = ''sankey'' then [ShowSankey] else if graphType' = ''dag'' then [ShowDag] else []) @
             [ActivateButton (graphType' @ ''Button'')] @
             [if count > 600 then HideViewButtons else ShowViewButtons] @
             (if error \<noteq> ''None'' then [ShowMessageModal ''Error'' error] else []))"

section \<open>The drawing\<close>

definition TYPE_SHAPES_pgt :: "string obj" where
  "TYPE_SHAPES_pgt = [(''Component'', ''rect''), (''Data'', ''parallelogram'')]"

definition nodeLabel_pgt :: "pgtNode \<Rightarrow> nodeLabel result" where
  "nodeLabel_pgt nd =
     rbind (deref (n_oid nd)) (\<lambda>oid.
       let typeShape = (case n_category nd of Some c \<Rightarrow> get TYPE_SHAPES_pgt c | None \<Rightarrow> None);
           key = int_str (n_key nd);
           human_readable_id = hd (split_on CHR ''_'' oid) @ ''_'' @ key @ ''_'' @ js_str (n_iid nd);
           html = ''<div class=\"drop-label '' @ js_str typeShape @ ''\" id=\"id_'' @ key @ ''\">'' @
             ''<span class=\"notes\">'' @ js_str (n_name nd) @ ''</span>'' @
             ''<span style=\"font-size: 13px;\">'' @ human_readable_id @ ''</span>'' @ ''</div>''
       in Inr \<lparr>nl_labelType = ''html'', nl_label = html, nl_rx = 5, nl_ry = 5, nl_padding = 0,
               nl_class = n_category nd, nl_shape = typeShape\<rparr>)"

text \<open>\<open>_addNode\<close> asks \<open>g.hasNode(g)\<close>, the node whose id is the string of the graph object.\<close>

definition addNode_pgt :: "pgtNode \<Rightarrow> 'g dropGraph \<Rightarrow> (bool \<times> 'g dropGraph) result" where
  "addNode_pgt nd g =
     (if hasNode ''[object Object]'' g then Inr (False, g)
      else rbind (nodeLabel_pgt nd) (\<lambda>label.
           rbind (setNode (int_str (n_key nd)) (Some (Some label)) g) (\<lambda>g'. Inr (True, g'))))"

definition linkEdge_pgt :: "pgtNode list \<Rightarrow> pgtLink \<Rightarrow> 'g dropGraph \<Rightarrow> 'g dropGraph result" where
  "linkEdge_pgt dict link g =
     rbind (deref (find (\<lambda>n. n_key n = l_from link) dict)) (\<lambda>f.
     rbind (deref (find (\<lambda>n. n_key n = l_to link) dict)) (\<lambda>t.
       setEdge (int_str (n_key f)) (int_str (n_key t)) (Some (Some \<lparr>el_width = 40\<rparr>)) None g))"

text \<open>Nodes without an id are skipped; the dictionary maps a key to the last node that has it. The flag
  says whether the graph was drawn; the view is fitted in any case.\<close>

definition drawGraphForDrops_pgt :: "pgtData \<Rightarrow> 'g dropGraph \<Rightarrow> (bool \<times> 'g dropGraph) result" where
  "drawGraphForDrops_pgt data g =
     (let drops = filter (\<lambda>n. truthy (n_oid n)) (nodeDataArray data) in
      rbind (rfold (track addNode_pgt) drops (False, g)) (\<lambda>(modified, g1).
      rbind (rfold (linkEdge_pgt (rev drops)) (linkDataArray data) g1) (\<lambda>g2. Inr (modified, g2))))"

section \<open>The Sankey view\<close>

record sankeyNode =
  k_label :: string
  k_group :: string
  k_color :: "string option"
  k_symbol :: "string option"

record sankeyPart =
  pt_name :: string
  pt_color :: string

record sankeyLink =
  sl_source :: "string option"
  sl_target :: "string option"
  sl_value :: int

record sankeyData =
  g_nodes :: "sankeyNode list"
  g_links :: "sankeyLink list"
  g_parts :: "sankeyPart list"

definition nodeCatgColors :: "string obj" where
  "nodeCatgColors = [(''Data'', ''#9ab4d0''), (''Component'', ''#7f9cbb'')]"

definition nodeCatgShape :: "string obj" where
  "nodeCatgShape = [(''Data'', ''path://M 300 100 L 1000 100 L 800 200 L 100 200 z''), (''Component'', ''rect'')]"

text \<open>The label shown for a node, which is also the key of the links.\<close>

definition sankeyName :: "pgtNode \<Rightarrow> string" where
  "sankeyName n = js_str (n_name n) @ ''-'' @ int_str (n_key n)"

definition hex_digit :: "nat \<Rightarrow> char" where
  "hex_digit d = ''0123456789abcdef'' ! (d mod 16)"

fun hex_str :: "nat \<Rightarrow> string" where
  "hex_str n = (if n < 16 then [hex_digit n] else hex_str (n div 16) @ [hex_digit n])"

declare hex_str.simps [simp del]

text \<open>\<open>Math.floor((256 ** (ind / (numGroups / 3)) - 1) * spread)\<close>.\<close>

definition icol :: "nat \<Rightarrow> nat \<Rightarrow> nat" where
  "icol numGroups ind =
     (let spread = 255 / real_of_int \<lceil>real numGroups / 3\<rceil>
      in nat \<lfloor>(256 powr (real ind / (real numGroups / 3)) - 1) * spread\<rfloor>)"

definition partColor :: "nat \<Rightarrow> nat \<Rightarrow> string" where
  "partColor numGroups ind =
     (let s = hex_str (icol numGroups ind) in ''#'' @ replicate (6 - length s) CHR ''0'' @ s)"

definition sankeyParts :: "pgtNode list \<Rightarrow> sankeyPart list" where
  "sankeyParts ns =
     (let groups = filter n_isGroup ns in
      map2 (\<lambda>i n. \<lparr>pt_name = int_str (n_key n), pt_color = partColor (length groups) i\<rparr>) [0..<length groups] groups)"

text \<open>The colour of the label is the colour of the first part with the name of the node's group;
  \<open>element.group.toString()\<close> throws without a group.\<close>

definition sankeyNodeOf :: "sankeyPart list \<Rightarrow> pgtNode \<Rightarrow> sankeyNode result" where
  "sankeyNodeOf parts n =
     rbind (deref (n_group n)) (\<lambda>group.
       Inr \<lparr>k_label = sankeyName n,
            k_group = (case find (\<lambda>p. pt_name p = group) parts of Some p \<Rightarrow> pt_color p | None \<Rightarrow> ''black''),
            k_color = (case n_category n of Some c \<Rightarrow> get nodeCatgColors c | None \<Rightarrow> None),
            k_symbol = (case n_category n of Some c \<Rightarrow> get nodeCatgShape c | None \<Rightarrow> None)\<rparr>)"

definition sankeyKey :: "pgtNode list \<Rightarrow> int \<Rightarrow> string option" where
  "sankeyKey ns key = map_option sankeyName (find (\<lambda>n. n_key n = key) (rev (filter (\<lambda>n. \<not> n_isGroup n) ns)))"

fun rmap :: "('a \<Rightarrow> 'b result) \<Rightarrow> 'a list \<Rightarrow> 'b list result" where
  "rmap f [] = Inr []"
| "rmap f (x # xs) = rbind (f x) (\<lambda>y. rbind (rmap f xs) (\<lambda>ys. Inr (y # ys)))"

definition echartsGraphInit :: "pgtData \<Rightarrow> sankeyData result" where
  "echartsGraphInit data =
     (let ns = nodeDataArray data; parts = sankeyParts ns in
      rbind (rmap (sankeyNodeOf parts) (filter (\<lambda>n. \<not> n_isGroup n) ns)) (\<lambda>sn.
        Inr \<lparr>g_nodes = sn,
             g_links = map (\<lambda>l. \<lparr>sl_source = sankeyKey ns (l_from l), sl_target = sankeyKey ns (l_to l), sl_value = 20\<rparr>)
                         (linkDataArray data),
             g_parts = parts\<rparr>))"

definition graphSetup_labels :: "sankeyData \<Rightarrow> bool" where
  "graphSetup_labels graphData = (if length (g_nodes graphData) > 350 then False else True)"

section \<open>Fitting the view\<close>

text \<open>The scale of \<open>zoomFit\<close> and the translation, from the size of the page and of the drawing.\<close>

definition initialScale :: "real \<Rightarrow> real \<Rightarrow> real \<Rightarrow> real \<Rightarrow> real" where
  "initialScale fullWidth fullHeight width height =
     (let widthScale = (fullWidth - 80) / width; heightScale = (fullHeight - 200) / height
      in if heightScale < widthScale then heightScale else widthScale)"

definition zoomFit :: "real \<Rightarrow> real \<Rightarrow> real \<Rightarrow> real \<Rightarrow> real \<times> real \<times> real" where
  "zoomFit fullWidth fullHeight width height =
     (let s = initialScale fullWidth fullHeight width height
      in ((fullWidth - width * s) / 2, ((fullHeight - 80) - height * s) / 2, s))"

section \<open>The data of src/data\_prep.js\<close>

definition dataPrep :: "pgtData \<Rightarrow> string list \<times> (string \<times> string \<times> int) list \<times> bool" where
  "dataPrep data =
     (let names = map (\<lambda>n. int_str (n_key n)) (filter (\<lambda>n. \<not> n_isGroup n) (nodeDataArray data))
      in (names, map (\<lambda>l. (int_str (l_from l), int_str (l_to l), 20)) (linkDataArray data),
          if length names > 750 then False else True))"

section \<open>Lemmas\<close>

lemma int_str_chars: "c \<in> set (int_str i) \<Longrightarrow> is_digit c \<or> c = CHR ''-''"
  using nat_str_digits by (auto simp: int_str_def split: if_splits)

lemma int_str_plain: "plain_id (int_str i)" "int_str i \<noteq> ''[object Object]''"
proof -
  have "CHR 0x01 \<notin> set (int_str i)" using int_str_chars [of "CHR 0x01" i] by (auto simp: is_digit_def)
  moreover have "int_str i \<noteq> GRAPH_NODE" using int_str_chars [of "CHR 0x00" i] by (auto simp: is_digit_def GRAPH_NODE_def)
  ultimately show "plain_id (int_str i)" by (simp add: plain_id_def clean_def)
  show "int_str i \<noteq> ''[object Object]''" using int_str_chars [of "CHR ''b''" i] by (auto simp: is_digit_def)
qed

definition pgt_graph_ok :: "'g dropGraph \<Rightarrow> bool" where
  "pgt_graph_ok g \<longleftrightarrow> drop_graph_ok g \<and> f_isDirected g \<and> ''[object Object]'' \<notin> node_set g"

lemma addNode_pgt_step:
  assumes "pgt_graph_ok g" "n_oid n = Some oid"
  shows "\<exists>g'. addNode_pgt n g = Inr (True, g') \<and> pgt_graph_ok g' \<and> abs_edges g' = abs_edges g \<and>
    node_set g' = insert (int_str (n_key n)) (node_set g)"
proof -
  obtain l where l: "nodeLabel_pgt n = Inr l" using assms(2) by (simp add: nodeLabel_pgt_def Let_def)
  have ok: "graph_ok g" "clean_graph g" "f_isDirected g" "''[object Object]'' \<notin> node_set g"
    using assms(1) by (simp_all add: pgt_graph_ok_def drop_graph_ok_def)
  have "int_str (n_key n) \<noteq> GRAPH_NODE" using int_str_plain(1) by (simp add: plain_id_def)
  then obtain g' where g': "setNode (int_str (n_key n)) (Some (Some l)) g = Inr g'" "graph_ok g'" "same_flags g g'"
    "abs_edges g' = abs_edges g" "abs_nodes g' = (abs_nodes g)(int_str (n_key n) \<mapsto> Some l)"
    using setNode_refines [OF ok(1), of "int_str (n_key n)" "Some (Some l)"] by auto
  have n: "node_set g' = insert (int_str (n_key n)) (node_set g)" using g'(5) by (simp add: node_set_dom)
  with g' ok int_str_plain(2) [of "n_key n"] have "pgt_graph_ok g'"
    by (auto simp: pgt_graph_ok_def drop_graph_ok_def clean_graph_dom same_flags_def)
  with g' n l ok(4) show ?thesis by (simp add: addNode_pgt_def hasNode_iff)
qed

lemma drawNodes_pgt:
  assumes "pgt_graph_ok g" "\<And>n. n \<in> set ns \<Longrightarrow> truthy (n_oid n)"
  shows "\<exists>g'. rfold (track addNode_pgt) ns (m, g) = Inr (m \<or> ns \<noteq> [], g') \<and> pgt_graph_ok g' \<and> abs_edges g' = abs_edges g \<and>
    node_set g' = node_set g \<union> int_str ` n_key ` set ns"
  using assms
proof (induction ns arbitrary: m g)
  case (Cons n ns)
  obtain oid where "n_oid n = Some oid" using Cons.prems(2) [of n] by (auto simp: truthy_def)
  from addNode_pgt_step [OF Cons.prems(1) this] obtain g1 where g1: "addNode_pgt n g = Inr (True, g1)" "pgt_graph_ok g1"
    "abs_edges g1 = abs_edges g" "node_set g1 = insert (int_str (n_key n)) (node_set g)" by blast
  from Cons.IH [OF g1(2), of True] Cons.prems(2) obtain g' where
    "rfold (track addNode_pgt) ns (True, g1) = Inr (True, g')" "pgt_graph_ok g'" "abs_edges g' = abs_edges g1"
    "node_set g' = node_set g1 \<union> int_str ` n_key ` set ns" by auto
  with g1 show ?case by (simp add: track_step)
qed simp

lemma linkEdge_pgt_step:
  assumes "pgt_graph_ok g" "l_from l \<in> n_key ` set dict" "l_to l \<in> n_key ` set dict"
    "int_str (l_from l) \<in> node_set g" "int_str (l_to l) \<in> node_set g"
  shows "\<exists>g'. linkEdge_pgt dict l g = Inr g' \<and> pgt_graph_ok g' \<and> node_set g' = node_set g \<and>
    set (edges g') = insert (drop_edge (int_str (l_from l)) (int_str (l_to l))) (set (edges g))"
proof -
  have f: "\<exists>n. find (\<lambda>n. n_key n = k) dict = Some n \<and> n_key n = k" if "k \<in> n_key ` set dict" for k
  proof -
    from that have "find (\<lambda>n. n_key n = k) dict \<noteq> None" by (auto simp: find_None_iff)
    then obtain n where "find (\<lambda>n. n_key n = k) dict = Some n" by blast
    then show ?thesis by (auto simp: find_Some_iff)
  qed
  let ?v = "int_str (l_from l)" and ?w = "int_str (l_to l)"
  have ok: "graph_ok g" "clean_graph g" "f_isDirected g" using assms(1) by (simp_all add: pgt_graph_ok_def drop_graph_ok_def)
  have p: "clean ?v" "clean ?w" "?v \<noteq> GRAPH_NODE" "?w \<noteq> GRAPH_NODE" using int_str_plain(1) by (auto simp: plain_id_def)
  obtain g' where g': "setEdge ?v ?w (Some (Some \<lparr>el_width = 40\<rparr>)) None g = Inr g'" "graph_ok g'" "clean_graph g'" "same_flags g g'"
    "abs_edges g' = (abs_edges g)(drop_edge ?v ?w \<mapsto> Some \<lparr>el_width = 40\<rparr>)" "node_set g' = insert ?v (insert ?w (node_set g))"
    using setEdge_refines [OF ok(1,2) p(1,2), of None "Some (Some \<lparr>el_width = 40\<rparr>)"] p ok(3)
    by (auto simp: clean_name_def edgeArgsToObj_def drop_edge_def)
  have "set (edges g') = insert (drop_edge ?v ?w) (set (edges g))" using g'(2,5) ok(1) by (simp flip: dom_abs_edges)
  moreover have ns: "node_set g' = node_set g" using g'(6) assms(4,5) by auto
  moreover have "pgt_graph_ok g'" using g'(2-4) ns assms(1) by (simp add: pgt_graph_ok_def drop_graph_ok_def same_flags_def)
  moreover have "linkEdge_pgt dict l g = Inr g'"
    using f [OF assms(2)] f [OF assms(3)] g'(1) by (auto simp: linkEdge_pgt_def)
  ultimately show ?thesis by blast
qed

lemma drawLinks_pgt:
  assumes "pgt_graph_ok g" "\<And>l. l \<in> set ls \<Longrightarrow> l_from l \<in> n_key ` set dict \<and> l_to l \<in> n_key ` set dict"
    "int_str ` n_key ` set dict \<subseteq> node_set g"
  shows "\<exists>g'. rfold (linkEdge_pgt dict) ls g = Inr g' \<and> pgt_graph_ok g' \<and> node_set g' = node_set g \<and>
    set (edges g') = set (edges g) \<union> (\<lambda>l. drop_edge (int_str (l_from l)) (int_str (l_to l))) ` set ls"
  using assms
proof (induction ls arbitrary: g)
  case (Cons l ls)
  then have e: "l_from l \<in> n_key ` set dict" "l_to l \<in> n_key ` set dict" by auto
  with Cons.prems(3) have "int_str (l_from l) \<in> node_set g" "int_str (l_to l) \<in> node_set g" by auto
  from linkEdge_pgt_step [OF Cons.prems(1) e this] obtain g1 where g1: "linkEdge_pgt dict l g = Inr g1" "pgt_graph_ok g1"
    "node_set g1 = node_set g" "set (edges g1) = insert (drop_edge (int_str (l_from l)) (int_str (l_to l))) (set (edges g))" by blast
  with Cons.IH [OF g1(2)] Cons.prems(2,3) show ?case by auto
qed simp

lemma sankeyName_inj:
  assumes "sankeyName a = sankeyName b" "0 \<le> n_key a" "0 \<le> n_key b"
  shows "n_key a = n_key b"
proof -
  have nd: "CHR ''-'' \<notin> set (rev (nat_str n))" for n using nat_str_digits [of "CHR ''-''" n] by (auto simp: is_digit_def)
  from assms have "rev (js_str (n_name a) @ CHR ''-'' # nat_str (nat (n_key a))) = rev (js_str (n_name b) @ CHR ''-'' # nat_str (nat (n_key b)))"
    by (simp only: rev_is_rev_conv) (simp add: sankeyName_def int_str_def)
  then have "rev (nat_str (nat (n_key a))) @ CHR ''-'' # rev (js_str (n_name a)) =
      rev (nat_str (nat (n_key b))) @ CHR ''-'' # rev (js_str (n_name b))"
    by simp
  with append_delim_inj [OF nd nd] have "nat (n_key a) = nat (n_key b)" by auto
  with assms(2,3) show ?thesis by simp
qed

lemma rmap_labels: "rmap (sankeyNodeOf parts) ns = Inr sn \<Longrightarrow> map k_label sn = map sankeyName ns"
proof (induction ns arbitrary: sn)
  case (Cons n ns)
  then obtain a b where "sankeyNodeOf parts n = Inr a" "rmap (sankeyNodeOf parts) ns = Inr b" "sn = a # b"
    by (auto simp: rbind_Inr_iff)
  moreover from this(1) have "k_label a = sankeyName n" by (auto simp: sankeyNodeOf_def rbind_Inr_iff)
  ultimately show ?case using Cons.IH by simp
qed simp

section \<open>Properties\<close>

text \<open>C20. The graph view draws the whole physical graph: if every link joins two drops, the drawing does
  not throw, the drops become nodes, the links edges, and nothing else is added.\<close>

theorem physical_graph_drawn:
  fixes g :: "'g dropGraph" and data :: pgtData
  defines "drops \<equiv> filter (\<lambda>n. truthy (n_oid n)) (nodeDataArray data)"
  assumes "pgt_graph_ok g"
    and "\<And>l. l \<in> set (linkDataArray data) \<Longrightarrow> l_from l \<in> n_key ` set drops \<and> l_to l \<in> n_key ` set drops"
  shows "\<exists>g'. drawGraphForDrops_pgt data g = Inr (drops \<noteq> [], g') \<and> pgt_graph_ok g' \<and>
    node_set g' = node_set g \<union> int_str ` n_key ` set drops \<and>
    set (edges g') = set (edges g) \<union> (\<lambda>l. drop_edge (int_str (l_from l)) (int_str (l_to l))) ` set (linkDataArray data)"
proof -
  obtain g1 where g1: "rfold (track addNode_pgt) drops (False, g) = Inr (drops \<noteq> [], g1)" "pgt_graph_ok g1"
    "abs_edges g1 = abs_edges g" "node_set g1 = node_set g \<union> int_str ` n_key ` set drops"
    using drawNodes_pgt [OF assms(2), of drops False] by (auto simp: drops_def)
  moreover have "set (edges g1) = set (edges g)"
    using g1(2,3) assms(2) by (simp add: pgt_graph_ok_def drop_graph_ok_def flip: dom_abs_edges)
  moreover obtain g' where "rfold (linkEdge_pgt (rev drops)) (linkDataArray data) g1 = Inr g'" "pgt_graph_ok g'"
    "node_set g' = node_set g1" "set (edges g') = set (edges g1) \<union>
      (\<lambda>l. drop_edge (int_str (l_from l)) (int_str (l_to l))) ` set (linkDataArray data)"
    using drawLinks_pgt [OF g1(2), of "linkDataArray data" "rev drops"] assms(3) g1(4) by auto
  ultimately show ?thesis by (simp add: drawGraphForDrops_pgt_def drops_def Let_def)
qed

definition example_data :: pgtData where
  "example_data = \<lparr>nodeDataArray =
     [\<lparr>n_key = 1, n_oid = Some ''2_a'', n_name = Some ''a'', n_category = Some ''Data'', n_iid = Some ''0'', n_group = Some ''9'', n_isGroup = False\<rparr>,
      \<lparr>n_key = 2, n_oid = Some ''2_b'', n_name = Some ''b'', n_category = Some ''Component'', n_iid = Some ''0'', n_group = Some ''9'', n_isGroup = False\<rparr>],
     linkDataArray = [\<lparr>l_from = 1, l_to = 2\<rparr>]\<rparr>"

theorem physical_graph_drawn_witness:
  "\<exists>g'. drawGraphForDrops_pgt example_data session_graph = Inr (True, g') \<and>
     set (edges g') = {drop_edge (int_str 1) (int_str 2)}"
proof -
  have ok: "pgt_graph_ok session_graph" using session_graph_ok by (simp add: pgt_graph_ok_def)
  have e: "edges session_graph = []" by (simp add: edges_def newGraph_def Let_def)
  have f: "filter (\<lambda>n. truthy (n_oid n)) (nodeDataArray example_data) = nodeDataArray example_data"
    by (simp add: example_data_def truthy_def)
  have "\<exists>g'. drawGraphForDrops_pgt example_data session_graph = Inr (filter (\<lambda>n. truthy (n_oid n)) (nodeDataArray example_data) \<noteq> [], g') \<and>
      pgt_graph_ok g' \<and> node_set g' = node_set session_graph \<union> int_str ` n_key ` set (filter (\<lambda>n. truthy (n_oid n)) (nodeDataArray example_data)) \<and>
      set (edges g') = set (edges session_graph) \<union> (\<lambda>l. drop_edge (int_str (l_from l)) (int_str (l_to l))) ` set (linkDataArray example_data)"
    by (rule physical_graph_drawn [OF ok]) (auto simp: example_data_def truthy_def)
  then show ?thesis unfolding f e by (auto simp: example_data_def)
qed

text \<open>The labels of the Sankey view are different for nodes with different keys, as the links, which
  name their ends by label, require (keys that are not negative), and every link between two such nodes
  names the labels of its ends.\<close>

theorem sankey_labels_identify_nodes:
  assumes "echartsGraphInit data = Inr sd" "distinct (map n_key (nodeDataArray data))"
    and "list_all (\<lambda>n. 0 \<le> n_key n) (nodeDataArray data)"
  shows "distinct (map k_label (g_nodes sd)) \<and>
    (\<forall>a b. a \<in> set (nodeDataArray data) \<longrightarrow> b \<in> set (nodeDataArray data) \<longrightarrow> \<not> n_isGroup a \<longrightarrow> \<not> n_isGroup b \<longrightarrow>
       \<lparr>l_from = n_key a, l_to = n_key b\<rparr> \<in> set (linkDataArray data) \<longrightarrow>
       \<lparr>sl_source = Some (sankeyName a), sl_target = Some (sankeyName b), sl_value = 20\<rparr> \<in> set (g_links sd))"
proof -
  let ?ns = "filter (\<lambda>n. \<not> n_isGroup n) (nodeDataArray data)"
  obtain sn where sn: "rmap (sankeyNodeOf (sankeyParts (nodeDataArray data))) ?ns = Inr sn" "g_nodes sd = sn"
    "g_links sd = map (\<lambda>l. \<lparr>sl_source = sankeyKey (nodeDataArray data) (l_from l),
       sl_target = sankeyKey (nodeDataArray data) (l_to l), sl_value = 20\<rparr>) (linkDataArray data)"
    using assms(1) by (auto simp: echartsGraphInit_def Let_def rbind_Inr_iff)
  have inj: "inj_on sankeyName (set ?ns)" and dk: "distinct (map n_key ?ns)"
  proof -
    show dk: "distinct (map n_key ?ns)" using assms(2) by (simp add: distinct_map_filter)
    show "inj_on sankeyName (set ?ns)"
    proof (rule inj_onI)
      fix a b assume ab: "a \<in> set ?ns" "b \<in> set ?ns" "sankeyName a = sankeyName b"
      with assms(3) have "n_key a = n_key b" by (intro sankeyName_inj) (auto simp: list_all_iff)
      with ab dk show "a = b" by (auto simp: distinct_map dest: inj_onD)
    qed
  qed
  have "distinct (map k_label sn)" unfolding rmap_labels [OF sn(1)]
    using inj dk by (auto simp: distinct_map)
  moreover have key: "sankeyKey (nodeDataArray data) (n_key a) = Some (sankeyName a)" if "a \<in> set ?ns" for a
  proof -
    have "find (\<lambda>n. n_key n = n_key a) (rev ?ns) = Some a"
    proof (cases "find (\<lambda>n. n_key n = n_key a) (rev ?ns)")
      case None
      with that show ?thesis by (auto simp: find_None_iff)
    next
      case (Some b)
      then obtain i where "i < length (rev ?ns)" "n_key (rev ?ns ! i) = n_key a" "b = rev ?ns ! i"
        unfolding find_Some_iff by blast
      then have "b \<in> set (rev ?ns)" "n_key b = n_key a" by (metis nth_mem)+
      with that dk have "b = a" by (auto simp: distinct_map dest: inj_onD)
      with Some show ?thesis by simp
    qed
    then show ?thesis by (simp add: sankeyKey_def)
  qed
  ultimately show ?thesis unfolding sn(2,3) by (force simp: image_iff)
qed

theorem sankey_labels_identify_nodes_witness:
  "\<exists>sd. echartsGraphInit example_data = Inr sd \<and> distinct (map k_label (g_nodes sd))"
proof -
  obtain sd where sd: "echartsGraphInit example_data = Inr sd"
    by (simp add: echartsGraphInit_def example_data_def sankeyNodeOf_def Let_def)
  from sankey_labels_identify_nodes [OF this] sd show ?thesis by (simp add: example_data_def)
qed

text \<open>The view is scaled so that the whole drawing fits: its scaled size does not exceed the page
  less the margins.\<close>

theorem zoomFit_fits:
  assumes "0 < width" "0 < height"
  shows "case zoomFit fullWidth fullHeight width height of (x, y, s) \<Rightarrow>
    width * s \<le> fullWidth - 80 \<and> height * s \<le> fullHeight - 200 \<and> 2 * x + width * s = fullWidth"
proof -
  let ?s = "initialScale fullWidth fullHeight width height"
  have "?s \<le> (fullWidth - 80) / width" "?s \<le> (fullHeight - 200) / height" by (auto simp: initialScale_def Let_def)
  with assms have "width * ?s \<le> fullWidth - 80" "height * ?s \<le> fullHeight - 200"
    by (simp_all add: pos_le_divide_eq mult.commute)
  then show ?thesis by (simp add: zoomFit_def Let_def field_simps)
qed

theorem zoomFit_fits_witness:
  "case zoomFit 1000 800 2000 1000 of (x, y, s) \<Rightarrow> 2000 * s \<le> 920 \<and> 1000 * s \<le> (600 :: real)"
  using zoomFit_fits [of 2000 1000 1000 800] by (simp add: split_def)

text \<open>The colours of the partitions leave the six hexadecimal digits of a colour: of six partitions
  the last one gets seven digits, which is not a colour.\<close>

theorem partition_colour_overflows: "partColor 6 5 = ''#7f7ff80''"
proof -
  have "(256 :: real) powr (5 / 2) = (16 powr 2) powr (5 / 2)" by simp
  also have "\<dots> = 16 powr 5" by (subst powr_powr) simp
  finally have p: "(256 :: real) powr (5 / 2) = 1048576" by simp
  have "icol 6 5 = 133693312" by (simp add: icol_def p)
  then show ?thesis by (simp add: partColor_def hex_str.simps hex_digit_def)
qed

end
