(* ===== verification/Dagre_Graph.thy ===== *)
theory Dagre_Graph
  imports Complex_Main Graphlib_Copy
begin

text \<open>
  The graph the layout of dagre works on (\<open>lib/layout\<close>): a graphlib graph whose labels are objects that
  the phases of the layout change in place. An object belongs to one node, edge or graph, so a change is
  an update of that label; a label that is \<open>undefined\<close> makes the access throw. Lengths and coordinates are
  real numbers, ranks and orders integers; the coordinates of a node are those that the position phase has
  assigned. The properties \<open>x\<close> and \<open>y\<close> of an edge are set together and are one field; the width and height of
  a graph with no nodes, which the layout sets to minus infinity, are \<open>None\<close>. The lemmas describe the loops over all nodes and all edges that most phases consist of.
\<close>

type_synonym point = "real \<times> real"

record layoutEdge =
  l_minlen :: int
  l_weight :: int
  l_width :: real
  l_height :: real
  l_labeloffset :: real
  l_labelpos :: string
  l_xy :: "point option"
  l_points :: "point list option"
  l_reversed :: bool
  l_forwardName :: "string option"
  l_labelRank :: "real option"
  l_nestingEdge :: bool

record layoutNode =
  n_width :: real
  n_height :: real
  n_rank :: "int option"
  n_x :: real
  n_y :: real
  n_dummy :: "string option"
  n_order :: "int option"
  n_labelpos :: "string option"
  n_edgeLabel :: "layoutEdge option"
  n_edgeObj :: "edgeObj option"
  n_e :: "edgeObj option"
  n_label :: "layoutEdge option"
  n_selfEdges :: "(edgeObj \<times> layoutEdge option) list option"
  n_minRank :: "int option"
  n_maxRank :: "int option"
  n_borderTop :: "string option"
  n_borderBottom :: "string option"
  n_borderLeft :: "string option list option"
  n_borderRight :: "string option list option"

record layoutLabel =
  g_rankdir :: string
  g_ranksep :: real
  g_marginx :: "real option"
  g_marginy :: "real option"
  g_width :: "real option"
  g_height :: "real option"
  g_nodeRankFactor :: "int option"
  g_acyclicer :: "string option"
  g_ranker :: "string option"
  g_dummyChains :: "string list option"
  g_nestingRoot :: "string option"

text \<open>A label with no properties but a size.\<close>

definition plainNode :: layoutNode where
  "plainNode = \<lparr>n_width = 0, n_height = 0, n_rank = None, n_x = 0, n_y = 0, n_dummy = None, n_order = None, n_labelpos = None,
     n_edgeLabel = None, n_edgeObj = None, n_e = None, n_label = None, n_selfEdges = None, n_minRank = None, n_maxRank = None,
     n_borderTop = None, n_borderBottom = None, n_borderLeft = None, n_borderRight = None\<rparr>"

type_synonym layoutGraph = "(layoutLabel, layoutNode, layoutEdge) Graph"

section \<open>Changing labels in place\<close>

definition mutNode :: "('n \<Rightarrow> 'n) \<Rightarrow> string \<Rightarrow> ('g, 'n, 'e) Graph \<Rightarrow> ('g, 'n, 'e) Graph result" where
  "mutNode f v g = rbind (deref (node v g)) (\<lambda>l. Inr (g\<lparr>f_nodes := put v (Some (f l)) (f_nodes g)\<rparr>))"

definition mutEdge :: "('e \<Rightarrow> 'e) \<Rightarrow> edgeObj \<Rightarrow> ('g, 'n, 'e) Graph \<Rightarrow> ('g, 'n, 'e) Graph result" where
  "mutEdge f e g =
     rbind (deref (edgeOfObj e g)) (\<lambda>l.
       Inr (g\<lparr>f_edgeLabels := put (edgeObjToId (f_isDirected g) e) (Some (f l)) (f_edgeLabels g)\<rparr>))"

definition eachNode :: "('n \<Rightarrow> 'n) \<Rightarrow> ('g, 'n, 'e) Graph \<Rightarrow> ('g, 'n, 'e) Graph result" where
  "eachNode f g = rfold (mutNode f) (nodes g) g"

definition eachEdge :: "('e \<Rightarrow> 'e) \<Rightarrow> ('g, 'n, 'e) Graph \<Rightarrow> ('g, 'n, 'e) Graph result" where
  "eachEdge f g = rfold (mutEdge f) (edges g) g"

definition mutGraph :: "('g \<Rightarrow> 'g) \<Rightarrow> ('g, 'n, 'e) Graph \<Rightarrow> ('g, 'n, 'e) Graph result" where
  "mutGraph f g = rbind (deref (graph g)) (\<lambda>l. Inr (setGraph (Some (f l)) g))"

section \<open>Graphs with labels\<close>

text \<open>A consistent graph in which every node and every edge has a label, and so has the graph.\<close>

definition labelled :: "('g, 'n, 'e) Graph \<Rightarrow> bool" where
  "labelled g \<longleftrightarrow> graph_ok g \<and> graph g \<noteq> None \<and> (\<forall>v \<in> node_set g. node v g \<noteq> None) \<and>
     (\<forall>e \<in> set (edges g). edgeOfObj e g \<noteq> None)"

text \<open>Two graphs that differ in labels only.\<close>

definition same_shape :: "('g, 'n, 'e) Graph \<Rightarrow> ('g, 'n, 'e) Graph \<Rightarrow> bool" where
  "same_shape g h \<longleftrightarrow> keys (f_nodes h) = keys (f_nodes g) \<and> keys (f_edgeLabels h) = keys (f_edgeLabels g) \<and>
     h = g\<lparr>f_nodes := f_nodes h, f_edgeLabels := f_edgeLabels h, f_label := f_label h\<rparr>"

lemma same_shape_refl [simp]: "same_shape g g"
  by (simp add: same_shape_def)

lemma same_shapeD:
  assumes "same_shape g h"
  shows "nodes h = nodes g" "edges h = edges g" "node_set h = node_set g" "f_isDirected h = f_isDirected g"
    "f_edgeObjs h = f_edgeObjs g" "f_isMultigraph h = f_isMultigraph g" "f_isCompound h = f_isCompound g"
proof -
  from assms have h: "h = g\<lparr>f_nodes := f_nodes h, f_edgeLabels := f_edgeLabels h, f_label := f_label h\<rparr>"
    and k: "keys (f_nodes h) = keys (f_nodes g)" by (simp_all add: same_shape_def)
  show "f_edgeObjs h = f_edgeObjs g" "f_isDirected h = f_isDirected g" "f_isMultigraph h = f_isMultigraph g"
    "f_isCompound h = f_isCompound g" by (subst h, simp)+
  then show "nodes h = nodes g" "edges h = edges g" "node_set h = node_set g"
    using k by (simp_all add: nodes_def edges_def node_set_def)
qed

lemma same_shape_trans: "same_shape g h \<Longrightarrow> same_shape h k \<Longrightarrow> same_shape g k"
  by (cases g; cases h; cases k) (simp add: same_shape_def)

lemma same_shape_ok:
  assumes "same_shape g h" "graph_ok g"
  shows "graph_ok h"
  using assms by (cases g; cases h) (auto simp: same_shape_def graph_ok_def tables_ok_def node_set_def obj_ok_def
      simp flip: length_keys)

lemma edge_keys_distinct:
  assumes "graph_ok g" "e \<in> set (edges g)" "e' \<in> set (edges g)"
    and "edgeObjToId (f_isDirected g) e = edgeObjToId (f_isDirected g) e'"
  shows "e = e'"
  using edges_iff [OF assms(1), of e] edges_iff [OF assms(1), of e'] assms(2-4) by simp

lemma mutNode_ok:
  assumes "node v g = Some l" "v \<in> node_set g"
  shows "\<exists>h. mutNode f v g = Inr h \<and> same_shape g h \<and> f_edgeLabels h = f_edgeLabels g \<and> f_label h = f_label g \<and>
    node v h = Some (f l) \<and> (\<forall>w. w \<noteq> v \<longrightarrow> node w h = node w g)"
  using assms by (simp add: mutNode_def same_shape_def keys_put_has node_set_def) (simp add: node_def)

lemma mutEdge_ok:
  fixes g :: "('g, 'n, 'e) Graph"
  assumes ok: "graph_ok g" and e: "edgeOfObj e g = Some l" "e \<in> set (edges g)"
  shows "\<exists>h. mutEdge f e g = Inr h \<and> same_shape g h \<and> f_nodes h = f_nodes g \<and> f_label h = f_label g \<and>
    edgeOfObj e h = Some (f l) \<and> (\<forall>x \<in> set (edges g). x \<noteq> e \<longrightarrow> edgeOfObj x h = edgeOfObj x g)"
proof -
  let ?k = "edgeObjToId (f_isDirected g) e"
  let ?h = "g\<lparr>f_edgeLabels := put ?k (Some (f l)) (f_edgeLabels g)\<rparr>"
  have "?k \<in> set (keys (f_edgeLabels g))"
    using edges_iff [OF ok] e(2) tables_okD(7) [OF graph_okD(3) [OF ok]] get_Some_key by metis
  then have "same_shape g ?h" by (simp add: same_shape_def keys_put_has)
  moreover have "edgeObjToId (f_isDirected g) x \<noteq> ?k" if "x \<in> set (edges g)" "x \<noteq> e" for x
    using edge_keys_distinct [OF ok that(1) e(2)] that(2) by blast
  ultimately show ?thesis using e(1) by (auto simp: mutEdge_def edgeOfObj_def)
qed

lemma eachNode_ok:
  fixes g :: "('g, 'n, 'e) Graph"
  assumes ok: "graph_ok g" and lab: "\<And>v. v \<in> node_set g \<Longrightarrow> node v g \<noteq> None"
  shows "\<exists>h. eachNode f g = Inr h \<and> same_shape g h \<and> f_edgeLabels h = f_edgeLabels g \<and> f_label h = f_label g \<and>
    (\<forall>v \<in> node_set g. node v h = map_option f (node v g))"
proof -
  let ?P = "\<lambda>ys h. same_shape g h \<and> f_edgeLabels h = f_edgeLabels g \<and> f_label h = f_label g \<and>
    (\<forall>v \<in> node_set g. node v h = (if v \<in> set ys then map_option f (node v g) else node v g))"
  have "\<exists>h. rfold (mutNode f) (nodes g) g = Inr h \<and> ?P (nodes g) h"
  proof (rule rfold_prefix_invariant [where P = ?P])
    fix ys v zs h
    assume split: "nodes g = ys @ v # zs" and P: "?P ys h"
    have v: "v \<in> node_set g" "v \<notin> set ys" using split distinct_nodes [OF ok] by (auto simp flip: nodes_set)
    then obtain l where l: "node v g = Some l" "node v h = Some l" using lab P by fastforce
    then obtain k where k: "mutNode f v h = Inr k" "same_shape h k" "f_edgeLabels k = f_edgeLabels h"
      "f_label k = f_label h" "node v k = Some (f l)" "\<forall>w. w \<noteq> v \<longrightarrow> node w k = node w h"
      using mutNode_ok [of v h l f] v P same_shapeD(3) by blast
    have "?P (ys @ [v]) k" using P k l v same_shape_trans [of g h k] by auto
    with k(1) show "\<exists>k. mutNode f v h = Inr k \<and> ?P (ys @ [v]) k" by blast
  qed simp
  then show ?thesis by (auto simp: eachNode_def nodes_set)
qed

lemma distinct_edges:
  fixes g :: "('g, 'n, 'e) Graph"
  assumes ok: "graph_ok g"
  shows "distinct (edges g)"
proof -
  have "obj_ok (f_edgeObjs g)" using tables_okD(5) [OF graph_okD(3) [OF ok]] .
  moreover have "inj_on snd (set (f_edgeObjs g))"
  proof (rule inj_onI)
    fix a b assume ab: "a \<in> set (f_edgeObjs g)" "b \<in> set (f_edgeObjs g)" "snd a = snd b"
    then have "get (f_edgeObjs g) (fst a) = Some (snd a)" "get (f_edgeObjs g) (fst b) = Some (snd b)"
      using get_mem_iff [OF \<open>obj_ok (f_edgeObjs g)\<close>] by (metis prod.collapse)+
    then have "fst a = edgeObjToId (f_isDirected g) (snd a)" "fst b = edgeObjToId (f_isDirected g) (snd b)"
      using tables_okD(9) [OF graph_okD(3) [OF ok]] by (auto simp: edge_ok_def)
    with ab(3) show "a = b" by (simp add: prod_eq_iff)
  qed
  ultimately show ?thesis by (simp add: edges_def vals_def distinct_map obj_ok_def keys_def)
qed

lemma eachEdge_ok:
  fixes g :: "('g, 'n, 'e) Graph"
  assumes ok: "graph_ok g" and lab: "\<And>e. e \<in> set (edges g) \<Longrightarrow> edgeOfObj e g \<noteq> None"
  shows "\<exists>h. eachEdge f g = Inr h \<and> same_shape g h \<and> f_nodes h = f_nodes g \<and> f_label h = f_label g \<and>
    (\<forall>e \<in> set (edges g). edgeOfObj e h = map_option f (edgeOfObj e g))"
proof -
  let ?P = "\<lambda>ys h. same_shape g h \<and> f_nodes h = f_nodes g \<and> f_label h = f_label g \<and>
    (\<forall>e \<in> set (edges g). edgeOfObj e h = (if e \<in> set ys then map_option f (edgeOfObj e g) else edgeOfObj e g))"
  have dist: "distinct (edges g)" by (rule distinct_edges [OF ok])
  have "\<exists>h. rfold (mutEdge f) (edges g) g = Inr h \<and> ?P (edges g) h"
  proof (rule rfold_prefix_invariant [where P = ?P])
    fix ys e zs h
    assume split: "edges g = ys @ e # zs" and P: "?P ys h"
    have e: "e \<in> set (edges g)" "e \<notin> set ys" using split dist by auto
    then obtain l where l: "edgeOfObj e g = Some l" "edgeOfObj e h = Some l" using lab P by fastforce
    have h: "graph_ok h" "edges h = edges g" using P same_shape_ok [OF _ ok] same_shapeD(2) by blast+
    obtain k where k: "mutEdge f e h = Inr k" "same_shape h k" "f_nodes k = f_nodes h" "f_label k = f_label h"
      "edgeOfObj e k = Some (f l)" "\<forall>x \<in> set (edges h). x \<noteq> e \<longrightarrow> edgeOfObj x k = edgeOfObj x h"
      using mutEdge_ok [OF h(1) l(2), of f] e(1) h(2) by auto
    have "?P (ys @ [e]) k" using P k l e h(2) same_shape_trans [of g h k] by auto
    with k(1) show "\<exists>k. mutEdge f e h = Inr k \<and> ?P (ys @ [e]) k" by blast
  qed simp
  then show ?thesis by (auto simp: eachEdge_def)
qed

section \<open>Layout graphs as abstract graphs\<close>

text \<open>The graphs the phases run on: consistent, directed, with parallel edges, ids free of the edge delimiter.\<close>

definition layout_ok :: "('g, 'n, 'e) Graph \<Rightarrow> bool" where
  "layout_ok g \<longleftrightarrow> graph_ok g \<and> clean_graph g \<and> f_isDirected g \<and> f_isMultigraph g"

lemma layout_okD:
  assumes "layout_ok g"
  shows "graph_ok g" "clean_graph g" "f_isDirected g" "f_isMultigraph g"
  using assms by (simp_all add: layout_ok_def)

lemma layout_ok_flags: "layout_ok g \<Longrightarrow> same_flags g h \<Longrightarrow> graph_ok h \<Longrightarrow> clean_graph h \<Longrightarrow> layout_ok h"
  by (simp add: layout_ok_def same_flags_def)

lemma clean_obj: "clean_edge x \<Longrightarrow> edgeArgsToObj True (e_v x) (e_w x) (e_name x) = x"
  by (simp add: edgeArgsToObj_def clean_edge_def clean_name_def)

lemma layout_edge_clean: "layout_ok g \<Longrightarrow> abs_edges g e = Some l \<Longrightarrow> e \<in> set (edges g) \<and> clean_edge e"
  using dom_abs_edges [of g] by (auto simp: layout_ok_def clean_graph_def)

lemma layout_setNode:
  fixes g :: "('g, 'n, 'e) Graph"
  assumes ok: "layout_ok g" and v: "v \<noteq> GRAPH_NODE"
  shows "\<exists>h. setNode v (Some l) g = Inr h \<and> layout_ok h \<and> same_flags g h \<and> abs_nodes h = (abs_nodes g)(v \<mapsto> l) \<and>
    abs_edges h = abs_edges g"
proof -
  note G = layout_okD [OF ok]
  have "f_isCompound g \<longrightarrow> v \<noteq> GRAPH_NODE" using v by simp
  from setNode_refines [OF G(1) this, of "Some l"] setNode_ok [OF G(1) this, of "Some l"]
  obtain h where h: "setNode v (Some l) g = Inr h" "graph_ok h" "same_flags g h" "abs_edges h = abs_edges g"
    "abs_nodes h = (abs_nodes g)(v \<mapsto> l)" "f_edgeObjs h = f_edgeObjs g" by auto
  have "clean_graph h" using G(2) h(6) by (simp add: clean_graph_def edges_def)
  with h layout_ok_flags [OF ok h(3,2)] show ?thesis by blast
qed

lemma layout_setEdge:
  fixes g :: "('g, 'n, 'e) Graph"
  assumes ok: "layout_ok g" and x: "clean_edge x" "e_v x \<in> node_set g" "e_w x \<in> node_set g"
  shows "\<exists>h. setEdge (e_v x) (e_w x) (Some l) (e_name x) g = Inr h \<and> layout_ok h \<and> same_flags g h \<and> abs_nodes h = abs_nodes g \<and>
    abs_edges h = (abs_edges g)(x \<mapsto> l)"
proof -
  note G = layout_okD [OF ok]
  have cl: "clean (e_v x)" "clean (e_w x)" "clean_name (e_name x)" using x(1) by (simp_all add: clean_edge_def)
  have root: "f_isCompound g \<longrightarrow> e_v x \<noteq> GRAPH_NODE \<and> e_w x \<noteq> GRAPH_NODE" using compound_nodes [OF G(1)] x(2,3) by auto
  obtain h where h: "setEdge (e_v x) (e_w x) (Some l) (e_name x) g = Inr h" "graph_ok h" "clean_graph h" "same_flags g h"
    "abs_edges h = (abs_edges g)(x \<mapsto> l)" "node_set h = insert (e_v x) (insert (e_w x) (node_set g))"
    "\<forall>y \<in> node_set g. abs_nodes h y = abs_nodes g y"
    using setEdge_refines [OF G(1,2) cl root, of "Some l"] G(3,4) clean_obj [OF x(1)] by auto
  have "abs_nodes h = abs_nodes g" using h(6,7) x(2,3) by (intro abs_nodes_same) (auto simp: abs_nodes_def)
  with h layout_ok_flags [OF ok h(4,2,3)] show ?thesis by blast
qed

lemma layout_removeEdge:
  fixes g :: "('g, 'n, 'e) Graph"
  assumes ok: "layout_ok g" and e: "abs_edges g e = Some l"
  shows "\<exists>h. removeEdgeObj e g = Inr h \<and> layout_ok h \<and> same_flags g h \<and> abs_nodes h = abs_nodes g \<and>
    abs_edges h = (abs_edges g)(e := None)"
proof -
  note G = layout_okD [OF ok]
  have ce: "clean_edge e" using layout_edge_clean [OF ok e] by blast
  then have cl: "clean (e_v e)" "clean (e_w e)" "clean_name (e_name e)" by (simp_all add: clean_edge_def)
  obtain h where h: "removeEdgeObj e g = Inr h" "graph_ok h" "clean_graph h" "same_flags g h"
    "abs_edges h = (abs_edges g)(e := None)" "abs_nodes h = abs_nodes g"
    using removeEdge_refines [OF G(1,2) cl] G(3) clean_obj [OF ce]
    by (auto simp: removeEdge_def removeEdgeObj_def edgeObjToId_def)
  with layout_ok_flags [OF ok h(4,2,3)] show ?thesis by blast
qed

lemma layout_removeNode:
  fixes g :: "('g, 'n, 'e) Graph"
  assumes ok: "layout_ok g" and v: "v \<in> node_set g"
  shows "\<exists>h. removeNode v g = Inr h \<and> layout_ok h \<and> same_flags g h \<and> abs_nodes h = (abs_nodes g)(v := None) \<and>
    abs_edges h = (\<lambda>e. if e_v e = v \<or> e_w e = v then None else abs_edges g e)"
proof -
  note G = layout_okD [OF ok]
  obtain h where h: "removeNode v g = Inr h" "graph_ok h" "same_flags g h" "abs_nodes h = (abs_nodes g)(v := None)"
    "\<forall>eo. abs_edges h eo = (if e_v eo = v \<or> e_w eo = v then None else abs_edges g eo)"
    using removeNode_refines [OF G(1) v] by blast
  have "x \<in> dom (abs_edges g)" if "x \<in> dom (abs_edges h)" for x
    using that h(5) by (metis domIff)
  then have "set (edges h) \<subseteq> set (edges g)" using dom_abs_edges [OF h(2)] dom_abs_edges [OF G(1)] by blast
  then have "clean_graph h" using G(2) by (auto simp: clean_graph_def)
  with h layout_ok_flags [OF ok h(3,2)] show ?thesis by (auto simp: fun_eq_iff)
qed

lemma layout_mutNode:
  fixes g :: "('g, 'n, 'e) Graph"
  assumes ok: "layout_ok g" and v: "abs_nodes g v = Some (Some l)"
  shows "\<exists>h. mutNode f v g = Inr h \<and> layout_ok h \<and> same_flags g h \<and> abs_nodes h = (abs_nodes g)(v \<mapsto> Some (f l)) \<and>
    abs_edges h = abs_edges g"
proof -
  note G = layout_okD [OF ok]
  have v': "v \<in> node_set g" "node v g = Some l" using v by (auto simp: node_set_abs node_def abs_nodes_def)
  obtain h where h: "mutNode f v g = Inr h" "same_shape g h" using mutNode_ok [OF v'(2,1)] by blast
  have eq: "h = g\<lparr>f_nodes := put v (Some (f l)) (f_nodes g)\<rparr>" using h(1) v'(2) by (simp add: mutNode_def)
  have "clean_graph h" "same_flags g h" using G(2) by (simp_all add: eq clean_graph_def edges_def same_flags_def)
  with h(1) layout_ok_flags [OF ok _ same_shape_ok [OF h(2) G(1)]] show ?thesis
    by (auto simp: eq abs_edges_def abs_nodes_def edges_def fun_eq_iff)
qed

lemma layout_mutEdge:
  fixes g :: "('g, 'n, 'e) Graph"
  assumes ok: "layout_ok g" and e: "abs_edges g e = Some (Some l)"
  shows "\<exists>h. mutEdge f e g = Inr h \<and> layout_ok h \<and> same_flags g h \<and> abs_nodes h = abs_nodes g \<and>
    abs_edges h = (abs_edges g)(e \<mapsto> Some (f l))"
proof -
  note G = layout_okD [OF ok]
  have eE: "e \<in> set (edges g)" using layout_edge_clean [OF ok e] by blast
  have l: "edgeOfObj e g = Some l" using abs_edge_label [OF G(1) eE] e by simp
  obtain h where h: "mutEdge f e g = Inr h" "same_shape g h" using mutEdge_ok [OF G(1) l eE, of f] by blast
  have eq: "h = g\<lparr>f_edgeLabels := put (edgeObjToId (f_isDirected g) e) (Some (f l)) (f_edgeLabels g)\<rparr>"
    using h(1) l by (simp add: mutEdge_def)
  have "abs_edges h = (abs_edges g)(e \<mapsto> Some (f l))"
    using edge_keys_distinct [OF G(1) _ eE] eE by (auto simp: eq abs_edges_def edges_def fun_eq_iff)
  moreover have "clean_graph h" "same_flags g h" "abs_nodes h = abs_nodes g"
    using G(2) by (simp_all add: eq clean_graph_def edges_def same_flags_def abs_nodes_def fun_eq_iff)
  ultimately show ?thesis using h(1) layout_ok_flags [OF ok _ same_shape_ok [OF h(2) G(1)]] by blast
qed

lemma layout_mutGraph:
  fixes g :: "('g, 'n, 'e) Graph"
  assumes "layout_ok g" "graph g = Some l"
  shows "\<exists>h. mutGraph f g = Inr h \<and> layout_ok h \<and> graph h = Some (f l) \<and> abs_nodes h = abs_nodes g \<and> abs_edges h = abs_edges g"
  using assms by (auto simp: mutGraph_def setGraph_def graph_def edges_def abs_nodes_def abs_edges_def layout_ok_def clean_graph_def
      graph_ok_def tables_ok_def node_set_def)

end
