(* ===== verification/Dagre_Coordinates.thy ===== *)
theory Dagre_Coordinates
  imports Dagre_Graph
begin

text \<open>
  The phases of the layout that work on coordinates: \<open>lib/coordinate-system\<close> (the direction of the ranks),
  and of \<open>lib/layout\<close> the room for edge labels, the translation of the finished drawing to its margins, the
  position of edge labels and the points of reversed edges. The theorems: turning the coordinate system back
  restores the sizes and turns the positions, and the translated drawing lies inside its margins.
\<close>

section \<open>The coordinate system\<close>

definition lower_char :: "char \<Rightarrow> char" where
  "lower_char c = (if 65 \<le> (of_char c :: nat) \<and> (of_char c :: nat) \<le> 90 then char_of (of_char c + 32 :: nat) else c)"

definition toLowerCase :: "string \<Rightarrow> string" where
  "toLowerCase s = map lower_char s"

definition swapWidthHeightNode :: "layoutNode \<Rightarrow> layoutNode" where
  "swapWidthHeightNode l = l\<lparr>n_width := n_height l, n_height := n_width l\<rparr>"

definition swapWidthHeightEdge :: "layoutEdge \<Rightarrow> layoutEdge" where
  "swapWidthHeightEdge l = l\<lparr>l_width := l_height l, l_height := l_width l\<rparr>"

definition swapWidthHeight :: "layoutGraph \<Rightarrow> layoutGraph result" where
  "swapWidthHeight g = rbind (eachNode swapWidthHeightNode g) (eachEdge swapWidthHeightEdge)"

definition reverseYOne :: "point \<Rightarrow> point" where
  "reverseYOne p = (case p of (x, y) \<Rightarrow> (x, - y))"

definition swapXYOne :: "point \<Rightarrow> point" where
  "swapXYOne p = (case p of (x, y) \<Rightarrow> (y, x))"

text \<open>The two loops over positions: the nodes, then the points and the label of every edge.\<close>

definition moveNode :: "(point \<Rightarrow> point) \<Rightarrow> layoutNode \<Rightarrow> layoutNode" where
  "moveNode f l = l\<lparr>n_x := fst (f (n_x l, n_y l)), n_y := snd (f (n_x l, n_y l))\<rparr>"

definition moveEdge :: "(point \<Rightarrow> point) \<Rightarrow> layoutEdge \<Rightarrow> layoutEdge" where
  "moveEdge f l = l\<lparr>l_points := map_option (map f) (l_points l), l_xy := map_option f (l_xy l)\<rparr>"

definition reverseY :: "layoutGraph \<Rightarrow> layoutGraph result" where
  "reverseY g = rbind (eachNode (moveNode reverseYOne) g) (eachEdge (moveEdge reverseYOne))"

definition swapXY :: "layoutGraph \<Rightarrow> layoutGraph result" where
  "swapXY g = rbind (eachNode (moveNode swapXYOne) g) (eachEdge (moveEdge swapXYOne))"

definition adjust :: "layoutGraph \<Rightarrow> layoutGraph result" where
  "adjust g =
     rbind (deref (graph g)) (\<lambda>gl.
       let rankDir = toLowerCase (g_rankdir gl) in
       if rankDir = ''lr'' \<or> rankDir = ''rl'' then swapWidthHeight g else Inr g)"

definition undo :: "layoutGraph \<Rightarrow> layoutGraph result" where
  "undo g =
     rbind (deref (graph g)) (\<lambda>gl.
       let rankDir = toLowerCase (g_rankdir gl) in
       rbind (if rankDir = ''bt'' \<or> rankDir = ''rl'' then reverseY g else Inr g) (\<lambda>g1.
         if rankDir = ''lr'' \<or> rankDir = ''rl'' then rbind (swapXY g1) swapWidthHeight else Inr g1))"

section \<open>Loops over all labels\<close>

text \<open>What a phase does to the labels: it keeps the graph and applies a function to the label of every node and a
  function to the label of every edge.\<close>

definition relabels ::
  "(layoutNode \<Rightarrow> layoutNode) \<Rightarrow> (layoutEdge \<Rightarrow> layoutEdge) \<Rightarrow> layoutGraph \<Rightarrow> layoutGraph \<Rightarrow> bool" where
  "relabels fn fe g h \<longleftrightarrow> labelled h \<and> same_shape g h \<and> graph h = graph g \<and>
     (\<forall>v \<in> node_set g. node v h = map_option fn (node v g)) \<and>
     (\<forall>e \<in> set (edges g). edgeOfObj e h = map_option fe (edgeOfObj e g))"

lemma relabels_same: "labelled g \<Longrightarrow> relabels id id g g"
  by (simp add: relabels_def option.map_id0)

lemma relabels_trans:
  assumes "relabels fn fe g h" "relabels fn' fe' h k"
  shows "relabels (fn' \<circ> fn) (fe' \<circ> fe) g k"
proof -
  have "same_shape g h" using assms(1) by (simp add: relabels_def)
  from same_shapeD(2,3) [OF this] show ?thesis using assms same_shape_trans [of g h k] by (simp add: relabels_def option.map_comp)
qed

lemma each_ok:
  assumes lab: "labelled g"
  shows "\<exists>h. rbind (eachNode fn g) (eachEdge fe) = Inr h \<and> relabels fn fe g h"
proof -
  have ok: "graph_ok g" using lab by (simp add: labelled_def)
  obtain h where h: "eachNode fn g = Inr h" "same_shape g h" "f_edgeLabels h = f_edgeLabels g" "f_label h = f_label g"
    "\<forall>v \<in> node_set g. node v h = map_option fn (node v g)"
    using eachNode_ok [OF ok, of fn] lab by (auto simp: labelled_def)
  note S = same_shapeD [OF h(2)]
  have e: "edgeOfObj e h = edgeOfObj e g" for e using h(3) S(4) by (simp add: edgeOfObj_def)
  obtain k where k: "eachEdge fe h = Inr k" "same_shape h k" "f_nodes k = f_nodes h" "f_label k = f_label h"
    "\<forall>e \<in> set (edges h). edgeOfObj e k = map_option fe (edgeOfObj e h)"
    using eachEdge_ok [OF same_shape_ok [OF h(2) ok], of fe] lab S(2) e by (auto simp: labelled_def)
  have n: "node v k = node v h" for v using k(3) by (simp add: node_def)
  have sh: "same_shape g k" by (rule same_shape_trans [OF h(2) k(2)])
  note K = same_shapeD [OF sh]
  have nk: "node v k = map_option fn (node v g)" if "v \<in> node_set g" for v using h(5) n that by simp
  have ek: "edgeOfObj x k = map_option fe (edgeOfObj x g)" if "x \<in> set (edges g)" for x using k(5) S(2) e that by simp
  have gk: "graph k = graph g" using k(4) h(4) by (simp add: graph_def)
  have "labelled k" using lab same_shape_ok [OF sh ok] nk ek gk K(2,3) by (auto simp: labelled_def)
  then have "relabels fn fe g k" using sh nk ek gk by (simp add: relabels_def)
  with h(1) k(1) show ?thesis by simp
qed

text \<open>A phase that runs under a condition.\<close>

lemma phase_ok:
  assumes "labelled g" "\<And>g. phase g = rbind (eachNode fn g) (eachEdge fe)"
  shows "\<exists>h. (if b then phase g else Inr g) = Inr h \<and> relabels (if b then fn else id) (if b then fe else id) g h"
  using each_ok [OF assms(1), of fn fe] relabels_same [OF assms(1)] assms(2) by (cases b) auto

lemma swaps_undo [simp]:
  "swapWidthHeightNode (swapWidthHeightNode l) = l" "swapWidthHeightEdge (swapWidthHeightEdge l') = l'"
  by (simp_all add: swapWidthHeightNode_def swapWidthHeightEdge_def)

lemma move_swap [simp]:
  "swapWidthHeightNode (moveNode f (swapWidthHeightNode l)) = moveNode f l"
  "swapWidthHeightEdge (moveEdge f (swapWidthHeightEdge l')) = moveEdge f l'"
  by (simp_all add: swapWidthHeightNode_def swapWidthHeightEdge_def moveNode_def moveEdge_def)

lemma move_move [simp]:
  "moveNode f (moveNode f' l) = moveNode (f \<circ> f') l" "moveEdge f (moveEdge f' l') = moveEdge (f \<circ> f') l'"
  by (simp_all add: moveNode_def moveEdge_def option.map_comp comp_def)

lemma move_id: "moveNode id l = l" "moveEdge id l' = l'"
  by (simp_all add: moveNode_def moveEdge_def option.map_id)

lemma turned_labels:
  "(if b then swapWidthHeightNode \<circ> moveNode swapXYOne else id) \<circ>
     ((if c then moveNode reverseYOne else id) \<circ> (if b then swapWidthHeightNode else id)) =
   moveNode ((if b then swapXYOne else id) \<circ> (if c then reverseYOne else id))"
  "(if b then swapWidthHeightEdge \<circ> moveEdge swapXYOne else id) \<circ>
     ((if c then moveEdge reverseYOne else id) \<circ> (if b then swapWidthHeightEdge else id)) =
   moveEdge ((if b then swapXYOne else id) \<circ> (if c then reverseYOne else id))"
  by (cases b; cases c; rule ext; simp add: move_id)+

text \<open>The turn that the direction of the ranks stands for.\<close>

definition turn :: "string \<Rightarrow> point \<Rightarrow> point" where
  "turn rankDir p = (case p of (x, y) \<Rightarrow>
     if rankDir = ''lr'' then (y, x) else if rankDir = ''rl'' then (- y, x)
     else if rankDir = ''bt'' then (x, - y) else (x, y))"

text \<open>C27. Leaving the internal coordinate system undoes entering it: on a graph with labels neither throws, and
  together they give every node and edge label its width and height back and turn every position, every point
  of an edge and every label position by the direction of the ranks (no turn for top to bottom).\<close>

theorem coordinate_system_round_trip:
  assumes lab: "labelled g" and gl: "graph g = Some gl"
  shows "\<exists>h k. adjust g = Inr h \<and> undo h = Inr k \<and> labelled k \<and> nodes k = nodes g \<and> edges k = edges g \<and>
    (\<forall>v \<in> node_set g. node v k = map_option (moveNode (turn (toLowerCase (g_rankdir gl)))) (node v g)) \<and>
    (\<forall>e \<in> set (edges g). edgeOfObj e k = map_option (moveEdge (turn (toLowerCase (g_rankdir gl)))) (edgeOfObj e g))"
proof -
  let ?d = "toLowerCase (g_rankdir gl)"
  let ?hor = "?d = ''lr'' \<or> ?d = ''rl''" and ?rev = "?d = ''bt'' \<or> ?d = ''rl''"
  obtain h where h: "adjust g = Inr h"
    "relabels (if ?hor then swapWidthHeightNode else id) (if ?hor then swapWidthHeightEdge else id) g h"
    using phase_ok [OF lab swapWidthHeight_def, of ?hor] gl by (auto simp: adjust_def Let_def)
  have lh: "labelled h" "graph h = Some gl" using h(2) gl by (auto simp: relabels_def)
  obtain h1 where h1: "(if ?rev then reverseY h else Inr h) = Inr h1"
    "relabels (if ?rev then moveNode reverseYOne else id) (if ?rev then moveEdge reverseYOne else id) h h1"
    using phase_ok [OF lh(1) reverseY_def, of ?rev] by blast
  have l1: "labelled h1" using h1(2) by (simp add: relabels_def)
  obtain k where k: "(if ?hor then rbind (swapXY h1) swapWidthHeight else Inr h1) = Inr k"
    "relabels (if ?hor then swapWidthHeightNode \<circ> moveNode swapXYOne else id)
      (if ?hor then swapWidthHeightEdge \<circ> moveEdge swapXYOne else id) h1 k"
  proof (cases ?hor)
    case True
    obtain h2 where h2: "swapXY h1 = Inr h2" "relabels (moveNode swapXYOne) (moveEdge swapXYOne) h1 h2"
      using each_ok [OF l1] by (auto simp: swapXY_def)
    moreover have "labelled h2" using h2(2) by (simp add: relabels_def)
    then obtain k where "swapWidthHeight h2 = Inr k" "relabels swapWidthHeightNode swapWidthHeightEdge h2 k"
      using each_ok [of h2 swapWidthHeightNode swapWidthHeightEdge] unfolding swapWidthHeight_def by blast
    ultimately show thesis using that [of k] relabels_trans True by auto
  qed (use that relabels_same [OF l1] in auto)
  have u: "undo h = Inr k" using lh(2) h1(1) k(1) by (simp add: undo_def Let_def)
  have r: "relabels (moveNode (turn ?d)) (moveEdge (turn ?d)) g k"
  proof -
    have t: "turn ?d = (if ?hor then swapXYOne else id) \<circ> (if ?rev then reverseYOne else id)"
      by (auto simp: turn_def swapXYOne_def reverseYOne_def fun_eq_iff)
    show ?thesis
      using relabels_trans [OF relabels_trans [OF h(2) h1(2)] k(2)] unfolding turned_labels t .
  qed
  then have "same_shape g k" by (simp add: relabels_def)
  with same_shapeD(1,2) [OF this] h(1) u r show ?thesis by (simp add: relabels_def)
qed

text \<open>Labels and a graph with one node, for the examples.\<close>

definition exampleLabel :: layoutLabel where
  "exampleLabel = \<lparr>g_rankdir = ''LR'', g_ranksep = 50, g_marginx = Some 5, g_marginy = None,
     g_width = None, g_height = None, g_nodeRankFactor = None,
     g_acyclicer = None, g_ranker = None, g_dummyChains = None, g_nestingRoot = None\<rparr>"

definition exampleNode :: layoutNode where
  "exampleNode = plainNode\<lparr>n_width := 10, n_height := 20, n_rank := Some 0, n_x := 7, n_y := 9\<rparr>"

definition exampleEdge :: layoutEdge where
  "exampleEdge = \<lparr>l_minlen = 1, l_weight = 1, l_width = 0, l_height = 0, l_labeloffset = 10, l_labelpos = ''r'',
     l_xy = None, l_points = None, l_reversed = False, l_forwardName = None, l_labelRank = None, l_nestingEdge = False\<rparr>"

lemma example_graph:
  "\<exists>g. setNode ''a'' (Some (Some exampleNode)) (setGraph (Some exampleLabel) (newGraph None None None)) = Inr g \<and>
     labelled (g :: layoutGraph) \<and> graph g = Some exampleLabel \<and> nodes g = [''a''] \<and> node ''a'' g = Some exampleNode \<and>
     edges g = []"
proof -
  let ?g0 = "setGraph (Some exampleLabel) (newGraph None None None) :: layoutGraph"
  have "graph_ok (newGraph None None None :: layoutGraph)" by (rule graph_ok_new)
  then have ok: "graph_ok ?g0" by (simp add: setGraph_def graph_ok_def tables_ok_def node_set_def)
  have na: "f_isCompound ?g0 \<longrightarrow> ''a'' \<noteq> GRAPH_NODE" by (simp add: GRAPH_NODE_def)
  obtain g where g: "setNode ''a'' (Some (Some exampleNode)) ?g0 = Inr g" "graph_ok g" "same_flags ?g0 g"
    "f_nodes g = put ''a'' (Some exampleNode) (f_nodes ?g0)" "f_edgeObjs g = f_edgeObjs ?g0"
    using setNode_ok [OF ok na, of "Some (Some exampleNode)"] by (auto simp: setGraph_def newGraph_def node_set_def Let_def)
  have "nodes g = [''a'']" "node ''a'' g = Some exampleNode" "edges g = []" "node_set g = {''a''}"
    using g(4,5) by (simp_all add: nodes_def node_def edges_def node_set_def setGraph_def newGraph_def Let_def put_def has_def
        keys_def is_index_def is_digit_def get_def vals_def)
  moreover have "graph g = Some exampleLabel" using g(3) by (simp add: same_flags_def graph_def setGraph_def)
  ultimately show ?thesis using g by (simp add: labelled_def)
qed

theorem coordinate_system_round_trip_witness:
  "\<exists>g h k. setNode ''a'' (Some (Some exampleNode)) (setGraph (Some exampleLabel) (newGraph None None None)) = Inr g \<and>
     adjust g = Inr h \<and> undo h = Inr k \<and>
     node ''a'' k = Some (exampleNode\<lparr>n_x := 9, n_y := 7\<rparr>)"
proof -
  obtain g :: layoutGraph where g: "setNode ''a'' (Some (Some exampleNode)) (setGraph (Some exampleLabel) (newGraph None None None)) = Inr g"
    "labelled g" "graph g = Some exampleLabel" "nodes g = [''a'']" "node ''a'' g = Some exampleNode"
    using example_graph by blast
  have d: "toLowerCase (g_rankdir exampleLabel) = ''lr''"
    by (simp add: exampleLabel_def toLowerCase_def lower_char_def) code_simp
  have "''a'' \<in> node_set g" using g(4) by (simp flip: nodes_set)
  with coordinate_system_round_trip [OF g(2,3)] g(1,5) show ?thesis
    by (auto simp: d moveNode_def turn_def exampleNode_def plainNode_def)
qed

section \<open>Room for edge labels\<close>

definition makeSpaceOne :: "string \<Rightarrow> layoutEdge \<Rightarrow> layoutEdge" where
  "makeSpaceOne rankdir l =
     (let l1 = l\<lparr>l_minlen := l_minlen l * 2\<rparr> in
      if toLowerCase (l_labelpos l1) \<noteq> ''c'' then
        if rankdir = ''TB'' \<or> rankdir = ''BT'' then l1\<lparr>l_width := l_width l1 + l_labeloffset l1\<rparr>
        else l1\<lparr>l_height := l_height l1 + l_labeloffset l1\<rparr>
      else l1)"

definition makeSpaceForEdgeLabels :: "layoutGraph \<Rightarrow> layoutGraph result" where
  "makeSpaceForEdgeLabels g =
     rbind (mutGraph (\<lambda>gl. gl\<lparr>g_ranksep := g_ranksep gl / 2\<rparr>) g) (\<lambda>g1.
     rbind (deref (graph g1)) (\<lambda>gl. eachEdge (makeSpaceOne (g_rankdir gl)) g1))"

definition fixupOne :: "layoutEdge \<Rightarrow> layoutEdge" where
  "fixupOne l =
     (case l_xy l of
        None \<Rightarrow> l
      | Some (x, y) \<Rightarrow>
          let l1 = (if l_labelpos l = ''l'' \<or> l_labelpos l = ''r'' then l\<lparr>l_width := l_width l - l_labeloffset l\<rparr> else l) in
          if l_labelpos l = ''l'' then l1\<lparr>l_xy := Some (x - (l_width l1 / 2 + l_labeloffset l1), y)\<rparr>
          else if l_labelpos l = ''r'' then l1\<lparr>l_xy := Some (x + (l_width l1 / 2 + l_labeloffset l1), y)\<rparr>
          else l1)"

definition fixupEdgeLabelCoords :: "layoutGraph \<Rightarrow> layoutGraph result" where
  "fixupEdgeLabelCoords g = eachEdge fixupOne g"

text \<open>A reversed edge without points throws.\<close>

definition reversePointsForReversedEdges :: "layoutGraph \<Rightarrow> layoutGraph result" where
  "reversePointsForReversedEdges g =
     rfold (\<lambda>e h. rbind (deref (edgeOfObj e h)) (\<lambda>l.
       if l_reversed l then
         rbind (deref (l_points l)) (\<lambda>ps. mutEdge (\<lambda>l. l\<lparr>l_points := Some (rev ps)\<rparr>) e h)
       else Inr h)) (edges g) g"

text \<open>The room that was made for a label beside its edge is taken back when the label is placed, for vertical
  ranks: the label gets its own width again.\<close>

lemma label_width_restored:
  assumes "rankdir = ''TB'' \<or> rankdir = ''BT''" "l_labelpos l = ''l'' \<or> l_labelpos l = ''r''" "l_xy l \<noteq> None"
  shows "l_width (fixupOne (makeSpaceOne rankdir l)) = l_width l"
proof -
  have "toLowerCase ''l'' = ''l''" "toLowerCase ''r'' = ''r''" by code_simp+
  with assms show ?thesis by (auto simp: fixupOne_def makeSpaceOne_def Let_def)
qed

text \<open>The default direction of the layout is the lower-case \<open>tb\<close>, which the comparison with \<open>TB\<close> does not
  recognise: then the room goes to the height, and the label loses its offset from the width for good.\<close>

lemma label_width_lost_by_default:
  assumes "l_labelpos l = ''r''" "l_xy l \<noteq> None"
  shows "l_width (fixupOne (makeSpaceOne ''tb'' l)) = l_width l - l_labeloffset l"
    "l_height (fixupOne (makeSpaceOne ''tb'' l)) = l_height l + l_labeloffset l"
proof -
  have "toLowerCase ''r'' = ''r''" by code_simp
  with assms show "l_width (fixupOne (makeSpaceOne ''tb'' l)) = l_width l - l_labeloffset l"
    "l_height (fixupOne (makeSpaceOne ''tb'' l)) = l_height l + l_labeloffset l"
    by (auto simp: fixupOne_def makeSpaceOne_def Let_def)
qed

end
