(* ===== verification/Dagre_Translate.thy ===== *)
theory Dagre_Translate
  imports Dagre_Coordinates
begin

text \<open>
  The end of the layout (\<open>lib/layout\<close>): \<open>translateGraph\<close> moves the drawing to its margins and computes its size. The
  theorem: the translation is rigid and everything with an extent lies inside the margins.
\<close>

section \<open>Extremes\<close>

text \<open>\<open>None\<close> is the infinity that the minima start with.\<close>

record extremes =
  x_minX :: "real option"
  x_maxX :: real
  x_minY :: "real option"
  x_maxY :: real

definition min_from :: "real option \<Rightarrow> real \<Rightarrow> real option" where
  "min_from m a = Some (case m of None \<Rightarrow> a | Some b \<Rightarrow> min b a)"

definition getExtremes :: "point \<Rightarrow> real \<Rightarrow> real \<Rightarrow> extremes \<Rightarrow> extremes" where
  "getExtremes p w h ex =
     (case p of (x, y) \<Rightarrow>
      \<lparr>x_minX = min_from (x_minX ex) (x - w / 2), x_maxX = max (x_maxX ex) (x + w / 2),
       x_minY = min_from (x_minY ex) (y - h / 2), x_maxY = max (x_maxY ex) (y + h / 2)\<rparr>)"

definition nodeExtremes :: "layoutGraph \<Rightarrow> string \<Rightarrow> extremes \<Rightarrow> extremes result" where
  "nodeExtremes g v ex =
     rbind (deref (node v g)) (\<lambda>l. Inr (getExtremes (n_x l, n_y l) (n_width l) (n_height l) ex))"

definition edgeExtremes :: "layoutGraph \<Rightarrow> edgeObj \<Rightarrow> extremes \<Rightarrow> extremes result" where
  "edgeExtremes g e ex =
     rbind (deref (edgeOfObj e g)) (\<lambda>l.
       Inr (case l_xy l of Some p \<Rightarrow> getExtremes p (l_width l) (l_height l) ex | None \<Rightarrow> ex))"

definition orZero :: "real option \<Rightarrow> real" where
  "orZero m = (case m of Some a \<Rightarrow> a | None \<Rightarrow> 0)"

definition shift :: "real \<Rightarrow> real \<Rightarrow> point \<Rightarrow> point" where
  "shift dx dy p = (case p of (x, y) \<Rightarrow> (x - dx, y - dy))"

text \<open>Without nodes the minima stay infinite, but then there is nothing to move; the size is minus infinity.\<close>

definition translateGraph :: "layoutGraph \<Rightarrow> layoutGraph result" where
  "translateGraph g =
     rbind (deref (graph g)) (\<lambda>gl.
     let marginX = orZero (g_marginx gl); marginY = orZero (g_marginy gl) in
     rbind (rfold (nodeExtremes g) (nodes g) \<lparr>x_minX = None, x_maxX = 0, x_minY = None, x_maxY = 0\<rparr>) (\<lambda>ex1.
     rbind (rfold (edgeExtremes g) (edges g) ex1) (\<lambda>ex.
       let minX = map_option (\<lambda>m. m - marginX) (x_minX ex); minY = map_option (\<lambda>m. m - marginY) (x_minY ex);
           move = shift (orZero minX) (orZero minY)
       in rbind (rbind (eachNode (moveNode move) g) (eachEdge (moveEdge move))) (\<lambda>h.
            mutGraph (\<lambda>gl. gl\<lparr>g_width := map_option (\<lambda>m. x_maxX ex - m + marginX) minX,
                             g_height := map_option (\<lambda>m. x_maxY ex - m + marginY) minY\<rparr>) h))))"

text \<open>A box inside the extremes.\<close>

definition covers :: "extremes \<Rightarrow> point \<Rightarrow> real \<Rightarrow> real \<Rightarrow> bool" where
  "covers ex p w h \<longleftrightarrow> (\<exists>mx my. x_minX ex = Some mx \<and> x_minY ex = Some my \<and>
     mx \<le> fst p - w / 2 \<and> fst p + w / 2 \<le> x_maxX ex \<and> my \<le> snd p - h / 2 \<and> snd p + h / 2 \<le> x_maxY ex)"

lemma covers_new: "covers (getExtremes p w h ex) p w h"
  by (auto simp: covers_def getExtremes_def min_from_def split: option.splits prod.splits)

lemma covers_mono: "covers ex p w h \<Longrightarrow> covers (getExtremes q w' h' ex) p w h"
  by (auto simp: covers_def getExtremes_def min_from_def split: prod.splits)

definition node_covered :: "layoutGraph \<Rightarrow> extremes \<Rightarrow> string \<Rightarrow> bool" where
  "node_covered g ex v \<longleftrightarrow> (\<forall>l. node v g = Some l \<longrightarrow> covers ex (n_x l, n_y l) (n_width l) (n_height l))"

definition edge_covered :: "layoutGraph \<Rightarrow> extremes \<Rightarrow> edgeObj \<Rightarrow> bool" where
  "edge_covered g ex e \<longleftrightarrow> (\<forall>l p. edgeOfObj e g = Some l \<and> l_xy l = Some p \<longrightarrow> covers ex p (l_width l) (l_height l))"

lemma extremes_ok:
  assumes lab: "labelled g"
  shows "\<exists>ex1 ex. rfold (nodeExtremes g) (nodes g) ex0 = Inr ex1 \<and> rfold (edgeExtremes g) (edges g) ex1 = Inr ex \<and>
    (\<forall>v \<in> node_set g. node_covered g ex v) \<and> (\<forall>e \<in> set (edges g). edge_covered g ex e)"
proof -
  have "\<exists>ex1. rfold (nodeExtremes g) (nodes g) ex0 = Inr ex1 \<and> (\<forall>v \<in> set (nodes g). node_covered g ex1 v)"
  proof (rule rfold_prefix_invariant [where P = "\<lambda>ys ex. \<forall>v \<in> set ys. node_covered g ex v"])
    fix ys v zs ex
    assume "nodes g = ys @ v # zs" and P: "\<forall>v \<in> set ys. node_covered g ex v"
    then have "v \<in> node_set g" by (simp flip: nodes_set)
    then obtain l where "node v g = Some l" using lab by (auto simp: labelled_def)
    with P show "\<exists>ex'. nodeExtremes g v ex = Inr ex' \<and> (\<forall>v \<in> set (ys @ [v]). node_covered g ex' v)"
      by (auto simp: nodeExtremes_def node_covered_def covers_new covers_mono)
  qed simp
  then obtain ex1 where ex1: "rfold (nodeExtremes g) (nodes g) ex0 = Inr ex1" "\<forall>v \<in> node_set g. node_covered g ex1 v"
    by (auto simp: nodes_set)
  let ?P = "\<lambda>ys ex. (\<forall>v \<in> node_set g. node_covered g ex v) \<and> (\<forall>e \<in> set ys. edge_covered g ex e)"
  have "\<exists>ex. rfold (edgeExtremes g) (edges g) ex1 = Inr ex \<and> ?P (edges g) ex"
  proof (rule rfold_prefix_invariant [where P = ?P])
    fix ys e zs ex
    assume "edges g = ys @ e # zs" and P: "?P ys ex"
    then obtain l where l: "edgeOfObj e g = Some l" using lab by (auto simp: labelled_def)
    show "\<exists>ex'. edgeExtremes g e ex = Inr ex' \<and> ?P (ys @ [e]) ex'"
    proof (cases "l_xy l")
      case None
      with l P show ?thesis by (simp add: edgeExtremes_def edge_covered_def)
    next
      case (Some p)
      with l P show ?thesis
        by (auto simp: edgeExtremes_def edge_covered_def node_covered_def covers_new covers_mono)
    qed
  qed (use ex1(2) in simp)
  with ex1(1) show ?thesis by blast
qed

text \<open>A box inside a drawing of a given size with given margins.\<close>

definition inside :: "layoutLabel \<Rightarrow> point \<Rightarrow> real \<Rightarrow> real \<Rightarrow> bool" where
  "inside gl p w h \<longleftrightarrow> (\<exists>W H. g_width gl = Some W \<and> g_height gl = Some H \<and>
     orZero (g_marginx gl) \<le> fst p - w / 2 \<and> fst p + w / 2 \<le> W - orZero (g_marginx gl) \<and>
     orZero (g_marginy gl) \<le> snd p - h / 2 \<and> snd p + h / 2 \<le> H - orZero (g_marginy gl))"

lemma covers_inside:
  assumes "covers ex p w h"
    and "g_marginx gl' = g_marginx gl" "g_marginy gl' = g_marginy gl"
    and "g_width gl' = map_option (\<lambda>m. x_maxX ex - m + orZero (g_marginx gl)) (map_option (\<lambda>m. m - orZero (g_marginx gl)) (x_minX ex))"
    and "g_height gl' = map_option (\<lambda>m. x_maxY ex - m + orZero (g_marginy gl)) (map_option (\<lambda>m. m - orZero (g_marginy gl)) (x_minY ex))"
  shows "inside gl' (shift (orZero (map_option (\<lambda>m. m - orZero (g_marginx gl)) (x_minX ex)))
    (orZero (map_option (\<lambda>m. m - orZero (g_marginy gl)) (x_minY ex))) p) w h"
  using assms by (cases p) (auto simp: covers_def inside_def shift_def orZero_def)

text \<open>C28. The finished drawing lies inside its margins: \<open>translateGraph\<close> on a graph with labels does not throw, moves
  every node, every point of an edge and every edge label by the same distance, changes no size, and then every
  node and every edge label that has a position lies with its whole box between the margins and the computed
  width and height less the margins.\<close>

theorem drawing_inside_margins:
  assumes lab: "labelled g"
  shows "\<exists>h gl dx dy. translateGraph g = Inr h \<and> labelled h \<and> nodes h = nodes g \<and> edges h = edges g \<and> graph h = Some gl \<and>
    (\<forall>v \<in> node_set g. node v h = map_option (moveNode (shift dx dy)) (node v g)) \<and>
    (\<forall>e \<in> set (edges g). edgeOfObj e h = map_option (moveEdge (shift dx dy)) (edgeOfObj e g)) \<and>
    (\<forall>v \<in> node_set g. \<forall>l. node v h = Some l \<longrightarrow> inside gl (n_x l, n_y l) (n_width l) (n_height l)) \<and>
    (\<forall>e \<in> set (edges g). \<forall>l p. edgeOfObj e h = Some l \<and> l_xy l = Some p \<longrightarrow> inside gl p (l_width l) (l_height l))"
proof -
  obtain gl where gl: "graph g = Some gl" using lab by (auto simp: labelled_def)
  let ?mX = "orZero (g_marginx gl)" let ?mY = "orZero (g_marginy gl)"
  let ?ex0 = "\<lparr>x_minX = None, x_maxX = 0, x_minY = None, x_maxY = 0\<rparr>"
  obtain ex1 ex where ex: "rfold (nodeExtremes g) (nodes g) ?ex0 = Inr ex1" "rfold (edgeExtremes g) (edges g) ex1 = Inr ex"
    and cov: "\<forall>v \<in> node_set g. node_covered g ex v" "\<forall>e \<in> set (edges g). edge_covered g ex e"
    using extremes_ok [OF lab] by blast
  let ?minX = "map_option (\<lambda>m. m - ?mX) (x_minX ex)" let ?minY = "map_option (\<lambda>m. m - ?mY) (x_minY ex)"
  let ?move = "shift (orZero ?minX) (orZero ?minY)"
  obtain h where h: "rbind (eachNode (moveNode ?move) g) (eachEdge (moveEdge ?move)) = Inr h"
    "relabels (moveNode ?move) (moveEdge ?move) g h" using each_ok [OF lab] by blast
  let ?gl = "gl\<lparr>g_width := map_option (\<lambda>m. x_maxX ex - m + ?mX) ?minX, g_height := map_option (\<lambda>m. x_maxY ex - m + ?mY) ?minY\<rparr>"
  let ?k = "setGraph (Some ?gl) h"
  have t: "translateGraph g = Inr ?k"
    using gl ex h by (simp add: translateGraph_def Let_def mutGraph_def relabels_def)
  have R: "labelled h" "same_shape g h" "\<And>v. v \<in> node_set g \<Longrightarrow> node v h = map_option (moveNode ?move) (node v g)"
    "\<And>e. e \<in> set (edges g) \<Longrightarrow> edgeOfObj e h = map_option (moveEdge ?move) (edgeOfObj e g)"
    using h(2) by (simp_all add: relabels_def)
  have same: "nodes ?k = nodes h" "edges ?k = edges h" "node v ?k = node v h" "edgeOfObj e ?k = edgeOfObj e h" for v e
    by (simp_all add: setGraph_def nodes_def edges_def node_def edgeOfObj_def)
  have "same_shape h ?k" by (simp add: same_shape_def setGraph_def)
  then have lk: "labelled ?k"
    using R(1) same_shape_ok [of h ?k] same by (simp add: labelled_def nodes_set [symmetric]) (simp add: setGraph_def graph_def)
  have n: "inside ?gl (n_x l, n_y l) (n_width l) (n_height l)" if "v \<in> node_set g" "node v ?k = Some l" for v l
  proof -
    from that R(3) [of v] same(3) obtain l0 where l0: "node v g = Some l0" "l = moveNode ?move l0" by auto
    with cov(1) that(1) have "covers ex (n_x l0, n_y l0) (n_width l0) (n_height l0)" by (simp add: node_covered_def)
    from covers_inside [OF this, of ?gl gl] l0(2) show ?thesis by (simp add: moveNode_def)
  qed
  have e: "inside ?gl p (l_width l) (l_height l)" if "x \<in> set (edges g)" "edgeOfObj x ?k = Some l" "l_xy l = Some p" for x l p
  proof -
    from that R(4) [of x] same(4) obtain l0 p0 where l0: "edgeOfObj x g = Some l0" "l = moveEdge ?move l0"
      "l_xy l0 = Some p0" "p = ?move p0" by (auto simp: moveEdge_def)
    have "covers ex p0 (l_width l0) (l_height l0)" using cov(2) that(1) l0(1,3) unfolding edge_covered_def by blast
    from covers_inside [OF this, of ?gl gl] l0(2,4) show ?thesis by (simp add: moveEdge_def)
  qed
  show ?thesis
    using t lk n e R(3,4) same same_shapeD(1,2) [OF R(2)]
    by (intro exI [of _ ?k] exI [of _ ?gl] exI [of _ "orZero ?minX"] exI [of _ "orZero ?minY"])
      (auto simp: setGraph_def graph_def)
qed

theorem drawing_inside_margins_witness:
  "\<exists>g h gl. setNode ''a'' (Some (Some exampleNode)) (setGraph (Some exampleLabel) (newGraph None None None)) = Inr g \<and>
     translateGraph g = Inr h \<and> graph h = Some gl \<and> nodes h = [''a''] \<and> labelled h"
proof -
  obtain g :: layoutGraph where g: "setNode ''a'' (Some (Some exampleNode)) (setGraph (Some exampleLabel) (newGraph None None None)) = Inr g"
    "labelled g" "nodes g = [''a'']" using example_graph by blast
  from drawing_inside_margins [OF g(2)] obtain h gl where
    "translateGraph g = Inr h" "labelled h" "nodes h = nodes g" "graph h = Some gl" by blast
  with g show ?thesis by auto
qed

end
