(* ===== verification/Dagre_Intersect.thy ===== *)
theory Dagre_Intersect
  imports Dagre_Graph
begin

text \<open>
  Where an edge meets the border of a node: \<open>intersectRect\<close> of dagre (\<open>lib/util\<close>) and the intersections of
  dagre-d3 (\<open>lib/intersect\<close>) with a rectangle, an ellipse, a circle, a line and a polygon, over the reals. A
  division by zero, which gives \<open>NaN\<close> or an infinity, is \<open>None\<close>.
\<close>

record box =
  b_x :: real
  b_y :: real
  b_width :: real
  b_height :: real

definition divide_js :: "real \<Rightarrow> real \<Rightarrow> real option" where
  "divide_js a b = (if b = 0 then None else Some (a / b))"

section \<open>Rectangles\<close>

text \<open>The version of dagre, which throws at the centre.\<close>

definition intersectRect :: "box \<Rightarrow> point \<Rightarrow> (real option \<times> real option) result" where
  "intersectRect rect p =
     (let x = b_x rect; y = b_y rect; dx = fst p - x; dy = snd p - y; w = b_width rect / 2; h = b_height rect / 2 in
      if dx = 0 \<and> dy = 0 then Inl (Error ''Not possible to find intersection inside of the rectangle'')
      else if \<bar>dy\<bar> * w > \<bar>dx\<bar> * h then
        let h' = (if dy < 0 then - h else h) in
        Inr (map_option (\<lambda>sx. x + sx) (divide_js (h' * dx) dy), Some (y + h'))
      else
        let w' = (if dx < 0 then - w else w) in
        Inr (Some (x + w'), map_option (\<lambda>sy. y + sy) (divide_js (w' * dy) dx)))"

text \<open>The version of dagre-d3, which guards the divisions.\<close>

definition rectOffset :: "real \<Rightarrow> real \<Rightarrow> real \<Rightarrow> real \<Rightarrow> point" where
  "rectOffset dx dy w h =
     (if \<bar>dy\<bar> * w > \<bar>dx\<bar> * h then
        let h' = (if dy < 0 then - h else h) in (if dy = 0 then 0 else h' * dx / dy, h')
      else
        let w' = (if dx < 0 then - w else w) in (w', if dx = 0 then 0 else w' * dy / dx))"

definition intersectRect_d3 :: "box \<Rightarrow> point \<Rightarrow> point" where
  "intersectRect_d3 rect p =
     (case rectOffset (fst p - b_x rect) (snd p - b_y rect) (b_width rect / 2) (b_height rect / 2) of
        (sx, sy) \<Rightarrow> (b_x rect + sx, b_y rect + sy))"

text \<open>A point on the border of a box, in the direction of another one.\<close>

definition on_border :: "box \<Rightarrow> point \<Rightarrow> bool" where
  "on_border b q \<longleftrightarrow> \<bar>fst q - b_x b\<bar> \<le> b_width b / 2 \<and> \<bar>snd q - b_y b\<bar> \<le> b_height b / 2 \<and>
     (\<bar>fst q - b_x b\<bar> = b_width b / 2 \<or> \<bar>snd q - b_y b\<bar> = b_height b / 2)"

definition towards :: "box \<Rightarrow> point \<Rightarrow> point \<Rightarrow> bool" where
  "towards b p q \<longleftrightarrow> (\<exists>t \<ge> 0. fst q - b_x b = t * (fst p - b_x b) \<and> snd q - b_y b = t * (snd p - b_y b))"

lemma scaled_side:
  fixes a b s t :: real
  assumes "a \<noteq> 0" "\<bar>b\<bar> * s \<le> \<bar>a\<bar> * t" "0 \<le> s"
  shows "\<bar>s * b / a\<bar> \<le> t"
proof -
  have "\<bar>s * b / a\<bar> = s * \<bar>b\<bar> / \<bar>a\<bar>" using assms(3) by (simp add: abs_mult)
  also have "\<dots> \<le> t" using assms by (simp add: pos_divide_le_eq mult.commute)
  finally show ?thesis .
qed

lemma rectOffset_ok:
  assumes w: "0 < w" and h: "0 < h" and d: "dx \<noteq> 0 \<or> dy \<noteq> 0" and o: "rectOffset dx dy w h = (sx, sy)"
  shows "\<bar>sx\<bar> \<le> w" "\<bar>sy\<bar> \<le> h" "\<bar>sx\<bar> = w \<or> \<bar>sy\<bar> = h" "\<exists>t \<ge> 0. sx = t * dx \<and> sy = t * dy"
proof -
  have "\<bar>sx\<bar> \<le> w \<and> \<bar>sy\<bar> \<le> h \<and> (\<bar>sx\<bar> = w \<or> \<bar>sy\<bar> = h) \<and> (\<exists>t \<ge> 0. sx = t * dx \<and> sy = t * dy)"
  proof (cases "\<bar>dy\<bar> * w > \<bar>dx\<bar> * h")
    case True
    then have dy: "dy \<noteq> 0" using h by (auto simp: zero_less_mult_iff not_less mult_less_0_iff)
    have "\<bar>h * dx / dy\<bar> \<le> w" using scaled_side [OF dy, of dx h w] True h by simp
    moreover have "sx = h / \<bar>dy\<bar> * dx" "sy = h / \<bar>dy\<bar> * dy" "\<bar>sx\<bar> = \<bar>h * dx / dy\<bar>" "\<bar>sy\<bar> = h"
      using o True dy h by (auto simp: rectOffset_def Let_def abs_if split: if_splits)
    moreover have "\<exists>t \<ge> 0. sx = t * dx \<and> sy = t * dy"
      using calculation(2,3) h by (intro exI [of _ "h / \<bar>dy\<bar>"] conjI) (simp, assumption+)
    ultimately show ?thesis by (metis order_refl)
  next
    case False
    then have dx: "dx \<noteq> 0" using d w by (auto simp: not_less mult_le_0_iff)
    have "\<bar>w * dy / dx\<bar> \<le> h" using scaled_side [OF dx, of dy w h] False w by simp
    moreover have "sx = w / \<bar>dx\<bar> * dx" "sy = w / \<bar>dx\<bar> * dy" "\<bar>sy\<bar> = \<bar>w * dy / dx\<bar>" "\<bar>sx\<bar> = w"
      using o False dx w by (auto simp: rectOffset_def Let_def abs_if split: if_splits)
    moreover have "\<exists>t \<ge> 0. sx = t * dx \<and> sy = t * dy"
      using calculation(2,3) w by (intro exI [of _ "w / \<bar>dx\<bar>"] conjI) (simp, assumption+)
    ultimately show ?thesis by (metis order_refl)
  qed
  then show "\<bar>sx\<bar> \<le> w" "\<bar>sy\<bar> \<le> h" "\<bar>sx\<bar> = w \<or> \<bar>sy\<bar> = h" "\<exists>t \<ge> 0. sx = t * dx \<and> sy = t * dy" by blast+
qed

text \<open>From outside of the centre, and for a box with an extent in both directions, the point is on the border
  and on the way to the centre.\<close>

lemma intersectRect_d3_ok:
  assumes w: "0 < b_width b" and h: "0 < b_height b" and p: "p \<noteq> (b_x b, b_y b)"
  shows "on_border b (intersectRect_d3 b p)" "towards b p (intersectRect_d3 b p)"
proof -
  obtain sx sy where o: "rectOffset (fst p - b_x b) (snd p - b_y b) (b_width b / 2) (b_height b / 2) = (sx, sy)"
    by fastforce
  have d: "fst p - b_x b \<noteq> 0 \<or> snd p - b_y b \<noteq> 0" using p by (cases p) auto
  have q: "intersectRect_d3 b p = (b_x b + sx, b_y b + sy)" by (simp add: intersectRect_d3_def o)
  have "0 < b_width b / 2" "0 < b_height b / 2" using w h by simp_all
  from rectOffset_ok [OF this d o] q show "on_border b (intersectRect_d3 b p)" "towards b p (intersectRect_d3 b p)"
    unfolding on_border_def towards_def q fst_conv snd_conv add_diff_cancel_left' by blast+
qed

text \<open>The two versions agree for such boxes; the one of dagre divides by zero when a box has no width and the
  point is straight above or below it.\<close>

lemma intersectRect_agrees:
  assumes "0 < b_width b" "0 < b_height b" "p \<noteq> (b_x b, b_y b)"
  shows "intersectRect b p = Inr (Some (fst (intersectRect_d3 b p)), Some (snd (intersectRect_d3 b p)))"
proof -
  let ?dx = "fst p - b_x b" and ?dy = "snd p - b_y b" and ?w = "b_width b / 2" and ?h = "b_height b / 2"
  have d: "\<not> (?dx = 0 \<and> ?dy = 0)" using assms(3) by (cases p) auto
  have w: "0 < ?w" "0 < ?h" using assms by simp_all
  show ?thesis
  proof (cases "\<bar>?dy\<bar> * ?w > \<bar>?dx\<bar> * ?h")
    case True
    then have "?dy \<noteq> 0" using w by (auto simp: zero_less_mult_iff not_less mult_less_0_iff)
    with True d show ?thesis by (simp add: intersectRect_def intersectRect_d3_def rectOffset_def Let_def divide_js_def)
  next
    case False
    then have "?dx \<noteq> 0" using d w by (auto simp: not_less mult_le_0_iff)
    with False d show ?thesis by (simp add: intersectRect_def intersectRect_d3_def rectOffset_def Let_def divide_js_def)
  qed
qed

text \<open>C29. Where an edge ends at a rectangular node (\<open>lib/intersect/intersect-rect\<close> of dagre-d3): the point is on the border of the node, on
  the straight line from its centre to the other point; and \<open>intersectRect\<close> of dagre (\<open>lib/util\<close>) computes the same point. The node has an
  extent in both directions and the other point is not its centre.\<close>

theorem edge_ends_on_the_border:
  assumes "0 < b_width b" "0 < b_height b" "p \<noteq> (b_x b, b_y b)"
  shows "on_border b (intersectRect_d3 b p) \<and> towards b p (intersectRect_d3 b p) \<and>
    intersectRect b p = Inr (Some (fst (intersectRect_d3 b p)), Some (snd (intersectRect_d3 b p)))"
  using intersectRect_d3_ok [OF assms] intersectRect_agrees [OF assms] by blast

definition exampleBox :: box where
  "exampleBox = \<lparr>b_x = 0, b_y = 0, b_width = 10, b_height = 20\<rparr>"

theorem edge_ends_on_the_border_witness:
  "on_border exampleBox (intersectRect_d3 exampleBox (30, 0)) \<and> intersectRect exampleBox (30, 0) = Inr (Some 5, Some 0)"
proof -
  have "0 < b_width exampleBox" "0 < b_height exampleBox" "(30, 0) \<noteq> (b_x exampleBox, b_y exampleBox)" by (simp_all add: exampleBox_def)
  from edge_ends_on_the_border [OF this] show ?thesis
    by (simp add: intersectRect_d3_def rectOffset_def exampleBox_def)
qed

lemma intersectRect_not_a_number:
  "intersectRect \<lparr>b_x = 0, b_y = 0, b_width = 0, b_height = 20\<rparr> (0, 30) = Inr (Some 0, None)"
  by (simp add: intersectRect_def Let_def divide_js_def)

section \<open>Ellipses and circles\<close>

definition ellipseOffset :: "real \<Rightarrow> real \<Rightarrow> bool \<Rightarrow> real option" where
  "ellipseOffset a det before_centre =
     (let d = map_option abs (divide_js a det) in if before_centre then map_option uminus d else d)"

definition intersectEllipse :: "box \<Rightarrow> real \<Rightarrow> real \<Rightarrow> point \<Rightarrow> (real option \<times> real option)" where
  "intersectEllipse nd rx ry p =
     (let cx = b_x nd; cy = b_y nd; px = cx - fst p; py = cy - snd p;
          det = sqrt (rx * rx * py * py + ry * ry * px * px);
          dx = ellipseOffset (rx * ry * px) det (fst p < cx);
          dy = ellipseOffset (rx * ry * py) det (snd p < cy)
      in (map_option (\<lambda>d. cx + d) dx, map_option (\<lambda>d. cy + d) dy))"

definition intersectCircle :: "box \<Rightarrow> real \<Rightarrow> point \<Rightarrow> (real option \<times> real option)" where
  "intersectCircle nd rx p = intersectEllipse nd rx rx p"

lemma ellipseOffset_ok: "det \<noteq> 0 \<Longrightarrow> \<exists>d. ellipseOffset a det c = Some d \<and> \<bar>d\<bar> = \<bar>a / det\<bar>"
  by (cases c) (simp_all add: ellipseOffset_def divide_js_def)

text \<open>The point is on the ellipse.\<close>

lemma intersectEllipse_ok:
  assumes r: "0 < rx" "0 < ry" and p: "p \<noteq> (b_x nd, b_y nd)"
  shows "\<exists>x y. intersectEllipse nd rx ry p = (Some x, Some y) \<and>
    ((x - b_x nd) / rx)\<^sup>2 + ((y - b_y nd) / ry)\<^sup>2 = 1"
proof -
  let ?px = "b_x nd - fst p" and ?py = "b_y nd - snd p"
  let ?D = "rx * rx * ?py * ?py + ry * ry * ?px * ?px" and ?det = "sqrt (rx * rx * ?py * ?py + ry * ry * ?px * ?px)"
  have D: "?D = (rx * ?py)\<^sup>2 + (ry * ?px)\<^sup>2" by (simp add: power2_eq_square algebra_simps)
  have "?px \<noteq> 0 \<or> ?py \<noteq> 0" using p by (cases p) auto
  then have pos: "0 < ?D" unfolding D using r by (auto simp: sum_power2_gt_zero_iff)
  then have det: "?det \<noteq> 0" "?det\<^sup>2 = ?D" by simp_all
  obtain x y where xy: "intersectEllipse nd rx ry p = (Some x, Some y)"
    "\<bar>x - b_x nd\<bar> = \<bar>rx * ry * ?px / ?det\<bar>" "\<bar>y - b_y nd\<bar> = \<bar>rx * ry * ?py / ?det\<bar>"
  proof -
    obtain dx dy where "ellipseOffset (rx * ry * ?px) ?det (fst p < b_x nd) = Some dx" "\<bar>dx\<bar> = \<bar>rx * ry * ?px / ?det\<bar>"
      "ellipseOffset (rx * ry * ?py) ?det (snd p < b_y nd) = Some dy" "\<bar>dy\<bar> = \<bar>rx * ry * ?py / ?det\<bar>"
      using ellipseOffset_ok [OF det(1)] by blast
    then show thesis using that [of "b_x nd + dx" "b_y nd + dy"] by (simp only: intersectEllipse_def Let_def) simp
  qed
  have "((x - b_x nd) / rx)\<^sup>2 = (rx * ry * ?px / ?det)\<^sup>2 / rx\<^sup>2" "((y - b_y nd) / ry)\<^sup>2 = (rx * ry * ?py / ?det)\<^sup>2 / ry\<^sup>2"
    using xy(2,3) by (metis power_divide power2_abs)+
  then have "((x - b_x nd) / rx)\<^sup>2 = (ry * ?px)\<^sup>2 / ?D" "((y - b_y nd) / ry)\<^sup>2 = (rx * ?py)\<^sup>2 / ?D"
    using r det(2) by (simp_all add: power_divide power_mult_distrib)
  then have "((x - b_x nd) / rx)\<^sup>2 + ((y - b_y nd) / ry)\<^sup>2 = ((rx * ?py)\<^sup>2 + (ry * ?px)\<^sup>2) / ?D"
    by (simp only: add_divide_distrib add.commute)
  also have "\<dots> = 1" unfolding D [symmetric] using pos by (metis divide_self less_irrefl)
  finally have "((x - b_x nd) / rx)\<^sup>2 + ((y - b_y nd) / ry)\<^sup>2 = 1" .
  with xy(1) show ?thesis by blast
qed

section \<open>Lines and polygons\<close>

definition sameSign :: "real \<Rightarrow> real \<Rightarrow> bool" where
  "sameSign r1 r2 \<longleftrightarrow> r1 * r2 > 0"

definition roundedQuotient :: "real \<Rightarrow> real \<Rightarrow> real" where
  "roundedQuotient num denom =
     (let offset = \<bar>denom / 2\<bar> in if num < 0 then (num - offset) / denom else (num + offset) / denom)"

definition intersectLine :: "point \<Rightarrow> point \<Rightarrow> point \<Rightarrow> point \<Rightarrow> point option" where
  "intersectLine p1 p2 q1 q2 =
     (let a1 = snd p2 - snd p1; b1 = fst p1 - fst p2; c1 = (fst p2 * snd p1) - (fst p1 * snd p2);
          r3 = a1 * fst q1 + b1 * snd q1 + c1; r4 = a1 * fst q2 + b1 * snd q2 + c1
      in if r3 \<noteq> 0 \<and> r4 \<noteq> 0 \<and> sameSign r3 r4 then None
         else
           let a2 = snd q2 - snd q1; b2 = fst q1 - fst q2; c2 = (fst q2 * snd q1) - (fst q1 * snd q2);
               r1 = a2 * fst p1 + b2 * snd p1 + c2; r2 = a2 * fst p2 + b2 * snd p2 + c2
           in if r1 \<noteq> 0 \<and> r2 \<noteq> 0 \<and> sameSign r1 r2 then None
              else
                let denom = a1 * b2 - a2 * b1 in
                if denom = 0 then None
                else Some (roundedQuotient (b1 * c2 - b2 * c1) denom, roundedQuotient (a2 * c1 - a1 * c2) denom))"

text \<open>The corner with the least coordinates; for no corner at all there is no line to intersect either.\<close>

definition minCorner :: "point list \<Rightarrow> point" where
  "minCorner ps = (Min (set (map fst ps)), Min (set (map snd ps)))"

definition distance :: "point \<Rightarrow> point \<Rightarrow> real" where
  "distance p q = sqrt ((fst p - fst q) * (fst p - fst q) + (snd p - snd q) * (snd p - snd q))"

definition polygonSides :: "point list \<Rightarrow> (point \<times> point) list" where
  "polygonSides ps = map (\<lambda>i. (ps ! i, ps ! (if i < length ps - 1 then i + 1 else 0))) [0..<length ps]"

definition intersectPolygon :: "box \<Rightarrow> point list \<Rightarrow> point \<Rightarrow> point" where
  "intersectPolygon nd polyPoints p =
     (let left = b_x nd - b_width nd / 2 - fst (minCorner polyPoints);
          upper = b_y nd - b_height nd / 2 - snd (minCorner polyPoints);
          at_corner = (\<lambda>q. (left + fst q, upper + snd q));
          intersections = concat (map (\<lambda>(q1, q2).
            (case intersectLine (b_x nd, b_y nd) p (at_corner q1) (at_corner q2) of Some i \<Rightarrow> [i] | None \<Rightarrow> []))
            (polygonSides polyPoints))
      in case intersections of
           [] \<Rightarrow> (b_x nd, b_y nd)
         | _ \<Rightarrow> hd (sort_key (\<lambda>i. distance i p) intersections))"

text \<open>The point that is returned is the intersection with a side that is nearest to the end of the edge.\<close>

lemma hd_sort_key_least:
  assumes "xs \<noteq> []" "x \<in> set xs"
  shows "hd (sort_key f xs) \<in> set xs" "f (hd (sort_key f xs)) \<le> f x"
proof -
  have ne: "sort_key f xs \<noteq> []" using assms(1) by (metis length_0_conv length_sort)
  then show "hd (sort_key f xs) \<in> set xs" by (metis hd_in_set set_sort)
  have "sorted (map f (sort_key f xs))" by simp
  with ne assms(2) show "f (hd (sort_key f xs)) \<le> f x"
    by (cases "sort_key f xs") (auto simp flip: set_sort [of f xs])
qed

lemma intersectPolygon_nearest:
  fixes nd :: box
  assumes side: "(q1, q2) \<in> set (polygonSides ps)"
  defines "left \<equiv> b_x nd - b_width nd / 2 - fst (minCorner ps)" and "upper \<equiv> b_y nd - b_height nd / 2 - snd (minCorner ps)"
  assumes i: "intersectLine (b_x nd, b_y nd) p (left + fst q1, upper + snd q1) (left + fst q2, upper + snd q2) = Some i"
  shows "distance (intersectPolygon nd ps p) p \<le> distance i p"
proof -
  let ?is = "concat (map (\<lambda>(q1, q2). (case intersectLine (b_x nd, b_y nd) p (left + fst q1, upper + snd q1) (left + fst q2, upper + snd q2) of
    Some i \<Rightarrow> [i] | None \<Rightarrow> [])) (polygonSides ps))"
  have "i \<in> set ?is" using side i unfolding set_concat set_map by (intro UN_I [OF imageI [OF side]]) simp
  then have ne: "?is \<noteq> []" by (metis empty_iff list.set(1))
  have "intersectPolygon nd ps p = (case ?is of [] \<Rightarrow> (b_x nd, b_y nd) | _ \<Rightarrow> hd (sort_key (\<lambda>i. distance i p) ?is))"
    by (simp only: intersectPolygon_def Let_def left_def upper_def)
  also have "\<dots> = hd (sort_key (\<lambda>i. distance i p) ?is)" using ne by (cases "?is") (simp_all only: list.case, simp)
  finally show ?thesis using hd_sort_key_least(2) [OF ne \<open>i \<in> set ?is\<close>] by simp
qed

text \<open>The offset of half the denominator, meant to round an integer division, moves the point that the real
  division gives by one half in each coordinate.\<close>

lemma roundedQuotient_off:
  assumes "denom \<noteq> 0"
  shows "\<bar>roundedQuotient num denom - num / denom\<bar> = 1 / 2"
  using assms by (auto simp: roundedQuotient_def Let_def abs_if add_divide_distrib diff_divide_distrib)

end
