(* ===== verification/Dagre_Feedback.thy ===== *)
theory Dagre_Feedback
  imports Dagre_Graph Graphlib_Traverse Graphlib_Json
begin

text \<open>
  Feedback arc sets, which both heuristics of the phase \<open>acyclic\<close> compute: the edges that go against a linear
  order of the nodes. Also the edges at a node as the loops over them see them, each once.
\<close>

section \<open>Edges at a node\<close>

lemma incident_distinct:
  fixes g :: "('g, 'n, 'e) Graph"
  assumes ok: "graph_ok g" and I: "inc_ok f (node_set g) (f_edgeObjs g) tab" and v: "v \<in> node_set g"
  shows "\<exists>ob. get tab v = Some ob \<and> distinct (vals ob)"
proof -
  obtain ob where g: "get tab v = Some ob" using v key_get [of v tab] I unfolding inc_ok_def by blast
  have ob: "obj_ok ob" "\<And>e. get ob e = incident f v (f_edgeObjs g) e" using I g unfolding inc_ok_def by blast+
  have key: "k = edgeObjToId (f_isDirected g) eo" if "get ob k = Some eo" for k eo
    using that ob(2) [of k] tables_okD(9) [OF graph_okD(3) [OF ok], of k]
    by (auto simp: incident_def edge_ok_def split: option.splits if_splits)
  have "inj_on snd (set ob)"
  proof (rule inj_onI)
    fix a b assume ab: "a \<in> set ob" "b \<in> set ob" "snd a = snd b"
    then have "get ob (fst a) = Some (snd a)" "get ob (fst b) = Some (snd b)" using get_mem_iff [OF ob(1)] by (metis prod.collapse)+
    with key ab(3) show "a = b" by (metis prod_eqI)
  qed
  then have "distinct (vals ob)" using ob(1) by (simp add: vals_def distinct_map obj_ok_def keys_def)
  with g show ?thesis by blast
qed

lemma each_outEdges:
  fixes g :: "('g, 'n, 'e) Graph"
  assumes "graph_ok g" "v \<in> node_set g"
  shows "set (each (outEdges v None g)) = {e \<in> set (edges g). e_v e = v}" "distinct (each (outEdges v None g))"
proof -
  obtain es where "outEdges v None g = Some es" "set es = {e \<in> set (edges g). e_v e = v}" using outEdges_spec [OF assms] by blast
  then show "set (each (outEdges v None g)) = {e \<in> set (edges g). e_v e = v}" by (simp add: each_def)
  obtain ob where "get (f_out g) v = Some ob" "distinct (vals ob)"
    using incident_distinct [OF assms(1) tables_okD(3) [OF graph_okD(3) [OF assms(1)]] assms(2)] by blast
  then show "distinct (each (outEdges v None g))" by (simp add: outEdges_def each_def)
qed

lemma each_inEdges:
  fixes g :: "('g, 'n, 'e) Graph"
  assumes "graph_ok g" "v \<in> node_set g"
  shows "set (each (inEdges v None g)) = {e \<in> set (edges g). e_w e = v}" "distinct (each (inEdges v None g))"
proof -
  obtain es where "inEdges v None g = Some es" "set es = {e \<in> set (edges g). e_w e = v}" using inEdges_spec [OF assms] by blast
  then show "set (each (inEdges v None g)) = {e \<in> set (edges g). e_w e = v}" by (simp add: each_def)
  obtain ob where "get (f_in g) v = Some ob" "distinct (vals ob)"
    using incident_distinct [OF assms(1) tables_okD(1) [OF graph_okD(3) [OF assms(1)]] assms(2)] by blast
  then show "distinct (each (inEdges v None g))" by (simp add: inEdges_def each_def)
qed

lemma each_outEdges_to:
  fixes g :: "('g, 'n, 'e) Graph"
  assumes "graph_ok g" "v \<in> node_set g" "w \<noteq> []"
  shows "each (outEdges v (Some w) g) = filter (\<lambda>e. e_w e = w) (each (outEdges v None g))"
proof -
  obtain ob where "get (f_out g) v = Some ob"
    using incident_distinct [OF assms(1) tables_okD(3) [OF graph_okD(3) [OF assms(1)]] assms(2)] by blast
  then show ?thesis using assms(3) by (simp add: outEdges_def each_def)
qed

section \<open>Orders of the nodes\<close>

definition precedes :: "string list \<Rightarrow> string \<Rightarrow> string \<Rightarrow> bool" where
  "precedes xs a b \<longleftrightarrow> (\<exists>ys zs. xs = ys @ b # zs \<and> a \<in> set ys)"

lemma precedes_append: "precedes xs a b \<Longrightarrow> precedes (xs @ ys) a b"
  by (auto simp: precedes_def) (metis append.assoc append_Cons)

lemma precedes_snoc: "a \<in> set xs \<Longrightarrow> precedes (xs @ [b]) a b"
  by (auto simp: precedes_def)

lemma precedes_Cons: "precedes xs a b \<Longrightarrow> precedes (x # xs) a b"
  by (auto simp: precedes_def) (metis append_Cons list.set_intros(2))

lemma precedes_head: "b \<in> set xs \<Longrightarrow> precedes (a # xs) a b"
  by (auto simp: precedes_def dest!: split_list) (metis append_Cons list.set_intros(1))

lemma precedes_across: "a \<in> set xs \<Longrightarrow> b \<in> set ys \<Longrightarrow> precedes (xs @ ys) a b"
  by (auto simp: precedes_def dest!: split_list [of b]) (metis Un_iff append.assoc set_append)

lemma precedes_rev:
  assumes "precedes xs a b"
  shows "precedes (rev xs) b a"
proof -
  obtain ys zs where xs: "xs = ys @ b # zs" "a \<in> set ys" using assms by (auto simp: precedes_def)
  then obtain us vs where "ys = us @ a # vs" by (meson split_list)
  with xs(1) have "rev xs = (rev zs @ b # rev vs) @ a # rev us" by simp
  then show ?thesis unfolding precedes_def by (metis Un_iff list.set_intros(1) set_append)
qed

definition feedback_set :: "('g, 'n, 'e) Graph \<Rightarrow> edgeObj list \<Rightarrow> string list \<Rightarrow> bool" where
  "feedback_set g fas fin \<longleftrightarrow> distinct fas \<and> set fas \<subseteq> set (edges g) \<and> distinct fin \<and> set fin = node_set g \<and>
     (\<forall>e \<in> set (edges g). if e \<in> set fas then precedes fin (e_v e) (e_w e) else precedes fin (e_w e) (e_v e))"

end
