(* ===== verification/Dagre_List.thy ===== *)
theory Dagre_List
  imports Js_Strings
begin

text \<open>
  The doubly linked list of dagre (\<open>lib/data/list\<close>). A list is a ring of objects through a sentinel that the
  list owns; the entries are the caller's objects, which carry their own links \<open>_next\<close> and \<open>_prev\<close>, so
  that an entry is in one list at most and \<open>enqueue\<close> takes it out of whichever list holds it. The links are an explicit
  store over the sentinels and the entries. The theorem: several lists in one store behave as a row of
  queues without common entries.
\<close>

section \<open>The store\<close>

datatype cell = Sentinel nat | Entry string

record listStore =
  p_next :: "cell \<Rightarrow> cell option"
  p_prev :: "cell \<Rightarrow> cell option"

definition emptyStore :: listStore where
  "emptyStore = \<lparr>p_next = (\<lambda>c. None), p_prev = (\<lambda>c. None)\<rparr>"

section \<open>The operations\<close>

text \<open>\<open>new List()\<close>, with the sentinel it makes.\<close>

definition newList :: "nat \<Rightarrow> listStore \<Rightarrow> listStore" where
  "newList s st = st\<lparr>p_next := (p_next st)(Sentinel s \<mapsto> Sentinel s), p_prev := (p_prev st)(Sentinel s \<mapsto> Sentinel s)\<rparr>"

definition unlink :: "cell \<Rightarrow> listStore \<Rightarrow> listStore result" where
  "unlink c st =
     rbind (deref (p_prev st c)) (\<lambda>p.
       let st1 = st\<lparr>p_next := (p_next st)(p := p_next st c)\<rparr>
       in rbind (deref (p_next st1 c)) (\<lambda>n.
         let st2 = st1\<lparr>p_prev := (p_prev st1)(n := p_prev st1 c)\<rparr>
         in Inr (st2\<lparr>p_next := (p_next st2)(c := None), p_prev := (p_prev st2)(c := None)\<rparr>)))"

definition dequeue :: "nat \<Rightarrow> listStore \<Rightarrow> (cell option \<times> listStore) result" where
  "dequeue s st =
     (case p_prev st (Sentinel s) of
        None \<Rightarrow> Inl (TypeError ''undefined'')
      | Some entry \<Rightarrow>
          if entry \<noteq> Sentinel s then rbind (unlink entry st) (\<lambda>st1. Inr (Some entry, st1))
          else Inr (None, st))"

definition enqueue :: "nat \<Rightarrow> cell \<Rightarrow> listStore \<Rightarrow> listStore result" where
  "enqueue s entry st =
     rbind (if p_prev st entry \<noteq> None \<and> p_next st entry \<noteq> None then unlink entry st else Inr st) (\<lambda>st1.
       let st2 = st1\<lparr>p_next := (p_next st1)(entry := p_next st1 (Sentinel s))\<rparr>
       in rbind (deref (p_next st2 (Sentinel s))) (\<lambda>n.
         let st3 = st2\<lparr>p_prev := (p_prev st2)(n \<mapsto> entry)\<rparr>;
             st4 = st3\<lparr>p_next := (p_next st3)(Sentinel s \<mapsto> entry)\<rparr>
         in Inr (st4\<lparr>p_prev := (p_prev st4)(entry \<mapsto> Sentinel s)\<rparr>)))"

text \<open>The loop of \<open>toString\<close> from the entry \<open>curr\<close> on, with the text of an entry without its links as an argument; the bound is
  on the number of entries.\<close>

fun entryStrings :: "nat \<Rightarrow> (cell \<Rightarrow> string) \<Rightarrow> nat \<Rightarrow> cell \<Rightarrow> listStore \<Rightarrow> string list result" where
  "entryStrings 0 text_of s cur st = Inl Diverges"
| "entryStrings (Suc n) text_of s cur st =
     (if cur = Sentinel s then Inr []
      else rbind (deref (p_prev st cur)) (\<lambda>c.
        rbind (entryStrings n text_of s c st) (\<lambda>strs. Inr (text_of cur # strs))))"

definition listToString :: "nat \<Rightarrow> (cell \<Rightarrow> string) \<Rightarrow> nat \<Rightarrow> listStore \<Rightarrow> string result" where
  "listToString bound text_of s st =
     rbind (deref (p_prev st (Sentinel s))) (\<lambda>cur.
     rbind (entryStrings bound text_of s cur st) (\<lambda>strs.
       Inr (''['' @ join_with '', '' strs @ '']'')))"

section \<open>Rings\<close>

text \<open>Each cell of the list is linked to the next one, both ways.\<close>

fun linked_up :: "listStore \<Rightarrow> cell list \<Rightarrow> bool" where
  "linked_up st (a # b # cs) \<longleftrightarrow> p_next st a = Some b \<and> p_prev st b = Some a \<and> linked_up st (b # cs)"
| "linked_up st cs \<longleftrightarrow> True"

lemma linked_up_append:
  "linked_up st (us @ a # b # vs) \<longleftrightarrow>
     linked_up st (us @ [a]) \<and> p_next st a = Some b \<and> p_prev st b = Some a \<and> linked_up st (b # vs)"
proof (induction us)
  case (Cons u us)
  then show ?case by (cases us) auto
qed simp

lemma linked_up_frame:
  assumes "\<And>c. c \<in> set (butlast cs) \<Longrightarrow> p_next st' c = p_next st c" "\<And>c. c \<in> set (tl cs) \<Longrightarrow> p_prev st' c = p_prev st c"
  shows "linked_up st' cs = linked_up st cs"
  using assms by (induction st cs rule: linked_up.induct) auto

definition ring :: "nat \<Rightarrow> string list \<Rightarrow> cell list" where
  "ring s xs = Sentinel s # map Entry xs @ [Sentinel s]"

definition before_of :: "nat \<Rightarrow> string list \<Rightarrow> cell" where
  "before_of s us = last (Sentinel s # map Entry us)"

definition after_of :: "nat \<Rightarrow> string list \<Rightarrow> cell" where
  "after_of s vs = hd (map Entry vs @ [Sentinel s])"

lemma ring_split: "ring s (us @ vs) = butlast (Sentinel s # map Entry us) @ before_of s us # after_of s vs # tl (map Entry vs @ [Sentinel s])"
proof -
  have "ring s (us @ vs) = (Sentinel s # map Entry us) @ map Entry vs @ [Sentinel s]" by (simp add: ring_def)
  also have "Sentinel s # map Entry us = butlast (Sentinel s # map Entry us) @ [before_of s us]" by (simp add: before_of_def)
  also have "map Entry vs @ [Sentinel s] = after_of s vs # tl (map Entry vs @ [Sentinel s])"
    by (simp add: after_of_def)
  finally show ?thesis by simp
qed

lemma ring_linked:
  "linked_up st (ring s (us @ vs)) \<longleftrightarrow>
     linked_up st (Sentinel s # map Entry us) \<and> p_next st (before_of s us) = Some (after_of s vs) \<and>
     p_prev st (after_of s vs) = Some (before_of s us) \<and> linked_up st (map Entry vs @ [Sentinel s])"
proof -
  have "butlast (Sentinel s # map Entry us) @ [before_of s us] = Sentinel s # map Entry us"
    "after_of s vs # tl (map Entry vs @ [Sentinel s]) = map Entry vs @ [Sentinel s]"
    by (simp_all add: before_of_def after_of_def)
  then show ?thesis unfolding ring_split linked_up_append by simp
qed

lemma before_of_cases: "before_of s us = Sentinel s \<and> us = [] \<or> (\<exists>ys y. us = ys @ [y] \<and> before_of s us = Entry y)"
  by (cases us rule: rev_cases) (simp_all add: before_of_def)

lemma after_of_cases: "after_of s vs = Sentinel s \<and> vs = [] \<or> (\<exists>y ys. vs = y # ys \<and> after_of s vs = Entry y)"
  by (cases vs) (simp_all add: after_of_def)

text \<open>The two halves of a ring do not see changes at the place where they meet.\<close>

lemma halves_frame:
  assumes d: "distinct (us @ vs)" and x: "x \<notin> set us" "x \<notin> set vs"
    and n: "\<And>c. c \<noteq> before_of s us \<Longrightarrow> c \<noteq> Entry x \<Longrightarrow> p_next st' c = p_next st c"
    and p: "\<And>c. c \<noteq> after_of s vs \<Longrightarrow> c \<noteq> Entry x \<Longrightarrow> p_prev st' c = p_prev st c"
  shows "linked_up st' (Sentinel s # map Entry us) = linked_up st (Sentinel s # map Entry us)"
    and "linked_up st' (map Entry vs @ [Sentinel s]) = linked_up st (map Entry vs @ [Sentinel s])"
proof -
  have b: "c \<noteq> before_of s us" if "c \<in> set (butlast (Sentinel s # map Entry us))" for c
    using before_of_cases [of s us] that d by (auto simp: butlast_append)
  show "linked_up st' (Sentinel s # map Entry us) = linked_up st (Sentinel s # map Entry us)"
  proof (rule linked_up_frame)
    fix c assume "c \<in> set (butlast (Sentinel s # map Entry us))"
    then have "c \<in> set (Sentinel s # map Entry us)" and "c \<noteq> before_of s us" using b in_set_butlastD by fast+
    with x(1) show "p_next st' c = p_next st c" by (intro n) auto
  next
    fix c assume "c \<in> set (tl (Sentinel s # map Entry us))"
    then show "p_prev st' c = p_prev st c" using x(1) d after_of_cases [of s vs] by (intro p) auto
  qed
  show "linked_up st' (map Entry vs @ [Sentinel s]) = linked_up st (map Entry vs @ [Sentinel s])"
  proof (rule linked_up_frame)
    fix c assume "c \<in> set (butlast (map Entry vs @ [Sentinel s]))"
    then show "p_next st' c = p_next st c" using x(2) d before_of_cases [of s us] by (intro n) auto
  next
    fix c assume c: "c \<in> set (tl (map Entry vs @ [Sentinel s]))"
    then have "c \<noteq> after_of s vs" using after_of_cases [of s vs] d by auto
    moreover have "c \<noteq> Entry x" using c x(2) by (cases vs) auto
    ultimately show "p_prev st' c = p_prev st c" by (intro p)
  qed
qed

text \<open>A ring does not see changes at cells of other rings.\<close>

lemma ring_frame:
  assumes "\<And>c. c \<in> set (ring s xs) \<Longrightarrow> p_next st' c = p_next st c" "\<And>c. c \<in> set (ring s xs) \<Longrightarrow> p_prev st' c = p_prev st c"
  shows "linked_up st' (ring s xs) = linked_up st (ring s xs)"
  using assms by (intro linked_up_frame) (auto simp: ring_def dest: in_set_butlastD)

lemma set_ring: "set (ring s xs) = insert (Sentinel s) (Entry ` set xs)"
  by (auto simp: ring_def)

section \<open>Rows of queues\<close>

text \<open>What the store holds: the lists with the sentinels \<open>0, 1, \<dots>\<close>, each from the entry queued last to the one
  queued first.\<close>

definition holds :: "listStore \<Rightarrow> string list list \<Rightarrow> bool" where
  "holds st L \<longleftrightarrow> distinct (concat L) \<and> (\<forall>s < length L. linked_up st (ring s (L ! s))) \<and>
     (\<forall>x. x \<notin> set (concat L) \<longrightarrow> p_next st (Entry x) = None \<and> p_prev st (Entry x) = None)"

definition queued :: "nat \<Rightarrow> string \<Rightarrow> string list list \<Rightarrow> string list list" where
  "queued s x L = (let L' = map (removeAll x) L in L'[s := x # L' ! s])"

lemma holdsD:
  assumes "holds st L"
  shows "distinct (concat L)" and "\<And>s. s < length L \<Longrightarrow> linked_up st (ring s (L ! s))"
    and "\<And>x. x \<notin> set (concat L) \<Longrightarrow> p_next st (Entry x) = None \<and> p_prev st (Entry x) = None"
  using assms by (simp_all add: holds_def)

lemma concat_split: "i < length L \<Longrightarrow> concat L = concat (take i L) @ L ! i @ concat (drop (Suc i) L)"
  by (metis concat.simps(2) concat_append id_take_nth_drop)

lemma concat_nth_disjoint:
  assumes d: "distinct (concat L)" and ij: "i < j" "j < length L"
  shows "set (L ! i) \<inter> set (L ! j) = {}"
proof -
  have "concat L = concat (take i L) @ L ! i @ concat (drop (Suc i) L)" using ij by (intro concat_split) simp
  then have "set (L ! i) \<inter> set (concat (drop (Suc i) L)) = {}" using d by (metis distinct_append)
  moreover have "L ! j \<in> set (drop (Suc i) L)"
    using nth_mem [of "j - Suc i" "drop (Suc i) L"] ij by simp
  ultimately show ?thesis by auto
qed

lemma concat_nth_distinct:
  assumes "distinct (concat L)" "i < length L" "j < length L" "x \<in> set (L ! i)" "x \<in> set (L ! j)"
  shows "i = j"
  using concat_nth_disjoint [OF assms(1)] assms(2-5) by (cases i j rule: linorder_cases) blast+

lemma mem_concat: "x \<in> set (concat L) \<longleftrightarrow> (\<exists>i < length L. x \<in> set (L ! i))"
  by (auto simp: set_conv_nth [of L])

lemma distinct_nth_concat: "distinct (concat L) \<Longrightarrow> i < length L \<Longrightarrow> distinct (L ! i)"
  by (simp add: distinct_concat_iff)

lemma unlink_ok:
  assumes h: "holds st L" and s: "s < length L" "L ! s = us @ x # vs"
  shows "\<exists>st'. unlink (Entry x) st = Inr st' \<and> holds st' (L[s := us @ vs])"
proof -
  note H = holdsD [OF h]
  let ?b = "before_of s us" and ?a = "after_of s vs"
  have d: "distinct (us @ x # vs)" using distinct_nth_concat [OF H(1) s(1)] s(2) by simp
  have l: "linked_up st (Sentinel s # map Entry us)" "p_next st ?b = Some (Entry x)" "p_prev st (Entry x) = Some ?b"
    "linked_up st (map Entry (x # vs) @ [Sentinel s])"
    using H(2) [OF s(1)] unfolding s(2) ring_linked by (simp_all add: after_of_def)
  have "map Entry (x # vs) @ [Sentinel s] = [] @ Entry x # ?a # tl (map Entry vs @ [Sentinel s])"
    "?a # tl (map Entry vs @ [Sentinel s]) = map Entry vs @ [Sentinel s]" by (simp_all add: after_of_def)
  with l(4) have r: "p_next st (Entry x) = Some ?a" "p_prev st ?a = Some (Entry x)" "linked_up st (map Entry vs @ [Sentinel s])"
    by (metis linked_up_append)+
  have ne: "?b \<noteq> Entry x" "?a \<noteq> Entry x"
    using before_of_cases [of s us] after_of_cases [of s vs] d by auto
  define st' where "st' = st\<lparr>p_next := (p_next st)(?b \<mapsto> ?a, Entry x := None), p_prev := (p_prev st)(?a \<mapsto> ?b, Entry x := None)\<rparr>"
  have u: "unlink (Entry x) st = Inr st'" using l(3) r(1) ne by (simp add: unlink_def st'_def)
  have n: "p_next st' c = p_next st c" if "c \<noteq> ?b" "c \<noteq> Entry x" for c using that by (simp add: st'_def)
  have p: "p_prev st' c = p_prev st c" if "c \<noteq> ?a" "c \<noteq> Entry x" for c using that by (simp add: st'_def)
  have own: "linked_up st' (ring s (us @ vs))"
    unfolding ring_linked
    using halves_frame [of us vs x s st' st, OF _ _ _ n p] d l(1) r(3) ne by (simp add: st'_def)
  have other: "linked_up st' (ring i (L ! i))" if "i < length L" "i \<noteq> s" for i
  proof -
    have "y \<notin> set (L ! i)" if "y \<in> set (L ! s)" for y
      using concat_nth_distinct [OF H(1) \<open>i < length L\<close> s(1)] that \<open>i \<noteq> s\<close> by blast
    then have "c \<noteq> ?b" "c \<noteq> ?a" "c \<noteq> Entry x" if "c \<in> set (ring i (L ! i))" for c
      using that \<open>i \<noteq> s\<close> before_of_cases [of s us] after_of_cases [of s vs] s(2) by (auto simp: set_ring)
    then have "linked_up st' (ring i (L ! i)) = linked_up st (ring i (L ! i))"
      by (intro ring_frame n p) blast+
    with H(2) that(1) show ?thesis by blast
  qed
  have c: "concat L = concat (take s L) @ us @ x # vs @ concat (drop (Suc s) L)"
    "concat (L[s := us @ vs]) = concat (take s L) @ us @ vs @ concat (drop (Suc s) L)"
    using concat_split [OF s(1)] s(2) by (simp_all add: upd_conv_take_nth_drop [OF s(1)])
  have mem: "y \<in> set (concat (L[s := us @ vs])) \<longleftrightarrow> y \<in> set (concat L) \<and> y \<noteq> x" for y
    using H(1) unfolding c by auto
  have "distinct (concat (L[s := us @ vs]))" using H(1) unfolding c by auto
  moreover have "p_next st' (Entry y) = None \<and> p_prev st' (Entry y) = None" if "y \<notin> set (concat (L[s := us @ vs]))" for y
  proof (cases "y = x")
    case False
    with that mem have y: "y \<notin> set (concat L)" by blast
    then have "y \<notin> set (L ! s)" using s(1) by auto
    then have "Entry y \<noteq> ?b" "Entry y \<noteq> ?a"
      using before_of_cases [of s us] after_of_cases [of s vs] s(2) by auto
    with n p False H(3) [OF y] show ?thesis by simp
  qed (simp add: st'_def)
  ultimately have "holds st' (L[s := us @ vs])" using own other s(1) by (auto simp: holds_def nth_list_update)
  with u show ?thesis by blast
qed

text \<open>The assignments at the end of \<open>enqueue\<close>, for an entry without links.\<close>

lemma link_ok:
  assumes h: "holds st L" and s: "s < length L" and x: "x \<notin> set (concat L)"
  shows "\<exists>st'. enqueue s (Entry x) st = Inr st' \<and> holds st' (L[s := x # L ! s])"
proof -
  note H = holdsD [OF h]
  let ?a = "after_of s (L ! s)"
  have l: "p_next st (Sentinel s) = Some ?a" "linked_up st (map Entry (L ! s) @ [Sentinel s])"
    using H(2) [OF s] ring_linked [of st s "[]" "L ! s"] by (simp_all add: before_of_def)
  define st' where "st' = st\<lparr>p_next := (p_next st)(Entry x \<mapsto> ?a, Sentinel s \<mapsto> Entry x),
    p_prev := (p_prev st)(?a \<mapsto> Entry x, Entry x \<mapsto> Sentinel s)\<rparr>"
  have e: "enqueue s (Entry x) st = Inr st'" using l(1) H(3) [OF x] by (simp add: enqueue_def st'_def)
  have xs: "x \<notin> set (L ! s)" using x s by auto
  then have ax: "?a \<noteq> Entry x" using after_of_cases [of s "L ! s"] by auto
  have n: "p_next st' c = p_next st c" if "c \<noteq> Sentinel s" "c \<noteq> Entry x" for c using that by (simp add: st'_def)
  have p: "p_prev st' c = p_prev st c" if "c \<noteq> ?a" "c \<noteq> Entry x" for c using that by (simp add: st'_def)
  have d: "distinct (L ! s)" by (rule distinct_nth_concat [OF H(1) s])
  have "linked_up st' (map Entry (L ! s) @ [Sentinel s])"
    using halves_frame(2) [of "[]" "L ! s" x s st' st, OF _ _ _ _ p] n d xs l(2) by (simp add: before_of_def)
  then have own: "linked_up st' (ring s ([x] @ L ! s))"
    unfolding ring_linked using ax by (simp add: st'_def before_of_def)
  have other: "linked_up st' (ring i (L ! i))" if "i < length L" "i \<noteq> s" for i
  proof -
    have "y \<notin> set (L ! i)" if "y \<in> set (L ! s)" for y
      using concat_nth_distinct [OF H(1) \<open>i < length L\<close> s] that \<open>i \<noteq> s\<close> by blast
    moreover have "x \<notin> set (L ! i)" using x that(1) by auto
    ultimately have "c \<noteq> Sentinel s" "c \<noteq> ?a" "c \<noteq> Entry x" if "c \<in> set (ring i (L ! i))" for c
      using that \<open>i \<noteq> s\<close> after_of_cases [of s "L ! s"] by (auto simp: set_ring)
    then have "linked_up st' (ring i (L ! i)) = linked_up st (ring i (L ! i))"
      by (intro ring_frame n p) blast+
    with H(2) that(1) show ?thesis by blast
  qed
  have c: "concat L = concat (take s L) @ L ! s @ concat (drop (Suc s) L)"
    "concat (L[s := x # L ! s]) = concat (take s L) @ x # L ! s @ concat (drop (Suc s) L)"
    using concat_split [OF s] by (simp_all add: upd_conv_take_nth_drop [OF s])
  have "distinct (concat (L[s := x # L ! s]))" using H(1) x unfolding c by auto
  moreover have "p_next st' (Entry y) = None \<and> p_prev st' (Entry y) = None" if "y \<notin> set (concat (L[s := x # L ! s]))" for y
  proof -
    have y: "y \<noteq> x" "y \<notin> set (concat L)" using that unfolding c by auto
    then have "y \<notin> set (L ! s)" using s by auto
    then have "Entry y \<noteq> ?a" using after_of_cases [of s "L ! s"] by auto
    with n p y(1) H(3) [OF y(2)] show ?thesis by simp
  qed
  ultimately have "holds st' (L[s := x # L ! s])" using own other s by (auto simp: holds_def nth_list_update)
  with e show ?thesis by blast
qed

lemma set_concat_push:
  assumes "s < length L"
  shows "set (concat (L[s := x # L ! s])) = insert x (set (concat L))"
proof -
  have "set (concat L) = set (concat (take s L)) \<union> set (L ! s) \<union> set (concat (drop (Suc s) L))"
    using arg_cong [OF concat_split [OF assms], of set] by (simp add: Un_assoc)
  then show ?thesis by (auto simp: upd_conv_take_nth_drop [OF assms])
qed

lemma queued_new: "x \<notin> set (concat L) \<Longrightarrow> queued s x L = L[s := x # L ! s]"
proof -
  assume x: "x \<notin> set (concat L)"
  have "map (removeAll x) L = L" by (rule map_idI) (use x in \<open>auto simp: removeAll_id\<close>)
  then show ?thesis by (simp add: queued_def)
qed

lemma removed_update:
  assumes d: "distinct (concat L)" and i: "i < length L" "L ! i = us @ x # vs"
  shows "map (removeAll x) L = L[i := us @ vs]"
proof (rule nth_equalityI)
  fix j assume j: "j < length (map (removeAll x) L)"
  have "distinct (us @ x # vs)" using distinct_nth_concat [OF d i(1)] i(2) by simp
  moreover have "x \<notin> set (L ! j)" if "j \<noteq> i"
    using concat_nth_distinct [OF d _ i(1), of j x] j i(2) that by auto
  ultimately show "map (removeAll x) L ! j = L[i := us @ vs] ! j"
    using j i by (cases "j = i") (auto simp: removeAll_id)
qed simp

lemma enqueue_ok:
  assumes h: "holds st L" and s: "s < length L"
  shows "\<exists>st'. enqueue s (Entry x) st = Inr st' \<and> holds st' (queued s x L)"
proof (cases "x \<in> set (concat L)")
  case False
  with link_ok [OF h s False] show ?thesis by (simp add: queued_new)
next
  case True
  then obtain i us vs where i: "i < length L" "L ! i = us @ x # vs" unfolding mem_concat by (metis split_list)
  obtain st1 where st1: "unlink (Entry x) st = Inr st1" "holds st1 (L[i := us @ vs])" using unlink_ok [OF h i] by blast
  have new: "x \<notin> set (concat (L[i := us @ vs]))"
    unfolding removed_update [OF holdsD(1) [OF h] i, symmetric] by auto
  note U = holdsD(3) [OF st1(2) new]
  have "p_prev st (Entry x) \<noteq> None \<and> p_next st (Entry x) \<noteq> None"
    using st1(1) by (auto simp: unlink_def deref_def Let_def rbind_Inr_iff split: option.splits if_splits)
  then have "enqueue s (Entry x) st = enqueue s (Entry x) st1" using st1(1) U by (simp add: enqueue_def)
  moreover obtain st' where "enqueue s (Entry x) st1 = Inr st'"
    "holds st' ((L[i := us @ vs])[s := x # L[i := us @ vs] ! s])" using link_ok [OF st1(2) _ new, of s] s by auto
  moreover have "(L[i := us @ vs])[s := x # L[i := us @ vs] ! s] = queued s x L"
    unfolding queued_def removed_update [OF holdsD(1) [OF h] i] by (simp add: Let_def)
  ultimately show ?thesis by auto
qed

lemma dequeue_ok:
  assumes h: "holds st L" and s: "s < length L"
  shows "L ! s = [] \<Longrightarrow> dequeue s st = Inr (None, st)"
    and "L ! s = xs @ [x] \<Longrightarrow> \<exists>st'. dequeue s st = Inr (Some (Entry x), st') \<and> holds st' (L[s := xs])"
proof -
  have "p_prev st (Sentinel s) = Some (before_of s (L ! s))"
    using holdsD(2) [OF h s] ring_linked [of st s "L ! s" "[]"] by (simp add: after_of_def)
  moreover have "before_of s [] = Sentinel s" "before_of s (xs @ [x]) = Entry x" by (simp_all add: before_of_def)
  ultimately show "L ! s = [] \<Longrightarrow> dequeue s st = Inr (None, st)"
    and "L ! s = xs @ [x] \<Longrightarrow> \<exists>st'. dequeue s st = Inr (Some (Entry x), st') \<and> holds st' (L[s := xs])"
    using unlink_ok [OF h s, of xs x "[]"] by (auto simp: dequeue_def)
qed

lemma entryStrings_ok:
  assumes "linked_up st (Sentinel s # map Entry xs)" "length xs < n"
  shows "entryStrings n f s (before_of s xs) st = Inr (map (f \<circ> Entry) (rev xs))"
  using assms
proof (induction xs arbitrary: n rule: rev_induct)
  case Nil
  then show ?case by (cases n) (simp_all add: before_of_def)
next
  case (snoc x xs)
  then obtain m where m: "n = Suc m" "length xs < m" by (cases n) auto
  have "Sentinel s # map Entry (xs @ [x]) = butlast (Sentinel s # map Entry xs) @ before_of s xs # Entry x # []"
    "butlast (Sentinel s # map Entry xs) @ [before_of s xs] = Sentinel s # map Entry xs"
    by (simp_all add: before_of_def)
  with snoc.prems(1) linked_up_append have "p_prev st (Entry x) = Some (before_of s xs)"
    "linked_up st (Sentinel s # map Entry xs)" by metis+
  moreover have "before_of s (xs @ [x]) = Entry x" by (simp add: before_of_def)
  ultimately show ?case using snoc.IH m by simp
qed

lemma listToString_ok:
  assumes h: "holds st L" and s: "s < length L" and n: "length (L ! s) < n"
  shows "listToString n f s st = Inr (''['' @ join_with '', '' (map (f \<circ> Entry) (rev (L ! s))) @ '']'')"
proof -
  have "p_prev st (Sentinel s) = Some (before_of s (L ! s))" "linked_up st (Sentinel s # map Entry (L ! s))"
    using holdsD(2) [OF h s] ring_linked [of st s "L ! s" "[]"] by (simp_all add: after_of_def)
  with entryStrings_ok [OF this(2) n] show ?thesis by (simp add: listToString_def)
qed

lemma newLists_ok: "holds (fold newList [0..<n] emptyStore) (replicate n [])"
proof (induction n)
  case 0
  then show ?case by (simp add: holds_def emptyStore_def)
next
  case (Suc n)
  let ?st = "fold newList [0..<n] emptyStore"
  have frame: "linked_up (newList n ?st) (ring i []) = linked_up ?st (ring i [])" if "i < n" for i
    using that by (intro ring_frame) (auto simp: set_ring newList_def)
  have "linked_up (newList n ?st) (ring i [])" if "i < Suc n" for i
  proof (cases "i = n")
    case True
    then show ?thesis by (simp add: ring_def newList_def)
  next
    case False
    with that have "i < n" by simp
    with frame Suc holdsD(2) [OF Suc, of i] show ?thesis by simp
  qed
  moreover have "p_next (newList n ?st) (Entry x) = None \<and> p_prev (newList n ?st) (Entry x) = None" for x
    using holdsD(3) [OF Suc, of x] by (simp add: newList_def [of n])
  ultimately show ?case by (simp add: holds_def nth_append del: replicate_Suc)
qed

section \<open>The contract of a row of queues\<close>

text \<open>What the client of the lists relies on: the store stands for a row of queues, an entry is queued at one end,
  leaving the queue it was in, and taken at the other.\<close>

locale queue_row =
  fixes row :: "'s \<Rightarrow> string list list \<Rightarrow> bool"
    and enq :: "nat \<Rightarrow> string \<Rightarrow> 's \<Rightarrow> 's result"
    and deq :: "nat \<Rightarrow> 's \<Rightarrow> (string option \<times> 's) result"
  assumes row_distinct: "row st L \<Longrightarrow> distinct (concat L)"
    and enq: "row st L \<Longrightarrow> s < length L \<Longrightarrow> \<exists>st'. enq s x st = Inr st' \<and> row st' (queued s x L)"
    and deq_none: "row st L \<Longrightarrow> s < length L \<Longrightarrow> L ! s = [] \<Longrightarrow> deq s st = Inr (None, st)"
    and deq_some: "row st L \<Longrightarrow> s < length L \<Longrightarrow> L ! s = xs @ [x] \<Longrightarrow>
      \<exists>st'. deq s st = Inr (Some x, st') \<and> row st' (L[s := xs])"
begin

text \<open>Taking from a queue, whatever it holds.\<close>

lemma deq_cases:
  assumes "row st L" "s < length L"
  obtains "L ! s = []" "deq s st = Inr (None, st)"
  | xs x st' where "L ! s = xs @ [x]" "deq s st = Inr (Some x, st')" "row st' (L[s := xs])"
  using assms deq_none deq_some by (cases "L ! s" rule: rev_cases) blast+

text \<open>Entries queued one after the other come out in that order.\<close>

lemma enq_all:
  assumes "row st L" "s < length L" "distinct xs" "set xs \<inter> set (concat L) = {}"
  shows "\<exists>st'. rfold (enq s) xs st = Inr st' \<and> row st' (L[s := rev xs @ L ! s])"
  using assms
proof (induction xs arbitrary: st L)
  case (Cons x xs)
  have x: "x \<notin> set (concat L)" using Cons.prems(4) by auto
  obtain st1 where st1: "enq s x st = Inr st1" "row st1 (L[s := x # L ! s])"
    using enq [OF Cons.prems(1,2), of x] queued_new [OF x] by auto
  have "set (concat (L[s := x # L ! s])) = insert x (set (concat L))"
    by (rule set_concat_push [OF Cons.prems(2)])
  then have "set xs \<inter> set (concat (L[s := x # L ! s])) = {}" using Cons.prems(3,4) by auto
  with Cons.IH [OF st1(2)] Cons.prems(2,3) obtain st' where
    "rfold (enq s) xs st1 = Inr st'" "row st' (L[s := rev xs @ x # L ! s])" by auto
  with st1(1) show ?case by auto
qed simp

end

text \<open>The lists as the caller sees them: the entries are objects with a name.\<close>

fun entry_name :: "cell option \<Rightarrow> string option" where
  "entry_name (Some (Entry x)) = Some x"
| "entry_name _ = None"

definition dequeueEntry :: "nat \<Rightarrow> listStore \<Rightarrow> (string option \<times> listStore) result" where
  "dequeueEntry s st = rbind (dequeue s st) (\<lambda>(c, st1). Inr (entry_name c, st1))"

definition enqueueEntry :: "nat \<Rightarrow> string \<Rightarrow> listStore \<Rightarrow> listStore result" where
  "enqueueEntry s x st = enqueue s (Entry x) st"

interpretation lists: queue_row holds enqueueEntry dequeueEntry
proof
  show "holds st L \<Longrightarrow> distinct (concat L)" for st L by (rule holdsD(1))
  show "\<exists>st'. enqueueEntry s x st = Inr st' \<and> holds st' (queued s x L)" if "holds st L" "s < length L" for st L s x
    using enqueue_ok [OF that] by (simp add: enqueueEntry_def)
  show "dequeueEntry s st = Inr (None, st)" if "holds st L" "s < length L" "L ! s = []" for st L s
    using dequeue_ok(1) [OF that] by (simp add: dequeueEntry_def)
  show "\<exists>st'. dequeueEntry s st = Inr (Some x, st') \<and> holds st' (L[s := xs])"
    if "holds st L" "s < length L" "L ! s = xs @ [x]" for st L s xs x
    using dequeue_ok(2) [OF that] by (auto simp: dequeueEntry_def)
qed

text \<open>C30. The doubly linked lists (\<open>lib/data/list\<close>): fresh lists are empty; in a store that stands for a row of queues, \<open>enqueue\<close> moves
  the entry to the back of the queue, out of whichever queue it was in; \<open>dequeue\<close> gives and removes the entry that was queued first, or
  nothing; and \<open>toString\<close> ends and shows the entries in that order.\<close>

theorem linked_lists_are_queues:
  assumes "holds st L" "s < length L"
  shows "holds (fold newList [0..<k] emptyStore) (replicate k []) \<and>
    (\<exists>st'. enqueue s (Entry x) st = Inr st' \<and> holds st' (queued s x L)) \<and>
    (case rev (L ! s) of
       [] \<Rightarrow> dequeue s st = Inr (None, st)
     | y # ys \<Rightarrow> \<exists>st'. dequeue s st = Inr (Some (Entry y), st') \<and> holds st' (L[s := rev ys])) \<and>
    listToString (length (L ! s) + 1) f s st = Inr (''['' @ join_with '', '' (map (f \<circ> Entry) (rev (L ! s))) @ '']'')"
proof -
  have "case rev (L ! s) of
       [] \<Rightarrow> dequeue s st = Inr (None, st)
     | y # ys \<Rightarrow> \<exists>st'. dequeue s st = Inr (Some (Entry y), st') \<and> holds st' (L[s := rev ys])"
    using dequeue_ok [OF assms] by (cases "L ! s" rule: rev_cases) auto
  with newLists_ok [of k] enqueue_ok [OF assms, of x] listToString_ok [OF assms, of "length (L ! s) + 1" f] show ?thesis by simp
qed

theorem linked_lists_are_queues_witness:
  "\<exists>st'. enqueue 0 (Entry ''a'') (newList 0 emptyStore) = Inr st' \<and> holds st' [[''a'']]"
proof -
  have "holds (newList 0 emptyStore) [[]]" using newLists_ok [of 1] by simp
  from linked_lists_are_queues [OF this, of 0 0 "''a''" "\<lambda>c. []"] show ?thesis by (simp add: queued_def)
qed

end
