(* ===== verification/Dagre_Greedy.thy ===== *)
theory Dagre_Greedy
  imports Dagre_Feedback Dagre_List
begin

text \<open>
  The greedy heuristic for a feedback arc set (\<open>lib/greedy-fas\<close>): the nodes of a simple weighted graph wait in
  lists by the difference of the weights that leave and enter them; sinks and sources are taken out of
  the graph first, then a node with the largest difference, whose remaining in-edges go into the set. The entries
  that wait are the labels of the nodes, so an entry is named by its node; its links are in the store of
  \<open>Dagre_List\<close>. The theorem: on a graph with positive weights the set is a feedback arc set.
\<close>

section \<open>The algorithm\<close>

record fasEntry =
  a_in :: int
  a_out :: int

type_synonym fasGraph = "(unit, fasEntry, int) Graph"

record fasWork =
  w_graph :: fasGraph
  w_lists :: listStore

text \<open>\<open>assignBucket\<close>, for \<open>nb\<close> lists; an index with no list has no \<open>enqueue\<close>.\<close>

definition bucketIndex :: "nat \<Rightarrow> int \<Rightarrow> fasEntry \<Rightarrow> int" where
  "bucketIndex nb zeroIdx entry =
     (if a_out entry = 0 then 0
      else if a_in entry = 0 then int nb - 1
      else a_out entry - a_in entry + zeroIdx)"

definition assignBucket :: "nat \<Rightarrow> int \<Rightarrow> string \<Rightarrow> fasWork \<Rightarrow> fasWork result" where
  "assignBucket nb zeroIdx v w =
     rbind (deref (node v (w_graph w))) (\<lambda>entry.
       let i = bucketIndex nb zeroIdx entry
       in if 0 \<le> i \<and> i < int nb
          then rbind (enqueueEntry (nat i) v (w_lists w)) (\<lambda>st. Inr (w\<lparr>w_lists := st\<rparr>))
          else Inl (TypeError ''undefined''))"

text \<open>A step of the loops over the edges at a node: the weight of the edge leaves the entry of its other end.\<close>

definition takeWeight :: "nat \<Rightarrow> int \<Rightarrow> (int \<Rightarrow> fasEntry \<Rightarrow> fasEntry) \<Rightarrow> edgeObj \<Rightarrow> string \<Rightarrow> fasWork \<Rightarrow> fasWork result" where
  "takeWeight nb zeroIdx f e u w =
     rbind (deref (edgeOfObj e (w_graph w))) (\<lambda>weight.
     rbind (mutNode (f weight) u (w_graph w)) (\<lambda>g.
       assignBucket nb zeroIdx u (w\<lparr>w_graph := g\<rparr>)))"

definition lessOut :: "int \<Rightarrow> fasEntry \<Rightarrow> fasEntry" where
  "lessOut weight entry = entry\<lparr>a_out := a_out entry - weight\<rparr>"

definition lessIn :: "int \<Rightarrow> fasEntry \<Rightarrow> fasEntry" where
  "lessIn weight entry = entry\<lparr>a_in := a_in entry - weight\<rparr>"

definition fasRemoveNode ::
  "nat \<Rightarrow> int \<Rightarrow> string \<Rightarrow> bool \<Rightarrow> fasWork \<Rightarrow> (fasWork \<times> (string \<times> string) list) result" where
  "fasRemoveNode nb zeroIdx v collectPredecessors w =
     rbind (rfold (\<lambda>e (w1, results).
         rbind (takeWeight nb zeroIdx lessOut e (e_v e) w1) (\<lambda>w2.
           Inr (w2, if collectPredecessors then results @ [(e_v e, e_w e)] else results)))
       (each (inEdges v None (w_graph w))) (w, [])) (\<lambda>(w1, results).
     rbind (rfold (\<lambda>e w2. takeWeight nb zeroIdx lessIn e (e_w e) w2)
       (each (outEdges v None (w_graph w1))) w1) (\<lambda>w2.
     rbind (removeNode v (w_graph w2)) (\<lambda>g.
       Inr (w2\<lparr>w_graph := g\<rparr>, results))))"

text \<open>The inner loops of \<open>doGreedyFAS\<close>: empty a list, and find an entry in the lists between the sources and the sinks.
  The bounds are on the number of turns.\<close>

fun drain :: "nat \<Rightarrow> nat \<Rightarrow> int \<Rightarrow> nat \<Rightarrow> fasWork \<Rightarrow> fasWork result" where
  "drain 0 nb zeroIdx s w = Inl Diverges"
| "drain (Suc n) nb zeroIdx s w =
     rbind (dequeueEntry s (w_lists w)) (\<lambda>(entry, st).
       case entry of
         None \<Rightarrow> Inr (w\<lparr>w_lists := st\<rparr>)
       | Some v \<Rightarrow>
           rbind (fasRemoveNode nb zeroIdx v False (w\<lparr>w_lists := st\<rparr>)) (\<lambda>(w1, _).
             drain n nb zeroIdx s w1))"

fun takeMiddle :: "nat \<Rightarrow> listStore \<Rightarrow> (string option \<times> listStore) result" where
  "takeMiddle 0 st = Inr (None, st)"
| "takeMiddle (Suc i) st =
     rbind (dequeueEntry (Suc i) st) (\<lambda>(entry, st1).
       case entry of
         Some v \<Rightarrow> Inr (Some v, st1)
       | None \<Rightarrow> takeMiddle i st1)"

definition takeBest :: "nat \<Rightarrow> int \<Rightarrow> fasWork \<times> (string \<times> string) list \<Rightarrow> (fasWork \<times> (string \<times> string) list) result" where
  "takeBest nb zeroIdx = (\<lambda>(w, results).
     rbind (takeMiddle (nb - 2) (w_lists w)) (\<lambda>(entry, st).
       case entry of
         None \<Rightarrow> Inr (w\<lparr>w_lists := st\<rparr>, results)
       | Some v \<Rightarrow>
           rbind (fasRemoveNode nb zeroIdx v True (w\<lparr>w_lists := st\<rparr>)) (\<lambda>(w1, rs).
             Inr (w1, results @ rs))))"

definition drainBound :: "fasWork \<Rightarrow> nat" where
  "drainBound w = nat (nodeCount (w_graph w)) + 1"

fun greedyLoop :: "nat \<Rightarrow> nat \<Rightarrow> int \<Rightarrow> fasWork \<times> (string \<times> string) list \<Rightarrow> (string \<times> string) list result" where
  "greedyLoop 0 nb zeroIdx s = Inl Diverges"
| "greedyLoop (Suc n) nb zeroIdx (w, results) =
     (if nodeCount (w_graph w) = 0 then Inr results
      else
        rbind (drain (drainBound w) nb zeroIdx 0 w) (\<lambda>w1.
        rbind (drain (drainBound w1) nb zeroIdx (nb - 1) w1) (\<lambda>w2.
        rbind (if nodeCount (w_graph w2) \<noteq> 0 then takeBest nb zeroIdx (w2, results) else Inr (w2, results))
          (greedyLoop n nb zeroIdx))))"

definition doGreedyFAS :: "fasWork \<Rightarrow> nat \<Rightarrow> int \<Rightarrow> (string \<times> string) list result" where
  "doGreedyFAS w nb zeroIdx = greedyLoop (drainBound w) nb zeroIdx (w, [])"

definition moreOut :: "int \<Rightarrow> fasEntry \<Rightarrow> fasEntry" where
  "moreOut weight entry = entry\<lparr>a_out := a_out entry + weight\<rparr>"

definition moreIn :: "int \<Rightarrow> fasEntry \<Rightarrow> fasEntry" where
  "moreIn weight entry = entry\<lparr>a_in := a_in entry + weight\<rparr>"

text \<open>The body of the loop of \<open>buildState\<close> over the edges.\<close>

definition addWeight :: "(edgeObj \<Rightarrow> int result) \<Rightarrow> edgeObj \<Rightarrow> fasGraph \<times> int \<times> int \<Rightarrow> (fasGraph \<times> int \<times> int) result" where
  "addWeight weightFn e = (\<lambda>(g, maxIn, maxOut).
     let prevWeight = (case edge (e_v e) (e_w e) None g of Some p \<Rightarrow> p | None \<Rightarrow> 0)
     in rbind (weightFn e) (\<lambda>weight.
        rbind (setEdge (e_v e) (e_w e) (Some (Some (prevWeight + weight))) None g) (\<lambda>g1.
        rbind (mutNode (moreOut weight) (e_v e) g1) (\<lambda>g2.
        rbind (deref (node (e_v e) g2)) (\<lambda>u.
        rbind (mutNode (moreIn weight) (e_w e) g2) (\<lambda>g3.
        rbind (deref (node (e_w e) g3)) (\<lambda>x.
          Inr (g3, max maxIn (a_in x), max maxOut (a_out u)))))))))"

definition buildState :: "('g, 'n, 'e) Graph \<Rightarrow> (edgeObj \<Rightarrow> int result) \<Rightarrow> (fasWork \<times> nat \<times> int) result" where
  "buildState g weightFn =
     rbind (rfold (\<lambda>v. setNode v (Some (Some \<lparr>a_in = 0, a_out = 0\<rparr>))) (nodes g) (newGraph None None None)) (\<lambda>fg.
     rbind (rfold (addWeight weightFn) (edges g) (fg, 0, 0)) (\<lambda>(fg1, maxIn, maxOut).
       let nb = nat (maxOut + maxIn + 3);
           zeroIdx = maxIn + 1
       in rbind (rfold (assignBucket nb zeroIdx) (nodes fg1)
                  \<lparr>w_graph = fg1, w_lists = fold newList [0..<nb] emptyStore\<rparr>) (\<lambda>w.
          Inr (w, nb, zeroIdx))))"

definition greedyFAS :: "('g, 'n, 'e) Graph \<Rightarrow> (edgeObj \<Rightarrow> int result) \<Rightarrow> edgeObj list result" where
  "greedyFAS g weightFn =
     (if nodeCount g \<le> 1 then Inr []
      else
        rbind (buildState g weightFn) (\<lambda>(w, nb, zeroIdx).
        rbind (doGreedyFAS w nb zeroIdx) (\<lambda>results.
          Inr (concat (map (\<lambda>(v, x). each (outEdges v (Some x) g)) results)))))"

text \<open>\<open>DEFAULT_WEIGHT_FN\<close>\<close>

definition DEFAULT_WEIGHT_FN :: "edgeObj \<Rightarrow> int result" where
  "DEFAULT_WEIGHT_FN e = Inr 1"

section \<open>The entries and their lists\<close>

text \<open>The entry of a node when the edges \<open>F\<close> with the weights \<open>\<omega>\<close> are left.\<close>

definition entry_of :: "(edgeObj \<Rightarrow> int) \<Rightarrow> edgeObj set \<Rightarrow> string \<Rightarrow> fasEntry" where
  "entry_of \<omega> F u = \<lparr>a_in = (\<Sum>e \<in> {e \<in> F. e_w e = u}. \<omega> e), a_out = (\<Sum>e \<in> {e \<in> F. e_v e = u}. \<omega> e)\<rparr>"

lemma entry_of_sel [simp]:
  "a_in (entry_of \<omega> F u) = (\<Sum>e \<in> {e \<in> F. e_w e = u}. \<omega> e)" "a_out (entry_of \<omega> F u) = (\<Sum>e \<in> {e \<in> F. e_v e = u}. \<omega> e)"
  by (simp_all add: entry_of_def)

text \<open>The numbers of an entry are small enough for the lists there are.\<close>

definition fits :: "nat \<Rightarrow> int \<Rightarrow> fasEntry \<Rightarrow> bool" where
  "fits nb z en \<longleftrightarrow> 0 \<le> a_in en \<and> 0 \<le> a_out en \<and> a_in en \<le> z - 1 \<and> a_out en \<le> int nb - 2 - z"

lemma bucketIndex_range:
  assumes "fits nb z en"
  shows "0 \<le> bucketIndex nb z en" "bucketIndex nb z en < int nb" "bucketIndex nb z en = 0 \<longleftrightarrow> a_out en = 0"
    "bucketIndex nb z en = int nb - 1 \<longleftrightarrow> a_out en \<noteq> 0 \<and> a_in en = 0"
  using assms by (auto simp: bucketIndex_def fits_def)

text \<open>The nodes \<open>X\<close> are in the lists where their entries belong, and the entries are their labels.\<close>

definition placed :: "nat \<Rightarrow> int \<Rightarrow> (string \<Rightarrow> fasEntry) \<Rightarrow> string set \<Rightarrow> string list list \<Rightarrow> bool" where
  "placed nb z en X L \<longleftrightarrow> length L = nb \<and> set (concat L) = X \<and>
     (\<forall>u \<in> X. fits nb z (en u) \<and> u \<in> set (L ! nat (bucketIndex nb z (en u))))"

definition waiting :: "nat \<Rightarrow> int \<Rightarrow> (string \<Rightarrow> fasEntry) \<Rightarrow> string set \<Rightarrow> fasWork \<Rightarrow> string list list \<Rightarrow> bool" where
  "waiting nb z en X w L \<longleftrightarrow> graph_ok (w_graph w) \<and> X \<subseteq> node_set (w_graph w) \<and> holds (w_lists w) L \<and> placed nb z en X L \<and>
     (\<forall>u \<in> X. node u (w_graph w) = Some (en u))"

lemma placedD:
  assumes "placed nb z en X L"
  shows "length L = nb" "set (concat L) = X" and "\<And>u. u \<in> X \<Longrightarrow> fits nb z (en u)"
    and "\<And>u. u \<in> X \<Longrightarrow> u \<in> set (L ! nat (bucketIndex nb z (en u)))"
  using assms unfolding placed_def by blast+

lemma waitingD:
  assumes "waiting nb z en X w L"
  shows "graph_ok (w_graph w)" "X \<subseteq> node_set (w_graph w)" "holds (w_lists w) L" "placed nb z en X L"
    and "\<And>u. u \<in> X \<Longrightarrow> node u (w_graph w) = Some (en u)"
  using assms unfolding waiting_def by blast+

lemma placed_cong: "placed nb z en X L \<Longrightarrow> (\<And>u. u \<in> X \<Longrightarrow> en' u = en u) \<Longrightarrow> placed nb z en' X L"
  unfolding placed_def by simp

lemma waiting_cong: "waiting nb z en X w L \<Longrightarrow> (\<And>u. u \<in> X \<Longrightarrow> en' u = en u) \<Longrightarrow> waiting nb z en' X w L"
  unfolding waiting_def using placed_cong [of nb z en X L en'] by simp

lemma queued_nth:
  assumes "s < length L" "j < length L"
  shows "set (queued s x L ! j) = (if j = s then insert x (set (L ! j) - {x}) else set (L ! j) - {x})"
  using assms by (auto simp: queued_def Let_def nth_list_update)

lemma queued_keeps:
  assumes "s < length L" "j < length L" "y \<in> set (L ! j)" "y \<noteq> x"
  shows "y \<in> set (queued s x L ! j)"
  unfolding queued_nth [OF assms(1,2)] using assms(3,4) by (cases "j = s") simp_all

lemma length_queued [simp]: "length (queued s x L) = length L"
  by (simp add: queued_def Let_def)

lemma queued_concat:
  assumes "s < length L"
  shows "set (concat (queued s x L)) = insert x (set (concat L))"
proof -
  have "y \<in> set (concat (queued s x L)) \<longleftrightarrow> y = x \<or> y \<in> set (concat L)" for y
  proof (cases "y = x")
    case True
    with queued_nth [OF assms assms, of x] assms show ?thesis unfolding mem_concat by auto
  next
    case False
    then have "y \<in> set (queued s x L ! j) \<longleftrightarrow> y \<in> set (L ! j)" if "j < length L" for j
      using queued_nth [OF assms that, of x] by (cases "j = s") auto
    with False show ?thesis unfolding mem_concat by auto
  qed
  then show ?thesis by auto
qed

lemma bucket_index_less: "fits nb z en \<Longrightarrow> nat (bucketIndex nb z en) < nb"
  using bucketIndex_range(1,2) [of nb z en] by linarith

lemma placed_queued:
  assumes p: "placed nb z en X L" and f: "fits nb z e'"
  shows "placed nb z (en(u := e')) (insert u X) (queued (nat (bucketIndex nb z e')) u L)"
proof -
  note P = placedD [OF p]
  let ?i = "nat (bucketIndex nb z e')"
  have i: "?i < length L" using bucket_index_less [OF f] P(1) by simp
  have "v \<in> set (queued ?i u L ! nat (bucketIndex nb z ((en(u := e')) v)))" if "v \<in> insert u X" for v
  proof (cases "v = u")
    case True
    then show ?thesis using queued_nth [OF i i] by simp
  next
    case False
    with that have v: "v \<in> X" by simp
    have "nat (bucketIndex nb z (en v)) < length L" using bucket_index_less [OF P(3) [OF v]] P(1) by simp
    from queued_keeps [OF i this P(4) [OF v] False] False show ?thesis by simp
  qed
  moreover have "fits nb z ((en(u := e')) v)" if "v \<in> insert u X" for v using that P(3) f by auto
  ultimately show ?thesis unfolding placed_def using P(1,2) queued_concat [OF i] by simp
qed

text \<open>Queueing one node, new or with a new entry.\<close>

lemma assignBucket_ok:
  assumes h: "holds (w_lists w) L" "placed nb z en X L" and u: "node u (w_graph w) = Some e'" "fits nb z e'"
  shows "\<exists>st L'. assignBucket nb z u w = Inr (w\<lparr>w_lists := st\<rparr>) \<and> holds st L' \<and> placed nb z (en(u := e')) (insert u X) L'"
proof -
  let ?i = "nat (bucketIndex nb z e')"
  have "?i < length L" using bucket_index_less [OF u(2)] placedD(1) [OF h(2)] by simp
  then obtain st where st: "enqueueEntry ?i u (w_lists w) = Inr st" "holds st (queued ?i u L)" using lists.enq [OF h(1)] by blast
  have "assignBucket nb z u w = Inr (w\<lparr>w_lists := st\<rparr>)"
    using u bucketIndex_range(1,2) [OF u(2)] st(1) by (simp add: assignBucket_def)
  with st(2) placed_queued [OF h(2) u(2)] show ?thesis by blast
qed

lemma takeWeight_ok:
  assumes w: "waiting nb z en X w L" and u: "u \<in> X" and e: "edgeOfObj e (w_graph w) = Some k" and f: "fits nb z (f k (en u))"
  shows "\<exists>w' L'. takeWeight nb z f e u w = Inr w' \<and> same_shape (w_graph w) (w_graph w') \<and>
    f_edgeLabels (w_graph w') = f_edgeLabels (w_graph w) \<and> waiting nb z (en(u := f k (en u))) X w' L'"
proof -
  note W = waitingD [OF w]
  obtain g where g: "mutNode (f k) u (w_graph w) = Inr g" "same_shape (w_graph w) g" "f_edgeLabels g = f_edgeLabels (w_graph w)"
    "node u g = Some (f k (en u))" "\<forall>v. v \<noteq> u \<longrightarrow> node v g = node v (w_graph w)"
    using mutNode_ok [OF W(5) [OF u], of "f k"] W(2) u by blast
  let ?w = "w\<lparr>w_graph := g\<rparr>"
  obtain st L' where st: "assignBucket nb z u ?w = Inr (?w\<lparr>w_lists := st\<rparr>)" "holds st L'"
    "placed nb z (en(u := f k (en u))) (insert u X) L'"
    using assignBucket_ok [of ?w L nb z en X u "f k (en u)"] W(3,4) g(4) f by auto
  have "insert u X = X" using u by blast
  moreover have "node v g = Some ((en(u := f k (en u))) v)" if "v \<in> X" for v using g(4,5) W(5) [OF that] by simp
  ultimately have "waiting nb z (en(u := f k (en u))) X (?w\<lparr>w_lists := st\<rparr>) L'"
    unfolding waiting_def using same_shape_ok [OF g(2) W(1)] same_shapeD(3) [OF g(2)] W(2) st(2,3) by simp
  with g(1-3) e st(1) show ?thesis by (intro exI [of _ "?w\<lparr>w_lists := st\<rparr>"] exI [of _ L']) (simp add: takeWeight_def)
qed

section \<open>Taking a node out\<close>

definition weighed :: "(edgeObj \<Rightarrow> int) \<Rightarrow> fasGraph \<Rightarrow> bool" where
  "weighed \<omega> g \<longleftrightarrow> (\<forall>e \<in> set (edges g). edgeOfObj e g = Some (\<omega> e) \<and> 0 < \<omega> e \<and> e_v e \<noteq> e_w e \<and>
     e_name e = None)"

lemma weighedD:
  assumes "weighed \<omega> g" "e \<in> set (edges g)"
  shows "edgeOfObj e g = Some (\<omega> e)" "0 < \<omega> e" "e_v e \<noteq> e_w e" "e_name e = None"
  using assms by (simp_all add: weighed_def)

lemma same_labels:
  assumes "same_shape g h" "f_edgeLabels h = f_edgeLabels g"
  shows "edgeOfObj e h = edgeOfObj e g"
  using assms(2) same_shapeD(4) [OF assms(1)] by (simp add: edgeOfObj_def)

lemma fits_mono:
  assumes "fits nb z (entry_of \<omega> F u)" "F' \<subseteq> F" "finite F" "\<And>e. e \<in> F \<Longrightarrow> 0 < \<omega> e"
  shows "fits nb z (entry_of \<omega> F' u)"
proof -
  have "(\<Sum>e \<in> {e \<in> F'. p e}. \<omega> e) \<le> (\<Sum>e \<in> {e \<in> F. p e}. \<omega> e)" "0 \<le> (\<Sum>e \<in> {e \<in> F'. p e}. \<omega> e)" for p
    using assms(2-4) by (auto intro!: sum_mono2 sum_nonneg dest!: less_imp_le)
  from this [of "\<lambda>e. e_w e = u"] this [of "\<lambda>e. e_v e = u"] assms(1) show ?thesis by (auto simp: fits_def)
qed

lemma entry_less_out:
  assumes "finite F" "e \<in> F" "u \<noteq> e_w e"
  shows "entry_of \<omega> (F - {e}) u = (if u = e_v e then lessOut (\<omega> e) (entry_of \<omega> F u) else entry_of \<omega> F u)"
proof -
  have "{x \<in> F - {e}. e_w x = u} = {x \<in> F. e_w x = u}" "{x \<in> F - {e}. e_v x = u} = {x \<in> F. e_v x = u} - {e}"
    using assms(3) by auto
  then show ?thesis using assms(1,2) by (simp add: entry_of_def lessOut_def sum_diff1)
qed

lemma entry_less_in:
  assumes "finite F" "e \<in> F" "u \<noteq> e_v e"
  shows "entry_of \<omega> (F - {e}) u = (if u = e_w e then lessIn (\<omega> e) (entry_of \<omega> F u) else entry_of \<omega> F u)"
proof -
  have "{x \<in> F - {e}. e_w x = u} = {x \<in> F. e_w x = u} - {e}" "{x \<in> F - {e}. e_v x = u} = {x \<in> F. e_v x = u}"
    using assms(3) by auto
  then show ?thesis using assms(1,2) by (simp add: entry_of_def lessIn_def sum_diff1)
qed

text \<open>What the loops over the edges of \<open>x\<close> keep: the shape of the graph, and the other nodes wait with the entries for
  the edges that have not been looked at.\<close>

definition taking :: "nat \<Rightarrow> int \<Rightarrow> (edgeObj \<Rightarrow> int) \<Rightarrow> edgeObj set \<Rightarrow> string set \<Rightarrow> fasGraph \<Rightarrow> fasWork \<Rightarrow> bool" where
  "taking nb z \<omega> F X g w \<longleftrightarrow> same_shape g (w_graph w) \<and> f_edgeLabels (w_graph w) = f_edgeLabels g \<and>
     (\<exists>L. waiting nb z (entry_of \<omega> F) X w L)"

lemma takeWeight_step:
  assumes t: "taking nb z \<omega> F X g w" and g: "weighed \<omega> g" and F: "F \<subseteq> set (edges g)" and e: "e \<in> F" and u: "u \<in> X"
    and less: "\<And>v. v \<in> X \<Longrightarrow> entry_of \<omega> (F - {e}) v = (if v = u then f (\<omega> e) (entry_of \<omega> F v) else entry_of \<omega> F v)"
  shows "\<exists>w'. takeWeight nb z f e u w = Inr w' \<and> taking nb z \<omega> (F - {e}) X g w'"
proof -
  from t obtain L where L: "same_shape g (w_graph w)" "f_edgeLabels (w_graph w) = f_edgeLabels g" "waiting nb z (entry_of \<omega> F) X w L"
    by (auto simp: taking_def)
  have eg: "e \<in> set (edges g)" using F e by blast
  have k: "edgeOfObj e (w_graph w) = Some (\<omega> e)" using same_labels [OF L(1,2)] weighedD(1) [OF g eg] by simp
  have "fits nb z (entry_of \<omega> F u)" using placedD(3) [OF waitingD(4) [OF L(3)] u] .
  then have "fits nb z (entry_of \<omega> (F - {e}) u)"
  proof (rule fits_mono)
    show "finite F" using finite_subset [OF F] by simp
    show "0 < \<omega> x" if "x \<in> F" for x using weighedD(2) [OF g] F that by blast
  qed blast
  then have fit: "fits nb z (f (\<omega> e) (entry_of \<omega> F u))" using less [OF u] by simp
  obtain w' L' where w': "takeWeight nb z f e u w = Inr w'" "same_shape (w_graph w) (w_graph w')"
    "f_edgeLabels (w_graph w') = f_edgeLabels (w_graph w)" "waiting nb z ((entry_of \<omega> F)(u := f (\<omega> e) (entry_of \<omega> F u))) X w' L'"
    using takeWeight_ok [where f = f, OF L(3) u k fit] by blast
  have "waiting nb z (entry_of \<omega> (F - {e})) X w' L'"
    by (rule waiting_cong [OF w'(4)]) (simp add: less)
  moreover have "same_shape g (w_graph w')" "f_edgeLabels (w_graph w') = f_edgeLabels g"
    using same_shape_trans [OF L(1) w'(2)] w'(3) L(2) by simp_all
  ultimately have "taking nb z \<omega> (F - {e}) X g w'" unfolding taking_def by blast
  with w'(1) show ?thesis by blast
qed

lemma takeIn_step:
  assumes t: "taking nb z \<omega> F X g w" and g: "weighed \<omega> g" "F \<subseteq> set (edges g)" and e: "e \<in> F" "e_v e \<in> X" "e_w e \<notin> X"
  shows "\<exists>w'. takeWeight nb z lessOut e (e_v e) w = Inr w' \<and> taking nb z \<omega> (F - {e}) X g w'"
proof -
  have "finite F" using g(2) finite_subset by blast
  then have "entry_of \<omega> (F - {e}) v = (if v = e_v e then lessOut (\<omega> e) (entry_of \<omega> F v) else entry_of \<omega> F v)" if "v \<in> X" for v
    using e that by (intro entry_less_out) auto
  from takeWeight_step [where f = lessOut, OF t g e(1,2) this] show ?thesis .
qed

lemma takeOut_step:
  assumes t: "taking nb z \<omega> F X g w" and g: "weighed \<omega> g" "F \<subseteq> set (edges g)" and e: "e \<in> F" "e_w e \<in> X" "e_v e \<notin> X"
  shows "\<exists>w'. takeWeight nb z lessIn e (e_w e) w = Inr w' \<and> taking nb z \<omega> (F - {e}) X g w'"
proof -
  have "finite F" using g(2) finite_subset by blast
  then have "entry_of \<omega> (F - {e}) v = (if v = e_w e then lessIn (\<omega> e) (entry_of \<omega> F v) else entry_of \<omega> F v)" if "v \<in> X" for v
    using e that by (intro entry_less_in) auto
  from takeWeight_step [where f = lessIn, OF t g e(1,2) this] show ?thesis .
qed

text \<open>The whole loops.\<close>

lemma takeIn_loop:
  fixes g :: fasGraph
  assumes ok: "graph_ok g" "weighed \<omega> g" and x: "x \<in> node_set g"
    and t: "taking nb z \<omega> (set (edges g)) (node_set g - {x}) g w"
  defines "es \<equiv> each (inEdges x None g)"
  shows "\<exists>w'. rfold (\<lambda>e (w1, results).
      rbind (takeWeight nb z lessOut e (e_v e) w1) (\<lambda>w2.
        Inr (w2, if collect then results @ [(e_v e, e_w e)] else results))) es (w, []) =
      Inr (w', if collect then map (\<lambda>e. (e_v e, e_w e)) es else []) \<and>
    taking nb z \<omega> (set (edges g) - set es) (node_set g - {x}) g w'"
proof -
  note E = each_inEdges [OF ok(1) x, folded es_def]
  let ?P = "\<lambda>ys (w1, results). results = (if collect then map (\<lambda>e. (e_v e, e_w e)) ys else []) \<and>
    taking nb z \<omega> (set (edges g) - set ys) (node_set g - {x}) g w1"
  let ?f = "\<lambda>e (w1, results). rbind (takeWeight nb z lessOut e (e_v e) w1) (\<lambda>w2.
        Inr (w2, if collect then results @ [(e_v e, e_w e)] else results))"
  have "\<exists>p. rfold ?f es (w, []) = Inr p \<and> ?P es p"
  proof (rule rfold_prefix_invariant [where P = ?P])
    show "?P [] (w, [])" using t by simp
  next
    fix ys e zs p assume split: "es = ys @ e # zs" and P: "?P ys p"
    obtain w1 rs where p: "p = (w1, rs)" by force
    have "e \<in> set es" "e \<notin> set ys" using split E(2) by auto
    then have e: "e \<in> set (edges g) - set ys" "e_w e = x" using E(1) by auto
    have ends: "e_v e \<in> node_set g - {x}" using edges_ends [OF ok(1), of e] weighedD(3) [OF ok(2), of e] e by auto
    obtain w2 where w2: "takeWeight nb z lessOut e (e_v e) w1 = Inr w2"
      "taking nb z \<omega> (set (edges g) - set ys - {e}) (node_set g - {x}) g w2"
      using takeIn_step [OF _ ok(2), of nb z "set (edges g) - set ys" "node_set g - {x}" w1 e] P p e ends by auto
    have "set (edges g) - set ys - {e} = set (edges g) - set (ys @ [e])" by auto
    with w2 P p show "\<exists>p'. ?f e p = Inr p' \<and> ?P (ys @ [e]) p'" by auto
  qed
  then show ?thesis by auto
qed

lemma takeOut_loop:
  fixes g :: fasGraph
  assumes ok: "graph_ok g" "weighed \<omega> g" and x: "x \<in> node_set g" and F: "F \<subseteq> set (edges g)"
    and t: "taking nb z \<omega> F (node_set g - {x}) g w" and sub: "set (each (outEdges x None g)) \<subseteq> F"
  shows "\<exists>w'. rfold (\<lambda>e w2. takeWeight nb z lessIn e (e_w e) w2) (each (outEdges x None g)) w = Inr w' \<and>
    taking nb z \<omega> (F - set (each (outEdges x None g))) (node_set g - {x}) g w'"
proof -
  let ?es = "each (outEdges x None g)"
  note E = each_outEdges [OF ok(1) x]
  let ?P = "\<lambda>ys w1. taking nb z \<omega> (F - set ys) (node_set g - {x}) g w1"
  let ?f = "\<lambda>e w2. takeWeight nb z lessIn e (e_w e) w2"
  show ?thesis
  proof (rule rfold_prefix_invariant [where P = ?P])
    show "?P [] w" using t by simp
  next
    fix ys e zs w1 assume split: "?es = ys @ e # zs" and P: "?P ys w1"
    have "e \<in> set ?es" "e \<notin> set ys" using split E(2) by auto
    then have e: "e \<in> F - set ys" "e_v e = x" "e \<in> set (edges g)" using E(1) sub by auto
    have ends: "e_w e \<in> node_set g - {x}" using edges_ends [OF ok(1) e(3)] weighedD(3) [OF ok(2) e(3)] e(2) by auto
    have "F - set ys - {e} = F - set (ys @ [e])" by auto
    with takeOut_step [OF P ok(2) _ e(1)] F ends e(2)
    show "\<exists>w'. ?f e w1 = Inr w' \<and> ?P (ys @ [e]) w'" by auto
  qed
qed

text \<open>Between the steps all nodes of the graph wait, with the entries for all its edges.\<close>

definition ready :: "nat \<Rightarrow> int \<Rightarrow> (edgeObj \<Rightarrow> int) \<Rightarrow> fasWork \<Rightarrow> string list list \<Rightarrow> bool" where
  "ready nb z \<omega> w L \<longleftrightarrow> weighed \<omega> (w_graph w) \<and>
     waiting nb z (entry_of \<omega> (set (edges (w_graph w)))) (node_set (w_graph w)) w L"

lemma same_shape_outEdges: "same_shape g h \<Longrightarrow> outEdges v w h = outEdges v w g"
  by (cases g; cases h) (simp add: same_shape_def outEdges_def)

lemma graph_after_removal:
  fixes g :: fasGraph
  assumes ok: "graph_ok g" "weighed \<omega> g" and x: "x \<in> node_set g"
  shows "\<exists>h. removeNode x g = Inr h \<and> graph_ok h \<and> weighed \<omega> h \<and> node_set h = node_set g - {x} \<and>
    set (edges h) = {e \<in> set (edges g). e_v e \<noteq> x \<and> e_w e \<noteq> x} \<and> (\<forall>u. u \<noteq> x \<longrightarrow> node u h = node u g)"
proof -
  obtain h where h: "removeNode x g = Inr h" "graph_ok h" "abs_nodes h = (abs_nodes g)(x := None)"
    "\<And>eo. abs_edges h eo = (if e_v eo = x \<or> e_w eo = x then None else abs_edges g eo)"
    using removeNode_refines [OF ok(1) x] by blast
  have E: "set (edges h) = {e \<in> set (edges g). e_v e \<noteq> x \<and> e_w e \<noteq> x}"
    unfolding dom_abs_edges [OF h(2), symmetric] dom_abs_edges [OF ok(1), symmetric] using h(4) by (auto split: if_splits)
  have "edgeOfObj e h = edgeOfObj e g" if "e \<in> set (edges h)" for e
  proof -
    have "e \<in> set (edges g)" "e_v e \<noteq> x" "e_w e \<noteq> x" using that E by auto
    with abs_edge_label [OF h(2) that] abs_edge_label [OF ok(1), of e] h(4) [of e] show ?thesis by simp
  qed
  then have "weighed \<omega> h" using ok(2) E by (auto simp: weighed_def)
  moreover have "node_set h = node_set g - {x}" using h(3) by (simp add: node_set_abs)
  moreover have "node u h = node u g" if "u \<noteq> x" for u using fun_cong [OF h(3), of u] that by (simp add: abs_nodes_def node_def)
  ultimately show ?thesis using h(1,2) E by blast
qed

lemma fasRemoveNode_ok:
  fixes w :: fasWork
  defines "g \<equiv> w_graph w"
  assumes ok: "graph_ok g" "weighed \<omega> g" and x: "x \<in> node_set g"
    and t: "taking nb z \<omega> (set (edges g)) (node_set g - {x}) g w"
  shows "\<exists>w' L'. fasRemoveNode nb z x collect w = Inr (w', if collect then map (\<lambda>e. (e_v e, e_w e)) (each (inEdges x None g)) else []) \<and>
    ready nb z \<omega> w' L' \<and> node_set (w_graph w') = node_set g - {x} \<and>
    set (edges (w_graph w')) = {e \<in> set (edges g). e_v e \<noteq> x \<and> e_w e \<noteq> x}"
proof -
  let ?ins = "each (inEdges x None g)" and ?outs = "each (outEdges x None g)"
  note I = each_inEdges [OF ok(1) x] and O = each_outEdges [OF ok(1) x]
  let ?rs = "if collect then map (\<lambda>e. (e_v e, e_w e)) ?ins else []"
  obtain w1 where w1: "rfold (\<lambda>e (w1, results).
      rbind (takeWeight nb z lessOut e (e_v e) w1) (\<lambda>w2.
        Inr (w2, if collect then results @ [(e_v e, e_w e)] else results))) ?ins (w, []) = Inr (w1, ?rs)"
    "taking nb z \<omega> (set (edges g) - set ?ins) (node_set g - {x}) g w1"
    using takeIn_loop [OF ok x t] by blast
  have s1: "same_shape g (w_graph w1)" using w1(2) by (simp add: taking_def)
  have "set ?outs \<subseteq> set (edges g) - set ?ins" using I(1) O(1) weighedD(3) [OF ok(2)] by fastforce
  then obtain w2 where w2: "rfold (\<lambda>e w2. takeWeight nb z lessIn e (e_w e) w2) ?outs w1 = Inr w2"
    "taking nb z \<omega> (set (edges g) - set ?ins - set ?outs) (node_set g - {x}) g w2"
    using takeOut_loop [OF ok x _ w1(2)] by blast
  obtain L where L: "same_shape g (w_graph w2)" "f_edgeLabels (w_graph w2) = f_edgeLabels g"
    "waiting nb z (entry_of \<omega> (set (edges g) - set ?ins - set ?outs)) (node_set g - {x}) w2 L"
    using w2(2) unfolding taking_def by blast
  note S = same_shapeD [OF L(1)] and W = waitingD [OF L(3)]
  have "weighed \<omega> (w_graph w2)" using ok(2) S(2) same_labels [OF L(1,2)] by (simp add: weighed_def)
  then obtain h where h: "removeNode x (w_graph w2) = Inr h" "graph_ok h" "weighed \<omega> h" "node_set h = node_set g - {x}"
    "set (edges h) = {e \<in> set (edges g). e_v e \<noteq> x \<and> e_w e \<noteq> x}" "\<forall>u. u \<noteq> x \<longrightarrow> node u h = node u (w_graph w2)"
    using graph_after_removal [OF W(1), of \<omega> x] x unfolding S(2,3) by blast
  have F: "set (edges h) = set (edges g) - set ?ins - set ?outs" unfolding h(5) using I(1) O(1) by auto
  have "waiting nb z (entry_of \<omega> (set (edges h))) (node_set h) (w2\<lparr>w_graph := h\<rparr>) L"
    using W(3-5) h(2,6) unfolding F h(4) by (simp add: waiting_def h(4))
  then have "ready nb z \<omega> (w2\<lparr>w_graph := h\<rparr>) L" using h(3) by (simp add: ready_def)
  moreover have "fasRemoveNode nb z x collect w = Inr (w2\<lparr>w_graph := h\<rparr>, ?rs)"
    unfolding fasRemoveNode_def g_def [symmetric] w1(1) using same_shape_outEdges [OF s1] w2(1) h(1) by simp
  ultimately show ?thesis using h(4,5) by force
qed

text \<open>Taking an entry from a list: the node has the entry that belongs there.\<close>

lemma dequeue_ready:
  assumes r: "ready nb z \<omega> w L" and s: "s < nb" "L ! s = xs @ [x]"
  defines "g \<equiv> w_graph w"
  shows "\<exists>st. dequeueEntry s (w_lists w) = Inr (Some x, st) \<and>
      taking nb z \<omega> (set (edges g)) (node_set g - {x}) g (w\<lparr>w_lists := st\<rparr>)"
    and "x \<in> node_set g" "nat (bucketIndex nb z (entry_of \<omega> (set (edges g)) x)) = s"
    "fits nb z (entry_of \<omega> (set (edges g)) x)"
proof -
  let ?en = "entry_of \<omega> (set (edges g))"
  note W = waitingD [OF conjunct2 [OF r [unfolded ready_def]], folded g_def]
  note P = placedD [OF W(4)]
  have sL: "s < length L" using s(1) P(1) by simp
  have x: "x \<in> set (L ! s)" using s(2) by simp
  show xg: "x \<in> node_set g" using P(2) nth_mem [OF sL] x by auto
  show fx: "fits nb z (?en x)" by (rule P(3) [OF xg])
  have d: "distinct (concat L)" using lists.row_distinct [OF W(3)] .
  show "nat (bucketIndex nb z (?en x)) = s"
    by (rule concat_nth_distinct [OF d _ sL P(4) [OF xg] x]) (use bucket_index_less [OF fx] P(1) in simp)
  obtain st where st: "dequeueEntry s (w_lists w) = Inr (Some x, st)" "holds st (L[s := xs])"
    using lists.deq_some [OF W(3) sL s(2)] by blast
  have c: "concat L = concat (take s L) @ xs @ x # concat (drop (Suc s) L)"
    "concat (L[s := xs]) = concat (take s L) @ xs @ concat (drop (Suc s) L)"
    using concat_split [OF sL] s(2) by (simp_all add: upd_conv_take_nth_drop [OF sL])
  have "set (concat (L[s := xs])) = node_set g - {x}" using d unfolding P(2) [symmetric] c by auto
  moreover have "u \<in> set (L[s := xs] ! nat (bucketIndex nb z (?en u)))" if "u \<in> node_set g - {x}" for u
    using P(4) [of u] that s(2) sL by (cases "nat (bucketIndex nb z (?en u)) = s") auto
  ultimately have "placed nb z ?en (node_set g - {x}) (L[s := xs])" unfolding placed_def using P(1,3) by simp
  then have "waiting nb z ?en (node_set g - {x}) (w\<lparr>w_lists := st\<rparr>) (L[s := xs])"
    using W(1,5) st(2) by (auto simp: waiting_def g_def)
  with st(1) show "\<exists>st. dequeueEntry s (w_lists w) = Inr (Some x, st) \<and>
      taking nb z \<omega> (set (edges g)) (node_set g - {x}) g (w\<lparr>w_lists := st\<rparr>)"
    by (auto simp: taking_def g_def)
qed

section \<open>The order that the algorithm builds\<close>

text \<open>Sources and the nodes with collected in-edges go to the end of \<open>lf\<close>, sinks to the front of \<open>rt\<close>.\<close>

definition sided :: "string list \<Rightarrow> string list \<Rightarrow> string \<Rightarrow> string \<Rightarrow> bool" where
  "sided lf rt a b \<longleftrightarrow> precedes lf a b \<or> a \<in> set lf \<and> b \<notin> set lf \<or> b \<in> set rt \<and> a \<notin> set rt \<or> precedes rt a b"

definition ordered :: "(string \<times> string) set \<Rightarrow> string set \<Rightarrow> (string \<times> string) list \<Rightarrow> string list \<Rightarrow> string list \<Rightarrow> string set \<Rightarrow> bool" where
  "ordered E N res lf rt R \<longleftrightarrow> distinct (lf @ rt) \<and> set lf \<union> set rt \<union> R = N \<and> set (lf @ rt) \<inter> R = {} \<and>
     distinct res \<and> set res \<subseteq> E \<and>
     (\<forall>u v. (u, v) \<in> E \<longrightarrow> (if (u, v) \<in> set res then sided lf rt v u else u \<in> R \<and> v \<in> R \<or> sided lf rt u v))"

lemma precedes_mem: "precedes xs a b \<Longrightarrow> a \<in> set xs \<and> b \<in> set xs"
  by (auto simp: precedes_def)

lemma orderedD:
  assumes "ordered E N res lf rt R"
  shows "distinct (lf @ rt)" "set lf \<union> set rt \<union> R = N" "set (lf @ rt) \<inter> R = {}" "distinct res" "set res \<subseteq> E"
    and "\<And>u v. (u, v) \<in> E \<Longrightarrow> (u, v) \<in> set res \<Longrightarrow> sided lf rt v u"
    and "\<And>u v. (u, v) \<in> E \<Longrightarrow> (u, v) \<notin> set res \<Longrightarrow> u \<in> R \<and> v \<in> R \<or> sided lf rt u v"
  using assms unfolding ordered_def by (simp_all split: if_splits)

lemma orderedI:
  assumes "distinct (lf @ rt)" "set lf \<union> set rt \<union> R = N" "set (lf @ rt) \<inter> R = {}" "distinct res" "set res \<subseteq> E"
    and "\<And>u v. (u, v) \<in> E \<Longrightarrow> if (u, v) \<in> set res then sided lf rt v u else u \<in> R \<and> v \<in> R \<or> sided lf rt u v"
  shows "ordered E N res lf rt R"
  unfolding ordered_def using assms by blast

lemma ordered_open:
  assumes "ordered E N res lf rt R" "(u, v) \<in> E" "u \<in> R" "v \<in> R"
  shows "(u, v) \<notin> set res"
proof
  assume "(u, v) \<in> set res"
  from orderedD(6) [OF assms(1,2) this] orderedD(3) [OF assms(1)] assms(3,4) show False
    by (auto simp: sided_def dest: precedes_mem)
qed

lemma sided_left: "sided lf rt a b \<Longrightarrow> sided (lf @ [x]) rt a b"
  by (auto simp: sided_def precedes_append intro: precedes_snoc)

lemma sided_right: "sided lf rt a b \<Longrightarrow> sided lf (x # rt) a b"
  by (auto simp: sided_def precedes_Cons intro: precedes_head)

lemma ordered_right:
  assumes o: "ordered E N res lf rt R" and x: "x \<in> R" "\<And>v. v \<in> R \<Longrightarrow> (x, v) \<notin> E"
  shows "ordered E N res lf (x # rt) (R - {x})"
proof -
  note O = orderedD [OF o]
  have "if (u, v) \<in> set res then sided lf (x # rt) v u else u \<in> R - {x} \<and> v \<in> R - {x} \<or> sided lf (x # rt) u v"
    if e: "(u, v) \<in> E" for u v
  proof (cases "(u, v) \<in> set res")
    case True
    with sided_right [OF O(6) [OF e True]] show ?thesis by simp
  next
    case False
    from O(7) [OF e False] consider "sided lf rt u v" | "u \<in> R" "v \<in> R" "v \<noteq> x" | "u \<in> R" "v = x" by blast
    then show ?thesis
    proof cases
      case 1
      with sided_right [OF 1] False show ?thesis by simp
    next
      case 2
      then have "u \<noteq> x" using x(2) e by blast
      with 2 False show ?thesis by simp
    next
      case 3
      then have "u \<noteq> x" using x e by blast
      moreover have "u \<notin> set rt" using O(3) 3(1) by auto
      ultimately show ?thesis using 3 False by (simp add: sided_def)
    qed
  qed
  moreover have "distinct (lf @ x # rt)" "set lf \<union> set (x # rt) \<union> (R - {x}) = N" "set (lf @ x # rt) \<inter> (R - {x}) = {}"
    using O(1-3) x(1) by auto
  ultimately show ?thesis by (intro orderedI O(4,5))
qed

lemma ordered_left:
  assumes o: "ordered E N res lf rt R" and x: "x \<in> R" "(x, x) \<notin> E"
    and new: "distinct new" "set new = {(u, x) | u. (u, x) \<in> E \<and> u \<in> R}"
  shows "ordered E N (res @ new) (lf @ [x]) rt (R - {x})"
proof -
  note O = orderedD [OF o]
  have out: "y \<notin> set lf" if "y \<in> R" for y using O(3) that by auto
  have "if (u, v) \<in> set (res @ new) then sided (lf @ [x]) rt v u else u \<in> R - {x} \<and> v \<in> R - {x} \<or> sided (lf @ [x]) rt u v"
    if e: "(u, v) \<in> E" for u v
  proof (cases "(u, v) \<in> set res")
    case True
    with sided_left [OF O(6) [OF e True]] show ?thesis by simp
  next
    case False
    from O(7) [OF e False] consider "sided lf rt u v" "\<not> (u \<in> R \<and> v \<in> R)" | "u \<in> R" "v \<in> R" "u \<noteq> x" "v \<noteq> x"
      | "u \<in> R" "v = x" | "u = x" "v \<in> R" "v \<noteq> x" by blast
    then show ?thesis
    proof cases
      case 1
      then have "(u, v) \<notin> set new" using new(2) x(1) by auto
      with sided_left [OF 1(1)] False show ?thesis by simp
    next
      case 2
      then have "(u, v) \<notin> set new" using new(2) by auto
      with 2 False show ?thesis by simp
    next
      case 3
      then have "(u, v) \<in> set new" "u \<noteq> x" using new(2) e x(2) by auto
      with 3 out show ?thesis by (simp add: sided_def)
    next
      case 4
      then have "(u, v) \<notin> set new" using new(2) by auto
      with 4 False out show ?thesis by (simp add: sided_def)
    qed
  qed
  moreover have "set res \<inter> set new = {}"
  proof -
    have "(u, x) \<notin> set res" if "(u, x) \<in> E" "u \<in> R" for u using ordered_open [OF o that x(1)] .
    then show ?thesis using new(2) by auto
  qed
  moreover have "set new \<subseteq> E" using new(2) by auto
  moreover have "distinct ((lf @ [x]) @ rt)" "set (lf @ [x]) \<union> set rt \<union> (R - {x}) = N" "set ((lf @ [x]) @ rt) \<inter> (R - {x}) = {}"
    using O(1-3) x(1) by auto
  moreover have "distinct (res @ new)" "set (res @ new) \<subseteq> E" using O(4,5) new(1) calculation(2,3) by auto
  ultimately show ?thesis by (intro orderedI)
qed

text \<open>At the end the two lists are one order.\<close>

lemma ordered_done:
  assumes o: "ordered E N res lf rt {}" and e: "(u, v) \<in> E" "E \<subseteq> N \<times> N"
  shows "if (u, v) \<in> set res then precedes (lf @ rt) v u else precedes (lf @ rt) u v"
proof -
  note O = orderedD [OF o]
  have "precedes (lf @ rt) a b" if "sided lf rt a b" "a \<in> N" "b \<in> N" for a b
  proof -
    from that O(2) consider "precedes lf a b" | "a \<in> set lf" "b \<in> set rt" | "precedes rt a b" by (auto simp: sided_def)
    then show ?thesis
    proof cases
      case 3
      then obtain ys zs where "rt = ys @ b # zs" "a \<in> set ys" by (auto simp: precedes_def)
      then have "lf @ rt = (lf @ ys) @ b # zs" "a \<in> set (lf @ ys)" by simp_all
      then show ?thesis unfolding precedes_def by blast
    qed (simp_all add: precedes_append precedes_across)
  qed
  then show ?thesis using O(6,7) [OF e(1)] e by auto
qed

section \<open>The loops\<close>

definition greedy_inv ::
  "nat \<Rightarrow> int \<Rightarrow> (edgeObj \<Rightarrow> int) \<Rightarrow> (string \<times> string) set \<Rightarrow> string set \<Rightarrow> fasWork \<Rightarrow> string list list \<Rightarrow> (string \<times> string) list \<Rightarrow> bool" where
  "greedy_inv nb z \<omega> E N w L res \<longleftrightarrow> ready nb z \<omega> w L \<and>
     arcs (w_graph w) = {(u, v) \<in> E. u \<in> node_set (w_graph w) \<and> v \<in> node_set (w_graph w)} \<and>
     (\<exists>lf rt. ordered E N res lf rt (node_set (w_graph w)))"

lemma greedy_invD:
  assumes "greedy_inv nb z \<omega> E N w L res"
  shows "ready nb z \<omega> w L" "arcs (w_graph w) = {(u, v) \<in> E. u \<in> node_set (w_graph w) \<and> v \<in> node_set (w_graph w)}"
    "\<exists>lf rt. ordered E N res lf rt (node_set (w_graph w))"
    "weighed \<omega> (w_graph w)" "graph_ok (w_graph w)" "length L = nb" "set (concat L) = node_set (w_graph w)"
proof -
  from assms show r: "ready nb z \<omega> w L"
    and "arcs (w_graph w) = {(u, v) \<in> E. u \<in> node_set (w_graph w) \<and> v \<in> node_set (w_graph w)}"
    and "\<exists>lf rt. ordered E N res lf rt (node_set (w_graph w))" unfolding greedy_inv_def by blast+
  then show "weighed \<omega> (w_graph w)" "graph_ok (w_graph w)" by (simp_all add: ready_def waiting_def)
  have "waiting nb z (entry_of \<omega> (set (edges (w_graph w)))) (node_set (w_graph w)) w L" using r by (simp add: ready_def)
  note P = placedD(1,2) [OF waitingD(4) [OF this]]
  show "length L = nb" "set (concat L) = node_set (w_graph w)" by (rule P)+
qed

lemma no_weight:
  assumes "weighed \<omega> g" "(\<Sum>e \<in> {e \<in> set (edges g). p e}. \<omega> e) = 0" "e \<in> set (edges g)"
  shows "\<not> p e"
proof
  assume "p e"
  have "\<omega> e \<le> (\<Sum>e \<in> {e \<in> set (edges g). p e}. \<omega> e)"
    using assms(1,3) \<open>p e\<close> by (intro member_le_sum) (auto dest: weighedD(2) intro: less_imp_le)
  with assms(2) weighedD(2) [OF assms(1,3)] show False by simp
qed

lemma collected_arcs:
  fixes g :: fasGraph
  assumes ok: "graph_ok g" "weighed \<omega> g" "x \<in> node_set g"
  defines "rs \<equiv> map (\<lambda>e. (e_v e, e_w e)) (each (inEdges x None g))"
  shows "distinct rs" "set rs = {(u, x) | u. (u, x) \<in> arcs g}"
proof -
  note I = each_inEdges [OF ok(1,3)]
  have "inj_on (\<lambda>e. (e_v e, e_w e)) (set (each (inEdges x None g)))"
  proof (rule inj_onI)
    fix a b assume ab: "a \<in> set (each (inEdges x None g))" "b \<in> set (each (inEdges x None g))" "(e_v a, e_w a) = (e_v b, e_w b)"
    then have "e_name a = None" "e_name b = None" using I(1) weighedD(4) [OF ok(2)] by auto
    with ab(3) show "a = b" by (simp add: edgeObj.equality)
  qed
  with I(2) show "distinct rs" by (simp add: rs_def distinct_map)
  show "set rs = {(u, x) | u. (u, x) \<in> arcs g}" using I(1) by (auto simp: rs_def arcs_def)
qed

text \<open>One node leaves: a sink from list \<open>0\<close>, a source from the last one, or a node whose in-edges are collected.\<close>

lemma remove_step:
  assumes inv: "greedy_inv nb z \<omega> E N w L res" and s: "s < nb" "L ! s = xs @ [x]" and c: "collect \<or> s = 0 \<or> s = nb - 1"
  shows "\<exists>st w' L' rs. dequeueEntry s (w_lists w) = Inr (Some x, st) \<and>
    fasRemoveNode nb z x collect (w\<lparr>w_lists := st\<rparr>) = Inr (w', rs) \<and> greedy_inv nb z \<omega> E N w' L' (res @ rs) \<and>
    node_set (w_graph w') \<subset> node_set (w_graph w) \<and> (\<not> collect \<longrightarrow> rs = [])"
proof -
  let ?g = "w_graph w"
  note I = greedy_invD [OF inv] and D = dequeue_ready [OF greedy_invD(1) [OF inv] s]
  obtain st where st: "dequeueEntry s (w_lists w) = Inr (Some x, st)"
    "taking nb z \<omega> (set (edges ?g)) (node_set ?g - {x}) ?g (w\<lparr>w_lists := st\<rparr>)" using D(1) by blast
  define rs where "rs = (if collect then map (\<lambda>e. (e_v e, e_w e)) (each (inEdges x None ?g)) else [])"
  obtain w' L' where w': "fasRemoveNode nb z x collect (w\<lparr>w_lists := st\<rparr>) = Inr (w', rs)" "ready nb z \<omega> w' L'"
    "node_set (w_graph w') = node_set ?g - {x}" "set (edges (w_graph w')) = {e \<in> set (edges ?g). e_v e \<noteq> x \<and> e_w e \<noteq> x}"
    using fasRemoveNode_ok [of "w\<lparr>w_lists := st\<rparr>" \<omega> x nb z collect] I(4,5) D(2) st(2) unfolding rs_def by auto
  have "arcs (w_graph w') = {(u, v) \<in> arcs ?g. u \<noteq> x \<and> v \<noteq> x}" unfolding arcs_def w'(4) by auto
  then have A: "arcs (w_graph w') = {(u, v) \<in> E. u \<in> node_set (w_graph w') \<and> v \<in> node_set (w_graph w')}"
    unfolding w'(3) I(2) by auto
  obtain lf rt where o: "ordered E N res lf rt (node_set ?g)" using I(3) by blast
  have "(x, x) \<notin> arcs ?g" using weighedD(3) [OF I(4)] by (fastforce simp: arcs_def)
  then have loop: "(x, x) \<notin> E" using D(2) unfolding I(2) by simp
  note B = bucketIndex_range(3,4) [OF D(4)]
  have "\<exists>lf rt. ordered E N (res @ rs) lf rt (node_set ?g - {x})"
  proof (cases collect)
    case True
    then have rs: "rs = map (\<lambda>e. (e_v e, e_w e)) (each (inEdges x None ?g))" by (simp add: rs_def)
    have "set rs = {(u, x) | u. (u, x) \<in> E \<and> u \<in> node_set ?g}"
      using collected_arcs(2) [OF I(5,4) D(2)] D(2) unfolding rs I(2) by auto
    with ordered_left [OF o D(2) loop _ this] collected_arcs(1) [OF I(5,4) D(2)] rs show ?thesis by auto
  next
    case False
    then have rs: "rs = []" by (simp add: rs_def)
    show ?thesis
    proof (cases "s = 0")
      case True
      then have "a_out (entry_of \<omega> (set (edges ?g)) x) = 0" using D(3) B(1) bucketIndex_range(1) [OF D(4)] by simp
      then have "e_v e \<noteq> x" if "e \<in> set (edges ?g)" for e using no_weight [OF I(4) _ that, of "\<lambda>e. e_v e = x"] by simp
      then have "(x, v) \<notin> arcs ?g" for v by (auto simp: arcs_def)
      then have "(x, v) \<notin> E" if "v \<in> node_set ?g" for v using I(2) D(2) that by auto
      from ordered_right [OF o D(2) this] show ?thesis unfolding rs by auto
    next
      case nz: False
      with c False s(1) have "bucketIndex nb z (entry_of \<omega> (set (edges ?g)) x) = int nb - 1" using D(3) by linarith
      then have "a_in (entry_of \<omega> (set (edges ?g)) x) = 0" using B(2) by simp
      then have "e_w e \<noteq> x" if "e \<in> set (edges ?g)" for e using no_weight [OF I(4) _ that, of "\<lambda>e. e_w e = x"] by simp
      then have "(u, x) \<notin> arcs ?g" for u by (auto simp: arcs_def)
      then have "set rs = {(u, x) | u. (u, x) \<in> E \<and> u \<in> node_set ?g}" using I(2) D(2) rs by auto
      from ordered_left [OF o D(2) loop _ this] rs show ?thesis by auto
    qed
  qed
  then have "greedy_inv nb z \<omega> E N w' L' (res @ rs)" unfolding greedy_inv_def using w'(2,3) A by simp
  moreover have "node_set (w_graph w') \<subset> node_set ?g" using w'(3) D(2) by auto
  moreover have "\<not> collect \<longrightarrow> rs = []" by (simp add: rs_def)
  ultimately show ?thesis using st(1) w'(1) by blast
qed

lemma drain_ok:
  assumes s: "s < nb" "s = 0 \<or> s = nb - 1"
  shows "greedy_inv nb z \<omega> E N w L res \<Longrightarrow> card (node_set (w_graph w)) < n \<Longrightarrow>
    \<exists>w' L'. drain n nb z s w = Inr w' \<and> greedy_inv nb z \<omega> E N w' L' res \<and>
      (w' = w \<and> L' = L \<and> L ! s = [] \<or> node_set (w_graph w') \<subset> node_set (w_graph w))"
proof (induction n arbitrary: w L)
  case (Suc n)
  note I = greedy_invD [OF Suc.prems(1)]
  have h: "holds (w_lists w) L" using I(1) by (simp add: ready_def waiting_def)
  have sL: "s < length L" using s(1) I(6) by simp
  show ?case
  proof (cases "L ! s" rule: rev_cases)
    case Nil
    with lists.deq_none [OF h sL Nil] Suc.prems(1) show ?thesis by auto
  next
    case (snoc xs x)
    have c: "False \<or> s = 0 \<or> s = nb - 1" using s(2) by simp
    obtain st w1 L1 rs where w1: "dequeueEntry s (w_lists w) = Inr (Some x, st)"
      "fasRemoveNode nb z x False (w\<lparr>w_lists := st\<rparr>) = Inr (w1, rs)" "greedy_inv nb z \<omega> E N w1 L1 (res @ rs)"
      "node_set (w_graph w1) \<subset> node_set (w_graph w)" "\<not> False \<longrightarrow> rs = []"
      using remove_step [OF Suc.prems(1) s(1) snoc c] by blast
    have inv1: "greedy_inv nb z \<omega> E N w1 L1 res" using w1(3,5) by simp
    have "card (node_set (w_graph w1)) < card (node_set (w_graph w))"
      by (rule psubset_card_mono [OF _ w1(4)]) (simp add: node_set_def)
    with Suc.prems(2) have "card (node_set (w_graph w1)) < n" by simp
    from Suc.IH [OF inv1 this] obtain w' L' where w': "drain n nb z s w1 = Inr w'" "greedy_inv nb z \<omega> E N w' L' res"
      "w' = w1 \<and> L' = L1 \<and> L1 ! s = [] \<or> node_set (w_graph w') \<subset> node_set (w_graph w1)" by blast
    then have "node_set (w_graph w') \<subset> node_set (w_graph w)" using w1(4) by blast
    moreover have "drain (Suc n) nb z s w = Inr w'" using w1(1,2) w'(1) by simp
    ultimately show ?thesis using w'(2) by blast
  qed
qed simp

lemma takeMiddle_ok:
  assumes "holds st L" "i < length L"
  shows "(\<forall>s. 1 \<le> s \<and> s \<le> i \<longrightarrow> L ! s = []) \<and> takeMiddle i st = Inr (None, st) \<or>
    (\<exists>s xs x st'. 1 \<le> s \<and> s \<le> i \<and> L ! s = xs @ [x] \<and> dequeueEntry s st = Inr (Some x, st') \<and> takeMiddle i st = Inr (Some x, st'))"
  using assms(2)
proof (induction i)
  case (Suc i)
  show ?case
  proof (cases "L ! Suc i" rule: rev_cases)
    case Nil
    then have t: "takeMiddle (Suc i) st = takeMiddle i st" using lists.deq_none [OF assms(1) Suc.prems Nil] by simp
    from Suc.IH Suc.prems consider "\<forall>s. 1 \<le> s \<and> s \<le> i \<longrightarrow> L ! s = []" "takeMiddle i st = Inr (None, st)"
      | s xs x st' where "1 \<le> s" "s \<le> i" "L ! s = xs @ [x]" "dequeueEntry s st = Inr (Some x, st')" "takeMiddle i st = Inr (Some x, st')"
      by auto
    then show ?thesis
    proof cases
      case 1
      then show ?thesis using Nil t by (auto simp: le_Suc_eq)
    next
      case 2
      then have "s \<le> Suc i" by simp
      with 2 t show ?thesis by metis
    qed
  next
    case (snoc xs x)
    from lists.deq_some [OF assms(1) Suc.prems snoc] obtain st' where "dequeueEntry (Suc i) st = Inr (Some x, st')" by blast
    then show ?thesis using snoc by (intro disjI2 exI [of _ "Suc i"] exI [of _ xs] exI [of _ x] exI [of _ st']) simp
  qed
qed simp

lemma takeBest_ok:
  assumes inv: "greedy_inv nb z \<omega> E N w L res" and nb: "2 \<le> nb"
  shows "\<exists>w' L' res'. takeBest nb z (w, res) = Inr (w', res') \<and> greedy_inv nb z \<omega> E N w' L' res' \<and>
    (node_set (w_graph w') \<subset> node_set (w_graph w) \<or> w' = w \<and> (\<forall>s. 1 \<le> s \<and> s \<le> nb - 2 \<longrightarrow> L ! s = []))"
proof -
  note I = greedy_invD [OF inv]
  have h: "holds (w_lists w) L" using I(1) by (simp add: ready_def waiting_def)
  have "nb - 2 < length L" using I(6) nb by simp
  from takeMiddle_ok [OF h this] consider
    "\<forall>s. 1 \<le> s \<and> s \<le> nb - 2 \<longrightarrow> L ! s = []" "takeMiddle (nb - 2) (w_lists w) = Inr (None, w_lists w)"
    | s xs x st where "1 \<le> s" "s \<le> nb - 2" "L ! s = xs @ [x]" "dequeueEntry s (w_lists w) = Inr (Some x, st)"
      "takeMiddle (nb - 2) (w_lists w) = Inr (Some x, st)" by blast
  then show ?thesis
  proof cases
    case 1
    then have "takeBest nb z (w, res) = Inr (w, res)" by (simp add: takeBest_def)
    with inv 1(1) show ?thesis by blast
  next
    case 2
    then have "s < nb" using nb by simp
    have c: "True \<or> s = 0 \<or> s = nb - 1" by simp
    obtain w' L' rs where w': "fasRemoveNode nb z x True (w\<lparr>w_lists := st\<rparr>) = Inr (w', rs)"
      "greedy_inv nb z \<omega> E N w' L' (res @ rs)" "node_set (w_graph w') \<subset> node_set (w_graph w)"
      using remove_step [OF inv \<open>s < nb\<close> 2(3) c] 2(4) by auto
    with 2(5) have "takeBest nb z (w, res) = Inr (w', res @ rs)" by (simp add: takeBest_def)
    with w'(2,3) show ?thesis by blast
  qed
qed

lemma nodeCount_card: "graph_ok g \<Longrightarrow> nodeCount g = int (card (node_set g))"
  using distinct_card [OF distinct_nodes [of g]] by (simp add: graph_ok_def nodeCount_def nodes_def node_set_def)

text \<open>Each turn of the outer loop takes out a node.\<close>

lemma turn_ok:
  assumes inv: "greedy_inv nb z \<omega> E N w L res" and nb: "3 \<le> nb" and ne: "node_set (w_graph w) \<noteq> {}"
  shows "\<exists>w' L' res'. rbind (drain (drainBound w) nb z 0 w) (\<lambda>w1. rbind (drain (drainBound w1) nb z (nb - 1) w1) (\<lambda>w2.
      if nodeCount (w_graph w2) \<noteq> 0 then takeBest nb z (w2, res) else Inr (w2, res))) = Inr (w', res') \<and>
    greedy_inv nb z \<omega> E N w' L' res' \<and> node_set (w_graph w') \<subset> node_set (w_graph w)"
proof -
  have bound: "card (node_set (w_graph v)) < drainBound v" if "greedy_inv nb z \<omega> E N v K r" for v K r
    using nodeCount_card [OF greedy_invD(5) [OF that]] by (simp add: drainBound_def)
  have s: "0 < nb" "nb - 1 < nb" using nb by simp_all
  obtain w1 L1 where w1: "drain (drainBound w) nb z 0 w = Inr w1" "greedy_inv nb z \<omega> E N w1 L1 res"
    "w1 = w \<and> L1 = L \<and> L ! 0 = [] \<or> node_set (w_graph w1) \<subset> node_set (w_graph w)"
    using drain_ok [OF s(1) disjI1 [OF refl] inv bound [OF inv]] by blast
  obtain w2 L2 where w2: "drain (drainBound w1) nb z (nb - 1) w1 = Inr w2" "greedy_inv nb z \<omega> E N w2 L2 res"
    "w2 = w1 \<and> L2 = L1 \<and> L1 ! (nb - 1) = [] \<or> node_set (w_graph w2) \<subset> node_set (w_graph w1)"
    using drain_ok [OF s(2) disjI2 [OF refl] w1(2) bound [OF w1(2)]] by blast
  have "2 \<le> nb" using nb by simp
  obtain w3 L3 r3 where w3: "takeBest nb z (w2, res) = Inr (w3, r3)" "greedy_inv nb z \<omega> E N w3 L3 r3"
    "node_set (w_graph w3) \<subset> node_set (w_graph w2) \<or> w3 = w2 \<and> (\<forall>s. 1 \<le> s \<and> s \<le> nb - 2 \<longrightarrow> L2 ! s = [])"
    using takeBest_ok [OF w2(2) \<open>2 \<le> nb\<close>] by blast
  show ?thesis
  proof (cases "node_set (w_graph w2) = {}")
    case True
    then have "nodeCount (w_graph w2) = 0" using nodeCount_card [OF greedy_invD(5) [OF w2(2)]] by simp
    with w1(1) w2(1,2) True ne show ?thesis by auto
  next
    case False
    then have nz: "nodeCount (w_graph w2) \<noteq> 0"
      using nodeCount_card [OF greedy_invD(5) [OF w2(2)]] by (simp add: node_set_def)
    have "node_set (w_graph w3) \<subset> node_set (w_graph w)"
    proof (rule ccontr)
      assume "\<not> ?thesis"
      then have same: "L2 ! 0 = []" "L2 ! (nb - 1) = []" "\<forall>s. 1 \<le> s \<and> s \<le> nb - 2 \<longrightarrow> L2 ! s = []"
        using w1(3) w2(3) w3(3) by auto
      have "L2 ! s = []" if "s < length L2" for s
      proof -
        have "s = 0 \<or> s = nb - 1 \<or> 1 \<le> s \<and> s \<le> nb - 2" using that greedy_invD(6) [OF w2(2)] by linarith
        with same show ?thesis by auto
      qed
      then have "x \<notin> set (concat L2)" for x unfolding mem_concat by simp
      with greedy_invD(7) [OF w2(2)] False show False by blast
    qed
    with w1(1) w2(1) w3(1,2) nz show ?thesis by auto
  qed
qed

lemma greedyLoop_ok:
  assumes nb: "3 \<le> nb"
  shows "greedy_inv nb z \<omega> E N w L res \<Longrightarrow> card (node_set (w_graph w)) < n \<Longrightarrow>
    \<exists>results lf rt. greedyLoop n nb z (w, res) = Inr results \<and> ordered E N results lf rt {}"
proof (induction n arbitrary: w L res)
  case (Suc n)
  note I = greedy_invD [OF Suc.prems(1)]
  show ?case
  proof (cases "node_set (w_graph w) = {}")
    case True
    then have "nodeCount (w_graph w) = 0" using nodeCount_card [OF I(5)] by simp
    with I(3) True show ?thesis by auto
  next
    case False
    then have nz: "nodeCount (w_graph w) \<noteq> 0" using nodeCount_card [OF I(5)] by (simp add: node_set_def)
    obtain w' L' r' where t: "rbind (drain (drainBound w) nb z 0 w) (\<lambda>w1. rbind (drain (drainBound w1) nb z (nb - 1) w1) (\<lambda>w2.
      if nodeCount (w_graph w2) \<noteq> 0 then takeBest nb z (w2, res) else Inr (w2, res))) = Inr (w', r')"
      "greedy_inv nb z \<omega> E N w' L' r'" "node_set (w_graph w') \<subset> node_set (w_graph w)"
      using turn_ok [OF Suc.prems(1) nb False] by blast
    have "card (node_set (w_graph w')) < card (node_set (w_graph w))"
      by (rule psubset_card_mono [OF _ t(3)]) (simp add: node_set_def)
    with Suc.prems(2) have "card (node_set (w_graph w')) < n" by simp
    moreover have "greedyLoop (Suc n) nb z (w, res) = greedyLoop n nb z (w', r')"
      using nz t(1) by (simp flip: rbind_assoc)
    ultimately show ?thesis using Suc.IH [OF t(2)] by simp
  qed
qed simp

end
