(* ===== verification/Dagre_Greedy_Ok.thy ===== *)
theory Dagre_Greedy_Ok
  imports Dagre_Greedy
begin

text \<open>
  The state that the greedy heuristic starts from (\<open>buildState\<close>) and the correctness of the whole algorithm.
\<close>

section \<open>The graph of summed weights\<close>

definition arc :: "string \<Rightarrow> string \<Rightarrow> edgeObj" where
  "arc u v = \<lparr>e_v = u, e_w = v, e_name = None\<rparr>"

lemma arc_sel [simp]: "e_v (arc u v) = u" "e_w (arc u v) = v" "e_name (arc u v) = None"
  by (simp_all add: arc_def)

definition weight_in :: "fasGraph \<Rightarrow> edgeObj \<Rightarrow> int" where
  "weight_in g z = (case abs_edges g z of Some (Some k) \<Rightarrow> k | _ \<Rightarrow> 0)"

definition simple_graph :: "fasGraph \<Rightarrow> bool" where
  "simple_graph g \<longleftrightarrow> graph_ok g \<and> clean_graph g \<and> f_isDirected g \<and> \<not> f_isMultigraph g \<and> \<not> f_isCompound g"

text \<open>After the edges \<open>ys\<close> of \<open>g\<close> have been added.\<close>

definition built :: "('g, 'n, 'e) Graph \<Rightarrow> edgeObj list \<Rightarrow> fasGraph \<times> int \<times> int \<Rightarrow> bool" where
  "built g ys = (\<lambda>(h, mi, mo). simple_graph h \<and> node_set h = node_set g \<and>
     set (edges h) = (\<lambda>e. arc (e_v e) (e_w e)) ` set ys \<and>
     (\<forall>z \<in> set (edges h). abs_edges h z = Some (Some (weight_in h z)) \<and> 0 < weight_in h z) \<and>
     (\<forall>u \<in> node_set g. node u h = Some (entry_of (weight_in h) (set (edges h)) u) \<and>
        a_in (entry_of (weight_in h) (set (edges h)) u) \<le> mi \<and> a_out (entry_of (weight_in h) (set (edges h)) u) \<le> mo) \<and>
     0 \<le> mi \<and> 0 \<le> mo)"

lemma builtD:
  assumes "built g ys (h, mi, mo)"
  shows "simple_graph h" "node_set h = node_set g" "set (edges h) = (\<lambda>e. arc (e_v e) (e_w e)) ` set ys" "0 \<le> mi" "0 \<le> mo"
    and "\<And>z. z \<in> set (edges h) \<Longrightarrow> abs_edges h z = Some (Some (weight_in h z))" and "\<And>z. z \<in> set (edges h) \<Longrightarrow> 0 < weight_in h z"
    and "\<And>u. u \<in> node_set g \<Longrightarrow> node u h = Some (entry_of (weight_in h) (set (edges h)) u)"
    and "\<And>u. u \<in> node_set g \<Longrightarrow> a_in (entry_of (weight_in h) (set (edges h)) u) \<le> mi"
    and "\<And>u. u \<in> node_set g \<Longrightarrow> a_out (entry_of (weight_in h) (set (edges h)) u) \<le> mo"
  using assms unfolding built_def prod.case by blast+

lemma simple_graphD:
  assumes "simple_graph g"
  shows "graph_ok g" "clean_graph g" "f_isDirected g" "\<not> f_isMultigraph g" "\<not> f_isCompound g"
  using assms by (simp_all add: simple_graph_def)

lemma edge_weight:
  assumes g: "simple_graph g" and cl: "clean u" "clean v"
    and lab: "\<And>z. z \<in> set (edges g) \<Longrightarrow> abs_edges g z = Some (Some (weight_in g z))"
  shows "(case edge u v None g of Some p \<Rightarrow> p | None \<Rightarrow> 0) = weight_in g (arc u v)"
proof -
  note G = simple_graphD [OF g]
  have key: "edgeArgsToId (f_isDirected g) u v None = edgeObjToId (f_isDirected g) (arc u v)"
    by (simp add: edgeObjToId_def arc_def)
  have cle: "clean_edge (arc u v)" using cl by (simp add: clean_edge_def clean_name_def arc_def)
  show ?thesis
  proof (cases "arc u v \<in> set (edges g)")
    case True
    then have "get (f_edgeLabels g) (edgeObjToId (f_isDirected g) (arc u v)) = abs_edges g (arc u v)" by (simp add: abs_edges_def)
    with lab [OF True] key show ?thesis by (simp add: edge_def)
  next
    case False
    then have "get (f_edgeLabels g) (edgeObjToId (f_isDirected g) (arc u v)) = None"
      using key_present_iff [OF G(1,2) cle] G(3) by (simp add: has_iff get_None_iff)
    with False key show ?thesis by (simp add: edge_def weight_in_def abs_edges_def)
  qed
qed

lemma sum_more:
  fixes \<omega> :: "edgeObj \<Rightarrow> int"
  assumes "finite F" "z \<notin> F \<Longrightarrow> \<omega> z = 0"
  shows "(\<Sum>e \<in> {e \<in> insert z F. p e}. (\<omega>(z := \<omega> z + k)) e) = (\<Sum>e \<in> {e \<in> F. p e}. \<omega> e) + (if p z then k else 0)"
proof -
  have other: "(\<Sum>e \<in> {e \<in> F - {z}. p e}. (\<omega>(z := \<omega> z + k)) e) = (\<Sum>e \<in> {e \<in> F - {z}. p e}. \<omega> e)"
    by (rule sum.cong) auto
  have "(\<Sum>e \<in> {e \<in> insert z F. p e}. f e) = (\<Sum>e \<in> {e \<in> F - {z}. p e}. f e) + (if p z then f z else 0)" for f :: "edgeObj \<Rightarrow> int"
  proof -
    have "{e \<in> insert z F. p e} = (if p z then insert z {e \<in> F - {z}. p e} else {e \<in> F - {z}. p e})" by auto
    then show ?thesis using assms(1) by simp
  qed
  note split = this
  have "(\<Sum>e \<in> {e \<in> F. p e}. \<omega> e) = (\<Sum>e \<in> {e \<in> F - {z}. p e}. \<omega> e) + (if p z then \<omega> z else 0)"
  proof (cases "z \<in> F")
    case True
    then show ?thesis using split [of \<omega>] by (simp add: insert_absorb)
  next
    case False
    then show ?thesis using assms(2) by simp
  qed
  with split [of "\<omega>(z := \<omega> z + k)"] other show ?thesis by simp
qed

lemma entry_more:
  assumes "finite F" "z \<notin> F \<Longrightarrow> \<omega> z = 0" "e_v z \<noteq> e_w z"
  shows "entry_of (\<omega>(z := \<omega> z + k)) (insert z F) u =
    (if u = e_v z then moreOut k (entry_of \<omega> F u) else if u = e_w z then moreIn k (entry_of \<omega> F u) else entry_of \<omega> F u)"
proof -
  let ?\<omega> = "\<omega>(z := \<omega> z + k)"
  have "a_in (entry_of ?\<omega> (insert z F) u) = a_in (entry_of \<omega> F u) + (if e_w z = u then k else 0)"
    "a_out (entry_of ?\<omega> (insert z F) u) = a_out (entry_of \<omega> F u) + (if e_v z = u then k else 0)"
    using sum_more [where z = z and \<omega> = \<omega> and p = "\<lambda>e. e_w e = u" and k = k, OF assms(1,2)]
      sum_more [where z = z and \<omega> = \<omega> and p = "\<lambda>e. e_v e = u" and k = k, OF assms(1,2)]
    unfolding entry_of_sel by blast+
  with assms(3) show ?thesis
    by (intro fasEntry.equality) (auto simp: moreOut_def moreIn_def simp del: entry_of_sel)
qed

lemma same_abs_edges:
  assumes "same_shape g h" "f_edgeLabels h = f_edgeLabels g"
  shows "abs_edges h = abs_edges g"
  using assms(2) same_shapeD(2,4) [OF assms(1)] by (intro ext) (simp add: abs_edges_def)

lemma addWeight_ok:
  assumes b: "built g ys (h, mi, mo)" and e: "e_v e \<in> node_set g" "e_w e \<in> node_set g" "clean_edge e" "e_v e \<noteq> e_w e"
    and k: "weightFn e = Inr k" "0 < k"
  shows "\<exists>p. addWeight weightFn e (h, mi, mo) = Inr p \<and> built g (ys @ [e]) p"
proof -
  note B = builtD [OF b] and H = simple_graphD [OF builtD(1) [OF b]]
  let ?z = "arc (e_v e) (e_w e)" and ?\<omega> = "weight_in h" and ?F = "set (edges h)"
  let ?\<omega>' = "?\<omega>(?z := ?\<omega> ?z + k)"
  have cl: "clean (e_v e)" "clean (e_w e)" using e(3) by (simp_all add: clean_edge_def)
  have prev: "(case edge (e_v e) (e_w e) None h of Some p \<Rightarrow> p | None \<Rightarrow> 0) = ?\<omega> ?z" using edge_weight [OF B(1) cl B(6)] .
  have obj: "edgeArgsToObj True (e_v e) (e_w e) None = ?z" by (simp add: edgeArgsToObj_def arc_def)
  have absent: "?\<omega> ?z = 0" if "?z \<notin> ?F" using that by (simp add: weight_in_def abs_edges_def)
  have "0 \<le> ?\<omega> ?z" using B(7) [of ?z] absent by (cases "?z \<in> ?F") auto
  obtain h1 where h1: "setEdge (e_v e) (e_w e) (Some (Some (?\<omega> ?z + k))) None h = Inr h1" "graph_ok h1" "clean_graph h1" "same_flags h h1"
    "abs_edges h1 = (abs_edges h)(?z \<mapsto> Some (?\<omega> ?z + k))" "node_set h1 = insert (e_v e) (insert (e_w e) (node_set h))"
    "\<forall>x \<in> node_set h. abs_nodes h1 x = abs_nodes h x"
    using setEdge_refines [OF H(1,2) cl, of None "Some (Some (?\<omega> ?z + k))"] H(3,5) obj by (auto simp: clean_name_def)
  have n1: "node_set h1 = node_set g" using h1(6) B(2) e(1,2) by auto
  have l1: "node u h1 = Some (entry_of ?\<omega> ?F u)" if "u \<in> node_set g" for u
    using h1(7) B(2) B(8) [OF that] that by (simp add: node_def abs_nodes_def)
  obtain h2 where h2: "mutNode (moreOut k) (e_v e) h1 = Inr h2" "same_shape h1 h2" "f_edgeLabels h2 = f_edgeLabels h1"
    "node (e_v e) h2 = Some (moreOut k (entry_of ?\<omega> ?F (e_v e)))" "\<forall>u. u \<noteq> e_v e \<longrightarrow> node u h2 = node u h1"
    using mutNode_ok [OF l1 [OF e(1)], of "moreOut k"] e(1) n1 by blast
  have w2: "node (e_w e) h2 = Some (entry_of ?\<omega> ?F (e_w e))" "e_w e \<in> node_set h2"
    using h2(5) l1 [OF e(2)] e(2,4) n1 same_shapeD(3) [OF h2(2)] by auto
  obtain h3 where h3: "mutNode (moreIn k) (e_w e) h2 = Inr h3" "same_shape h2 h3" "f_edgeLabels h3 = f_edgeLabels h2"
    "node (e_w e) h3 = Some (moreIn k (entry_of ?\<omega> ?F (e_w e)))" "\<forall>u. u \<noteq> e_w e \<longrightarrow> node u h3 = node u h2"
    using mutNode_ok [OF w2, of "moreIn k"] by blast
  have s: "same_shape h1 h3" "f_edgeLabels h3 = f_edgeLabels h1" using same_shape_trans [OF h2(2) h3(2)] h2(3) h3(3) by simp_all
  note S = same_shapeD [OF s(1)]
  have E3: "set (edges h3) = insert ?z ?F"
    using S(2) dom_abs_edges [OF h1(2)] dom_abs_edges [OF H(1)] h1(5) by auto
  have ab3: "abs_edges h3 = (abs_edges h)(?z \<mapsto> Some (?\<omega> ?z + k))"
    unfolding same_abs_edges [OF s] by (rule h1(5))
  have \<omega>3: "weight_in h3 = ?\<omega>'" by (rule ext) (simp add: weight_in_def ab3)
  have entry3: "entry_of (weight_in h3) (set (edges h3)) u = (if u = e_v e then moreOut k (entry_of ?\<omega> ?F u)
      else if u = e_w e then moreIn k (entry_of ?\<omega> ?F u) else entry_of ?\<omega> ?F u)" for u
    unfolding E3 \<omega>3 using entry_more [of ?F ?z ?\<omega> k u] absent e(4) by simp
  have lab3: "node u h3 = Some (entry_of (weight_in h3) (set (edges h3)) u)" if "u \<in> node_set g" for u
    using h2(4,5) h3(4,5) l1 [OF that] e(4) unfolding entry3 by auto
  let ?mi = "max mi (a_in (moreIn k (entry_of ?\<omega> ?F (e_w e))))" and ?mo = "max mo (a_out (moreOut k (entry_of ?\<omega> ?F (e_v e))))"
  have "simple_graph h3" unfolding simple_graph_def
    using same_shape_ok [OF s(1) h1(2)] h1(3,4) H(3-5) S(2,4,6,7) by (simp add: clean_graph_def same_flags_def)
  moreover have "abs_edges h3 z = Some (Some (weight_in h3 z))" "0 < weight_in h3 z" if "z \<in> set (edges h3)" for z
    using that B(6,7) [of z] k(2) \<open>0 \<le> ?\<omega> ?z\<close> unfolding E3 \<omega>3 ab3 by auto
  moreover have "a_in (entry_of (weight_in h3) (set (edges h3)) u) \<le> ?mi" "a_out (entry_of (weight_in h3) (set (edges h3)) u) \<le> ?mo"
    if "u \<in> node_set g" for u
    using B(9,10) [OF that] unfolding entry3 by (auto simp: moreIn_def moreOut_def)
  moreover have "node_set h3 = node_set g" using S(3) n1 by simp
  moreover have "set (edges h3) = (\<lambda>e. arc (e_v e) (e_w e)) ` set (ys @ [e])" unfolding E3 B(3) by simp
  ultimately have "built g (ys @ [e]) (h3, ?mi, ?mo)"
    unfolding built_def prod.case using lab3 B(4,5) by (simp add: le_max_iff_disj)
  moreover have "addWeight weightFn e (h, mi, mo) = Inr (h3, ?mi, ?mo)"
    unfolding addWeight_def prod.case prev Let_def k(1) by (simp add: h1(1) h2(1,4) h3(1,4))
  ultimately show ?thesis by blast
qed

lemma new_fasGraph:
  fixes g :: "('g, 'n, 'e) Graph"
  shows "\<exists>h. rfold (\<lambda>v. setNode v (Some (Some \<lparr>a_in = 0, a_out = 0\<rparr>))) (nodes g) (newGraph None None None) = Inr h \<and>
    built g [] (h, 0, 0)"
proof -
  let ?e = "\<lparr>a_in = 0, a_out = 0\<rparr> :: fasEntry"
  let ?P = "\<lambda>ys h. simple_graph h \<and> edges h = [] \<and> abs_nodes h = (\<lambda>v. if v \<in> set ys then Some (Some ?e) else None)"
  have "\<exists>h. rfold (\<lambda>v. setNode v (Some (Some ?e))) (nodes g) (newGraph None None None) = Inr h \<and> ?P (nodes g) h"
  proof (rule rfold_prefix_invariant [where P = ?P])
    have "graph_ok (newGraph None None None :: fasGraph)" by (rule graph_ok_new)
    then show "?P [] (newGraph None None None)"
      by (simp add: simple_graph_def clean_graph_def newGraph_def edges_def abs_nodes_def fun_eq_iff)
  next
    fix ys v zs h assume P: "?P ys h"
    note S = simple_graphD [OF conjunct1 [OF P]]
    obtain h' where h': "setNode v (Some (Some ?e)) h = Inr h'" "graph_ok h'" "same_flags h h'" "abs_edges h' = abs_edges h"
      "abs_nodes h' = (abs_nodes h)(v \<mapsto> Some ?e)"
      using setNode_refines [OF S(1), of v "Some (Some ?e)"] S(5) by auto
    have "set (edges h') = {}" using h'(4) dom_abs_edges [OF h'(2)] dom_abs_edges [OF S(1)] P by auto
    then have "edges h' = []" by simp
    moreover from this have "simple_graph h'" using h'(2,3) S(3-5) by (simp add: simple_graph_def clean_graph_def same_flags_def)
    ultimately show "\<exists>h'. setNode v (Some (Some ?e)) h = Inr h' \<and> ?P (ys @ [v]) h'" using h'(1,5) P by auto
  qed
  then obtain h where h: "rfold (\<lambda>v. setNode v (Some (Some ?e))) (nodes g) (newGraph None None None) = Inr h" "?P (nodes g) h"
    by blast
  have "node_set h = node_set g" using h(2) by (auto simp: node_set_abs [of h] nodes_set split: if_splits)
  moreover have "node u h = Some (entry_of (weight_in h) (set (edges h)) u)" if "u \<in> node_set g" for u
    using h(2) that by (auto simp: node_def abs_nodes_def nodes_set entry_of_def fun_eq_iff)
  ultimately have "built g [] (h, 0, 0)" unfolding built_def prod.case using h(2) by simp
  with h(1) show ?thesis by blast
qed

lemma built_ready:
  assumes b: "built g ys (h, mi, mo)" and loops: "\<And>e. e \<in> set ys \<Longrightarrow> e_v e \<noteq> e_w e"
  defines "nb \<equiv> nat (mo + mi + 3)" and "z \<equiv> mi + 1"
  shows "\<exists>w L. rfold (assignBucket nb z) (nodes h) \<lparr>w_graph = h, w_lists = fold newList [0..<nb] emptyStore\<rparr> = Inr w \<and>
    w_graph w = h \<and> ready nb z (weight_in h) w L"
proof -
  note B = builtD [OF b] and H = simple_graphD [OF builtD(1) [OF b]]
  let ?en = "entry_of (weight_in h) (set (edges h))"
  let ?w0 = "\<lparr>w_graph = h, w_lists = fold newList [0..<nb] emptyStore\<rparr>"
  have pos: "0 \<le> (\<Sum>e \<in> {e \<in> set (edges h). p e}. weight_in h e)" for p using less_imp_le [OF B(7)] by (intro sum_nonneg) simp
  have fit: "fits nb z (?en u)" if "u \<in> node_set g" for u
    using B(9,10) [OF that] B(4,5) pos by (simp add: fits_def nb_def z_def)
  let ?P = "\<lambda>ys (w :: fasWork). w_graph w = h \<and> (\<exists>L. holds (w_lists w) L \<and> placed nb z ?en (set ys) L)"
  have "\<exists>w. rfold (assignBucket nb z) (nodes h) ?w0 = Inr w \<and> ?P (nodes h) w"
  proof (rule rfold_prefix_invariant [where P = ?P])
    have "placed nb z ?en (set []) (replicate nb [])" by (simp add: placed_def)
    then show "?P [] ?w0" using newLists_ok [of nb] by auto
  next
    fix ys v zs w assume split: "nodes h = ys @ v # zs" and "?P ys w"
    then obtain L where L: "w_graph w = h" "holds (w_lists w) L" "placed nb z ?en (set ys) L" by blast
    have "v \<in> set (nodes h)" using split by simp
    then have v: "v \<in> node_set g" using B(2) by (simp add: nodes_set)
    have "node v (w_graph w) = Some (?en v)" using B(8) [OF v] L(1) by simp
    from assignBucket_ok [OF L(2,3) this fit [OF v]] obtain st L' where
      "assignBucket nb z v w = Inr (w\<lparr>w_lists := st\<rparr>)" "holds st L'" "placed nb z (?en(v := ?en v)) (insert v (set ys)) L'" by blast
    with L(1) show "\<exists>w'. assignBucket nb z v w = Inr w' \<and> ?P (ys @ [v]) w'" by auto
  qed
  then obtain w L where w: "rfold (assignBucket nb z) (nodes h) ?w0 = Inr w" "w_graph w = h" "holds (w_lists w) L"
    "placed nb z ?en (node_set h) L" unfolding nodes_set by blast
  have "edgeOfObj e h = Some (weight_in h e) \<and> 0 < weight_in h e \<and> e_v e \<noteq> e_w e \<and> e_name e = None" if "e \<in> set (edges h)" for e
    using abs_edge_label [OF H(1) that] B(6,7) [OF that] B(3) loops that by auto
  then have "weighed (weight_in h) h" unfolding weighed_def by blast
  moreover have "waiting nb z ?en (node_set h) w L" unfolding waiting_def using w(2-4) H(1) B(2,8) by simp
  ultimately have "ready nb z (weight_in h) w L" unfolding ready_def w(2) by blast
  with w(1,2) show ?thesis by blast
qed

lemma buildState_ok:
  fixes g :: "('g, 'n, 'e) Graph"
  assumes g: "graph_ok g" "clean_graph g" and loops: "\<And>e. e \<in> set (edges g) \<Longrightarrow> e_v e \<noteq> e_w e"
    and wt: "\<And>e. e \<in> set (edges g) \<Longrightarrow> \<exists>k. weightFn e = Inr k \<and> 0 < k"
  shows "\<exists>w nb z \<omega> L. buildState g weightFn = Inr (w, nb, z) \<and> 3 \<le> nb \<and> greedy_inv nb z \<omega> (arcs g) (node_set g) w L []"
proof -
  obtain h0 where h0: "rfold (\<lambda>v. setNode v (Some (Some \<lparr>a_in = 0, a_out = 0\<rparr>))) (nodes g) (newGraph None None None) = Inr h0"
    "built g [] (h0, 0, 0)" using new_fasGraph by blast
  have "\<exists>p. rfold (addWeight weightFn) (edges g) (h0, 0, 0) = Inr p \<and> built g (edges g) p"
  proof (rule rfold_prefix_invariant [where P = "built g"])
    fix ys e zs p assume split: "edges g = ys @ e # zs" and "built g ys p"
    moreover obtain h mi mo where p: "p = (h, mi, mo)" by (cases p)
    ultimately have b: "built g ys (h, mi, mo)" by simp
    have e: "e \<in> set (edges g)" using split by simp
    obtain k where k: "weightFn e = Inr k" "0 < k" using wt [OF e] by blast
    have "clean_edge e" using g(2) e by (simp add: clean_graph_def)
    with addWeight_ok [where weightFn = weightFn, OF b _ _ _ loops [OF e] k] edges_ends [OF g(1) e]
    show "\<exists>p'. addWeight weightFn e p = Inr p' \<and> built g (ys @ [e]) p'" unfolding p by blast
  qed (rule h0(2))
  then obtain h mi mo where h: "rfold (addWeight weightFn) (edges g) (h0, 0, 0) = Inr (h, mi, mo)" "built g (edges g) (h, mi, mo)"
    by auto
  note B = builtD [OF h(2)]
  define nb where "nb = nat (mo + mi + 3)"
  obtain w L where w: "rfold (assignBucket nb (mi + 1)) (nodes h) \<lparr>w_graph = h, w_lists = fold newList [0..<nb] emptyStore\<rparr> = Inr w"
    "w_graph w = h" "ready nb (mi + 1) (weight_in h) w L"
    using built_ready [OF h(2) loops, folded nb_def] by blast
  have "arcs h = arcs g" unfolding arcs_def B(3) by (auto simp: image_iff) (metis arc_sel(1,2))
  then have "arcs (w_graph w) = {(u, v) \<in> arcs g. u \<in> node_set (w_graph w) \<and> v \<in> node_set (w_graph w)}"
    using arcs_nodes [OF g(1)] B(2) w(2) by auto
  moreover have "ordered (arcs g) (node_set g) [] [] [] (node_set (w_graph w))"
    using arcs_nodes [OF g(1)] B(2) w(2) by (auto simp: ordered_def)
  ultimately have "greedy_inv nb (mi + 1) (weight_in h) (arcs g) (node_set g) w L []" unfolding greedy_inv_def using w(3) by blast
  moreover have "buildState g weightFn = Inr (w, nb, mi + 1)" unfolding buildState_def h0(1) by (simp add: h(1) w(1) flip: nb_def)
  moreover have "3 \<le> nb" using B(4,5) by (simp add: nb_def)
  ultimately show ?thesis by blast
qed

section \<open>Correctness\<close>

lemma expand_results:
  fixes g :: "('g, 'n, 'e) Graph"
  assumes g: "graph_ok g" and rs: "distinct rs" "set rs \<subseteq> arcs g" and ne: "[] \<notin> node_set g"
  defines "fas \<equiv> concat (map (\<lambda>(v, x). each (outEdges v (Some x) g)) rs)"
  shows "distinct fas" "set fas = {e \<in> set (edges g). (e_v e, e_w e) \<in> set rs}"
proof -
  let ?f = "\<lambda>(v, x). each (outEdges v (Some x) g)"
  have f: "set (?f p) = {e \<in> set (edges g). (e_v e, e_w e) = p}" "distinct (?f p)" if p: "p \<in> set rs" for p
  proof -
    obtain v x where vx: "p = (v, x)" by force
    then have n: "v \<in> node_set g" "x \<noteq> []" using rs(2) p arcs_nodes [OF g] ne by auto
    show "set (?f p) = {e \<in> set (edges g). (e_v e, e_w e) = p}" "distinct (?f p)"
      using each_outEdges [OF g n(1)] unfolding vx by (auto simp: each_outEdges_to [OF g n])
  qed
  show "set fas = {e \<in> set (edges g). (e_v e, e_w e) \<in> set rs}" unfolding fas_def using f(1) by auto
  show "distinct fas" unfolding fas_def using rs(1) f
  proof (induction rs)
    case (Cons p rs)
    have "set (?f p) \<inter> set (concat (map ?f rs)) = {}"
    proof -
      have "(e_v e, e_w e) \<noteq> p" if "e \<in> set (concat (map ?f rs))" for e
        using that Cons.prems(1) Cons.prems(2) by auto
      then show ?thesis using Cons.prems(2) [of p] by auto
    qed
    with Cons show ?case by simp
  qed simp
qed

lemma greedyFAS_ok:
  fixes g :: "('g, 'n, 'e) Graph"
  assumes g: "graph_ok g" "clean_graph g" and loops: "\<And>e. e \<in> set (edges g) \<Longrightarrow> e_v e \<noteq> e_w e"
    and wt: "\<And>e. e \<in> set (edges g) \<Longrightarrow> \<exists>k. weightFn e = Inr k \<and> 0 < k" and ne: "[] \<notin> node_set g"
  shows "\<exists>fas fin. greedyFAS g weightFn = Inr fas \<and> feedback_set g fas fin"
proof (cases "nodeCount g \<le> 1")
  case True
  then have "card (node_set g) \<le> 1" using nodeCount_card [OF g(1)] by simp
  then have "u = v" if "u \<in> node_set g" "v \<in> node_set g" for u v
    using that card_le_Suc0_iff_eq [of "node_set g"] by (auto simp: node_set_def)
  then have "edges g = []" using edges_ends [OF g(1)] loops by (metis list.set_intros(1) neq_Nil_conv)
  then have "feedback_set g [] (nodes g)" using distinct_nodes [OF g(1)] by (simp add: feedback_set_def nodes_set)
  with True show ?thesis by (auto simp: greedyFAS_def)
next
  case False
  obtain w nb z \<omega> L where w: "buildState g weightFn = Inr (w, nb, z)" "3 \<le> nb" "greedy_inv nb z \<omega> (arcs g) (node_set g) w L []"
    using buildState_ok [OF g, of weightFn] loops wt by blast
  have "card (node_set (w_graph w)) < drainBound w"
    using nodeCount_card [OF greedy_invD(5) [OF w(3)]] by (simp add: drainBound_def)
  from greedyLoop_ok [OF w(2,3) this] obtain rs lf rt where
    rs: "doGreedyFAS w nb z = Inr rs" "ordered (arcs g) (node_set g) rs lf rt {}" by (auto simp: doGreedyFAS_def)
  note O = orderedD [OF rs(2)] and X = expand_results [OF g(1) orderedD(4,5) [OF rs(2)] ne]
  let ?fas = "concat (map (\<lambda>(v, x). each (outEdges v (Some x) g)) rs)"
  have N: "arcs g \<subseteq> node_set g \<times> node_set g" using arcs_nodes [OF g(1)] by auto
  have "if e \<in> set ?fas then precedes (rev (lf @ rt)) (e_v e) (e_w e) else precedes (rev (lf @ rt)) (e_w e) (e_v e)"
    if e: "e \<in> set (edges g)" for e
  proof -
    have "(e_v e, e_w e) \<in> arcs g" using e by (auto simp: arcs_def)
    note D = ordered_done [OF rs(2) this N]
    have "e \<in> set ?fas \<longleftrightarrow> (e_v e, e_w e) \<in> set rs" unfolding X(2) using e by simp
    then show ?thesis using D precedes_rev [of "lf @ rt" "e_w e" "e_v e"] precedes_rev [of "lf @ rt" "e_v e" "e_w e"]
      by (cases "(e_v e, e_w e) \<in> set rs") (simp_all only: if_True if_False)
  qed
  moreover have "set ?fas \<subseteq> set (edges g)" unfolding X(2) by blast
  moreover have "distinct (rev (lf @ rt))" "set (rev (lf @ rt)) = node_set g" using O(1,2) by auto
  ultimately have "feedback_set g ?fas (rev (lf @ rt))" unfolding feedback_set_def using X(1) by blast
  moreover have "greedyFAS g weightFn = Inr ?fas" using False w(1) rs(1) by (simp add: greedyFAS_def)
  ultimately show ?thesis by blast
qed

end
