(* ===== verification/Dagre_Acyclic.thy ===== *)
theory Dagre_Acyclic
  imports Dagre_Greedy_Ok Graphlib_Topsort Dagre_Coordinates
begin

text \<open>
  The phase \<open>acyclic\<close> of the layout (\<open>lib/acyclic\<close>): \<open>run\<close> finds a feedback arc set by a depth-first search, or by the
  greedy heuristic of \<open>Dagre_Greedy\<close>, and turns its edges around under fresh names; \<open>undo\<close> turns them back at the
  end. The theorem: after \<open>run\<close> the graph has no directed cycle, whichever way the set was found, and \<open>undo\<close> restores the edges
  and their labels.
\<close>

section \<open>The phase\<close>

record fasState =
  s_fas :: "edgeObj list"
  s_stack :: "bool obj"
  s_visited :: "bool obj"

text \<open>The local \<open>dfs\<close> of \<open>dfsFAS\<close>; the first argument bounds the depth of the recursion.\<close>

fun fasVisit :: "nat \<Rightarrow> ('g, 'n, 'e) Graph \<Rightarrow> string \<Rightarrow> fasState \<Rightarrow> fasState result" where
  "fasVisit 0 g v st = Inl Diverges"
| "fasVisit (Suc n) g v st =
     (if has (s_visited st) v then Inr st
      else
        rbind (rfold (\<lambda>e st1.
            if has (s_stack st1) (e_w e) then Inr (st1\<lparr>s_fas := s_fas st1 @ [e]\<rparr>)
            else fasVisit n g (e_w e) st1)
          (each (outEdges v None g))
          (st\<lparr>s_visited := put v True (s_visited st), s_stack := put v True (s_stack st)\<rparr>)) (\<lambda>st2.
        Inr (st2\<lparr>s_stack := del v (s_stack st2)\<rparr>)))"

definition dfsFAS :: "('g, 'n, 'e) Graph \<Rightarrow> edgeObj list result" where
  "dfsFAS g =
     rbind (rfold (fasVisit (length (nodes g) + 1) g) (nodes g) \<lparr>s_fas = [], s_stack = [], s_visited = []\<rparr>) (\<lambda>st.
       Inr (s_fas st))"

text \<open>Taking an edge out and setting another one with its label, changed.\<close>

definition replaceEdge ::
  "edgeObj \<Rightarrow> edgeObj \<Rightarrow> ('e \<Rightarrow> 'e) \<Rightarrow> ('g, 'n, 'e) Graph \<Rightarrow> ('g, 'n, 'e) Graph result" where
  "replaceEdge e e' f g =
     rbind (deref (edgeOfObj e g)) (\<lambda>label.
     rbind (removeEdgeObj e g) (\<lambda>g1.
       setEdge (e_v e') (e_w e') (Some (Some (f label))) (e_name e') g1))"

text \<open>\<open>_.uniqueId("rev")\<close>, with the counter before the call.\<close>

definition revName :: "nat \<Rightarrow> string" where
  "revName c = ''rev'' @ nat_str (c + 1)"

definition reversedEdge :: "edgeObj \<Rightarrow> string option \<Rightarrow> edgeObj" where
  "reversedEdge e name = \<lparr>e_v = e_w e, e_w = e_v e, e_name = name\<rparr>"

definition markReversed :: "string option \<Rightarrow> layoutEdge \<Rightarrow> layoutEdge" where
  "markReversed name l = l\<lparr>l_forwardName := name, l_reversed := True\<rparr>"

definition unmarkReversed :: "layoutEdge \<Rightarrow> layoutEdge" where
  "unmarkReversed l = l\<lparr>l_forwardName := None, l_reversed := False\<rparr>"

fun reverseEdges :: "edgeObj list \<Rightarrow> nat \<Rightarrow> layoutGraph \<Rightarrow> (layoutGraph \<times> nat) result" where
  "reverseEdges [] c g = Inr (g, c)"
| "reverseEdges (e # fas) c g =
     rbind (replaceEdge e (reversedEdge e (Some (revName c))) (markReversed (e_name e)) g) (reverseEdges fas (c + 1))"

text \<open>\<open>run\<close> with its \<open>weightFn\<close>; the second argument is the counter of \<open>_.uniqueId\<close>.\<close>

definition weightFn :: "layoutGraph \<Rightarrow> edgeObj \<Rightarrow> int result" where
  "weightFn g e = rbind (deref (edgeOfObj e g)) (\<lambda>l. Inr (l_weight l))"

definition acyclic_run :: "layoutGraph \<Rightarrow> nat \<Rightarrow> (layoutGraph \<times> nat) result" where
  "acyclic_run g c =
     rbind (deref (graph g)) (\<lambda>gl.
     rbind (if g_acyclicer gl = Some ''greedy'' then greedyFAS g (weightFn g) else dfsFAS g) (\<lambda>fas.
       reverseEdges fas c g))"

definition undoEdge :: "edgeObj \<Rightarrow> layoutGraph \<Rightarrow> layoutGraph result" where
  "undoEdge e g =
     rbind (deref (edgeOfObj e g)) (\<lambda>label.
       if l_reversed label then replaceEdge e (reversedEdge e (l_forwardName label)) unmarkReversed g
       else Inr g)"

definition acyclic_undo :: "layoutGraph \<Rightarrow> layoutGraph result" where
  "acyclic_undo g = rfold undoEdge (edges g) g"

section \<open>The feedback arc set\<close>

text \<open>\<open>fin\<close> lists the nodes in the order in which they are left. The edges of a node that has been left go to nodes
  left before, except those of the set, which go to nodes left later.\<close>

definition arcs_sorted :: "('g, 'n, 'e) Graph \<Rightarrow> fasState \<Rightarrow> string list \<Rightarrow> bool" where
  "arcs_sorted g st fin \<longleftrightarrow> (\<forall>e \<in> set (edges g). e_v e \<in> set fin \<longrightarrow>
     (if e \<in> set (s_fas st) then e_w e \<in> set (keys (s_stack st)) \<or> precedes fin (e_v e) (e_w e)
      else precedes fin (e_w e) (e_v e)))"

definition fas_inv :: "('g, 'n, 'e) Graph \<Rightarrow> fasState \<Rightarrow> string list \<Rightarrow> bool" where
  "fas_inv g st fin \<longleftrightarrow> set (keys (s_visited st)) = set (keys (s_stack st)) \<union> set fin \<and>
     set (keys (s_stack st)) \<inter> set fin = {} \<and> set (keys (s_visited st)) \<subseteq> node_set g \<and> distinct fin \<and>
     arcs_sorted g st fin \<and> distinct (s_fas st) \<and> set (s_fas st) \<subseteq> set (edges g) \<and>
     (\<forall>e \<in> set (s_fas st). e_v e \<in> set (keys (s_visited st)))"

text \<open>What a visit adds: it leaves nodes only, and the edges it collects start at nodes it visits.\<close>

definition fas_grows :: "fasState \<Rightarrow> string list \<Rightarrow> fasState \<Rightarrow> string list \<Rightarrow> bool" where
  "fas_grows st fin st' fin' \<longleftrightarrow> set (keys (s_stack st')) = set (keys (s_stack st)) \<and> (\<exists>new. fin' = fin @ new) \<and>
     set (keys (s_visited st)) \<subseteq> set (keys (s_visited st')) \<and> set (s_fas st) \<subseteq> set (s_fas st') \<and>
     (\<forall>e \<in> set (s_fas st') - set (s_fas st). e_v e \<notin> set (keys (s_visited st)))"

lemma fas_grows_refl: "fas_grows st fin st fin"
  by (simp add: fas_grows_def)

lemma fas_invD:
  assumes "fas_inv g st fin"
  shows "set (keys (s_visited st)) = set (keys (s_stack st)) \<union> set fin" "set (keys (s_stack st)) \<inter> set fin = {}"
    "set (keys (s_visited st)) \<subseteq> node_set g" "distinct fin" "arcs_sorted g st fin" "distinct (s_fas st)"
    "set (s_fas st) \<subseteq> set (edges g)"
    and "\<And>e. e \<in> set (s_fas st) \<Longrightarrow> e_v e \<in> set (keys (s_visited st))"
  using assms unfolding fas_inv_def by blast+

text \<open>The state in the middle of the loop over the edges of \<open>v\<close>: of the edges \<open>ys\<close> that have been looked at, those
  in the set lead to the stack and the others to nodes that have been left.\<close>

definition half_way :: "('g, 'n, 'e) Graph \<Rightarrow> string \<Rightarrow> fasState \<Rightarrow> string list \<Rightarrow> edgeObj list \<Rightarrow> fasState \<Rightarrow> string list \<Rightarrow> bool" where
  "half_way g v st fin ys st1 fin1 \<longleftrightarrow> fas_inv g st1 fin1 \<and>
     set (keys (s_stack st1)) = insert v (set (keys (s_stack st))) \<and> (\<exists>new. fin1 = fin @ new) \<and>
     insert v (set (keys (s_visited st))) \<subseteq> set (keys (s_visited st1)) \<and> set (s_fas st) \<subseteq> set (s_fas st1) \<and>
     (\<forall>e \<in> set (s_fas st1) - set (s_fas st). e_v e \<notin> set (keys (s_visited st))) \<and>
     (\<forall>e \<in> set (s_fas st1). e_v e = v \<longrightarrow> e \<in> set ys) \<and>
     (\<forall>e \<in> set ys. if e \<in> set (s_fas st1) then e_w e \<in> set (keys (s_stack st1)) else e_w e \<in> set fin1)"

lemma half_wayD:
  assumes "half_way g v st fin ys st1 fin1"
  shows "fas_inv g st1 fin1" "set (keys (s_stack st1)) = insert v (set (keys (s_stack st)))" "\<exists>new. fin1 = fin @ new"
    "insert v (set (keys (s_visited st))) \<subseteq> set (keys (s_visited st1))" "set (s_fas st) \<subseteq> set (s_fas st1)"
    and "\<And>e. e \<in> set (s_fas st1) \<Longrightarrow> e \<notin> set (s_fas st) \<Longrightarrow> e_v e \<notin> set (keys (s_visited st))"
    and "\<And>e. e \<in> set (s_fas st1) \<Longrightarrow> e_v e = v \<Longrightarrow> e \<in> set ys"
    and "\<And>e. e \<in> set ys \<Longrightarrow> if e \<in> set (s_fas st1) then e_w e \<in> set (keys (s_stack st1)) else e_w e \<in> set fin1"
  using assms unfolding half_way_def by blast+

lemma enter_half_way:
  assumes inv: "fas_inv g st fin" and v: "v \<in> node_set g" "v \<notin> set (keys (s_visited st))"
  shows "half_way g v st fin [] (st\<lparr>s_visited := put v True (s_visited st), s_stack := put v True (s_stack st)\<rparr>) fin"
proof -
  note I = fas_invD [OF inv]
  have "arcs_sorted g (st\<lparr>s_visited := put v True (s_visited st), s_stack := put v True (s_stack st)\<rparr>) fin"
    using I(5) by (auto simp: arcs_sorted_def)
  then have "fas_inv g (st\<lparr>s_visited := put v True (s_visited st), s_stack := put v True (s_stack st)\<rparr>) fin"
    using I(1-4,6-8) v by (auto simp: fas_inv_def)
  then show ?thesis using I(8) v(2) by (auto simp: half_way_def)
qed

lemma back_edge_half_way:
  assumes h: "half_way g v st fin ys st1 fin1" and e: "e \<in> set (edges g)" "e_v e = v" "e \<notin> set ys"
    and w: "e_w e \<in> set (keys (s_stack st1))" and v: "v \<notin> set (keys (s_visited st))"
  shows "half_way g v st fin (ys @ [e]) (st1\<lparr>s_fas := s_fas st1 @ [e]\<rparr>) fin1"
proof -
  note H = half_wayD [OF h] note I = fas_invD [OF H(1)]
  have new: "e \<notin> set (s_fas st1)" using H(7) e(2,3) by blast
  have "v \<notin> set fin1" using I(2) H(2) by auto
  then have "arcs_sorted g (st1\<lparr>s_fas := s_fas st1 @ [e]\<rparr>) fin1"
    using I(5) e(2) unfolding arcs_sorted_def by (auto split: if_splits)
  then have "fas_inv g (st1\<lparr>s_fas := s_fas st1 @ [e]\<rparr>) fin1"
    using I(1-4,6-8) new e H(4) by (auto simp: fas_inv_def)
  then show ?thesis using H(2-8) e w v by (auto simp: half_way_def split: if_splits)
qed

lemma fas_growsD:
  assumes "fas_grows st fin st' fin'"
  shows "set (keys (s_stack st')) = set (keys (s_stack st))" "\<exists>new. fin' = fin @ new"
    "set (keys (s_visited st)) \<subseteq> set (keys (s_visited st'))" "set (s_fas st) \<subseteq> set (s_fas st')"
    and "\<And>e. e \<in> set (s_fas st') \<Longrightarrow> e \<notin> set (s_fas st) \<Longrightarrow> e_v e \<notin> set (keys (s_visited st))"
  using assms unfolding fas_grows_def by blast+

lemma fas_grows_trans:
  assumes "fas_grows st fin st1 fin1" "fas_grows st1 fin1 st2 fin2"
  shows "fas_grows st fin st2 fin2"
proof -
  note A = fas_growsD [OF assms(1)] and B = fas_growsD [OF assms(2)]
  have "\<exists>new. fin2 = fin @ new" using A(2) B(2) by auto
  moreover have "e_v e \<notin> set (keys (s_visited st))" if "e \<in> set (s_fas st2)" "e \<notin> set (s_fas st)" for e
    using A(3,5) B(5) that by blast
  ultimately show ?thesis using A(1,3,4) B(1,3,4) unfolding fas_grows_def by blast
qed

lemma tree_edge_half_way:
  assumes h: "half_way g v st fin ys st1 fin1" and e: "e_v e = v" "e \<notin> set ys" and ys: "\<And>x. x \<in> set ys \<Longrightarrow> e_v x = v"
    and st2: "fas_inv g st2 fin2" "fas_grows st1 fin1 st2 fin2" "e_w e \<in> set fin2"
  shows "half_way g v st fin (ys @ [e]) st2 fin2"
proof -
  note H = half_wayD [OF h] and G = fas_growsD [OF st2(2)]
  have own: "x \<in> set (s_fas st2) \<longleftrightarrow> x \<in> set (s_fas st1)" if "e_v x = v" for x
    using G(4) G(5) [of x] H(4) that by auto
  have "e \<notin> set (s_fas st2)" using own [OF e(1)] H(7) e by blast
  moreover have "if x \<in> set (s_fas st2) then e_w x \<in> set (keys (s_stack st2)) else e_w x \<in> set fin2"
    if "x \<in> set ys" for x
    using H(8) [OF that] own [OF ys [OF that]] G(1,2) by (auto split: if_splits)
  moreover have "\<exists>new. fin2 = fin @ new" using H(3) G(2) by auto
  moreover have "x \<in> set ys" if "x \<in> set (s_fas st2)" "e_v x = v" for x using own [OF that(2)] H(7) that by blast
  moreover have "e_v x \<notin> set (keys (s_visited st))" if "x \<in> set (s_fas st2)" "x \<notin> set (s_fas st)" for x
    using H(4,6) G(5) that by blast
  ultimately show ?thesis using H(2,4,5) G(1,3,4) st2(1,3) by (auto simp: half_way_def)
qed

lemma leave_half_way:
  assumes h: "half_way g v st fin ys st1 fin1" and v: "v \<in> node_set g" "v \<notin> set (keys (s_visited st))"
    and all: "\<And>e. e \<in> set (edges g) \<Longrightarrow> e_v e = v \<Longrightarrow> e \<in> set ys"
    and loops: "\<And>e. e \<in> set (edges g) \<Longrightarrow> e_v e \<noteq> e_w e" and inv: "fas_inv g st fin"
  defines "st2 \<equiv> st1\<lparr>s_stack := del v (s_stack st1)\<rparr>"
  shows "fas_inv g st2 (fin1 @ [v])" "fas_grows st fin st2 (fin1 @ [v])"
proof -
  note H = half_wayD [OF h] note I = fas_invD [OF H(1)]
  have "if e \<in> set (s_fas st2) then e_w e \<in> set (keys (s_stack st2)) \<or> precedes (fin1 @ [v]) (e_v e) (e_w e)
      else precedes (fin1 @ [v]) (e_w e) (e_v e)" if e: "e \<in> set (edges g)" "e_v e \<in> set (fin1 @ [v])" for e
  proof (cases "e_v e = v")
    case True
    from H(8) [OF all [OF e(1) True]] loops [OF e(1)] True show ?thesis
      by (auto simp: st2_def precedes_snoc split: if_splits)
  next
    case False
    then have "e_v e \<in> set fin1" using e(2) by simp
    with I(5) e(1) show ?thesis
      by (cases "e_w e = v") (auto simp: arcs_sorted_def st2_def precedes_snoc precedes_append split: if_splits)
  qed
  then have "arcs_sorted g st2 (fin1 @ [v])" unfolding arcs_sorted_def by blast
  moreover have nv: "v \<notin> set (keys (s_stack st))" using v(2) fas_invD(1) [OF inv] by auto
  moreover have "v \<notin> set fin1" using I(2) H(2) by auto
  ultimately show "fas_inv g st2 (fin1 @ [v])" using I(1-4,6-8) H(2) v(1) by (auto simp: fas_inv_def st2_def)
  show "fas_grows st fin st2 (fin1 @ [v])" using H(2-6) nv by (auto simp: fas_grows_def st2_def)
qed

lemma fasVisit_ok:
  fixes g :: "('g, 'n, 'e) Graph"
  assumes ok: "graph_ok g" and loops: "\<And>e. e \<in> set (edges g) \<Longrightarrow> e_v e \<noteq> e_w e"
  shows "fas_inv g st fin \<Longrightarrow> v \<in> node_set g \<Longrightarrow> v \<notin> set (keys (s_stack st)) \<Longrightarrow>
    card (node_set g - set (keys (s_visited st))) < n \<Longrightarrow>
    \<exists>st' fin'. fasVisit n g v st = Inr st' \<and> fas_inv g st' fin' \<and> fas_grows st fin st' fin' \<and> v \<in> set fin'"
proof (induction n arbitrary: v st fin)
  case (Suc n)
  show ?case
  proof (cases "v \<in> set (keys (s_visited st))")
    case True
    then have "v \<in> set fin" using fas_invD(1) [OF Suc.prems(1)] Suc.prems(3) by auto
    with True Suc.prems(1) fas_grows_refl show ?thesis by (auto simp: has_iff)
  next
    case False
    let ?st0 = "st\<lparr>s_visited := put v True (s_visited st), s_stack := put v True (s_stack st)\<rparr>"
    let ?f = "\<lambda>e st1. if has (s_stack st1) (e_w e) then Inr (st1\<lparr>s_fas := s_fas st1 @ [e]\<rparr>) else fasVisit n g (e_w e) st1"
    let ?es = "each (outEdges v None g)"
    note O = each_outEdges [OF ok Suc.prems(2)]
    have "card (node_set g - insert v (set (keys (s_visited st)))) < card (node_set g - set (keys (s_visited st)))"
      using Suc.prems(2) False by (intro psubset_card_mono) (auto simp: node_set_def)
    with Suc.prems(4) have less: "card (node_set g - insert v (set (keys (s_visited st)))) < n" by simp
    have "\<exists>st1. rfold ?f ?es ?st0 = Inr st1 \<and> (\<exists>fin1. half_way g v st fin ?es st1 fin1)"
    proof (rule rfold_prefix_invariant [where P = "\<lambda>ys st1. \<exists>fin1. half_way g v st fin ys st1 fin1"])
      show "\<exists>fin1. half_way g v st fin [] ?st0 fin1" using enter_half_way [OF Suc.prems(1,2) False] by blast
    next
      fix ys e zs st1
      assume split: "?es = ys @ e # zs" and "\<exists>fin1. half_way g v st fin ys st1 fin1"
      then obtain fin1 where h: "half_way g v st fin ys st1 fin1" by blast
      note H = half_wayD [OF h]
      have "e \<in> set ?es" "set ys \<subseteq> set ?es" "e \<notin> set ys" using split O(2) by auto
      then have e: "e \<in> set (edges g)" "e_v e = v" "e \<notin> set ys" and ys: "\<And>x. x \<in> set ys \<Longrightarrow> e_v x = v"
        using O(1) by auto
      show "\<exists>st2. ?f e st1 = Inr st2 \<and> (\<exists>fin2. half_way g v st fin (ys @ [e]) st2 fin2)"
      proof (cases "e_w e \<in> set (keys (s_stack st1))")
        case True
        with back_edge_half_way [OF h e True False] show ?thesis by (auto simp: has_iff)
      next
        case out: False
        have sub: "node_set g - set (keys (s_visited st1)) \<subseteq> node_set g - insert v (set (keys (s_visited st)))"
          using H(4) by auto
        have "card (node_set g - set (keys (s_visited st1))) < n"
          by (rule le_less_trans [OF card_mono [OF _ sub] less]) (simp add: node_set_def)
        with Suc.IH [OF H(1) _ out] edges_ends [OF ok e(1)] obtain st2 fin2 where
          r: "fasVisit n g (e_w e) st1 = Inr st2" "fas_inv g st2 fin2" "fas_grows st1 fin1 st2 fin2" "e_w e \<in> set fin2"
          by blast
        with tree_edge_half_way [OF h e(2,3) ys r(2-4)] out show ?thesis by (auto simp: has_iff)
      qed
    qed
    then obtain st1 fin1 where r: "rfold ?f ?es ?st0 = Inr st1" and h: "half_way g v st fin ?es st1 fin1" by blast
    have all: "e \<in> set ?es" if "e \<in> set (edges g)" "e_v e = v" for e using O(1) that by auto
    from leave_half_way [OF h Suc.prems(2) False all loops Suc.prems(1)] r False show ?thesis
      by (auto simp: has_iff)
  qed
qed simp

lemma dfsFAS_ok:
  fixes g :: "('g, 'n, 'e) Graph"
  assumes ok: "graph_ok g" and loops: "\<And>e. e \<in> set (edges g) \<Longrightarrow> e_v e \<noteq> e_w e"
  shows "\<exists>fas fin. dfsFAS g = Inr fas \<and> feedback_set g fas fin"
proof -
  let ?st0 = "\<lparr>s_fas = [], s_stack = [], s_visited = []\<rparr>"
  let ?P = "\<lambda>ys st. \<exists>fin. fas_inv g st fin \<and> set (keys (s_stack st)) = {} \<and> set ys \<subseteq> set fin"
  have "\<exists>st. rfold (fasVisit (length (nodes g) + 1) g) (nodes g) ?st0 = Inr st \<and> ?P (nodes g) st"
  proof (rule rfold_prefix_invariant [where P = ?P])
    show "?P [] ?st0" by (auto simp: fas_inv_def arcs_sorted_def)
  next
    fix ys v zs st
    assume split: "nodes g = ys @ v # zs" and "?P ys st"
    then obtain fin where P: "fas_inv g st fin" "set (keys (s_stack st)) = {}" "set ys \<subseteq> set fin" by blast
    have v: "v \<in> node_set g" using split by (simp flip: nodes_set)
    have "card (node_set g - set (keys (s_visited st))) < length (nodes g) + 1"
      using card_nodes [OF ok] card_mono [of "node_set g" "node_set g - set (keys (s_visited st))"]
      by (simp add: node_set_def)
    moreover have "v \<notin> set (keys (s_stack st))" using P(2) by simp
    ultimately obtain st' fin' where
      r: "fasVisit (length (nodes g) + 1) g v st = Inr st'" "fas_inv g st' fin'" "fas_grows st fin st' fin'" "v \<in> set fin'"
      using fasVisit_ok [OF ok _ P(1) v, of "length (nodes g) + 1"] loops by blast
    have "set fin \<subseteq> set fin'" "set (keys (s_stack st')) = {}" using fas_growsD(1,2) [OF r(3)] P(2) by auto
    with r P(3) show "\<exists>st'. fasVisit (length (nodes g) + 1) g v st = Inr st' \<and> ?P (ys @ [v]) st'" by auto
  qed
  then obtain st fin where st: "rfold (fasVisit (length (nodes g) + 1) g) (nodes g) ?st0 = Inr st"
    "fas_inv g st fin" "set (keys (s_stack st)) = {}" "node_set g \<subseteq> set fin" unfolding nodes_set by blast
  note I = fas_invD [OF st(2)]
  have fin: "set fin = node_set g" using st(3,4) I(1,3) by auto
  then have "if e \<in> set (s_fas st) then precedes fin (e_v e) (e_w e) else precedes fin (e_w e) (e_v e)"
    if "e \<in> set (edges g)" for e
    using I(5) st(3) edges_ends [OF ok that] that by (auto simp: arcs_sorted_def split: if_splits)
  with I(4,6,7) fin have "feedback_set g (s_fas st) fin" by (simp add: feedback_set_def)
  with st(1) show ?thesis unfolding dfsFAS_def by auto
qed

section \<open>Turning edges around\<close>

lemma replaceEdge_ok:
  assumes k: "layout_ok k" and e: "abs_edges k e = Some (Some l)"
    and e': "clean_edge e'" "e_v e' \<in> node_set k" "e_w e' \<in> node_set k"
  shows "\<exists>k'. replaceEdge e e' f k = Inr k' \<and> layout_ok k' \<and> abs_nodes k' = abs_nodes k \<and>
    abs_edges k' = (abs_edges k)(e := None, e' \<mapsto> Some (f l))"
proof -
  note K = layout_okD [OF k]
  have eE: "e \<in> set (edges k)" using layout_edge_clean [OF k e] by blast
  have lab: "edgeOfObj e k = Some l" using abs_edge_label [OF K(1) eE] e by simp
  obtain k1 where k1: "removeEdgeObj e k = Inr k1" "layout_ok k1" "abs_nodes k1 = abs_nodes k" "abs_edges k1 = (abs_edges k)(e := None)"
    using layout_removeEdge [OF k e] by blast
  have ends: "e_v e' \<in> node_set k1" "e_w e' \<in> node_set k1" using e'(2,3) k1(3) by (simp_all add: node_set_abs)
  obtain k' where k': "setEdge (e_v e') (e_w e') (Some (Some (f l))) (e_name e') k1 = Inr k'" "layout_ok k'"
    "abs_nodes k' = abs_nodes k1" "abs_edges k' = (abs_edges k1)(e' \<mapsto> Some (f l))"
    using layout_setEdge [OF k1(2) e'(1) ends, of "Some (f l)"] by blast
  with k1 lab show ?thesis by (simp add: replaceEdge_def)
qed

text \<open>The new edges with the edges they stand for.\<close>

fun revs :: "nat \<Rightarrow> edgeObj list \<Rightarrow> (edgeObj \<times> edgeObj) list" where
  "revs c [] = []"
| "revs c (e # es) = (reversedEdge e (Some (revName c)), e) # revs (c + 1) es"

definition fresh_names :: "nat \<Rightarrow> ('g, 'n, 'e) Graph \<Rightarrow> bool" where
  "fresh_names c g \<longleftrightarrow> (\<forall>e \<in> set (edges g). \<forall>i \<ge> c. e_name e \<noteq> Some (revName i))"

lemma revName_inj [simp]: "revName i = revName j \<longleftrightarrow> i = j"
  by (simp add: revName_def)

lemma revs_mem: "(z, e) \<in> set (revs c es) \<Longrightarrow> e \<in> set es \<and> (\<exists>i \<ge> c. z = reversedEdge e (Some (revName i)))"
proof (induction es arbitrary: c)
  case (Cons x es)
  from Cons.prems consider "z = reversedEdge x (Some (revName c))" "e = x" | "(z, e) \<in> set (revs (c + 1) es)" by auto
  then show ?case
  proof cases
    case 2
    from Cons.IH [OF this] obtain i where "e \<in> set es" "i \<ge> c + 1" "z = reversedEdge e (Some (revName i))" by blast
    then have "i \<ge> c" by simp
    then show ?thesis using \<open>e \<in> set es\<close> \<open>z = _\<close> by auto
  qed auto
qed simp

lemma revs_snd: "e \<in> set es \<Longrightarrow> \<exists>z. (z, e) \<in> set (revs c es)"
  by (induction es arbitrary: c) auto

lemma revs_name: "map_of (revs c es) z = Some e \<Longrightarrow> \<exists>i \<ge> c. e_name z = Some (revName i)"
  using revs_mem [of z e c es] by (auto dest!: map_of_SomeD simp: reversedEdge_def)

lemma revs_distinct: "distinct (map fst (revs c es))"
proof (induction es arbitrary: c)
  case (Cons e es)
  have "reversedEdge e (Some (revName c)) \<notin> fst ` set (revs (c + 1) es)"
    using revs_mem [of _ _ "c + 1" es] by (fastforce simp: reversedEdge_def)
  with Cons show ?case by simp
qed simp

lemma clean_revName: "clean_name (Some (revName c))"
  by (simp add: clean_name_def revName_def DEFAULT_EDGE_NAME_def)

lemma reverseEdges_ok:
  assumes "layout_ok k" "\<And>e. e \<in> set (edges k) \<Longrightarrow> edgeOfObj e k \<noteq> None" "fresh_names c k"
    and "distinct fas" "set fas \<subseteq> set (edges k)"
  shows "\<exists>h c'. reverseEdges fas c k = Inr (h, c') \<and> layout_ok h \<and> abs_nodes h = abs_nodes k \<and>
    abs_edges h = (\<lambda>z. case map_of (revs c fas) z of
        Some e \<Rightarrow> Some (map_option (markReversed (e_name e)) (edgeOfObj e k))
      | None \<Rightarrow> if z \<in> set fas then None else abs_edges k z)"
  using assms
proof (induction fas arbitrary: c k)
  case Nil
  then show ?case by auto
next
  case (Cons e fas)
  note K = layout_okD [OF Cons.prems(1)]
  let ?r = "reversedEdge e (Some (revName c))"
  have e: "e \<in> set (edges k)" "e \<notin> set fas" using Cons.prems(4,5) by auto
  obtain l where l: "edgeOfObj e k = Some l" using Cons.prems(2) [OF e(1)] by blast
  have ce: "clean_edge e" using K(2) e(1) by (simp add: clean_graph_def)
  have "e_name ?r = Some (revName c)" by (simp add: reversedEdge_def)
  then have r: "?r \<notin> set (edges k)" using Cons.prems(3) unfolding fresh_names_def by blast
  then have re: "?r \<noteq> e" using e(1) by auto
  have "clean_edge ?r" using ce clean_revName [of c] by (simp add: clean_edge_def reversedEdge_def)
  with replaceEdge_ok [OF Cons.prems(1), of e l ?r "markReversed (e_name e)"] edges_ends [OF K(1) e(1)]
    abs_edge_label [OF K(1) e(1)] l
  obtain k1 where k1: "replaceEdge e ?r (markReversed (e_name e)) k = Inr k1" "layout_ok k1" "abs_nodes k1 = abs_nodes k"
    "abs_edges k1 = (abs_edges k)(e := None, ?r \<mapsto> Some (markReversed (e_name e) l))"
    by (auto simp: reversedEdge_def)
  note K1 = layout_okD [OF k1(2)]
  have edges1: "set (edges k1) = insert ?r (set (edges k) - {e})"
    using dom_abs_edges [OF K1(1)] dom_abs_edges [OF K(1)] k1(4) re by auto
  have lab1: "edgeOfObj x k1 = edgeOfObj x k" if "x \<in> set (edges k)" "x \<noteq> e" for x
  proof -
    have "x \<noteq> ?r" "x \<in> set (edges k1)" using that r edges1 by auto
    with abs_edge_label [OF K1(1), of x] abs_edge_label [OF K(1) that(1)] k1(4) that(2) show ?thesis by simp
  qed
  have labs: "edgeOfObj x k1 \<noteq> None" if "x \<in> set (edges k1)" for x
  proof (cases "x = ?r")
    case True
    with abs_edge_label [OF K1(1) that] k1(4) have "edgeOfObj x k1 = Some (markReversed (e_name e) l)" by simp
    then show ?thesis by simp
  next
    case False
    with that edges1 lab1 Cons.prems(2) show ?thesis by auto
  qed
  have fresh: "fresh_names (c + 1) k1"
    using Cons.prems(3) edges1 by (auto simp: fresh_names_def reversedEdge_def)
  have sub: "set fas \<subseteq> set (edges k1)" using Cons.prems(5) e(2) edges1 by auto
  have dist: "distinct fas" using Cons.prems(4) by simp
  obtain h c' where h: "reverseEdges fas (c + 1) k1 = Inr (h, c')" "layout_ok h" "abs_nodes h = abs_nodes k1"
    "abs_edges h = (\<lambda>z. case map_of (revs (c + 1) fas) z of
        Some e \<Rightarrow> Some (map_option (markReversed (e_name e)) (edgeOfObj e k1))
      | None \<Rightarrow> if z \<in> set fas then None else abs_edges k1 z)"
    using Cons.IH [OF k1(2) labs fresh dist sub] by blast
  have rr: "map_of (revs (c + 1) fas) ?r = None" "?r \<notin> set fas"
    using revs_distinct [of c "e # fas"] r Cons.prems(5) by (auto simp: map_of_eq_None_iff)
  have mem: "x \<in> set fas" if "map_of (revs (c + 1) fas) z = Some x" for z x
    using that revs_mem [of z x "c + 1" fas] by (auto dest: map_of_SomeD)
  have "abs_edges h z = (case map_of (revs c (e # fas)) z of
      Some e \<Rightarrow> Some (map_option (markReversed (e_name e)) (edgeOfObj e k))
    | None \<Rightarrow> if z \<in> set (e # fas) then None else abs_edges k z)" for z
  proof (cases "z = ?r")
    case True
    with h(4) rr k1(4) l show ?thesis by simp
  next
    case False
    then have M: "map_of (revs c (e # fas)) z = map_of (revs (c + 1) fas) z" by simp
    show ?thesis
    proof (cases "map_of (revs (c + 1) fas) z")
      case None
      show ?thesis unfolding M None h(4) k1(4) using False re e(2) by auto
    next
      case (Some x)
      have "x \<in> set fas" by (rule mem [OF Some])
      then have "edgeOfObj x k1 = edgeOfObj x k" using lab1 [of x] e Cons.prems(5) by auto
      then show ?thesis unfolding M Some h(4) by simp
    qed
  qed
  with h(1-3) k1(1,3) show ?case by auto
qed

section \<open>The phase, for any feedback arc set\<close>

text \<open>What \<open>run\<close> needs: labels that have not been reversed, names that \<open>_.uniqueId\<close> has not given yet.\<close>

definition run_ready :: "nat \<Rightarrow> layoutGraph \<Rightarrow> bool" where
  "run_ready c g \<longleftrightarrow> layout_ok g \<and> fresh_names c g \<and>
     (\<forall>e \<in> set (edges g). \<exists>l. edgeOfObj e g = Some l \<and> \<not> l_reversed l \<and> l_forwardName l = None)"

lemma run_readyD:
  assumes "run_ready c g"
  shows "layout_ok g" "fresh_names c g" "graph_ok g"
    and "\<And>e. e \<in> set (edges g) \<Longrightarrow> \<exists>l. edgeOfObj e g = Some l \<and> \<not> l_reversed l \<and> l_forwardName l = None"
  using assms by (simp_all add: run_ready_def layout_ok_def)

lemma unmark_mark: "\<not> l_reversed l \<Longrightarrow> l_forwardName l = None \<Longrightarrow> unmarkReversed (markReversed n l) = l"
  by (simp add: unmarkReversed_def markReversed_def)

definition reversed_edges :: "layoutGraph \<Rightarrow> (edgeObj \<Rightarrow> edgeObj option) \<Rightarrow> edgeObj list \<Rightarrow> edgeObj \<Rightarrow> layoutEdge option option" where
  "reversed_edges g M fas z = (case M z of
        Some e \<Rightarrow> Some (map_option (markReversed (e_name e)) (edgeOfObj e g))
      | None \<Rightarrow> if z \<in> set fas then None else abs_edges g z)"

lemma revs_facts:
  assumes r: "run_ready c g" and fas: "set fas \<subseteq> set (edges g)" and M: "map_of (revs c fas) z = Some e"
  shows "e \<in> set fas" "e \<in> set (edges g)" "z \<notin> set (edges g)" "e_v z = e_w e" "e_w z = e_v e"
    "reversedEdge z (e_name e) = e"
proof -
  obtain i where i: "i \<ge> c" "e \<in> set fas" "z = reversedEdge e (Some (revName i))"
    using revs_mem map_of_SomeD [OF M] by blast
  then show "e \<in> set fas" "e \<in> set (edges g)" "e_v z = e_w e" "e_w z = e_v e" "reversedEdge z (e_name e) = e"
    using fas by (auto simp: reversedEdge_def)
  have "e_name z = Some (revName i)" using i(3) by (simp add: reversedEdge_def)
  with run_readyD(2) [OF r] i(1) show "z \<notin> set (edges g)" unfolding fresh_names_def by blast
qed

lemma reversed_acyclic:
  fixes h :: layoutGraph
  assumes r: "run_ready c g" and f: "feedback_set g fas fin" and h: "graph_ok h"
    and E: "abs_edges h = reversed_edges g (map_of (revs c fas)) fas"
  shows "acyclic (arcs h)"
proof -
  have F: "set fas \<subseteq> set (edges g)" "distinct fin" "set fin = node_set g" using f by (simp_all add: feedback_set_def)
  have prec: "precedes fin (e_w e) (e_v e)" if "e \<in> set (edges h)" for e
  proof -
    have dom: "abs_edges h e \<noteq> None" using that dom_abs_edges [OF h] by auto
    show ?thesis
    proof (cases "map_of (revs c fas) e")
      case None
      with dom E have "e \<notin> set fas" "e \<in> dom (abs_edges g)" by (auto simp: reversed_edges_def split: if_splits)
      with f dom_abs_edges [OF run_readyD(3) [OF r]] show ?thesis by (auto simp: feedback_set_def)
    next
      case (Some x)
      note X = revs_facts [OF r F(1) Some]
      from f X(1,2) have "precedes fin (e_v x) (e_w x)" by (auto simp: feedback_set_def)
      then show ?thesis by (simp add: X(4,5))
    qed
  qed
  have "topo_sorted ((arcs h)\<inverse>) fin" unfolding topo_sorted_def
  proof (intro allI impI)
    fix ys v zs u assume s: "fin = ys @ v # zs" "(u, v) \<in> (arcs h)\<inverse>"
    then have "precedes fin u v" using prec by (auto simp: arcs_def)
    then obtain y1 z1 where "fin = y1 @ v # z1" "u \<in> set y1" by (auto simp: precedes_def)
    moreover from this s(1) F(2) have "y1 = ys" by (auto simp: append_eq_append_conv2 append_eq_Cons_conv Cons_eq_append_conv)
    ultimately show "u \<in> set ys" by simp
  qed
  moreover have "Range ((arcs h)\<inverse>) \<subseteq> set fin"
  proof
    fix v assume "v \<in> Range ((arcs h)\<inverse>)"
    then obtain e where "e \<in> set (edges h)" "e_v e = v" by (auto simp: arcs_def)
    with prec [of e] show "v \<in> set fin" by (auto simp: precedes_def)
  qed
  ultimately show ?thesis using topo_sorted_acyclic [of "(arcs h)\<inverse>" fin] F(2) by simp
qed

text \<open>The edges while \<open>undo\<close> is under way: those of \<open>ys\<close> have been looked at.\<close>

definition undone :: "layoutGraph \<Rightarrow> (edgeObj \<Rightarrow> edgeObj option) \<Rightarrow> edgeObj list \<Rightarrow> edgeObj list \<Rightarrow> edgeObj \<Rightarrow> layoutEdge option option" where
  "undone g M fas ys z =
     (if z \<in> set ys \<and> M z \<noteq> None then None
      else if \<exists>x \<in> set ys. M x = Some z then abs_edges g z else reversed_edges g M fas z)"

lemma undoEdge_ok:
  assumes r: "run_ready c g" and f: "set fas \<subseteq> set (edges g)"
    and k: "layout_ok k" "abs_nodes k = abs_nodes g" "abs_edges k = undone g (map_of (revs c fas)) fas ys"
    and e: "e \<notin> set ys" "reversed_edges g (map_of (revs c fas)) fas e \<noteq> None"
  shows "\<exists>k'. undoEdge e k = Inr k' \<and> layout_ok k' \<and> abs_nodes k' = abs_nodes g \<and>
    abs_edges k' = undone g (map_of (revs c fas)) fas (ys @ [e])"
proof -
  let ?M = "map_of (revs c fas)"
  note K = layout_okD [OF k(1)] and R = run_readyD [OF r] and V = revs_facts [OF r f]
  have lab: "edgeOfObj e k = Some l" if "abs_edges k e = Some (Some l)" for l
  proof -
    have "e \<in> set (edges k)" using that dom_abs_edges [OF K(1)] by auto
    with abs_edge_label [OF K(1) this] that show ?thesis by simp
  qed
  show ?thesis
  proof (cases "?M e")
    case None
    then have e': "e \<in> set (edges g)" "e \<notin> set fas"
      using e(2) dom_abs_edges [OF R(3)] by (auto simp: reversed_edges_def split: if_splits)
    then have "\<not> (\<exists>x \<in> set ys. ?M x = Some e)" using V(1) by blast
    moreover obtain l where l: "edgeOfObj e g = Some l" "\<not> l_reversed l" using R(4) [OF e'(1)] by blast
    ultimately have "abs_edges k e = Some (Some l)"
      using k(3) e' None abs_edge_label [OF R(3) e'(1)] by (simp add: undone_def reversed_edges_def)
    from lab [OF this] l(2) have "undoEdge e k = Inr k" by (simp add: undoEdge_def)
    moreover have "undone g ?M fas (ys @ [e]) = undone g ?M fas ys" using None by (intro ext) (auto simp: undone_def)
    ultimately show ?thesis using k by simp
  next
    case (Some x)
    note X = V [OF Some]
    obtain l where l: "edgeOfObj x g = Some l" "\<not> l_reversed l" "l_forwardName l = None" using R(4) [OF X(2)] by blast
    have "\<not> (\<exists>y \<in> set ys. ?M y = Some e)" using V(2) X(3) by blast
    then have ke: "abs_edges k e = Some (Some (markReversed (e_name x) l))"
      using k(3) e(1) Some l(1) by (simp add: undone_def reversed_edges_def)
    have ends: "e_v x \<in> node_set k" "e_w x \<in> node_set k"
      using edges_ends [OF R(3) X(2)] k(2) by (simp_all add: node_set_abs)
    have cx: "clean_edge x" using layout_okD(2) [OF R(1)] X(2) by (simp add: clean_graph_def)
    obtain k' where k': "replaceEdge e x unmarkReversed k = Inr k'" "layout_ok k'" "abs_nodes k' = abs_nodes k"
      "abs_edges k' = (abs_edges k)(e := None, x \<mapsto> Some (unmarkReversed (markReversed (e_name x) l)))"
      using replaceEdge_ok [OF k(1) ke cx ends] by blast
    have u: "undoEdge e k = Inr k'"
      using lab [OF ke] k'(1) X(6) by (simp add: undoEdge_def markReversed_def)
    have "?M x \<noteq> Some y" for y using V(3) X(2) by blast
    then have x: "?M x = None" "x \<noteq> e" using X(2,3) by auto
    have "abs_edges k' z = undone g ?M fas (ys @ [e]) z" for z
    proof -
      consider "z = x" | "z = e" "z \<noteq> x" | "z \<noteq> x" "z \<noteq> e" by blast
      then show ?thesis
      proof cases
        case 1
        then show ?thesis
          using k'(4) unmark_mark [OF l(2,3)] x Some abs_edge_label [OF R(3) X(2)] l(1) by (simp add: undone_def)
      next
        case 2
        then show ?thesis using k'(4) Some by (simp add: undone_def)
      next
        case 3
        then show ?thesis using k'(4) k(3) Some by (auto simp: undone_def)
      qed
    qed
    then have "abs_edges k' = undone g ?M fas (ys @ [e])" by blast
    with u k'(2,3) k(2) show ?thesis by auto
  qed
qed

lemma undo_ok:
  assumes r: "run_ready c g" and f: "set fas \<subseteq> set (edges g)"
    and h: "layout_ok h" "abs_nodes h = abs_nodes g" "abs_edges h = reversed_edges g (map_of (revs c fas)) fas"
  shows "\<exists>k. acyclic_undo h = Inr k \<and> layout_ok k \<and> abs_nodes k = abs_nodes g \<and> abs_edges k = abs_edges g"
proof -
  let ?M = "map_of (revs c fas)"
  let ?P = "\<lambda>ys (k :: layoutGraph). layout_ok k \<and> abs_nodes k = abs_nodes g \<and> abs_edges k = undone g ?M fas ys"
  have in_h: "z \<in> set (edges h) \<longleftrightarrow> reversed_edges g ?M fas z \<noteq> None" for z
    using dom_abs_edges [OF layout_okD(1) [OF h(1)]] h(3) by auto
  have "\<exists>k. rfold undoEdge (edges h) h = Inr k \<and> ?P (edges h) k"
  proof (rule rfold_prefix_invariant [where P = ?P])
    show "?P [] h" using h by (simp add: undone_def [abs_def])
  next
    fix ys e zs k assume split: "edges h = ys @ e # zs" and P: "?P ys k"
    have "e \<notin> set ys" using distinct_edges [OF layout_okD(1) [OF h(1)]] split by simp
    moreover have "reversed_edges g ?M fas e \<noteq> None" using in_h [of e] split by simp
    ultimately show "\<exists>k'. undoEdge e k = Inr k' \<and> ?P (ys @ [e]) k'" using undoEdge_ok [OF r f] P by blast
  qed
  then obtain k where k: "acyclic_undo h = Inr k" "?P (edges h) k" by (auto simp: acyclic_undo_def)
  have "undone g ?M fas (edges h) z = abs_edges g z" for z
  proof (cases "?M z")
    case None
    show ?thesis
    proof (cases "z \<in> set fas")
      case True
      then obtain x where "(x, z) \<in> set (revs c fas)" using revs_snd by blast
      then have x: "?M x = Some z" using revs_distinct by simp
      then have "x \<in> set (edges h)" using in_h [of x] by (simp add: reversed_edges_def)
      with x None show ?thesis by (auto simp: undone_def)
    next
      case False
      then have "\<not> (\<exists>x \<in> set (edges h). ?M x = Some z)" using revs_facts(1) [OF r f] by blast
      with None False show ?thesis by (simp add: undone_def reversed_edges_def)
    qed
  next
    case (Some x)
    then have "z \<in> set (edges h)" using in_h [of z] by (simp add: reversed_edges_def)
    moreover have "abs_edges g z = None"
      using revs_facts(3) [OF r f Some] dom_abs_edges [OF run_readyD(3) [OF r]] by auto
    ultimately show ?thesis using Some by (simp add: undone_def)
  qed
  with k show ?thesis by auto
qed

section \<open>Correctness of the phase\<close>

lemma reversed_links:
  fixes h :: layoutGraph
  assumes r: "run_ready c g" and f: "set fas \<subseteq> set (edges g)" and h: "graph_ok h"
    and E: "abs_edges h = reversed_edges g (map_of (revs c fas)) fas"
  shows "links h = links g"
proof -
  have in_h: "z \<in> set (edges h) \<longleftrightarrow> reversed_edges g (map_of (revs c fas)) fas z \<noteq> None" for z
    using dom_abs_edges [OF h] E by auto
  have in_g: "z \<in> set (edges g) \<longleftrightarrow> abs_edges g z \<noteq> None" for z using dom_abs_edges [OF run_readyD(3) [OF r]] by auto
  have "(e_v z, e_w z) \<in> links g" if "z \<in> set (edges h)" for z
  proof (cases "map_of (revs c fas) z")
    case None
    then have "z \<in> set (edges g)" using that in_h in_g by (auto simp: reversed_edges_def split: if_splits)
    then show ?thesis by (auto simp: links_def arcs_def)
  next
    case (Some e)
    from revs_facts(2,4,5) [OF r f Some] show ?thesis by (auto simp: links_def arcs_def)
  qed
  moreover have "(e_v z, e_w z) \<in> links h" if "z \<in> set (edges g)" for z
  proof (cases "z \<in> set fas")
    case True
    then obtain x where "(x, z) \<in> set (revs c fas)" using revs_snd by blast
    then have x: "map_of (revs c fas) x = Some z" using revs_distinct by simp
    then have "x \<in> set (edges h)" using in_h by (simp add: reversed_edges_def)
    with revs_facts(4,5) [OF r f x] show ?thesis by (force simp: links_def arcs_def)
  next
    case False
    moreover have "map_of (revs c fas) z = None"
      using revs_facts(3) [OF r f, of z] that by (cases "map_of (revs c fas) z") auto
    ultimately have "z \<in> set (edges h)" using that in_h in_g by (simp add: reversed_edges_def)
    then show ?thesis by (auto simp: links_def arcs_def)
  qed
  moreover have "links k \<subseteq> links k'" if "\<And>z. z \<in> set (edges k) \<Longrightarrow> (e_v z, e_w z) \<in> links k'" for k k' :: layoutGraph
    using that unfolding links_def arcs_def by fastforce
  ultimately show ?thesis by blast
qed

text \<open>Either way of finding the set gives a feedback arc set.\<close>

lemma feedback_found:
  assumes r: "run_ready c g" and loops: "\<forall>e \<in> set (edges g). e_v e \<noteq> e_w e"
    and greedy: "g_acyclicer gl = Some ''greedy'' \<longrightarrow> [] \<notin> node_set g \<and> (\<forall>e \<in> set (edges g). \<forall>l. edgeOfObj e g = Some l \<longrightarrow> 0 < l_weight l)"
  shows "\<exists>fas fin. (if g_acyclicer gl = Some ''greedy'' then greedyFAS g (weightFn g) else dfsFAS g) = Inr fas \<and> feedback_set g fas fin"
proof (cases "g_acyclicer gl = Some ''greedy''")
  case True
  have "\<exists>k. weightFn g e = Inr k \<and> 0 < k" if "e \<in> set (edges g)" for e
    using run_readyD(4) [OF r that] greedy True that by (auto simp: weightFn_def)
  with True greedyFAS_ok [OF run_readyD(3) [OF r] layout_okD(2) [OF run_readyD(1) [OF r]], of "weightFn g"] loops greedy
  show ?thesis by simp
next
  case False
  with dfsFAS_ok [OF run_readyD(3) [OF r]] loops show ?thesis by simp
qed

text \<open>C31. The phase \<open>acyclic\<close> of the layout (\<open>lib/acyclic\<close>): on a consistent graph without self-loops, \<open>run\<close> returns,
  whether it uses the depth-first search or the greedy heuristic (which needs positive weights and no node with an empty name);
  its result has no directed cycle, the same nodes, and the same pairs of nodes joined; and \<open>undo\<close> then gives back exactly
  the edges and labels there were.\<close>

theorem acyclic_breaks_and_restores_cycles:
  assumes "run_ready c g" "graph g = Some gl" "\<forall>e \<in> set (edges g). e_v e \<noteq> e_w e"
    and "g_acyclicer gl = Some ''greedy'' \<longrightarrow> [] \<notin> node_set g \<and> (\<forall>e \<in> set (edges g). \<forall>l. edgeOfObj e g = Some l \<longrightarrow> 0 < l_weight l)"
  shows "\<exists>h c' k. acyclic_run g c = Inr (h, c') \<and> graph_ok h \<and> acyclic (arcs h) \<and> abs_nodes h = abs_nodes g \<and> links h = links g \<and>
    acyclic_undo h = Inr k \<and> abs_nodes k = abs_nodes g \<and> abs_edges k = abs_edges g"
proof -
  note R = run_readyD [OF assms(1)]
  obtain fas fin where fas: "(if g_acyclicer gl = Some ''greedy'' then greedyFAS g (weightFn g) else dfsFAS g) = Inr fas"
    "feedback_set g fas fin" using feedback_found [OF assms(1,3,4)] by blast
  have F: "distinct fas" "set fas \<subseteq> set (edges g)" using fas(2) by (simp_all add: feedback_set_def)
  have lab: "edgeOfObj e g \<noteq> None" if "e \<in> set (edges g)" for e using R(4) [OF that] by auto
  obtain h c' where h: "reverseEdges fas c g = Inr (h, c')" "layout_ok h" "abs_nodes h = abs_nodes g"
    "abs_edges h = reversed_edges g (map_of (revs c fas)) fas"
    using reverseEdges_ok [OF R(1) lab R(2) F] unfolding reversed_edges_def [abs_def] by blast
  obtain k where k: "acyclic_undo h = Inr k" "abs_nodes k = abs_nodes g" "abs_edges k = abs_edges g"
    using undo_ok [OF assms(1) F(2) h(2-4)] by blast
  have "acyclic_run g c = Inr (h, c')" using assms(2) fas(1) h(1) by (simp add: acyclic_run_def)
  with reversed_acyclic [OF assms(1) fas(2) layout_okD(1) [OF h(2)] h(4)] h(3) layout_okD(1) [OF h(2)]
    reversed_links [OF assms(1) F(2) layout_okD(1) [OF h(2)] h(4)] k show ?thesis by blast
qed

text \<open>Two nodes joined both ways.\<close>

definition exampleCycle :: "layoutGraph result" where
  "exampleCycle =
     rbind (setEdge ''a'' ''b'' (Some (Some exampleEdge)) None (setGraph (Some exampleLabel) (newGraph None (Some True) None))) (\<lambda>g.
       setEdge ''b'' ''a'' (Some (Some exampleEdge)) None g)"

lemma exampleCycle_ok:
  "\<exists>g. exampleCycle = Inr g \<and> run_ready 0 g \<and> graph g = Some exampleLabel \<and> (\<forall>e \<in> set (edges g). e_v e \<noteq> e_w e) \<and>
     arcs g = {(''a'', ''b''), (''b'', ''a'')}"
proof -
  let ?g0 = "setGraph (Some exampleLabel) (newGraph None (Some True) None) :: layoutGraph"
  have "graph_ok (newGraph None (Some True) None :: layoutGraph)" by (rule graph_ok_new)
  then have ok: "graph_ok ?g0" by (simp add: setGraph_def graph_ok_def tables_ok_def node_set_def)
  have f0: "clean_graph ?g0" "f_isDirected ?g0" "f_isMultigraph ?g0" "\<not> f_isCompound ?g0" "abs_edges ?g0 = Map.empty"
    "f_label ?g0 = Some exampleLabel"
    by (simp_all add: clean_graph_def setGraph_def newGraph_def edges_def abs_edges_def fun_eq_iff)
  have cl: "clean ''a''" "clean ''b''" "clean_name None" by (simp_all add: clean_def clean_name_def)
  have obj: "edgeArgsToObj True u v None = arc u v" for u v by (simp add: edgeArgsToObj_def arc_def)
  obtain g1 where g1: "setEdge ''a'' ''b'' (Some (Some exampleEdge)) None ?g0 = Inr g1" "graph_ok g1" "clean_graph g1" "same_flags ?g0 g1"
    "abs_edges g1 = (abs_edges ?g0)(arc ''a'' ''b'' \<mapsto> Some exampleEdge)"
    using setEdge_refines [OF ok f0(1) cl, of "Some (Some exampleEdge)"] f0(2-4) obj by auto
  have f1: "f_isDirected g1" "f_isMultigraph g1" "\<not> f_isCompound g1" "f_label g1 = Some exampleLabel"
    using g1(4) f0 by (simp_all add: same_flags_def)
  obtain g where g: "setEdge ''b'' ''a'' (Some (Some exampleEdge)) None g1 = Inr g" "graph_ok g" "clean_graph g" "same_flags g1 g"
    "abs_edges g = (abs_edges g1)(arc ''b'' ''a'' \<mapsto> Some exampleEdge)"
    using setEdge_refines [OF g1(2,3) cl(2,1,3), of "Some (Some exampleEdge)"] f1(1-3) obj by auto
  have E: "set (edges g) = {arc ''a'' ''b'', arc ''b'' ''a''}"
    using dom_abs_edges [OF g(2)] g(5) g1(5) f0(5) by auto
  have lab: "edgeOfObj e g = Some exampleEdge" if "e \<in> set (edges g)" for e
    using abs_edge_label [OF g(2) that] that g(5) g1(5) f0(5) unfolding E by (auto split: if_splits)
  have "layout_ok g" using g(2-4) f1 by (simp add: layout_ok_def same_flags_def)
  moreover have "fresh_names 0 g" unfolding fresh_names_def E by simp
  ultimately have "run_ready 0 g" unfolding run_ready_def using lab by (simp add: exampleEdge_def)
  moreover have "graph g = Some exampleLabel" using g(4) f1(4) by (simp add: graph_def same_flags_def)
  moreover have "arcs g = {(''a'', ''b''), (''b'', ''a'')}" unfolding arcs_def E by (auto intro: exI [of _ "arc ''a'' ''b''"] exI [of _ "arc ''b'' ''a''"])
  moreover have "\<forall>e \<in> set (edges g). e_v e \<noteq> e_w e" unfolding E by simp
  ultimately show ?thesis using g1(1) g(1) by (auto simp: exampleCycle_def)
qed

theorem acyclic_breaks_and_restores_cycles_witness:
  "\<exists>g h c' k. exampleCycle = Inr g \<and> \<not> acyclic (arcs g) \<and> acyclic_run g 0 = Inr (h, c') \<and> acyclic (arcs h) \<and>
     links h = {(''a'', ''b''), (''b'', ''a'')} \<and> acyclic_undo h = Inr k \<and> abs_edges k = abs_edges g"
proof -
  obtain g where g: "exampleCycle = Inr g" "run_ready 0 g" "graph g = Some exampleLabel" "\<forall>e \<in> set (edges g). e_v e \<noteq> e_w e"
    "arcs g = {(''a'', ''b''), (''b'', ''a'')}" using exampleCycle_ok by blast
  have "g_acyclicer exampleLabel \<noteq> Some ''greedy''" by (simp add: exampleLabel_def)
  then obtain h c' k where h: "acyclic_run g 0 = Inr (h, c')" "acyclic (arcs h)" "links h = links g" "acyclic_undo h = Inr k"
    "abs_edges k = abs_edges g" using acyclic_breaks_and_restores_cycles [OF g(2-4)] by blast
  have "(''a'', ''a'') \<in> (arcs g)\<^sup>+" unfolding g(5) by (rule trancl_into_trancl [of _ "''b''"]) auto
  then have "\<not> acyclic (arcs g)" by (auto simp: acyclic_def)
  moreover have "links g = {(''a'', ''b''), (''b'', ''a'')}" unfolding links_def g(5) by auto
  ultimately show ?thesis using g(1) h by auto
qed

end
