(* ===== verification/Dagre_Rank.thy ===== *)
theory Dagre_Rank
  imports Dagre_Feedback Dagre_Coordinates Graphlib_Topsort
begin

text \<open>
  Ranking by longest paths (\<open>lib/rank/util\<close>) and the adjustments of ranks in \<open>lib/util\<close>. An arithmetic
  operation on an \<open>undefined\<close> rank gives \<open>NaN\<close>, here \<open>None\<close>, which \<open>_.min\<close> and \<open>_.minBy\<close> pass over. The theorem on
  \<open>longestPath\<close>: on a graph without directed cycles it gives every node a rank, which is \<open>0\<close> for a sink and otherwise
  the largest that the minimal lengths of its out-edges leave.
\<close>

section \<open>The operations\<close>

text \<open>\<open>_.min\<close> and \<open>_.max\<close>\<close>

definition lodash_min :: "int option list \<Rightarrow> int option" where
  "lodash_min xs = (case List.map_filter id xs of [] \<Rightarrow> None | y # ys \<Rightarrow> Some (fold min ys y))"

definition lodash_max :: "int option list \<Rightarrow> int option" where
  "lodash_max xs = (case List.map_filter id xs of [] \<Rightarrow> None | y # ys \<Rightarrow> Some (fold max ys y))"

definition setRank :: "int option \<Rightarrow> layoutNode \<Rightarrow> layoutNode" where
  "setRank r l = l\<lparr>n_rank := r\<rparr>"

text \<open>The local \<open>dfs\<close> of \<open>longestPath\<close>; the first argument bounds the depth of the recursion.\<close>

fun rankVisit :: "nat \<Rightarrow> string \<Rightarrow> layoutGraph \<times> bool obj \<Rightarrow> ((layoutGraph \<times> bool obj) \<times> int option) result" where
  "rankVisit 0 v s = Inl Diverges"
| "rankVisit (Suc n) v (g, visited) =
     (if has visited v then rbind (deref (node v g)) (\<lambda>label. Inr ((g, visited), n_rank label))
      else
        rbind (rfold (\<lambda>e (s, ranks).
            rbind (rankVisit n (e_w e) s) (\<lambda>(s1, r).
            rbind (deref (edgeOfObj e (fst s1))) (\<lambda>l.
              Inr (s1, ranks @ [map_option (\<lambda>r. r - l_minlen l) r]))))
          (each (outEdges v None g)) ((g, put v True visited), [])) (\<lambda>((g1, visited1), ranks).
        let rank = (case lodash_min ranks of Some r \<Rightarrow> r | None \<Rightarrow> 0)
        in rbind (mutNode (setRank (Some rank)) v g1) (\<lambda>g2.
           Inr ((g2, visited1), Some rank))))"

definition longestPath :: "layoutGraph \<Rightarrow> layoutGraph result" where
  "longestPath g =
     rbind (rfold (\<lambda>v s. rbind (rankVisit (length (nodes g) + 1) v s) (\<lambda>(s1, _). Inr s1)) (sources g) (g, [])) (\<lambda>(g1, _).
       Inr g1)"

definition slack :: "layoutGraph \<Rightarrow> edgeObj \<Rightarrow> int option result" where
  "slack g e =
     rbind (deref (node (e_w e) g)) (\<lambda>w.
     rbind (deref (node (e_v e) g)) (\<lambda>v.
     rbind (deref (edgeOfObj e g)) (\<lambda>l.
       Inr (case (n_rank w, n_rank v) of
              (Some rw, Some rv) \<Rightarrow> Some (rw - rv - l_minlen l)
            | _ \<Rightarrow> None))))"

text \<open>The ranks of all nodes, as \<open>_.map(g.nodes(), \<dots>)\<close> collects them.\<close>

definition nodeRanks :: "layoutGraph \<Rightarrow> int option list result" where
  "nodeRanks g = rfold (\<lambda>v rs. rbind (deref (node v g)) (\<lambda>l. Inr (rs @ [n_rank l]))) (nodes g) []"

text \<open>\<open>normalizeRanks\<close>: without any rank, \<open>min\<close> is \<open>undefined\<close>, and there is nothing to subtract it from.\<close>

definition normalizeRanks :: "layoutGraph \<Rightarrow> layoutGraph result" where
  "normalizeRanks g =
     rbind (nodeRanks g) (\<lambda>rs.
       let m = lodash_min rs
       in eachNode (\<lambda>l. case n_rank l of
            None \<Rightarrow> l
          | Some r \<Rightarrow> setRank (map_option (\<lambda>m. r - m) m) l) g)"

definition maxRank :: "layoutGraph \<Rightarrow> int option result" where
  "maxRank g =
     rbind (nodeRanks g) (\<lambda>rs. Inr (lodash_max rs))"

section \<open>Longest paths\<close>

lemma lodash_min_some:
  assumes "\<And>x. x \<in> set xs \<Longrightarrow> x \<noteq> None" "xs \<noteq> []"
  shows "lodash_min xs = Some (Min (the ` set xs))"
proof -
  have "List.map_filter id xs = map the xs" using assms(1) by (induction xs) (auto simp: List.map_filter_simps split: option.splits)
  moreover obtain y ys where "map the xs = y # ys" using assms(2) by (cases xs) auto
  ultimately show ?thesis unfolding lodash_min_def by (metis list.set_map list.simps(5) Min.set_eq_fold)
qed

definition out_of :: "layoutGraph \<Rightarrow> string \<Rightarrow> edgeObj set" where
  "out_of g v = {e \<in> set (edges g). e_v e = v}"

definition minlen :: "layoutGraph \<Rightarrow> edgeObj \<Rightarrow> int" where
  "minlen g e = (case edgeOfObj e g of Some l \<Rightarrow> l_minlen l | None \<Rightarrow> 0)"

text \<open>The ranks by longest paths to a sink.\<close>

definition longest_ranks :: "layoutGraph \<Rightarrow> (string \<Rightarrow> int) \<Rightarrow> bool" where
  "longest_ranks g rk \<longleftrightarrow> (\<forall>v. rk v =
     (if out_of g v = {} then 0 else Min ((\<lambda>e. rk (e_w e) - minlen g e) ` out_of g v)))"

lemma arcs_wf:
  fixes g :: layoutGraph
  assumes "acyclic (arcs g)"
  shows "wf (arcs g)" "wf ((arcs g)\<inverse>)"
proof -
  have "arcs g = (\<lambda>e. (e_v e, e_w e)) ` set (edges g)" by (auto simp: arcs_def)
  then have "finite (arcs g)" by simp
  with assms show "wf (arcs g)" "wf ((arcs g)\<inverse>)" by (simp_all add: finite_acyclic_wf finite_acyclic_wf_converse)
qed

lemma longest_ranks_exist:
  assumes "acyclic (arcs g)"
  shows "\<exists>rk. longest_ranks g rk"
proof -
  let ?R = "(arcs g)\<inverse>"
  let ?F = "\<lambda>f v. if out_of g v = {} then 0 else Min ((\<lambda>e. f (e_w e) - minlen g e) ` out_of g v)"
  let ?rk = "wfrec ?R ?F"
  have "?rk v = ?F ?rk v" for v
  proof -
    have "(\<lambda>e. cut ?rk ?R v (e_w e) - minlen g e) ` out_of g v = (\<lambda>e. ?rk (e_w e) - minlen g e) ` out_of g v"
      by (rule image_cong) (auto simp: cut_def out_of_def arcs_def)
    then show ?thesis by (subst wfrec [OF arcs_wf(2) [OF assms]]) simp
  qed
  then have "longest_ranks g ?rk" unfolding longest_ranks_def by blast
  then show ?thesis by blast
qed

text \<open>During the search: the nodes of \<open>S\<close> are being visited, the other visited ones have their ranks, and the edges from
  these lead to such nodes.\<close>

definition ranked :: "layoutGraph \<Rightarrow> (string \<Rightarrow> int) \<Rightarrow> string set \<Rightarrow> layoutGraph \<times> bool obj \<Rightarrow> bool" where
  "ranked g rk S = (\<lambda>(h, vis). same_shape g h \<and> f_edgeLabels h = f_edgeLabels g \<and> f_label h = f_label g \<and>
     S \<subseteq> set (keys vis) \<and> set (keys vis) \<subseteq> node_set g \<and>
     (\<forall>u \<in> node_set g. node u h = (if u \<in> set (keys vis) - S then map_option (setRank (Some (rk u))) (node u g) else node u g)) \<and>
     (\<forall>e \<in> set (edges g). e_v e \<in> set (keys vis) - S \<longrightarrow> e_w e \<in> set (keys vis) - S))"

lemma rankedD:
  assumes "ranked g rk S (h, vis)"
  shows "same_shape g h" "f_edgeLabels h = f_edgeLabels g" "f_label h = f_label g" "S \<subseteq> set (keys vis)" "set (keys vis) \<subseteq> node_set g"
    and "\<And>u. u \<in> node_set g \<Longrightarrow> node u h = (if u \<in> set (keys vis) - S then map_option (setRank (Some (rk u))) (node u g) else node u g)"
    and "\<And>e. e \<in> set (edges g) \<Longrightarrow> e_v e \<in> set (keys vis) - S \<Longrightarrow> e_w e \<in> set (keys vis) - S"
  using assms unfolding ranked_def prod.case by blast+

lemma ranked_enter:
  assumes r: "ranked g rk S (h, vis)" and v: "v \<in> node_set g" "v \<notin> set (keys vis)"
  shows "ranked g rk (insert v S) (h, put v True vis)"
proof -
  note R = rankedD [OF r]
  have d: "set (keys (put v True vis)) - insert v S = set (keys vis) - S" using v(2) by auto
  show ?thesis unfolding ranked_def prod.case d using R v(1) by auto
qed

lemma ranked_leave:
  assumes r: "ranked g rk (insert v S) (h, vis)" and v: "v \<notin> S" "node v g = Some l"
    and out: "\<And>e. e \<in> out_of g v \<Longrightarrow> e_w e \<in> set (keys vis) - insert v S"
  shows "\<exists>h'. mutNode (setRank (Some (rk v))) v h = Inr h' \<and> ranked g rk S (h', vis)"
proof -
  note R = rankedD [OF r]
  have vn: "v \<in> node_set g" using R(4,5) by auto
  have "node v h = Some l" using R(6) [OF vn] v(2) by simp
  then obtain h' where h': "mutNode (setRank (Some (rk v))) v h = Inr h'" "same_shape h h'" "f_edgeLabels h' = f_edgeLabels h"
    "f_label h' = f_label h" "node v h' = Some (setRank (Some (rk v)) l)" "\<forall>w. w \<noteq> v \<longrightarrow> node w h' = node w h"
    using mutNode_ok [of v h l "setRank (Some (rk v))"] vn same_shapeD(3) [OF R(1)] by auto
  have "node u h' = (if u \<in> set (keys vis) - S then map_option (setRank (Some (rk u))) (node u g) else node u g)"
    if u: "u \<in> node_set g" for u
  proof (cases "u = v")
    case True
    then show ?thesis using h'(5) v R(4) by auto
  next
    case False
    then show ?thesis using h'(6) R(6) [OF u] by auto
  qed
  moreover have "e_w e \<in> set (keys vis) - S" if "e \<in> set (edges g)" "e_v e \<in> set (keys vis) - S" for e
    using R(7) [OF that(1)] out [of e] that by (cases "e_v e = v") (auto simp: out_of_def)
  moreover have "same_shape g h'" using same_shape_trans [OF R(1) h'(2)] .
  moreover have "f_edgeLabels h' = f_edgeLabels g" "f_label h' = f_label g" "S \<subseteq> set (keys vis)" using R(2,3,4) h'(3,4) by auto
  ultimately have "ranked g rk S (h', vis)" unfolding ranked_def prod.case using R(5) by blast
  with h'(1) show ?thesis by blast
qed

lemma rankVisit_ok:
  assumes g: "labelled g" "acyclic (arcs g)" and rk: "longest_ranks g rk"
  shows "ranked g rk S (h, vis) \<Longrightarrow> v \<in> node_set g \<Longrightarrow> v \<notin> S \<Longrightarrow> \<forall>s \<in> S. (s, v) \<in> (arcs g)\<^sup>+ \<Longrightarrow>
    card (node_set g - set (keys vis)) < n \<Longrightarrow>
    \<exists>h' vis'. rankVisit n v (h, vis) = Inr ((h', vis'), Some (rk v)) \<and> ranked g rk S (h', vis') \<and>
      set (keys vis) \<subseteq> set (keys vis') \<and> v \<in> set (keys vis')"
proof (induction n arbitrary: v S h vis)
  case (Suc n)
  note R = rankedD [OF Suc.prems(1)]
  have ok: "graph_ok g" using g(1) by (simp add: labelled_def)
  obtain l where l: "node v g = Some l" using g(1) Suc.prems(2) by (auto simp: labelled_def)
  show ?case
  proof (cases "v \<in> set (keys vis)")
    case True
    then have "node v h = Some (setRank (Some (rk v)) l)" using R(6) [OF Suc.prems(2)] Suc.prems(3) l by simp
    with True Suc.prems(1) show ?thesis by (auto simp: has_iff setRank_def)
  next
    case False
    let ?es = "each (outEdges v None h)"
    have es: "?es = each (outEdges v None g)" using R(1) by (cases g; cases h) (simp add: same_shape_def outEdges_def)
    note O = each_outEdges [OF ok Suc.prems(2)]
    have O1: "set ?es = out_of g v" unfolding es out_of_def by (rule O(1))
    have less: "card (node_set g - insert v (set (keys vis))) < n"
    proof -
      have "card (node_set g - insert v (set (keys vis))) < card (node_set g - set (keys vis))"
        using Suc.prems(2) False by (intro psubset_card_mono) (auto simp: node_set_def)
      with Suc.prems(5) show ?thesis by simp
    qed
    let ?f = "\<lambda>e (s, ranks). rbind (rankVisit n (e_w e) s) (\<lambda>(s1, r). rbind (deref (edgeOfObj e (fst s1))) (\<lambda>l.
              Inr (s1, ranks @ [map_option (\<lambda>r. r - l_minlen l) r])))"
    let ?P = "\<lambda>ys (s, ranks). ranked g rk (insert v S) s \<and> insert v (set (keys vis)) \<subseteq> set (keys (snd s)) \<and>
      (\<forall>e \<in> set ys. e_w e \<in> set (keys (snd s))) \<and> ranks = map (\<lambda>e. Some (rk (e_w e) - minlen g e)) ys"
    have acy: "e_w e \<notin> insert v S" if "e \<in> out_of g v" for e
    proof -
      have a: "(v, e_w e) \<in> arcs g" using that by (auto simp: out_of_def arcs_def)
      have "(s, e_w e) \<in> (arcs g)\<^sup>+" if "s \<in> insert v S" for s using that a Suc.prems(4) by (auto intro: trancl_into_trancl)
      then show ?thesis using g(2) unfolding acyclic_def by blast
    qed
    have "\<exists>p. rfold ?f ?es ((h, put v True vis), []) = Inr p \<and> ?P ?es p"
    proof (rule rfold_prefix_invariant [where P = ?P])
      show "?P [] ((h, put v True vis), [])" using ranked_enter [OF Suc.prems(1,2) False] by auto
    next
      fix ys e zs p assume split: "?es = ys @ e # zs" and P0: "?P ys p"
      obtain h1 vis1 ranks where p: "p = ((h1, vis1), ranks)" by (metis surj_pair)
      have P: "ranked g rk (insert v S) (h1, vis1)" "insert v (set (keys vis)) \<subseteq> set (keys vis1)" "\<forall>e \<in> set ys. e_w e \<in> set (keys vis1)"
        "ranks = map (\<lambda>e. Some (rk (e_w e) - minlen g e)) ys" using P0 unfolding p by simp_all
      have e: "e \<in> out_of g v" using split O1 by auto
      then have eg: "e \<in> set (edges g)" "e_v e = v" by (auto simp: out_of_def)
      have w: "e_w e \<in> node_set g" using edges_ends [OF ok eg(1)] by simp
      have tr: "\<forall>s \<in> insert v S. (s, e_w e) \<in> (arcs g)\<^sup>+"
        using eg Suc.prems(4) by (auto simp: arcs_def intro: trancl_into_trancl r_into_trancl)
      have sub: "node_set g - set (keys vis1) \<subseteq> node_set g - insert v (set (keys vis))" using P(2) by auto
      have c: "card (node_set g - set (keys vis1)) < n"
        by (rule le_less_trans [OF card_mono [OF _ sub] less]) (simp add: node_set_def)
      obtain h2 vis2 where r: "rankVisit n (e_w e) (h1, vis1) = Inr ((h2, vis2), Some (rk (e_w e)))" "ranked g rk (insert v S) (h2, vis2)"
        "set (keys vis1) \<subseteq> set (keys vis2)" "e_w e \<in> set (keys vis2)"
        using Suc.IH [OF P(1) w acy [OF e] tr c] by blast
      have "edgeOfObj e h2 = edgeOfObj e g"
        using rankedD(2) [OF r(2)] same_shapeD(4) [OF rankedD(1) [OF r(2)]] by (simp add: edgeOfObj_def)
      moreover obtain le where "edgeOfObj e g = Some le" using g(1) eg(1) by (auto simp: labelled_def)
      ultimately have "?f e p = Inr ((h2, vis2), ranks @ [Some (rk (e_w e) - minlen g e)])" unfolding p using r(1) by (simp add: minlen_def)
      moreover have "?P (ys @ [e]) ((h2, vis2), ranks @ [Some (rk (e_w e) - minlen g e)])" using r(2-4) P(2-4) by auto
      ultimately show "\<exists>p'. ?f e p = Inr p' \<and> ?P (ys @ [e]) p'" by blast
    qed
    then obtain p where f: "rfold ?f ?es ((h, put v True vis), []) = Inr p" "?P ?es p" by blast
    obtain h1 vis1 ranks where p: "p = ((h1, vis1), ranks)" by (metis surj_pair)
    have P: "ranked g rk (insert v S) (h1, vis1)" "insert v (set (keys vis)) \<subseteq> set (keys vis1)" "\<And>e. e \<in> set ?es \<Longrightarrow> e_w e \<in> set (keys vis1)"
      "ranks = map (\<lambda>e. Some (rk (e_w e) - minlen g e)) ?es" using f(2) unfolding p by simp_all
    have "(case lodash_min ranks of Some r \<Rightarrow> r | None \<Rightarrow> 0) = rk v"
    proof (cases "?es = []")
      case True
      then show ?thesis using P(4) O1 rk unfolding longest_ranks_def by (simp add: lodash_min_def List.map_filter_simps)
    next
      case False
      then have "lodash_min ranks = Some (Min ((\<lambda>e. rk (e_w e) - minlen g e) ` out_of g v))"
        unfolding P(4) by (subst lodash_min_some) (auto simp: image_image O1 [symmetric])
      moreover have "out_of g v \<noteq> {}" using False O1 by auto
      ultimately show ?thesis using rk unfolding longest_ranks_def by simp
    qed
    note rank = this
    have out: "e_w e \<in> set (keys vis1) - insert v S" if "e \<in> out_of g v" for e using acy [OF that] P(3) that O1 by auto
    obtain h' where h': "mutNode (setRank (Some (rk v))) v h1 = Inr h'" "ranked g rk S (h', vis1)"
      using ranked_leave [OF P(1) Suc.prems(3) l out] by blast
    have "rankVisit (Suc n) v (h, vis) = Inr ((h', vis1), Some (rk v))"
      using False f(1) h'(1) unfolding p by (simp add: has_iff rank)
    with h'(2) P(2) show ?thesis by auto
  qed
qed simp

text \<open>A graph with the labels of \<open>g\<close>, up to ranks.\<close>

definition with_ranks :: "layoutGraph \<Rightarrow> (string \<Rightarrow> int) \<Rightarrow> layoutGraph \<Rightarrow> bool" where
  "with_ranks g rk h \<longleftrightarrow> same_shape g h \<and> f_edgeLabels h = f_edgeLabels g \<and> f_label h = f_label g \<and>
     (\<forall>u \<in> node_set g. node u h = map_option (setRank (Some (rk u))) (node u g))"

lemma with_ranksD:
  assumes "with_ranks g rk h"
  shows "same_shape g h" "f_edgeLabels h = f_edgeLabels g" "f_label h = f_label g" "nodes h = nodes g" "edges h = edges g"
    "node_set h = node_set g" and "\<And>e. edgeOfObj e h = edgeOfObj e g"
    and "\<And>u. u \<in> node_set g \<Longrightarrow> node u h = map_option (setRank (Some (rk u))) (node u g)"
  using assms same_shapeD [of g h] unfolding with_ranks_def by (simp_all add: edgeOfObj_def)

lemma sources_reach:
  fixes g :: layoutGraph
  assumes g: "graph_ok g" "acyclic (arcs g)" and V: "set (sources g) \<subseteq> V" "\<And>e. e \<in> set (edges g) \<Longrightarrow> e_v e \<in> V \<Longrightarrow> e_w e \<in> V"
  shows "node_set g \<subseteq> V"
proof
  fix v show "v \<in> node_set g \<Longrightarrow> v \<in> V"
  proof (induction v rule: wf_induct_rule [OF arcs_wf(1) [OF g(2)]])
    case (1 v)
    show ?case
    proof (cases "\<exists>e \<in> set (edges g). e_w e = v")
      case True
      then obtain e where e: "e \<in> set (edges g)" "e_w e = v" by blast
      then have "(e_v e, v) \<in> arcs g" by (auto simp: arcs_def)
      from 1(1) [OF this] edges_ends [OF g(1) e(1)] V(2) [OF e(1)] e(2) show ?thesis by blast
    next
      case False
      then have "v \<in> set (sources g)" using 1(2) sources_spec [OF g(1)] by blast
      with V(1) show ?thesis by blast
    qed
  qed
qed

lemma longestPath_ok:
  assumes g: "labelled g" "acyclic (arcs g)"
  shows "\<exists>h rk. longestPath g = Inr h \<and> longest_ranks g rk \<and> with_ranks g rk h"
proof -
  have ok: "graph_ok g" using g(1) by (simp add: labelled_def)
  obtain rk where rk: "longest_ranks g rk" using longest_ranks_exist [OF g(2)] by blast
  let ?f = "\<lambda>v s. rbind (rankVisit (length (nodes g) + 1) v s) (\<lambda>(s1, _). Inr s1)"
  let ?P = "\<lambda>ys s. ranked g rk {} s \<and> set ys \<subseteq> set (keys (snd s))"
  have "\<exists>s. rfold ?f (sources g) (g, []) = Inr s \<and> ?P (sources g) s"
  proof (rule rfold_prefix_invariant [where P = ?P])
    show "?P [] (g, [])" by (simp add: ranked_def)
  next
    fix ys v zs s assume split: "sources g = ys @ v # zs" and P: "?P ys s"
    obtain h vis where s: "s = (h, vis)" by force
    have "v \<in> set (sources g)" using split by simp
    then have v: "v \<in> node_set g" using sources_spec [OF ok] by blast
    have "card (node_set g - set (keys vis)) < length (nodes g) + 1"
      using card_nodes [OF ok] card_mono [of "node_set g" "node_set g - set (keys vis)"] by (simp add: node_set_def)
    from rankVisit_ok [OF g rk _ v _ _ this, of "{}" h] P s obtain h' vis' where
      "rankVisit (length (nodes g) + 1) v (h, vis) = Inr ((h', vis'), Some (rk v))" "ranked g rk {} (h', vis')"
      "set (keys vis) \<subseteq> set (keys vis')" "v \<in> set (keys vis')" by auto
    then show "\<exists>s'. ?f v s = Inr s' \<and> ?P (ys @ [v]) s'" using P s by auto
  qed
  then obtain h vis where h: "rfold ?f (sources g) (g, []) = Inr (h, vis)" "ranked g rk {} (h, vis)" "set (sources g) \<subseteq> set (keys vis)"
    by auto
  note R = rankedD [OF h(2)]
  have all: "node_set g \<subseteq> set (keys vis)" using sources_reach [OF ok g(2) h(3)] R(7) by blast
  then have "with_ranks g rk h" unfolding with_ranks_def using R(1-3,6) by auto
  with h(1) rk show ?thesis by (auto simp: longestPath_def)
qed

section \<open>Feasible ranks\<close>

definition feasible :: "layoutGraph \<Rightarrow> (string \<Rightarrow> int) \<Rightarrow> bool" where
  "feasible g rk \<longleftrightarrow> (\<forall>e \<in> set (edges g). rk (e_v e) + minlen g e \<le> rk (e_w e))"

lemma longest_ranks_feasible:
  assumes "longest_ranks g rk"
  shows "feasible g rk"
  unfolding feasible_def
proof
  fix e assume "e \<in> set (edges g)"
  then have e: "e \<in> out_of g (e_v e)" by (simp add: out_of_def)
  have "finite (out_of g (e_v e))" by (simp add: out_of_def)
  then have "Min ((\<lambda>e. rk (e_w e) - minlen g e) ` out_of g (e_v e)) \<le> rk (e_w e) - minlen g e" using e by (intro Min_le) auto
  moreover have "rk (e_v e) = Min ((\<lambda>e. rk (e_w e) - minlen g e) ` out_of g (e_v e))"
    using assms e unfolding longest_ranks_def by (metis empty_iff)
  ultimately show "rk (e_v e) + minlen g e \<le> rk (e_w e)" by simp
qed

lemma slack_with_ranks:
  assumes g: "labelled g" and h: "with_ranks g rk h" and e: "e \<in> set (edges g)"
  shows "slack h e = Inr (Some (rk (e_w e) - rk (e_v e) - minlen g e))"
proof -
  note H = with_ranksD [OF h]
  have ends: "e_v e \<in> node_set g" "e_w e \<in> node_set g" using g edges_ends [OF _ e] by (auto simp: labelled_def)
  have "node (e_v e) g \<noteq> None" "node (e_w e) g \<noteq> None" "edgeOfObj e g \<noteq> None" using g ends e by (simp_all add: labelled_def)
  then obtain lv lw le where "node (e_v e) g = Some lv" "node (e_w e) g = Some lw" "edgeOfObj e g = Some le" by blast
  then show ?thesis using H(7) [of e] H(8) [OF ends(1)] H(8) [OF ends(2)] by (simp add: slack_def minlen_def setRank_def)
qed

lemma with_ranks_labelled:
  assumes "labelled g" "with_ranks g rk h"
  shows "labelled h"
  using assms with_ranksD [OF assms(2)] same_shape_ok [OF with_ranksD(1) [OF assms(2)]]
  by (auto simp: labelled_def graph_def)

lemma nodeRanks_ok:
  assumes g: "labelled g" and h: "with_ranks g rk h"
  shows "nodeRanks h = Inr (map (\<lambda>v. Some (rk v)) (nodes g))"
proof -
  note H = with_ranksD [OF h]
  have "rfold (\<lambda>v rs. rbind (deref (node v h)) (\<lambda>l. Inr (rs @ [n_rank l]))) vs rs = Inr (rs @ map (\<lambda>v. Some (rk v)) vs)"
    if "set vs \<subseteq> node_set g" for vs rs
    using that
  proof (induction vs arbitrary: rs)
    case (Cons v vs)
    then obtain l where "node v g = Some l" using g by (auto simp: labelled_def)
    with Cons H(8) [of v] show ?case by (simp add: setRank_def)
  qed simp
  from this [of "nodes g" "[]"] show ?thesis unfolding nodeRanks_def H(4) by (simp add: nodes_set)
qed

lemma normalizeRanks_ok:
  assumes g: "labelled g" and h: "with_ranks g rk h" and ne: "node_set g \<noteq> {}"
  shows "\<exists>k. normalizeRanks h = Inr k \<and> with_ranks g (\<lambda>v. rk v - Min (rk ` node_set g)) k"
proof -
  note H = with_ranksD [OF h]
  let ?m = "Min (rk ` node_set g)"
  have "nodes g \<noteq> []" using ne by (auto simp flip: nodes_set)
  then have m: "lodash_min (map (\<lambda>v. Some (rk v)) (nodes g)) = Some ?m"
    by (subst lodash_min_some) (auto simp: image_image nodes_set)
  let ?f = "\<lambda>l. case n_rank l of None \<Rightarrow> l | Some r \<Rightarrow> setRank (map_option (\<lambda>m. r - m) (Some ?m)) l"
  have lab: "labelled h" using with_ranks_labelled [OF g h] .
  then have ok: "graph_ok h" "\<And>v. v \<in> node_set h \<Longrightarrow> node v h \<noteq> None" by (auto simp: labelled_def)
  obtain k where k: "eachNode ?f h = Inr k" "same_shape h k" "f_edgeLabels k = f_edgeLabels h" "f_label k = f_label h"
    "\<forall>v \<in> node_set h. node v k = map_option ?f (node v h)" using eachNode_ok [OF ok, of ?f] by blast
  have "node u k = map_option (setRank (Some (rk u - ?m))) (node u g)" if u: "u \<in> node_set g" for u
    using k(5) H(6) H(8) [OF u] u by (cases "node u g") (auto simp: setRank_def)
  then have "with_ranks g (\<lambda>v. rk v - ?m) k" unfolding with_ranks_def
    using same_shape_trans [OF H(1) k(2)] k(3,4) H(2,3) by simp
  moreover have "normalizeRanks h = Inr k" unfolding normalizeRanks_def nodeRanks_ok [OF g h] rbind_simps m Let_def by (rule k(1))
  ultimately show ?thesis by blast
qed

section \<open>The ranks of longest paths\<close>

text \<open>C32. \<open>longestPath\<close> (\<open>lib/rank/util\<close>) on a graph without directed cycles: it returns the graph with a rank on every node and
  nothing else changed; a sink has rank \<open>0\<close> and every other node the smallest of the ranks of its successors less the minimal length of
  the edge that leads there; so no edge is shorter than its minimal length.\<close>

theorem longest_paths_rank_the_nodes:
  assumes "labelled g" "acyclic (arcs g)"
  shows "\<exists>h rk. longestPath g = Inr h \<and> with_ranks g rk h \<and>
    (\<forall>v. rk v = (if out_of g v = {} then 0 else Min ((\<lambda>e. rk (e_w e) - minlen g e) ` out_of g v))) \<and>
    (\<forall>e \<in> set (edges g). \<exists>s \<ge> 0. slack h e = Inr (Some s))"
proof -
  obtain h rk where h: "longestPath g = Inr h" "longest_ranks g rk" "with_ranks g rk h" using longestPath_ok [OF assms] by blast
  have "\<exists>s \<ge> 0. slack h e = Inr (Some s)" if "e \<in> set (edges g)" for e
    using slack_with_ranks [OF assms(1) h(3) that] longest_ranks_feasible [OF h(2)] that by (auto simp: feasible_def)
  with h show ?thesis unfolding longest_ranks_def by blast
qed

text \<open>Two nodes and an edge.\<close>

definition exampleDag :: "layoutGraph result" where
  "exampleDag =
     rbind (setNode ''a'' (Some (Some exampleNode)) (setGraph (Some exampleLabel) (newGraph None None None))) (\<lambda>g.
     rbind (setNode ''b'' (Some (Some exampleNode)) g) (\<lambda>g1.
       setEdge ''a'' ''b'' (Some (Some exampleEdge)) None g1))"

lemma exampleDag_ok:
  "\<exists>g. exampleDag = Inr g \<and> labelled g \<and> clean_graph g \<and> node_set g = {''a'', ''b''} \<and> arcs g = {(''a'', ''b'')} \<and>
     \<not> f_isCompound g \<and> (\<forall>x \<in> node_set g. node x g = Some exampleNode)"
proof -
  let ?g0 = "setGraph (Some exampleLabel) (newGraph None None None) :: layoutGraph"
  have "graph_ok (newGraph None None None :: layoutGraph)" by (rule graph_ok_new)
  then have ok: "graph_ok ?g0" by (simp add: setGraph_def graph_ok_def tables_ok_def node_set_def)
  have f0: "f_isDirected ?g0" "\<not> f_isCompound ?g0" "abs_edges ?g0 = Map.empty" "abs_nodes ?g0 = Map.empty" "f_label ?g0 = Some exampleLabel"
    by (simp_all add: setGraph_def newGraph_def edges_def abs_edges_def abs_nodes_def fun_eq_iff)
  obtain g1 where g1: "setNode ''a'' (Some (Some exampleNode)) ?g0 = Inr g1" "graph_ok g1" "same_flags ?g0 g1" "abs_edges g1 = abs_edges ?g0"
    "abs_nodes g1 = (abs_nodes ?g0)(''a'' \<mapsto> Some exampleNode)"
    using setNode_refines [OF ok, of "''a''" "Some (Some exampleNode)"] f0(2) by auto
  have f1: "f_isDirected g1" "\<not> f_isCompound g1" "f_label g1 = Some exampleLabel" using g1(3) f0 by (simp_all add: same_flags_def)
  obtain g2 where g2: "setNode ''b'' (Some (Some exampleNode)) g1 = Inr g2" "graph_ok g2" "same_flags g1 g2" "abs_edges g2 = abs_edges g1"
    "abs_nodes g2 = (abs_nodes g1)(''b'' \<mapsto> Some exampleNode)"
    using setNode_refines [OF g1(2), of "''b''" "Some (Some exampleNode)"] f1(2) by auto
  have f2: "f_isDirected g2" "\<not> f_isCompound g2" "f_label g2 = Some exampleLabel" using g2(3) f1 by (simp_all add: same_flags_def)
  have "set (edges g2) = {}" using dom_abs_edges [OF g2(2)] g2(4) g1(4) f0(3) by simp
  then have c2: "clean_graph g2" by (simp add: clean_graph_def)
  have n2: "node_set g2 = {''a'', ''b''}" using g2(5) g1(5) f0(4) by (auto simp: node_set_abs)
  let ?z = "edgeArgsToObj True ''a'' ''b'' None"
  obtain g where g: "setEdge ''a'' ''b'' (Some (Some exampleEdge)) None g2 = Inr g" "graph_ok g" "clean_graph g" "same_flags g2 g"
    "abs_edges g = (abs_edges g2)(?z \<mapsto> Some exampleEdge)" "node_set g = {''a'', ''b''}"
    "\<forall>x \<in> node_set g2. abs_nodes g x = abs_nodes g2 x"
    using setEdge_refines [OF g2(2) c2, of "''a''" "''b''" None "Some (Some exampleEdge)"] f2(1,2) n2
    by (auto simp: clean_def clean_name_def)
  have E: "set (edges g) = {?z}" using dom_abs_edges [OF g(2)] g(5) g2(4) g1(4) f0(3) by auto
  have "edgeOfObj ?z g = Some exampleEdge" using abs_edge_label [OF g(2), of ?z] E g(5) by simp
  moreover have nd: "node x g = Some exampleNode" if "x \<in> node_set g" for x
  proof -
    have "abs_nodes g x = Some (Some exampleNode)" using that g(6,7) g2(5) g1(5) unfolding n2 by auto
    then show ?thesis by (simp add: node_def abs_nodes_def)
  qed
  moreover have "graph g = Some exampleLabel" using g(4) f2(3) by (simp add: same_flags_def graph_def)
  ultimately have "labelled g" unfolding labelled_def E using g(2) by simp
  moreover have "arcs g = {(''a'', ''b'')}" unfolding arcs_def E by (auto simp: edgeArgsToObj_def)
  moreover have "\<not> f_isCompound g" using g(4) f2(2) by (simp add: same_flags_def)
  ultimately show ?thesis using g1(1) g2(1) g(1,3,6) nd by (auto simp: exampleDag_def)
qed

lemma example_acyclic: "acyclic {(''a'', ''b'')}"
proof (rule acyclicI, intro allI notI)
  fix x assume x: "(x, x) \<in> {(''a'', ''b'')}\<^sup>+"
  obtain y where "(x, y) \<in> {(''a'', ''b'')}" using tranclD [OF x] by blast
  moreover obtain z where "(z, x) \<in> {(''a'', ''b'')}" using tranclD2 [OF x] by blast
  ultimately show False by simp
qed

theorem longest_paths_rank_the_nodes_witness:
  "\<exists>g h rk. exampleDag = Inr g \<and> longestPath g = Inr h \<and> with_ranks g rk h \<and> edges g \<noteq> [] \<and>
     (\<forall>e \<in> set (edges g). \<exists>s \<ge> 0. slack h e = Inr (Some s))"
proof -
  obtain g where g: "exampleDag = Inr g" "labelled g" "arcs g = {(''a'', ''b'')}" using exampleDag_ok by blast
  have "acyclic (arcs g)" unfolding g(3) by (rule example_acyclic)
  moreover have "edges g \<noteq> []" using g(3) by (auto simp: arcs_def)
  ultimately show ?thesis using longest_paths_rank_the_nodes [OF g(2)] g(1) by blast
qed

end
