(* ===== verification/Dagre_Feasible.thy ===== *)
theory Dagre_Feasible
  imports Dagre_Rank Dagre_Greedy
begin

text \<open>
  The spanning tree of tight edges (\<open>lib/rank/feasible-tree\<close>), which the ranker \<open>tight-tree\<close> and the network simplex
  start from, and the rankers \<open>longest-path\<close> and \<open>tight-tree\<close> (\<open>lib/rank\<close>). The theorem: on a connected graph
  without directed cycles the loop ends, the tree spans the graph, all its edges are tight for the new ranks, and
  the ranks still respect the minimal lengths.
\<close>

section \<open>The algorithm\<close>

type_synonym treeGraph = "(unit, unit, unit) Graph"

text \<open>The local \<open>dfs\<close> of \<open>tightTree\<close>; the first argument bounds the depth of the recursion.\<close>

definition otherNode :: "string \<Rightarrow> edgeObj \<Rightarrow> string" where
  "otherNode v e = (if v = e_v e then e_w e else e_v e)"

fun tightDfs :: "nat \<Rightarrow> layoutGraph \<Rightarrow> string \<Rightarrow> treeGraph \<Rightarrow> treeGraph result" where
  "tightDfs 0 g v t = Inl Diverges"
| "tightDfs (Suc n) g v t =
     rfold (\<lambda>e t1.
         let w = otherNode v e
         in if hasNode w t1 then Inr t1
            else rbind (slack g e) (\<lambda>s.
              if s = None \<or> s = Some 0
              then rbind (setNode w (Some (Some ())) t1) (\<lambda>t2.
                   rbind (setEdge v w (Some (Some ())) None t2) (\<lambda>t3.
                     tightDfs n g w t3))
              else Inr t1))
       (each (nodeEdges v None g)) t"

definition tightTree :: "treeGraph \<Rightarrow> layoutGraph \<Rightarrow> (treeGraph \<times> int) result" where
  "tightTree t g = rbind (rfold (tightDfs (length (nodes g) + 1) g) (nodes t) t) (\<lambda>t1. Inr (t1, nodeCount t1))"

text \<open>\<open>_.minBy\<close> over the edges with one end in the tree: the first one with the smallest slack.\<close>

definition lessSlack :: "edgeObj \<Rightarrow> int option \<Rightarrow> (edgeObj \<times> int) option \<Rightarrow> (edgeObj \<times> int) option" where
  "lessSlack e s best =
     (case s of
        None \<Rightarrow> best
      | Some k \<Rightarrow> (case best of
          None \<Rightarrow> Some (e, k)
        | Some (_, b) \<Rightarrow> if k < b then Some (e, k) else best))"

definition findMinSlackEdge :: "treeGraph \<Rightarrow> layoutGraph \<Rightarrow> edgeObj option result" where
  "findMinSlackEdge t g =
     rbind (rfold (\<lambda>e best.
         if hasNode (e_v e) t \<noteq> hasNode (e_w e) t then rbind (slack g e) (\<lambda>s. Inr (lessSlack e s best))
         else Inr best) (edges g) None) (\<lambda>best. Inr (map_option fst best))"

definition addRank :: "int option \<Rightarrow> layoutNode \<Rightarrow> layoutNode" where
  "addRank delta l =
     setRank (case (n_rank l, delta) of (Some r, Some d) \<Rightarrow> Some (r + d) | _ \<Rightarrow> None) l"

definition shiftRanks :: "treeGraph \<Rightarrow> layoutGraph \<Rightarrow> int option \<Rightarrow> layoutGraph result" where
  "shiftRanks t g delta = rfold (mutNode (addRank delta)) (nodes t) g"

text \<open>The loop; the first argument bounds the number of turns.\<close>

fun feasibleLoop :: "nat \<Rightarrow> int \<Rightarrow> treeGraph \<Rightarrow> layoutGraph \<Rightarrow> (treeGraph \<times> layoutGraph) result" where
  "feasibleLoop 0 sz t g = Inl Diverges"
| "feasibleLoop (Suc n) sz t g =
     rbind (tightTree t g) (\<lambda>(t1, count).
       if count < sz
       then rbind (findMinSlackEdge t1 g) (\<lambda>found.
            rbind (deref found) (\<lambda>e.
            rbind (slack g e) (\<lambda>s.
              let delta = (if hasNode (e_v e) t1 then s else map_option uminus s)
              in rbind (shiftRanks t1 g delta) (feasibleLoop n sz t1))))
       else Inr (t1, g))"

definition feasibleTree :: "layoutGraph \<Rightarrow> (treeGraph \<times> layoutGraph) result" where
  "feasibleTree g =
     (let start = (case nodes g of [] \<Rightarrow> ''undefined'' | v # _ \<Rightarrow> v)
      in rbind (setNode start (Some (Some ())) (newGraph (Some False) None None)) (\<lambda>t.
           feasibleLoop (length (nodes g) + 1) (nodeCount g) t g))"

definition longestPathRanker :: "layoutGraph \<Rightarrow> layoutGraph result" where
  "longestPathRanker = longestPath"

definition tightTreeRanker :: "layoutGraph \<Rightarrow> layoutGraph result" where
  "tightTreeRanker g = rbind (longestPath g) (\<lambda>g1. rbind (feasibleTree g1) (\<lambda>(_, g2). Inr g2))"

section \<open>Trees of tight edges\<close>

definition tight :: "layoutGraph \<Rightarrow> (string \<Rightarrow> int) \<Rightarrow> edgeObj \<Rightarrow> bool" where
  "tight g rk e \<longleftrightarrow> rk (e_w e) = rk (e_v e) + minlen g e"

definition joins :: "edgeObj \<Rightarrow> string \<Rightarrow> string \<Rightarrow> bool" where
  "joins e u v \<longleftrightarrow> e_v e = u \<and> e_w e = v \<or> e_v e = v \<and> e_w e = u"

definition tree_graph :: "treeGraph \<Rightarrow> bool" where
  "tree_graph t \<longleftrightarrow> graph_ok t \<and> clean_graph t \<and> \<not> f_isDirected t \<and> \<not> f_isMultigraph t \<and> \<not> f_isCompound t"

text \<open>A tree of tight edges of \<open>g\<close> with the root \<open>r\<close>.\<close>

definition tight_tree :: "layoutGraph \<Rightarrow> (string \<Rightarrow> int) \<Rightarrow> string \<Rightarrow> treeGraph \<Rightarrow> bool" where
  "tight_tree g rk r t \<longleftrightarrow> tree_graph t \<and> node_set t \<subseteq> node_set g \<and> r \<in> node_set t \<and>
     (\<forall>x \<in> node_set t. (r, x) \<in> (links t)\<^sup>*) \<and> card (set (edges t)) + 1 = card (node_set t) \<and>
     (\<forall>z \<in> set (edges t). \<exists>e \<in> set (edges g). joins e (e_v z) (e_w z) \<and> tight g rk e)"

lemma tight_treeD:
  assumes "tight_tree g rk r t"
  shows "tree_graph t" "node_set t \<subseteq> node_set g" "r \<in> node_set t" "\<And>x. x \<in> node_set t \<Longrightarrow> (r, x) \<in> (links t)\<^sup>*"
    "card (set (edges t)) + 1 = card (node_set t)"
    and "\<And>z. z \<in> set (edges t) \<Longrightarrow> \<exists>e \<in> set (edges g). joins e (e_v z) (e_w z) \<and> tight g rk e"
  using assms unfolding tight_tree_def by blast+

lemma tight_treeI:
  assumes "tree_graph t" "node_set t \<subseteq> node_set g" "r \<in> node_set t" "\<And>x. x \<in> node_set t \<Longrightarrow> (r, x) \<in> (links t)\<^sup>*"
    "card (set (edges t)) + 1 = card (node_set t)"
    and "\<And>z. z \<in> set (edges t) \<Longrightarrow> \<exists>e \<in> set (edges g). joins e (e_v z) (e_w z) \<and> tight g rk e"
  shows "tight_tree g rk r t"
  unfolding tight_tree_def using assms by blast

lemma tree_graphD:
  assumes "tree_graph t"
  shows "graph_ok t" "clean_graph t" "\<not> f_isDirected t" "\<not> f_isMultigraph t" "\<not> f_isCompound t"
  using assms by (simp_all add: tree_graph_def)

lemma joins_other: "e_v e = v \<or> e_w e = v \<Longrightarrow> joins e v (otherNode v e)"
  by (auto simp: joins_def otherNode_def)

text \<open>Growing the tree by one tight edge.\<close>

lemma add_leaf:
  assumes t: "tight_tree g rk r t" and v: "v \<in> node_set t" and w: "w \<in> node_set g" "w \<notin> node_set t" and cl: "clean v" "clean w"
    and e: "e \<in> set (edges g)" "joins e v w" "tight g rk e"
  shows "\<exists>t'. rbind (setNode w (Some (Some ())) t) (\<lambda>t2. setEdge v w (Some (Some ())) None t2) = Inr t' \<and>
    tight_tree g rk r t' \<and> node_set t' = insert w (node_set t)"
proof -
  note T = tight_treeD [OF t] note G = tree_graphD [OF T(1)]
  obtain t2 where t2: "setNode w (Some (Some ())) t = Inr t2" "graph_ok t2" "same_flags t t2" "abs_edges t2 = abs_edges t"
    "abs_nodes t2 = (abs_nodes t)(w \<mapsto> Some ())" using setNode_refines [OF G(1), of w "Some (Some ())"] G(5) by auto
  have E2: "set (edges t2) = set (edges t)" using dom_abs_edges [OF t2(2)] dom_abs_edges [OF G(1)] t2(4) by simp
  have n2: "node_set t2 = insert w (node_set t)" using t2(5) by (simp add: node_set_abs)
  have f2: "clean_graph t2" "\<not> f_isDirected t2" "\<not> f_isMultigraph t2" "\<not> f_isCompound t2"
    using E2 t2(3) G by (simp_all add: clean_graph_def same_flags_def)
  let ?z = "edgeArgsToObj False v w None"
  obtain t' where t': "setEdge v w (Some (Some ())) None t2 = Inr t'" "graph_ok t'" "clean_graph t'" "same_flags t2 t'"
    "abs_edges t' = (abs_edges t2)(?z \<mapsto> Some ())" "node_set t' = insert v (insert w (node_set t2))"
    using setEdge_refines [OF t2(2) f2(1) cl, of None "Some (Some ())"] f2(2-4) by (auto simp: clean_name_def)
  have n': "node_set t' = insert w (node_set t)" using t'(6) n2 v by auto
  have E': "set (edges t') = insert ?z (set (edges t))" using dom_abs_edges [OF t'(2)] dom_abs_edges [OF t2(2)] E2 t'(5) by auto
  have zj: "joins ?z v w" by (auto simp: joins_def edgeArgsToObj_def)
  have znew: "?z \<notin> set (edges t)" using edges_ends [OF G(1), of ?z] zj w(2) by (auto simp: joins_def)
  have "(e_v ?z, e_w ?z) \<in> arcs t'" using E' by (auto simp: arcs_def)
  then have "(v, w) \<in> links t'" using zj by (auto simp: links_def joins_def)
  moreover have "links t \<subseteq> links t'" using E' by (auto simp: links_def arcs_def)
  ultimately have links: "links t \<subseteq> links t'" "(v, w) \<in> links t'" by simp_all
  have "(r, x) \<in> (links t')\<^sup>*" if "x \<in> node_set t'" for x
  proof (cases "x = w")
    case True
    have "(r, v) \<in> (links t')\<^sup>*" using T(4) [OF v] rtrancl_mono [OF links(1)] by blast
    with links(2) True show ?thesis by (auto intro: rtrancl_into_rtrancl)
  next
    case False
    then have "x \<in> node_set t" using that n' by simp
    from T(4) [OF this] rtrancl_mono [OF links(1)] show ?thesis by blast
  qed
  moreover have "card (set (edges t')) + 1 = card (node_set t')"
    unfolding E' n' using T(5) znew w(2) by (simp add: node_set_def)
  moreover have "\<exists>e \<in> set (edges g). joins e (e_v z) (e_w z) \<and> tight g rk e" if "z \<in> set (edges t')" for z
  proof (cases "z = ?z")
    case True
    then have "joins e (e_v z) (e_w z)" using e(2) zj by (auto simp: joins_def)
    with e show ?thesis by blast
  next
    case False
    with that E' T(6) show ?thesis by blast
  qed
  moreover have "tree_graph t'" unfolding tree_graph_def using t'(2-4) f2 by (simp add: same_flags_def)
  ultimately have "tight_tree g rk r t'" 
    by (intro tight_treeI) (use n' T(2,3) w(1) in auto)
  with t2(1) t'(1) n' show ?thesis by auto
qed

text \<open>All tight edges at \<open>v\<close> stay inside the tree.\<close>

definition settled :: "layoutGraph \<Rightarrow> (string \<Rightarrow> int) \<Rightarrow> treeGraph \<Rightarrow> string \<Rightarrow> bool" where
  "settled g rk t v \<longleftrightarrow> (\<forall>e \<in> set (edges g). (e_v e = v \<or> e_w e = v) \<and> tight g rk e \<longrightarrow> otherNode v e \<in> node_set t)"

lemma settled_mono: "settled g rk t v \<Longrightarrow> node_set t \<subseteq> node_set t' \<Longrightarrow> settled g rk t' v"
  unfolding settled_def by blast

lemma each_nodeEdges:
  fixes g :: layoutGraph
  assumes "graph_ok g" "v \<in> node_set g"
  shows "set (each (nodeEdges v None g)) = {e \<in> set (edges g). e_v e = v \<or> e_w e = v}"
proof -
  obtain ins outs where "inEdges v None g = Some ins" "set ins = {e \<in> set (edges g). e_w e = v}"
    "outEdges v None g = Some outs" "set outs = {e \<in> set (edges g). e_v e = v}"
    using inEdges_spec [OF assms] outEdges_spec [OF assms] by blast
  then show ?thesis by (auto simp: nodeEdges_def each_def)
qed

lemma in_tree_iff: "hasNode v g \<longleftrightarrow> v \<in> node_set g"
  by (simp add: hasNode_def has_iff node_set_def)

lemma tightDfs_ok:
  assumes g: "labelled g" "clean_graph g" and h: "with_ranks g rk h"
  shows "tight_tree g rk r t \<Longrightarrow> v \<in> node_set t \<Longrightarrow> card (node_set g - node_set t) < n \<Longrightarrow>
    \<exists>t'. tightDfs n h v t = Inr t' \<and> tight_tree g rk r t' \<and> node_set t \<subseteq> node_set t' \<and> settled g rk t' v \<and>
      (\<forall>u \<in> node_set t' - node_set t. settled g rk t' u)"
proof (induction n arbitrary: v t)
  case (Suc n)
  note H = with_ranksD [OF h] and T = tight_treeD [OF Suc.prems(1)]
  have ok: "graph_ok g" using g(1) by (simp add: labelled_def)
  have v: "v \<in> node_set g" using T(2) Suc.prems(2) by blast
  let ?es = "each (nodeEdges v None h)"
  have "nodeEdges v None h = nodeEdges v None g"
    using H(1) by (cases g; cases h) (simp add: same_shape_def nodeEdges_def inEdges_def outEdges_def)
  then have es: "set ?es = {e \<in> set (edges g). e_v e = v \<or> e_w e = v}" using each_nodeEdges [OF ok v] by simp
  let ?f = "\<lambda>e t1. let w = otherNode v e in if hasNode w t1 then Inr t1 else rbind (slack h e) (\<lambda>s.
      if s = None \<or> s = Some 0 then rbind (setNode w (Some (Some ())) t1) (\<lambda>t2. rbind (setEdge v w (Some (Some ())) None t2) (\<lambda>t3.
        tightDfs n h w t3)) else Inr t1)"
  let ?P = "\<lambda>ys t1. tight_tree g rk r t1 \<and> node_set t \<subseteq> node_set t1 \<and> (\<forall>u \<in> node_set t1 - node_set t. settled g rk t1 u) \<and>
    (\<forall>e \<in> set ys. tight g rk e \<longrightarrow> otherNode v e \<in> node_set t1)"
  have "\<exists>t'. rfold ?f ?es t = Inr t' \<and> ?P ?es t'"
  proof (rule rfold_prefix_invariant [where P = ?P])
    show "?P [] t" using Suc.prems(1) by simp
  next
    fix ys e zs t1 assume split: "?es = ys @ e # zs" and P0: "?P ys t1"
    then have P: "tight_tree g rk r t1" "node_set t \<subseteq> node_set t1" "\<And>u. u \<in> node_set t1 - node_set t \<Longrightarrow> settled g rk t1 u"
      "\<And>e. e \<in> set ys \<Longrightarrow> tight g rk e \<Longrightarrow> otherNode v e \<in> node_set t1" by blast+
    have e: "e \<in> set (edges g)" "e_v e = v \<or> e_w e = v" using split es by auto
    let ?w = "otherNode v e"
    have sl: "slack h e = Inr (Some (rk (e_w e) - rk (e_v e) - minlen g e))" using slack_with_ranks [OF g(1) h e(1)] .
    show "\<exists>t2. ?f e t1 = Inr t2 \<and> ?P (ys @ [e]) t2"
    proof (cases "?w \<in> node_set t1 \<or> \<not> tight g rk e")
      case True
      then have "?f e t1 = Inr t1" using sl by (auto simp: in_tree_iff tight_def Let_def)
      moreover have "?P (ys @ [e]) t1" using P0 True by auto
      ultimately show ?thesis by blast
    next
      case False
      have ends: "e_v e \<in> node_set g" "e_w e \<in> node_set g" using edges_ends [OF ok e(1)] by simp_all
      have ce: "clean (e_v e)" "clean (e_w e)" using g(2) e(1) by (simp_all add: clean_graph_def clean_edge_def)
      then have w: "?w \<in> node_set g" "?w \<notin> node_set t1" "clean v" "clean ?w"
        using False ends e(2) by (auto simp: otherNode_def)
      have v1: "v \<in> node_set t1" using P(2) Suc.prems(2) by blast
      obtain t3 where t3: "rbind (setNode ?w (Some (Some ())) t1) (\<lambda>t2. setEdge v ?w (Some (Some ())) None t2) = Inr t3"
        "tight_tree g rk r t3" "node_set t3 = insert ?w (node_set t1)"
        using add_leaf [OF P(1) v1 w e(1) joins_other [OF e(2)]] False by blast
      have "card (node_set g - node_set t3) < card (node_set g - node_set t)"
        using t3(3) w(1,2) P(2) by (intro psubset_card_mono) (auto simp: node_set_def)
      then have "card (node_set g - node_set t3) < n" using Suc.prems(3) by simp
      then obtain t4 where t4: "tightDfs n h ?w t3 = Inr t4" "tight_tree g rk r t4" "node_set t3 \<subseteq> node_set t4" "settled g rk t4 ?w"
        "\<forall>u \<in> node_set t4 - node_set t3. settled g rk t4 u"
        using Suc.IH [OF t3(2), of ?w] t3(3) by blast
      have s0: "slack h e = Inr (Some 0)" using sl False by (simp add: tight_def)
      obtain t2 where t2: "setNode ?w (Some (Some ())) t1 = Inr t2" "setEdge v ?w (Some (Some ())) None t2 = Inr t3"
        using t3(1) unfolding rbind_Inr_iff by blast
      have "?f e t1 = Inr t4" using w(2) by (simp add: in_tree_iff s0 t2 t4(1))
      moreover have "settled g rk t4 u" if u4: "u \<in> node_set t4 - node_set t" for u
      proof -
        consider "u \<in> node_set t1 - node_set t" | "u = ?w" | "u \<in> node_set t4 - node_set t3" using u4 t3(3) by blast
        then show ?thesis
        proof cases
          case 1
          have "node_set t1 \<subseteq> node_set t4" using t3(3) t4(3) by auto
          then show ?thesis by (rule settled_mono [OF P(3) [OF 1]])
        qed (use t4(4,5) in simp_all)
      qed
      moreover have "otherNode v x \<in> node_set t4" if "x \<in> set (ys @ [e])" "tight g rk x" for x
        using that P(4) t3(3) t4(3) by auto
      ultimately show ?thesis using t4(2,3) t3(3) P(2) by blast
    qed
  qed
  then obtain t' where t': "rfold ?f ?es t = Inr t'" "?P ?es t'" by blast
  then have "settled g rk t' v" unfolding settled_def using es by blast
  with t' show ?case by auto
qed simp

lemma tightTree_ok:
  assumes g: "labelled g" "clean_graph g" and h: "with_ranks g rk h" and t: "tight_tree g rk r t"
  shows "\<exists>t'. tightTree t h = Inr (t', int (card (node_set t'))) \<and> tight_tree g rk r t' \<and> node_set t \<subseteq> node_set t' \<and>
    (\<forall>u \<in> node_set t'. settled g rk t' u)"
proof -
  note H = with_ranksD [OF h]
  have ok: "graph_ok g" using g(1) by (simp add: labelled_def)
  let ?P = "\<lambda>ys t1. tight_tree g rk r t1 \<and> node_set t \<subseteq> node_set t1 \<and> (\<forall>u \<in> node_set t1 - node_set t \<union> set ys. settled g rk t1 u)"
  have "\<exists>t'. rfold (tightDfs (length (nodes h) + 1) h) (nodes t) t = Inr t' \<and> ?P (nodes t) t'"
  proof (rule rfold_prefix_invariant [where P = ?P])
    show "?P [] t" using t by simp
  next
    fix ys v zs t1 assume split: "nodes t = ys @ v # zs" and P: "?P ys t1"
    have "v \<in> set (nodes t)" using split by simp
    then have v: "v \<in> node_set t1" using P by (auto simp: nodes_set)
    have "card (node_set g - node_set t1) < length (nodes h) + 1"
      using card_nodes [OF ok] card_mono [of "node_set g" "node_set g - node_set t1"] H(4) by (simp add: node_set_def)
    then obtain t2 where t2: "tightDfs (length (nodes h) + 1) h v t1 = Inr t2" "tight_tree g rk r t2" "node_set t1 \<subseteq> node_set t2"
      "settled g rk t2 v" "\<forall>u \<in> node_set t2 - node_set t1. settled g rk t2 u"
      using tightDfs_ok [OF g h conjunct1 [OF P] v] by blast
    have "settled g rk t2 u" if "u \<in> node_set t2 - node_set t \<union> set (ys @ [v])" for u
      using that P t2(3-5) settled_mono [of g rk t1 u t2] by auto
    with t2 P show "\<exists>t2. tightDfs (length (nodes h) + 1) h v t1 = Inr t2 \<and> ?P (ys @ [v]) t2" by blast
  qed
  then obtain t' where t': "rfold (tightDfs (length (nodes h) + 1) h) (nodes t) t = Inr t'" "tight_tree g rk r t'" "node_set t \<subseteq> node_set t'"
    "\<forall>u \<in> node_set t'. settled g rk t' u" unfolding nodes_set by blast
  then show ?thesis using nodeCount_card [OF tree_graphD(1) [OF tight_treeD(1) [OF t'(2)]]] by (auto simp: tightTree_def)
qed

section \<open>Moving the tree\<close>

definition crossing :: "treeGraph \<Rightarrow> edgeObj \<Rightarrow> bool" where
  "crossing t e \<longleftrightarrow> (e_v e \<in> node_set t) \<noteq> (e_w e \<in> node_set t)"

definition slack_of :: "layoutGraph \<Rightarrow> (string \<Rightarrow> int) \<Rightarrow> edgeObj \<Rightarrow> int" where
  "slack_of g rk e = rk (e_w e) - rk (e_v e) - minlen g e"

lemma findMinSlackEdge_ok:
  assumes g: "labelled g" and h: "with_ranks g rk h" and ex: "e0 \<in> set (edges g)" "crossing t e0"
  shows "\<exists>e \<in> set (edges g). findMinSlackEdge t h = Inr (Some e) \<and> crossing t e \<and>
    (\<forall>x \<in> set (edges g). crossing t x \<longrightarrow> slack_of g rk e \<le> slack_of g rk x)"
proof -
  let ?f = "\<lambda>e best. if hasNode (e_v e) t \<noteq> hasNode (e_w e) t then rbind (slack h e) (\<lambda>s. Inr (lessSlack e s best)) else Inr best"
  let ?P = "\<lambda>ys best. case best of None \<Rightarrow> \<forall>x \<in> set ys. \<not> crossing t x
    | Some (e, k) \<Rightarrow> e \<in> set ys \<and> crossing t e \<and> k = slack_of g rk e \<and> (\<forall>x \<in> set ys. crossing t x \<longrightarrow> k \<le> slack_of g rk x)"
  have "\<exists>best. rfold ?f (edges h) None = Inr best \<and> ?P (edges h) best"
  proof (rule rfold_prefix_invariant [where P = ?P])
    fix ys e zs best assume split: "edges h = ys @ e # zs" and P: "?P ys best"
    have "e \<in> set (edges g)" using split with_ranksD(5) [OF h] by simp
    from slack_with_ranks [OF g h this] have sl: "slack h e = Inr (Some (slack_of g rk e))" by (simp add: slack_of_def)
    show "\<exists>best'. ?f e best = Inr best' \<and> ?P (ys @ [e]) best'"
    proof (cases "crossing t e")
      case False
      then show ?thesis using P by (auto simp: crossing_def in_tree_iff split: option.splits)
    next
      case True
      then have "?f e best = Inr (lessSlack e (Some (slack_of g rk e)) best)" using sl by (simp add: crossing_def in_tree_iff)
      moreover have "?P (ys @ [e]) (lessSlack e (Some (slack_of g rk e)) best)"
        using P True by (auto simp: lessSlack_def split: option.splits)
      ultimately show ?thesis by blast
    qed
  qed simp
  then obtain best where b: "rfold ?f (edges h) None = Inr best" "?P (edges g) best" unfolding with_ranksD(5) [OF h] by blast
  then obtain e k where "best = Some (e, k)" using ex by (cases best) auto
  with b show ?thesis by (intro bexI [of _ e]) (auto simp: findMinSlackEdge_def)
qed

definition shifted :: "treeGraph \<Rightarrow> int \<Rightarrow> (string \<Rightarrow> int) \<Rightarrow> string \<Rightarrow> int" where
  "shifted t d rk x = (if x \<in> node_set t then rk x + d else rk x)"

lemma shiftRanks_ok:
  assumes g: "labelled g" and h: "with_ranks g rk h" and t: "graph_ok t" "node_set t \<subseteq> node_set g"
  shows "\<exists>k. shiftRanks t h (Some d) = Inr k \<and> with_ranks g (shifted t d rk) k"
proof -
  let ?P = "\<lambda>ys k. with_ranks g (\<lambda>x. if x \<in> set ys then rk x + d else rk x) k"
  have "\<exists>k. rfold (mutNode (addRank (Some d))) (nodes t) h = Inr k \<and> ?P (nodes t) k"
  proof (rule rfold_prefix_invariant [where P = ?P])
    show "?P [] h" using h by simp
  next
    fix ys v zs k assume split: "nodes t = ys @ v # zs" and P: "?P ys k"
    note K = with_ranksD [OF P]
    have "v \<in> set (nodes t)" "v \<notin> set ys" using split distinct_nodes [OF t(1)] by auto
    then have v: "v \<in> node_set g" "v \<notin> set ys" using t(2) by (auto simp: nodes_set)
    obtain l where l: "node v g = Some l" using g v(1) by (auto simp: labelled_def)
    have "node v k = Some (setRank (Some (rk v)) l)" using K(8) [OF v(1)] l v(2) by simp
    then obtain k' where k': "mutNode (addRank (Some d)) v k = Inr k'" "same_shape k k'" "f_edgeLabels k' = f_edgeLabels k"
      "f_label k' = f_label k" "node v k' = Some (addRank (Some d) (setRank (Some (rk v)) l))" "\<forall>w. w \<noteq> v \<longrightarrow> node w k' = node w k"
      using mutNode_ok [of v k _ "addRank (Some d)"] v(1) K(6) by blast
    have "node u k' = map_option (setRank (Some (if u \<in> set (ys @ [v]) then rk u + d else rk u))) (node u g)" if u: "u \<in> node_set g" for u
    proof (cases "u = v")
      case True
      then show ?thesis using k'(5) l by (simp add: addRank_def setRank_def)
    next
      case False
      then show ?thesis using k'(6) K(8) [OF u] by simp
    qed
    then have "?P (ys @ [v]) k'" unfolding with_ranks_def
      using same_shape_trans [OF K(1) k'(2)] k'(3,4) K(2,3) by simp
    with k'(1) show "\<exists>k'. mutNode (addRank (Some d)) v k = Inr k' \<and> ?P (ys @ [v]) k'" by blast
  qed
  then obtain k where k: "rfold (mutNode (addRank (Some d))) (nodes t) h = Inr k" "?P (nodes t) k" by blast
  then have "with_ranks g (shifted t d rk) k" unfolding with_ranks_def by (simp add: shifted_def nodes_set)
  with k(1) show ?thesis by (simp add: shiftRanks_def)
qed

text \<open>The move makes the chosen edge tight, keeps the tree tight and the ranks feasible.\<close>

lemma shift_facts:
  assumes f: "feasible g rk" and t: "tight_tree g rk r t" and e: "e \<in> set (edges g)" "crossing t e"
    and least: "\<forall>x \<in> set (edges g). crossing t x \<longrightarrow> slack_of g rk e \<le> slack_of g rk x"
  defines "d \<equiv> if e_v e \<in> node_set t then slack_of g rk e else - slack_of g rk e"
  shows "feasible g (shifted t d rk)" "tight_tree g (shifted t d rk) r t" "tight g (shifted t d rk) e"
proof -
  note T = tight_treeD [OF t]
  have pos: "0 \<le> slack_of g rk x" if "x \<in> set (edges g)" for x using f that by (auto simp: feasible_def slack_of_def)
  have "shifted t d rk (e_v x) + minlen g x \<le> shifted t d rk (e_w x)" if x: "x \<in> set (edges g)" for x
  proof (cases "crossing t x")
    case True
    with least x pos [OF e(1)] pos [OF x] have "slack_of g rk e \<le> slack_of g rk x" "0 \<le> slack_of g rk e" "0 \<le> slack_of g rk x" by auto
    with True show ?thesis by (auto simp: crossing_def shifted_def d_def slack_of_def)
  next
    case False
    with pos [OF x] show ?thesis by (auto simp: crossing_def shifted_def slack_of_def)
  qed
  then show "feasible g (shifted t d rk)" by (simp add: feasible_def)
  show "tight g (shifted t d rk) e" using e(2) by (auto simp: tight_def shifted_def d_def crossing_def slack_of_def)
  have "\<exists>x \<in> set (edges g). joins x (e_v z) (e_w z) \<and> tight g (shifted t d rk) x" if z: "z \<in> set (edges t)" for z
  proof -
    obtain x where x: "x \<in> set (edges g)" "joins x (e_v z) (e_w z)" "tight g rk x" using T(6) [OF z] by blast
    have "e_v z \<in> node_set t" "e_w z \<in> node_set t" using edges_ends [OF tree_graphD(1) [OF T(1)] z] by simp_all
    with x show ?thesis by (intro bexI [of _ x]) (auto simp: joins_def tight_def shifted_def)
  qed
  then show "tight_tree g (shifted t d rk) r t" by (intro tight_treeI T)
qed

text \<open>In a connected graph some edge leaves a tree that does not span it.\<close>

lemma crossing_exists:
  fixes g :: layoutGraph
  assumes "(r, x) \<in> (links g)\<^sup>*" "r \<in> node_set t" "x \<notin> node_set t"
  shows "\<exists>e \<in> set (edges g). crossing t e"
  using assms(1,3)
proof (induction rule: rtrancl_induct)
  case base
  with assms(2) show ?case by simp
next
  case (step y z)
  show ?case
  proof (cases "y \<in> node_set t")
    case True
    from step(2) obtain e where "e \<in> set (edges g)" "joins e y z" by (auto simp: links_def arcs_def joins_def)
    with True step.prems show ?thesis by (auto simp: crossing_def joins_def)
  next
    case False
    with step.IH show ?thesis by blast
  qed
qed

lemma settled_crossing:
  assumes s: "\<forall>u \<in> node_set t'. settled g rk t' u" and sub: "node_set t \<subseteq> node_set t'"
    and e: "e \<in> set (edges g)" "crossing t e" "tight g rk e"
  shows "node_set t \<subset> node_set t'"
proof -
  obtain u where u: "u \<in> node_set t" "e_v e = u \<or> e_w e = u" "otherNode u e \<notin> node_set t"
    using e(2) by (cases "e_v e \<in> node_set t") (auto simp: crossing_def otherNode_def)
  then have "otherNode u e \<in> node_set t'" using s sub e(1,3) unfolding settled_def by blast
  with u(3) sub show ?thesis by blast
qed

definition spans :: "layoutGraph \<Rightarrow> (string \<Rightarrow> int) \<Rightarrow> string \<Rightarrow> treeGraph \<Rightarrow> bool" where
  "spans g rk r t \<longleftrightarrow> tight_tree g rk r t \<and> node_set t = node_set g"

lemma feasibleLoop_ok:
  assumes g: "labelled g" "clean_graph g" and conn: "\<And>x. x \<in> node_set g \<Longrightarrow> (r, x) \<in> (links g)\<^sup>*"
  shows "with_ranks g rk h \<Longrightarrow> feasible g rk \<Longrightarrow> tight_tree g rk r t \<Longrightarrow>
    card (node_set g) < n + card (node_set t) + (if \<exists>e \<in> set (edges g). crossing t e \<and> tight g rk e then 1 else 0) \<Longrightarrow>
    \<exists>t' h' rk'. feasibleLoop n (nodeCount g) t h = Inr (t', h') \<and> with_ranks g rk' h' \<and> feasible g rk' \<and> spans g rk' r t'"
proof (induction n arbitrary: rk h t)
  case 0
  have T: "node_set t \<subseteq> node_set g" using tight_treeD(2) [OF 0(3)] .
  have fin: "finite (node_set g)" by (simp add: node_set_def)
  show ?case
  proof (cases "\<exists>e \<in> set (edges g). crossing t e \<and> tight g rk e")
    case True
    have "graph_ok g" using g(1) by (simp add: labelled_def)
    with True obtain x where "x \<in> node_set g" "x \<notin> node_set t" using edges_ends [of g] by (auto simp: crossing_def)
    with T have "node_set t \<subset> node_set g" by blast
    from psubset_card_mono [OF fin this] 0(4) True show ?thesis by simp
  next
    case False
    with 0(4) card_mono [OF fin T] show ?thesis by simp
  qed
next
  case (Suc n)
  have ok: "graph_ok g" using g(1) by (simp add: labelled_def)
  have fin: "finite (node_set g)" by (simp add: node_set_def)
  obtain t1 where t1: "tightTree t h = Inr (t1, int (card (node_set t1)))" "tight_tree g rk r t1" "node_set t \<subseteq> node_set t1"
    "\<forall>u \<in> node_set t1. settled g rk t1 u" using tightTree_ok [OF g Suc.prems(1,3)] by blast
  note T = tight_treeD [OF t1(2)]
  have count: "nodeCount g = int (card (node_set g))" using nodeCount_card [OF ok] .
  show ?case
  proof (cases "node_set t1 = node_set g")
    case True
    then have "feasibleLoop (Suc n) (nodeCount g) t h = Inr (t1, h)" using t1(1) count by simp
    with True t1(2) Suc.prems(1,2) show ?thesis unfolding spans_def by blast
  next
    case False
    then have lt: "card (node_set t1) < card (node_set g)" using T(2) fin by (simp add: psubset_card_mono psubset_eq)
    obtain x where "x \<in> node_set g" "x \<notin> node_set t1" using False T(2) by blast
    then obtain e0 where e0: "e0 \<in> set (edges g)" "crossing t1 e0" using crossing_exists [OF conn T(3)] by blast
    obtain e where e: "e \<in> set (edges g)" "findMinSlackEdge t1 h = Inr (Some e)" "crossing t1 e"
      "\<forall>x \<in> set (edges g). crossing t1 x \<longrightarrow> slack_of g rk e \<le> slack_of g rk x"
      using findMinSlackEdge_ok [OF g(1) Suc.prems(1) e0] by blast
    define d where "d = (if e_v e \<in> node_set t1 then slack_of g rk e else - slack_of g rk e)"
    note S = shift_facts [OF Suc.prems(2) t1(2) e(1,3,4), folded d_def]
    obtain k where k: "shiftRanks t1 h (Some d) = Inr k" "with_ranks g (shifted t1 d rk) k"
      using shiftRanks_ok [OF g(1) Suc.prems(1) tree_graphD(1) [OF T(1)] T(2)] by blast
    have sl: "slack h e = Inr (Some (slack_of g rk e))" using slack_with_ranks [OF g(1) Suc.prems(1) e(1)] by (simp add: slack_of_def)
    then have "(if hasNode (e_v e) t1 then Some (slack_of g rk e) else map_option uminus (Some (slack_of g rk e))) = Some d"
      by (simp add: in_tree_iff d_def)
    with t1(1) lt count e(2) sl k(1) have step: "feasibleLoop (Suc n) (nodeCount g) t h = feasibleLoop n (nodeCount g) t1 k" by simp
    have "card (node_set t) + (if \<exists>e \<in> set (edges g). crossing t e \<and> tight g rk e then 1 else 0) \<le> card (node_set t1)"
    proof (cases "\<exists>e \<in> set (edges g). crossing t e \<and> tight g rk e")
      case True
      then have "node_set t \<subset> node_set t1" using settled_crossing [OF t1(4,3)] by blast
      then have "card (node_set t) < card (node_set t1)" by (rule psubset_card_mono [rotated]) (simp add: node_set_def)
      with True show ?thesis by simp
    next
      case False
      then have z: "(if \<exists>e \<in> set (edges g). crossing t e \<and> tight g rk e then 1 else 0) = (0 :: nat)" by (simp only: if_False)
      show ?thesis unfolding z using card_mono [OF _ t1(3)] by (simp add: node_set_def)
    qed
    moreover have "\<exists>e \<in> set (edges g). crossing t1 e \<and> tight g (shifted t1 d rk) e" using e(1,3) S(3) by blast
    then have o: "(if \<exists>e \<in> set (edges g). crossing t1 e \<and> tight g (shifted t1 d rk) e then 1 else 0) = (1 :: nat)" by (simp only: if_True)
    ultimately have "card (node_set g) < n + card (node_set t1) + (if \<exists>e \<in> set (edges g). crossing t1 e \<and> tight g (shifted t1 d rk) e then 1 else 0)"
      using Suc.prems(4) unfolding o by linarith
    from Suc.IH [OF k(2) S(1,2) this] show ?thesis unfolding step .
  qed
qed

section \<open>The spanning tree\<close>

definition connected :: "layoutGraph \<Rightarrow> bool" where
  "connected g \<longleftrightarrow> (\<forall>x \<in> node_set g. \<forall>y \<in> node_set g. (x, y) \<in> (links g)\<^sup>*)"

lemma feasibleTree_ok:
  assumes g: "labelled g" "clean_graph g" "connected g" "node_set g \<noteq> {}" and h: "with_ranks g rk h" "feasible g rk"
  shows "\<exists>t h' rk' r. feasibleTree h = Inr (t, h') \<and> with_ranks g rk' h' \<and> feasible g rk' \<and> spans g rk' r t"
proof -
  note H = with_ranksD [OF h(1)]
  have ok: "graph_ok g" using g(1) by (simp add: labelled_def)
  obtain r rs where r: "nodes g = r # rs" using g(4) by (cases "nodes g") (auto simp flip: nodes_set)
  then have rg: "r \<in> node_set g" by (simp flip: nodes_set)
  let ?t0 = "newGraph (Some False) None None :: treeGraph"
  have t0: "graph_ok ?t0" "\<not> f_isDirected ?t0" "\<not> f_isMultigraph ?t0" "\<not> f_isCompound ?t0" "abs_edges ?t0 = Map.empty" "abs_nodes ?t0 = Map.empty"
    by (simp_all add: graph_ok_new) (simp_all add: newGraph_def abs_edges_def abs_nodes_def edges_def fun_eq_iff)
  obtain t where t: "setNode r (Some (Some ())) ?t0 = Inr t" "graph_ok t" "same_flags ?t0 t" "abs_edges t = abs_edges ?t0"
    "abs_nodes t = (abs_nodes ?t0)(r \<mapsto> Some ())" using setNode_refines [OF t0(1), of r "Some (Some ())"] t0(4) by auto
  have E: "set (edges t) = {}" using dom_abs_edges [OF t(2)] t(4) t0(5) by simp
  have n: "node_set t = {r}" using t(5) t0(6) by (simp add: node_set_abs)
  have "tree_graph t" unfolding tree_graph_def clean_graph_def E using t(2,3) t0(2-4) by (simp add: same_flags_def)
  then have tt: "tight_tree g rk r t" unfolding tight_tree_def n E using rg by simp
  have "card (node_set g) < (length (nodes h) + 1) + card (node_set t) + (if \<exists>e \<in> set (edges g). crossing t e \<and> tight g rk e then 1 else 0)"
    using card_nodes [OF ok] H(4) by simp
  from feasibleLoop_ok [OF g(1,2) _ h tt this] g(3) rg obtain t' h' rk' where
    l: "feasibleLoop (length (nodes h) + 1) (nodeCount g) t h = Inr (t', h')" "with_ranks g rk' h'" "feasible g rk'" "spans g rk' r t'"
    unfolding connected_def by blast
  have "nodeCount h = nodeCount g"
    using nodeCount_card [OF ok] nodeCount_card [OF same_shape_ok [OF H(1) ok]] H(6) by simp
  then have "feasibleTree h = Inr (t', h')" unfolding feasibleTree_def H(4) r using t(1) l(1) H(4) r by simp
  with l(2-4) show ?thesis by blast
qed

text \<open>C33. The ranker \<open>tight-tree\<close> (\<open>lib/rank\<close>, \<open>lib/rank/feasible-tree\<close>) on a connected graph without directed cycles: its loop ends; the
  ranks it leaves respect the minimal length of every edge, and only ranks have changed; and the tree that \<open>feasibleTree\<close> returns has all the
  nodes, one edge less than nodes, is connected, and each of its edges joins the ends of an edge that is exactly as long as it has to be.\<close>

theorem tight_tree_ranker_spans_the_graph:
  assumes "labelled g" "clean_graph g" "acyclic (arcs g)" "connected g" "node_set g \<noteq> {}"
  shows "\<exists>g1 t h rk. longestPath g = Inr g1 \<and> feasibleTree g1 = Inr (t, h) \<and> tightTreeRanker g = Inr h \<and> with_ranks g rk h \<and>
    (\<forall>e \<in> set (edges g). \<exists>s \<ge> 0. slack h e = Inr (Some s)) \<and>
    node_set t = node_set g \<and> card (set (edges t)) + 1 = card (node_set t) \<and> (\<forall>x \<in> node_set t. \<forall>y \<in> node_set t. (x, y) \<in> (links t)\<^sup>*) \<and>
    (\<forall>z \<in> set (edges t). \<exists>e \<in> set (edges g). joins e (e_v z) (e_w z) \<and> slack h e = Inr (Some 0))"
proof -
  obtain g1 rk1 where g1: "longestPath g = Inr g1" "longest_ranks g rk1" "with_ranks g rk1 g1" using longestPath_ok [OF assms(1,3)] by blast
  obtain t h rk r where t: "feasibleTree g1 = Inr (t, h)" "with_ranks g rk h" "feasible g rk" "spans g rk r t"
    using feasibleTree_ok [OF assms(1,2,4,5) g1(3) longest_ranks_feasible [OF g1(2)]] by blast
  note T = tight_treeD [OF conjunct1 [OF t(4) [unfolded spans_def]]] and S = slack_with_ranks [OF assms(1) t(2)]
  have "\<exists>s \<ge> 0. slack h e = Inr (Some s)" if "e \<in> set (edges g)" for e using S [OF that] t(3) that by (auto simp: feasible_def)
  moreover have "(x, y) \<in> (links t)\<^sup>*" if "x \<in> node_set t" "y \<in> node_set t" for x y
  proof -
    have "sym (links t)" by (auto simp: links_def sym_def)
    then have "(x, r) \<in> (links t)\<^sup>*" using T(4) [OF that(1)] by (meson sym_rtrancl symD)
    with T(4) [OF that(2)] show ?thesis by simp
  qed
  moreover have "\<exists>e \<in> set (edges g). joins e (e_v z) (e_w z) \<and> slack h e = Inr (Some 0)" if "z \<in> set (edges t)" for z
    using T(6) [OF that] S by (auto simp: tight_def)
  moreover have "tightTreeRanker g = Inr h" using g1(1) t(1) by (simp add: tightTreeRanker_def)
  moreover have "node_set t = node_set g" using t(4) by (simp add: spans_def)
  ultimately show ?thesis using g1(1) t(1,2) T(5) by blast
qed

theorem tight_tree_ranker_spans_the_graph_witness:
  "\<exists>g g1 t h. exampleDag = Inr g \<and> longestPath g = Inr g1 \<and> feasibleTree g1 = Inr (t, h) \<and> tightTreeRanker g = Inr h \<and>
     node_set t = {''a'', ''b''} \<and> card (set (edges t)) = 1"
proof -
  obtain g where g: "exampleDag = Inr g" "labelled g" "clean_graph g" "node_set g = {''a'', ''b''}" "arcs g = {(''a'', ''b'')}"
    using exampleDag_ok by blast
  have a: "acyclic (arcs g)" unfolding g(5) by (rule example_acyclic)
  have "links g = {(''a'', ''b''), (''b'', ''a'')}" unfolding links_def g(5) by auto
  then have "connected g" unfolding connected_def g(4) by auto
  from tight_tree_ranker_spans_the_graph [OF g(2,3) a this] g(4) obtain g1 t h where
    "longestPath g = Inr g1" "feasibleTree g1 = Inr (t, h)" "tightTreeRanker g = Inr h" "node_set t = {''a'', ''b''}"
    "card (set (edges t)) + 1 = card (node_set t)" by auto
  with g(1) show ?thesis by auto
qed

end
