(* ===== verification/Dagre_Util.thy ===== *)
theory Dagre_Util
  imports Dagre_Rank
begin

text \<open>
  Graphs and tables that the layout derives from the layout graph (\<open>lib/util\<close>): \<open>simplify\<close> joins parallel edges,
  \<open>asNonCompoundGraph\<close> leaves out the nodes with children, \<open>successorWeights\<close> and \<open>predecessorWeights\<close> add up the
  weights of parallel edges. The labels of the simplified graph have the properties \<open>weight\<close> and \<open>minlen\<close> only;
  the others stand as zero here, and the rankers that get this graph do not read them.
\<close>

section \<open>The operations\<close>

definition simpleEdge :: "int \<Rightarrow> int \<Rightarrow> layoutEdge" where
  "simpleEdge weight len = \<lparr>l_minlen = len, l_weight = weight, l_width = 0, l_height = 0, l_labeloffset = 0, l_labelpos = [],
     l_xy = None, l_points = None, l_reversed = False, l_forwardName = None, l_labelRank = None, l_nestingEdge = False\<rparr>"

definition simplifyEdge :: "layoutGraph \<Rightarrow> edgeObj \<Rightarrow> layoutGraph \<Rightarrow> layoutGraph result" where
  "simplifyEdge g e simplified =
     (let simpleLabel = (case edge (e_v e) (e_w e) None simplified of Some l \<Rightarrow> l | None \<Rightarrow> simpleEdge 0 1)
      in rbind (deref (edgeOfObj e g)) (\<lambda>label.
           setEdge (e_v e) (e_w e)
             (Some (Some (simpleEdge (l_weight simpleLabel + l_weight label) (max (l_minlen simpleLabel) (l_minlen label)))))
             None simplified))"

definition simplify :: "layoutGraph \<Rightarrow> layoutGraph result" where
  "simplify g =
     rbind (rfold (\<lambda>v. setNode v (Some (node v g))) (nodes g) (setGraph (graph g) (newGraph None None None)))
       (rfold (simplifyEdge g) (edges g))"

definition copyLeaf :: "layoutGraph \<Rightarrow> string \<Rightarrow> layoutGraph \<Rightarrow> layoutGraph result" where
  "copyLeaf g v simplified =
     rbind (deref (children (Some v) g)) (\<lambda>cs. if cs = [] then setNode v (Some (node v g)) simplified else Inr simplified)"

definition asNonCompoundGraph :: "layoutGraph \<Rightarrow> layoutGraph result" where
  "asNonCompoundGraph g =
     rbind (rfold (copyLeaf g) (nodes g) (setGraph (graph g) (newGraph None (Some (isMultigraph g)) None)))
       (rfold (\<lambda>e. setEdgeObj e (Some (edgeOfObj e g))) (edges g))"

definition addTo :: "layoutGraph \<Rightarrow> (edgeObj \<Rightarrow> string) \<Rightarrow> edgeObj \<Rightarrow> int obj \<Rightarrow> int obj result" where
  "addTo g f e ws =
     rbind (deref (edgeOfObj e g)) (\<lambda>l. Inr (put (f e) ((case get ws (f e) of Some x \<Rightarrow> x | None \<Rightarrow> 0) + l_weight l) ws))"

definition successorWeights :: "layoutGraph \<Rightarrow> int obj obj result" where
  "successorWeights g =
     rfold (\<lambda>v m. rbind (rfold (addTo g e_w) (each (outEdges v None g)) []) (\<lambda>sucs. Inr (put v sucs m))) (nodes g) []"

definition predecessorWeights :: "layoutGraph \<Rightarrow> int obj obj result" where
  "predecessorWeights g =
     rfold (\<lambda>v m. rbind (rfold (addTo g e_v) (each (inEdges v None g)) []) (\<lambda>preds. Inr (put v preds m))) (nodes g) []"

section \<open>Sums over parallel edges\<close>

definition weight :: "layoutGraph \<Rightarrow> edgeObj \<Rightarrow> int" where
  "weight g e = (case edgeOfObj e g of Some l \<Rightarrow> l_weight l | None \<Rightarrow> 0)"

definition between :: "layoutGraph \<Rightarrow> string \<Rightarrow> string \<Rightarrow> edgeObj set" where
  "between g v w = {e \<in> set (edges g). e_v e = v \<and> e_w e = w}"

lemma addTo_all:
  fixes g :: layoutGraph
  assumes lab: "\<And>e. e \<in> set es \<Longrightarrow> edgeOfObj e g \<noteq> None" and d: "distinct es"
  shows "\<exists>ws. rfold (addTo g f) es [] = Inr ws \<and>
    (\<forall>x. get ws x = (if x \<in> f ` set es then Some (\<Sum>e \<in> {e \<in> set es. f e = x}. weight g e) else None))"
proof -
  let ?P = "\<lambda>ys (ws :: int obj). \<forall>x. get ws x = (if x \<in> f ` set ys then Some (\<Sum>e \<in> {e \<in> set ys. f e = x}. weight g e) else None)"
  show ?thesis
  proof (rule rfold_prefix_invariant [where P = ?P])
    fix ys e zs ws
    assume split: "es = ys @ e # zs" and P: "?P ys ws"
    have new: "e \<notin> set ys" using split d by auto
    obtain l where l: "edgeOfObj e g = Some l" using lab split by fastforce
    let ?sum = "\<lambda>ys x. \<Sum>e \<in> {e \<in> set ys. f e = x}. weight g e"
    have sum: "?sum (ys @ [e]) x = (if x = f e then ?sum ys x + weight g e else ?sum ys x)" for x
    proof (cases "x = f e")
      case True
      then have "{a \<in> set (ys @ [e]). f a = x} = insert e {a \<in> set ys. f a = x}" by auto
      with True new show ?thesis by (simp add: add.commute)
    next
      case False
      then have "{a \<in> set (ys @ [e]). f a = x} = {a \<in> set ys. f a = x}" by auto
      with False show ?thesis by simp
    qed
    have zero: "?sum ys x = 0" if "x \<notin> f ` set ys" for x
      by (rule sum.neutral) (use that in auto)
    have "(case get ws (f e) of Some x \<Rightarrow> x | None \<Rightarrow> 0) = ?sum ys (f e)"
      using P zero [of "f e"] by auto
    then have step: "addTo g f e ws = Inr (put (f e) (?sum ys (f e) + weight g e) ws)"
      using l by (simp add: addTo_def weight_def)
    have "?P (ys @ [e]) (put (f e) (?sum ys (f e) + weight g e) ws)"
    proof
      fix x
      show "get (put (f e) (?sum ys (f e) + weight g e) ws) x =
          (if x \<in> f ` set (ys @ [e]) then Some (?sum (ys @ [e]) x) else None)"
        unfolding sum using P by auto
    qed
    with step show "\<exists>ws'. addTo g f e ws = Inr ws' \<and> ?P (ys @ [e]) ws'" by blast
  qed simp
qed

lemma weights_table:
  fixes g :: layoutGraph
  assumes ok: "graph_ok g" and lab: "\<And>e. e \<in> set (edges g) \<Longrightarrow> edgeOfObj e g \<noteq> None"
    and es: "\<And>v. v \<in> node_set g \<Longrightarrow> set (es v) \<subseteq> set (edges g) \<and> distinct (es v)"
  shows "\<exists>m. rfold (\<lambda>v m. rbind (rfold (addTo g f) (es v) []) (\<lambda>ws. Inr (put v ws m))) (nodes g) [] = Inr m \<and>
    set (keys m) = node_set g \<and> (\<forall>v \<in> node_set g. \<exists>ws. get m v = Some ws \<and>
      (\<forall>x. get ws x = (if x \<in> f ` set (es v) then Some (\<Sum>e \<in> {e \<in> set (es v). f e = x}. weight g e) else None)))"
proof -
  let ?body = "\<lambda>v (m :: int obj obj). rbind (rfold (addTo g f) (es v) []) (\<lambda>ws. Inr (put v ws m))"
  let ?ok = "\<lambda>v (ws :: int obj). \<forall>x. get ws x = (if x \<in> f ` set (es v) then Some (\<Sum>e \<in> {e \<in> set (es v). f e = x}. weight g e) else None)"
  let ?P = "\<lambda>ys (m :: int obj obj). set (keys m) = set ys \<and> (\<forall>v \<in> set ys. \<exists>ws. get m v = Some ws \<and> ?ok v ws)"
  have "\<exists>m. rfold ?body (nodes g) [] = Inr m \<and> ?P (nodes g) m"
  proof (rule rfold_prefix_invariant [where P = ?P])
    fix ys v zs m
    assume split: "nodes g = ys @ v # zs" and P: "?P ys m"
    then have v: "v \<in> node_set g" by (simp flip: nodes_set)
    obtain ws where "rfold (addTo g f) (es v) [] = Inr ws" "?ok v ws"
      using addTo_all [of "es v" g f] es [OF v] lab by blast
    with P show "\<exists>m'. ?body v m = Inr m' \<and> ?P (ys @ [v]) m'" by auto
  qed simp
  then show ?thesis by (simp add: nodes_set)
qed

text \<open>\<open>successorWeights\<close> and \<open>predecessorWeights\<close> give for each node and each of its neighbours the total weight of
  the edges between them.\<close>

theorem neighbour_weights_are_sums:
  fixes g :: layoutGraph
  assumes ok: "graph_ok g" and lab: "\<And>e. e \<in> set (edges g) \<Longrightarrow> edgeOfObj e g \<noteq> None"
  shows "\<exists>s p. successorWeights g = Inr s \<and> predecessorWeights g = Inr p \<and> set (keys s) = node_set g \<and> set (keys p) = node_set g \<and>
    (\<forall>v \<in> node_set g. \<exists>sucs preds. get s v = Some sucs \<and> get p v = Some preds \<and>
      (\<forall>w. get sucs w = (if between g v w = {} then None else Some (\<Sum>e \<in> between g v w. weight g e)) \<and>
           get preds w = (if between g w v = {} then None else Some (\<Sum>e \<in> between g w v. weight g e))))"
proof -
  have out: "{e \<in> set (each (outEdges v None g)). e_w e = w} = between g v w"
    "w \<in> e_w ` set (each (outEdges v None g)) \<longleftrightarrow> between g v w \<noteq> {}" if "v \<in> node_set g" for v w
    using each_outEdges(1) [OF ok that] by (auto simp: between_def)
  have inn: "{e \<in> set (each (inEdges v None g)). e_v e = w} = between g w v"
    "w \<in> e_v ` set (each (inEdges v None g)) \<longleftrightarrow> between g w v \<noteq> {}" if "v \<in> node_set g" for v w
    using each_inEdges(1) [OF ok that] by (auto simp: between_def)
  obtain s where s: "successorWeights g = Inr s" "set (keys s) = node_set g"
    "\<forall>v \<in> node_set g. \<exists>ws. get s v = Some ws \<and> (\<forall>w. get ws w = (if w \<in> e_w ` set (each (outEdges v None g))
       then Some (\<Sum>e \<in> {e \<in> set (each (outEdges v None g)). e_w e = w}. weight g e) else None))"
    using weights_table [OF ok lab, of "\<lambda>v. each (outEdges v None g)" e_w] each_outEdges [OF ok]
    by (auto simp: successorWeights_def)
  obtain p where p: "predecessorWeights g = Inr p" "set (keys p) = node_set g"
    "\<forall>v \<in> node_set g. \<exists>ws. get p v = Some ws \<and> (\<forall>w. get ws w = (if w \<in> e_v ` set (each (inEdges v None g))
       then Some (\<Sum>e \<in> {e \<in> set (each (inEdges v None g)). e_v e = w}. weight g e) else None))"
    using weights_table [OF ok lab, of "\<lambda>v. each (inEdges v None g)" e_v] each_inEdges [OF ok]
    by (auto simp: predecessorWeights_def)
  have "\<exists>sucs preds. get s v = Some sucs \<and> get p v = Some preds \<and>
      (\<forall>w. get sucs w = (if between g v w = {} then None else Some (\<Sum>e \<in> between g v w. weight g e)) \<and>
           get preds w = (if between g w v = {} then None else Some (\<Sum>e \<in> between g w v. weight g e)))"
    if v: "v \<in> node_set g" for v
  proof -
    obtain ws ws' where ws: "get s v = Some ws" "\<And>w. get ws w = (if w \<in> e_w ` set (each (outEdges v None g))
         then Some (\<Sum>e \<in> {e \<in> set (each (outEdges v None g)). e_w e = w}. weight g e) else None)"
      and ws': "get p v = Some ws'" "\<And>w. get ws' w = (if w \<in> e_v ` set (each (inEdges v None g))
         then Some (\<Sum>e \<in> {e \<in> set (each (inEdges v None g)). e_v e = w}. weight g e) else None)"
      using s(3) p(3) v by blast
    from ws(2) have "get ws w = (if between g v w = {} then None else Some (\<Sum>e \<in> between g v w. weight g e))" for w
      unfolding out [OF v] by simp
    moreover from ws'(2) have "get ws' w = (if between g w v = {} then None else Some (\<Sum>e \<in> between g w v. weight g e))" for w
      unfolding inn [OF v] by simp
    ultimately show ?thesis using ws(1) ws'(1) by blast
  qed
  with s p show ?thesis by blast
qed

section \<open>Derived graphs\<close>

lemma copy_nodes_ok:
  fixes g h0 :: "('g, 'n, 'e) Graph"
  assumes vs: "set vs \<subseteq> node_set g" and h0: "graph_ok h0" "clean_graph h0" "\<not> f_isCompound h0" "abs_nodes h0 = Map.empty"
    and body: "\<And>v h. v \<in> set vs \<Longrightarrow> body v h = (if keep v then setNode v (Some (node v g)) h else Inr h)"
  shows "\<exists>h. rfold body vs h0 = Inr h \<and> graph_ok h \<and> clean_graph h \<and> same_flags h0 h \<and> abs_edges h = abs_edges h0 \<and>
    abs_nodes h = abs_nodes g |` {v \<in> set vs. keep v}"
proof -
  let ?P = "\<lambda>ys (h :: ('g, 'n, 'e) Graph). graph_ok h \<and> clean_graph h \<and> same_flags h0 h \<and> abs_edges h = abs_edges h0 \<and>
    abs_nodes h = abs_nodes g |` {v \<in> set ys. keep v}"
  show ?thesis
  proof (rule rfold_prefix_invariant [where P = ?P])
    show "?P [] h0" using h0 by simp
  next
    fix ys v zs h
    assume split: "vs = ys @ v # zs" and P: "?P ys h"
    have v: "v \<in> node_set g" "v \<in> set vs" using split vs by auto
    show "\<exists>h'. body v h = Inr h' \<and> ?P (ys @ [v]) h'"
    proof (cases "keep v")
      case True
      have "f_isCompound h \<longrightarrow> v \<noteq> GRAPH_NODE" using P h0(3) by (simp add: same_flags_def)
      from setNode_refines [OF _ this, of "Some (node v g)"] setNode_ok [OF _ this, of "Some (node v g)"] P
      obtain h' where h': "setNode v (Some (node v g)) h = Inr h'" "graph_ok h'" "same_flags h h'" "abs_edges h' = abs_edges h"
        "abs_nodes h' = (abs_nodes h)(v \<mapsto> node v g)" "f_edgeObjs h' = f_edgeObjs h" by auto
      have "abs_nodes g v = Some (node v g)" using node_get [OF v(1)] by (simp add: abs_nodes_def)
      then have "abs_nodes h' = abs_nodes g |` {x \<in> set (ys @ [v]). keep x}"
        using h'(5) P True by (auto simp: restrict_map_def fun_eq_iff)
      moreover have "clean_graph h'" using P h'(6) by (simp add: clean_graph_def edges_def)
      ultimately show ?thesis
        using h' P True body [OF v(2)] same_flags_trans [of h0 h h'] by auto
    next
      case False
      then have "{x \<in> set (ys @ [v]). keep x} = {x \<in> set ys. keep x}" by auto
      with False P body [OF v(2)] show ?thesis by simp
    qed
  qed
qed

lemma edge_abs:
  assumes "graph_ok g" "clean_graph g" "f_isDirected g" "clean v" "clean w"
  shows "edge v w None g = (case abs_edges g \<lparr>e_v = v, e_w = w, e_name = None\<rparr> of Some l \<Rightarrow> l | None \<Rightarrow> None)"
proof -
  let ?eo = "\<lparr>e_v = v, e_w = w, e_name = None\<rparr>"
  have id: "edgeArgsToId (f_isDirected g) v w None = edgeObjToId (f_isDirected g) ?eo"
    using edgeObjToId_edgeArgsToObj [of None "f_isDirected g" v w] assms(3) by (simp add: edgeArgsToObj_def)
  have "clean_edge ?eo" using assms(4,5) by (simp add: clean_edge_def clean_name_def)
  from key_present_iff [OF assms(1,2) this] assms(3)
  show ?thesis unfolding edge_def id by (auto simp: abs_edges_def has_iff dest: get_Some_key split: option.splits)
qed

text \<open>What the first edges contribute to a simplified edge.\<close>

definition joined :: "layoutGraph \<Rightarrow> edgeObj list \<Rightarrow> edgeObj \<Rightarrow> layoutEdge option option" where
  "joined g es x =
     (let E = {e \<in> set es. e_v e = e_v x \<and> e_w e = e_w x} in
      if e_name x = None \<and> E \<noteq> {} then Some (Some (simpleEdge (\<Sum>e \<in> E. weight g e) (Max (insert 1 (minlen g ` E))))) else None)"

lemma joined_snoc:
  fixes g :: layoutGraph
  assumes new: "e \<notin> set es" and l: "edgeOfObj e g = Some l"
  defines "x \<equiv> \<lparr>e_v = e_v e, e_w = e_w e, e_name = None\<rparr>"
  defines "old \<equiv> (case joined g es x of Some (Some s) \<Rightarrow> s | _ \<Rightarrow> simpleEdge 0 1)"
  shows "joined g (es @ [e]) = (joined g es)(x \<mapsto> Some (simpleEdge (l_weight old + l_weight l) (max (l_minlen old) (l_minlen l))))"
proof
  fix y :: edgeObj
  let ?E = "{a \<in> set es. e_v a = e_v y \<and> e_w a = e_w y}"
  show "joined g (es @ [e]) y = ((joined g es)(x \<mapsto> Some (simpleEdge (l_weight old + l_weight l) (max (l_minlen old) (l_minlen l))))) y"
  proof (cases "y = x")
    case True
    have E: "{a \<in> set (es @ [e]). e_v a = e_v y \<and> e_w a = e_w y} = insert e ?E" using True by (auto simp: x_def)
    have fin: "finite ?E" "e \<notin> ?E" using new by auto
    have max: "Max (insert 1 (minlen g ` insert e ?E)) = max (Max (insert 1 (minlen g ` ?E))) (l_minlen l)"
    proof -
      have "insert 1 (minlen g ` insert e ?E) = insert (l_minlen l) (insert 1 (minlen g ` ?E))" using l by (auto simp: minlen_def)
      moreover have "Max (insert (l_minlen l) (insert 1 (minlen g ` ?E))) = max (l_minlen l) (Max (insert 1 (minlen g ` ?E)))"
        using fin(1) by (intro Max_insert) auto
      ultimately show ?thesis by (simp only: max.commute)
    qed
    have old: "l_weight old = (\<Sum>a \<in> ?E. weight g a)" "l_minlen old = Max (insert 1 (minlen g ` ?E))"
    proof -
      have "old = simpleEdge (\<Sum>a \<in> ?E. weight g a) (Max (insert 1 (minlen g ` ?E)))"
      proof (cases "?E = {}")
        case E: True
        then have "joined g es x = None" using True by (simp add: joined_def)
        then show ?thesis unfolding E by (simp add: old_def)
      next
        case False
        then have "joined g es x = Some (Some (simpleEdge (\<Sum>a \<in> ?E. weight g a) (Max (insert 1 (minlen g ` ?E)))))"
          using True by (simp add: joined_def Let_def x_def)
        then show ?thesis by (simp add: old_def)
      qed
      then show "l_weight old = (\<Sum>a \<in> ?E. weight g a)" "l_minlen old = Max (insert 1 (minlen g ` ?E))"
        by (simp_all add: simpleEdge_def)
    qed
    have "joined g (es @ [e]) y = Some (Some (simpleEdge (\<Sum>a \<in> insert e ?E. weight g a) (Max (insert 1 (minlen g ` insert e ?E)))))"
      unfolding joined_def Let_def E using True by (simp add: x_def)
    also have "\<dots> = Some (Some (simpleEdge (l_weight old + l_weight l) (max (l_minlen old) (l_minlen l))))"
    proof -
      have "(\<Sum>a \<in> insert e ?E. weight g a) = (\<Sum>a \<in> ?E. weight g a) + l_weight l"
        using fin l by (simp add: weight_def [of g e] add.commute)
      then show ?thesis unfolding max old by simp
    qed
    finally show ?thesis using True by simp
  next
    case False
    then have "e_name y \<noteq> None \<or> {a \<in> set (es @ [e]). e_v a = e_v y \<and> e_w a = e_w y} = ?E"
      by (cases y) (auto simp: x_def)
    then have "joined g (es @ [e]) y = joined g es y"
    proof
      assume "e_name y \<noteq> None"
      then show ?thesis by (auto simp: joined_def Let_def)
    next
      assume E: "{a \<in> set (es @ [e]). e_v a = e_v y \<and> e_w a = e_w y} = ?E"
      show ?thesis unfolding joined_def E ..
    qed
    with False show ?thesis by simp
  qed
qed

lemma simplifyEdge_ok:
  fixes g h :: layoutGraph
  assumes ok: "graph_ok g" "clean_graph g" and e: "e \<in> set (edges g)" "e \<notin> set es" "edgeOfObj e g = Some l"
    and h: "graph_ok h" "clean_graph h" "f_isDirected h" "\<not> f_isCompound h" "abs_nodes h = abs_nodes g" "abs_edges h = joined g es"
  shows "\<exists>h'. simplifyEdge g e h = Inr h' \<and> graph_ok h' \<and> clean_graph h' \<and> same_flags h h' \<and> abs_nodes h' = abs_nodes g \<and>
    abs_edges h' = joined g (es @ [e])"
proof -
  let ?x = "\<lparr>e_v = e_v e, e_w = e_w e, e_name = None\<rparr> :: edgeObj"
  let ?old = "case joined g es ?x of Some (Some s) \<Rightarrow> s | _ \<Rightarrow> simpleEdge 0 1"
  let ?new = "simpleEdge (l_weight ?old + l_weight l) (max (l_minlen ?old) (l_minlen l))"
  have cl: "clean (e_v e)" "clean (e_w e)" "clean_name None"
    using ok(2) e(1) by (auto simp: clean_graph_def clean_edge_def clean_name_def)
  have old: "(case edge (e_v e) (e_w e) None h of Some l \<Rightarrow> l | None \<Rightarrow> simpleEdge 0 1) = ?old"
    unfolding edge_abs [OF h(1-3) cl(1,2)] h(6) by (auto split: option.splits)
  have run: "simplifyEdge g e h = setEdge (e_v e) (e_w e) (Some (Some ?new)) None h"
    unfolding simplifyEdge_def Let_def old e(3) by simp
  have ends: "e_v e \<in> node_set h" "e_w e \<in> node_set h" using edges_ends [OF ok(1) e(1)] h(5) by (auto simp: node_set_abs)
  have obj: "edgeArgsToObj (f_isDirected h) (e_v e) (e_w e) None = ?x" using h(3) by (simp add: edgeArgsToObj_def)
  have root: "f_isCompound h \<longrightarrow> e_v e \<noteq> GRAPH_NODE \<and> e_w e \<noteq> GRAPH_NODE" using h(4) by simp
  obtain h' where h': "setEdge (e_v e) (e_w e) (Some (Some ?new)) None h = Inr h'" "graph_ok h'" "clean_graph h'" "same_flags h h'"
    "abs_edges h' = (abs_edges h)(?x \<mapsto> Some ?new)" "node_set h' = insert (e_v e) (insert (e_w e) (node_set h))"
    "\<forall>x\<in>node_set h. abs_nodes h' x = abs_nodes h x"
    using setEdge_refines [OF h(1,2) cl root, of "Some (Some ?new)"] obj by auto
  have "abs_nodes h' = abs_nodes h"
  proof (rule abs_nodes_same)
    show ns: "node_set h' = node_set h" using h'(6) ends by auto
    show "\<forall>x\<in>node_set h. get (f_nodes h') x = get (f_nodes h) x" using h'(7) by (simp add: abs_nodes_def)
  qed
  moreover have "abs_edges h' = joined g (es @ [e])" using joined_snoc [OF e(2,3)] h'(5) h(6) by simp
  ultimately show ?thesis using run h' h(5) by simp
qed

text \<open>\<open>simplify\<close> keeps the nodes with their labels and has one edge for each pair of nodes with edges between them: its
  weight is the sum of theirs and its minimal length the largest of theirs, and at least 1.\<close>

theorem simplify_joins_parallel_edges:
  fixes g :: layoutGraph
  assumes ok: "graph_ok g" "clean_graph g" and lab: "\<And>e. e \<in> set (edges g) \<Longrightarrow> edgeOfObj e g \<noteq> None"
  shows "\<exists>h. simplify g = Inr h \<and> graph_ok h \<and> \<not> isMultigraph h \<and> \<not> isCompound h \<and> graph h = graph g \<and> abs_nodes h = abs_nodes g \<and>
    (\<forall>v w. abs_edges h \<lparr>e_v = v, e_w = w, e_name = None\<rparr> =
       (if between g v w = {} then None
        else Some (Some (simpleEdge (\<Sum>e \<in> between g v w. weight g e) (Max (insert 1 (minlen g ` between g v w))))))) \<and>
    (\<forall>x. e_name x \<noteq> None \<longrightarrow> abs_edges h x = None)"
proof -
  let ?h0 = "setGraph (graph g) (newGraph None None None) :: layoutGraph"
  have h0: "graph_ok ?h0" "clean_graph ?h0" "\<not> f_isCompound ?h0" "abs_nodes ?h0 = Map.empty" "abs_edges ?h0 = Map.empty"
    "f_isDirected ?h0" "\<not> f_isMultigraph ?h0" "f_label ?h0 = graph g"
    using graph_ok_new [of None None None, where 'a = layoutLabel and 'b = layoutNode and 'c = layoutEdge]
    by (auto simp: setGraph_def graph_ok_def tables_ok_def node_set_def newGraph_def clean_graph_def edges_def abs_nodes_def
        abs_edges_def Let_def)
  have "{v \<in> set (nodes g). True} = dom (abs_nodes g)" using nodes_set [of g] by (simp add: node_set_abs)
  then have all: "abs_nodes g |` {v \<in> set (nodes g). True} = abs_nodes g" by (simp add: restrict_map_def fun_eq_iff domIff)
  obtain h1 where h1: "rfold (\<lambda>v. setNode v (Some (node v g))) (nodes g) ?h0 = Inr h1" "graph_ok h1" "clean_graph h1"
    "same_flags ?h0 h1" "abs_edges h1 = Map.empty" "abs_nodes h1 = abs_nodes g"
    using copy_nodes_ok [OF _ h0(1-4), of "nodes g" g "\<lambda>v. setNode v (Some (node v g))" "\<lambda>_. True"] nodes_set [of g] h0(5) all by auto
  let ?P = "\<lambda>es (h :: layoutGraph). graph_ok h \<and> clean_graph h \<and> same_flags ?h0 h \<and> abs_nodes h = abs_nodes g \<and> abs_edges h = joined g es"
  have "\<exists>h. rfold (simplifyEdge g) (edges g) h1 = Inr h \<and> ?P (edges g) h"
  proof (rule rfold_prefix_invariant [where P = ?P])
    show "?P [] h1" using h1 by (simp add: joined_def fun_eq_iff)
  next
    fix es e zs h
    assume split: "edges g = es @ e # zs" and P: "?P es h"
    have e: "e \<in> set (edges g)" "e \<notin> set es" using split distinct_edges [OF ok(1)] by auto
    obtain l where l: "edgeOfObj e g = Some l" using lab [OF e(1)] by blast
    have fl: "f_isDirected h" "\<not> f_isCompound h" using P h0(3,6) by (simp_all add: same_flags_def)
    show "\<exists>h'. simplifyEdge g e h = Inr h' \<and> ?P (es @ [e]) h'"
      using simplifyEdge_ok [OF ok e l _ _ fl] P same_flags_trans [of ?h0 h] by blast
  qed
  then obtain h where h: "rfold (simplifyEdge g) (edges g) h1 = Inr h" "?P (edges g) h" by blast
  have "graph h = graph g" "\<not> isMultigraph h" "\<not> isCompound h"
    using h(2) h0(3,7,8) by (simp_all add: same_flags_def graph_def isMultigraph_def isCompound_def)
  moreover have "simplify g = Inr h" using h1(1) h(1) by (simp add: simplify_def)
  ultimately show ?thesis using h(2) by (auto simp: joined_def between_def Let_def)
qed

text \<open>\<open>asNonCompoundGraph\<close> keeps the nodes without children and, when no edge ends at a node with children, all edges.\<close>

theorem asNonCompoundGraph_keeps_leaves:
  fixes g :: layoutGraph
  assumes ok: "graph_ok g" "clean_graph g" and d: "isDirected g"
    and leaf: "\<And>e. e \<in> set (edges g) \<Longrightarrow> children (Some (e_v e)) g = Some [] \<and> children (Some (e_w e)) g = Some []"
    and ch: "\<And>v. v \<in> node_set g \<Longrightarrow> children (Some v) g \<noteq> None"
  shows "\<exists>h. asNonCompoundGraph g = Inr h \<and> graph_ok h \<and> \<not> isCompound h \<and> isMultigraph h = isMultigraph g \<and> graph h = graph g \<and>
    abs_nodes h = abs_nodes g |` {v. children (Some v) g = Some []} \<and> abs_edges h = abs_edges g"
proof -
  let ?h0 = "setGraph (graph g) (newGraph None (Some (isMultigraph g)) None) :: layoutGraph"
  let ?leaf = "\<lambda>v. children (Some v) g = Some []"
  have h0: "graph_ok ?h0" "clean_graph ?h0" "\<not> f_isCompound ?h0" "abs_nodes ?h0 = Map.empty" "abs_edges ?h0 = Map.empty"
    "f_isDirected ?h0" "f_isMultigraph ?h0 = isMultigraph g" "f_label ?h0 = graph g"
    using graph_ok_new [of None "Some (isMultigraph g)" None, where 'a = layoutLabel and 'b = layoutNode and 'c = layoutEdge]
    by (auto simp: setGraph_def graph_ok_def tables_ok_def node_set_def newGraph_def clean_graph_def edges_def abs_nodes_def
        abs_edges_def Let_def)
  have body: "copyLeaf g v h = (if ?leaf v then setNode v (Some (node v g)) h else Inr h)" if "v \<in> set (nodes g)" for v h
    using ch [of v] that unfolding nodes_set by (auto simp: copyLeaf_def)
  obtain h1 where h1: "rfold (copyLeaf g) (nodes g) ?h0 = Inr h1" "graph_ok h1" "clean_graph h1"
    "same_flags ?h0 h1" "abs_edges h1 = Map.empty" "abs_nodes h1 = abs_nodes g |` {v \<in> set (nodes g). ?leaf v}"
    using copy_nodes_ok [OF _ h0(1-4), of "nodes g" g "copyLeaf g" ?leaf] nodes_set [of g] h0(5) body by auto
  have "abs_nodes g |` {v \<in> set (nodes g). ?leaf v} = abs_nodes g |` {v. ?leaf v}"
    unfolding nodes_set by (auto simp: restrict_map_def fun_eq_iff node_set_abs domIff)
  with h1(6) have n1: "abs_nodes h1 = abs_nodes g |` {v. ?leaf v}" by simp
  let ?P = "\<lambda>es (h :: layoutGraph). graph_ok h \<and> clean_graph h \<and> same_flags ?h0 h \<and> abs_nodes h = abs_nodes h1 \<and>
    abs_edges h = abs_edges g |` set es"
  have "\<exists>h. rfold (\<lambda>e. setEdgeObj e (Some (edgeOfObj e g))) (edges g) h1 = Inr h \<and> ?P (edges g) h"
  proof (rule rfold_prefix_invariant [where P = ?P])
    show "?P [] h1" using h1 by simp
  next
    fix es e zs h
    assume split: "edges g = es @ e # zs" and P: "?P es h"
    have e: "e \<in> set (edges g)" using split by simp
    have fl: "f_isDirected h = f_isDirected g" "f_isMultigraph h = f_isMultigraph g"
      using P h0(6,7) d by (simp_all add: same_flags_def isDirected_def isMultigraph_def)
    have ends: "e_v e \<in> node_set h" "e_w e \<in> node_set h"
      using edges_ends [OF ok(1) e] leaf [OF e] P n1 by (auto simp: node_set_abs)
    obtain h' where h': "setEdgeObj e (Some (edgeOfObj e g)) h = Inr h'" "graph_ok h'" "clean_graph h'" "same_flags h h'"
      "abs_edges h' = (abs_edges h)(e := abs_edges g e)" "abs_nodes h' = abs_nodes h"
      using copy_edge_ok [OF ok e _ _ fl ends] P by blast
    have "abs_edges h' = abs_edges g |` set (es @ [e])" using h'(5) P by (auto simp: restrict_map_def fun_eq_iff)
    then have "?P (es @ [e]) h'" using h' P same_flags_trans [of ?h0 h h'] by auto
    with h'(1) show "\<exists>h'. setEdgeObj e (Some (edgeOfObj e g)) h = Inr h' \<and> ?P (es @ [e]) h'" by blast
  qed
  then obtain h where h: "rfold (\<lambda>e. setEdgeObj e (Some (edgeOfObj e g))) (edges g) h1 = Inr h" "?P (edges g) h" by blast
  have "abs_edges g |` set (edges g) = abs_edges g"
    unfolding dom_abs_edges [OF ok(1), symmetric] by (auto simp: restrict_map_def fun_eq_iff domIff)
  moreover have "graph h = graph g" "isMultigraph h = isMultigraph g" "\<not> isCompound h"
    using h(2) h0(3,7,8) by (simp_all add: same_flags_def graph_def isMultigraph_def isCompound_def)
  moreover have "asNonCompoundGraph g = Inr h" using h1(1) h(1) by (simp add: asNonCompoundGraph_def)
  ultimately show ?thesis using h(2) n1 by auto
qed

end
