(* ===== verification/Dagre_Sort.thy ===== *)
theory Dagre_Sort
  imports Dagre_Graph "HOL-Library.Multiset"
begin

text \<open>
  Sorting the nodes of a layer by their barycenters (\<open>lib/order/sort\<close>). Entries without a barycenter keep their place:
  they are inserted when the index has reached the one they had. The theorem: if the indices are those of a list of the
  nodes, no entry is lost, entries with a barycenter come in the order of their barycenters and the others in the order of
  their indices.
\<close>

section \<open>Numbers\<close>

text \<open>Barycenters are quotients, and \<open>0 / 0\<close> occurs: merging two entries without a barycenter gives \<open>NaN\<close>. There is
  one zero, and rounding is left out.\<close>

datatype jsnum = NaN | Real real | PosInf | NegInf

definition signed_inf :: "bool \<Rightarrow> jsnum" where
  "signed_inf positive = (if positive then PosInf else NegInf)"

fun num_add :: "jsnum \<Rightarrow> jsnum \<Rightarrow> jsnum" where
  "num_add (Real a) (Real b) = Real (a + b)"
| "num_add NaN _ = NaN"
| "num_add _ NaN = NaN"
| "num_add PosInf NegInf = NaN"
| "num_add NegInf PosInf = NaN"
| "num_add PosInf _ = PosInf"
| "num_add _ PosInf = PosInf"
| "num_add NegInf _ = NegInf"
| "num_add _ NegInf = NegInf"

fun num_positive :: "jsnum \<Rightarrow> bool" where
  "num_positive (Real a) \<longleftrightarrow> 0 < a"
| "num_positive PosInf \<longleftrightarrow> True"
| "num_positive _ \<longleftrightarrow> False"

definition num_mult :: "jsnum \<Rightarrow> jsnum \<Rightarrow> jsnum" where
  "num_mult x y =
     (case (x, y) of
        (Real a, Real b) \<Rightarrow> Real (a * b)
      | _ \<Rightarrow> if x = NaN \<or> y = NaN \<or> x = Real 0 \<or> y = Real 0 then NaN
             else signed_inf (num_positive x = num_positive y))"

definition num_div :: "jsnum \<Rightarrow> jsnum \<Rightarrow> jsnum" where
  "num_div x y =
     (if x = NaN \<or> y = NaN then NaN
      else case (x, y) of
        (Real a, Real b) \<Rightarrow> if b \<noteq> 0 then Real (a / b) else if a = 0 then NaN else signed_inf (0 < a)
      | (Real a, _) \<Rightarrow> Real 0
      | (_, Real b) \<Rightarrow> signed_inf (num_positive x = (0 \<le> b))
      | _ \<Rightarrow> NaN)"

fun num_less :: "jsnum \<Rightarrow> jsnum \<Rightarrow> bool" where
  "num_less (Real a) (Real b) \<longleftrightarrow> a < b"
| "num_less NegInf y \<longleftrightarrow> y \<noteq> NaN \<and> y \<noteq> NegInf"
| "num_less x PosInf \<longleftrightarrow> x \<noteq> NaN \<and> x \<noteq> PosInf"
| "num_less _ _ \<longleftrightarrow> False"

definition truthy_num :: "jsnum \<Rightarrow> bool" where
  "truthy_num x \<longleftrightarrow> x \<noteq> NaN \<and> x \<noteq> Real 0"

text \<open>A missing property in arithmetic.\<close>

definition num_of :: "jsnum option \<Rightarrow> jsnum" where
  "num_of x = (case x of Some a \<Rightarrow> a | None \<Rightarrow> NaN)"

lemma num_less_trans: "num_less x y \<Longrightarrow> num_less y z \<Longrightarrow> num_less x z"
  by (cases x; cases y; cases z) auto

lemma num_less_linear: "x \<noteq> NaN \<Longrightarrow> y \<noteq> NaN \<Longrightarrow> num_less x y \<or> x = y \<or> num_less y x"
  by (cases x; cases y) auto

lemma num_less_asym: "num_less x y \<Longrightarrow> \<not> num_less y x"
  by (cases x; cases y) auto

section \<open>The algorithm\<close>

record sortEntry =
  x_vs :: "string list"
  x_i :: nat
  x_barycenter :: "jsnum option"
  x_weight :: "jsnum option"

record sortResult =
  r_vs :: "string list"
  r_barycenter :: "jsnum option"
  r_weight :: "jsnum option"

definition compareWithBias :: "bool \<Rightarrow> sortEntry \<Rightarrow> sortEntry \<Rightarrow> int" where
  "compareWithBias bias entryV entryW =
     (if num_less (num_of (x_barycenter entryV)) (num_of (x_barycenter entryW)) then - 1
      else if num_less (num_of (x_barycenter entryW)) (num_of (x_barycenter entryV)) then 1
      else if \<not> bias then int (x_i entryV) - int (x_i entryW) else int (x_i entryW) - int (x_i entryV))"

text \<open>\<open>Array.prototype.sort\<close> is stable; when the comparison is not consistent, as it is with \<open>NaN\<close>, the order depends on
  the implementation.\<close>

primrec insertBy :: "('a \<Rightarrow> 'a \<Rightarrow> int) \<Rightarrow> 'a \<Rightarrow> 'a list \<Rightarrow> 'a list" where
  "insertBy cmp x [] = [x]"
| "insertBy cmp x (y # ys) = (if cmp x y \<le> 0 then x # y # ys else y # insertBy cmp x ys)"

definition sortBy :: "('a \<Rightarrow> 'a \<Rightarrow> int) \<Rightarrow> 'a list \<Rightarrow> 'a list" where
  "sortBy cmp xs = foldr (insertBy cmp) xs []"

definition partition_util :: "('a \<Rightarrow> bool) \<Rightarrow> 'a list \<Rightarrow> 'a list \<times> 'a list" where
  "partition_util fn collection =
     fold (\<lambda>value (lhs, rhs). if fn value then (lhs @ [value], rhs) else (lhs, rhs @ [value])) collection ([], [])"

function consumeUnsortable :: "string list list \<Rightarrow> sortEntry list \<Rightarrow> nat \<Rightarrow> string list list \<times> sortEntry list \<times> nat" where
  "consumeUnsortable vs unsortable index =
     (if unsortable \<noteq> [] \<and> x_i (last unsortable) \<le> index
      then consumeUnsortable (vs @ [x_vs (last unsortable)]) (butlast unsortable) (index + 1)
      else (vs, unsortable, index))"
  by pat_completeness auto
termination
  by (relation "measure (\<lambda>(_, unsortable, _). length unsortable)") auto

declare consumeUnsortable.simps [simp del]

type_synonym sortState = "string list list \<times> sortEntry list \<times> nat \<times> jsnum \<times> jsnum"

definition placeSortable :: "sortEntry \<Rightarrow> sortState \<Rightarrow> sortState" where
  "placeSortable entry st =
     (case st of (vs, unsortable, vsIndex, sm, weight) \<Rightarrow>
      case consumeUnsortable (vs @ [x_vs entry]) unsortable (vsIndex + length (x_vs entry)) of
        (vs', unsortable', vsIndex') \<Rightarrow>
          (vs', unsortable', vsIndex', num_add sm (num_mult (num_of (x_barycenter entry)) (num_of (x_weight entry))),
           num_add weight (num_of (x_weight entry))))"

definition sortable :: "sortEntry \<Rightarrow> bool" where
  "sortable entry \<longleftrightarrow> x_barycenter entry \<noteq> None"

definition sort_entries :: "sortEntry list \<Rightarrow> bool \<Rightarrow> sortResult" where
  "sort_entries entries biasRight =
     (let (lhs, rhs) = partition_util sortable entries;
          unsortable = sort_key (\<lambda>entry. - int (x_i entry)) rhs;
          sortable = sortBy (compareWithBias biasRight) lhs;
          (vs, unsortable', vsIndex) = consumeUnsortable [] unsortable 0;
          (vs', _, _, sm, weight) = fold placeSortable sortable (vs, unsortable', vsIndex, Real 0, Real 0)
      in if truthy_num weight then \<lparr>r_vs = concat vs', r_barycenter = Some (num_div sm weight), r_weight = Some weight\<rparr>
         else \<lparr>r_vs = concat vs', r_barycenter = None, r_weight = None\<rparr>)"

section \<open>The library routines\<close>

lemma sum_list_perm:
  assumes "mset xs = mset ys"
  shows "(\<Sum>x \<leftarrow> xs. f x :: 'b :: comm_monoid_add) = (\<Sum>y \<leftarrow> ys. f y)"
proof -
  have "sum_mset (mset (map f xs)) = sum_mset (mset (map f ys))" using assms by simp
  then show ?thesis unfolding sum_mset_sum_list .
qed

lemma distinct_pieces:
  assumes "distinct cs" "\<And>c. c \<in> set cs \<Longrightarrow> distinct (f c)" "\<And>c d. c \<in> set cs \<Longrightarrow> d \<in> set cs \<Longrightarrow> c \<noteq> d \<Longrightarrow> set (f c) \<inter> set (f d) = {}"
  shows "distinct (concat (map f cs))"
  using assms
proof (induction cs)
  case (Cons c cs)
  have "set (f c) \<inter> set (f d) = {}" if "d \<in> set cs" for d using Cons.prems(1) Cons.prems(3) [of c d] that by auto
  then show ?case using Cons by auto
qed simp

lemma partition_util_filter: "partition_util P xs = (filter P xs, filter (\<lambda>x. \<not> P x) xs)"
proof -
  have "fold (\<lambda>value (lhs, rhs). if P value then (lhs @ [value], rhs) else (lhs, rhs @ [value])) xs (a, b) =
      (a @ filter P xs, b @ filter (\<lambda>x. \<not> P x) xs)" for a b
    by (induction xs arbitrary: a b) auto
  then show ?thesis by (simp add: partition_util_def)
qed

lemma mset_insertBy: "mset (insertBy cmp x ys) = add_mset x (mset ys)"
  by (induction ys) auto

lemma mset_sortBy: "mset (sortBy cmp xs) = mset xs"
  by (induction xs) (auto simp: sortBy_def mset_insertBy)

lemma sorted_sortBy:
  assumes total: "\<And>x y. x \<in> set xs \<Longrightarrow> y \<in> set xs \<Longrightarrow> 0 < cmp x y \<Longrightarrow> cmp y x \<le> 0"
    and trans: "\<And>x y z. x \<in> set xs \<Longrightarrow> y \<in> set xs \<Longrightarrow> z \<in> set xs \<Longrightarrow> cmp x y \<le> 0 \<Longrightarrow> cmp y z \<le> 0 \<Longrightarrow> cmp x z \<le> 0"
  shows "sorted_wrt (\<lambda>x y. cmp x y \<le> 0) (sortBy cmp xs)"
proof -
  have ins: "sorted_wrt (\<lambda>x y. cmp x y \<le> 0) ys \<Longrightarrow> x \<in> set xs \<Longrightarrow> set ys \<subseteq> set xs \<Longrightarrow>
      sorted_wrt (\<lambda>x y. cmp x y \<le> 0) (insertBy cmp x ys)" for x ys
  proof (induction ys)
    case (Cons y ys)
    have "set (insertBy cmp x ys) = insert x (set ys)" using mset_insertBy [of cmp x ys] by (metis set_mset_add_mset_insert set_mset_mset)
    then show ?case using Cons total [of x y] trans [of x y] by auto
  qed simp
  have "set zs \<subseteq> set xs \<Longrightarrow> sorted_wrt (\<lambda>x y. cmp x y \<le> 0) (sortBy cmp zs)" for zs
  proof (induction zs)
    case (Cons z zs)
    have "set (sortBy cmp zs) = set zs" using mset_sortBy [of cmp zs] by (metis set_mset_mset)
    with Cons ins [of "sortBy cmp zs" z] show ?case by (simp add: sortBy_def)
  qed (simp add: sortBy_def)
  then show ?thesis by simp
qed

section \<open>Placing the entries\<close>

lemma consume_split:
  "\<exists>k \<le> length us. consumeUnsortable vs (rev us) index = (vs @ map x_vs (take k us), rev (drop k us), index + k) \<and>
     (k < length us \<longrightarrow> index + k < x_i (us ! k))"
proof (induction us arbitrary: vs index)
  case Nil
  then show ?case by (simp add: consumeUnsortable.simps)
next
  case (Cons u us)
  show ?case
  proof (cases "x_i u \<le> index")
    case True
    from Cons [of "vs @ [x_vs u]" "index + 1"] obtain k where k: "k \<le> length us"
      "consumeUnsortable (vs @ [x_vs u]) (rev us) (index + 1) = ((vs @ [x_vs u]) @ map x_vs (take k us), rev (drop k us), index + 1 + k)"
      "k < length us \<longrightarrow> index + 1 + k < x_i (us ! k)" by blast
    from k show ?thesis using True by (intro exI [of _ "Suc k"]) (simp add: consumeUnsortable.simps [of vs "rev us @ [u]"])
  next
    case False
    then show ?thesis by (intro exI [of _ 0]) (simp add: consumeUnsortable.simps [of vs "rev us @ [u]"])
  qed
qed

lemma append_in_shuffles: "zs \<in> shuffles xs ys \<Longrightarrow> us @ zs \<in> shuffles xs (us @ ys)"
  by (induction us) (auto intro: Cons_in_shuffles_rightI)

definition width :: "sortEntry list \<Rightarrow> nat" where
  "width xs = (\<Sum>x \<leftarrow> xs. length (x_vs x))"

text \<open>An entry without a barycenter is due once everything before it is placed.\<close>

definition due :: "sortEntry list \<Rightarrow> nat \<Rightarrow> bool" where
  "due us n \<longleftrightarrow> (\<forall>j < length us. x_i (us ! j) \<le> n + j)"

lemma due_drop:
  assumes "due us n" "k \<le> length us"
  shows "due (drop k us) (n + k)"
  unfolding due_def
proof (intro allI impI)
  fix j assume "j < length (drop k us)"
  then have "x_i (us ! (k + j)) \<le> n + (k + j)" using assms(1) unfolding due_def by (metis length_drop less_diff_conv add.commute)
  then show "x_i (drop k us ! j) \<le> n + k + j" using assms(2) by simp
qed

lemma place_all:
  assumes "due us (index + width xs)" "us \<noteq> [] \<longrightarrow> index < x_i (us ! 0)"
  shows "\<exists>order \<in> shuffles xs us. \<exists>rest. fold placeSortable xs (vs, rev us, index, sm, weight) = (vs @ map x_vs order, rest)"
  using assms
proof (induction xs arbitrary: us index vs sm weight)
  case Nil
  then have "us = []" by (auto simp: due_def width_def dest!: spec [of _ 0])
  then show ?case by simp
next
  case (Cons x xs)
  let ?n = "index + length (x_vs x)"
  from consume_split [of us "vs @ [x_vs x]" ?n] obtain k where k: "k \<le> length us"
    "consumeUnsortable (vs @ [x_vs x]) (rev us) ?n = ((vs @ [x_vs x]) @ map x_vs (take k us), rev (drop k us), ?n + k)"
    "k < length us \<longrightarrow> ?n + k < x_i (us ! k)" by blast
  have "due (drop k us) (?n + k + width xs)" using due_drop [OF Cons.prems(1) k(1)] by (simp add: width_def ac_simps)
  moreover have "drop k us \<noteq> [] \<longrightarrow> ?n + k < x_i (drop k us ! 0)" using k(1,3) by auto
  moreover obtain sm' weight' where place:
    "placeSortable x (vs, rev us, index, sm, weight) = (vs @ x_vs x # map x_vs (take k us), rev (drop k us), ?n + k, sm', weight')"
    using k(2) by (simp add: placeSortable_def)
  ultimately obtain order rest where order: "order \<in> shuffles xs (drop k us)"
    "fold placeSortable xs (vs @ x_vs x # map x_vs (take k us), rev (drop k us), ?n + k, sm', weight') =
       ((vs @ x_vs x # map x_vs (take k us)) @ map x_vs order, rest)"
    using Cons.IH [of "drop k us" "?n + k" "vs @ x_vs x # map x_vs (take k us)" sm' weight'] by blast
  have "take k us @ order \<in> shuffles xs us" using append_in_shuffles [OF order(1), of "take k us"] by simp
  then have "x # take k us @ order \<in> shuffles (x # xs) us" by (rule Cons_in_shuffles_leftI)
  moreover have "fold placeSortable (x # xs) (vs, rev us, index, sm, weight) = (vs @ map x_vs (x # take k us @ order), rest)"
    using order(2) place by simp
  ultimately show ?case by blast
qed

text \<open>Different indices below the number of nodes are due in time.\<close>

lemma increasing_due:
  assumes "sorted_wrt (<) (map x_i us)" "\<forall>x \<in> set us. x_i x < n + length us"
  shows "due us n"
proof -
  have step: "j + d < length us \<Longrightarrow> x_i (us ! j) + d \<le> x_i (us ! (j + d))" for j d
  proof (induction d)
    case (Suc d)
    then have "x_i (us ! (j + d)) < x_i (us ! (j + Suc d))" using sorted_wrt_nth_less [OF assms(1), of "j + d" "j + Suc d"] by simp
    with Suc show ?case by simp
  qed simp
  have "x_i (us ! j) \<le> n + j" if "j < length us" for j
  proof -
    have "x_i (us ! j) + (length us - 1 - j) \<le> x_i (us ! (length us - 1))" using step [of j "length us - 1 - j"] that by simp
    moreover have "x_i (us ! (length us - 1)) < n + length us" using assms(2) that by simp
    ultimately show ?thesis using that by linarith
  qed
  then show ?thesis by (simp add: due_def)
qed

definition by_index :: "sortEntry list \<Rightarrow> sortEntry list" where
  "by_index xs = rev (sort_key (\<lambda>x. - int (x_i x)) xs)"

lemma by_index_props:
  shows "mset (by_index xs) = mset xs" "distinct (map x_i xs) \<Longrightarrow> sorted_wrt (<) (map x_i (by_index xs))"
proof -
  show m: "mset (by_index xs) = mset xs" by (simp add: by_index_def)
  assume "distinct (map x_i xs)"
  then have "distinct (map x_i (by_index xs))" using m by (metis mset_eq_imp_distinct_iff mset_map)
  moreover have "sorted_wrt (\<lambda>x y. - int (x_i x) \<le> - int (x_i y)) (sort_key (\<lambda>x. - int (x_i x)) xs)"
    using sorted_sort_key [of "\<lambda>x. - int (x_i x)" xs] by (simp add: sorted_wrt_map)
  then have "sorted (map x_i (by_index xs))" by (simp add: by_index_def sorted_wrt_map sorted_wrt_rev)
  ultimately show "sorted_wrt (<) (map x_i (by_index xs))" by (simp add: strict_sorted_iff)
qed

lemma sort_entries_vs:
  assumes "distinct (map x_i (filter (\<lambda>x. \<not> sortable x) entries))"
    and "\<forall>x \<in> set entries. \<not> sortable x \<longrightarrow> x_i x < width (filter sortable entries) + length (filter (\<lambda>x. \<not> sortable x) entries)"
  shows "\<exists>order \<in> shuffles (sortBy (compareWithBias bias) (filter sortable entries)) (by_index (filter (\<lambda>x. \<not> sortable x) entries)).
    r_vs (sort_entries entries bias) = concat (map x_vs order)"
proof -
  let ?lhs = "filter sortable entries" and ?rhs = "filter (\<lambda>x. \<not> sortable x) entries"
  let ?xs = "sortBy (compareWithBias bias) ?lhs" and ?us = "by_index ?rhs"
  have same: "set ?us = set ?rhs" "length ?us = length ?rhs"
    using mset_eq_setD [OF by_index_props(1) [of ?rhs]] mset_eq_length [OF by_index_props(1) [of ?rhs]] .
  have "width ?xs = width ?lhs" unfolding width_def by (rule sum_list_perm) (rule mset_sortBy)
  then have due: "due ?us (width ?xs)" using increasing_due [of ?us "width ?lhs"] by_index_props(2) [OF assms(1)] assms(2) same by auto
  from consume_split [of ?us "[]" 0] obtain k where k: "k \<le> length ?us"
    "consumeUnsortable [] (rev ?us) 0 = (map x_vs (take k ?us), rev (drop k ?us), k)" "k < length ?us \<longrightarrow> k < x_i (?us ! k)" by auto
  have "due (drop k ?us) (k + width ?xs)" using due_drop [OF due k(1)] by (simp add: add.commute)
  moreover have "drop k ?us \<noteq> [] \<longrightarrow> k < x_i (drop k ?us ! 0)" using k(1,3) by auto
  ultimately obtain order rest where order: "order \<in> shuffles ?xs (drop k ?us)"
    "fold placeSortable ?xs (map x_vs (take k ?us), rev (drop k ?us), k, Real 0, Real 0) = (map x_vs (take k ?us) @ map x_vs order, rest)"
    using place_all [of "drop k ?us" k ?xs] by blast
  have "take k ?us @ order \<in> shuffles ?xs ?us" using append_in_shuffles [OF order(1), of "take k ?us"] by simp
  moreover have "r_vs (sort_entries entries bias) = concat (map x_vs (take k ?us @ order))"
    using k(2) order(2) by (cases rest) (simp add: sort_entries_def partition_util_filter by_index_def Let_def)
  ultimately show ?thesis by blast
qed

text \<open>Without \<open>NaN\<close> the comparison is an order.\<close>

lemma sorted_by_barycenter:
  assumes "\<forall>x \<in> set xs. num_of (x_barycenter x) \<noteq> NaN"
  shows "sorted_wrt (\<lambda>x y. \<not> num_less (num_of (x_barycenter y)) (num_of (x_barycenter x))) (sortBy (compareWithBias bias) xs)"
proof (rule sorted_wrt_mono_rel [rotated])
  show "sorted_wrt (\<lambda>x y. compareWithBias bias x y \<le> 0) (sortBy (compareWithBias bias) xs)"
  proof (rule sorted_sortBy)
    fix x y z assume xyz: "x \<in> set xs" "y \<in> set xs" "z \<in> set xs" "compareWithBias bias x y \<le> 0" "compareWithBias bias y z \<le> 0"
    note lin = num_less_linear [of "num_of (x_barycenter x)" "num_of (x_barycenter y)"]
      num_less_linear [of "num_of (x_barycenter y)" "num_of (x_barycenter z)"]
    show "compareWithBias bias x z \<le> 0"
      using xyz lin assms num_less_trans [of "num_of (x_barycenter x)" "num_of (x_barycenter y)" "num_of (x_barycenter z)"]
      by (auto simp: compareWithBias_def dest: num_less_asym split: if_splits)
  qed (auto simp: compareWithBias_def dest: num_less_asym split: if_splits)
qed (auto simp: compareWithBias_def dest: num_less_asym split: if_splits)

text \<open>If the entries without a barycenter have different indices below the number of nodes, \<open>sort\<close> loses none of the
  entries: the result is made of all of them, the entries with a barycenter in the order of their barycenters (when none is
  \<open>NaN\<close>) and the others in the order of their indices.\<close>

theorem sort_keeps_every_entry:
  assumes "distinct (map x_i (filter (\<lambda>x. \<not> sortable x) entries))"
    and "\<forall>x \<in> set entries. \<not> sortable x \<longrightarrow> x_i x < width (filter sortable entries) + length (filter (\<lambda>x. \<not> sortable x) entries)"
  shows "\<exists>order. mset order = mset entries \<and> r_vs (sort_entries entries bias) = concat (map x_vs order) \<and>
    sorted_wrt (\<lambda>x y. x_i x < x_i y) (filter (\<lambda>x. \<not> sortable x) order) \<and>
    ((\<forall>x \<in> set entries. sortable x \<longrightarrow> x_barycenter x \<noteq> Some NaN) \<longrightarrow>
       sorted_wrt (\<lambda>x y. \<not> num_less (num_of (x_barycenter y)) (num_of (x_barycenter x))) (filter sortable order))"
proof -
  let ?lhs = "filter sortable entries" and ?rhs = "filter (\<lambda>x. \<not> sortable x) entries"
  let ?xs = "sortBy (compareWithBias bias) ?lhs" and ?us = "by_index ?rhs"
  obtain order where order: "order \<in> shuffles ?xs ?us" "r_vs (sort_entries entries bias) = concat (map x_vs order)"
    using sort_entries_vs [OF assms] by blast
  have "mset order = mset ?xs + mset ?us" using order(1) by (simp add: mset_shuffles)
  then have perm: "mset order = mset entries" by (simp add: mset_sortBy by_index_props(1) flip: multiset_partition)
  have sets: "set ?xs = set ?lhs" "set ?us = set ?rhs"
    using mset_eq_setD [OF mset_sortBy [of _ ?lhs]] mset_eq_setD [OF by_index_props(1) [of ?rhs]] .
  then have parts: "filter sortable ?xs = ?xs" "filter sortable ?us = []" "filter (\<lambda>x. \<not> sortable x) ?xs = []" "filter (\<lambda>x. \<not> sortable x) ?us = ?us"
    by (auto simp: filter_id_conv filter_empty_conv)
  have "filter sortable order \<in> filter sortable ` shuffles ?xs ?us" "filter (\<lambda>x. \<not> sortable x) order \<in> filter (\<lambda>x. \<not> sortable x) ` shuffles ?xs ?us"
    using order(1) by blast+
  then have "filter sortable order = ?xs" "filter (\<lambda>x. \<not> sortable x) order = ?us" by (simp_all add: filter_shuffles parts)
  moreover have "sorted_wrt (\<lambda>x y. x_i x < x_i y) ?us" using by_index_props(2) [OF assms(1)] by (simp add: sorted_wrt_map)
  moreover have "sorted_wrt (\<lambda>x y. \<not> num_less (num_of (x_barycenter y)) (num_of (x_barycenter x))) ?xs"
    if "\<forall>x \<in> set entries. sortable x \<longrightarrow> x_barycenter x \<noteq> Some NaN"
    using that by (intro sorted_by_barycenter) (auto simp: num_of_def sortable_def split: option.splits)
  ultimately show ?thesis using perm order(2) by (intro exI [of _ order]) simp
qed

definition exampleEntries :: "sortEntry list" where
  "exampleEntries =
     [\<lparr>x_vs = [''a''], x_i = 0, x_barycenter = Some (Real 2), x_weight = Some (Real 1)\<rparr>,
      \<lparr>x_vs = [''b''], x_i = 1, x_barycenter = None, x_weight = None\<rparr>,
      \<lparr>x_vs = [''c'', ''d''], x_i = 2, x_barycenter = Some (Real 1), x_weight = Some (Real 3)\<rparr>]"

theorem sort_keeps_every_entry_witness:
  "sort_entries exampleEntries False = \<lparr>r_vs = [''c'', ''d'', ''b'', ''a''], r_barycenter = Some (Real (5 / 4)), r_weight = Some (Real 4)\<rparr> \<and>
   (\<exists>order. mset order = mset exampleEntries \<and> r_vs (sort_entries exampleEntries False) = concat (map x_vs order))"
proof
  show "sort_entries exampleEntries False = \<lparr>r_vs = [''c'', ''d'', ''b'', ''a''], r_barycenter = Some (Real (5 / 4)), r_weight = Some (Real 4)\<rparr>"
    by (simp add: sort_entries_def exampleEntries_def partition_util_def sortBy_def compareWithBias_def num_of_def
        consumeUnsortable.simps placeSortable_def num_mult_def num_div_def truthy_num_def sortable_def)
  have "distinct (map x_i (filter (\<lambda>x. \<not> sortable x) exampleEntries))"
    "\<forall>x \<in> set exampleEntries. \<not> sortable x \<longrightarrow>
       x_i x < width (filter sortable exampleEntries) + length (filter (\<lambda>x. \<not> sortable x) exampleEntries)"
    by (simp_all add: exampleEntries_def width_def sortable_def)
  from sort_keeps_every_entry [OF this, of False]
  show "\<exists>order. mset order = mset exampleEntries \<and> r_vs (sort_entries exampleEntries False) = concat (map x_vs order)" by blast
qed

end
