(* ===== verification/Dagre_Crossing.thy ===== *)
theory Dagre_Crossing
  imports Dagre_Util Dagre_Acyclic Dagre_Sort
begin

text \<open>
  The number of crossings between layers (\<open>lib/order/cross-count\<close>), which the ordering of a layout minimises. The
  source adds up the crossings with an accumulator tree: a complete binary tree in an array whose leaves are the positions
  in the south layer. The theorem: the result is the sum over all pairs of edges that cross, of the products of their
  weights.
\<close>

section \<open>The algorithm\<close>

record southEntry =
  s_pos :: "nat option"
  s_weight :: int

text \<open>\<open>_.zipObject(southLayer, \<dots>)\<close>: the position of a node, the last one if it occurs twice.\<close>

definition southPos :: "string list \<Rightarrow> nat obj" where
  "southPos layer = fold (\<lambda>(v, i). put v i) (zip layer [0..<length layer]) []"

definition entryFor :: "layoutGraph \<Rightarrow> nat obj \<Rightarrow> edgeObj \<Rightarrow> southEntry list \<Rightarrow> southEntry list result" where
  "entryFor g pos e acc = rbind (deref (edgeOfObj e g)) (\<lambda>l. Inr (acc @ [\<lparr>s_pos = get pos (e_w e), s_weight = l_weight l\<rparr>]))"

text \<open>\<open>_.sortBy(\<dots>, "pos")\<close> is stable and puts entries without a position last.\<close>

definition sortEntries :: "southEntry list \<Rightarrow> southEntry list" where
  "sortEntries es = sort_key (\<lambda>x. the (s_pos x)) (filter (\<lambda>x. s_pos x \<noteq> None) es) @ filter (\<lambda>x. s_pos x = None) es"

definition southEntries :: "layoutGraph \<Rightarrow> string list \<Rightarrow> string list \<Rightarrow> southEntry list result" where
  "southEntries g northLayer southLayer =
     rfold (\<lambda>v acc. rbind (rfold (entryFor g (southPos southLayer)) (each (outEdges v None g)) []) (\<lambda>es.
       Inr (acc @ sortEntries es))) northLayer []"

text \<open>\<open>while (firstIndex < southLayer.length) firstIndex <<= 1;\<close>\<close>

function leafCount :: "nat \<Rightarrow> nat \<Rightarrow> nat" where
  "leafCount n i = (if 0 < i \<and> i < n then leafCount n (2 * i) else i)"
  by pat_completeness auto
termination
  by (relation "measure (\<lambda>(n, i). n - i)") auto

declare leafCount.simps [simp del]

text \<open>The \<open>while\<close> loop of one entry; the state is \<open>index\<close>, the tree and \<open>weightSum\<close>.\<close>

function climb :: "int \<Rightarrow> nat \<Rightarrow> int list \<Rightarrow> int \<Rightarrow> int list \<times> int" where
  "climb w index tree weightSum =
     (if index > 0 then
        let weightSum' = (if index mod 2 = 1 then weightSum + tree ! (index + 1) else weightSum);
            index' = (index - 1) div 2
        in climb w index' (tree[index' := tree ! index' + w]) weightSum'
      else (tree, weightSum))"
  by pat_completeness auto
termination
  by (relation "measure (\<lambda>(_, index, _, _). index)") auto

declare climb.simps [simp del]

text \<open>The body of the loop over the entries. Without a position the index is \<open>NaN\<close>, and neither the sum nor the numbered
  elements of the array change.\<close>

definition countEntry :: "nat \<Rightarrow> southEntry \<Rightarrow> int list \<times> int \<Rightarrow> int list \<times> int" where
  "countEntry firstIndex x st =
     (case st of (tree, cc) \<Rightarrow>
      case s_pos x of
        None \<Rightarrow> (tree, cc)
      | Some p \<Rightarrow>
          let index = p + firstIndex;
              (tree', weightSum) = climb (s_weight x) index (tree[index := tree ! index + s_weight x]) 0
          in (tree', cc + s_weight x * weightSum))"

definition twoLayerCrossCount :: "layoutGraph \<Rightarrow> string list \<Rightarrow> string list \<Rightarrow> int result" where
  "twoLayerCrossCount g northLayer southLayer =
     rbind (southEntries g northLayer southLayer) (\<lambda>entries.
       let n = leafCount (length southLayer) 1; treeSize = 2 * n - 1
       in Inr (snd (fold (countEntry (n - 1)) entries (replicate treeSize 0, 0))))"

fun layerPairs :: "string list list \<Rightarrow> (string list \<times> string list) list" where
  "layerPairs (north # south # ls) = (north, south) # layerPairs (south # ls)"
| "layerPairs _ = []"

definition crossCount :: "layoutGraph \<Rightarrow> string list list \<Rightarrow> int result" where
  "crossCount g layering =
     rfold (\<lambda>(north, south) cc. rbind (twoLayerCrossCount g north south) (\<lambda>c. Inr (cc + c))) (layerPairs layering) 0"

section \<open>The accumulator tree\<close>

text \<open>Nodes are numbered from 1 here, so that the parent of \<open>m\<close> is \<open>m div 2\<close>; with \<open>2 ^ k\<close> leaves the leaf at position \<open>j\<close> is
  \<open>2 ^ k + j\<close>. A node at level \<open>t\<close> above the leaves holds the weights of the leaves below it.\<close>

definition below :: "nat \<Rightarrow> nat \<Rightarrow> nat set" where
  "below k m = {j. j < 2 ^ k \<and> (\<exists>t. (2 ^ k + j) div 2 ^ t = m)}"

definition accumulates :: "nat \<Rightarrow> (nat \<Rightarrow> int) \<Rightarrow> int list \<Rightarrow> bool" where
  "accumulates k L tree \<longleftrightarrow> length tree = 2 ^ (k + 1) - 1 \<and>
     (\<forall>m. 1 \<le> m \<and> m < 2 ^ (k + 1) \<longrightarrow> tree ! (m - 1) = (\<Sum>j \<in> below k m. L j))"

lemma leafCount_power: "\<exists>k. leafCount n (2 ^ i) = 2 ^ k \<and> n \<le> 2 ^ k"
proof (induction "n - 2 ^ i" arbitrary: i rule: less_induct)
  case less
  show ?case
  proof (cases "2 ^ i < n")
    case True
    then have "n - 2 ^ Suc i < n - 2 ^ i" using zero_less_power [of "2 :: nat" i] unfolding power_Suc by linarith
    from less [OF this] True show ?thesis by (simp add: leafCount.simps [of n "2 ^ i"])
  next
    case False
    then show ?thesis by (auto simp: leafCount.simps [of n "2 ^ i"])
  qed
qed

lemma level_bounds:
  fixes j k u :: nat
  assumes "j < 2 ^ k" "u \<le> k"
  shows "2 ^ (k - u) \<le> (2 ^ k + j) div 2 ^ u" "(2 ^ k + j) div 2 ^ u < 2 ^ (k - u + 1)"
proof -
  have pow: "(2 :: nat) ^ k = 2 ^ (k - u) * 2 ^ u" using assms(2) by (simp flip: power_add)
  have "2 ^ (k - u) = (2 ^ k) div (2 :: nat) ^ u" by (simp add: pow)
  also have "\<dots> \<le> (2 ^ k + j) div 2 ^ u" by (rule div_le_mono) simp
  finally show "2 ^ (k - u) \<le> (2 ^ k + j) div 2 ^ u" .
  have "2 ^ k + j < 2 ^ (k - u + 1) * 2 ^ u" using assms(1) pow by (simp add: mult.commute)
  then show "(2 ^ k + j) div 2 ^ u < 2 ^ (k - u + 1)" by (rule less_mult_imp_div_less)
qed

lemma level_unique:
  fixes j k m :: nat
  assumes "j < 2 ^ k" "t \<le> k" "2 ^ (k - t) \<le> m" "m < 2 ^ (k - t + 1)" "(2 ^ k + j) div 2 ^ u = m"
  shows "u = t"
proof (rule ccontr)
  assume "u \<noteq> t"
  then consider "u < t" | "t < u" "u \<le> k" | "k < u" by linarith
  then show False
  proof cases
    case 1
    then have "(2 :: nat) ^ (k - t + 1) \<le> 2 ^ (k - u)" using assms(2) by (intro power_increasing) auto
    with level_bounds(1) [OF assms(1), of u] 1 assms(2,4,5) show False by linarith
  next
    case 2
    then have "(2 :: nat) ^ (k - u + 1) \<le> 2 ^ (k - t)" by (intro power_increasing) auto
    with level_bounds(2) [OF assms(1) 2(2)] assms(3,5) show False by linarith
  next
    case 3
    then have "(2 :: nat) ^ (k + 1) \<le> 2 ^ u" by (intro power_increasing) auto
    then have "2 ^ k + j < 2 ^ u" using assms(1) by simp
    then have "m = 0" using assms(5) by simp
    with assms(3) show False by simp
  qed
qed

lemma half_level: "(n :: nat) div 2 ^ (t + 1) = n div 2 ^ t div 2"
  unfolding power_add power_one_right div_mult2_eq ..

lemma below_level:
  fixes k m :: nat
  assumes "t \<le> k" "2 ^ (k - t) \<le> m" "m < 2 ^ (k - t + 1)"
  shows "below k m = {j. j < 2 ^ k \<and> (2 ^ k + j) div 2 ^ t = m}"
  unfolding below_def using level_unique [OF _ assms] by blast

lemma right_of:
  fixes y m :: nat
  shows "even m \<Longrightarrow> m < y \<longleftrightarrow> y = m + 1 \<or> m div 2 < y div 2" "odd m \<Longrightarrow> m < y \<longleftrightarrow> m div 2 < y div 2"
  by presburger+

text \<open>The loop adds the weight to all ancestors and finds the weight of all leaves to the right.\<close>

definition others_ok :: "nat \<Rightarrow> (nat \<Rightarrow> int) \<Rightarrow> nat \<Rightarrow> int list \<Rightarrow> bool" where
  "others_ok k L p tree \<longleftrightarrow> length tree = 2 ^ (k + 1) - 1 \<and>
     (\<forall>q. 1 \<le> q \<and> q < 2 ^ (k + 1) \<and> p \<notin> below k q \<longrightarrow> tree ! (q - 1) = (\<Sum>j \<in> below k q. L j))"

lemma right_sum:
  fixes L :: "nat \<Rightarrow> int"
  assumes t: "t < k" "p < 2 ^ k" and ok: "others_ok k L p tree" and m: "m = (2 ^ k + p) div 2 ^ t"
  shows "(\<Sum>j \<in> {j. j < 2 ^ k \<and> m < (2 ^ k + j) div 2 ^ t}. L j) =
    (if even m then tree ! m else 0) + (\<Sum>j \<in> {j. j < 2 ^ k \<and> m div 2 < (2 ^ k + j) div 2 ^ (t + 1)}. L j)"
proof -
  have half: "(2 ^ k + j) div 2 ^ (t + 1) = (2 ^ k + j) div 2 ^ t div 2" for j :: nat by (rule half_level)
  have b: "2 ^ (k - t) \<le> m" "m < 2 ^ (k - t + 1)" using level_bounds [OF t(2), of t] t(1) m by auto
  show ?thesis
  proof (cases "even m")
    case False
    then show ?thesis unfolding half right_of(2) [OF False] by simp
  next
    case True
    have "m + 1 \<noteq> 2 * 2 ^ (k - t)" using True by presburger
    then have "m + 1 \<noteq> 2 ^ (k - t + 1)" by simp
    then have b': "2 ^ (k - t) \<le> m + 1" "m + 1 < 2 ^ (k - t + 1)" using b by linarith+
    have bl: "below k (m + 1) = {j. j < 2 ^ k \<and> (2 ^ k + j) div 2 ^ t = m + 1}" using below_level [OF _ b'] t(1) by simp
    then have "p \<notin> below k (m + 1)" using m by simp
    moreover have "m + 1 < 2 ^ (k + 1)"
      using b'(2) power_increasing [of "k - t + 1" "k + 1" "2 :: nat"] by linarith
    ultimately have "tree ! (m + 1 - 1) = (\<Sum>j \<in> below k (m + 1). L j)" using ok unfolding others_ok_def by auto
    then have tm: "tree ! m = (\<Sum>j \<in> below k (m + 1). L j)" by simp
    have "{j. j < 2 ^ k \<and> m < (2 ^ k + j) div 2 ^ t} =
        below k (m + 1) \<union> {j. j < 2 ^ k \<and> m div 2 < (2 ^ k + j) div 2 ^ (t + 1)}"
      unfolding bl half using right_of(1) [OF True] by auto
    moreover have "below k (m + 1) \<inter> {j. j < 2 ^ k \<and> m div 2 < (2 ^ k + j) div 2 ^ (t + 1)} = {}"
      unfolding bl half using True by auto
    moreover have "finite (below k (m + 1))" unfolding bl by simp
    ultimately show ?thesis using True tm by (simp add: sum.union_disjoint)
  qed
qed

lemma climb_ok:
  fixes L :: "nat \<Rightarrow> int"
  assumes p: "p < 2 ^ k"
  shows "t \<le> k \<Longrightarrow> m = (2 ^ k + p) div 2 ^ t \<Longrightarrow> others_ok k L p tree \<Longrightarrow>
    \<exists>tree'. climb w (m - 1) tree s = (tree', s + (\<Sum>j \<in> {j. j < 2 ^ k \<and> m < (2 ^ k + j) div 2 ^ t}. L j)) \<and>
      length tree' = length tree \<and>
      (\<forall>q. 1 \<le> q \<and> q < 2 ^ (k + 1) \<longrightarrow>
         tree' ! (q - 1) = tree ! (q - 1) + (if \<exists>u > t. (2 ^ k + p) div 2 ^ u = q then w else 0))"
proof (induction "k - t" arbitrary: t m tree s)
  case 0
  then have tk: "t = k" by simp
  have m1: "m = 1" using level_bounds [OF p, of k] 0(3) tk by simp
  have none: "{j :: nat. j < 2 ^ k \<and> 1 < (2 ^ k + j) div 2 ^ k} = {}" using level_bounds(2) [of _ k k] by fastforce
  have anc: "\<not> (\<exists>u > k. (2 ^ k + p) div 2 ^ u = q)" if "1 \<le> q" for q
  proof
    assume "\<exists>u > k. (2 ^ k + p) div 2 ^ u = q"
    then obtain u where u: "k < u" "(2 ^ k + p) div 2 ^ u = q" by blast
    then have "(2 :: nat) ^ (k + 1) \<le> 2 ^ u" by (intro power_increasing) auto
    then have "2 ^ k + p < 2 ^ u" using p by simp
    with u(2) that show False by simp
  qed
  have "climb w (m - 1) tree s = (tree, s)" by (simp add: climb.simps m1)
  then show ?case unfolding tk m1 none using anc by (intro exI [of _ tree]) (auto simp del: One_nat_def)
next
  case (Suc d)
  then have tk: "t < k" "d = k - (t + 1)" "t + 1 \<le> k" by auto
  let ?m' = "(2 ^ k + p) div 2 ^ (t + 1)"
  have half: "?m' = m div 2" using Suc.prems(2) half_level by simp
  have lb: "2 ^ (k - t) \<le> m" using level_bounds(1) [OF p, of t] tk Suc.prems(2) by simp
  have "(2 :: nat) \<le> 2 ^ (k - t)" using tk(1) power_increasing [of 1 "k - t" "2 :: nat"] by simp
  with lb have m2: "2 \<le> m" by simp
  have idx: "(m - 1 - 1) div 2 = ?m' - 1" "(m - 1) mod 2 = 1 \<longleftrightarrow> even m" "m - 1 + 1 = m" unfolding half using m2 by presburger+
  let ?tree = "tree[?m' - 1 := tree ! (?m' - 1) + w]"
  have anc: "p \<in> below k ?m'" unfolding below_def using p by blast
  have m'pos: "1 \<le> ?m'" "?m' < 2 ^ (k + 1)" "length tree = 2 ^ (k + 1) - 1"
  proof -
    show "1 \<le> ?m'" unfolding half using m2 by linarith
    have "(2 :: nat) ^ (k - (t + 1) + 1) \<le> 2 ^ (k + 1)" by (intro power_increasing) auto
    with level_bounds(2) [OF p tk(3)] show "?m' < 2 ^ (k + 1)" by linarith
    show "length tree = 2 ^ (k + 1) - 1" using Suc.prems(3) by (simp add: others_ok_def)
  qed
  have ne: "q - 1 \<noteq> ?m' - 1" if "1 \<le> q" "q \<noteq> ?m'" for q using that m'pos(1) by linarith
  have ok': "others_ok k L p ?tree"
    using Suc.prems(3) anc ne unfolding others_ok_def by (metis length_list_update nth_list_update_neq)
  have run: "climb w (m - 1) tree s = climb w (?m' - 1) ?tree (s + (if even m then tree ! m else 0))"
    using m2 idx by (subst climb.simps) (simp add: Let_def)
  from Suc.hyps(1) [OF tk(2,3) refl ok', of "s + (if even m then tree ! m else 0)"] obtain tree' where
    tree': "climb w (?m' - 1) ?tree (s + (if even m then tree ! m else 0)) = (tree', s + (if even m then tree ! m else 0) +
        (\<Sum>j \<in> {j. j < 2 ^ k \<and> ?m' < (2 ^ k + j) div 2 ^ (t + 1)}. L j))" "length tree' = length ?tree"
      "\<forall>q. 1 \<le> q \<and> q < 2 ^ (k + 1) \<longrightarrow>
         tree' ! (q - 1) = ?tree ! (q - 1) + (if \<exists>u > t + 1. (2 ^ k + p) div 2 ^ u = q then w else 0)" by blast
  have "tree' ! (q - 1) = tree ! (q - 1) + (if \<exists>u > t. (2 ^ k + p) div 2 ^ u = q then w else 0)"
    if q: "1 \<le> q" "q < 2 ^ (k + 1)" for q
  proof (cases "q = ?m'")
    case True
    have "\<not> (\<exists>u > t + 1. (2 ^ k + p) div 2 ^ u = q)"
      using level_unique [OF p tk(3) level_bounds [OF p tk(3)]] True by auto
    then have "(if \<exists>u > t + 1. (2 ^ k + p) div 2 ^ u = q then w else 0) = 0" by (rule if_not_P)
    moreover have "\<exists>u > t. (2 ^ k + p) div 2 ^ u = q" using True by (intro exI [of _ "t + 1"]) simp
    moreover have "?tree ! (q - 1) = tree ! (q - 1) + w" using True m'pos by (simp add: nth_list_update)
    ultimately show ?thesis using tree'(3) q by simp
  next
    case False
    have "(\<exists>u > t + 1. (2 ^ k + p) div 2 ^ u = q) \<longleftrightarrow> (\<exists>u > t. (2 ^ k + p) div 2 ^ u = q)"
    proof -
      have "u > t + 1" if "u > t" "(2 ^ k + p) div 2 ^ u = q" for u using that False by (cases "u = t + 1") auto
      moreover have "u > t" if "u > t + 1" for u using that by simp
      ultimately show ?thesis by blast
    qed
    moreover have "?tree ! (q - 1) = tree ! (q - 1)" using ne [OF q(1) False] by (metis nth_list_update_neq)
    ultimately show ?thesis using tree'(3) q by simp
  qed
  moreover have "s + (if even m then tree ! m else 0) + (\<Sum>j \<in> {j. j < 2 ^ k \<and> ?m' < (2 ^ k + j) div 2 ^ (t + 1)}. L j) =
      s + (\<Sum>j \<in> {j. j < 2 ^ k \<and> m < (2 ^ k + j) div 2 ^ t}. L j)"
    using right_sum [OF tk(1) p Suc.prems(3,2)] unfolding half by simp
  ultimately show ?case using run tree'(1,2) by (intro exI [of _ tree']) simp
qed

lemma sum_bump:
  fixes L :: "nat \<Rightarrow> int"
  assumes "finite A"
  shows "(\<Sum>j \<in> A. (L(p := L p + w)) j) = (\<Sum>j \<in> A. L j) + (if p \<in> A then w else 0)"
proof -
  have "(\<Sum>j \<in> A. (L(p := L p + w)) j) = (\<Sum>j \<in> A. L j + (if j = p then w else 0))" by (rule sum.cong) auto
  then show ?thesis using assms by (simp add: sum.distrib sum.delta)
qed

lemma finite_below [simp]: "finite (below k m)"
  by (rule finite_subset [of _ "{..<2 ^ k}"]) (auto simp: below_def)

lemma countEntry_ok:
  assumes p: "p < 2 ^ k" "s_pos x = Some p" and ok: "accumulates k L tree"
  shows "\<exists>tree'. countEntry (2 ^ k - 1) x (tree, cc) = (tree', cc + s_weight x * (\<Sum>j \<in> {p<..<2 ^ k}. L j)) \<and>
    accumulates k (L(p := L p + s_weight x)) tree'"
proof -
  let ?w = "s_weight x" and ?i = "2 ^ k + p - 1"
  let ?tree = "tree[?i := tree ! ?i + ?w]"
  have len: "length tree = 2 ^ (k + 1) - 1" "?i < length tree" using ok p(1) by (auto simp: accumulates_def)
  have leaf: "p \<in> below k (2 ^ k + p)" using p(1) by (auto simp: below_def intro: exI [of _ 0])
  have ne: "q - 1 \<noteq> ?i" if "1 \<le> q" "q \<noteq> 2 ^ k + p" for q
    using that zero_less_power [of "2 :: nat" k] by linarith
  have "others_ok k L p ?tree"
    using ok leaf ne unfolding accumulates_def others_ok_def by (metis length_list_update nth_list_update_neq)
  from climb_ok [OF p(1), of 0 "2 ^ k + p" L ?tree ?w 0] this obtain tree' where
    tree': "climb ?w ?i ?tree 0 = (tree', \<Sum>j \<in> {j. j < 2 ^ k \<and> 2 ^ k + p < 2 ^ k + j}. L j)" "length tree' = length tree"
      "\<forall>q. 1 \<le> q \<and> q < 2 ^ (k + 1) \<longrightarrow>
         tree' ! (q - 1) = ?tree ! (q - 1) + (if \<exists>u > 0. (2 ^ k + p) div 2 ^ u = q then ?w else 0)" by auto
  have "tree' ! (q - 1) = (\<Sum>j \<in> below k q. (L(p := L p + ?w)) j)" if q: "1 \<le> q" "q < 2 ^ (k + 1)" for q
  proof -
    have "?tree ! (q - 1) + (if \<exists>u > 0. (2 ^ k + p) div 2 ^ u = q then ?w else 0) =
        tree ! (q - 1) + (if p \<in> below k q then ?w else 0)"
    proof (cases "q = 2 ^ k + p")
      case True
      have "\<not> (\<exists>u > 0. (2 ^ k + p) div 2 ^ u = q)" using level_unique [OF p(1), of 0 q] True p(1) by auto
      then have "(if \<exists>u > 0. (2 ^ k + p) div 2 ^ u = q then ?w else 0) = 0" by (rule if_not_P)
      then show ?thesis using True leaf len by simp
    next
      case False
      then have "(\<exists>u > 0. (2 ^ k + p) div 2 ^ u = q) \<longleftrightarrow> p \<in> below k q"
      proof -
        have "u > 0" if "(2 ^ k + p) div 2 ^ u = q" for u using that False by (cases u) auto
        then show ?thesis using p(1) unfolding below_def by blast
      qed
      then show ?thesis using ne [OF q(1) False] by simp
    qed
    moreover have "tree ! (q - 1) = (\<Sum>j \<in> below k q. L j)" using ok q by (simp add: accumulates_def)
    ultimately show ?thesis unfolding sum_bump [OF finite_below] using tree'(3) q by simp
  qed
  then have "accumulates k (L(p := L p + ?w)) tree'" using tree'(2) len by (simp add: accumulates_def)
  moreover have "{j. j < 2 ^ k \<and> 2 ^ k + p < 2 ^ k + j} = {p<..<2 ^ k}" by auto
  moreover have "p + (2 ^ k - 1) = ?i" by simp
  ultimately show ?thesis using tree'(1) p(2) by (simp add: countEntry_def)
qed

text \<open>The crossings of a sequence of entries: an earlier entry crosses a later one that lies to its left.\<close>

definition overtakes :: "southEntry \<Rightarrow> southEntry \<Rightarrow> bool" where
  "overtakes x y \<longleftrightarrow> (case (s_pos x, s_pos y) of (Some p, Some q) \<Rightarrow> q < p | _ \<Rightarrow> False)"

definition crossWeight :: "southEntry \<Rightarrow> southEntry \<Rightarrow> int" where
  "crossWeight x y = (if overtakes x y then s_weight x * s_weight y else 0)"

primrec crossings :: "southEntry list \<Rightarrow> int" where
  "crossings [] = 0"
| "crossings (x # xs) = (\<Sum>y \<leftarrow> xs. crossWeight x y) + crossings xs"

lemma crossings_append:
  "crossings (xs @ ys) = crossings xs + (\<Sum>x \<leftarrow> xs. \<Sum>y \<leftarrow> ys. crossWeight x y) + crossings ys"
  by (induction xs) (auto simp: algebra_simps)

definition leafWeights :: "southEntry list \<Rightarrow> nat \<Rightarrow> int" where
  "leafWeights xs j = (\<Sum>x \<leftarrow> xs. if s_pos x = Some j then s_weight x else 0)"

lemma leafWeights_right:
  assumes "\<forall>x \<in> set xs. \<forall>q. s_pos x = Some q \<longrightarrow> q < n" "s_pos y = Some p"
  shows "s_weight y * (\<Sum>j \<in> {p<..<n}. leafWeights xs j) = (\<Sum>x \<leftarrow> xs. crossWeight x y)"
  using assms(1)
proof (induction xs)
  case Nil
  then show ?case by (simp add: leafWeights_def)
next
  case (Cons x xs)
  have "s_weight y * (\<Sum>j \<in> {p<..<n}. if s_pos x = Some j then s_weight x else 0) = crossWeight x y"
  proof (cases "s_pos x")
    case None
    then show ?thesis by (simp add: crossWeight_def overtakes_def)
  next
    case (Some q)
    then have "q < n" using Cons.prems by simp
    with Some assms(2) show ?thesis by (simp add: crossWeight_def overtakes_def sum.delta)
  qed
  with Cons show ?case by (simp add: leafWeights_def sum.distrib distrib_left)
qed

lemma fold_countEntry:
  assumes "\<forall>x \<in> set xs. \<forall>q. s_pos x = Some q \<longrightarrow> q < 2 ^ k"
  shows "\<exists>tree. fold (countEntry (2 ^ k - 1)) xs (replicate (2 ^ (k + 1) - 1) 0, 0) = (tree, crossings xs) \<and>
    accumulates k (leafWeights xs) tree"
  using assms
proof (induction xs rule: rev_induct)
  case Nil
  then show ?case by (auto simp: accumulates_def leafWeights_def)
next
  case (snoc x xs)
  then obtain tree where tree:
    "fold (countEntry (2 ^ k - 1)) xs (replicate (2 ^ (k + 1) - 1) 0, 0) = (tree, crossings xs)"
    "accumulates k (leafWeights xs) tree" by auto
  show ?case
  proof (cases "s_pos x")
    case None
    then have "crossWeight y x = 0" for y by (simp add: crossWeight_def overtakes_def split: option.splits)
    then have "crossings (xs @ [x]) = crossings xs" by (simp add: crossings_append)
    moreover have "leafWeights (xs @ [x]) = leafWeights xs" using None by (auto simp: leafWeights_def)
    moreover have "countEntry (2 ^ k - 1) x (tree, crossings xs) = (tree, crossings xs)" using None by (simp add: countEntry_def)
    ultimately show ?thesis using tree by simp
  next
    case (Some p)
    have upd: "leafWeights (xs @ [x]) = (leafWeights xs)(p := leafWeights xs p + s_weight x)"
      using Some by (auto simp: leafWeights_def)
    have "p < 2 ^ k" using Some snoc.prems by simp
    from countEntry_ok [OF this Some tree(2), of "crossings xs"] obtain tree' where
      tree': "countEntry (2 ^ k - 1) x (tree, crossings xs) =
          (tree', crossings xs + s_weight x * (\<Sum>j \<in> {p<..<2 ^ k}. leafWeights xs j))"
        "accumulates k (leafWeights (xs @ [x])) tree'" unfolding upd by blast
    moreover have "s_weight x * (\<Sum>j \<in> {p<..<2 ^ k}. leafWeights xs j) = (\<Sum>y \<leftarrow> xs. crossWeight y x)"
      using Some snoc.prems by (intro leafWeights_right) auto
    ultimately show ?thesis using tree(1) by (simp add: crossings_append)
  qed
qed

section \<open>The entries of two layers\<close>

definition entryOf :: "layoutGraph \<Rightarrow> string list \<Rightarrow> edgeObj \<Rightarrow> southEntry" where
  "entryOf g south e = \<lparr>s_pos = get (southPos south) (e_w e), s_weight = weight g e\<rparr>"

definition block :: "layoutGraph \<Rightarrow> string list \<Rightarrow> string \<Rightarrow> southEntry list" where
  "block g south v = sortEntries (map (entryOf g south) (each (outEdges v None g)))"

lemma entry_weight [simp]: "s_weight (entryOf g south e) = weight g e"
  by (simp add: entryOf_def)

lemma southPos_get:
  assumes "distinct south"
  shows "get (southPos south) w = Some i \<longleftrightarrow> i < length south \<and> south ! i = w"
proof -
  have "get (fold (\<lambda>(v, i). put v i) xs ob) w = Some i \<longleftrightarrow>
      (w, i) \<in> set xs \<or> (w \<notin> fst ` set xs \<and> get ob w = Some i)" if "distinct (map fst xs)" for xs :: "(string \<times> nat) list" and ob
    using that by (induction xs arbitrary: ob) (auto simp: image_iff split: if_splits)
  from this [of "zip south [0..<length south]" "[]"] assms show ?thesis
    by (auto simp: southPos_def in_set_zip)
qed

lemma entryFor_all:
  assumes "\<forall>e \<in> set es. edgeOfObj e g \<noteq> None"
  shows "rfold (entryFor g (southPos south)) es acc = Inr (acc @ map (entryOf g south) es)"
  using assms by (induction es arbitrary: acc) (auto simp: entryFor_def entryOf_def weight_def)

lemma southEntries_blocks:
  assumes "graph_ok g" "\<And>e. e \<in> set (edges g) \<Longrightarrow> edgeOfObj e g \<noteq> None" "set north \<subseteq> node_set g"
  shows "southEntries g north south = Inr (concat (map (block g south) north))"
proof -
  let ?body = "\<lambda>v acc. rbind (rfold (entryFor g (southPos south)) (each (outEdges v None g)) []) (\<lambda>es. Inr (acc @ sortEntries es))"
  have "?body v acc = Inr (acc @ block g south v)" if "v \<in> node_set g" for v acc
    using each_outEdges(1) [OF assms(1) that] assms(2) by (subst entryFor_all) (auto simp: block_def)
  then have "rfold ?body north acc = Inr (acc @ concat (map (block g south) north))" for acc
    using assms(3) by (induction north arbitrary: acc) auto
  then show ?thesis by (simp add: southEntries_def)
qed

lemma sortEntries_mset: "mset (sortEntries es) = mset es"
  by (simp add: sortEntries_def flip: multiset_partition)

lemma sortEntries_crossings: "crossings (sortEntries es) = 0"
proof -
  have none: "sorted_wrt (\<lambda>x y. \<not> overtakes x y) xs \<Longrightarrow> crossings xs = 0" for xs
  proof (induction xs)
    case (Cons x xs)
    then have "(\<Sum>y \<leftarrow> xs. crossWeight x y) = (\<Sum>y \<leftarrow> xs. 0)" by (intro arg_cong [where f = sum_list] map_cong) (auto simp: crossWeight_def)
    with Cons show ?case by simp
  qed simp
  let ?key = "\<lambda>x. the (s_pos x)"
  let ?xs = "sort_key ?key (filter (\<lambda>x. s_pos x \<noteq> None) es)"
  have "sorted_wrt (\<lambda>x y. ?key x \<le> ?key y) ?xs" using sorted_sort_key [of ?key] by (simp add: sorted_wrt_map)
  then have "sorted_wrt (\<lambda>x y. \<not> overtakes x y) ?xs"
    by (rule sorted_wrt_mono_rel [rotated]) (auto simp: overtakes_def split: option.splits)
  moreover have "sorted_wrt (\<lambda>x y. \<not> overtakes x y) (filter (\<lambda>x. s_pos x = None) es)"
    by (induction es) (auto simp: overtakes_def split: option.splits)
  ultimately show ?thesis by (intro none) (auto simp: sortEntries_def sorted_wrt_append overtakes_def split: option.splits)
qed

lemma block_crossings: "crossings (block g south v) = 0"
  unfolding block_def by (rule sortEntries_crossings)

lemma block_sum:
  assumes "graph_ok g" "v \<in> node_set g"
  shows "(\<Sum>x \<leftarrow> block g south v. F x) = (\<Sum>e \<in> {e \<in> set (edges g). e_v e = v}. F (entryOf g south e) :: int)"
proof -
  have "(\<Sum>x \<leftarrow> block g south v. F x) = (\<Sum>x \<leftarrow> map (entryOf g south) (each (outEdges v None g)). F x)"
    unfolding block_def by (rule sum_list_perm) (rule sortEntries_mset)
  then show ?thesis using each_outEdges [OF assms] by (simp add: sum_list_distinct_conv_sum_set o_def)
qed

lemma blocks_sum:
  assumes "graph_ok g" "set north \<subseteq> node_set g" "distinct north"
  shows "(\<Sum>x \<leftarrow> concat (map (block g south) north). F x) =
    (\<Sum>e \<in> {e \<in> set (edges g). e_v e \<in> set north}. F (entryOf g south e) :: int)"
  using assms(2,3)
proof (induction north)
  case (Cons v vs)
  have "{e \<in> set (edges g). e_v e \<in> set (v # vs)} = {e \<in> set (edges g). e_v e = v} \<union> {e \<in> set (edges g). e_v e \<in> set vs}"
    by auto
  moreover have "{e \<in> set (edges g). e_v e = v} \<inter> {e \<in> set (edges g). e_v e \<in> set vs} = {}" using Cons.prems by auto
  ultimately show ?case using Cons block_sum [OF assms(1), of v F south] by (simp add: sum.union_disjoint)
qed simp

section \<open>The crossings of two layers\<close>

text \<open>Two edges cross when the first starts to the left of the second in the north layer and ends to its right in the
  south layer.\<close>

definition crossingPairs :: "layoutGraph \<Rightarrow> string list \<Rightarrow> string list \<Rightarrow> (edgeObj \<times> edgeObj) set" where
  "crossingPairs g north south = {(e, f). e \<in> set (edges g) \<and> f \<in> set (edges g) \<and>
     precedes north (e_v e) (e_v f) \<and> precedes south (e_w f) (e_w e)}"

definition crossingWeight :: "layoutGraph \<Rightarrow> string list \<Rightarrow> string list \<Rightarrow> int" where
  "crossingWeight g north south = (\<Sum>(e, f) \<in> crossingPairs g north south. weight g e * weight g f)"

lemma precedes_nth: "precedes xs a b \<longleftrightarrow> (\<exists>i j. i < j \<and> j < length xs \<and> xs ! i = a \<and> xs ! j = b)"
proof
  assume "precedes xs a b"
  then obtain ys zs where xs: "xs = ys @ b # zs" "a \<in> set ys" unfolding precedes_def by blast
  from xs(2) obtain i where "i < length ys" "ys ! i = a" by (auto simp: in_set_conv_nth)
  with xs(1) show "\<exists>i j. i < j \<and> j < length xs \<and> xs ! i = a \<and> xs ! j = b"
    by (intro exI [of _ i] exI [of _ "length ys"]) (auto simp: nth_append)
next
  assume "\<exists>i j. i < j \<and> j < length xs \<and> xs ! i = a \<and> xs ! j = b"
  then obtain i j where ij: "i < j" "j < length xs" "xs ! i = a" "xs ! j = b" by blast
  then have "xs = take j xs @ b # drop (Suc j) xs" using id_take_nth_drop [of j xs] by simp
  moreover have "a \<in> set (take j xs)" using ij by (auto simp: in_set_conv_nth intro!: exI [of _ i])
  ultimately show "precedes xs a b" unfolding precedes_def by blast
qed

lemma precedes_Cons_iff: "precedes (v # vs) a b \<longleftrightarrow> (a = v \<and> b \<in> set vs) \<or> precedes vs a b"
  using precedes_head [of b vs v] precedes_Cons [of vs a b v]
  by (auto simp: precedes_def Cons_eq_append_conv)

lemma overtakes_entries:
  assumes "distinct south"
  shows "overtakes (entryOf g south e) (entryOf g south f) \<longleftrightarrow> precedes south (e_w f) (e_w e)"
proof -
  have "overtakes (entryOf g south e) (entryOf g south f) \<longleftrightarrow>
      (\<exists>i j. get (southPos south) (e_w f) = Some i \<and> get (southPos south) (e_w e) = Some j \<and> i < j)"
    by (auto simp: overtakes_def entryOf_def split: option.splits)
  then show ?thesis unfolding precedes_nth southPos_get [OF assms] using less_trans by blast
qed

lemma blocks_crossings:
  assumes "graph_ok g" "set north \<subseteq> node_set g" "distinct north" "distinct south"
  shows "crossings (concat (map (block g south) north)) = crossingWeight g north south"
  using assms(2,3)
proof (induction north)
  case Nil
  then show ?case by (simp add: crossingWeight_def crossingPairs_def precedes_def)
next
  case (Cons v vs)
  let ?E = "set (edges g)" and ?w = "\<lambda>(e, f). weight g e * weight g f"
  let ?from = "{e \<in> ?E. e_v e = v}" and ?to = "{f \<in> ?E. e_v f \<in> set vs}"
  let ?new = "{(e, f). e \<in> ?from \<and> f \<in> ?to \<and> precedes south (e_w f) (e_w e)}"
  have "crossings (block g south v @ concat (map (block g south) vs)) =
      (\<Sum>x \<leftarrow> block g south v. \<Sum>y \<leftarrow> concat (map (block g south) vs). crossWeight x y) + crossingWeight g vs south"
    using Cons block_crossings by (simp add: crossings_append)
  also have "(\<Sum>x \<leftarrow> block g south v. \<Sum>y \<leftarrow> concat (map (block g south) vs). crossWeight x y) =
      (\<Sum>e \<in> ?from. \<Sum>f \<in> ?to. crossWeight (entryOf g south e) (entryOf g south f))"
    using Cons.prems block_sum [OF assms(1)] blocks_sum [OF assms(1)] by simp
  also have "\<dots> = (\<Sum>z \<in> ?from \<times> ?to. if z \<in> ?new then ?w z else 0)"
    unfolding sum.cartesian_product by (rule sum.cong) (auto simp: crossWeight_def overtakes_entries [OF assms(4)] split: if_splits)
  also have "\<dots> = (\<Sum>z \<in> ?from \<times> ?to \<inter> ?new. ?w z)" by (subst sum.inter_restrict) auto
  also have "?from \<times> ?to \<inter> ?new = ?new" by auto
  finally have step: "crossings (concat (map (block g south) (v # vs))) = sum ?w ?new + crossingWeight g vs south" by simp
  have sub: "?new \<subseteq> ?E \<times> ?E" "crossingPairs g vs south \<subseteq> ?E \<times> ?E" by (auto simp: crossingPairs_def)
  then have fin: "finite ?new" "finite (crossingPairs g vs south)" using finite_subset by blast+
  have split: "crossingPairs g (v # vs) south = ?new \<union> crossingPairs g vs south"
    unfolding crossingPairs_def precedes_Cons_iff by auto
  have "?new \<inter> crossingPairs g vs south = {}"
    using Cons.prems(2) precedes_mem unfolding crossingPairs_def by fastforce
  from sum.union_disjoint [OF fin this, of ?w] show ?case unfolding step unfolding crossingWeight_def split ..
qed

lemma twoLayerCrossCount_ok:
  assumes "graph_ok g" "\<And>e. e \<in> set (edges g) \<Longrightarrow> edgeOfObj e g \<noteq> None" "set north \<subseteq> node_set g" "distinct north" "distinct south"
  shows "twoLayerCrossCount g north south = Inr (crossingWeight g north south)"
proof -
  let ?xs = "concat (map (block g south) north)"
  obtain k where k: "leafCount (length south) 1 = 2 ^ k" "length south \<le> 2 ^ k" using leafCount_power [of "length south" 0] by auto
  have "\<forall>x \<in> set ?xs. \<forall>q. s_pos x = Some q \<longrightarrow> q < length south"
    using southPos_get [OF assms(5)] by (auto simp: block_def sortEntries_def entryOf_def)
  with k(2) have "\<forall>x \<in> set ?xs. \<forall>q. s_pos x = Some q \<longrightarrow> q < 2 ^ k" by fastforce
  from fold_countEntry [OF this]
  have "snd (fold (countEntry (2 ^ k - 1)) ?xs (replicate (2 * 2 ^ k - 1) 0, 0)) = crossings ?xs" by auto
  then show ?thesis
    using southEntries_blocks [OF assms(1-3)] blocks_crossings [OF assms(1,3-5)] k(1)
    by (simp add: twoLayerCrossCount_def Let_def del: One_nat_def)
qed

lemma layerPairs_mem: "(north, south) \<in> set (layerPairs ls) \<Longrightarrow> north \<in> set ls \<and> south \<in> set ls"
  by (induction ls rule: layerPairs.induct) auto

lemma crossCount_ok:
  fixes g :: layoutGraph
  assumes "graph_ok g" "\<And>e. e \<in> set (edges g) \<Longrightarrow> edgeOfObj e g \<noteq> None"
    and "\<And>layer. layer \<in> set layering \<Longrightarrow> distinct layer \<and> set layer \<subseteq> node_set g"
  shows "crossCount g layering = Inr (\<Sum>(north, south) \<leftarrow> layerPairs layering. crossingWeight g north south)"
proof -
  let ?body = "\<lambda>(north, south) cc. rbind (twoLayerCrossCount g north south) (\<lambda>c. Inr (cc + c))"
  have "rfold ?body ps cc = Inr (cc + (\<Sum>(north, south) \<leftarrow> ps. crossingWeight g north south))"
    if "set ps \<subseteq> set (layerPairs layering)" for ps cc
    using that
  proof (induction ps arbitrary: cc)
    case (Cons p ps)
    obtain north south where p: "p = (north, south)" by (cases p)
    then have "twoLayerCrossCount g north south = Inr (crossingWeight g north south)"
      using Cons.prems assms layerPairs_mem [of north south layering] by (intro twoLayerCrossCount_ok) auto
    with p Cons show ?case by (simp add: add.assoc)
  qed simp
  then show ?thesis by (simp add: crossCount_def)
qed

text \<open>C36. \<open>crossCount\<close> returns, for layers that list nodes of the graph without repetition, the total weight of the crossings
  between adjacent layers: the sum of the products of the weights of every two edges of which one starts to the left of the
  other and ends to the right of it. The accumulator tree is never read outside its bounds.\<close>

theorem crossCount_adds_all_crossings:
  fixes g :: layoutGraph
  assumes "graph_ok g" "\<And>e. e \<in> set (edges g) \<Longrightarrow> edgeOfObj e g \<noteq> None"
    and "\<And>layer. layer \<in> set layering \<Longrightarrow> distinct layer \<and> set layer \<subseteq> node_set g"
  shows "crossCount g layering = Inr (\<Sum>(north, south) \<leftarrow> layerPairs layering. crossingWeight g north south)"
  using assms by (rule crossCount_ok)

theorem crossCount_adds_all_crossings_witness:
  "\<exists>g. exampleCycle = Inr g \<and> crossingPairs g [''a'', ''b''] [''a'', ''b''] \<noteq> {} \<and>
     crossCount g [[''a'', ''b''], [''a'', ''b'']] = Inr (crossingWeight g [''a'', ''b''] [''a'', ''b''])"
proof -
  obtain g where g: "exampleCycle = Inr g" "run_ready 0 g" "arcs g = {(''a'', ''b''), (''b'', ''a'')}" using exampleCycle_ok by blast
  have lab: "edgeOfObj e g \<noteq> None" if "e \<in> set (edges g)" for e using g(2) that by (auto simp: run_ready_def)
  have ok: "graph_ok g" using run_readyD(3) [OF g(2)] .
  have "(''a'', ''b'') \<in> arcs g" "(''b'', ''a'') \<in> arcs g" unfolding g(3) by simp_all
  then obtain e f where ef: "e \<in> set (edges g)" "f \<in> set (edges g)" "e_v e = ''a''" "e_w e = ''b''" "e_v f = ''b''" "e_w f = ''a''"
    unfolding arcs_def by auto
  have nodes: "''a'' \<in> node_set g" "''b'' \<in> node_set g" using edges_ends [OF ok] ef by metis+
  from ef have "(e, f) \<in> crossingPairs g [''a'', ''b''] [''a'', ''b'']" by (auto simp: crossingPairs_def intro: precedes_head)
  moreover have "crossCount g [[''a'', ''b''], [''a'', ''b'']] = Inr (crossingWeight g [''a'', ''b''] [''a'', ''b''])"
    using crossCount_adds_all_crossings [OF ok lab, of "[[''a'', ''b''], [''a'', ''b'']]"] nodes by simp
  ultimately show ?thesis using g(1) by blast
qed

end
