(* ===== verification/Dagre_Conflicts.thy ===== *)
theory Dagre_Conflicts
  imports Dagre_Sort Graphlib_Traverse
begin

text \<open>
  Conflicts between barycenters and constraints (\<open>lib/order/resolve-conflicts\<close>). The constraint graph says which node comes
  before which; entries whose barycenters contradict a constraint are merged. The objects of the source, which refer to each
  other in \<open>in\<close> and \<open>out\<close>, are in a store indexed by their nodes. The theorem: when the constraints have no cycle the loop
  ends and the merged entries contain every node exactly once.
\<close>

section \<open>The algorithm\<close>

record baryEntry =
  be_v :: string
  be_barycenter :: "jsnum option"
  be_weight :: "jsnum option"

record conflictEntry =
  c_indegree :: int
  c_in :: "string list"
  c_out :: "string list"
  c_vs :: "string list"
  c_i :: nat
  c_barycenter :: "jsnum option"
  c_weight :: "jsnum option"
  c_merged :: bool

type_synonym conflictStore = "conflictEntry obj"

definition newEntry :: "baryEntry \<Rightarrow> nat \<Rightarrow> conflictEntry" where
  "newEntry entry i =
     \<lparr>c_indegree = 0, c_in = [], c_out = [], c_vs = [be_v entry], c_i = i,
      c_barycenter = be_barycenter entry,
      c_weight = (if be_barycenter entry \<noteq> None then be_weight entry else None), c_merged = False\<rparr>"

definition mapEntries :: "baryEntry list \<Rightarrow> conflictStore" where
  "mapEntries entries = fold (\<lambda>(entry, i). put (be_v entry) (newEntry entry i)) (zip entries [0..<length entries]) []"

text \<open>A change of one object of the store.\<close>

definition alter :: "string \<Rightarrow> (conflictEntry \<Rightarrow> conflictEntry) \<Rightarrow> conflictStore \<Rightarrow> conflictStore" where
  "alter v f m = (case get m v of Some x \<Rightarrow> put v (f x) m | None \<Rightarrow> m)"

definition addConstraint :: "edgeObj \<Rightarrow> conflictStore \<Rightarrow> conflictStore" where
  "addConstraint e m =
     (if get m (e_v e) \<noteq> None \<and> get m (e_w e) \<noteq> None
      then alter (e_v e) (\<lambda>x. x\<lparr>c_out := c_out x @ [e_w e]\<rparr>) (alter (e_w e) (\<lambda>x. x\<lparr>c_indegree := c_indegree x + 1\<rparr>) m)
      else m)"

text \<open>The part of \<open>mergeEntries\<close> that one entry contributes, a pair of \<open>sum\<close> and \<open>weight\<close>.\<close>

definition addMean :: "conflictEntry \<Rightarrow> jsnum \<times> jsnum \<Rightarrow> jsnum \<times> jsnum" where
  "addMean x acc =
     (if truthy_num (num_of (c_weight x))
      then (num_add (fst acc) (num_mult (num_of (c_barycenter x)) (num_of (c_weight x))), num_add (snd acc) (num_of (c_weight x)))
      else acc)"

definition absorb :: "conflictEntry \<Rightarrow> conflictEntry \<Rightarrow> conflictEntry" where
  "absorb source target =
     (let (sm, weight) = addMean source (addMean target (Real 0, Real 0))
      in target\<lparr>c_vs := c_vs source @ c_vs target, c_barycenter := Some (num_div sm weight), c_weight := Some weight,
                c_i := min (c_i source) (c_i target)\<rparr>)"

definition mergeEntries :: "string \<Rightarrow> string \<Rightarrow> conflictStore \<Rightarrow> conflictStore" where
  "mergeEntries target source m =
     (case get m source of
        Some x \<Rightarrow> alter source (\<lambda>x. x\<lparr>c_merged := True\<rparr>) (alter target (absorb x) m)
      | None \<Rightarrow> m)"

definition num_geq :: "jsnum option \<Rightarrow> jsnum option \<Rightarrow> bool" where
  "num_geq x y \<longleftrightarrow> num_of x \<noteq> NaN \<and> num_of y \<noteq> NaN \<and> \<not> num_less (num_of x) (num_of y)"

definition handleIn :: "string \<Rightarrow> string \<Rightarrow> conflictStore \<Rightarrow> conflictStore" where
  "handleIn v u m =
     (case (get m v, get m u) of
        (Some vEntry, Some uEntry) \<Rightarrow>
          if c_merged uEntry then m
          else if c_barycenter uEntry = None \<or> c_barycenter vEntry = None \<or> num_geq (c_barycenter uEntry) (c_barycenter vEntry)
          then mergeEntries v u m
          else m
      | _ \<Rightarrow> m)"

definition handleOut :: "string \<Rightarrow> string \<Rightarrow> conflictStore \<times> string list \<Rightarrow> conflictStore \<times> string list" where
  "handleOut v w st =
     (case st of (m, sourceSet) \<Rightarrow>
      let m' = alter w (\<lambda>x. x\<lparr>c_in := c_in x @ [v], c_indegree := c_indegree x - 1\<rparr>) m
      in (m', case get m' w of Some x \<Rightarrow> if c_indegree x = 0 then sourceSet @ [w] else sourceSet | None \<Rightarrow> sourceSet))"

definition entryIn :: "conflictStore \<Rightarrow> string \<Rightarrow> string list" where
  "entryIn m v = (case get m v of Some x \<Rightarrow> c_in x | None \<Rightarrow> [])"

definition entryOut :: "conflictStore \<Rightarrow> string \<Rightarrow> string list" where
  "entryOut m v = (case get m v of Some x \<Rightarrow> c_out x | None \<Rightarrow> [])"

text \<open>One turn of the loop for the entry \<open>v\<close> taken from the source set.\<close>

definition conflictStep :: "string \<Rightarrow> conflictStore \<times> string list \<Rightarrow> conflictStore \<times> string list" where
  "conflictStep v st =
     (case st of (m, sourceSet) \<Rightarrow>
      let m1 = alter v (\<lambda>x. x\<lparr>c_in := rev (c_in x)\<rparr>) m;
          m2 = fold (handleIn v) (entryIn m1 v) m1
      in fold (handleOut v) (entryOut m2 v) (m2, sourceSet))"

text \<open>The \<open>while\<close> loop; the first argument bounds the number of turns.\<close>

fun resolveLoop :: "nat \<Rightarrow> string list \<Rightarrow> conflictStore \<times> string list \<Rightarrow> (conflictStore \<times> string list) result" where
  "resolveLoop 0 entries st = Inl Diverges"
| "resolveLoop (Suc n) entries (m, sourceSet) =
     (if sourceSet = [] then Inr (m, entries)
      else resolveLoop n (entries @ [last sourceSet]) (conflictStep (last sourceSet) (m, butlast sourceSet)))"

definition pickEntry :: "conflictEntry \<Rightarrow> sortEntry" where
  "pickEntry x = \<lparr>x_vs = c_vs x, x_i = c_i x, x_barycenter = c_barycenter x, x_weight = c_weight x\<rparr>"

definition doResolveConflicts :: "conflictStore \<Rightarrow> string list \<Rightarrow> sortEntry list result" where
  "doResolveConflicts m sourceSet =
     rbind (resolveLoop (Suc (length m)) [] (m, sourceSet)) (\<lambda>(m', entries).
       Inr (map pickEntry (filter (\<lambda>x. \<not> c_merged x) (map (\<lambda>v. the (get m' v)) entries))))"

definition resolveConflicts :: "baryEntry list \<Rightarrow> ('g, 'n, 'e) Graph \<Rightarrow> sortEntry list result" where
  "resolveConflicts entries cg =
     (let m = fold addConstraint (edges cg) (mapEntries entries)
      in doResolveConflicts m (map fst (filter (\<lambda>(_, x). c_indegree x = 0) m)))"

section \<open>Changes of the store\<close>

lemma keys_alter [simp]: "keys (alter v f m) = keys m"
  by (auto simp: alter_def keys_put_has dest: get_Some_key split: option.splits)

lemma get_alter [simp]: "get (alter v f m) k = (if k = v then map_option f (get m k) else get m k)"
  by (auto simp: alter_def split: option.splits)

text \<open>What the loop knows of an entry in the constraint graph, and what it knows of its nodes.\<close>

definition link :: "conflictEntry \<Rightarrow> int \<times> string list \<times> string list" where
  "link x = (c_indegree x, c_in x, c_out x)"

definition live :: "conflictStore \<Rightarrow> string set" where
  "live m = {v. \<exists>x. get m v = Some x \<and> \<not> c_merged x}"

definition nodesOf :: "conflictStore \<Rightarrow> string \<Rightarrow> string list" where
  "nodesOf m v = (case get m v of Some x \<Rightarrow> c_vs x | None \<Rightarrow> [])"

definition grouped :: "string list \<Rightarrow> conflictStore \<Rightarrow> bool" where
  "grouped names m \<longleftrightarrow> (\<Sum>v \<in> live m. mset (nodesOf m v)) = mset names \<and>
     (\<forall>v x. get m v = Some x \<and> \<not> c_merged x \<longrightarrow>
        c_i x < length names \<and> names ! c_i x \<in> set (c_vs x) \<and> (c_barycenter x = None \<longrightarrow> c_vs x = [v]))"

lemma live_keys: "live m \<subseteq> set (keys m)"
  by (auto simp: live_def dest: get_Some_key)

lemma finite_live [simp]: "finite (live m)"
  by (rule finite_subset [OF live_keys]) simp

lemma mergeEntries_get:
  assumes "get m u = Some x" "get m v = Some y" "u \<noteq> v"
  shows "get (mergeEntries v u m) k =
    (if k = u then Some (x\<lparr>c_merged := True\<rparr>) else if k = v then Some (absorb x y) else get m k)"
  using assms by (simp add: mergeEntries_def)

lemma absorb_simps:
  "c_vs (absorb x y) = c_vs x @ c_vs y" "c_merged (absorb x y) = c_merged y" "c_i (absorb x y) = min (c_i x) (c_i y)"
  "c_barycenter (absorb x y) \<noteq> None" "link (absorb x y) = link y"
  by (simp_all add: absorb_def link_def split: prod.splits)

lemma mergeEntries_grouped:
  assumes gr: "grouped names m" and x: "get m u = Some x" "\<not> c_merged x" and y: "get m v = Some y" "\<not> c_merged y" and uv: "u \<noteq> v"
  shows "grouped names (mergeEntries v u m)" "live (mergeEntries v u m) = live m - {u}"
    "map_option link (get (mergeEntries v u m) k) = map_option link (get m k)" "keys (mergeEntries v u m) = keys m"
proof -
  let ?m = "mergeEntries v u m"
  note get = mergeEntries_get [OF x(1) y(1) uv]
  show lv: "live ?m = live m - {u}" using y uv by (auto simp: live_def get absorb_simps)
  show "map_option link (get ?m k) = map_option link (get m k)"
    using x(1) y(1) by (simp add: get absorb_simps) (simp add: link_def)
  show "keys ?m = keys m" using x(1) by (simp add: mergeEntries_def)
  have mem: "u \<in> live m" "v \<in> live m - {u}" using x y uv by (auto simp: live_def)
  have "(\<Sum>z \<in> live m. mset (nodesOf m z)) = mset (nodesOf m u) + (\<Sum>z \<in> live m - {u}. mset (nodesOf m z))"
    using mem(1) by (intro sum.remove) auto
  also have "(\<Sum>z \<in> live m - {u}. mset (nodesOf m z)) = mset (nodesOf m v) + (\<Sum>z \<in> live m - {u} - {v}. mset (nodesOf m z))"
    using mem(2) by (intro sum.remove) auto
  also have "(\<Sum>z \<in> live m - {u} - {v}. mset (nodesOf m z)) = (\<Sum>z \<in> live m - {u} - {v}. mset (nodesOf ?m z))"
    by (rule sum.cong) (auto simp: nodesOf_def get)
  also have "mset (nodesOf m u) + (mset (nodesOf m v) + (\<Sum>z \<in> live m - {u} - {v}. mset (nodesOf ?m z))) =
      mset (nodesOf ?m v) + (\<Sum>z \<in> live m - {u} - {v}. mset (nodesOf ?m z))"
    using uv x(1) y(1) by (simp add: nodesOf_def get absorb_simps)
  also have "\<dots> = (\<Sum>z \<in> live ?m. mset (nodesOf ?m z))" unfolding lv using mem(2) by (intro sum.remove [symmetric]) auto
  finally have sum: "(\<Sum>z \<in> live ?m. mset (nodesOf ?m z)) = mset names" using gr by (simp add: grouped_def)
  have props: "c_i z < length names \<and> names ! c_i z \<in> set (c_vs z) \<and> (c_barycenter z = None \<longrightarrow> c_vs z = [k])"
    if "get m k = Some z" "\<not> c_merged z" for k z using gr that unfolding grouped_def by blast
  have "c_i z < length names \<and> names ! c_i z \<in> set (c_vs z) \<and> (c_barycenter z = None \<longrightarrow> c_vs z = [k])"
    if z: "get ?m k = Some z" "\<not> c_merged z" for k z
  proof (cases "k = v")
    case True
    then have "z = absorb x y" using z(1) uv by (simp add: get)
    then show ?thesis using props [OF x] props [OF y] by (auto simp: absorb_simps min_def)
  next
    case False
    then show ?thesis using z props [of k z] by (auto simp: get split: if_splits)
  qed
  with sum show "grouped names ?m" unfolding grouped_def by blast
qed

lemma fold_handleIn:
  assumes "grouped names m" "v \<in> live m" "v \<notin> set us"
  shows "grouped names (fold (handleIn v) us m) \<and> live m - set us \<subseteq> live (fold (handleIn v) us m) \<and>
    (\<forall>k. map_option link (get (fold (handleIn v) us m) k) = map_option link (get m k)) \<and> keys (fold (handleIn v) us m) = keys m"
  using assms
proof (induction us arbitrary: m)
  case (Cons u us)
  let ?m = "handleIn v u m"
  obtain y where y: "get m v = Some y" "\<not> c_merged y" using Cons.prems(2) by (auto simp: live_def)
  have uv: "u \<noteq> v" using Cons.prems(3) by auto
  have "grouped names ?m \<and> live m - {u} \<subseteq> live ?m \<and> (\<forall>k. map_option link (get ?m k) = map_option link (get m k)) \<and> keys ?m = keys m"
  proof (cases "?m = m")
    case True
    then show ?thesis using Cons.prems(1) by auto
  next
    case False
    then obtain x where x: "get m u = Some x" "\<not> c_merged x" "?m = mergeEntries v u m"
      using y by (auto simp: handleIn_def split: option.splits if_splits)
    then show ?thesis using mergeEntries_grouped [OF Cons.prems(1) x(1,2) y uv] by simp
  qed
  then show ?case using Cons.IH [of ?m] Cons.prems(2,3) uv by auto
qed simp

text \<open>The second loop of a turn counts the constraints down.\<close>

definition indegree :: "conflictStore \<Rightarrow> string \<Rightarrow> int" where
  "indegree m w = (case get m w of Some x \<Rightarrow> c_indegree x | None \<Rightarrow> 0)"

lemma fold_handleOut:
  assumes "set ws \<subseteq> set (keys m)" "\<And>w. w \<in> set ws \<Longrightarrow> int (count_list ws w) \<le> indegree m w"
  shows "\<exists>m' new. fold (handleOut v) ws (m, ss) = (m', ss @ new) \<and> distinct new \<and>
    set new = {w \<in> set ws. indegree m w = int (count_list ws w)} \<and> keys m' = keys m \<and>
    (\<forall>k. get m' k = map_option (\<lambda>x. x\<lparr>c_in := c_in x @ replicate (count_list ws k) v,
       c_indegree := c_indegree x - int (count_list ws k)\<rparr>) (get m k))"
  using assms
proof (induction ws arbitrary: m ss)
  case Nil
  then show ?case by (simp add: option.map_ident)
next
  case (Cons w ws)
  let ?m = "alter w (\<lambda>x. x\<lparr>c_in := c_in x @ [v], c_indegree := c_indegree x - 1\<rparr>) m"
  obtain x where x: "get m w = Some x" using Cons.prems(1) key_get [of w m] by auto
  have deg: "indegree ?m k = indegree m k - (if k = w then 1 else 0)" for k using x by (simp add: indegree_def)
  let ?now = "if indegree m w = 1 then [w] else []"
  have step: "handleOut v w (m, ss) = (?m, ss @ ?now)" using x by (simp add: handleOut_def indegree_def)
  have "int (count_list ws k) \<le> indegree ?m k" if "k \<in> set ws" for k
    using Cons.prems(2) [of k] that by (auto simp: deg split: if_splits)
  moreover have "set ws \<subseteq> set (keys ?m)" using Cons.prems(1) by simp
  ultimately obtain m' new where IH: "fold (handleOut v) ws (?m, ss @ ?now) = (m', (ss @ ?now) @ new)" "distinct new"
    "set new = {k \<in> set ws. indegree ?m k = int (count_list ws k)}" "keys m' = keys ?m"
    "\<forall>k. get m' k = map_option (\<lambda>x. x\<lparr>c_in := c_in x @ replicate (count_list ws k) v,
       c_indegree := c_indegree x - int (count_list ws k)\<rparr>) (get ?m k)" using Cons.IH [of ?m "ss @ ?now"] by blast
  have none: "w \<notin> set ws" if "indegree m w = 1"
    using Cons.prems(2) [of w] that count_list_0_iff [of ws w] by auto
  then have "distinct (?now @ new)" using IH(2,3) by auto
  moreover have "set (?now @ new) = {k \<in> set (w # ws). indegree m k = int (count_list (w # ws) k)}"
    using none count_list_0_iff [of ws w] by (auto simp: IH(3) deg)
  moreover have "get m' k = map_option (\<lambda>x. x\<lparr>c_in := c_in x @ replicate (count_list (w # ws) k) v,
       c_indegree := c_indegree x - int (count_list (w # ws) k)\<rparr>) (get m k)" for k
    using x by (cases "k = w") (simp_all add: IH(5))
  ultimately show ?case using IH(1,4) step by (intro exI [of _ m'] exI [of _ "?now @ new"]) simp
qed

section \<open>The loop\<close>

text \<open>\<open>C\<close> are the constraints between entries. The entries in \<open>P\<close> have been processed.\<close>

definition entry_ok :: "edgeObj list \<Rightarrow> string list \<Rightarrow> string list \<Rightarrow> string \<Rightarrow> conflictEntry \<Rightarrow> bool" where
  "entry_ok C P ss v x \<longleftrightarrow> c_out x = map e_w (filter (\<lambda>e. e_v e = v) C) \<and> set (c_in x) \<subseteq> set P \<and>
     c_indegree x = int (length (filter (\<lambda>e. e_w e = v \<and> e_v e \<notin> set P) C)) \<and>
     (if v \<in> set P then c_indegree x = 0 else \<not> c_merged x \<and> (v \<in> set ss \<longleftrightarrow> c_indegree x = 0))"

definition conflict_inv :: "string list \<Rightarrow> edgeObj list \<Rightarrow> conflictStore \<Rightarrow> string list \<Rightarrow> string list \<Rightarrow> bool" where
  "conflict_inv names C m ss P \<longleftrightarrow> set (keys m) = set names \<and> grouped names m \<and> distinct (P @ ss) \<and> set (P @ ss) \<subseteq> set names \<and>
     (\<forall>v \<in> set names. \<exists>x. get m v = Some x \<and> entry_ok C P ss v x)"

lemma conflict_invD:
  assumes "conflict_inv names C m ss P"
  shows "set (keys m) = set names" "grouped names m" "distinct (P @ ss)" "set (P @ ss) \<subseteq> set names"
    "\<And>v. v \<in> set names \<Longrightarrow> \<exists>x. get m v = Some x \<and> entry_ok C P ss v x"
  using assms unfolding conflict_inv_def by auto

lemma count_targets: "count_list (map e_w (filter (\<lambda>e. e_v e = v) C)) w = length (filter (\<lambda>e. e_w e = w \<and> e_v e = v) C)"
  by (induction C) auto

lemma open_constraints:
  assumes "v \<notin> P"
  shows "length (filter (\<lambda>e. e_w e = w \<and> e_v e \<notin> P) C) =
    length (filter (\<lambda>e. e_w e = w \<and> e_v e = v) C) + length (filter (\<lambda>e. e_w e = w \<and> e_v e \<notin> insert v P) C)"
  using assms by (induction C) auto

text \<open>Changes of the links leave the groups alone.\<close>

lemma grouped_links:
  assumes "\<And>k. map_option (\<lambda>x. (c_vs x, c_i x, c_barycenter x, c_merged x)) (get m' k) =
    map_option (\<lambda>x. (c_vs x, c_i x, c_barycenter x, c_merged x)) (get m k)"
  shows "live m' = live m" "grouped names m' = grouped names m"
proof -
  have same: "(\<exists>x. get m' k = Some x \<and> Q (c_vs x) (c_i x) (c_barycenter x) (c_merged x)) \<longleftrightarrow>
      (\<exists>x. get m k = Some x \<and> Q (c_vs x) (c_i x) (c_barycenter x) (c_merged x))" for k Q
    using assms [of k] by (cases "get m' k"; cases "get m k") auto
  show lv: "live m' = live m" unfolding live_def using same [of _ "\<lambda>_ _ _ d. \<not> d"] by simp
  have "nodesOf m' k = nodesOf m k" for k
    using assms [of k] by (cases "get m' k"; cases "get m k") (auto simp: nodesOf_def)
  moreover have "(\<exists>x. get m' k = Some x \<and> \<not> c_merged x \<and>
        \<not> (c_i x < length names \<and> names ! c_i x \<in> set (c_vs x) \<and> (c_barycenter x = None \<longrightarrow> c_vs x = [k]))) \<longleftrightarrow>
      (\<exists>x. get m k = Some x \<and> \<not> c_merged x \<and>
        \<not> (c_i x < length names \<and> names ! c_i x \<in> set (c_vs x) \<and> (c_barycenter x = None \<longrightarrow> c_vs x = [k])))" for k
    using same [of k "\<lambda>a b c d. \<not> d \<and> \<not> (b < length names \<and> names ! b \<in> set a \<and> (c = None \<longrightarrow> a = [k]))"] .
  ultimately show "grouped names m' = grouped names m" unfolding grouped_def lv by (simp only:) blast
qed

lemma first_loop:
  assumes inv: "conflict_inv names C m (ss @ [v]) P"
  defines "m1 \<equiv> alter v (\<lambda>x. x\<lparr>c_in := rev (c_in x)\<rparr>) m"
  shows "conflict_inv names C (fold (handleIn v) (entryIn m1 v) m1) (ss @ [v]) P"
proof -
  note I = conflict_invD [OF inv]
  have v: "v \<in> set names" "v \<notin> set P" using I(3,4) by auto
  obtain z where z: "get m v = Some z" "entry_ok C P (ss @ [v]) v z" using I(5) [OF v(1)] by blast
  have m1: "live m1 = live m" "grouped names m1" "keys m1 = keys m"
    using grouped_links [of m1 m] I(2) by (auto simp: m1_def option.map_comp o_def)
  let ?us = "entryIn m1 v"
  have us: "set ?us \<subseteq> set P" using z by (auto simp: entryIn_def m1_def entry_ok_def)
  have vl: "v \<in> live m1" using z v(2) m1(1) by (auto simp: live_def entry_ok_def)
  define m2 where "m2 = fold (handleIn v) ?us m1"
  have m2: "grouped names m2" "live m - set ?us \<subseteq> live m2" "\<And>k. map_option link (get m2 k) = map_option link (get m1 k)" "keys m2 = keys m"
    using fold_handleIn [OF m1(2) vl, of ?us] us v(2) m1(1,3) unfolding m2_def by auto
  have "\<exists>x. get m2 w = Some x \<and> entry_ok C P (ss @ [v]) w x" if w: "w \<in> set names" for w
  proof -
    obtain x where x: "get m w = Some x" "entry_ok C P (ss @ [v]) w x" using I(5) [OF w] by blast
    then obtain y where y: "get m2 w = Some y" "link y = (c_indegree x, if w = v then rev (c_in x) else c_in x, c_out x)"
      using m2(3) [of w] by (auto simp: link_def m1_def split: if_splits)
    have "\<not> c_merged y" if "w \<notin> set P"
    proof -
      have "w \<in> live m - set ?us" using x that us by (auto simp: live_def entry_ok_def)
      then show ?thesis using m2(2) y(1) by (auto simp: live_def)
    qed
    then show ?thesis using x(2) y by (intro exI [of _ y]) (auto simp: link_def entry_ok_def split: if_splits)
  qed
  then show ?thesis using I(1,3,4) m2(1,4) unfolding conflict_inv_def m2_def by simp
qed

lemma second_loop:
  assumes inv: "conflict_inv names C m (ss @ [v]) P" and C: "\<And>e. e \<in> set C \<Longrightarrow> e_v e \<in> set names \<and> e_w e \<in> set names"
  shows "\<exists>m' ss'. fold (handleOut v) (entryOut m v) (m, ss) = (m', ss') \<and> conflict_inv names C m' ss' (P @ [v])"
proof -
  note I = conflict_invD [OF inv]
  have v: "v \<in> set names" "v \<notin> set P" "v \<notin> set ss" using I(3,4) by auto
  let ?ws = "map e_w (filter (\<lambda>e. e_v e = v) C)"
  let ?rest = "\<lambda>w. int (length (filter (\<lambda>e. e_w e = w \<and> e_v e \<notin> set (P @ [v])) C))"
  have out: "entryOut m v = ?ws" using I(5) [OF v(1)] by (auto simp: entryOut_def entry_ok_def)
  have deg: "indegree m w = int (count_list ?ws w) + ?rest w" if "w \<in> set names" for w
    using I(5) [OF that] open_constraints [OF v(2), of w C] unfolding count_targets by (auto simp: indegree_def entry_ok_def)
  have wsn: "set ?ws \<subseteq> set names" using C by auto
  then have "set ?ws \<subseteq> set (keys m)" "\<And>w. w \<in> set ?ws \<Longrightarrow> int (count_list ?ws w) \<le> indegree m w"
    using I(1) deg by (auto simp del: set_map)
  from fold_handleOut [OF this, of v ss] obtain m' new where m': "fold (handleOut v) ?ws (m, ss) = (m', ss @ new)" "distinct new"
    "set new = {w \<in> set ?ws. indegree m w = int (count_list ?ws w)}" "keys m' = keys m"
    "\<And>k. get m' k = map_option (\<lambda>x. x\<lparr>c_in := c_in x @ replicate (count_list ?ws k) v,
       c_indegree := c_indegree x - int (count_list ?ws k)\<rparr>) (get m k)" by blast
  have gr: "grouped names m'" using grouped_links(2) [of m' m] I(2) by (simp add: m'(5) option.map_comp o_def)
  have pos: "indegree m w > 0" if "w \<in> set new" for w
    using that m'(3) count_list_0_iff [of ?ws w] by (auto simp del: set_map)
  have new: "w \<in> set names" "w \<notin> set P" "w \<notin> set (ss @ [v])" if "w \<in> set new" for w
  proof -
    show "w \<in> set names" using that m'(3) wsn by blast
    then obtain x where "get m w = Some x" "entry_ok C P (ss @ [v]) w x" using I(5) by blast
    with pos [OF that] show "w \<notin> set P" "w \<notin> set (ss @ [v])" by (auto simp: entry_ok_def indegree_def split: if_splits)
  qed
  have "distinct ((P @ [v]) @ ss @ new)" "set ((P @ [v]) @ ss @ new) \<subseteq> set names" using I(3,4) m'(2) new by auto
  moreover have "\<exists>x. get m' w = Some x \<and> entry_ok C (P @ [v]) (ss @ new) w x" if w: "w \<in> set names" for w
  proof -
    obtain x where x: "get m w = Some x" "entry_ok C P (ss @ [v]) w x" using I(5) [OF w] by blast
    let ?y = "x\<lparr>c_in := c_in x @ replicate (count_list ?ws w) v, c_indegree := c_indegree x - int (count_list ?ws w)\<rparr>"
    have dx: "c_indegree x = int (count_list ?ws w) + ?rest w" using deg [OF w] x(1) by (simp add: indegree_def)
    have "w \<in> set new \<longleftrightarrow> w \<in> set ?ws \<and> ?rest w = 0" using m'(3) deg [OF w] by (simp del: set_map)
    moreover have "w \<in> set ?ws \<longleftrightarrow> count_list ?ws w \<noteq> 0" by (simp add: count_list_0_iff del: set_map)
    ultimately have in_new: "w \<in> set new \<longleftrightarrow> count_list ?ws w \<noteq> 0 \<and> ?rest w = 0" by blast
    note X = x(2) [unfolded entry_ok_def]
    have dy: "c_indegree ?y = ?rest w" using dx by simp
    have "c_indegree ?y = 0" if "w \<in> set (P @ [v])" using that X v(2) dx dy by (auto split: if_splits)
    moreover have "\<not> c_merged ?y \<and> (w \<in> set (ss @ new) \<longleftrightarrow> c_indegree ?y = 0)" if "w \<notin> set (P @ [v])"
    proof -
      have old: "\<not> c_merged x" "w \<in> set ss \<longleftrightarrow> c_indegree x = 0" using X that by (simp_all split: if_splits)
      obtain a b where ab: "?rest w = int a" "count_list ?ws w = b" by blast
      show ?thesis using dx old in_new unfolding dy ab by auto
    qed
    moreover have "set (c_in ?y) \<subseteq> set (P @ [v])" using X by auto
    ultimately have "entry_ok C (P @ [v]) (ss @ new) w ?y" unfolding entry_ok_def dy using X by simp
    moreover have "get m' w = Some ?y" using x(1) m'(5) by simp
    ultimately show ?thesis by blast
  qed
  ultimately have "conflict_inv names C m' (ss @ new) (P @ [v])" using I(1) m'(4) gr unfolding conflict_inv_def by auto
  then show ?thesis using m'(1) out by auto
qed

lemma conflictStep_inv:
  assumes inv: "conflict_inv names C m (ss @ [v]) P" and C: "\<And>e. e \<in> set C \<Longrightarrow> e_v e \<in> set names \<and> e_w e \<in> set names"
  shows "\<exists>m' ss'. conflictStep v (m, ss) = (m', ss') \<and> conflict_inv names C m' ss' (P @ [v])"
  using second_loop [OF first_loop [OF inv] C] by (simp add: conflictStep_def Let_def)

lemma loop_ends:
  assumes C: "\<And>e. e \<in> set C \<Longrightarrow> e_v e \<in> set names \<and> e_w e \<in> set names"
  shows "conflict_inv names C m ss P \<Longrightarrow> card (set names) < n + length P \<Longrightarrow>
    \<exists>m' P'. resolveLoop n P (m, ss) = Inr (m', P') \<and> conflict_inv names C m' [] P'"
proof (induction n arbitrary: m ss P)
  case 0
  have "length P = card (set P)" using conflict_invD(3) [OF 0(1)] by (simp add: distinct_card)
  also have "\<dots> \<le> card (set names)" using conflict_invD(4) [OF 0(1)] by (intro card_mono) auto
  finally show ?case using 0(2) by simp
next
  case (Suc n)
  show ?case
  proof (cases "ss = []")
    case True
    then show ?thesis using Suc.prems(1) by auto
  next
    case False
    then have "conflict_inv names C m (butlast ss @ [last ss]) P" using Suc.prems(1) by simp
    from conflictStep_inv [OF this C] obtain m' ss' where
      "conflictStep (last ss) (m, butlast ss) = (m', ss')" "conflict_inv names C m' ss' (P @ [last ss])" by blast
    then show ?thesis using Suc.IH [of m' ss' "P @ [last ss]"] Suc.prems(2) False by simp
  qed
qed

text \<open>Without a cycle the loop ends only when all entries are processed.\<close>

lemma all_processed:
  assumes inv: "conflict_inv names C m [] P" and acyc: "acyclic {(e_v e, e_w e) | e. e \<in> set C}"
    and C: "\<And>e. e \<in> set C \<Longrightarrow> e_v e \<in> set names \<and> e_w e \<in> set names"
  shows "set P = set names"
proof (rule ccontr)
  let ?R = "{(e_v e, e_w e) | e. e \<in> set C}"
  assume "set P \<noteq> set names"
  then obtain a where a: "a \<in> set names - set P" using conflict_invD(4) [OF inv] by auto
  have "?R = (\<lambda>e. (e_v e, e_w e)) ` set C" by auto
  then have "wf ?R" using acyc by (metis finite_acyclic_wf finite_imageI List.finite_set)
  from wfE_min [OF this a] obtain z where z: "z \<in> set names - set P" "\<And>y. (y, z) \<in> ?R \<Longrightarrow> y \<notin> set names - set P" by blast
  then obtain x where "get m z = Some x" "entry_ok C P [] z x" using conflict_invD(5) [OF inv] by blast
  then have "filter (\<lambda>e. e_w e = z \<and> e_v e \<notin> set P) C \<noteq> []" using z(1) by (auto simp: entry_ok_def)
  then obtain e where "e \<in> set C" "e_w e = z" "e_v e \<notin> set P" by (auto simp: filter_empty_conv)
  with z(2) [of "e_v e"] C show False by blast
qed

section \<open>The first state\<close>

lemma mapEntries_get:
  assumes "distinct (map be_v entries)"
  shows "get (mapEntries entries) v = Some x \<longleftrightarrow> (\<exists>i < length entries. be_v (entries ! i) = v \<and> x = newEntry (entries ! i) i)"
    "obj_ok (mapEntries entries)"
proof -
  have fold: "get (fold (\<lambda>(entry, i). put (be_v entry) (newEntry entry i)) ps m) v = Some x \<longleftrightarrow>
      (\<exists>(entry, i) \<in> set ps. be_v entry = v \<and> x = newEntry entry i) \<or> (v \<notin> (be_v \<circ> fst) ` set ps \<and> get m v = Some x)"
    if "distinct (map (be_v \<circ> fst) ps)" for ps m
    using that by (induction ps arbitrary: m) (auto simp: image_iff split: if_splits)
  have "map (be_v \<circ> fst) (zip entries [0..<length entries]) = map be_v entries" by (simp flip: map_map)
  moreover have "set (zip entries [0..<length entries]) = {(entries ! i, i) | i. i < length entries}" by (auto simp: set_zip)
  moreover note assms fold [of "zip entries [0..<length entries]" "[]"]
  ultimately show "get (mapEntries entries) v = Some x \<longleftrightarrow> (\<exists>i < length entries. be_v (entries ! i) = v \<and> x = newEntry (entries ! i) i)"
    by (auto simp: mapEntries_def)
  have "obj_ok m \<Longrightarrow> obj_ok (fold (\<lambda>(entry, i). put (be_v entry) (newEntry entry i)) ps m)" for ps m
    by (induction ps arbitrary: m) auto
  then show "obj_ok (mapEntries entries)" by (simp add: mapEntries_def)
qed

lemma fold_addConstraint:
  assumes "C = filter (\<lambda>e. e_v e \<in> set (keys m) \<and> e_w e \<in> set (keys m)) es"
  shows "get (fold addConstraint es m) v = map_option (\<lambda>x. x\<lparr>c_out := c_out x @ map e_w (filter (\<lambda>e. e_v e = v) C),
      c_indegree := c_indegree x + int (length (filter (\<lambda>e. e_w e = v) C))\<rparr>) (get m v)" (is "_ = map_option (?f C) _")
    "keys (fold addConstraint es m) = keys m"
proof -
  have "get (fold addConstraint es m') v = map_option (?f (filter (\<lambda>e. e_v e \<in> set (keys m) \<and> e_w e \<in> set (keys m)) es)) (get m' v) \<and>
      keys (fold addConstraint es m') = keys m" if "keys m' = keys m" for m'
    using that
  proof (induction es arbitrary: m')
    case Nil
    then show ?case by (simp add: option.map_ident)
  next
    case (Cons e es)
    have k: "keys (addConstraint e m') = keys m" using Cons.prems by (simp add: addConstraint_def)
    have "get (addConstraint e m') v =
        map_option (?f (filter (\<lambda>e. e_v e \<in> set (keys m) \<and> e_w e \<in> set (keys m)) [e])) (get m' v)"
      using Cons.prems by (auto simp: addConstraint_def get_None_iff option.map_comp o_def option.map_ident intro!: option.map_cong)
    with Cons.IH [OF k] show ?case by (auto simp: option.map_comp o_def intro!: option.map_cong)
  qed
  then show "get (fold addConstraint es m) v = map_option (?f C) (get m v)" "keys (fold addConstraint es m) = keys m"
    using assms by auto
qed

lemma sum_singletons: "distinct xs \<Longrightarrow> (\<Sum>x \<in> set xs. {#x#}) = mset xs"
  by (induction xs) simp_all

lemma first_state:
  fixes es :: "edgeObj list"
  assumes dist: "distinct (map be_v entries)"
  defines "names \<equiv> map be_v entries" and "m \<equiv> fold addConstraint es (mapEntries entries)"
  shows "conflict_inv names (filter (\<lambda>e. e_v e \<in> set names \<and> e_w e \<in> set names) es) m
      (map fst (filter (\<lambda>(_, x). c_indegree x = 0) m)) []" "length m = card (set names)"
proof -
  let ?C = "filter (\<lambda>e. e_v e \<in> set names \<and> e_w e \<in> set names) es" and ?m0 = "mapEntries entries"
  have ent: "get ?m0 v = Some x \<longleftrightarrow> (\<exists>i < length names. names ! i = v \<and> x = newEntry (entries ! i) i)" for v x
    unfolding mapEntries_get(1) [OF dist] by (auto simp: names_def)
  have "v \<in> set (keys ?m0) \<longleftrightarrow> (\<exists>x. get ?m0 v = Some x)" for v using get_None_iff [of ?m0 v] by auto
  then have keys0: "set (keys ?m0) = set names" unfolding ent by (auto simp: in_set_conv_nth)
  have get: "get m v = map_option (\<lambda>x. x\<lparr>c_out := c_out x @ map e_w (filter (\<lambda>e. e_v e = v) ?C),
      c_indegree := c_indegree x + int (length (filter (\<lambda>e. e_w e = v) ?C))\<rparr>) (get ?m0 v)" and keys: "keys m = keys ?m0" for v
    using fold_addConstraint [of ?C ?m0 es] keys0 by (auto simp: m_def)
  have ok: "obj_ok m" using mapEntries_get(2) [OF dist] keys unfolding obj_ok_def by simp
  show "length m = card (set names)" using ok keys keys0 by (metis distinct_card length_keys obj_ok_def)
  let ?at = "\<lambda>i v. (newEntry (entries ! i) i)\<lparr>c_out := map e_w (filter (\<lambda>e. e_v e = v) ?C),
      c_indegree := int (length (filter (\<lambda>e. e_w e = v) ?C))\<rparr>"
  have at: "get m v = Some x \<longleftrightarrow> (\<exists>i < length names. names ! i = v \<and> x = ?at i v)" for v x
  proof -
    let ?F = "\<lambda>x. x\<lparr>c_out := c_out x @ map e_w (filter (\<lambda>e. e_v e = v) ?C),
      c_indegree := c_indegree x + int (length (filter (\<lambda>e. e_w e = v) ?C))\<rparr>"
    have F: "?F (newEntry (entries ! i) i) = ?at i v" for i by (simp add: newEntry_def)
    have "get m v = Some x \<longleftrightarrow> (\<exists>z. get ?m0 v = Some z \<and> x = ?F z)" unfolding get [of v] map_option_eq_Some by (simp only: eq_commute [of x])
    also have "\<dots> \<longleftrightarrow> (\<exists>i < length names. names ! i = v \<and> x = ?F (newEntry (entries ! i) i))" unfolding ent by blast
    finally show ?thesis unfolding F .
  qed
  have "\<not> c_merged (?at i v)" for i v by (simp add: newEntry_def)
  then have "v \<in> live m \<longleftrightarrow> v \<in> set names" for v unfolding live_def mem_Collect_eq at in_set_conv_nth [of v names] by blast
  then have live: "live m = set names" by blast
  have "nodesOf m v = [v]" if "v \<in> set names" for v
  proof -
    from that obtain i where "i < length names" "names ! i = v" by (auto simp: in_set_conv_nth)
    then have "get m v = Some (?at i v)" "be_v (entries ! i) = v" using at by (blast, simp add: names_def)
    then show ?thesis by (simp add: nodesOf_def newEntry_def)
  qed
  then have "(\<Sum>v \<in> live m. mset (nodesOf m v)) = (\<Sum>v \<in> set names. {#v#})" unfolding live by (intro sum.cong) auto
  also have "\<dots> = mset names" using dist unfolding names_def [symmetric] by (rule sum_singletons)
  finally have gr: "grouped names m" by (auto simp: grouped_def at newEntry_def names_def)
  have "\<exists>x. get m v = Some x \<and> entry_ok ?C [] (map fst (filter (\<lambda>(_, x). c_indegree x = 0) m)) v x" if "v \<in> set names" for v
  proof -
    from that obtain i where i: "i < length names" "names ! i = v" by (auto simp: in_set_conv_nth)
    then obtain x where x: "get m v = Some x" "x = ?at i v" using at by blast
    have "v \<in> set (map fst (filter (\<lambda>(_, x). c_indegree x = 0) m)) \<longleftrightarrow> (\<exists>y. (v, y) \<in> set m \<and> c_indegree y = 0)" by force
    also have "\<dots> \<longleftrightarrow> c_indegree x = 0" unfolding get_mem_iff [OF ok, symmetric] using x(1) by simp
    finally show ?thesis using x by (intro exI [of _ x]) (simp add: entry_ok_def newEntry_def)
  qed
  moreover have "distinct (map fst (filter (\<lambda>(_, x). c_indegree x = 0) m))"
    using ok unfolding obj_ok_def keys_def by (auto simp: distinct_map_filter)
  moreover have "set (map fst (filter (\<lambda>(_, x). c_indegree x = 0) m)) \<subseteq> set (keys m)" by (auto simp: keys_def)
  then have "set (map fst (filter (\<lambda>(_, x). c_indegree x = 0) m)) \<subseteq> set names" unfolding keys keys0 .
  ultimately show "conflict_inv names ?C m (map fst (filter (\<lambda>(_, x). c_indegree x = 0) m)) []"
    using gr keys keys0 unfolding conflict_inv_def by simp
qed

section \<open>The result\<close>

lemma live_entries:
  assumes inv: "conflict_inv names C m [] P" and all: "set P = set names" and dist: "distinct names"
  defines "rs \<equiv> map pickEntry (filter (\<lambda>x. \<not> c_merged x) (map (\<lambda>v. the (get m v)) P))"
  shows "mset (concat (map x_vs rs)) = mset names" "distinct (map x_i rs)"
    "\<And>x. x \<in> set rs \<Longrightarrow> x_i x < length names \<and> (\<not> sortable x \<longrightarrow> length (x_vs x) = 1)"
proof -
  note I = conflict_invD [OF inv]
  let ?L = "filter (\<lambda>v. \<not> c_merged (the (get m v))) P"
  have rs: "rs = map (\<lambda>v. pickEntry (the (get m v))) ?L" by (simp add: rs_def filter_map o_def)
  have got: "get m v = Some (the (get m v))" if "v \<in> set names" for v using I(5) [OF that] by auto
  have L: "set ?L = live m" "distinct ?L"
  proof -
    show "set ?L = live m" using got all I(1) live_keys [of m] by (auto simp: live_def)
    show "distinct ?L" using I(3) by simp
  qed
  have sum: "(\<Sum>v \<in> live m. mset (nodesOf m v)) = mset names" using I(2) by (simp add: grouped_def)
  have live: "c_i (the (get m v)) < length names" "names ! c_i (the (get m v)) \<in> set (c_vs (the (get m v)))"
    "c_barycenter (the (get m v)) = None \<longrightarrow> c_vs (the (get m v)) = [v]" if "v \<in> set ?L" for v
    using I(2) got [of v] that all unfolding grouped_def by auto
  have vs: "c_vs (the (get m v)) = nodesOf m v" if "v \<in> set ?L" for v using got [of v] that all by (auto simp: nodesOf_def split: option.splits)
  have "mset (concat (map x_vs rs)) = (\<Sum>v \<leftarrow> ?L. mset (c_vs (the (get m v))))"
    unfolding rs by (induction P) (simp_all add: pickEntry_def)
  also have "\<dots> = (\<Sum>v \<leftarrow> ?L. mset (nodesOf m v))" using vs by (intro arg_cong [where f = sum_list] map_cong) auto
  also have "\<dots> = mset names" unfolding sum_list_distinct_conv_sum_set [OF L(2)] L(1) sum ..
  finally show "mset (concat (map x_vs rs)) = mset names" .
  have "c_i (the (get m v)) \<noteq> c_i (the (get m w))" if vw: "v \<in> set ?L" "w \<in> set ?L" "v \<noteq> w" for v w
  proof
    let ?a = "names ! c_i (the (get m v))"
    assume "c_i (the (get m v)) = c_i (the (get m w))"
    then have "?a \<in># mset (nodesOf m v)" "?a \<in># mset (nodesOf m w)" using live(2) vw(1,2) vs by (metis set_mset_mset)+
    then have "0 < count (mset (nodesOf m v)) ?a" "0 < count (mset (nodesOf m w)) ?a" unfolding count_greater_zero_iff .
    moreover have "(\<Sum>z \<in> {v, w}. count (mset (nodesOf m z)) ?a) = count (mset (nodesOf m v)) ?a + count (mset (nodesOf m w)) ?a"
      using vw(3) by simp
    ultimately have "2 \<le> (\<Sum>z \<in> {v, w}. count (mset (nodesOf m z)) ?a)" by linarith
    also have "\<dots> \<le> (\<Sum>z \<in> live m. count (mset (nodesOf m z)) ?a)" using vw(1,2) L(1) by (intro sum_mono2) auto
    also have "\<dots> = count (mset names) ?a" unfolding sum [symmetric] by (simp add: count_sum)
    also have "\<dots> \<le> 1" using dist by (simp add: distinct_count_atmost_1)
    finally show False by simp
  qed
  then have "inj_on (\<lambda>v. c_i (the (get m v))) (set ?L)" unfolding inj_on_def by blast
  then show "distinct (map x_i rs)" using L(2) unfolding rs by (simp add: distinct_map pickEntry_def o_def)
  show "x_i x < length names \<and> (\<not> sortable x \<longrightarrow> length (x_vs x) = 1)" if "x \<in> set rs" for x
    using that live by (auto simp: rs pickEntry_def sortable_def)
qed

text \<open>If no constraints between the given entries form a cycle, \<open>resolveConflicts\<close> ends, and the merged entries it returns
  contain every node exactly once; they have different indices below the number of entries, and an entry without a
  barycenter is a single node.\<close>

lemma resolveConflicts_keeps_every_node:
  fixes cg :: "('g, 'n, 'e) Graph"
  assumes dist: "distinct (map be_v entries)"
    and acyc: "acyclic {(v, w) \<in> arcs cg. v \<in> be_v ` set entries \<and> w \<in> be_v ` set entries}"
  shows "\<exists>rs. resolveConflicts entries cg = Inr rs \<and> mset (concat (map x_vs rs)) = mset (map be_v entries) \<and>
    distinct (map x_i rs) \<and> (\<forall>x \<in> set rs. x_i x < length entries \<and> (\<not> sortable x \<longrightarrow> length (x_vs x) = 1))"
proof -
  let ?names = "map be_v entries"
  let ?C = "filter (\<lambda>e. e_v e \<in> set ?names \<and> e_w e \<in> set ?names) (edges cg)"
  let ?m = "fold addConstraint (edges cg) (mapEntries entries)"
  have C: "e_v e \<in> set ?names \<and> e_w e \<in> set ?names" if "e \<in> set ?C" for e using that by simp
  note first = first_state [OF dist, of "edges cg"]
  obtain m P where m: "resolveLoop (Suc (length ?m)) [] (?m, map fst (filter (\<lambda>(_, x). c_indegree x = 0) ?m)) = Inr (m, P)"
    "conflict_inv ?names ?C m [] P" using loop_ends [OF C first(1), of "Suc (length ?m)"] first(2) by auto
  have "{(e_v e, e_w e) | e. e \<in> set ?C} = {(v, w) \<in> arcs cg. v \<in> be_v ` set entries \<and> w \<in> be_v ` set entries}"
    by (auto simp: arcs_def) (metis imageI)
  then have "set P = set ?names" using all_processed [OF m(2) _ C] acyc by simp
  from live_entries [OF m(2) this dist] show ?thesis
    using m(1) by (intro exI [of _ "map pickEntry (filter (\<lambda>x. \<not> c_merged x) (map (\<lambda>v. the (get m v)) P))"])
      (simp add: resolveConflicts_def doResolveConflicts_def Let_def)
qed

end
