(* ===== verification/Dagre_Subgraph.thy ===== *)
theory Dagre_Subgraph
  imports Dagre_Conflicts Dagre_Feedback
begin

text \<open>
  Ordering one layer (\<open>lib/order/barycenter\<close>, \<open>lib/order/sort-subgraph\<close>): every node gets the mean position of its
  neighbours in the layer before, subgraphs are sorted first and take part as one entry, conflicts with the constraints are
  resolved, and the entries are sorted. A label of the layer graph has the properties these functions read; the left and
  right border of a subgraph are set together. Most labels are the objects of the layout graph itself (\<open>y_shared\<close>). The theorem: the result lists every node of the layer exactly once.
\<close>

record layerLabel =
  y_order :: "int option"
  y_border :: "(string \<times> string) option"
  y_shared :: bool

type_synonym layerGraph = "(string, layerLabel, int) Graph"

section \<open>Barycenters\<close>

definition orderOf :: "layerLabel \<Rightarrow> jsnum" where
  "orderOf l = (case y_order l of Some i \<Rightarrow> Real (real_of_int i) | None \<Rightarrow> NaN)"

definition addWeighted :: "layerGraph \<Rightarrow> edgeObj \<Rightarrow> jsnum \<times> jsnum \<Rightarrow> (jsnum \<times> jsnum) result" where
  "addWeighted g e acc =
     rbind (deref (edgeOfObj e g)) (\<lambda>weight.
     rbind (deref (node (e_v e) g)) (\<lambda>nodeU.
       Inr (num_add (fst acc) (num_mult (Real (real_of_int weight)) (orderOf nodeU)), num_add (snd acc) (Real (real_of_int weight)))))"

definition barycenterOf :: "layerGraph \<Rightarrow> string \<Rightarrow> baryEntry list \<Rightarrow> baryEntry list result" where
  "barycenterOf g v acc =
     rbind (deref (inEdges v None g)) (\<lambda>inV.
       if inV = [] then Inr (acc @ [\<lparr>be_v = v, be_barycenter = None, be_weight = None\<rparr>])
       else rbind (rfold (addWeighted g) inV (Real 0, Real 0)) (\<lambda>(sm, weight).
         Inr (acc @ [\<lparr>be_v = v, be_barycenter = Some (num_div sm weight), be_weight = Some weight\<rparr>])))"

definition barycenter :: "layerGraph \<Rightarrow> string list \<Rightarrow> baryEntry list result" where
  "barycenter g movable = rfold (barycenterOf g) movable []"

section \<open>Subgraphs\<close>

definition mergeBarycenters :: "baryEntry \<Rightarrow> sortResult \<Rightarrow> baryEntry" where
  "mergeBarycenters target other =
     (if be_barycenter target \<noteq> None
      then let tb = num_of (be_barycenter target); tw = num_of (be_weight target);
               ob = num_of (r_barycenter other); ow = num_of (r_weight other)
           in target\<lparr>be_barycenter := Some (num_div (num_add (num_mult tb tw) (num_mult ob ow)) (num_add tw ow)),
                     be_weight := Some (num_add tw ow)\<rparr>
      else target\<lparr>be_barycenter := r_barycenter other, be_weight := r_weight other\<rparr>)"

definition expandNode :: "sortResult obj \<Rightarrow> string \<Rightarrow> string list" where
  "expandNode subgraphs v = (case get subgraphs v of Some r \<Rightarrow> r_vs r | None \<Rightarrow> [v])"

definition expandSubgraphs :: "sortResult obj \<Rightarrow> sortEntry list \<Rightarrow> sortEntry list" where
  "expandSubgraphs subgraphs entries = map (\<lambda>entry. entry\<lparr>x_vs := concat (map (expandNode subgraphs) (x_vs entry))\<rparr>) entries"

text \<open>The borders, if the left one is not empty.\<close>

definition bordersOf :: "layerGraph \<Rightarrow> string \<Rightarrow> (string \<times> string) option" where
  "bordersOf g v =
     (case node v g of
        Some l \<Rightarrow> (case y_border l of Some (bl, br) \<Rightarrow> if bl \<noteq> [] then Some (bl, br) else None | None \<Rightarrow> None)
      | None \<Rightarrow> None)"

definition movableNodes :: "layerGraph \<Rightarrow> string \<Rightarrow> string list" where
  "movableNodes g v =
     (case bordersOf g v of
        Some (bl, br) \<Rightarrow> filter (\<lambda>w. w \<noteq> bl \<and> w \<noteq> br) (each (children (Some v) g))
      | None \<Rightarrow> each (children (Some v) g))"

definition firstLabel :: "layerGraph \<Rightarrow> string list \<Rightarrow> layerLabel result" where
  "firstLabel g preds = deref (case preds of u # _ \<Rightarrow> node u g | [] \<Rightarrow> None)"

definition addBorders :: "layerGraph \<Rightarrow> string \<Rightarrow> string \<Rightarrow> sortResult \<Rightarrow> sortResult result" where
  "addBorders g bl br r =
     (let r' = r\<lparr>r_vs := bl # r_vs r @ [br]\<rparr> in
      rbind (deref (predecessors bl g)) (\<lambda>preds.
        if preds = [] then Inr r'
        else rbind (deref (predecessors br g)) (\<lambda>brPreds.
             rbind (firstLabel g preds) (\<lambda>blPred.
             rbind (firstLabel g brPreds) (\<lambda>brPred.
               let b = (if r_barycenter r' = None then Real 0 else num_of (r_barycenter r'));
                   w = (if r_barycenter r' = None then Real 0 else num_of (r_weight r'))
               in Inr (r'\<lparr>r_barycenter := Some (num_div (num_add (num_add (num_mult b w) (orderOf blPred)) (orderOf brPred)) (num_add w (Real 2))),
                          r_weight := Some (num_add w (Real 2))\<rparr>))))))"

text \<open>The recursion is over the hierarchy of subgraphs; the first argument bounds its depth.\<close>

fun sortLevel :: "nat \<Rightarrow> layerGraph \<Rightarrow> string \<Rightarrow> ('g, 'n, 'e) Graph \<Rightarrow> bool \<Rightarrow> sortResult result" where
  "sortLevel 0 g v cg biasRight = Inl Diverges"
| "sortLevel (Suc n) g v cg biasRight =
     rbind (barycenter g (movableNodes g v)) (\<lambda>barycenters.
     rbind (rfold (\<lambda>entry (subgraphs, acc).
         rbind (deref (children (Some (be_v entry)) g)) (\<lambda>cs.
           if cs = [] then Inr (subgraphs, acc @ [entry])
           else rbind (sortLevel n g (be_v entry) cg biasRight) (\<lambda>r.
             Inr (put (be_v entry) r subgraphs, acc @ [if r_barycenter r \<noteq> None then mergeBarycenters entry r else entry]))))
       barycenters ([], [])) (\<lambda>(subgraphs, merged).
     rbind (resolveConflicts merged cg) (\<lambda>entries.
       let r = sort_entries (expandSubgraphs subgraphs entries) biasRight in
       case bordersOf g v of Some (bl, br) \<Rightarrow> addBorders g bl br r | None \<Rightarrow> Inr r)))"

declare sortLevel.simps [simp del]

definition sortSubgraph :: "layerGraph \<Rightarrow> string \<Rightarrow> ('g, 'n, 'e) Graph \<Rightarrow> bool \<Rightarrow> sortResult result" where
  "sortSubgraph g v cg biasRight = sortLevel (length (nodes g) + 1) g v cg biasRight"

section \<open>The hierarchy of a layer\<close>

text \<open>The child relation, and the nodes of a subgraph that have no children.\<close>

abbreviation below_parent :: "('g, 'n, 'e) Graph \<Rightarrow> (string \<times> string) set" where
  "below_parent g \<equiv> parent_rel (f_parent g)"

definition childless :: "('g, 'n, 'e) Graph \<Rightarrow> string \<Rightarrow> bool" where
  "childless g x \<longleftrightarrow> (\<forall>y. (y, x) \<notin> below_parent g)"

definition base_nodes :: "('g, 'n, 'e) Graph \<Rightarrow> string \<Rightarrow> string set" where
  "base_nodes g v = {x. (x, v) \<in> (below_parent g)\<^sup>+ \<and> childless g x}"

text \<open>What the ordering relies on: labels where they are read, and borders that are two different children without
  children of their own, of which both or none have predecessors.\<close>

definition layer_ok :: "layerGraph \<Rightarrow> bool" where
  "layer_ok g \<longleftrightarrow> graph_ok g \<and> f_isCompound g \<and>
     (\<forall>e \<in> set (edges g). edgeOfObj e g \<noteq> None \<and> node (e_v e) g \<noteq> None) \<and>
     (\<forall>v \<in> node_set g. \<forall>bl br. bordersOf g v = Some (bl, br) \<longrightarrow>
        bl \<noteq> br \<and> (bl, v) \<in> below_parent g \<and> (br, v) \<in> below_parent g \<and> childless g bl \<and> childless g br \<and>
        ((\<exists>e \<in> set (edges g). e_w e = bl) \<longrightarrow> (\<exists>e \<in> set (edges g). e_w e = br)))"

lemma layer_okD:
  assumes "layer_ok g"
  shows "graph_ok g" "f_isCompound g" "\<And>e. e \<in> set (edges g) \<Longrightarrow> edgeOfObj e g \<noteq> None \<and> node (e_v e) g \<noteq> None"
    and "\<And>v bl br. v \<in> node_set g \<Longrightarrow> bordersOf g v = Some (bl, br) \<Longrightarrow>
      bl \<noteq> br \<and> (bl, v) \<in> below_parent g \<and> (br, v) \<in> below_parent g \<and> childless g bl \<and> childless g br \<and>
        ((\<exists>e \<in> set (edges g). e_w e = bl) \<longrightarrow> (\<exists>e \<in> set (edges g). e_w e = br))"
  using assms unfolding layer_ok_def by blast+

lemma children_spec:
  assumes "graph_ok g" "f_isCompound g" "v \<in> node_set g"
  shows "\<exists>cs. children (Some v) g = Some cs \<and> distinct cs \<and> set cs = {x. (x, v) \<in> below_parent g}"
proof -
  note T = graph_okD(4) [OF assms(1,2)]
  obtain ob where ob: "get (f_children g) v = Some ob" using tree_okD(3) [OF T] assms(3) key_get [of v "f_children g"] by blast
  then show ?thesis using assms(2) tree_okD(8,9) [OF T ob] by (auto simp: children_def parent_rel_def obj_ok_def)
qed

lemma child_node:
  assumes "graph_ok g" "f_isCompound g" "(x, v) \<in> below_parent g"
  shows "x \<in> node_set g"
  using tree_okD(2) [OF graph_okD(4) [OF assms(1,2)]] assms(3) get_Some_key [of "f_parent g"] by (auto simp: parent_rel_def)

lemma siblings_disjoint:
  assumes "graph_ok g" "f_isCompound g" "(a, v) \<in> below_parent g" "(b, v) \<in> below_parent g"
    and "(x, a) \<in> (below_parent g)\<^sup>*" "(x, b) \<in> (below_parent g)\<^sup>*"
  shows "a = b"
proof (rule ccontr)
  let ?R = "below_parent g"
  assume ab: "a \<noteq> b"
  have ac: "acyclic ?R" by (rule tree_okD(1) [OF graph_okD(4) [OF assms(1,2)]])
  have sv: "single_valued ?R" by (auto simp: single_valued_def parent_rel_def)
  have no: "(c, d) \<notin> ?R\<^sup>*" if cd: "(c, v) \<in> ?R" "(d, v) \<in> ?R" "c \<noteq> d" for c d
  proof
    assume "(c, d) \<in> ?R\<^sup>*"
    then obtain y where y: "(c, y) \<in> ?R" "(y, d) \<in> ?R\<^sup>*" using cd(3) by (meson converse_rtranclE)
    then have "(v, d) \<in> ?R\<^sup>*" using sv cd(1) by (auto dest: single_valuedD)
    then have "(v, v) \<in> ?R\<^sup>+" using cd(2) by (meson rtrancl_into_trancl1)
    with ac show False by (simp add: acyclic_def)
  qed
  from single_valued_confluent [OF sv assms(5,6)] no [OF assms(3,4) ab] no [OF assms(4,3)] ab show False by blast
qed

section \<open>One level\<close>

lemma barycenter_ok:
  assumes ok: "layer_ok g" and mov: "set movable \<subseteq> node_set g"
  shows "\<exists>bs. barycenter g movable = Inr bs \<and> map be_v bs = movable"
proof -
  note L = layer_okD [OF ok]
  have "\<exists>bs. rfold (barycenterOf g) movable [] = Inr bs \<and> map be_v bs = movable"
  proof (rule rfold_prefix_invariant [where P = "\<lambda>ys bs. map be_v bs = ys"])
    fix ys v zs and bs :: "baryEntry list"
    assume split: "movable = ys @ v # zs" and bs: "map be_v bs = ys"
    have v: "v \<in> node_set g" using split mov by simp
    then obtain es where es: "inEdges v None g = Some es" "set es = {e \<in> set (edges g). e_w e = v}" using inEdges_spec [OF L(1)] by blast
    have "\<exists>acc. rfold (addWeighted g) es (Real 0, Real 0) = Inr acc \<and> True"
    proof (rule rfold_invariant)
      fix e acc assume "e \<in> set es"
      then show "\<exists>acc'. addWeighted g e acc = Inr acc' \<and> True" using es(2) L(3) [of e] by (auto simp: addWeighted_def)
    qed simp
    then obtain acc where "rfold (addWeighted g) es (Real 0, Real 0) = Inr acc" by blast
    with es(1) bs show "\<exists>bs'. barycenterOf g v bs = Inr bs' \<and> map be_v bs' = ys @ [v]"
      by (cases acc) (auto simp: barycenterOf_def)
  qed simp
  then show ?thesis by (simp add: barycenter_def)
qed

text \<open>Sorting the expanded entries loses nothing.\<close>

lemma expanded_sort:
  assumes perm: "mset (concat (map x_vs rs)) = mset movable" and idx: "distinct (map x_i rs)"
    and rs: "\<And>x. x \<in> set rs \<Longrightarrow> x_i x < length movable \<and> (\<not> sortable x \<longrightarrow> length (x_vs x) = 1)"
    and ne: "\<And>c. c \<in> set movable \<Longrightarrow> expandNode subs c \<noteq> []"
  shows "mset (r_vs (sort_entries (expandSubgraphs subs rs) bias)) = mset (concat (map (expandNode subs) movable))"
proof -
  let ?f = "expandNode subs" and ?rs = "expandSubgraphs subs rs"
  let ?S = "filter sortable" and ?U = "filter (\<lambda>x. \<not> sortable x)"
  let ?ex = "\<lambda>x. x\<lparr>x_vs := concat (map ?f (x_vs x))\<rparr>"
  have ex: "?rs = map ?ex rs" "\<And>x. sortable (?ex x) = sortable x" "\<And>x. x_i (?ex x) = x_i x" by (simp_all add: expandSubgraphs_def sortable_def)
  have parts: "?S ?rs = map ?ex (?S rs)" "?U ?rs = map ?ex (?U rs)" by (simp_all add: ex filter_map o_def)
  have len: "length (x_vs x) \<le> length (x_vs (?ex x))" if "x \<in> set rs" for x
  proof -
    have "c \<in> set movable" if "c \<in> set (x_vs x)" for c using that \<open>x \<in> set rs\<close> mset_eq_setD [OF perm] by auto
    then have "0 < length (?f c)" if "c \<in> set (x_vs x)" for c using that ne by simp
    then have "length zs \<le> length (concat (map ?f zs))" if "set zs \<subseteq> set (x_vs x)" for zs
      using that
    proof (induction zs)
      case (Cons c zs)
      then have "0 < length (?f c)" "length zs \<le> length (concat (map ?f zs))" by auto
      then show ?case unfolding list.map concat.simps length_append list.size by linarith
    qed simp
    then show ?thesis by simp
  qed
  have "length movable = length (concat (map x_vs rs))" using mset_eq_length [OF perm] by simp
  also have "\<dots> = width (?S rs) + width (?U rs)" unfolding width_def by (induction rs) auto
  also have "width (?U rs) = length (?U rs)" using rs unfolding width_def by (induction rs) auto
  finally have tot: "length movable = width (?S rs) + length (?U rs)" .
  have "width (?S rs) \<le> width (?S ?rs)" unfolding parts width_def map_map o_def
    using len by (intro sum_list_mono) auto
  then have "length movable \<le> width (?S ?rs) + length (?U ?rs)" using tot parts(2) by simp
  then have "\<forall>x \<in> set ?rs. \<not> sortable x \<longrightarrow> x_i x < width (?S ?rs) + length (?U ?rs)"
    using rs by (fastforce simp: ex)
  moreover have "distinct (map x_i (?U ?rs))" using idx by (simp add: parts o_def distinct_map_filter)
  ultimately obtain order where order: "order \<in> shuffles (sortBy (compareWithBias bias) (?S ?rs)) (by_index (?U ?rs))"
    "r_vs (sort_entries ?rs bias) = concat (map x_vs order)" using sort_entries_vs [of ?rs bias] by blast
  have flat: "mset (concat (map k xs)) = (\<Sum>x \<leftarrow> xs. mset (k x))" for k :: "'z \<Rightarrow> string list" and xs by (induction xs) simp_all
  have "mset order = mset ?rs"
    using mset_shuffles [OF order(1)] by (simp add: mset_sortBy by_index_props(1) flip: multiset_partition)
  then have "mset (concat (map x_vs order)) = mset (concat (map x_vs ?rs))" unfolding flat by (rule sum_list_perm)
  also have "\<dots> = mset (concat (map ?f (concat (map x_vs rs))))" unfolding ex by (induction rs) simp_all
  also have "\<dots> = mset (concat (map ?f movable))" unfolding flat using perm by (rule sum_list_perm)
  finally show ?thesis using order(2) by simp
qed

text \<open>The base nodes in and below a child.\<close>

definition piece :: "('g, 'n, 'e) Graph \<Rightarrow> string \<Rightarrow> string set" where
  "piece g c = {x. (x, c) \<in> (below_parent g)\<^sup>* \<and> childless g x}"

lemma piece_childless: "childless g c \<Longrightarrow> piece g c = {c}"
  by (auto simp: piece_def childless_def elim: rtranclE)

lemma piece_subgraph: "\<not> childless g c \<Longrightarrow> piece g c = base_nodes g c"
  by (auto simp: piece_def base_nodes_def rtrancl_eq_or_trancl)

lemma base_nodes_pieces: "base_nodes g v = (\<Union>c \<in> {c. (c, v) \<in> below_parent g}. piece g c)"
  by (auto simp: base_nodes_def piece_def dest: tranclD2 intro: rtrancl_into_trancl1)

lemma below_finite:
  assumes "graph_ok g" "f_isCompound g"
  shows "finite (below_parent g)"
proof -
  have "below_parent g \<subseteq> set (f_parent g)"
    using get_mem_iff [OF tree_okD(4) [OF graph_okD(4) [OF assms]]] by (auto simp: parent_rel_def)
  then show ?thesis using finite_subset by blast
qed

lemma piece_nonempty:
  assumes "graph_ok g" "f_isCompound g"
  shows "piece g c \<noteq> {}"
proof -
  let ?R = "below_parent g"
  have "wf ?R" by (rule finite_acyclic_wf [OF below_finite [OF assms] tree_okD(1) [OF graph_okD(4) [OF assms]]])
  from wfE_min [OF this, of c "{x. (x, c) \<in> ?R\<^sup>*}"] obtain z where
    z: "(z, c) \<in> ?R\<^sup>*" "\<And>y. (y, z) \<in> ?R \<Longrightarrow> (y, c) \<notin> ?R\<^sup>*" by auto
  then have "childless g z" unfolding childless_def by (meson converse_rtrancl_into_rtrancl)
  with z(1) show ?thesis by (auto simp: piece_def)
qed

definition inner :: "('g, 'n, 'e) Graph \<Rightarrow> string \<Rightarrow> string set" where
  "inner g v = {x. (x, v) \<in> (below_parent g)\<^sup>*}"

lemma inner_nodes:
  assumes ok: "graph_ok g" "f_isCompound g" and v: "v \<in> node_set g"
  shows "inner g v \<subseteq> node_set g" "finite (inner g v)"
proof -
  show "inner g v \<subseteq> node_set g" using v child_node [OF ok] by (auto simp: inner_def elim: converse_rtranclE)
  moreover have "finite (node_set g)" by (simp add: node_set_def)
  ultimately show "finite (inner g v)" by (rule finite_subset)
qed

lemma inner_child:
  assumes ok: "graph_ok g" "f_isCompound g" and c: "(c, v) \<in> below_parent g" "v \<in> node_set g"
  shows "card (inner g c) < card (inner g v)"
proof -
  have "(v, c) \<notin> (below_parent g)\<^sup>*"
    using tree_okD(1) [OF graph_okD(4) [OF ok]] c(1) by (metis acyclic_def rtrancl_into_trancl1)
  then have "v \<in> inner g v - inner g c" by (simp add: inner_def)
  moreover have "inner g c \<subseteq> inner g v" using c(1) by (auto simp: inner_def)
  ultimately have "inner g c \<subset> inner g v" by blast
  with inner_nodes(2) [OF ok c(2)] show ?thesis by (rule psubset_card_mono)
qed

text \<open>The loop over the entries sorts the subgraphs.\<close>

definition sortedPiece :: "layerGraph \<Rightarrow> string \<Rightarrow> sortResult \<Rightarrow> bool" where
  "sortedPiece g c r \<longleftrightarrow> distinct (r_vs r) \<and> set (r_vs r) = base_nodes g c"

lemma sort_children:
  assumes ok: "layer_ok g" and bs: "\<And>b. b \<in> set bs \<Longrightarrow> be_v b \<in> node_set g" and dist: "distinct (map be_v bs)"
    and rec: "\<And>c. c \<in> be_v ` set bs \<Longrightarrow> \<not> childless g c \<Longrightarrow> \<exists>r. sortFn c = Inr r \<and> sortedPiece g c r"
  shows "\<exists>subs merged. rfold (\<lambda>entry (subgraphs, acc).
         rbind (deref (children (Some (be_v entry)) g)) (\<lambda>cs.
           if cs = [] then Inr (subgraphs, acc @ [entry])
           else rbind (sortFn (be_v entry)) (\<lambda>r.
             Inr (put (be_v entry) r subgraphs, acc @ [if r_barycenter r \<noteq> None then mergeBarycenters entry r else entry]))))
       bs ([], []) = Inr (subs, merged) \<and> map be_v merged = map be_v bs \<and>
     (\<forall>c \<in> be_v ` set bs. distinct (expandNode subs c) \<and> set (expandNode subs c) = piece g c)"
proof -
  note L = layer_okD [OF ok]
  let ?body = "\<lambda>entry (subgraphs :: sortResult obj, acc). rbind (deref (children (Some (be_v entry)) g)) (\<lambda>cs.
           if cs = [] then Inr (subgraphs, acc @ [entry])
           else rbind (sortFn (be_v entry)) (\<lambda>r.
             Inr (put (be_v entry) r subgraphs, acc @ [if r_barycenter r \<noteq> None then mergeBarycenters entry r else entry])))"
  let ?P = "\<lambda>ys (subs :: sortResult obj, acc :: baryEntry list). map be_v acc = map be_v ys \<and> set (keys subs) \<subseteq> be_v ` set ys \<and>
     (\<forall>c \<in> be_v ` set ys. distinct (expandNode subs c) \<and> set (expandNode subs c) = piece g c)"
  have merge: "be_v (mergeBarycenters b r) = be_v b" for b r by (simp add: mergeBarycenters_def Let_def)
  have "\<exists>s. rfold ?body bs ([], []) = Inr s \<and> ?P bs s"
  proof (rule rfold_prefix_invariant [where P = ?P])
    fix ys b zs s
    assume split: "bs = ys @ b # zs" and P: "?P ys s"
    obtain subs acc where s: "s = (subs, acc)" by (cases s)
    let ?c = "be_v b"
    have c: "?c \<in> node_set g" "?c \<in> be_v ` set bs" "?c \<notin> be_v ` set ys" using bs split dist by auto
    obtain cs where cs: "children (Some ?c) g = Some cs" "set cs = {x. (x, ?c) \<in> below_parent g}"
      using children_spec [OF L(1,2) c(1)] by blast
    show "\<exists>s'. ?body b s = Inr s' \<and> ?P (ys @ [b]) s'"
    proof (cases "cs = []")
      case True
      then have "childless g ?c" using cs(2) by (auto simp: childless_def)
      moreover have "expandNode subs ?c = [?c]" using P c(3) s get_None_iff [of subs ?c] by (auto simp: expandNode_def)
      ultimately show ?thesis using True P s cs(1) by (auto simp: piece_childless)
    next
      case False
      then have nc: "\<not> childless g ?c" using cs(2) by (cases cs) (auto simp: childless_def)
      from rec [OF c(2) this] obtain r where r: "sortFn ?c = Inr r" "sortedPiece g ?c r" by blast
      have "expandNode (put ?c r subs) d = (if d = ?c then r_vs r else expandNode subs d)" for d by (simp add: expandNode_def)
      then show ?thesis using False P s cs(1) r c(3) piece_subgraph [OF nc] by (auto simp: sortedPiece_def merge)
    qed
  qed simp
  then show ?thesis by auto
qed

lemma addBorders_ok:
  assumes ok: "layer_ok g" and v: "v \<in> node_set g" and b: "bordersOf g v = Some (bl, br)"
  shows "\<exists>r'. addBorders g bl br r = Inr r' \<and> r_vs r' = bl # r_vs r @ [br]"
proof -
  note L = layer_okD [OF ok]
  note B = L(4) [OF v b]
  have nb: "bl \<in> node_set g" "br \<in> node_set g" using child_node [OF L(1,2)] B by blast+
  obtain ps where ps: "predecessors bl g = Some ps" "set ps = {e_v e | e. e \<in> set (edges g) \<and> e_w e = bl}"
    using predecessors_spec [OF L(1) nb(1)] by blast
  obtain qs where qs: "predecessors br g = Some qs" "set qs = {e_v e | e. e \<in> set (edges g) \<and> e_w e = br}"
    using predecessors_spec [OF L(1) nb(2)] by blast
  have first: "\<exists>l. firstLabel g us = Inr l" if ne: "us \<noteq> []" and src: "\<And>u. u \<in> set us \<Longrightarrow> \<exists>e \<in> set (edges g). e_v e = u" for us
  proof (cases us)
    case (Cons u us')
    then obtain e where "e \<in> set (edges g)" "e_v e = u" using src [of u] by auto
    with L(3) obtain l where "node u g = Some l" by blast
    then show ?thesis using Cons by (simp add: firstLabel_def)
  qed (use ne in simp)
  show ?thesis
  proof (cases "ps = []")
    case True
    then show ?thesis using ps(1) by (simp add: addBorders_def)
  next
    case False
    then have "\<exists>e \<in> set (edges g). e_w e = bl" using ps(2) by (cases ps) auto
    then have "qs \<noteq> []" using B qs(2) by auto
    then obtain k l where "firstLabel g ps = Inr k" "firstLabel g qs = Inr l" using first [of ps] first [of qs] False ps(2) qs(2) by auto
    then show ?thesis using ps(1) qs(1) False by (simp add: addBorders_def Let_def)
  qed
qed

text \<open>The children of a subgraph are its movable nodes and its borders.\<close>

lemma movable_ok:
  assumes ok: "layer_ok g" and v: "v \<in> node_set g"
  shows "distinct (movableNodes g v)" "set (movableNodes g v) \<subseteq> {c. (c, v) \<in> below_parent g}"
    "{c. (c, v) \<in> below_parent g} = set (movableNodes g v) \<union> (case bordersOf g v of Some (bl, br) \<Rightarrow> {bl, br} | None \<Rightarrow> {})"
    "\<And>bl br. bordersOf g v = Some (bl, br) \<Longrightarrow> bl \<notin> set (movableNodes g v) \<and> br \<notin> set (movableNodes g v)"
proof -
  note L = layer_okD [OF ok]
  obtain cs where cs: "children (Some v) g = Some cs" "distinct cs" "set cs = {c. (c, v) \<in> below_parent g}"
    using children_spec [OF L(1,2) v] by blast
  show "distinct (movableNodes g v)" "set (movableNodes g v) \<subseteq> {c. (c, v) \<in> below_parent g}"
    using cs by (auto simp: movableNodes_def each_def split: option.splits)
  show "{c. (c, v) \<in> below_parent g} = set (movableNodes g v) \<union> (case bordersOf g v of Some (bl, br) \<Rightarrow> {bl, br} | None \<Rightarrow> {})"
    using cs L(4) [OF v] by (auto simp: movableNodes_def each_def split: option.splits)
  show "bl \<notin> set (movableNodes g v) \<and> br \<notin> set (movableNodes g v)" if "bordersOf g v = Some (bl, br)" for bl br
    using that by (simp add: movableNodes_def)
qed

lemma sortLevel_ok:
  fixes cg :: "('g, 'n, 'e) Graph"
  assumes ok: "layer_ok g" and acyc: "acyclic (arcs cg)"
  shows "v \<in> node_set g \<Longrightarrow> card (inner g v) \<le> n \<Longrightarrow> \<exists>r. sortLevel n g v cg bias = Inr r \<and> sortedPiece g v r"
proof (induction n arbitrary: v)
  case 0
  have "v \<in> inner g v" by (simp add: inner_def)
  moreover have "finite (inner g v)" using inner_nodes(2) [OF layer_okD(1,2) [OF ok] 0(1)] .
  ultimately show ?case using 0(2) by auto
next
  case (Suc n)
  note L = layer_okD [OF ok] and M = movable_ok [OF ok Suc.prems(1)]
  let ?mov = "movableNodes g v"
  have mov: "c \<in> node_set g" "card (inner g c) \<le> n" if "c \<in> set ?mov" for c
    using that M(2) child_node [OF L(1,2)] inner_child [OF L(1,2) _ Suc.prems(1), of c] Suc.prems(2) by (blast, force)
  obtain bs where bs: "barycenter g ?mov = Inr bs" "map be_v bs = ?mov" using barycenter_ok [OF ok, of ?mov] mov(1) by blast
  then have names: "be_v ` set bs = set ?mov" by (metis set_map)
  have "be_v b \<in> node_set g" if "b \<in> set bs" for b using that names mov(1) by blast
  moreover have "\<exists>r. sortLevel n g c cg bias = Inr r \<and> sortedPiece g c r" if "c \<in> be_v ` set bs" "\<not> childless g c" for c
    using Suc.IH [of c] mov that(1) unfolding names by blast
  ultimately obtain subs merged where subs: "rfold (\<lambda>entry (subgraphs, acc).
         rbind (deref (children (Some (be_v entry)) g)) (\<lambda>cs.
           if cs = [] then Inr (subgraphs, acc @ [entry])
           else rbind (sortLevel n g (be_v entry) cg bias) (\<lambda>r.
             Inr (put (be_v entry) r subgraphs, acc @ [if r_barycenter r \<noteq> None then mergeBarycenters entry r else entry]))))
       bs ([], []) = Inr (subs, merged)" "map be_v merged = ?mov"
     "\<And>c. c \<in> set ?mov \<Longrightarrow> distinct (expandNode subs c) \<and> set (expandNode subs c) = piece g c"
    using sort_children [OF ok, of bs "\<lambda>c. sortLevel n g c cg bias"] bs(2) M(1) names by auto
  obtain rs where rs: "resolveConflicts merged cg = Inr rs" "mset (concat (map x_vs rs)) = mset ?mov" "distinct (map x_i rs)"
    "\<And>x. x \<in> set rs \<Longrightarrow> x_i x < length ?mov \<and> (\<not> sortable x \<longrightarrow> length (x_vs x) = 1)"
  proof -
    have "distinct (map be_v merged)" using subs(2) M(1) by simp
    moreover have "acyclic {(v, w) \<in> arcs cg. v \<in> be_v ` set merged \<and> w \<in> be_v ` set merged}" using acyc by (rule acyclic_subset) auto
    moreover have "length merged = length ?mov" using subs(2) by (metis length_map)
    ultimately show ?thesis using resolveConflicts_keeps_every_node [of merged cg] subs(2) that by auto
  qed
  let ?r = "sort_entries (expandSubgraphs subs rs) bias" and ?vs = "concat (map (expandNode subs) ?mov)"
  have "expandNode subs c \<noteq> []" if "c \<in> set ?mov" for c using subs(3) [OF that] piece_nonempty [OF L(1,2), of c] by auto
  with expanded_sort [OF rs(2-4)] have perm: "mset (r_vs ?r) = mset ?vs" by blast
  have "piece g c \<inter> piece g d = {}" if "c \<in> set ?mov" "d \<in> set ?mov" "c \<noteq> d" for c d
    using siblings_disjoint [OF L(1,2)] M(2) that unfolding piece_def by blast
  then have "distinct ?vs" using M(1) subs(3) by (intro distinct_pieces) auto
  then have dist: "distinct (r_vs ?r)" using perm by (metis mset_eq_imp_distinct_iff)
  have nodes: "set (r_vs ?r) = (\<Union>c \<in> set ?mov. piece g c)" using mset_eq_setD [OF perm] subs(3) by auto
  show ?case
  proof (cases "bordersOf g v")
    case None
    then have "sortedPiece g v ?r" using dist nodes M(3) by (simp add: sortedPiece_def base_nodes_pieces)
    then show ?thesis using bs(1) subs(1) rs(1) None by (simp add: sortLevel.simps Let_def)
  next
    case (Some p)
    then obtain bl br where b: "bordersOf g v = Some (bl, br)" by (cases p) auto
    note B = L(4) [OF Suc.prems(1) b]
    obtain r' where r': "addBorders g bl br ?r = Inr r'" "r_vs r' = bl # r_vs ?r @ [br]" using addBorders_ok [OF ok Suc.prems(1) b] by blast
    have pb: "piece g bl = {bl}" "piece g br = {br}" using B piece_childless by blast+
    have notin: "b' \<notin> set (r_vs ?r)" if "b' \<in> {bl, br}" for b'
    proof
      assume "b' \<in> set (r_vs ?r)"
      then obtain c where "c \<in> set ?mov" "(b', c) \<in> (below_parent g)\<^sup>*" unfolding nodes piece_def by blast
      moreover from this have "c = b'" using siblings_disjoint [OF L(1,2), of c v b' b'] M(2) B that by blast
      ultimately show False using M(4) [OF b] that by blast
    qed
    have "distinct (r_vs r')" using dist notin B by (auto simp: r'(2))
    moreover have "set (r_vs r') = base_nodes g v"
      unfolding base_nodes_pieces M(3) r'(2) b using nodes pb by auto
    ultimately show ?thesis using bs(1) subs(1) rs(1) b r'(1) by (simp add: sortLevel.simps Let_def sortedPiece_def)
  qed
qed

text \<open>A layer without nodes has no root.\<close>

lemma sortLevel_missing:
  fixes cg :: "('g, 'n, 'e) Graph"
  assumes ok: "layer_ok g" and v: "v \<notin> node_set g" "v \<noteq> GRAPH_NODE"
  shows "sortLevel (Suc n) g v cg bias = Inr \<lparr>r_vs = [], r_barycenter = None, r_weight = None\<rparr>"
proof -
  note L = layer_okD [OF ok]
  have "get (f_children g) v = None"
    using tree_okD(3) [OF graph_okD(4) [OF L(1,2)]] v get_None_iff [of "f_children g" v] by auto
  moreover have "node v g = None" using v(1) get_None_iff [of "f_nodes g" v] by (simp add: node_def node_set_def)
  ultimately have "movableNodes g v = []" "bordersOf g v = None" using L(2) by (simp_all add: movableNodes_def bordersOf_def children_def each_def)
  moreover have "resolveConflicts [] cg = Inr []" using resolveConflicts_keeps_every_node [of "[]" cg] by (auto simp: acyclic_def)
  ultimately show ?thesis
    by (simp add: sortLevel.simps barycenter_def expandSubgraphs_def sort_entries_def partition_util_def sortBy_def consumeUnsortable.simps truthy_num_def)
qed

lemma sortSubgraph_ok:
  fixes cg :: "('g, 'n, 'e) Graph"
  assumes "layer_ok g" "acyclic (arcs cg)" "v \<noteq> GRAPH_NODE"
  shows "\<exists>r. sortSubgraph g v cg biasRight = Inr r \<and> distinct (r_vs r) \<and> set (r_vs r) = base_nodes g v"
proof (cases "v \<in> node_set g")
  case True
  have "card (inner g v) \<le> card (node_set g)"
    using inner_nodes(1) [OF layer_okD(1,2) [OF assms(1)] True] by (intro card_mono) (simp_all add: node_set_def)
  also have "\<dots> = length (nodes g)" using distinct_nodes [OF layer_okD(1) [OF assms(1)]] by (simp add: distinct_card flip: nodes_set)
  finally have "card (inner g v) \<le> length (nodes g) + 1" by simp
  from sortLevel_ok [OF assms(1,2) True this] show ?thesis by (simp add: sortSubgraph_def sortedPiece_def)
next
  case False
  have "(x, v) \<notin> below_parent g" for x
    using tree_okD(10) [OF graph_okD(4) [OF layer_okD(1,2) [OF assms(1)]], of x v] False assms(3) by (auto simp: parent_rel_def)
  then have "base_nodes g v = {}" unfolding base_nodes_pieces by simp
  then show ?thesis using sortLevel_missing [OF assms(1) False assms(3), where cg = cg] by (simp add: sortSubgraph_def)
qed

text \<open>C37. For a constraint graph without cycles and any subgraph of a layer, \<open>sortSubgraph\<close> ends and returns the nodes
  without children that lie inside it, each exactly once: sorting, merging and the insertion of subgraphs and borders lose
  and duplicate no node.\<close>

theorem sortSubgraph_lists_the_layer:
  fixes cg :: "('g, 'n, 'e) Graph"
  assumes "layer_ok g" "acyclic (arcs cg)" "v \<noteq> GRAPH_NODE"
  shows "\<exists>r. sortSubgraph g v cg biasRight = Inr r \<and> distinct (r_vs r) \<and> set (r_vs r) = base_nodes g v"
  using assms by (rule sortSubgraph_ok)

text \<open>A layer with the nodes \<open>a\<close> and \<open>b\<close> inside its root.\<close>

definition exampleLayer :: "layerGraph result" where
  "exampleLayer =
     rbind (setNode ''root'' (Some None) (newGraph None None (Some True))) (\<lambda>g.
     rbind (setNode ''a'' (Some (Some \<lparr>y_order = Some 0, y_border = None, y_shared = True\<rparr>)) g) (\<lambda>g1.
     rbind (setNode ''b'' (Some (Some \<lparr>y_order = Some 1, y_border = None, y_shared = True\<rparr>)) g1) (\<lambda>g2.
     rbind (setParent ''a'' (Some ''root'') g2) (setParent ''b'' (Some ''root'')))))"

lemma exampleLayer_ok:
  "\<exists>g. exampleLayer = Inr g \<and> layer_ok g \<and> ''root'' \<in> node_set g \<and> base_nodes g ''root'' = {''a'', ''b''}"
proof -
  let ?g0 = "newGraph None None (Some True) :: layerGraph"
  let ?a = "Some \<lparr>y_order = Some 0, y_border = None, y_shared = True\<rparr>" and ?b = "Some \<lparr>y_order = Some 1, y_border = None, y_shared = True\<rparr>"
  have n: "''root'' \<noteq> GRAPH_NODE" "''a'' \<noteq> GRAPH_NODE" "''b'' \<noteq> GRAPH_NODE" by (simp_all add: GRAPH_NODE_def)
  have f0: "f_isCompound ?g0" "f_nodes ?g0 = []" "f_parent ?g0 = []" "f_edgeObjs ?g0 = []" by (simp_all add: newGraph_def)
  obtain g1 where g1: "setNode ''root'' (Some None) ?g0 = Inr g1" "graph_ok g1" "f_isCompound g1" "f_edgeObjs g1 = []"
    "f_nodes g1 = put ''root'' None []" "f_parent g1 = put ''root'' GRAPH_NODE []"
    using setNode_ok [OF graph_ok_new [of None None "Some True"], of "''root''" "Some None"] n f0 by (auto simp: same_flags_def node_set_def)
  obtain g2 where g2: "setNode ''a'' (Some ?a) g1 = Inr g2" "graph_ok g2" "f_isCompound g2" "f_edgeObjs g2 = []"
    "f_nodes g2 = put ''a'' ?a (f_nodes g1)" "f_parent g2 = put ''a'' GRAPH_NODE (f_parent g1)"
    using setNode_ok [OF g1(2), of "''a''" "Some ?a"] n g1(3-6) by (auto simp: same_flags_def node_set_def)
  obtain g3 where g3: "setNode ''b'' (Some ?b) g2 = Inr g3" "graph_ok g3" "f_isCompound g3" "f_edgeObjs g3 = []"
    "f_nodes g3 = put ''b'' ?b (f_nodes g2)" "f_parent g3 = put ''b'' GRAPH_NODE (f_parent g2)"
    using setNode_ok [OF g2(2), of "''b''" "Some ?b"] n g1(5) g2(3-6) by (auto simp: same_flags_def node_set_def)
  have p3: "get (f_parent g3) x = (if x \<in> {''root'', ''a'', ''b''} then Some GRAPH_NODE else None)" for x
    by (auto simp: g3(6) g2(6) g1(6))
  have up: "(''root'', v) \<notin> (parent_rel P)\<^sup>*" if P: "get P ''root'' = Some GRAPH_NODE" "get P GRAPH_NODE = None" "v \<noteq> ''root''" "v \<noteq> GRAPH_NODE"
    for P :: "string obj" and v
  proof
    assume "(''root'', v) \<in> (parent_rel P)\<^sup>*"
    then obtain y where "(''root'', y) \<in> parent_rel P" "(y, v) \<in> (parent_rel P)\<^sup>*" using P(3) by (blast elim: converse_rtranclE)
    then have "(GRAPH_NODE, v) \<in> (parent_rel P)\<^sup>*" using P(1) by (simp add: parent_rel_def)
    then obtain z where "(GRAPH_NODE, z) \<in> parent_rel P" using P(4) by (blast elim: converse_rtranclE)
    then show False using P(2) by (simp add: parent_rel_def)
  qed
  have N3: "node_set g3 = {''root'', ''a'', ''b''}" by (auto simp: node_set_def g3(5) g2(5) g1(5))
  have step: "\<exists>h'. setParent v (Some ''root'') h = Inr h' \<and> graph_ok h' \<and> f_isCompound h' \<and> f_edgeObjs h' = [] \<and> node_set h' = node_set h \<and>
      (\<forall>x \<in> node_set h. node x h' = node x h) \<and> (\<forall>x. get (f_parent h') x = (if x = v then Some ''root'' else get (f_parent h) x))"
    if h: "graph_ok h" "f_isCompound h" "f_edgeObjs h = []" "''root'' \<in> node_set h" "v \<in> node_set h" "v \<noteq> ''root''" "v \<noteq> GRAPH_NODE"
      "get (f_parent h) ''root'' = Some GRAPH_NODE" "get (f_parent h) GRAPH_NODE = None" for h :: layerGraph and v
  proof -
    have "(p, v) \<notin> (parent_rel (f_parent h))\<^sup>*" if "Some ''root'' = Some p" for p using up [OF h(8,9,6,7)] that by simp
    moreover have "Some ''root'' \<noteq> Some GRAPH_NODE" using n(1) by simp
    ultimately obtain h' where h': "setParent v (Some ''root'') h = Inr h'" "graph_ok h'" "same_flags h h'" "f_edgeObjs h' = f_edgeObjs h"
      "node_set h' = insert v (set_option (Some ''root'') \<union> node_set h)" "\<forall>x \<in> node_set h. get (f_nodes h') x = get (f_nodes h) x"
      "\<forall>x. get (f_parent h') x = (if x = v then Some (parent_or_root (Some ''root''))
         else if Some ''root'' = Some x \<and> x \<notin> node_set h then Some GRAPH_NODE else get (f_parent h) x)"
      using setParent_ok [OF h(1,2,7), of "Some ''root''"] by blast
    then show ?thesis using h(2-5) by (intro exI [of _ h']) (auto simp: same_flags_def node_def parent_or_root_def)
  qed
  obtain g4 where g4: "setParent ''a'' (Some ''root'') g3 = Inr g4" "graph_ok g4" "f_isCompound g4" "f_edgeObjs g4 = []" "node_set g4 = node_set g3"
    "\<forall>x \<in> node_set g3. node x g4 = node x g3" "\<forall>x. get (f_parent g4) x = (if x = ''a'' then Some ''root'' else get (f_parent g3) x)"
    using step [OF g3(2-4), of "''a''"] N3 n p3 by auto
  obtain g where g: "setParent ''b'' (Some ''root'') g4 = Inr g" "graph_ok g" "f_isCompound g" "f_edgeObjs g = []" "node_set g = node_set g4"
    "\<forall>x \<in> node_set g4. node x g = node x g4" "\<forall>x. get (f_parent g) x = (if x = ''b'' then Some ''root'' else get (f_parent g4) x)"
    using step [OF g4(2-4), of "''b''"] N3 n p3 g4(5,7) by auto
  have rel: "below_parent g = {(''a'', ''root''), (''b'', ''root''), (''root'', GRAPH_NODE)}"
    by (auto simp: parent_rel_def g(7) g4(7) p3 split: if_splits)
  have "node v g = node v g3" if "v \<in> node_set g" for v using that g(5,6) g4(5,6) by simp
  then have "bordersOf g v = None" if "v \<in> node_set g" for v
    using that g(5) g4(5) N3 by (auto simp: bordersOf_def node_def g3(5) g2(5) g1(5))
  then have "layer_ok g" using g(2-4) by (auto simp: layer_ok_def edges_def vals_def)
  moreover have "base_nodes g ''root'' = {''a'', ''b''}"
    unfolding base_nodes_pieces piece_def childless_def rel using n by (auto elim: converse_rtranclE)
  ultimately show ?thesis using g1(1) g2(1) g3(1) g4(1,5) g(1,5) N3 by (auto simp: exampleLayer_def)
qed

theorem sortSubgraph_lists_the_layer_witness:
  "\<exists>g r. exampleLayer = Inr g \<and> sortSubgraph g ''root'' (newGraph None None None :: (unit, unit, unit) Graph) True = Inr r \<and>
     distinct (r_vs r) \<and> set (r_vs r) = {''a'', ''b''}"
proof -
  obtain g where g: "exampleLayer = Inr g" "layer_ok g" "''root'' \<in> node_set g" "base_nodes g ''root'' = {''a'', ''b''}"
    using exampleLayer_ok by blast
  have "arcs (newGraph None None None :: (unit, unit, unit) Graph) = {}" by (simp add: arcs_def edges_def newGraph_def vals_def)
  then have "acyclic (arcs (newGraph None None None :: (unit, unit, unit) Graph))" by (simp add: acyclic_def)
  moreover have "''root'' \<noteq> GRAPH_NODE" by (simp add: GRAPH_NODE_def)
  ultimately show ?thesis using sortSubgraph_lists_the_layer [OF g(2), of "newGraph None None None :: (unit, unit, unit) Graph" "''root''" True] g(1,4) by auto
qed

end
