(* ===== verification/Dagre_Layers.thy ===== *)
theory Dagre_Layers
  imports Dagre_Rank Dagre_Sort
begin

text \<open>
  Layers of nodes (\<open>lib/order/init-order\<close>, \<open>assignOrder\<close> of \<open>lib/order/index\<close>, \<open>buildLayerMatrix\<close> of \<open>lib/util\<close>). The
  first order comes from a depth-first search; orders are stored in the nodes and read back as a matrix. The theorem: the
  first layers contain every node without children exactly once, in the layer of its rank, and writing and reading an order
  gives the same layers.
\<close>

section \<open>The first order\<close>

definition pushLayer :: "layoutNode \<Rightarrow> string \<Rightarrow> string list list \<Rightarrow> string list list result" where
  "pushLayer l v layers =
     (case n_rank l of
        Some r \<Rightarrow> if 0 \<le> r \<and> r < int (length layers) then Inr (layers[nat r := layers ! nat r @ [v]])
                  else Inl (TypeError ''undefined'')
      | None \<Rightarrow> Inl (TypeError ''undefined''))"

text \<open>The local \<open>dfs\<close>; the first argument bounds the depth of the recursion.\<close>

fun initVisit :: "nat \<Rightarrow> layoutGraph \<Rightarrow> string \<Rightarrow> bool obj \<times> string list list \<Rightarrow> (bool obj \<times> string list list) result" where
  "initVisit 0 g v st = Inl Diverges"
| "initVisit (Suc n) g v st =
     (case st of (visited, layers) \<Rightarrow>
      if has visited v then Inr (visited, layers)
      else
        rbind (deref (node v g)) (\<lambda>l.
        rbind (pushLayer l v layers) (\<lambda>layers'.
          rfold (initVisit n g) (each (successors v g)) (put v True visited, layers'))))"

definition simpleNodes :: "layoutGraph \<Rightarrow> string list result" where
  "simpleNodes g =
     rfold (\<lambda>v acc. rbind (deref (children (Some v) g)) (\<lambda>cs. Inr (if cs = [] then acc @ [v] else acc))) (nodes g) []"

definition ranksOf :: "layoutGraph \<Rightarrow> string list \<Rightarrow> int option list result" where
  "ranksOf g vs = rfold (\<lambda>v rs. rbind (deref (node v g)) (\<lambda>l. Inr (rs @ [n_rank l]))) vs []"

text \<open>\<open>_.range(max + 1)\<close> empty layers.\<close>

definition emptyLayers :: "int option \<Rightarrow> 'a list list" where
  "emptyLayers mx = (case mx of Some m \<Rightarrow> replicate (nat (m + 1)) [] | None \<Rightarrow> [])"

text \<open>\<open>_.sortBy\<close> with the rank as key: stable, nodes without a rank last.\<close>

definition sortByRank :: "(string \<times> int option) list \<Rightarrow> string list" where
  "sortByRank ps = map fst (sort_key (\<lambda>p. the (snd p)) (filter (\<lambda>p. snd p \<noteq> None) ps) @ filter (\<lambda>p. snd p = None) ps)"

definition initOrder :: "layoutGraph \<Rightarrow> string list list result" where
  "initOrder g =
     rbind (simpleNodes g) (\<lambda>vs.
     rbind (ranksOf g vs) (\<lambda>ranks.
     rbind (rfold (initVisit (length (nodes g) + 1) g) (sortByRank (zip vs ranks)) ([], emptyLayers (lodash_max ranks))) (\<lambda>(_, layers).
       Inr layers)))"

section \<open>Orders in the nodes\<close>

definition assignLayer :: "string list \<Rightarrow> layoutGraph \<Rightarrow> layoutGraph result" where
  "assignLayer layer g =
     rfold (\<lambda>(v, i). mutNode (\<lambda>l. l\<lparr>n_order := Some (int i)\<rparr>) v) (zip layer [0..<length layer]) g"

definition assignOrder :: "string list list \<Rightarrow> layoutGraph \<Rightarrow> layoutGraph result" where
  "assignOrder layering g = rfold assignLayer layering g"

text \<open>\<open>row[i] = v\<close> on an array, which may leave holes; an index that is not a natural number does not change the elements.\<close>

definition setElem :: "int option \<Rightarrow> 'a \<Rightarrow> 'a option list \<Rightarrow> 'a option list" where
  "setElem i x row =
     (case i of
        Some i \<Rightarrow> if 0 \<le> i then (if nat i < length row then row[nat i := Some x] else row @ replicate (nat i - length row) None @ [Some x])
                  else row
      | None \<Rightarrow> row)"

definition placeNode :: "layoutGraph \<Rightarrow> string \<Rightarrow> string option list list \<Rightarrow> string option list list result" where
  "placeNode g v layering =
     rbind (deref (node v g)) (\<lambda>l.
       case n_rank l of
         Some r \<Rightarrow> if 0 \<le> r \<and> r < int (length layering) then Inr (layering[nat r := setElem (n_order l) v (layering ! nat r)])
                   else Inl (TypeError ''undefined'')
       | None \<Rightarrow> Inr layering)"

definition buildLayerMatrix :: "layoutGraph \<Rightarrow> string option list list result" where
  "buildLayerMatrix g = rbind (maxRank g) (\<lambda>mx. rfold (placeNode g) (nodes g) (emptyLayers mx))"

section \<open>The search visits every node\<close>

definition rankOf :: "layoutGraph \<Rightarrow> string \<Rightarrow> int option" where
  "rankOf g v = (case node v g of Some l \<Rightarrow> n_rank l | None \<Rightarrow> None)"

definition layered :: "layoutGraph \<Rightarrow> string set \<Rightarrow> string list list \<Rightarrow> bool" where
  "layered g S layers \<longleftrightarrow> (\<forall>r < length layers. distinct (layers ! r) \<and> set (layers ! r) = {v \<in> S. rankOf g v = Some (int r)})"

text \<open>\<open>B\<close> are the base nodes, which edges join with each other only.\<close>

definition ranked_base :: "layoutGraph \<Rightarrow> string set \<Rightarrow> nat \<Rightarrow> bool" where
  "ranked_base g B n \<longleftrightarrow> graph_ok g \<and> B \<subseteq> node_set g \<and> (\<forall>(v, w) \<in> arcs g. v \<in> B \<longrightarrow> w \<in> B) \<and>
     (\<forall>v \<in> B. \<exists>l r. node v g = Some l \<and> n_rank l = Some (int r) \<and> r < n)"

lemma pushLayer_ok:
  assumes L: "layered g S layers" and l: "node v g = Some l" "n_rank l = Some (int r)" "r < length layers" and v: "v \<notin> S"
  shows "\<exists>layers'. pushLayer l v layers = Inr layers' \<and> length layers' = length layers \<and> layered g (insert v S) layers'"
proof -
  let ?new = "layers[r := layers ! r @ [v]]"
  have rk: "rankOf g v = Some (int r)" using l by (simp add: rankOf_def)
  have "distinct (?new ! q) \<and> set (?new ! q) = {u \<in> insert v S. rankOf g u = Some (int q)}" if q: "q < length layers" for q
  proof -
    have old: "distinct (layers ! q)" "set (layers ! q) = {u \<in> S. rankOf g u = Some (int q)}" using L q unfolding layered_def by blast+
    have all: "{u \<in> insert v S. rankOf g u = Some (int q)} = (if q = r then {v} else {}) \<union> {u \<in> S. rankOf g u = Some (int q)}"
      using rk by auto
    have fresh: "v \<notin> set (layers ! q)" unfolding old(2) using v by simp
    have new: "?new ! q = (if q = r then layers ! q @ [v] else layers ! q)" using q by (simp add: nth_list_update)
    show ?thesis unfolding all new old(2) [symmetric] using old(1) fresh by auto
  qed
  then have "layered g (insert v S) ?new" by (simp add: layered_def)
  moreover have "pushLayer l v layers = Inr ?new" using l(2,3) by (simp add: pushLayer_def)
  ultimately show ?thesis by simp
qed

lemma initVisit_ok:
  assumes g: "ranked_base g B m"
  shows "v \<in> B \<Longrightarrow> layered g (set (keys visited)) layers \<Longrightarrow> length layers = m \<Longrightarrow> set (keys visited) \<subseteq> B \<Longrightarrow>
    card (B - set (keys visited)) < n \<Longrightarrow>
    \<exists>visited' layers'. initVisit n g v (visited, layers) = Inr (visited', layers') \<and> layered g (set (keys visited')) layers' \<and>
      length layers' = m \<and> set (keys visited') \<subseteq> B \<and> insert v (set (keys visited)) \<subseteq> set (keys visited')"
proof (induction n arbitrary: v visited layers)
  case (Suc n)
  show ?case
  proof (cases "v \<in> set (keys visited)")
    case True
    then show ?thesis using Suc.prems by (simp add: has_iff)
  next
    case False
    have gB: "graph_ok g" "B \<subseteq> node_set g" "\<And>w. (v, w) \<in> arcs g \<Longrightarrow> w \<in> B" using g Suc.prems(1) unfolding ranked_base_def by blast+
    obtain l r where l: "node v g = Some l" "n_rank l = Some (int r)" "r < m" using g Suc.prems(1) unfolding ranked_base_def by blast
    obtain layers1 where l1: "pushLayer l v layers = Inr layers1" "length layers1 = m" "layered g (insert v (set (keys visited))) layers1"
      using pushLayer_ok [OF Suc.prems(2) l(1,2) _ False] l(3) Suc.prems(3) by auto
    have fin: "finite B" using gB(2) by (rule finite_subset) (simp add: node_set_def)
    let ?P = "\<lambda>(vis :: bool obj, ls). layered g (set (keys vis)) ls \<and> length ls = m \<and> set (keys vis) \<subseteq> B \<and> insert v (set (keys visited)) \<subseteq> set (keys vis)"
    have "\<exists>s. rfold (initVisit n g) (each (successors v g)) (put v True visited, layers1) = Inr s \<and> ?P s"
    proof (rule rfold_invariant)
      show "?P (put v True visited, layers1)" using l1(2,3) Suc.prems(1,4) by auto
    next
      fix w s assume w: "w \<in> set (each (successors v g))" and P: "?P s"
      obtain vis ls where s: "s = (vis, ls)" by (cases s)
      have wB: "w \<in> B" using w gB(3) each_successors [OF gB(1)] by blast
      have "B - set (keys vis) \<subset> B - set (keys visited)" using P s False Suc.prems(1) by auto
      then have "card (B - set (keys vis)) < card (B - set (keys visited))" using fin by (intro psubset_card_mono) auto
      with Suc.prems(5) have "card (B - set (keys vis)) < n" by simp
      from Suc.IH [OF wB _ _ _ this, of ls] P s obtain vis' ls' where
        "initVisit n g w s = Inr (vis', ls')" "layered g (set (keys vis')) ls'" "length ls' = m" "set (keys vis') \<subseteq> B"
        "set (keys vis) \<subseteq> set (keys vis')" by auto
      moreover have "insert v (set (keys visited)) \<subseteq> set (keys vis)" using P s by simp
      ultimately show "\<exists>s'. initVisit n g w s = Inr s' \<and> ?P s'" by (intro exI [of _ "(vis', ls')"]) auto
    qed
    then show ?thesis using False l(1) l1(1) by (auto simp: has_iff)
  qed
qed simp

definition leaves :: "layoutGraph \<Rightarrow> string set" where
  "leaves g = {v \<in> node_set g. children (Some v) g = Some []}"

lemma simpleNodes_ok:
  assumes ok: "graph_ok g"
  shows "\<exists>vs. simpleNodes g = Inr vs \<and> distinct vs \<and> set vs = leaves g"
proof -
  let ?body = "\<lambda>v acc. rbind (deref (children (Some v) g)) (\<lambda>cs. Inr (if cs = [] then acc @ [v] else acc))"
  let ?P = "\<lambda>ys acc. distinct acc \<and> set acc = set ys \<inter> leaves g"
  have "\<exists>vs. rfold ?body (nodes g) [] = Inr vs \<and> ?P (nodes g) vs"
  proof (rule rfold_prefix_invariant [where P = ?P])
    fix ys v zs acc
    assume split: "nodes g = ys @ v # zs" and P: "?P ys acc"
    have v: "v \<in> node_set g" "v \<notin> set ys" using split distinct_nodes [OF ok] by (auto simp flip: nodes_set)
    obtain cs where "children (Some v) g = Some cs"
    proof (cases "f_isCompound g")
      case True
      then show ?thesis using that tree_okD(3) [OF graph_okD(4) [OF ok True]] v(1) key_get [of v "f_children g"] by (auto simp: children_def)
    next
      case False
      then show ?thesis using that v(1) by (cases "v = GRAPH_NODE") (auto simp: children_def hasNode_def has_iff node_set_def)
    qed
    then show "\<exists>acc'. ?body v acc = Inr acc' \<and> ?P (ys @ [v]) acc'" using P v by (auto simp: leaves_def)
  qed simp
  moreover have "set (nodes g) \<inter> leaves g = leaves g" by (auto simp: leaves_def nodes_set)
  ultimately show ?thesis by (simp add: simpleNodes_def)
qed

lemma ranksOf_ok:
  assumes "\<And>v. v \<in> set vs \<Longrightarrow> node v g \<noteq> None"
  shows "ranksOf g vs = Inr (map (rankOf g) vs)"
proof -
  have "rfold (\<lambda>v rs. rbind (deref (node v g)) (\<lambda>l. Inr (rs @ [n_rank l]))) vs rs = Inr (rs @ map (rankOf g) vs)" for rs
    using assms
  proof (induction vs arbitrary: rs)
    case (Cons v vs)
    then obtain l where "node v g = Some l" by fastforce
    with Cons show ?case by (simp add: rankOf_def)
  qed simp
  then show ?thesis by (simp add: ranksOf_def)
qed

lemma lodash_max_set: "lodash_max xs = (if {x. Some x \<in> set xs} = {} then None else Some (Max {x. Some x \<in> set xs}))"
proof -
  have "set (List.map_filter id xs) = {x. Some x \<in> set xs}" by (induction xs) (auto simp: List.map_filter_simps split: option.splits)
  then have "{x. Some x \<in> set xs} = set (List.map_filter id xs)" ..
  then show ?thesis unfolding lodash_max_def
    by (cases "List.map_filter id xs") (simp_all only: list.case Max.set_eq_fold set_empty if_True if_False list.distinct simp_thms)
qed

lemma finite_somes: "finite {x. Some x \<in> set xs}"
proof -
  have "{x. Some x \<in> set xs} \<subseteq> the ` set xs" by force
  then show ?thesis by (rule finite_subset) simp
qed

lemma sortByRank_set: "set (sortByRank (zip vs (map f vs))) = set vs"
proof -
  have "set (sortByRank ps) = fst ` set ps" for ps by (auto simp: sortByRank_def image_iff)
  then show ?thesis by (simp add: zip_map2 zip_same_conv_map image_image)
qed

text \<open>Layers for ranks from 0 to the largest one.\<close>

lemma emptyLayers_ok:
  assumes "\<And>v. v \<in> set vs \<Longrightarrow> \<exists>r. rankOf g v = Some (int r)"
  shows "\<And>v r. v \<in> set vs \<Longrightarrow> rankOf g v = Some (int r) \<Longrightarrow> r < length (emptyLayers (lodash_max (map (rankOf g) vs)) :: string list list)"
    "layered g {} (emptyLayers (lodash_max (map (rankOf g) vs)))"
proof -
  let ?mx = "lodash_max (map (rankOf g) vs)"
  show "layered g {} (emptyLayers ?mx)" by (auto simp: layered_def emptyLayers_def split: option.splits)
  fix v r assume v: "v \<in> set vs" "rankOf g v = Some (int r)"
  let ?A = "{x. Some x \<in> set (map (rankOf g) vs)}"
  have r: "int r \<in> ?A" using v by (auto simp: image_iff intro!: bexI [of _ v])
  then have "int r \<le> Max ?A" by (intro Max_ge finite_somes)
  moreover have "?mx = Some (Max ?A)" unfolding lodash_max_set using r by auto
  ultimately show "r < length (emptyLayers ?mx :: string list list)" by (simp add: emptyLayers_def)
qed

lemma initOrder_ok:
  assumes ok: "graph_ok g" and arcs: "\<And>v w. (v, w) \<in> arcs g \<Longrightarrow> v \<in> leaves g \<and> w \<in> leaves g"
    and ranks: "\<And>v. v \<in> leaves g \<Longrightarrow> \<exists>r. rankOf g v = Some (int r)"
  shows "\<exists>layers. initOrder g = Inr layers \<and> layered g (leaves g) layers \<and>
    (\<exists>vs. set vs = leaves g \<and> length layers = length (emptyLayers (lodash_max (map (rankOf g) vs)) :: string list list)) \<and>
    (\<forall>v \<in> leaves g. \<exists>r < length layers. rankOf g v = Some (int r))"
proof -
  obtain vs where vs: "simpleNodes g = Inr vs" "distinct vs" "set vs = leaves g" using simpleNodes_ok [OF ok] by blast
  have lab: "node v g \<noteq> None" if "v \<in> leaves g" for v using ranks [OF that] by (auto simp: rankOf_def split: option.splits)
  let ?e = "emptyLayers (lodash_max (map (rankOf g) vs)) :: string list list"
  have E: "\<And>v r. v \<in> leaves g \<Longrightarrow> rankOf g v = Some (int r) \<Longrightarrow> r < length ?e" "layered g {} ?e"
    using emptyLayers_ok [of vs g] ranks vs(3) by auto
  have base: "ranked_base g (leaves g) (length ?e)"
    using ok arcs ranks E(1) unfolding ranked_base_def rankOf_def by (fastforce simp: leaves_def split: option.splits)
  let ?us = "sortByRank (zip vs (map (rankOf g) vs))"
  let ?P = "\<lambda>ys (vis :: bool obj, ls). layered g (set (keys vis)) ls \<and> length ls = length ?e \<and> set (keys vis) \<subseteq> leaves g \<and> set ys \<subseteq> set (keys vis)"
  have us: "set ?us = leaves g" using sortByRank_set vs(3) by simp
  have fin: "finite (leaves g)" by (simp add: leaves_def node_set_def)
  have "\<exists>s. rfold (initVisit (length (nodes g) + 1) g) ?us ([], ?e) = Inr s \<and> ?P ?us s"
  proof (rule rfold_prefix_invariant [where P = ?P])
    show "?P [] ([], ?e)" using E(2) by (simp add: keys_def)
  next
    fix ys v zs s assume split: "?us = ys @ v # zs" and P: "?P ys s"
    obtain vis ls where s: "s = (vis, ls)" by (cases s)
    have v: "v \<in> leaves g" using split us by auto
    have "card (leaves g - set (keys vis)) \<le> card (node_set g)" by (rule card_mono) (auto simp: leaves_def node_set_def)
    also have "\<dots> = length (nodes g)" using distinct_nodes [OF ok] by (simp add: distinct_card flip: nodes_set)
    finally have "card (leaves g - set (keys vis)) < length (nodes g) + 1" by simp
    from initVisit_ok [OF base v _ _ _ this, of ls] P s
    show "\<exists>s'. initVisit (length (nodes g) + 1) g v s = Inr s' \<and> ?P (ys @ [v]) s'" by auto
  qed
  then obtain vis layers where run: "rfold (initVisit (length (nodes g) + 1) g) ?us ([], ?e) = Inr (vis, layers)"
    "layered g (leaves g) layers" "length layers = length ?e" using us by (auto simp: subset_antisym)
  have "initOrder g = Inr layers" using vs(1) ranksOf_ok [of vs g] lab vs(3) run(1) by (simp add: initOrder_def)
  then show ?thesis using run(2,3) vs(3) E(1) ranks by (intro exI [of _ layers]) metis
qed

section \<open>Writing and reading an order\<close>

definition withOrder :: "nat \<Rightarrow> layoutNode \<Rightarrow> layoutNode" where
  "withOrder i l = l\<lparr>n_order := Some (int i)\<rparr>"

definition positions :: "string list list \<Rightarrow> (string \<times> nat) list" where
  "positions layering = concat (map (\<lambda>layer. zip layer [0..<length layer]) layering)"

lemma bex_nth: "(\<exists>x \<in> set xs. P x) \<longleftrightarrow> (\<exists>i < length xs. P (xs ! i))"
  by (metis in_set_conv_nth)

lemma positions_mem: "(v, i) \<in> set (positions layering) \<longleftrightarrow> (\<exists>r < length layering. i < length (layering ! r) \<and> layering ! r ! i = v)"
proof -
  have row: "(v, i) \<in> set (zip layer [0..<length layer]) \<longleftrightarrow> i < length layer \<and> layer ! i = v" for layer :: "string list"
    by (auto simp: in_set_zip)
  have "(v, i) \<in> set (positions layering) \<longleftrightarrow> (\<exists>layer \<in> set layering. i < length layer \<and> layer ! i = v)"
    unfolding positions_def set_concat set_map UN_iff image_iff by (auto simp only: row bex_simps)
  also have "\<dots> \<longleftrightarrow> (\<exists>r < length layering. i < length (layering ! r) \<and> layering ! r ! i = v)"
    by (rule bex_nth)
  finally show ?thesis .
qed

lemma map_fst_positions: "map fst (positions layering) = concat layering"
  by (induction layering) (simp_all add: positions_def)

lemma layered_distinct:
  assumes "layered g S layering"
  shows "distinct (concat layering)"
proof -
  have "distinct (concat (map ((!) layering) [0..<length layering]))"
    using assms unfolding layered_def by (intro distinct_pieces) auto
  then show ?thesis by (simp add: map_nth)
qed

lemma assign_positions:
  fixes g :: layoutGraph
  assumes dist: "distinct (map fst ps)" and S: "\<And>v i. (v, i) \<in> set ps \<Longrightarrow> v \<in> node_set g \<and> node v g \<noteq> None"
  shows "\<exists>h. rfold (\<lambda>(v, i). mutNode (\<lambda>l. l\<lparr>n_order := Some (int i)\<rparr>) v) ps g = Inr h \<and>
    same_shape g h \<and> f_edgeLabels h = f_edgeLabels g \<and> f_label h = f_label g \<and>
    (\<forall>v. node v h = (case map_of ps v of Some i \<Rightarrow> map_option (withOrder i) (node v g) | None \<Rightarrow> node v g))"
proof -
  let ?f = "\<lambda>(v, i). mutNode (\<lambda>l. l\<lparr>n_order := Some (int i)\<rparr>) v :: layoutGraph \<Rightarrow> layoutGraph result"
  let ?P = "\<lambda>ys h. same_shape g h \<and> f_edgeLabels h = f_edgeLabels g \<and> f_label h = f_label g \<and>
    (\<forall>v. node v h = (case map_of ys v of Some i \<Rightarrow> map_option (withOrder i) (node v g) | None \<Rightarrow> node v g))"
  show ?thesis
  proof (rule rfold_prefix_invariant [where P = ?P])
    fix ys p zs h assume split: "ps = ys @ p # zs" and P: "?P ys h"
    obtain v i where p: "p = (v, i)" by (cases p)
    have "v \<notin> fst ` set ys" using dist split p by simp
    then have none: "map_of ys v = None" by (simp add: map_of_eq_None_iff)
    have v: "v \<in> node_set g" "node v g \<noteq> None" using S [of v i] split p by auto
    then obtain l where l: "node v h = Some l" "node v g = Some l" "v \<in> node_set h" using P none same_shapeD(3) [of g h] by auto
    from mutNode_ok [OF l(1,3), of "\<lambda>l. l\<lparr>n_order := Some (int i)\<rparr>"] obtain h' where h': "?f p h = Inr h'" "same_shape h h'"
      "f_edgeLabels h' = f_edgeLabels h" "f_label h' = f_label h" "node v h' = Some (withOrder i l)" "\<And>w. w \<noteq> v \<Longrightarrow> node w h' = node w h"
      using p by (auto simp: withOrder_def)
    have "node w h' = (case map_of (ys @ [p]) w of Some i \<Rightarrow> map_option (withOrder i) (node w g) | None \<Rightarrow> node w g)" for w
      using h'(5,6) P none l(2) p by (cases "w = v") (auto simp: map_add_def split: option.splits)
    then show "\<exists>h'. ?f p h = Inr h' \<and> ?P (ys @ [p]) h'" using h'(1-4) P same_shape_trans by (intro exI [of _ h']) auto
  qed simp
qed

lemma assignOrder_ok:
  assumes S: "layered g S layering" "\<And>v. v \<in> S \<Longrightarrow> v \<in> node_set g \<and> node v g \<noteq> None"
  shows "\<exists>h. assignOrder layering g = Inr h \<and> same_shape g h \<and> f_edgeLabels h = f_edgeLabels g \<and> f_label h = f_label g \<and>
    (\<forall>v. node v h = (case map_of (positions layering) v of Some i \<Rightarrow> map_option (withOrder i) (node v g) | None \<Rightarrow> node v g))"
proof -
  have "distinct (map fst (positions layering))" unfolding map_fst_positions by (rule layered_distinct [OF S(1)])
  moreover have "v \<in> node_set g \<and> node v g \<noteq> None" if "(v, i) \<in> set (positions layering)" for v i
  proof -
    obtain r where "r < length layering" "v \<in> set (layering ! r)" using \<open>(v, i) \<in> set (positions layering)\<close> unfolding positions_mem by auto
    then show ?thesis using S unfolding layered_def by auto
  qed
  moreover have "assignOrder layering g = rfold (\<lambda>(v, i). mutNode (\<lambda>l. l\<lparr>n_order := Some (int i)\<rparr>) v) (positions layering) g"
    unfolding assignOrder_def positions_def by (rule rfold_concat_map) (simp add: assignLayer_def)
  ultimately show ?thesis using assign_positions [of "positions layering" g] by simp
qed

text \<open>A row of the matrix after some of the nodes of its layer have been placed.\<close>

definition row_ok :: "string set \<Rightarrow> string list \<Rightarrow> string option list \<Rightarrow> bool" where
  "row_ok Y layer row \<longleftrightarrow> length row \<le> length layer \<and>
     (\<forall>i < length row. row ! i = (if layer ! i \<in> Y then Some (layer ! i) else None)) \<and>
     (\<forall>i < length layer. layer ! i \<in> Y \<longrightarrow> i < length row)"

lemma row_complete: "row_ok Y layer row \<Longrightarrow> set layer \<subseteq> Y \<Longrightarrow> row = map Some layer"
  unfolding row_ok_def by (metis (no_types, lifting) le_antisym length_map linorder_not_less nth_equalityI nth_map nth_mem order_refl subsetD)

lemma row_other: "row_ok Y layer row \<Longrightarrow> v \<notin> set layer \<Longrightarrow> row_ok (insert v Y) layer row"
  unfolding row_ok_def by (metis insert_iff nth_mem order_less_le_trans)

lemma row_set:
  assumes row: "row_ok Y layer row" and d: "distinct layer" and i: "i < length layer"
  shows "row_ok (insert (layer ! i) Y) layer (setElem (Some (int i)) (layer ! i) row)"
proof -
  let ?row = "setElem (Some (int i)) (layer ! i) row"
  have ne: "layer ! j \<noteq> layer ! i" if "j < length layer" "j \<noteq> i" for j using d i that by (simp add: nth_eq_iff_index_eq)
  have len: "length ?row = max (length row) (Suc i)" by (simp add: setElem_def)
  have "?row ! j = (if layer ! j \<in> insert (layer ! i) Y then Some (layer ! j) else None)" if "j < length ?row" for j
  proof -
    have j: "j < length layer" using that len row i by (auto simp: row_ok_def)
    consider "j = i" | "j \<noteq> i" "j < length row" | "j \<noteq> i" "length row \<le> j" by linarith
    then show ?thesis
    proof cases
      case 1
      then show ?thesis by (auto simp: setElem_def nth_append)
    next
      case 2
      then show ?thesis using row ne [OF j] by (auto simp: setElem_def row_ok_def nth_append)
    next
      case 3
      then have "layer ! j \<notin> Y" "j < i" using row j that len by (auto simp: row_ok_def)
      with 3 ne [OF j] show ?thesis by (auto simp: setElem_def nth_append)
    qed
  qed
  moreover have "length ?row \<le> length layer" using len row i by (auto simp: row_ok_def)
  moreover have "j < length ?row" if "j < length layer" "layer ! j \<in> insert (layer ! i) Y" for j
    using that row ne [of j] unfolding len row_ok_def by (cases "j = i") auto
  ultimately show ?thesis unfolding row_ok_def by blast
qed

lemma maxRank_ok:
  assumes "\<And>v. v \<in> node_set g \<Longrightarrow> node v g \<noteq> None"
  shows "maxRank g = Inr (lodash_max (map (rankOf g) (nodes g)))"
  using ranksOf_ok [of "nodes g" g] assms by (simp add: maxRank_def nodeRanks_def ranksOf_def nodes_set)

lemma buildLayerMatrix_ok:
  assumes ok: "graph_ok g" and lab: "\<And>v. v \<in> node_set g \<Longrightarrow> node v g \<noteq> None"
    and L: "layered g {v \<in> node_set g. rankOf g v \<noteq> None} layering"
    and ranks: "\<And>v k. v \<in> node_set g \<Longrightarrow> rankOf g v = Some k \<Longrightarrow> \<exists>r < length layering. k = int r"
    and len: "length layering = length (emptyLayers (lodash_max (map (rankOf g) (nodes g))) :: string list list)"
    and order: "\<And>r i l. r < length layering \<Longrightarrow> i < length (layering ! r) \<Longrightarrow> node (layering ! r ! i) g = Some l \<Longrightarrow> n_order l = Some (int i)"
  shows "buildLayerMatrix g = Inr (map (map Some) layering)"
proof -
  let ?e = "emptyLayers (lodash_max (map (rankOf g) (nodes g))) :: string option list list"
  have max: "maxRank g = Inr (lodash_max (map (rankOf g) (nodes g)))" by (rule maxRank_ok [OF lab])
  let ?P = "\<lambda>ys M. length M = length layering \<and> (\<forall>r < length layering. row_ok (set ys) (layering ! r) (M ! r))"
  have "\<exists>M. rfold (placeNode g) (nodes g) ?e = Inr M \<and> ?P (nodes g) M"
  proof (rule rfold_prefix_invariant [where P = ?P])
    show "?P [] ?e" using len by (auto simp: emptyLayers_def row_ok_def split: option.splits)
  next
    fix ys v zs M assume split: "nodes g = ys @ v # zs" and P: "?P ys M"
    have v: "v \<in> node_set g" using split by (simp flip: nodes_set)
    then obtain l where l: "node v g = Some l" using lab by blast
    show "\<exists>M'. placeNode g v M = Inr M' \<and> ?P (ys @ [v]) M'"
    proof (cases "n_rank l")
      case None
      then have "v \<notin> set (layering ! r)" if "r < length layering" for r using L that l unfolding layered_def by (auto simp: rankOf_def)
      then show ?thesis using None l P row_other by (simp add: placeNode_def)
    next
      case (Some k)
      then have rk: "rankOf g v = Some k" using l by (simp add: rankOf_def)
      with ranks [OF v] obtain r where r: "r < length layering" "k = int r" by blast
      have "v \<in> set (layering ! r)" using L r rk v unfolding layered_def by auto
      then obtain i where i: "i < length (layering ! r)" "layering ! r ! i = v" by (auto simp: in_set_conv_nth)
      have ord: "n_order l = Some (int i)" using order [OF r(1) i(1)] l i(2) by simp
      let ?M = "M[r := setElem (Some (int i)) v (M ! r)]"
      have "row_ok (insert v (set ys)) (layering ! q) (?M ! q)" if q: "q < length layering" for q
      proof (cases "q = r")
        case True
        have "distinct (layering ! r)" using L r(1) unfolding layered_def by blast
        from row_set [OF _ this i(1)] True P q i(2) show ?thesis by (simp add: nth_list_update)
      next
        case False
        then have "v \<notin> set (layering ! q)" using L q rk r(2) unfolding layered_def by auto
        then show ?thesis using False P q row_other by simp
      qed
      moreover have "placeNode g v M = Inr ?M" using l Some r P ord by (simp add: placeNode_def)
      ultimately show ?thesis using P by simp
    qed
  qed
  then obtain M where M: "rfold (placeNode g) (nodes g) ?e = Inr M" "?P (nodes g) M" by blast
  have "M ! r = map Some (layering ! r)" if "r < length layering" for r
    using M(2) that L by (intro row_complete [of "set (nodes g)"]) (auto simp: layered_def nodes_set)
  then have "M = map (map Some) layering" using M(2) by (intro nth_equalityI) auto
  then show ?thesis using max M(1) by (simp add: buildLayerMatrix_def)
qed

text \<open>On a graph in which exactly the nodes without children have ranks, from 0 upwards, and are the ends of the edges,
  \<open>initOrder\<close> ends and returns layers that contain each of these nodes exactly once, in the layer of its rank. Assigning this
  order to the nodes changes nothing else, and reading it back with \<open>buildLayerMatrix\<close> gives the same layers.\<close>

theorem order_round_trip:
  fixes g :: layoutGraph
  assumes ok: "graph_ok g" and lab: "\<And>v. v \<in> node_set g \<Longrightarrow> node v g \<noteq> None"
    and arcs: "\<And>v w. (v, w) \<in> arcs g \<Longrightarrow> v \<in> leaves g \<and> w \<in> leaves g"
    and ranks: "\<And>v. v \<in> node_set g \<Longrightarrow> if v \<in> leaves g then \<exists>r. rankOf g v = Some (int r) else rankOf g v = None"
  shows "\<exists>layers h. initOrder g = Inr layers \<and> distinct (concat layers) \<and>
    (\<forall>r < length layers. set (layers ! r) = {v \<in> leaves g. rankOf g v = Some (int r)}) \<and>
    (\<forall>v \<in> leaves g. v \<in> set (concat layers)) \<and>
    assignOrder layers g = Inr h \<and> same_shape g h \<and> f_edgeLabels h = f_edgeLabels g \<and>
    (\<forall>v \<in> node_set g. \<exists>k. node v h = map_option (\<lambda>l. l\<lparr>n_order := k\<rparr>) (node v g)) \<and>
    buildLayerMatrix h = Inr (map (map Some) layers)"
proof -
  have sub: "leaves g \<subseteq> node_set g" by (auto simp: leaves_def)
  have leaf_rank: "\<exists>r. rankOf g v = Some (int r)" if "v \<in> leaves g" for v using ranks [of v] sub that by auto
  obtain layers vs where init: "initOrder g = Inr layers" "layered g (leaves g) layers" "set vs = leaves g"
    "length layers = length (emptyLayers (lodash_max (map (rankOf g) vs)) :: string list list)"
    "\<forall>v \<in> leaves g. \<exists>r < length layers. rankOf g v = Some (int r)"
    using initOrder_ok [OF ok arcs leaf_rank] by blast
  have leaf: "{v \<in> node_set g. rankOf g v \<noteq> None} = leaves g"
  proof (rule set_eqI)
    fix v show "v \<in> {v \<in> node_set g. rankOf g v \<noteq> None} \<longleftrightarrow> v \<in> leaves g" 
      using ranks [of v] sub by (cases "v \<in> leaves g") (auto dest: subsetD)
  qed
  have "{x. Some x \<in> set (map (rankOf g) vs)} = {x. Some x \<in> set (map (rankOf g) (nodes g))}"
  proof -
    have "Some x \<in> rankOf g ` leaves g \<longleftrightarrow> Some x \<in> rankOf g ` node_set g" for x
      unfolding leaf [symmetric] image_iff Bex_def mem_Collect_eq by (metis option.distinct(1))
    then show ?thesis by (simp add: init(3) nodes_set)
  qed
  then have len: "length layers = length (emptyLayers (lodash_max (map (rankOf g) (nodes g))) :: string list list)"
    unfolding init(4) lodash_max_set by simp
  obtain h where h: "assignOrder layers g = Inr h" "same_shape g h" "f_edgeLabels h = f_edgeLabels g"
    "\<And>v. node v h = (case map_of (positions layers) v of Some i \<Rightarrow> map_option (withOrder i) (node v g) | None \<Rightarrow> node v g)"
    using assignOrder_ok [OF init(2)] sub lab by blast
  note shape = same_shapeD [OF h(2)]
  have rk: "rankOf h v = rankOf g v" for v by (auto simp: rankOf_def h(4) withOrder_def split: option.splits)
  have "buildLayerMatrix h = Inr (map (map Some) layers)"
  proof (rule buildLayerMatrix_ok)
    show "graph_ok h" using same_shape_ok [OF h(2) ok] .
    show "node v h \<noteq> None" if "v \<in> node_set h" for v using lab that shape(3) by (auto simp: h(4) split: option.splits)
    show "layered h {v \<in> node_set h. rankOf h v \<noteq> None} layers" using init(2) unfolding layered_def rk shape(3) leaf .
    show "\<exists>r < length layers. k = int r" if "v \<in> node_set h" "rankOf h v = Some k" for v k
      using that init(5) leaf unfolding rk shape(3) by (metis (mono_tags, lifting) mem_Collect_eq option.distinct(1) option.inject)
    show "length layers = length (emptyLayers (lodash_max (map (rankOf h) (nodes h))) :: string list list)" unfolding rk shape(1) by (rule len)
  next
    fix r i l assume ri: "r < length layers" "i < length (layers ! r)" "node (layers ! r ! i) h = Some l"
    have "distinct (map fst (positions layers))" unfolding map_fst_positions by (rule layered_distinct [OF init(2)])
    moreover have "(layers ! r ! i, i) \<in> set (positions layers)" unfolding positions_mem using ri(1,2) by blast
    ultimately have "map_of (positions layers) (layers ! r ! i) = Some i" by simp
    then show "n_order l = Some (int i)" using ri(3) by (auto simp: h(4) withOrder_def)
  qed
  moreover have "\<exists>k. node v h = map_option (\<lambda>l. l\<lparr>n_order := k\<rparr>) (node v g)" if vn: "v \<in> node_set g" for v
  proof (cases "map_of (positions layers) v")
    case None
    obtain l where "node v g = Some l" using lab [OF vn] by blast
    then show ?thesis using None by (intro exI [of _ "n_order l"]) (simp add: h(4))
  next
    case (Some i)
    then show ?thesis by (intro exI [of _ "Some (int i)"]) (simp add: h(4) withOrder_def [abs_def])
  qed
  moreover have "v \<in> set (concat layers)" if vl: "v \<in> leaves g" for v
  proof -
    obtain r where r: "r < length layers" "rankOf g v = Some (int r)" using init(5) vl by blast
    then have "v \<in> set (layers ! r)" using init(2) vl unfolding layered_def by auto
    then show ?thesis using r(1) by (auto intro!: bexI [of _ "layers ! r"])
  qed
  moreover have "\<forall>r < length layers. set (layers ! r) = {v \<in> leaves g. rankOf g v = Some (int r)}" using init(2) unfolding layered_def by blast
  ultimately show ?thesis using init(1) layered_distinct [OF init(2)] h(1-3) by blast
qed

theorem order_round_trip_witness:
  "\<exists>g layers h. exampleDag = Inr g \<and> initOrder g = Inr layers \<and> set (concat layers) = {''a'', ''b''} \<and>
     assignOrder layers g = Inr h \<and> buildLayerMatrix h = Inr (map (map Some) layers)"
proof -
  obtain g where g: "exampleDag = Inr g" "labelled g" "node_set g = {''a'', ''b''}" "arcs g = {(''a'', ''b'')}" "\<not> f_isCompound g"
    "\<forall>x \<in> node_set g. node x g = Some exampleNode" using exampleDag_ok by blast
  have ok: "graph_ok g" "\<And>v. v \<in> node_set g \<Longrightarrow> node v g \<noteq> None" using g(2) by (auto simp: labelled_def)
  have "children (Some v) g = Some []" if "v \<in> node_set g" for v
    using that g(3,5) by (auto simp: children_def hasNode_def has_iff node_set_def GRAPH_NODE_def)
  then have lv: "leaves g = {''a'', ''b''}" using g(3) by (auto simp: leaves_def)
  have rk: "rankOf g v = Some (int 0)" if "v \<in> node_set g" for v using that g(6) by (simp add: rankOf_def exampleNode_def plainNode_def)
  have "\<exists>layers h. initOrder g = Inr layers \<and> distinct (concat layers) \<and>
    (\<forall>r < length layers. set (layers ! r) = {v \<in> leaves g. rankOf g v = Some (int r)}) \<and>
    (\<forall>v \<in> leaves g. v \<in> set (concat layers)) \<and>
    assignOrder layers g = Inr h \<and> same_shape g h \<and> f_edgeLabels h = f_edgeLabels g \<and>
    (\<forall>v \<in> node_set g. \<exists>k. node v h = map_option (\<lambda>l. l\<lparr>n_order := k\<rparr>) (node v g)) \<and>
    buildLayerMatrix h = Inr (map (map Some) layers)"
  proof (rule order_round_trip [OF ok])
    show "v \<in> leaves g \<and> w \<in> leaves g" if "(v, w) \<in> arcs g" for v w using that g(4) lv by simp
    show "if v \<in> leaves g then \<exists>r. rankOf g v = Some (int r) else rankOf g v = None" if "v \<in> node_set g" for v
      using rk [OF that] that g(3) lv by auto
  qed
  then obtain layers h where L: "initOrder g = Inr layers" "\<forall>r < length layers. set (layers ! r) = {v \<in> leaves g. rankOf g v = Some (int r)}"
    "\<forall>v \<in> leaves g. v \<in> set (concat layers)" "assignOrder layers g = Inr h" "buildLayerMatrix h = Inr (map (map Some) layers)" by blast
  have "set layer \<subseteq> leaves g" if "layer \<in> set layers" for layer using L(2) that by (auto simp: in_set_conv_nth)
  then have "set (concat layers) = {''a'', ''b''}" using L(3) lv by auto
  then show ?thesis using g(1) L(1,4,5) by blast
qed

end
