(* ===== verification/Dagre_Normalize.thy ===== *)
theory Dagre_Normalize
  imports Dagre_Util Js_Strings
begin

text \<open>
  Long edges as chains of dummy nodes (\<open>lib/normalize\<close>, \<open>addDummyNode\<close> of \<open>lib/util\<close>): \<open>run\<close> splits every edge that
  spans several ranks, \<open>undo\<close> puts the edges back and collects the coordinates of the dummies as their points.
  The dummies of a chain share the label of their edge, which nothing changes before \<open>undo\<close>; here each has a
  copy. The counter of \<open>_.uniqueId\<close> is threaded through. The edges of a chain have the property \<open>weight\<close> only.
\<close>

section \<open>The operations\<close>

text \<open>The loop of \<open>addDummyNode\<close>. The names it tries are different, so at most as many as there are nodes are taken.\<close>

fun freshId :: "nat \<Rightarrow> string \<Rightarrow> ('g, 'n, 'e) Graph \<Rightarrow> nat \<Rightarrow> (string \<times> nat) result" where
  "freshId 0 name g c = Inl Diverges"
| "freshId (Suc n) name g c =
     (let v = name @ nat_str (c + 1) in if hasNode v g then freshId n name g (c + 1) else Inr (v, c + 1))"

definition addDummyNode ::
  "string \<Rightarrow> layoutNode \<Rightarrow> string \<Rightarrow> layoutGraph \<times> nat \<Rightarrow> (string \<times> layoutGraph \<times> nat) result" where
  "addDummyNode type attrs name s =
     (case s of (g, c) \<Rightarrow>
      rbind (freshId (length (nodes g) + 1) name g c) (\<lambda>(v, c').
      rbind (setNode v (Some (Some (attrs\<lparr>n_dummy := Some type\<rparr>))) g) (\<lambda>g'.
        Inr (v, g', c'))))"

text \<open>The object \<open>attrs\<close> of a dummy, and what is set on it at the rank of the label.\<close>

definition dummyAttrs :: "layoutEdge \<Rightarrow> edgeObj \<Rightarrow> int \<Rightarrow> layoutNode" where
  "dummyAttrs edgeLabel e rank =
     plainNode\<lparr>n_rank := Some rank, n_edgeLabel := Some edgeLabel, n_edgeObj := Some e\<rparr>"

definition asEdgeLabel :: "layoutEdge \<Rightarrow> layoutNode \<Rightarrow> layoutNode" where
  "asEdgeLabel edgeLabel attrs =
     attrs\<lparr>n_width := l_width edgeLabel, n_height := l_height edgeLabel, n_dummy := Some ''edge-label'',
       n_labelpos := Some (l_labelpos edgeLabel)\<rparr>"

text \<open>\<open>dummyChains\<close> is an array here, since \<open>run\<close> sets it first.\<close>

definition pushChain :: "string \<Rightarrow> layoutLabel \<Rightarrow> layoutLabel" where
  "pushChain v l = l\<lparr>g_dummyChains := map_option (\<lambda>vs. vs @ [v]) (g_dummyChains l)\<rparr>"

text \<open>The body of the \<open>for\<close> loop. The state is \<open>v\<close>, the graph and the counter; \<open>first\<close> is the rank of the first turn
  (\<open>i === 0\<close>).\<close>

definition addDummy ::
  "layoutEdge \<Rightarrow> edgeObj \<Rightarrow> int \<Rightarrow> int \<Rightarrow> string \<times> layoutGraph \<times> nat \<Rightarrow> (string \<times> layoutGraph \<times> nat) result" where
  "addDummy edgeLabel0 e first vRank st =
     (case st of (v, g, c) \<Rightarrow>
      let edgeLabel = edgeLabel0\<lparr>l_points := Some []\<rparr> in
      rbind (addDummyNode ''edge'' (dummyAttrs edgeLabel e vRank) ''_d'' (g, c)) (\<lambda>(dummy, g1, c1).
      rbind (if l_labelRank edgeLabel = Some (real_of_int vRank) then mutNode (asEdgeLabel edgeLabel) dummy g1 else Inr g1) (\<lambda>g2.
      rbind (setEdge v dummy (Some (Some (simpleEdge (l_weight edgeLabel) 0))) (e_name e) g2) (\<lambda>g3.
      rbind (if vRank = first then mutGraph (pushChain dummy) g3 else Inr g3) (\<lambda>g4.
        Inr (dummy, g4, c1))))))"

text \<open>An arithmetic operation on an \<open>undefined\<close> rank gives \<open>NaN\<close>, which no comparison accepts: then there are no dummies.\<close>

definition normalizeEdge :: "edgeObj \<Rightarrow> layoutGraph \<times> nat \<Rightarrow> (layoutGraph \<times> nat) result" where
  "normalizeEdge e s =
     (case s of (g, c) \<Rightarrow>
      rbind (deref (node (e_v e) g)) (\<lambda>nv.
      rbind (deref (node (e_w e) g)) (\<lambda>nw.
      rbind (deref (edgeOfObj e g)) (\<lambda>edgeLabel.
        let ranks = (case (n_rank nv, n_rank nw) of (Some r, Some s) \<Rightarrow> [r + 1 .. s - 1] | _ \<Rightarrow> []) in
        if n_rank nv \<noteq> None \<and> n_rank nw = map_option (\<lambda>r. r + 1) (n_rank nv) then Inr (g, c)
        else
          rbind (removeEdgeObj e g) (\<lambda>g1.
          rbind (rfold (addDummy edgeLabel e (case ranks of r # _ \<Rightarrow> r | [] \<Rightarrow> 0)) ranks (e_v e, g1, c)) (\<lambda>(v, g2, c2).
          rbind (setEdge v (e_w e) (Some (Some (simpleEdge (l_weight edgeLabel) 0))) (e_name e) g2) (\<lambda>g3.
            Inr (g3, c2))))))))"

definition normalize_run :: "nat \<Rightarrow> layoutGraph \<Rightarrow> (layoutGraph \<times> nat) result" where
  "normalize_run c g =
     rbind (mutGraph (\<lambda>l. l\<lparr>g_dummyChains := Some []\<rparr>) g) (\<lambda>g0. rfold normalizeEdge (edges g) (g0, c))"

text \<open>What \<open>undo\<close> changes of \<open>origLabel\<close> at one dummy; the \<open>points\<close> of the label of a dummy are an array.\<close>

definition addPoint :: "layoutNode \<Rightarrow> layoutEdge \<Rightarrow> layoutEdge" where
  "addPoint nd label =
     (let label1 = label\<lparr>l_points := map_option (\<lambda>ps. ps @ [(n_x nd, n_y nd)]) (l_points label)\<rparr>
      in if n_dummy nd = Some ''edge-label''
         then label1\<lparr>l_xy := Some (n_x nd, n_y nd), l_width := n_width nd, l_height := n_height nd\<rparr>
         else label1)"

text \<open>The \<open>while\<close> loop; \<open>origLabel\<close> is the label of \<open>e\<close>. Every turn removes a node.\<close>

fun undoLoop :: "nat \<Rightarrow> edgeObj \<Rightarrow> string \<Rightarrow> layoutGraph \<Rightarrow> layoutGraph result" where
  "undoLoop 0 e v g = Inl Diverges"
| "undoLoop (Suc n) e v g =
     rbind (deref (node v g)) (\<lambda>nd.
       if n_dummy nd \<noteq> None \<and> n_dummy nd \<noteq> Some [] then
         rbind (deref (successors v g)) (\<lambda>ws.
         rbind (removeNode v g) (\<lambda>g1.
         rbind (mutEdge (addPoint nd) e g1) (\<lambda>g2.
         rbind (deref (case ws of w # _ \<Rightarrow> Some w | [] \<Rightarrow> None)) (\<lambda>w.
           undoLoop n e w g2))))
       else Inr g)"

text \<open>A node in \<open>dummyChains\<close> was made by \<open>normalizeEdge\<close>, which gives it both properties.\<close>

definition undoChain :: "string \<Rightarrow> layoutGraph \<Rightarrow> layoutGraph result" where
  "undoChain v g =
     rbind (deref (node v g)) (\<lambda>nd.
     rbind (deref (n_edgeObj nd)) (\<lambda>e.
     rbind (setEdgeObj e (Some (n_edgeLabel nd)) g) (\<lambda>g1.
       undoLoop (length (nodes g) + 1) e v g1)))"

definition normalize_undo :: "layoutGraph \<Rightarrow> layoutGraph result" where
  "normalize_undo g =
     rbind (deref (graph g)) (\<lambda>l. rfold undoChain (case g_dummyChains l of Some vs \<Rightarrow> vs | None \<Rightarrow> []) g)"

section \<open>Fresh names\<close>

lemma freshId_ok:
  assumes ok: "graph_ok g" and few: "card {i. c < i \<and> name @ nat_str i \<in> node_set g} < n"
  shows "\<exists>i > c. freshId n name g c = Inr (name @ nat_str i, i) \<and> name @ nat_str i \<notin> node_set g"
  using few
proof (induction n arbitrary: c)
  case (Suc n)
  have has: "hasNode x g \<longleftrightarrow> x \<in> node_set g" for x by (simp add: hasNode_def has_iff node_set_def)
  let ?taken = "\<lambda>c. {i. c < i \<and> name @ nat_str i \<in> node_set g}"
  show ?case
  proof (cases "name @ nat_str (c + 1) \<in> node_set g")
    case False
    then show ?thesis by (auto simp: has Let_def)
  next
    case True
    have "(\<lambda>i. name @ nat_str i) ` ?taken c \<subseteq> node_set g" by auto
    moreover have "inj_on (\<lambda>i. name @ nat_str i) (?taken c)" by (auto intro: inj_onI)
    moreover have "finite (node_set g)" by (simp add: node_set_def)
    ultimately have fin: "finite (?taken c)" by (meson finite_imageD finite_subset)
    have "?taken (c + 1) \<subset> ?taken c" using True by force
    with fin have "card (?taken (c + 1)) < card (?taken c)" by (rule psubset_card_mono)
    with Suc.prems have "card (?taken (c + 1)) < n" by simp
    from Suc.IH [OF this] True show ?thesis by (auto simp: has Let_def intro: less_trans)
  qed
qed simp

lemma fresh_dummy:
  fixes g :: "('g, 'n, 'e) Graph"
  assumes ok: "graph_ok g"
  shows "\<exists>i > c. freshId (length (nodes g) + 1) name g c = Inr (name @ nat_str i, i) \<and> name @ nat_str i \<notin> node_set g"
proof (rule freshId_ok [OF ok])
  let ?taken = "{i. c < i \<and> name @ nat_str i \<in> node_set g}"
  have "card ?taken = card ((\<lambda>i. name @ nat_str i) ` ?taken)" by (rule card_image [symmetric]) (auto intro: inj_onI)
  also have "\<dots> \<le> card (node_set g)" by (rule card_mono) (auto simp: node_set_def)
  also have "\<dots> = length (nodes g)" using distinct_card [OF distinct_nodes [OF ok]] by (simp add: nodes_set)
  finally show "card ?taken < length (nodes g) + 1" by simp
qed

lemma dummy_name: "clean (''_d'' @ nat_str i)" "''_d'' @ nat_str i \<noteq> GRAPH_NODE"
proof -
  have "CHR 0x01 \<notin> set (nat_str i)" using nat_str_digits [of "CHR 0x01" i] by (auto simp: is_digit_def)
  then show "clean (''_d'' @ nat_str i)" by (simp add: clean_def EDGE_KEY_DELIM_def)
  show "''_d'' @ nat_str i \<noteq> GRAPH_NODE" by (simp add: GRAPH_NODE_def)
qed

section \<open>One dummy\<close>

definition dummyLabel :: "layoutEdge \<Rightarrow> edgeObj \<Rightarrow> int \<Rightarrow> layoutNode" where
  "dummyLabel l e r =
     (let l' = l\<lparr>l_points := Some []\<rparr>; d = (dummyAttrs l' e r)\<lparr>n_dummy := Some ''edge''\<rparr>
      in if l_labelRank l = Some (real_of_int r) then asEdgeLabel l' d else d)"

lemma addDummy_ok:
  fixes g :: layoutGraph
  assumes ok: "layout_ok g" and v: "v \<in> node_set g" "clean v" and n: "clean_name (e_name e)" and lab: "graph g = Some gl"
  shows "\<exists>d c' h. addDummy l e first r (v, g, c) = Inr (d, h, c') \<and> d \<notin> node_set g \<and> clean d \<and> layout_ok h \<and>
    graph h = Some (if r = first then pushChain d gl else gl) \<and>
    abs_nodes h = (abs_nodes g)(d \<mapsto> Some (dummyLabel l e r)) \<and>
    abs_edges h = (abs_edges g)(\<lparr>e_v = v, e_w = d, e_name = e_name e\<rparr> \<mapsto> Some (simpleEdge (l_weight l) 0))"
proof -
  let ?l = "l\<lparr>l_points := Some []\<rparr>"
  obtain i where i: "freshId (length (nodes g) + 1) ''_d'' g c = Inr (''_d'' @ nat_str i, i)" "''_d'' @ nat_str i \<notin> node_set g"
    using fresh_dummy [OF layout_okD(1) [OF ok], of c "''_d''"] by blast
  define d where "d = ''_d'' @ nat_str i"
  have d: "clean d" "d \<noteq> GRAPH_NODE" "d \<notin> node_set g" using dummy_name [of i] i(2) by (simp_all add: d_def)
  let ?attrs = "(dummyAttrs ?l e r)\<lparr>n_dummy := Some ''edge''\<rparr>"
  obtain g1 where g1: "setNode d (Some (Some ?attrs)) g = Inr g1" "layout_ok g1" "same_flags g g1"
    "abs_nodes g1 = (abs_nodes g)(d \<mapsto> Some ?attrs)" "abs_edges g1 = abs_edges g"
    using layout_setNode [OF ok d(2), of "Some ?attrs"] by blast
  have "\<exists>g2. (if l_labelRank ?l = Some (real_of_int r) then mutNode (asEdgeLabel ?l) d g1 else Inr g1) = Inr g2 \<and> layout_ok g2 \<and>
    same_flags g1 g2 \<and> abs_nodes g2 = (abs_nodes g)(d \<mapsto> Some (dummyLabel l e r)) \<and> abs_edges g2 = abs_edges g1"
    using layout_mutNode [OF g1(2), of d ?attrs "asEdgeLabel ?l"] g1(2,4) by (auto simp: dummyLabel_def Let_def)
  then obtain g2 where g2: "(if l_labelRank ?l = Some (real_of_int r) then mutNode (asEdgeLabel ?l) d g1 else Inr g1) = Inr g2"
    "layout_ok g2" "same_flags g1 g2" "abs_nodes g2 = (abs_nodes g)(d \<mapsto> Some (dummyLabel l e r))" "abs_edges g2 = abs_edges g1" by blast
  let ?x = "\<lparr>e_v = v, e_w = d, e_name = e_name e\<rparr> :: edgeObj" and ?s = "simpleEdge (l_weight ?l) 0"
  have x: "clean_edge ?x" "e_v ?x \<in> node_set g2" "e_w ?x \<in> node_set g2"
    using v d(1) n g2(4) by (auto simp: clean_edge_def node_set_abs)
  obtain g3 where g3: "setEdge v d (Some (Some ?s)) (e_name e) g2 = Inr g3" "layout_ok g3" "same_flags g2 g3"
    "abs_nodes g3 = abs_nodes g2" "abs_edges g3 = (abs_edges g2)(?x \<mapsto> Some ?s)"
    using layout_setEdge [OF g2(2) x, of "Some ?s"] by auto
  have lab3: "graph g3 = Some gl" using lab g1(3) g2(3) g3(3) by (simp add: graph_def same_flags_def)
  have "\<exists>g4. (if r = first then mutGraph (pushChain d) g3 else Inr g3) = Inr g4 \<and> layout_ok g4 \<and>
    graph g4 = Some (if r = first then pushChain d gl else gl) \<and> abs_nodes g4 = abs_nodes g3 \<and> abs_edges g4 = abs_edges g3"
    using layout_mutGraph [OF g3(2) lab3, of "pushChain d"] g3(2) lab3 by (cases "r = first") simp_all
  then obtain g4 where g4: "(if r = first then mutGraph (pushChain d) g3 else Inr g3) = Inr g4" "layout_ok g4"
    "graph g4 = Some (if r = first then pushChain d gl else gl)" "abs_nodes g4 = abs_nodes g3" "abs_edges g4 = abs_edges g3" by blast
  have "addDummy l e first r (v, g, c) = Inr (d, g4, i)"
    unfolding addDummy_def addDummyNode_def
    by (simp only: Let_def prod.case i(1) [folded d_def] g1(1) g2(1) g3(1) g4(1) rbind_simps)
  then show ?thesis using d g1(5) g2(4,5) g3(4,5) g4 by (intro exI [of _ d] exI [of _ i] exI [of _ g4]) simp
qed

section \<open>One chain\<close>

text \<open>The edges of a chain.\<close>

fun pathLinks :: "string option \<Rightarrow> string \<Rightarrow> string list \<Rightarrow> edgeObj list" where
  "pathLinks n v [] = []"
| "pathLinks n v (d # ds) = \<lparr>e_v = v, e_w = d, e_name = n\<rparr> # pathLinks n d ds"

lemma pathLinks_append: "pathLinks n v (ds @ es) = pathLinks n v ds @ pathLinks n (last (v # ds)) es"
  by (induction ds arbitrary: v) auto

lemma pathLinks_ends: "x \<in> set (pathLinks n v ds) \<Longrightarrow> e_v x \<in> set (v # butlast ds) \<and> e_w x \<in> set ds \<and> e_name x = n"
  by (induction ds arbitrary: v) (auto split: if_splits)

definition grown ::
  "layoutEdge \<Rightarrow> edgeObj \<Rightarrow> layoutGraph \<Rightarrow> layoutLabel \<Rightarrow> int list \<Rightarrow> string list \<Rightarrow> layoutGraph \<Rightarrow> bool" where
  "grown l e g gl rs ds h \<longleftrightarrow> length ds = length rs \<and> distinct ds \<and> set ds \<inter> node_set g = {} \<and> (\<forall>d \<in> set ds. clean d) \<and>
     layout_ok h \<and> graph h = Some (if ds = [] then gl else pushChain (hd ds) gl) \<and>
     node_set h = node_set g \<union> set ds \<and> (\<forall>x \<in> node_set g. abs_nodes h x = abs_nodes g x) \<and>
     (\<forall>i < length ds. abs_nodes h (ds ! i) = Some (Some (dummyLabel l e (rs ! i)))) \<and>
     abs_edges h = (\<lambda>x. if x \<in> set (pathLinks (e_name e) (e_v e) ds) then Some (Some (simpleEdge (l_weight l) 0)) else abs_edges g x)"

lemma grownD:
  assumes "grown l e g gl rs ds h"
  shows "length ds = length rs" "distinct ds" "set ds \<inter> node_set g = {}" "\<And>d. d \<in> set ds \<Longrightarrow> clean d"
    "layout_ok h" "graph h = Some (if ds = [] then gl else pushChain (hd ds) gl)"
    "node_set h = node_set g \<union> set ds" "\<And>x. x \<in> node_set g \<Longrightarrow> abs_nodes h x = abs_nodes g x"
    "\<And>i. i < length ds \<Longrightarrow> abs_nodes h (ds ! i) = Some (Some (dummyLabel l e (rs ! i)))"
    "abs_edges h = (\<lambda>x. if x \<in> set (pathLinks (e_name e) (e_v e) ds) then Some (Some (simpleEdge (l_weight l) 0)) else abs_edges g x)"
  using assms unfolding grown_def by blast+

lemma grown_step:
  fixes g h :: layoutGraph
  assumes G: "grown l e g gl rs ds h" and v: "e_v e \<in> node_set g" "clean (e_v e)" and n: "clean_name (e_name e)" and first: "r = first \<longleftrightarrow> rs = []"
  shows "\<exists>d c' h'. addDummy l e first r (last (e_v e # ds), h, c) = Inr (d, h', c') \<and> grown l e g gl (rs @ [r]) (ds @ [d]) h'"
proof -
  note D = grownD [OF G]
  let ?v = "last (e_v e # ds)"
  have v': "?v \<in> node_set h" "clean ?v" using D(4,7) v by auto
  obtain d c' h' where h': "addDummy l e first r (?v, h, c) = Inr (d, h', c')" "d \<notin> node_set h" "clean d" "layout_ok h'"
    "graph h' = Some (if r = first then pushChain d (if ds = [] then gl else pushChain (hd ds) gl)
       else if ds = [] then gl else pushChain (hd ds) gl)"
    "abs_nodes h' = (abs_nodes h)(d \<mapsto> Some (dummyLabel l e r))"
    "abs_edges h' = (abs_edges h)(\<lparr>e_v = ?v, e_w = d, e_name = e_name e\<rparr> \<mapsto> Some (simpleEdge (l_weight l) 0))"
    using addDummy_ok [OF D(5) v' n D(6), of l first r c] by blast
  have new: "d \<notin> set ds" "d \<notin> node_set g" using h'(2) D(7) by auto
  have lenr: "ds = [] \<longleftrightarrow> rs = []" using D(1) by auto
  have "grown l e g gl (rs @ [r]) (ds @ [d]) h'"
    unfolding grown_def
  proof (intro conjI)
    show "graph h' = Some (if ds @ [d] = [] then gl else pushChain (hd (ds @ [d])) gl)"
      using h'(5) first lenr by (cases "rs = []") auto
    show "node_set h' = node_set g \<union> set (ds @ [d])" using h'(6) D(7) by (auto simp: node_set_abs)
    show "\<forall>x\<in>node_set g. abs_nodes h' x = abs_nodes g x" using h'(6) D(8) new(2) by auto
    show "\<forall>i<length (ds @ [d]). abs_nodes h' ((ds @ [d]) ! i) = Some (Some (dummyLabel l e ((rs @ [r]) ! i)))"
      using h'(6) D(1,9) new(1) by (auto simp: nth_append less_Suc_eq)
    show "abs_edges h' = (\<lambda>x. if x \<in> set (pathLinks (e_name e) (e_v e) (ds @ [d])) then Some (Some (simpleEdge (l_weight l) 0)) else abs_edges g x)"
      unfolding h'(7) D(10) by (auto simp: pathLinks_append fun_eq_iff)
  qed (use D h' new in auto)
  with h'(1) show ?thesis by blast
qed

lemma grow_chain:
  fixes g :: layoutGraph
  assumes ok: "layout_ok g" "graph g = Some gl"
    and v: "e_v e \<in> node_set g" "clean (e_v e)" and n: "clean_name (e_name e)"
    and rs: "distinct rs" "rs \<noteq> [] \<Longrightarrow> first = hd rs"
  shows "\<exists>ds c' h. rfold (addDummy l e first) rs (e_v e, g, c) = Inr (last (e_v e # ds), h, c') \<and> grown l e g gl rs ds h"
proof -
  let ?P = "\<lambda>ys (st :: string \<times> layoutGraph \<times> nat). \<exists>ds. fst st = last (e_v e # ds) \<and> grown l e g gl ys ds (fst (snd st))"
  have "\<exists>st. rfold (addDummy l e first) rs (e_v e, g, c) = Inr st \<and> ?P rs st"
  proof (rule rfold_prefix_invariant [where P = ?P])
    have "grown l e g gl [] [] g" using ok by (simp add: grown_def)
    then show "?P [] (e_v e, g, c)" by (intro exI [of _ "[]"]) simp
  next
    fix ys r zs and st :: "string \<times> layoutGraph \<times> nat"
    assume split: "rs = ys @ r # zs" and "?P ys st"
    then obtain ds where ds: "fst st = last (e_v e # ds)" "grown l e g gl ys ds (fst (snd st))" by blast
    have "r = first \<longleftrightarrow> ys = []" using split rs by (cases ys) auto
    from grown_step [OF ds(2) v n this, of "snd (snd st)"] obtain d c' h' where
      "addDummy l e first r (last (e_v e # ds), fst (snd st), snd (snd st)) = Inr (d, h', c')" "grown l e g gl (ys @ [r]) (ds @ [d]) h'"
      by blast
    with ds(1) show "\<exists>st'. addDummy l e first r st = Inr st' \<and> ?P (ys @ [r]) st'"
      by (intro exI [of _ "(d, h', c')"]) (cases st, auto intro!: exI [of _ "ds @ [d]"])
  qed
  then obtain st ds where "rfold (addDummy l e first) rs (e_v e, g, c) = Inr st" "fst st = last (e_v e # ds)"
    "grown l e g gl rs ds (fst (snd st))" by blast
  then show ?thesis by (intro exI [of _ ds] exI [of _ "snd (snd st)"] exI [of _ "fst (snd st)"]) (cases st, simp)
qed

section \<open>One edge\<close>

text \<open>The edge \<open>e\<close> of \<open>g\<close>, with the label \<open>l\<close>, from the rank \<open>r\<close>, has become a chain with the dummies \<open>ds\<close> in \<open>h\<close>.\<close>

definition chained :: "layoutEdge \<Rightarrow> edgeObj \<Rightarrow> int \<Rightarrow> layoutGraph \<Rightarrow> string list \<Rightarrow> layoutGraph \<Rightarrow> bool" where
  "chained l e r g ds h \<longleftrightarrow> distinct ds \<and> set ds \<inter> node_set g = {} \<and> (\<forall>d \<in> set ds. clean d) \<and> layout_ok h \<and>
     node_set h = node_set g \<union> set ds \<and> (\<forall>x \<in> node_set g. abs_nodes h x = abs_nodes g x) \<and>
     (\<forall>i < length ds. abs_nodes h (ds ! i) = Some (Some (dummyLabel l e (r + 1 + int i)))) \<and>
     abs_edges h = (\<lambda>x. if x \<in> set (pathLinks (e_name e) (e_v e) (ds @ [e_w e])) then Some (Some (simpleEdge (l_weight l) 0))
                        else if x = e then None else abs_edges g x)"

lemma chainedD:
  assumes "chained l e r g ds h"
  shows "distinct ds" "set ds \<inter> node_set g = {}" "\<And>d. d \<in> set ds \<Longrightarrow> clean d" "layout_ok h"
    "node_set h = node_set g \<union> set ds" "\<And>x. x \<in> node_set g \<Longrightarrow> abs_nodes h x = abs_nodes g x"
    "\<And>i. i < length ds \<Longrightarrow> abs_nodes h (ds ! i) = Some (Some (dummyLabel l e (r + 1 + int i)))"
    "abs_edges h = (\<lambda>x. if x \<in> set (pathLinks (e_name e) (e_v e) (ds @ [e_w e])) then Some (Some (simpleEdge (l_weight l) 0))
                        else if x = e then None else abs_edges g x)"
  using assms unfolding chained_def by blast+

definition ranked :: "layoutGraph \<Rightarrow> string \<Rightarrow> int \<Rightarrow> bool" where
  "ranked g v r \<longleftrightarrow> (\<exists>l. abs_nodes g v = Some (Some l) \<and> n_rank l = Some r)"

lemma normalizeEdge_short:
  assumes "layout_ok g" "abs_edges g e = Some (Some l)" "ranked g (e_v e) r" "ranked g (e_w e) (r + 1)"
  shows "normalizeEdge e (g, c) = Inr (g, c)"
proof -
  obtain nv nw where "node (e_v e) g = Some nv" "n_rank nv = Some r" "node (e_w e) g = Some nw" "n_rank nw = Some (r + 1)"
    using assms(3,4) by (auto simp: ranked_def node_def abs_nodes_def)
  moreover have "edgeOfObj e g = Some l"
    using abs_edge_label [OF layout_okD(1) [OF assms(1)], of e] layout_edge_clean [OF assms(1,2)] assms(2) by simp
  ultimately show ?thesis by (simp add: normalizeEdge_def)
qed

lemma normalizeEdge_long:
  fixes g :: layoutGraph
  assumes ok: "layout_ok g" and e: "abs_edges g e = Some (Some l)" and r: "ranked g (e_v e) r" "ranked g (e_w e) s" "r + 1 < s"
    and lab: "graph g = Some gl"
  shows "\<exists>ds h c'. normalizeEdge e (g, c) = Inr (h, c') \<and> chained l e r g ds h \<and> length ds = nat (s - r - 1) \<and>
    graph h = Some (pushChain (hd ds) gl)"
proof -
  let ?rs = "[r + 1 .. s - 1]"
  obtain nv nw where n: "node (e_v e) g = Some nv" "n_rank nv = Some r" "node (e_w e) g = Some nw" "n_rank nw = Some s"
    using r(1,2) by (auto simp: ranked_def node_def abs_nodes_def)
  have eE: "e \<in> set (edges g)" "clean_edge e" using layout_edge_clean [OF ok e] by blast+
  have l: "edgeOfObj e g = Some l" using abs_edge_label [OF layout_okD(1) [OF ok] eE(1)] e by simp
  have ends: "e_v e \<in> node_set g" "e_w e \<in> node_set g" using edges_ends [OF layout_okD(1) [OF ok] eE(1)] by auto
  have cl: "clean (e_v e)" "clean (e_w e)" "clean_name (e_name e)" using eE(2) by (simp_all add: clean_edge_def)
  have rs: "?rs \<noteq> []" "distinct ?rs" "hd ?rs = r + 1" "length ?rs = nat (s - r - 1)"
    using r(3) by (simp_all add: upto_rec1)
  have first: "(case ?rs of x # _ \<Rightarrow> x | [] \<Rightarrow> 0) = hd ?rs" using rs(1) by (cases ?rs) auto
  obtain g1 where g1: "removeEdgeObj e g = Inr g1" "layout_ok g1" "same_flags g g1" "abs_nodes g1 = abs_nodes g"
    "abs_edges g1 = (abs_edges g)(e := None)" using layout_removeEdge [OF ok e] by blast
  have n1: "node_set g1 = node_set g" using g1(4) by (simp add: node_set_abs)
  have lab1: "graph g1 = Some gl" using lab g1(3) by (simp add: graph_def same_flags_def)
  have v1: "e_v e \<in> node_set g1" using ends(1) n1 by simp
  obtain ds c' g2 where g2: "rfold (addDummy l e (hd ?rs)) ?rs (e_v e, g1, c) = Inr (last (e_v e # ds), g2, c')"
    "grown l e g1 gl ?rs ds g2"
    using grow_chain [OF g1(2) lab1 v1 cl(1,3) rs(2), of "hd ?rs" l c] by blast
  note D = grownD [OF g2(2)]
  let ?x = "\<lparr>e_v = last (e_v e # ds), e_w = e_w e, e_name = e_name e\<rparr> :: edgeObj" and ?s = "simpleEdge (l_weight l) 0"
  have x: "clean_edge ?x" "e_v ?x \<in> node_set g2" "e_w ?x \<in> node_set g2"
    using cl D(4,7) ends n1 by (auto simp: clean_edge_def)
  obtain h where h: "setEdge (last (e_v e # ds)) (e_w e) (Some (Some ?s)) (e_name e) g2 = Inr h" "layout_ok h" "same_flags g2 h"
    "abs_nodes h = abs_nodes g2" "abs_edges h = (abs_edges g2)(?x \<mapsto> Some ?s)"
    using layout_setEdge [OF D(5) x, of "Some ?s"] by auto
  have "normalizeEdge e (g, c) = Inr (h, c')"
    using n l g1(1) g2(1) h(1) r(3) first by (simp add: normalizeEdge_def)
  moreover have "chained l e r g ds h"
    unfolding chained_def
  proof (intro conjI)
    show "\<forall>i<length ds. abs_nodes h (ds ! i) = Some (Some (dummyLabel l e (r + 1 + int i)))"
      using D(1,9) h(4) r(3) by (auto simp: nth_upto)
    show "abs_edges h = (\<lambda>x. if x \<in> set (pathLinks (e_name e) (e_v e) (ds @ [e_w e])) then Some (Some (simpleEdge (l_weight l) 0))
                        else if x = e then None else abs_edges g x)"
      unfolding h(5) D(10) g1(5) by (auto simp: pathLinks_append fun_eq_iff)
    show "node_set h = node_set g \<union> set ds" using D(7) n1 h(4) by (simp add: node_set_abs)
    show "\<forall>x\<in>node_set g. abs_nodes h x = abs_nodes g x" using D(8) n1 h(4) g1(4) by simp
  qed (use D n1 h(2) in auto)
  moreover have "length ds = nat (s - r - 1)" using D(1) rs(4) by simp
  moreover from this r(3) have "ds \<noteq> []" by auto
  then have "graph h = Some (pushChain (hd ds) gl)" using D(6) h(3) by (simp add: graph_def same_flags_def)
  ultimately show ?thesis by blast
qed

section \<open>All edges\<close>

definition dummies :: "(edgeObj \<times> string list) list \<Rightarrow> string list" where
  "dummies cs = concat (map snd cs)"

definition chainLinks :: "edgeObj \<times> string list \<Rightarrow> edgeObj set" where
  "chainLinks p = set (pathLinks (e_name (fst p)) (e_v (fst p)) (snd p @ [e_w (fst p)]))"

definition dummyOf :: "(edgeObj \<Rightarrow> layoutEdge) \<Rightarrow> edgeObj \<Rightarrow> int \<Rightarrow> layoutNode \<Rightarrow> bool" where
  "dummyOf L e r n \<longleftrightarrow> n_rank n = Some r \<and> n_edgeObj n = Some e \<and> n_edgeLabel n = Some ((L e)\<lparr>l_points := Some []\<rparr>) \<and>
     n_dummy n = Some (if l_labelRank (L e) = Some (real_of_int r) then ''edge-label'' else ''edge'')"

lemma dummyOf_dummyLabel: "dummyOf L e r (dummyLabel (L e) e r)"
  by (simp add: dummyOf_def dummyLabel_def dummyAttrs_def plainNode_def asEdgeLabel_def Let_def)

text \<open>A graph with the nodes \<open>V\<close> and the edges \<open>D\<close> between them, and with the chains \<open>cs\<close> for other edges.\<close>

definition normalized ::
  "(string \<Rightarrow> int) \<Rightarrow> (edgeObj \<Rightarrow> layoutEdge) \<Rightarrow> string set \<Rightarrow> edgeObj set \<Rightarrow> (edgeObj \<times> string list) list \<Rightarrow> layoutGraph \<Rightarrow> bool" where
  "normalized rk L V D cs h \<longleftrightarrow> layout_ok h \<and> distinct (dummies cs) \<and> set (dummies cs) \<inter> V = {} \<and>
     node_set h = V \<union> set (dummies cs) \<and> (\<forall>x \<in> D. e_v x \<in> V \<and> e_w x \<in> V) \<and>
     dom (abs_edges h) = D \<union> (\<Union>p \<in> set cs. chainLinks p) \<and>
     (\<forall>(e, ds) \<in> set cs. ds \<noteq> [] \<and> clean_edge e \<and> e_v e \<in> V \<and> e_w e \<in> V \<and>
       (\<forall>i < length ds. \<exists>n. abs_nodes h (ds ! i) = Some (Some n) \<and> dummyOf L e (rk (e_v e) + 1 + int i) n))"

lemma normalizedD:
  assumes "normalized rk L V D cs h"
  shows "layout_ok h" "distinct (dummies cs)" "set (dummies cs) \<inter> V = {}" "node_set h = V \<union> set (dummies cs)"
    "\<And>x. x \<in> D \<Longrightarrow> e_v x \<in> V \<and> e_w x \<in> V" "dom (abs_edges h) = D \<union> (\<Union>p \<in> set cs. chainLinks p)"
    "\<And>e ds. (e, ds) \<in> set cs \<Longrightarrow> ds \<noteq> [] \<and> clean_edge e \<and> e_v e \<in> V \<and> e_w e \<in> V"
    "\<And>e ds i. (e, ds) \<in> set cs \<Longrightarrow> i < length ds \<Longrightarrow> \<exists>n. abs_nodes h (ds ! i) = Some (Some n) \<and> dummyOf L e (rk (e_v e) + 1 + int i) n"
  using assms unfolding normalized_def by fast+

lemma pathLinks_dummy: "x \<in> set (pathLinks n v (ds @ [w])) \<Longrightarrow> ds \<noteq> [] \<Longrightarrow> e_v x \<in> set ds \<or> e_w x \<in> set ds"
proof (induction ds arbitrary: v)
  case (Cons d ds)
  then show ?case by (cases "ds = []") auto
qed simp

lemma dummies_simps [simp]:
  "dummies [] = []" "dummies (p # cs) = snd p @ dummies cs" "dummies (cs @ cs') = dummies cs @ dummies cs'"
  by (simp_all add: dummies_def)

lemma dummies_mem: "(e, ds) \<in> set cs \<Longrightarrow> set ds \<subseteq> set (dummies cs)"
  by (auto simp: dummies_def)

lemma normalized_step:
  fixes h h' :: layoutGraph
  assumes N: "normalized rk L V D cs h" and C: "chained (L e) e (rk (e_v e)) h ds h'" and ds: "ds \<noteq> []" and e: "e \<in> D" "clean_edge e"
  shows "normalized rk L V (D - {e}) (cs @ [(e, ds)]) h'"
proof -
  note n = normalizedD [OF N] and c = chainedD [OF C]
  have ve: "e_v e \<in> V" "e_w e \<in> V" using n(5) [OF e(1)] by auto
  have old: "e \<notin> chainLinks p" if p: "p \<in> set cs" for p
  proof
    assume "e \<in> chainLinks p"
    then have "e_v e \<in> set (snd p) \<or> e_w e \<in> set (snd p)"
      using pathLinks_dummy n(7) [of "fst p" "snd p"] p unfolding chainLinks_def by auto
    with dummies_mem [of "fst p" "snd p" cs] p n(3) ve show False by auto
  qed
  show ?thesis
    unfolding normalized_def
  proof (intro conjI)
    show "distinct (dummies (cs @ [(e, ds)]))" using n(2,4) c(1,2) by auto
    show "set (dummies (cs @ [(e, ds)])) \<inter> V = {}" using n(3,4) c(2) by auto
    show "node_set h' = V \<union> set (dummies (cs @ [(e, ds)]))" using n(4) c(5) by auto
    show "dom (abs_edges h') = D - {e} \<union> (\<Union>p\<in>set (cs @ [(e, ds)]). chainLinks p)"
    proof -
      have "dom (abs_edges h') = chainLinks (e, ds) \<union> (dom (abs_edges h) - {e})"
        unfolding c(8) by (auto simp: chainLinks_def dom_def)
      then show ?thesis using n(6) old by auto
    qed
    show "\<forall>(e', ds') \<in> set (cs @ [(e, ds)]). ds' \<noteq> [] \<and> clean_edge e' \<and> e_v e' \<in> V \<and> e_w e' \<in> V \<and>
       (\<forall>i < length ds'. \<exists>n. abs_nodes h' (ds' ! i) = Some (Some n) \<and> dummyOf L e' (rk (e_v e') + 1 + int i) n)"
    proof (intro ballI, clarify, intro conjI)
      fix e' ds' assume "(e', ds') \<in> set (cs @ [(e, ds)])"
      then consider "(e', ds') \<in> set cs" | "e' = e" "ds' = ds" by auto
      then have "ds' \<noteq> [] \<and> clean_edge e' \<and> e_v e' \<in> V \<and> e_w e' \<in> V \<and>
        (\<forall>i < length ds'. \<exists>n. abs_nodes h' (ds' ! i) = Some (Some n) \<and> dummyOf L e' (rk (e_v e') + 1 + int i) n)"
      proof cases
        case 1
        have "ds' ! i \<in> node_set h" if "i < length ds'" for i using dummies_mem [OF 1] n(4) nth_mem [OF that] by blast
        then have "abs_nodes h' (ds' ! i) = abs_nodes h (ds' ! i)" if "i < length ds'" for i using c(6) that by blast
        with n(7) [OF 1] n(8) [OF 1] show ?thesis by auto
      next
        case 2
        then show ?thesis using ds e(2) ve c(7) dummyOf_dummyLabel by auto
      qed
      then show "ds' \<noteq> []" "clean_edge e'" "e_v e' \<in> V" "e_w e' \<in> V"
        "\<forall>i < length ds'. \<exists>n. abs_nodes h' (ds' ! i) = Some (Some n) \<and> dummyOf L e' (rk (e_v e') + 1 + int i) n" by blast+
    qed
  qed (use c(4) n(5) in auto)
qed

text \<open>What \<open>run\<close> asks for: labels, and ranks that increase along the edges.\<close>

definition run_ranked :: "(string \<Rightarrow> int) \<Rightarrow> layoutGraph \<Rightarrow> bool" where
  "run_ranked rk g \<longleftrightarrow> layout_ok g \<and> graph g \<noteq> None \<and> (\<forall>v \<in> node_set g. ranked g v (rk v)) \<and>
     (\<forall>e \<in> set (edges g). edgeOfObj e g \<noteq> None \<and> rk (e_v e) < rk (e_w e))"

definition labelOf :: "layoutGraph \<Rightarrow> edgeObj \<Rightarrow> layoutEdge" where
  "labelOf g e = the (edgeOfObj e g)"

definition long_edge :: "(string \<Rightarrow> int) \<Rightarrow> edgeObj \<Rightarrow> bool" where
  "long_edge rk e \<longleftrightarrow> rk (e_w e) \<noteq> rk (e_v e) + 1"

definition chains_run ::
  "(string \<Rightarrow> int) \<Rightarrow> layoutGraph \<Rightarrow> layoutLabel \<Rightarrow> edgeObj list \<Rightarrow> (edgeObj \<times> string list) list \<Rightarrow> layoutGraph \<Rightarrow> bool" where
  "chains_run rk g gl ys cs h \<longleftrightarrow> normalized rk (labelOf g) (node_set g) (set (edges g) - fst ` set cs) cs h \<and>
     map fst cs = filter (long_edge rk) ys \<and> (\<forall>(e, ds) \<in> set cs. length ds = nat (rk (e_w e) - rk (e_v e) - 1)) \<and>
     graph h = Some (gl\<lparr>g_dummyChains := Some (map (hd \<circ> snd) cs)\<rparr>) \<and> (\<forall>x \<in> node_set g. abs_nodes h x = abs_nodes g x) \<and>
     (\<forall>x \<in> set (edges g) - fst ` set cs. abs_edges h x = abs_edges g x)"

lemma run_step:
  fixes g h :: layoutGraph
  assumes R: "run_ranked rk g" and C: "chains_run rk g gl ys cs h" and e: "e \<in> set (edges g)" "e \<notin> set ys"
  shows "\<exists>cs' h' c'. normalizeEdge e (h, c) = Inr (h', c') \<and> chains_run rk g gl (ys @ [e]) cs' h'"
proof -
  have ok: "layout_ok g" and rl: "ranked g (e_v e) (rk (e_v e))" "ranked g (e_w e) (rk (e_w e))" "edgeOfObj e g \<noteq> None"
    "rk (e_v e) < rk (e_w e)" and ends: "e_v e \<in> node_set g" "e_w e \<in> node_set g"
    using R e(1) edges_ends [of g e] unfolding run_ranked_def layout_ok_def by auto
  have N: "normalized rk (labelOf g) (node_set g) (set (edges g) - fst ` set cs) cs h" and fs: "map fst cs = filter (long_edge rk) ys"
    and len: "\<And>a ds. (a, ds) \<in> set cs \<Longrightarrow> length ds = nat (rk (e_w a) - rk (e_v a) - 1)"
    and gl: "graph h = Some (gl\<lparr>g_dummyChains := Some (map (hd \<circ> snd) cs)\<rparr>)"
    and nod: "\<And>x. x \<in> node_set g \<Longrightarrow> abs_nodes h x = abs_nodes g x"
    and dir: "\<And>x. x \<in> set (edges g) - fst ` set cs \<Longrightarrow> abs_edges h x = abs_edges g x"
    using C unfolding chains_run_def by blast+
  have "fst ` set cs \<subseteq> set ys" using arg_cong [OF fs, of set] by auto
  then have new: "e \<in> set (edges g) - fst ` set cs" using e by auto
  have lab: "abs_edges h e = Some (Some (labelOf g e))"
    using dir [OF new] abs_edge_label [OF layout_okD(1) [OF ok] e(1)] rl(3) by (auto simp: labelOf_def)
  have rh: "ranked h (e_v e) (rk (e_v e))" "ranked h (e_w e) (rk (e_w e))" using rl(1,2) nod ends by (simp_all add: ranked_def)
  note okh = normalizedD(1) [OF N]
  show ?thesis
  proof (cases "long_edge rk e")
    case False
    then have "normalizeEdge e (h, c) = Inr (h, c)"
      using normalizeEdge_short [OF okh lab rh(1)] rh(2) by (simp add: long_edge_def)
    moreover have "chains_run rk g gl (ys @ [e]) cs h" using C False by (simp add: chains_run_def)
    ultimately show ?thesis by blast
  next
    case True
    then have lt: "rk (e_v e) + 1 < rk (e_w e)" using rl(4) by (simp add: long_edge_def)
    obtain ds h' c' where h': "normalizeEdge e (h, c) = Inr (h', c')" "chained (labelOf g e) e (rk (e_v e)) h ds h'"
      "length ds = nat (rk (e_w e) - rk (e_v e) - 1)" "graph h' = Some (pushChain (hd ds) (gl\<lparr>g_dummyChains := Some (map (hd \<circ> snd) cs)\<rparr>))"
      using normalizeEdge_long [OF okh lab rh lt gl, of c] by blast
    note c = chainedD [OF h'(2)]
    have ne: "ds \<noteq> []" using h'(3) lt by auto
    have "clean_edge e" using layout_okD(2) [OF ok] e(1) by (simp add: clean_graph_def)
    from normalized_step [OF N h'(2) ne new this]
    have "normalized rk (labelOf g) (node_set g) (set (edges g) - fst ` set (cs @ [(e, ds)])) (cs @ [(e, ds)]) h'"
      by (simp add: Diff_insert2 [symmetric] Diff_insert [symmetric] insert_commute)
    moreover have "abs_edges h' x = abs_edges g x" if x: "x \<in> set (edges g) - fst ` set (cs @ [(e, ds)])" for x
    proof -
      have xe: "e_v x \<in> node_set g" "e_w x \<in> node_set g" "x \<noteq> e" "x \<in> set (edges g) - fst ` set cs"
        using x edges_ends [OF layout_okD(1) [OF ok]] by auto
      have "x \<notin> set (pathLinks (e_name e) (e_v e) (ds @ [e_w e]))"
        using pathLinks_dummy [of x _ _ ds] ne c(2) normalizedD(4) [OF N] xe(1,2) by blast
      with c(8) xe(3) dir [OF xe(4)] show ?thesis by simp
    qed
    moreover have "abs_nodes h' x = abs_nodes g x" if "x \<in> node_set g" for x
      using c(6) [of x] nod [OF that] normalizedD(4) [OF N] that by auto
    ultimately have "chains_run rk g gl (ys @ [e]) (cs @ [(e, ds)]) h'"
      unfolding chains_run_def using fs len True h'(3,4) by (auto simp: pushChain_def)
    with h'(1) show ?thesis by blast
  qed
qed

lemma run_chains:
  fixes g :: layoutGraph
  assumes R: "run_ranked rk g"
  shows "\<exists>gl cs h c'. normalize_run c g = Inr (h, c') \<and> graph g = Some gl \<and> chains_run rk g gl (edges g) cs h"
proof -
  have ok: "layout_ok g" using R by (simp add: run_ranked_def)
  obtain gl where gl: "graph g = Some gl" using R by (auto simp: run_ranked_def)
  obtain g0 where g0: "mutGraph (\<lambda>l. l\<lparr>g_dummyChains := Some []\<rparr>) g = Inr g0" "layout_ok g0"
    "graph g0 = Some (gl\<lparr>g_dummyChains := Some []\<rparr>)" "abs_nodes g0 = abs_nodes g" "abs_edges g0 = abs_edges g"
    using layout_mutGraph [OF ok gl, of "\<lambda>l. l\<lparr>g_dummyChains := Some []\<rparr>"] by blast
  let ?P = "\<lambda>ys (s :: layoutGraph \<times> nat). \<exists>cs. chains_run rk g gl ys cs (fst s)"
  have "\<exists>s. rfold normalizeEdge (edges g) (g0, c) = Inr s \<and> ?P (edges g) s"
  proof (rule rfold_prefix_invariant [where P = ?P])
    have "chains_run rk g gl [] [] g0"
      using g0 edges_ends [OF layout_okD(1) [OF ok]] dom_abs_edges [OF layout_okD(1) [OF ok]]
      by (simp add: chains_run_def normalized_def node_set_abs)
    then show "?P [] (g0, c)" by auto
  next
    fix ys e zs and s :: "layoutGraph \<times> nat"
    assume split: "edges g = ys @ e # zs" and "?P ys s"
    then obtain cs where cs: "chains_run rk g gl ys cs (fst s)" by blast
    have e: "e \<in> set (edges g)" "e \<notin> set ys" using split distinct_edges [OF layout_okD(1) [OF ok]] by auto
    from run_step [OF R cs e, of "snd s"] show "\<exists>s'. normalizeEdge e s = Inr s' \<and> ?P (ys @ [e]) s'" by force
  qed
  with g0(1) gl show ?thesis by (auto simp: normalize_run_def)
qed

section \<open>Every edge spans one rank\<close>

lemma pathLinks_nth: "x \<in> set (pathLinks n v ds) \<Longrightarrow> \<exists>i < length ds. e_v x = (v # ds) ! i \<and> e_w x = ds ! i"
proof (induction ds arbitrary: v)
  case (Cons d ds)
  then consider "x = \<lparr>e_v = v, e_w = d, e_name = n\<rparr>" | "x \<in> set (pathLinks n d ds)" by auto
  then show ?case
  proof cases
    case 2
    from Cons.IH [OF this] obtain i where "i < length ds" "e_v x = (d # ds) ! i" "e_w x = ds ! i" by blast
    then show ?thesis by (intro exI [of _ "Suc i"]) simp
  qed auto
qed simp

lemma one_rank:
  assumes N: "normalized rk L V D cs h" and V: "\<And>v. v \<in> V \<Longrightarrow> ranked h v (rk v)" and D: "\<And>x. x \<in> D \<Longrightarrow> \<not> long_edge rk x"
    and len: "\<And>e ds. (e, ds) \<in> set cs \<Longrightarrow> int (length ds) = rk (e_w e) - rk (e_v e) - 1" and x: "x \<in> dom (abs_edges h)"
  shows "\<exists>r. ranked h (e_v x) r \<and> ranked h (e_w x) (r + 1)"
proof -
  note n = normalizedD [OF N]
  consider "x \<in> D" | e ds where "(e, ds) \<in> set cs" "x \<in> chainLinks (e, ds)" using x n(6) by auto
  then show ?thesis
  proof cases
    case 1
    with V [of "e_v x"] V [of "e_w x"] n(5) D show ?thesis by (auto simp: long_edge_def)
  next
    case 2
    obtain i where i: "i < length (ds @ [e_w e])" "e_v x = (e_v e # ds @ [e_w e]) ! i" "e_w x = (ds @ [e_w e]) ! i"
      using pathLinks_nth 2(2) unfolding chainLinks_def by (metis fst_conv snd_conv)
    have dummy: "ranked h (ds ! j) (rk (e_v e) + 1 + int j)" if "j < length ds" for j
      using n(8) [OF 2(1) that] by (auto simp: ranked_def dummyOf_def)
    have "ranked h (e_v x) (rk (e_v e) + int i)"
    proof (cases i)
      case 0
      then show ?thesis using i(2) V n(7) [OF 2(1)] by simp
    next
      case (Suc j)
      then show ?thesis using i(1,2) dummy [of j] by (simp add: nth_append algebra_simps)
    qed
    moreover have "ranked h (e_w x) (rk (e_v e) + int i + 1)"
    proof (cases "i < length ds")
      case True
      then show ?thesis using i(3) dummy [OF True] by (simp add: nth_append algebra_simps)
    next
      case False
      then have "i = length ds" using i(1) by simp
      then show ?thesis using i(3) V n(7) [OF 2(1)] len [OF 2(1)] by (simp add: nth_append)
    qed
    ultimately show ?thesis by blast
  qed
qed

section \<open>Undoing one chain\<close>

text \<open>The state of the loop: the dummies in \<open>done\<close> are gone, and the edge \<open>e\<close> has the label \<open>lab\<close>.\<close>

definition unchaining :: "layoutGraph \<Rightarrow> edgeObj \<Rightarrow> string list \<Rightarrow> layoutEdge \<Rightarrow> layoutGraph \<Rightarrow> bool" where
  "unchaining k e gone lab u \<longleftrightarrow> layout_ok u \<and> graph u = graph k \<and>
     abs_nodes u = (\<lambda>x. if x \<in> set gone then None else abs_nodes k x) \<and>
     abs_edges u = (\<lambda>x. if x = e then Some (Some lab) else if e_v x \<in> set gone \<or> e_w x \<in> set gone then None else abs_edges k x)"

lemma unchainingD:
  assumes "unchaining k e gone lab u"
  shows "layout_ok u" "graph u = graph k" "abs_nodes u = (\<lambda>x. if x \<in> set gone then None else abs_nodes k x)"
    "abs_edges u = (\<lambda>x. if x = e then Some (Some lab) else if e_v x \<in> set gone \<or> e_w x \<in> set gone then None else abs_edges k x)"
  using assms by (simp_all add: unchaining_def)

lemma own_link:
  assumes d: "d \<notin> set (v # gone)" "distinct (d # rest)" and x: "x \<in> set (pathLinks n v (gone @ d # rest @ [w]))" "e_v x = d"
  shows "x = \<lparr>e_v = d, e_w = hd (rest @ [w]), e_name = n\<rparr>"
proof -
  have "pathLinks n v (gone @ d # rest @ [w]) = pathLinks n v (gone @ [d]) @ pathLinks n d (rest @ [w])"
    using pathLinks_append [of n v "gone @ [d]" "rest @ [w]"] by simp
  with x(1) consider "x \<in> set (pathLinks n v (gone @ [d]))" | "x \<in> set (pathLinks n d (rest @ [w]))" by auto
  then show ?thesis
  proof cases
    case 1
    then have "e_v x \<in> set (v # gone)" using pathLinks_ends [OF 1] by simp
    with x(2) d(1) show ?thesis by simp
  next
    case 2
    show ?thesis
    proof (cases rest)
      case Nil
      with 2 show ?thesis by simp
    next
      case (Cons a as)
      with 2 consider "x = \<lparr>e_v = d, e_w = a, e_name = n\<rparr>" | "x \<in> set (pathLinks n a (as @ [w]))" by auto
      then show ?thesis
      proof cases
        case 2
        then have "e_v x \<in> set (a # as)" using pathLinks_ends [OF 2] by simp
        with x(2) d(2) Cons show ?thesis by simp
      qed (simp add: Cons)
    qed
  qed
qed

text \<open>The only edge out of a dummy leads to the next one.\<close>

lemma next_in_chain:
  assumes N: "normalized rk L V D ((e, gone @ d # rest) # cs) k" and U: "unchaining k e gone lab u"
  shows "successors d u = Some [hd (rest @ [e_w e])]" "d \<in> node_set u"
proof -
  note n = normalizedD [OF N] and U' = unchainingD [OF U]
  let ?next = "hd (rest @ [e_w e])" let ?x = "\<lparr>e_v = d, e_w = ?next, e_name = e_name e\<rparr> :: edgeObj"
  have ve: "e_v e \<in> V" "e_w e \<in> V" using n(7) [of e "gone @ d # rest"] by auto
  have dist: "distinct (gone @ d # rest)" "set (gone @ d # rest) \<inter> set (dummies cs) = {}" "set (gone @ d # rest) \<inter> V = {}"
    using n(2,3) by auto
  have "d \<in> node_set k" using n(4) by simp
  then show du: "d \<in> node_set u" using dist(1) U'(3) by (auto simp: node_set_abs domIff)
  have only: "x = ?x" if x: "x \<in> dom (abs_edges u)" "e_v x = d" for x
  proof -
    have "x \<in> dom (abs_edges k)" using x ve dist(3) U'(4) by (auto split: if_splits)
    then consider "x \<in> D" | "x \<in> chainLinks (e, gone @ d # rest)" | p where "p \<in> set cs" "x \<in> chainLinks p" using n(6) by auto
    then show ?thesis
    proof cases
      case 1
      with n(5) x(2) dist(3) show ?thesis by auto
    next
      case 2
      then have "x \<in> set (pathLinks (e_name e) (e_v e) (gone @ d # rest @ [e_w e]))" by (simp add: chainLinks_def)
      moreover have "d \<notin> set (e_v e # gone)" "distinct (d # rest)" using dist ve by auto
      ultimately show ?thesis using own_link x(2) by blast
    next
      case 3
      then have "e_v x \<in> set (e_v (fst p) # snd p)" using pathLinks_ends unfolding chainLinks_def by fastforce
      moreover have "e_v (fst p) \<in> V" "set (snd p) \<subseteq> set (dummies cs)"
        using n(7) [of "fst p" "snd p"] dummies_mem [of "fst p" "snd p" cs] 3(1) by auto
      ultimately show ?thesis using x(2) dist by auto
    qed
  qed
  have there: "?x \<in> dom (abs_edges u)"
  proof -
    have "?x \<in> set (pathLinks (e_name e) (e_v e) (gone @ d # rest @ [e_w e]))"
      using pathLinks_append [of "e_name e" "e_v e" "gone @ [d]" "rest @ [e_w e]"] by (cases rest) auto
    then have "?x \<in> dom (abs_edges k)" using n(6) by (auto simp: chainLinks_def)
    moreover have "?next \<notin> set gone" using dist ve by (cases rest) auto
    ultimately show ?thesis using U'(4) dist(1) by (auto simp: dom_def)
  qed
  have "{e_w x |x. x \<in> set (edges u) \<and> e_v x = d} = {?next}"
  proof (intro equalityI subsetI)
    fix y assume "y \<in> {e_w x |x. x \<in> set (edges u) \<and> e_v x = d}"
    then obtain x where "y = e_w x" "x \<in> dom (abs_edges u)" "e_v x = d" using dom_abs_edges [OF layout_okD(1) [OF U'(1)]] by auto
    with only [of x] show "y \<in> {?next}" by (metis edgeObj.select_convs(2) singletonI)
  next
    fix y assume "y \<in> {?next}"
    then have "y = e_w ?x" "e_v ?x = d" "?x \<in> set (edges u)" using there dom_abs_edges [OF layout_okD(1) [OF U'(1)]] by simp_all
    then show "y \<in> {e_w x |x. x \<in> set (edges u) \<and> e_v x = d}" by blast
  qed
  with successors_spec [OF layout_okD(1) [OF U'(1)] du] obtain ws where ws: "successors d u = Some ws" "distinct ws" "set ws = {?next}"
    by auto
  then have "ws = [?next]" by (cases ws rule: remdups_adj.cases) auto
  with ws(1) show "successors d u = Some [?next]" by simp
qed

lemma undoLoop_ok:
  fixes k u :: layoutGraph
  assumes N: "normalized rk L V D ((e, ds) # cs) k" and w: "\<exists>n. abs_nodes k (e_w e) = Some (Some n) \<and> n_dummy n \<in> {None, Some []}"
  shows "ds = gone @ rest \<Longrightarrow> unchaining k e gone lab u \<Longrightarrow> length rest < m \<Longrightarrow>
    \<exists>u'. undoLoop m e (hd (rest @ [e_w e])) u = Inr u' \<and>
      unchaining k e ds (fold (\<lambda>d. addPoint (the (node d k))) rest lab) u'"
proof (induction rest arbitrary: gone lab u m)
  case Nil
  obtain m' where m: "m = Suc m'" using Nil.prems(3) by (cases m) auto
  note U = unchainingD [OF Nil.prems(2)]
  have "e_w e \<notin> set gone" using normalizedD(3,7) [OF N] Nil.prems(1) by auto
  then obtain n where "node (e_w e) u = Some n" "n_dummy n \<in> {None, Some []}"
    using w U(3) by (auto simp: node_def abs_nodes_def split: option.splits dest!: fun_cong [of _ _ "e_w e"])
  then have "undoLoop m e (hd ([] @ [e_w e])) u = Inr u" by (auto simp: m)
  with Nil.prems(1,2) show ?case by simp
next
  case (Cons d rest)
  obtain m' where m: "m = Suc m'" "length rest < m'" using Cons.prems(3) by (cases m) auto
  note U = unchainingD [OF Cons.prems(2)] and n = normalizedD [OF N]
  have N': "normalized rk L V D ((e, gone @ d # rest) # cs) k" using N Cons.prems(1) by simp
  note nx = next_in_chain [OF N' Cons.prems(2)]
  let ?next = "hd (rest @ [e_w e])"
  have dd: "d \<notin> set gone" "d \<notin> V" using n(2,3) Cons.prems(1) by auto
  obtain nd where nd: "abs_nodes k d = Some (Some nd)" "n_dummy nd \<noteq> None" "n_dummy nd \<noteq> Some []"
    using n(8) [of e ds "length gone"] Cons.prems(1) by (auto simp: dummyOf_def)
  have node_d: "node d u = Some nd" "node d k = Some nd"
    using nd(1) U(3) dd(1) by (auto simp: node_def abs_nodes_def split: option.splits dest!: fun_cong [of _ _ d])
  obtain u1 where u1: "removeNode d u = Inr u1" "layout_ok u1" "same_flags u u1" "abs_nodes u1 = (abs_nodes u)(d := None)"
    "abs_edges u1 = (\<lambda>x. if e_v x = d \<or> e_w x = d then None else abs_edges u x)"
    using layout_removeNode [OF U(1) nx(2)] by blast
  have ve: "e_v e \<noteq> d" "e_w e \<noteq> d" using n(7) [of e ds] dd(2) by auto
  have "abs_edges u1 e = Some (Some lab)" using u1(5) U(4) ve by simp
  then obtain u2 where u2: "mutEdge (addPoint nd) e u1 = Inr u2" "layout_ok u2" "same_flags u1 u2" "abs_nodes u2 = abs_nodes u1"
    "abs_edges u2 = (abs_edges u1)(e \<mapsto> Some (addPoint nd lab))"
    using layout_mutEdge [OF u1(2), of e lab "addPoint nd"] by blast
  have "unchaining k e (gone @ [d]) (addPoint nd lab) u2"
    unfolding unchaining_def
  proof (intro conjI)
    show "graph u2 = graph k" using U(2) u1(3) u2(3) by (simp add: graph_def same_flags_def)
    show "abs_nodes u2 = (\<lambda>x. if x \<in> set (gone @ [d]) then None else abs_nodes k x)" using u2(4) u1(4) U(3) by (auto simp: fun_eq_iff)
    show "abs_edges u2 = (\<lambda>x. if x = e then Some (Some (addPoint nd lab))
        else if e_v x \<in> set (gone @ [d]) \<or> e_w x \<in> set (gone @ [d]) then None else abs_edges k x)"
      unfolding u2(5) u1(5) U(4) by (auto simp: fun_eq_iff)
  qed (rule u2(2))
  from Cons.IH [OF _ this m(2)] Cons.prems(1) obtain u' where
    u': "undoLoop m' e ?next u2 = Inr u'" "unchaining k e ds (fold (\<lambda>d. addPoint (the (node d k))) rest (addPoint nd lab)) u'" by auto
  have "undoLoop m e (hd ((d # rest) @ [e_w e])) u = Inr u'"
    using m(1) node_d(1) nd(2,3) nx(1) u1(1) u2(1) u'(1) by simp
  with u'(2) node_d(2) show ?case by simp
qed

definition restored :: "(edgeObj \<Rightarrow> layoutEdge) \<Rightarrow> layoutGraph \<Rightarrow> edgeObj \<Rightarrow> string list \<Rightarrow> layoutEdge" where
  "restored L k e ds = fold (\<lambda>d. addPoint (the (node d k))) ds ((L e)\<lparr>l_points := Some []\<rparr>)"

lemma undoChain_ok:
  fixes k :: layoutGraph
  assumes N: "normalized rk L V D ((e, ds) # cs) k" and w: "\<exists>n. abs_nodes k (e_w e) = Some (Some n) \<and> n_dummy n \<in> {None, Some []}"
  shows "\<exists>u. undoChain (hd ds) k = Inr u \<and> unchaining k e ds (restored L k e ds) u"
proof -
  note n = normalizedD [OF N]
  have ce: "ds \<noteq> []" "clean_edge e" "e_v e \<in> node_set k" "e_w e \<in> node_set k" using n(7) [of e ds] n(4) by auto
  obtain nd where nd: "abs_nodes k (hd ds) = Some (Some nd)" "dummyOf L e (rk (e_v e) + 1) nd"
    using n(8) [of e ds 0] ce(1) by (auto simp: hd_conv_nth)
  let ?l = "(L e)\<lparr>l_points := Some []\<rparr>"
  obtain k1 where k1: "setEdgeObj e (Some (Some ?l)) k = Inr k1" "layout_ok k1" "same_flags k k1" "abs_nodes k1 = abs_nodes k"
    "abs_edges k1 = (abs_edges k)(e \<mapsto> Some ?l)"
    using layout_setEdge [OF n(1) ce(2-4), of "Some ?l"] by (auto simp: setEdgeObj_def)
  have U: "unchaining k e [] ?l k1"
    using k1 by (simp add: unchaining_def graph_def same_flags_def fun_eq_iff)
  have "length ds = card (set ds)" using n(2) by (simp add: distinct_card)
  also have "\<dots> \<le> card (node_set k)"
  proof (rule card_mono)
    show "finite (node_set k)" by (simp add: node_set_def)
    show "set ds \<subseteq> node_set k" using n(4) by auto
  qed
  also have "\<dots> = length (nodes k)" using distinct_card [OF distinct_nodes [OF layout_okD(1) [OF n(1)]]] by (simp add: nodes_set)
  finally have fuel: "length ds < length (nodes k) + 1" by simp
  obtain u where "undoLoop (length (nodes k) + 1) e (hd (ds @ [e_w e])) k1 = Inr u" "unchaining k e ds (restored L k e ds) u"
    using undoLoop_ok [OF N w _ U fuel] by (auto simp: restored_def)
  moreover have "node (hd ds) k = Some nd" using nd(1) by (simp add: node_def abs_nodes_def)
  ultimately show ?thesis using nd(2) k1(1) ce(1) by (auto simp: undoChain_def dummyOf_def)
qed

lemma unchained_normalized:
  assumes N: "normalized rk L V D ((e, ds) # cs) k" and U: "unchaining k e ds lab u"
  shows "normalized rk L V (insert e D) cs u"
proof -
  note n = normalizedD [OF N] and U' = unchainingD [OF U]
  have dist: "set ds \<inter> set (dummies cs) = {}" "set ds \<inter> V = {}" "distinct (dummies cs)" using n(2,3) by auto
  have free: "e_v x \<notin> set ds \<and> e_w x \<notin> set ds" if "x \<in> D \<or> (\<exists>p \<in> set cs. x \<in> chainLinks p)" for x
  proof -
    have "e_v x \<in> V \<union> set (dummies cs) \<and> e_w x \<in> V \<union> set (dummies cs)"
      using that
    proof
      assume "\<exists>p \<in> set cs. x \<in> chainLinks p"
      then obtain e' ds' where p: "(e', ds') \<in> set cs" "x \<in> set (pathLinks (e_name e') (e_v e') (ds' @ [e_w e']))"
        by (auto simp: chainLinks_def)
      have "e_v e' \<in> V" "e_w e' \<in> V" using n(7) [of e' ds'] p(1) by auto
      with pathLinks_ends [OF p(2)] dummies_mem [OF p(1)] show ?thesis by auto
    qed (use n(5) in auto)
    with dist show ?thesis by auto
  qed
  have own: "e_v x \<in> set ds \<or> e_w x \<in> set ds" if "x \<in> chainLinks (e, ds)" for x
    using that pathLinks_dummy n(7) [of e ds] by (auto simp: chainLinks_def)
  show ?thesis
    unfolding normalized_def
  proof (intro conjI)
    have "node_set u = node_set k - set ds" unfolding node_set_abs U'(3) by (auto split: if_splits)
    with n(4) dist show "node_set u = V \<union> set (dummies cs)" by auto
    show "\<forall>x\<in>insert e D. e_v x \<in> V \<and> e_w x \<in> V" using n(5) n(7) [of e ds] by auto
    show "dom (abs_edges u) = insert e D \<union> (\<Union>p\<in>set cs. chainLinks p)"
    proof -
      have "dom (abs_edges u) = insert e {x \<in> dom (abs_edges k). e_v x \<notin> set ds \<and> e_w x \<notin> set ds}"
        unfolding U'(4) by (auto split: if_splits)
      also have "{x \<in> dom (abs_edges k). e_v x \<notin> set ds \<and> e_w x \<notin> set ds} = D \<union> (\<Union>p\<in>set cs. chainLinks p)"
        using n(6) free own by auto
      finally show ?thesis by simp
    qed
    show "\<forall>(e', ds') \<in> set cs. ds' \<noteq> [] \<and> clean_edge e' \<and> e_v e' \<in> V \<and> e_w e' \<in> V \<and>
       (\<forall>i < length ds'. \<exists>n. abs_nodes u (ds' ! i) = Some (Some n) \<and> dummyOf L e' (rk (e_v e') + 1 + int i) n)"
    proof clarify
      fix e' ds' assume p: "(e', ds') \<in> set cs"
      have "abs_nodes u (ds' ! i) = abs_nodes k (ds' ! i)" if "i < length ds'" for i
        using dummies_mem [OF p] dist(1) nth_mem [OF that] U'(3) by auto
      with n(7) [of e' ds'] n(8) [of e' ds'] p show "ds' \<noteq> [] \<and> clean_edge e' \<and> e_v e' \<in> V \<and> e_w e' \<in> V \<and>
        (\<forall>i < length ds'. \<exists>n. abs_nodes u (ds' ! i) = Some (Some n) \<and> dummyOf L e' (rk (e_v e') + 1 + int i) n)" by simp
    qed
  qed (use U'(1) dist n(3) in auto)
qed

lemma restored_cong: "(\<And>d. d \<in> set ds \<Longrightarrow> abs_nodes u d = abs_nodes k d) \<Longrightarrow> restored L u e ds = restored L k e ds"
  unfolding restored_def by (rule fold_cong) (auto simp: node_def abs_nodes_def)

section \<open>Undoing all chains\<close>

lemma undo_chains:
  "normalized rk L V D cs k \<Longrightarrow> distinct (map fst cs) \<Longrightarrow> fst ` set cs \<inter> D = {} \<Longrightarrow>
   (\<And>e. e \<in> fst ` set cs \<Longrightarrow> \<exists>n. abs_nodes k (e_w e) = Some (Some n) \<and> n_dummy n \<in> {None, Some []}) \<Longrightarrow>
   \<exists>u. rfold undoChain (map (hd \<circ> snd) cs) k = Inr u \<and> layout_ok u \<and> abs_nodes u = abs_nodes k |` V \<and>
     abs_edges u = (\<lambda>x. if x \<in> D then abs_edges k x
       else case map_of cs x of Some ds \<Rightarrow> Some (Some (restored L k x ds)) | None \<Rightarrow> None)"
proof (induction cs arbitrary: D k)
  case Nil
  note n = normalizedD [OF Nil.prems(1)]
  have "abs_nodes k = abs_nodes k |` V" using n(4) by (auto simp: restrict_map_def fun_eq_iff node_set_abs domIff)
  moreover have "abs_edges k = (\<lambda>x. if x \<in> D then abs_edges k x
      else case map_of [] x of Some ds \<Rightarrow> Some (Some (restored L k x ds)) | None \<Rightarrow> None)"
    using n(6) by (auto simp: fun_eq_iff)
  ultimately show ?case using n(1) by auto
next
  case (Cons p cs)
  obtain e ds where p: "p = (e, ds)" by fastforce
  have N: "normalized rk L V D ((e, ds) # cs) k" using Cons.prems(1) p by simp
  note n = normalizedD [OF N]
  have "\<exists>n. abs_nodes k (e_w e) = Some (Some n) \<and> n_dummy n \<in> {None, Some []}" using Cons.prems(4) p by simp
  from undoChain_ok [OF N this] obtain k' where k': "undoChain (hd ds) k = Inr k'" "unchaining k e ds (restored L k e ds) k'" by blast
  note U = unchainingD [OF k'(2)]
  have keep: "abs_nodes k' x = abs_nodes k x" if "x \<in> V \<union> set (dummies cs)" for x
    using that n(2,3) U(3) by auto
  have new: "e \<notin> fst ` set cs" "e \<notin> D" using Cons.prems(2,3) p by auto
  obtain u where u: "rfold undoChain (map (hd \<circ> snd) cs) k' = Inr u" "layout_ok u" "abs_nodes u = abs_nodes k' |` V"
    "abs_edges u = (\<lambda>x. if x \<in> insert e D then abs_edges k' x
       else case map_of cs x of Some ds \<Rightarrow> Some (Some (restored L k' x ds)) | None \<Rightarrow> None)"
  proof -
    have "fst ` set cs \<inter> insert e D = {}" using Cons.prems(3) new p by auto
    moreover have "\<exists>n. abs_nodes k' (e_w a) = Some (Some n) \<and> n_dummy n \<in> {None, Some []}" if a: "a \<in> fst ` set cs" for a
    proof -
      obtain b where "(a, b) \<in> set cs" using a by auto
      then have "e_w a \<in> V" using n(7) [of a b] by simp
      with keep [of "e_w a"] Cons.prems(4) [of a] a show ?thesis by simp
    qed
    moreover have "distinct (map fst cs)" using Cons.prems(2) by simp
    ultimately show thesis using Cons.IH [OF unchained_normalized [OF N k'(2)]] that by blast
  qed
  have "abs_nodes u = abs_nodes k |` V" using u(3) keep by (auto simp: restrict_map_def fun_eq_iff)
  moreover have "abs_edges u x = (if x \<in> D then abs_edges k x
       else case map_of (p # cs) x of Some ds \<Rightarrow> Some (Some (restored L k x ds)) | None \<Rightarrow> None)" for x
  proof -
    consider "x = e" | "x \<noteq> e" "x \<in> D" | "x \<noteq> e" "x \<notin> D" by blast
    then show ?thesis
    proof cases
      case 2
      then have "e_v x \<notin> set ds" "e_w x \<notin> set ds" using n(3,5) by auto
      with 2 u(4) U(4) show ?thesis by simp
    next
      case 3
      have "restored L k' x ds' = restored L k x ds'" if "map_of cs x = Some ds'" for ds'
        using dummies_mem [OF map_of_SomeD [OF that]] by (intro restored_cong keep) auto
      with 3 u(4) p show ?thesis by (auto split: option.splits)
    qed (use u(4) U(4) new p in auto)
  qed
  then have "abs_edges u = (\<lambda>x. if x \<in> D then abs_edges k x
       else case map_of (p # cs) x of Some ds \<Rightarrow> Some (Some (restored L k x ds)) | None \<Rightarrow> None)" ..
  moreover have "rfold undoChain (map (hd \<circ> snd) (p # cs)) k = Inr u" using u(1) k'(1) p by simp
  ultimately show ?case using u(2) by blast
qed

section \<open>The round trip\<close>

lemma addPoint_points:
  "l_points l = Some ps \<Longrightarrow> l_points (fold (\<lambda>d. addPoint (f d)) ds l) = Some (ps @ map (\<lambda>d. (n_x (f d), n_y (f d))) ds)"
  by (induction ds arbitrary: l ps) (simp_all add: addPoint_def Let_def)

text \<open>What \<open>undo\<close> leaves of a label.\<close>

definition same_but_drawing :: "layoutEdge \<Rightarrow> layoutEdge \<Rightarrow> bool" where
  "same_but_drawing l l' \<longleftrightarrow> l'\<lparr>l_points := l_points l, l_xy := l_xy l, l_width := l_width l, l_height := l_height l\<rparr> = l"

lemma addPoint_same: "same_but_drawing l l' \<Longrightarrow> same_but_drawing l (addPoint n l')"
  by (cases l; cases l') (simp add: same_but_drawing_def addPoint_def Let_def)

lemma fold_addPoint_same: "same_but_drawing l l' \<Longrightarrow> same_but_drawing l (fold (\<lambda>d. addPoint (f d)) ds l')"
  by (induction ds arbitrary: l') (simp_all add: addPoint_same)

lemma restored_label:
  "l_points (restored L k e ds) = Some (map (\<lambda>d. (n_x (the (node d k)), n_y (the (node d k)))) ds)"
  "same_but_drawing (L e) (restored L k e ds)"
proof -
  show "l_points (restored L k e ds) = Some (map (\<lambda>d. (n_x (the (node d k)), n_y (the (node d k)))) ds)"
    using addPoint_points [of "(L e)\<lparr>l_points := Some []\<rparr>" "[]"] by (simp add: restored_def)
  have "same_but_drawing (L e) ((L e)\<lparr>l_points := Some []\<rparr>)" by (simp add: same_but_drawing_def)
  then show "same_but_drawing (L e) (restored L k e ds)" unfolding restored_def by (rule fold_addPoint_same)
qed

text \<open>The phases between \<open>run\<close> and \<open>undo\<close> that assign coordinates, sizes and orders.\<close>

definition repositioned :: "layoutGraph \<Rightarrow> layoutGraph \<Rightarrow> bool" where
  "repositioned h k \<longleftrightarrow> layout_ok k \<and> dom (abs_nodes k) = dom (abs_nodes h) \<and> dom (abs_edges k) = dom (abs_edges h) \<and>
     map_option g_dummyChains (graph k) = map_option g_dummyChains (graph h) \<and>
     (\<forall>v n. abs_nodes h v = Some (Some n) \<longrightarrow> (\<exists>n'. abs_nodes k v = Some (Some n') \<and> n_rank n' = n_rank n \<and>
        n_dummy n' = n_dummy n \<and> n_edgeObj n' = n_edgeObj n \<and> n_edgeLabel n' = n_edgeLabel n))"

lemma repositioned_normalized:
  assumes N: "normalized rk L V D cs h" and r: "repositioned h k"
  shows "normalized rk L V D cs k"
proof -
  note n = normalizedD [OF N]
  have k: "layout_ok k" "dom (abs_nodes k) = dom (abs_nodes h)" "dom (abs_edges k) = dom (abs_edges h)"
    and lab: "\<And>v n. abs_nodes h v = Some (Some n) \<Longrightarrow> \<exists>n'. abs_nodes k v = Some (Some n') \<and> n_rank n' = n_rank n \<and>
        n_dummy n' = n_dummy n \<and> n_edgeObj n' = n_edgeObj n \<and> n_edgeLabel n' = n_edgeLabel n"
    using r unfolding repositioned_def by blast+
  have "\<exists>n. abs_nodes k (ds ! i) = Some (Some n) \<and> dummyOf L e (rk (e_v e) + 1 + int i) n"
    if "(e, ds) \<in> set cs" "i < length ds" for e ds i
  proof -
    obtain m where "abs_nodes h (ds ! i) = Some (Some m)" "dummyOf L e (rk (e_v e) + 1 + int i) m" using n(8) [OF \<open>(e, ds) \<in> set cs\<close> \<open>i < length ds\<close>] by blast
    with lab [of "ds ! i" m] show ?thesis by (auto simp: dummyOf_def)
  qed
  then have "\<forall>(e, ds) \<in> set cs. ds \<noteq> [] \<and> clean_edge e \<and> e_v e \<in> V \<and> e_w e \<in> V \<and>
       (\<forall>i < length ds. \<exists>n. abs_nodes k (ds ! i) = Some (Some n) \<and> dummyOf L e (rk (e_v e) + 1 + int i) n)"
    using n(7) by blast
  then show ?thesis using n(1-6) k unfolding normalized_def node_set_abs by simp
qed

text \<open>What \<open>undo\<close> gives back of one edge.\<close>

definition edge_restored :: "(string \<Rightarrow> int) \<Rightarrow> layoutGraph \<Rightarrow> layoutGraph \<Rightarrow> layoutGraph \<Rightarrow> edgeObj \<Rightarrow> bool" where
  "edge_restored rk g k u e \<longleftrightarrow>
     (if long_edge rk e
      then \<exists>ds l. abs_edges u e = Some (Some l) \<and> same_but_drawing (labelOf g e) l \<and> distinct ds \<and> set ds \<inter> node_set g = {} \<and>
        int (length ds) = rk (e_w e) - rk (e_v e) - 1 \<and> (\<forall>i < length ds. ranked k (ds ! i) (rk (e_v e) + 1 + int i)) \<and>
        l_points l = Some (map (\<lambda>d. (n_x (the (node d k)), n_y (the (node d k)))) ds)
      else abs_edges u e = abs_edges k e)"

lemma chains_runD:
  assumes R: "run_ranked rk g" and C: "chains_run rk g gl (edges g) cs h"
  shows "normalized rk (labelOf g) (node_set g) (set (edges g) - fst ` set cs) cs h" "distinct (map fst cs)"
    "fst ` set cs = {e \<in> set (edges g). long_edge rk e}"
    "\<And>e ds. (e, ds) \<in> set cs \<Longrightarrow> int (length ds) = rk (e_w e) - rk (e_v e) - 1"
    "graph h = Some (gl\<lparr>g_dummyChains := Some (map (hd \<circ> snd) cs)\<rparr>)" "\<And>x. x \<in> node_set g \<Longrightarrow> abs_nodes h x = abs_nodes g x"
proof -
  have fs: "map fst cs = filter (long_edge rk) (edges g)" using C by (simp add: chains_run_def)
  have ok: "graph_ok g" using R by (simp add: run_ranked_def layout_ok_def)
  show "distinct (map fst cs)" unfolding fs using distinct_edges [OF ok] by simp
  show longs: "fst ` set cs = {e \<in> set (edges g). long_edge rk e}" using arg_cong [OF fs, of set] by simp
  show "int (length ds) = rk (e_w e) - rk (e_v e) - 1" if "(e, ds) \<in> set cs" for e ds
  proof -
    have "e \<in> set (edges g)" using that longs by force
    then show ?thesis using C R that unfolding chains_run_def run_ranked_def by fastforce
  qed
qed (use C in \<open>auto simp: chains_run_def\<close>)

lemma undo_restores:
  fixes g h k :: layoutGraph
  assumes R: "run_ranked rk g" and plain: "\<forall>v \<in> node_set g. \<exists>n. node v g = Some n \<and> n_dummy n = None"
    and C: "chains_run rk g gl (edges g) cs h" and k: "repositioned h k"
  shows "\<exists>u. normalize_undo k = Inr u \<and> layout_ok u \<and> abs_nodes u = abs_nodes k |` node_set g \<and> set (edges u) = set (edges g) \<and>
    (\<forall>e \<in> set (edges g). edge_restored rk g k u e)"
proof -
  have ok: "graph_ok g" using R by (simp add: run_ranked_def layout_ok_def)
  note r = chains_runD [OF R C]
  let ?D = "set (edges g) - fst ` set cs" let ?L = "labelOf g"
  note Nk = repositioned_normalized [OF r(1) k]
  note n = normalizedD [OF r(1)] and m = normalizedD [OF Nk]
  have w: "\<exists>n. abs_nodes k (e_w e) = Some (Some n) \<and> n_dummy n \<in> {None, Some []}" if "e \<in> fst ` set cs" for e
  proof -
    have "e_w e \<in> node_set g" using that r(3) edges_ends [OF ok] by auto
    then obtain p where "abs_nodes h (e_w e) = Some (Some p)" "n_dummy p = None"
      using plain r(6) by (metis abs_nodes_def node_get)
    with k show ?thesis unfolding repositioned_def by fastforce
  qed
  obtain u where u: "rfold undoChain (map (hd \<circ> snd) cs) k = Inr u" "layout_ok u" "abs_nodes u = abs_nodes k |` node_set g"
    "abs_edges u = (\<lambda>x. if x \<in> ?D then abs_edges k x
       else case map_of cs x of Some ds \<Rightarrow> Some (Some (restored ?L k x ds)) | None \<Rightarrow> None)"
    using undo_chains [OF Nk r(2) _ w] by auto
  obtain kl where "graph k = Some kl" "g_dummyChains kl = Some (map (hd \<circ> snd) cs)"
    using k r(5) by (auto simp: repositioned_def)
  with u(1) have undo: "normalize_undo k = Inr u" by (simp add: normalize_undo_def)
  have long_e: "\<exists>ds. (e, ds) \<in> set cs \<and> abs_edges u e = Some (Some (restored ?L k e ds))" if e: "e \<in> set (edges g)" "long_edge rk e" for e
  proof -
    have "e \<in> fst ` set cs" using e r(3) by auto
    then obtain ds where ds: "(e, ds) \<in> set cs" by auto
    with r(2) have "map_of cs e = Some ds" by simp
    with ds \<open>e \<in> fst ` set cs\<close> u(4) show ?thesis by auto
  qed
  have short_e: "abs_edges u e = abs_edges k e \<and> e \<in> dom (abs_edges k)" if "e \<in> set (edges g)" "\<not> long_edge rk e" for e
    using that r(3) u(4) m(6) by auto
  have "dom (abs_edges u) = set (edges g)"
  proof (intro equalityI subsetI)
    fix x assume "x \<in> dom (abs_edges u)"
    then show "x \<in> set (edges g)" using u(4) r(3) by (force split: if_splits option.splits dest: map_of_SomeD)
  next
    fix x assume x: "x \<in> set (edges g)"
    then show "x \<in> dom (abs_edges u)" using long_e [OF x] short_e [OF x] by (cases "long_edge rk x") auto
  qed
  moreover have "edge_restored rk g k u e" if e: "e \<in> set (edges g)" for e
  proof (cases "long_edge rk e")
    case True
    obtain ds where ds: "(e, ds) \<in> set cs" "abs_edges u e = Some (Some (restored ?L k e ds))" using long_e [OF e True] by blast
    have "distinct ds" "set ds \<inter> node_set g = {}" using n(2,3) ds(1) dummies_mem [OF ds(1)] by (auto simp: dummies_def distinct_concat_iff)
    moreover have "\<forall>i < length ds. ranked k (ds ! i) (rk (e_v e) + 1 + int i)" using m(8) [OF ds(1)] by (auto simp: ranked_def dummyOf_def)
    ultimately show ?thesis unfolding edge_restored_def using True ds restored_label r(4) [OF ds(1)] by auto
  qed (use short_e [OF e] in \<open>simp add: edge_restored_def\<close>)
  ultimately show ?thesis using undo u(2,3) dom_abs_edges [OF layout_okD(1) [OF u(2)]] by auto
qed

text \<open>C35. On a graph whose ranks increase along the edges, \<open>normalize.run\<close> returns a graph in which every edge joins
  neighbouring ranks and all nodes are as before. Whatever coordinates, sizes and orders the nodes get then,
  \<open>normalize.undo\<close> returns the nodes and exactly the edges there were before \<open>run\<close>: an edge that spanned one rank as it
  is, a longer one with its own label again, and with the coordinates of its dummies, one for each rank between its
  ends, as its points.\<close>

theorem normalize_round_trip:
  fixes g :: layoutGraph
  assumes R: "run_ranked rk g" and plain: "\<forall>v \<in> node_set g. \<exists>n. node v g = Some n \<and> n_dummy n = None"
  shows "\<exists>h c'. normalize_run c g = Inr (h, c') \<and> layout_ok h \<and> (\<forall>v \<in> node_set g. abs_nodes h v = abs_nodes g v) \<and>
    (\<forall>x \<in> set (edges h). \<exists>r. ranked h (e_v x) r \<and> ranked h (e_w x) (r + 1)) \<and>
    (\<forall>k. repositioned h k \<longrightarrow> (\<exists>u. normalize_undo k = Inr u \<and> layout_ok u \<and> abs_nodes u = abs_nodes k |` node_set g \<and>
       set (edges u) = set (edges g) \<and> (\<forall>e \<in> set (edges g). edge_restored rk g k u e)))"
proof -
  obtain gl cs h c' where run: "normalize_run c g = Inr (h, c')" "chains_run rk g gl (edges g) cs h" using run_chains [OF R] by blast
  note r = chains_runD [OF R run(2)]
  have ok: "layout_ok h" by (rule normalizedD(1) [OF r(1)])
  have rk: "ranked h v (rk v)" if "v \<in> node_set g" for v using R r(6) [OF that] that by (simp add: run_ranked_def ranked_def)
  have "\<forall>x \<in> set (edges h). \<exists>r. ranked h (e_v x) r \<and> ranked h (e_w x) (r + 1)"
    using one_rank [OF r(1) rk _ r(4)] r(3) dom_abs_edges [OF layout_okD(1) [OF ok]] by auto
  with run(1) ok r(6) undo_restores [OF R plain run(2)] show ?thesis by blast
qed

text \<open>An edge over two ranks.\<close>

definition exampleLong :: "layoutGraph result" where
  "exampleLong =
     rbind (setNode ''a'' (Some (Some exampleNode)) (setGraph (Some exampleLabel) (newGraph None (Some True) None))) (\<lambda>g.
     rbind (setNode ''b'' (Some (Some (exampleNode\<lparr>n_rank := Some 2\<rparr>))) g) (\<lambda>g1.
       setEdge ''a'' ''b'' (Some (Some exampleEdge)) None g1))"

lemma exampleLong_ok:
  "\<exists>g. exampleLong = Inr g \<and> run_ranked (\<lambda>v. if v = ''b'' then 2 else 0) g \<and> (\<forall>v \<in> node_set g. \<exists>n. node v g = Some n \<and> n_dummy n = None)"
proof -
  let ?g0 = "setGraph (Some exampleLabel) (newGraph None (Some True) None) :: layoutGraph" and ?b = "exampleNode\<lparr>n_rank := Some 2\<rparr>"
  have "graph_ok (newGraph None (Some True) None :: layoutGraph)" by (rule graph_ok_new)
  then have ok0: "layout_ok ?g0" and f0: "abs_edges ?g0 = Map.empty" "abs_nodes ?g0 = Map.empty" "f_label ?g0 = Some exampleLabel"
    by (auto simp: layout_ok_def setGraph_def newGraph_def graph_ok_def tables_ok_def node_set_def clean_graph_def edges_def
        abs_edges_def abs_nodes_def fun_eq_iff)
  have na: "''a'' \<noteq> GRAPH_NODE" "''b'' \<noteq> GRAPH_NODE" by (simp_all add: GRAPH_NODE_def)
  obtain g1 where g1: "setNode ''a'' (Some (Some exampleNode)) ?g0 = Inr g1" "layout_ok g1" "same_flags ?g0 g1"
    "abs_nodes g1 = [''a'' \<mapsto> Some exampleNode]" "abs_edges g1 = Map.empty"
    using layout_setNode [OF ok0 na(1), of "Some exampleNode"] f0 by auto
  obtain g2 where g2: "setNode ''b'' (Some (Some ?b)) g1 = Inr g2" "layout_ok g2" "same_flags g1 g2"
    "abs_nodes g2 = [''a'' \<mapsto> Some exampleNode, ''b'' \<mapsto> Some ?b]" "abs_edges g2 = Map.empty"
    using layout_setNode [OF g1(2) na(2), of "Some ?b"] g1(4,5) by auto
  let ?x = "\<lparr>e_v = ''a'', e_w = ''b'', e_name = None\<rparr> :: edgeObj"
  have x: "clean_edge ?x" "e_v ?x \<in> node_set g2" "e_w ?x \<in> node_set g2"
    using g2(4) by (auto simp: clean_edge_def clean_def clean_name_def node_set_abs)
  obtain g where g: "setEdge ''a'' ''b'' (Some (Some exampleEdge)) None g2 = Inr g" "layout_ok g" "same_flags g2 g"
    "abs_nodes g = [''a'' \<mapsto> Some exampleNode, ''b'' \<mapsto> Some ?b]" "abs_edges g = [?x \<mapsto> Some exampleEdge]"
    using layout_setEdge [OF g2(2) x, of "Some exampleEdge"] g2(4,5) by auto
  have gr: "graph g = Some exampleLabel" using g(3) g2(3) g1(3) f0(3) by (simp add: graph_def same_flags_def)
  have E: "set (edges g) = {?x}" using dom_abs_edges [OF layout_okD(1) [OF g(2)]] g(5) by simp
  have "edgeOfObj ?x g = Some exampleEdge" using abs_edge_label [OF layout_okD(1) [OF g(2)], of ?x] E g(5) by simp
  then have "run_ranked (\<lambda>v. if v = ''b'' then 2 else 0) g"
    using g(2,4) gr E by (auto simp: run_ranked_def ranked_def node_set_abs exampleNode_def plainNode_def)
  moreover have "\<forall>v \<in> node_set g. \<exists>n. node v g = Some n \<and> n_dummy n = None"
  proof
    fix v assume "v \<in> node_set g"
    then have "v = ''a'' \<or> v = ''b''" using g(4) by (auto simp: node_set_abs split: if_splits)
    then have "abs_nodes g v = Some (Some exampleNode) \<or> abs_nodes g v = Some (Some ?b)" using g(4) by auto
    then show "\<exists>n. node v g = Some n \<and> n_dummy n = None" by (auto simp: node_def abs_nodes_def exampleNode_def plainNode_def)
  qed
  ultimately show ?thesis using g1(1) g2(1) g(1) by (auto simp: exampleLong_def)
qed

theorem normalize_round_trip_witness:
  "\<exists>g h c'. exampleLong = Inr g \<and> normalize_run 0 g = Inr (h, c') \<and> layout_ok h \<and>
     (\<forall>x \<in> set (edges h). \<exists>r. ranked h (e_v x) r \<and> ranked h (e_w x) (r + 1))"
proof -
  obtain g where g: "exampleLong = Inr g" "run_ranked (\<lambda>v. if v = ''b'' then 2 else 0) g"
    "\<forall>v \<in> node_set g. \<exists>n. node v g = Some n \<and> n_dummy n = None" using exampleLong_ok by blast
  from normalize_round_trip [OF g(2,3), of 0] g(1) show ?thesis by blast
qed

end
