(* ===== verification/Dagre_Order.thy ===== *)
theory Dagre_Order
  imports Dagre_Crossing Dagre_Subgraph Dagre_Layers Dagre_Normalize
begin

text \<open>
  The ordering phase (\<open>lib/order/index\<close>, \<open>lib/order/build-layer-graph\<close>, \<open>lib/order/add-subgraph-constraints\<close>): after the first
  order, sweeps over the layers up and down sort each layer by the positions in the layer before, and the order with the
  fewest crossings is kept. The labels of a layer graph are the objects of the layout graph: sorting reads the orders that
  are in the layout graph at that time. The theorem: on a graph without subgraphs the sweeps end, and the nodes of every
  rank have the orders from 0 to their number.
\<close>

section \<open>Layer graphs\<close>

text \<open>The label that \<open>setDefaultNodeLabel(v => g.node(v))\<close> gives, and the current one.\<close>

definition sharedLabel :: "layoutGraph \<Rightarrow> string \<Rightarrow> layerLabel option" where
  "sharedLabel g v = map_option (\<lambda>n. \<lparr>y_order = n_order n, y_border = None, y_shared = True\<rparr>) (node v g)"

definition currentLabels :: "layoutGraph \<Rightarrow> layerGraph \<Rightarrow> layerGraph" where
  "currentLabels g lg =
     lg\<lparr>f_nodes := map (\<lambda>(v, l). (v, case l of Some l \<Rightarrow> if y_shared l then sharedLabel g v else Some l | None \<Rightarrow> None)) (f_nodes lg)\<rparr>"

definition createRootNode :: "layoutGraph \<Rightarrow> nat \<Rightarrow> (string \<times> nat) result" where
  "createRootNode g c = freshId (length (nodes g) + 1) ''_root'' g c"

text \<open>\<open>parent || rt\<close>.\<close>

definition parentOrRoot :: "string option \<Rightarrow> string \<Rightarrow> string" where
  "parentOrRoot p rt = (case p of Some q \<Rightarrow> if q \<noteq> [] then q else rt | None \<Rightarrow> rt)"

definition inRank :: "int \<Rightarrow> layoutNode \<Rightarrow> bool" where
  "inRank rank n \<longleftrightarrow> n_rank n = Some rank \<or>
     (case (n_minRank n, n_maxRank n) of (Some a, Some b) \<Rightarrow> a \<le> rank \<and> rank \<le> b | _ \<Rightarrow> False)"

definition related :: "string \<Rightarrow> string \<Rightarrow> layoutGraph \<Rightarrow> edgeObj list option" where
  "related relationship v g = (if relationship = ''inEdges'' then inEdges v None g else outEdges v None g)"

definition layerEdge :: "layoutGraph \<Rightarrow> string \<Rightarrow> edgeObj \<Rightarrow> layerGraph \<Rightarrow> layerGraph result" where
  "layerEdge g v e lg =
     (let u = (if e_v e = v then e_w e else e_v e);
          weight = (case edge u v None lg of Some w \<Rightarrow> w | None \<Rightarrow> 0)
      in rbind (deref (edgeOfObj e g)) (\<lambda>l. setEdge u v (Some (Some (l_weight l + weight))) None lg))"

text \<open>\<open>node.borderLeft[rank]\<close>.\<close>

definition borderAt :: "int \<Rightarrow> string option list option \<Rightarrow> string option result" where
  "borderAt rank row =
     rbind (deref row) (\<lambda>row. Inr (if 0 \<le> rank \<and> rank < int (length row) then row ! nat rank else None))"

definition layerBorders :: "int \<Rightarrow> string \<Rightarrow> layoutNode \<Rightarrow> layerGraph \<Rightarrow> layerGraph result" where
  "layerBorders rank v n lg =
     (if n_minRank n = None then Inr lg
      else rbind (borderAt rank (n_borderLeft n)) (\<lambda>bl.
           rbind (borderAt rank (n_borderRight n)) (\<lambda>br.
             setNode v (Some (Some \<lparr>y_order = None, y_border = (case (bl, br) of (Some a, Some b) \<Rightarrow> Some (a, b) | _ \<Rightarrow> None),
                                     y_shared = False\<rparr>)) lg)))"

definition layerNode :: "layoutGraph \<Rightarrow> int \<Rightarrow> string \<Rightarrow> string \<Rightarrow> string \<Rightarrow> layerGraph \<Rightarrow> layerGraph result" where
  "layerNode g rank relationship rt v lg =
     rbind (deref (node v g)) (\<lambda>n.
       if inRank rank n then
         rbind (setNode v None lg) (\<lambda>lg1.
         rbind (setParent v (Some (parentOrRoot (parent v g) rt)) lg1) (\<lambda>lg2.
         rbind (rfold (layerEdge g v) (each (related relationship v g)) lg2) (layerBorders rank v n)))
       else Inr lg)"

definition buildLayerGraph :: "layoutGraph \<Rightarrow> string \<Rightarrow> int \<Rightarrow> nat \<Rightarrow> (layerGraph \<times> nat) result" where
  "buildLayerGraph g relationship rank c =
     rbind (createRootNode g c) (\<lambda>(rt, c').
       let result = setDefaultNodeLabel (Inr (sharedLabel g)) (setGraph (Some rt) (newGraph None None (Some True)))
       in rbind (rfold (layerNode g rank relationship rt) (nodes g) result) (\<lambda>lg. Inr (lg, c')))"

definition buildLayerGraphs :: "layoutGraph \<Rightarrow> int list \<Rightarrow> string \<Rightarrow> nat \<Rightarrow> (layerGraph list \<times> nat) result" where
  "buildLayerGraphs g ranks relationship c =
     rfold (\<lambda>rank (lgs, c). rbind (buildLayerGraph g relationship rank c) (\<lambda>(lg, c'). Inr (lgs @ [lg], c'))) ranks ([], c)"

section \<open>Constraints\<close>

type_synonym constraintGraph = "(unit, unit, unit) Graph"
type_synonym constraintState = "string obj \<times> string option \<times> constraintGraph"

text \<open>The \<open>while\<close> loop over the ancestors; the first argument bounds its turns. The state is \<open>prev\<close>, \<open>rootPrev\<close> and \<open>cg\<close>.\<close>

fun constraintLoop :: "nat \<Rightarrow> layerGraph \<Rightarrow> string option \<Rightarrow> constraintState \<Rightarrow> constraintState result" where
  "constraintLoop 0 lg child st = Inl Diverges"
| "constraintLoop (Suc n) lg child st =
     (case st of (prev, rootPrev, cg) \<Rightarrow>
      case child of
        None \<Rightarrow> Inr st
      | Some c \<Rightarrow>
          if c = [] then Inr st
          else
            let par = parent c lg; deep = (par \<noteq> None \<and> par \<noteq> Some []);
                prevChild = (if deep then get prev (the par) else rootPrev);
                prev' = (if deep then put (the par) c prev else prev);
                rootPrev' = (if deep then rootPrev else Some c)
            in if prevChild \<noteq> None \<and> prevChild \<noteq> Some [] \<and> prevChild \<noteq> Some c
               then rbind (setEdge (the prevChild) c None None cg) (\<lambda>cg'. Inr (prev', rootPrev', cg'))
               else constraintLoop n lg par (prev', rootPrev', cg))"

definition addSubgraphConstraints :: "layerGraph \<Rightarrow> constraintGraph \<Rightarrow> string list \<Rightarrow> constraintGraph result" where
  "addSubgraphConstraints lg cg vs =
     rbind (rfold (\<lambda>v. constraintLoop (length (nodes lg) + 1) lg (parent v lg)) vs ([], None, cg)) (\<lambda>(_, _, cg'). Inr cg')"

section \<open>Sweeps\<close>

text \<open>\<open>lg.node(v).order = i\<close>.\<close>

definition setLayerOrder :: "string \<times> nat \<Rightarrow> layoutGraph \<times> layerGraph \<Rightarrow> (layoutGraph \<times> layerGraph) result" where
  "setLayerOrder p s =
     (case (p, s) of ((v, i), (g, lg)) \<Rightarrow>
      rbind (deref (node v lg)) (\<lambda>l.
        if y_shared l then rbind (mutNode (\<lambda>n. n\<lparr>n_order := Some (int i)\<rparr>) v g) (\<lambda>g'. Inr (g', lg))
        else rbind (mutNode (\<lambda>l. l\<lparr>y_order := Some (int i)\<rparr>) v lg) (\<lambda>lg'. Inr (g, lg'))))"

definition sweepLayer :: "bool \<Rightarrow> layerGraph \<Rightarrow> layoutGraph \<times> layerGraph list \<times> constraintGraph \<Rightarrow>
    (layoutGraph \<times> layerGraph list \<times> constraintGraph) result" where
  "sweepLayer biasRight lg s =
     (case s of (g, lgs, cg) \<Rightarrow>
      rbind (deref (graph lg)) (\<lambda>rt.
      rbind (sortSubgraph (currentLabels g lg) rt cg biasRight) (\<lambda>sorted.
      rbind (rfold setLayerOrder (zip (r_vs sorted) [0..<length (r_vs sorted)]) (g, lg)) (\<lambda>(g', lg').
      rbind (addSubgraphConstraints lg' cg (r_vs sorted)) (\<lambda>cg'.
        Inr (g', lgs @ [lg'], cg'))))))"

definition sweepLayerGraphs :: "layerGraph list \<Rightarrow> bool \<Rightarrow> layoutGraph \<Rightarrow> (layoutGraph \<times> layerGraph list) result" where
  "sweepLayerGraphs lgs biasRight g =
     rbind (rfold (sweepLayer biasRight) lgs (g, [], newGraph None None None)) (\<lambda>(g', lgs', _). Inr (g', lgs'))"

section \<open>The ordering\<close>

text \<open>\<open>_.range(1, maxRank + 1)\<close> counts down when its end is smaller, and treats \<open>NaN\<close> as 0; \<open>_.range(maxRank - 1, -1, -1)\<close>.\<close>

definition downRanks :: "int option \<Rightarrow> int list" where
  "downRanks mx =
     (let n = (case mx of Some m \<Rightarrow> m + 1 | None \<Rightarrow> 0) in if 1 \<le> n then [1..n - 1] else rev [n + 1..1])"

definition upRanks :: "int option \<Rightarrow> int list" where
  "upRanks mx = rev [0..(case mx of Some m \<Rightarrow> m - 1 | None \<Rightarrow> 0)]"

text \<open>A hole of an array is \<open>undefined\<close>, as a property key the string.\<close>

definition keyOf :: "string option \<Rightarrow> string" where
  "keyOf x = (case x of Some v \<Rightarrow> v | None \<Rightarrow> ''undefined'')"

text \<open>The \<open>for\<close> loop; the first argument bounds its turns. The best order so far comes with its crossings.\<close>

fun orderLoop :: "nat \<Rightarrow> nat \<Rightarrow> nat \<Rightarrow> (string list list \<times> int) option \<Rightarrow> layoutGraph \<times> layerGraph list \<times> layerGraph list \<Rightarrow>
    (layoutGraph \<times> (string list list \<times> int) option) result" where
  "orderLoop 0 i lastBest best s = Inl Diverges"
| "orderLoop (Suc n) i lastBest best s =
     (case s of (g, downs, ups) \<Rightarrow>
      if lastBest < 4 then
        rbind (sweepLayerGraphs (if i mod 2 = 1 then downs else ups) (i mod 4 \<ge> 2) g) (\<lambda>(g', lgs).
        rbind (buildLayerMatrix g') (\<lambda>matrix.
        let layering = map (map keyOf) matrix; s' = (if i mod 2 = 1 then (g', lgs, ups) else (g', downs, lgs)) in
        rbind (crossCount g' layering) (\<lambda>cc.
          if best = None \<or> cc < snd (the best)
          then orderLoop n (i + 1) 1 (Some (layering, cc)) s'
          else orderLoop n (i + 1) (lastBest + 1) best s')))
      else Inr (g, best))"

text \<open>A bound for the number of sweeps: at least one of four successive sweeps lowers the number of crossings, which the weights bound.\<close>

definition totalWeight :: "layoutGraph \<Rightarrow> nat" where
  "totalWeight g = (\<Sum>e \<leftarrow> edges g. nat \<bar>weight g e\<bar>)"

definition sweepBound :: "layoutGraph \<Rightarrow> int option \<Rightarrow> nat" where
  "sweepBound g mx = 8 * ((case mx of Some m \<Rightarrow> nat (m + 1) | None \<Rightarrow> 0) * totalWeight g ^ 2) + 9"

definition order :: "layoutGraph \<times> nat \<Rightarrow> (layoutGraph \<times> nat) result" where
  "order s =
     (case s of (g, c) \<Rightarrow>
      rbind (maxRank g) (\<lambda>mx.
      rbind (buildLayerGraphs g (downRanks mx) ''inEdges'' c) (\<lambda>(downs, c1).
      rbind (buildLayerGraphs g (upRanks mx) ''outEdges'' c1) (\<lambda>(ups, c2).
      rbind (initOrder g) (\<lambda>layering.
      rbind (assignOrder layering g) (\<lambda>g1.
      rbind (orderLoop (sweepBound g mx) 0 0 None (g1, downs, ups)) (\<lambda>(g2, best).
      rbind (assignOrder (case best of Some (b, _) \<Rightarrow> b | None \<Rightarrow> []) g2) (\<lambda>g3. Inr (g3, c2)))))))))"

section \<open>Layer graphs of a graph without subgraphs\<close>

text \<open>What the ordering relies on: every node is at the top level and has a rank from 0 upwards, every edge has a label.\<close>

definition flat_graph :: "layoutGraph \<Rightarrow> bool" where
  "flat_graph g \<longleftrightarrow> graph_ok g \<and> clean_graph g \<and> GRAPH_NODE \<notin> node_set g \<and>
     (\<forall>v \<in> node_set g. parent v g = None \<and> (\<exists>l r. node v g = Some l \<and> n_rank l = Some (int r) \<and> n_minRank l = None)) \<and>
     (\<forall>e \<in> set (edges g). edgeOfObj e g \<noteq> None)"

lemma flat_graphD:
  assumes "flat_graph g"
  shows "graph_ok g" "clean_graph g" "GRAPH_NODE \<notin> node_set g" "\<And>v. v \<in> node_set g \<Longrightarrow> parent v g = None"
    "\<And>v. v \<in> node_set g \<Longrightarrow> \<exists>l r. node v g = Some l \<and> n_rank l = Some (int r) \<and> n_minRank l = None"
    "\<And>e. e \<in> set (edges g) \<Longrightarrow> edgeOfObj e g \<noteq> None"
  using assms unfolding flat_graph_def by blast+

text \<open>\<open>rt\<close> is the root of the layer and \<open>Y\<close> are the nodes that have been added to it.\<close>

definition layer_inv :: "layoutGraph \<Rightarrow> string \<Rightarrow> string set \<Rightarrow> layerGraph \<Rightarrow> bool" where
  "layer_inv g rt Y lg \<longleftrightarrow> graph_ok lg \<and> clean_graph lg \<and> f_isCompound lg \<and> f_label lg = Some rt \<and>
     f_defaultNodeLabelFn lg = sharedLabel g \<and> Y \<subseteq> node_set lg \<inter> node_set g \<and> node_set lg \<subseteq> insert rt (node_set g) \<and>
     (\<forall>x \<in> node_set lg. node x lg = sharedLabel g x \<and> get (f_parent lg) x = Some (if x \<in> Y then rt else GRAPH_NODE)) \<and>
     (\<forall>e \<in> set (edges lg). edgeOfObj e lg \<noteq> None \<and> e_v e \<in> node_set g \<and> e_w e \<in> node_set g)"

lemma layer_invD:
  assumes "layer_inv g rt Y lg"
  shows "graph_ok lg" "clean_graph lg" "f_isCompound lg" "f_label lg = Some rt" "f_defaultNodeLabelFn lg = sharedLabel g"
    "Y \<subseteq> node_set lg \<inter> node_set g" "node_set lg \<subseteq> insert rt (node_set g)"
    "\<And>x. x \<in> node_set lg \<Longrightarrow> node x lg = sharedLabel g x" 
    "\<And>x. x \<in> node_set lg \<Longrightarrow> get (f_parent lg) x = Some (if x \<in> Y then rt else GRAPH_NODE)"
    "\<And>e. e \<in> set (edges lg) \<Longrightarrow> edgeOfObj e lg \<noteq> None \<and> e_v e \<in> node_set g \<and> e_w e \<in> node_set g"
  using assms unfolding layer_inv_def by blast+

lemma edgeOfObj_abs: "graph_ok g \<Longrightarrow> e \<in> set (edges g) \<Longrightarrow> edgeOfObj e g = (case abs_edges g e of Some x \<Rightarrow> x | None \<Rightarrow> None)"
  by (simp add: edgeOfObj_def abs_edges_def)

text \<open>\<open>setEdge\<close> creates the missing end points as \<open>setNode\<close> does.\<close>

lemma setEdge_setNode:
  fixes g :: "('g, 'n, 'e) Graph"
  assumes ok: "graph_ok g" "clean_graph g" "clean u" "clean v" and v: "v \<in> node_set g" and u: "f_isCompound g \<longrightarrow> u \<noteq> GRAPH_NODE"
  shows "setEdge u v val None g = rbind (setNode u None g) (setEdge u v val None)"
proof (cases "u \<in> node_set g")
  case True
  then show ?thesis by (simp add: setNode_def has_iff node_set_def)
next
  case False
  obtain g1 where g1: "setNode u None g = Inr g1" "same_flags g g1" "f_edgeLabels g1 = f_edgeLabels g" "node_set g1 = insert u (node_set g)"
    using setNode_ok [OF ok(1) u, of None] setNode_node_set [OF ok(1), of u None] u by metis
  have "edgeArgsToObj (f_isDirected g) u v None \<notin> set (edges g)"
    using False edges_ends [OF ok(1), of "edgeArgsToObj (f_isDirected g) u v None"] by (auto simp: edgeArgsToObj_def split: if_splits)
  then have "\<not> hasEdge u v None g" using hasEdge_iff [OF ok(1,2,3,4)] by (simp add: clean_name_def)
  moreover have "setNode v None g1 = Inr g1" "setNode u None g1 = Inr g1" using v g1(4) by (simp_all add: setNode_def has_iff node_set_def)
  ultimately show ?thesis using g1(1-3) by (simp add: setEdge_def hasEdge_def same_flags_def)
qed

lemma layer_setNode:
  assumes inv: "layer_inv g rt Y lg" and v: "v \<in> insert rt (node_set g)" "v \<noteq> GRAPH_NODE"
  shows "\<exists>lg'. setNode v None lg = Inr lg' \<and> layer_inv g rt Y lg' \<and> node_set lg' = insert v (node_set lg)"
proof -
  note L = layer_invD [OF inv]
  have gn: "f_isCompound lg \<longrightarrow> v \<noteq> GRAPH_NODE" using v(2) by simp
  obtain lg' where lg': "setNode v None lg = Inr lg'" "graph_ok lg'" "same_flags lg lg'"
    "f_nodes lg' = (if v \<in> node_set lg then f_nodes lg else put v (f_defaultNodeLabelFn lg v) (f_nodes lg))"
    "f_edgeObjs lg' = f_edgeObjs lg" "f_edgeLabels lg' = f_edgeLabels lg"
    "f_parent lg' = (if v \<in> node_set lg \<or> \<not> f_isCompound lg then f_parent lg else put v GRAPH_NODE (f_parent lg))"
    using setNode_ok [OF L(1) gn, of None] by auto
  have ns: "node_set lg' = insert v (node_set lg)" using setNode_node_set [OF L(1) gn lg'(1)] .
  have es: "edges lg' = edges lg" "\<And>e. edgeOfObj e lg' = edgeOfObj e lg" "f_isCompound lg'" "f_label lg' = Some rt" "f_defaultNodeLabelFn lg' = sharedLabel g"
    using lg'(3,5,6) L(3-5) by (simp_all add: edges_def edgeOfObj_def same_flags_def)
  have "node x lg' = sharedLabel g x \<and> get (f_parent lg') x = Some (if x \<in> Y then rt else GRAPH_NODE)" if "x \<in> node_set lg'" for x
  proof (cases "v \<in> node_set lg")
    case True
    then show ?thesis using lg'(4,7) L(8,9) that ns by (auto simp: node_def)
  next
    case False
    then have "v \<notin> Y" using L(6) by blast
    then show ?thesis using False lg'(4,7) L(3,5) L(8) [of x] L(9) [of x] that ns by (auto simp: node_def)
  qed
  moreover have "clean_graph lg'" using L(2) es(1) by (simp add: clean_graph_def)
  ultimately have "layer_inv g rt Y lg'" unfolding layer_inv_def using lg'(2) es L(6,7,10) ns v(1) by auto
  then show ?thesis using lg'(1) ns by blast
qed

lemma layer_setEdge:
  assumes inv: "layer_inv g rt Y lg" and uv: "u \<in> node_set lg" "v \<in> node_set lg" "u \<in> node_set g" "v \<in> node_set g"
    and clean: "clean u" "clean v" and gn: "GRAPH_NODE \<notin> node_set g"
  shows "\<exists>lg'. setEdge u v (Some (Some w)) None lg = Inr lg' \<and> layer_inv g rt Y lg' \<and> node_set lg' = node_set lg"
proof -
  note L = layer_invD [OF inv]
  have ids: "f_isCompound lg \<longrightarrow> u \<noteq> GRAPH_NODE \<and> v \<noteq> GRAPH_NODE" "(None :: string option) \<noteq> None \<longrightarrow> f_isMultigraph lg"
    "(None :: string option) \<noteq> Some []" "clean_name None" using uv gn by (auto simp: clean_name_def)
  let ?eo = "edgeArgsToObj (f_isDirected lg) u v None"
  obtain lg' where lg': "setEdge u v (Some (Some w)) None lg = Inr lg'" "graph_ok lg'" "clean_graph lg'" "same_flags lg lg'"
    "abs_edges lg' = (abs_edges lg)(?eo \<mapsto> Some w)" "node_set lg' = node_set lg" "\<forall>x\<in>node_set lg. abs_nodes lg' x = abs_nodes lg x"
    using setEdge_refines [OF L(1,2) clean ids(4,1,2), of "Some (Some w)"] uv(1,2) by (auto simp: insert_absorb)
  have par: "get (f_parent lg') x = get (f_parent lg) x" if "x \<in> node_set lg" for x
    using setEdge_ok [OF L(1) ids(1,3,2), of "Some (Some w)"] lg'(1) that by auto
  have "e = ?eo \<or> e \<in> set (edges lg)" if "e \<in> set (edges lg')" for e
    using that lg'(5) dom_abs_edges [OF lg'(2)] dom_abs_edges [OF L(1)] by auto
  moreover have "e_v ?eo \<in> node_set g" "e_w ?eo \<in> node_set g" using uv(3,4) by (auto simp: edgeArgsToObj_def split: if_splits)
  ultimately have ends: "e_v e \<in> node_set g \<and> e_w e \<in> node_set g" if "e \<in> set (edges lg')" for e using that L(10) by auto
  have "edgeOfObj e lg' \<noteq> None" if e: "e \<in> set (edges lg')" for e
  proof (cases "e = ?eo")
    case True
    then show ?thesis using edgeOfObj_abs [OF lg'(2) e] lg'(5) by simp
  next
    case False
    then have "e \<in> set (edges lg)" using e lg'(5) dom_abs_edges [OF lg'(2)] dom_abs_edges [OF L(1)] by auto
    then show ?thesis using False L(10) edgeOfObj_abs [OF L(1)] edgeOfObj_abs [OF lg'(2) e] lg'(5) by auto
  qed
  with ends have edges: "\<forall>e \<in> set (edges lg'). edgeOfObj e lg' \<noteq> None \<and> e_v e \<in> node_set g \<and> e_w e \<in> node_set g" by blast
  have nodes: "node x lg' = sharedLabel g x \<and> get (f_parent lg') x = Some (if x \<in> Y then rt else GRAPH_NODE)" if "x \<in> node_set lg'" for x
  proof -
    have x: "x \<in> node_set lg" using that lg'(6) by simp
    have "node x lg' = node x lg" using lg'(7) x by (simp add: node_def abs_nodes_def)
    then show ?thesis using L(8,9) [OF x] par [OF x] by simp
  qed
  have "f_isCompound lg'" "f_label lg' = Some rt" "f_defaultNodeLabelFn lg' = sharedLabel g" using lg'(4) L(3-5) by (simp_all add: same_flags_def)
  then have "layer_inv g rt Y lg'" unfolding layer_inv_def using lg'(2,3,6) edges nodes L(6,7) by blast
  then show ?thesis using lg'(1,6) by blast
qed

lemma layerEdge_ok:
  assumes flat: "flat_graph g" and inv: "layer_inv g rt Y lg" and v: "v \<in> node_set lg"
    and e: "e \<in> set (edges g)" "e_v e = v \<or> e_w e = v"
  shows "\<exists>lg'. layerEdge g v e lg = Inr lg' \<and> layer_inv g rt Y lg' \<and> node_set lg \<subseteq> node_set lg'"
proof -
  note F = flat_graphD [OF flat] and L = layer_invD [OF inv]
  let ?u = "if e_v e = v then e_w e else e_v e"
  have uv: "?u \<in> node_set g" "v \<in> node_set g" using edges_ends [OF F(1) e(1)] e(2) by auto
  have cl: "clean ?u" "clean v" using F(2) e by (auto simp: clean_graph_def clean_edge_def)
  have ug: "?u \<noteq> GRAPH_NODE" using uv(1) F(3) by auto
  obtain lg1 where lg1: "setNode ?u None lg = Inr lg1" "layer_inv g rt Y lg1" "node_set lg1 = insert ?u (node_set lg)"
    using layer_setNode [OF inv _ ug] uv(1) by blast
  obtain l where l: "edgeOfObj e g = Some l" using F(6) [OF e(1)] by blast
  obtain lg2 where lg2: "setEdge ?u v (Some (Some (l_weight l + (case edge ?u v None lg of Some w \<Rightarrow> w | None \<Rightarrow> 0)))) None lg1 = Inr lg2"
    "layer_inv g rt Y lg2" "node_set lg2 = node_set lg1"
    using layer_setEdge [OF lg1(2) _ _ uv cl F(3)] lg1(3) v by blast
  have "layerEdge g v e lg = Inr lg2"
    using setEdge_setNode [OF L(1,2) cl v] ug lg1(1) lg2(1) l by (simp add: layerEdge_def Let_def)
  then show ?thesis using lg2(2,3) lg1(3) by auto
qed

lemma setParent_setNode:
  fixes g :: "('g, 'n, 'e) Graph"
  assumes ok: "graph_ok g" "f_isCompound g" and p: "p \<noteq> GRAPH_NODE" "v \<noteq> p"
  shows "setParent v (Some p) g = rbind (setNode p None g) (setParent v (Some p))"
proof (cases "p \<in> node_set g")
  case True
  then show ?thesis by (simp add: setNode_def has_iff node_set_def)
next
  case False
  obtain g1 where g1: "setNode p None g = Inr g1" "same_flags g g1" "f_parent g1 = put p GRAPH_NODE (f_parent g)"
    "node_set g1 = insert p (node_set g)"
    using setNode_ok [OF ok(1), of p None] setNode_node_set [OF ok(1), of p None] p(1) ok(2) False by auto
  have "get (f_parent g) p = None" using False tree_okD(2) [OF graph_okD(4) [OF ok]] by (simp add: get_None_iff)
  then have "parent p g = None" "parent p g1 = None" using g1(2,3) by (simp_all add: parent_def)
  then have "ancestorLoop g v (Some p) (length (f_parent g) + 2) = Some False" "ancestorLoop g1 v (Some p) (length (f_parent g1) + 2) = Some False"
    using p(2) by (simp_all add: numeral_2_eq_2)
  moreover have "setNode p None g1 = Inr g1" using g1(4) by (simp add: setNode_def has_iff node_set_def)
  ultimately show ?thesis using g1(1,2) ok(2) by (simp add: setParent_def same_flags_def)
qed

lemma layer_setParent:
  assumes inv: "layer_inv g rt Y lg" and v: "v \<in> node_set lg" "v \<in> node_set g"
    and rt: "rt \<notin> node_set g" "rt \<noteq> GRAPH_NODE" and gn: "GRAPH_NODE \<notin> node_set g"
  shows "\<exists>lg'. setParent v (Some rt) lg = Inr lg' \<and> layer_inv g rt (insert v Y) lg'"
proof -
  obtain lg1 where lg1: "setNode rt None lg = Inr lg1" "layer_inv g rt Y lg1" "node_set lg1 = insert rt (node_set lg)"
    using layer_setNode [OF inv _ rt(2)] by blast
  note L = layer_invD [OF inv] and L1 = layer_invD [OF lg1(2)]
  have vg: "v \<noteq> GRAPH_NODE" "v \<noteq> rt" using v(2) gn rt(1) by auto
  have rp: "get (f_parent lg1) rt = Some GRAPH_NODE" using L1(6) L1(9) [of rt] lg1(3) rt(1) by auto
  have gp: "get (f_parent lg1) GRAPH_NODE = None" using tree_okD(2,6) [OF graph_okD(4) [OF L1(1,3)]] by (simp add: get_None_iff)
  have step: "x = GRAPH_NODE" if "(rt, x) \<in> parent_rel (f_parent lg1)" for x using that rp by (simp add: parent_rel_def)
  have dead: "(GRAPH_NODE, x) \<notin> parent_rel (f_parent lg1)" for x using gp by (simp add: parent_rel_def)
  have "(rt, v) \<notin> (parent_rel (f_parent lg1))\<^sup>*"
  proof
    assume "(rt, v) \<in> (parent_rel (f_parent lg1))\<^sup>*"
    then obtain x where "(rt, x) \<in> parent_rel (f_parent lg1)" "(x, v) \<in> (parent_rel (f_parent lg1))\<^sup>*"
      by (cases rule: converse_rtranclE) (use vg(2) in auto)
    then have "(GRAPH_NODE, v) \<in> (parent_rel (f_parent lg1))\<^sup>*" using step by blast
    then show False by (cases rule: converse_rtranclE) (use vg(1) dead in auto)
  qed
  then obtain lg2 where lg2: "setParent v (Some rt) lg1 = Inr lg2" "graph_ok lg2" "same_flags lg1 lg2"
    "f_edgeObjs lg2 = f_edgeObjs lg1" "f_edgeLabels lg2 = f_edgeLabels lg1" "node_set lg2 = node_set lg1"
    "\<forall>x \<in> node_set lg1. get (f_nodes lg2) x = get (f_nodes lg1) x"
    "\<forall>x. get (f_parent lg2) x = (if x = v then Some rt else get (f_parent lg1) x)"
    using setParent_ok [OF L1(1,3) vg(1), of "Some rt"] rt(2) lg1(3) v(1) by (auto simp: parent_or_root_def insert_absorb)
  have "setParent v (Some rt) lg = Inr lg2" using setParent_setNode [OF L(1,3) rt(2) vg(2)] lg1(1) lg2(1) by simp
  moreover have "layer_inv g rt (insert v Y) lg2"
  proof -
    have es: "edges lg2 = edges lg1" "\<And>e. edgeOfObj e lg2 = edgeOfObj e lg1" "f_isCompound lg2" "f_label lg2 = Some rt" "f_defaultNodeLabelFn lg2 = sharedLabel g"
      using lg2(3-5) L1(3-5) by (simp_all add: edges_def edgeOfObj_def same_flags_def)
    have "node x lg2 = sharedLabel g x \<and> get (f_parent lg2) x = Some (if x \<in> insert v Y then rt else GRAPH_NODE)" if "x \<in> node_set lg2" for x
    proof -
      have x: "x \<in> node_set lg1" using that lg2(6) by simp
      have "node x lg2 = node x lg1" using lg2(7) x by (simp add: node_def)
      then show ?thesis using L1(8,9) [OF x] lg2(8) by simp
    qed
    moreover have "clean_graph lg2" using L1(2) es(1) by (simp add: clean_graph_def)
    ultimately show ?thesis unfolding layer_inv_def using lg2(2,6) es L1(6,7,10) v lg1(3) by auto
  qed
  ultimately show ?thesis by blast
qed

lemma related_ok:
  assumes "graph_ok g" "v \<in> node_set g" "e \<in> set (each (related rel v g))"
  shows "e \<in> set (edges g)" "e_v e = v \<or> e_w e = v"
proof -
  obtain es where es: "inEdges v None g = Some es" "set es = {e \<in> set (edges g). e_w e = v}" using inEdges_spec [OF assms(1,2)] by blast
  obtain os where os: "outEdges v None g = Some os" "set os = {e \<in> set (edges g). e_v e = v}" using outEdges_spec [OF assms(1,2)] by blast
  from es os assms(3) show "e \<in> set (edges g)" "e_v e = v \<or> e_w e = v" by (auto simp: related_def each_def split: if_splits)
qed

lemma layerNode_ok:
  assumes flat: "flat_graph g" and inv: "layer_inv g rt Y lg" and v: "v \<in> node_set g"
    and rt: "rt \<notin> node_set g" "rt \<noteq> GRAPH_NODE"
  shows "\<exists>lg'. layerNode g rank rel rt v lg = Inr lg' \<and> layer_inv g rt (if rankOf g v = Some rank then insert v Y else Y) lg'"
proof -
  note F = flat_graphD [OF flat]
  obtain l r where l: "node v g = Some l" "n_rank l = Some (int r)" "n_minRank l = None" using F(5) [OF v] by blast
  have rk: "inRank rank l \<longleftrightarrow> rankOf g v = Some rank" using l by (simp add: inRank_def rankOf_def)
  show ?thesis
  proof (cases "rankOf g v = Some rank")
    case False
    then show ?thesis using l(1) rk inv by (auto simp: layerNode_def)
  next
    case True
    have vg: "v \<noteq> GRAPH_NODE" using v F(3) by auto
    obtain lg1 where lg1: "setNode v None lg = Inr lg1" "layer_inv g rt Y lg1" "node_set lg1 = insert v (node_set lg)"
      using layer_setNode [OF inv _ vg] v by blast
    have v1: "v \<in> node_set lg1" using lg1(3) by simp
    obtain lg2 where lg2: "setParent v (Some rt) lg1 = Inr lg2" "layer_inv g rt (insert v Y) lg2"
      using layer_setParent [OF lg1(2) v1 v rt F(3)] by blast
    have "\<exists>lg3. rfold (layerEdge g v) (each (related rel v g)) lg2 = Inr lg3 \<and> layer_inv g rt (insert v Y) lg3"
    proof (rule rfold_invariant)
      fix e lg assume e: "e \<in> set (each (related rel v g))" and lg: "layer_inv g rt (insert v Y) lg"
      have "v \<in> node_set lg" using layer_invD(6) [OF lg] by blast
      from layerEdge_ok [OF flat lg this related_ok [OF F(1) v e]] show "\<exists>lg'. layerEdge g v e lg = Inr lg' \<and> layer_inv g rt (insert v Y) lg'" by blast
    qed (rule lg2(2))
    then obtain lg3 where lg3: "rfold (layerEdge g v) (each (related rel v g)) lg2 = Inr lg3" "layer_inv g rt (insert v Y) lg3" by blast
    have "layerNode g rank rel rt v lg = Inr lg3"
      using True l rk lg1(1) lg2(1) lg3(1) F(4) [OF v] by (simp add: layerNode_def parentOrRoot_def layerBorders_def)
    then show ?thesis using True lg3(2) by auto
  qed
qed

definition layer_of :: "layoutGraph \<Rightarrow> int \<Rightarrow> string set" where
  "layer_of g rank = {v \<in> node_set g. rankOf g v = Some rank}"

definition layer_graph :: "layoutGraph \<Rightarrow> int \<Rightarrow> layerGraph \<Rightarrow> bool" where
  "layer_graph g rank lg \<longleftrightarrow> (\<exists>rt. rt \<notin> node_set g \<and> rt \<noteq> GRAPH_NODE \<and> rt \<noteq> [] \<and> layer_inv g rt (layer_of g rank) lg)"

lemma createRootNode_ok:
  assumes "graph_ok g"
  shows "\<exists>rt i. createRootNode g c = Inr (rt, i) \<and> rt \<notin> node_set g \<and> rt \<noteq> GRAPH_NODE \<and> rt \<noteq> []"
proof -
  obtain i where "createRootNode g c = Inr (''_root'' @ nat_str i, i)" "''_root'' @ nat_str i \<notin> node_set g"
    using fresh_dummy [OF assms, of c "''_root''"] unfolding createRootNode_def by blast
  then show ?thesis by (intro exI conjI) (assumption | simp add: GRAPH_NODE_def)+
qed

lemma buildLayerGraph_ok:
  assumes flat: "flat_graph g"
  shows "\<exists>lg c'. buildLayerGraph g rel rank c = Inr (lg, c') \<and> layer_graph g rank lg"
proof -
  note F = flat_graphD [OF flat]
  obtain rt i where i: "createRootNode g c = Inr (rt, i)" "rt \<notin> node_set g" and rt: "rt \<noteq> GRAPH_NODE" "rt \<noteq> []"
    using createRootNode_ok [OF F(1)] by blast
  let ?new = "setDefaultNodeLabel (Inr (sharedLabel g)) (setGraph (Some rt) (newGraph None None (Some True))) :: layerGraph"
  have "graph_ok ?new" using graph_ok_new [of None None "Some True"]
    by (simp add: setDefaultNodeLabel_def setGraph_def graph_ok_def tables_ok_def node_set_def)
  then have start: "layer_inv g rt {} ?new"
    by (simp add: layer_inv_def setDefaultNodeLabel_def setGraph_def newGraph_def clean_graph_def edges_def node_set_def Let_def)
  have "\<exists>lg. rfold (layerNode g rank rel rt) (nodes g) ?new = Inr lg \<and> layer_inv g rt {v \<in> set (nodes g). rankOf g v = Some rank} lg"
  proof (rule rfold_prefix_invariant [where P = "\<lambda>ys. layer_inv g rt {v \<in> set ys. rankOf g v = Some rank}"])
    fix ys v zs lg assume split: "nodes g = ys @ v # zs" and inv: "layer_inv g rt {v \<in> set ys. rankOf g v = Some rank} lg"
    have "v \<in> node_set g" using split by (simp flip: nodes_set)
    from layerNode_ok [OF flat inv this i(2) rt(1), of rank rel] obtain lg' where
      "layerNode g rank rel rt v lg = Inr lg'" "layer_inv g rt (if rankOf g v = Some rank then insert v {v \<in> set ys. rankOf g v = Some rank} else {v \<in> set ys. rankOf g v = Some rank}) lg'" by blast
    moreover have eq: "{u \<in> set (ys @ [v]). rankOf g u = Some rank} =
        (if rankOf g v = Some rank then insert v {v \<in> set ys. rankOf g v = Some rank} else {v \<in> set ys. rankOf g v = Some rank})" by auto
    ultimately show "\<exists>lg'. layerNode g rank rel rt v lg = Inr lg' \<and> layer_inv g rt {u \<in> set (ys @ [v]). rankOf g u = Some rank} lg'"
      unfolding eq by blast
  qed (simp add: start)
  then obtain lg where lg: "rfold (layerNode g rank rel rt) (nodes g) ?new = Inr lg" "layer_inv g rt (layer_of g rank) lg"
    by (auto simp: layer_of_def nodes_set)
  then have "buildLayerGraph g rel rank c = Inr (lg, i)" using i(1) by (simp add: buildLayerGraph_def Let_def)
  then show ?thesis using lg(2) i(2) rt unfolding layer_graph_def by blast
qed

lemma buildLayerGraphs_ok:
  assumes flat: "flat_graph g"
  shows "\<exists>lgs c'. buildLayerGraphs g ranks rel c = Inr (lgs, c') \<and> list_all2 (layer_graph g) ranks lgs"
proof -
  let ?P = "\<lambda>ys (lgs :: layerGraph list, c' :: nat). list_all2 (layer_graph g) ys lgs"
  have "\<exists>s. rfold (\<lambda>rank (lgs, c). rbind (buildLayerGraph g rel rank c) (\<lambda>(lg, c'). Inr (lgs @ [lg], c'))) ranks ([], c) = Inr s \<and> ?P ranks s"
  proof (rule rfold_prefix_invariant [where P = ?P])
    fix ys r zs s assume P: "?P ys s"
    obtain lgs c' where s: "s = (lgs, c')" by (cases s)
    obtain lg c'' where "buildLayerGraph g rel r c' = Inr (lg, c'')" "layer_graph g r lg" using buildLayerGraph_ok [OF flat] by blast
    then show "\<exists>s'. (\<lambda>(lgs, c). rbind (buildLayerGraph g rel r c) (\<lambda>(lg, c'). Inr (lgs @ [lg], c'))) s = Inr s' \<and> ?P (ys @ [r]) s'"
      using P s by (auto simp: list_all2_appendI)
  qed simp
  then show ?thesis by (auto simp: buildLayerGraphs_def)
qed

section \<open>Sorting one layer\<close>

lemma currentLabels_shape: "same_shape lg (currentLabels h lg)"
  by (simp add: same_shape_def currentLabels_def keys_def comp_def split_def)

lemma node_currentLabels:
  "node v (currentLabels h lg) = (case node v lg of Some l \<Rightarrow> if y_shared l then sharedLabel h v else Some l | None \<Rightarrow> None)"
proof -
  have "map_of (map (\<lambda>(v, l). (v, f v l)) xs) v = map_option (f v) (map_of xs v)" 
    for f :: "string \<Rightarrow> layerLabel option \<Rightarrow> layerLabel option" and xs by (induction xs) auto
  from this [of "\<lambda>v l. case l of Some l \<Rightarrow> if y_shared l then sharedLabel h v else Some l | None \<Rightarrow> None" "f_nodes lg"]
  show ?thesis by (simp add: node_def currentLabels_def get_def split: option.splits)
qed

text \<open>The hierarchy of such a layer graph: the nodes of the layer inside the root.\<close>

lemma layer_parents:
  assumes inv: "layer_inv g rt Y lg" and rt: "rt \<notin> node_set g" "rt \<noteq> GRAPH_NODE"
  shows "\<And>x. (x, rt) \<in> below_parent lg \<longleftrightarrow> x \<in> Y" "\<And>y. y \<in> Y \<Longrightarrow> childless lg y" "base_nodes lg rt = Y"
    "\<And>y. y \<in> Y \<Longrightarrow> parent y lg = Some rt" "parent rt lg = None"
proof -
  note L = layer_invD [OF inv] and T = graph_okD(4) [OF layer_invD(1,3) [OF inv]]
  have "get (f_parent lg) x = (if x \<in> node_set lg then Some (if x \<in> Y then rt else GRAPH_NODE) else None)" for x
    using L(9) [of x] tree_okD(2) [OF T] by (auto simp: get_None_iff)
  then have P: "(x, p) \<in> below_parent lg \<longleftrightarrow> x \<in> node_set lg \<and> p = (if x \<in> Y then rt else GRAPH_NODE)"
    and par: "get (f_parent lg) x = (if x \<in> node_set lg then Some (if x \<in> Y then rt else GRAPH_NODE) else None)" for x p by (auto simp: parent_rel_def)
  have gn: "GRAPH_NODE \<notin> node_set lg" using tree_okD(6) [OF T] .
  show kids: "(x, rt) \<in> below_parent lg \<longleftrightarrow> x \<in> Y" for x using P L(6) rt by auto
  show leaf: "childless lg y" if "y \<in> Y" for y
  proof -
    have "y \<noteq> rt" "y \<noteq> GRAPH_NODE" using that L(6) rt(1) gn by auto
    then show ?thesis using P by (auto simp: childless_def)
  qed
  have "x \<in> Y" if "(x, rt) \<in> (below_parent lg)\<^sup>+" for x
    using that
  proof (cases rule: trancl.cases)
    case (trancl_into_trancl y)
    then show ?thesis using kids [of y] leaf [of y] by (meson childless_def tranclD2)
  qed (simp add: kids)
  then show "base_nodes lg rt = Y" using kids leaf by (auto simp: base_nodes_def)
  show "parent y lg = Some rt" if "y \<in> Y" for y using that par [of y] L(3,6) rt(2) by (auto simp: parent_def)
  show "parent rt lg = None" using par [of rt] L(3,6) rt by (auto simp: parent_def)
qed

lemma currentLabels_ok:
  assumes inv: "layer_inv g rt Y lg" and rt: "rt \<notin> node_set g" "rt \<noteq> GRAPH_NODE"
    and lab: "\<And>v. v \<in> node_set g \<Longrightarrow> node v g \<noteq> None \<and> node v h \<noteq> None"
  shows "layer_ok (currentLabels h lg)" "base_nodes (currentLabels h lg) rt = Y"
proof -
  note L = layer_invD [OF inv]
  let ?c = "currentLabels h lg"
  note S = same_shapeD [OF currentLabels_shape [of lg h]]
  have fields: "f_parent ?c = f_parent lg" "f_edgeLabels ?c = f_edgeLabels lg" by (simp_all add: currentLabels_def)
  then show "base_nodes ?c rt = Y" using layer_parents(3) [OF inv rt] by (simp add: base_nodes_def childless_def)
  have label: "node x ?c = sharedLabel h x" if "x \<in> node_set lg" "x \<in> node_set g" for x
    using L(8) [OF that(1)] lab [OF that(2)] by (auto simp: node_currentLabels sharedLabel_def)
  have "bordersOf ?c v = None" for v
  proof (cases "v \<in> node_set lg")
    case True
    then show ?thesis using L(8) [OF True] by (auto simp: bordersOf_def node_currentLabels sharedLabel_def split: option.splits)
  next
    case False
    then have "get (f_nodes lg) v = None" by (simp add: node_set_def get_None_iff)
    then have "node v lg = None" by (simp add: node_def)
    then show ?thesis by (simp add: bordersOf_def node_currentLabels)
  qed
  moreover have "edgeOfObj e ?c \<noteq> None \<and> node (e_v e) ?c \<noteq> None" if e: "e \<in> set (edges lg)" for e
  proof -
    have "e_v e \<in> node_set lg" using edges_ends [OF L(1) e] by blast
    then show ?thesis using label L(10) [OF e] lab [of "e_v e"] fields(2) S(4) by (auto simp: edgeOfObj_def sharedLabel_def)
  qed
  ultimately show "layer_ok ?c" unfolding layer_ok_def S(2) using same_shape_ok [OF currentLabels_shape L(1)] S(7) L(3) by simp
qed

lemma no_constraints:
  assumes vs: "\<And>v. v \<in> set vs \<Longrightarrow> v \<in> node_set lg \<and> parent v lg = Some rt" and rt: "parent rt lg = None" "rt \<noteq> []"
  shows "addSubgraphConstraints lg cg vs = Inr cg"
proof -
  let ?body = "\<lambda>v. constraintLoop (length (nodes lg) + 1) lg (parent v lg)"
  let ?P = "\<lambda>st :: constraintState. \<exists>rp. st = ([], rp, cg) \<and> rp \<in> {None, Some rt}"
  have "\<exists>st. rfold ?body vs ([], None, cg) = Inr st \<and> ?P st"
  proof (rule rfold_invariant)
    fix v st assume v: "v \<in> set vs" and st: "?P st"
    have "nodes lg \<noteq> []" using vs [OF v] by (auto simp flip: nodes_set)
    then obtain n where n: "length (nodes lg) + 1 = Suc (Suc n)" by (cases "nodes lg") auto
    show "\<exists>st'. ?body v st = Inr st' \<and> ?P st'" unfolding n using vs [OF v] rt st by (auto simp: Let_def)
  qed simp
  then show ?thesis by (auto simp: addSubgraphConstraints_def)
qed

lemma setLayerOrder_shared:
  assumes "\<And>v i. (v, i) \<in> set ps \<Longrightarrow> \<exists>l. node v lg = Some l \<and> y_shared l"
  shows "rfold setLayerOrder ps (h, lg) =
    rbind (rfold (\<lambda>(v, i). mutNode (\<lambda>l. l\<lparr>n_order := Some (int i)\<rparr>) v) ps h) (\<lambda>h'. Inr (h', lg))"
  using assms
proof (induction ps arbitrary: h)
  case (Cons p ps)
  obtain v i where p: "p = (v, i)" by (cases p)
  obtain l where "node v lg = Some l" "y_shared l" using Cons.prems [of v i] p by auto
  then have "setLayerOrder p (h, lg) = rbind (mutNode (\<lambda>l. l\<lparr>n_order := Some (int i)\<rparr>) v h) (\<lambda>h'. Inr (h', lg))"
    using p by (simp add: setLayerOrder_def)
  moreover have "rfold setLayerOrder ps (h', lg) =
      rbind (rfold (\<lambda>(v, i). mutNode (\<lambda>l. l\<lparr>n_order := Some (int i)\<rparr>) v) ps h') (\<lambda>h'. Inr (h', lg))" for h'
    using Cons.IH Cons.prems by (meson list.set_intros(2))
  ultimately show ?case using p by (cases "mutNode (\<lambda>l. l\<lparr>n_order := Some (int i)\<rparr>) v h") simp_all
qed simp

section \<open>The sweeps keep the layers\<close>

text \<open>All nodes in the layers of their ranks, and a graph whose orders are the positions in these layers.\<close>

definition full_layers :: "layoutGraph \<Rightarrow> string list list \<Rightarrow> bool" where
  "full_layers g layers \<longleftrightarrow> layered g (node_set g) layers \<and> (\<forall>v \<in> node_set g. \<exists>r < length layers. rankOf g v = Some (int r)) \<and>
     length layers = length (emptyLayers (lodash_max (map (rankOf g) (nodes g))) :: string list list)"

definition ordered_by :: "layoutGraph \<Rightarrow> string list list \<Rightarrow> layoutGraph \<Rightarrow> bool" where
  "ordered_by g layers h \<longleftrightarrow> same_shape g h \<and> f_edgeLabels h = f_edgeLabels g \<and> f_label h = f_label g \<and>
     (\<forall>r < length layers. \<forall>i < length (layers ! r). node (layers ! r ! i) h = map_option (withOrder i) (node (layers ! r ! i) g)) \<and>
     (\<forall>v. v \<notin> node_set g \<longrightarrow> node v h = node v g)"

lemma full_layersD:
  assumes "full_layers g layers"
  shows "layered g (node_set g) layers" "\<And>v. v \<in> node_set g \<Longrightarrow> \<exists>r < length layers. rankOf g v = Some (int r)"
    "length layers = length (emptyLayers (lodash_max (map (rankOf g) (nodes g))) :: string list list)"
    "\<And>r. r < length layers \<Longrightarrow> distinct (layers ! r) \<and> set (layers ! r) = layer_of g (int r)"
  using assms unfolding full_layers_def layered_def layer_of_def by blast+

lemma ordered_byD:
  assumes "ordered_by g layers h"
  shows "same_shape g h" "f_edgeLabels h = f_edgeLabels g" "f_label h = f_label g"
    "\<And>r i. r < length layers \<Longrightarrow> i < length (layers ! r) \<Longrightarrow> node (layers ! r ! i) h = map_option (withOrder i) (node (layers ! r ! i) g)"
    "\<And>v. v \<notin> node_set g \<Longrightarrow> node v h = node v g"
  using assms unfolding ordered_by_def by blast+

lemma full_position:
  assumes "full_layers g layers" "v \<in> node_set g"
  shows "\<exists>r i. r < length layers \<and> i < length (layers ! r) \<and> v = layers ! r ! i \<and> rankOf g v = Some (int r)"
proof -
  obtain r where r: "r < length layers" "rankOf g v = Some (int r)" using full_layersD(2) [OF assms] by blast
  then have "v \<in> set (layers ! r)" using full_layersD(4) [OF assms(1) r(1)] assms(2) by (auto simp: layer_of_def)
  then show ?thesis using r by (auto simp: in_set_conv_nth)
qed

lemma ordered_by_node:
  assumes "full_layers g layers" "ordered_by g layers h" "v \<in> node_set g"
  shows "\<exists>i. node v h = map_option (withOrder i) (node v g)"
  using full_position [OF assms(1,3)] ordered_byD(4) [OF assms(2)] by blast

lemma withOrder_twice [simp]: "withOrder i (withOrder j l) = withOrder i l"
  by (simp add: withOrder_def)

lemma replace_layer:
  assumes full: "full_layers g layers" and vs: "distinct vs" "set vs = layer_of g (int r)"
  shows "full_layers g (layers[r := vs])"
proof -
  have "distinct (layers[r := vs] ! q) \<and> set (layers[r := vs] ! q) = {v \<in> node_set g. rankOf g v = Some (int q)}" if q: "q < length layers" for q
    using full_layersD(4) [OF full q] vs q by (cases "q = r") (simp_all add: layer_of_def)
  then have "layered g (node_set g) (layers[r := vs])" by (simp add: layered_def)
  then show ?thesis unfolding full_layers_def length_list_update using full_layersD(2,3) [OF full] by blast
qed

lemma reorder_layer:
  assumes full: "full_layers g layers" and ord: "ordered_by g layers h"
    and vs: "distinct vs" "set vs = layer_of g (int r)" and lab: "\<And>v. v \<in> node_set g \<Longrightarrow> node v g \<noteq> None"
  shows "\<exists>h'. rfold (\<lambda>(v, i). mutNode (\<lambda>l. l\<lparr>n_order := Some (int i)\<rparr>) v) (zip vs [0..<length vs]) h = Inr h' \<and>
    ordered_by g (layers[r := vs]) h'"
proof -
  note O = ordered_byD [OF ord]
  let ?ps = "zip vs [0..<length vs]"
  have sub: "set vs \<subseteq> node_set g" using vs(2) by (auto simp: layer_of_def)
  have labh: "node v h \<noteq> None" if "v \<in> node_set g" for v using ordered_by_node [OF full ord that] lab [OF that] by auto
  have "distinct (map fst ?ps)" using vs(1) by simp
  moreover have "v \<in> node_set h \<and> node v h \<noteq> None" if "(v, i) \<in> set ?ps" for v i
    using set_zip_leftD [OF that] sub labh same_shapeD(3) [OF O(1)] by auto
  ultimately obtain h' where h': "rfold (\<lambda>(v, i). mutNode (\<lambda>l. l\<lparr>n_order := Some (int i)\<rparr>) v) ?ps h = Inr h'"
    "same_shape h h'" "f_edgeLabels h' = f_edgeLabels h" "f_label h' = f_label h"
    "\<And>v. node v h' = (case map_of ?ps v of Some i \<Rightarrow> map_option (withOrder i) (node v h) | None \<Rightarrow> node v h)"
    using assign_positions [of ?ps h] by blast
  have at: "map_of ?ps (vs ! i) = Some i" if "i < length vs" for i
    using that vs(1) by (intro map_of_is_SomeI) (auto simp: in_set_zip)
  have off: "map_of ?ps v = None" if "v \<notin> set vs" for v using that by (auto simp: map_of_eq_None_iff dest: set_zip_leftD)
  have "node (layers[r := vs] ! q ! i) h' = map_option (withOrder i) (node (layers[r := vs] ! q ! i) g)"
    if q: "q < length layers" and i: "i < length (layers[r := vs] ! q)" for q i
  proof (cases "q = r")
    case True
    then have i': "i < length vs" "layers[r := vs] ! q = vs" using q i by auto
    have "vs ! i \<in> node_set g" using sub i'(1) by auto
    from ordered_by_node [OF full ord this] obtain j where j: "node (vs ! i) h = map_option (withOrder j) (node (vs ! i) g)" by blast
    then show ?thesis unfolding i'(2) h'(5) [of "vs ! i"] at [OF i'(1)] by (simp add: option.map_comp comp_def)
  next
    case False
    then have i': "i < length (layers ! q)" "layers[r := vs] ! q = layers ! q" using i by auto
    have "layers ! q ! i \<in> set (layers ! q)" using i'(1) by (rule nth_mem)
    then have "layers ! q ! i \<in> layer_of g (int q)" using full_layersD(4) [OF full q] by blast
    then have "layers ! q ! i \<notin> set vs" using vs(2) False by (auto simp: layer_of_def)
    then have "node (layers ! q ! i) h' = node (layers ! q ! i) h" unfolding h'(5) [of "layers ! q ! i"] by (subst off) simp_all
    then show ?thesis unfolding i'(2) using O(4) [OF q i'(1)] by simp
  qed
  moreover have "node v h' = node v g" if "v \<notin> node_set g" for v
  proof -
    have "v \<notin> set vs" using that sub by blast
    then show ?thesis unfolding h'(5) [of v] using O(5) [OF that] by (subst off) simp_all
  qed
  ultimately have "ordered_by g (layers[r := vs]) h'"
    unfolding ordered_by_def using same_shape_trans [OF O(1) h'(2)] h'(3,4) O(2,3) by simp
  then show ?thesis using h'(1) by blast
qed

lemma sweepLayer_ok:
  assumes full: "full_layers g layers" and ord: "ordered_by g layers h" and lab: "\<And>v. v \<in> node_set g \<Longrightarrow> node v g \<noteq> None"
    and lg: "layer_graph g (int r) lg"
  shows "\<exists>h' vs. sweepLayer bias lg (h, lgs, newGraph None None None) = Inr (h', lgs @ [lg], newGraph None None None) \<and>
    full_layers g (layers[r := vs]) \<and> ordered_by g (layers[r := vs]) h'"
proof -
  let ?cg = "newGraph None None None :: constraintGraph"
  obtain rt where rt: "rt \<notin> node_set g" "rt \<noteq> GRAPH_NODE" "rt \<noteq> []" and inv: "layer_inv g rt (layer_of g (int r)) lg"
    using lg unfolding layer_graph_def by blast
  note L = layer_invD [OF inv] and H = layer_parents [OF inv rt(1,2)]
  have labh: "node v g \<noteq> None \<and> node v h \<noteq> None" if "v \<in> node_set g" for v using ordered_by_node [OF full ord that] lab [OF that] by auto
  note C = currentLabels_ok [OF inv rt(1,2) labh]
  have "acyclic (arcs ?cg)" by (simp add: arcs_def newGraph_def edges_def Let_def acyclic_def)
  then obtain res where res: "sortSubgraph (currentLabels h lg) rt ?cg bias = Inr res" "distinct (r_vs res)" "set (r_vs res) = layer_of g (int r)"
    using sortSubgraph_ok [OF C(1), of ?cg rt bias] rt(2) C(2) by auto
  obtain h' where h': "rfold (\<lambda>(v, i). mutNode (\<lambda>l. l\<lparr>n_order := Some (int i)\<rparr>) v) (zip (r_vs res) [0..<length (r_vs res)]) h = Inr h'"
    "ordered_by g (layers[r := r_vs res]) h'"
    using reorder_layer [OF full ord res(2,3) lab] by blast
  have in_lg: "v \<in> node_set lg" "v \<in> node_set g" if "v \<in> set (r_vs res)" for v using that res(3) L(6) by auto
  have "\<exists>l. node v lg = Some l \<and> y_shared l" if "(v, i) \<in> set (zip (r_vs res) [0..<length (r_vs res)])" for v i
  proof -
    have v: "v \<in> set (r_vs res)" using set_zip_leftD [OF that] .
    show ?thesis using L(8) [OF in_lg(1) [OF v]] lab [OF in_lg(2) [OF v]] by (auto simp: sharedLabel_def)
  qed
  note setLayerOrder_shared [where h = h, OF this]
  with h'(1)
  have "rfold setLayerOrder (zip (r_vs res) [0..<length (r_vs res)]) (h, lg) = Inr (h', lg)" by simp
  moreover have "addSubgraphConstraints lg ?cg (r_vs res) = Inr ?cg"
    using in_lg(1) H(4) res(3) by (intro no_constraints [OF _ H(5) rt(3)]) auto
  moreover have "graph lg = Some rt" using L(4) by (simp add: graph_def)
  ultimately have "sweepLayer bias lg (h, lgs, ?cg) = Inr (h', lgs @ [lg], ?cg)" using res(1) by (simp add: sweepLayer_def)
  then show ?thesis using h'(2) replace_layer [OF full res(2,3)] by blast
qed

lemma sweepLayerGraphs_ok:
  assumes full: "full_layers g layers" and ord: "ordered_by g layers h" and lab: "\<And>v. v \<in> node_set g \<Longrightarrow> node v g \<noteq> None"
    and lgs: "list_all2 (layer_graph g) ranks lgs" and ranks: "\<And>r. r \<in> set ranks \<Longrightarrow> 0 \<le> r"
  shows "\<exists>h' layers'. sweepLayerGraphs lgs bias h = Inr (h', lgs) \<and> full_layers g layers' \<and> ordered_by g layers' h'"
proof -
  let ?cg = "newGraph None None None :: constraintGraph"
  let ?P = "\<lambda>ys (h :: layoutGraph, ls :: layerGraph list, cg :: constraintGraph). ls = ys \<and> cg = ?cg \<and> (\<exists>layers. full_layers g layers \<and> ordered_by g layers h)"
  have "\<exists>s. rfold (sweepLayer bias) lgs (h, [], ?cg) = Inr s \<and> ?P lgs s"
  proof (rule rfold_prefix_invariant [where P = ?P])
    fix ys lg zs s assume split: "lgs = ys @ lg # zs" and P: "?P ys s"
    obtain h1 layers1 where s: "s = (h1, ys, ?cg)" and S: "full_layers g layers1" "ordered_by g layers1 h1" using P by (cases s) auto
    obtain rank where rank: "rank \<in> set ranks" "layer_graph g rank lg"
    proof -
      from lgs obtain us z ws where "ranks = us @ z # ws" "layer_graph g z lg" unfolding split by (auto simp: list_all2_append2 list_all2_Cons2)
      then show thesis by (intro that [of z]) simp_all
    qed
    then have "layer_graph g (int (nat rank)) lg" using ranks by simp
    from sweepLayer_ok [OF S lab this, of bias ys] obtain h2 vs where
      "sweepLayer bias lg (h1, ys, ?cg) = Inr (h2, ys @ [lg], ?cg)" "full_layers g (layers1[nat rank := vs])" "ordered_by g (layers1[nat rank := vs]) h2" by blast
    then show "\<exists>s'. sweepLayer bias lg s = Inr s' \<and> ?P (ys @ [lg]) s'" unfolding s by blast
  qed (use full ord in auto)
  then show ?thesis by (auto simp: sweepLayerGraphs_def)
qed

section \<open>The loop ends\<close>

lemma ordered_by_rank:
  assumes "full_layers g layers" "ordered_by g layers h"
  shows "rankOf h v = rankOf g v"
proof (cases "v \<in> node_set g")
  case True
  from ordered_by_node [OF assms True] show ?thesis by (auto simp: rankOf_def withOrder_def split: option.splits)
qed (simp add: rankOf_def ordered_byD(5) [OF assms(2)])

lemma matrix_ok:
  assumes flat: "flat_graph g" and full: "full_layers g layers" and ord: "ordered_by g layers h"
  shows "buildLayerMatrix h = Inr (map (map Some) layers)"
proof (rule buildLayerMatrix_ok)
  note F = flat_graphD [OF flat] and O = ordered_byD [OF ord] and N = ordered_by_node [OF full ord]
  note S = same_shapeD [OF O(1)]
  have lab: "node v g \<noteq> None" if "v \<in> node_set g" for v using F(5) [OF that] by auto
  note rk = ordered_by_rank [OF full ord]
  show "graph_ok h" using same_shape_ok [OF O(1) F(1)] .
  show "node v h \<noteq> None" if "v \<in> node_set h" for v using N [of v] lab [of v] that S(3) by auto
  have "{v \<in> node_set g. rankOf g v \<noteq> None} = node_set g" using full_layersD(2) [OF full] by force
  then show "layered h {v \<in> node_set h. rankOf h v \<noteq> None} layers" using full_layersD(1) [OF full] unfolding layered_def rk S(3) by simp
  show "\<exists>r < length layers. k = int r" if "v \<in> node_set h" "rankOf h v = Some k" for v k
    using that full_layersD(2) [OF full, of v] unfolding rk S(3) by auto
  show "length layers = length (emptyLayers (lodash_max (map (rankOf h) (nodes h))) :: string list list)"
    unfolding rk S(1) by (rule full_layersD(3) [OF full])
  fix r i l assume ri: "r < length layers" "i < length (layers ! r)" "node (layers ! r ! i) h = Some l"
  have "map_option (withOrder i) (node (layers ! r ! i) g) = Some l" using O(4) [OF ri(1,2)] ri(3) by simp
  then show "n_order l = Some (int i)" by (auto simp: withOrder_def)
qed

lemma crossing_bound:
  fixes g :: layoutGraph
  assumes ok: "graph_ok g"
  shows "\<bar>\<Sum>(north, south) \<leftarrow> ps. crossingWeight g north south\<bar> \<le> int (length ps * totalWeight g ^ 2)"
proof -
  let ?E = "set (edges g)" and ?w = "\<lambda>(e, f). weight g e * weight g f"
  have tw: "(\<Sum>e \<in> ?E. \<bar>weight g e\<bar>) = int (totalWeight g)"
    using distinct_edges [OF ok] by (simp add: totalWeight_def sum_list_distinct_conv_sum_set)
  have one: "\<bar>crossingWeight g north south\<bar> \<le> int (totalWeight g ^ 2)" for north south
  proof -
    have "\<bar>crossingWeight g north south\<bar> \<le> (\<Sum>p \<in> crossingPairs g north south. \<bar>?w p\<bar>)" unfolding crossingWeight_def by (rule sum_abs)
    also have "\<dots> \<le> (\<Sum>p \<in> ?E \<times> ?E. \<bar>?w p\<bar>)" by (rule sum_mono2) (auto simp: crossingPairs_def)
    also have "\<dots> = (\<Sum>e \<in> ?E. \<Sum>f \<in> ?E. \<bar>weight g e\<bar> * \<bar>weight g f\<bar>)" by (simp add: sum.cartesian_product abs_mult split_def)
    also have "\<dots> = (\<Sum>e \<in> ?E. \<bar>weight g e\<bar>) * (\<Sum>f \<in> ?E. \<bar>weight g f\<bar>)" by (simp add: sum_product)
    finally show ?thesis by (simp add: tw power2_eq_square)
  qed
  show ?thesis
  proof (induction ps)
    case (Cons p ps)
    obtain north south where p: "p = (north, south)" by (cases p)
    from Cons one [of north south] show ?case by (simp add: p distrib_right)
  qed simp
qed

lemma layerPairs_length: "length (layerPairs ls) \<le> length ls"
  by (induction ls rule: layerPairs.induct) auto

lemma layers_crossings:
  assumes flat: "flat_graph g" and full: "full_layers g layers" and ord: "ordered_by g layers h"
  shows "\<exists>cc. crossCount h layers = Inr cc \<and> \<bar>cc\<bar> \<le> int (length layers * totalWeight g ^ 2)"
proof -
  note F = flat_graphD [OF flat] and O = ordered_byD [OF ord]
  note S = same_shapeD [OF O(1)]
  have lab: "edgeOfObj e h = edgeOfObj e g" for e using O(2) S(4) by (simp add: edgeOfObj_def)
  have ok: "graph_ok h" using same_shape_ok [OF O(1) F(1)] .
  have "distinct layer \<and> set layer \<subseteq> node_set h" if layer: "layer \<in> set layers" for layer
  proof -
    obtain r where "r < length layers" "layer = layers ! r" using layer by (metis in_set_conv_nth)
    then have "distinct layer \<and> set layer = layer_of g (int r)" using full_layersD(4) [OF full] by blast
    then show ?thesis using S(3) unfolding layer_of_def by auto
  qed
  moreover have "edgeOfObj e h \<noteq> None" if "e \<in> set (edges h)" for e using F(6) [of e] that unfolding lab S(2) by blast
  ultimately have cc: "crossCount h layers = Inr (\<Sum>(north, south) \<leftarrow> layerPairs layers. crossingWeight h north south)"
    using crossCount_ok [OF ok] by blast
  have "totalWeight h = totalWeight g" by (simp add: totalWeight_def weight_def lab S(2))
  then have "\<bar>\<Sum>(north, south) \<leftarrow> layerPairs layers. crossingWeight h north south\<bar> \<le> int (length (layerPairs layers) * totalWeight g ^ 2)"
    using crossing_bound [OF ok, of "layerPairs layers"] by simp
  also have "\<dots> \<le> int (length layers * totalWeight g ^ 2)" unfolding of_nat_le_iff using layerPairs_length by (rule mult_le_mono1)
  finally show ?thesis using cc by blast
qed

text \<open>One turn of the loop.\<close>

definition sweep_state :: "layoutGraph \<Rightarrow> layoutGraph \<times> layerGraph list \<times> layerGraph list \<Rightarrow> bool" where
  "sweep_state g s \<longleftrightarrow> (case s of (h, downs, ups) \<Rightarrow> (\<exists>layers. full_layers g layers \<and> ordered_by g layers h) \<and>
     (\<forall>lgs \<in> {downs, ups}. \<exists>ranks. list_all2 (layer_graph g) ranks lgs \<and> (\<forall>r \<in> set ranks. 0 \<le> r)))"

lemma full_lengths: "full_layers g layers \<Longrightarrow> full_layers g layers' \<Longrightarrow> length layers = length layers'"
  by (simp add: full_layers_def)

text \<open>Four turns for every value the number of crossings can still take.\<close>

definition turns :: "int \<Rightarrow> nat \<Rightarrow> (string list list \<times> int) option \<Rightarrow> int" where
  "turns B lastBest best = (case best of Some (_, b) \<Rightarrow> 4 * (b + B) + 4 - int lastBest | None \<Rightarrow> 8 * B + 4)"

lemma orderLoop_ok:
  fixes B :: int
  assumes flat: "flat_graph g" and B: "\<And>layers. full_layers g layers \<Longrightarrow> int (length layers * totalWeight g ^ 2) \<le> B" and pos: "0 \<le> B"
  shows "sweep_state g s \<Longrightarrow> (case best of Some (b, cc) \<Rightarrow> full_layers g b \<and> \<bar>cc\<bar> \<le> B \<and> lastBest \<le> 4 | None \<Rightarrow> lastBest = 0) \<Longrightarrow>
    turns B lastBest best < int n \<Longrightarrow>
    \<exists>h b cc layers. orderLoop n i lastBest best s = Inr (h, Some (b, cc)) \<and> full_layers g b \<and> full_layers g layers \<and> ordered_by g layers h"
proof (induction n arbitrary: i lastBest best s)
  case 0
  then show ?case using pos by (auto simp: turns_def abs_le_iff split: option.splits)
next
  case (Suc n)
  note F = flat_graphD [OF flat]
  have lab: "node v g \<noteq> None" if "v \<in> node_set g" for v using F(5) [OF that] by auto
  obtain h downs ups where s: "s = (h, downs, ups)" by (cases s)
  obtain layers where S: "full_layers g layers" "ordered_by g layers h" using Suc.prems(1) s by (auto simp: sweep_state_def)
  show ?case
  proof (cases "lastBest < 4")
    case False
    then obtain b cc where "best = Some (b, cc)" "full_layers g b" using Suc.prems(2) by (auto split: option.splits)
    then show ?thesis using False S s by auto
  next
    case True
    let ?lgs = "if i mod 2 = 1 then downs else ups" and ?bias = "i mod 4 \<ge> 2"
    have "\<forall>lgs \<in> {downs, ups}. \<exists>ranks. list_all2 (layer_graph g) ranks lgs \<and> (\<forall>r \<in> set ranks. 0 \<le> r)"
      using Suc.prems(1) s by (simp add: sweep_state_def)
    moreover have "?lgs \<in> {downs, ups}" by simp
    ultimately obtain ranks where R: "list_all2 (layer_graph g) ranks ?lgs" "\<And>r. r \<in> set ranks \<Longrightarrow> 0 \<le> r" by blast
    obtain h' layers' where W: "sweepLayerGraphs ?lgs ?bias h = Inr (h', ?lgs)" "full_layers g layers'" "ordered_by g layers' h'"
      using sweepLayerGraphs_ok [OF S lab R, of ?bias] by blast
    obtain cc where cc: "crossCount h' layers' = Inr cc" "\<bar>cc\<bar> \<le> B" using layers_crossings [OF flat W(2,3)] B [OF W(2)] by force
    have key: "map (map keyOf) (map (map Some) layers') = layers'" by (simp add: keyOf_def comp_def)
    have s': "(if i mod 2 = 1 then (h', ?lgs, ups) else (h', downs, ?lgs)) = (h', downs, ups)" by simp
    have st: "sweep_state g (h', downs, ups)" using Suc.prems(1) s W(2,3) by (auto simp: sweep_state_def)
    have step: "orderLoop (Suc n) i lastBest best s =
        (if best = None \<or> cc < snd (the best) then orderLoop n (i + 1) 1 (Some (layers', cc)) (h', downs, ups)
         else orderLoop n (i + 1) (lastBest + 1) best (h', downs, ups))"
      using True W(1) matrix_ok [OF flat W(2,3)] cc(1) s key s' by (simp add: Let_def)
    show ?thesis
    proof (cases "best = None \<or> cc < snd (the best)")
      case better: True
      have "turns B 1 (Some (layers', cc)) < int n"
        using better Suc.prems(2,3) cc(2) True by (auto simp: turns_def abs_le_iff split: option.splits)
      from Suc.IH [OF st _ this] step better W(2) cc(2) show ?thesis by simp
    next
      case worse: False
      then obtain b c where b: "best = Some (b, c)" by auto
      have "turns B (lastBest + 1) best < int n" using Suc.prems(3) b by (simp add: turns_def)
      from Suc.IH [OF st _ this] step worse Suc.prems(2) b True show ?thesis by simp
    qed
  qed
qed

section \<open>The ordering of a whole graph\<close>

lemma flat_leaves:
  assumes flat: "flat_graph g"
  shows "leaves g = node_set g"
proof -
  note F = flat_graphD [OF flat]
  have "children (Some v) g = Some []" if v: "v \<in> node_set g" for v
  proof (cases "f_isCompound g")
    case True
    obtain cs where cs: "children (Some v) g = Some cs" "set cs = {x. (x, v) \<in> below_parent g}" using children_spec [OF F(1) True v] by blast
    have "(x, v) \<notin> below_parent g" for x
    proof
      assume x: "(x, v) \<in> below_parent g"
      have "parent x g = None" using F(4) [OF child_node [OF F(1) True x]] .
      moreover have "parent x g = Some v" using x True v F(3) by (auto simp: parent_def parent_rel_def)
      ultimately show False by simp
    qed
    with cs show ?thesis by simp
  next
    case False
    then show ?thesis using v F(3) by (auto simp: children_def hasNode_def has_iff node_set_def)
  qed
  then show ?thesis by (auto simp: leaves_def)
qed

text \<open>Assigning an order to a graph of which the labels differ in their orders only.\<close>

lemma assign_full:
  assumes full: "full_layers g layers" and shape: "same_shape g h" "f_edgeLabels h = f_edgeLabels g" "f_label h = f_label g"
    and node: "\<And>v. \<exists>k. node v h = map_option (\<lambda>l. l\<lparr>n_order := k\<rparr>) (node v g)" "\<And>v. v \<notin> node_set g \<Longrightarrow> node v h = node v g"
    and lab: "\<And>v. v \<in> node_set g \<Longrightarrow> node v g \<noteq> None"
  shows "\<exists>h'. assignOrder layers h = Inr h' \<and> ordered_by g layers h'"
proof -
  note S = same_shapeD [OF shape(1)]
  have "rankOf h v = rankOf g v" for v using node(1) [of v] by (auto simp: rankOf_def split: option.splits)
  then have "layered h (node_set g) layers" using full_layersD(1) [OF full] by (simp add: layered_def)
  moreover have "v \<in> node_set h \<and> node v h \<noteq> None" if "v \<in> node_set g" for v using that node(1) [of v] lab [OF that] S(3) by auto
  ultimately obtain h' where h': "assignOrder layers h = Inr h'" "same_shape h h'" "f_edgeLabels h' = f_edgeLabels h" "f_label h' = f_label h"
    "\<And>v. node v h' = (case map_of (positions layers) v of Some i \<Rightarrow> map_option (withOrder i) (node v h) | None \<Rightarrow> node v h)"
    using assignOrder_ok [of h "node_set g" layers] by blast
  have dist: "distinct (map fst (positions layers))" unfolding map_fst_positions by (rule layered_distinct [OF full_layersD(1) [OF full]])
  have "node (layers ! r ! i) h' = map_option (withOrder i) (node (layers ! r ! i) g)" if ri: "r < length layers" "i < length (layers ! r)" for r i
  proof -
    have "(layers ! r ! i, i) \<in> set (positions layers)" unfolding positions_mem using ri by blast
    then have "map_of (positions layers) (layers ! r ! i) = Some i" using dist by simp
    moreover obtain k where "node (layers ! r ! i) h = map_option (\<lambda>l. l\<lparr>n_order := k\<rparr>) (node (layers ! r ! i) g)" using node(1) by blast
    ultimately show ?thesis unfolding h'(5) by (simp add: option.map_comp comp_def withOrder_def [abs_def])
  qed
  moreover have "node v h' = node v g" if v: "v \<notin> node_set g" for v
  proof -
    have "(v, i) \<notin> set (positions layers)" for i
    proof
      assume "(v, i) \<in> set (positions layers)"
      then obtain r where "r < length layers" "v \<in> set (layers ! r)" unfolding positions_mem by auto
      then have "v \<in> layer_of g (int r)" using full_layersD(4) [OF full] by blast
      then show False using v by (simp add: layer_of_def)
    qed
    then have "map_of (positions layers) v = None" by (metis map_of_SomeD not_Some_eq)
    then show ?thesis unfolding h'(5) using node(2) [OF v] by simp
  qed
  ultimately have "ordered_by g layers h'"
    unfolding ordered_by_def using same_shape_trans [OF shape(1) h'(2)] h'(3,4) shape(2,3) by simp
  then show ?thesis using h'(1) by blast
qed

lemma sweep_ranks:
  assumes "\<And>x. Some x \<in> set xs \<Longrightarrow> 0 \<le> x"
  shows "\<And>r. r \<in> set (downRanks (lodash_max xs)) \<Longrightarrow> 0 \<le> r" "\<And>r. r \<in> set (upRanks (lodash_max xs)) \<Longrightarrow> 0 \<le> r"
proof -
  have "0 \<le> m" if "lodash_max xs = Some m" for m
  proof -
    have "m \<in> {x. Some x \<in> set xs}" using that Max_in [OF finite_somes, of xs] by (auto simp: lodash_max_set split: if_splits)
    then show ?thesis using assms by blast
  qed
  then show "\<And>r. r \<in> set (downRanks (lodash_max xs)) \<Longrightarrow> 0 \<le> r" "\<And>r. r \<in> set (upRanks (lodash_max xs)) \<Longrightarrow> 0 \<le> r"
    by (auto simp: downRanks_def upRanks_def split: option.splits)
qed

lemma order_ok:
  assumes flat: "flat_graph g"
  shows "\<exists>h c' layers. order (g, c) = Inr (h, c') \<and> full_layers g layers \<and> ordered_by g layers h"
proof -
  note F = flat_graphD [OF flat]
  have lab: "node v g \<noteq> None" if "v \<in> node_set g" for v using F(5) [OF that] by auto
  have ranks: "\<exists>r. rankOf g v = Some (int r)" if "v \<in> node_set g" for v using F(5) [OF that] by (auto simp: rankOf_def)
  let ?mx = "lodash_max (map (rankOf g) (nodes g))"
  obtain downs c1 where downs: "buildLayerGraphs g (downRanks ?mx) ''inEdges'' c = Inr (downs, c1)" "list_all2 (layer_graph g) (downRanks ?mx) downs"
    using buildLayerGraphs_ok [OF flat] by blast
  obtain ups c2 where ups: "buildLayerGraphs g (upRanks ?mx) ''outEdges'' c1 = Inr (ups, c2)" "list_all2 (layer_graph g) (upRanks ?mx) ups"
    using buildLayerGraphs_ok [OF flat] by blast
  have "0 \<le> x" if x: "Some x \<in> set (map (rankOf g) (nodes g))" for x
  proof -
    obtain v where "v \<in> node_set g" "rankOf g v = Some x" using x by (auto simp: nodes_set)
    then show ?thesis using ranks [of v] by auto
  qed
  then have R: "\<And>r. r \<in> set (downRanks ?mx) \<Longrightarrow> 0 \<le> r" "\<And>r. r \<in> set (upRanks ?mx) \<Longrightarrow> 0 \<le> r"
    using sweep_ranks [of "map (rankOf g) (nodes g)"] by blast+
  obtain layers vs where init: "initOrder g = Inr layers" "layered g (node_set g) layers" "set vs = node_set g"
    "length layers = length (emptyLayers (lodash_max (map (rankOf g) vs)) :: string list list)"
    "\<forall>v \<in> node_set g. \<exists>r < length layers. rankOf g v = Some (int r)"
    using initOrder_ok [OF F(1)] arcs_nodes [OF F(1)] ranks unfolding flat_leaves [OF flat] by blast
  have "lodash_max (map (rankOf g) vs) = ?mx" unfolding lodash_max_set by (simp add: init(3) nodes_set)
  then have full: "full_layers g layers" using init(2,4,5) by (simp add: full_layers_def)
  have self: "\<exists>k. node v g = map_option (\<lambda>l. l\<lparr>n_order := k\<rparr>) (node v g)" for v
    by (cases "node v g") (auto intro: exI [of _ "n_order (the (node v g))"])
  obtain g1 where g1: "assignOrder layers g = Inr g1" "ordered_by g layers g1" using assign_full [OF full _ _ _ self] lab by auto
  let ?B = "int ((case ?mx of Some m \<Rightarrow> nat (m + 1) | None \<Rightarrow> 0) * totalWeight g ^ 2)"
  have B: "int (length layers * totalWeight g ^ 2) \<le> ?B" if "full_layers g layers" for layers
    using full_layersD(3) [OF that] by (auto simp: emptyLayers_def split: option.splits)
  have st: "sweep_state g (g1, downs, ups)" unfolding sweep_state_def using full g1(2) downs(2) ups(2) R by fast
  have "turns ?B 0 None < int (sweepBound g ?mx)" by (simp add: turns_def sweepBound_def)
  from orderLoop_ok [OF flat B _ st, where best = None and lastBest = 0 and i = 0, OF _ _ _ this] obtain h b cc layers' where loop: "orderLoop (sweepBound g ?mx) 0 0 None (g1, downs, ups) = Inr (h, Some (b, cc))"
    "full_layers g b" "full_layers g layers'" "ordered_by g layers' h"
    by auto
  note O = ordered_byD [OF loop(4)]
  have "\<exists>k. node v h = map_option (\<lambda>l. l\<lparr>n_order := k\<rparr>) (node v g)" for v
  proof (cases "v \<in> node_set g")
    case True
    from ordered_by_node [OF loop(3,4) this] show ?thesis unfolding withOrder_def [abs_def] by blast
  qed (use self O(5) in metis)
  then obtain h' where h': "assignOrder b h = Inr h'" "ordered_by g b h'" using assign_full [OF loop(2) O(1-3)] O(5) lab by blast
  have "order (g, c) = Inr (h', c2)"
    unfolding order_def using maxRank_ok [OF lab] downs(1) ups(1) init(1) g1(1) loop(1) h'(1) by simp
  then show ?thesis using loop(2) h'(2) by blast
qed

text \<open>C38. On a graph without subgraphs whose nodes have ranks from 0 upwards, \<open>order\<close> ends without an exception: the sweeps
  stop, whatever the weights of the edges are. It changes nothing but the orders of the nodes, and the nodes of every rank get
  the orders 0, 1, 2, \<dots> without gaps and repetitions, which \<open>buildLayerMatrix\<close> reads back.\<close>

theorem order_numbers_every_layer:
  assumes "flat_graph g"
  shows "\<exists>h c' layers. order (g, c) = Inr (h, c') \<and> same_shape g h \<and> f_edgeLabels h = f_edgeLabels g \<and> f_label h = f_label g \<and>
    (\<forall>v. \<exists>k. node v h = map_option (\<lambda>l. l\<lparr>n_order := k\<rparr>) (node v g)) \<and>
    (\<forall>v \<in> node_set g. \<exists>r i. r < length layers \<and> i < length (layers ! r) \<and> layers ! r ! i = v) \<and>
    (\<forall>r < length layers. distinct (layers ! r) \<and> (\<forall>i < length (layers ! r). \<exists>l. node (layers ! r ! i) h = Some l \<and>
       n_rank l = Some (int r) \<and> n_order l = Some (int i))) \<and>
    buildLayerMatrix h = Inr (map (map Some) layers)"
proof -
  obtain h c' layers where H: "order (g, c) = Inr (h, c')" "full_layers g layers" "ordered_by g layers h"
    using order_ok [OF assms] by blast
  note F = flat_graphD [OF assms] and O = ordered_byD [OF H(3)] and D = full_layersD(4) [OF H(2)]
  have "\<exists>k. node v h = map_option (\<lambda>l. l\<lparr>n_order := k\<rparr>) (node v g)" for v
  proof (cases "v \<in> node_set g")
    case True
    from ordered_by_node [OF H(2,3) this] show ?thesis unfolding withOrder_def [abs_def] by blast
  next
    case False
    then show ?thesis using O(5) by (cases "node v g") (auto intro: exI [of _ "n_order (the (node v g))"])
  qed
  moreover have "\<exists>l. node (layers ! r ! i) h = Some l \<and> n_rank l = Some (int r) \<and> n_order l = Some (int i)"
    if ri: "r < length layers" "i < length (layers ! r)" for r i
  proof -
    have "layers ! r ! i \<in> layer_of g (int r)" using D [OF ri(1)] nth_mem [OF ri(2)] by blast
    then have v: "layers ! r ! i \<in> node_set g" "rankOf g (layers ! r ! i) = Some (int r)" by (simp_all add: layer_of_def)
    from F(5) [OF v(1)] obtain l where "node (layers ! r ! i) g = Some l" by blast
    then show ?thesis using O(4) [OF ri] v(2) by (simp add: withOrder_def rankOf_def)
  qed
  moreover have "\<exists>r i. r < length layers \<and> i < length (layers ! r) \<and> layers ! r ! i = v" if "v \<in> node_set g" for v
    using full_position [OF H(2) that] by metis
  ultimately show ?thesis using H(1) O(1-3) D matrix_ok [OF assms H(2,3)] by blast
qed

theorem order_numbers_every_layer_witness:
  "\<exists>g h c' layers. exampleDag = Inr g \<and> node_set g = {''a'', ''b''} \<and> order (g, 0) = Inr (h, c') \<and> buildLayerMatrix h = Inr (map (map Some) layers) \<and>
     (\<forall>v \<in> {''a'', ''b''}. \<exists>r i. r < length layers \<and> i < length (layers ! r) \<and> layers ! r ! i = v)"
proof -
  obtain g where g: "exampleDag = Inr g" "labelled g" "node_set g = {''a'', ''b''}" "arcs g = {(''a'', ''b'')}" "\<not> f_isCompound g"
    "\<forall>x \<in> node_set g. node x g = Some exampleNode" "clean_graph g" using exampleDag_ok by blast
  have "\<exists>l r. node v g = Some l \<and> n_rank l = Some (int r) \<and> n_minRank l = None" if "v \<in> node_set g" for v
    using g(6) that by (intro exI [of _ exampleNode] exI [of _ 0]) (simp add: exampleNode_def plainNode_def)
  moreover have "GRAPH_NODE \<notin> node_set g" unfolding g(3) by (simp add: GRAPH_NODE_def)
  ultimately have "flat_graph g" using g(2,5,7) by (simp add: flat_graph_def labelled_def parent_def)
  from order_numbers_every_layer [OF this, of 0] show ?thesis using g(1,3) by metis
qed

end
