(* ===== verification/Dagre_Self.thy ===== *)
theory Dagre_Self
  imports Dagre_Order
begin

text \<open>
  Self edges (\<open>removeSelfEdges\<close>, \<open>insertSelfEdges\<close> and \<open>positionSelfEdges\<close> of \<open>lib/layout\<close>): the edges from a node to itself are
  stored in their nodes at the beginning of the layout; after the ordering a dummy node is put beside the node for each of
  them, and after the positioning the edge comes back, drawn as a loop from the node to the place of its dummy. The theorem: the
  order has room for the dummies, each beside its node, and whatever the positions are, every self edge comes back
  and every dummy is removed.
\<close>

section \<open>The operations\<close>

definition pushSelf :: "edgeObj \<Rightarrow> layoutEdge option \<Rightarrow> layoutNode \<Rightarrow> layoutNode" where
  "pushSelf e label n = n\<lparr>n_selfEdges := Some ((case n_selfEdges n of Some es \<Rightarrow> es | None \<Rightarrow> []) @ [(e, label)])\<rparr>"

definition removeSelfEdge :: "edgeObj \<Rightarrow> layoutGraph \<Rightarrow> layoutGraph result" where
  "removeSelfEdge e g =
     (if e_v e = e_w e then rbind (mutNode (pushSelf e (edgeOfObj e g)) (e_v e) g) (removeEdgeObj e) else Inr g)"

definition removeSelfEdges :: "layoutGraph \<Rightarrow> layoutGraph result" where
  "removeSelfEdges g = rfold removeSelfEdge (edges g) g"

definition selfAttrs :: "int option \<Rightarrow> nat \<Rightarrow> edgeObj \<Rightarrow> layoutEdge \<Rightarrow> layoutNode" where
  "selfAttrs rank pos e l =
     plainNode\<lparr>n_width := l_width l, n_height := l_height l, n_rank := rank, n_order := Some (int pos), n_e := Some e, n_label := Some l\<rparr>"

text \<open>The loop over the self edges of the node at position \<open>i\<close>; the state is the graph, the counter and \<open>orderShift\<close>.\<close>

definition insertSelf :: "int option \<Rightarrow> nat \<Rightarrow> edgeObj \<times> layoutEdge option \<Rightarrow> layoutGraph \<times> nat \<times> nat \<Rightarrow> (layoutGraph \<times> nat \<times> nat) result" where
  "insertSelf rank i se st =
     (case (se, st) of ((e, label), (g, c, shift)) \<Rightarrow>
      rbind (deref label) (\<lambda>l.
      rbind (addDummyNode ''selfedge'' (selfAttrs rank (i + (shift + 1)) e l) ''_se'' (g, c)) (\<lambda>(_, g', c'). Inr (g', c', shift + 1))))"

definition insertAtNode :: "string \<times> nat \<Rightarrow> layoutGraph \<times> nat \<times> nat \<Rightarrow> (layoutGraph \<times> nat \<times> nat) result" where
  "insertAtNode p st =
     (case (p, st) of ((v, i), (g, c, shift)) \<Rightarrow>
      rbind (deref (node v g)) (\<lambda>n.
      rbind (mutNode (withOrder (i + shift)) v g) (\<lambda>g1.
      rbind (rfold (insertSelf (n_rank n) i) (each (n_selfEdges n)) (g1, c, shift)) (\<lambda>(g2, c2, shift2).
      rbind (mutNode (\<lambda>n. n\<lparr>n_selfEdges := None\<rparr>) v g2) (\<lambda>g3. Inr (g3, c2, shift2))))))"

definition insertInLayer :: "string option list \<Rightarrow> layoutGraph \<times> nat \<Rightarrow> (layoutGraph \<times> nat) result" where
  "insertInLayer layer s =
     (case s of (g, c) \<Rightarrow>
      rbind (rfold insertAtNode (zip (map keyOf layer) [0..<length layer]) (g, c, 0)) (\<lambda>(g', c', _). Inr (g', c')))"

definition insertSelfEdges :: "layoutGraph \<times> nat \<Rightarrow> (layoutGraph \<times> nat) result" where
  "insertSelfEdges s = rbind (buildLayerMatrix (fst s)) (\<lambda>layers. rfold insertInLayer layers s)"

text \<open>The points of a loop at the right side of \<open>self\<close>, up to the place of the dummy \<open>n\<close>.\<close>

definition loopLabel :: "layoutNode \<Rightarrow> layoutNode \<Rightarrow> layoutEdge \<Rightarrow> layoutEdge" where
  "loopLabel self n l =
     (let x = n_x self + n_width self / 2; y = n_y self; dx = n_x n - x; dy = n_height self / 2
      in l\<lparr>l_points := Some [(x + 2 * dx / 3, y - dy), (x + 5 * dx / 6, y - dy), (x + dx, y), (x + 5 * dx / 6, y + dy), (x + 2 * dx / 3, y + dy)],
           l_xy := Some (n_x n, n_y n)\<rparr>)"

definition positionSelf :: "string \<Rightarrow> layoutGraph \<Rightarrow> layoutGraph result" where
  "positionSelf v g =
     rbind (deref (node v g)) (\<lambda>n.
       if n_dummy n = Some ''selfedge'' then
         rbind (deref (n_e n)) (\<lambda>e.
         rbind (deref (node (e_v e) g)) (\<lambda>self.
         rbind (setEdgeObj e (Some (n_label n)) g) (\<lambda>g1.
         rbind (removeNode v g1) (\<lambda>g2.
         rbind (deref (n_label n)) (\<lambda>_. mutEdge (loopLabel self n) e g2)))))
       else Inr g)"

definition positionSelfEdges :: "layoutGraph \<Rightarrow> layoutGraph result" where
  "positionSelfEdges g = rfold positionSelf (nodes g) g"

section \<open>Removing\<close>

definition isLoop :: "edgeObj \<Rightarrow> bool" where
  "isLoop e \<longleftrightarrow> e_v e = e_w e"

definition loopsAt :: "layoutGraph \<Rightarrow> string \<Rightarrow> edgeObj list \<Rightarrow> (edgeObj \<times> layoutEdge option) list" where
  "loopsAt g v es = map (\<lambda>e. (e, edgeOfObj e g)) (filter (\<lambda>e. isLoop e \<and> e_v e = v) es)"

definition withLoops :: "(edgeObj \<times> layoutEdge option) list \<Rightarrow> layoutNode \<Rightarrow> layoutNode" where
  "withLoops ls n = n\<lparr>n_selfEdges := (if ls = [] then None else Some ls)\<rparr>"

lemma removeSelfEdges_ok:
  assumes ok: "layout_ok g" and nodes: "\<And>v. v \<in> node_set g \<Longrightarrow> \<exists>n. abs_nodes g v = Some (Some n) \<and> n_selfEdges n = None"
  shows "\<exists>h. removeSelfEdges g = Inr h \<and> layout_ok h \<and> f_label h = f_label g \<and>
    (\<forall>e. abs_edges h e = (if isLoop e then None else abs_edges g e)) \<and>
    (\<forall>v. abs_nodes h v = map_option (map_option (withLoops (loopsAt g v (edges g)))) (abs_nodes g v))"
proof -
  let ?P = "\<lambda>ys h. layout_ok h \<and> f_label h = f_label g \<and> (\<forall>e. abs_edges h e = (if isLoop e \<and> e \<in> set ys then None else abs_edges g e)) \<and>
    (\<forall>v. abs_nodes h v = map_option (map_option (withLoops (loopsAt g v ys))) (abs_nodes g v))"
  have dist: "distinct (edges g)" by (rule distinct_edges [OF layout_okD(1) [OF ok]])
  have "\<exists>h. rfold removeSelfEdge (edges g) g = Inr h \<and> ?P (edges g) h"
  proof (rule rfold_prefix_invariant [where P = ?P])
    have "map_option (map_option (withLoops [])) (abs_nodes g v) = abs_nodes g v" for v
    proof (cases "v \<in> node_set g")
      case True
      then show ?thesis using nodes [OF True] by (auto simp: withLoops_def)
    next
      case False
      then have "abs_nodes g v = None" by (simp add: node_set_abs domIff)
      then show ?thesis by simp
    qed
    then show "?P [] g" using ok by (simp add: loopsAt_def)
  next
    fix ys e zs h assume split: "edges g = ys @ e # zs" and P: "?P ys h"
    have e: "e \<in> set (edges g)" "e \<notin> set ys" using split dist by auto
    show "\<exists>h'. removeSelfEdge e h = Inr h' \<and> ?P (ys @ [e]) h'"
    proof (cases "isLoop e")
      case False
      then have "?P (ys @ [e]) h" using P by (auto simp: loopsAt_def)
      then show ?thesis using False by (auto simp: removeSelfEdge_def isLoop_def)
    next
      case True
      have ge: "abs_edges g e = Some (edgeOfObj e g)" using abs_edge_label [OF layout_okD(1) [OF ok] e(1)] .
      then have he: "abs_edges h e = Some (edgeOfObj e g)" using P e(2) by simp
      have hok: "graph_ok h" using P by (simp add: layout_ok_def)
      have "e \<in> set (edges h)" using dom_abs_edges [OF hok] he by auto
      then have same: "edgeOfObj e h = edgeOfObj e g" using abs_edge_label [OF hok] he by auto
      obtain n where n: "abs_nodes g (e_v e) = Some (Some n)" "n_selfEdges n = None" using nodes edges_ends [OF layout_okD(1) [OF ok] e(1)] by blast
      let ?ls = "loopsAt g (e_v e) ys"
      have hn: "abs_nodes h (e_v e) = Some (Some (withLoops ?ls n))" using P n(1) by simp
      have push: "pushSelf e (edgeOfObj e h) (withLoops ?ls n) = withLoops (loopsAt g (e_v e) (ys @ [e])) n"
        using True by (simp add: pushSelf_def withLoops_def loopsAt_def same)
      obtain h1 where h1: "mutNode (pushSelf e (edgeOfObj e h)) (e_v e) h = Inr h1" "layout_ok h1" "same_flags h h1"
        "abs_nodes h1 = (abs_nodes h)(e_v e \<mapsto> Some (withLoops (loopsAt g (e_v e) (ys @ [e])) n))" "abs_edges h1 = abs_edges h"
        using layout_mutNode [OF _ hn, of "pushSelf e (edgeOfObj e h)"] P push by auto
      obtain h2 where h2: "removeEdgeObj e h1 = Inr h2" "layout_ok h2" "same_flags h1 h2" "abs_nodes h2 = abs_nodes h1" "abs_edges h2 = (abs_edges h1)(e := None)"
        using layout_removeEdge [OF h1(2), of e] h1(5) he by auto
      have "abs_nodes h2 v = map_option (map_option (withLoops (loopsAt g v (ys @ [e])))) (abs_nodes g v)" for v
        using P h2(4) h1(4) n(1) by (cases "v = e_v e") (auto simp: loopsAt_def)
      moreover have "abs_edges h2 f = (if isLoop f \<and> f \<in> set (ys @ [e]) then None else abs_edges g f)" for f
        using P h2(5) h1(5) True by auto
      moreover have "f_label h2 = f_label g" using P h1(3) h2(3) by (simp add: same_flags_def)
      ultimately have "?P (ys @ [e]) h2" using h2(2) by blast
      moreover have "removeSelfEdge e h = Inr h2" using True h1(1) h2(1) by (simp add: removeSelfEdge_def isLoop_def)
      ultimately show ?thesis by blast
    qed
  qed
  then obtain h where h: "rfold removeSelfEdge (edges g) g = Inr h" "?P (edges g) h" by blast
  have "abs_edges h e = (if isLoop e then None else abs_edges g e)" for e
  proof (cases "e \<in> set (edges g)")
    case False
    then have "abs_edges g e = None" by (simp add: abs_edges_def)
    then show ?thesis using h(2) by simp
  qed (use h(2) in simp)
  then show ?thesis using h unfolding removeSelfEdges_def by blast
qed

section \<open>Inserting\<close>

lemma addDummyNode_layout:
  assumes ok: "layout_ok g" and name: "name \<noteq> []" "hd name = CHR ''_''"
  shows "\<exists>d h c'. addDummyNode type attrs name (g, c) = Inr (d, h, c') \<and> d \<notin> node_set g \<and>
    layout_ok h \<and> f_label h = f_label g \<and> abs_nodes h = (abs_nodes g)(d \<mapsto> Some (attrs\<lparr>n_dummy := Some type\<rparr>)) \<and> abs_edges h = abs_edges g"
proof -
  obtain i where i: "freshId (length (nodes g) + 1) name g c = Inr (name @ nat_str i, i)" "name @ nat_str i \<notin> node_set g"
    using fresh_dummy [OF layout_okD(1) [OF ok]] by blast
  have d: "name @ nat_str i \<noteq> GRAPH_NODE" using name by (auto simp: GRAPH_NODE_def neq_Nil_conv)
  from layout_setNode [OF ok d, of "Some (attrs\<lparr>n_dummy := Some type\<rparr>)"] i show ?thesis
    by (auto simp: addDummyNode_def same_flags_def)
qed

definition selfDummy :: "int option \<Rightarrow> nat \<Rightarrow> edgeObj \<times> layoutEdge option \<Rightarrow> layoutNode" where
  "selfDummy rank pos se = (selfAttrs rank pos (fst se) (the (snd se)))\<lparr>n_dummy := Some ''selfedge''\<rparr>"

lemma insertSelf_all:
  "layout_ok k \<Longrightarrow> \<forall>se \<in> set es. snd se \<noteq> None \<Longrightarrow>
   \<exists>ds k' c'. rfold (insertSelf rank i) es (k, c, shift) = Inr (k', c', shift + length es) \<and> length ds = length es \<and> distinct ds \<and>
     set ds \<inter> node_set k = {} \<and> layout_ok k' \<and> f_label k' = f_label k \<and> abs_edges k' = abs_edges k \<and>
     (\<forall>x. x \<notin> set ds \<longrightarrow> abs_nodes k' x = abs_nodes k x) \<and>
     (\<forall>j < length ds. abs_nodes k' (ds ! j) = Some (Some (selfDummy rank (i + shift + 1 + j) (es ! j))))"
proof (induction es arbitrary: k c shift)
  case (Cons se es)
  obtain e l where se: "se = (e, Some l)" using Cons.prems(2) by (cases se) auto
  obtain d k1 c1 where k1: "addDummyNode ''selfedge'' (selfAttrs rank (i + (shift + 1)) e l) ''_se'' (k, c) = Inr (d, k1, c1)" "d \<notin> node_set k"
    "layout_ok k1" "f_label k1 = f_label k" "abs_nodes k1 = (abs_nodes k)(d \<mapsto> Some (selfDummy rank (i + shift + 1) se))" "abs_edges k1 = abs_edges k"
    using addDummyNode_layout [OF Cons.prems(1), of "''_se''" "''selfedge''" "selfAttrs rank (i + (shift + 1)) e l" c] by (auto simp: selfDummy_def se)
  obtain ds k2 c2 where k2: "rfold (insertSelf rank i) es (k1, c1, shift + 1) = Inr (k2, c2, shift + 1 + length es)" "length ds = length es" "distinct ds"
    "set ds \<inter> node_set k1 = {}" "layout_ok k2" "f_label k2 = f_label k1" "abs_edges k2 = abs_edges k1"
    "\<forall>x. x \<notin> set ds \<longrightarrow> abs_nodes k2 x = abs_nodes k1 x"
    "\<forall>j < length ds. abs_nodes k2 (ds ! j) = Some (Some (selfDummy rank (i + (shift + 1) + 1 + j) (es ! j)))"
    using Cons.IH [OF k1(3), of c1 "shift + 1"] Cons.prems(2) by auto
  have ns: "node_set k1 = insert d (node_set k)" using k1(5) by (auto simp: node_set_abs)
  have d: "d \<notin> set ds" using k2(4) ns by auto
  have "insertSelf rank i se (k, c, shift) = Inr (k1, c1, shift + 1)" using k1(1) by (simp add: insertSelf_def se)
  then have run: "rfold (insertSelf rank i) (se # es) (k, c, shift) = Inr (k2, c2, shift + length (se # es))" using k2(1) by simp
  have "abs_nodes k2 ((d # ds) ! j) = Some (Some (selfDummy rank (i + shift + 1 + j) ((se # es) ! j)))" if "j < length (d # ds)" for j
    using that k2(8,9) k1(5) d by (cases j) auto
  moreover have "abs_nodes k2 x = abs_nodes k x" if "x \<notin> set (d # ds)" for x using that k2(8) k1(5) by simp
  moreover have "set (d # ds) \<inter> node_set k = {}" using k1(2) k2(4) ns by auto
  ultimately show ?case using run k2(2,3,5-7) k1(4,6) d by (intro exI [of _ "d # ds"] exI [of _ k2] exI [of _ c2]) simp
qed simp

text \<open>The nodes \<open>Z\<close> have been treated: \<open>D v\<close> are the dummies of the node \<open>v\<close>, and \<open>p v\<close> is its new position.\<close>

definition loopsOf :: "layoutGraph \<Rightarrow> string \<Rightarrow> (edgeObj \<times> layoutEdge option) list" where
  "loopsOf h v = (case node v h of Some n \<Rightarrow> each (n_selfEdges n) | None \<Rightarrow> [])"

definition placed :: "layoutGraph \<Rightarrow> string \<Rightarrow> string list \<Rightarrow> nat \<Rightarrow> layoutGraph \<Rightarrow> bool" where
  "placed h v ds pos k \<longleftrightarrow> length ds = length (loopsOf h v) \<and>
     (\<exists>n. node v h = Some n \<and> abs_nodes k v = Some (Some ((withOrder pos n)\<lparr>n_selfEdges := None\<rparr>))) \<and>
     (\<forall>j < length ds. abs_nodes k (ds ! j) = Some (Some (selfDummy (rankOf h v) (pos + 1 + j) (loopsOf h v ! j))))"

definition ins_inv :: "layoutGraph \<Rightarrow> string list \<Rightarrow> (string \<Rightarrow> string list) \<Rightarrow> (string \<Rightarrow> nat) \<Rightarrow> layoutGraph \<Rightarrow> bool" where
  "ins_inv h Z D p k \<longleftrightarrow> layout_ok k \<and> f_label k = f_label h \<and> abs_edges k = abs_edges h \<and> distinct (concat (map D Z)) \<and>
     set (concat (map D Z)) \<inter> node_set h = {} \<and> node_set k = node_set h \<union> set (concat (map D Z)) \<and>
     (\<forall>v \<in> set Z. placed h v (D v) (p v) k) \<and> (\<forall>v \<in> node_set h. v \<notin> set Z \<longrightarrow> abs_nodes k v = abs_nodes h v)"

lemma ins_invD:
  assumes "ins_inv h Z D p k"
  shows "layout_ok k" "f_label k = f_label h" "abs_edges k = abs_edges h" "distinct (concat (map D Z))"
    "set (concat (map D Z)) \<inter> node_set h = {}" "node_set k = node_set h \<union> set (concat (map D Z))"
    "\<And>v. v \<in> set Z \<Longrightarrow> placed h v (D v) (p v) k" "\<And>v. v \<in> node_set h \<Longrightarrow> v \<notin> set Z \<Longrightarrow> abs_nodes k v = abs_nodes h v"
  using assms unfolding ins_inv_def by blast+

lemma placed_same: "placed h v ds pos k \<Longrightarrow> (\<And>x. x \<in> insert v (set ds) \<Longrightarrow> abs_nodes k' x = abs_nodes k x) \<Longrightarrow> placed h v ds pos k'"
  by (auto simp: placed_def)

lemma insertAtNode_ok:
  assumes inv: "ins_inv h Z D p k" and v: "v \<in> node_set h" "v \<notin> set Z" "node v h = Some n" and Z: "set Z \<subseteq> node_set h"
    and loops: "\<forall>se \<in> set (loopsOf h v). snd se \<noteq> None"
  shows "\<exists>ds k' c'. insertAtNode (v, i) (k, c, shift) = Inr (k', c', shift + length ds) \<and> ins_inv h (Z @ [v]) (D(v := ds)) (p(v := i + shift)) k'"
proof -
  note I = ins_invD [OF inv]
  let ?es = "loopsOf h v"
  have es: "?es = each (n_selfEdges n)" using v(3) by (simp add: loopsOf_def)
  have "abs_nodes h v = Some (Some n)" using v(1,3) by (auto simp: node_def abs_nodes_def node_set_abs split: option.splits)
  then have kv: "abs_nodes k v = Some (Some n)" using I(8) [OF v(1,2)] by simp
  obtain k1 where k1: "mutNode (withOrder (i + shift)) v k = Inr k1" "layout_ok k1" "same_flags k k1"
    "abs_nodes k1 = (abs_nodes k)(v \<mapsto> Some (withOrder (i + shift) n))" "abs_edges k1 = abs_edges k" using layout_mutNode [OF I(1) kv] by blast
  have ns1: "node_set k1 = node_set k" using k1(4) kv by (auto simp: node_set_abs)
  obtain ds k2 c2 where k2: "rfold (insertSelf (n_rank n) i) ?es (k1, c, shift) = Inr (k2, c2, shift + length ?es)" "length ds = length ?es" "distinct ds"
    "set ds \<inter> node_set k1 = {}" "layout_ok k2" "f_label k2 = f_label k1" "abs_edges k2 = abs_edges k1"
    "\<And>x. x \<notin> set ds \<Longrightarrow> abs_nodes k2 x = abs_nodes k1 x"
    "\<forall>j < length ds. abs_nodes k2 (ds ! j) = Some (Some (selfDummy (n_rank n) (i + shift + 1 + j) (?es ! j)))"
    using insertSelf_all [OF k1(2) loops, of "n_rank n" i c shift] by blast
  have vd: "v \<notin> set ds" using k2(4) ns1 kv by (auto simp: node_set_abs)
  have k2v: "abs_nodes k2 v = Some (Some (withOrder (i + shift) n))" using k2(8) [OF vd] k1(4) by simp
  obtain k3 where k3: "mutNode (\<lambda>n. n\<lparr>n_selfEdges := None\<rparr>) v k2 = Inr k3" "layout_ok k3" "same_flags k2 k3"
    "abs_nodes k3 = (abs_nodes k2)(v \<mapsto> Some ((withOrder (i + shift) n)\<lparr>n_selfEdges := None\<rparr>))" "abs_edges k3 = abs_edges k2" using layout_mutNode [OF k2(5) k2v] by blast
  have nk: "node v k = Some n" using kv by (simp add: node_def abs_nodes_def)
  have run: "insertAtNode (v, i) (k, c, shift) = Inr (k3, c2, shift + length ds)"
    using nk k1(1) k2(1) k3(1) es k2(2) by (simp add: insertAtNode_def)
  have far: "abs_nodes k3 x = abs_nodes k x" if "x \<notin> insert v (set ds)" for x using that k3(4) k2(8) [of x] k1(4) by simp
  let ?D = "D(v := ds)" and ?p = "p(v := i + shift)"
  have mapD: "map ?D (Z @ [v]) = map D Z @ [ds]" using v(2) by auto
  have fresh: "set ds \<inter> (node_set h \<union> set (concat (map D Z))) = {}" using k2(4) ns1 I(6) by simp
  have place: "placed h x (?D x) (?p x) k3" if x: "x \<in> set (Z @ [v])" for x
  proof (cases "x = v")
    case True
    have "abs_nodes k3 (ds ! j) = Some (Some (selfDummy (rankOf h v) (i + shift + 1 + j) (?es ! j)))" if j: "j < length ds" for j
    proof -
      have "ds ! j \<noteq> v" using vd nth_mem [OF j] by metis
      then show ?thesis using k3(4) k2(9) j v(3) by (simp add: rankOf_def)
    qed
    then show ?thesis using True k2(2) v(3) k3(4) by (simp add: placed_def)
  next
    case False
    then have xZ: "x \<in> set Z" using x by simp
    have "abs_nodes k3 y = abs_nodes k y" if y: "y \<in> insert x (set (D x))" for y
    proof (rule far)
      have "y \<in> node_set h \<and> y \<noteq> v \<or> y \<in> set (concat (map D Z))" using y xZ Z False by auto
      then show "y \<notin> insert v (set ds)" using fresh I(5) v(1) by auto
    qed
    then show ?thesis using placed_same [OF I(7) [OF xZ]] False by simp
  qed
  have dom3: "node_set k3 = node_set k \<union> set ds"
  proof -
    have "x \<in> node_set k3 \<longleftrightarrow> x \<in> node_set k \<union> set ds" for x
    proof (cases "x \<in> set ds")
      case True
      then obtain j where "j < length ds" "x = ds ! j" by (auto simp: in_set_conv_nth)
      then show ?thesis using True k2(9) k3(4) by (auto simp: node_set_abs)
    next
      case False
      then show ?thesis using far [of x] kv k3(4) by (cases "x = v") (simp_all add: node_set_abs domIff)
    qed
    then show ?thesis by blast
  qed
  have "ins_inv h (Z @ [v]) ?D ?p k3" unfolding ins_inv_def
  proof (intro conjI ballI impI)
    show "distinct (concat (map ?D (Z @ [v])))" "set (concat (map ?D (Z @ [v]))) \<inter> node_set h = {}" "node_set k3 = node_set h \<union> set (concat (map ?D (Z @ [v])))"
      unfolding mapD using I(4-6) k2(3) fresh dom3 by auto
    show "f_label k3 = f_label h" using I(2) k1(3) k2(6) k3(3) by (simp add: same_flags_def)
    show "abs_nodes k3 x = abs_nodes h x" if "x \<in> node_set h" "x \<notin> set (Z @ [v])" for x
      using that I(8) [of x] far [of x] fresh by auto
  qed (use place k3(2,5) k2(7) k1(5) I(3) in simp_all)
  then show ?thesis using run by blast
qed

text \<open>A layer with the dummies beside their nodes.\<close>

definition extended :: "(string \<Rightarrow> string list) \<Rightarrow> string list \<Rightarrow> string list" where
  "extended D layer = concat (map (\<lambda>u. u # D u) layer)"

definition spread :: "(string \<Rightarrow> string list) \<Rightarrow> (string \<Rightarrow> nat) \<Rightarrow> string list \<Rightarrow> bool" where
  "spread D p layer \<longleftrightarrow> (\<forall>i < length layer. p (layer ! i) = length (extended D (take i layer)))"

lemma extended_cong: "(\<And>u. u \<in> set layer \<Longrightarrow> D u = D' u) \<Longrightarrow> extended D layer = extended D' layer"
  unfolding extended_def by (intro arg_cong [where f = concat] map_cong) simp_all

lemma spread_cong:
  assumes "\<And>u. u \<in> set layer \<Longrightarrow> D u = D' u \<and> p u = p' u"
  shows "spread D p layer = spread D' p' layer"
proof -
  have "extended D (take i layer) = extended D' (take i layer)" for i using assms in_set_takeD by (intro extended_cong) fast
  then show ?thesis using assms nth_mem unfolding spread_def by metis
qed

lemma spread_snoc:
  assumes "spread D p layer" "p v = length (extended D layer)"
  shows "spread D p (layer @ [v])"
  unfolding spread_def
proof (intro allI impI)
  fix i assume i: "i < length (layer @ [v])"
  show "p ((layer @ [v]) ! i) = length (extended D (take i (layer @ [v])))"
    using assms i unfolding spread_def by (cases "i = length layer") (auto simp: nth_append)
qed

lemma insertInLayer_ok:
  assumes inv: "ins_inv h Z D p k" and Z: "set Z \<subseteq> node_set h" and layer: "distinct layer" "set layer \<subseteq> node_set h" "set layer \<inter> set Z = {}"
    and lab: "\<And>v. v \<in> node_set h \<Longrightarrow> node v h \<noteq> None" and loops: "\<And>v se. v \<in> node_set h \<Longrightarrow> se \<in> set (loopsOf h v) \<Longrightarrow> snd se \<noteq> None"
  shows "\<exists>D' p' k' c'. insertInLayer (map Some layer) (k, c) = Inr (k', c') \<and> ins_inv h (Z @ layer) D' p' k' \<and>
    (\<forall>v \<in> set Z. D' v = D v \<and> p' v = p v) \<and> spread D' p' layer"
proof -
  let ?ps = "zip layer [0..<length layer]"
  let ?Q = "\<lambda>ys (k1, c1 :: nat, shift). \<exists>D' p'. ins_inv h (Z @ map fst ys) D' p' k1 \<and> (\<forall>v \<in> set Z. D' v = D v \<and> p' v = p v) \<and>
     length ys + shift = length (extended D' (map fst ys)) \<and> spread D' p' (map fst ys)"
  have "\<exists>s. rfold insertAtNode ?ps (k, c, 0) = Inr s \<and> ?Q ?ps s"
  proof (rule rfold_prefix_invariant [where P = ?Q])
    show "?Q [] (k, c, 0)" using inv by (auto simp: extended_def spread_def)
  next
    fix ys x zs s assume split: "?ps = ys @ x # zs" and Q: "?Q ys s"
    obtain k1 c1 shift where s: "s = (k1, c1, shift)" by (cases s) auto
    obtain D1 p1 where Q1: "ins_inv h (Z @ map fst ys) D1 p1 k1" "\<forall>v \<in> set Z. D1 v = D v \<and> p1 v = p v"
      "length ys + shift = length (extended D1 (map fst ys))" "spread D1 p1 (map fst ys)" using Q s by auto
    have names: "layer = map fst ys @ fst x # map fst zs" using arg_cong [OF split, of "map fst"] by simp
    have "map snd (ys @ x # zs) = [0..<length layer]" unfolding split [symmetric] by simp
    then have "snd x = [0..<length layer] ! length ys" by (metis length_map list.simps(9) map_append nth_append_length)
    moreover have "length ys < length layer" using names by (metis length_append length_map less_add_same_cancel1 list.size(4) zero_less_Suc add_Suc_right add_gr_0)
    ultimately have ix: "x = (fst x, length ys)" by (simp add: prod_eq_iff)
    have v: "fst x \<in> node_set h" "fst x \<notin> set (Z @ map fst ys)" using layer names by auto
    obtain n where n: "node (fst x) h = Some n" using lab [OF v(1)] by blast
    have sub: "set (Z @ map fst ys) \<subseteq> node_set h" using Z layer(2) names by auto
    obtain ds k2 c2 where k2: "insertAtNode (fst x, length ys) (k1, c1, shift) = Inr (k2, c2, shift + length ds)"
      "ins_inv h ((Z @ map fst ys) @ [fst x]) (D1(fst x := ds)) (p1(fst x := length ys + shift)) k2"
      using insertAtNode_ok [OF Q1(1) v n sub] loops [OF v(1)] by blast
    let ?D = "D1(fst x := ds)" and ?p = "p1(fst x := length ys + shift)"
    have old: "?D u = D1 u" "?p u = p1 u" if "u \<in> set (map fst ys)" for u
    proof -
      have "u \<noteq> fst x" using that v(2) by (metis Un_iff set_append)
      then show "?D u = D1 u" "?p u = p1 u" by simp_all
    qed
    have e1: "extended ?D (map fst ys) = extended D1 (map fst ys)" using old(1) by (rule extended_cong)
    have "spread ?D ?p (map fst ys)" using Q1(4) spread_cong [of "map fst ys" ?D D1 ?p p1] old by blast
    then have "spread ?D ?p (map fst ys @ [fst x])" by (rule spread_snoc) (simp add: e1 Q1(3))
    moreover have "length (ys @ [x]) + (shift + length ds) = length (extended ?D (map fst (ys @ [x])))" using e1 Q1(3) by (simp add: extended_def)
    moreover have "\<forall>u \<in> set Z. ?D u = D u \<and> ?p u = p u" using Q1(2) v(2) by auto
    moreover have "ins_inv h (Z @ map fst (ys @ [x])) ?D ?p k2" using k2(2) by simp
    moreover have "map fst (ys @ [x]) = map fst ys @ [fst x]" by simp
    ultimately have "?Q (ys @ [x]) (k2, c2, shift + length ds)" unfolding case_prod_conv by (intro exI [of _ ?D] exI [of _ ?p]) metis
    moreover have "insertAtNode x s = Inr (k2, c2, shift + length ds)" using k2(1) ix s by metis
    ultimately show "\<exists>s'. insertAtNode x s = Inr s' \<and> ?Q (ys @ [x]) s'" by blast
  qed
  then obtain s where s: "rfold insertAtNode ?ps (k, c, 0) = Inr s" "?Q ?ps s" by blast
  obtain k1 c1 sh where seq: "s = (k1, c1, sh)" by (cases s) auto
  have names: "map fst ?ps = layer" by simp
  from s(2) obtain D' p' where "ins_inv h (Z @ layer) D' p' k1" "\<forall>v \<in> set Z. D' v = D v \<and> p' v = p v" "spread D' p' layer"
    unfolding seq case_prod_conv names by blast
  moreover have "map keyOf (map Some layer) = layer" by (simp add: keyOf_def comp_def)
  then have "insertInLayer (map Some layer) (k, c) = Inr (k1, c1)" using s(1) seq by (simp add: insertInLayer_def)
  ultimately show ?thesis by blast
qed

lemma insertLayers_ok:
  assumes h: "layout_ok h" and layers: "distinct (concat layers)" "set (concat layers) \<subseteq> node_set h"
    and lab: "\<And>v. v \<in> node_set h \<Longrightarrow> node v h \<noteq> None" and loops: "\<And>v se. v \<in> node_set h \<Longrightarrow> se \<in> set (loopsOf h v) \<Longrightarrow> snd se \<noteq> None"
  shows "\<exists>D p k c'. rfold insertInLayer (map (map Some) layers) (h, c) = Inr (k, c') \<and> ins_inv h (concat layers) D p k \<and> (\<forall>layer \<in> set layers. spread D p layer)"
proof -
  let ?Q = "\<lambda>ys (k, c :: nat). \<exists>D p. ins_inv h (concat ys) D p k \<and> (\<forall>layer \<in> set ys. spread D p layer)"
  have "\<exists>s. rfold (\<lambda>layer. insertInLayer (map Some layer)) layers (h, c) = Inr s \<and> ?Q layers s"
  proof (rule rfold_prefix_invariant [where P = ?Q])
    show "?Q [] (h, c)" using h by (auto simp: ins_inv_def)
  next
    fix ys layer zs s assume split: "layers = ys @ layer # zs" and Q: "?Q ys s"
    obtain k c1 where s: "s = (k, c1)" by (cases s)
    obtain D p where Q1: "ins_inv h (concat ys) D p k" "\<forall>l \<in> set ys. spread D p l" using Q s by auto
    have L: "set (concat ys) \<subseteq> node_set h" "distinct layer" "set layer \<subseteq> node_set h" "set layer \<inter> set (concat ys) = {}" using layers split by auto
    obtain D' p' k' c' where k': "insertInLayer (map Some layer) (k, c1) = Inr (k', c')" "ins_inv h (concat ys @ layer) D' p' k'"
      "\<forall>v \<in> set (concat ys). D' v = D v \<and> p' v = p v" "spread D' p' layer" using insertInLayer_ok [OF Q1(1) L] lab loops by blast
    have "spread D' p' l" if "l \<in> set ys" for l
    proof -
      have "D' u = D u \<and> p' u = p u" if "u \<in> set l" for u using that \<open>l \<in> set ys\<close> k'(3) by auto
      then show ?thesis using spread_cong [of l D' D p' p] Q1(2) \<open>l \<in> set ys\<close> by blast
    qed
    then have "?Q (ys @ [layer]) (k', c')" using k'(2,4) by auto
    then show "\<exists>s'. insertInLayer (map Some layer) s = Inr s' \<and> ?Q (ys @ [layer]) s'" using k'(1) s by blast
  qed
  moreover have "rfold insertInLayer (map (map Some) ls) s = rfold (\<lambda>layer. insertInLayer (map Some layer)) ls s" for ls s
  proof (induction ls arbitrary: s)
    case (Cons l ls)
    then have "rfold insertInLayer (map (map Some) ls) = rfold (\<lambda>layer. insertInLayer (map Some layer)) ls" by (rule ext)
    then show ?case by simp
  qed simp
  ultimately show ?thesis by auto
qed

lemma extended_snoc: "extended D (layer @ [v]) = extended D layer @ v # D v"
  by (simp add: extended_def)

lemma extended_set: "set (extended D layer) = (\<Union>u \<in> set layer. insert u (set (D u)))"
  by (simp add: extended_def)

lemma extended_nth:
  "m < length (extended D layer) \<Longrightarrow> \<exists>i < length layer.
     m = length (extended D (take i layer)) \<and> extended D layer ! m = layer ! i \<or>
     (\<exists>j < length (D (layer ! i)). m = length (extended D (take i layer)) + 1 + j \<and> extended D layer ! m = D (layer ! i) ! j)"
proof (induction layer rule: rev_induct)
  case (snoc v layer)
  show ?case
  proof (cases "m < length (extended D layer)")
    case True
    from snoc.IH [OF this] obtain i where i: "i < length layer"
      "m = length (extended D (take i layer)) \<and> extended D layer ! m = layer ! i \<or>
       (\<exists>j < length (D (layer ! i)). m = length (extended D (take i layer)) + 1 + j \<and> extended D layer ! m = D (layer ! i) ! j)" by blast
    then show ?thesis using True by (intro exI [of _ i]) (simp add: extended_snoc nth_append)
  next
    case False
    define q where "q = m - length (extended D layer)"
    have q: "m = length (extended D layer) + q" "q < Suc (length (D v))" using False snoc.prems by (simp_all add: q_def extended_snoc)
    have at: "extended D (layer @ [v]) ! m = (v # D v) ! q" unfolding extended_snoc q(1) by simp
    show ?thesis using q at by (intro exI [of _ "length layer"]) (cases q, auto)
  qed
qed (simp add: extended_def)

lemma extended_distinct:
  assumes "distinct layer" "distinct (concat (map D layer))" "set (concat (map D layer)) \<inter> set layer = {}"
  shows "distinct (extended D layer)"
  using assms by (induction layer rule: rev_induct) (auto simp: extended_snoc extended_set, (simp add: extended_def)+)

text \<open>A graph whose orders are positions in layers, as the ordering leaves it.\<close>

definition in_layers :: "layoutGraph \<Rightarrow> string list list \<Rightarrow> bool" where
  "in_layers h layers \<longleftrightarrow> layout_ok h \<and> (\<forall>v \<in> node_set h. node v h \<noteq> None) \<and>
     layered h {v \<in> node_set h. rankOf h v \<noteq> None} layers \<and>
     (\<forall>v \<in> node_set h. \<forall>k. rankOf h v = Some k \<longrightarrow> (\<exists>r < length layers. k = int r)) \<and>
     length layers = length (emptyLayers (lodash_max (map (rankOf h) (nodes h))) :: string list list) \<and>
     (\<forall>r < length layers. \<forall>i < length (layers ! r). \<forall>l. node (layers ! r ! i) h = Some l \<longrightarrow> n_order l = Some (int i))"

lemma in_layersD:
  assumes "in_layers h layers"
  shows "layout_ok h" "\<And>v. v \<in> node_set h \<Longrightarrow> node v h \<noteq> None" "layered h {v \<in> node_set h. rankOf h v \<noteq> None} layers"
    "\<And>v k. v \<in> node_set h \<Longrightarrow> rankOf h v = Some k \<Longrightarrow> \<exists>r < length layers. k = int r"
    "length layers = length (emptyLayers (lodash_max (map (rankOf h) (nodes h))) :: string list list)"
    "\<And>r i l. r < length layers \<Longrightarrow> i < length (layers ! r) \<Longrightarrow> node (layers ! r ! i) h = Some l \<Longrightarrow> n_order l = Some (int i)"
  using assms unfolding in_layers_def by blast+

lemma in_layers_matrix: "in_layers h layers \<Longrightarrow> buildLayerMatrix h = Inr (map (map Some) layers)"
  using in_layersD [of h layers] layout_okD(1) by (intro buildLayerMatrix_ok) blast+

lemma in_layers_row:
  assumes "in_layers h layers" "r < length layers"
  shows "distinct (layers ! r)" "set (layers ! r) = {v \<in> node_set h. rankOf h v = Some (int r)}"
  using in_layersD(3) [OF assms(1)] assms(2) unfolding layered_def by auto

lemma node_of_abs: "abs_nodes k x = Some (Some n) \<Longrightarrow> node x k = Some n"
  by (simp add: node_def abs_nodes_def)

text \<open>The ranks after the insertion.\<close>

lemma inserted_ranks:
  assumes h: "in_layers h layers" and inv: "ins_inv h (concat layers) D p k"
  shows "\<And>v. v \<in> node_set h \<Longrightarrow> rankOf k v = rankOf h v" "\<And>u d. u \<in> set (concat layers) \<Longrightarrow> d \<in> set (D u) \<Longrightarrow> rankOf k d = rankOf h u"
    "\<And>v. v \<in> node_set k \<Longrightarrow> node v k \<noteq> None"
proof -
  note H = in_layersD [OF h] and I = ins_invD [OF inv]
  show dummy: "rankOf k d = rankOf h u" if u: "u \<in> set (concat layers)" and d: "d \<in> set (D u)" for u d
  proof -
    obtain j where "j < length (D u)" "d = D u ! j" using d by (auto simp: in_set_conv_nth)
    then have "abs_nodes k d = Some (Some (selfDummy (rankOf h u) (p u + 1 + j) (loopsOf h u ! j)))" using I(7) [OF u] by (simp add: placed_def)
    from node_of_abs [OF this] show ?thesis by (simp add: rankOf_def selfDummy_def selfAttrs_def)
  qed
  show rk: "rankOf k v = rankOf h v" if v: "v \<in> node_set h" for v
  proof (cases "v \<in> set (concat layers)")
    case True
    then obtain n where n: "node v h = Some n" "abs_nodes k v = Some (Some ((withOrder (p v) n)\<lparr>n_selfEdges := None\<rparr>))" using I(7) unfolding placed_def by blast
    from node_of_abs [OF n(2)] n(1) show ?thesis by (simp add: rankOf_def withOrder_def)
  next
    case False
    then have "node v k = node v h" using I(8) [OF v] by (simp add: node_def abs_nodes_def)
    then show ?thesis by (simp add: rankOf_def)
  qed
  show "node v k \<noteq> None" if v: "v \<in> node_set k" for v
  proof -
    consider "v \<in> set (concat layers)" | "v \<in> node_set h" "v \<notin> set (concat layers)" | u where "u \<in> set (concat layers)" "v \<in> set (D u)"
      using v I(6) by auto
    then show ?thesis
    proof cases
      case 1
      then obtain n where "abs_nodes k v = Some (Some ((withOrder (p v) n)\<lparr>n_selfEdges := None\<rparr>))" using I(7) unfolding placed_def by blast
      from node_of_abs [OF this] show ?thesis by simp
    next
      case 2
      then have "node v k = node v h" using I(8) by (simp add: node_def abs_nodes_def)
      then show ?thesis using H(2) [OF 2(1)] by simp
    next
      case (3 u)
      then obtain j where j: "j < length (D u)" "v = D u ! j" by (auto simp: in_set_conv_nth)
      then have "abs_nodes k v = Some (Some (selfDummy (rankOf h u) (p u + 1 + j) (loopsOf h u ! j)))" using I(7) [OF 3(1)] by (simp add: placed_def)
      from node_of_abs [OF this] show ?thesis by simp
    qed
  qed
qed

lemma in_layers_mem:
  assumes "in_layers h layers"
  shows "u \<in> set (concat layers) \<longleftrightarrow> (\<exists>r < length layers. u \<in> set (layers ! r))" "u \<in> set (concat layers) \<Longrightarrow> u \<in> node_set h"
proof -
  show mem: "u \<in> set (concat layers) \<longleftrightarrow> (\<exists>r < length layers. u \<in> set (layers ! r))" for u by (auto simp: bex_nth)
  show "u \<in> set (concat layers) \<Longrightarrow> u \<in> node_set h" using mem in_layers_row(2) [OF assms] by blast
qed

lemma inserted_nodes:
  assumes inv: "ins_inv h Z D p k"
  shows "v \<in> node_set k \<longleftrightarrow> v \<in> node_set h \<or> (\<exists>u \<in> set Z. v \<in> set (D u))"
  using ins_invD(6) [OF inv] by auto

lemma inserted_row:
  assumes h: "in_layers h layers" and inv: "ins_inv h (concat layers) D p k" and r: "r < length layers"
  shows "distinct (extended D (layers ! r)) \<and> set (extended D (layers ! r)) = {v \<in> node_set k. rankOf k v = Some (int r)}"
proof -
  note I = ins_invD [OF inv] and R = inserted_ranks [OF h inv] and row = in_layers_row [OF h] and mem = in_layers_mem [OF h] and parts = inserted_nodes [OF inv]
  have "concat layers = concat (take r layers) @ layers ! r @ concat (drop (Suc r) layers)"
    by (subst id_take_nth_drop [OF r]) simp
  then have "distinct (concat (map D (layers ! r)))" using I(4) by simp
  moreover have "set (concat (map D (layers ! r))) \<inter> set (layers ! r) = {}"
  proof -
    have "set (concat (map D (layers ! r))) \<subseteq> set (concat (map D (concat layers)))" using mem(1) r by auto
    moreover have "set (layers ! r) \<subseteq> node_set h" using row(2) [OF r] by blast
    ultimately show ?thesis using I(5) by blast
  qed
  ultimately have "distinct (extended D (layers ! r))" using row(1) [OF r] by (intro extended_distinct)
  moreover have "v \<in> set (extended D (layers ! r)) \<longleftrightarrow> v \<in> node_set k \<and> rankOf k v = Some (int r)" for v
  proof
    assume "v \<in> set (extended D (layers ! r))"
    then obtain u where u: "u \<in> set (layers ! r)" "v = u \<or> v \<in> set (D u)" by (auto simp: extended_set)
    have uc: "u \<in> set (concat layers)" using u(1) mem(1) r by blast
    show "v \<in> node_set k \<and> rankOf k v = Some (int r)"
      using u(2) row(2) [OF r] u(1) R(1) R(2) [OF uc] uc parts by auto
  next
    assume v: "v \<in> node_set k \<and> rankOf k v = Some (int r)"
    then consider "v \<in> node_set h" | u where "u \<in> set (concat layers)" "v \<in> set (D u)" using parts by blast
    then show "v \<in> set (extended D (layers ! r))"
    proof cases
      case 1
      then have "v \<in> set (layers ! r)" using v R(1) row(2) [OF r] 1 by simp
      then show ?thesis by (auto simp: extended_set)
    next
      case (2 u)
      then have "u \<in> set (layers ! r)" using v R(2) [OF 2] row(2) [OF r] mem(2) [OF 2(1)] by simp
      then show ?thesis using 2(2) by (auto simp: extended_set)
    qed
  qed
  ultimately show ?thesis by blast
qed

lemma inserted_order:
  assumes h: "in_layers h layers" and inv: "ins_inv h (concat layers) D p k" and r: "r < length layers" and sp: "spread D p (layers ! r)"
    and m: "m < length (extended D (layers ! r))" and l: "node (extended D (layers ! r) ! m) k = Some l"
  shows "n_order l = Some (int m)"
proof -
  note I = ins_invD [OF inv]
  let ?L = "layers ! r"
    obtain i where i: "i < length ?L" "m = length (extended D (take i ?L)) \<and> extended D ?L ! m = ?L ! i \<or>
     (\<exists>j < length (D (?L ! i)). m = length (extended D (take i ?L)) + 1 + j \<and> extended D ?L ! m = D (?L ! i) ! j)"
    using extended_nth [of m D ?L] m by auto
  have pos: "p (?L ! i) = length (extended D (take i ?L))" using sp i(1) unfolding spread_def by blast
  have pl: "placed h (?L ! i) (D (?L ! i)) (p (?L ! i)) k" using I(7) in_layers_mem(1) [OF h] r nth_mem [OF i(1)] by blast
  from i(2) show ?thesis
  proof
    assume a: "m = length (extended D (take i ?L)) \<and> extended D ?L ! m = ?L ! i"
    obtain n where "abs_nodes k (?L ! i) = Some (Some ((withOrder (p (?L ! i)) n)\<lparr>n_selfEdges := None\<rparr>))" using pl unfolding placed_def by blast
    from node_of_abs [OF this] a l pos show ?thesis by (auto simp: withOrder_def)
  next
    assume "\<exists>j < length (D (?L ! i)). m = length (extended D (take i ?L)) + 1 + j \<and> extended D ?L ! m = D (?L ! i) ! j"
    then obtain j where j: "j < length (D (?L ! i))" "m = p (?L ! i) + 1 + j" "extended D ?L ! m = D (?L ! i) ! j" using pos by auto
    have "abs_nodes k (D (?L ! i) ! j) = Some (Some (selfDummy (rankOf h (?L ! i)) (p (?L ! i) + 1 + j) (loopsOf h (?L ! i) ! j)))"
      using pl j(1) unfolding placed_def by blast
    from node_of_abs [OF this] j(2,3) l show ?thesis by (auto simp: selfDummy_def selfAttrs_def)
  qed
qed

lemma inserted_layers:
  assumes h: "in_layers h layers" and inv: "ins_inv h (concat layers) D p k" and sp: "\<And>layer. layer \<in> set layers \<Longrightarrow> spread D p layer"
  shows "in_layers k (map (extended D) layers)"
proof -
  note H = in_layersD [OF h] and I = ins_invD [OF inv] and R = inserted_ranks [OF h inv] and parts = inserted_nodes [OF inv]
  let ?ext = "map (extended D) layers"
  have ranks: "\<exists>r < length ?ext. q = int r" if v: "v \<in> node_set k" and q: "rankOf k v = Some q" for v q
  proof -
    from v parts have "\<exists>u \<in> node_set h. rankOf h u = Some q" using q R(1) R(2) in_layers_mem(2) [OF h] by metis
    then show ?thesis using H(4) by auto
  qed
  have "Some x \<in> rankOf k ` node_set k \<longleftrightarrow> Some x \<in> rankOf h ` node_set h" for x
  proof
    assume "Some x \<in> rankOf k ` node_set k"
    then obtain v where v: "v \<in> node_set k" "rankOf k v = Some x" by auto
    from v(1) parts have "\<exists>u \<in> node_set h. rankOf h u = Some x" using v(2) R(1) R(2) in_layers_mem(2) [OF h] by metis
    then show "Some x \<in> rankOf h ` node_set h" by force
  next
    assume "Some x \<in> rankOf h ` node_set h"
    then obtain v where "v \<in> node_set h" "rankOf h v = Some x" by auto
    then show "Some x \<in> rankOf k ` node_set k" using R(1) parts by force
  qed
  then have mx: "lodash_max (map (rankOf k) (nodes k)) = lodash_max (map (rankOf h) (nodes h))" unfolding lodash_max_set by (simp add: nodes_set)
  show ?thesis unfolding in_layers_def
  proof (intro conjI ballI allI impI)
    have "{v \<in> {v \<in> node_set k. rankOf k v \<noteq> None}. rankOf k v = Some (int r)} = {v \<in> node_set k. rankOf k v = Some (int r)}" for r by auto
    then show "layered k {v \<in> node_set k. rankOf k v \<noteq> None} ?ext" using inserted_row [OF h inv] unfolding layered_def by simp
    show "length ?ext = length (emptyLayers (lodash_max (map (rankOf k) (nodes k))) :: string list list)" using H(5) mx by simp
    show "\<exists>r < length ?ext. q = int r" if "v \<in> node_set k" "rankOf k v = Some q" for v q using ranks [OF that] .
    show "n_order l = Some (int i)" if "r < length ?ext" "i < length (?ext ! r)" "node (?ext ! r ! i) k = Some l" for r i l
      using inserted_order [OF h inv, of r i l] sp that by simp
  qed (use I(1) R(3) in auto)
qed

section \<open>Positioning\<close>

text \<open>\<open>DD\<close> are the dummies of self edges and \<open>E\<close> are their edges.\<close>

definition self_dummies :: "layoutGraph \<Rightarrow> string set \<Rightarrow> (string \<Rightarrow> edgeObj) \<Rightarrow> bool" where
  "self_dummies m DD E \<longleftrightarrow> layout_ok m \<and> DD \<subseteq> node_set m \<and> inj_on E DD \<and>
     (\<forall>v \<in> node_set m. \<exists>n. abs_nodes m v = Some (Some n) \<and> (n_dummy n = Some ''selfedge'' \<longleftrightarrow> v \<in> DD) \<and>
        (v \<in> DD \<longrightarrow> n_e n = Some (E v) \<and> n_label n \<noteq> None)) \<and>
     (\<forall>d \<in> DD. isLoop (E d) \<and> clean_edge (E d) \<and> e_v (E d) \<in> node_set m - DD) \<and>
     (\<forall>e \<in> dom (abs_edges m). e_v e \<notin> DD \<and> e_w e \<notin> DD)"

lemma self_dummiesD:
  assumes "self_dummies m DD E"
  shows "layout_ok m" "DD \<subseteq> node_set m" "inj_on E DD"
    "\<And>v. v \<in> node_set m \<Longrightarrow> \<exists>n. abs_nodes m v = Some (Some n) \<and> (n_dummy n = Some ''selfedge'' \<longleftrightarrow> v \<in> DD) \<and>
        (v \<in> DD \<longrightarrow> n_e n = Some (E v) \<and> n_label n \<noteq> None)"
    "\<And>d. d \<in> DD \<Longrightarrow> isLoop (E d) \<and> clean_edge (E d) \<and> e_v (E d) \<in> node_set m - DD"
    "\<And>e. e \<in> dom (abs_edges m) \<Longrightarrow> e_v e \<notin> DD \<and> e_w e \<notin> DD"
  using assms unfolding self_dummies_def by blast+

definition drawnLoop :: "layoutGraph \<Rightarrow> string \<Rightarrow> edgeObj \<Rightarrow> layoutEdge" where
  "drawnLoop m d e = loopLabel (the (node (e_v e) m)) (the (node d m)) (the (n_label (the (node d m))))"

definition pos_inv :: "layoutGraph \<Rightarrow> string set \<Rightarrow> (string \<Rightarrow> edgeObj) \<Rightarrow> layoutGraph \<Rightarrow> bool" where
  "pos_inv m Y E r \<longleftrightarrow> layout_ok r \<and> (\<forall>v. abs_nodes r v = (if v \<in> Y then None else abs_nodes m v)) \<and>
     (\<forall>d \<in> Y. abs_edges r (E d) = Some (Some (drawnLoop m d (E d)))) \<and> (\<forall>e. e \<notin> E ` Y \<longrightarrow> abs_edges r e = abs_edges m e)"

lemma positionSelf_dummy:
  assumes S: "self_dummies m DD E" and inv: "pos_inv m Y E r" and Y: "Y \<subseteq> DD" and d: "d \<in> DD" "d \<notin> Y"
  shows "\<exists>r'. positionSelf d r = Inr r' \<and> pos_inv m (insert d Y) E r'"
proof -
  note M = self_dummiesD [OF S]
  have R: "layout_ok r" "\<And>v. abs_nodes r v = (if v \<in> Y then None else abs_nodes m v)" "\<And>d. d \<in> Y \<Longrightarrow> abs_edges r (E d) = Some (Some (drawnLoop m d (E d)))"
    "\<And>e. e \<notin> E ` Y \<Longrightarrow> abs_edges r e = abs_edges m e" using inv unfolding pos_inv_def by blast+
  obtain n l where n: "abs_nodes m d = Some (Some n)" "n_dummy n = Some ''selfedge''" "n_e n = Some (E d)" "n_label n = Some l" using M(2) M(4) [of d] d(1) by auto
  note e = M(5) [OF d(1)]
  let ?e = "E d"
  obtain self where self: "abs_nodes m (e_v ?e) = Some (Some self)" using M(4) [of "e_v ?e"] e by auto
  have rn: "abs_nodes r d = Some (Some n)" "abs_nodes r (e_v ?e) = Some (Some self)" using R(2) d(2) n(1) self e Y by auto
  have ends: "e_v ?e \<in> node_set r" "e_w ?e \<in> node_set r" "d \<in> node_set r" using rn e by (auto simp: node_set_abs isLoop_def)
  obtain r1 where r1: "setEdgeObj ?e (Some (Some l)) r = Inr r1" "layout_ok r1" "abs_nodes r1 = abs_nodes r" "abs_edges r1 = (abs_edges r)(?e \<mapsto> Some l)"
    using layout_setEdge [OF R(1) _ ends(1,2), of "Some l"] e by (auto simp: setEdgeObj_def)
  have d1: "d \<in> node_set r1" using ends(3) r1(3) by (simp add: node_set_abs)
  obtain r2 where r2: "removeNode d r1 = Inr r2" "layout_ok r2" "abs_nodes r2 = (abs_nodes r1)(d := None)"
    "abs_edges r2 = (\<lambda>e. if e_v e = d \<or> e_w e = d then None else abs_edges r1 e)" using layout_removeNode [OF r1(2) d1] by blast
  have far: "e_v f \<noteq> d \<and> e_w f \<noteq> d" if f: "f \<in> dom (abs_edges r1)" for f
  proof -
    have "abs_edges r1 f = abs_edges m f" if "f \<notin> E ` insert d Y" using that r1(4) R(4) [of f] by auto
    then consider "f \<in> E ` insert d Y" | "f \<in> dom (abs_edges m)" using f by (metis domIff)
    then show ?thesis
    proof cases
      case 1
      then obtain c where "f = E c" "c \<in> DD" using d(1) Y by auto
      then have "e_v f \<in> node_set m - DD" "e_w f = e_v f" using M(5) [of c] by (auto simp: isLoop_def)
      then show ?thesis using d(1) by auto
    next
      case 2
      from M(6) [OF 2] d(1) show ?thesis by auto
    qed
  qed
  have e2: "abs_edges r2 = abs_edges r1"
  proof
    fix f show "abs_edges r2 f = abs_edges r1 f" using r2(4) far [of f] by (cases "f \<in> dom (abs_edges r1)") (auto simp: domIff)
  qed
  obtain r3 where r3: "mutEdge (loopLabel self n) ?e r2 = Inr r3" "layout_ok r3" "abs_nodes r3 = abs_nodes r2" "abs_edges r3 = (abs_edges r2)(?e \<mapsto> Some (loopLabel self n l))"
    using layout_mutEdge [OF r2(2), of ?e l "loopLabel self n"] e2 r1(4) by auto
  have "positionSelf d r = Inr r3"
    using node_of_abs [OF rn(1)] node_of_abs [OF rn(2)] n(2-4) r1(1) r2(1) r3(1) by (simp add: positionSelf_def)
  moreover have "pos_inv m (insert d Y) E r3" unfolding pos_inv_def
  proof (intro conjI allI ballI impI)
    show "layout_ok r3" by (rule r3(2))
    show "abs_nodes r3 v = (if v \<in> insert d Y then None else abs_nodes m v)" for v using r3(3) r2(3) r1(3) R(2) by simp
    have "drawnLoop m d ?e = loopLabel self n l" using node_of_abs [OF n(1)] node_of_abs [OF self] n(4) by (simp add: drawnLoop_def)
    then show "abs_edges r3 (E c) = Some (Some (drawnLoop m c (E c)))" if "c \<in> insert d Y" for c
      using that R(3) [of c] r3(4) e2 r1(4) inj_onD [OF M(3), of c d] d(1) Y by (cases "c = d") auto
    show "abs_edges r3 f = abs_edges m f" if "f \<notin> E ` insert d Y" for f using that R(4) [of f] r3(4) e2 r1(4) by auto
  qed
  ultimately show ?thesis by blast
qed

lemma positionSelfEdges_ok:
  assumes S: "self_dummies m DD E"
  shows "\<exists>r. positionSelfEdges m = Inr r \<and> pos_inv m DD E r"
proof -
  note M = self_dummiesD [OF S]
  have "\<exists>r. rfold positionSelf (nodes m) m = Inr r \<and> pos_inv m (set (nodes m) \<inter> DD) E r"
  proof (rule rfold_prefix_invariant [where P = "\<lambda>ys. pos_inv m (set ys \<inter> DD) E"])
    show "pos_inv m (set [] \<inter> DD) E m" using M(1) by (simp add: pos_inv_def)
  next
    fix ys v zs r assume split: "nodes m = ys @ v # zs" and inv: "pos_inv m (set ys \<inter> DD) E r"
    have v: "v \<in> node_set m" "v \<notin> set ys" using split distinct_nodes [OF layout_okD(1) [OF M(1)]] by (auto simp flip: nodes_set)
    show "\<exists>r'. positionSelf v r = Inr r' \<and> pos_inv m (set (ys @ [v]) \<inter> DD) E r'"
    proof (cases "v \<in> DD")
      case True
      then have "set (ys @ [v]) \<inter> DD = insert v (set ys \<inter> DD)" by auto
      then show ?thesis using positionSelf_dummy [OF S inv _ True] v(2) by auto
    next
      case False
      obtain n where n: "abs_nodes m v = Some (Some n)" "n_dummy n \<noteq> Some ''selfedge''" using M(4) [OF v(1)] False by blast
      have "abs_nodes r v = Some (Some n)" using inv n(1) v(2) by (simp add: pos_inv_def)
      from node_of_abs [OF this] n(2) have "positionSelf v r = Inr r" by (simp add: positionSelf_def)
      moreover have "set (ys @ [v]) \<inter> DD = set ys \<inter> DD" using False by auto
      ultimately show ?thesis using inv by simp
    qed
  qed
  moreover have "set (nodes m) \<inter> DD = DD" using M(2) by (auto simp: nodes_set)
  ultimately show ?thesis by (simp add: positionSelfEdges_def)
qed

section \<open>All three phases\<close>

text \<open>The phases between removing and inserting keep the stored self edges and give their nodes ranks; they may add nodes and edges, but no
  self edges. Those between inserting and positioning keep the nodes and the edges, and what the dummies refer to.\<close>

definition carries :: "layoutGraph \<Rightarrow> layoutGraph \<Rightarrow> bool" where
  "carries g h \<longleftrightarrow> node_set g \<subseteq> node_set h \<and> (\<forall>e \<in> dom (abs_edges h). \<not> isLoop e) \<and>
     (\<forall>v \<in> node_set h. loopsOf h v = loopsOf g v \<and> (loopsOf h v \<noteq> [] \<longrightarrow> rankOf h v \<noteq> None) \<and> (\<forall>n. node v h = Some n \<longrightarrow> n_dummy n \<noteq> Some ''selfedge''))"

definition moved :: "layoutGraph \<Rightarrow> layoutGraph \<Rightarrow> bool" where
  "moved k m \<longleftrightarrow> layout_ok m \<and> abs_edges m = abs_edges k \<and> node_set m = node_set k \<and>
     (\<forall>v n. node v k = Some n \<longrightarrow> (\<exists>n'. node v m = Some n' \<and> n_dummy n' = n_dummy n \<and> n_e n' = n_e n \<and> n_label n' = n_label n))"

text \<open>The self edges that are stored in the nodes of a graph: those of its nodes, different ones, and with labels.\<close>

definition stores_loops :: "layoutGraph \<Rightarrow> bool" where
  "stores_loops g \<longleftrightarrow> (\<forall>v. distinct (map fst (loopsOf g v)) \<and>
     (\<forall>(e, l) \<in> set (loopsOf g v). isLoop e \<and> e_v e = v \<and> clean_edge e \<and> l \<noteq> None))"

lemma removed_stores:
  assumes ok: "layout_ok g" and lab: "\<And>e. e \<in> set (edges g) \<Longrightarrow> edgeOfObj e g \<noteq> None"
    and h: "\<And>v. abs_nodes h v = map_option (map_option (withLoops (loopsAt g v (edges g)))) (abs_nodes g v)"
    and nodes: "\<And>v. v \<in> node_set g \<Longrightarrow> node v g \<noteq> None"
  shows "\<And>v. loopsOf h v = loopsAt g v (edges g)" "stores_loops h"
proof -
  have loops: "loopsOf h v = loopsAt g v (edges g)" for v
  proof (cases "v \<in> node_set g")
    case True
    then obtain n where "abs_nodes g v = Some (Some n)" using nodes [OF True] by (auto simp: node_def abs_nodes_def split: option.splits)
    then have "node v h = Some (withLoops (loopsAt g v (edges g)) n)" using h [of v] by (intro node_of_abs) simp
    then show ?thesis by (simp add: loopsOf_def withLoops_def each_def)
  next
    case False
    then have "abs_nodes g v = None" by (simp add: node_set_abs domIff)
    then have "node v h = None" using h [of v] by (simp add: node_def abs_nodes_def)
    moreover have "filter (\<lambda>e. isLoop e \<and> e_v e = v) (edges g) = []" using False edges_ends [OF layout_okD(1) [OF ok]] by (auto simp: filter_empty_conv)
    ultimately show ?thesis by (simp add: loopsOf_def loopsAt_def)
  qed
  then show "\<And>v. loopsOf h v = loopsAt g v (edges g)" .
  have "distinct (map fst (loopsAt g v (edges g)))" for v
    using distinct_edges [OF layout_okD(1) [OF ok]] by (simp add: loopsAt_def comp_def)
  moreover have "clean_edge e" if "e \<in> set (edges g)" for e using layout_okD(2) [OF ok] that by (simp add: clean_graph_def)
  ultimately show "stores_loops h" unfolding stores_loops_def loops using lab by (auto simp: loopsAt_def)
qed

text \<open>The dummies and their edges after the insertion.\<close>

lemma inserted_dummies:
  assumes h: "in_layers h layers" and st: "stores_loops h" and fresh: "\<And>e. e \<in> dom (abs_edges h) \<Longrightarrow> \<not> isLoop e"
    and nd: "\<And>v n. v \<in> node_set h \<Longrightarrow> node v h = Some n \<Longrightarrow> n_dummy n \<noteq> Some ''selfedge''"
    and inv: "ins_inv h (concat layers) D p k" and sub: "set (concat layers) \<subseteq> node_set h" and m: "moved k m"
  shows "\<exists>E. self_dummies m (set (concat (map D (concat layers)))) E \<and>
    (\<forall>u \<in> set (concat layers). \<forall>j < length (D u). E (D u ! j) = fst (loopsOf h u ! j) \<and> (\<exists>n. node (D u ! j) m = Some n \<and> n_label n = snd (loopsOf h u ! j)))"
proof -
  note H = in_layersD [OF h] and I = ins_invD [OF inv] and R = inserted_ranks [OF h inv]
  let ?Z = "concat layers" and ?DD = "set (concat (map D (concat layers)))"
  have mm: "layout_ok m" "abs_edges m = abs_edges k" "node_set m = node_set k"
    "\<And>v n. node v k = Some n \<Longrightarrow> \<exists>n'. node v m = Some n' \<and> n_dummy n' = n_dummy n \<and> n_e n' = n_e n \<and> n_label n' = n_label n"
    using m unfolding moved_def by blast+
  define E where "E d = the (n_e (the (node d m)))" for d
  have dummy: "\<exists>n. node (D u ! j) m = Some n \<and> n_dummy n = Some ''selfedge'' \<and> n_e n = Some (E (D u ! j)) \<and> E (D u ! j) = fst (loopsOf h u ! j) \<and>
      n_label n = snd (loopsOf h u ! j) \<and> snd (loopsOf h u ! j) \<noteq> None \<and> isLoop (E (D u ! j)) \<and> e_v (E (D u ! j)) = u \<and> clean_edge (E (D u ! j))"
    if u: "u \<in> set ?Z" and j: "j < length (D u)" for u j
  proof -
    have pl: "length (D u) = length (loopsOf h u)" "abs_nodes k (D u ! j) = Some (Some (selfDummy (rankOf h u) (p u + 1 + j) (loopsOf h u ! j)))"
      using I(7) [OF u] j unfolding placed_def by blast+
    obtain e l where el: "loopsOf h u ! j = (e, l)" by (cases "loopsOf h u ! j")
    then have "(e, l) \<in> set (loopsOf h u)" using j pl(1) by (metis nth_mem)
    then have e: "isLoop e" "e_v e = u" "clean_edge e" "l \<noteq> None" using st unfolding stores_loops_def by auto
    from mm(4) [OF node_of_abs [OF pl(2)]] el e(4) obtain n where n: "node (D u ! j) m = Some n" "n_dummy n = Some ''selfedge''" "n_e n = Some e" "n_label n = l"
      by (auto simp: selfDummy_def selfAttrs_def)
    then have "E (D u ! j) = e" by (simp add: E_def)
    then show ?thesis using n e el by simp
  qed
  have DD: "\<exists>u j. u \<in> set ?Z \<and> j < length (D u) \<and> d = D u ! j" if d: "d \<in> ?DD" for d
  proof -
    obtain u where "u \<in> set ?Z" "d \<in> set (D u)" using d by auto
    then show ?thesis by (metis in_set_conv_nth)
  qed
  have "inj_on E ?DD"
  proof (rule inj_onI)
    fix c d assume c: "c \<in> ?DD" and d: "d \<in> ?DD" and eq: "E c = E d"
    obtain u i where u: "u \<in> set ?Z" "i < length (D u)" "c = D u ! i" using DD [OF c] by blast
    obtain w j where w: "w \<in> set ?Z" "j < length (D w)" "d = D w ! j" using DD [OF d] by blast
    have uw: "u = w" using dummy [OF u(1,2)] dummy [OF w(1,2)] eq u(3) w(3) by metis
    have len: "length (D u) = length (loopsOf h u)" using I(7) [OF u(1)] by (simp add: placed_def)
    have dist: "distinct (map fst (loopsOf h u))" using st by (simp add: stores_loops_def)
    have "fst (loopsOf h u ! i) = fst (loopsOf h u ! j)" using dummy [OF u(1,2)] dummy [OF w(1,2)] eq u(3) w(3) uw by metis
    then have "i = j" using nth_eq_iff_index_eq [OF dist, of i j] u(2) w(2) uw len by simp
    then show "c = d" using u(3) w(3) uw by simp
  qed
  moreover have "\<exists>n. abs_nodes m v = Some (Some n) \<and> (n_dummy n = Some ''selfedge'' \<longleftrightarrow> v \<in> ?DD) \<and> (v \<in> ?DD \<longrightarrow> n_e n = Some (E v) \<and> n_label n \<noteq> None)"
    if v: "v \<in> node_set m" for v
  proof (cases "v \<in> ?DD")
    case True
    then obtain u j where u: "u \<in> set ?Z" "j < length (D u)" "v = D u ! j" using DD by blast
    obtain n where n: "node v m = Some n" "n_dummy n = Some ''selfedge''" "n_e n = Some (E v)" "n_label n \<noteq> None" using dummy [OF u(1,2)] unfolding u(3) by metis
    then have "abs_nodes m v = Some (Some n)" by (auto simp: node_def abs_nodes_def split: option.splits)
    then show ?thesis using n True by blast
  next
    case False
    then have vh: "v \<in> node_set h" using v mm(3) I(6) by auto
    obtain n where n: "node v k = Some n" using R(3) [of v] v mm(3) by auto
    obtain n0 where n0: "node v h = Some n0" "n_dummy n = n_dummy n0"
    proof (cases "v \<in> set ?Z")
      case True
      then obtain n0 where "node v h = Some n0" "abs_nodes k v = Some (Some ((withOrder (p v) n0)\<lparr>n_selfEdges := None\<rparr>))" using I(7) unfolding placed_def by blast
      then show thesis using node_of_abs [of k v] n by (intro that [of n0]) (auto simp: withOrder_def)
    next
      case no: False
      have "node v h = Some n" using I(8) [OF vh no] n by (simp add: node_def abs_nodes_def)
      then show thesis by (intro that [of n]) simp_all
    qed
    obtain n' where n': "node v m = Some n'" "n_dummy n' = n_dummy n" using mm(4) [OF n] by blast
    then have "abs_nodes m v = Some (Some n')" by (auto simp: node_def abs_nodes_def split: option.splits)
    moreover have "n_dummy n' \<noteq> Some ''selfedge''" using nd [OF vh n0(1)] n0(2) n'(2) by simp
    ultimately show ?thesis using False by blast
  qed
  moreover have "isLoop (E d) \<and> clean_edge (E d) \<and> e_v (E d) \<in> node_set m - ?DD" if d: "d \<in> ?DD" for d
  proof -
    obtain u j where u: "u \<in> set ?Z" "j < length (D u)" "d = D u ! j" using DD [OF d] by blast
    have "u \<in> node_set h" using sub u(1) by blast
    then have "u \<in> node_set m - ?DD" using mm(3) I(5,6) by blast
    then show ?thesis using dummy [OF u(1,2)] u(3) by metis
  qed
  moreover have "e_v e \<notin> ?DD \<and> e_w e \<notin> ?DD" if "e \<in> dom (abs_edges m)" for e
  proof -
    have "e \<in> set (edges h)" using that mm(2) I(3) dom_abs_edges [OF layout_okD(1) [OF H(1)]] by auto
    then show ?thesis using edges_ends [OF layout_okD(1) [OF H(1)]] I(5) by blast
  qed
  moreover have "?DD \<subseteq> node_set m" using mm(3) I(6) by simp
  ultimately have "self_dummies m ?DD E" unfolding self_dummies_def using mm(1) by blast
  then show ?thesis using dummy by blast
qed

lemma loopsOf_node: "loopsOf g v \<noteq> [] \<Longrightarrow> v \<in> node_set g"
  by (auto simp: loopsOf_def node_def node_set_abs abs_nodes_def split: option.splits)

lemma loops_cover:
  assumes h: "in_layers h layers" and ranked: "\<forall>v \<in> node_set h. loopsOf h v \<noteq> [] \<longrightarrow> rankOf h v \<noteq> None"
    and e: "(e, l) \<in> set (loopsOf h v)"
  shows "v \<in> set (concat layers)"
proof -
  have ne: "loopsOf h v \<noteq> []" using e by auto
  note v = loopsOf_node [OF ne]
  obtain k where k: "rankOf h v = Some k" using ranked v ne by blast
  then obtain r where "r < length layers" "k = int r" using in_layersD(4) [OF h v] by blast
  then show ?thesis using in_layers_row(2) [OF h, of r] in_layers_mem(1) [OF h] v k by blast
qed

lemma positioned_loops:
  assumes h: "in_layers h layers" and st: "stores_loops h" and fresh: "\<forall>e \<in> dom (abs_edges h). \<not> isLoop e"
    and nd: "\<forall>v \<in> node_set h. \<forall>n. node v h = Some n \<longrightarrow> n_dummy n \<noteq> Some ''selfedge''"
    and ranked: "\<forall>v \<in> node_set h. loopsOf h v \<noteq> [] \<longrightarrow> rankOf h v \<noteq> None"
    and inv: "ins_inv h (concat layers) D p k" and m: "moved k m"
  shows "\<exists>r. positionSelfEdges m = Inr r \<and> layout_ok r \<and> node_set r = node_set h \<and>
     dom (abs_edges r) = dom (abs_edges h) \<union> {e. \<exists>v l. (e, l) \<in> set (loopsOf h v)} \<and>
     (\<forall>e. \<not> isLoop e \<longrightarrow> abs_edges r e = abs_edges h e) \<and>
     (\<forall>v e l. (e, Some l) \<in> set (loopsOf h v) \<longrightarrow> (\<exists>d \<in> set (D v). \<exists>self n. node v m = Some self \<and> node d m = Some n \<and>
        abs_edges r e = Some (Some (loopLabel self n l))))"
proof -
  note I = ins_invD [OF inv] and cover = loops_cover [OF h ranked]
  let ?DD = "set (concat (map D (concat layers)))"
  have len: "length (D u) = length (loopsOf h u)" if "u \<in> set (concat layers)" for u using I(7) [OF that] by (simp add: placed_def)
  have me: "abs_edges m = abs_edges h" "node_set m = node_set h \<union> ?DD" using m I(3,6) by (auto simp: moved_def)
  obtain E where S: "self_dummies m ?DD E" and E: "\<And>u j. u \<in> set (concat layers) \<Longrightarrow> j < length (D u) \<Longrightarrow>
      E (D u ! j) = fst (loopsOf h u ! j) \<and> (\<exists>n. node (D u ! j) m = Some n \<and> n_label n = snd (loopsOf h u ! j))"
    using inserted_dummies [OF h st _ _ inv _ m] fresh nd in_layers_mem(2) [OF h] by blast
  note M = self_dummiesD [OF S]
  obtain r where r: "positionSelfEdges m = Inr r" "pos_inv m ?DD E r" using positionSelfEdges_ok [OF S] by blast
  have R: "layout_ok r" "\<And>v. abs_nodes r v = (if v \<in> ?DD then None else abs_nodes m v)" "\<And>d. d \<in> ?DD \<Longrightarrow> abs_edges r (E d) = Some (Some (drawnLoop m d (E d)))"
    "\<And>e. e \<notin> E ` ?DD \<Longrightarrow> abs_edges r e = abs_edges h e" using r(2) me(1) unfolding pos_inv_def by auto
  have "v \<in> node_set r \<longleftrightarrow> v \<notin> ?DD \<and> v \<in> node_set m" for v unfolding node_set_abs domIff R(2) by simp
  then have nodes: "node_set r = node_set h" unfolding me(2) using I(5) by blast
  have place: "\<exists>d \<in> set (D v). d \<in> ?DD \<and> E d = e \<and> (\<exists>n. node d m = Some n \<and> n_label n = l)" if vl: "(e, l) \<in> set (loopsOf h v)" for v e l
  proof -
    note vc = cover [OF vl]
    obtain j where j: "j < length (loopsOf h v)" "loopsOf h v ! j = (e, l)" using vl by (metis in_set_conv_nth)
    then have jd: "j < length (D v)" using len [OF vc] by simp
    have dj: "D v ! j \<in> set (D v)" using jd by simp
    moreover have "D v ! j \<in> ?DD" using vc dj by auto
    ultimately show ?thesis using E [OF vc jd] j(2) by (intro bexI [of _ "D v ! j"]) auto
  qed
  have img: "\<exists>v l. (e, l) \<in> set (loopsOf h v)" if e: "e \<in> E ` ?DD" for e
  proof -
    obtain d u where d: "e = E d" "u \<in> set (concat layers)" "d \<in> set (D u)" using e by auto
    then obtain j where j: "j < length (D u)" "d = D u ! j" by (metis in_set_conv_nth)
    then have "loopsOf h u ! j \<in> set (loopsOf h u)" using len [OF d(2)] by simp
    then show ?thesis using E [OF d(2) j(1)] j(2) d(1) by (metis prod.collapse)
  qed
  have dom: "dom (abs_edges r) = dom (abs_edges h) \<union> {e. \<exists>v l. (e, l) \<in> set (loopsOf h v)}"
  proof -
    have "e \<in> dom (abs_edges r) \<longleftrightarrow> e \<in> dom (abs_edges h) \<or> (\<exists>v l. (e, l) \<in> set (loopsOf h v))" for e
    proof (cases "e \<in> E ` ?DD")
      case True
      then have "e \<in> dom (abs_edges r)" using R(3) by auto
      then show ?thesis using img [OF True] by blast
    next
      case False
      then have "\<not> (\<exists>v l. (e, l) \<in> set (loopsOf h v))" using place by blast
      then show ?thesis using R(4) [OF False] by (simp add: domIff)
    qed
    then show ?thesis by blast
  qed
  have plain: "abs_edges r e = abs_edges h e" if "\<not> isLoop e" for e
  proof -
    have "e \<notin> E ` ?DD" using that M(5) by blast
    then show ?thesis by (rule R(4))
  qed
  have loop: "\<exists>d \<in> set (D v). \<exists>self n. node v m = Some self \<and> node d m = Some n \<and> abs_edges r e = Some (Some (loopLabel self n l))"
    if vl: "(e, Some l) \<in> set (loopsOf h v)" for v e l
  proof -
    obtain d n where d: "d \<in> set (D v)" "d \<in> ?DD" "E d = e" "node d m = Some n" "n_label n = Some l" using place [OF vl] by blast
    have ev: "e_v e = v" using st vl unfolding stores_loops_def by auto
    then have vm: "v \<in> node_set m" using M(5) [OF d(2)] d(3) by auto
    obtain self where "abs_nodes m v = Some (Some self)" using M(4) [OF vm] by (elim exE conjE) simp
    then have "node v m = Some self" by (rule node_of_abs)
    then show ?thesis using R(3) [OF d(2)] d ev by (intro bexI [of _ d]) (simp_all add: drawnLoop_def)
  qed
  show ?thesis by (intro exI [of _ r] conjI allI impI r(1) R(1) nodes dom plain loop)
qed

lemma insert_and_position:
  assumes h: "in_layers h layers" and st: "stores_loops h" and fresh: "\<forall>e \<in> dom (abs_edges h). \<not> isLoop e"
    and nd: "\<forall>v \<in> node_set h. \<forall>n. node v h = Some n \<longrightarrow> n_dummy n \<noteq> Some ''selfedge''"
    and ranked: "\<forall>v \<in> node_set h. loopsOf h v \<noteq> [] \<longrightarrow> rankOf h v \<noteq> None"
  shows "\<exists>k c' D. insertSelfEdges (h, c) = Inr (k, c') \<and> layout_ok k \<and> buildLayerMatrix k = Inr (map (map Some) (map (extended D) layers)) \<and>
    (\<forall>u \<in> set (concat layers). length (D u) = length (loopsOf h u)) \<and>
    (\<forall>m. moved k m \<longrightarrow> (\<exists>r. positionSelfEdges m = Inr r \<and> layout_ok r \<and> node_set r = node_set h \<and>
       dom (abs_edges r) = dom (abs_edges h) \<union> {e. \<exists>v l. (e, l) \<in> set (loopsOf h v)} \<and>
       (\<forall>e. \<not> isLoop e \<longrightarrow> abs_edges r e = abs_edges h e) \<and>
       (\<forall>v e l. (e, Some l) \<in> set (loopsOf h v) \<longrightarrow> (\<exists>d \<in> set (D v). \<exists>self n. node v m = Some self \<and> node d m = Some n \<and>
          abs_edges r e = Some (Some (loopLabel self n l))))))"
proof -
  note H = in_layersD [OF h]
  have sub: "set (concat layers) \<subseteq> node_set h" using in_layers_mem(2) [OF h] by blast
  have loops: "snd se \<noteq> None" if "se \<in> set (loopsOf h v)" for v se
    using that st unfolding stores_loops_def by (metis (mono_tags, lifting) case_prod_unfold)
  obtain D p k c' where k: "rfold insertInLayer (map (map Some) layers) (h, c) = Inr (k, c')" "ins_inv h (concat layers) D p k" "\<forall>layer \<in> set layers. spread D p layer"
    using insertLayers_ok [OF H(1) layered_distinct [OF H(3)] sub H(2), of c] loops by blast
  note I = ins_invD [OF k(2)]
  have len: "length (D u) = length (loopsOf h u)" if "u \<in> set (concat layers)" for u using I(7) [OF that] by (simp add: placed_def)
  have matrix: "buildLayerMatrix k = Inr (map (map Some) (map (extended D) layers))" using inserted_layers [OF h k(2)] k(3) by (intro in_layers_matrix) blast
  have "insertSelfEdges (h, c) = Inr (k, c')" using k(1) in_layers_matrix [OF h] by (simp add: insertSelfEdges_def)
  then show ?thesis by (intro exI [of _ k] exI [of _ c'] exI [of _ D] conjI allI impI ballI matrix len I(1) positioned_loops [OF h st fresh nd ranked k(2)])
qed

lemma carries_loops:
  assumes h: "carries g h" and sub: "\<And>v. loopsOf g v \<noteq> [] \<Longrightarrow> v \<in> node_set g"
  shows "loopsOf h v = loopsOf g v"
proof (cases "v \<in> node_set h")
  case True
  then show ?thesis using h by (simp add: carries_def)
next
  case False
  then have "loopsOf h v = []" by (auto simp: loopsOf_def node_def node_set_abs abs_nodes_def split: option.splits)
  moreover have "v \<notin> node_set g" using h False by (auto simp: carries_def)
  then have "loopsOf g v = []" using sub by blast
  ultimately show ?thesis by simp
qed

lemma loops_members:
  assumes "graph_ok g"
  shows "(e, l) \<in> set (loopsAt g v (edges g)) \<longleftrightarrow> isLoop e \<and> e_v e = v \<and> abs_edges g e = Some l"
  using abs_edge_label [OF assms, of e] dom_abs_edges [OF assms] by (auto simp: loopsAt_def abs_edges_def split: if_splits)

lemma node_set_of: "(\<And>v. abs_nodes h v = map_option (f v) (abs_nodes g v)) \<Longrightarrow> node_set h = node_set g"
  by (auto simp: node_set_abs)

lemma removed_loops:
  assumes ok: "layout_ok g" and nodes: "\<And>v. v \<in> node_set g \<Longrightarrow> \<exists>n. node v g = Some n \<and> n_selfEdges n = None"
    and lab: "\<And>e. e \<in> set (edges g) \<Longrightarrow> edgeOfObj e g \<noteq> None"
  shows "\<exists>g1. removeSelfEdges g = Inr g1 \<and> (\<forall>e. abs_edges g1 e = (if isLoop e then None else abs_edges g e)) \<and>
    node_set g1 = node_set g \<and> (\<forall>v. loopsOf g1 v = loopsAt g v (edges g)) \<and> stores_loops g1"
proof -
  have absn: "\<exists>n. abs_nodes g v = Some (Some n) \<and> n_selfEdges n = None" if "v \<in> node_set g" for v
    using nodes [OF that] by (auto simp: node_def abs_nodes_def split: option.splits)
  obtain g1 where g1: "removeSelfEdges g = Inr g1" "\<And>e. abs_edges g1 e = (if isLoop e then None else abs_edges g e)"
      "\<And>v. abs_nodes g1 v = map_option (map_option (withLoops (loopsAt g v (edges g)))) (abs_nodes g v)"
    using removeSelfEdges_ok [OF ok absn] by blast
  have "node v g \<noteq> None" if "v \<in> node_set g" for v using nodes [OF that] by auto
  from removed_stores [OF ok lab g1(3) this] show ?thesis using g1(1,2) node_set_of [OF g1(3)] by blast
qed

text \<open>The result \<open>r\<close> of the last phase on \<open>m\<close>: the nodes and edges of \<open>h\<close>, and the self edges of \<open>g\<close> drawn towards the dummies \<open>D\<close>.\<close>

definition loops_return :: "layoutGraph \<Rightarrow> layoutGraph \<Rightarrow> (string \<Rightarrow> string list) \<Rightarrow> layoutGraph \<Rightarrow> layoutGraph \<Rightarrow> bool" where
  "loops_return g h D m r \<longleftrightarrow> node_set r = node_set h \<and> dom (abs_edges r) = dom (abs_edges h) \<union> {e \<in> dom (abs_edges g). isLoop e} \<and>
     (\<forall>e. \<not> isLoop e \<longrightarrow> abs_edges r e = abs_edges h e) \<and>
     (\<forall>e l. isLoop e \<and> abs_edges g e = Some (Some l) \<longrightarrow> (\<exists>d \<in> set (D (e_v e)). \<exists>self n.
        node (e_v e) m = Some self \<and> node d m = Some n \<and> abs_edges r e = Some (Some (loopLabel self n l))))"

lemma loops_returnI:
  assumes ok: "graph_ok g"
  shows "(\<exists>r. positionSelfEdges m = Inr r \<and> layout_ok r \<and> node_set r = node_set h \<and>
       dom (abs_edges r) = dom (abs_edges h) \<union> {e. \<exists>v l. (e, l) \<in> set (loopsAt g v (edges g))} \<and>
       (\<forall>e. \<not> isLoop e \<longrightarrow> abs_edges r e = abs_edges h e) \<and>
       (\<forall>v e l. (e, Some l) \<in> set (loopsAt g v (edges g)) \<longrightarrow> (\<exists>d \<in> set (D v). \<exists>self n. node v m = Some self \<and> node d m = Some n \<and>
          abs_edges r e = Some (Some (loopLabel self n l))))) \<longleftrightarrow> (\<exists>r. positionSelfEdges m = Inr r \<and> layout_ok r \<and> loops_return g h D m r)"
proof -
  have "{e. \<exists>v l. (e, l) \<in> set (loopsAt g v (edges g))} = {e \<in> dom (abs_edges g). isLoop e}" using loops_members [OF ok] by blast
  then show ?thesis unfolding loops_return_def loops_members [OF ok] by simp
qed

text \<open>C40. A layout graph whose nodes have no stored self edges loses exactly its self edges at the beginning of the layout, and
  every other edge keeps its label. Whatever the phases in between do, when they leave the nodes numbered within their layers and keep the
  stored edges, inserting succeeds: the new layers are the old ones with, right after each node, one dummy for each of its self
  edges, and the new orders are again positions. And whatever coordinates the positioning gives, the last phase succeeds: every dummy is
  gone, every self edge is back beside the edges that were there, which keep their labels, and it is drawn as the loop between its node and one of the
  dummies that were placed beside that node.
\<close>

theorem self_edges_come_back:
  fixes g :: layoutGraph
  assumes ok: "layout_ok g" and nodes: "\<forall>v \<in> node_set g. \<exists>n. node v g = Some n \<and> n_selfEdges n = None"
    and lab: "\<forall>e \<in> set (edges g). edgeOfObj e g \<noteq> None"
  shows "\<exists>g1. removeSelfEdges g = Inr g1 \<and> (\<forall>e. abs_edges g1 e = (if isLoop e then None else abs_edges g e)) \<and>
    node_set g1 = node_set g \<and> (\<forall>v. loopsOf g1 v = loopsAt g v (edges g)) \<and>
    (\<forall>h layers c. in_layers h layers \<longrightarrow> carries g1 h \<longrightarrow>
      (\<exists>k c' D. insertSelfEdges (h, c) = Inr (k, c') \<and> layout_ok k \<and> buildLayerMatrix k = Inr (map (map Some) (map (extended D) layers)) \<and>
        (\<forall>u \<in> set (concat layers). length (D u) = length (loopsAt g u (edges g))) \<and>
        (\<forall>m. moved k m \<longrightarrow> (\<exists>r. positionSelfEdges m = Inr r \<and> layout_ok r \<and> loops_return g h D m r))))"
proof -
  obtain g1 where g1: "removeSelfEdges g = Inr g1" "\<And>e. abs_edges g1 e = (if isLoop e then None else abs_edges g e)"
      "\<And>v. loopsOf g1 v = loopsAt g v (edges g)" "stores_loops g1" "node_set g1 = node_set g"
    using removed_loops [OF ok] nodes lab by blast
  have "\<exists>k c' D. insertSelfEdges (h, c) = Inr (k, c') \<and> layout_ok k \<and> buildLayerMatrix k = Inr (map (map Some) (map (extended D) layers)) \<and>
      (\<forall>u \<in> set (concat layers). length (D u) = length (loopsAt g u (edges g))) \<and>
      (\<forall>m. moved k m \<longrightarrow> (\<exists>r. positionSelfEdges m = Inr r \<and> layout_ok r \<and> loops_return g h D m r))"
    if h: "in_layers h layers" and ca: "carries g1 h" for h layers c
  proof -
    have hl: "loopsOf h v = loopsAt g v (edges g)" for v using carries_loops [OF ca loopsOf_node] g1(3) by simp
    have sth: "stores_loops h" using g1(4) unfolding stores_loops_def hl g1(3) .
    have C: "\<forall>e \<in> dom (abs_edges h). \<not> isLoop e" "\<forall>v \<in> node_set h. \<forall>n. node v h = Some n \<longrightarrow> n_dummy n \<noteq> Some ''selfedge''"
      "\<forall>v \<in> node_set h. loopsOf h v \<noteq> [] \<longrightarrow> rankOf h v \<noteq> None" using ca unfolding carries_def by blast+
    from insert_and_position [where c = c, OF h sth C] show ?thesis unfolding hl loops_returnI [OF layout_okD(1) [OF ok]] .
  qed
  then show ?thesis using g1(1-3,5) by blast
qed

definition exampleLoop :: "layoutGraph result" where
  "exampleLoop =
     rbind (setNode ''a'' (Some (Some (exampleNode\<lparr>n_order := Some 0\<rparr>))) (setGraph (Some exampleLabel) (newGraph None (Some True) None))) (\<lambda>g.
       setEdge ''a'' ''a'' (Some (Some exampleEdge)) None g)"

lemma exampleLoop_ok:
  "\<exists>g. exampleLoop = Inr g \<and> layout_ok g \<and> abs_nodes g = [''a'' \<mapsto> Some (exampleNode\<lparr>n_order := Some 0\<rparr>)] \<and>
     abs_edges g = [\<lparr>e_v = ''a'', e_w = ''a'', e_name = None\<rparr> \<mapsto> Some exampleEdge]"
proof -
  let ?g0 = "setGraph (Some exampleLabel) (newGraph None (Some True) None) :: layoutGraph" and ?a = "exampleNode\<lparr>n_order := Some 0\<rparr>"
  have "graph_ok (newGraph None (Some True) None :: layoutGraph)" by (rule graph_ok_new)
  then have ok0: "layout_ok ?g0" and f0: "abs_edges ?g0 = Map.empty" "abs_nodes ?g0 = Map.empty"
    by (auto simp: layout_ok_def setGraph_def newGraph_def graph_ok_def tables_ok_def node_set_def clean_graph_def edges_def
        abs_edges_def abs_nodes_def fun_eq_iff)
  obtain g1 where g1: "setNode ''a'' (Some (Some ?a)) ?g0 = Inr g1" "layout_ok g1" "abs_nodes g1 = [''a'' \<mapsto> Some ?a]" "abs_edges g1 = Map.empty"
    using layout_setNode [OF ok0, of "''a''" "Some ?a"] f0 by (auto simp: GRAPH_NODE_def)
  let ?x = "\<lparr>e_v = ''a'', e_w = ''a'', e_name = None\<rparr> :: edgeObj"
  have x: "clean_edge ?x" "e_v ?x \<in> node_set g1" "e_w ?x \<in> node_set g1"
    using g1(3) by (auto simp: clean_edge_def clean_def clean_name_def node_set_abs)
  from layout_setEdge [OF g1(2) x, of "Some exampleEdge"] g1 show ?thesis by (auto simp: exampleLoop_def)
qed

lemma one_layer:
  assumes ok: "layout_ok h" and n: "abs_nodes h = [''a'' \<mapsto> Some n]" "n_rank n = Some 0" "n_order n = Some 0"
  shows "in_layers h [[''a'']]"
proof -
  have ns: "node_set h = {''a''}" and nd: "node ''a'' h = Some n" using n(1) by (auto simp: node_set_abs node_of_abs)
  have set: "set (nodes h) = {''a''}" and dist: "distinct (nodes h)" using ns distinct_nodes [OF layout_okD(1) [OF ok]] by (simp_all add: nodes_set)
  have "length (nodes h) = 1" using distinct_card [OF dist] set by simp
  then have nodes: "nodes h = [''a'']" using set by (cases "nodes h") simp_all
  have row: "{v \<in> {''a''}. rankOf h v \<noteq> None} = {''a''}" "rankOf h ''a'' = Some 0" using nd n(2) by (auto simp: rankOf_def)
  have "layered h {v \<in> node_set h. rankOf h v \<noteq> None} [[''a'']]" unfolding ns row(1) using row(2) by (auto simp: layered_def)
  moreover have "emptyLayers (lodash_max (map (rankOf h) (nodes h))) = ([[]] :: string list list)"
    unfolding nodes using row(2) by (simp add: emptyLayers_def lodash_max_def List.map_filter_def)
  ultimately show ?thesis using ok nd row(2) n(3) unfolding in_layers_def ns by simp
qed

theorem self_edges_come_back_witness:
  "\<exists>g g1 k c' r. exampleLoop = Inr g \<and> removeSelfEdges g = Inr g1 \<and> dom (abs_edges g1) = {} \<and> insertSelfEdges (g1, 0) = Inr (k, c') \<and>
     positionSelfEdges k = Inr r \<and> node_set r = {''a''} \<and> dom (abs_edges r) = {\<lparr>e_v = ''a'', e_w = ''a'', e_name = None\<rparr>}"
proof -
  let ?x = "\<lparr>e_v = ''a'', e_w = ''a'', e_name = None\<rparr> :: edgeObj" and ?a = "exampleNode\<lparr>n_order := Some 0\<rparr>"
  obtain g where g: "exampleLoop = Inr g" "layout_ok g" "abs_nodes g = [''a'' \<mapsto> Some ?a]" "abs_edges g = [?x \<mapsto> Some exampleEdge]" using exampleLoop_ok by blast
  note G = layout_okD(1) [OF g(2)]
  have es: "set (edges g) = {?x}" using dom_abs_edges [OF G] g(4) by simp
  have lab: "\<forall>e \<in> set (edges g). edgeOfObj e g \<noteq> None" using abs_edge_label [OF G, of ?x] es unfolding g(4) by (auto dest: sym)
  have ns: "node_set g = {''a''}" using g(3) by (simp add: node_set_abs)
  have nd: "\<forall>v \<in> node_set g. \<exists>n. node v g = Some n \<and> n_selfEdges n = None"
    using g(3) ns by (simp add: node_of_abs exampleNode_def plainNode_def)
  obtain g1 where g1: "removeSelfEdges g = Inr g1" "\<And>e. abs_edges g1 e = (if isLoop e then None else abs_edges g e)" "node_set g1 = node_set g"
    and later: "\<forall>h layers c. in_layers h layers \<longrightarrow> carries g1 h \<longrightarrow>
      (\<exists>k c' D. insertSelfEdges (h, c) = Inr (k, c') \<and> layout_ok k \<and> buildLayerMatrix k = Inr (map (map Some) (map (extended D) layers)) \<and>
        (\<forall>u \<in> set (concat layers). length (D u) = length (loopsAt g u (edges g))) \<and>
        (\<forall>m. moved k m \<longrightarrow> (\<exists>r. positionSelfEdges m = Inr r \<and> layout_ok r \<and> loops_return g h D m r)))"
    using self_edges_come_back [OF g(2) nd lab] by (elim exE conjE) simp
  have "\<forall>v \<in> node_set g. \<exists>n. abs_nodes g v = Some (Some n) \<and> n_selfEdges n = None" using g(3) ns by (simp add: exampleNode_def plainNode_def)
  then obtain n where n: "layout_ok g1" "abs_nodes g1 = [''a'' \<mapsto> Some n]" "n_rank n = Some 0" "n_order n = Some 0" "n_dummy n = None"
    using removeSelfEdges_ok [OF g(2)] g1(1) g(3) by (auto simp: withLoops_def exampleNode_def plainNode_def fun_eq_iff)
  have none: "abs_edges g1 e = None" for e using g1(2) [of e] g(4) by (auto simp: isLoop_def)
  have noedge: "dom (abs_edges g1) = {}" using none by auto
  have "node ''a'' g1 = Some n" using n(2) by (simp add: node_of_abs)
  then have "carries g1 g1" using n(3,5) g1(3) ns unfolding carries_def noedge by (simp add: rankOf_def)
  from later [rule_format, OF one_layer [OF n(1-4)] this, of 0] obtain k c' D where k: "insertSelfEdges (g1, 0) = Inr (k, c')" "layout_ok k"
    "\<And>m. moved k m \<Longrightarrow> \<exists>r. positionSelfEdges m = Inr r \<and> loops_return g g1 D m r" by blast
  have "moved k k" using k(2) by (simp add: moved_def)
  then obtain r where r: "positionSelfEdges k = Inr r" "loops_return g g1 D k r" using k(3) by blast
  have "{e \<in> dom (abs_edges g). isLoop e} = {?x}" using g(4) by (auto simp: isLoop_def)
  then have "node_set r = {''a''}" "dom (abs_edges r) = {?x}" using r(2) g1(3) ns noedge by (simp_all add: loops_return_def)
  then show ?thesis using g(1) g1(1) k(1) r(1) noedge by blast
qed

end
