(* ===== verification/Dagre_Nesting.thy ===== *)
theory Dagre_Nesting
  imports Dagre_Normalize Dagre_Rank Dagre_Subgraph
begin

text \<open>
  The nesting graph (\<open>lib/nesting-graph\<close>, \<open>addBorderNode\<close> of \<open>lib/util\<close>): before the nodes are ranked, \<open>run\<close> gives every
  subgraph a node above and a node below its content and joins everything with a root; \<open>cleanup\<close> removes the root and the
  edges that are left. The theorem: \<open>run\<close> ends and makes the nodes that are ranked connected, which the rankers need, and
  after \<open>cleanup\<close> the edges are the old ones. The recursions over the hierarchy are bounded by the number of
  nodes. The label \<open>{}\<close> of the root has the size zero, and the edges that \<open>run\<close> adds have the properties it gives them only.
\<close>

section \<open>The operations\<close>

definition addBorderNode ::
  "string \<Rightarrow> (int option \<times> int option) option \<Rightarrow> layoutGraph \<times> nat \<Rightarrow> (string \<times> layoutGraph \<times> nat) result" where
  "addBorderNode prefix ro s =
     addDummyNode ''border''
       (case ro of Some (rank, order) \<Rightarrow> plainNode\<lparr>n_rank := rank, n_order := order\<rparr> | None \<Rightarrow> plainNode) prefix s"

fun depthVisit :: "nat \<Rightarrow> layoutGraph \<Rightarrow> int \<Rightarrow> string \<Rightarrow> int obj \<Rightarrow> int obj result" where
  "depthVisit 0 g depth v depths = Inl Diverges"
| "depthVisit (Suc n) g depth v depths =
     rbind (rfold (depthVisit n g (depth + 1)) (each (children (Some v) g)) depths) (\<lambda>depths'. Inr (put v depth depths'))"

definition treeDepths :: "layoutGraph \<Rightarrow> int obj result" where
  "treeDepths g = rfold (depthVisit (length (nodes g) + 1) g 1) (each (children None g)) []"

definition sumWeights :: "layoutGraph \<Rightarrow> int result" where
  "sumWeights g = rfold (\<lambda>e acc. rbind (deref (edgeOfObj e g)) (\<lambda>l. Inr (acc + l_weight l))) (edges g) 0"

text \<open>\<open>childNode.borderTop ? childNode.borderTop : child\<close>.\<close>

definition orElse :: "string option \<Rightarrow> string \<Rightarrow> string" where
  "orElse x y = (case x of Some s \<Rightarrow> if s \<noteq> [] then s else y | None \<Rightarrow> y)"

definition truthy_str :: "string option \<Rightarrow> bool" where
  "truthy_str x \<longleftrightarrow> x \<noteq> None \<and> x \<noteq> Some []"

text \<open>The arguments that do not change in the recursion: \<open>root\<close>, \<open>nodeSep\<close>, \<open>weight\<close>, \<open>height\<close> and \<open>depths\<close>, in which every
  node has an entry.\<close>

record nesting =
  a_root :: string
  a_nodeSep :: int
  a_weight :: int
  a_height :: int
  a_depths :: "int obj"

definition nestingEdge :: "int \<Rightarrow> int \<Rightarrow> layoutEdge" where
  "nestingEdge wt len = (simpleEdge wt len)\<lparr>l_nestingEdge := True\<rparr>"

definition nestChild :: "nesting \<Rightarrow> (string \<Rightarrow> layoutGraph \<times> nat \<Rightarrow> (layoutGraph \<times> nat) result) \<Rightarrow> string \<Rightarrow> string \<Rightarrow> string \<Rightarrow>
    string \<Rightarrow> layoutGraph \<times> nat \<Rightarrow> (layoutGraph \<times> nat) result" where
  "nestChild a visit v tp bt child s =
     rbind (visit child s) (\<lambda>(g, c).
     rbind (deref (node child g)) (\<lambda>childNode.
       let childTop = orElse (n_borderTop childNode) child;
           childBottom = orElse (n_borderBottom childNode) child;
           thisWeight = (if truthy_str (n_borderTop childNode) then a_weight a else 2 * a_weight a)
       in rbind (if childTop \<noteq> childBottom then Inr 1 else rbind (deref (get (a_depths a) v)) (\<lambda>d. Inr (a_height a - d + 1))) (\<lambda>len.
          rbind (setEdge tp childTop (Some (Some (nestingEdge thisWeight len))) None g) (\<lambda>g1.
          rbind (setEdge childBottom bt (Some (Some (nestingEdge thisWeight len))) None g1) (\<lambda>g2.
            Inr (g2, c))))))"

text \<open>The two border nodes of a subgraph.\<close>

definition addBorderPair :: "string \<Rightarrow> layoutGraph \<times> nat \<Rightarrow> (string \<times> string \<times> layoutGraph \<times> nat) result" where
  "addBorderPair v s =
     rbind (addBorderNode ''_bt'' None s) (\<lambda>(tp, s1).
     rbind (addBorderNode ''_bb'' None s1) (\<lambda>(bt, g2, c2).
     rbind (setParent tp (Some v) g2) (\<lambda>g3.
     rbind (mutNode (\<lambda>l. l\<lparr>n_borderTop := Some tp\<rparr>) v g3) (\<lambda>g4.
     rbind (setParent bt (Some v) g4) (\<lambda>g5.
     rbind (mutNode (\<lambda>l. l\<lparr>n_borderBottom := Some bt\<rparr>) v g5) (\<lambda>g6.
       Inr (tp, bt, g6, c2)))))))"

fun nestVisit :: "nat \<Rightarrow> nesting \<Rightarrow> string \<Rightarrow> layoutGraph \<times> nat \<Rightarrow> (layoutGraph \<times> nat) result" where
  "nestVisit 0 a v s = Inl Diverges"
| "nestVisit (Suc n) a v s =
     (case s of (g, c) \<Rightarrow>
      rbind (deref (children (Some v) g)) (\<lambda>cs.
        if cs = [] then
          if v \<noteq> a_root a then rbind (setEdge (a_root a) v (Some (Some (simpleEdge 0 (a_nodeSep a)))) None g) (\<lambda>g'. Inr (g', c))
          else Inr (g, c)
        else
          rbind (addBorderPair v (g, c)) (\<lambda>(tp, bt, s1).
          rbind (rfold (nestChild a (nestVisit n a) v tp bt) cs s1) (\<lambda>(g2, c2).
            if \<not> truthy_str (parent v g2) then
              rbind (deref (get (a_depths a) v)) (\<lambda>d.
              rbind (setEdge (a_root a) tp (Some (Some (simpleEdge 0 (a_height a + d)))) None g2) (\<lambda>g3. Inr (g3, c2)))
            else Inr (g2, c2)))))"

declare nestVisit.simps [simp del]

definition nesting_run :: "layoutGraph \<times> nat \<Rightarrow> (layoutGraph \<times> nat) result" where
  "nesting_run s =
     rbind (addDummyNode ''root'' plainNode ''_root'' s) (\<lambda>(rt, g1, c1).
     rbind (treeDepths g1) (\<lambda>depths.
     rbind (deref (lodash_max (map Some (vals depths)))) (\<lambda>deepest.
     let height = deepest - 1; nodeSep = 2 * height + 1 in
     rbind (mutGraph (\<lambda>l. l\<lparr>g_nestingRoot := Some rt\<rparr>) g1) (\<lambda>g2.
     rbind (eachEdge (\<lambda>l. l\<lparr>l_minlen := l_minlen l * nodeSep\<rparr>) g2) (\<lambda>g3.
     rbind (sumWeights g3) (\<lambda>total_weight.
     rbind (rfold (nestVisit (length (nodes g3) + 1)
         \<lparr>a_root = rt, a_nodeSep = nodeSep, a_weight = total_weight + 1, a_height = height, a_depths = depths\<rparr>)
       (each (children None g3)) (g3, c1)) (\<lambda>(g4, c4).
     rbind (mutGraph (\<lambda>l. l\<lparr>g_nodeRankFactor := Some nodeSep\<rparr>) g4) (\<lambda>g5.
       Inr (g5, c4)))))))))"

definition removeNestingEdge :: "edgeObj \<Rightarrow> layoutGraph \<Rightarrow> layoutGraph result" where
  "removeNestingEdge e g =
     rbind (deref (edgeOfObj e g)) (\<lambda>l. if l_nestingEdge l then removeEdgeObj e g else Inr g)"

definition nesting_cleanup :: "layoutGraph \<Rightarrow> layoutGraph result" where
  "nesting_cleanup g =
     rbind (deref (graph g)) (\<lambda>gl.
     rbind (removeNode (case g_nestingRoot gl of Some v \<Rightarrow> v | None \<Rightarrow> ''undefined'') g) (\<lambda>g1.
     rbind (mutGraph (\<lambda>l. l\<lparr>g_nestingRoot := None\<rparr>) g1) (\<lambda>g2.
       rfold removeNestingEdge (edges g2) g2)))"

section \<open>Changes of a compound graph\<close>

definition compound_ok :: "('g, 'n, 'e) Graph \<Rightarrow> bool" where
  "compound_ok g \<longleftrightarrow> layout_ok g \<and> f_isCompound g"

abbreviation up :: "('g, 'n, 'e) Graph \<Rightarrow> string \<Rightarrow> string option" where
  "up g \<equiv> get (f_parent g)"

lemma compound_okD:
  assumes "compound_ok g"
  shows "layout_ok g" "f_isCompound g" "graph_ok g" "clean_graph g"
  using assms by (simp_all add: compound_ok_def layout_ok_def)

lemma compound_ok_flags: "compound_ok g \<Longrightarrow> layout_ok h \<Longrightarrow> same_flags g h \<Longrightarrow> compound_ok h"
  by (simp add: compound_ok_def same_flags_def)

lemma up_dom: "compound_ok g \<Longrightarrow> dom (up g) = node_set g"
  using tree_okD(2) [OF graph_okD(4) [OF compound_okD(3,2)]] by (auto dest: get_Some_key key_get)

lemma compound_setNode:
  fixes g :: "('g, 'n, 'e) Graph"
  assumes ok: "compound_ok g" and v: "v \<notin> node_set g" "v \<noteq> GRAPH_NODE"
  shows "\<exists>h. setNode v (Some l) g = Inr h \<and> compound_ok h \<and> f_label h = f_label g \<and> abs_nodes h = (abs_nodes g)(v \<mapsto> l) \<and>
    abs_edges h = abs_edges g \<and> up h = (up g)(v \<mapsto> GRAPH_NODE)"
proof -
  obtain h where h: "setNode v (Some l) g = Inr h" "layout_ok h" "same_flags g h" "abs_nodes h = (abs_nodes g)(v \<mapsto> l)" "abs_edges h = abs_edges g"
    using layout_setNode [OF compound_okD(1) [OF ok] v(2), of l] by blast
  have "f_parent h = put v GRAPH_NODE (f_parent g)" using setNode_ok [OF compound_okD(3) [OF ok], of v "Some l"] v h(1) compound_okD(2) [OF ok] by auto
  then show ?thesis using h compound_ok_flags [OF ok h(2,3)] by (auto simp: same_flags_def fun_eq_iff)
qed

lemma compound_setEdge:
  fixes g :: "('g, 'n, 'e) Graph"
  assumes ok: "compound_ok g" and uw: "clean u" "clean w" "u \<in> node_set g" "w \<in> node_set g"
  shows "\<exists>h. setEdge u w (Some l) None g = Inr h \<and> compound_ok h \<and> f_label h = f_label g \<and> abs_nodes h = abs_nodes g \<and>
    abs_edges h = (abs_edges g)(\<lparr>e_v = u, e_w = w, e_name = None\<rparr> \<mapsto> l) \<and> up h = up g"
proof -
  let ?x = "\<lparr>e_v = u, e_w = w, e_name = None\<rparr>"
  have x: "clean_edge ?x" using uw(1,2) by (simp add: clean_edge_def clean_name_def)
  obtain h where h: "setEdge u w (Some l) None g = Inr h" "layout_ok h" "same_flags g h" "abs_nodes h = abs_nodes g"
    "abs_edges h = (abs_edges g)(?x \<mapsto> l)" using layout_setEdge [OF compound_okD(1) [OF ok] x, of l] uw(3,4) by auto
  note ok' = compound_ok_flags [OF ok h(2,3)]
  have gn: "f_isCompound g \<longrightarrow> u \<noteq> GRAPH_NODE \<and> w \<noteq> GRAPH_NODE" using compound_nodes [OF compound_okD(3,2) [OF ok]] uw(3,4) by auto
  have "up h y = up g y" for y
  proof (cases "y \<in> node_set g")
    case True
    then show ?thesis using setEdge_ok [OF compound_okD(3) [OF ok] gn, of None "Some l"] h(1) by auto
  next
    case False
    then have "y \<notin> node_set h" using h(4) by (simp add: node_set_abs)
    then show ?thesis using False up_dom [OF ok] up_dom [OF ok'] by (metis domIff)
  qed
  then show ?thesis using h ok' by (auto simp: same_flags_def)
qed

lemma compound_mutNode:
  fixes g :: "('g, 'n, 'e) Graph"
  assumes ok: "compound_ok g" and v: "abs_nodes g v = Some (Some l)"
  shows "\<exists>h. mutNode f v g = Inr h \<and> compound_ok h \<and> f_label h = f_label g \<and> abs_nodes h = (abs_nodes g)(v \<mapsto> Some (f l)) \<and>
    abs_edges h = abs_edges g \<and> up h = up g"
proof -
  obtain h where h: "mutNode f v g = Inr h" "layout_ok h" "same_flags g h" "abs_nodes h = (abs_nodes g)(v \<mapsto> Some (f l))" "abs_edges h = abs_edges g"
    using layout_mutNode [OF compound_okD(1) [OF ok] v] by blast
  have "f_parent h = f_parent g" using h(1) by (cases "node v g") (auto simp: mutNode_def)
  then show ?thesis using h compound_ok_flags [OF ok h(2,3)] by (auto simp: same_flags_def)
qed

lemma compound_setParent:
  fixes g :: "('g, 'n, 'e) Graph"
  assumes ok: "compound_ok g" and v: "v \<in> node_set g" "p \<in> node_set g" "v \<noteq> p" and leaf: "\<And>x. up g x \<noteq> Some v"
  shows "\<exists>h. setParent v (Some p) g = Inr h \<and> compound_ok h \<and> f_label h = f_label g \<and> abs_nodes h = abs_nodes g \<and>
    abs_edges h = abs_edges g \<and> up h = (up g)(v \<mapsto> p)"
proof -
  have gn: "v \<noteq> GRAPH_NODE" "Some p \<noteq> Some GRAPH_NODE" using compound_nodes [OF compound_okD(3,2) [OF ok]] v(1,2) by auto
  have "(p, v) \<notin> (parent_rel (f_parent g))\<^sup>*" if "Some p = Some q" for q
    using v(3) leaf that by (auto simp: parent_rel_def elim: rtranclE)
  then obtain h where h: "setParent v (Some p) g = Inr h" "graph_ok h" "same_flags g h" "f_edgeObjs h = f_edgeObjs g" "f_edgeLabels h = f_edgeLabels g"
    "node_set h = node_set g" "\<forall>x\<in>node_set g. get (f_nodes h) x = get (f_nodes g) x"
    "\<forall>x. up h x = (if x = v then Some p else up g x)"
    using setParent_ok [OF compound_okD(3,2) [OF ok] gn] v(1,2) by (auto simp: parent_or_root_def insert_absorb)
  have "clean_graph h" using compound_okD(4) [OF ok] h(4) by (simp add: clean_graph_def edges_def)
  then have "compound_ok h" using compound_ok_flags [OF ok layout_ok_flags [OF compound_okD(1) [OF ok] h(3,2)] h(3)] by blast
  moreover have "abs_nodes h = abs_nodes g" using h(6,7) by (rule abs_nodes_same)
  moreover have "abs_edges h = abs_edges g" using h(3-5) by (intro abs_edges_same)
  ultimately show ?thesis using h(1,3,8) by (auto simp: same_flags_def fun_eq_iff)
qed

text \<open>A new dummy.\<close>

lemma addDummyNode_ok:
  assumes ok: "compound_ok g" and name: "clean name" "name \<noteq> []" "hd name = CHR ''_''"
  shows "\<exists>d h c'. addDummyNode type attrs name (g, c) = Inr (d, h, c') \<and> d \<notin> node_set g \<and> clean d \<and> d \<noteq> [] \<and> d \<noteq> GRAPH_NODE \<and>
    compound_ok h \<and> f_label h = f_label g \<and> abs_nodes h = (abs_nodes g)(d \<mapsto> Some (attrs\<lparr>n_dummy := Some type\<rparr>)) \<and>
    abs_edges h = abs_edges g \<and> up h = (up g)(d \<mapsto> GRAPH_NODE)"
proof -
  obtain i where i: "freshId (length (nodes g) + 1) name g c = Inr (name @ nat_str i, i)" "name @ nat_str i \<notin> node_set g"
    using fresh_dummy [OF compound_okD(3) [OF ok]] by blast
  have "CHR 0x01 \<notin> set (nat_str i)" using nat_str_digits [of "CHR 0x01" i] by (auto simp: is_digit_def)
  then have d: "clean (name @ nat_str i)" "name @ nat_str i \<noteq> []" "name @ nat_str i \<noteq> GRAPH_NODE"
    using name by (auto simp: clean_def EDGE_KEY_DELIM_def GRAPH_NODE_def neq_Nil_conv)
  from compound_setNode [OF ok i(2) d(3), of "Some (attrs\<lparr>n_dummy := Some type\<rparr>)"] d i show ?thesis
    by (auto simp: addDummyNode_def)
qed

lemma addBorderPair_ok:
  assumes ok: "compound_ok g" and v: "abs_nodes g v = Some (Some l)"
  shows "\<exists>tp bt h c'. addBorderPair v (g, c) = Inr (tp, bt, h, c') \<and> tp \<notin> node_set g \<and> bt \<notin> node_set g \<and> tp \<noteq> bt \<and>
    clean tp \<and> clean bt \<and> tp \<noteq> [] \<and> bt \<noteq> [] \<and> compound_ok h \<and> f_label h = f_label g \<and> abs_edges h = abs_edges g \<and>
    up h = (up g)(tp \<mapsto> v, bt \<mapsto> v) \<and>
    abs_nodes h = (abs_nodes g)(tp \<mapsto> Some (plainNode\<lparr>n_dummy := Some ''border''\<rparr>), bt \<mapsto> Some (plainNode\<lparr>n_dummy := Some ''border''\<rparr>),
      v \<mapsto> Some (l\<lparr>n_borderTop := Some tp, n_borderBottom := Some bt\<rparr>))"
proof -
  let ?b = "plainNode\<lparr>n_dummy := Some ''border''\<rparr>"
  have vn: "v \<in> node_set g" using v by (auto simp: node_set_abs)
  have leaf: "up g x \<noteq> Some d" if "d \<notin> node_set g" "d \<noteq> GRAPH_NODE" for x d
    using tree_okD(10) [OF graph_okD(4) [OF compound_okD(3,2) [OF ok]]] that by blast
  obtain tp g1 c1 where g1: "addDummyNode ''border'' plainNode ''_bt'' (g, c) = Inr (tp, g1, c1)" "tp \<notin> node_set g" "clean tp" "tp \<noteq> []" "tp \<noteq> GRAPH_NODE"
    "compound_ok g1" "f_label g1 = f_label g" "abs_nodes g1 = (abs_nodes g)(tp \<mapsto> Some ?b)" "abs_edges g1 = abs_edges g" "up g1 = (up g)(tp \<mapsto> GRAPH_NODE)"
    using addDummyNode_ok [OF ok, of "''_bt''" "''border''" plainNode c] by (auto simp: clean_def EDGE_KEY_DELIM_def)
  obtain bt g2 c2 where g2: "addDummyNode ''border'' plainNode ''_bb'' (g1, c1) = Inr (bt, g2, c2)" "bt \<notin> node_set g1" "clean bt" "bt \<noteq> []" "bt \<noteq> GRAPH_NODE"
    "compound_ok g2" "f_label g2 = f_label g1" "abs_nodes g2 = (abs_nodes g1)(bt \<mapsto> Some ?b)" "abs_edges g2 = abs_edges g1" "up g2 = (up g1)(bt \<mapsto> GRAPH_NODE)"
    using addDummyNode_ok [OF g1(6), of "''_bb''" "''border''" plainNode c1] by (auto simp: clean_def EDGE_KEY_DELIM_def)
  have ns: "node_set g1 = insert tp (node_set g)" "node_set g2 = insert bt (insert tp (node_set g))" using g1(8) g2(8) by (auto simp: node_set_abs)
  have bt: "bt \<notin> node_set g" "bt \<noteq> tp" "v \<noteq> tp" "v \<noteq> bt" using g2(2) ns(1) vn g1(2) by auto
  have l2: "up g2 x \<noteq> Some d" if "d \<in> {tp, bt}" for x d using leaf g1(2,5,10) g2(5,10) bt that by auto
  obtain g3 where g3: "setParent tp (Some v) g2 = Inr g3" "compound_ok g3" "f_label g3 = f_label g2" "abs_nodes g3 = abs_nodes g2" "abs_edges g3 = abs_edges g2"
    "up g3 = (up g2)(tp \<mapsto> v)" using compound_setParent [OF g2(6), of tp v] ns(2) vn bt l2 by auto
  have v3: "abs_nodes g3 v = Some (Some l)" using g3(4) g2(8) g1(8) bt v by simp
  obtain g4 where g4: "mutNode (\<lambda>l. l\<lparr>n_borderTop := Some tp\<rparr>) v g3 = Inr g4" "compound_ok g4" "f_label g4 = f_label g3"
    "abs_nodes g4 = (abs_nodes g3)(v \<mapsto> Some (l\<lparr>n_borderTop := Some tp\<rparr>))" "abs_edges g4 = abs_edges g3" "up g4 = up g3"
    using compound_mutNode [OF g3(2) v3, of "\<lambda>l. l\<lparr>n_borderTop := Some tp\<rparr>"] by blast
  have ns4: "node_set g4 = node_set g2" using g4(4) g3(4) v3 by (auto simp: node_set_abs)
  have "up g4 x \<noteq> Some bt" for x using l2 [of bt x] g4(6) g3(6) bt by auto
  then obtain g5 where g5: "setParent bt (Some v) g4 = Inr g5" "compound_ok g5" "f_label g5 = f_label g4" "abs_nodes g5 = abs_nodes g4" "abs_edges g5 = abs_edges g4"
    "up g5 = (up g4)(bt \<mapsto> v)" using compound_setParent [OF g4(2), of bt v] ns(2) ns4 vn bt by auto
  obtain g6 where g6: "mutNode (\<lambda>l. l\<lparr>n_borderBottom := Some bt\<rparr>) v g5 = Inr g6" "compound_ok g6" "f_label g6 = f_label g5"
    "abs_nodes g6 = (abs_nodes g5)(v \<mapsto> Some (l\<lparr>n_borderTop := Some tp, n_borderBottom := Some bt\<rparr>))" "abs_edges g6 = abs_edges g5" "up g6 = up g5"
    using compound_mutNode [OF g5(2), of v "l\<lparr>n_borderTop := Some tp\<rparr>" "\<lambda>l. l\<lparr>n_borderBottom := Some bt\<rparr>"] g5(4) g4(4) by auto
  have "addBorderPair v (g, c) = Inr (tp, bt, g6, c2)"
    using g1(1) g2(1) g3(1) g4(1) g5(1) g6(1) by (simp add: addBorderPair_def addBorderNode_def)
  moreover have "up g6 = (up g)(tp \<mapsto> v, bt \<mapsto> v)" using g6(6) g5(6) g4(6) g3(6) g2(10) g1(10) bt(2) by (auto simp: fun_eq_iff)
  moreover have "abs_nodes g6 = (abs_nodes g)(tp \<mapsto> Some ?b, bt \<mapsto> Some ?b, v \<mapsto> Some (l\<lparr>n_borderTop := Some tp, n_borderBottom := Some bt\<rparr>))"
    using g6(4) g5(4) g4(4) g3(4) g2(8) g1(8) by simp
  ultimately show ?thesis using g1(2-4) g2(3,4) bt(1,2) g6(2,3,5) g5(3,5) g4(3,5) g3(3,5) g2(7,9) g1(7,9) by simp
qed

section \<open>The recursion\<close>

text \<open>The graph that the recursion starts with: \<open>rt\<close> is a new node on its own, no node has borders yet.\<close>

definition nest_base :: "layoutGraph \<Rightarrow> nesting \<Rightarrow> bool" where
  "nest_base b a \<longleftrightarrow> compound_ok b \<and> a_root a \<in> node_set b \<and>
     (\<forall>x \<in> node_set b. clean x \<and> get (a_depths a) x \<noteq> None \<and>
        (\<exists>l. abs_nodes b x = Some (Some l) \<and> n_borderTop l = None \<and> n_borderBottom l = None)) \<and>
     (\<forall>e \<in> dom (abs_edges b). e_v e \<noteq> a_root a \<and> e_w e \<noteq> a_root a)"

lemma nest_baseD:
  assumes "nest_base b a"
  shows "compound_ok b" "a_root a \<in> node_set b" "\<And>x. x \<in> node_set b \<Longrightarrow> clean x" "\<And>x. x \<in> node_set b \<Longrightarrow> get (a_depths a) x \<noteq> None"
    "\<And>x. x \<in> node_set b \<Longrightarrow> \<exists>l. abs_nodes b x = Some (Some l) \<and> n_borderTop l = None \<and> n_borderBottom l = None"
    "\<And>e. e \<in> dom (abs_edges b) \<Longrightarrow> e_v e \<noteq> a_root a \<and> e_w e \<noteq> a_root a"
  using assms unfolding nest_base_def by blast+

text \<open>\<open>P\<close> are the subgraphs that have their borders.\<close>

definition bordered :: "layoutGraph \<Rightarrow> layoutGraph \<Rightarrow> string \<Rightarrow> bool" where
  "bordered b h x \<longleftrightarrow> (\<exists>l tp bt. abs_nodes b x = Some (Some l) \<and>
     abs_nodes h x = Some (Some (l\<lparr>n_borderTop := Some tp, n_borderBottom := Some bt\<rparr>)) \<and>
     tp \<in> node_set h - node_set b \<and> bt \<in> node_set h - node_set b \<and> up h tp = Some x \<and> up h bt = Some x)"

definition nest_inv :: "layoutGraph \<Rightarrow> string \<Rightarrow> string set \<Rightarrow> layoutGraph \<Rightarrow> bool" where
  "nest_inv b rt P h \<longleftrightarrow> compound_ok h \<and> f_label h = f_label b \<and> P \<subseteq> node_set b \<and>
     (\<forall>x \<in> node_set b. (if x \<in> P then bordered b h x else abs_nodes h x = abs_nodes b x) \<and> up h x = up b x) \<and>
     (\<forall>x \<in> node_set h - node_set b. clean x \<and> (\<exists>l. abs_nodes h x = Some (Some l)) \<and> (\<exists>p \<in> P. up h x = Some p)) \<and>
     (\<forall>e \<in> dom (abs_edges b). abs_edges h e = abs_edges b e) \<and>
     (\<forall>e l. abs_edges h e = Some l \<longrightarrow> e \<notin> dom (abs_edges b) \<longrightarrow> (\<exists>k. l = Some k \<and> (e_v e = rt \<or> l_nestingEdge k)))"

lemma nest_invD:
  assumes "nest_inv b rt P h"
  shows "compound_ok h" "f_label h = f_label b" "P \<subseteq> node_set b"
    "\<And>x. x \<in> P \<Longrightarrow> bordered b h x" "\<And>x. x \<in> node_set b \<Longrightarrow> x \<notin> P \<Longrightarrow> abs_nodes h x = abs_nodes b x" "\<And>x. x \<in> node_set b \<Longrightarrow> up h x = up b x"
    "\<And>x. x \<in> node_set h \<Longrightarrow> x \<notin> node_set b \<Longrightarrow> clean x \<and> (\<exists>l. abs_nodes h x = Some (Some l)) \<and> (\<exists>p \<in> P. up h x = Some p)"
    "\<And>e. e \<in> dom (abs_edges b) \<Longrightarrow> abs_edges h e = abs_edges b e"
    "\<And>e l. abs_edges h e = Some l \<Longrightarrow> e \<notin> dom (abs_edges b) \<Longrightarrow> \<exists>k. l = Some k \<and> (e_v e = rt \<or> l_nestingEdge k)"
  using assms unfolding nest_inv_def by (blast, blast, blast, auto simp: subset_iff split: if_splits)

lemma nest_invI:
  assumes "compound_ok h" "f_label h = f_label b" "P \<subseteq> node_set b"
    "\<And>x. x \<in> P \<Longrightarrow> bordered b h x" "\<And>x. x \<in> node_set b \<Longrightarrow> x \<notin> P \<Longrightarrow> abs_nodes h x = abs_nodes b x" "\<And>x. x \<in> node_set b \<Longrightarrow> up h x = up b x"
    "\<And>x. x \<in> node_set h \<Longrightarrow> x \<notin> node_set b \<Longrightarrow> clean x \<and> (\<exists>l. abs_nodes h x = Some (Some l)) \<and> (\<exists>p \<in> P. up h x = Some p)"
    "\<And>e. e \<in> dom (abs_edges b) \<Longrightarrow> abs_edges h e = abs_edges b e"
    "\<And>e l. abs_edges h e = Some l \<Longrightarrow> e \<notin> dom (abs_edges b) \<Longrightarrow> \<exists>k. l = Some k \<and> (e_v e = rt \<or> l_nestingEdge k)"
  shows "nest_inv b rt P h"
  unfolding nest_inv_def using assms(1-3)
proof (intro conjI ballI allI impI)
  fix x assume x: "x \<in> node_set b"
  show "if x \<in> P then bordered b h x else abs_nodes h x = abs_nodes b x" using assms(4) assms(5) [OF x] by simp
  show "up h x = up b x" by (rule assms(6) [OF x])
next
  fix x assume "x \<in> node_set h - node_set b"
  then have x: "x \<in> node_set h" "x \<notin> node_set b" by simp_all
  from assms(7) [OF x] show "clean x" "\<exists>l. abs_nodes h x = Some (Some l)" "\<exists>p \<in> P. up h x = Some p" by blast+
next
  show "abs_edges h e = abs_edges b e" if "e \<in> dom (abs_edges b)" for e using that by (rule assms(8))
  show "\<exists>k. l = Some k \<and> (e_v e = rt \<or> l_nestingEdge k)" if "abs_edges h e = Some l" "e \<notin> dom (abs_edges b)" for e l using that by (rule assms(9))
qed

lemma bordered_nodes: "bordered b h x \<Longrightarrow> x \<in> node_set h"
  by (auto simp: bordered_def node_set_abs)

lemma nest_inv_nodes:
  assumes "nest_inv b rt P h"
  shows "node_set b \<subseteq> node_set h"
proof
  fix x assume x: "x \<in> node_set b"
  note I = nest_invD [OF assms]
  show "x \<in> node_set h" using I(4) [of x] I(5) [OF x] bordered_nodes x by (cases "x \<in> P") (auto simp: node_set_abs)
qed

text \<open>The children of a subgraph that has not been visited are the old ones.\<close>

lemma nest_inv_below:
  assumes "nest_inv b rt P h" and b: "compound_ok b" and v: "v \<notin> P"
  shows "(x, v) \<in> below_parent h \<longleftrightarrow> (x, v) \<in> below_parent b"
proof -
  note I = nest_invD [OF assms(1)]
  consider "x \<in> node_set b" | "x \<in> node_set h" "x \<notin> node_set b" | "x \<notin> node_set h" by blast
  then show ?thesis
  proof cases
    case 1
    then show ?thesis using I(6) by (simp add: parent_rel_def)
  next
    case 2
    obtain p where "p \<in> P" "up h x = Some p" using I(7) [OF 2] by blast
    then have "up h x \<noteq> Some v" using v by auto
    moreover have "up b x = None" using 2(2) up_dom [OF b] by (metis domIff)
    ultimately show ?thesis by (simp add: parent_rel_def)
  next
    case 3
    then have "x \<notin> node_set b" using nest_inv_nodes [OF assms(1)] by blast
    then have "up h x = None" "up b x = None" using 3 up_dom [OF I(1)] up_dom [OF b] by (metis domIff)+
    then show ?thesis by (simp add: parent_rel_def)
  qed
qed

lemma base_edge_ends: "compound_ok b \<Longrightarrow> e \<in> dom (abs_edges b) \<Longrightarrow> e_v e \<in> node_set b \<and> e_w e \<in> node_set b"
  using edges_ends [OF compound_okD(3)] dom_abs_edges [OF compound_okD(3)] by blast

lemma arcs_abs: "graph_ok g \<Longrightarrow> arcs g = {(e_v e, e_w e) | e. e \<in> dom (abs_edges g)}"
  by (simp add: arcs_def dom_abs_edges)

text \<open>Later steps keep what has been reached and the labels of the subgraphs \<open>P\<close>.\<close>

definition grown :: "string set \<Rightarrow> layoutGraph \<Rightarrow> layoutGraph \<Rightarrow> bool" where
  "grown P h h' \<longleftrightarrow> graph_ok h \<and> graph_ok h' \<and> node_set h \<subseteq> node_set h' \<and> dom (abs_edges h) \<subseteq> dom (abs_edges h') \<and> (\<forall>x \<in> P. abs_nodes h' x = abs_nodes h x)"

lemma grown_refl: "graph_ok h \<Longrightarrow> grown P h h"
  by (simp add: grown_def)

lemma grown_trans: "grown P h h' \<Longrightarrow> grown Q h' h'' \<Longrightarrow> P \<subseteq> Q \<Longrightarrow> grown P h h''"
  unfolding grown_def by (metis subset_iff)

definition joined :: "string \<Rightarrow> layoutGraph \<Rightarrow> string \<Rightarrow> bool" where
  "joined rt h x \<longleftrightarrow> (rt, x) \<in> (links h)\<^sup>*"

lemma joined_mono:
  assumes "grown P h h'" "joined rt h x"
  shows "joined rt h' x"
proof -
  have "arcs h \<subseteq> arcs h'" using assms(1) unfolding grown_def by (simp add: arcs_abs) blast
  then have "links h \<subseteq> links h'" by (auto simp: links_def)
  then show ?thesis using assms(2) rtrancl_mono unfolding joined_def by blast
qed

lemma joined_edge:
  assumes "graph_ok h" "e \<in> dom (abs_edges h)"
  shows "joined rt h (e_v e) \<longleftrightarrow> joined rt h (e_w e)"
proof -
  have "(e_v e, e_w e) \<in> links h" "(e_w e, e_v e) \<in> links h" using assms by (auto simp: links_def arcs_abs)
  then show ?thesis unfolding joined_def by (meson rtrancl.rtrancl_into_rtrancl)
qed

lemma nest_setEdge:
  assumes inv: "nest_inv b rt P h" and b: "compound_ok b" and uw: "clean u" "clean w" "u \<in> node_set h" "w \<in> node_set h"
    and new: "\<lparr>e_v = u, e_w = w, e_name = None\<rparr> \<notin> dom (abs_edges b)" and k: "u = rt \<or> l_nestingEdge k"
  shows "\<exists>h'. setEdge u w (Some (Some k)) None h = Inr h' \<and> nest_inv b rt P h' \<and> node_set h' = node_set h \<and> abs_nodes h' = abs_nodes h \<and>
    up h' = up h \<and> grown P h h' \<and> (joined rt h' u \<longleftrightarrow> joined rt h' w)"
proof -
  note I = nest_invD [OF inv]
  let ?x = "\<lparr>e_v = u, e_w = w, e_name = None\<rparr> :: edgeObj"
  obtain h' where h': "setEdge u w (Some (Some k)) None h = Inr h'" "compound_ok h'" "f_label h' = f_label h" "abs_nodes h' = abs_nodes h"
    "abs_edges h' = (abs_edges h)(?x \<mapsto> Some k)" "up h' = up h" using compound_setEdge [OF I(1) uw, of "Some k"] by blast
  have ns: "node_set h' = node_set h" using h'(4) by (simp add: node_set_abs)
  have brd: "bordered b h' x = bordered b h x" for x by (simp add: bordered_def ns h'(4,6))
  have "nest_inv b rt P h'"
  proof (rule nest_invI)
    show "\<exists>k. l = Some k \<and> (e_v e = rt \<or> l_nestingEdge k)" if "abs_edges h' e = Some l" "e \<notin> dom (abs_edges b)" for e l
      using I(9) [of e l] that h'(5) k by (cases "e = ?x") auto
    show "abs_edges h' e = abs_edges b e" if "e \<in> dom (abs_edges b)" for e using I(8) [OF that] that h'(5) new by (cases "e = ?x") auto
    show "clean x \<and> (\<exists>l. abs_nodes h' x = Some (Some l)) \<and> (\<exists>p \<in> P. up h' x = Some p)" if "x \<in> node_set h'" "x \<notin> node_set b" for x
      using I(7) [of x] that by (simp add: ns h'(4,6))
  qed (use I(2-6) h'(2-4,6) brd in simp_all)
  moreover have "grown P h h'" using compound_okD(3) [OF I(1)] compound_okD(3) [OF h'(2)] h'(4,5) ns by (auto simp: grown_def)
  moreover have "joined rt h' u \<longleftrightarrow> joined rt h' w" using joined_edge [OF compound_okD(3) [OF h'(2)], of ?x rt] h'(5) by simp
  ultimately show ?thesis using h'(1,4,6) ns by blast
qed

text \<open>The subgraphs and the base nodes in the hierarchy below a node, and what a visit of the node achieves.\<close>

definition subs_in :: "layoutGraph \<Rightarrow> string \<Rightarrow> string set" where
  "subs_in b v = {x \<in> inner b v. \<not> childless b x}"

definition base_in :: "layoutGraph \<Rightarrow> string \<Rightarrow> string set" where
  "base_in b v = {x \<in> inner b v. childless b x}"

definition ends_joined :: "string \<Rightarrow> layoutGraph \<Rightarrow> string \<Rightarrow> bool" where
  "ends_joined rt h v \<longleftrightarrow> (\<exists>l. abs_nodes h v = Some (Some l) \<and>
     (\<forall>x \<in> {orElse (n_borderTop l) v, orElse (n_borderBottom l) v}. x \<in> node_set h \<and> clean x \<and> joined rt h x))"

definition visited :: "layoutGraph \<Rightarrow> string \<Rightarrow> string set \<Rightarrow> string set \<Rightarrow> string set \<Rightarrow> layoutGraph \<Rightarrow> layoutGraph \<Rightarrow> bool" where
  "visited b rt P S L h h' \<longleftrightarrow> nest_inv b rt (P \<union> S) h' \<and> grown P h h' \<and> (\<forall>x \<in> (node_set h' - node_set h) \<union> L. joined rt h' x)"

lemma visitedD:
  assumes "visited b rt P S L h h'"
  shows "nest_inv b rt (P \<union> S) h'" "grown P h h'" "\<And>x. x \<in> node_set h' \<Longrightarrow> x \<notin> node_set h \<Longrightarrow> joined rt h' x" "\<And>x. x \<in> L \<Longrightarrow> joined rt h' x"
  using assms unfolding visited_def by auto

lemma visitedI:
  assumes "nest_inv b rt (P \<union> S) h'" "grown P h h'" "\<And>x. x \<in> node_set h' \<Longrightarrow> x \<notin> node_set h \<Longrightarrow> joined rt h' x" "\<And>x. x \<in> L \<Longrightarrow> joined rt h' x"
  shows "visited b rt P S L h h'"
  using assms unfolding visited_def by auto

lemma visited_trans:
  assumes "visited b rt P S L h h'" "visited b rt (P \<union> S) S' L' h' h''"
  shows "visited b rt P (S \<union> S') (L \<union> L') h h''"
proof (rule visitedI)
  note A = visitedD [OF assms(1)] and B = visitedD [OF assms(2)]
  show "nest_inv b rt (P \<union> (S \<union> S')) h''" using B(1) by (simp add: Un_assoc)
  show "grown P h h''" using grown_trans [OF A(2) B(2)] by blast
  show "joined rt h'' x" if "x \<in> node_set h''" "x \<notin> node_set h" for x using that A(3) [of x] B(3) [of x] joined_mono [OF B(2)] by blast
  show "joined rt h'' x" if "x \<in> L \<union> L'" for x using that A(4) [of x] B(4) [of x] joined_mono [OF B(2)] by blast
qed

lemma inner_split: "inner b v = insert v (\<Union>c \<in> {c. (c, v) \<in> below_parent b}. inner b c)"
  by (auto simp: inner_def elim: rtranclE)

lemma inner_leaf: "childless b v \<Longrightarrow> inner b v = {v}"
  unfolding inner_split [of b v] by (simp add: childless_def)

lemma nest_children:
  assumes inv: "nest_inv b rt P h" and b: "compound_ok b" and v: "v \<in> node_set b" "v \<notin> P"
  shows "\<exists>cs. children (Some v) h = Some cs \<and> distinct cs \<and> set cs = {c. (c, v) \<in> below_parent b}"
proof -
  note ok = compound_okD(3,2) [OF nest_invD(1) [OF inv]]
  have "v \<in> node_set h" using nest_inv_nodes [OF inv] v(1) by blast
  from children_spec [OF ok this] show ?thesis unfolding nest_inv_below [OF inv b v(2)] .
qed

lemma nest_leaf:
  assumes base: "nest_base b a" and inv: "nest_inv b (a_root a) P h" and v: "v \<in> node_set b" "v \<notin> P" "childless b v"
  shows "\<exists>h'. nestVisit (Suc n) a v (h, c) = Inr (h', c) \<and> visited b (a_root a) P {} {v} h h' \<and> ends_joined (a_root a) h' v"
proof -
  note B = nest_baseD [OF base] and I = nest_invD [OF inv]
  obtain l where l: "abs_nodes h v = Some (Some l)" "n_borderTop l = None" "n_borderBottom l = None" using B(5) [OF v(1)] I(5) [OF v(1,2)] by auto
  have self: "orElse (n_borderTop l) v = v" "orElse (n_borderBottom l) v = v" using l(2,3) by (simp_all add: orElse_def)
  have cs: "children (Some v) h = Some []" using nest_children [OF inv B(1) v(1,2)] v(3) by (auto simp: childless_def)
  have vh: "v \<in> node_set h" "a_root a \<in> node_set h" using nest_inv_nodes [OF inv] v(1) B(2) by blast+
  show ?thesis
  proof (cases "v = a_root a")
    case True
    have "visited b (a_root a) P {} {v} h h" using inv True grown_refl [OF compound_okD(3) [OF I(1)]] by (intro visitedI) (auto simp: joined_def)
    moreover have "ends_joined (a_root a) h v" using l(1) self B(3) [OF v(1)] vh(1) True by (auto simp: ends_joined_def joined_def)
    ultimately show ?thesis using True cs by (auto simp: nestVisit.simps)
  next
    case False
    have "\<lparr>e_v = a_root a, e_w = v, e_name = None\<rparr> \<notin> dom (abs_edges b)" using B(6) by force
    from nest_setEdge [OF inv B(1) B(3) [OF B(2)] B(3) [OF v(1)] vh(2,1) this, of "simpleEdge 0 (a_nodeSep a)"] obtain h' where
      h': "setEdge (a_root a) v (Some (Some (simpleEdge 0 (a_nodeSep a)))) None h = Inr h'" "nest_inv b (a_root a) P h'" "node_set h' = node_set h"
      "abs_nodes h' = abs_nodes h" "grown P h h'" "joined (a_root a) h' v" by (auto simp: joined_def)
    have "visited b (a_root a) P {} {v} h h'" using h'(2,3,5,6) by (intro visitedI) auto
    moreover have "ends_joined (a_root a) h' v" using l(1) self B(3) [OF v(1)] vh(1) h'(3,4,6) by (auto simp: ends_joined_def)
    ultimately show ?thesis using False cs h'(1) by (auto simp: nestVisit.simps)
  qed
qed

lemma nest_pair:
  assumes base: "nest_base b a" and inv: "nest_inv b rt P h" and v: "v \<in> node_set b" "v \<notin> P"
  shows "\<exists>tp bt h' c'. addBorderPair v (h, c) = Inr (tp, bt, h', c') \<and> nest_inv b rt (insert v P) h' \<and> grown P h h' \<and>
    node_set h' = insert tp (insert bt (node_set h)) \<and> tp \<notin> node_set b \<and> bt \<notin> node_set b \<and> clean tp \<and> clean bt \<and> tp \<noteq> [] \<and> bt \<noteq> [] \<and>
    (\<exists>l. abs_nodes h' v = Some (Some l) \<and> n_borderTop l = Some tp \<and> n_borderBottom l = Some bt)"
proof -
  note B = nest_baseD [OF base] and I = nest_invD [OF inv] and sub = nest_inv_nodes [OF inv]
  let ?d = "plainNode\<lparr>n_dummy := Some ''border''\<rparr>"
  obtain l where l: "abs_nodes b v = Some (Some l)" "abs_nodes h v = Some (Some l)" using B(5) [OF v(1)] I(5) [OF v] by auto
  obtain tp bt h' c' where h': "addBorderPair v (h, c) = Inr (tp, bt, h', c')" "tp \<notin> node_set h" "bt \<notin> node_set h" "tp \<noteq> bt"
    "clean tp" "clean bt" "tp \<noteq> []" "bt \<noteq> []" "compound_ok h'" "f_label h' = f_label h" "abs_edges h' = abs_edges h"
    "up h' = (up h)(tp \<mapsto> v, bt \<mapsto> v)"
    "abs_nodes h' = (abs_nodes h)(tp \<mapsto> Some ?d, bt \<mapsto> Some ?d, v \<mapsto> Some (l\<lparr>n_borderTop := Some tp, n_borderBottom := Some bt\<rparr>))"
    using addBorderPair_ok [OF I(1) l(2), of c] by blast
  have ns: "node_set h' = insert tp (insert bt (node_set h))" using h'(13) l(2) by (auto simp: node_set_abs)
  have new: "tp \<notin> node_set b" "bt \<notin> node_set b" "v \<noteq> tp" "v \<noteq> bt" using sub h'(2,3) v(1) by auto
  have same: "abs_nodes h' x = abs_nodes h x" "up h' x = up h x" if "x \<in> node_set h" "x \<noteq> v" for x using that h'(2,3,12,13) by auto
  have brd: "bordered b h' x" if x: "x \<in> P" for x
  proof -
    have "x \<in> node_set h" "x \<noteq> v" using bordered_nodes [OF I(4) [OF x]] x v(2) by auto
    then have "abs_nodes h' x = abs_nodes h x" by (rule same(1))
    moreover have "up h' y = up h y" if "y \<in> node_set h - node_set b" for y using same(2) [of y] that v(1) by blast
    moreover obtain k t u where "abs_nodes b x = Some (Some k)" "abs_nodes h x = Some (Some (k\<lparr>n_borderTop := Some t, n_borderBottom := Some u\<rparr>))"
      "t \<in> node_set h - node_set b" "u \<in> node_set h - node_set b" "up h t = Some x" "up h u = Some x" using I(4) [OF x] unfolding bordered_def by blast
    ultimately show ?thesis unfolding bordered_def ns by (intro exI [of _ k] exI [of _ t] exI [of _ u]) simp
  qed
  have "nest_inv b rt (insert v P) h'"
  proof (rule nest_invI)
    have "abs_nodes h' v = Some (Some (l\<lparr>n_borderTop := Some tp, n_borderBottom := Some bt\<rparr>))" "tp \<in> node_set h'" "bt \<in> node_set h'" using h'(13) ns by simp_all
    moreover have "up h' tp = Some v" "up h' bt = Some v" using h'(12) by simp_all
    ultimately have "bordered b h' v" unfolding bordered_def using l(1) new(1,2) by blast
    then show "bordered b h' x" if "x \<in> insert v P" for x using that brd by blast
    show "abs_nodes h' x = abs_nodes b x" if "x \<in> node_set b" "x \<notin> insert v P" for x using I(5) [of x] same(1) [of x] that sub by auto
    show "up h' x = up b x" if "x \<in> node_set b" for x using I(6) [OF that] that new h'(12) by auto
    show "clean x \<and> (\<exists>l. abs_nodes h' x = Some (Some l)) \<and> (\<exists>p \<in> insert v P. up h' x = Some p)" if x: "x \<in> node_set h'" "x \<notin> node_set b" for x
    proof -
      consider "x = tp" | "x = bt" | "x \<in> node_set h" "x \<noteq> v" "x \<noteq> tp" "x \<noteq> bt" using x v(1) ns h'(2,3) by auto
      then show ?thesis
      proof cases
        case 3
        then show ?thesis using I(7) [OF 3(1) x(2)] same [OF 3(1,2)] by auto
      qed (use h'(4-6,12,13) new in auto)
    qed
  qed (use h'(9-11) I(2,3,8,9) v(1) in simp_all)
  moreover have "\<forall>x \<in> P. abs_nodes h' x = abs_nodes h x" using same(1) bordered_nodes [OF I(4)] v(2) by metis
  then have "grown P h h'" unfolding grown_def using compound_okD(3) [OF I(1)] compound_okD(3) [OF h'(9)] ns h'(11) by auto
  moreover have "abs_nodes h' v = Some (Some (l\<lparr>n_borderTop := Some tp, n_borderBottom := Some bt\<rparr>))" using h'(13) by simp
  ultimately show ?thesis using h'(1,5-8) ns new(1,2) by (intro exI conjI) (assumption | simp)+
qed

lemma nestChild_ok:
  assumes base: "nest_base b a" and visit: "visit x (h, c) = Inr (h', c')" "visited b (a_root a) P S L h h'" "ends_joined (a_root a) h' x"
    and v: "v \<in> node_set b" and tb: "\<And>d. d \<in> {tp, bt} \<Longrightarrow> d \<in> node_set h \<and> d \<notin> node_set b \<and> clean d"
  shows "\<exists>h''. nestChild a visit v tp bt x (h, c) = Inr (h'', c') \<and> visited b (a_root a) P S (insert tp (insert bt L)) h h''"
proof -
  note B = nest_baseD [OF base] and W = visitedD [OF visit(2)]
  let ?rt = "a_root a" and ?Q = "P \<union> S"
  obtain l where l: "abs_nodes h' x = Some (Some l)" and ends: "\<And>y. y \<in> {orElse (n_borderTop l) x, orElse (n_borderBottom l) x} \<Longrightarrow> y \<in> node_set h' \<and> clean y \<and> joined ?rt h' y"
    using visit(3) unfolding ends_joined_def by blast
  let ?t = "orElse (n_borderTop l) x" and ?u = "orElse (n_borderBottom l) x"
  have nx: "node x h' = Some l" using l by (simp add: node_def abs_nodes_def)
  have tb': "d \<in> node_set h'" if "d \<in> {tp, bt}" for d using tb [OF that] W(2) unfolding grown_def by blast
  obtain d where d: "get (a_depths a) v = Some d" using B(4) [OF v] by blast
  let ?w = "if truthy_str (n_borderTop l) then a_weight a else 2 * a_weight a"
  let ?k = "nestingEdge ?w (if ?t \<noteq> ?u then 1 else a_height a - d + 1)"
  have k: "l_nestingEdge ?k" by (simp add: nestingEdge_def)
  have e1: "\<lparr>e_v = tp, e_w = ?t, e_name = None\<rparr> \<notin> dom (abs_edges b)" using base_edge_ends [OF B(1)] tb [of tp] by force
  obtain h1 where h1: "setEdge tp ?t (Some (Some ?k)) None h' = Inr h1" "nest_inv b ?rt ?Q h1" "node_set h1 = node_set h'" "abs_nodes h1 = abs_nodes h'"
    "grown ?Q h' h1" "joined ?rt h1 tp \<longleftrightarrow> joined ?rt h1 ?t"
    using nest_setEdge [OF W(1) B(1) _ _ _ _ e1, of ?k] tb [of tp] tb' [of tp] ends [of ?t] k by auto
  have e2: "\<lparr>e_v = ?u, e_w = bt, e_name = None\<rparr> \<notin> dom (abs_edges b)" using base_edge_ends [OF B(1)] tb [of bt] by force
  obtain h2 where h2: "setEdge ?u bt (Some (Some ?k)) None h1 = Inr h2" "nest_inv b ?rt ?Q h2" "node_set h2 = node_set h1" "abs_nodes h2 = abs_nodes h1"
    "grown ?Q h1 h2" "joined ?rt h2 ?u \<longleftrightarrow> joined ?rt h2 bt"
    using nest_setEdge [OF h1(2) B(1) _ _ _ _ e2, of ?k] tb [of bt] tb' [of bt] ends [of ?u] h1(3) k by auto
  have up1: "joined ?rt h1 y" if "joined ?rt h' y" for y using that by (rule joined_mono [OF h1(5)])
  have up2: "joined ?rt h2 y" if "joined ?rt h1 y" for y using that by (rule joined_mono [OF h2(5)])
  have len: "(if ?t \<noteq> ?u then Inr 1 else rbind (deref (get (a_depths a) v)) (\<lambda>d. Inr (a_height a - d + 1))) =
      (Inr (if ?t \<noteq> ?u then 1 else a_height a - d + 1) :: int result)" using d by simp
  have "nestChild a visit v tp bt x (h, c) = Inr (h2, c')"
    using h1(1) h2(1) by (simp add: nestChild_def Let_def visit(1) nx len split del: if_split)
  moreover have "visited b ?rt P S (insert tp (insert bt L)) h h2"
  proof (rule visitedI [OF h2(2)])
    show "grown P h h2" using grown_trans [OF W(2) grown_trans [OF h1(5) h2(5)]] by blast
    show "joined ?rt h2 y" if "y \<in> node_set h2" "y \<notin> node_set h" for y using that W(3) [of y] up1 up2 h1(3) h2(3) by blast
    have "joined ?rt h2 tp" "joined ?rt h2 bt" using h1(6) h2(6) ends [of ?t] ends [of ?u] up1 up2 by blast+
    then show "joined ?rt h2 y" if "y \<in> insert tp (insert bt L)" for y using that W(4) [of y] up1 up2 by blast
  qed
  ultimately show ?thesis by blast
qed

text \<open>A visit of a node gives every subgraph in it borders, and joins these and every base node in it with the root.\<close>

lemma nestVisit_ok:
  assumes base: "nest_base b a"
  shows "v \<in> node_set b \<Longrightarrow> card (inner b v) \<le> n \<Longrightarrow> nest_inv b (a_root a) P h \<Longrightarrow> inner b v \<inter> P = {} \<Longrightarrow>
    \<exists>h' c'. nestVisit n a v (h, c) = Inr (h', c') \<and> visited b (a_root a) P (subs_in b v) (base_in b v) h h' \<and> ends_joined (a_root a) h' v"
proof (induction n arbitrary: v P h c)
  case 0
  have "v \<in> inner b v" "finite (inner b v)" using inner_nodes(2) [OF compound_okD(3,2) [OF nest_baseD(1) [OF base]] 0(1)] by (simp_all add: inner_def)
  then show ?case using 0(2) by auto
next
  case (Suc n)
  note B = nest_baseD [OF base] and ok = compound_okD(3,2) [OF nest_baseD(1) [OF base]]
  let ?rt = "a_root a"
  have vP: "v \<notin> P" using Suc.prems(4) by (auto simp: inner_def)
  show ?case
  proof (cases "childless b v")
    case True
    then have "subs_in b v = {}" "base_in b v = {v}" using inner_leaf [OF True] by (auto simp: subs_in_def base_in_def)
    then show ?thesis using nest_leaf [OF base Suc.prems(3,1) vP True, of n c] by auto
  next
    case False
    obtain cs where cs: "children (Some v) h = Some cs" "distinct cs" "set cs = {c. (c, v) \<in> below_parent b}"
      using nest_children [OF Suc.prems(3) B(1) Suc.prems(1) vP] by blast
    have "cs \<noteq> []" using False cs(3) by (auto simp: childless_def)
    obtain tp bt h1 c1 where h1: "addBorderPair v (h, c) = Inr (tp, bt, h1, c1)" "nest_inv b ?rt (insert v P) h1" "grown P h h1"
      "node_set h1 = insert tp (insert bt (node_set h))" "tp \<notin> node_set b" "bt \<notin> node_set b" "clean tp" "clean bt" "tp \<noteq> []" "bt \<noteq> []"
      "\<exists>l. abs_nodes h1 v = Some (Some l) \<and> n_borderTop l = Some tp \<and> n_borderBottom l = Some bt"
      using nest_pair [OF base Suc.prems(3,1) vP, of c] by blast
    let ?Q = "\<lambda>ys (g, k :: nat). visited b ?rt (insert v P) (\<Union>x \<in> set ys. subs_in b x) ((if ys = [] then {} else {tp, bt}) \<union> (\<Union>x \<in> set ys. base_in b x)) h1 g"
    have "\<exists>s. rfold (nestChild a (nestVisit n a) v tp bt) cs (h1, c1) = Inr s \<and> ?Q cs s"
    proof (rule rfold_prefix_invariant [where P = ?Q])
      show "?Q [] (h1, c1)" using h1(2) grown_refl [OF compound_okD(3) [OF nest_invD(1) [OF h1(2)]]] by (simp add: visited_def)
    next
      fix ys x zs s assume split: "cs = ys @ x # zs" and Q: "?Q ys s"
      obtain g k where s: "s = (g, k)" by (cases s)
      let ?S = "\<Union>x \<in> set ys. subs_in b x" and ?L = "(if ys = [] then {} else {tp, bt}) \<union> (\<Union>x \<in> set ys. base_in b x)"
      have Qs: "visited b ?rt (insert v P) ?S ?L h1 g" using Q s by simp
      have x: "(x, v) \<in> below_parent b" and ys: "\<And>y. y \<in> set ys \<Longrightarrow> (y, v) \<in> below_parent b \<and> y \<noteq> x" using cs split by auto
      have xn: "x \<in> node_set b" using child_node [OF ok x] .
      have "inner b x \<inter> (insert v P \<union> ?S) = {}"
      proof -
        have "v \<notin> inner b x" using tree_okD(1) [OF graph_okD(4) [OF ok]] x unfolding inner_def acyclic_def by (blast intro: rtrancl_into_trancl1)
        moreover have "inner b x \<subseteq> inner b v" using x by (auto simp: inner_def)
        moreover have "inner b x \<inter> inner b y = {}" if "y \<in> set ys" for y using siblings_disjoint [OF ok x] ys [OF that] by (auto simp: inner_def)
        ultimately show ?thesis using Suc.prems(4) by (auto simp: subs_in_def)
      qed
      moreover have "card (inner b x) \<le> n" using inner_child [OF ok x Suc.prems(1)] Suc.prems(2) by simp
      ultimately obtain g1 k1 where g1: "nestVisit n a x (g, k) = Inr (g1, k1)" "visited b ?rt (insert v P \<union> ?S) (subs_in b x) (base_in b x) g g1"
        "ends_joined ?rt g1 x" using Suc.IH [OF xn _ visitedD(1) [OF Qs], of k] by blast
      have tb: "d \<in> node_set g \<and> d \<notin> node_set b \<and> clean d" if "d \<in> {tp, bt}" for d
        using that visitedD(2) [OF Qs] h1(4-8) unfolding grown_def by auto
      obtain g2 where g2: "nestChild a (nestVisit n a) v tp bt x (g, k) = Inr (g2, k1)"
        "visited b ?rt (insert v P \<union> ?S) (subs_in b x) (insert tp (insert bt (base_in b x))) g g2"
        using nestChild_ok [where visit = "nestVisit n a" and tp = tp and bt = bt, OF base g1 Suc.prems(1) tb] by blast
      have "?S \<union> subs_in b x = (\<Union>y \<in> set (ys @ [x]). subs_in b y)" 
        "?L \<union> insert tp (insert bt (base_in b x)) = (if ys @ [x] = [] then {} else {tp, bt}) \<union> (\<Union>y \<in> set (ys @ [x]). base_in b y)" by auto
      then have "?Q (ys @ [x]) (g2, k1)" using visited_trans [OF Qs g2(2)] by simp
      then show "\<exists>s'. nestChild a (nestVisit n a) v tp bt x s = Inr s' \<and> ?Q (ys @ [x]) s'" using g2(1) s by blast
    qed
    then obtain g k where g: "rfold (nestChild a (nestVisit n a) v tp bt) cs (h1, c1) = Inr (g, k)"
      "visited b ?rt (insert v P) (\<Union>x \<in> set cs. subs_in b x) ({tp, bt} \<union> (\<Union>x \<in> set cs. base_in b x)) h1 g" using \<open>cs \<noteq> []\<close> by auto
    note G = visitedD [OF g(2)]
    have sub: "insert v P \<union> (\<Union>x \<in> set cs. subs_in b x) = P \<union> subs_in b v" "base_in b v = (\<Union>x \<in> set cs. base_in b x)"
      using False unfolding subs_in_def base_in_def inner_split [of b v] cs(3) by auto
    have inv: "nest_inv b ?rt (P \<union> subs_in b v) g" using G(1) unfolding sub(1) .
    have tb: "joined ?rt g tp" "joined ?rt g bt" "tp \<in> node_set g" "bt \<in> node_set g" using G(2,4) h1(4) unfolding grown_def by auto
    have grow: "grown P h g" using grown_trans [OF h1(3) G(2)] by blast
    have V: "visited b ?rt P (subs_in b v) (base_in b v) h g"
      using inv grow G(3,4) tb(1,2) h1(4) unfolding sub(2) by (intro visitedI) auto
    obtain l where "abs_nodes g v = Some (Some l)" "n_borderTop l = Some tp" "n_borderBottom l = Some bt"
      using h1(11) G(2) unfolding grown_def by auto
    then have E: "ends_joined ?rt g v" using tb h1(7-10) by (simp add: ends_joined_def orElse_def)
    show ?thesis
    proof (cases "truthy_str (parent v g)")
      case True
      then show ?thesis using cs(1) \<open>cs \<noteq> []\<close> h1(1) g(1) V E by (auto simp: nestVisit.simps)
    next
      case top: False
      obtain d where d: "get (a_depths a) v = Some d" using B(4) [OF Suc.prems(1)] by blast
      let ?k = "simpleEdge 0 (a_height a + d)"
      have new: "\<lparr>e_v = ?rt, e_w = tp, e_name = None\<rparr> \<notin> dom (abs_edges b)" using B(6) by force
      have rt: "?rt \<in> node_set g" "clean ?rt" using nest_inv_nodes [OF inv] B(2,3) by auto
      obtain g' where g': "setEdge ?rt tp (Some (Some ?k)) None g = Inr g'" "nest_inv b ?rt (P \<union> subs_in b v) g'" "node_set g' = node_set g"
        "abs_nodes g' = abs_nodes g" "grown (P \<union> subs_in b v) g g'"
        using nest_setEdge [OF inv B(1) rt(2) h1(7) rt(1) tb(3) new, of ?k] by blast
      have up: "joined ?rt g' y" if "joined ?rt g y" for y using that by (rule joined_mono [OF g'(5)])
      have "visited b ?rt P (subs_in b v) (base_in b v) h g'"
        using g'(2,3) grown_trans [OF grow g'(5)] visitedD(3,4) [OF V] up by (intro visitedI) auto
      moreover have "ends_joined ?rt g' v" using E up g'(3,4) by (auto simp: ends_joined_def)
      ultimately show ?thesis using cs(1) \<open>cs \<noteq> []\<close> h1(1) g(1) top d g'(1) by (auto simp: nestVisit.simps)
    qed
  qed
qed

section \<open>The whole run\<close>

lemma top_level:
  assumes "compound_ok g"
  shows "\<exists>cs. children None g = Some cs \<and> distinct cs \<and> set cs = {x. up g x = Some GRAPH_NODE}"
proof -
  note T = graph_okD(4) [OF compound_okD(3,2) [OF assms]]
  obtain ob where ob: "get (f_children g) GRAPH_NODE = Some ob" using tree_okD(3) [OF T] key_get [of GRAPH_NODE "f_children g"] by blast
  then show ?thesis using compound_okD(2) [OF assms] tree_okD(8,9) [OF T ob] by (auto simp: children_def obj_ok_def)
qed

lemma inner_top:
  assumes ok: "compound_ok g"
  shows "x \<in> node_set g \<Longrightarrow> \<exists>t. up g t = Some GRAPH_NODE \<and> x \<in> inner g t"
proof -
  note T = graph_okD(4) [OF compound_okD(3,2) [OF ok]]
  have "wf ((below_parent g)\<inverse>)"
    using finite_acyclic_wf_converse [OF below_finite [OF compound_okD(3,2) [OF ok]] tree_okD(1) [OF T]] .
  then show "x \<in> node_set g \<Longrightarrow> \<exists>t. up g t = Some GRAPH_NODE \<and> x \<in> inner g t"
  proof (induction x rule: wf_induct_rule)
    case (less x)
    obtain p where p: "up g x = Some p" using less.prems up_dom [OF ok] by blast
    show ?case
    proof (cases "p = GRAPH_NODE")
      case True
      then show ?thesis using p by (auto simp: inner_def)
    next
      case False
      then have "p \<in> node_set g" using tree_okD(10) [OF T p] by simp
      moreover have xp: "(x, p) \<in> below_parent g" using p by (simp add: parent_rel_def)
      ultimately obtain t where "up g t = Some GRAPH_NODE" "p \<in> inner g t" using less.IH [of p] by blast
      then show ?thesis using xp by (auto simp: inner_def intro: converse_rtrancl_into_rtrancl)
    qed
  qed
qed

lemma inner_cover:
  assumes ok: "compound_ok g"
  shows "(\<Union>x \<in> {x. up g x = Some GRAPH_NODE}. inner g x) = node_set g"
proof
  have "x \<in> node_set g" if "up g x = Some GRAPH_NODE" for x using that up_dom [OF ok] by blast
  then show "(\<Union>x \<in> {x. up g x = Some GRAPH_NODE}. inner g x) \<subseteq> node_set g" using inner_nodes(1) [OF compound_okD(3,2) [OF ok]] by blast
  show "node_set g \<subseteq> (\<Union>x \<in> {x. up g x = Some GRAPH_NODE}. inner g x)" using inner_top [OF ok] by blast
qed

lemma inner_card:
  assumes ok: "compound_ok g" and v: "v \<in> node_set g"
  shows "card (inner g v) \<le> length (nodes g) + 1"
proof -
  have "card (inner g v) \<le> card (node_set g)" using inner_nodes(1) [OF compound_okD(3,2) [OF ok] v] by (intro card_mono) (simp_all add: node_set_def)
  also have "\<dots> = length (nodes g)" using distinct_nodes [OF compound_okD(3) [OF ok]] by (simp add: distinct_card flip: nodes_set)
  finally show ?thesis by simp
qed

lemma depthVisit_ok:
  assumes ok: "compound_ok g"
  shows "v \<in> node_set g \<Longrightarrow> card (inner g v) \<le> n \<Longrightarrow> \<exists>ds'. depthVisit n g k v ds = Inr ds' \<and> set (keys ds') = set (keys ds) \<union> inner g v"
proof (induction n arbitrary: v k ds)
  case 0
  have "v \<in> inner g v" "finite (inner g v)" using inner_nodes(2) [OF compound_okD(3,2) [OF ok] 0(1)] by (simp_all add: inner_def)
  then show ?case using 0(2) by auto
next
  case (Suc n)
  note G = compound_okD(3,2) [OF ok]
  obtain cs where cs: "children (Some v) g = Some cs" "set cs = {x. (x, v) \<in> below_parent g}" using children_spec [OF G Suc.prems(1)] by blast
  have "\<exists>ds'. rfold (depthVisit n g (k + 1)) cs ds = Inr ds' \<and> set (keys ds') = set (keys ds) \<union> (\<Union>x \<in> set cs. inner g x)"
  proof (rule rfold_prefix_invariant [where P = "\<lambda>ys ds'. set (keys ds') = set (keys ds) \<union> (\<Union>x \<in> set ys. inner g x)"])
    fix ys x zs and ds1 :: "int obj" assume split: "cs = ys @ x # zs" and P: "set (keys ds1) = set (keys ds) \<union> (\<Union>x \<in> set ys. inner g x)"
    have x: "(x, v) \<in> below_parent g" using cs(2) split by auto
    have "card (inner g x) \<le> n" using inner_child [OF G x Suc.prems(1)] Suc.prems(2) by simp
    from Suc.IH [OF child_node [OF G x] this, of "k + 1" ds1] P
    show "\<exists>ds2. depthVisit n g (k + 1) x ds1 = Inr ds2 \<and> set (keys ds2) = set (keys ds) \<union> (\<Union>x \<in> set (ys @ [x]). inner g x)" by auto
  qed simp
  then show ?case unfolding inner_split [of g v] cs(2) [symmetric] by (auto simp: cs(1) each_def)
qed

lemma treeDepths_ok:
  assumes ok: "compound_ok g"
  shows "\<exists>ds. treeDepths g = Inr ds \<and> set (keys ds) = node_set g"
proof -
  obtain cs where cs: "children None g = Some cs" "set cs = {x. up g x = Some GRAPH_NODE}" using top_level [OF ok] by blast
  have sub: "set cs \<subseteq> node_set g" using cs(2) up_dom [OF ok] by blast
  have "\<exists>ds. rfold (depthVisit (length (nodes g) + 1) g 1) cs [] = Inr ds \<and> set (keys ds) = (\<Union>x \<in> set cs. inner g x)"
  proof (rule rfold_prefix_invariant [where P = "\<lambda>ys ds. set (keys ds) = (\<Union>x \<in> set ys. inner g x)"])
    fix ys x zs and ds :: "int obj" assume split: "cs = ys @ x # zs" and P: "set (keys ds) = (\<Union>x \<in> set ys. inner g x)"
    have x: "x \<in> node_set g" using sub split by auto
    from depthVisit_ok [OF ok x inner_card [OF ok x], of 1 ds] P
    show "\<exists>ds'. depthVisit (length (nodes g) + 1) g 1 x ds = Inr ds' \<and> set (keys ds') = (\<Union>x \<in> set (ys @ [x]). inner g x)" by auto
  qed simp
  moreover have "(\<Union>x \<in> set cs. inner g x) = node_set g" unfolding cs(2) by (rule inner_cover [OF ok])
  ultimately show ?thesis using cs(1) by (simp add: treeDepths_def each_def)
qed

lemma sumWeights_ok:
  assumes "\<And>e. e \<in> set (edges g) \<Longrightarrow> edgeOfObj e g \<noteq> None"
  shows "\<exists>w. sumWeights g = Inr w"
proof -
  have "\<exists>w. rfold (\<lambda>e acc. rbind (deref (edgeOfObj e g)) (\<lambda>l. Inr (acc + l_weight l))) (edges g) 0 = Inr w \<and> True"
  proof (rule rfold_invariant)
    fix e w assume "e \<in> set (edges g)"
    then show "\<exists>w'. rbind (deref (edgeOfObj e g)) (\<lambda>l. Inr (w + l_weight l)) = Inr w' \<and> True" using assms by fastforce
  qed simp
  then show ?thesis by (simp add: sumWeights_def)
qed

lemma nest_all:
  assumes base: "nest_base b a"
  shows "\<exists>cs h c'. children None b = Some cs \<and> rfold (nestVisit (length (nodes b) + 1) a) cs (b, c) = Inr (h, c') \<and>
    visited b (a_root a) {} {x \<in> node_set b. \<not> childless b x} {x \<in> node_set b. childless b x} b h"
proof -
  note B = nest_baseD [OF base] and ok = compound_okD(3,2) [OF nest_baseD(1) [OF base]]
  let ?rt = "a_root a"
  obtain cs where cs: "children None b = Some cs" "distinct cs" "set cs = {x. up b x = Some GRAPH_NODE}" using top_level [OF B(1)] by blast
  have sub: "set cs \<subseteq> node_set b" using cs(3) up_dom [OF B(1)] by blast
  have start: "nest_inv b ?rt {} b" by (rule nest_invI) (use B(1) in auto)
  let ?Q = "\<lambda>ys (h, k :: nat). visited b ?rt {} (\<Union>x \<in> set ys. subs_in b x) (\<Union>x \<in> set ys. base_in b x) b h"
  have "\<exists>s. rfold (nestVisit (length (nodes b) + 1) a) cs (b, c) = Inr s \<and> ?Q cs s"
  proof (rule rfold_prefix_invariant [where P = ?Q])
    show "?Q [] (b, c)" using start grown_refl [OF ok(1)] by (simp add: visited_def)
  next
    fix ys x zs s assume split: "cs = ys @ x # zs" and Q: "?Q ys s"
    obtain h k where s: "s = (h, k)" by (cases s)
    let ?S = "\<Union>x \<in> set ys. subs_in b x"
    have Qs: "visited b ?rt {} ?S (\<Union>x \<in> set ys. base_in b x) b h" using Q s by simp
    have x: "x \<in> node_set b" "(x, GRAPH_NODE) \<in> below_parent b" using sub split cs(3) by (auto simp: parent_rel_def)
    have "inner b x \<inter> ?S = {}"
    proof -
      have "(y, GRAPH_NODE) \<in> below_parent b \<and> y \<noteq> x" if "y \<in> set ys" for y using that cs(2,3) split by (auto simp: parent_rel_def)
      then have "inner b x \<inter> inner b y = {}" if "y \<in> set ys" for y using siblings_disjoint [OF ok x(2)] that by (auto simp: inner_def)
      then show ?thesis by (auto simp: subs_in_def)
    qed
    then obtain h1 k1 where h1: "nestVisit (length (nodes b) + 1) a x (h, k) = Inr (h1, k1)" "visited b ?rt ({} \<union> ?S) (subs_in b x) (base_in b x) h h1"
      using nestVisit_ok [OF base x(1) inner_card [OF B(1) x(1)] visitedD(1) [OF Qs], of k] by auto
    have "?Q (ys @ [x]) (h1, k1)" using visited_trans [OF Qs h1(2)] by (simp add: Un_commute)
    then show "\<exists>s'. nestVisit (length (nodes b) + 1) a x s = Inr s' \<and> ?Q (ys @ [x]) s'" using h1(1) s by blast
  qed
  then obtain h k where h: "rfold (nestVisit (length (nodes b) + 1) a) cs (b, c) = Inr (h, k)" "visited b ?rt {} (\<Union>x \<in> set cs. subs_in b x) (\<Union>x \<in> set cs. base_in b x) b h" by auto
  have "(\<Union>x \<in> set cs. inner b x) = node_set b" unfolding cs(3) by (rule inner_cover [OF B(1)])
  then have "(\<Union>x \<in> set cs. subs_in b x) = {x \<in> node_set b. \<not> childless b x}" "(\<Union>x \<in> set cs. base_in b x) = {x \<in> node_set b. childless b x}"
    by (auto simp: subs_in_def base_in_def)
  then show ?thesis using h cs(1) by auto
qed

lemma compound_same_shape:
  assumes "same_shape g h" "compound_ok g"
  shows "compound_ok h" "up h = up g"
proof -
  note S = same_shapeD [OF assms(1)]
  show "compound_ok h" using assms(2) same_shape_ok [OF assms(1) compound_okD(3) [OF assms(2)]] S by (simp add: compound_ok_def layout_ok_def clean_graph_def)
  have "f_parent h = f_parent g" using assms(1) by (cases g; cases h) (simp add: same_shape_def)
  then show "up h = up g" by simp
qed

lemma compound_setGraph:
  fixes g :: "('g, 'n, 'e) Graph"
  assumes "compound_ok g"
  shows "compound_ok (setGraph x g)" "abs_nodes (setGraph x g) = abs_nodes g" "abs_edges (setGraph x g) = abs_edges g" "up (setGraph x g) = up g"
    "node_set (setGraph x g) = node_set g"
proof -
  show "abs_nodes (setGraph x g) = abs_nodes g" "abs_edges (setGraph x g) = abs_edges g" "up (setGraph x g) = up g" "node_set (setGraph x g) = node_set g"
    by (auto simp: setGraph_def abs_nodes_def abs_edges_def edges_def node_set_def fun_eq_iff)
  have "same_shape g (setGraph x g)" by (simp add: same_shape_def setGraph_def)
  then show "compound_ok (setGraph x g)" using compound_same_shape(1) assms by blast
qed

lemma compound_eachEdge:
  fixes g :: "('g, 'n, 'e) Graph"
  assumes ok: "compound_ok g" and lab: "\<And>e. e \<in> set (edges g) \<Longrightarrow> edgeOfObj e g \<noteq> None"
  shows "\<exists>h. eachEdge f g = Inr h \<and> compound_ok h \<and> f_label h = f_label g \<and> abs_nodes h = abs_nodes g \<and> up h = up g \<and>
    abs_edges h = (\<lambda>e. map_option (map_option f) (abs_edges g e)) \<and> edges h = edges g \<and> nodes h = nodes g"
proof -
  note G = compound_okD [OF ok]
  obtain h where h: "eachEdge f g = Inr h" "same_shape g h" "f_nodes h = f_nodes g" "f_label h = f_label g"
    "\<forall>e \<in> set (edges g). edgeOfObj e h = map_option f (edgeOfObj e g)" using eachEdge_ok [OF G(3) lab] by blast
  note S = same_shapeD [OF h(2)] and ok' = same_shape_ok [OF h(2) G(3)]
  have "abs_edges h e = map_option (map_option f) (abs_edges g e)" for e
  proof (cases "e \<in> set (edges g)")
    case True
    then show ?thesis using abs_edge_label [OF ok'] abs_edge_label [OF G(3)] h(5) S(2) by simp
  next
    case False
    then have "abs_edges g e = None" "abs_edges h e = None" using S(2) by (simp_all add: abs_edges_def)
    then show ?thesis by simp
  qed
  then show ?thesis using h(1,3,4) S(1,2) compound_same_shape [OF h(2) ok] by (auto simp: abs_nodes_def fun_eq_iff)
qed

definition scaled :: "int \<Rightarrow> layoutEdge \<Rightarrow> layoutEdge" where
  "scaled sep l = l\<lparr>l_minlen := l_minlen l * sep\<rparr>"

text \<open>The input of the nesting graph.\<close>

definition nest_input :: "layoutGraph \<Rightarrow> bool" where
  "nest_input g \<longleftrightarrow> compound_ok g \<and> graph g \<noteq> None \<and>
     (\<forall>v \<in> node_set g. clean v \<and> (\<exists>l. node v g = Some l \<and> n_borderTop l = None \<and> n_borderBottom l = None)) \<and>
     (\<forall>e \<in> set (edges g). \<exists>l. edgeOfObj e g = Some l \<and> \<not> l_nestingEdge l)"

lemma nesting_run_ok:
  assumes input: "nest_input g"
  shows "\<exists>b a sep h gl c'. nesting_run (g, c) = Inr (setGraph (Some gl) h, c') \<and> nest_base b a \<and> a_root a \<notin> node_set g \<and> g_nestingRoot gl = Some (a_root a) \<and>
    up b = (up g)(a_root a \<mapsto> GRAPH_NODE) \<and> abs_nodes b = (abs_nodes g)(a_root a \<mapsto> Some (plainNode\<lparr>n_dummy := Some ''root''\<rparr>)) \<and>
    abs_edges b = (\<lambda>e. map_option (map_option (scaled sep)) (abs_edges g e)) \<and>
    visited b (a_root a) {} {x \<in> node_set b. \<not> childless b x} {x \<in> node_set b. childless b x} b h"
proof -
  have ok: "compound_ok g" using input by (simp add: nest_input_def)
  obtain gl0 where gl0: "graph g = Some gl0" using input by (auto simp: nest_input_def)
  have nodes: "clean v \<and> (\<exists>l. abs_nodes g v = Some (Some l) \<and> n_borderTop l = None \<and> n_borderBottom l = None)" if v: "v \<in> node_set g" for v
    using input v unfolding nest_input_def by (auto simp: node_def abs_nodes_def split: option.splits)
  have lab: "edgeOfObj e g \<noteq> None" if "e \<in> set (edges g)" for e using input that unfolding nest_input_def by fastforce
  obtain rt g1 c1 where g1: "addDummyNode ''root'' plainNode ''_root'' (g, c) = Inr (rt, g1, c1)" "rt \<notin> node_set g" "clean rt" "rt \<noteq> GRAPH_NODE"
    "compound_ok g1" "f_label g1 = f_label g" "abs_nodes g1 = (abs_nodes g)(rt \<mapsto> Some (plainNode\<lparr>n_dummy := Some ''root''\<rparr>))" "abs_edges g1 = abs_edges g"
    "up g1 = (up g)(rt \<mapsto> GRAPH_NODE)"
    using addDummyNode_ok [OF ok, of "''_root''" "''root''" plainNode c] by (auto simp: clean_def EDGE_KEY_DELIM_def)
  have ns1: "node_set g1 = insert rt (node_set g)" using g1(7) by (auto simp: node_set_abs)
  obtain ds where ds: "treeDepths g1 = Inr ds" "set (keys ds) = node_set g1" using treeDepths_ok [OF g1(5)] by blast
  have "vals ds \<noteq> []" using ds(2) ns1 by (cases ds) (auto simp: vals_def)
  then obtain deepest where deep: "lodash_max (map Some (vals ds)) = Some deepest" by (cases "vals ds") (auto simp: lodash_max_def List.map_filter_simps)
  define height where "height = deepest - 1"
  define sep where "sep = 2 * height + 1"
  have height_sep: "deepest - 1 = height" "2 * deepest - 1 = sep" by (simp_all add: height_def sep_def)
  let ?gl = "gl0\<lparr>g_nestingRoot := Some rt\<rparr>"
  let ?g2 = "setGraph (Some ?gl) g1"
  have m2: "mutGraph (\<lambda>l. l\<lparr>g_nestingRoot := Some rt\<rparr>) g1 = Inr ?g2" using gl0 g1(6) by (simp add: mutGraph_def graph_def)
  note C2 = compound_setGraph [OF g1(5), of "Some ?gl"]
  have edges2: "set (edges ?g2) = set (edges g)" using dom_abs_edges [OF compound_okD(3) [OF C2(1)]] dom_abs_edges [OF compound_okD(3) [OF ok]] C2(3) g1(8) by simp
  have lab2: "edgeOfObj e ?g2 \<noteq> None" if "e \<in> set (edges ?g2)" for e
    using lab [of e] that edges2 abs_edge_label [OF compound_okD(3) [OF C2(1)] that] abs_edge_label [OF compound_okD(3) [OF ok], of e] C2(3) g1(8) by auto
  obtain b where b: "eachEdge (scaled sep) ?g2 = Inr b" "compound_ok b" "f_label b = f_label ?g2" "abs_nodes b = abs_nodes ?g2" "up b = up ?g2"
    "abs_edges b = (\<lambda>e. map_option (map_option (scaled sep)) (abs_edges ?g2 e))" "edges b = edges ?g2" "nodes b = nodes ?g2"
    using compound_eachEdge [OF C2(1) lab2, of "scaled sep"] by blast
  have "edgeOfObj e b \<noteq> None" if "e \<in> set (edges b)" for e
  proof -
    have e: "e \<in> set (edges ?g2)" using that b(7) by simp
    have "Some (edgeOfObj e b) = map_option (map_option (scaled sep)) (Some (edgeOfObj e ?g2))"
      using abs_edge_label [OF compound_okD(3) [OF b(2)] that] abs_edge_label [OF compound_okD(3) [OF C2(1)] e] b(6) by metis
    then show ?thesis using lab2 [OF e] by simp
  qed
  then obtain w where w: "sumWeights b = Inr w" using sumWeights_ok by blast
  let ?a = "\<lparr>a_root = rt, a_nodeSep = sep, a_weight = w + 1, a_height = height, a_depths = ds\<rparr>"
  have nsb: "node_set b = insert rt (node_set g)" using b(4) C2(2,5) ns1 by (simp add: node_set_abs)
  have base: "nest_base b ?a" unfolding nest_base_def
  proof (intro conjI ballI)
    show "compound_ok b" by (rule b(2))
    show "a_root ?a \<in> node_set b" using nsb by simp
    fix x assume x: "x \<in> node_set b"
    show "clean x" using x nsb g1(3) nodes by auto
    show "get (a_depths ?a) x \<noteq> None" using x nsb ns1 ds(2) by (simp add: get_None_iff)
    show "\<exists>l. abs_nodes b x = Some (Some l) \<and> n_borderTop l = None \<and> n_borderBottom l = None"
      using x nsb nodes [of x] b(4) C2(2) g1(2,7) by (cases "x = rt") (auto simp: plainNode_def)
  next
    fix e assume "e \<in> dom (abs_edges b)"
    then have "e \<in> dom (abs_edges g)" using b(6) C2(3) g1(8) by (auto simp: dom_def)
    then show "e_v e \<noteq> a_root ?a" "e_w e \<noteq> a_root ?a" using base_edge_ends [OF ok] g1(2) by auto
  qed
  obtain cs h c4 where run: "children None b = Some cs" "rfold (nestVisit (length (nodes b) + 1) ?a) cs (b, c1) = Inr (h, c4)"
    "visited b rt {} {x \<in> node_set b. \<not> childless b x} {x \<in> node_set b. childless b x} b h" using nest_all [OF base, of c1] by auto
  let ?gl' = "?gl\<lparr>g_nodeRankFactor := Some sep\<rparr>"
  have "f_label h = Some ?gl" using nest_invD(2) [OF visitedD(1) [OF run(3)]] b(3) by (simp add: setGraph_def)
  then have m5: "mutGraph (\<lambda>l. l\<lparr>g_nodeRankFactor := Some sep\<rparr>) h = Inr (setGraph (Some ?gl') h)" by (simp add: mutGraph_def graph_def)
  have "nesting_run (g, c) = Inr (setGraph (Some ?gl') h, c4)"
    using g1(1) ds(1) deep m2 b(1) w run(1,2) m5
    by (simp add: nesting_run_def Let_def each_def scaled_def [abs_def] height_sep)
  moreover have "up b = (up g)(rt \<mapsto> GRAPH_NODE)" using b(5) C2(4) g1(9) by simp
  moreover have "abs_nodes b = (abs_nodes g)(rt \<mapsto> Some (plainNode\<lparr>n_dummy := Some ''root''\<rparr>))" using b(4) C2(2) g1(7) by simp
  moreover have "abs_edges b = (\<lambda>e. map_option (map_option (scaled sep)) (abs_edges g e))" using b(6) C2(3) g1(8) by simp
  ultimately show ?thesis using base g1(2) run(3)
    by (intro exI [of _ b] exI [of _ ?a] exI [of _ sep] exI [of _ h] exI [of _ ?gl'] exI [of _ c4]) simp
qed

lemma remove_nesting:
  assumes ok: "layout_ok g" and lab: "\<And>e l. abs_edges g e = Some l \<Longrightarrow> l \<noteq> None"
  shows "\<exists>k. rfold removeNestingEdge (edges g) g = Inr k \<and> layout_ok k \<and> abs_nodes k = abs_nodes g \<and>
    (\<forall>e. abs_edges k e = (case abs_edges g e of Some (Some l) \<Rightarrow> if l_nestingEdge l then None else Some (Some l) | x \<Rightarrow> x))"
proof -
  let ?f = "\<lambda>e. case abs_edges g e of Some (Some l) \<Rightarrow> if l_nestingEdge l then None else Some (Some l) | x \<Rightarrow> x"
  let ?P = "\<lambda>ys k. layout_ok k \<and> abs_nodes k = abs_nodes g \<and> (\<forall>e. abs_edges k e = (if e \<in> set ys then ?f e else abs_edges g e))"
  have "\<exists>k. rfold removeNestingEdge (edges g) g = Inr k \<and> ?P (edges g) k"
  proof (rule rfold_prefix_invariant [where P = ?P])
    fix ys e zs and k :: layoutGraph assume split: "edges g = ys @ e # zs" and P: "?P ys k"
    have "e \<notin> set ys" using distinct_edges [OF layout_okD(1) [OF ok]] split by simp
    moreover have "e \<in> dom (abs_edges g)" using dom_abs_edges [OF layout_okD(1) [OF ok]] split by simp
    ultimately obtain l where l: "abs_edges g e = Some (Some l)" "abs_edges k e = Some (Some l)" using lab P by fastforce
    have "e \<in> set (edges k)" using dom_abs_edges [of k] l(2) P by (auto simp: layout_ok_def)
    then have el: "edgeOfObj e k = Some l" using abs_edge_label [of k e] l(2) P by (auto simp: layout_ok_def)
    show "\<exists>k'. removeNestingEdge e k = Inr k' \<and> ?P (ys @ [e]) k'"
    proof (cases "l_nestingEdge l")
      case True
      obtain k' where k': "removeEdgeObj e k = Inr k'" "layout_ok k'" "abs_nodes k' = abs_nodes k" "abs_edges k' = (abs_edges k)(e := None)"
        using layout_removeEdge [OF _ l(2)] P by blast
      then have "?P (ys @ [e]) k'" using P l(1) True by auto
      then show ?thesis using True el k'(1) by (auto simp: removeNestingEdge_def)
    next
      case False
      then have "?P (ys @ [e]) k" using P l by auto
      then show ?thesis using False el by (auto simp: removeNestingEdge_def)
    qed
  qed (simp add: ok)
  then obtain k where k: "rfold removeNestingEdge (edges g) g = Inr k" "?P (edges g) k" by blast
  have "abs_edges k e = ?f e" for e
  proof (cases "e \<in> set (edges g)")
    case False
    then have "abs_edges g e = None" by (simp add: abs_edges_def)
    then show ?thesis using False k(2) by simp
  qed (use k(2) in simp)
  then show ?thesis using k by blast
qed

lemma nesting_cleanup_ok:
  assumes base: "nest_base b a" and inv: "nest_inv b (a_root a) P h" and gl: "g_nestingRoot gl = Some (a_root a)"
    and lab: "\<And>e l. abs_edges b e = Some l \<Longrightarrow> \<exists>k. l = Some k \<and> \<not> l_nestingEdge k"
  shows "\<exists>k. nesting_cleanup (setGraph (Some gl) h) = Inr k \<and> layout_ok k \<and> abs_nodes k = (abs_nodes h)(a_root a := None) \<and> abs_edges k = abs_edges b"
proof -
  note B = nest_baseD [OF base] and I = nest_invD [OF inv]
  let ?h = "setGraph (Some gl) h" and ?rt = "a_root a"
  note C = compound_setGraph [OF I(1), of "Some gl"]
  have rt: "?rt \<in> node_set ?h" using nest_inv_nodes [OF inv] B(2) C(5) by blast
  obtain k1 where k1: "removeNode ?rt ?h = Inr k1" "layout_ok k1" "same_flags ?h k1" "abs_nodes k1 = (abs_nodes ?h)(?rt := None)"
    "abs_edges k1 = (\<lambda>e. if e_v e = ?rt \<or> e_w e = ?rt then None else abs_edges ?h e)" using layout_removeNode [OF compound_okD(1) [OF C(1)] rt] by blast
  have "graph k1 = Some gl" using k1(3) by (simp add: same_flags_def setGraph_def graph_def)
  then obtain k2 where k2: "mutGraph (\<lambda>l. l\<lparr>g_nestingRoot := None\<rparr>) k1 = Inr k2" "layout_ok k2" "abs_nodes k2 = abs_nodes k1" "abs_edges k2 = abs_edges k1"
    using layout_mutGraph [OF k1(2)] by blast
  have some: "l \<noteq> None" if "abs_edges k2 e = Some l" for e l
  proof (cases "e \<in> dom (abs_edges b)")
    case True
    then show ?thesis using I(8) [OF True] lab [of e] that k2(4) k1(5) C(3) by (auto split: if_splits)
  next
    case False
    have "abs_edges h e = Some l" using that k2(4) k1(5) C(3) by (simp split: if_splits)
    from I(9) [OF this False] show ?thesis by auto
  qed
  obtain k where k: "rfold removeNestingEdge (edges k2) k2 = Inr k" "layout_ok k" "abs_nodes k = abs_nodes k2"
    "\<And>e. abs_edges k e = (case abs_edges k2 e of Some (Some l) \<Rightarrow> if l_nestingEdge l then None else Some (Some l) | x \<Rightarrow> x)"
    using remove_nesting [OF k2(2)] some by blast
  have "abs_edges k e = abs_edges b e" for e
  proof (cases "e \<in> dom (abs_edges b)")
    case True
    then obtain l where l: "abs_edges b e = Some (Some l)" "\<not> l_nestingEdge l" using lab by blast
    then have "abs_edges k2 e = Some (Some l)" using B(6) [OF True] I(8) [OF True] k2(4) k1(5) C(3) by simp
    then show ?thesis using l k(4) [of e] by simp
  next
    case False
    then have bN: "abs_edges b e = None" by (simp add: domIff)
    have "\<exists>l. x = Some l \<and> l_nestingEdge l" if "abs_edges k2 e = Some x" for x
    proof -
      have "abs_edges h e = Some x" "e_v e \<noteq> ?rt" using that k2(4) k1(5) C(3) by (simp_all split: if_splits)
      from I(9) [OF this(1) False] this(2) show ?thesis by auto
    qed
    then show ?thesis unfolding bN k(4) [of e] by (cases "abs_edges k2 e") auto
  qed
  then have "abs_edges k = abs_edges b" by (rule ext)
  moreover have "nesting_cleanup ?h = Inr k" using gl k1(1) k2(1) k(1) by (simp add: nesting_cleanup_def setGraph_def graph_def)
  ultimately show ?thesis using k(2,3) k2(3) k1(4) C(2) by auto
qed

lemma nest_childless:
  assumes base: "nest_base b a" and V: "visited b (a_root a) {} {x \<in> node_set b. \<not> childless b x} {x \<in> node_set b. childless b x} b h"
    and x: "x \<in> node_set h" "childless h x"
  shows "joined (a_root a) h x"
proof (cases "x \<in> node_set b")
  case True
  note I = nest_invD [OF visitedD(1) [OF V]]
  have "childless b x"
  proof (rule ccontr)
    assume "\<not> childless b x"
    then have "bordered b h x" using I(4) True by simp
    then obtain tp where "up h tp = Some x" unfolding bordered_def by blast
    then show False using x(2) by (auto simp: childless_def parent_rel_def)
  qed
  then show ?thesis using visitedD(4) [OF V] True by blast
qed (use visitedD(3) [OF V x(1)] in blast)

text \<open>C39. On a compound graph, with any hierarchy of subgraphs, \<open>nestingGraph.run\<close> ends and keeps the hierarchy. It gives every
  subgraph a border node at the top and one at the bottom inside it, and joins all nodes without children, which are the ones
  that get ranks, into one connected graph. \<open>nestingGraph.cleanup\<close> then removes the edges it added: the edges are the old ones
  with their minimum lengths multiplied by one factor, and the labels of the nodes without children are the old ones.\<close>

theorem nesting_connects_the_graph:
  assumes "nest_input g"
  shows "\<exists>h c' k sep. nesting_run (g, c) = Inr (h, c') \<and> nesting_cleanup h = Inr k \<and>
    (\<forall>x \<in> node_set h. \<forall>y \<in> node_set h. childless h x \<longrightarrow> childless h y \<longrightarrow> (x, y) \<in> (links h)\<^sup>*) \<and>
    (\<forall>x \<in> node_set g. parent x h = parent x g) \<and>
    (\<forall>x \<in> node_set g. \<not> childless g x \<longrightarrow> (\<exists>l tp bt. node x h = Some l \<and> n_borderTop l = Some tp \<and> n_borderBottom l = Some bt \<and>
       parent tp h = Some x \<and> parent bt h = Some x)) \<and>
    node_set g \<subseteq> node_set k \<and> set (edges k) = set (edges g) \<and>
    (\<forall>e \<in> set (edges g). edgeOfObj e k = map_option (\<lambda>l. l\<lparr>l_minlen := l_minlen l * sep\<rparr>) (edgeOfObj e g)) \<and>
    (\<forall>x \<in> node_set g. childless g x \<longrightarrow> node x k = node x g)"
proof -
  have ok: "compound_ok g" using assms by (simp add: nest_input_def)
  obtain b a sep h gl c' where run: "nesting_run (g, c) = Inr (setGraph (Some gl) h, c')" and base: "nest_base b a" and rt: "a_root a \<notin> node_set g"
    and gl: "g_nestingRoot gl = Some (a_root a)" and upb: "up b = (up g)(a_root a \<mapsto> GRAPH_NODE)"
    and nodes: "abs_nodes b = (abs_nodes g)(a_root a \<mapsto> Some (plainNode\<lparr>n_dummy := Some ''root''\<rparr>))"
    and edges: "abs_edges b = (\<lambda>e. map_option (map_option (scaled sep)) (abs_edges g e))"
    and V: "visited b (a_root a) {} {x \<in> node_set b. \<not> childless b x} {x \<in> node_set b. childless b x} b h"
    using nesting_run_ok [OF assms] by blast
  let ?h = "setGraph (Some gl) h" and ?rt = "a_root a" and ?P = "{x \<in> node_set b. \<not> childless b x}"
  have inv: "nest_inv b ?rt ?P h" using visitedD(1) [OF V] by simp
  note B = nest_baseD [OF base] and I = nest_invD [OF inv]
  note C = compound_setGraph [OF I(1), of "Some gl"]
  have nsb: "node_set b = insert ?rt (node_set g)" using nodes by (auto simp: node_set_abs)
  have el: "\<exists>l. abs_edges g e = Some (Some l) \<and> \<not> l_nestingEdge l \<and> edgeOfObj e g = Some l" if "e \<in> dom (abs_edges g)" for e
    using that assms abs_edge_label [OF compound_okD(3) [OF ok], of e] dom_abs_edges [OF compound_okD(3) [OF ok]] unfolding nest_input_def by fastforce
  have lab: "\<exists>k. l = Some k \<and> \<not> l_nestingEdge k" if be: "abs_edges b e = Some l" for e l
  proof -
    obtain z where z: "abs_edges g e = Some z" "l = map_option (scaled sep) z" using be unfolding edges by auto
    with el [of e] show ?thesis by (auto simp: scaled_def domI)
  qed
  obtain k where k: "nesting_cleanup ?h = Inr k" "layout_ok k" "abs_nodes k = (abs_nodes h)(?rt := None)" "abs_edges k = abs_edges b"
    using nesting_cleanup_ok [OF base inv gl] lab by blast
  have below: "childless b x \<longleftrightarrow> childless g x" if "x \<in> node_set g" for x
  proof -
    have "x \<noteq> GRAPH_NODE" using compound_nodes [OF compound_okD(3,2) [OF ok]] that by auto
    then have "(y, x) \<in> below_parent b \<longleftrightarrow> (y, x) \<in> below_parent g" for y
      using upb rt up_dom [OF ok] by (cases "y = ?rt") (auto simp: parent_rel_def)
    then show ?thesis by (simp add: childless_def)
  qed
  have chh: "childless ?h x \<longleftrightarrow> childless h x" "links ?h = links h" for x
    by (simp_all add: childless_def setGraph_def links_def arcs_def edges_def)
  have "(x, y) \<in> (links ?h)\<^sup>*" if xy: "x \<in> node_set ?h" "y \<in> node_set ?h" "childless ?h x" "childless ?h y" for x y
  proof -
    have "joined ?rt h x" "joined ?rt h y" using nest_childless [OF base V] xy C(5) chh(1) by blast+
    moreover have "sym (links h)" by (auto simp: links_def sym_def)
    ultimately show ?thesis unfolding joined_def chh(2) by (meson rtrancl_trans sym_rtrancl symD)
  qed
  moreover have "parent x ?h = parent x g" if x: "x \<in> node_set g" for x
  proof -
    have "up ?h x = up g x" using I(6) [of x] C(4) x nsb upb rt by auto
    then show ?thesis using compound_okD(2) [OF C(1)] compound_okD(2) [OF ok] by (simp add: parent_def)
  qed
  moreover have "\<exists>l tp bt. node x ?h = Some l \<and> n_borderTop l = Some tp \<and> n_borderBottom l = Some bt \<and> parent tp ?h = Some x \<and> parent bt ?h = Some x"
    if x: "x \<in> node_set g" "\<not> childless g x" for x
  proof -
    have "x \<in> ?P" using x below nsb by simp
    then obtain l tp bt where l: "abs_nodes h x = Some (Some (l\<lparr>n_borderTop := Some tp, n_borderBottom := Some bt\<rparr>))" "up h tp = Some x" "up h bt = Some x"
      using I(4) unfolding bordered_def by blast
    have "x \<noteq> GRAPH_NODE" using compound_nodes [OF compound_okD(3,2) [OF ok]] x(1) by auto
    then have "parent tp ?h = Some x" "parent bt ?h = Some x" using l(2,3) C(4) compound_okD(2) [OF C(1)] by (simp_all add: parent_def)
    moreover have "node x ?h = Some (l\<lparr>n_borderTop := Some tp, n_borderBottom := Some bt\<rparr>)" using l(1) C(2) by (simp add: node_def abs_nodes_def)
    ultimately show ?thesis by simp
  qed
  moreover have "node_set g \<subseteq> node_set k" using nest_inv_nodes [OF inv] nsb rt k(3) by (auto simp: node_set_abs)
  moreover have "set (edges k) = set (edges g)"
    using dom_abs_edges [OF layout_okD(1) [OF k(2)]] dom_abs_edges [OF compound_okD(3) [OF ok]] k(4) edges by (auto simp: dom_def)
  moreover have "edgeOfObj e k = map_option (\<lambda>l. l\<lparr>l_minlen := l_minlen l * sep\<rparr>) (edgeOfObj e g)" if e: "e \<in> set (edges g)" for e
  proof -
    have ek: "e \<in> set (edges k)" using e calculation by blast
    have "Some (edgeOfObj e k) = map_option (map_option (scaled sep)) (Some (edgeOfObj e g))"
      using abs_edge_label [OF layout_okD(1) [OF k(2)] ek] abs_edge_label [OF compound_okD(3) [OF ok] e] k(4) edges by metis
    then show ?thesis by (simp add: scaled_def [abs_def])
  qed
  moreover have "node x k = node x g" if x: "x \<in> node_set g" "childless g x" for x
  proof -
    have "x \<in> node_set b" "x \<notin> ?P" "x \<noteq> ?rt" using x below nsb rt by auto
    then have "abs_nodes k x = abs_nodes g x" using I(5) [of x] k(3) nodes by simp
    then show ?thesis by (simp add: node_def abs_nodes_def)
  qed
  ultimately show ?thesis using run k(1) by blast
qed

text \<open>A subgraph \<open>s\<close> with the node \<open>a\<close> in it and a node \<open>b\<close> outside, with an edge between them.\<close>

definition exampleNested :: "layoutGraph result" where
  "exampleNested =
     rbind (setNode ''s'' (Some (Some exampleNode)) (setGraph (Some exampleLabel) (newGraph None (Some True) (Some True)))) (\<lambda>g1.
     rbind (setNode ''a'' (Some (Some exampleNode)) g1) (\<lambda>g2.
     rbind (setNode ''b'' (Some (Some exampleNode)) g2) (\<lambda>g3.
     rbind (setParent ''a'' (Some ''s'') g3) (setEdge ''a'' ''b'' (Some (Some exampleEdge)) None))))"

lemma exampleNested_ok:
  "\<exists>g. exampleNested = Inr g \<and> nest_input g \<and> node_set g = {''s'', ''a'', ''b''} \<and> \<not> childless g ''s'' \<and> set (edges g) = {\<lparr>e_v = ''a'', e_w = ''b'', e_name = None\<rparr>}"
proof -
  let ?new = "newGraph None (Some True) (Some True) :: layoutGraph"
  have "layout_ok ?new" using graph_ok_new [of None "Some True" "Some True"] by (simp add: layout_ok_def clean_graph_def newGraph_def edges_def Let_def)
  then have "compound_ok ?new" by (simp add: compound_ok_def newGraph_def Let_def)
  note C = compound_setGraph [OF this, of "Some exampleLabel"]
  let ?g = "setGraph (Some exampleLabel) ?new"
  have n0: "abs_nodes ?g = Map.empty" "abs_edges ?g = Map.empty" "up ?g = Map.empty" "node_set ?g = {}" "f_label ?g = Some exampleLabel"
    by (simp_all add: setGraph_def newGraph_def abs_nodes_def abs_edges_def edges_def node_set_def fun_eq_iff Let_def)
  obtain g1 where g1: "setNode ''s'' (Some (Some exampleNode)) ?g = Inr g1" "compound_ok g1" "f_label g1 = Some exampleLabel"
    "abs_nodes g1 = [''s'' \<mapsto> Some exampleNode]" "abs_edges g1 = Map.empty" "up g1 = [''s'' \<mapsto> GRAPH_NODE]"
    using compound_setNode [OF C(1), of "''s''" "Some exampleNode"] n0 by (auto simp: GRAPH_NODE_def)
  obtain g2 where g2: "setNode ''a'' (Some (Some exampleNode)) g1 = Inr g2" "compound_ok g2" "f_label g2 = Some exampleLabel"
    "abs_nodes g2 = [''s'' \<mapsto> Some exampleNode, ''a'' \<mapsto> Some exampleNode]" "abs_edges g2 = Map.empty" "up g2 = [''s'' \<mapsto> GRAPH_NODE, ''a'' \<mapsto> GRAPH_NODE]"
    using compound_setNode [OF g1(2), of "''a''" "Some exampleNode"] g1 by (auto simp: GRAPH_NODE_def node_set_abs)
  obtain g3 where g3: "setNode ''b'' (Some (Some exampleNode)) g2 = Inr g3" "compound_ok g3" "f_label g3 = Some exampleLabel"
    "abs_nodes g3 = [''s'' \<mapsto> Some exampleNode, ''a'' \<mapsto> Some exampleNode, ''b'' \<mapsto> Some exampleNode]" "abs_edges g3 = Map.empty"
    "up g3 = [''s'' \<mapsto> GRAPH_NODE, ''a'' \<mapsto> GRAPH_NODE, ''b'' \<mapsto> GRAPH_NODE]"
    using compound_setNode [OF g2(2), of "''b''" "Some exampleNode"] g2 by (auto simp: GRAPH_NODE_def node_set_abs)
  have ns: "node_set g3 = {''s'', ''a'', ''b''}" using g3(4) by (auto simp: node_set_abs)
  obtain g4 where g4: "setParent ''a'' (Some ''s'') g3 = Inr g4" "compound_ok g4" "f_label g4 = Some exampleLabel" "abs_nodes g4 = abs_nodes g3"
    "abs_edges g4 = Map.empty" "up g4 = (up g3)(''a'' \<mapsto> ''s'')"
  proof -
    have "up g3 x \<noteq> Some ''a''" for x unfolding g3(6) by (simp add: GRAPH_NODE_def)
    then show thesis using compound_setParent [OF g3(2), of "''a''" "''s''"] ns g3(3,5) that by auto
  qed
  obtain g5 where g5: "setEdge ''a'' ''b'' (Some (Some exampleEdge)) None g4 = Inr g5" "compound_ok g5" "f_label g5 = Some exampleLabel" "abs_nodes g5 = abs_nodes g3"
    "abs_edges g5 = [\<lparr>e_v = ''a'', e_w = ''b'', e_name = None\<rparr> \<mapsto> Some exampleEdge]" "up g5 = (up g3)(''a'' \<mapsto> ''s'')"
    using compound_setEdge [OF g4(2), of "''a''" "''b''" "Some exampleEdge"] g4 ns by (auto simp: clean_def EDGE_KEY_DELIM_def node_set_abs)
  have ns5: "node_set g5 = {''s'', ''a'', ''b''}" using g5(4) ns by (simp add: node_set_abs)
  have es: "set (edges g5) = {\<lparr>e_v = ''a'', e_w = ''b'', e_name = None\<rparr>}" using dom_abs_edges [OF compound_okD(3) [OF g5(2)]] g5(5) by simp
  have "edgeOfObj e g5 = Some exampleEdge" if "e \<in> set (edges g5)" for e
    using abs_edge_label [OF compound_okD(3) [OF g5(2)] that] that es g5(5) by simp
  moreover have "node v g5 = Some exampleNode" if "v \<in> node_set g5" for v
  proof -
    have "v = ''s'' \<or> v = ''a'' \<or> v = ''b''" using that ns5 by simp
    then have "abs_nodes g5 v = Some (Some exampleNode)" unfolding g5(4) g3(4) by auto
    then show ?thesis by (simp add: node_def abs_nodes_def)
  qed
  moreover have "clean v" if "v \<in> node_set g5" for v using that unfolding ns5 by (auto simp: clean_def EDGE_KEY_DELIM_def)
  moreover have "n_borderTop exampleNode = None" "n_borderBottom exampleNode = None" "\<not> l_nestingEdge exampleEdge"
    by (simp_all add: exampleNode_def plainNode_def exampleEdge_def)
  ultimately have "nest_input g5" using g5(2,3) by (simp add: nest_input_def graph_def)
  moreover have "(''a'', ''s'') \<in> below_parent g5" using g5(6) by (simp add: parent_rel_def)
  then have "\<not> childless g5 ''s''" by (auto simp: childless_def)
  moreover have "exampleNested = Inr g5" using g1(1) g2(1) g3(1) g4(1) g5(1) by (simp add: exampleNested_def)
  ultimately show ?thesis using ns5 es by blast
qed

theorem nesting_connects_the_graph_witness:
  "\<exists>g h c' k. exampleNested = Inr g \<and> nesting_run (g, 0) = Inr (h, c') \<and> nesting_cleanup h = Inr k \<and>
     (\<exists>l tp. node ''s'' h = Some l \<and> n_borderTop l = Some tp \<and> parent tp h = Some ''s'') \<and>
     set (edges k) = {\<lparr>e_v = ''a'', e_w = ''b'', e_name = None\<rparr>}"
proof -
  obtain g where g: "exampleNested = Inr g" "nest_input g" "node_set g = {''s'', ''a'', ''b''}" "\<not> childless g ''s''"
    "set (edges g) = {\<lparr>e_v = ''a'', e_w = ''b'', e_name = None\<rparr>}" using exampleNested_ok by blast
  obtain h c' k where h: "nesting_run (g, 0) = Inr (h, c')" "nesting_cleanup h = Inr k"
    "\<forall>x \<in> node_set g. \<not> childless g x \<longrightarrow> (\<exists>l tp bt. node x h = Some l \<and> n_borderTop l = Some tp \<and> n_borderBottom l = Some bt \<and>
       parent tp h = Some x \<and> parent bt h = Some x)" "set (edges k) = set (edges g)"
    using nesting_connects_the_graph [OF g(2), of 0] by blast
  have "''s'' \<in> node_set g" using g(3) by simp
  then show ?thesis using g(1,4,5) h by metis
qed

end
