(* ===== verification/Spec2Isabelle.thy ===== *)
theory Spec2Isabelle
  imports Graphlib_Spec Graphlib_Floyd Graphlib_Topsort Graphlib_Json Dm_Graph Dm_Sessions Dm_Polling Main_Deploy Graph_Init
    Dagre_Translate Dagre_Intersect Dagre_Acyclic Dagre_Feasible Dagre_Self Dagre_Nesting
begin

text \<open>
  \<^bold>\<open>The program.\<close> DALiuGE is a workflow execution system. Its Python engine and translator serve web pages, and
  this development is about the JavaScript that runs in those pages:

  \<^item> \<^verbatim>\<open>daliuge-engine/dlg/manager/web/static/js/dm.js\<close> runs in the pages of the data managers: it lists the sessions
    of a manager with buttons to cancel and to delete them, polls the status of a session, draws the session's
    graph of drops while it is deployed and recolours it while it runs.
  \<^item> \<^verbatim>\<open>daliuge-translator/dlg/translator/web/main.js\<close> runs in the page of the translator: the settings that say where
    graphs can be deployed to, and the deployment of a translated graph on a manager.
  \<^item> \<^verbatim>\<open>daliuge-translator/dlg/translator/web/graph_init.js\<close> and \<^verbatim>\<open>src/data_prep.js\<close> show the translated graph there.
  \<^item> \<^verbatim>\<open>d3/dagre-d3.js\<close> is the bundle both pages draw with. The pages keep their graphs in its \<open>graphlib\<close>, run their
    polling on its \<open>d3-timer\<close>, and have the graphs laid out by its \<open>dagre\<close> and drawn by \<open>dagre-d3\<close>.

  \<^bold>\<open>Common ground.\<close> \<open>Js_Prelude\<close> has what the code takes from the language: a call that may throw returns
  \<open>jsError + 'a\<close>, a loop whose body may throw is \<open>rfold\<close>, a plain object is an association list in the order of
  insertion with \<open>get\<close>, \<open>put\<close>, \<open>del\<close> and \<open>keys\<close>; the locale \<open>key_store\<close> states the laws of a store of properties and is
  interpreted on these operations. \<open>Js_Strings\<close> has the string methods, \<open>Js_Number\<close> the numbers with infinity (an
  instance of the library's ordered monoids), \<open>Transitions\<close> labelled transition systems and the locale
  \<open>simulation\<close>, from which a simulation relation gives a refinement of runs.

  \<^bold>\<open>graphlib.\<close> \<open>Graphlib_Graph\<close> translates the class \<open>Graph\<close>: the record \<open>Graph\<close> has the fields of the object, one
  definition stands for each method. \<open>Graphlib_Wf\<close> states the representation invariant table by table and
  \<open>Graphlib_Inv\<close> proves that every mutating method keeps it. \<open>Graphlib_Spec\<close> is the abstract contract: a graph is a map from ids
  to labels and a map from edges to labels; \<open>setNode\<close>, \<open>setEdge\<close>, \<open>removeEdge\<close> and \<open>removeNode\<close> are updates of these
  maps and the queries read them. \<open>Graphlib_Queue\<close> is the binary heap with its index of keys and its contract as the
  locale \<open>min_queue\<close>, on which \<open>Graphlib_Dijkstra\<close> proves that \<open>dijkstra\<close> finds shortest walks.
  \<open>Graphlib_Traverse\<close> proves the traversals and the components complete, both by interpretations of one
  locale \<open>marking\<close> on depth-first visits; \<open>Graphlib_Topsort\<close> that \<open>topsort\<close> sorts or throws exactly when there is a cycle;
  \<open>Graphlib_Json\<close> that reading what was written gives the same graph. \<open>Graphlib_Copy\<close> has the copies of graphs, with
  \<open>filterNodes\<close>, and \<open>Graphlib_Floyd\<close> proves that \<open>floydWarshall\<close> agrees with \<open>dijkstraAll\<close>.

  \<^bold>\<open>The manager's pages.\<close> \<open>Dm_Status\<close> has the status vocabulary and the reduction of a tree of statuses to
  one. \<open>Dm_Graph\<close> draws the drops of a session on the graph; nodes and edges are two interpretations of the
  locale \<open>incremental\<close> of idempotent updates. \<open>Dm_Sessions\<close> has the session tables, the guarded requests of their buttons
  and the progress bar. \<open>D3_Timer\<close> is the timer queue of d3 and \<open>Dm_Polling\<close> the polling as a transition system over
  it, with the exceptions of handlers and of timers that are not assigned yet, and an abstract machine of its phases that it refines.

  \<^bold>\<open>The translator's page.\<close> \<open>Main_Settings\<close> has the stored deploy methods and the settings dialog, whose rows
  are what the browser makes of the attributes in the built HTML; \<open>Main_Deploy\<close> has the
  deployment as the trace of requests, with their bodies, for every behaviour of the network, \<open>Graph_Init\<close> the preparation of the graph views.

  \<^bold>\<open>dagre.\<close> \<open>Dagre_Graph\<close> is the layout graph: a graphlib graph whose labels are the records \<open>layoutNode\<close>, \<open>layoutEdge\<close> and
  \<open>layoutLabel\<close>, which the phases change in place. \<open>Dagre_Coordinates\<close> (the direction of the ranks, space for
  labels), \<open>Dagre_Translate\<close> (margins and size) and \<open>Dagre_Intersect\<close> (where an edge meets a node) are its
  phases on coordinates. \<open>Dagre_List\<close> is the linked list, as pointers in an explicit store, with its contract as the locale
  \<open>queue_row\<close>; \<open>Dagre_Greedy\<close> and \<open>Dagre_Greedy_Ok\<close> run the greedy heuristic for feedback arc sets on
  it, \<open>Dagre_Feedback\<close> says what a feedback arc set is, and \<open>Dagre_Acyclic\<close> proves that \<open>acyclic.run\<close> breaks all cycles
  and that \<open>acyclic.undo\<close> restores the graph. \<open>Dagre_Rank\<close> ranks by longest paths, and \<open>Dagre_Feasible\<close> proves that the tight
  tree ends as a spanning tree. \<open>Dagre_Util\<close> has the simplified and the flattened copy of a layout graph.
  \<open>Dagre_Nesting\<close> is the nesting graph, with the proof that it makes the nodes that get ranks connected, for any hierarchy of
  subgraphs. \<open>Dagre_Normalize\<close> splits long edges into chains of dummy nodes and proves that \<open>undo\<close> gives them back with the
  coordinates of the dummies.

  The order of the nodes within the ranks is six theories. \<open>Dagre_Crossing\<close> proves that the accumulator tree counts
  the crossings, \<open>Dagre_Sort\<close> that sorting by barycenters loses no entry, \<open>Dagre_Conflicts\<close> that merging the entries that
  conflict with constraints loses no node, \<open>Dagre_Subgraph\<close> that a whole layer with its subgraphs comes out of it,
  \<open>Dagre_Layers\<close> that the first order contains every node and that orders written to the nodes are read back;
  \<open>Dagre_Order\<close> puts these together: the layer graphs, whose labels are the objects of the layout graph, the sweeps over them
  and the loop that keeps the order with the fewest crossings, which is proved to end. \<open>Dagre_Self\<close> makes room in this order for the self edges, which the layout
  removes at its beginning and brings back at its end.

  \<^bold>\<open>Bounds.\<close> Recursion and loops that are not structural have a bound, and running out of it is the error \<open>Diverges\<close>;
  every theorem about such code shows that the bound is enough. A depth-first visit never goes deeper than
  the number of nodes plus one (\<open>doDfs\<close>, \<open>componentDfs\<close>, \<open>topVisit\<close>, \<open>fasVisit\<close>, \<open>rankVisit\<close>, \<open>tightDfs\<close>, \<open>initVisit\<close>), since a visit marks its
  node before it goes on. The walk to the ancestors in \<open>setParent\<close> and the loops of the greedy heuristic
  and of \<open>feasibleTree\<close> have the number of nodes plus one, since each turn finds or removes a node; the
  walk over a linked list in its \<open>toString\<close> has the length of the list plus one. The recursions over the hierarchy of
  subgraphs (\<open>sortLevel\<close>, \<open>depthVisit\<close>, \<open>nestVisit\<close>, \<open>findParent\<close>, \<open>constraintLoop\<close>) and the search for an unused name (\<open>freshId\<close>) have
  the number of nodes plus one, the walk along a chain of dummies (\<open>undoLoop\<close>) too; merging entries (\<open>resolveLoop\<close>) has their
  number plus one. The sweeps of \<open>order\<close> have \<open>sweepBound\<close>: one of any four lowers the number of crossings, which the
  weights of the edges bound. The heap, the main loop of
  \<open>dijkstra\<close> and the reduction of statuses are total functions with measures, and \<open>timerFlush\<close>, which a callback may
  keep alive, is a partial function into an option.

  \<^bold>\<open>Abstractions.\<close> An object has its own properties only, and the paths of lodash's \<open>_.has\<close> (keys with a dot
  or a bracket) are not taken apart. A call that throws gives the error alone; what it had changed by then is not kept,
  except where the page goes on after the error. Characters are those of HOL's strings.
  Numbers are integers where the code adds, compares and counts, reals in the geometry; \<open>NaN\<close> and \<open>undefined\<close> are
  \<open>None\<close> where the code can meet them; barycenters are real numbers with \<open>NaN\<close> and the infinities (\<open>jsnum\<close>). No two nodes or edges
  of one graph share a label object; a layer graph shares the labels of the layout graph, which \<open>currentLabels\<close> reads when
  they are used. The counter of \<open>_.uniqueId\<close>, the
  answers of the network, the clock, URL parsing, \<open>JSON.parse\<close>, the compression library \<open>fflate\<close>, the browser's decoding of character
  references, whether a handler of the page throws, and the user's clicks are arguments; requests with their bodies, alerts and changes of
  the page are lists of effects; the browser's local storage is a record.

  \<^bold>\<open>Not modelled.\<close> The Python engine, translator and common packages, the HTML, the build and the tests, which are
  not the language of the model; d3 besides the timer, lodash, jQuery, bootstrap, echarts, rollup
  and the minified bundles, which are libraries; the second copy of the bundle, which is the same text; of the own
  code what only sets up the page (charts, canvas, downloads). Of dagre the network simplex, the Brandes-Koepf
  coordinates, border segments, the parents of dummies, proxies of edge labels and the removal of empty ranks, and
  of graphlib the algorithms of Tarjan and Prim. For that reason \<open>runLayout\<close>, which calls all phases one after the
  other, is not a definition here, and each phase has its own theorem.
\<close>

end
